(* ===== verification/Prelude.thy ===== *)
theory Prelude
  imports Main "HOL-Library.Word" "HOL-Library.Multiset"
begin

text \<open>
  What every component of the kernel model shares: the fixed-width integer types of
  \<^verbatim>\<open>types/number.h\<close>, the ways a kernel routine can fail to return, the sequencing of routines
  that may fail to return, and the arithmetic of address ranges modulo \<open>2 ^ 64\<close>.
\<close>

unbundle bit_operations_syntax

section \<open>Integer types\<close>

type_synonym u8 = "8 word"
type_synonym u16 = "16 word"
type_synonym u32 = "32 word"
type_synonym u64 = "64 word"
type_synonym addr = "64 word"

named_theorems wnat \<open>transfer of 64-bit word facts to natural numbers\<close>
named_theorems extents \<open>address ranges\<close>
named_theorems mem_simps \<open>loads after stores\<close>
named_theorems run_simps \<open>sequencing of routines\<close>

section \<open>Routines that may not return\<close>

text \<open>
  A failed \<^verbatim>\<open>ASSERT\<close>, a \<^verbatim>\<open>PANIC\<close> and a \<^verbatim>\<open>TODO\<close> print a message and loop forever
  (\<^verbatim>\<open>assert.h\<close>); a dereference of a null pointer, a call through one, an out-of-bounds access of
  a fixed array, a division by zero and a read past the variadic arguments are undefined
  behaviour; \<open>Hang\<close> is a loop of the code that never ends.  A routine returns \<open>Inr\<close> of its
  result and \<open>Inl\<close> of the reason when it does not return.
\<close>

datatype halt =
    Assert_failed
  | Panicked
  | Todo_reached
  | Null_deref
  | Null_call
  | Bad_call
  | Out_of_bounds
  | Div_by_zero
  | Va_exhausted
  | Unreachable
  | Hang

definition and_then :: "('e + 'a) \<Rightarrow> ('a \<Rightarrow> 'e + 'b) \<Rightarrow> 'e + 'b" where
  "and_then r f = (case r of Inl e \<Rightarrow> Inl e | Inr x \<Rightarrow> f x)"

lemma and_then_Inl [simp]: "and_then (Inl e) f = Inl e"
  by (simp add: and_then_def)

lemma and_then_Inr [simp]: "and_then (Inr x) f = f x"
  by (simp add: and_then_def)

lemma and_then_eq_Inr: "and_then r f = Inr y \<longleftrightarrow> (\<exists>x. r = Inr x \<and> f x = Inr y)"
  by (cases r) simp_all

lemma and_then_eq_Inl:
  "and_then r f = Inl e \<longleftrightarrow> r = Inl e \<or> (\<exists>x. r = Inr x \<and> f x = Inl e)"
  by (cases r) auto

lemma and_then_assoc: "and_then (and_then r f) g = and_then r (\<lambda>x. and_then (f x) g)"
  by (cases r) simp_all

lemma and_then_cong [fundef_cong]:
  "r = r' \<Longrightarrow> (\<And>x. r' = Inr x \<Longrightarrow> f x = g x) \<Longrightarrow> and_then r f = and_then r' g"
  by (cases r') simp_all

text \<open>\<^verbatim>\<open>ASSERT(c)\<close>, and the guard of a pointer dereference.\<close>

definition kassert :: "bool \<Rightarrow> (halt + 'a) \<Rightarrow> halt + 'a" where
  "kassert c k = (if c then k else Inl Assert_failed)"

definition deref :: "addr \<Rightarrow> (halt + 'a) \<Rightarrow> halt + 'a" where
  "deref p k = (if p = 0 then Inl Null_deref else k)"

lemma kassert_simps [simp]: "kassert True k = k" "kassert False k = Inl Assert_failed"
  by (simp_all add: kassert_def)

lemma kassert_eq_Inr: "kassert c k = Inr y \<longleftrightarrow> c \<and> k = Inr y"
  by (simp add: kassert_def)

lemma deref_null [simp]: "deref 0 k = Inl Null_deref"
  by (simp add: deref_def)

lemma deref_ok [simp]: "p \<noteq> 0 \<Longrightarrow> deref p k = k"
  by (simp add: deref_def)

lemma deref_eq_Inr: "deref p k = Inr y \<longleftrightarrow> p \<noteq> 0 \<and> k = Inr y"
  by (simp add: deref_def)

lemmas run_eq_Inr = and_then_eq_Inr kassert_eq_Inr deref_eq_Inr

section \<open>64-bit arithmetic on natural numbers\<close>

lemma unat_lt_2_64: "unat (x :: u64) < 18446744073709551616"
  using unsigned_less [of x, where ?'a = nat] by simp

lemma unat_add_eq [wnat]:
  "unat (x :: u64) + unat y < 2 ^ 64 \<Longrightarrow> unat (x + y) = unat x + unat y"
  by (simp add: unat_word_ariths)

lemma unat_sub_eq [wnat]: "(y :: u64) \<le> x \<Longrightarrow> unat (x - y) = unat x - unat y"
  by (rule unat_sub)

lemma unat_of_nat_eq [wnat]: "n < 2 ^ 64 \<Longrightarrow> unat (of_nat n :: u64) = n"
  by (simp add: unsigned_of_nat take_bit_nat_eq_self)

lemma unat_add_of_nat [wnat]:
  "unat (x :: u64) + n < 2 ^ 64 \<Longrightarrow> unat (x + of_nat n) = unat x + n"
  by (subst unat_add_eq) (simp_all add: unat_of_nat_eq)

lemma unat_diff_cases:
  "unat (x - y :: u64) = (if unat y \<le> unat x then unat x - unat y else unat x + 2 ^ 64 - unat y)"
  using unat_sub_if' [of x y] by simp

lemma unat_uminus: "(y :: u64) \<noteq> 0 \<Longrightarrow> unat (- y) = 2 ^ 64 - unat y"
  using unat_diff_cases [of 0 y] by (simp add: unat_gt_0 flip: unat_gt_0)

lemma unat_succ_less: "(i :: u64) < n \<Longrightarrow> unat (i + 1) = Suc (unat i)"
  using unat_lt_2_64 [of n] by (subst unat_add_eq) (simp_all add: word_less_nat_alt)

lemma word_succ_measure:
  "(i :: u64) < n \<Longrightarrow> unat n - unat (i + 1) < unat n - unat i"
  by (simp add: unat_succ_less word_less_nat_alt)

section \<open>Address ranges\<close>

text \<open>
  \<open>extent a n\<close> is the \<open>n\<close> bytes from address \<open>a\<close> on, modulo \<open>2 ^ 64\<close> as the hardware counts.
\<close>

definition extent :: "addr \<Rightarrow> nat \<Rightarrow> addr set" where
  "extent a n = {x. unat (x - a) < n}"

lemma extent_0 [simp]: "extent a 0 = {}"
  by (simp add: extent_def)

lemma mem_extent: "x \<in> extent a n \<longleftrightarrow> unat (x - a) < n"
  by (simp add: extent_def)

lemma extent_self [simp]: "a \<in> extent a n \<longleftrightarrow> 0 < n"
  by (simp add: mem_extent)

lemma extent_mono: "n \<le> k \<Longrightarrow> extent a n \<subseteq> extent a k"
  by (auto simp: mem_extent)

lemma extent_nowrap [extents]:
  assumes "unat a + n \<le> 2 ^ 64"
  shows "x \<in> extent a n \<longleftrightarrow> unat a \<le> unat x \<and> unat x < unat a + n"
proof (cases "a \<le> x")
  case True
  then show ?thesis by (auto simp: mem_extent unat_sub word_le_nat_alt)
next
  case False
  then show ?thesis using assms by (auto simp: mem_extent unat_diff_cases word_le_nat_alt)
qed

lemma extent_offset:
  assumes "i + j \<le> n" and "n \<le> 2 ^ 64"
  shows "extent (a + of_nat i) j \<subseteq> extent a n"
proof
  fix x assume "x \<in> extent (a + of_nat i) j"
  then have lt: "unat (x - (a + of_nat i)) < j" by (simp add: mem_extent)
  have "x - a = (x - (a + of_nat i)) + of_nat i" by simp
  moreover have "unat (x - (a + of_nat i)) + i < 2 ^ 64" using lt assms by simp
  ultimately have "unat (x - a) = unat (x - (a + of_nat i)) + i"
    by (metis unat_add_of_nat)
  with lt assms show "x \<in> extent a n" by (simp add: mem_extent)
qed

lemma extent_disjoint_iff:
  assumes "0 < n" and "0 < k"
  shows "extent a n \<inter> extent b k = {} \<longleftrightarrow> n \<le> unat (b - a) \<and> k \<le> unat (a - b)"
proof
  assume d: "extent a n \<inter> extent b k = {}"
  have "b \<in> extent b k" "a \<in> extent a n" using assms by auto
  with d have "b \<notin> extent a n" "a \<notin> extent b k" by blast+
  then show "n \<le> unat (b - a) \<and> k \<le> unat (a - b)" by (simp add: mem_extent)
next
  assume h: "n \<le> unat (b - a) \<and> k \<le> unat (a - b)"
  show "extent a n \<inter> extent b k = {}"
  proof (rule ccontr)
    assume "extent a n \<inter> extent b k \<noteq> {}"
    then obtain x where x: "unat (x - a) < n" "unat (x - b) < k"
      by (auto simp: mem_extent)
    have ne: "b - a \<noteq> 0" using h assms by auto
    have ab: "unat (a - b) = 2 ^ 64 - unat (b - a)"
      using unat_uminus [OF ne] by simp
    have "unat (x - b) + unat (b - a) < 18446744073709551616"
      using x(2) h ab unat_lt_2_64 [of "b - a"] by (simp, linarith)
    then have "unat (x - b) + unat (b - a) < 2 ^ 64" by simp
    then have "unat ((x - b) + (b - a)) = unat (x - b) + unat (b - a)"
      by (rule unat_add_eq)
    then have "unat (x - a) = unat (x - b) + unat (b - a)" by simp
    with x(1) h show False by simp
  qed
qed

lemma extent_split:
  assumes "n + k \<le> 2 ^ 64"
  shows "extent a (n + k) = extent a n \<union> extent (a + of_nat n) k"
proof (intro equalityI subsetI)
  fix x assume x: "x \<in> extent a (n + k)"
  show "x \<in> extent a n \<union> extent (a + of_nat n) k"
  proof (cases "unat (x - a) < n")
    case True
    then show ?thesis by (simp add: mem_extent)
  next
    case False
    have "n < 2 ^ 64" using False unat_lt_2_64 [of "x - a"] by simp
    then have un: "unat (of_nat n :: u64) = n" by (rule unat_of_nat_eq)
    have "x - (a + of_nat n) = (x - a) - of_nat n" by simp
    moreover have "(of_nat n :: u64) \<le> x - a"
      using False by (simp add: word_le_nat_alt un)
    ultimately have "unat (x - (a + of_nat n)) = unat (x - a) - n"
      by (metis un unat_sub)
    then show ?thesis using False x by (simp add: mem_extent)
  qed
next
  fix x assume "x \<in> extent a n \<union> extent (a + of_nat n) k"
  then show "x \<in> extent a (n + k)"
    using extent_mono [of n "n + k" a] extent_offset [of n k "n + k" a] assms by auto
qed

lemma extent_split_disjoint:
  assumes "n + k \<le> 2 ^ 64"
  shows "extent a n \<inter> extent (a + of_nat n) k = {}"
proof (cases "0 < n \<and> 0 < k")
  case True
  then have n: "n < 2 ^ 64" using assms by simp
  have "a - (a + of_nat n) = - (of_nat n :: u64)" by simp
  moreover have "(of_nat n :: u64) \<noteq> 0"
    using True n by (metis unat_0 unat_of_nat_eq less_numeral_extra(3))
  ultimately have "unat (a - (a + of_nat n)) = 2 ^ 64 - n"
    using n by (simp add: unat_uminus unat_of_nat_eq)
  then show ?thesis
    using True assms n by (simp add: extent_disjoint_iff unat_of_nat_eq)
qed auto

text \<open>
  Families of address ranges that do not touch each other: what the allocators keep between
  their headers, their free space and the blocks they handed out.
\<close>

definition apart :: "addr \<times> nat \<Rightarrow> addr \<times> nat \<Rightarrow> bool" where
  "apart x y \<longleftrightarrow> extent (fst x) (snd x) \<inter> extent (fst y) (snd y) = {}"

fun all_apart :: "(addr \<times> nat) list \<Rightarrow> bool" where
  "all_apart [] = True"
| "all_apart (x # xs) = ((\<forall>y \<in> set xs. apart x y) \<and> all_apart xs)"

definition covered :: "(addr \<times> nat) list \<Rightarrow> addr set" where
  "covered xs = (\<Union>x \<in> set xs. extent (fst x) (snd x))"

lemma apart_sym: "apart x y \<longleftrightarrow> apart y x"
  by (auto simp: apart_def)

lemma apart_pair: "apart (a, n) (b, k) \<longleftrightarrow> extent a n \<inter> extent b k = {}"
  by (simp add: apart_def)

lemma covered_Nil [simp]: "covered [] = {}"
  by (simp add: covered_def)

lemma covered_Cons [simp]: "covered (x # xs) = extent (fst x) (snd x) \<union> covered xs"
  by (simp add: covered_def)

lemma covered_append [simp]: "covered (xs @ ys) = covered xs \<union> covered ys"
  by (simp add: covered_def)

lemma all_apart_append:
  "all_apart (xs @ ys) \<longleftrightarrow> all_apart xs \<and> all_apart ys \<and> (\<forall>x \<in> set xs. \<forall>y \<in> set ys. apart x y)"
  by (induction xs) auto

lemma apart_covered: "(\<forall>y \<in> set ys. apart x y) \<longleftrightarrow> extent (fst x) (snd x) \<inter> covered ys = {}"
  by (auto simp: apart_def covered_def)

lemma all_apart_covered:
  "(\<forall>x \<in> set xs. \<forall>y \<in> set ys. apart x y) \<longleftrightarrow> covered xs \<inter> covered ys = {}"
  by (induction xs) (auto simp: apart_covered)

lemma all_apart_mset: "mset xs = mset ys \<Longrightarrow> all_apart xs = all_apart ys"
proof (induction xs arbitrary: ys)
  case Nil
  then show ?case by simp
next
  case (Cons x xs)
  from Cons.prems have "x \<in> set ys"
    by (metis list.set_intros(1) mset_eq_setD)
  then obtain as bs where ys: "ys = as @ x # bs" by (meson split_list)
  with Cons.prems have m: "mset xs = mset (as @ bs)" by simp
  then have "set xs = set as \<union> set bs" by (metis mset_eq_setD set_append)
  with Cons.IH [OF m] show ?case
    by (auto simp: ys all_apart_append apart_sym)
qed

lemma all_apart_carve:
  assumes "all_apart ((a, n) # xs)" and "extent b k \<subseteq> extent a n" and "extent c j \<subseteq> extent a n"
    and "extent b k \<inter> extent c j = {}"
  shows "all_apart ((b, k) # (c, j) # xs)"
  using assms by (fastforce simp: apart_def)

lemma all_apart_shrink:
  assumes "all_apart ((a, n) # xs)" and "extent b k \<subseteq> extent a n"
  shows "all_apart ((b, k) # xs)"
  using assms by (fastforce simp: apart_def)

lemma all_apart_covered_hd: "all_apart (x # xs) \<Longrightarrow> extent (fst x) (snd x) \<inter> covered xs = {}"
  by (auto simp: apart_def covered_def)

lemma covered_mono: "set xs \<subseteq> set ys \<Longrightarrow> covered xs \<subseteq> covered ys"
  by (auto simp: covered_def)

lemma extent_subset_covered: "(a, n) \<in> set xs \<Longrightarrow> extent a n \<subseteq> covered xs"
  by (force simp: covered_def)

lemma covered_iff: "x \<in> covered xs \<longleftrightarrow> (\<exists>(a, n) \<in> set xs. x \<in> extent a n)"
  by (auto simp: covered_def) force

lemma all_apart_perm: "all_apart xs \<Longrightarrow> mset xs = mset ys \<Longrightarrow> all_apart ys"
  using all_apart_mset by blast

lemma all_apart_append_covered:
  "all_apart (xs @ ys) \<longleftrightarrow> all_apart xs \<and> all_apart ys \<and> covered xs \<inter> covered ys = {}"
  by (simp add: all_apart_append all_apart_covered)

lemma all_apart_Cons_covered:
  "all_apart (x # xs) \<longleftrightarrow> extent (fst x) (snd x) \<inter> covered xs = {} \<and> all_apart xs"
  by (simp add: apart_covered)

lemma set_tl_subset: "set (tl xs) \<subseteq> set xs"
  by (cases xs) auto

lemma extent_within:
  assumes "unat o1 \<le> unat p" and "unat p + n \<le> unat e1" and "o1 \<le> e1"
  shows "extent p n \<subseteq> extent o1 (unat (e1 - o1))"
proof
  fix x assume "x \<in> extent p n"
  moreover have "unat p + n \<le> 2 ^ 64" using assms(2) unat_lt_2_64 [of e1] by simp
  ultimately have "unat p \<le> unat x" "unat x < unat p + n" by (simp_all add: extent_nowrap)
  moreover have "unat (e1 - o1) = unat e1 - unat o1" using assms(3) by (rule unat_sub_eq)
  moreover have "unat o1 + (unat e1 - unat o1) \<le> 2 ^ 64"
    using assms(3) unat_lt_2_64 [of e1] by (simp add: word_le_nat_alt)
  ultimately show "x \<in> extent o1 (unat (e1 - o1))"
    using assms by (simp add: extent_nowrap word_le_nat_alt)
qed

lemma extent_carve:
  assumes "o1 \<le> e1" and "unat n \<le> unat (e1 - o1)"
  shows "extent o1 (unat n) \<subseteq> extent o1 (unat (e1 - o1))"
    and "extent (o1 + n) (unat (e1 - (o1 + n))) \<subseteq> extent o1 (unat (e1 - o1))"
    and "extent o1 (unat n) \<inter> extent (o1 + n) (unat (e1 - (o1 + n))) = {}"
    and "unat (e1 - (o1 + n)) = unat (e1 - o1) - unat n" and "o1 + n \<le> e1"
    and "unat (o1 + n) = unat o1 + unat n"
proof -
  have d: "unat (e1 - o1) = unat e1 - unat o1" "unat o1 \<le> unat e1"
    using assms(1) by (simp_all add: unat_sub_eq word_le_nat_alt)
  have s: "unat (o1 + n) = unat o1 + unat n"
    using d assms(2) unat_lt_2_64 [of e1] by (intro unat_add_eq) simp
  then show "unat (o1 + n) = unat o1 + unat n" .
  show le: "o1 + n \<le> e1" using d s assms(2) by (simp add: word_le_nat_alt)
  show r: "unat (e1 - (o1 + n)) = unat (e1 - o1) - unat n"
    unfolding unat_sub_eq [OF le] d s using assms(2) d by simp
  show "extent o1 (unat n) \<subseteq> extent o1 (unat (e1 - o1))" using assms(2) by (rule extent_mono)
  show "extent (o1 + n) (unat (e1 - (o1 + n))) \<subseteq> extent o1 (unat (e1 - o1))"
    using s r d assms by (intro extent_within) auto
  show "extent o1 (unat n) \<inter> extent (o1 + n) (unat (e1 - (o1 + n))) = {}"
    using extent_split_disjoint [of "unat n" "unat (e1 - (o1 + n))" o1] r assms(2)
      unat_lt_2_64 [of "e1 - o1"] by simp
qed

text \<open>Ranges that do not touch each other cannot be longer than the address space together.\<close>

lemma card_extent:
  assumes "n \<le> 2 ^ 64"
  shows "card (extent a n) = n" and "finite (extent a n)"
proof -
  have "extent a n = (\<lambda>i. a + of_nat i) ` {..<n}"
  proof (intro equalityI subsetI)
    fix x assume "x \<in> extent a n"
    then have "x = a + of_nat (unat (x - a))" "unat (x - a) < n" by (simp_all add: mem_extent)
    then show "x \<in> (\<lambda>i. a + of_nat i) ` {..<n}" by blast
  next
    fix x assume "x \<in> (\<lambda>i. a + of_nat i) ` {..<n}"
    then show "x \<in> extent a n" using assms by (auto simp: mem_extent unat_of_nat_eq)
  qed
  moreover have "inj_on (\<lambda>i. a + of_nat i :: addr) {..<n}"
    using assms by (intro inj_onI) (metis add_left_cancel lessThan_iff less_le_trans unat_of_nat_eq)
  ultimately show "card (extent a n) = n" "finite (extent a n)"
    by (simp_all add: card_image)
qed

lemma card_covered:
  "all_apart xs \<Longrightarrow> \<forall>x \<in> set xs. snd x \<le> 2 ^ 64 \<Longrightarrow> card (covered xs) = sum_list (map snd xs)"
proof (induction xs)
  case Nil
  then show ?case by simp
next
  case (Cons x xs)
  have fin: "finite (covered xs)"
    unfolding covered_def using Cons.prems(2) by (auto intro: card_extent)
  have "card (covered (x # xs)) = card (extent (fst x) (snd x)) + card (covered xs)"
    unfolding covered_Cons using Cons.prems fin all_apart_covered_hd [OF Cons.prems(1)]
    by (intro card_Un_disjoint) (auto intro: card_extent)
  then show ?case using Cons by (simp add: card_extent)
qed

lemma all_apart_sum:
  assumes "all_apart xs" and "\<forall>x \<in> set xs. snd x \<le> 2 ^ 64"
  shows "sum_list (map snd xs) \<le> 2 ^ 64"
proof -
  have "card (covered xs) \<le> card (UNIV :: addr set)"
    by (rule card_mono) simp_all
  then show ?thesis using card_covered [OF assms] by (simp add: card_word)
qed

end
