(* ===== verification/Numbers.thy ===== *)
theory Numbers
  imports Prelude
begin

text \<open>
  The alignment macros of \<^verbatim>\<open>types/number.h\<close>.  They compute on \<^verbatim>\<open>size_t\<close>, so everything is
  modulo \<open>2 ^ 64\<close>.  For an alignment that is a power of two they round to a multiple of it; the
  masking trick says nothing for other alignments, which matters for the slab allocator.
\<close>

definition ALIGN_UP :: "u64 \<Rightarrow> u64 \<Rightarrow> u64" where
  "ALIGN_UP v al = (v + al - 1) AND NOT (al - 1)"

definition ALIGN_DOWN :: "u64 \<Rightarrow> u64 \<Rightarrow> u64" where
  "ALIGN_DOWN v al = v AND NOT (al - 1)"

definition IS_ALIGNED :: "u64 \<Rightarrow> u64 \<Rightarrow> bool" where
  "IS_ALIGNED v al \<longleftrightarrow> v mod al = 0"

text \<open>\<^verbatim>\<open>RISCV_SV39_PAGE_SIZE\<close> and its larger siblings, of \<^verbatim>\<open>riscv.h\<close>.\<close>

abbreviation PAGE_SIZE :: u64 where "PAGE_SIZE \<equiv> 0x1000"
abbreviation MEGAPAGE_SIZE :: u64 where "MEGAPAGE_SIZE \<equiv> 0x200000"
abbreviation GIGAPAGE_SIZE :: u64 where "GIGAPAGE_SIZE \<equiv> 0x40000000"

section \<open>Masking is rounding down, for powers of two\<close>

lemma and_not_mask_eq: "(x :: u64) AND NOT (mask k) = push_bit k (drop_bit k x)"
  by (rule bit_word_eqI) (auto simp: bit_simps)

lemma unat_and_not_mask: "unat ((x :: u64) AND NOT (mask k)) = unat x div 2 ^ k * 2 ^ k"
proof -
  have "unat x div 2 ^ k * 2 ^ k \<le> unat x" by simp
  also have "\<dots> < 2 ^ 64" using unat_lt_2_64 [of x] by simp
  finally have "take_bit 64 (unat x div 2 ^ k * 2 ^ k) = unat x div 2 ^ k * 2 ^ k"
    by (rule take_bit_nat_eq_self)
  moreover have "unat (drop_bit k x) = unat x div 2 ^ k"
    unfolding unat_drop_bit_eq by (rule drop_bit_eq_div)
  ultimately show ?thesis
    by (simp only: and_not_mask_eq unsigned_push_bit_eq len_of_numeral_defs)
      (simp add: push_bit_eq_mult)
qed

lemma pow2_minus_1: "(2 :: u64) ^ k - 1 = mask k"
  by (simp add: mask_eq_exp_minus_1)

lemma unat_pow2 [simp]:
  assumes "k < 64"
  shows "unat ((2 :: u64) ^ k) = 2 ^ k"
proof -
  have "(2 :: nat) ^ k < 2 ^ 64" using assms by (intro power_strict_increasing) simp_all
  then have "unat (of_nat (2 ^ k) :: u64) = 2 ^ k" by (rule unat_of_nat_eq)
  then show ?thesis by simp
qed

lemma ALIGN_DOWN_pow2: "unat (ALIGN_DOWN v (2 ^ k)) = unat v div 2 ^ k * 2 ^ k"
  by (simp only: ALIGN_DOWN_def pow2_minus_1 unat_and_not_mask)

lemma ALIGN_UP_as_DOWN: "ALIGN_UP v al = ALIGN_DOWN (v + (al - 1)) al"
  by (simp add: ALIGN_UP_def ALIGN_DOWN_def add_diff_eq)

lemma ALIGN_UP_pow2:
  assumes "k < 64" and "unat v + (2 ^ k - 1) < 2 ^ 64"
  shows "unat (ALIGN_UP v (2 ^ k)) = (unat v + (2 ^ k - 1)) div 2 ^ k * 2 ^ k"
proof -
  have "unat ((2 :: u64) ^ k - 1) = 2 ^ k - 1"
    using assms(1) by (subst unat_sub_eq) (simp_all add: word_le_nat_alt)
  then have "unat (v + (2 ^ k - 1)) = unat v + (2 ^ k - 1)"
    using assms(2) by (simp only: unat_add_eq)
  then show ?thesis
    by (simp only: ALIGN_UP_as_DOWN ALIGN_DOWN_pow2)
qed

lemma IS_ALIGNED_nat: "IS_ALIGNED v al \<longleftrightarrow> unat al dvd unat v"
  by (simp add: IS_ALIGNED_def unat_eq_0 [symmetric] unat_mod dvd_eq_mod_eq_0)

lemma IS_ALIGNED_pow2: "k < 64 \<Longrightarrow> IS_ALIGNED v (2 ^ k) \<longleftrightarrow> 2 ^ k dvd unat v"
  by (simp add: IS_ALIGNED_nat)

lemma round_up_nat:
  assumes "0 < (a :: nat)"
  shows "v \<le> (v + (a - 1)) div a * a" and "(v + (a - 1)) div a * a < v + a"
    and "\<And>w. a dvd w \<Longrightarrow> v \<le> w \<Longrightarrow> (v + (a - 1)) div a * a \<le> w"
proof -
  let ?q = "(v + (a - 1)) div a"
  have qr: "v + (a - 1) = ?q * a + (v + (a - 1)) mod a" by simp
  have r: "(v + (a - 1)) mod a < a" using assms by simp
  show "v \<le> ?q * a" "?q * a < v + a" using qr r assms by linarith+
  fix w assume "a dvd w" "v \<le> w"
  then obtain c where w: "w = a * c" by (auto elim: dvdE)
  have "v + (a - 1) < Suc c * a" using \<open>v \<le> w\<close> w assms by (simp add: mult.commute)
  then have "?q < Suc c" by (rule less_mult_imp_div_less)
  then have "?q \<le> c" by simp
  then have "?q * a \<le> c * a" by (rule mult_le_mono1)
  then show "?q * a \<le> w" using w by (simp only: mult.commute)
qed

lemma ALIGN_UP_pow2_bounds:
  assumes "k < 64" and "unat v + (2 ^ k - 1) < 2 ^ 64"
  shows "unat v \<le> unat (ALIGN_UP v (2 ^ k))" and "unat (ALIGN_UP v (2 ^ k)) < unat v + 2 ^ k"
  using round_up_nat [of "2 ^ k" "unat v"] ALIGN_UP_pow2 [OF assms] by simp_all

lemma ALIGN_UP_pow2_dvd: "2 ^ k dvd unat (ALIGN_UP v (2 ^ k))"
  by (simp add: ALIGN_UP_as_DOWN ALIGN_DOWN_pow2)

lemma ALIGN_UP_one [simp]: "ALIGN_UP v 1 = v"
  by (simp add: ALIGN_UP_def)

lemma ALIGN_UP_fixed:
  assumes "k < 64" and "2 ^ k dvd unat v"
  shows "ALIGN_UP v (2 ^ k) = v"
proof -
  have b: "unat v + (2 ^ k - 1) < 2 ^ 64"
  proof -
    obtain c where c: "unat v = 2 ^ k * c" using assms(2) by (auto elim: dvdE)
    have p: "(2::nat) ^ 64 = 2 ^ k * 2 ^ (64 - k)" using assms(1) by (simp flip: power_add)
    have "2 ^ k * c < 2 ^ k * 2 ^ (64 - k)" using c p unat_lt_2_64 [of v] by simp
    then have "Suc c \<le> 2 ^ (64 - k)" by simp
    then have "2 ^ k * Suc c \<le> 2 ^ k * 2 ^ (64 - k)" by (rule mult_le_mono2)
    then have "unat v + 2 ^ k \<le> 2 ^ 64" using c p by simp
    moreover have "(0::nat) < 2 ^ k" by simp
    ultimately show ?thesis by linarith
  qed
  have "unat (ALIGN_UP v (2 ^ k)) \<le> unat v"
    using round_up_nat(3) [of "2 ^ k" "unat v" "unat v"] ALIGN_UP_pow2 [OF assms(1) b] assms(2)
    by simp
  then show ?thesis
    using ALIGN_UP_pow2_bounds(1) [OF assms(1) b] by (simp add: word_unat_eq_iff)
qed

text \<open>The power-of-two test of the code: \<^verbatim>\<open>(a & (a - 1)) == 0\<close>.\<close>

lemma pow2_test:
  assumes "(a :: u64) AND (a - 1) = 0" and "a \<noteq> 0"
  obtains k where "k < 64" and "a = 2 ^ k"
proof -
  have pos: "0 < unat a" using assms(2) by (simp add: unat_gt_0)
  then obtain n where lo: "2 ^ n \<le> unat a" and hi: "unat a < 2 ^ Suc n"
    using ex_power_ivl1 [of 2 "unat a"] by auto
  have "n < 64"
  proof (rule ccontr)
    assume "\<not> n < 64"
    then have "(2::nat) ^ 64 \<le> 2 ^ n" by (intro power_increasing) simp_all
    then show False using lo unat_lt_2_64 [of a] by simp
  qed
  have "unat a = 2 ^ n"
  proof (rule ccontr)
    assume ne: "unat a \<noteq> 2 ^ n"
    have u1: "unat (a - 1) = unat a - 1"
      using assms(2) by (subst unat_sub_eq) (simp_all add: word_le_nat_alt pos Suc_leI)
    have top: "bit w n" if "2 ^ n \<le> unat w" "unat w < 2 ^ Suc n" for w :: u64
    proof -
      have "unat w div 2 ^ n = 1" using that by (intro div_nat_eqI) simp_all
      then have "bit (unat w) n" by (simp add: bit_iff_odd)
      then show ?thesis by (simp add: bit_unsigned_iff)
    qed
    have "bit a n" by (rule top [OF lo hi])
    moreover have "bit (a - 1) n" using lo hi ne by (intro top) (simp_all add: u1)
    ultimately have "bit (a AND (a - 1)) n" by (simp add: bit_and_iff)
    then show False by (simp add: assms(1))
  qed
  then have "a = 2 ^ n" using \<open>n < 64\<close> by (simp add: word_unat_eq_iff)
  with \<open>n < 64\<close> that show thesis by blast
qed

section \<open>Rounding\<close>

lemma ALIGN_DOWN_greatest:
  assumes "2 ^ k dvd unat w" and "unat w \<le> unat v"
  shows "unat w \<le> unat (ALIGN_DOWN v (2 ^ k))"
proof -
  obtain c where w: "unat w = 2 ^ k * c" using assms(1) by (auto elim: dvdE)
  then have "c \<le> unat v div 2 ^ k" using assms(2) by (simp add: less_eq_div_iff_mult_less_eq mult.commute)
  then have "c * 2 ^ k \<le> unat v div 2 ^ k * 2 ^ k" by (rule mult_le_mono1)
  then show ?thesis by (simp add: w ALIGN_DOWN_pow2 mult.commute)
qed

text \<open>
  C25: for a power-of-two alignment \<open>2 ^ k\<close> and a value that does not overflow when rounded,
  \<^verbatim>\<open>ALIGN_UP\<close> is the least aligned address at or above the value and \<^verbatim>\<open>ALIGN_DOWN\<close> the
  greatest at or below it.
\<close>

theorem align_rounds_to_nearest_multiple:
  assumes "k < 64" and "unat v + (2 ^ k - 1) < 2 ^ 64"
  shows "is_arg_min unat (\<lambda>w. IS_ALIGNED w (2 ^ k) \<and> v \<le> w) (ALIGN_UP v (2 ^ k)) \<and>
    is_arg_max unat (\<lambda>w. IS_ALIGNED w (2 ^ k) \<and> w \<le> v) (ALIGN_DOWN v (2 ^ k))"
proof (rule conjI)
  have "unat (ALIGN_UP v (2 ^ k)) \<le> unat w" if "2 ^ k dvd unat w" "unat v \<le> unat w" for w :: u64
    using round_up_nat(3) [of "2 ^ k" "unat w" "unat v"] that ALIGN_UP_pow2 [OF assms] by simp
  then show "is_arg_min unat (\<lambda>w. IS_ALIGNED w (2 ^ k) \<and> v \<le> w) (ALIGN_UP v (2 ^ k))"
    using ALIGN_UP_pow2_bounds [OF assms] ALIGN_UP_pow2_dvd [of k v] assms(1)
    by (auto simp: is_arg_min_linorder IS_ALIGNED_pow2 word_le_nat_alt)
  have "unat (ALIGN_DOWN v (2 ^ k)) \<le> unat v" by (simp add: ALIGN_DOWN_pow2)
  then show "is_arg_max unat (\<lambda>w. IS_ALIGNED w (2 ^ k) \<and> w \<le> v) (ALIGN_DOWN v (2 ^ k))"
    using assms(1) ALIGN_DOWN_greatest [of k _ v]
    by (auto simp: is_arg_max_linorder IS_ALIGNED_pow2 word_le_nat_alt ALIGN_DOWN_pow2)
qed

theorem align_rounds_to_nearest_multiple_witness:
  "is_arg_min unat (\<lambda>w. IS_ALIGNED w (2 ^ 12) \<and> 0x1234 \<le> w) (ALIGN_UP 0x1234 (2 ^ 12)) \<and>
   is_arg_max unat (\<lambda>w. IS_ALIGNED w (2 ^ 12) \<and> w \<le> 0x1234) (ALIGN_DOWN 0x1234 (2 ^ 12))"
  using align_rounds_to_nearest_multiple [of 12 "0x1234"] by simp

end
