(* ===== verification/Memory.thy ===== *)
theory Memory
  imports Numbers
begin

text \<open>
  The byte-addressed memory every structure of the kernel lives in, little-endian typed loads and
  stores, and the two routines of \<^verbatim>\<open>memory.c\<close>.  Nothing is assumed about which structures overlap:
  that two stores do not interfere is always a hypothesis about their address ranges.
\<close>

type_synonym mem = "addr \<Rightarrow> u8"

section \<open>Bytes of words\<close>

primrec word_of_bytes :: "u8 list \<Rightarrow> 'a::len word" where
  "word_of_bytes [] = 0"
| "word_of_bytes (b # bs) = ucast b OR push_bit 8 (word_of_bytes bs)"

definition bytes_of_word :: "nat \<Rightarrow> 'a::len word \<Rightarrow> u8 list" where
  "bytes_of_word k v = map (\<lambda>i. ucast (drop_bit (8 * i) v)) [0..<k]"

lemma length_bytes_of_word [simp]: "length (bytes_of_word k v) = k"
  by (simp add: bytes_of_word_def)

lemma bit_word_of_bytes:
  "bit (word_of_bytes bs :: 'a::len word) n \<longleftrightarrow>
     n < LENGTH('a) \<and> n div 8 < length bs \<and> bit (bs ! (n div 8)) (n mod 8)"
proof (induction bs arbitrary: n)
  case Nil
  then show ?case by simp
next
  case (Cons b bs)
  show ?case
  proof (cases "n < 8")
    case True
    then show ?thesis by (auto simp: bit_simps dest: bit_imp_le_length)
  next
    case False
    then have n: "n div 8 = Suc ((n - 8) div 8)" "n mod 8 = (n - 8) mod 8"
      by (simp_all add: le_div_geq le_mod_geq)
    have "\<not> bit b n" using False bit_imp_le_length [of b n] by auto
    with False show ?thesis
      by (auto simp: bit_simps Cons.IH n dest: bit_imp_le_length)
  qed
qed

lemma word_of_bytes_of_word:
  assumes "LENGTH('a::len) \<le> 8 * k"
  shows "word_of_bytes (bytes_of_word k (v :: 'a word)) = v"
proof (rule bit_word_eqI)
  fix n assume n: "n < LENGTH('a)"
  have m: "n mod 8 < 8" by simp
  have d: "8 * (n div 8) + n mod 8 = n" by simp
  have "n div 8 < k" using n assms by (simp add: less_mult_imp_div_less mult.commute)
  then show "bit (word_of_bytes (bytes_of_word k v) :: 'a word) n = bit v n"
    using n m by (simp add: bit_word_of_bytes bytes_of_word_def bit_simps d)
qed

lemma bytes_of_word_of_bytes:
  assumes "8 * length bs = LENGTH('a::len)"
  shows "bytes_of_word (length bs) (word_of_bytes bs :: 'a word) = bs"
proof (rule nth_equalityI)
  show "length (bytes_of_word (length bs) (word_of_bytes bs :: 'a word)) = length bs" by simp
  fix i assume "i < length (bytes_of_word (length bs) (word_of_bytes bs :: 'a word))"
  then have i: "i < length bs" by simp
  show "bytes_of_word (length bs) (word_of_bytes bs :: 'a word) ! i = bs ! i"
  proof (rule bit_word_eqI)
    fix n assume "n < LENGTH(8)"
    then have n: "n < 8" by simp
    then have "(8 * i + n) div 8 = i" "(8 * i + n) mod 8 = n" by simp_all
    moreover have "8 * i + n < LENGTH('a)" using i n assms by linarith
    ultimately show "bit (bytes_of_word (length bs) (word_of_bytes bs :: 'a word) ! i) n = bit (bs ! i) n"
      using i n by (simp add: bytes_of_word_def bit_simps bit_word_of_bytes)
  qed
qed

section \<open>Loads and stores\<close>

definition load_bytes :: "mem \<Rightarrow> addr \<Rightarrow> nat \<Rightarrow> u8 list" where
  "load_bytes m a n = map (\<lambda>i. m (a + of_nat i)) [0..<n]"

definition store_bytes :: "mem \<Rightarrow> addr \<Rightarrow> u8 list \<Rightarrow> mem" where
  "store_bytes m a bs = (\<lambda>x. if unat (x - a) < length bs then bs ! unat (x - a) else m x)"

definition load32 :: "mem \<Rightarrow> addr \<Rightarrow> u32" where
  "load32 m a = word_of_bytes (load_bytes m a 4)"

definition load64 :: "mem \<Rightarrow> addr \<Rightarrow> u64" where
  "load64 m a = word_of_bytes (load_bytes m a 8)"

definition store32 :: "mem \<Rightarrow> addr \<Rightarrow> u32 \<Rightarrow> mem" where
  "store32 m a v = store_bytes m a (bytes_of_word 4 v)"

definition store64 :: "mem \<Rightarrow> addr \<Rightarrow> u64 \<Rightarrow> mem" where
  "store64 m a v = store_bytes m a (bytes_of_word 8 v)"

text \<open>Two memories with the same contents over a set of addresses.\<close>

definition agree_on :: "addr set \<Rightarrow> mem \<Rightarrow> mem \<Rightarrow> bool" where
  "agree_on A m m' \<longleftrightarrow> (\<forall>x \<in> A. m x = m' x)"

lemma agree_on_refl [simp]: "agree_on A m m"
  by (simp add: agree_on_def)

lemma agree_on_trans: "agree_on A m m' \<Longrightarrow> agree_on A m' m'' \<Longrightarrow> agree_on A m m''"
  by (simp add: agree_on_def)

lemma agree_on_sym: "agree_on A m m' \<longleftrightarrow> agree_on A m' m"
  by (auto simp: agree_on_def)

lemma agree_on_mono: "agree_on A m m' \<Longrightarrow> B \<subseteq> A \<Longrightarrow> agree_on B m m'"
  by (auto simp: agree_on_def)

lemma length_load_bytes [simp]: "length (load_bytes m a n) = n"
  by (simp add: load_bytes_def)

lemma load_bytes_agree:
  assumes "agree_on (extent a n) m m'" and "n \<le> 2 ^ 64"
  shows "load_bytes m a n = load_bytes m' a n"
  using assms by (auto simp: load_bytes_def agree_on_def mem_extent unat_of_nat_eq)

lemma load_store_bytes_same:
  assumes "n = length bs" and "length bs \<le> 2 ^ 64"
  shows "load_bytes (store_bytes m a bs) a n = bs"
  using assms
  by (auto simp: load_bytes_def store_bytes_def unat_of_nat_eq intro!: nth_equalityI)

lemma store_bytes_outside: "x \<notin> extent a (length bs) \<Longrightarrow> store_bytes m a bs x = m x"
  by (simp add: store_bytes_def mem_extent)

lemma store_bytes_agree:
  "A \<inter> extent a (length bs) = {} \<Longrightarrow> agree_on A (store_bytes m a bs) m"
  unfolding agree_on_def by (metis disjoint_iff store_bytes_outside)

lemma store64_agree: "A \<inter> extent a 8 = {} \<Longrightarrow> agree_on A (store64 m a v) m"
  unfolding store64_def by (rule store_bytes_agree) simp

lemma store32_agree: "A \<inter> extent a 4 = {} \<Longrightarrow> agree_on A (store32 m a v) m"
  unfolding store32_def by (rule store_bytes_agree) simp

lemma load64_agree: "agree_on A m m' \<Longrightarrow> extent a 8 \<subseteq> A \<Longrightarrow> load64 m a = load64 m' a"
  unfolding load64_def by (subst load_bytes_agree [of a 8 m m']) (auto intro: agree_on_mono)

lemma load32_agree: "agree_on A m m' \<Longrightarrow> extent a 4 \<subseteq> A \<Longrightarrow> load32 m a = load32 m' a"
  unfolding load32_def by (subst load_bytes_agree [of a 4 m m']) (auto intro: agree_on_mono)

lemma load64_store64_same [mem_simps, simp]: "load64 (store64 m a v) a = v"
  by (simp add: load64_def store64_def load_store_bytes_same word_of_bytes_of_word)

lemma load32_store32_same [mem_simps, simp]: "load32 (store32 m a v) a = v"
  by (simp add: load32_def store32_def load_store_bytes_same word_of_bytes_of_word)

lemma load64_store64_apart:
  "extent a 8 \<inter> extent b 8 = {} \<Longrightarrow> load64 (store64 m a v) b = load64 m b"
  by (rule load64_agree [OF store64_agree [of "extent b 8"]]) auto

lemma load64_store64_other [mem_simps]:
  "8 \<le> unat (b - a) \<Longrightarrow> 8 \<le> unat (a - b) \<Longrightarrow> load64 (store64 m a v) b = load64 m b"
  by (rule load64_store64_apart) (simp add: extent_disjoint_iff)

lemma load32_store64_other [mem_simps]:
  "8 \<le> unat (b - a) \<Longrightarrow> 4 \<le> unat (a - b) \<Longrightarrow> load32 (store64 m a v) b = load32 m b"
  by (rule load32_agree [OF store64_agree [of "extent b 4"]]) (auto simp: extent_disjoint_iff)

lemma load64_store32_other [mem_simps]:
  "4 \<le> unat (b - a) \<Longrightarrow> 8 \<le> unat (a - b) \<Longrightarrow> load64 (store32 m a v) b = load64 m b"
  by (rule load64_agree [OF store32_agree [of "extent b 8"]]) (auto simp: extent_disjoint_iff)

lemma load32_store32_other [mem_simps]:
  "4 \<le> unat (b - a) \<Longrightarrow> 4 \<le> unat (a - b) \<Longrightarrow> load32 (store32 m a v) b = load32 m b"
  by (rule load32_agree [OF store32_agree [of "extent b 4"]]) (auto simp: extent_disjoint_iff)

lemma store64_outside [mem_simps]: "8 \<le> unat (x - a) \<Longrightarrow> store64 m a v x = m x"
  unfolding store64_def by (rule store_bytes_outside) (simp add: mem_extent)

text \<open>Fields of structures at ranges that do not touch.\<close>

lemma extent_field: "unat i + k \<le> n \<Longrightarrow> n \<le> 2 ^ 64 \<Longrightarrow> extent (a + i) k \<subseteq> extent a n"
  using extent_offset [of "unat i" k n a] by simp

lemma fields_apart:
  assumes "extent a n \<inter> extent b k = {}" and "unat i + 8 \<le> n" and "unat j + 8 \<le> k"
    and "n \<le> 2 ^ 64" and "k \<le> 2 ^ 64"
  shows "extent (a + i) 8 \<inter> extent (b + j) 8 = {}"
  using extent_field [of i 8 n a] extent_field [of j 8 k b] assms by blast

lemma load64_store64_fields:
  assumes "extent a n \<inter> extent b k = {}" and "unat i + 8 \<le> n" and "unat j + 8 \<le> k"
    and "n \<le> 2 ^ 64" and "k \<le> 2 ^ 64"
  shows "load64 (store64 m (a + i) v) (b + j) = load64 m (b + j)"
  by (rule load64_store64_apart) (rule fields_apart [OF assms])

section \<open>Linked lists in memory\<close>

text \<open>
  \<open>segment off m p as q\<close>: starting from pointer \<open>p\<close>, the links at byte offset \<open>off\<close> of the
  structures lead through the addresses \<open>as\<close>, none of them null, to \<open>q\<close>.
\<close>

primrec segment :: "addr \<Rightarrow> mem \<Rightarrow> addr \<Rightarrow> addr list \<Rightarrow> addr \<Rightarrow> bool" where
  "segment off m p [] q \<longleftrightarrow> p = q"
| "segment off m p (a # as) q \<longleftrightarrow> p = a \<and> a \<noteq> 0 \<and> segment off m (load64 m (a + off)) as q"

definition chain :: "addr \<Rightarrow> mem \<Rightarrow> addr \<Rightarrow> addr list \<Rightarrow> bool" where
  "chain off m p as \<longleftrightarrow> segment off m p as 0"

lemma segment_append:
  "segment off m p (as @ bs) q \<longleftrightarrow> (\<exists>r. segment off m p as r \<and> segment off m r bs q)"
  by (induction as arbitrary: p) auto

lemma segment_cong:
  "(\<And>a. a \<in> set as \<Longrightarrow> load64 m (a + off) = load64 m' (a + off)) \<Longrightarrow>
   segment off m p as q = segment off m' p as q"
  by (induction as arbitrary: p) auto

lemma segment_nonnull: "segment off m p as q \<Longrightarrow> 0 \<notin> set as"
  by (induction as arbitrary: p) auto

lemma chain_Nil [simp]: "chain off m p [] \<longleftrightarrow> p = 0"
  by (simp add: chain_def)

lemma chain_Cons: "chain off m p (a # as) \<longleftrightarrow> p = a \<and> a \<noteq> 0 \<and> chain off m (load64 m (a + off)) as"
  by (simp add: chain_def)

lemma chain_append: "chain off m p (as @ bs) \<longleftrightarrow> (\<exists>r. segment off m p as r \<and> chain off m r bs)"
  by (simp add: chain_def segment_append)

lemma chain_null [simp]: "chain off m 0 as \<longleftrightarrow> as = []"
  by (cases as) (auto simp: chain_Cons)

lemma chain_cong:
  "(\<And>a. a \<in> set as \<Longrightarrow> load64 m (a + off) = load64 m' (a + off)) \<Longrightarrow>
   chain off m p as = chain off m' p as"
  unfolding chain_def by (rule segment_cong)

lemma chain_nonnull: "chain off m p as \<Longrightarrow> 0 \<notin> set as"
  unfolding chain_def by (rule segment_nonnull)

lemma chain_nonempty: "chain off m p as \<Longrightarrow> p \<noteq> 0 \<Longrightarrow> \<exists>as'. as = p # as'"
  by (cases as) (auto simp: chain_Cons)

section \<open>memory.c\<close>

function memzero_loop :: "mem \<Rightarrow> addr \<Rightarrow> u64 \<Rightarrow> u64 \<Rightarrow> mem" where
  "memzero_loop m ptr cnt i =
     (if i < cnt then memzero_loop (m(ptr + i := 0)) ptr cnt (i + 1) else m)"
  by pat_completeness auto
termination
  by (relation "measure (\<lambda>(m, ptr, cnt, i). unat cnt - unat i)")
    (simp_all add: word_succ_measure)

definition memzero :: "mem \<Rightarrow> addr \<Rightarrow> u64 \<Rightarrow> mem" where
  "memzero m ptr cnt = memzero_loop m ptr cnt 0"

function memcopy_loop :: "mem \<Rightarrow> addr \<Rightarrow> addr \<Rightarrow> u64 \<Rightarrow> u64 \<Rightarrow> mem" where
  "memcopy_loop m dest src cnt i =
     (if i < cnt then memcopy_loop (m(dest + i := m (src + i))) dest src cnt (i + 1) else m)"
  by pat_completeness auto
termination
  by (relation "measure (\<lambda>(m, dest, src, cnt, i). unat cnt - unat i)")
    (simp_all add: word_succ_measure)

definition memcopy :: "mem \<Rightarrow> addr \<Rightarrow> addr \<Rightarrow> u64 \<Rightarrow> mem" where
  "memcopy m dest src cnt = memcopy_loop m dest src cnt 0"

declare memzero_loop.simps [simp del] memcopy_loop.simps [simp del]

lemma memzero_loop_eq:
  "memzero_loop m p n i = (\<lambda>x. if i \<le> x - p \<and> x - p < n then 0 else m x)"
proof (induction m p n i rule: memzero_loop.induct)
  case (1 m p n i)
  show ?case
  proof (cases "i < n")
    case True
    have step: "i + 1 \<le> d \<longleftrightarrow> i \<le> d \<and> d \<noteq> i" for d
      using unat_succ_less [OF True] by (auto simp: word_le_nat_alt word_unat_eq_iff)
    show ?thesis
      using True by (auto simp: memzero_loop.simps [of m p n i] 1 step fun_eq_iff)
  next
    case False
    then show ?thesis by (auto simp: memzero_loop.simps [of m p n i] fun_eq_iff)
  qed
qed

lemma memzero_eq [code]: "memzero m p n = (\<lambda>x. if x - p < n then 0 else m x)"
  by (simp add: memzero_def memzero_loop_eq fun_eq_iff)


text \<open>
  What a forward byte-by-byte copy does for any two ranges, overlapping or not: where the
  destination starts \<open>d\<close> bytes after the source and the ranges overlap, the first \<open>d\<close> bytes are
  repeated.
\<close>

definition copied :: "mem \<Rightarrow> addr \<Rightarrow> addr \<Rightarrow> u64 \<Rightarrow> mem" where
  "copied m dest src n =
     (\<lambda>x. if x - dest < n then m (src + (x - dest) mod (dest - src)) else m x)"

lemma copied_source:
  "copied m dest src i (src + i) = m (src + i mod (dest - src))"
proof -
  define d where "d = dest - src"
  have x: "src + i - dest = i - d" by (simp add: d_def)
  consider (zero) "d = 0" | (low) "i < d" | (high) "d \<noteq> 0" "d \<le> i" by force
  then show ?thesis
  proof cases
    case zero
    then show ?thesis by (simp add: copied_def x flip: d_def)
  next
    case low
    have "\<not> i - d < i"
      using low unat_lt_2_64 [of d] by (simp add: word_less_nat_alt unat_diff_cases)
    moreover have "i mod d = i" using low
      by (simp add: word_unat_eq_iff unat_mod word_less_nat_alt)
    ultimately show ?thesis by (simp add: copied_def x flip: d_def)
  next
    case high
    have "i - d < i"
      using high by (simp add: word_less_nat_alt word_le_nat_alt unat_diff_cases flip: unat_gt_0)
    moreover have "(i - d) mod d = i mod d"
      using high by (simp add: word_unat_eq_iff unat_mod unat_sub_eq word_le_nat_alt le_mod_geq)
    ultimately show ?thesis by (simp add: copied_def x flip: d_def)
  qed
qed

lemma copied_step:
  assumes "i < n"
  shows "(copied m dest src i)(dest + i := copied m dest src i (src + i)) =
     copied m dest src (i + 1)"
proof
  fix x
  have "x - dest < i + 1 \<longleftrightarrow> x - dest < i \<or> x - dest = i"
    using unat_succ_less [OF assms] by (auto simp: word_less_nat_alt word_unat_eq_iff)
  moreover have "x = dest + i \<longleftrightarrow> x - dest = i" by auto
  ultimately show "((copied m dest src i)(dest + i := copied m dest src i (src + i))) x =
      copied m dest src (i + 1) x"
    by (auto simp: copied_source) (auto simp: copied_def)
qed

lemma memcopy_loop_eq:
  "i \<le> n \<Longrightarrow> memcopy_loop (copied m dest src i) dest src n i = copied m dest src n"
proof (induction "unat n - unat i" arbitrary: i)
  case 0
  then have "i = n" by (simp add: word_le_nat_alt word_unat_eq_iff)
  then show ?case by (simp add: memcopy_loop.simps [of _ _ _ n n])
next
  case (Suc k)
  then have lt: "i < n" by (auto simp: word_less_nat_alt)
  then have "i + 1 \<le> n" "k = unat n - unat (i + 1)"
    using Suc.hyps(2) by (simp_all add: unat_succ_less word_le_nat_alt word_less_nat_alt)
  then have "memcopy_loop (copied m dest src (i + 1)) dest src n (i + 1) = copied m dest src n"
    using Suc.hyps(1) by blast
  then show ?case
    using lt by (simp add: memcopy_loop.simps [of _ dest src n i] copied_step)
qed

lemma memcopy_eq [code]: "memcopy m dest src n = copied m dest src n"
proof -
  have "copied m dest src 0 = m" by (simp add: copied_def)
  then show ?thesis using memcopy_loop_eq [of 0 n m dest src] by (simp add: memcopy_def)
qed

section \<open>Loads from cleared memory\<close>

lemma memzero_inside: "x \<in> extent p (unat n) \<Longrightarrow> memzero m p n x = 0"
  by (simp add: memzero_eq mem_extent word_less_nat_alt)

lemma memzero_outside: "x \<notin> extent p (unat n) \<Longrightarrow> memzero m p n x = m x"
  by (simp add: memzero_eq mem_extent word_less_nat_alt)

lemma memzero_agree: "A \<inter> extent p (unat n) = {} \<Longrightarrow> agree_on A (memzero m p n) m"
  unfolding agree_on_def by (metis disjoint_iff memzero_outside)

lemma word_of_bytes_zero: "word_of_bytes (replicate k 0) = 0"
  by (induction k) simp_all

lemma load64_zero:
  assumes "\<forall>x \<in> extent a 8. m x = 0"
  shows "load64 m a = 0"
proof -
  have "load_bytes m a 8 = replicate 8 0"
    using assms by (intro nth_equalityI) (simp_all add: load_bytes_def mem_extent unat_of_nat_eq)
  then show ?thesis by (simp add: load64_def word_of_bytes_zero)
qed

lemma load64_blank [simp]: "load64 (\<lambda>_. 0) a = 0"
  by (rule load64_zero) simp

lemma load64_memzero_inside [mem_simps]:
  assumes "unat (a - p) + 8 \<le> unat n"
  shows "load64 (memzero m p n) a = 0"
proof (rule load64_zero, rule ballI)
  fix x assume "x \<in> extent a 8"
  moreover have "a = p + of_nat (unat (a - p))" by simp
  ultimately have "x \<in> extent p (unat n)"
    using extent_offset [of "unat (a - p)" 8 "unat n" p] assms unat_lt_2_64 [of n] by auto
  then show "memzero m p n x = 0" by (rule memzero_inside)
qed

lemma load64_memzero_apart:
  "extent p (unat n) \<inter> extent a 8 = {} \<Longrightarrow> load64 (memzero m p n) a = load64 m a"
  by (rule load64_agree [OF memzero_agree [of "extent a 8"]]) auto

lemma load64_memzero_other [mem_simps]:
  "unat n \<le> unat (a - p) \<Longrightarrow> 8 \<le> unat (p - a) \<Longrightarrow> load64 (memzero m p n) a = load64 m a"
  by (rule load64_memzero_apart, cases "unat n = 0") (auto simp: extent_disjoint_iff)

section \<open>What the two routines do\<close>

text \<open>
  \<^verbatim>\<open>memcopy\<close>, for any two ranges: byte \<open>x\<close> of the destination holds the source byte at the
  same offset modulo the distance \<open>dest - src\<close> of the ranges, and every other byte is unchanged.
  So the copy is exact unless the destination starts inside the source, and there it repeats the
  first \<open>dest - src\<close> bytes.
\<close>

theorem memcopy_copies:
  "memcopy m dest src n x =
     (if x - dest < n then m (src + (x - dest) mod (dest - src)) else m x)"
  by (simp add: memcopy_eq copied_def)

text \<open>
  \<^verbatim>\<open>memzero\<close> clears the \<open>n\<close> bytes from \<open>p\<close> on and leaves every other byte as it was.
\<close>

theorem memzero_clears:
  "{x. memzero m p n x \<noteq> m x} \<subseteq> extent p (unat n) \<and> memzero m p n ` extent p (unat n) \<subseteq> {0}"
  using memzero_inside [of _ p n m] memzero_outside [of _ p n m] by blast

end
