(* ===== verification/Str_View.thy ===== *)
theory Str_View
  imports Memory
begin

text \<open>
  The string views of \<^verbatim>\<open>types/str_view.h\<close>: a pointer and a size, read from the kernel memory.
  The scan for a terminator is the one loop here that need not end; \<open>None\<close> says it does not.
\<close>

record str_view =
  sv_data :: addr
  sv_size :: u64

definition SV_SENTINEL :: u64 where
  "SV_SENTINEL = - 1"

text \<open>The bytes a view designates.\<close>

definition sv_bytes :: "mem \<Rightarrow> str_view \<Rightarrow> u8 list" where
  "sv_bytes m sv = load_bytes m (sv_data sv) (unat (sv_size sv))"

partial_function (option) sv_null_loop :: "mem \<Rightarrow> addr \<Rightarrow> u64 \<Rightarrow> u64 option" where
  "sv_null_loop m cur len =
     (if m cur \<noteq> 0 then sv_null_loop m (cur + 1) (len + 1) else Some len)"

definition sv_from_null_term :: "mem \<Rightarrow> addr \<Rightarrow> str_view option" where
  "sv_from_null_term m str =
     map_option (\<lambda>len. \<lparr>sv_data = str, sv_size = len\<rparr>) (sv_null_loop m str 0)"

definition sv_advance :: "str_view \<Rightarrow> u64 \<Rightarrow> str_view" where
  "sv_advance sv n = \<lparr>sv_data = sv_data sv + n, sv_size = sv_size sv - n\<rparr>"

definition sv_shorten :: "str_view \<Rightarrow> u64 \<Rightarrow> str_view" where
  "sv_shorten sv n = \<lparr>sv_data = sv_data sv, sv_size = sv_size sv - n\<rparr>"

definition sv_substr :: "str_view \<Rightarrow> u64 \<Rightarrow> u64 \<Rightarrow> str_view" where
  "sv_substr sv start len = \<lparr>sv_data = sv_data sv + start, sv_size = len\<rparr>"

function sv_find_loop :: "mem \<Rightarrow> str_view \<Rightarrow> u8 \<Rightarrow> u64 \<Rightarrow> u64" where
  "sv_find_loop m sv c i =
     (if i < sv_size sv
      then if m (sv_data sv + i) = c then i else sv_find_loop m sv c (i + 1)
      else SV_SENTINEL)"
  by pat_completeness auto
termination
  by (relation "measure (\<lambda>(m, sv, c, i). unat (sv_size sv) - unat i)")
    (simp_all add: word_succ_measure)

definition sv_find :: "mem \<Rightarrow> str_view \<Rightarrow> u64 \<Rightarrow> u8 \<Rightarrow> u64" where
  "sv_find m sv start c = sv_find_loop m sv c start"

text \<open>
  The result is a \<^verbatim>\<open>ssize_t\<close>: the comparison of two differing characters is the truth value of
  their being different, and the difference of the sizes is read as a signed number.
\<close>

function sv_compare_loop :: "mem \<Rightarrow> str_view \<Rightarrow> str_view \<Rightarrow> u64 \<Rightarrow> int" where
  "sv_compare_loop m s1 s2 i =
     (if i < sv_size s1 \<and> i < sv_size s2
      then if m (sv_data s1 + i) \<noteq> m (sv_data s2 + i)
           then (if m (sv_data s1 + i) \<noteq> m (sv_data s2 + i) then 1 else 0)
           else sv_compare_loop m s1 s2 (i + 1)
      else sint (sv_size s1 - sv_size s2))"
  by pat_completeness auto
termination
  by (relation "measure (\<lambda>(m, s1, s2, i). unat (sv_size s1) - unat i)")
    (simp_all add: word_succ_measure)

definition sv_compare :: "mem \<Rightarrow> str_view \<Rightarrow> str_view \<Rightarrow> int" where
  "sv_compare m s1 s2 = sv_compare_loop m s1 s2 0"

declare sv_find_loop.simps [simp del] sv_compare_loop.simps [simp del]

section \<open>Scanning for the terminator\<close>

lemma sv_null_loop_run:
  assumes "\<forall>k < n. m (p + of_nat k) \<noteq> 0" and "m (p + of_nat n) = 0"
  shows "sv_null_loop m p len = Some (len + of_nat n)"
  using assms
proof (induction n arbitrary: p len)
  case 0
  then show ?case by (simp add: sv_null_loop.simps)
next
  case (Suc n)
  have "m p \<noteq> 0" using Suc.prems(1) by force
  moreover have "\<forall>k < n. m (p + 1 + of_nat k) \<noteq> 0"
    using Suc.prems(1) by (metis Suc_mono add.assoc add.commute of_nat_Suc)
  moreover have "m (p + 1 + of_nat n) = 0"
    using Suc.prems(2) by (simp add: algebra_simps)
  ultimately have "sv_null_loop m (p + 1) (len + 1) = Some (len + 1 + of_nat n)"
    by (intro Suc.IH)
  then show ?case
    using \<open>m p \<noteq> 0\<close> by (simp add: sv_null_loop.simps [of m p len] algebra_simps)
qed

lemma sv_null_loop_result:
  assumes "sv_null_loop m p len = Some r"
  shows "m (p + (r - len)) = 0"
proof (rule sv_null_loop.raw_induct [where P = "\<lambda>m p len r. m (p + (r - len)) = 0", OF _ assms])
  fix f :: "mem \<Rightarrow> u64 \<Rightarrow> u64 \<Rightarrow> u64 option" and m :: mem and p len r :: u64
  assume IH: "\<And>m p len r. f m p len = Some r \<Longrightarrow> m (p + (r - len)) = (0 :: u8)"
    and eq: "(if m p \<noteq> 0 then f m (p + 1) (len + 1) else Some len) = Some r"
  show "m (p + (r - len)) = 0"
  proof (cases "m p = 0")
    case True
    then show ?thesis using eq by simp
  next
    case False
    then have "f m (p + 1) (len + 1) = Some r" using eq by simp
    then have "m (p + 1 + (r - (len + 1))) = 0" by (rule IH)
    moreover have "p + 1 + (r - (len + 1)) = p + (r - len)" by simp
    ultimately show ?thesis by (simp only:)
  qed
qed

lemma sv_null_loop_least:
  assumes "m (p + of_nat n) = 0"
  shows "\<exists>k \<le> n. (\<forall>j < k. m (p + of_nat j) \<noteq> 0) \<and> m (p + of_nat k) = 0
    \<and> sv_null_loop m p 0 = Some (of_nat k)"
proof -
  define k where "k = (LEAST k. m (p + of_nat k) = 0)"
  have z: "m (p + of_nat k) = 0" unfolding k_def by (rule LeastI) (rule assms)
  have "k \<le> n" unfolding k_def by (rule Least_le) (rule assms)
  moreover have nz: "\<forall>j < k. m (p + of_nat j) \<noteq> 0"
    unfolding k_def by (blast dest: not_less_Least)
  ultimately show ?thesis using sv_null_loop_run [OF nz z, of 0] z by auto
qed

lemma sv_null_loop_hangs: "(\<forall>x. m x \<noteq> 0) \<Longrightarrow> sv_null_loop m p len = None"
  using sv_null_loop_result [of m p len] by (cases "sv_null_loop m p len") auto

lemma sv_from_null_term_bytes:
  assumes "sv_from_null_term m p = Some sv"
  shows "sv_data sv = p" and "0 \<notin> set (sv_bytes m sv)" and "m (p + sv_size sv) = 0"
proof -
  obtain len where len: "sv_null_loop m p 0 = Some len" and sv: "sv = \<lparr>sv_data = p, sv_size = len\<rparr>"
    using assms by (auto simp: sv_from_null_term_def)
  have "m (p + of_nat (unat len)) = 0" using sv_null_loop_result [OF len] by simp
  then obtain k where k: "k \<le> unat len" "\<forall>j < k. m (p + of_nat j) \<noteq> 0"
      and "sv_null_loop m p 0 = Some (of_nat k)"
    using sv_null_loop_least by blast
  then have "len = of_nat k" "k < 2 ^ 64" using len unat_lt_2_64 [of len] by simp_all
  then show "0 \<notin> set (sv_bytes m sv)"
    using k(2) by (auto simp: sv sv_bytes_def load_bytes_def unat_of_nat_eq)
  show "sv_data sv = p" "m (p + sv_size sv) = 0"
    using sv_null_loop_result [OF len] by (simp_all add: sv)
qed

section \<open>Searching and comparing\<close>

lemma length_sv_bytes [simp]: "length (sv_bytes m sv) = unat (sv_size sv)"
  by (simp add: sv_bytes_def)

lemma nth_sv_bytes: "i < sv_size sv \<Longrightarrow> sv_bytes m sv ! unat i = m (sv_data sv + i)"
  by (simp add: sv_bytes_def load_bytes_def word_less_nat_alt)

lemma sv_find_loop_found:
  "sv_find_loop m sv c i = r \<Longrightarrow> r \<noteq> SV_SENTINEL \<Longrightarrow>
     i \<le> r \<and> r < sv_size sv \<and> m (sv_data sv + r) = c \<and>
     (\<forall>k. i \<le> k \<longrightarrow> k < r \<longrightarrow> m (sv_data sv + k) \<noteq> c)"
proof (induction m sv c i rule: sv_find_loop.induct)
  case (1 m sv c i)
  show ?case
  proof (cases "i < sv_size sv \<and> m (sv_data sv + i) \<noteq> c")
    case True
    then have IH: "i + 1 \<le> r \<and> r < sv_size sv \<and> m (sv_data sv + r) = c \<and>
        (\<forall>k. i + 1 \<le> k \<longrightarrow> k < r \<longrightarrow> m (sv_data sv + k) \<noteq> c)"
      using 1 by (simp add: sv_find_loop.simps [of m sv c i])
    have "i + 1 \<le> k \<longleftrightarrow> i \<le> k \<and> k \<noteq> i" for k
      using True unat_succ_less [of i "sv_size sv"]
      by (auto simp: word_le_nat_alt word_unat_eq_iff)
    with IH True show ?thesis by blast
  next
    case False
    then show ?thesis using "1.prems"
      by (auto simp: sv_find_loop.simps [of m sv c i] split: if_splits)
  qed
qed

lemma sv_find_loop_none:
  "sv_find_loop m sv c i = SV_SENTINEL \<Longrightarrow> i \<le> k \<Longrightarrow> k < sv_size sv \<Longrightarrow>
     m (sv_data sv + k) \<noteq> c"
proof (induction m sv c i rule: sv_find_loop.induct)
  case (1 m sv c i)
  have lt: "i < sv_size sv" using "1.prems" by simp
  have ns: "i \<noteq> SV_SENTINEL"
    using lt word_n1_ge [of "sv_size sv"] by (auto simp: SV_SENTINEL_def)
  show ?case
  proof (cases "k = i")
    case True
    then show ?thesis using "1.prems"(1) lt ns
      by (auto simp: sv_find_loop.simps [of m sv c i] split: if_splits)
  next
    case False
    have "m (sv_data sv + i) \<noteq> c" "sv_find_loop m sv c (i + 1) = SV_SENTINEL"
      using "1.prems"(1) lt ns by (auto simp: sv_find_loop.simps [of m sv c i] split: if_splits)
    moreover have "i + 1 \<le> k"
      using False "1.prems"(2) lt unat_succ_less [of i "sv_size sv"]
      by (auto simp: word_le_nat_alt word_unat_eq_iff)
    ultimately show ?thesis using "1.IH" lt "1.prems"(3) by blast
  qed
qed

lemma sint_diff_zero: "sint (a - b :: u64) = 0 \<longleftrightarrow> a = b"
  using signed_word_eqI [of "a - b" 0] by auto

lemma sv_compare_loop_zero:
  assumes "\<forall>k < i. m (sv_data s1 + k) = m (sv_data s2 + k)"
    and "i \<le> sv_size s1" and "i \<le> sv_size s2"
  shows "sv_compare_loop m s1 s2 i = 0 \<longleftrightarrow>
    sv_size s1 = sv_size s2 \<and> (\<forall>k < sv_size s1. m (sv_data s1 + k) = m (sv_data s2 + k))"
  using assms
proof (induction m s1 s2 i rule: sv_compare_loop.induct)
  case (1 m s1 s2 i)
  show ?case
  proof (cases "i < sv_size s1 \<and> i < sv_size s2")
    case lt: True
    have le: "k < i + 1 \<longleftrightarrow> k < i \<or> k = i" for k
      using lt unat_succ_less [of i "sv_size s1"] by (auto simp: word_less_nat_alt word_unat_eq_iff)
    have "i + 1 \<le> sv_size s1" "i + 1 \<le> sv_size s2"
      using lt unat_succ_less [of i "sv_size s1"] unat_succ_less [of i "sv_size s2"]
      by (simp_all add: word_le_nat_alt word_less_nat_alt)
    then show ?thesis
      using lt "1.IH" "1.prems" le by (auto simp: sv_compare_loop.simps [of m s1 s2 i])
  next
    case False
    then have "i = sv_size s1 \<or> i = sv_size s2" using "1.prems" by auto
    then show ?thesis
      using False "1.prems" by (auto simp: sv_compare_loop.simps [of m s1 s2 i] sint_diff_zero)
  qed
qed

lemma sv_bytes_eq_iff:
  "sv_bytes m s1 = sv_bytes m s2 \<longleftrightarrow>
    sv_size s1 = sv_size s2 \<and> (\<forall>k < sv_size s1. m (sv_data s1 + k) = m (sv_data s2 + k))"
proof
  assume eq: "sv_bytes m s1 = sv_bytes m s2"
  then have "length (sv_bytes m s1) = length (sv_bytes m s2)" by simp
  then have sz: "sv_size s1 = sv_size s2" by (simp add: word_unat_eq_iff)
  with eq show "sv_size s1 = sv_size s2 \<and>
      (\<forall>k < sv_size s1. m (sv_data s1 + k) = m (sv_data s2 + k))"
    by (metis nth_sv_bytes)
next
  assume h: "sv_size s1 = sv_size s2 \<and> (\<forall>k < sv_size s1. m (sv_data s1 + k) = m (sv_data s2 + k))"
  show "sv_bytes m s1 = sv_bytes m s2"
  proof (rule nth_equalityI)
    show "length (sv_bytes m s1) = length (sv_bytes m s2)" using h by simp
    fix i assume "i < length (sv_bytes m s1)"
    then have "i < unat (sv_size s1)" by simp
    moreover have "i < 2 ^ 64" using calculation unat_lt_2_64 [of "sv_size s1"] by simp
    ultimately have "(of_nat i :: u64) < sv_size s1" "unat (of_nat i :: u64) = i"
      by (simp_all add: word_less_nat_alt unat_of_nat_eq)
    then show "sv_bytes m s1 ! i = sv_bytes m s2 ! i"
      using h by (metis nth_sv_bytes)
  qed
qed

section \<open>What the views promise\<close>

text \<open>
  C24: \<^verbatim>\<open>sv_from_null_term\<close> returns the view of the bytes up to the first null byte, and the only
  memory in which it does not return is one with no null byte at all.
\<close>

theorem sv_from_null_term_correct:
  "case sv_from_null_term m p of
     None \<Rightarrow> 0 \<notin> range m
   | Some sv \<Rightarrow> sv_data sv = p \<and> 0 \<notin> set (sv_bytes m sv) \<and> m (p + sv_size sv) = 0"
proof (cases "sv_from_null_term m p")
  case None
  have "m x \<noteq> 0" for x
  proof
    assume "m x = 0"
    then have "m (p + of_nat (unat (x - p))) = 0" by simp
    then show False using sv_null_loop_least None by (fastforce simp: sv_from_null_term_def)
  qed
  then have "0 \<notin> range m" by (metis imageE)
  then show ?thesis by (simp add: None)
next
  case (Some sv)
  then show ?thesis using sv_from_null_term_bytes [OF Some] by simp
qed

text \<open>
  \<^verbatim>\<open>sv_find\<close> returns the least index at or after \<open>start\<close> at which the character occurs, or
  the sentinel when there is none.
\<close>

theorem sv_find_least_or_sentinel:
  fixes m sv start c
  defines "S \<equiv> {k. start \<le> k \<and> k < sv_size sv \<and> m (sv_data sv + k) = c}"
  shows "if sv_find m sv start c = SV_SENTINEL then S = {}
    else sv_find m sv start c \<in> S \<and> S \<inter> {..< sv_find m sv start c} = {}"
proof (cases "sv_find m sv start c = SV_SENTINEL")
  case True
  then show ?thesis using sv_find_loop_none [of m sv c start] by (auto simp: sv_find_def S_def)
next
  case False
  then show ?thesis using sv_find_loop_found [of m sv c start] by (auto simp: sv_find_def S_def)
qed

text \<open>
  \<^verbatim>\<open>sv_compare\<close> is zero exactly when the two views hold the same bytes, which is the only use
  the kernel makes of it.
\<close>

theorem sv_compare_zero_iff_equal:
  "sv_compare m s1 s2 = 0 \<longleftrightarrow> sv_bytes m s1 = sv_bytes m s2"
  by (simp add: sv_compare_def sv_compare_loop_zero sv_bytes_eq_iff)

end
