(* ===== verification/Errors.thy ===== *)
theory Errors
  imports Prelude
begin

text \<open>
  The error codes and the error stack of \<^verbatim>\<open>types/error.h\<close> and \<^verbatim>\<open>types/error.c\<close>.  An
  \<^verbatim>\<open>error_t\<close> is a 64-bit word that is meant as a stack of codes with the newest in the low bits.
  Pushing and popping shift by \<^verbatim>\<open>sizeof(enum ErrorCode)\<close>, which is 4, while reading the top
  masks with \<^verbatim>\<open>0xFF\<close>; the definitions below keep both.
\<close>

datatype ErrorCode =
    EC_SUCCESS
  | EC_NOT_IMPLEMENTED
  | EC_NULL_ARGUMENT
  | EC_PMM_REGION_LIST_FULL
  | EC_PMM_REGION_TOO_SMALL
  | EC_PMM_REGION_ALREADY_MANAGED
  | EC_PMM_BAD_ALIGNMENT
  | EC_PMM_OUT_OF_MEMORY
  | EC_RISCV_SV39_UNALIGNED_ADDR
  | EC_RISCV_SV39_ALLOC_FAILED
  | EC_RISCV_SV39_MAPPING_EXISTS
  | EC_RISCV_SV39_NO_MAPPING
  | EC_VIRTIO_INVALID_MAGIC
  | EC_VIRTIO_UNSUPPORTED_VERSION
  | EC_VIRTIO_INVALID_DEVICE
  | EC_VIRTIO_UNSUPPORTED_DEVICE
  | EC_DT_BLOB_INVALID_MAGIC
  | EC_DT_BLOB_EMPTY_TREE
  | EC_DT_BLOB_REWRITE_FAILED
  | EC_DT_ADDRESS_CELLS_TOO_LARGE
  | EC_DT_SIZE_CELLS_TOO_LARGE
  | EC_DEVICE_NO_DEVICES
  | EC_PLIC_ALREADY_INITIALIZED
  | EC_PLIC_NO_INTERRUPT
  | EC_PLIC_UNREGISTERED_DRIVER
  | EC_PLIC_UNREGISTERED_INTERRUPT
  | EC_UART_DRIVER_NO_DATA

text \<open>The value the C enumeration gives each code.\<close>

fun ec :: "ErrorCode \<Rightarrow> u64" where
  "ec EC_SUCCESS = 0"
| "ec EC_NOT_IMPLEMENTED = 1"
| "ec EC_NULL_ARGUMENT = 2"
| "ec EC_PMM_REGION_LIST_FULL = 3"
| "ec EC_PMM_REGION_TOO_SMALL = 4"
| "ec EC_PMM_REGION_ALREADY_MANAGED = 5"
| "ec EC_PMM_BAD_ALIGNMENT = 6"
| "ec EC_PMM_OUT_OF_MEMORY = 7"
| "ec EC_RISCV_SV39_UNALIGNED_ADDR = 8"
| "ec EC_RISCV_SV39_ALLOC_FAILED = 9"
| "ec EC_RISCV_SV39_MAPPING_EXISTS = 10"
| "ec EC_RISCV_SV39_NO_MAPPING = 11"
| "ec EC_VIRTIO_INVALID_MAGIC = 12"
| "ec EC_VIRTIO_UNSUPPORTED_VERSION = 13"
| "ec EC_VIRTIO_INVALID_DEVICE = 14"
| "ec EC_VIRTIO_UNSUPPORTED_DEVICE = 15"
| "ec EC_DT_BLOB_INVALID_MAGIC = 16"
| "ec EC_DT_BLOB_EMPTY_TREE = 17"
| "ec EC_DT_BLOB_REWRITE_FAILED = 18"
| "ec EC_DT_ADDRESS_CELLS_TOO_LARGE = 19"
| "ec EC_DT_SIZE_CELLS_TOO_LARGE = 20"
| "ec EC_DEVICE_NO_DEVICES = 21"
| "ec EC_PLIC_ALREADY_INITIALIZED = 22"
| "ec EC_PLIC_NO_INTERRUPT = 23"
| "ec EC_PLIC_UNREGISTERED_DRIVER = 24"
| "ec EC_PLIC_UNREGISTERED_INTERRUPT = 25"
| "ec EC_UART_DRIVER_NO_DATA = 26"

definition EC_COUNT :: nat where
  "EC_COUNT = 27"

text \<open>The table of messages, in the order of the codes.\<close>

definition error_strings :: "string list" where
  "error_strings =
     [''EC_SUCCESS: No error.'',
      ''EC_NOT_IMPLEMENTED: Feature not implemented.'',
      ''EC_NULL_ARGUMENT: Null argument provided.'',
      ''EC_PMM_REGION_LIST_FULL: Physical memory manager region list is full.'',
      ''EC_PMM_REGION_TOO_SMALL: Physical memory region is too small.'',
      ''EC_PMM_REGION_ALREADY_MANAGED: Physical memory region is already managed.'',
      ''EC_PMM_BAD_ALIGNMENT: Bad alignment for physical memory allocation.'',
      ''EC_PMM_OUT_OF_MEMORY: Physical memory manager is out of memory.'',
      ''EC_RISCV_SV39_UNALIGNED_ADDR: Unaligned address for SV39 paging.'',
      ''EC_RISCV_SV39_ALLOC_FAILED: SV39 page allocation failed.'',
      ''EC_RISCV_SV39_MAPPING_EXISTS: SV39 mapping already exists.'',
      ''EC_RISCV_SV39_NO_MAPPING: No SV39 mapping found.'',
      ''EC_VIRTIO_INVALID_MAGIC: Invalid VirtIO magic number.'',
      ''EC_VIRTIO_UNSUPPORTED_VERSION: Unsupported VirtIO version.'',
      ''EC_VIRTIO_INVALID_DEVICE: Invalid VirtIO device.'',
      ''EC_VIRTIO_UNSUPPORTED_DEVICE: Unsupported VirtIO device.'',
      ''EC_DT_BLOB_INVALID_MAGIC: Invalid device tree blob magic.'',
      ''EC_DT_BLOB_EMPTY_TREE: Device tree blob is empty.'',
      ''EC_DT_BLOB_REWRITE_FAILED: Device tree blob rewrite failed.'',
      ''EC_DT_ADDRESS_CELLS_TOO_LARGE: Device tree address cells too large.'',
      ''EC_DT_SIZE_CELLS_TOO_LARGE: Device tree size cells too large.'',
      ''EC_DEVICE_NO_DEVICES: No devices found.'',
      ''EC_PLIC_ALREADY_INITIALIZED: PLIC already initialized on this hart.'',
      ''EC_PLIC_NO_INTERRUPT: No interrupt claimed by PLIC on this hart.'',
      ''EC_PLIC_UNREGISTERED_DRIVER: Claimed interrupt driver registered, but not implemented.'',
      ''EC_PLIC_UNREGISTERED_INTERRUPT: Claimed interrupt has no registered handler.'',
      ''EC_UART_DRIVER_NO_DATA: No data available to read from UART.'']"

text \<open>
  \<open>sizeof(enum ErrorCode)\<close>: the enumeration is an \<^verbatim>\<open>unsigned int\<close> of four bytes.
\<close>

definition sizeof_ErrorCode :: nat where
  "sizeof_ErrorCode = 4"

definition error_push :: "u64 \<Rightarrow> ErrorCode \<Rightarrow> u64" where
  "error_push err code = push_bit sizeof_ErrorCode err OR ec code"

definition error_pop :: "u64 \<Rightarrow> u64" where
  "error_pop err = drop_bit sizeof_ErrorCode err"

definition error_top :: "u64 \<Rightarrow> u64" where
  "error_top err = err AND 0xFF"

definition error_is_ok :: "u64 \<Rightarrow> bool" where
  "error_is_ok err \<longleftrightarrow> error_top err = ec EC_SUCCESS"

definition error_is_err :: "u64 \<Rightarrow> bool" where
  "error_is_err err \<longleftrightarrow> \<not> error_is_ok err"

text \<open>Indexing the table past its end is undefined behaviour.\<close>

definition error_string :: "u64 \<Rightarrow> halt + string" where
  "error_string err =
     (let i = unat (error_top err)
      in if i < length error_strings then Inr (error_strings ! i) else Inl Out_of_bounds)"

text \<open>\<^verbatim>\<open>_Static_assert\<close> of \<^verbatim>\<open>error.c\<close>.\<close>

lemma length_error_strings: "length error_strings = EC_COUNT"
  by (simp add: error_strings_def EC_COUNT_def)

section \<open>Codes are ordered as the enumeration orders them\<close>

lemma ec_inject: "ec c = ec d \<longleftrightarrow> c = d"
  by (cases c; cases d) simp_all

lemma ec_bound: "unat (ec c) < EC_COUNT"
  by (cases c) (simp_all add: EC_COUNT_def)

instantiation ErrorCode :: linorder
begin

definition less_eq_ErrorCode :: "ErrorCode \<Rightarrow> ErrorCode \<Rightarrow> bool" where
  "c \<le> d \<longleftrightarrow> ec c \<le> ec d"

definition less_ErrorCode :: "ErrorCode \<Rightarrow> ErrorCode \<Rightarrow> bool" where
  "c < d \<longleftrightarrow> ec c < ec d"

instance
  by standard (auto simp: less_eq_ErrorCode_def less_ErrorCode_def ec_inject
      dest: order.antisym order_less_imp_le)

end

section \<open>The top of the stack\<close>

lemma error_top_single: "error_top (ec c) = ec c"
  by (cases c) (simp_all add: error_top_def)

lemma error_is_ok_ec [simp]: "error_is_ok (ec c) \<longleftrightarrow> c = EC_SUCCESS"
  using ec_inject [of c EC_SUCCESS] by (simp add: error_is_ok_def error_top_single)

lemma error_is_err_ec [simp]: "error_is_err (ec c) \<longleftrightarrow> c \<noteq> EC_SUCCESS"
  by (simp add: error_is_err_def)

lemma ec_zero_iff [simp]: "ec c = 0 \<longleftrightarrow> c = EC_SUCCESS"
  using ec_inject [of c EC_SUCCESS] by simp

lemma error_string_single: "error_string (ec c) = Inr (error_strings ! unat (ec c))"
  using ec_bound [of c] by (simp add: error_string_def error_top_single length_error_strings)

lemma error_top_push:
  "error_top (error_push err c) = (push_bit 4 (err AND 0xF)) OR ec c"
proof -
  have "(0xFF :: u64) = mask 8" "(0xF :: u64) = mask 4" by (simp_all add: mask_eq_exp_minus_1)
  then have "push_bit 4 err AND 0xFF = push_bit 4 (err AND 0xF)"
    by (simp only: take_bit_push_bit flip: take_bit_eq_mask) simp
  moreover have "ec c AND 0xFF = ec c" by (cases c) simp_all
  ultimately show ?thesis
    by (simp add: error_top_def error_push_def sizeof_ErrorCode_def bit.conj_disj_distrib2)
qed

lemma error_push_is_err:
  assumes "c \<noteq> EC_SUCCESS"
  shows "error_is_err (error_push err c)"
proof -
  have "ec c \<noteq> 0" using assms by simp
  then have "push_bit 4 (err AND 0xF) OR ec c \<noteq> 0" by (metis or_eq_0_iff)
  then show ?thesis by (simp add: error_is_err_def error_is_ok_def error_top_push)
qed

section \<open>The stack\<close>

lemma drop_push_4: "drop_bit 4 (push_bit 4 (e :: u64)) = take_bit 60 e"
  by (rule bit_word_eqI) (auto simp: bit_simps)

text \<open>
  What pushing and popping an error really does.  Popping returns the old stack only in its
  low 60 bits and only for codes below 16: the bits of a larger code beyond the fourth are mixed
  into what is below, and the top read after a push is the new code with the low four bits of the
  old stack on top of it.  A pushed code other than success is always seen as an error.
\<close>

theorem error_stack_laws:
  "error_pop (error_push err c) = take_bit 60 err OR drop_bit 4 (ec c) \<and>
   error_top (error_push err c) = push_bit 4 (err AND 0xF) OR ec c \<and>
   error_is_err (error_push err c) = (c \<noteq> EC_SUCCESS \<or> err AND 0xF \<noteq> 0)"
proof (intro conjI)
  show "error_pop (error_push err c) = take_bit 60 err OR drop_bit 4 (ec c)"
    by (simp add: error_pop_def error_push_def sizeof_ErrorCode_def drop_bit_or drop_push_4)
  show "error_top (error_push err c) = push_bit 4 (err AND 0xF) OR ec c"
    by (rule error_top_push)
  have "push_bit 4 (err AND 0xF) = 0 \<longleftrightarrow> err AND 0xF = 0"
  proof
    assume "push_bit 4 (err AND 0xF) = 0"
    then have "drop_bit 4 (push_bit 4 (err AND 0xF)) = 0" by simp
    moreover have "err AND 0xF = take_bit 4 err"
      by (simp add: take_bit_eq_mask mask_eq_exp_minus_1)
    ultimately show "err AND 0xF = 0" by (simp add: drop_push_4)
  qed simp
  then show "error_is_err (error_push err c) = (c \<noteq> EC_SUCCESS \<or> err AND 0xF \<noteq> 0)"
    by (simp add: error_is_err_def error_is_ok_def error_top_push or_eq_0_iff disj_commute)
qed

theorem error_stack_laws_witness:
  "error_pop (error_push 0x7 EC_RISCV_SV39_ALLOC_FAILED) = 0x7 \<and> error_top (error_push 0x7 EC_RISCV_SV39_ALLOC_FAILED) = 0x79"
  using error_stack_laws [of "0x7" EC_RISCV_SV39_ALLOC_FAILED] by simp

text \<open>
  Every single error code prints as its own message of the table, and the message starts with
  the code's number-th entry; but the stack a failed page-table allocation returns,
  \<^verbatim>\<open>EC_RISCV_SV39_ALLOC_FAILED\<close> pushed on \<^verbatim>\<open>EC_PMM_OUT_OF_MEMORY\<close>, has no valid code on top and
  printing it reads past the end of the table.
\<close>

theorem error_string_total_on_codes_only:
  "error_string (ec c) = Inr (error_strings ! unat (ec c)) \<and>
   error_string (error_push (ec EC_PMM_OUT_OF_MEMORY) EC_RISCV_SV39_ALLOC_FAILED) = Inl Out_of_bounds"
proof
  show "error_string (ec c) = Inr (error_strings ! unat (ec c))" by (rule error_string_single)
  show "error_string (error_push (ec EC_PMM_OUT_OF_MEMORY) EC_RISCV_SV39_ALLOC_FAILED) =
      Inl Out_of_bounds"
    by (simp add: error_string_def error_top_push length_error_strings EC_COUNT_def)
qed

end
