(* ===== verification/Machine.thy ===== *)
theory Machine
  imports Str_View Errors
begin

text \<open>
  The machine the kernel runs on: its memory, and its device registers and control registers as a
  trace of accesses.  What a volatile read or a read of a control register returns is decided
  outside the program: \<open>io_inputs\<close> is the environment's answer to the access with that number in
  the trace, and every theorem holds for every such environment.  A store to memory is in the trace
  only where its order against the accesses matters, for the trap frame (\<open>Store64\<close>).  The console of \<^verbatim>\<open>uart.c\<close>
  is the first device; the accessors of single control registers are in \<open>Riscv_Csr\<close>.
\<close>

datatype csr =
    Time | Mstatus | Mtvec | Medeleg | Mideleg | Mie | Mip | Mcounteren
  | Mhartid | Pmpaddr0 | Pmpcfg0 | Sstatus | Stvec | Sie | Sip | Scounteren
  | Sscratch | Sepc | Scause | Stval | Senvcfg | Satp | Stimecmp

datatype io_event =
    Read8 addr u8
  | Read32 addr u32
  | Write8 addr u8
  | Write32 addr u32
  | Csr_read csr u64
  | Csr_write csr u64
  | Store64 addr u64

text \<open>The functions \<^verbatim>\<open>kprint_initialize\<close> is ever given.\<close>

datatype put_fn = Uart_put_char

record machine =
  kmem :: mem
  io_inputs :: "nat \<Rightarrow> u64"
  io_events :: "io_event list"
  uart_base_address :: addr
  put :: "put_fn option"
  print_buf :: "u8 list"

section \<open>Device and control registers\<close>

definition next_input :: "'a machine_scheme \<Rightarrow> u64" where
  "next_input s = io_inputs s (length (io_events s))"

definition record_io :: "io_event \<Rightarrow> 'a machine_scheme \<Rightarrow> 'a machine_scheme" where
  "record_io e s = s\<lparr>io_events := io_events s @ [e]\<rparr>"

definition mmio_read8 :: "addr \<Rightarrow> 'a machine_scheme \<Rightarrow> u8 \<times> 'a machine_scheme" where
  "mmio_read8 a s = (let v = ucast (next_input s) in (v, record_io (Read8 a v) s))"

definition mmio_read32 :: "addr \<Rightarrow> 'a machine_scheme \<Rightarrow> u32 \<times> 'a machine_scheme" where
  "mmio_read32 a s = (let v = ucast (next_input s) in (v, record_io (Read32 a v) s))"

definition mmio_write8 :: "addr \<Rightarrow> u8 \<Rightarrow> 'a machine_scheme \<Rightarrow> 'a machine_scheme" where
  "mmio_write8 a v s = record_io (Write8 a v) s"

definition mmio_write32 :: "addr \<Rightarrow> u32 \<Rightarrow> 'a machine_scheme \<Rightarrow> 'a machine_scheme" where
  "mmio_write32 a v s = record_io (Write32 a v) s"

definition csr_read :: "csr \<Rightarrow> 'a machine_scheme \<Rightarrow> u64 \<times> 'a machine_scheme" where
  "csr_read r s = (let v = next_input s in (v, record_io (Csr_read r v) s))"

definition csr_write :: "csr \<Rightarrow> u64 \<Rightarrow> 'a machine_scheme \<Rightarrow> 'a machine_scheme" where
  "csr_write r v s = record_io (Csr_write r v) s"

section \<open>uart.c\<close>

definition uart_initialize :: "addr \<Rightarrow> 'a machine_scheme \<Rightarrow> 'a machine_scheme" where
  "uart_initialize base s = s\<lparr>uart_base_address := base\<rparr>"

definition uart_put_char :: "u8 \<Rightarrow> 'a machine_scheme \<Rightarrow> 'a machine_scheme" where
  "uart_put_char c s = mmio_write8 (uart_base_address s) c s"

text \<open>The polling loop of \<^verbatim>\<open>uart_get_char\<close> need not end.\<close>

partial_function (option) uart_wait_data :: "'a machine_scheme \<Rightarrow> 'a machine_scheme option" where
  "uart_wait_data s =
     (let (lsr, s') = mmio_read8 (uart_base_address s + 0b101) s
      in if lsr AND 0x01 = 0 then uart_wait_data s' else Some s')"

definition uart_get_char :: "'a machine_scheme \<Rightarrow> (u8 \<times> 'a machine_scheme) option" where
  "uart_get_char s =
     map_option (\<lambda>s'. mmio_read8 (uart_base_address s') s') (uart_wait_data s)"

section \<open>Output on the console\<close>

text \<open>The state after the bytes have been sent to the console, one by one.\<close>

definition emit :: "u8 list \<Rightarrow> 'a machine_scheme \<Rightarrow> 'a machine_scheme" where
  "emit bs s = s\<lparr>io_events := io_events s @ map (Write8 (uart_base_address s)) bs\<rparr>"

lemma emit_Nil [simp]: "emit [] s = s"
  by (simp add: emit_def)

lemma emit_emit [simp]: "emit bs (emit cs s) = emit (cs @ bs) s"
  by (simp add: emit_def)

lemma emit_fields [simp]:
  "kmem (emit bs s) = kmem s" "put (emit bs s) = put s" "print_buf (emit bs s) = print_buf s"
  "uart_base_address (emit bs s) = uart_base_address s" "io_inputs (emit bs s) = io_inputs s"
  by (simp_all add: emit_def)

lemma uart_put_char_emit: "uart_put_char c s = emit [c] s"
  by (simp add: uart_put_char_def mmio_write8_def record_io_def emit_def)

section \<open>The accesses leave the memory alone\<close>

lemma record_io_fields [simp]:
  "kmem (record_io e s) = kmem s" "put (record_io e s) = put s"
  "print_buf (record_io e s) = print_buf s" "io_inputs (record_io e s) = io_inputs s"
  "uart_base_address (record_io e s) = uart_base_address s"
  "io_events (record_io e s) = io_events s @ [e]"
  by (simp_all add: record_io_def)

lemmas io_defs = mmio_read8_def mmio_read32_def mmio_write8_def mmio_write32_def
  csr_read_def csr_write_def Let_def

section \<open>Polling the console\<close>

text \<open>The trace of \<open>n\<close> unsuccessful polls of the line status register.\<close>

fun polled :: "nat \<Rightarrow> 'a machine_scheme \<Rightarrow> 'a machine_scheme" where
  "polled 0 s = s"
| "polled (Suc n) s = polled n (snd (mmio_read8 (uart_base_address s + 5) s))"

lemma polled_fields [simp]:
  "kmem (polled n s) = kmem s" "io_inputs (polled n s) = io_inputs s"
  "uart_base_address (polled n s) = uart_base_address s"
  "length (io_events (polled n s)) = length (io_events s) + n"
  by (induction n arbitrary: s) (simp_all add: io_defs)

lemma uart_wait_data_run:
  assumes "\<forall>k < n. (ucast (io_inputs s (length (io_events s) + k)) :: u8) AND 1 = 0"
    and "(ucast (io_inputs s (length (io_events s) + n)) :: u8) AND 1 \<noteq> 0"
  shows "uart_wait_data s = Some (polled (Suc n) s)"
  using assms
proof (induction n arbitrary: s)
  case 0
  then show ?case by (simp add: uart_wait_data.simps [of s] mmio_read8_def next_input_def Let_def)
next
  case (Suc n)
  let ?s = "snd (mmio_read8 (uart_base_address s + 5) s)"
  have z: "(ucast (io_inputs s (length (io_events s))) :: u8) AND 1 = 0"
    using Suc.prems(1) by force
  have "uart_wait_data ?s = Some (polled (Suc n) ?s)"
  proof (rule Suc.IH)
    show "\<forall>k < n. (ucast (io_inputs ?s (length (io_events ?s) + k)) :: u8) AND 1 = 0"
      using Suc.prems(1) by (auto simp: io_defs)
    show "(ucast (io_inputs ?s (length (io_events ?s) + n)) :: u8) AND 1 \<noteq> 0"
      using Suc.prems(2) by (simp add: io_defs)
  qed
  then show ?case
    using z by (simp add: uart_wait_data.simps [of s] mmio_read8_def next_input_def Let_def)
qed

text \<open>
  \<^verbatim>\<open>uart_get_char\<close> returns as soon as a poll of the line status register shows data: it polls
  exactly until then and returns the byte read from the data register next.
\<close>

theorem uart_get_char_returns:
  assumes "\<forall>k < n. (ucast (io_inputs s (length (io_events s) + k)) :: u8) AND 1 = 0"
    and "(ucast (io_inputs s (length (io_events s) + n)) :: u8) AND 1 \<noteq> 0"
  shows "uart_get_char s =
     Some (mmio_read8 (uart_base_address s) (polled (Suc n) s)) \<and>
   fst (the (uart_get_char s)) = ucast (io_inputs s (length (io_events s) + Suc n))"
  using uart_wait_data_run [OF assms]
  by (simp add: uart_get_char_def io_defs next_input_def del: polled.simps)

theorem uart_get_char_returns_witness:
  "fst (the (uart_get_char \<lparr>kmem = (\<lambda>_. 0), io_inputs = (\<lambda>k. if k = 2 then 0x61 else if k = 3 then 0x41 else 0),
     io_events = [], uart_base_address = 0x10000000, put = None, print_buf = []\<rparr>)) = (0x41 :: u8)"
proof -
  let ?s = "\<lparr>kmem = (\<lambda>_. 0), io_inputs = (\<lambda>k. if k = 2 then 0x61 else if k = 3 then 0x41 else 0),
     io_events = [], uart_base_address = 0x10000000, put = None, print_buf = []\<rparr>"
  have "fst (the (uart_get_char ?s)) = ucast (io_inputs ?s (length (io_events ?s) + Suc 2))"
    by (rule uart_get_char_returns [THEN conjunct2]) simp_all
  then show ?thesis by simp
qed

end
