(* ===== verification/Print.thy ===== *)
theory Print
  imports Machine
begin

text \<open>
  The formatted printer of \<^verbatim>\<open>fmt/print.c\<close>.  A format is the sequence of bytes its string view
  designates; the variadic arguments are the sequence of 64-bit slots the RISC-V calling
  convention passes them in (an integer, a character or a pointer takes one slot, a string view
  passed by its two members or by value takes two).  The static digit buffer is part of the state
  and keeps what earlier calls left in it.
\<close>

abbreviation chr :: "char \<Rightarrow> u8" where "chr c \<equiv> of_char c"

definition put_char :: "u8 \<Rightarrow> 'a machine_scheme \<Rightarrow> halt + 'a machine_scheme" where
  "put_char c s = (case put s of None \<Rightarrow> Inl Null_call | Some Uart_put_char \<Rightarrow> Inr (uart_put_char c s))"

definition kprint_initialize :: "put_fn option \<Rightarrow> 'a machine_scheme \<Rightarrow> u64 \<times> 'a machine_scheme" where
  "kprint_initialize f s =
     (case f of None \<Rightarrow> (ec EC_NULL_ARGUMENT, s) | Some g \<Rightarrow> (ec EC_SUCCESS, s\<lparr>put := Some g\<rparr>))"

section \<open>Null-terminated strings\<close>

partial_function (option) kprint_null_loop ::
    "addr \<Rightarrow> 'a machine_scheme \<Rightarrow> (halt + 'a machine_scheme) option" where
  "kprint_null_loop str s =
     (if kmem s str \<noteq> 0
      then (case put_char (kmem s str) s of Inl h \<Rightarrow> Some (Inl h) | Inr s' \<Rightarrow> kprint_null_loop (str + 1) s')
      else Some (Inr s))"

definition kprint_null_terminated :: "addr \<Rightarrow> 'a machine_scheme \<Rightarrow> halt + 'a machine_scheme" where
  "kprint_null_terminated str s =
     (case kprint_null_loop str s of None \<Rightarrow> Inl Hang | Some r \<Rightarrow> r)"

text \<open>The same loop over the digit buffer, which has an end.\<close>

fun kprint_buf_loop :: "u8 list \<Rightarrow> 'a machine_scheme \<Rightarrow> halt + 'a machine_scheme" where
  "kprint_buf_loop [] s = Inl Out_of_bounds"
| "kprint_buf_loop (c # cs) s =
     (if c \<noteq> 0 then and_then (put_char c s) (kprint_buf_loop cs) else Inr s)"

fun put_bytes :: "u8 list \<Rightarrow> 'a machine_scheme \<Rightarrow> halt + 'a machine_scheme" where
  "put_bytes [] s = Inr s"
| "put_bytes (c # cs) s = and_then (put_char c s) (put_bytes cs)"

definition kprint_string :: "str_view \<Rightarrow> 'a machine_scheme \<Rightarrow> halt + 'a machine_scheme" where
  "kprint_string str s = put_bytes (sv_bytes (kmem s) str) s"

definition kprintln_string :: "u8 list \<Rightarrow> 'a machine_scheme \<Rightarrow> halt + 'a machine_scheme" where
  "kprintln_string str s = and_then (put_bytes str s) (put_char (chr CHR 0x0A))"

section \<open>Integers\<close>

definition MAX_INT_BUF_SIZE :: u64 where
  "MAX_INT_BUF_SIZE = 67"

text \<open>The digit literal, its terminating null byte included.\<close>

definition digit_literal :: "u8 list" where
  "digit_literal = map of_char ''0123456789ABCDEFGHIJKLMNOPQRSTUVWXYZ'' @ [0]"

definition digit_at :: "u64 \<Rightarrow> halt + u8" where
  "digit_at d = (if unat d < length digit_literal then Inr (digit_literal ! unat d) else Inl Out_of_bounds)"

definition buf_put :: "u8 list \<Rightarrow> u64 \<Rightarrow> u8 \<Rightarrow> halt + u8 list" where
  "buf_put buf i c = (if unat i < length buf then Inr (buf[unat i := c]) else Inl Out_of_bounds)"

function print_int_loop :: "u64 \<Rightarrow> u64 \<Rightarrow> u64 \<Rightarrow> u8 list \<Rightarrow> halt + u64 \<times> u8 list" where
  "print_int_loop base value i buf =
     (if value \<noteq> 0 \<and> i \<noteq> 0
      then if base = 0 then Inl Div_by_zero
           else and_then (digit_at (value mod base)) (\<lambda>c.
                and_then (buf_put buf i c) (\<lambda>buf'.
                print_int_loop base (value div base) (i - 1) buf'))
      else Inr (i, buf))"
  by pat_completeness auto
termination
  by (relation "measure (\<lambda>(base, value, i, buf). unat i)") (simp_all add: measure_unat)

declare print_int_loop.simps [simp del]

text \<open>The \<^verbatim>\<open>switch\<close> on the base: the two bytes in front of the digits.\<close>

definition print_int_prefix :: "u64 \<Rightarrow> u64 \<Rightarrow> u8 list \<Rightarrow> halt + u64 \<times> u8 list" where
  "print_int_prefix base i buf =
     (let two = (\<lambda>c. and_then (buf_put buf i c) (\<lambda>buf'.
                     and_then (buf_put buf' (i - 1) (chr CHR ''0'')) (\<lambda>buf''.
                     Inr (i - 1 - 1, buf''))))
      in if base = 16 then two (chr CHR ''x'')
         else if base = 8 then two (chr CHR ''o'')
         else if base = 2 then two (chr CHR ''b'')
         else Inr (i, buf))"

definition kprint_print_int :: "u64 \<Rightarrow> u64 \<Rightarrow> 'a machine_scheme \<Rightarrow> halt + 'a machine_scheme" where
  "kprint_print_int value base s =
     (let i = MAX_INT_BUF_SIZE - 2 in
      and_then
        (if value = 0
         then and_then (buf_put (print_buf s) i (chr CHR ''0'')) (\<lambda>buf. Inr (i - 1, buf))
         else print_int_loop base value i (print_buf s))
        (\<lambda>(i, buf). and_then (print_int_prefix base i buf)
        (\<lambda>(i, buf). kprint_buf_loop (drop (unat (i + 1)) buf) (s\<lparr>print_buf := buf\<rparr>))))"

section \<open>Directives and formats\<close>

definition va_arg :: "u64 list \<Rightarrow> (u64 \<Rightarrow> u64 list \<Rightarrow> halt + 'b) \<Rightarrow> halt + 'b" where
  "va_arg args k = (case args of [] \<Rightarrow> Inl Va_exhausted | a # rest \<Rightarrow> k a rest)"

definition kprint_print_spec ::
    "u8 list \<Rightarrow> u64 list \<Rightarrow> 'a machine_scheme \<Rightarrow> halt + u64 list \<times> 'a machine_scheme" where
  "kprint_print_spec spec args s =
     kassert (length spec = 1)
     (let spec_byte = spec ! 0;
          ret = (\<lambda>rest r. and_then r (\<lambda>s'. Inr (rest, s'))) in
      if spec_byte = chr CHR ''S'' then va_arg args (\<lambda>str rest. ret rest (kprint_null_terminated str s))
      else if spec_byte = chr CHR ''V'' then
        va_arg args (\<lambda>str rest. va_arg rest (\<lambda>len rest'.
          ret rest' (kprint_string \<lparr>sv_data = str, sv_size = len\<rparr> s)))
      else if spec_byte = chr CHR ''C'' then va_arg args (\<lambda>c rest. ret rest (put_char (ucast c) s))
      else if spec_byte = chr CHR ''D'' then va_arg args (\<lambda>v rest. ret rest (kprint_print_int v 10 s))
      else if spec_byte = chr CHR ''X'' then va_arg args (\<lambda>v rest. ret rest (kprint_print_int v 16 s))
      else if spec_byte = chr CHR ''B'' then va_arg args (\<lambda>v rest. ret rest (kprint_print_int v 2 s))
      else Inl Panicked)"

text \<open>
  The loop over the format, with its index and its three local variables.  The directive between
  the braces is \<^verbatim>\<open>sv_substr(format, spec_start + 1, spec_end - spec_start - 1)\<close>.
\<close>

function kprint_format_loop ::
    "u8 list \<Rightarrow> nat \<Rightarrow> bool \<Rightarrow> nat \<Rightarrow> u64 list \<Rightarrow> 'a machine_scheme \<Rightarrow> halt + u64 list \<times> 'a machine_scheme" where
  "kprint_format_loop format i in_spec spec_start args s =
     (if i < length format
      then let cur = format ! i in
        if cur = chr CHR ''{'' then
          if in_spec
          then and_then (put_char (chr CHR ''{'') s) (kprint_format_loop format (Suc i) False spec_start args)
          else kprint_format_loop format (Suc i) True i args s
        else if cur = chr CHR ''}'' then
          if in_spec
          then and_then (kprint_print_spec (take (i - spec_start - 1) (drop (spec_start + 1) format)) args s)
                 (\<lambda>(args', s'). kprint_format_loop format (Suc i) False spec_start args' s')
          else and_then (put_char (chr CHR ''}'') s) (kprint_format_loop format (Suc i) in_spec spec_start args)
        else if \<not> in_spec
          then and_then (put_char cur s) (kprint_format_loop format (Suc i) in_spec spec_start args)
          else kprint_format_loop format (Suc i) in_spec spec_start args s
      else Inr (args, s))"
  by pat_completeness auto
termination
  by (relation "measure (\<lambda>(format, i, in_spec, spec_start, args, s). length format - i)") auto

declare kprint_format_loop.simps [simp del]

definition kprint_formatted_print ::
    "u8 list \<Rightarrow> u64 list \<Rightarrow> 'a machine_scheme \<Rightarrow> halt + u64 list \<times> 'a machine_scheme" where
  "kprint_formatted_print format args s = kprint_format_loop format 0 False 0 args s"

definition kprint :: "u8 list \<Rightarrow> u64 list \<Rightarrow> 'a machine_scheme \<Rightarrow> halt + 'a machine_scheme" where
  "kprint format args s = and_then (kprint_formatted_print format args s) (\<lambda>(_, s'). Inr s')"

definition kprintln :: "u8 list \<Rightarrow> u64 list \<Rightarrow> 'a machine_scheme \<Rightarrow> halt + 'a machine_scheme" where
  "kprintln format args s =
     and_then (kprint_formatted_print format args s) (\<lambda>(_, s'). put_char (chr CHR 0x0A) s')"

text \<open>\<^verbatim>\<open>SV("...")\<close>: the bytes of a string literal.\<close>

definition SV :: "string \<Rightarrow> u8 list" where
  "SV str = map of_char str"

section \<open>Sending bytes\<close>

lemma put_char_emit: "put s = Some f \<Longrightarrow> put_char c s = Inr (emit [c] s)"
  by (cases f) (simp add: put_char_def uart_put_char_emit)

lemma put_bytes_emit: "put s = Some f \<Longrightarrow> put_bytes bs s = Inr (emit bs s)"
  by (induction bs arbitrary: s) (simp_all add: put_char_emit)

lemma kprint_buf_loop_emit:
  "put s = Some f \<Longrightarrow> 0 \<notin> set bs \<Longrightarrow> kprint_buf_loop (bs @ 0 # rest) s = Inr (emit bs s)"
  by (induction bs arbitrary: s) (auto simp: put_char_emit)

lemma kprint_null_loop_run:
  assumes "put s = Some f" and "\<forall>k < n. kmem s (p + of_nat k) \<noteq> 0" and "kmem s (p + of_nat n) = 0"
  shows "kprint_null_loop p s = Some (Inr (emit (load_bytes (kmem s) p n) s))"
  using assms
proof (induction n arbitrary: p s)
  case 0
  then show ?case by (simp add: kprint_null_loop.simps load_bytes_def)
next
  case (Suc n)
  have nz: "kmem s p \<noteq> 0" using Suc.prems(2) by force
  let ?s = "emit [kmem s p] s"
  have shift: "p + 1 + of_nat k = p + of_nat (Suc k)" for k by simp
  have "\<forall>k < n. kmem ?s (p + 1 + of_nat k) \<noteq> 0" "kmem ?s (p + 1 + of_nat n) = 0"
    using Suc.prems(2,3) by (auto simp only: shift emit_fields Suc_mono)
  then have "kprint_null_loop (p + 1) ?s = Some (Inr (emit (load_bytes (kmem ?s) (p + 1) n) ?s))"
    using Suc.prems(1) by (intro Suc.IH) simp_all
  moreover have "load_bytes (kmem s) p (Suc n) = kmem s p # load_bytes (kmem s) (p + 1) n"
    by (simp add: load_bytes_def map_upt_Suc shift del: upt_Suc)
  ultimately show ?case
    using nz Suc.prems(1) by (simp add: kprint_null_loop.simps [of p s] put_char_emit)
qed

lemma kprint_null_terminated_emit:
  assumes "put s = Some f" and "sv_from_null_term (kmem s) p = Some sv"
  shows "kprint_null_terminated p s = Inr (emit (sv_bytes (kmem s) sv) s)"
proof -
  note b = sv_from_null_term_bytes [OF assms(2)]
  have nz: "\<forall>k < unat (sv_size sv). kmem s (p + of_nat k) \<noteq> 0"
    using b(1,2) by (auto simp: sv_bytes_def load_bytes_def image_iff Ball_def)
  have z: "kmem s (p + of_nat (unat (sv_size sv))) = 0" using b(3) by simp
  show ?thesis
    using kprint_null_loop_run [OF assms(1) nz z] b(1)
    by (simp add: kprint_null_terminated_def sv_bytes_def)
qed

section \<open>Integers in positional notation\<close>

text \<open>The digits of a number, most significant first, and the text \<^verbatim>\<open>kprint_print_int\<close> owes.\<close>

fun digits_of :: "nat \<Rightarrow> nat \<Rightarrow> nat list" where
  "digits_of b n = (if b < 2 \<or> n = 0 then [] else digits_of b (n div b) @ [n mod b])"

declare digits_of.simps [simp del]

definition int_prefix :: "u64 \<Rightarrow> u8 list" where
  "int_prefix base =
     (if base = 16 then SV ''0x'' else if base = 8 then SV ''0o'' else if base = 2 then SV ''0b'' else [])"

definition int_digits :: "u64 \<Rightarrow> u64 \<Rightarrow> u8 list" where
  "int_digits base v =
     (if v = 0 then SV ''0'' else map (\<lambda>d. digit_literal ! d) (digits_of (unat base) (unat v)))"

lemma digits_of_small: "2 \<le> b \<Longrightarrow> d \<in> set (digits_of b n) \<Longrightarrow> d < b"
proof (induction b n rule: digits_of.induct)
  case (1 b n)
  show ?case
  proof (cases "n = 0")
    case True
    then show ?thesis using "1.prems" by (simp add: digits_of.simps [of b 0])
  next
    case False
    then have "d \<in> set (digits_of b (n div b)) \<or> d = n mod b"
      using "1.prems" by (auto simp add: digits_of.simps [of b n])
    then show ?thesis using "1.IH" False "1.prems"(1) by auto
  qed
qed

lemma digits_of_value:
  "2 \<le> b \<Longrightarrow> foldl (\<lambda>a d. a * b + d) 0 (digits_of b n) = n"
  by (induction b n rule: digits_of.induct) (subst digits_of.simps, auto)

lemma digits_of_length: "2 \<le> b \<Longrightarrow> n < b ^ k \<Longrightarrow> length (digits_of b n) \<le> k"
proof (induction k arbitrary: n)
  case 0
  then show ?case by (simp add: digits_of.simps)
next
  case (Suc k)
  then have "n div b < b ^ k" by (simp add: less_mult_imp_div_less mult.commute)
  then show ?case using Suc by (subst digits_of.simps) auto
qed

lemma digits_of_hd: "2 \<le> b \<Longrightarrow> 0 < n \<Longrightarrow> hd (digits_of b n) \<noteq> 0 \<and> digits_of b n \<noteq> []"
proof (induction b n rule: digits_of.induct)
  case (1 b n)
  show ?case
  proof (cases "n div b = 0")
    case True
    then have "n mod b = n" using "1.prems" by (simp add: div_eq_0_iff)
    then show ?thesis using True "1.prems"
      by (subst (1 2) digits_of.simps) (simp add: digits_of.simps [of b 0])
  next
    case False
    then have "hd (digits_of b (n div b)) \<noteq> 0 \<and> digits_of b (n div b) \<noteq> []"
      using "1.prems" by (intro "1.IH") auto
    then show ?thesis using "1.prems" by (subst (1 2) digits_of.simps) simp
  qed
qed

lemma digit_literal_nz:
  assumes "d < 36"
  shows "digit_literal ! d \<noteq> 0"
proof -
  have "0 \<notin> set (take 36 digit_literal)" by (simp add: digit_literal_def)
  moreover have "length digit_literal = 37" by (simp add: digit_literal_def)
  then have "take 36 digit_literal ! d \<in> set (take 36 digit_literal)"
    using assms by (intro nth_mem) simp
  then have "digit_literal ! d \<in> set (take 36 digit_literal)" using assms by simp
  ultimately show ?thesis by metis
qed

lemma length_digit_literal: "length digit_literal = 37"
  by (simp add: digit_literal_def)

lemma print_int_loop_correct:
  assumes "2 \<le> unat base" and "unat base \<le> 36"
    and "length (digits_of (unat base) (unat v)) \<le> unat i" and "unat i < length buf"
  shows "print_int_loop base v i buf =
    (let ds = map (\<lambda>d. digit_literal ! d) (digits_of (unat base) (unat v))
     in Inr (i - of_nat (length ds),
             take (Suc (unat i) - length ds) buf @ ds @ drop (Suc (unat i)) buf))"
  using assms
proof (induction base v i buf rule: print_int_loop.induct)
  case (1 base v i buf)
  let ?b = "unat base"
  show ?case
  proof (cases "v = 0")
    case True
    then show ?thesis by (simp add: print_int_loop.simps [of base 0 i buf] digits_of.simps [of ?b 0])
  next
    case False
    define ds where "ds = map (\<lambda>d. digit_literal ! d) (digits_of ?b (unat v div ?b))"
    define c where "c = digit_literal ! (unat v mod ?b)"
    have dig: "digits_of ?b (unat v) = digits_of ?b (unat v div ?b) @ [unat v mod ?b]"
      using False "1.prems"(1) by (subst digits_of.simps) (simp add: unat_eq_0)
    have len: "Suc (length ds) \<le> unat i" using "1.prems"(3) by (simp add: dig ds_def)
    then have i: "i \<noteq> 0" by auto
    then have i1: "unat (i - 1) = unat i - 1"
      using unat_minus_one [OF i] by simp
    have base: "base \<noteq> 0" using "1.prems"(1) by auto
    have m: "unat (v mod base) = unat v mod ?b" by (rule unat_mod)
    have mlt: "unat v mod ?b < ?b" using "1.prems"(1) by simp
    have at: "digit_at (v mod base) = Inr c"
      using mlt "1.prems"(2) by (simp add: digit_at_def m c_def length_digit_literal)
    have bp: "buf_put buf i c = Inr (buf[unat i := c])"
      using "1.prems"(4) by (simp add: buf_put_def)
    have "print_int_loop base (v div base) (i - 1) (buf[unat i := c]) =
        Inr (i - 1 - of_nat (length ds),
             take (Suc (unat (i - 1)) - length ds) (buf[unat i := c]) @ ds @
             drop (Suc (unat (i - 1))) (buf[unat i := c]))"
      using "1.IH" [OF conjI [OF False i] base at bp] "1.prems" len
      by (simp add: i1 unat_div ds_def Let_def)
    moreover have "drop (Suc (unat (i - 1))) (buf[unat i := c]) = c # drop (Suc (unat i)) buf"
      using i1 len "1.prems"(4) by (simp add: Cons_nth_drop_Suc [symmetric])
    moreover have "take (Suc (unat (i - 1)) - length ds) (buf[unat i := c]) = take (unat i - length ds) buf"
      using i1 len by simp
    moreover have "print_int_loop base v i buf =
        print_int_loop base (v div base) (i - 1) (buf[unat i := c])"
      using False i base by (simp add: print_int_loop.simps [of base v i buf] at bp)
    ultimately show ?thesis
      by (simp add: dig Let_def c_def ds_def algebra_simps)
  qed
qed

text \<open>The digit buffer as every call finds it: 66 bytes of any content and a null byte.\<close>

definition print_buf_ok :: "'a machine_scheme \<Rightarrow> bool" where
  "print_buf_ok s \<longleftrightarrow> length (print_buf s) = 67 \<and> print_buf s ! 66 = 0"

lemma drop_print_buf: "print_buf_ok s \<Longrightarrow> drop 66 (print_buf s) = [0]"
  by (simp add: print_buf_ok_def list_eq_iff_nth_eq nth_drop)

lemma print_buf_ok_emit [simp]: "print_buf_ok (emit bs s) = print_buf_ok s"
  by (simp add: print_buf_ok_def)

lemma print_int_prefix_correct:
  assumes "unat i + 1 + length ds = 66" and "1 \<le> unat i" and "length xs = unat i + 1"
  shows "\<exists>i' buf. print_int_prefix base i (xs @ ds @ [0]) = Inr (i', buf) \<and>
    drop (unat (i' + 1)) buf = int_prefix base @ ds @ [0] \<and> length buf = 67 \<and> buf ! 66 = 0"
proof (cases "base = 16 \<or> base = 8 \<or> base = 2")
  case False
  then have "print_int_prefix base i (xs @ ds @ [0]) = Inr (i, xs @ ds @ [0])"
    by (simp add: print_int_prefix_def Let_def)
  moreover have "unat (i + 1) = unat i + 1" using assms(1) by (subst unat_add_eq) simp_all
  ultimately show ?thesis
    using False assms by (auto simp: int_prefix_def nth_append)
next
  case True
  have i1: "unat (i - 1) = unat i - 1"
    using assms(2) unat_minus_one [of i] by (cases "i = 0") simp_all
  obtain xs1 b where xs1: "xs = xs1 @ [b]" using assms(3) by (cases xs rule: rev_cases) auto
  obtain zs a where "xs1 = zs @ [a]" using assms(2,3) xs1 by (cases xs1 rule: rev_cases) auto
  then have xs': "xs = zs @ [a, b]" using xs1 by simp
  have ij: "unat i = Suc (length zs)" using assms(3) xs' by simp
  have put: "buf_put (xs @ ds @ [0]) i c = Inr (zs @ [a, c] @ ds @ [0])" for c
    using assms(1) by (simp add: buf_put_def xs' ij list_update_append)
  have put': "buf_put (zs @ [a, c] @ ds @ [0]) (i - 1) d = Inr (zs @ [d, c] @ ds @ [0])" for c d
    using assms(1) by (simp add: buf_put_def i1 ij list_update_append)
  have i2: "unat (i - 1 - 1 + 1) = length zs" by (simp add: i1 ij)
  have two: "and_then (buf_put (xs @ ds @ [0]) i c) (\<lambda>buf'.
      and_then (buf_put buf' (i - 1) (chr CHR ''0'')) (\<lambda>buf''. Inr (i - 1 - 1, buf''))) =
      Inr (i - 1 - 1, zs @ [chr CHR ''0'', c] @ ds @ [0])" for c
    by (simp only: put put' and_then_Inr)
  have "\<exists>c. print_int_prefix base i (xs @ ds @ [0]) =
      Inr (i - 1 - 1, zs @ [chr CHR ''0'', c] @ ds @ [0]) \<and> int_prefix base = [chr CHR ''0'', c]"
    using True unfolding print_int_prefix_def Let_def two
    by (elim disjE) (simp_all add: int_prefix_def SV_def)
  then obtain c where c: "print_int_prefix base i (xs @ ds @ [0]) =
      Inr (i - 1 - 1, zs @ [chr CHR ''0'', c] @ ds @ [0])" "int_prefix base = [chr CHR ''0'', c]"
    by blast
  have "length zs + length ds = 64" using assms(1) ij by simp
  then have "length (zs @ [chr CHR ''0'', c] @ ds) = 66" by simp
  then have "length (zs @ [chr CHR ''0'', c] @ ds @ [0]) = 67"
    "(zs @ [chr CHR ''0'', c] @ ds @ [0]) ! 66 = 0"
    using nth_append_length [of "zs @ [chr CHR ''0'', c] @ ds" 0 "[]"] by simp_all
  with c i2 show ?thesis by simp
qed

lemma kprint_print_int_correct:
  assumes "put s = Some f" and "print_buf_ok s" and "2 \<le> unat base" and "unat base \<le> 36"
  shows "\<exists>buf. kprint_print_int v base s =
      Inr (emit (int_prefix base @ int_digits base v) (s\<lparr>print_buf := buf\<rparr>)) \<and>
    length buf = 67 \<and> buf ! 66 = 0"
proof -
  define ds where "ds = int_digits base v"
  have len: "length (digits_of (unat base) (unat v)) \<le> 64"
  proof (rule digits_of_length [OF assms(3)])
    have "unat v < 2 ^ 64" using unat_lt_2_64 [of v] by simp
    also have "(2::nat) ^ 64 \<le> unat base ^ 64" using assms(3) by (rule power_mono) simp
    finally show "unat v < unat base ^ 64" .
  qed
  have "digits_of (unat base) (unat v) \<noteq> []" if "v \<noteq> 0"
    using that digits_of_hd [OF assms(3), of "unat v"] by (simp add: unat_gt_0)
  then have ds: "length ds \<le> 64" "ds \<noteq> []" using len by (auto simp: ds_def int_digits_def SV_def)
  have "digit_literal ! d \<noteq> 0" if "d \<in> set (digits_of (unat base) (unat v))" for d
    using digits_of_small [OF assms(3) that] assms(4) by (intro digit_literal_nz) simp
  then have nz: "0 \<notin> set ds"
    by (cases "v = 0") (auto simp: ds_def int_digits_def SV_def)
  have dsl: "1 \<le> length ds" using ds(2) by (simp add: Suc_leI)
  let ?i = "65 - of_nat (length ds) :: u64"
  have ul: "unat (of_nat (length ds) :: u64) = length ds"
    using ds(1) by (intro unat_of_nat_eq) simp
  have ui: "unat ?i = 65 - length ds"
    using ds(1) by (subst unat_sub_eq) (simp_all add: word_le_nat_alt ul)
  define xs where "xs = take (66 - length ds) (print_buf s)"
  have lxs: "length xs = unat ?i + 1" "unat ?i + 1 + length ds = 66" "1 \<le> unat ?i"
    using assms(2) ds(1) dsl by (auto simp: xs_def print_buf_ok_def ui)
  have first: "(if v = 0
         then and_then (buf_put (print_buf s) 65 (chr CHR ''0'')) (\<lambda>buf. Inr (65 - 1, buf))
         else print_int_loop base v 65 (print_buf s)) = Inr (?i, xs @ ds @ [0])"
  proof (cases "v = 0")
    case True
    have "(print_buf s)[65 := chr CHR ''0''] = take 65 (print_buf s) @ [chr CHR ''0''] @ [0]"
      using assms(2) drop_print_buf [OF assms(2)]
      by (simp add: print_buf_ok_def upd_conv_take_nth_drop)
    then show ?thesis
      using True assms(2)
      by (simp add: ds_def int_digits_def SV_def buf_put_def print_buf_ok_def xs_def)
  next
    case False
    then show ?thesis
      using print_int_loop_correct [OF assms(3,4), of v 65 "print_buf s"] len assms(2)
        drop_print_buf [OF assms(2)]
      by (simp add: ds_def int_digits_def Let_def print_buf_ok_def xs_def)
  qed
  obtain i' buf where pre: "print_int_prefix base ?i (xs @ ds @ [0]) = Inr (i', buf)"
    and buf: "drop (unat (i' + 1)) buf = int_prefix base @ ds @ [0]" "length buf = 67" "buf ! 66 = 0"
    using print_int_prefix_correct [OF lxs(2,3,1), of base] by blast
  have "0 \<notin> set (int_prefix base @ ds)" using nz by (auto simp: int_prefix_def SV_def)
  then have "kprint_buf_loop (drop (unat (i' + 1)) buf) (s\<lparr>print_buf := buf\<rparr>) =
      Inr (emit (int_prefix base @ ds) (s\<lparr>print_buf := buf\<rparr>))"
    using kprint_buf_loop_emit [of "s\<lparr>print_buf := buf\<rparr>" f "int_prefix base @ ds" "[]"] buf(1) assms(1)
    by simp
  then have "kprint_print_int v base s = Inr (emit (int_prefix base @ ds) (s\<lparr>print_buf := buf\<rparr>))"
    using first pre by (simp add: kprint_print_int_def MAX_INT_BUF_SIZE_def)
  with buf show ?thesis by (auto simp: ds_def)
qed

section \<open>Formats as token sequences\<close>

text \<open>
  The specification of the format language: literal bytes and directives.  The accumulator is
  \<open>Some\<close> of the directive read so far while inside braces; a second opening brace inside a
  directive drops it and stands for one literal brace.
\<close>

datatype token = Lit u8 | Spec "u8 list"

fun tokens :: "u8 list option \<Rightarrow> u8 list \<Rightarrow> token list" where
  "tokens st [] = []"
| "tokens None (c # cs) =
     (if c = chr CHR ''{'' then tokens (Some []) cs else Lit c # tokens None cs)"
| "tokens (Some acc) (c # cs) =
     (if c = chr CHR ''{'' then Lit c # tokens None cs
      else if c = chr CHR ''}'' then Spec acc # tokens None cs
      else tokens (Some (acc @ [c])) cs)"

fun print_tokens :: "token list \<Rightarrow> u64 list \<Rightarrow> 'a machine_scheme \<Rightarrow> halt + u64 list \<times> 'a machine_scheme" where
  "print_tokens [] args s = Inr (args, s)"
| "print_tokens (Lit c # ts) args s = and_then (put_char c s) (print_tokens ts args)"
| "print_tokens (Spec sp # ts) args s =
     and_then (kprint_print_spec sp args s) (\<lambda>(args', s'). print_tokens ts args' s')"

definition spec_so_far :: "u8 list \<Rightarrow> nat \<Rightarrow> bool \<Rightarrow> nat \<Rightarrow> u8 list option" where
  "spec_so_far format i in_spec start =
     (if in_spec then Some (take (i - start - 1) (drop (start + 1) format)) else None)"

lemma spec_so_far_step:
  assumes "start < i" and "i < length format"
  shows "spec_so_far format (Suc i) True start =
    Some (take (i - start - 1) (drop (start + 1) format) @ [format ! i])"
proof -
  have "Suc i - start - 1 = Suc (i - start - 1)" using assms by simp
  moreover have "drop (start + 1) format ! (i - start - 1) = format ! i" using assms by simp
  moreover have "i - start - 1 < length (drop (start + 1) format)" using assms by simp
  ultimately show ?thesis by (simp add: spec_so_far_def take_Suc_conv_app_nth)
qed

lemma kprint_format_loop_tokens:
  fixes s :: "'a machine_scheme"
  shows "(in_spec \<longrightarrow> start < i) \<Longrightarrow>
   kprint_format_loop format i in_spec start args s =
     print_tokens (tokens (spec_so_far format i in_spec start) (drop i format)) args s"
proof (induction "length format - i" arbitrary: i in_spec start args s)
  case 0
  then show ?case by (simp add: kprint_format_loop.simps [of format i])
next
  case (Suc n)
  then have i: "i < length format" and n: "n = length format - Suc i" by simp_all
  have d: "drop i format = format ! i # drop (Suc i) format"
    using i by (rule Cons_nth_drop_Suc [symmetric])
  have off: "kprint_format_loop format (Suc i) False st =
      (print_tokens (tokens None (drop (Suc i) format)) :: _ \<Rightarrow> 'a machine_scheme \<Rightarrow> _)" for st
    using Suc.hyps(1) [OF n, of False] by (intro ext) (simp add: spec_so_far_def)
  have on: "kprint_format_loop format (Suc i) True st =
      (print_tokens (tokens (spec_so_far format (Suc i) True st) (drop (Suc i) format))
        :: _ \<Rightarrow> 'a machine_scheme \<Rightarrow> _)"
    if "st < Suc i" for st
    using Suc.hyps(1) [OF n, of True] that by (intro ext) simp
  show ?case
  proof (cases in_spec)
    case True
    then have "start < i" using Suc.prems by simp
    with True i show ?thesis
      by (subst kprint_format_loop.simps)
        (simp add: off on d spec_so_far_step Let_def, simp add: spec_so_far_def)
  next
    case False
    with i show ?thesis
      by (subst kprint_format_loop.simps) (simp add: off on d spec_so_far_def Let_def)
  qed
qed

lemma kprint_formatted_print_tokens:
  "kprint_formatted_print format args s = print_tokens (tokens None format) args s"
  using kprint_format_loop_tokens [of False 0 0 format args s]
  by (simp add: kprint_formatted_print_def spec_so_far_def)

section \<open>The text a format stands for\<close>

definition directive :: "mem \<Rightarrow> u8 list \<Rightarrow> u64 list \<Rightarrow> (u8 list \<times> u64 list) option" where
  "directive m sp args =
     (case args of [] \<Rightarrow> None | a # rest \<Rightarrow>
      if sp = SV ''S'' then map_option (\<lambda>sv. (sv_bytes m sv, rest)) (sv_from_null_term m a)
      else if sp = SV ''V'' then
        (case rest of [] \<Rightarrow> None | len # rest' \<Rightarrow> Some (load_bytes m a (unat len), rest'))
      else if sp = SV ''C'' then Some ([ucast a], rest)
      else if sp = SV ''D'' then Some (int_digits 10 a, rest)
      else if sp = SV ''X'' then Some (SV ''0x'' @ int_digits 16 a, rest)
      else if sp = SV ''B'' then Some (SV ''0b'' @ int_digits 2 a, rest)
      else None)"

fun render :: "mem \<Rightarrow> token list \<Rightarrow> u64 list \<Rightarrow> u8 list option" where
  "render m [] args = Some []"
| "render m (Lit c # ts) args = map_option ((#) c) (render m ts args)"
| "render m (Spec sp # ts) args =
     (case directive m sp args of None \<Rightarrow> None
      | Some (t, rest) \<Rightarrow> map_option ((@) t) (render m ts rest))"

text \<open>A routine that sends exactly this text and leaves the digit buffer usable.\<close>

definition sends :: "u8 list \<Rightarrow> 'a machine_scheme \<Rightarrow> 'a machine_scheme \<Rightarrow> bool" where
  "sends t s s' \<longleftrightarrow>
     (\<exists>buf. s' = emit t (s\<lparr>print_buf := buf\<rparr>) \<and> length buf = 67 \<and> buf ! 66 = 0)"

lemma sends_emit: "print_buf_ok s \<Longrightarrow> sends t s (emit t s)"
  by (auto simp: sends_def print_buf_ok_def intro!: exI [of _ "print_buf s"])

lemma sends_trans: "sends t s s' \<Longrightarrow> sends u s' s'' \<Longrightarrow> sends (t @ u) s s''"
  by (auto simp: sends_def emit_def)

lemma sends_fields:
  "sends t s s' \<Longrightarrow> put s' = put s \<and> kmem s' = kmem s \<and> print_buf_ok s'"
  by (auto simp: sends_def print_buf_ok_def)

lemma print_int_sends:
  assumes "put s = Some f" and "print_buf_ok s" and "base \<in> {2, 8, 10, 16}"
  shows "\<exists>s'. kprint_print_int v base s = Inr s' \<and> sends (int_prefix base @ int_digits base v) s s'"
proof -
  have "2 \<le> unat base" "unat base \<le> 36" using assms(3) by auto
  from kprint_print_int_correct [OF assms(1,2) this, of v] show ?thesis
    unfolding sends_def by blast
qed

lemma spec_single: "length sp = 1 \<and> sp ! 0 = of_char c \<longleftrightarrow> sp = SV [c]"
  by (cases sp) (auto simp: SV_def)

lemma kprint_print_spec_sends:
  assumes "put s = Some f" and "print_buf_ok s" and "directive (kmem s) sp args = Some (t, rest)"
  shows "\<exists>s'. kprint_print_spec sp args s = Inr (rest, s') \<and> sends t s s'"
proof -
  obtain a as where args: "args = a # as"
    using assms(3) by (cases args) (auto simp: directive_def)
  consider "sp = SV ''S''" | "sp = SV ''V''" | "sp = SV ''C''" | "sp = SV ''D''" | "sp = SV ''X''" | "sp = SV ''B''"
    using assms(3) by (auto simp: directive_def args split: if_splits)
  then show ?thesis
  proof cases
    case 1
    then obtain sv where "sv_from_null_term (kmem s) a = Some sv" "t = sv_bytes (kmem s) sv" "rest = as"
      using assms(3) by (auto simp: directive_def args)
    then show ?thesis using 1 assms(1,2) sends_emit
      by (simp add: kprint_print_spec_def args va_arg_def SV_def kprint_null_terminated_emit)
  next
    case 2
    then obtain len where "as = len # rest" "t = load_bytes (kmem s) a (unat len)"
      using assms(3) by (auto simp: directive_def args SV_def split: list.splits)
    then show ?thesis using 2 assms(1,2) sends_emit
      by (simp add: kprint_print_spec_def args va_arg_def SV_def kprint_string_def put_bytes_emit sv_bytes_def)
  next
    case 3
    then show ?thesis using assms sends_emit
      by (simp add: kprint_print_spec_def args va_arg_def SV_def directive_def put_char_emit)
  next
    case 4
    then show ?thesis using print_int_sends [OF assms(1,2), of 10 a] assms(3)
      by (auto simp: kprint_print_spec_def args va_arg_def SV_def directive_def int_prefix_def)
  next
    case 5
    then show ?thesis using print_int_sends [OF assms(1,2), of 16 a] assms(3)
      by (auto simp: kprint_print_spec_def args va_arg_def SV_def directive_def int_prefix_def)
  next
    case 6
    then show ?thesis using print_int_sends [OF assms(1,2), of 2 a] assms(3)
      by (auto simp: kprint_print_spec_def args va_arg_def SV_def directive_def int_prefix_def)
  qed
qed

lemma print_tokens_sends:
  "put s = Some f \<Longrightarrow> print_buf_ok s \<Longrightarrow> render (kmem s) ts args = Some t \<Longrightarrow>
   \<exists>rest s'. print_tokens ts args s = Inr (rest, s') \<and> sends t s s'"
proof (induction ts arbitrary: args s t)
  case Nil
  then show ?case using sends_emit [of s "[]"] by simp
next
  case (Cons tok ts)
  show ?case
  proof (cases tok)
    case (Lit c)
    then obtain u where u: "t = c # u" "render (kmem (emit [c] s)) ts args = Some u"
      using Cons.prems(3) by auto
    then obtain rest s' where "print_tokens ts args (emit [c] s) = Inr (rest, s')" "sends u (emit [c] s) s'"
      using Cons.IH [of "emit [c] s" args u] Cons.prems(1,2) by auto
    then show ?thesis
      using Lit u Cons.prems(1,2) sends_trans [OF sends_emit [of s "[c]"]] by (simp add: put_char_emit)
  next
    case (Spec sp)
    then obtain t1 rest u where d: "directive (kmem s) sp args = Some (t1, rest)"
        and u: "t = t1 @ u" "render (kmem s) ts rest = Some u"
      using Cons.prems(3) by (auto split: option.splits)
    obtain s1 where s1: "kprint_print_spec sp args s = Inr (rest, s1)" "sends t1 s s1"
      using kprint_print_spec_sends [OF Cons.prems(1,2) d] by blast
    then obtain rest' s' where "print_tokens ts rest s1 = Inr (rest', s')" "sends u s1 s'"
      using Cons.IH [of s1 rest u] Cons.prems(1,2) u(2) sends_fields [OF s1(2)] by auto
    then show ?thesis using Spec s1 u sends_trans [OF s1(2)] by simp
  qed
qed

definition escape :: "u8 list \<Rightarrow> u8 list" where
  "escape t = concat (map (\<lambda>c. if c = chr CHR ''{'' then [c, c] else [c]) t)"

lemma tokens_escape: "tokens None (escape t) = map Lit t"
  by (induction t) (auto simp: escape_def)

lemma print_lits: "put s = Some f \<Longrightarrow> print_tokens (map Lit t) args s = Inr (args, emit t s)"
  by (induction t arbitrary: s) (simp_all add: put_char_emit)

section \<open>What the printer promises\<close>

text \<open>A state to run the printer in: an empty memory, the console at its QEMU address.\<close>

definition console_state :: machine where
  "console_state = \<lparr>kmem = (\<lambda>_. 0), io_inputs = (\<lambda>_. 0), io_events = [],
     uart_base_address = 0x10000000, put = Some Uart_put_char, print_buf = replicate 67 0\<rparr>"

lemma console_state_ok [simp]: "print_buf_ok console_state" "put console_state = Some Uart_put_char"
  by (simp_all add: console_state_def print_buf_ok_def nth_Cons' numeral_eq_Suc)

text \<open>
  Printing an integer in any of the kernel's bases never leaves the 67-byte static buffer,
  whatever earlier calls left there, and sends the base's prefix followed by the digits: the
  digits denote the value and there is no leading zero other than for 0 itself.
\<close>

theorem kprint_print_int_exact:
  assumes "put s = Some f" and "print_buf_ok s" and "base \<in> {2, 8, 10, 16}"
  shows "\<exists>s' ds. kprint_print_int v base s = Inr s' \<and>
    sends (int_prefix base @ map (\<lambda>d. digit_literal ! d) ds) s s' \<and>
    foldl (\<lambda>a d. a * unat base + d) 0 ds = unat v \<and>
    set ds \<subseteq> {..< unat base} \<and> (ds = [0] \<or> hd ds \<noteq> 0) \<and> ds \<noteq> []"
proof -
  have b: "2 \<le> unat base" using assms(3) by auto
  define ds where "ds = (if v = 0 then [0] else digits_of (unat base) (unat v))"
  have "int_digits base v = map (\<lambda>d. digit_literal ! d) ds"
    by (simp add: int_digits_def ds_def SV_def digit_literal_def)
  moreover have "foldl (\<lambda>a d. a * unat base + d) 0 ds = unat v"
    using digits_of_value [OF b] by (simp add: ds_def)
  moreover have "set ds \<subseteq> {..< unat base}" "(ds = [0] \<or> hd ds \<noteq> 0) \<and> ds \<noteq> []"
    using digits_of_small [OF b] digits_of_hd [OF b, of "unat v"] b by (auto simp: ds_def unat_gt_0)
  ultimately show ?thesis using print_int_sends [OF assms, of v] by metis
qed

theorem kprint_print_int_exact_witness:
  "\<exists>s' ds. kprint_print_int 0xBEEF 16 console_state = Inr s' \<and>
    sends (int_prefix 16 @ map (\<lambda>d. digit_literal ! d) ds) console_state s' \<and>
    foldl (\<lambda>a d. a * unat (16 :: u64) + d) 0 ds = unat (0xBEEF :: u64) \<and>
    set ds \<subseteq> {..< unat (16 :: u64)} \<and> (ds = [0] \<or> hd ds \<noteq> 0) \<and> ds \<noteq> []"
  by (rule kprint_print_int_exact [of console_state]) simp_all

text \<open>
  C11: the loop of \<^verbatim>\<open>kprint_formatted_print\<close> over the format and its three variables does what the
  token sequence of the format says, on every branch: the same bytes, the same directives on the
  same arguments, and the same failures.
\<close>

theorem kprint_formatted_print_refines_tokens:
  "kprint_formatted_print format args s = print_tokens (tokens None format) args s"
  by (rule kprint_formatted_print_tokens)

text \<open>Whatever is printed, successfully, goes to the console and nowhere else.\<close>

definition prints :: "'a machine_scheme \<Rightarrow> 'a machine_scheme \<Rightarrow> bool" where
  "prints s s' \<longleftrightarrow> (\<exists>bs buf. s' = emit bs (s\<lparr>print_buf := buf\<rparr>))"

lemma prints_emit: "prints s (emit bs (s\<lparr>print_buf := buf\<rparr>))" "prints s (emit bs s)" "prints s (s\<lparr>print_buf := buf\<rparr>)"
proof -
  show e: "prints s (emit bs (s\<lparr>print_buf := buf\<rparr>))" for bs buf unfolding prints_def by blast
  show "prints s (emit bs s)" using e [of bs "print_buf s"] by simp
  show "prints s (s\<lparr>print_buf := buf\<rparr>)" using e [of "[]" buf] by simp
qed

lemma prints_refl [simp]: "prints s s"
  using prints_emit(2) [of s "[]"] by simp

lemma prints_trans: "prints s s' \<Longrightarrow> prints s' s'' \<Longrightarrow> prints s s''"
  by (auto simp: prints_def emit_def) (metis append_assoc map_append)

lemma prints_fields:
  assumes "prints s s'"
  shows "kmem s' = kmem s" and "put s' = put s" and "uart_base_address s' = uart_base_address s" and "io_inputs s' = io_inputs s"
    and "\<exists>bs. io_events s' = io_events s @ map (Write8 (uart_base_address s)) bs"
  using assms by (auto simp: prints_def emit_def)

lemma put_char_prints: "put_char c s = Inr s' \<Longrightarrow> prints s s'"
  by (auto simp: put_char_def uart_put_char_emit prints_emit split: option.splits put_fn.splits)

lemma put_bytes_prints: "put_bytes bs s = Inr s' \<Longrightarrow> prints s s'"
  by (induction bs arbitrary: s) (auto simp: and_then_eq_Inr dest: put_char_prints intro: prints_trans)

lemma kprint_null_loop_prints:
  assumes "kprint_null_loop p s = Some r"
  shows "\<forall>s'. r = Inr s' \<longrightarrow> prints s s'"
  by (rule kprint_null_loop.raw_induct [OF _ assms])
    (auto split: if_splits sum.splits dest!: put_char_prints intro: prints_trans)

lemma kprint_buf_loop_prints: "kprint_buf_loop cs s = Inr s' \<Longrightarrow> prints s s'"
  by (induction cs arbitrary: s) (auto simp: and_then_eq_Inr split: if_splits dest: put_char_prints intro: prints_trans)

lemma kprint_print_int_prints: "kprint_print_int v base s = Inr s' \<Longrightarrow> prints s s'"
proof -
  assume "kprint_print_int v base s = Inr s'"
  then obtain cs buf where "kprint_buf_loop cs (s\<lparr>print_buf := buf\<rparr>) = Inr s'"
    by (auto simp: kprint_print_int_def and_then_eq_Inr Let_def)
  then show ?thesis using prints_emit(3) by (blast dest: kprint_buf_loop_prints intro: prints_trans)
qed

lemma kprint_print_spec_prints: "kprint_print_spec spec args s = Inr (rest, s') \<Longrightarrow> prints s s'"
  by (auto simp: kprint_print_spec_def kassert_eq_Inr and_then_eq_Inr Let_def va_arg_def kprint_string_def kprint_null_terminated_def
      split: if_splits list.splits option.splits
      dest: put_char_prints put_bytes_prints kprint_print_int_prints kprint_null_loop_prints)

lemma print_tokens_prints: "print_tokens ts args s = Inr (rest, s') \<Longrightarrow> prints s s'"
proof (induction ts arbitrary: args s)
  case (Cons t ts)
  then show ?case
    by (cases t) (auto simp: and_then_eq_Inr dest!: put_char_prints kprint_print_spec_prints intro: prints_trans)
qed simp

lemma kprintln_prints: "kprintln format args s = Inr s' \<Longrightarrow> prints s s'"
  by (auto simp: kprintln_def and_then_eq_Inr kprint_formatted_print_tokens
      dest!: put_char_prints print_tokens_prints intro: prints_trans)

lemma kprintln_string_prints: "kprintln_string str s = Inr s' \<Longrightarrow> prints s s'"
  by (auto simp: kprintln_string_def and_then_eq_Inr dest!: put_char_prints put_bytes_prints intro: prints_trans)

lemma kprintln_sends:
  assumes "put s = Some f" and "print_buf_ok s" and "render (kmem s) (tokens None format) args = Some t"
  shows "\<exists>s'. kprintln format args s = Inr s' \<and> sends (t @ [chr CHR 0x0A]) s s'"
proof -
  obtain rest s' where s': "print_tokens (tokens None format) args s = Inr (rest, s')" "sends t s s'"
    using print_tokens_sends [OF assms] by blast
  then have "put s' = Some f" using assms(1) by (auto simp: sends_def)
  then have "kprintln format args s = Inr (emit [chr CHR 0x0A] s')"
    using s'(1) by (simp add: kprintln_def kprint_formatted_print_tokens put_char_emit)
  moreover have "sends (t @ [chr CHR 0x0A]) s (emit [chr CHR 0x0A] s')" using s'(2) by (auto simp: sends_def)
  ultimately show ?thesis by blast
qed

text \<open>
  C22: when the format's directives are among the documented ones and the arguments suffice,
  \<^verbatim>\<open>kprint\<close> sends exactly the text the format stands for and changes nothing else but its
  static buffer.
\<close>

theorem kprint_sends_rendered_text:
  assumes "put s = Some f" and "print_buf_ok s"
    and "render (kmem s) (tokens None format) args = Some t"
  shows "\<exists>s'. kprint format args s = Inr s' \<and> sends t s s'"
  using print_tokens_sends [OF assms]
  by (auto simp: kprint_def kprint_formatted_print_tokens)

theorem kprint_sends_rendered_text_witness:
  "\<exists>s'. kprint (SV ''at {X}!'') [0x2A] console_state = Inr s' \<and> sends (SV ''at 0x2A!'') console_state s'"
  by (rule kprint_sends_rendered_text [of console_state])
    (simp_all add: SV_def directive_def int_digits_def digits_of.simps digit_literal_def)

text \<open>
  Any text, with its opening braces doubled, prints as itself and consumes no argument.
\<close>

theorem kprint_escape_roundtrip:
  assumes "put s = Some f"
  shows "kprint (escape t) args s = Inr (emit t s) \<and>
    kprintln (escape t) args s = Inr (emit (t @ [chr CHR 0x0A]) s)"
  using assms
  by (simp add: kprint_def kprintln_def kprint_formatted_print_tokens tokens_escape print_lits
      put_char_emit)

theorem kprint_escape_roundtrip_witness:
  "kprint (escape (SV ''{}'')) [] console_state = Inr (emit (SV ''{}'') console_state) \<and>
   kprintln (escape (SV ''{}'')) [] console_state = Inr (emit (SV ''{}'' @ [chr CHR 0x0A]) console_state)"
  by (rule kprint_escape_roundtrip [of console_state]) simp

end
