(* ===== verification/Allocators.thy ===== *)
theory Allocators
  imports Memory
begin

text \<open>
  The contract the kernel's allocators share, as the code that calls them relies on it: an
  allocation hands out a block that touches no live block, and it leaves the contents of the live
  blocks alone.  The bump allocator, the slab allocator and the physical memory manager each give
  an instance of it; what a client may conclude about a whole sequence of allocations is proved
  once, here.
\<close>

text \<open>A sequence of requests; a request that is answered with a null pointer yields no block.\<close>

fun alloc_run :: "('r \<Rightarrow> 's \<Rightarrow> halt + addr \<times> 's) \<Rightarrow> 'r list \<Rightarrow> 's \<Rightarrow> halt + addr list \<times> 's" where
  "alloc_run alloc [] s = Inr ([], s)"
| "alloc_run alloc (r # rs) s =
     and_then (alloc r s) (\<lambda>(p, s').
     and_then (alloc_run alloc rs s') (\<lambda>(ps, s''). Inr (p # ps, s'')))"

definition blocks :: "('r \<Rightarrow> nat) \<Rightarrow> 'r list \<Rightarrow> addr list \<Rightarrow> (addr \<times> nat) list" where
  "blocks len rs ps = map (\<lambda>(r, p). (p, len r)) (filter (\<lambda>(r, p). p \<noteq> 0) (zip rs ps))"

lemma blocks_Cons:
  "blocks len (r # rs) (p # ps) = (if p = 0 then [] else [(p, len r)]) @ blocks len rs ps"
  by (simp add: blocks_def)

locale block_source =
  fixes inv :: "'s \<Rightarrow> (addr \<times> nat) list \<Rightarrow> bool"
    and pre :: "'r \<Rightarrow> 's \<Rightarrow> bool"
    and alloc :: "'r \<Rightarrow> 's \<Rightarrow> halt + addr \<times> 's"
    and len :: "'r \<Rightarrow> nat"
    and bytes :: "'s \<Rightarrow> mem"
  assumes inv_apart: "inv s live \<Longrightarrow> all_apart live"
    and inv_perm: "inv s live \<Longrightarrow> mset live = mset live' \<Longrightarrow> inv s live'"
    and alloc_inv: "inv s live \<Longrightarrow> pre r s \<Longrightarrow> alloc r s = Inr (p, s') \<Longrightarrow>
      inv s' (if p = 0 then live else (p, len r) # live)"
    and alloc_frame: "inv s live \<Longrightarrow> pre r s \<Longrightarrow> alloc r s = Inr (p, s') \<Longrightarrow>
      agree_on (covered live) (bytes s') (bytes s)"
    and pre_stable: "inv s live \<Longrightarrow> pre r s \<Longrightarrow> alloc r s = Inr (p, s') \<Longrightarrow> pre r' s \<Longrightarrow> pre r' s'"
begin

lemma run_blocks:
  "inv s live \<Longrightarrow> (\<forall>r \<in> set rs. pre r s) \<Longrightarrow> alloc_run alloc rs s = Inr (ps, s') \<Longrightarrow>
   inv s' (blocks len rs ps @ live) \<and> agree_on (covered live) (bytes s') (bytes s) \<and>
   length ps = length rs"
proof (induction rs arbitrary: s live ps)
  case Nil
  then show ?case by (simp add: blocks_def)
next
  case (Cons r rs)
  from Cons.prems(3) obtain p s1 qs where a: "alloc r s = Inr (p, s1)"
    and q: "alloc_run alloc rs s1 = Inr (qs, s')" and ps: "ps = p # qs"
    by (auto simp: and_then_eq_Inr)
  define live1 where "live1 = (if p = 0 then live else (p, len r) # live)"
  have pr: "pre r s" using Cons.prems(2) by simp
  have i1: "inv s1 live1"
    unfolding live1_def by (rule alloc_inv [OF Cons.prems(1) pr a])
  have pr1: "\<forall>r \<in> set rs. pre r s1"
    using pre_stable [OF Cons.prems(1) pr a] Cons.prems(2) by auto
  note IH = Cons.IH [OF i1 pr1 q]
  have "covered live \<subseteq> covered live1" by (auto simp: live1_def)
  then have "agree_on (covered live) (bytes s') (bytes s1)" using IH agree_on_mono by blast
  moreover have "agree_on (covered live) (bytes s1) (bytes s)"
    by (rule alloc_frame [OF Cons.prems(1) pr a])
  ultimately have "agree_on (covered live) (bytes s') (bytes s)" by (rule agree_on_trans)
  moreover have "mset (blocks len rs qs @ live1) = mset (blocks len (r # rs) ps @ live)"
    by (simp add: ps blocks_Cons live1_def)
  ultimately show ?case using IH inv_perm ps by auto
qed

lemma run_apart:
  "inv s live \<Longrightarrow> (\<forall>r \<in> set rs. pre r s) \<Longrightarrow> alloc_run alloc rs s = Inr (ps, s') \<Longrightarrow>
   all_apart (blocks len rs ps @ live)"
  using run_blocks inv_apart by blast

end

end
