(* ===== verification/Bump_Alloc.thy ===== *)
theory Bump_Alloc
  imports Allocators
begin

text \<open>
  The bump allocator of \<^verbatim>\<open>types/bump_alloc.c\<close>.  The descriptor is passed and returned by value (so
  the assertions that its address is not null hold by construction); the region headers live at
  the start of the buffers in memory, with \<^verbatim>\<open>offset\<close>, \<^verbatim>\<open>end\<close> and \<^verbatim>\<open>next\<close> at byte offsets 0, 8
  and 16.
\<close>

record bump_alloc =
  current :: addr
  used_list :: addr

definition sizeof_bump_region :: u64 where
  "sizeof_bump_region = 24"

definition br_offset :: "mem \<Rightarrow> addr \<Rightarrow> addr" where
  "br_offset m r = load64 m r"

definition br_end :: "mem \<Rightarrow> addr \<Rightarrow> addr" where
  "br_end m r = load64 m (r + 8)"

definition br_next :: "mem \<Rightarrow> addr \<Rightarrow> addr" where
  "br_next m r = load64 m (r + 16)"

text \<open>\<^verbatim>\<open>r->end - r->offset\<close>, a signed pointer difference.\<close>

definition br_free :: "mem \<Rightarrow> addr \<Rightarrow> int" where
  "br_free m r = sint (br_end m r - br_offset m r)"

definition bump_initialize :: bump_alloc where
  "bump_initialize = \<lparr>current = 0, used_list = 0\<rparr>"

partial_function (option) insert_walk :: "mem \<Rightarrow> addr \<Rightarrow> addr \<Rightarrow> addr option" where
  "insert_walk m cur new_region =
     (if br_next m cur \<noteq> 0 \<and> br_free m (br_next m cur) > br_free m new_region
      then insert_walk m (br_next m cur) new_region
      else Some cur)"

definition insert_into_sorted_list :: "mem \<Rightarrow> addr \<Rightarrow> addr \<Rightarrow> halt + addr \<times> mem" where
  "insert_into_sorted_list m head new_region =
     (if new_region = 0 then Inr (head, m)
      else if head = 0 \<or> br_free m head \<le> br_free m new_region
        then Inr (new_region, store64 m (new_region + 16) head)
      else case insert_walk m head new_region of
          None \<Rightarrow> Inl Hang
        | Some cur \<Rightarrow>
            let m1 = store64 m (new_region + 16) (br_next m cur);
                m2 = store64 m1 (cur + 16) new_region
            in Inr (head, m2))"

definition bump_grow :: "bump_alloc \<Rightarrow> addr \<Rightarrow> u64 \<Rightarrow> mem \<Rightarrow> halt + bump_alloc \<times> mem" where
  "bump_grow bump buffer buffer_size m =
     kassert (buffer \<noteq> 0) (kassert (buffer_size \<ge> PAGE_SIZE)
     (let new_region = buffer;
          buffer = buffer + sizeof_bump_region;
          buffer_size = buffer_size - sizeof_bump_region;
          m1 = store64 m new_region buffer;
          m2 = store64 m1 (new_region + 8) (buffer + buffer_size);
          m3 = store64 m2 (new_region + 16) 0
      in and_then (insert_into_sorted_list m3 (used_list bump) (current bump))
           (\<lambda>(head, m4). Inr (\<lparr>current = new_region, used_list = head\<rparr>, m4))))"

text \<open>The test and the carving that appear twice in \<^verbatim>\<open>bump_allocate_aligned\<close>.\<close>

definition bump_fits :: "mem \<Rightarrow> addr \<Rightarrow> u64 \<Rightarrow> u64 \<Rightarrow> bool" where
  "bump_fits m r sz al \<longleftrightarrow> ALIGN_UP (br_offset m r) al + sz \<le> br_end m r"

definition bump_take :: "mem \<Rightarrow> addr \<Rightarrow> u64 \<Rightarrow> u64 \<Rightarrow> addr \<times> mem" where
  "bump_take m r sz al =
     (let retval = ALIGN_UP (br_offset m r) al in (retval, store64 m r (retval + sz)))"

definition bump_allocate_aligned ::
    "bump_alloc \<Rightarrow> u64 \<Rightarrow> u64 \<Rightarrow> mem \<Rightarrow> halt + addr \<times> bump_alloc \<times> mem" where
  "bump_allocate_aligned bump sz alignment m =
     (if sz = 0 \<or> current bump = 0 then Inr (0, bump, m)
      else if bump_fits m (current bump) sz alignment
        then let (retval, m') = bump_take m (current bump) sz alignment in Inr (retval, bump, m')
      else
        let new_current = used_list bump in
        deref new_current
          (and_then (insert_into_sorted_list m (br_next m new_current) (current bump))
            (\<lambda>(head, m1).
              let bump' = \<lparr>current = new_current, used_list = head\<rparr> in
              if bump_fits m1 new_current sz alignment
              then let (retval, m') = bump_take m1 new_current sz alignment in Inr (retval, bump', m')
              else Inr (0, bump', m1))))"

definition bump_allocate :: "bump_alloc \<Rightarrow> u64 \<Rightarrow> mem \<Rightarrow> halt + addr \<times> bump_alloc \<times> mem" where
  "bump_allocate bump sz m = bump_allocate_aligned bump sz 1 m"

section \<open>Insertion keeps the list sorted\<close>

fun insert_desc :: "(addr \<Rightarrow> int) \<Rightarrow> addr \<Rightarrow> addr list \<Rightarrow> addr list" where
  "insert_desc f x [] = [x]"
| "insert_desc f x (a # as) = (if f a \<le> f x then x # a # as else a # insert_desc f x as)"

abbreviation sorted_desc :: "(addr \<Rightarrow> int) \<Rightarrow> addr list \<Rightarrow> bool" where
  "sorted_desc f as \<equiv> sorted_wrt (\<lambda>a b. f b \<le> f a) as"

lemma mset_insert_desc [simp]: "mset (insert_desc f x as) = add_mset x (mset as)"
  by (induction as) auto

lemma set_insert_desc [simp]: "set (insert_desc f x as) = insert x (set as)"
  by (induction as) auto

lemma sorted_insert_desc: "sorted_desc f as \<Longrightarrow> sorted_desc f (insert_desc f x as)"
  by (induction as) auto

lemma sorted_desc_same:
  "\<forall>a \<in> set as. f a = g a \<Longrightarrow> sorted_desc f as \<longleftrightarrow> sorted_desc g as"
  by (induction as) auto

lemma insert_desc_append:
  "(\<forall>a \<in> set as. f x < f a) \<Longrightarrow> (bs = [] \<or> f (hd bs) \<le> f x) \<Longrightarrow>
   insert_desc f x (as @ bs) = as @ x # bs"
  by (induction as) (cases bs, auto)

lemma insert_walk_correct:
  "chain 16 m (br_next m cur) as \<Longrightarrow>
   \<exists>xs ys. as = xs @ ys \<and> insert_walk m cur new_region = Some (last (cur # xs)) \<and>
     (\<forall>a \<in> set xs. br_free m new_region < br_free m a) \<and>
     (ys = [] \<or> br_free m (hd ys) \<le> br_free m new_region)"
proof (induction as arbitrary: cur)
  case Nil
  then show ?case by (simp add: insert_walk.simps)
next
  case (Cons a as)
  then have a: "br_next m cur = a" "a \<noteq> 0" and tl: "chain 16 m (br_next m a) as"
    by (auto simp: chain_Cons br_next_def)
  show ?case
  proof (cases "br_free m a > br_free m new_region")
    case False
    then have "insert_walk m cur new_region = Some cur"
      using a by (simp add: insert_walk.simps [of m cur])
    then show ?thesis using False by (intro exI [of _ "[]"] exI [of _ "a # as"]) simp
  next
    case True
    obtain xs ys where xy: "as = xs @ ys" "insert_walk m a new_region = Some (last (a # xs))"
      "\<forall>a \<in> set xs. br_free m new_region < br_free m a"
      "ys = [] \<or> br_free m (hd ys) \<le> br_free m new_region"
      using Cons.IH [OF tl] by blast
    have "insert_walk m cur new_region = insert_walk m a new_region"
      using True a by (subst insert_walk.simps) simp
    then show ?thesis using True xy
      by (intro exI [of _ "a # xs"] exI [of _ ys]) auto
  qed
qed

section \<open>Headers in memory\<close>

definition headers_apart :: "addr list \<Rightarrow> bool" where
  "headers_apart as \<longleftrightarrow> all_apart (map (\<lambda>a. (a, 24)) as)"

lemma headers_apart_Cons:
  "headers_apart (a # as) \<longleftrightarrow> (\<forall>b \<in> set as. extent a 24 \<inter> extent b 24 = {}) \<and> headers_apart as"
  by (simp add: headers_apart_def apart_def)

lemma headers_apart_two:
  "headers_apart as \<Longrightarrow> a \<in> set as \<Longrightarrow> b \<in> set as \<Longrightarrow> a = b \<or> extent a 24 \<inter> extent b 24 = {}"
  by (induction as) (auto simp: headers_apart_Cons)

lemma headers_apart_mset: "mset as = mset bs \<Longrightarrow> headers_apart as = headers_apart bs"
  unfolding headers_apart_def by (rule all_apart_mset) simp

lemma store_next_other:
  assumes "a = b \<or> extent a 24 \<inter> extent b 24 = {}"
  shows "br_offset (store64 m (a + 16) v) b = br_offset m b"
    and "br_end (store64 m (a + 16) v) b = br_end m b"
    and "br_free (store64 m (a + 16) v) b = br_free m b"
proof -
  have "load64 (store64 m (a + 16) v) b = load64 m b"
    using assms load64_store64_fields [of a 24 b 24 16 0] load64_store64_other [of b "b + 16"] by auto
  moreover have "load64 (store64 m (a + 16) v) (b + 8) = load64 m (b + 8)"
    using assms load64_store64_fields [of a 24 b 24 16 8] load64_store64_other [of "b + 8" "b + 16"] by auto
  ultimately show "br_offset (store64 m (a + 16) v) b = br_offset m b"
      "br_end (store64 m (a + 16) v) b = br_end m b"
      "br_free (store64 m (a + 16) v) b = br_free m b"
    by (simp_all add: br_offset_def br_end_def br_free_def)
qed

lemma store_next_next:
  "extent a 24 \<inter> extent b 24 = {} \<Longrightarrow> load64 (store64 m (a + 16) v) (b + 16) = load64 m (b + 16)"
  by (rule load64_store64_fields [of a 24 b 24]) simp_all

text \<open>
  \<^verbatim>\<open>insert_into_sorted_list\<close> on a well-formed list returns the list with the region inserted,
  and writes nothing but link fields.
\<close>

definition links :: "addr list \<Rightarrow> addr set" where
  "links as = (\<Union>a \<in> set as. extent (a + 16) 8)"

lemma links_Cons [simp]: "links (a # as) = extent (a + 16) 8 \<union> links as"
  by (simp add: links_def)

lemma chain_store_other:
  assumes "\<forall>b \<in> set as. extent a 24 \<inter> extent b 24 = {}"
  shows "chain 16 (store64 m (a + 16) v) p as = chain 16 m p as"
  using assms by (intro chain_cong) (simp add: store_next_next)

lemma segment_store_other:
  assumes "\<forall>b \<in> set as. extent a 24 \<inter> extent b 24 = {}"
  shows "segment 16 (store64 m (a + 16) v) p as q = segment 16 m p as q"
  using assms by (intro segment_cong) (simp add: store_next_next)

lemma insert_into_sorted_list_correct:
  assumes ch: "chain 16 m head as" and ap: "headers_apart (x # as)" and x: "x \<noteq> 0"
  shows "\<exists>h m'. insert_into_sorted_list m head x = Inr (h, m') \<and>
    chain 16 m' h (insert_desc (br_free m) x as) \<and> agree_on (- links (x # as)) m' m \<and>
    (\<forall>a \<in> set (x # as). br_offset m' a = br_offset m a \<and> br_end m' a = br_end m a)"
proof (cases "head = 0 \<or> br_free m head \<le> br_free m x")
  case True
  have ins: "insert_desc (br_free m) x as = x # as"
    using True ch by (cases as) (auto simp: chain_Cons)
  have sep: "\<forall>b \<in> set as. extent x 24 \<inter> extent b 24 = {}"
    using ap by (simp add: headers_apart_Cons)
  show ?thesis
  proof (intro exI conjI)
    show "insert_into_sorted_list m head x = Inr (x, store64 m (x + 16) head)"
      using True x by (simp add: insert_into_sorted_list_def)
    show "chain 16 (store64 m (x + 16) head) x (insert_desc (br_free m) x as)"
      using ch sep x by (simp add: ins chain_Cons chain_store_other)
    show "agree_on (- links (x # as)) (store64 m (x + 16) head) m"
      by (rule store64_agree) auto
    show "\<forall>a \<in> set (x # as). br_offset (store64 m (x + 16) head) a = br_offset m a \<and>
        br_end (store64 m (x + 16) head) a = br_end m a"
      using sep by (auto simp: store_next_other)
  qed
next
  case False
  then have h0: "head \<noteq> 0" and hf: "br_free m x < br_free m head" by auto
  obtain as' where as: "as = head # as'" using chain_nonempty [OF ch h0] by blast
  have ch': "chain 16 m (br_next m head) as'" using ch by (simp add: as chain_Cons br_next_def)
  obtain xs ys where xy: "as' = xs @ ys" "insert_walk m head x = Some (last (head # xs))"
      "\<forall>a \<in> set xs. br_free m x < br_free m a" "ys = [] \<or> br_free m (hd ys) \<le> br_free m x"
    using insert_walk_correct [OF ch', of x] by blast
  define c where "c = last (head # xs)"
  define ps where "ps = butlast (head # xs)"
  have pc: "head # xs = ps @ [c]" by (simp add: c_def ps_def)
  have asl: "as = ps @ c # ys" using pc by (simp add: as xy(1))
  have ins: "insert_desc (br_free m) x as = ps @ c # x # ys"
    using insert_desc_append [of "head # xs" "br_free m" x ys] xy(3,4) hf
    by (simp add: as xy(1) pc [symmetric] flip: append_Cons)
  have apx: "\<forall>b \<in> set as. extent x 24 \<inter> extent b 24 = {}" and apas: "headers_apart as"
    using ap by (simp_all add: headers_apart_Cons)
  have "headers_apart (c # ps @ ys)"
    using apas headers_apart_mset [of as "c # ps @ ys"] by (simp add: asl)
  then have apc: "\<forall>b \<in> set (ps @ ys). extent c 24 \<inter> extent b 24 = {}"
    by (simp add: headers_apart_Cons)
  have cx: "extent c 24 \<inter> extent x 24 = {}" using apx by (auto simp: asl)
  obtain r where r: "segment 16 m head ps r" "chain 16 m r (c # ys)"
    using ch by (auto simp: asl chain_append)
  define m1 where "m1 = store64 m (x + 16) (br_next m c)"
  define m2 where "m2 = store64 m1 (c + 16) x"
  have seg: "segment 16 m2 head ps c"
  proof -
    have "segment 16 m head ps c" using r by (simp add: chain_Cons)
    then show ?thesis using apx apc by (simp add: m1_def m2_def segment_store_other asl)
  qed
  have nx: "load64 m2 (x + 16) = br_next m c"
    using cx by (simp add: m2_def m1_def store_next_next)
  have "chain 16 m (br_next m c) ys" using r(2) by (simp add: chain_Cons br_next_def)
  then have chy: "chain 16 m2 (br_next m c) ys"
    using apx apc by (simp add: m1_def m2_def chain_store_other asl)
  have "chain 16 m2 head (ps @ c # x # ys)"
    using seg r(2) x nx chy by (auto simp: chain_append chain_Cons m2_def intro!: exI [of _ c])
  moreover have "insert_into_sorted_list m head x = Inr (head, m2)"
    using False x xy(2) by (simp add: insert_into_sorted_list_def c_def m1_def m2_def Let_def)
  moreover have "agree_on (- links (x # as)) m2 m"
    unfolding m2_def m1_def
    by (rule agree_on_trans [OF store64_agree store64_agree]) (auto simp: links_def asl)
  moreover have "\<forall>a \<in> set (x # as). br_offset m2 a = br_offset m a \<and> br_end m2 a = br_end m a"
  proof
    fix a assume a: "a \<in> set (x # as)"
    have "x = a \<or> extent x 24 \<inter> extent a 24 = {}" using a apx by auto
    moreover have "c = a \<or> extent c 24 \<inter> extent a 24 = {}"
      using headers_apart_two [OF ap, of c a] a by (auto simp: asl)
    ultimately show "br_offset m2 a = br_offset m a \<and> br_end m2 a = br_end m a"
      by (simp add: m1_def m2_def store_next_other)
  qed
  ultimately show ?thesis by (metis ins)
qed

section \<open>The allocator's invariant\<close>

text \<open>
  The current region and the used list; the unallocated area of a region.  The invariant: the used
  list is a chain sorted by free space; headers, unallocated areas and the live blocks handed out
  are ranges that do not touch each other.
\<close>

definition bump_regions :: "bump_alloc \<Rightarrow> addr list \<Rightarrow> addr list" where
  "bump_regions b us = (if current b = 0 then [] else [current b]) @ us"

definition bump_area :: "mem \<Rightarrow> addr \<Rightarrow> addr \<times> nat" where
  "bump_area m r = (br_offset m r, unat (br_end m r - br_offset m r))"

definition bump_inv :: "bump_alloc \<Rightarrow> mem \<Rightarrow> addr list \<Rightarrow> (addr \<times> nat) list \<Rightarrow> bool" where
  "bump_inv b m us live \<longleftrightarrow>
     (let rs = bump_regions b us in
      chain 16 m (used_list b) us \<and> (current b = 0 \<longrightarrow> us = []) \<and>
      sorted_desc (br_free m) us \<and>
      all_apart (map (\<lambda>a. (a, 24)) rs @ map (bump_area m) rs @ live) \<and>
      (\<forall>a \<in> set rs. br_offset m a \<noteq> 0 \<and> br_offset m a \<le> br_end m a))"

lemma bump_inv_init: "all_apart live \<Longrightarrow> bump_inv bump_initialize m [] live"
  by (simp add: bump_inv_def bump_initialize_def bump_regions_def)

text \<open>One carving out of a region that fits.\<close>

lemma bump_take_bounds:
  assumes "k < 64" and "br_offset m r \<le> br_end m r"
    and "unat (br_end m r) + 2 ^ k + unat sz \<le> 2 ^ 64" and "bump_fits m r sz (2 ^ k)"
  defines "p \<equiv> ALIGN_UP (br_offset m r) (2 ^ k)"
  shows "unat (br_offset m r) \<le> unat p" and "unat (p + sz) = unat p + unat sz"
    and "unat p + unat sz \<le> unat (br_end m r)" and "2 ^ k dvd unat p"
proof -
  have le: "unat (br_offset m r) \<le> unat (br_end m r)" using assms(2) by (simp add: word_le_nat_alt)
  have "(1::nat) \<le> 2 ^ k" by simp
  then have b: "unat (br_offset m r) + (2 ^ k - 1) < 2 ^ 64" using le assms(3) by linarith
  show o: "unat (br_offset m r) \<le> unat p" unfolding p_def by (rule ALIGN_UP_pow2_bounds(1) [OF assms(1) b])
  have "unat p < unat (br_offset m r) + 2 ^ k"
    unfolding p_def by (rule ALIGN_UP_pow2_bounds(2) [OF assms(1) b])
  then have "unat p + unat sz < 2 ^ 64" using le assms(3) by linarith
  then show s: "unat (p + sz) = unat p + unat sz" by (rule unat_add_eq)
  show "unat p + unat sz \<le> unat (br_end m r)"
    using assms(4) s by (simp add: bump_fits_def p_def word_le_nat_alt)
  show "2 ^ k dvd unat p" unfolding p_def by (rule ALIGN_UP_pow2_dvd)
qed

lemma store_offset_other:
  assumes "extent a 24 \<inter> extent b 24 = {}"
  shows "br_offset (store64 m a v) b = br_offset m b" and "br_end (store64 m a v) b = br_end m b"
    and "br_free (store64 m a v) b = br_free m b" and "br_next (store64 m a v) b = br_next m b"
  using load64_store64_fields [OF assms, of 0 0 m v] load64_store64_fields [OF assms, of 0 8 m v]
    load64_store64_fields [OF assms, of 0 16 m v]
  by (simp_all add: br_offset_def br_end_def br_free_def br_next_def)

lemma store_offset_same:
  "br_offset (store64 m a v) a = v" "br_end (store64 m a v) a = br_end m a"
  "br_next (store64 m a v) a = br_next m a"
  by (simp_all add: br_offset_def br_end_def br_next_def load64_store64_other)

lemma bump_take_inv:
  assumes inv: "bump_inv b m us live" and cur: "current b \<noteq> 0" and k: "k < 64" and sz: "sz \<noteq> 0"
    and nw: "unat (br_end m (current b)) + 2 ^ k + unat sz \<le> 2 ^ 64"
    and fits: "bump_fits m (current b) sz (2 ^ k)"
    and take: "bump_take m (current b) sz (2 ^ k) = (p, m')"
  shows "bump_inv b m' us ((p, unat sz) # live)" and "2 ^ k dvd unat p" and "p \<noteq> 0"
    and "agree_on (- covered (map (\<lambda>a. (a, 24)) (bump_regions b us))) m' m"
    and "extent p (unat sz) \<subseteq> extent (fst (bump_area m (current b))) (snd (bump_area m (current b)))"
    and "\<forall>r \<in> set (bump_regions b us). br_end m' r = br_end m r"
proof -
  let ?c = "current b"
  have p: "p = ALIGN_UP (br_offset m ?c) (2 ^ k)" and m': "m' = store64 m ?c (p + sz)"
    using take by (auto simp: bump_take_def Let_def)
  have c: "br_offset m ?c \<noteq> 0" "br_offset m ?c \<le> br_end m ?c"
    using inv cur by (simp_all add: bump_inv_def bump_regions_def Let_def)
  note bnd = bump_take_bounds [OF k c(2) nw fits, folded p]
  show "2 ^ k dvd unat p" by (rule bnd(4))
  show "p \<noteq> 0" using bnd(1) c(1) by (metis le_0_eq unat_0 unat_eq_0)
  have ap: "all_apart (map (\<lambda>a. (a, 24)) (?c # us) @ bump_area m ?c # map (bump_area m) us @ live)"
    using inv cur by (simp add: bump_inv_def bump_regions_def Let_def)
  then have sep: "\<forall>u \<in> set us. extent ?c 24 \<inter> extent u 24 = {}"
    by (simp add: apart_def ball_Un)
  have usame: "br_offset m' u = br_offset m u" "br_end m' u = br_end m u" "br_free m' u = br_free m u"
      "br_next m' u = br_next m u" if "u \<in> set us" for u
    using that sep by (simp_all add: m' store_offset_other)
  show "\<forall>r \<in> set (bump_regions b us). br_end m' r = br_end m r"
    using usame(2) cur store_offset_same(2) [of m ?c "p + sz"] by (simp add: bump_regions_def flip: m')
  have ch: "chain 16 m' (used_list b) us"
    using inv usame chain_cong [of us m' 16 m "used_list b"]
    by (simp add: bump_inv_def br_next_def Let_def)
  have srt: "sorted_desc (br_free m') us"
    using inv usame sorted_desc_same [of us "br_free m" "br_free m'"]
    by (simp add: bump_inv_def Let_def)
  have sub1: "extent p (unat sz) \<subseteq> extent (br_offset m ?c) (unat (br_end m ?c - br_offset m ?c))"
    by (rule extent_within [OF bnd(1,3) c(2)])
  then show "extent p (unat sz) \<subseteq> extent (fst (bump_area m ?c)) (snd (bump_area m ?c))"
    by (simp add: bump_area_def)
  have le': "p + sz \<le> br_end m ?c" using bnd(2,3) by (simp add: word_le_nat_alt)
  have rest: "unat (p + sz) + unat (br_end m ?c - (p + sz)) = unat (br_end m ?c)"
    using le' by (simp add: unat_sub_eq word_le_nat_alt)
  have sub2: "extent (p + sz) (unat (br_end m ?c - (p + sz))) \<subseteq>
      extent (br_offset m ?c) (unat (br_end m ?c - br_offset m ?c))"
    by (rule extent_within [OF _ _ c(2)]) (use bnd rest in simp_all)
  have sub3: "extent p (unat sz) \<inter> extent (p + sz) (unat (br_end m ?c - (p + sz))) = {}"
    using extent_split_disjoint [of "unat sz" "unat (br_end m ?c - (p + sz))" p] bnd(2) rest
      unat_lt_2_64 [of "br_end m ?c"] by simp
  have "all_apart ((br_offset m ?c, unat (br_end m ?c - br_offset m ?c)) #
      map (\<lambda>a. (a, 24)) (?c # us) @ map (bump_area m) us @ live)"
    by (rule all_apart_perm [OF ap]) (simp add: bump_area_def [of m ?c])
  from all_apart_carve [OF this sub1 sub2 sub3]
  have "all_apart (map (\<lambda>a. (a, 24)) (?c # us) @ bump_area m' ?c # map (bump_area m) us @ (p, unat sz) # live)"
    by (rule all_apart_perm) (simp add: bump_area_def m' store_offset_same)
  moreover have "map (bump_area m') us = map (bump_area m) us"
    using usame by (simp add: bump_area_def)
  ultimately have ap': "all_apart (map (\<lambda>a. (a, 24)) (?c # us) @ map (bump_area m') (?c # us) @ (p, unat sz) # live)"
    by (simp only: list.map append_Cons)
  have "p + sz \<noteq> 0" using bnd(2) sz by (metis add_is_0 unat_0 unat_eq_0)
  then have "\<forall>a \<in> set (?c # us). br_offset m' a \<noteq> 0 \<and> br_offset m' a \<le> br_end m' a"
    using inv cur usame le' by (auto simp: bump_inv_def bump_regions_def Let_def m' store_offset_same)
  with ch srt ap' cur show "bump_inv b m' us ((p, unat sz) # live)"
    by (simp add: bump_inv_def bump_regions_def Let_def)
  show "agree_on (- covered (map (\<lambda>a. (a, 24)) (bump_regions b us))) m' m"
    unfolding m' using cur extent_mono [of 8 24 ?c] by (intro store64_agree) (auto simp: bump_regions_def)
qed

text \<open>Moving the current region into the used list and taking its head as the new current one.\<close>

lemma bump_rotate_inv:
  assumes inv: "bump_inv b m (u # us) live" and cur: "current b \<noteq> 0"
  shows "\<exists>h m'. insert_into_sorted_list m (br_next m u) (current b) = Inr (h, m') \<and>
    bump_inv \<lparr>current = u, used_list = h\<rparr> m' (insert_desc (br_free m) (current b) us) live \<and>
    agree_on (- covered (map (\<lambda>a. (a, 24)) (bump_regions b (u # us)))) m' m \<and>
    (\<forall>a \<in> set (bump_regions b (u # us)). br_offset m' a = br_offset m a \<and> br_end m' a = br_end m a)"
proof -
  let ?c = "current b"
  let ?rs = "?c # u # us"
  have rs: "bump_regions b (u # us) = ?rs" using cur by (simp add: bump_regions_def)
  have I: "chain 16 m (used_list b) (u # us)" "sorted_desc (br_free m) (u # us)"
    "all_apart (map (\<lambda>a. (a, 24)) ?rs @ map (bump_area m) ?rs @ live)"
    "\<forall>a \<in> set ?rs. br_offset m a \<noteq> 0 \<and> br_offset m a \<le> br_end m a"
    using inv by (simp_all add: bump_inv_def rs Let_def)
  have ch: "chain 16 m (br_next m u) us" using I(1) by (simp add: chain_Cons br_next_def)
  have un: "u \<noteq> 0" using I(1) by (simp add: chain_Cons)
  have hs: "headers_apart ?rs" using I(3) by (simp add: headers_apart_def all_apart_append)
  then have hcu: "headers_apart (?c # us)" and hu: "\<forall>a \<in> set (?c # us). extent a 24 \<inter> extent u 24 = {}"
    by (auto simp: headers_apart_Cons)
  obtain h m' where ins: "insert_into_sorted_list m (br_next m u) ?c = Inr (h, m')"
      "chain 16 m' h (insert_desc (br_free m) ?c us)" and ag: "agree_on (- links (?c # us)) m' m"
      and same: "\<forall>a \<in> set (?c # us). br_offset m' a = br_offset m a \<and> br_end m' a = br_end m a"
    using insert_into_sorted_list_correct [OF ch hcu cur] by blast
  have lk: "links (?c # us) \<subseteq> covered (map (\<lambda>a. (a, 24)) (?c # us))"
    using extent_field [of 16 8 24] by (fastforce simp: links_def covered_def)
  have "extent u 24 \<subseteq> - links (?c # us)" using lk hu by (fastforce simp: covered_def)
  then have "agree_on (extent u 24) m' m" using ag agree_on_mono by blast
  then have "br_offset m' u = br_offset m u" "br_end m' u = br_end m u"
    using load64_agree [of "extent u 24" m' m u] load64_agree [of "extent u 24" m' m "u + 8"]
      extent_field [of 0 8 24 u] extent_field [of 8 8 24 u]
    by (simp_all add: br_offset_def br_end_def)
  with same have same': "\<forall>a \<in> set ?rs. br_offset m' a = br_offset m a \<and> br_end m' a = br_end m a"
    by simp
  then have fr: "\<forall>a \<in> set ?rs. br_free m' a = br_free m a" by (simp add: br_free_def)
  let ?us' = "insert_desc (br_free m) ?c us"
  have area: "map (bump_area m') ?rs = map (bump_area m) ?rs"
    using same' by (simp add: bump_area_def)
  have "mset (map (\<lambda>a. (a, 24)) (u # ?us') @ map (bump_area m') (u # ?us') @ live) =
      mset (map (\<lambda>a. (a, 24)) ?rs @ map (bump_area m') ?rs @ live)"
    by simp
  then have ap: "all_apart (map (\<lambda>a. (a, 24)) (u # ?us') @ map (bump_area m') (u # ?us') @ live)"
    using all_apart_mset I(3) area by metis
  have srt: "sorted_desc (br_free m') ?us'"
    using sorted_insert_desc [of "br_free m" us ?c] I(2) fr
      sorted_desc_same [of ?us' "br_free m'" "br_free m"] by simp
  have "bump_inv \<lparr>current = u, used_list = h\<rparr> m' ?us' live"
    using ins(2) ap srt I(4) same' un by (simp add: bump_inv_def bump_regions_def Let_def)
  moreover have "agree_on (- covered (map (\<lambda>a. (a, 24)) (bump_regions b (u # us)))) m' m"
    using lk by (intro agree_on_mono [OF ag]) (auto simp: rs)
  ultimately show ?thesis using ins(1) same' rs by auto
qed

lemma bump_inv_live_agree:
  assumes "bump_inv b m us live" and "agree_on (- covered (map (\<lambda>a. (a, 24)) (bump_regions b us))) m' m"
  shows "agree_on (covered live) m' m"
proof (rule agree_on_mono [OF assms(2)])
  have "all_apart (map (\<lambda>a. (a, 24)) (bump_regions b us) @ map (bump_area m) (bump_regions b us) @ live)"
    using assms(1) by (simp add: bump_inv_def Let_def)
  then have "covered (map (\<lambda>a. (a, 24)) (bump_regions b us)) \<inter> covered live = {}"
    by (auto simp: all_apart_append_covered)
  then show "covered live \<subseteq> - covered (map (\<lambda>a. (a, 24)) (bump_regions b us))" by blast
qed

lemma bump_regions_ends:
  "set (bump_regions \<lparr>current = u, used_list = h\<rparr> (insert_desc f c us)) \<subseteq> set (c # u # us)"
  by (auto simp: bump_regions_def)

section \<open>Growing\<close>

lemma bump_grow_header:
  fixes m :: mem and buffer :: addr and sz :: u64
  assumes "buffer \<noteq> 0" and "PAGE_SIZE \<le> sz" and "unat buffer + unat sz < 2 ^ 64"
  defines "m3 \<equiv> store64 (store64 (store64 m buffer (buffer + 24)) (buffer + 8)
      (buffer + 24 + (sz - 24))) (buffer + 16) 0"
  shows "br_offset m3 buffer = buffer + 24" and "br_end m3 buffer = buffer + sz"
    and "agree_on (- extent buffer 24) m3 m" and "br_offset m3 buffer \<noteq> 0"
    and "br_offset m3 buffer \<le> br_end m3 buffer"
    and "extent buffer 24 \<inter> extent (fst (bump_area m3 buffer)) (snd (bump_area m3 buffer)) = {}"
    and "extent (fst (bump_area m3 buffer)) (snd (bump_area m3 buffer)) \<subseteq> extent buffer (unat sz)"
proof -
  show o: "br_offset m3 buffer = buffer + 24"
    by (simp add: m3_def br_offset_def load64_store64_other)
  show e: "br_end m3 buffer = buffer + sz"
    by (simp add: m3_def br_end_def load64_store64_other)
  have sub: "extent buffer 8 \<subseteq> extent buffer 24" "extent (buffer + 8) 8 \<subseteq> extent buffer 24"
      "extent (buffer + 16) 8 \<subseteq> extent buffer 24"
    by (rule extent_mono extent_field; simp)+
  show "agree_on (- extent buffer 24) m3 m"
    unfolding m3_def using sub
    by (intro agree_on_trans [OF store64_agree agree_on_trans [OF store64_agree store64_agree]]) auto
  have s24: "4096 \<le> unat sz" using assms(2) by (simp add: word_le_nat_alt)
  have u: "unat (buffer + 24) = unat buffer + 24" "unat (buffer + sz) = unat buffer + unat sz"
    using assms(3) s24 by (simp_all add: unat_add_eq)
  from u(1) have "0 < unat (buffer + 24)" by simp
  then show "br_offset m3 buffer \<noteq> 0" by (simp add: o unat_gt_0)
  show "br_offset m3 buffer \<le> br_end m3 buffer" using u s24 by (simp add: o e word_le_nat_alt)
  then have "unat (br_end m3 buffer - br_offset m3 buffer) = unat sz - 24"
    using u unat_sub_eq [of "buffer + 24" "buffer + sz"] by (simp only: o e)
  then have ar: "bump_area m3 buffer = (buffer + of_nat 24, unat sz - 24)"
    by (simp add: bump_area_def o)
  show "extent buffer 24 \<inter> extent (fst (bump_area m3 buffer)) (snd (bump_area m3 buffer)) = {}"
    using extent_split_disjoint [of 24 "unat sz - 24" buffer] s24 assms(3) by (simp add: ar)
  show "extent (fst (bump_area m3 buffer)) (snd (bump_area m3 buffer)) \<subseteq> extent buffer (unat sz)"
    using extent_offset [of 24 "unat sz - 24" "unat sz" buffer] s24 assms(3) by (simp add: ar)
qed

lemma bump_fields_agree:
  assumes "agree_on A m' m" and "extent a 24 \<subseteq> A"
  shows "br_offset m' a = br_offset m a" and "br_end m' a = br_end m a" and "br_next m' a = br_next m a"
    and "br_free m' a = br_free m a" and "bump_area m' a = bump_area m a"
proof -
  have "extent a 8 \<subseteq> A" "extent (a + 8) 8 \<subseteq> A" "extent (a + 16) 8 \<subseteq> A"
    using assms(2) extent_mono [of 8 24 a] extent_field [of 8 8 24 a] extent_field [of 16 8 24 a] by auto
  then have "load64 m' a = load64 m a" "load64 m' (a + 8) = load64 m (a + 8)"
      "load64 m' (a + 16) = load64 m (a + 16)"
    using load64_agree [OF assms(1)] by blast+
  then show "br_offset m' a = br_offset m a" "br_end m' a = br_end m a" "br_next m' a = br_next m a"
      "br_free m' a = br_free m a" "bump_area m' a = bump_area m a"
    by (simp_all add: br_offset_def br_end_def br_next_def br_free_def bump_area_def)
qed

lemma bump_grow_inv:
  assumes inv: "bump_inv b m us live" and ok: "buffer \<noteq> 0" "PAGE_SIZE \<le> sz" "unat buffer + unat sz < 2 ^ 64"
    and new: "extent buffer (unat sz) \<inter>
      covered (map (\<lambda>a. (a, 24)) (bump_regions b us) @ map (bump_area m) (bump_regions b us) @ live) = {}"
  shows "\<exists>b' m' us'. bump_grow b buffer sz m = Inr (b', m') \<and> current b' = buffer \<and>
    bump_inv b' m' us' live \<and> br_offset m' buffer = buffer + 24 \<and> br_end m' buffer = buffer + sz \<and>
    mset (bump_regions b' us') = add_mset buffer (mset (bump_regions b us)) \<and>
    agree_on (- (extent buffer 24 \<union> covered (map (\<lambda>a. (a, 24)) (bump_regions b us)))) m' m"
proof -
  let ?rs = "bump_regions b us"
  define m3 where "m3 = store64 (store64 (store64 m buffer (buffer + 24)) (buffer + 8)
      (buffer + 24 + (sz - 24))) (buffer + 16) 0"
  note hd = bump_grow_header [OF ok, of m, folded m3_def]
  have "24 \<le> unat sz" using ok(2) by (simp add: word_le_nat_alt)
  then have hsub: "extent buffer 24 \<subseteq> extent buffer (unat sz)" by (rule extent_mono)
  have rsub: "extent a 24 \<subseteq> - extent buffer (unat sz)" if "a \<in> set ?rs" for a
    using new that extent_subset_covered [of a 24 "map (\<lambda>a. (a, 24)) ?rs"] by auto
  have same: "br_offset m3 a = br_offset m a" "br_end m3 a = br_end m a" "br_next m3 a = br_next m a"
      "br_free m3 a = br_free m a" "bump_area m3 a = bump_area m a" if "a \<in> set ?rs" for a
    using bump_fields_agree [OF hd(3), of a] rsub [OF that] hsub by blast+
  have I: "chain 16 m (used_list b) us" "sorted_desc (br_free m) us"
    "all_apart (map (\<lambda>a. (a, 24)) ?rs @ map (bump_area m) ?rs @ live)"
    "\<forall>a \<in> set ?rs. br_offset m a \<noteq> 0 \<and> br_offset m a \<le> br_end m a" "current b = 0 \<longrightarrow> us = []"
    using inv by (simp_all add: bump_inv_def Let_def)
  have us: "set us \<subseteq> set ?rs" by (simp add: bump_regions_def)
  have ch: "chain 16 m3 (used_list b) us"
    using I(1) same(3) us chain_cong [of us m3 16 m "used_list b"] by (auto simp: br_next_def)
  have srt: "sorted_desc (br_free m3) us"
    using I(2) same(4) us sorted_desc_same [of us "br_free m3" "br_free m"] by auto
  have hs: "headers_apart ?rs" using I(3) by (simp add: headers_apart_def all_apart_append)
  define us' where "us' = (if current b = 0 then [] else insert_desc (br_free m3) (current b) us)"
  have mus: "mset us' = mset ?rs"
    using I(5) by (simp add: us'_def bump_regions_def)
  have "\<exists>h m'. insert_into_sorted_list m3 (used_list b) (current b) = Inr (h, m') \<and>
      chain 16 m' h us' \<and> agree_on (- covered (map (\<lambda>a. (a, 24)) ?rs)) m' m3 \<and>
      (\<forall>a \<in> set ?rs. br_offset m' a = br_offset m3 a \<and> br_end m' a = br_end m3 a)"
  proof (cases "current b = 0")
    case True
    then show ?thesis using ch I(5) by (simp add: insert_into_sorted_list_def us'_def bump_regions_def)
  next
    case False
    then have rs: "?rs = current b # us" by (simp add: bump_regions_def)
    have lk: "links ?rs \<subseteq> covered (map (\<lambda>a. (a, 24)) ?rs)"
      using extent_field [of 16 8 24] by (fastforce simp: links_def covered_def)
    obtain h m' where "insert_into_sorted_list m3 (used_list b) (current b) = Inr (h, m')"
        "chain 16 m' h us'" "agree_on (- links ?rs) m' m3"
        "\<forall>a \<in> set ?rs. br_offset m' a = br_offset m3 a \<and> br_end m' a = br_end m3 a"
      using insert_into_sorted_list_correct [OF ch, of "current b"] hs False
      unfolding rs by (auto simp: us'_def)
    moreover have "agree_on (- covered (map (\<lambda>a. (a, 24)) ?rs)) m' m3"
      using lk by (intro agree_on_mono [OF \<open>agree_on (- links ?rs) m' m3\<close>]) blast
    ultimately show ?thesis by blast
  qed
  then obtain h m' where ins: "insert_into_sorted_list m3 (used_list b) (current b) = Inr (h, m')"
      and ch': "chain 16 m' h us'" and ag: "agree_on (- covered (map (\<lambda>a. (a, 24)) ?rs)) m' m3"
      and fl: "\<forall>a \<in> set ?rs. br_offset m' a = br_offset m3 a \<and> br_end m' a = br_end m3 a"
    by blast
  have grow: "bump_grow b buffer sz m = Inr (\<lparr>current = buffer, used_list = h\<rparr>, m')"
    using ok ins by (simp add: bump_grow_def Let_def sizeof_bump_region_def m3_def)
  have "extent buffer 24 \<subseteq> - covered (map (\<lambda>a. (a, 24)) ?rs)" using new hsub by auto
  note bs = bump_fields_agree [OF ag this]
  have rs': "bump_regions \<lparr>current = buffer, used_list = h\<rparr> us' = buffer # us'"
    using ok(1) by (simp add: bump_regions_def)
  have fr: "\<forall>a \<in> set us'. br_free m' a = br_free m3 a"
    using fl mset_eq_setD [OF mus] by (simp add: br_free_def)
  have srt': "sorted_desc (br_free m') us'"
    using sorted_desc_same [of us' "br_free m'" "br_free m3"] fr srt
    by (auto simp: us'_def sorted_insert_desc)
  have ar: "map (bump_area m') ?rs = map (bump_area m) ?rs"
    using fl same by (simp add: bump_area_def)
  have nw: "extent buffer 24 \<inter> covered (bump_area m3 buffer # map (\<lambda>a. (a, 24)) ?rs @ map (bump_area m) ?rs @ live) = {}"
    "extent (fst (bump_area m3 buffer)) (snd (bump_area m3 buffer)) \<inter>
      covered (map (\<lambda>a. (a, 24)) ?rs @ map (bump_area m) ?rs @ live) = {}"
    using new hsub hd(6,7) by auto
  then have "all_apart ((buffer, 24) # bump_area m3 buffer # map (\<lambda>a. (a, 24)) ?rs @ map (bump_area m) ?rs @ live)"
    using I(3) by (simp only: all_apart_Cons_covered fst_conv snd_conv simp_thms)
  then have "all_apart ((buffer, 24) # bump_area m' buffer # map (\<lambda>a. (a, 24)) ?rs @ map (bump_area m') ?rs @ live)"
    by (simp only: bs(5) ar)
  then have ap: "all_apart (map (\<lambda>a. (a, 24)) (buffer # us') @ map (bump_area m') (buffer # us') @ live)"
    by (rule all_apart_perm) (simp add: mus)
  have "\<forall>a \<in> set (buffer # us'). br_offset m' a \<noteq> 0 \<and> br_offset m' a \<le> br_end m' a"
    using fl same I(4) hd(4,5) bs mset_eq_setD [OF mus] by auto
  then have inv': "bump_inv \<lparr>current = buffer, used_list = h\<rparr> m' us' live"
    using ch' srt' ap ok(1) by (simp add: bump_inv_def rs' Let_def)
  have "agree_on (- (extent buffer 24 \<union> covered (map (\<lambda>a. (a, 24)) ?rs))) m' m"
    by (rule agree_on_trans [OF agree_on_mono [OF ag] agree_on_mono [OF hd(3)]]) auto
  then show ?thesis
    using grow inv' bs hd(1,2) rs' mus by fastforce
qed

section \<open>Allocating\<close>

lemma bump_allocate_aligned_correct:
  assumes inv: "bump_inv b m us live" and k: "k < 64"
    and nw: "\<forall>r \<in> set (bump_regions b us). unat (br_end m r) + 2 ^ k + unat sz \<le> 2 ^ 64"
  shows "case bump_allocate_aligned b sz (2 ^ k) m of
      Inl h \<Rightarrow> h = Null_deref \<and> sz \<noteq> 0 \<and> us = [] \<and> current b \<noteq> 0 \<and> \<not> bump_fits m (current b) sz (2 ^ k)
    | Inr (p, b', m') \<Rightarrow>
        (\<exists>us'. bump_inv b' m' us' (if p = 0 then live else (p, unat sz) # live) \<and>
          mset (bump_regions b' us') = mset (bump_regions b us) \<and>
          (\<forall>r \<in> set (bump_regions b' us'). br_end m' r = br_end m r)) \<and>
        agree_on (covered live) m' m \<and> 2 ^ k dvd unat p \<and>
        (if p = 0 then sz = 0 \<or> current b = 0 \<or> \<not> (\<exists>r \<in> {current b, hd us}. bump_fits m r sz (2 ^ k))
         else \<exists>r \<in> set (bump_regions b us). extent p (unat sz) \<subseteq> extent (fst (bump_area m r)) (snd (bump_area m r)))"
proof (cases "sz = 0 \<or> current b = 0")
  case True
  then have "bump_allocate_aligned b sz (2 ^ k) m = Inr (0, b, m)"
    by (simp add: bump_allocate_aligned_def)
  then show ?thesis using inv True by auto
next
  case False
  then have sz: "sz \<noteq> 0" and cur: "current b \<noteq> 0" by auto
  have cin: "current b \<in> set (bump_regions b us)" using cur by (simp add: bump_regions_def)
  note live = bump_inv_live_agree [OF inv]
  show ?thesis
  proof (cases "bump_fits m (current b) sz (2 ^ k)")
    case True
    obtain p m' where tk: "bump_take m (current b) sz (2 ^ k) = (p, m')" by force
    then have al: "bump_allocate_aligned b sz (2 ^ k) m = Inr (p, b, m')"
      using sz cur True by (simp add: bump_allocate_aligned_def)
    note t = bump_take_inv [OF inv cur k sz bspec [OF nw cin] True tk]
    show ?thesis
      using al t live [OF t(4)] cin by (auto intro!: exI [of _ us] bexI [of _ "current b"])
  next
    case nofit: False
    show ?thesis
    proof (cases us)
      case Nil
      then have "used_list b = 0" using inv by (simp add: bump_inv_def Let_def)
      then show ?thesis using nofit sz cur Nil by (simp add: bump_allocate_aligned_def)
    next
      case (Cons u us0)
      let ?rs = "bump_regions b us"
      have u: "used_list b = u" "u \<noteq> 0" using inv Cons by (simp_all add: bump_inv_def Let_def chain_Cons)
      obtain h m1 where ins: "insert_into_sorted_list m (br_next m u) (current b) = Inr (h, m1)"
        and i1: "bump_inv \<lparr>current = u, used_list = h\<rparr> m1 (insert_desc (br_free m) (current b) us0) live"
        and a1: "agree_on (- covered (map (\<lambda>a. (a, 24)) ?rs)) m1 m"
        and same: "\<forall>a \<in> set ?rs. br_offset m1 a = br_offset m a \<and> br_end m1 a = br_end m a"
        using bump_rotate_inv [OF inv [unfolded Cons] cur] Cons by auto
      let ?b1 = "\<lparr>current = u, used_list = h\<rparr>" and ?us1 = "insert_desc (br_free m) (current b) us0"
      have rs1: "mset (bump_regions ?b1 ?us1) = mset ?rs" and uin: "u \<in> set ?rs"
        using u cur Cons by (simp_all add: bump_regions_def)
      have set1: "set (bump_regions ?b1 ?us1) = set ?rs" by (rule mset_eq_setD [OF rs1])
      have fits: "bump_fits m1 u sz (2 ^ k) = bump_fits m u sz (2 ^ k)"
        using same uin by (simp add: bump_fits_def)
      have l1: "agree_on (covered live) m1 m" by (rule live [OF a1])
      show ?thesis
      proof (cases "bump_fits m1 u sz (2 ^ k)")
        case False
        then have "bump_allocate_aligned b sz (2 ^ k) m = Inr (0, ?b1, m1)"
          using nofit sz cur u ins by (simp add: bump_allocate_aligned_def)
        then show ?thesis
          using i1 rs1 set1 same l1 nofit False fits Cons by auto
      next
        case True
        obtain p m' where tk: "bump_take m1 u sz (2 ^ k) = (p, m')" by force
        then have al: "bump_allocate_aligned b sz (2 ^ k) m = Inr (p, ?b1, m')"
          using nofit sz cur u ins True by (simp add: bump_allocate_aligned_def)
        have "unat (br_end m1 u) + 2 ^ k + unat sz \<le> 2 ^ 64" using nw same uin by simp
        note t = bump_take_inv [OF i1, unfolded bump_alloc.simps, OF u(2) k sz this True tk]
        have "agree_on (covered live) m' m"
          using agree_on_trans [OF bump_inv_live_agree [OF i1 t(4)] l1] .
        moreover have "bump_area m1 u = bump_area m u" using same uin by (simp add: bump_area_def)
        ultimately show ?thesis
          using al t set1 rs1 same uin
          by (auto intro!: exI [of _ "?us1"] bexI [of _ u])
      qed
    qed
  qed
qed

section \<open>What the allocator promises\<close>

text \<open>
  \<^verbatim>\<open>insert_into_sorted_list\<close> always returns; on a list sorted by falling free space, whose
  headers and the new region's do not overlap, it leaves a sorted list of the old regions and the
  new one, and writes no \<^verbatim>\<open>offset\<close> and no \<^verbatim>\<open>end\<close> field.
\<close>

theorem insert_into_sorted_list_sorts:
  assumes "chain 16 m head as" and "sorted_desc (br_free m) as" and "headers_apart (x # as)" and "x \<noteq> 0"
  shows "case insert_into_sorted_list m head x of Inl h \<Rightarrow> False
    | Inr (head', m') \<Rightarrow> \<exists>bs. chain 16 m' head' bs \<and> sorted_desc (br_free m') bs \<and>
        mset bs = add_mset x (mset as) \<and>
        (\<forall>a \<in> set (x # as). br_offset m' a = br_offset m a \<and> br_end m' a = br_end m a)"
proof -
  obtain h m' where ins: "insert_into_sorted_list m head x = Inr (h, m')"
      "chain 16 m' h (insert_desc (br_free m) x as)"
    and fl: "\<forall>a \<in> set (x # as). br_offset m' a = br_offset m a \<and> br_end m' a = br_end m a"
    using insert_into_sorted_list_correct [OF assms(1,3,4)] by blast
  have "\<forall>a \<in> set (insert_desc (br_free m) x as). br_free m' a = br_free m a"
    using fl by (simp add: br_free_def)
  then have "sorted_desc (br_free m') (insert_desc (br_free m) x as)"
    using sorted_insert_desc [OF assms(2)] sorted_desc_same by blast
  then show ?thesis using ins fl by (auto intro!: exI [of _ "insert_desc (br_free m) x as"])
qed

text \<open>
  C13: an allocation from a well-formed bump allocator, at any power-of-two alignment that does not
  wrap around: it returns null exactly when the request is empty or fits neither in the current
  region nor in the emptiest used one; a block it returns is aligned, lies in the unallocated part
  of one of the regions and touches no live block; the live blocks keep their contents, no region
  is lost and the invariant is kept.  The one way it does not return is the null dereference when
  the current region is full and the used list is empty.
\<close>

theorem bump_allocate_aligned_safe:
  assumes inv: "bump_inv b m us live" and k: "k < 64"
    and nw: "\<forall>r \<in> set (bump_regions b us). unat (br_end m r) + 2 ^ k + unat sz \<le> 2 ^ 64"
  shows "case bump_allocate_aligned b sz (2 ^ k) m of
      Inl h \<Rightarrow> h = Null_deref \<and> sz \<noteq> 0 \<and> us = [] \<and> current b \<noteq> 0 \<and> \<not> bump_fits m (current b) sz (2 ^ k)
    | Inr (p, b', m') \<Rightarrow>
        (\<exists>us'. bump_inv b' m' us' (if p = 0 then live else (p, unat sz) # live) \<and>
          mset (bump_regions b' us') = mset (bump_regions b us) \<and>
          (\<forall>r \<in> set (bump_regions b' us'). br_end m' r = br_end m r)) \<and>
        agree_on (covered live) m' m \<and> 2 ^ k dvd unat p \<and>
        (if p = 0 then sz = 0 \<or> current b = 0 \<or> \<not> (\<exists>r \<in> {current b, hd us}. bump_fits m r sz (2 ^ k))
         else \<exists>r \<in> set (bump_regions b us). extent p (unat sz) \<subseteq> extent (fst (bump_area m r)) (snd (bump_area m r)))"
  by (rule bump_allocate_aligned_correct [OF assms])

text \<open>
  Adding a region of at least a page that overlaps nothing the allocator knows of always
  returns; the new region becomes the current one, the old current region joins the used list,
  nothing outside the region headers is written, and the invariant is kept.
\<close>

theorem bump_grow_keeps_regions:
  assumes "bump_inv b m us live" and "buffer \<noteq> 0" and "PAGE_SIZE \<le> sz" and "unat buffer + unat sz < 2 ^ 64"
    and "extent buffer (unat sz) \<inter>
      covered (map (\<lambda>a. (a, 24)) (bump_regions b us) @ map (bump_area m) (bump_regions b us) @ live) = {}"
  shows "case bump_grow b buffer sz m of Inl h \<Rightarrow> False
    | Inr (b', m') \<Rightarrow> \<exists>us'. bump_inv b' m' us' live \<and> current b' = buffer \<and>
        bump_area m' buffer = (buffer + 24, unat sz - 24) \<and>
        mset us' = mset (bump_regions b us) \<and>
        agree_on (- (extent buffer 24 \<union> covered (map (\<lambda>a. (a, 24)) (bump_regions b us)))) m' m"
proof -
  obtain b' m' us' where g: "bump_grow b buffer sz m = Inr (b', m')" "current b' = buffer"
    "bump_inv b' m' us' live" "br_offset m' buffer = buffer + 24" "br_end m' buffer = buffer + sz"
    "mset (bump_regions b' us') = add_mset buffer (mset (bump_regions b us))"
    "agree_on (- (extent buffer 24 \<union> covered (map (\<lambda>a. (a, 24)) (bump_regions b us)))) m' m"
    using bump_grow_inv [OF assms] by auto
  have "mset us' = mset (bump_regions b us)" using g(2,6) assms(2) by (simp add: bump_regions_def [of b'])
  moreover have "unat (sz - 24) = unat sz - 24"
    using assms(3) by (intro unat_sub_eq [of 24 sz, simplified]) (simp add: word_le_nat_alt)
  ultimately show ?thesis using g by (auto simp: bump_area_def)
qed

text \<open>
  A bump allocator that was given one region faults on the first request that does not fit:
  \<^verbatim>\<open>bump_allocate_aligned\<close> reads \<^verbatim>\<open>bump->used_list->next\<close> without asking whether the list is empty.
\<close>

theorem bump_exhausted_single_region_faults:
  assumes "buffer \<noteq> 0" and "PAGE_SIZE \<le> bsz" and "bsz \<le> sz" and "unat buffer + unat bsz + unat sz < 2 ^ 64"
  shows "and_then (bump_grow bump_initialize buffer bsz m) (\<lambda>(b, m'). bump_allocate b sz m') = Inl Null_deref"
proof -
  define m3 where "m3 = store64 (store64 (store64 m buffer (buffer + 24)) (buffer + 8)
      (buffer + 24 + (bsz - 24))) (buffer + 16) 0"
  have nw: "unat buffer + unat bsz < 2 ^ 64" using assms(4) by simp
  note hd = bump_grow_header [OF assms(1,2) nw, of m, folded m3_def]
  have g: "bump_grow bump_initialize buffer bsz m = Inr (\<lparr>current = buffer, used_list = 0\<rparr>, m3)"
    using assms(1,2)
    by (simp add: bump_grow_def bump_initialize_def insert_into_sorted_list_def sizeof_bump_region_def
        Let_def m3_def)
  have "24 \<le> unat bsz" "unat bsz \<le> unat sz" using assms(2,3) by (simp_all add: word_le_nat_alt)
  then have "unat (buffer + 24 + sz) = unat buffer + 24 + unat sz"
    using assms(4) by (simp add: unat_add_eq)
  then have "\<not> bump_fits m3 buffer sz 1"
    using assms hd(1,2) by (simp add: bump_fits_def ALIGN_UP_one word_le_nat_alt unat_add_eq)
  moreover have "sz \<noteq> 0" using assms(2,3) by auto
  ultimately show ?thesis
    using assms(1) by (simp add: g bump_allocate_def bump_allocate_aligned_def)
qed

section \<open>The bump allocator as a source of blocks\<close>

text \<open>
  The contract of \<^verbatim>\<open>block_source\<close>, for an allocator whose regions end below a bound \<open>lim\<close> and for
  requests (a size and the logarithm of an alignment) that do not wrap past it.
\<close>

definition bump_block_inv :: "nat \<Rightarrow> bump_alloc \<times> mem \<Rightarrow> (addr \<times> nat) list \<Rightarrow> bool" where
  "bump_block_inv lim s live \<longleftrightarrow>
     (\<exists>us. bump_inv (fst s) (snd s) us live \<and>
       (\<forall>r \<in> set (bump_regions (fst s) us). unat (br_end (snd s) r) \<le> lim))"

definition bump_request :: "u64 \<times> nat \<Rightarrow> bump_alloc \<times> mem \<Rightarrow> halt + addr \<times> bump_alloc \<times> mem" where
  "bump_request r s = bump_allocate_aligned (fst s) (fst r) (2 ^ snd r) (snd s)"

definition bump_request_ok :: "nat \<Rightarrow> u64 \<times> nat \<Rightarrow> bool" where
  "bump_request_ok lim r \<longleftrightarrow> snd r < 64 \<and> lim + 2 ^ snd r + unat (fst r) \<le> 2 ^ 64"

lemma bump_inv_perm: "bump_inv b m us live \<Longrightarrow> mset live = mset live' \<Longrightarrow> bump_inv b m us live'"
  using all_apart_perm [of "map (\<lambda>a. (a, 24)) (bump_regions b us) @ map (bump_area m) (bump_regions b us) @ live"
    "map (\<lambda>a. (a, 24)) (bump_regions b us) @ map (bump_area m) (bump_regions b us) @ live'"]
  by (simp add: bump_inv_def Let_def)

lemma bump_request_correct:
  assumes "bump_block_inv lim s live" and "bump_request_ok lim r" and "bump_request r s = Inr (p, s')"
  shows "bump_block_inv lim s' (if p = 0 then live else (p, unat (fst r)) # live)"
    and "agree_on (covered live) (snd s') (snd s)"
proof -
  obtain us where us: "bump_inv (fst s) (snd s) us live"
      "\<forall>x \<in> set (bump_regions (fst s) us). unat (br_end (snd s) x) \<le> lim"
    using assms(1) by (auto simp: bump_block_inv_def)
  have k: "snd r < 64" using assms(2) by (simp add: bump_request_ok_def)
  have nw: "\<forall>x \<in> set (bump_regions (fst s) us). unat (br_end (snd s) x) + 2 ^ snd r + unat (fst r) \<le> 2 ^ 64"
    using us(2) assms(2) by (fastforce simp: bump_request_ok_def)
  have eq: "bump_allocate_aligned (fst s) (fst r) (2 ^ snd r) (snd s) = Inr (p, fst s', snd s')"
    using assms(3) by (simp add: bump_request_def)
  obtain us' where us': "bump_inv (fst s') (snd s') us' (if p = 0 then live else (p, unat (fst r)) # live)"
      "mset (bump_regions (fst s') us') = mset (bump_regions (fst s) us)"
      "\<forall>x \<in> set (bump_regions (fst s') us'). br_end (snd s') x = br_end (snd s) x"
    and ag: "agree_on (covered live) (snd s') (snd s)"
    using bump_allocate_aligned_correct [OF us(1) k nw] unfolding eq by auto
  show "agree_on (covered live) (snd s') (snd s)" by (rule ag)
  show "bump_block_inv lim s' (if p = 0 then live else (p, unat (fst r)) # live)"
    unfolding bump_block_inv_def using us' us(2) mset_eq_setD [OF us'(2)]
    by (intro exI [of _ us']) auto
qed

interpretation bump: block_source "bump_block_inv lim" "\<lambda>r s. bump_request_ok lim r" bump_request
    "\<lambda>r. unat (fst r)" snd for lim
proof unfold_locales
  fix s :: "bump_alloc \<times> mem" and live live' :: "(addr \<times> nat) list" and r r' :: "u64 \<times> nat" and p s'
  show "bump_block_inv lim s live \<Longrightarrow> all_apart live"
    by (auto simp: bump_block_inv_def bump_inv_def Let_def all_apart_append)
  show "bump_block_inv lim s live \<Longrightarrow> mset live = mset live' \<Longrightarrow> bump_block_inv lim s live'"
    using bump_inv_perm by (fastforce simp: bump_block_inv_def)
  show "bump_block_inv lim s live \<Longrightarrow> bump_request_ok lim r \<Longrightarrow> bump_request r s = Inr (p, s') \<Longrightarrow>
      bump_block_inv lim s' (if p = 0 then live else (p, unat (fst r)) # live)"
    by (rule bump_request_correct)
  show "bump_block_inv lim s live \<Longrightarrow> bump_request_ok lim r \<Longrightarrow> bump_request r s = Inr (p, s') \<Longrightarrow>
      agree_on (covered live) (snd s') (snd s)"
    by (rule bump_request_correct)
qed

text \<open>
  However long a sequence of allocations from a bump allocator, the blocks it handed out touch
  neither each other nor the blocks that were live before, whose contents are unchanged.
\<close>

theorem bump_run_apart:
  assumes "bump_block_inv lim s live" and "\<forall>r \<in> set rs. bump_request_ok lim r"
    and "alloc_run bump_request rs s = Inr (ps, s')"
  shows "all_apart (blocks (\<lambda>r. unat (fst r)) rs ps @ live) \<and> length ps = length rs \<and>
    agree_on (covered live) (snd s') (snd s)"
  using bump.run_blocks [OF assms] bump.run_apart [OF assms] by blast

section \<open>The theorems at concrete states\<close>

text \<open>A page at \<open>0x10000\<close> given to an empty allocator.\<close>

definition page_region :: mem where
  "page_region = store64 (store64 (\<lambda>_. 0) 0x10000 0x10018) 0x10008 0x11000"

abbreviation page_bump :: bump_alloc where
  "page_bump \<equiv> \<lparr>current = 0x10000, used_list = 0\<rparr>"

lemma page_region_fields:
  "br_offset page_region 0x10000 = 0x10018" "br_end page_region 0x10000 = 0x11000"
  by (simp_all add: page_region_def br_offset_def br_end_def load64_store64_other)

lemma page_bump_inv: "bump_inv page_bump page_region [] []"
  by (simp add: bump_inv_def bump_regions_def bump_area_def page_region_fields apart_def extent_disjoint_iff)

theorem insert_into_sorted_list_sorts_witness:
  "case insert_into_sorted_list page_region 0x10000 0x20000 of Inl h \<Rightarrow> False
   | Inr (head', m') \<Rightarrow> \<exists>bs. chain 16 m' head' bs \<and> sorted_desc (br_free m') bs \<and>
       mset bs = {#0x10000, 0x20000#}"
proof -
  have "chain 16 page_region 0x10000 [0x10000]"
    by (simp add: chain_Cons page_region_def load64_store64_other load64_zero)
  from insert_into_sorted_list_sorts [OF this, of "0x20000"] show ?thesis
    by (auto simp: headers_apart_def apart_def extent_disjoint_iff split: sum.splits)
qed

theorem bump_allocate_aligned_safe_witness:
  "\<exists>p b' m' us'. bump_allocate_aligned page_bump 64 (2 ^ 4) page_region = Inr (p, b', m') \<and>
     bump_inv b' m' us' [(p, 64)] \<and> 2 ^ 4 dvd unat p \<and> p = 0x10020"
proof -
  have al: "bump_allocate_aligned page_bump 64 (2 ^ 4) page_region =
      Inr (0x10020, page_bump, store64 page_region 0x10000 0x10060)"
    by (simp add: bump_allocate_aligned_def bump_fits_def bump_take_def page_region_fields ALIGN_UP_def)
  have "\<forall>r \<in> set (bump_regions page_bump []). unat (br_end page_region r) + 2 ^ 4 + unat (64 :: u64) \<le> 2 ^ 64"
    by (simp add: bump_regions_def page_region_fields)
  from bump_allocate_aligned_safe [OF page_bump_inv _ this] al show ?thesis by auto
qed

theorem bump_grow_keeps_regions_witness:
  "case bump_grow page_bump 0x20000 0x1000 page_region of Inl h \<Rightarrow> False
   | Inr (b', m') \<Rightarrow> \<exists>us'. bump_inv b' m' us' [] \<and> current b' = 0x20000 \<and> mset us' = {#0x10000#}"
proof -
  have "extent 0x20000 (unat (0x1000 :: u64)) \<inter> covered (map (\<lambda>a. (a, 24)) (bump_regions page_bump []) @
      map (bump_area page_region) (bump_regions page_bump []) @ []) = {}"
    by (simp add: bump_regions_def bump_area_def page_region_fields extent_disjoint_iff Int_Un_distrib)
  from bump_grow_keeps_regions [OF page_bump_inv _ _ _ this] show ?thesis
    by (auto simp: bump_regions_def split: sum.splits)
qed

theorem bump_exhausted_single_region_faults_witness:
  "and_then (bump_grow bump_initialize 0x10000 0x1000 (\<lambda>_. 0)) (\<lambda>(b, m'). bump_allocate b 0x1000 m') =
     Inl Null_deref"
  by (rule bump_exhausted_single_region_faults) simp_all

theorem bump_run_apart_witness:
  "\<exists>ps s'. alloc_run bump_request [(64, 4), (100, 0)] (page_bump, page_region) = Inr (ps, s') \<and>
     all_apart (blocks (\<lambda>r. unat (fst r)) [(64 :: u64, 4 :: nat), (100, 0)] ps)"
proof -
  obtain ps s' where run: "alloc_run bump_request [(64, 4), (100, 0)] (page_bump, page_region) = Inr (ps, s')"
    by (simp add: bump_request_def bump_allocate_aligned_def bump_fits_def bump_take_def
        page_region_fields ALIGN_UP_def store_offset_same)
  have "bump_block_inv 0x11000 (page_bump, page_region) []"
    using page_bump_inv by (auto simp: bump_block_inv_def bump_regions_def page_region_fields intro!: exI [of _ "[]"])
  moreover have "\<forall>r \<in> set [(64, 4), (100, 0)]. bump_request_ok 0x11000 r"
    by (simp add: bump_request_ok_def)
  ultimately have "all_apart (blocks (\<lambda>r. unat (fst r)) [(64 :: u64, 4 :: nat), (100, 0)] ps @ [])"
    using bump_run_apart [OF _ _ run] by blast
  then show ?thesis unfolding append_Nil2 using run by blast
qed

end
