(* ===== verification/Slab.thy ===== *)
theory Slab
  imports Allocators Machine
begin

text \<open>
  The slab allocator of \<^verbatim>\<open>types/slab.c\<close>: fixed-size blocks cut from regions and a list of freed
  blocks.  The descriptor is passed and returned by value; region headers and freed blocks live in
  memory, a region's \<^verbatim>\<open>current_offset\<close>, \<^verbatim>\<open>region_end\<close>, \<^verbatim>\<open>previous_region\<close> and \<^verbatim>\<open>next_region\<close> at byte
  offsets 0, 8, 16 and 24, a freed block's \<^verbatim>\<open>next_block\<close> at offset 0.  \<^verbatim>\<open>slab_allocate\<close> calls
  \<^verbatim>\<open>kalloc\<close>, which reaches a slab allocator of its own through the physical memory manager; here
  \<^verbatim>\<open>kalloc\<close> is an argument, so that the recursion of the C code, which its \<^verbatim>\<open>auto_refill\<close> flag
  cuts, needs no fuel.
\<close>

text \<open>\<^verbatim>\<open>struct allocation\<close> of \<^verbatim>\<open>kvspace.h\<close>.\<close>

record allocation =
  alloc_buffer :: addr
  alloc_size :: u64

record slab_alloc =
  block_size :: u64
  free_blocks :: u64
  total_blocks :: u64
  current_region :: addr
  block_list :: addr
  auto_refill :: bool

definition sizeof_slab_region :: u64 where
  "sizeof_slab_region = 32"

definition sr_offset :: "mem \<Rightarrow> addr \<Rightarrow> addr" where
  "sr_offset m r = load64 m r"

definition sr_end :: "mem \<Rightarrow> addr \<Rightarrow> addr" where
  "sr_end m r = load64 m (r + 8)"

definition sr_next :: "mem \<Rightarrow> addr \<Rightarrow> addr" where
  "sr_next m r = load64 m (r + 24)"

definition SLAB_BLOCK_SIZE :: "u64 \<Rightarrow> u64" where
  "SLAB_BLOCK_SIZE objsize = (if objsize > 8 then objsize else 8)"

definition SLAB_REGION_SIZE :: "u64 \<Rightarrow> u64 \<Rightarrow> u64" where
  "SLAB_REGION_SIZE objsize cnt =
     ALIGN_UP sizeof_slab_region (SLAB_BLOCK_SIZE objsize) + SLAB_BLOCK_SIZE objsize * cnt"

definition slab_init :: "u64 \<Rightarrow> slab_alloc" where
  "slab_init objsize =
     \<lparr>block_size = SLAB_BLOCK_SIZE objsize, free_blocks = 0, total_blocks = 0,
      current_region = 0, block_list = 0, auto_refill = False\<rparr>"

definition slab_autorefill_init :: "u64 \<Rightarrow> slab_alloc" where
  "slab_autorefill_init objsize =
     \<lparr>block_size = SLAB_BLOCK_SIZE objsize, free_blocks = 0, total_blocks = 0,
      current_region = 0, block_list = 0, auto_refill = True\<rparr>"

text \<open>The links \<^verbatim>\<open>slab_grow\<close> writes, and the header it writes before them.\<close>

definition slab_link :: "addr \<Rightarrow> addr \<Rightarrow> mem \<Rightarrow> mem" where
  "slab_link cur new_region m =
     (if sr_next m cur = 0 then
        let m = store64 m (cur + 24) new_region;
            m = store64 m (new_region + 24) 0
        in store64 m (new_region + 16) cur
      else
        let m = store64 m (new_region + 24) (sr_next m cur);
            m = store64 m (sr_next m new_region + 16) new_region;
            m = store64 m (new_region + 16) cur
        in store64 m (cur + 24) new_region)"

definition slab_first :: "addr \<Rightarrow> u64 \<Rightarrow> addr" where
  "slab_first buffer bs = ALIGN_UP (buffer + sizeof_slab_region) bs"

definition slab_last :: "addr \<Rightarrow> u64 \<Rightarrow> u64 \<Rightarrow> addr" where
  "slab_last buffer buffer_size bs = ALIGN_DOWN (buffer + buffer_size) bs"

definition slab_grow :: "slab_alloc \<Rightarrow> addr \<Rightarrow> u64 \<Rightarrow> mem \<Rightarrow> halt + slab_alloc \<times> mem" where
  "slab_grow arena buffer buffer_size m =
     kassert (buffer \<noteq> 0) (kassert (buffer_size \<ge> SLAB_REGION_SIZE (block_size arena) 1)
     (let new_region = buffer;
          m = store64 m new_region (slab_first buffer (block_size arena));
          m = store64 m (new_region + 8) (slab_last buffer buffer_size (block_size arena))
      in if block_size arena = 0 then Inl Div_by_zero
         else
           let new_blocks = (sr_end m new_region - sr_offset m new_region) div block_size arena;
               arena = arena\<lparr>free_blocks := free_blocks arena + new_blocks,
                             total_blocks := total_blocks arena + new_blocks\<rparr>
           in if current_region arena = 0 then
                let m = store64 m (new_region + 16) 0;
                    m = store64 m (new_region + 24) 0
                in Inr (arena\<lparr>current_region := new_region\<rparr>, m)
              else
                let m = slab_link (current_region arena) new_region m
                in if sr_offset m (current_region arena) = sr_end m (current_region arena)
                   then Inr (arena\<lparr>current_region := new_region\<rparr>, m)
                   else Inr (arena, m)))"

text \<open>The block at the current region's offset, and the choice of the region to take it from.\<close>

definition slab_cut :: "slab_alloc \<Rightarrow> mem \<Rightarrow> halt + addr \<times> slab_alloc \<times> mem" where
  "slab_cut arena m =
     deref (current_region arena)
       (let retval = sr_offset m (current_region arena);
            m = store64 m (current_region arena) (retval + block_size arena);
            arena = arena\<lparr>free_blocks := free_blocks arena - 1\<rparr>
        in Inr (retval, arena, memzero m retval (block_size arena)))"

definition slab_take :: "slab_alloc \<Rightarrow> mem \<Rightarrow> halt + addr \<times> slab_alloc \<times> mem" where
  "slab_take arena m =
     deref (current_region arena)
       (if sr_offset m (current_region arena) \<noteq> sr_end m (current_region arena) then slab_cut arena m
        else slab_cut (arena\<lparr>current_region := sr_next m (current_region arena)\<rparr>) m)"

definition slab_pop :: "slab_alloc \<Rightarrow> mem \<Rightarrow> addr \<times> slab_alloc \<times> mem" where
  "slab_pop arena m =
     (let retval = block_list arena;
          arena = arena\<lparr>block_list := load64 m (block_list arena), free_blocks := free_blocks arena - 1\<rparr>
      in (retval, arena, memzero m retval (block_size arena)))"

text \<open>Putting the memory back into the state of the machine.\<close>

definition with_mem :: "'a machine_scheme \<Rightarrow> (mem \<Rightarrow> halt + 'b \<times> mem) \<Rightarrow> halt + 'b \<times> 'a machine_scheme" where
  "with_mem s f = and_then (f (kmem s)) (\<lambda>(x, m). Inr (x, s\<lparr>kmem := m\<rparr>))"

definition slab_refill ::
    "(u64 \<Rightarrow> u64 \<Rightarrow> 'a machine_scheme \<Rightarrow> halt + allocation \<times> 'a machine_scheme) \<Rightarrow>
     slab_alloc \<Rightarrow> 'a machine_scheme \<Rightarrow> halt + slab_alloc \<times> 'a machine_scheme" where
  "slab_refill kal arena s =
     and_then (kal PAGE_SIZE PAGE_SIZE s) (\<lambda>(slab_mem, s).
       with_mem s (slab_grow arena (alloc_buffer slab_mem) (alloc_size slab_mem)))"

definition slab_allocate ::
    "(u64 \<Rightarrow> u64 \<Rightarrow> 'a machine_scheme \<Rightarrow> halt + allocation \<times> 'a machine_scheme) \<Rightarrow>
     slab_alloc \<Rightarrow> 'a machine_scheme \<Rightarrow> halt + addr \<times> slab_alloc \<times> 'a machine_scheme" where
  "slab_allocate kal arena s =
     (if block_list arena \<noteq> 0 then
        let (retval, arena, m) = slab_pop arena (kmem s) in Inr (retval, arena, s\<lparr>kmem := m\<rparr>)
      else if free_blocks arena = 0 \<and> auto_refill arena = False then Inr (0, arena, s)
      else and_then (if free_blocks arena = 0 then slab_refill kal arena s else Inr (arena, s))
             (\<lambda>(arena, s). and_then (slab_take arena (kmem s))
               (\<lambda>(retval, arena, m). Inr (retval, arena, s\<lparr>kmem := m\<rparr>))))"

definition slab_free :: "slab_alloc \<Rightarrow> addr \<Rightarrow> mem \<Rightarrow> halt + u64 \<times> slab_alloc \<times> mem" where
  "slab_free arena obj m =
     kassert (obj \<noteq> 0)
       (let m = store64 m obj (block_list arena)
        in Inr (ec EC_SUCCESS, arena\<lparr>block_list := obj, free_blocks := free_blocks arena + 1\<rparr>, m))"

section \<open>The arena's invariant\<close>

text \<open>
  The regions from the current one on, the freed blocks, and the live blocks.  Only the last region
  may end in a piece smaller than a block; the later regions have never been touched, so each still
  has room.
\<close>

definition sr_area :: "mem \<Rightarrow> addr \<Rightarrow> addr \<times> nat" where
  "sr_area m r = (sr_offset m r, unat (sr_end m r - sr_offset m r))"

definition sr_blocks :: "u64 \<Rightarrow> mem \<Rightarrow> addr \<Rightarrow> nat" where
  "sr_blocks bs m r = unat (sr_end m r - sr_offset m r) div unat bs"

definition sr_exact :: "u64 \<Rightarrow> mem \<Rightarrow> addr \<Rightarrow> bool" where
  "sr_exact bs m r \<longleftrightarrow> unat bs dvd unat (sr_end m r - sr_offset m r)"

definition slab_ranges :: "u64 \<Rightarrow> mem \<Rightarrow> addr list \<Rightarrow> addr list \<Rightarrow> (addr \<times> nat) list" where
  "slab_ranges bs m rs fl =
     map (\<lambda>r. (r, 32)) rs @ map (sr_area m) rs @ map (\<lambda>b. (b, unat bs)) fl"

definition slab_inv :: "slab_alloc \<Rightarrow> mem \<Rightarrow> addr list \<Rightarrow> addr list \<Rightarrow> (addr \<times> nat) list \<Rightarrow> bool" where
  "slab_inv a m rs fl live \<longleftrightarrow>
     8 \<le> block_size a \<and> chain 24 m (current_region a) rs \<and> chain 0 m (block_list a) fl \<and>
     (\<forall>r \<in> set rs. sr_offset m r \<noteq> 0 \<and> sr_offset m r \<le> sr_end m r) \<and>
     (\<forall>r \<in> set (butlast rs). sr_exact (block_size a) m r) \<and>
     (\<forall>r \<in> set (tl rs). 0 < sr_blocks (block_size a) m r) \<and>
     unat (free_blocks a) = length fl + sum_list (map (sr_blocks (block_size a) m) rs) \<and>
     all_apart (slab_ranges (block_size a) m rs fl @ live)"

lemma slab_inv_init: "8 \<le> block_size a \<Longrightarrow> free_blocks a = 0 \<Longrightarrow> current_region a = 0 \<Longrightarrow> block_list a = 0 \<Longrightarrow>
    all_apart live \<Longrightarrow> slab_inv a m [] [] live"
  by (simp add: slab_inv_def slab_ranges_def)

lemma SLAB_BLOCK_SIZE_ge: "8 \<le> SLAB_BLOCK_SIZE n"
  by (auto simp: SLAB_BLOCK_SIZE_def)

text \<open>The count of blocks stays far below \<open>2 ^ 64\<close>.\<close>

lemma slab_count_bound:
  assumes "8 \<le> bs" and "all_apart (slab_ranges bs m rs fl @ live)"
  shows "8 * (length fl + sum_list (map (sr_blocks bs m) rs)) \<le> 2 ^ 64"
proof -
  let ?xs = "map (sr_area m) rs @ map (\<lambda>b. (b, unat bs)) fl"
  have "all_apart ?xs" using assms(2) by (simp add: slab_ranges_def all_apart_append)
  moreover have "\<forall>x \<in> set ?xs. snd x \<le> 2 ^ 64"
    using unat_lt_2_64 by (auto simp: sr_area_def intro: less_imp_le)
  ultimately have "sum_list (map snd ?xs) \<le> 2 ^ 64" by (rule all_apart_sum)
  moreover have b8: "8 \<le> unat bs" using assms(1) by (simp add: word_le_nat_alt)
  have "8 * sr_blocks bs m r \<le> snd (sr_area m r)" for r
  proof -
    have "8 * sr_blocks bs m r \<le> unat bs * sr_blocks bs m r" using b8 by simp
    also have "\<dots> \<le> unat (sr_end m r - sr_offset m r)" by (simp add: sr_blocks_def)
    finally show ?thesis by (simp add: sr_area_def)
  qed
  then have "8 * sum_list (map (sr_blocks bs m) rs) \<le> sum_list (map (snd \<circ> sr_area m) rs)"
    by (induction rs) (simp_all add: add_mono)
  moreover have "8 * length fl \<le> sum_list (map (\<lambda>b. unat bs) fl)"
    using b8 by (induction fl) simp_all
  ultimately show ?thesis by (simp add: comp_def)
qed

section \<open>Memory that does not overlap a structure\<close>

lemma sr_fields_agree:
  assumes "agree_on A m' m" and "extent r 32 \<subseteq> A"
  shows "sr_offset m' r = sr_offset m r" and "sr_end m' r = sr_end m r" and "sr_next m' r = sr_next m r"
    and "sr_area m' r = sr_area m r" and "sr_blocks bs m' r = sr_blocks bs m r" and "sr_exact bs m' r = sr_exact bs m r"
proof -
  have "extent r 8 \<subseteq> A" "extent (r + 8) 8 \<subseteq> A" "extent (r + 24) 8 \<subseteq> A"
    using assms(2) extent_mono [of 8 32 r] extent_field [of 8 8 32 r] extent_field [of 24 8 32 r] by auto
  then have "load64 m' r = load64 m r" "load64 m' (r + 8) = load64 m (r + 8)"
      "load64 m' (r + 24) = load64 m (r + 24)"
    using load64_agree [OF assms(1)] by blast+
  then show "sr_offset m' r = sr_offset m r" "sr_end m' r = sr_end m r" "sr_next m' r = sr_next m r"
      "sr_area m' r = sr_area m r" "sr_blocks bs m' r = sr_blocks bs m r" "sr_exact bs m' r = sr_exact bs m r"
    by (simp_all add: sr_offset_def sr_end_def sr_next_def sr_area_def sr_blocks_def sr_exact_def)
qed

lemma chain_agree:
  assumes "agree_on A m' m" and "\<forall>b \<in> set as. extent (b + off) 8 \<subseteq> A"
  shows "chain off m' p as = chain off m p as"
  using assms by (intro chain_cong load64_agree [OF assms(1)]) auto

lemma regions_agree:
  assumes "agree_on A m' m" and "\<forall>r \<in> set rs. extent r 32 \<subseteq> A"
  shows "chain 24 m' p rs = chain 24 m p rs" and "map (sr_area m') rs = map (sr_area m) rs"
    and "map (sr_blocks bs m') rs = map (sr_blocks bs m) rs"
    and "(\<forall>r \<in> set (butlast rs). sr_exact bs m' r) = (\<forall>r \<in> set (butlast rs). sr_exact bs m r)"
    and "(\<forall>r \<in> set (tl rs). 0 < sr_blocks bs m' r) = (\<forall>r \<in> set (tl rs). 0 < sr_blocks bs m r)"
    and "(\<forall>r \<in> set rs. sr_offset m' r \<noteq> 0 \<and> sr_offset m' r \<le> sr_end m' r) =
      (\<forall>r \<in> set rs. sr_offset m r \<noteq> 0 \<and> sr_offset m r \<le> sr_end m r)"
    and "(\<forall>r \<in> set rs. sr_exact bs m' r) = (\<forall>r \<in> set rs. sr_exact bs m r)"
proof -
  have same: "sr_offset m' r = sr_offset m r" "sr_end m' r = sr_end m r" "sr_next m' r = sr_next m r"
    if "r \<in> set rs" for r
    using sr_fields_agree [OF assms(1)] assms(2) that by blast+
  show "chain 24 m' p rs = chain 24 m p rs"
    using same(3) by (intro chain_cong) (simp add: sr_next_def)
  show "map (sr_area m') rs = map (sr_area m) rs" "map (sr_blocks bs m') rs = map (sr_blocks bs m) rs"
    using same by (simp_all add: sr_area_def sr_blocks_def)
  show "(\<forall>r \<in> set (butlast rs). sr_exact bs m' r) = (\<forall>r \<in> set (butlast rs). sr_exact bs m r)"
    using same by (intro ball_cong) (auto simp: sr_exact_def dest: in_set_butlastD)
  show "(\<forall>r \<in> set (tl rs). 0 < sr_blocks bs m' r) = (\<forall>r \<in> set (tl rs). 0 < sr_blocks bs m r)"
    using same set_tl_subset [of rs] by (intro ball_cong) (auto simp: sr_blocks_def)
  show "(\<forall>r \<in> set rs. sr_offset m' r \<noteq> 0 \<and> sr_offset m' r \<le> sr_end m' r) =
      (\<forall>r \<in> set rs. sr_offset m r \<noteq> 0 \<and> sr_offset m r \<le> sr_end m r)"
    "(\<forall>r \<in> set rs. sr_exact bs m' r) = (\<forall>r \<in> set rs. sr_exact bs m r)"
    using same by (simp_all add: sr_exact_def)
qed

section \<open>Taking a block\<close>

text \<open>
  What taking a block \<open>p\<close> does: the block is not null and zeroed, nothing outside the arena's own
  ranges is written, and what remains of the arena and the block lie in what the arena had.
\<close>

definition taken :: "u64 \<Rightarrow> mem \<Rightarrow> addr list \<Rightarrow> addr list \<Rightarrow> addr \<Rightarrow> mem \<Rightarrow> addr list \<Rightarrow> addr list \<Rightarrow> bool" where
  "taken bs m rs fl p m' rs' fl' \<longleftrightarrow>
     p \<noteq> 0 \<and> m' ` extent p (unat bs) \<subseteq> {0} \<and> agree_on (- covered (slab_ranges bs m rs fl)) m' m \<and>
     covered (slab_ranges bs m' rs' fl') \<union> extent p (unat bs) \<subseteq> covered (slab_ranges bs m rs fl) \<and>
     ((\<forall>q \<in> set rs. sr_exact bs m q) \<longrightarrow> (\<forall>q \<in> set rs'. sr_exact bs m' q))"

lemma slab_live_agree:
  assumes "slab_inv a m rs fl live" and "agree_on (- covered (slab_ranges (block_size a) m rs fl)) m' m"
  shows "agree_on (covered live) m' m"
proof (rule agree_on_mono [OF assms(2)])
  have "all_apart (slab_ranges (block_size a) m rs fl @ live)" using assms(1) by (simp add: slab_inv_def)
  then show "covered live \<subseteq> - covered (slab_ranges (block_size a) m rs fl)"
    by (auto simp: all_apart_append_covered)
qed


lemma slab_count_pos:
  assumes "slab_inv a m rs fl live" and "0 < length fl + sum_list (map (sr_blocks (block_size a) m) rs)"
  shows "unat (free_blocks a - 1) = length fl + sum_list (map (sr_blocks (block_size a) m) rs) - 1"
    and "free_blocks a \<noteq> 0"
proof -
  have e: "unat (free_blocks a) = length fl + sum_list (map (sr_blocks (block_size a) m) rs)"
    using assms(1) by (simp add: slab_inv_def)
  then show "free_blocks a \<noteq> 0" using assms(2) by (metis less_irrefl unat_0)
  then have "1 \<le> free_blocks a" by (simp add: word_le_nat_alt unat_gt_0 Suc_leI flip: unat_gt_0)
  then show "unat (free_blocks a - 1) = length fl + sum_list (map (sr_blocks (block_size a) m) rs) - 1"
    using e by (simp add: unat_sub_eq)
qed

lemma slab_pop_inv:
  assumes inv: "slab_inv a m rs (b # fl) live"
  shows "slab_pop a m = (b, a\<lparr>block_list := load64 m b, free_blocks := free_blocks a - 1\<rparr>,
      memzero m b (block_size a))"
    and "slab_inv (a\<lparr>block_list := load64 m b, free_blocks := free_blocks a - 1\<rparr>)
      (memzero m b (block_size a)) rs fl ((b, unat (block_size a)) # live)" and "b \<noteq> 0"
    and "taken (block_size a) m rs (b # fl) b (memzero m b (block_size a)) rs fl"
proof -
  let ?bs = "block_size a" and ?m = "memzero m b (block_size a)"
  let ?a = "a\<lparr>block_list := load64 m b, free_blocks := free_blocks a - 1\<rparr>"
  have I: "8 \<le> ?bs" "chain 24 m (current_region a) rs" "chain 0 m (block_list a) (b # fl)"
    "\<forall>r \<in> set rs. sr_offset m r \<noteq> 0 \<and> sr_offset m r \<le> sr_end m r"
    "\<forall>r \<in> set (butlast rs). sr_exact ?bs m r" "\<forall>r \<in> set (tl rs). 0 < sr_blocks ?bs m r"
    "all_apart (slab_ranges ?bs m rs (b # fl) @ live)"
    using inv by (simp_all add: slab_inv_def)
  show "b \<noteq> 0" using I(3) by (simp add: chain_Cons)
  show "slab_pop a m = (b, ?a, ?m)" using I(3) by (simp add: slab_pop_def Let_def chain_Cons)
  have "all_apart ((b, unat ?bs) # slab_ranges ?bs m rs fl @ live)"
    by (rule all_apart_perm [OF I(7)]) (simp add: slab_ranges_def)
  then have sep: "extent b (unat ?bs) \<inter> covered (slab_ranges ?bs m rs fl @ live) = {}"
      and ap: "all_apart ((b, unat ?bs) # slab_ranges ?bs m rs fl @ live)"
    by (simp_all only: all_apart_Cons_covered fst_conv snd_conv)
  have ag: "agree_on (- extent b (unat ?bs)) ?m m" by (rule memzero_agree) simp
  have hd: "\<forall>r \<in> set rs. extent r 32 \<subseteq> - extent b (unat ?bs)"
  proof
    fix r assume "r \<in> set rs"
    then show "extent r 32 \<subseteq> - extent b (unat ?bs)"
      using sep extent_subset_covered [of r 32 "slab_ranges ?bs m rs fl @ live"] by (auto simp: slab_ranges_def)
  qed
  note same = regions_agree [OF ag hd]
  have b8: "8 \<le> unat ?bs" using I(1) by (simp add: word_le_nat_alt)
  have bl: "extent (c + 0) 8 \<subseteq> - extent b (unat ?bs)" if "c \<in> set fl" for c
    using sep that extent_subset_covered [of c "unat ?bs" "slab_ranges ?bs m rs fl @ live"] extent_mono [OF b8, of c]
    by (auto simp: slab_ranges_def)
  have c0: "chain 0 ?m (load64 m b) fl"
    using chain_agree [OF ag, of fl 0 "load64 m b"] bl I(3) by (auto simp: chain_Cons)
  have rg: "slab_ranges ?bs ?m rs fl = slab_ranges ?bs m rs fl"
    by (simp only: slab_ranges_def same(2))
  have zr: "?m ` extent b (unat ?bs) \<subseteq> {0}" by (auto simp: memzero_inside)
  have bin: "extent b (unat ?bs) \<subseteq> covered (slab_ranges ?bs m rs (b # fl))"
    by (rule extent_subset_covered) (simp add: slab_ranges_def)
  have "covered (slab_ranges ?bs ?m rs fl) \<subseteq> covered (slab_ranges ?bs m rs (b # fl))"
    unfolding rg by (rule covered_mono) (auto simp: slab_ranges_def)
  then show "taken ?bs m rs (b # fl) b ?m rs fl"
    using bin zr \<open>b \<noteq> 0\<close> agree_on_mono [OF ag] by (auto simp: taken_def same(7))
  have "all_apart (slab_ranges ?bs ?m rs fl @ (b, unat ?bs) # live)"
    unfolding rg by (rule all_apart_perm [OF ap]) simp
  moreover have "unat (free_blocks ?a) = length fl + sum_list (map (sr_blocks ?bs ?m) rs)"
    using slab_count_pos [OF inv] by (simp add: same(3) del: map_eq_conv)
  ultimately show "slab_inv ?a ?m rs fl ((b, unat ?bs) # live)"
    using I c0 same(1,4-6) by (simp add: slab_inv_def)
qed

lemma slab_cut_inv:
  assumes inv: "slab_inv a m (r # rs) fl live" and room: "0 < sr_blocks (block_size a) m r"
  shows "\<exists>m'. slab_cut a m = Inr (sr_offset m r, a\<lparr>free_blocks := free_blocks a - 1\<rparr>, m') \<and>
    slab_inv (a\<lparr>free_blocks := free_blocks a - 1\<rparr>) m' (r # rs) fl ((sr_offset m r, unat (block_size a)) # live) \<and>
    taken (block_size a) m (r # rs) fl (sr_offset m r) m' (r # rs) fl"
proof -
  let ?bs = "block_size a" and ?p = "sr_offset m r"
  let ?a = "a\<lparr>free_blocks := free_blocks a - 1\<rparr>"
  define m1 where "m1 = store64 m r (?p + ?bs)"
  define m' where "m' = memzero m1 ?p ?bs"
  have I: "8 \<le> ?bs" "chain 24 m (current_region a) (r # rs)" "chain 0 m (block_list a) fl"
    "\<forall>q \<in> set (r # rs). sr_offset m q \<noteq> 0 \<and> sr_offset m q \<le> sr_end m q"
    "\<forall>q \<in> set (butlast (r # rs)). sr_exact ?bs m q" "\<forall>q \<in> set rs. 0 < sr_blocks ?bs m q"
    "all_apart (slab_ranges ?bs m (r # rs) fl @ live)"
    using inv by (simp_all add: slab_inv_def)
  have cur: "current_region a = r" "r \<noteq> 0" using I(2) by (simp_all add: chain_Cons)
  have b0: "0 < unat ?bs" and b8: "8 \<le> unat ?bs" using I(1) by (simp_all add: word_le_nat_alt)
  have rm: "unat ?bs \<le> unat (sr_end m r - ?p)"
    using room b0 by (simp add: sr_blocks_def div_greater_zero_iff)
  have pe: "?p \<le> sr_end m r" using I(4) by simp
  note cv = extent_carve [OF pe rm]
  define R where "R = (?p + ?bs, unat (sr_end m r - (?p + ?bs)))"
  have "all_apart ((?p, unat (sr_end m r - ?p)) # (r, 32) # slab_ranges ?bs m rs fl @ live)"
    by (rule all_apart_perm [OF I(7)]) (simp add: slab_ranges_def sr_area_def [of m r])
  from all_apart_carve [OF this cv(1,2,3)]
  have ap: "all_apart ((?p, unat ?bs) # R # (r, 32) # slab_ranges ?bs m rs fl @ live)"
    by (simp only: R_def)
  define A where "A = - (extent r 32 \<union> extent ?p (unat ?bs))"
  have ag: "agree_on A m' m"
    unfolding m'_def m1_def A_def using extent_mono [of 8 32 r]
    by (intro agree_on_trans [OF memzero_agree store64_agree]) auto
  have rest: "extent x n \<subseteq> A" if "(x, n) \<in> set (slab_ranges ?bs m rs fl)" for x n
  proof -
    have "apart (?p, unat ?bs) (x, n)" "apart (r, 32) (x, n)" using ap that by auto
    then show ?thesis by (auto simp: A_def apart_pair)
  qed
  have hd: "\<forall>q \<in> set rs. extent q 32 \<subseteq> A" using rest by (auto simp: slab_ranges_def)
  note same = regions_agree [OF ag hd]
  have bl: "\<forall>c \<in> set fl. extent (c + 0) 8 \<subseteq> A"
    using rest extent_mono [OF b8] by (fastforce simp: slab_ranges_def)
  have rp: "extent ?p (unat ?bs) \<inter> extent r 32 = {}" using ap by (simp add: apart_pair)
  have hdr: "load64 m' (r + i) = load64 m1 (r + i)" if "unat i + 8 \<le> 32" for i
    unfolding m'_def using rp extent_field [of i 8 32 r] that by (intro load64_memzero_apart) auto
  have ro: "sr_offset m' r = ?p + ?bs" and re: "sr_end m' r = sr_end m r" and rn: "sr_next m' r = sr_next m r"
    using hdr [of 0] hdr [of 8] hdr [of 24]
    by (simp_all add: sr_offset_def sr_end_def sr_next_def m1_def load64_store64_other)
  have c24: "chain 24 m' r (r # rs)"
    using I(2) same(1) rn by (simp add: chain_Cons sr_next_def)
  have rg: "slab_ranges ?bs m' rs fl = slab_ranges ?bs m rs fl"
    by (simp only: slab_ranges_def same(2))
  have ar: "sr_area m' r = R" by (simp add: sr_area_def ro re R_def)
  have "all_apart (slab_ranges ?bs m' (r # rs) fl @ (?p, unat ?bs) # live)"
    by (rule all_apart_perm [OF ap]) (simp add: slab_ranges_def ar same(2) del: map_eq_conv)
  moreover have "sr_blocks ?bs m r = Suc (sr_blocks ?bs m' r)"
    using rm b0 by (simp add: sr_blocks_def ro re cv(4) le_div_geq)
  then have "unat (free_blocks ?a) = length fl + sum_list (map (sr_blocks ?bs m') (r # rs))"
    using slab_count_pos [OF inv] by (simp add: same(3) del: map_eq_conv)
  moreover have ex: "sr_exact ?bs m r \<Longrightarrow> sr_exact ?bs m' r"
    using rm by (auto simp: sr_exact_def ro re cv(4) intro: dvd_diff_nat)
  then have "\<forall>q \<in> set (butlast (r # rs)). sr_exact ?bs m' q"
    using I(5) same(4) by (cases "rs = []") auto
  moreover have "?p + ?bs \<noteq> 0" using cv(6) b0 by (metis add_is_0 unat_0 less_numeral_extra(3))
  then have "\<forall>q \<in> set (r # rs). sr_offset m' q \<noteq> 0 \<and> sr_offset m' q \<le> sr_end m' q"
    using I(4) same(6) ro re cv(5) by simp
  moreover have "\<forall>q \<in> set rs. 0 < sr_blocks ?bs m' q"
    using I(6) same(3) by simp
  ultimately have "slab_inv ?a m' (r # rs) fl ((?p, unat ?bs) # live)"
    using I(1,3) c24 cur chain_agree [OF ag bl] by (simp add: slab_inv_def)
  moreover have "slab_cut a m = Inr (?p, ?a, m')"
    using cur by (simp add: slab_cut_def m'_def m1_def Let_def)
  moreover have "m' ` extent ?p (unat ?bs) \<subseteq> {0}" by (auto simp: m'_def memzero_inside)
  moreover have sub: "extent r 32 \<subseteq> covered (slab_ranges ?bs m (r # rs) fl)"
      "extent ?p (unat (sr_end m r - ?p)) \<subseteq> covered (slab_ranges ?bs m (r # rs) fl)"
      "covered (slab_ranges ?bs m rs fl) \<subseteq> covered (slab_ranges ?bs m (r # rs) fl)"
    by (auto simp: slab_ranges_def sr_area_def)
  then have "agree_on (- covered (slab_ranges ?bs m (r # rs) fl)) m' m"
    using cv(1) by (intro agree_on_mono [OF ag]) (auto simp: A_def)
  moreover have "covered (slab_ranges ?bs m' (r # rs) fl) =
      extent r 32 \<union> extent (fst R) (snd R) \<union> covered (slab_ranges ?bs m rs fl)"
    by (auto simp: slab_ranges_def ar same(2) simp del: map_eq_conv)
  then have "covered (slab_ranges ?bs m' (r # rs) fl) \<union> extent ?p (unat ?bs) \<subseteq> covered (slab_ranges ?bs m (r # rs) fl)"
    using sub cv(1,2) by (auto simp: R_def)
  moreover have "(\<forall>q \<in> set rs. sr_exact ?bs m' q) = (\<forall>q \<in> set rs. sr_exact ?bs m q)" by (rule same(7))
  ultimately show ?thesis using I(4) ex by (auto simp: taken_def)
qed

lemma slab_inv_full_region:
  assumes "slab_inv a m (r # n # rs) fl live" and "sr_offset m r = sr_end m r"
  shows "slab_inv (a\<lparr>current_region := sr_next m r\<rparr>) m (n # rs) fl live" and "sr_next m r = n"
    and "0 < sr_blocks (block_size a) m n"
proof -
  show n: "sr_next m r = n" using assms(1) by (simp add: slab_inv_def chain_Cons sr_next_def)
  show "0 < sr_blocks (block_size a) m n" using assms(1) by (simp add: slab_inv_def)
  let ?bs = "block_size a"
  have "all_apart (slab_ranges ?bs m (r # n # rs) fl @ live)" using assms(1) by (simp add: slab_inv_def)
  then have "all_apart ((r, 32) # sr_area m r # slab_ranges ?bs m (n # rs) fl @ live)"
    by (rule all_apart_perm) (simp add: slab_ranges_def)
  then have "all_apart (slab_ranges ?bs m (n # rs) fl @ live)" by simp
  moreover have "sr_blocks ?bs m r = 0" using assms(2) by (simp add: sr_blocks_def)
  ultimately show "slab_inv (a\<lparr>current_region := sr_next m r\<rparr>) m (n # rs) fl live"
    using assms(1) n by (auto simp: slab_inv_def chain_Cons sr_next_def)
qed

lemma slab_take_correct:
  assumes inv: "slab_inv a m rs [] live" and free: "free_blocks a \<noteq> 0"
  shows "\<exists>p c m' rs'. slab_take a m = Inr (p, a\<lparr>current_region := c, free_blocks := free_blocks a - 1\<rparr>, m') \<and>
    slab_inv (a\<lparr>current_region := c, free_blocks := free_blocks a - 1\<rparr>) m' rs' []
      ((p, unat (block_size a)) # live) \<and> taken (block_size a) m rs [] p m' rs' []"
proof -
  let ?bs = "block_size a"
  have cnt: "0 < sum_list (map (sr_blocks ?bs m) rs)"
    using inv free by (simp add: slab_inv_def unat_gt_0 flip: unat_gt_0)
  then obtain r rs0 where rs: "rs = r # rs0" by (cases rs) auto
  have cur: "current_region a = r" "r \<noteq> 0" using inv by (simp_all add: slab_inv_def rs chain_Cons)
  show ?thesis
  proof (cases "sr_offset m r = sr_end m r")
    case False
    have "0 < sr_blocks ?bs m r"
    proof (cases rs0)
      case Nil
      then show ?thesis using cnt by (simp add: rs)
    next
      case (Cons n ns)
      then have "sr_exact ?bs m r" using inv by (simp add: slab_inv_def rs)
      moreover have "0 < unat (sr_end m r - sr_offset m r)" using False by (simp add: unat_gt_0)
      moreover have "0 < unat ?bs" using inv by (simp add: slab_inv_def word_le_nat_alt)
      ultimately show ?thesis
        by (auto simp: sr_exact_def sr_blocks_def div_greater_zero_iff dest: dvd_imp_le)
    qed
    note c = slab_cut_inv [OF inv [unfolded rs] this]
    have eq: "a\<lparr>free_blocks := free_blocks a - 1\<rparr> = a\<lparr>current_region := r, free_blocks := free_blocks a - 1\<rparr>"
      using cur by simp
    have "slab_take a m = slab_cut a m" using False cur by (simp add: slab_take_def)
    then show ?thesis using c unfolding eq rs by metis
  next
    case True
    then have z: "sr_blocks ?bs m r = 0" by (simp add: sr_blocks_def)
    then obtain n ns where rs0: "rs0 = n # ns" using cnt by (cases rs0) (auto simp: rs)
    note mv = slab_inv_full_region [OF inv [unfolded rs rs0] True]
    obtain p m' where "slab_cut (a\<lparr>current_region := n\<rparr>) m =
        Inr (p, a\<lparr>current_region := n, free_blocks := free_blocks a - 1\<rparr>, m')"
      "slab_inv (a\<lparr>current_region := n, free_blocks := free_blocks a - 1\<rparr>) m' (n # ns) [] ((p, unat ?bs) # live)"
      and t: "taken ?bs m (n # ns) [] p m' (n # ns) []"
      using slab_cut_inv [OF mv(1)] mv(2,3) by auto
    moreover have "covered (slab_ranges ?bs m (n # ns) []) \<subseteq> covered (slab_ranges ?bs m rs [])"
      by (rule covered_mono) (auto simp: slab_ranges_def rs rs0)
    then have "taken ?bs m rs [] p m' (n # ns) []"
      using t agree_on_mono [of "- covered (slab_ranges ?bs m (n # ns) [])" m' m "- covered (slab_ranges ?bs m rs [])"]
      by (auto simp: taken_def rs rs0)
    ultimately show ?thesis using True cur mv(2)
      by - (rule exI [of _ p], rule exI [of _ n], rule exI [of _ m'], rule exI [of _ "n # ns"],
        auto simp: slab_take_def rs rs0)
  qed
qed

lemma covered_complement:
  "extent p n \<inter> covered xs = {} \<Longrightarrow> (q, k) \<in> set xs \<Longrightarrow> extent q k \<subseteq> - extent p n"
  using extent_subset_covered [of q k xs] by blast

text \<open>The fields of the descriptor an allocation may not change, and the counter it decrements.\<close>

definition one_less :: "slab_alloc \<Rightarrow> slab_alloc \<Rightarrow> bool" where
  "one_less a a' \<longleftrightarrow> block_size a' = block_size a \<and> total_blocks a' = total_blocks a \<and>
     auto_refill a' = auto_refill a \<and> free_blocks a' = free_blocks a - 1"

lemma slab_allocate_correct:
  assumes inv: "slab_inv a (kmem s) rs fl live" and no: "free_blocks a = 0 \<Longrightarrow> \<not> auto_refill a"
  shows "if free_blocks a = 0 then slab_allocate kal a s = Inr (0, a, s)
    else \<exists>p a' m' rs' fl'. slab_allocate kal a s = Inr (p, a', s\<lparr>kmem := m'\<rparr>) \<and> one_less a a' \<and>
      slab_inv a' m' rs' fl' ((p, unat (block_size a)) # live) \<and> taken (block_size a) (kmem s) rs fl p m' rs' fl'"
proof (cases fl)
  case (Cons b fl0)
  have bl: "block_list a = b" "b \<noteq> 0" using inv by (simp_all add: slab_inv_def Cons chain_Cons)
  have fb: "free_blocks a \<noteq> 0" using slab_count_pos(2) [OF inv] by (simp add: Cons)
  note pop = slab_pop_inv [OF inv [unfolded Cons]]
  have "slab_allocate kal a s = Inr (b, a\<lparr>block_list := load64 (kmem s) b, free_blocks := free_blocks a - 1\<rparr>,
      s\<lparr>kmem := memzero (kmem s) b (block_size a)\<rparr>)"
    using bl pop(1) by (simp add: slab_allocate_def)
  moreover have "one_less a (a\<lparr>block_list := load64 (kmem s) b, free_blocks := free_blocks a - 1\<rparr>)"
    by (simp add: one_less_def)
  ultimately show ?thesis using fb pop(2,4) Cons by (simp only: if_False) blast
next
  case Nil
  have bl: "block_list a = 0" using inv by (simp add: slab_inv_def Nil)
  show ?thesis
  proof (cases "free_blocks a = 0")
    case True
    then show ?thesis using bl no by (simp add: slab_allocate_def)
  next
    case False
    obtain p c m' rs' where
      "slab_take a (kmem s) = Inr (p, a\<lparr>current_region := c, free_blocks := free_blocks a - 1\<rparr>, m')"
      and t: "slab_inv (a\<lparr>current_region := c, free_blocks := free_blocks a - 1\<rparr>) m' rs' [] ((p, unat (block_size a)) # live)"
        "taken (block_size a) (kmem s) rs fl p m' rs' []"
      using slab_take_correct [OF inv [unfolded Nil] False] Nil by blast
    then have "slab_allocate kal a s = Inr (p, a\<lparr>current_region := c, free_blocks := free_blocks a - 1\<rparr>, s\<lparr>kmem := m'\<rparr>)"
      using bl False by (simp add: slab_allocate_def)
    moreover have "one_less a (a\<lparr>current_region := c, free_blocks := free_blocks a - 1\<rparr>)"
      by (simp add: one_less_def)
    ultimately show ?thesis using t False by (simp only: if_False) blast
  qed
qed

section \<open>Giving a block back\<close>

lemma slab_free_inv:
  assumes inv: "slab_inv a m rs fl ((p, unat (block_size a)) # live)" and p: "p \<noteq> 0"
  shows "slab_free a p m = Inr (0, a\<lparr>block_list := p, free_blocks := free_blocks a + 1\<rparr>, store64 m p (block_list a))"
    and "slab_inv (a\<lparr>block_list := p, free_blocks := free_blocks a + 1\<rparr>) (store64 m p (block_list a)) rs (p # fl) live"
    and "agree_on (- extent p (unat (block_size a))) (store64 m p (block_list a)) m"
    and "(\<forall>q \<in> set rs. sr_exact (block_size a) (store64 m p (block_list a)) q) = (\<forall>q \<in> set rs. sr_exact (block_size a) m q)"
proof -
  let ?bs = "block_size a" and ?m = "store64 m p (block_list a)"
  show "slab_free a p m = Inr (0, a\<lparr>block_list := p, free_blocks := free_blocks a + 1\<rparr>, ?m)"
    using p by (simp add: slab_free_def)
  have I: "8 \<le> ?bs" "chain 24 m (current_region a) rs" "chain 0 m (block_list a) fl"
    "\<forall>q \<in> set rs. sr_offset m q \<noteq> 0 \<and> sr_offset m q \<le> sr_end m q"
    "\<forall>q \<in> set (butlast rs). sr_exact ?bs m q" "\<forall>q \<in> set (tl rs). 0 < sr_blocks ?bs m q"
    "unat (free_blocks a) = length fl + sum_list (map (sr_blocks ?bs m) rs)"
    "all_apart (slab_ranges ?bs m rs fl @ (p, unat ?bs) # live)"
    using inv by (simp_all add: slab_inv_def)
  have b8: "8 \<le> unat ?bs" using I(1) by (simp add: word_le_nat_alt)
  show ag: "agree_on (- extent p (unat ?bs)) ?m m"
    using extent_mono [OF b8, of p] by (intro store64_agree) auto
  have ap: "all_apart ((p, unat ?bs) # slab_ranges ?bs m rs fl @ live)"
    by (rule all_apart_perm [OF I(8)]) simp
  have rest: "extent x n \<subseteq> - extent p (unat ?bs)" if "(x, n) \<in> set (slab_ranges ?bs m rs fl)" for x n
  proof -
    have "apart (p, unat ?bs) (x, n)" using ap that by auto
    then show ?thesis by (auto simp: apart_pair)
  qed
  have hd: "\<forall>q \<in> set rs. extent q 32 \<subseteq> - extent p (unat ?bs)" using rest by (auto simp: slab_ranges_def)
  note same = regions_agree [OF ag hd]
  show "(\<forall>q \<in> set rs. sr_exact ?bs ?m q) = (\<forall>q \<in> set rs. sr_exact ?bs m q)" by (rule same(7))
  have bl: "\<forall>c \<in> set fl. extent (c + 0) 8 \<subseteq> - extent p (unat ?bs)"
    using rest extent_mono [OF b8] by (fastforce simp: slab_ranges_def)
  have c0: "chain 0 ?m p (p # fl)"
    using I(3) p chain_agree [OF ag bl] by (simp add: chain_Cons)
  have rg: "slab_ranges ?bs ?m rs (p # fl) = map (\<lambda>r. (r, 32)) rs @ map (sr_area m) rs @ map (\<lambda>b. (b, unat ?bs)) (p # fl)"
    by (simp only: slab_ranges_def same(2))
  have ap': "all_apart (slab_ranges ?bs ?m rs (p # fl) @ live)"
    unfolding rg by (rule all_apart_perm [OF ap]) (simp add: slab_ranges_def)
  have "8 * (length (p # fl) + sum_list (map (sr_blocks ?bs ?m) rs)) \<le> 2 ^ 64"
    by (rule slab_count_bound [OF I(1) ap'])
  then have "unat (free_blocks a + 1) = length (p # fl) + sum_list (map (sr_blocks ?bs ?m) rs)"
    using I(7) by (subst unat_add_eq) (simp_all add: same(3) del: map_eq_conv)
  then show "slab_inv (a\<lparr>block_list := p, free_blocks := free_blocks a + 1\<rparr>) ?m rs (p # fl) live"
    using I(1,2,4-6) c0 ap' by (simp add: slab_inv_def same(1,4-6))
qed

section \<open>Adding a region\<close>

lemma ALIGN_DOWN_bounds: "unat (ALIGN_DOWN v al) \<le> unat v" "unat v \<le> unat (ALIGN_DOWN v al) + unat (al - 1)"
proof -
  have "(v AND (al - 1)) + (v AND NOT (al - 1)) = (v AND (al - 1)) OR (v AND NOT (al - 1))"
    by (rule disjunctive_add_eq_or) (auto intro: bit_word_eqI simp: bit_simps)
  also have "\<dots> = v" by (rule bit_word_eqI) (auto simp: bit_simps)
  finally have e: "ALIGN_DOWN v al = v - (v AND (al - 1))"
    by (simp add: ALIGN_DOWN_def algebra_simps)
  have le: "v AND (al - 1) \<le> v" by (rule word_and_le2)
  have "unat (v AND (al - 1)) \<le> unat (al - 1)" by (simp add: word_and_le1 flip: word_le_nat_alt)
  moreover have "unat (v AND (al - 1)) \<le> unat v" using le by (simp add: word_le_nat_alt)
  ultimately show "unat (ALIGN_DOWN v al) \<le> unat v" "unat v \<le> unat (ALIGN_DOWN v al) + unat (al - 1)"
    unfolding e unat_sub_eq [OF le] by linarith+
qed

lemma ALIGN_UP_bounds:
  assumes "unat v + unat (al - 1) < 2 ^ 64"
  shows "unat v \<le> unat (ALIGN_UP v al)" "unat (ALIGN_UP v al) \<le> unat v + unat (al - 1)"
  using ALIGN_DOWN_bounds [of "v + (al - 1)" al] unat_add_eq [OF assms]
  by (simp_all add: ALIGN_UP_as_DOWN)

lemma slab_bounds:
  assumes "8 \<le> bs" and "unat buffer + unat sz < 2 ^ 64" and "32 + 3 * unat bs \<le> unat sz"
  shows "unat buffer + 32 \<le> unat (slab_first buffer bs)" and "unat (slab_first buffer bs) \<le> unat buffer + 31 + unat bs"
    and "unat buffer + unat sz \<le> unat (slab_last buffer sz bs) + unat bs - 1"
    and "unat (slab_last buffer sz bs) \<le> unat buffer + unat sz"
    and "SLAB_REGION_SIZE bs 1 \<le> sz"
proof -
  have b8: "8 \<le> unat bs" using assms(1) by (simp add: word_le_nat_alt)
  have b1: "unat (bs - 1) = unat bs - 1"
    using b8 by (subst unat_sub_eq) (simp_all add: word_le_nat_alt)
  have u: "unat (buffer + 32) = unat buffer + 32" "unat (buffer + sz) = unat buffer + unat sz"
    using assms(2,3) by (simp_all add: unat_add_eq)
  have nw: "unat (buffer + 32) + unat (bs - 1) < 2 ^ 64" using u b1 assms(2,3) by linarith
  show "unat buffer + 32 \<le> unat (slab_first buffer bs)" "unat (slab_first buffer bs) \<le> unat buffer + 31 + unat bs"
    using ALIGN_UP_bounds [OF nw] u b1 b8 by (simp_all add: slab_first_def sizeof_slab_region_def)
  show "unat buffer + unat sz \<le> unat (slab_last buffer sz bs) + unat bs - 1"
      "unat (slab_last buffer sz bs) \<le> unat buffer + unat sz"
    using ALIGN_DOWN_bounds [of "buffer + sz" bs] u b1 b8 by (simp_all add: slab_last_def)
  have n32: "unat (32 :: u64) + unat (bs - 1) < 2 ^ 64" using b1 assms(2,3) by simp
  have "unat (ALIGN_UP 32 bs) \<le> 31 + unat bs" using ALIGN_UP_bounds(2) [OF n32] b1 b8 by simp
  moreover from this have "unat (ALIGN_UP 32 bs + bs) = unat (ALIGN_UP 32 bs) + unat bs"
    using assms(2,3) by (intro unat_add_eq) linarith
  moreover have "SLAB_BLOCK_SIZE bs = bs" using assms(1) by (auto simp: SLAB_BLOCK_SIZE_def)
  ultimately show "SLAB_REGION_SIZE bs 1 \<le> sz"
    using assms(3) by (simp add: SLAB_REGION_SIZE_def sizeof_slab_region_def word_le_nat_alt)
qed

lemma link_store_other:
  assumes "a = b \<or> extent a 32 \<inter> extent b 32 = {}"
  shows "sr_offset (store64 m (a + 16) v) b = sr_offset m b" and "sr_end (store64 m (a + 16) v) b = sr_end m b"
    and "sr_next (store64 m (a + 16) v) b = sr_next m b"
    and "sr_offset (store64 m (a + 24) v) b = sr_offset m b" and "sr_end (store64 m (a + 24) v) b = sr_end m b"
proof -
  have *: "load64 (store64 m (a + i) v) (b + j) = load64 m (b + j)"
    if "unat i + 8 \<le> 32" "unat j + 8 \<le> 32" "8 \<le> unat (j - i)" "8 \<le> unat (i - j)" for i j
    using assms load64_store64_fields [of a 32 b 32 i j] load64_store64_other [of "b + j" "b + i"] that by auto
  show "sr_offset (store64 m (a + 16) v) b = sr_offset m b" "sr_end (store64 m (a + 16) v) b = sr_end m b"
    "sr_next (store64 m (a + 16) v) b = sr_next m b"
    "sr_offset (store64 m (a + 24) v) b = sr_offset m b" "sr_end (store64 m (a + 24) v) b = sr_end m b"
    using * [of 16 0] * [of 16 8] * [of 16 24] * [of 24 0] * [of 24 8]
    by (simp_all add: sr_offset_def sr_end_def sr_next_def)
qed

lemma link_store_next:
  "sr_next (store64 m (a + 24) v) a = v"
  "extent a 32 \<inter> extent b 32 = {} \<Longrightarrow> sr_next (store64 m (a + 24) v) b = sr_next m b"
  by (simp_all add: sr_next_def load64_store64_fields [of a 32 b 32 24 24])

lemma link_store_agree:
  assumes "extent a 32 \<inter> A = {}" and "unat i + 8 \<le> 32"
  shows "agree_on A (store64 m (a + i) v) m"
  using extent_field [of i 8 32 a] assms by (intro store64_agree) auto

lemma slab_link_correct:
  assumes ch: "chain 24 m c (c # ns)" and ap: "all_apart (map (\<lambda>r. (r, 32)) (b # c # ns))" and b: "b \<noteq> 0"
  shows "chain 24 (slab_link c b m) c (c # b # ns)"
    and "\<forall>q \<in> set (b # c # ns). sr_offset (slab_link c b m) q = sr_offset m q \<and>
      sr_end (slab_link c b m) q = sr_end m q"
    and "agree_on (- covered (map (\<lambda>r. (r, 32)) (b # c # ns))) (slab_link c b m) m"
proof -
  have c: "c \<noteq> 0" and chn: "chain 24 m (sr_next m c) ns"
    using ch by (simp_all add: chain_Cons sr_next_def)
  have bc: "extent b 32 \<inter> extent c 32 = {}" "extent c 32 \<inter> extent b 32 = {}"
    and bn: "\<And>q. q \<in> set ns \<Longrightarrow> extent b 32 \<inter> extent q 32 = {}"
    and cn: "\<And>q. q \<in> set ns \<Longrightarrow> extent c 32 \<inter> extent q 32 = {}"
    using ap by (auto simp: apart_pair)
  have nn: "q = r \<or> extent q 32 \<inter> extent r 32 = {}" if "q \<in> set ns" "r \<in> set ns" for q r
    using that ap by (induction ns) (auto simp: apart_pair)
  note facts = bc bn cn link_store_other link_store_next b c
  have "chain 24 (slab_link c b m) c (c # b # ns) \<and>
    (\<forall>q \<in> set (b # c # ns). sr_offset (slab_link c b m) q = sr_offset m q \<and>
      sr_end (slab_link c b m) q = sr_end m q) \<and>
    agree_on (- covered (map (\<lambda>r. (r, 32)) (b # c # ns))) (slab_link c b m) m"
  proof (cases ns)
    case Nil
    then have "sr_next m c = 0" using chn by simp
    then have e: "slab_link c b m = store64 (store64 (store64 m (c + 24) b) (b + 24) 0) (b + 16) c"
      by (simp add: slab_link_def)
    have "agree_on (- covered (map (\<lambda>r. (r, 32)) (b # c # ns))) (slab_link c b m) m"
      unfolding e by (intro agree_on_trans [OF link_store_agree agree_on_trans [OF link_store_agree link_store_agree]]) auto
    then show ?thesis
      using facts by (simp add: e Nil chain_Cons flip: sr_next_def)
  next
    case (Cons n ns0)
    then have n: "sr_next m c = n" "n \<noteq> 0" and chn0: "chain 24 m (sr_next m n) ns0"
      using chn by (simp_all add: chain_Cons sr_next_def)
    have e: "slab_link c b m =
        store64 (store64 (store64 (store64 m (b + 24) n) (n + 16) b) (b + 16) c) (c + 24) b"
      using n by (simp add: slab_link_def Let_def link_store_next)
    have ag: "agree_on (- covered (map (\<lambda>r. (r, 32)) (b # c # ns))) (slab_link c b m) m"
      unfolding e Cons
      by (intro agree_on_trans [OF link_store_agree agree_on_trans [OF link_store_agree
            agree_on_trans [OF link_store_agree link_store_agree]]]) auto
    have nx: "sr_next (slab_link c b m) q = sr_next m q" if "q \<in> set ns" for q
      using that facts nn [of n q] by (simp add: e Cons)
    have nb: "extent n 32 \<inter> extent b 32 = {}" using bn [of n] Cons by auto
    from nx have "chain 24 (slab_link c b m) n ns = chain 24 m n ns"
      by (intro chain_cong) (simp add: sr_next_def)
    then have "chain 24 (slab_link c b m) c (c # b # ns)"
      using chn n facts nb by (simp add: chain_Cons e Cons flip: sr_next_def)
    moreover have "sr_offset (slab_link c b m) q = sr_offset m q \<and> sr_end (slab_link c b m) q = sr_end m q"
      if "q \<in> set (b # c # ns)" for q
    proof -
      have "b = q \<or> extent b 32 \<inter> extent q 32 = {}" "c = q \<or> extent c 32 \<inter> extent q 32 = {}"
        by (cases "q \<in> set ns"; use that bc bn [of q] cn [of q] in auto)+
      moreover have "n = q \<or> extent n 32 \<inter> extent q 32 = {}"
        using that nn [of n q] bn [of n] cn [of n] Cons by auto
      ultimately show ?thesis by (simp add: e link_store_other)
    qed
    ultimately show ?thesis using ag by blast
  qed
  then show "chain 24 (slab_link c b m) c (c # b # ns)"
    "\<forall>q \<in> set (b # c # ns). sr_offset (slab_link c b m) q = sr_offset m q \<and>
      sr_end (slab_link c b m) q = sr_end m q"
    "agree_on (- covered (map (\<lambda>r. (r, 32)) (b # c # ns))) (slab_link c b m) m" by blast+
qed

lemma slab_grow_core:
  assumes inv: "slab_inv a m rs fl live"
    and same: "block_size a' = block_size a" "block_list a' = block_list a" "current_region a' = c"
    and fresh: "extent buffer (unat sz) \<inter> covered (slab_ranges (block_size a) m rs fl @ live) = {}"
    and area: "extent buffer 32 \<subseteq> extent buffer (unat sz)"
      "extent (fst (sr_area m' buffer)) (snd (sr_area m' buffer)) \<subseteq> extent buffer (unat sz)"
      "extent buffer 32 \<inter> extent (fst (sr_area m' buffer)) (snd (sr_area m' buffer)) = {}"
      "sr_offset m' buffer \<noteq> 0" "sr_offset m' buffer \<le> sr_end m' buffer"
    and free: "free_blocks a' = free_blocks a + of_nat (sr_blocks (block_size a) m' buffer)"
    and ch: "chain 24 m' c rs'" and perm: "mset rs' = add_mset buffer (mset rs)"
    and old: "\<forall>q \<in> set rs. sr_offset m' q = sr_offset m q \<and> sr_end m' q = sr_end m q"
    and ag: "agree_on (- (extent buffer 32 \<union> covered (map (\<lambda>r. (r, 32)) rs))) m' m"
    and ex: "\<forall>r \<in> set (butlast rs'). sr_exact (block_size a) m' r"
    and room: "\<forall>r \<in> set (tl rs'). 0 < sr_blocks (block_size a) m' r"
  shows "slab_inv a' m' rs' fl live"
    and "unat (free_blocks a') = unat (free_blocks a) + sr_blocks (block_size a) m' buffer"
    and "covered (slab_ranges (block_size a) m' rs' fl) \<subseteq>
      covered (slab_ranges (block_size a) m rs fl) \<union> extent buffer (unat sz)"
proof -
  let ?bs = "block_size a"
  have I: "8 \<le> ?bs" "chain 0 m (block_list a) fl"
    "\<forall>q \<in> set rs. sr_offset m q \<noteq> 0 \<and> sr_offset m q \<le> sr_end m q"
    "unat (free_blocks a) = length fl + sum_list (map (sr_blocks ?bs m) rs)"
    "all_apart (slab_ranges ?bs m rs fl @ live)"
    using inv by (simp_all add: slab_inv_def)
  have b8: "8 \<le> unat ?bs" using I(1) by (simp add: word_le_nat_alt)
  have ar: "map (sr_area m') rs = map (sr_area m) rs" and bl: "map (sr_blocks ?bs m') rs = map (sr_blocks ?bs m) rs"
    using old by (simp_all add: sr_area_def sr_blocks_def)
  have fl: "\<forall>b \<in> set fl. extent (b + 0) 8 \<subseteq> - (extent buffer 32 \<union> covered (map (\<lambda>r. (r, 32)) rs))"
  proof
    fix b assume b: "b \<in> set fl"
    have "extent b (unat ?bs) \<subseteq> - extent buffer (unat sz)"
      by (rule covered_complement [OF fresh]) (simp add: slab_ranges_def b)
    moreover have "covered (map (\<lambda>r. (r, 32)) rs) \<inter> covered (map (\<lambda>b. (b, unat ?bs)) fl) = {}"
      using I(5) by (auto simp: slab_ranges_def all_apart_append_covered)
    moreover have "extent b (unat ?bs) \<subseteq> covered (map (\<lambda>b. (b, unat ?bs)) fl)"
      using b by (intro extent_subset_covered) simp
    ultimately show "extent (b + 0) 8 \<subseteq> - (extent buffer 32 \<union> covered (map (\<lambda>r. (r, 32)) rs))"
      using extent_mono [OF b8, of b] area(1) by auto
  qed
  have apb: "all_apart ((buffer, 32) # sr_area m' buffer # slab_ranges ?bs m rs fl @ live)"
    using I(5) area(1-3) fresh by (simp only: all_apart_Cons_covered covered_Cons fst_conv snd_conv) blast
  have "mset (slab_ranges ?bs m' rs' fl) = mset (slab_ranges ?bs m' (buffer # rs) fl)"
    by (simp add: slab_ranges_def perm)
  also have "\<dots> = mset ((buffer, 32) # sr_area m' buffer # slab_ranges ?bs m rs fl)"
    by (simp add: slab_ranges_def ar del: map_eq_conv)
  finally have ms: "mset (slab_ranges ?bs m' rs' fl) = mset ((buffer, 32) # sr_area m' buffer # slab_ranges ?bs m rs fl)" .
  have "covered (slab_ranges ?bs m' rs' fl) = covered ((buffer, 32) # sr_area m' buffer # slab_ranges ?bs m rs fl)"
    unfolding covered_def using mset_eq_setD [OF ms] by simp
  then show "covered (slab_ranges ?bs m' rs' fl) \<subseteq> covered (slab_ranges ?bs m rs fl) \<union> extent buffer (unat sz)"
    using area(1,2) by auto
  have ap: "all_apart (slab_ranges ?bs m' rs' fl @ live)"
    by (rule all_apart_perm [OF apb]) (simp add: ms)
  have "sum_list (map (sr_blocks ?bs m') rs') = sum_mset (mset (map (sr_blocks ?bs m') rs'))"
    by (rule sum_mset_sum_list [symmetric])
  also have "\<dots> = sr_blocks ?bs m' buffer + sum_mset (mset (map (sr_blocks ?bs m') rs))"
    by (simp add: perm)
  finally have sum: "sum_list (map (sr_blocks ?bs m') rs') = sr_blocks ?bs m' buffer + sum_list (map (sr_blocks ?bs m) rs)"
    by (simp only: sum_mset_sum_list bl)
  have lt: "8 * (length fl + sum_list (map (sr_blocks ?bs m') rs')) \<le> 2 ^ 64"
    by (rule slab_count_bound [OF I(1) ap])
  then show cnt: "unat (free_blocks a') = unat (free_blocks a) + sr_blocks ?bs m' buffer"
    unfolding free using I(4) sum by (intro unat_add_of_nat) simp
  have "set rs' = insert buffer (set rs)" using mset_eq_setD [of rs' "buffer # rs"] perm by simp
  then have "\<forall>r \<in> set rs'. sr_offset m' r \<noteq> 0 \<and> sr_offset m' r \<le> sr_end m' r"
    using I(3) old area(4,5) by auto
  then show "slab_inv a' m' rs' fl live"
    using I(1,2,4) ch ex room same ap cnt sum chain_agree [OF ag fl] by (simp add: slab_inv_def)
qed

text \<open>The header \<^verbatim>\<open>slab_grow\<close> writes, for a buffer of at least three blocks and a region header.\<close>

definition slab_header :: "mem \<Rightarrow> addr \<Rightarrow> u64 \<Rightarrow> u64 \<Rightarrow> mem" where
  "slab_header m buffer sz bs =
     store64 (store64 m buffer (slab_first buffer bs)) (buffer + 8) (slab_last buffer sz bs)"

lemma slab_header_area:
  assumes bs: "8 \<le> bs" and nw: "unat buffer + unat sz < 2 ^ 64" and sz: "32 + 3 * unat bs \<le> unat sz"
    and m': "sr_offset m' buffer = slab_first buffer bs" "sr_end m' buffer = slab_last buffer sz bs"
  shows "extent buffer 32 \<subseteq> extent buffer (unat sz)"
    and "extent (fst (sr_area m' buffer)) (snd (sr_area m' buffer)) \<subseteq> extent buffer (unat sz)"
    and "extent buffer 32 \<inter> extent (fst (sr_area m' buffer)) (snd (sr_area m' buffer)) = {}"
    and "sr_offset m' buffer \<noteq> 0" and "sr_offset m' buffer \<le> sr_end m' buffer"
    and "0 < sr_blocks bs m' buffer"
proof -
  note b = slab_bounds [OF bs nw sz]
  have b8: "8 \<le> unat bs" using bs by (simp add: word_le_nat_alt)
  show "extent buffer 32 \<subseteq> extent buffer (unat sz)" using sz by (intro extent_mono) simp
  have "0 < unat (slab_first buffer bs)" using b(1) by linarith
  then show "sr_offset m' buffer \<noteq> 0" unfolding m' by (simp add: unat_gt_0)
  have le: "slab_first buffer bs \<le> slab_last buffer sz bs"
    using b(2,3) sz by (simp add: word_le_nat_alt)
  then show "sr_offset m' buffer \<le> sr_end m' buffer" by (simp add: m')
  have d: "unat (slab_last buffer sz bs - slab_first buffer bs) =
      unat (slab_last buffer sz bs) - unat (slab_first buffer bs)" by (rule unat_sub_eq [OF le])
  show "0 < sr_blocks bs m' buffer"
    using b8 b(2,3) sz unfolding sr_blocks_def m' d by (simp add: div_greater_zero_iff)
  have inside: "x \<in> extent (slab_first buffer bs) (unat (slab_last buffer sz bs - slab_first buffer bs)) \<longleftrightarrow>
      unat (slab_first buffer bs) \<le> unat x \<and> unat x < unat (slab_last buffer sz bs)" for x
    using extent_nowrap [of "slab_first buffer bs" "unat (slab_last buffer sz bs - slab_first buffer bs)" x]
      le unat_lt_2_64 [of "slab_last buffer sz bs"] unfolding d by (simp add: word_le_nat_alt)
  show "extent (fst (sr_area m' buffer)) (snd (sr_area m' buffer)) \<subseteq> extent buffer (unat sz)"
  proof
    fix x assume "x \<in> extent (fst (sr_area m' buffer)) (snd (sr_area m' buffer))"
    then show "x \<in> extent buffer (unat sz)"
      using extent_nowrap [of buffer "unat sz" x] nw inside [of x] b(1,4) by (simp add: sr_area_def m')
  qed
  show "extent buffer 32 \<inter> extent (fst (sr_area m' buffer)) (snd (sr_area m' buffer)) = {}"
  proof (intro equals0I)
    fix x assume "x \<in> extent buffer 32 \<inter> extent (fst (sr_area m' buffer)) (snd (sr_area m' buffer))"
    then show False
      using extent_nowrap [of buffer 32 x] nw sz inside [of x] b(1) by (simp add: sr_area_def m')
  qed
qed

lemma slab_header_fields:
  "sr_offset (slab_header m buffer sz bs) buffer = slab_first buffer bs"
  "sr_end (slab_header m buffer sz bs) buffer = slab_last buffer sz bs"
  "agree_on (- extent buffer 32) (slab_header m buffer sz bs) m"
proof -
  show "sr_offset (slab_header m buffer sz bs) buffer = slab_first buffer bs"
    "sr_end (slab_header m buffer sz bs) buffer = slab_last buffer sz bs"
    by (simp_all add: slab_header_def sr_offset_def sr_end_def load64_store64_other)
  show "agree_on (- extent buffer 32) (slab_header m buffer sz bs) m"
    unfolding slab_header_def
    using agree_on_trans [OF link_store_agree [of buffer "- extent buffer 32" 8]
        link_store_agree [of buffer "- extent buffer 32" 0]] by simp
qed

lemma slab_grow_unfold:
  fixes m :: mem and a :: slab_alloc and buffer :: addr and sz :: u64
  assumes "buffer \<noteq> 0" and "SLAB_REGION_SIZE (block_size a) 1 \<le> sz" and "block_size a \<noteq> 0"
  defines "m2 \<equiv> slab_header m buffer sz (block_size a)"
    and "nb \<equiv> (slab_last buffer sz (block_size a) - slab_first buffer (block_size a)) div block_size a"
  shows "slab_grow a buffer sz m =
     (let a = a\<lparr>free_blocks := free_blocks a + nb, total_blocks := total_blocks a + nb\<rparr> in
      if current_region a = 0
      then Inr (a\<lparr>current_region := buffer\<rparr>, store64 (store64 m2 (buffer + 16) 0) (buffer + 24) 0)
      else let m = slab_link (current_region a) buffer m2 in
        Inr (if sr_offset m (current_region a) = sr_end m (current_region a) then a\<lparr>current_region := buffer\<rparr> else a, m))"
  using assms(1-3) slab_header_fields(1,2) [of m buffer sz "block_size a"]
  unfolding m2_def nb_def slab_grow_def slab_header_def
  by (simp add: Let_def)

lemma slab_grow_correct:
  assumes inv: "slab_inv a m rs fl live" and b0: "buffer \<noteq> 0" and nw: "unat buffer + unat sz < 2 ^ 64"
    and sz: "32 + 3 * unat (block_size a) \<le> unat sz"
    and exact: "rs = [] \<or> (\<forall>r \<in> set rs. sr_exact (block_size a) m r) \<and>
      unat (block_size a) dvd unat (slab_last buffer sz (block_size a) - slab_first buffer (block_size a))"
    and fresh: "extent buffer (unat sz) \<inter> covered (slab_ranges (block_size a) m rs fl @ live) = {}"
  defines "nb \<equiv> (slab_last buffer sz (block_size a) - slab_first buffer (block_size a)) div block_size a"
  shows "\<exists>c m' rs'. slab_grow a buffer sz m =
      Inr (a\<lparr>free_blocks := free_blocks a + nb, total_blocks := total_blocks a + nb, current_region := c\<rparr>, m') \<and>
    slab_inv (a\<lparr>free_blocks := free_blocks a + nb, total_blocks := total_blocks a + nb, current_region := c\<rparr>)
      m' rs' fl live \<and>
    unat (free_blocks a + nb) = unat (free_blocks a) + unat nb \<and> 0 < unat nb \<and>
    agree_on (- (extent buffer 32 \<union> covered (map (\<lambda>r. (r, 32)) rs))) m' m \<and>
    (unat (block_size a) dvd unat (slab_last buffer sz (block_size a) - slab_first buffer (block_size a)) \<longrightarrow>
      (\<forall>r \<in> set rs'. sr_exact (block_size a) m' r)) \<and>
    covered (slab_ranges (block_size a) m' rs' fl) \<subseteq>
      covered (slab_ranges (block_size a) m rs fl) \<union> extent buffer (unat sz)"
proof -
  let ?bs = "block_size a" and ?F = "slab_first buffer (block_size a)" and ?L = "slab_last buffer sz (block_size a)"
  define m2 where "m2 = slab_header m buffer sz ?bs"
  define a1 where "a1 = a\<lparr>free_blocks := free_blocks a + nb, total_blocks := total_blocks a + nb\<rparr>"
  have bs: "8 \<le> ?bs" and ch: "chain 24 m (current_region a) rs" using inv by (simp_all add: slab_inv_def)
  then have bs0: "?bs \<noteq> 0" by auto
  note U = slab_grow_unfold [where m = m, OF b0 slab_bounds(5) [OF bs nw sz] bs0, folded nb_def m2_def]
  note hf = slab_header_fields [where m = m and buffer = buffer and sz = sz and bs = "?bs", folded m2_def]
  note area = slab_header_area [OF bs nw sz]
  have nbn: "unat nb = unat (?L - ?F) div unat ?bs" by (simp add: nb_def unat_div)
  have sub: "extent buffer 32 \<subseteq> extent buffer (unat sz)" using sz by (intro extent_mono) simp
  have hdr: "extent r 32 \<subseteq> - extent buffer (unat sz)" if "r \<in> set rs" for r
    by (rule covered_complement [OF fresh]) (simp add: slab_ranges_def that)
  then have hdr2: "\<forall>r \<in> set rs. extent r 32 \<subseteq> - extent buffer 32" using sub by blast
  have old2: "sr_offset m2 q = sr_offset m q" "sr_end m2 q = sr_end m q" if "q \<in> set rs" for q
    using sr_fields_agree [OF hf(3)] hdr2 that by blast+
  show ?thesis
  proof (cases rs)
    case Nil
    then have c0: "current_region a = 0" using ch by simp
    define m' where "m' = store64 (store64 m2 (buffer + 16) 0) (buffer + 24) 0"
    have f: "sr_offset m' buffer = ?F" "sr_end m' buffer = ?L" "sr_next m' buffer = 0"
      using hf(1,2) by (simp_all add: m'_def link_store_other link_store_next)
    have ag: "agree_on (- (extent buffer 32 \<union> covered (map (\<lambda>r. (r, 32)) rs))) m' m"
      unfolding m'_def
      using agree_on_trans [OF agree_on_trans [OF link_store_agree [of buffer "- extent buffer 32" 24]
            link_store_agree [of buffer "- extent buffer 32" 16]] hf(3)] Nil by simp
    have nb: "sr_blocks ?bs m' buffer = unat nb" by (simp add: nbn sr_blocks_def f)
    have ch': "chain 24 m' buffer [buffer]" using b0 f(3) by (simp add: chain_Cons flip: sr_next_def)
    have g: "slab_grow a buffer sz m = Inr (a1\<lparr>current_region := buffer\<rparr>, m')"
      using U c0 by (simp add: a1_def m'_def)
    have "slab_inv (a1\<lparr>current_region := buffer\<rparr>) m' [buffer] fl live \<and>
        unat (free_blocks (a1\<lparr>current_region := buffer\<rparr>)) = unat (free_blocks a) + sr_blocks ?bs m' buffer \<and>
        covered (slab_ranges ?bs m' [buffer] fl) \<subseteq> covered (slab_ranges ?bs m rs fl) \<union> extent buffer (unat sz)"
      using slab_grow_core [OF inv _ _ _ fresh area(1-5) [OF f(1,2)] _ ch' _ _ ag,
          of "a1\<lparr>current_region := buffer\<rparr>"] Nil nb
      by (simp add: a1_def)
    moreover have "0 < unat nb" using area(6) [OF f(1,2)] nb by simp
    moreover have "sr_exact ?bs m' buffer = (unat ?bs dvd unat (?L - ?F))" by (simp add: sr_exact_def f)
    ultimately show ?thesis using g ag nb
      by (intro exI [of _ buffer] exI [of _ m'] exI [of _ "[buffer]"]) (simp add: a1_def)
  next
    case (Cons c ns)
    then have c: "current_region a = c" "c \<noteq> 0" using ch by (simp_all add: chain_Cons)
    define m' where "m' = slab_link c buffer m2"
    have ch2: "chain 24 m2 c (c # ns)" using regions_agree(1) [OF hf(3) hdr2] ch c by (simp add: Cons)
    have "all_apart (map (\<lambda>r. (r, 32)) rs)" using inv by (simp add: slab_inv_def slab_ranges_def all_apart_append)
    then have ap: "all_apart (map (\<lambda>r. (r, 32)) (buffer # c # ns))"
      using hdr2 by (fastforce simp: Cons apart_pair)
    note L = slab_link_correct [OF ch2 ap b0, folded m'_def]
    have f: "sr_offset m' buffer = ?F" "sr_end m' buffer = ?L" using L(2) hf by simp_all
    have old: "\<forall>q \<in> set rs. sr_offset m' q = sr_offset m q \<and> sr_end m' q = sr_end m q"
      using L(2) old2 by (simp add: Cons)
    have ag: "agree_on (- (extent buffer 32 \<union> covered (map (\<lambda>r. (r, 32)) rs))) m' m"
      by (rule agree_on_trans [OF agree_on_mono [OF L(3)] agree_on_mono [OF hf(3)]]) (auto simp: Cons)
    have nb: "sr_blocks ?bs m' buffer = unat nb" by (simp add: nbn sr_blocks_def f)
    have g: "slab_grow a buffer sz m = Inr (if sr_offset m' c = sr_end m' c then a1\<lparr>current_region := buffer\<rparr> else a1, m')"
      using U c by (simp add: a1_def m'_def Let_def)
    have ex: "\<forall>r \<in> set (c # buffer # ns). sr_exact ?bs m' r"
      using exact old f by (auto simp: Cons sr_exact_def)
    then have exb: "\<forall>r \<in> set (butlast (c # buffer # ns)). sr_exact ?bs m' r" by (meson in_set_butlastD)
    have "\<forall>r \<in> set ns. 0 < sr_blocks ?bs m r" using inv by (simp add: slab_inv_def Cons)
    then have room: "\<forall>r \<in> set (tl (c # buffer # ns)). 0 < sr_blocks ?bs m' r"
      using area(6) [OF f(1,2)] old by (simp add: Cons sr_blocks_def)
    have i1: "slab_inv a1 m' (c # buffer # ns) fl live \<and>
        unat (free_blocks a1) = unat (free_blocks a) + sr_blocks ?bs m' buffer \<and>
        covered (slab_ranges ?bs m' (c # buffer # ns) fl) \<subseteq> covered (slab_ranges ?bs m rs fl) \<union> extent buffer (unat sz)"
      using slab_grow_core [OF inv _ _ _ fresh area(1-5) [OF f(1,2)] _ L(1) _ old ag exb room, of a1]
        c nb by (simp add: a1_def Cons)
    have nb0: "0 < unat nb" using area(6) [OF f(1,2)] nb by simp
    show ?thesis
    proof (cases "sr_offset m' c = sr_end m' c")
      case True
      have "slab_inv (a1\<lparr>current_region := buffer\<rparr>) m' (buffer # ns) fl live"
        using slab_inv_full_region(1,2) [of a1 m' c buffer ns fl live] i1 True by simp
      moreover have "covered (slab_ranges ?bs m' (buffer # ns) fl) \<subseteq> covered (slab_ranges ?bs m' (c # buffer # ns) fl)"
        by (rule covered_mono) (auto simp: slab_ranges_def)
      then have "covered (slab_ranges ?bs m' (buffer # ns) fl) \<subseteq> covered (slab_ranges ?bs m rs fl) \<union> extent buffer (unat sz)"
        using i1 by blast
      ultimately show ?thesis using g True ag nb nb0 i1 ex
        by (intro exI [of _ buffer] exI [of _ m'] exI [of _ "buffer # ns"]) (simp add: a1_def)
    next
      case False
      have "a1\<lparr>current_region := c\<rparr> = a1" using c by (simp add: a1_def)
      then show ?thesis using g False ag nb nb0 i1 ex
        by (intro exI [of _ c] exI [of _ m'] exI [of _ "c # buffer # ns"]) (simp add: a1_def)
    qed
  qed
qed

text \<open>Power-of-two block sizes leave no remainder in a region.\<close>

lemma slab_pow2_exact:
  assumes k: "3 \<le> k" "k < 64" and nw: "unat buffer + unat sz < 2 ^ 64" and sz: "32 + 3 * 2 ^ k \<le> unat sz"
  shows "unat ((2 :: u64) ^ k) dvd unat (slab_last buffer sz (2 ^ k) - slab_first buffer (2 ^ k))"
    and "(8 :: u64) \<le> 2 ^ k"
proof -
  have u: "unat ((2 :: u64) ^ k) = 2 ^ k" using k(2) by simp
  have "(2 :: nat) ^ 3 \<le> 2 ^ k" using k(1) by (rule power_increasing) simp
  then show b8: "(8 :: u64) \<le> 2 ^ k" unfolding word_le_nat_alt u by simp
  have "32 + 3 * unat ((2 :: u64) ^ k) \<le> unat sz" using sz by (simp only: u)
  note b = slab_bounds [OF b8 nw this, unfolded u]
  have le: "slab_first buffer (2 ^ k) \<le> slab_last buffer sz (2 ^ k)"
    using b(2,3) sz by (simp add: word_le_nat_alt)
  have "2 ^ k dvd unat (slab_last buffer sz (2 ^ k))" "2 ^ k dvd unat (slab_first buffer (2 ^ k))"
    by (simp_all add: slab_last_def slab_first_def ALIGN_DOWN_pow2 ALIGN_UP_pow2_dvd)
  then show "unat ((2 :: u64) ^ k) dvd unat (slab_last buffer sz (2 ^ k) - slab_first buffer (2 ^ k))"
    unfolding u unat_sub_eq [OF le] by (rule dvd_diff_nat)
qed

text \<open>An arena only depends on the bytes of its own ranges.\<close>

lemma slab_inv_agree:
  assumes inv: "slab_inv a m rs fl live" and ag: "agree_on (covered (slab_ranges (block_size a) m rs fl)) m' m"
  shows "slab_inv a m' rs fl live" and "slab_ranges (block_size a) m' rs fl = slab_ranges (block_size a) m rs fl"
    and "(\<forall>r \<in> set rs. sr_exact (block_size a) m' r) = (\<forall>r \<in> set rs. sr_exact (block_size a) m r)"
proof -
  let ?A = "covered (slab_ranges (block_size a) m rs fl)"
  have hd: "\<forall>r \<in> set rs. extent r 32 \<subseteq> ?A"
    by (intro ballI extent_subset_covered) (simp add: slab_ranges_def)
  note same = regions_agree [OF ag hd]
  show rg: "slab_ranges (block_size a) m' rs fl = slab_ranges (block_size a) m rs fl"
    by (simp only: slab_ranges_def same(2))
  show "(\<forall>r \<in> set rs. sr_exact (block_size a) m' r) = (\<forall>r \<in> set rs. sr_exact (block_size a) m r)"
    by (rule same(7))
  have "8 \<le> unat (block_size a)" using inv by (simp add: slab_inv_def word_le_nat_alt)
  then have "extent (b + 0) 8 \<subseteq> ?A" if "b \<in> set fl" for b
    using that extent_mono [of 8 "unat (block_size a)" b]
      extent_subset_covered [of b "unat (block_size a)" "slab_ranges (block_size a) m rs fl"]
    by (simp add: slab_ranges_def)
  then have "chain 0 m' (block_list a) fl" using chain_agree [OF ag, of fl 0] inv by (simp add: slab_inv_def)
  then show "slab_inv a m' rs fl live"
    using inv by (simp add: slab_inv_def rg same(1,4-6) same(3) del: map_eq_conv)
qed

section \<open>Refilling from a page source\<close>

text \<open>An arena whose regions, freed blocks and live blocks lie in pages it got from a source.\<close>

definition arena_in :: "('a machine_scheme \<Rightarrow> (addr \<times> nat) list \<Rightarrow> bool) \<Rightarrow>
    slab_alloc \<Rightarrow> 'a machine_scheme \<Rightarrow> (addr \<times> nat) list \<Rightarrow> (addr \<times> nat) list \<Rightarrow> bool" where
  "arena_in kinv a s live others \<longleftrightarrow>
     (\<exists>rs fl pages. slab_inv a (kmem s) rs fl live \<and> (\<forall>r \<in> set rs. sr_exact (block_size a) (kmem s) r) \<and>
       kinv s (pages @ others) \<and>
       covered (slab_ranges (block_size a) (kmem s) rs fl @ live) \<subseteq> covered pages)"

text \<open>
  What \<^verbatim>\<open>slab_allocate\<close> relies on when it calls \<^verbatim>\<open>kalloc\<close>: a page it is given is a non-null,
  page-aligned range outside everything live, the live blocks keep their contents, and the source
  does not depend on what the live blocks hold.
\<close>

locale page_source =
  fixes kinv :: "'a machine_scheme \<Rightarrow> (addr \<times> nat) list \<Rightarrow> bool"
    and kal :: "u64 \<Rightarrow> u64 \<Rightarrow> 'a machine_scheme \<Rightarrow> halt + allocation \<times> 'a machine_scheme"
  assumes kinv_apart: "kinv s live \<Longrightarrow> all_apart live"
    and kinv_frame: "kinv s live \<Longrightarrow> agree_on (- covered live) m (kmem s) \<Longrightarrow> kinv (s\<lparr>kmem := m\<rparr>) live"
    and page_inv: "kinv s live \<Longrightarrow> kal PAGE_SIZE PAGE_SIZE s = Inr (b, s') \<Longrightarrow>
      kinv s' ((alloc_buffer b, unat PAGE_SIZE) # live)"
    and page_shape: "kinv s live \<Longrightarrow> kal PAGE_SIZE PAGE_SIZE s = Inr (b, s') \<Longrightarrow>
      alloc_size b = PAGE_SIZE \<and> alloc_buffer b \<noteq> 0 \<and> unat (alloc_buffer b) + unat PAGE_SIZE < 2 ^ 64"
    and page_frame: "kinv s live \<Longrightarrow> kal PAGE_SIZE PAGE_SIZE s = Inr (b, s') \<Longrightarrow>
      agree_on (covered live) (kmem s') (kmem s)"
begin

lemma allocate_from_arena:
  assumes inv: "slab_inv a (kmem s) rs fl live" and ok: "kinv s (pages @ others)"
    and ex: "\<forall>r \<in> set rs. sr_exact (block_size a) (kmem s) r"
    and sub: "covered (slab_ranges (block_size a) (kmem s) rs fl @ live) \<subseteq> covered pages"
    and t: "taken (block_size a) (kmem s) rs fl p m' rs' fl'"
    and inv': "slab_inv a' m' rs' fl' ((p, unat (block_size a)) # live)" and bs: "block_size a' = block_size a"
  shows "arena_in kinv a' (s\<lparr>kmem := m'\<rparr>) ((p, unat (block_size a)) # live) others"
    and "agree_on (covered (live @ others)) m' (kmem s)"
proof -
  have ag: "agree_on (- covered (slab_ranges (block_size a) (kmem s) rs fl)) m' (kmem s)"
    using t by (simp add: taken_def)
  have "covered pages \<inter> covered others = {}"
    using kinv_apart [OF ok] by (simp add: all_apart_append_covered)
  then have "agree_on (covered others) m' (kmem s)"
    using sub by (intro agree_on_mono [OF ag]) auto
  then show "agree_on (covered (live @ others)) m' (kmem s)"
    using slab_live_agree [OF inv ag] by (auto simp: agree_on_def)
  have "kinv (s\<lparr>kmem := m'\<rparr>) (pages @ others)"
    using sub by (intro kinv_frame [OF ok] agree_on_mono [OF ag]) auto
  moreover have "covered (slab_ranges (block_size a) m' rs' fl' @ (p, unat (block_size a)) # live) \<subseteq> covered pages"
    using t sub by (auto simp: taken_def)
  moreover have "\<forall>r \<in> set rs'. sr_exact (block_size a) m' r" using t ex by (simp add: taken_def)
  ultimately show "arena_in kinv a' (s\<lparr>kmem := m'\<rparr>) ((p, unat (block_size a)) # live) others"
    using inv' bs by (auto simp: arena_in_def)
qed

lemma refill_arena:
  assumes arena: "arena_in kinv a s live others" and k: "3 \<le> k" "k \<le> 10" and bs: "block_size a = 2 ^ k"
    and fb: "free_blocks a = 0" and kal: "kal PAGE_SIZE PAGE_SIZE s = Inr (b, s1)"
  shows "\<exists>a1 s2. slab_refill kal a s = Inr (a1, s2) \<and> free_blocks a1 \<noteq> 0 \<and> block_list a1 = 0 \<and>
    block_size a1 = block_size a \<and> auto_refill a1 = auto_refill a \<and> arena_in kinv a1 s2 live others \<and>
    agree_on (covered (live @ others)) (kmem s2) (kmem s)"
proof -
  obtain rs fl pages where inv: "slab_inv a (kmem s) rs fl live"
    and ex: "\<forall>r \<in> set rs. sr_exact (block_size a) (kmem s) r" and ok: "kinv s (pages @ others)"
    and sub: "covered (slab_ranges (block_size a) (kmem s) rs fl @ live) \<subseteq> covered pages"
    using arena by (auto simp: arena_in_def)
  have k64: "k < 64" using k by simp
  have fl: "fl = []" using inv fb by (simp add: slab_inv_def)
  have bl: "block_list a = 0" using inv by (simp add: slab_inv_def fl)
  define q where "q = alloc_buffer b"
  note sh = page_shape [OF ok kal, folded q_def]
  have ok1: "kinv s1 ((q, unat PAGE_SIZE) # pages @ others)" unfolding q_def by (rule page_inv [OF ok kal])
  have ag1: "agree_on (covered (pages @ others)) (kmem s1) (kmem s)" by (rule page_frame [OF ok kal])
  have agr: "agree_on (covered (slab_ranges (block_size a) (kmem s) rs fl)) (kmem s1) (kmem s)"
    using sub by (intro agree_on_mono [OF ag1]) auto
  note i1 = slab_inv_agree [OF inv agr]
  have qp: "extent q (unat PAGE_SIZE) \<inter> covered (pages @ others) = {}"
    using kinv_apart [OF ok1] by (simp only: all_apart_Cons_covered fst_conv snd_conv)
  then have fresh: "extent q (unat PAGE_SIZE) \<inter>
      covered (slab_ranges (block_size a) (kmem s1) rs fl @ live) = {}"
    using sub unfolding i1(2) by auto
  have "(2::nat) ^ k \<le> 2 ^ 10" using k(2) by (rule power_increasing) simp
  then have sz: "32 + 3 * 2 ^ k \<le> unat PAGE_SIZE" by simp
  have nw: "unat q + unat PAGE_SIZE < 2 ^ 64" using sh by simp
  note p2 = slab_pow2_exact [OF k(1) k64 nw sz]
  have sz': "32 + 3 * unat (block_size a) \<le> unat PAGE_SIZE" using sz k64 by (simp add: bs)
  define nb where "nb = (slab_last q PAGE_SIZE (block_size a) - slab_first q (block_size a)) div block_size a"
  have exd: "rs = [] \<or> (\<forall>r \<in> set rs. sr_exact (block_size a) (kmem s1) r) \<and>
      unat (block_size a) dvd unat (slab_last q PAGE_SIZE (block_size a) - slab_first q (block_size a))"
    using i1(3) ex p2(1) by (simp add: bs)
  obtain c m2 rs2 where g: "slab_grow a q PAGE_SIZE (kmem s1) =
      Inr (a\<lparr>free_blocks := free_blocks a + nb, total_blocks := total_blocks a + nb, current_region := c\<rparr>, m2)"
    and i2: "slab_inv (a\<lparr>free_blocks := free_blocks a + nb, total_blocks := total_blocks a + nb, current_region := c\<rparr>)
      m2 rs2 fl live"
    and cnt: "unat (free_blocks a + nb) = unat (free_blocks a) + unat nb" "0 < unat nb"
    and ag2: "agree_on (- (extent q 32 \<union> covered (map (\<lambda>r. (r, 32)) rs))) m2 (kmem s1)"
    and ex2: "\<forall>r \<in> set rs2. sr_exact (block_size a) m2 r"
    and sub2: "covered (slab_ranges (block_size a) m2 rs2 fl) \<subseteq>
      covered (slab_ranges (block_size a) (kmem s1) rs fl) \<union> extent q (unat PAGE_SIZE)"
    using slab_grow_correct [OF i1(1) _ nw sz' exd fresh, folded nb_def] sh p2(1) by (auto simp: bs)
  let ?a1 = "a\<lparr>free_blocks := free_blocks a + nb, total_blocks := total_blocks a + nb, current_region := c\<rparr>"
  have hsub: "covered (map (\<lambda>r. (r, 32)) rs) \<subseteq> covered (slab_ranges (block_size a) (kmem s) rs fl)"
    by (rule covered_mono) (auto simp: slab_ranges_def)
  have q32: "extent q 32 \<subseteq> extent q (unat PAGE_SIZE)" by (rule extent_mono) simp
  have dis: "covered pages \<inter> covered others = {}"
    using kinv_apart [OF ok] by (simp add: all_apart_append_covered)
  have "kinv (s1\<lparr>kmem := m2\<rparr>) (((q, unat PAGE_SIZE) # pages) @ others)"
    using ok1 hsub q32 sub by (intro kinv_frame agree_on_mono [OF ag2]) auto
  moreover have "covered (slab_ranges (block_size a) m2 rs2 fl @ live) \<subseteq> covered ((q, unat PAGE_SIZE) # pages)"
    using sub2 sub unfolding i1(2) by auto
  ultimately have ar: "arena_in kinv ?a1 (s1\<lparr>kmem := m2\<rparr>) live others"
    using i2 ex2 unfolding arena_in_def
    by - (rule exI [of _ rs2], rule exI [of _ fl], rule exI [of _ "(q, unat PAGE_SIZE) # pages"], simp)
  have lsep: "covered live \<inter> covered (slab_ranges (block_size a) (kmem s) rs fl) = {}"
    using inv by (auto simp: slab_inv_def all_apart_append_covered)
  have "covered (live @ others) \<subseteq> - (extent q 32 \<union> covered (map (\<lambda>r. (r, 32)) rs))"
    using qp q32 hsub sub dis lsep by auto
  then have "agree_on (covered (live @ others)) m2 (kmem s1)" by (rule agree_on_mono [OF ag2])
  moreover have "agree_on (covered (live @ others)) (kmem s1) (kmem s)"
    using sub by (intro agree_on_mono [OF ag1]) auto
  ultimately have agl: "agree_on (covered (live @ others)) m2 (kmem s)" by (rule agree_on_trans)
  have "slab_refill kal a s = Inr (?a1, s1\<lparr>kmem := m2\<rparr>)"
    using kal sh g by (simp add: slab_refill_def with_mem_def flip: q_def)
  moreover have "free_blocks a + nb \<noteq> 0" using cnt by (metis add_is_0 less_numeral_extra(3) unat_0)
  ultimately show ?thesis using ar agl bl by auto
qed

lemma allocate_refilling:
  assumes arena: "arena_in kinv a s live others" and k: "3 \<le> k" "k \<le> 10" and bs: "block_size a = 2 ^ k"
  shows "case slab_allocate kal a s of
      Inl h \<Rightarrow> free_blocks a = 0 \<and> auto_refill a \<and> kal PAGE_SIZE PAGE_SIZE s = Inl h
    | Inr (p, a', s') \<Rightarrow>
        if p = 0 then free_blocks a = 0 \<and> \<not> auto_refill a \<and> a' = a \<and> s' = s
        else arena_in kinv a' s' ((p, 2 ^ k) # live) others \<and> kmem s' ` extent p (2 ^ k) \<subseteq> {0} \<and>
          agree_on (covered (live @ others)) (kmem s') (kmem s) \<and>
          block_size a' = block_size a \<and> auto_refill a' = auto_refill a"
proof (cases "free_blocks a = 0 \<and> auto_refill a")
  case False
  obtain rs fl pages where inv: "slab_inv a (kmem s) rs fl live"
    and ex: "\<forall>r \<in> set rs. sr_exact (block_size a) (kmem s) r" and ok: "kinv s (pages @ others)"
    and sub: "covered (slab_ranges (block_size a) (kmem s) rs fl @ live) \<subseteq> covered pages"
    using arena by (auto simp: arena_in_def)
  have u: "unat (block_size a) = 2 ^ k" using k by (simp add: bs)
  show ?thesis
  proof (cases "free_blocks a = 0")
    case True
    then show ?thesis using slab_allocate_correct [OF inv, of kal] False by auto
  next
    case nz: False
    then obtain p a' m' rs' fl' where al: "slab_allocate kal a s = Inr (p, a', s\<lparr>kmem := m'\<rparr>)" "one_less a a'"
      and r: "slab_inv a' m' rs' fl' ((p, unat (block_size a)) # live)"
        "taken (block_size a) (kmem s) rs fl p m' rs' fl'"
      using slab_allocate_correct [OF inv, of kal] by auto
    note al2 = allocate_from_arena [OF inv ok ex sub r(2,1)]
    show ?thesis using al al2 r(2) by (simp add: one_less_def u taken_def)
  qed
next
  case True
  then have bl: "block_list a = 0" using arena by (auto simp: arena_in_def slab_inv_def)
  show ?thesis
  proof (cases "kal PAGE_SIZE PAGE_SIZE s")
    case (Inl h)
    then show ?thesis using True bl by (simp add: slab_allocate_def slab_refill_def)
  next
    case (Inr bs1)
    then obtain b s1 where kal: "kal PAGE_SIZE PAGE_SIZE s = Inr (b, s1)" by (cases bs1) auto
    obtain a1 s2 where rf: "slab_refill kal a s = Inr (a1, s2)" "free_blocks a1 \<noteq> 0" "block_list a1 = 0"
      "block_size a1 = block_size a" "auto_refill a1 = auto_refill a" "arena_in kinv a1 s2 live others"
      and ag: "agree_on (covered (live @ others)) (kmem s2) (kmem s)"
      using refill_arena [OF arena k bs _ kal] True by auto
    obtain rs fl pages where inv: "slab_inv a1 (kmem s2) rs fl live"
      and ex: "\<forall>r \<in> set rs. sr_exact (block_size a1) (kmem s2) r" and ok: "kinv s2 (pages @ others)"
      and sub: "covered (slab_ranges (block_size a1) (kmem s2) rs fl @ live) \<subseteq> covered pages"
      using rf(6) by (auto simp: arena_in_def)
    have fl: "fl = []" using inv rf(3) by (simp add: slab_inv_def)
    obtain p c m' rs' where
      tk: "slab_take a1 (kmem s2) = Inr (p, a1\<lparr>current_region := c, free_blocks := free_blocks a1 - 1\<rparr>, m')"
      and r: "slab_inv (a1\<lparr>current_region := c, free_blocks := free_blocks a1 - 1\<rparr>) m' rs' []
          ((p, unat (block_size a1)) # live)"
        "taken (block_size a1) (kmem s2) rs [] p m' rs' []"
      using slab_take_correct [OF inv [unfolded fl] rf(2)] by blast
    have u: "unat (block_size a1) = 2 ^ k" using k by (simp add: rf(4) bs)
    have al: "slab_allocate kal a s =
        Inr (p, a1\<lparr>current_region := c, free_blocks := free_blocks a1 - 1\<rparr>, s2\<lparr>kmem := m'\<rparr>)"
      using True bl rf(1) tk by (simp add: slab_allocate_def)
    note al2 = allocate_from_arena [OF inv ok ex sub r(2) [folded fl] r(1) [folded fl]]
    show ?thesis
      using al al2 r(2) rf(4,5) agree_on_trans [OF al2(2) ag]
      by (simp add: u [unfolded rf(4)] taken_def)
  qed
qed

text \<open>The live blocks and everything outside the arena's pages may change.\<close>

lemma arena_step:
  assumes arena: "arena_in kinv a s live others"
    and step: "\<And>pages. kinv s (pages @ others) \<Longrightarrow> covered live \<subseteq> covered pages \<Longrightarrow>
      kinv s' (pages @ others') \<and> agree_on (covered pages - covered live) (kmem s') (kmem s)"
  shows "arena_in kinv a s' live others'"
proof -
  obtain rs fl pages where inv: "slab_inv a (kmem s) rs fl live"
    and ex: "\<forall>r \<in> set rs. sr_exact (block_size a) (kmem s) r" and ok: "kinv s (pages @ others)"
    and sub: "covered (slab_ranges (block_size a) (kmem s) rs fl @ live) \<subseteq> covered pages"
    using arena by (auto simp: arena_in_def)
  have "covered live \<subseteq> covered pages" using sub by auto
  note st = step [OF ok this]
  have "covered (slab_ranges (block_size a) (kmem s) rs fl) \<inter> covered live = {}"
    using inv by (auto simp: slab_inv_def all_apart_append_covered)
  then have "agree_on (covered (slab_ranges (block_size a) (kmem s) rs fl)) (kmem s') (kmem s)"
    using sub st by (auto intro: agree_on_mono)
  note i = slab_inv_agree [OF inv this]
  show ?thesis unfolding arena_in_def
    using i ex st sub by (intro exI [of _ rs] exI [of _ fl] exI [of _ pages]) simp
qed

lemma arena_frame:
  assumes arena: "arena_in kinv a s live others" and ag: "agree_on (- covered (live @ others)) m (kmem s)"
  shows "arena_in kinv a (s\<lparr>kmem := m\<rparr>) live others"
proof (rule arena_step [OF arena], intro conjI)
  fix pages assume ok: "kinv s (pages @ others)" and sub: "covered live \<subseteq> covered pages"
  show "kinv (s\<lparr>kmem := m\<rparr>) (pages @ others)"
    using sub by (intro kinv_frame [OF ok] agree_on_mono [OF ag]) auto
  have "covered pages \<inter> covered others = {}" using kinv_apart [OF ok] by (simp only: all_apart_append_covered)
  then show "agree_on (covered pages - covered live) (kmem (s\<lparr>kmem := m\<rparr>)) (kmem s)"
    by (simp, intro agree_on_mono [OF ag]) auto
qed

lemma arena_apart: "arena_in kinv a s live others \<Longrightarrow> all_apart (live @ others)"
proof -
  assume "arena_in kinv a s live others"
  then obtain rs fl pages where inv: "slab_inv a (kmem s) rs fl live" and ok: "kinv s (pages @ others)"
    and sub: "covered (slab_ranges (block_size a) (kmem s) rs fl @ live) \<subseteq> covered pages"
    by (auto simp: arena_in_def)
  have "all_apart live" using inv by (simp add: slab_inv_def all_apart_append)
  moreover have "all_apart others" "covered pages \<inter> covered others = {}"
    using kinv_apart [OF ok] by (simp_all only: all_apart_append_covered)
  ultimately show ?thesis using sub by (auto simp: all_apart_append_covered)
qed

lemma arena_free:
  assumes arena: "arena_in kinv a s ((p, unat (block_size a)) # live) others" and p: "p \<noteq> 0"
  shows "\<exists>a' m'. slab_free a p (kmem s) = Inr (0, a', m') \<and> arena_in kinv a' (s\<lparr>kmem := m'\<rparr>) live others \<and>
    block_size a' = block_size a \<and> auto_refill a' = auto_refill a \<and> agree_on (covered (live @ others)) m' (kmem s)"
proof -
  obtain rs fl pages where inv: "slab_inv a (kmem s) rs fl ((p, unat (block_size a)) # live)"
    and ex: "\<forall>r \<in> set rs. sr_exact (block_size a) (kmem s) r" and ok: "kinv s (pages @ others)"
    and sub: "covered (slab_ranges (block_size a) (kmem s) rs fl @ (p, unat (block_size a)) # live) \<subseteq> covered pages"
    using arena by (auto simp: arena_in_def)
  let ?m = "store64 (kmem s) p (block_list a)"
  note F = slab_free_inv [OF inv p]
  have ap: "all_apart (((p, unat (block_size a)) # live) @ others)" by (rule arena_apart [OF arena])
  have "all_apart (slab_ranges (block_size a) (kmem s) rs fl @ (p, unat (block_size a)) # live)"
    using inv by (simp add: slab_inv_def)
  then have "\<forall>q \<in> set rs. extent q 32 \<subseteq> - extent p (unat (block_size a))"
    by (fastforce simp: slab_ranges_def all_apart_append apart_pair)
  then have sr: "slab_ranges (block_size a) ?m rs (p # fl) =
      map (\<lambda>r. (r, 32)) rs @ map (sr_area (kmem s)) rs @ map (\<lambda>b. (b, unat (block_size a))) (p # fl)"
    by (simp only: slab_ranges_def regions_agree(2) [OF F(3)])
  have rg: "covered (slab_ranges (block_size a) ?m rs (p # fl) @ live) \<subseteq> covered pages"
    unfolding sr using sub by (auto simp: slab_ranges_def)
  have "kinv (s\<lparr>kmem := ?m\<rparr>) (pages @ others)"
    using sub by (intro kinv_frame [OF ok] agree_on_mono [OF F(3)]) auto
  then have "arena_in kinv (a\<lparr>block_list := p, free_blocks := free_blocks a + 1\<rparr>) (s\<lparr>kmem := ?m\<rparr>) live others"
    unfolding arena_in_def using F(2,4) ex rg
    by (intro exI [of _ rs] exI [of _ "p # fl"] exI [of _ pages]) simp
  moreover have "agree_on (covered (live @ others)) ?m (kmem s)"
    using all_apart_covered_hd [of "(p, unat (block_size a))" "live @ others"] ap
    by (intro agree_on_mono [OF F(3)]) auto
  ultimately show ?thesis using F(1) by auto
qed

end

section \<open>What the slab allocator promises\<close>

text \<open>
  Taking a block from a well-formed arena that need not be refilled always returns.  It returns
  null exactly when no free block is left, and then changes nothing; otherwise the block is zeroed
  and touches neither a region header, nor a freed block, nor a live block, the live blocks keep
  their contents, and one free block fewer is counted.
\<close>

theorem slab_allocate_safe:
  assumes "slab_inv a (kmem s) rs fl live" and "free_blocks a \<noteq> 0 \<or> \<not> auto_refill a"
  shows "case slab_allocate kal a s of Inl h \<Rightarrow> False
    | Inr (p, a', s') \<Rightarrow>
        if p = 0 then free_blocks a = 0 \<and> a' = a \<and> s' = s
        else (\<exists>rs' fl'. slab_inv a' (kmem s') rs' fl' ((p, unat (block_size a)) # live)) \<and>
          kmem s' ` extent p (unat (block_size a)) \<subseteq> {0} \<and>
          agree_on (covered live) (kmem s') (kmem s) \<and> s' = s\<lparr>kmem := kmem s'\<rparr> \<and>
          free_blocks a' = free_blocks a - 1 \<and> block_size a' = block_size a"
proof (cases "free_blocks a = 0")
  case True
  then show ?thesis using slab_allocate_correct [OF assms(1), of kal] assms(2) by simp
next
  case False
  then obtain p a' m' rs' fl' where al: "slab_allocate kal a s = Inr (p, a', s\<lparr>kmem := m'\<rparr>)" "one_less a a'"
    and r: "slab_inv a' m' rs' fl' ((p, unat (block_size a)) # live)"
      "taken (block_size a) (kmem s) rs fl p m' rs' fl'"
    using slab_allocate_correct [OF assms(1), of kal] by auto
  then have "agree_on (covered live) m' (kmem s)"
    using slab_live_agree [OF assms(1)] by (simp add: taken_def)
  then show ?thesis using al r by (auto simp: one_less_def taken_def)
qed

text \<open>
  C23: giving a live block back to a well-formed arena always succeeds, keeps the invariant with that
  block no longer live, and writes nothing outside the block; the next allocation hands out the
  same block, and leaves the descriptor as it was before the block was given back.
\<close>

theorem slab_free_allocate_roundtrip:
  assumes "slab_inv a (kmem s) rs fl ((p, unat (block_size a)) # live)" and "p \<noteq> 0"
  shows "case slab_free a p (kmem s) of Inl h \<Rightarrow> False
    | Inr (err, a', m') \<Rightarrow> err = ec EC_SUCCESS \<and> slab_inv a' m' rs (p # fl) live \<and>
        agree_on (- extent p (unat (block_size a))) m' (kmem s) \<and>
        slab_allocate kal a' (s\<lparr>kmem := m'\<rparr>) = Inr (p, a, s\<lparr>kmem := memzero m' p (block_size a)\<rparr>)"
proof -
  have "load64 (store64 (kmem s) p (block_list a)) p = block_list a" by simp
  then show ?thesis
    using slab_free_inv [OF assms] assms(2)
    by (simp add: slab_allocate_def slab_pop_def Let_def)
qed

text \<open>
  A region that overlaps nothing is added to an arena without loss: the new region's blocks are
  counted, the invariant is kept, and nothing outside the region headers is written.  For an arena
  that has regions already, the old regions and the new one must be whole numbers of blocks.
\<close>

theorem slab_grow_keeps_arena:
  assumes "slab_inv a m rs fl live" and "buffer \<noteq> 0" and "unat buffer + unat sz < 2 ^ 64"
    and "32 + 3 * unat (block_size a) \<le> unat sz"
    and "rs = [] \<or> (\<forall>r \<in> set rs. sr_exact (block_size a) m r) \<and>
      unat (block_size a) dvd unat (slab_last buffer sz (block_size a) - slab_first buffer (block_size a))"
    and "extent buffer (unat sz) \<inter> covered (slab_ranges (block_size a) m rs fl @ live) = {}"
  shows "case slab_grow a buffer sz m of Inl h \<Rightarrow> False
    | Inr (a', m') \<Rightarrow> (\<exists>rs'. slab_inv a' m' rs' fl live) \<and>
        unat (free_blocks a') = unat (free_blocks a) +
          unat (slab_last buffer sz (block_size a) - slab_first buffer (block_size a)) div unat (block_size a) \<and>
        agree_on (- (extent buffer 32 \<union> covered (map (\<lambda>r. (r, 32)) rs))) m' m"
  using slab_grow_correct [OF assms] by (auto simp: unat_div)

text \<open>
  C28: the rounding macros only round for powers of two, so a region can end in a piece smaller than
  a block.  An arena that refills itself then hands out that piece as a block: once every block is
  gone, the refill leaves the region current because its offset has not reached its end, and the
  block returned covers the first byte past the region.
\<close>

theorem slab_refill_overruns_region:
  assumes "block_list a = 0" and "free_blocks a = 0" and "auto_refill a" and "block_size a \<noteq> 0"
    and "SLAB_REGION_SIZE (block_size a) 1 \<le> PAGE_SIZE"
    and "current_region a = r" and "r \<noteq> 0" and "sr_next (kmem s) r = 0"
    and "sr_offset (kmem s) r \<noteq> sr_end (kmem s) r"
    and "unat (sr_end (kmem s) r - sr_offset (kmem s) r) < unat (block_size a)"
    and "kal PAGE_SIZE PAGE_SIZE s = Inr (\<lparr>alloc_buffer = q, alloc_size = PAGE_SIZE\<rparr>, s1)" and "q \<noteq> 0"
    and "extent q 32 \<inter> extent r 32 = {}" and "agree_on (extent r 32) (kmem s1) (kmem s)"
  shows "\<exists>a' s'. slab_allocate kal a s = Inr (sr_offset (kmem s) r, a', s') \<and>
    sr_end (kmem s) r \<in> extent (sr_offset (kmem s) r) (unat (block_size a))"
proof -
  let ?bs = "block_size a"
  define m2 where "m2 = slab_header (kmem s1) q PAGE_SIZE ?bs"
  have ag2: "agree_on (- extent q 32) m2 (kmem s1)" unfolding m2_def by (rule slab_header_fields)
  have "agree_on (extent r 32) m2 (kmem s)"
    using agree_on_trans [OF agree_on_mono [OF ag2] assms(14)] assms(13) by blast
  from sr_fields_agree [OF this subset_refl]
  have f: "sr_offset m2 r = sr_offset (kmem s) r" "sr_end m2 r = sr_end (kmem s) r" "sr_next m2 r = 0"
    using assms(8) by simp_all
  have qr: "extent r 32 \<inter> extent q 32 = {}" using assms(13) by auto
  define m3 where "m3 = slab_link r q m2"
  have m3: "m3 = store64 (store64 (store64 m2 (r + 24) q) (q + 24) 0) (q + 16) r"
    by (simp add: m3_def slab_link_def f)
  have f3: "sr_offset m3 r = sr_offset (kmem s) r" "sr_end m3 r = sr_end (kmem s) r"
    using f assms(13) qr by (simp_all add: m3 link_store_other)
  have gr: "\<exists>a1. slab_grow a q PAGE_SIZE (kmem s1) = Inr (a1, m3) \<and> current_region a1 = r"
    using slab_grow_unfold [where m = "kmem s1", OF assms(12,5,4)] assms(6,7,9) f3
    by (simp add: Let_def flip: m2_def m3_def)
  then obtain a1 where a1: "slab_grow a q PAGE_SIZE (kmem s1) = Inr (a1, m3)" "current_region a1 = r" by blast
  have "\<exists>a' s'. slab_allocate kal a s = Inr (sr_offset (kmem s) r, a', s')"
    using assms(1-3,7,9,11) a1 f3
    by (simp add: slab_allocate_def slab_refill_def with_mem_def slab_take_def slab_cut_def Let_def)
  then show ?thesis using assms(10) by (simp add: mem_extent)
qed

section \<open>The slab allocator as a source of blocks\<close>

definition slab_block_inv :: "u64 \<Rightarrow> slab_alloc \<times> 'a machine_scheme \<Rightarrow> (addr \<times> nat) list \<Rightarrow> bool" where
  "slab_block_inv bs x live \<longleftrightarrow> block_size (fst x) = bs \<and> \<not> auto_refill (fst x) \<and>
     (\<exists>rs fl. slab_inv (fst x) (kmem (snd x)) rs fl live)"

definition slab_request ::
    "(u64 \<Rightarrow> u64 \<Rightarrow> 'a machine_scheme \<Rightarrow> halt + allocation \<times> 'a machine_scheme) \<Rightarrow> unit \<Rightarrow>
     slab_alloc \<times> 'a machine_scheme \<Rightarrow> halt + addr \<times> slab_alloc \<times> 'a machine_scheme" where
  "slab_request kal r x = slab_allocate kal (fst x) (snd x)"

lemma slab_request_correct:
  assumes "slab_block_inv bs x live" and "slab_request kal r x = Inr (p, x')"
  shows "slab_block_inv bs x' (if p = 0 then live else (p, unat bs) # live)"
    and "agree_on (covered live) (kmem (snd x')) (kmem (snd x))"
proof -
  obtain rs fl where inv: "slab_inv (fst x) (kmem (snd x)) rs fl live" "block_size (fst x) = bs" "\<not> auto_refill (fst x)"
    using assms(1) by (auto simp: slab_block_inv_def)
  show "slab_block_inv bs x' (if p = 0 then live else (p, unat bs) # live)"
    "agree_on (covered live) (kmem (snd x')) (kmem (snd x))"
  proof (atomize (full), cases "free_blocks (fst x) = 0")
    case True
    then show "slab_block_inv bs x' (if p = 0 then live else (p, unat bs) # live) \<and>
        agree_on (covered live) (kmem (snd x')) (kmem (snd x))"
      using slab_allocate_correct [OF inv(1), of kal] assms inv(3) by (simp add: slab_request_def)
  next
    case False
    then obtain a' m' rs' fl' where al: "x' = (a', (snd x)\<lparr>kmem := m'\<rparr>)" "one_less (fst x) a'"
      and r: "slab_inv a' m' rs' fl' ((p, unat bs) # live)" "taken bs (kmem (snd x)) rs fl p m' rs' fl'"
      using slab_allocate_correct [OF inv(1), of kal] inv assms(2) by (auto simp: slab_request_def)
    then show "slab_block_inv bs x' (if p = 0 then live else (p, unat bs) # live) \<and>
        agree_on (covered live) (kmem (snd x')) (kmem (snd x))"
      using slab_live_agree [OF inv(1)] inv(2,3) by (auto simp: slab_block_inv_def one_less_def taken_def)
  qed
qed

lemma slab_inv_perm: "slab_inv a m rs fl live \<Longrightarrow> mset live = mset live' \<Longrightarrow> slab_inv a m rs fl live'"
  using all_apart_perm [of "slab_ranges (block_size a) m rs fl @ live" "slab_ranges (block_size a) m rs fl @ live'"]
  by (simp add: slab_inv_def)

interpretation slab: block_source "slab_block_inv bs" "\<lambda>r x. True" "slab_request kal" "\<lambda>r. unat bs"
    "\<lambda>x. kmem (snd x)" for bs and kal :: "u64 \<Rightarrow> u64 \<Rightarrow> 'a machine_scheme \<Rightarrow> halt + allocation \<times> 'a machine_scheme"
proof unfold_locales
  fix x x' :: "slab_alloc \<times> 'a machine_scheme" and live live' :: "(addr \<times> nat) list" and r :: unit and p
  show "slab_block_inv bs x live \<Longrightarrow> all_apart live"
    by (auto simp: slab_block_inv_def slab_inv_def all_apart_append)
  show "slab_block_inv bs x live \<Longrightarrow> mset live = mset live' \<Longrightarrow> slab_block_inv bs x live'"
    using slab_inv_perm by (fastforce simp: slab_block_inv_def)
  show "slab_block_inv bs x live \<Longrightarrow> True \<Longrightarrow> slab_request kal r x = Inr (p, x') \<Longrightarrow>
      slab_block_inv bs x' (if p = 0 then live else (p, unat bs) # live)"
    by (rule slab_request_correct)
  show "slab_block_inv bs x live \<Longrightarrow> True \<Longrightarrow> slab_request kal r x = Inr (p, x') \<Longrightarrow>
      agree_on (covered live) (kmem (snd x')) (kmem (snd x))"
    by (rule slab_request_correct)
qed simp

text \<open>
  However many blocks are taken one after the other from an arena that does not refill itself,
  those it handed out touch neither each other nor what was live before.
\<close>

theorem slab_run_apart:
  assumes "slab_inv a (kmem s) rs fl live" and "\<not> auto_refill a"
    and "alloc_run (slab_request kal) us (a, s) = Inr (ps, a', s')"
  shows "all_apart (blocks (\<lambda>_. unat (block_size a)) us ps @ live) \<and> length ps = length us \<and>
    agree_on (covered live) (kmem s') (kmem s)"
proof -
  have i: "slab_block_inv (block_size a) (a, s) live" using assms(1,2) by (auto simp: slab_block_inv_def)
  show ?thesis using slab.run_blocks [OF i _ assms(3)] slab.run_apart [OF i _ assms(3)] by simp
qed

section \<open>The theorems at concrete states\<close>

text \<open>A machine with a given memory, and an arena of 64-byte blocks that was given a page.\<close>

definition idle_machine :: "mem \<Rightarrow> machine" where
  "idle_machine m = \<lparr>kmem = m, io_inputs = (\<lambda>_. 0), io_events = [], uart_base_address = 0, put = None, print_buf = []\<rparr>"

lemma kmem_idle_machine [simp]: "kmem (idle_machine m) = m"
  by (simp add: idle_machine_def)

abbreviation no_kalloc :: "u64 \<Rightarrow> u64 \<Rightarrow> machine \<Rightarrow> halt + allocation \<times> machine" where
  "no_kalloc \<equiv> \<lambda>_ _ _. Inl Unreachable"

lemma page_arena:
  obtains a m rs where "slab_grow (slab_init 64) 0x10000 0x1000 (\<lambda>_. 0) = Inr (a, m)" and "slab_inv a m rs [] []"
    and "block_size a = 64" and "free_blocks a \<noteq> 0" and "\<not> auto_refill a"
proof -
  have i: "slab_inv (slab_init 64) (\<lambda>_. 0) [] [] []"
    by (rule slab_inv_init) (simp_all add: slab_init_def SLAB_BLOCK_SIZE_def)
  have b: "block_size (slab_init 64) = 64" by (simp add: slab_init_def SLAB_BLOCK_SIZE_def)
  define nb where "nb = (slab_last 0x10000 0x1000 64 - slab_first 0x10000 64) div 64"
  obtain c m rs where
    "slab_grow (slab_init 64) 0x10000 0x1000 (\<lambda>_. 0) = Inr (slab_init 64\<lparr>free_blocks := free_blocks (slab_init 64) + nb,
        total_blocks := total_blocks (slab_init 64) + nb, current_region := c\<rparr>, m)"
    "slab_inv (slab_init 64\<lparr>free_blocks := free_blocks (slab_init 64) + nb,
        total_blocks := total_blocks (slab_init 64) + nb, current_region := c\<rparr>) m rs [] []"
    "0 < unat nb"
    using slab_grow_correct [OF i, of "0x10000" "0x1000"] by (auto simp: b nb_def slab_ranges_def)
  moreover have "free_blocks (slab_init 64) = 0" "\<not> auto_refill (slab_init 64)" by (simp_all add: slab_init_def)
  ultimately show thesis using that b by (auto simp: unat_gt_0)
qed

theorem slab_allocate_safe_witness:
  "\<exists>a m. slab_grow (slab_init 64) 0x10000 0x1000 (\<lambda>_. 0) = Inr (a, m) \<and>
    (case slab_allocate no_kalloc a (idle_machine m) of Inl h \<Rightarrow> False
     | Inr (p, a', s') \<Rightarrow> p \<noteq> 0 \<and> kmem s' ` extent p 64 \<subseteq> {0})"
proof -
  obtain a m rs where a: "slab_grow (slab_init 64) 0x10000 0x1000 (\<lambda>_. 0) = Inr (a, m)" "slab_inv a m rs [] []"
    "block_size a = 64" "free_blocks a \<noteq> 0" "\<not> auto_refill a" by (rule page_arena)
  show ?thesis
    using slab_allocate_safe [of a "idle_machine m" rs "[]" "[]" no_kalloc] a by (auto split: sum.splits if_splits)
qed

theorem slab_free_allocate_roundtrip_witness:
  "\<exists>a p m. p \<noteq> 0 \<and> (case slab_free a p m of Inl h \<Rightarrow> False
    | Inr (err, a', m') \<Rightarrow> slab_allocate no_kalloc a' (idle_machine m') =
        Inr (p, a, idle_machine (memzero m' p (block_size a))))"
proof -
  obtain a m rs where a: "slab_inv a m rs [] []" "block_size a = 64" "free_blocks a \<noteq> 0" "\<not> auto_refill a"
    by (rule page_arena)
  then obtain p a' m' rs' fl' where p: "one_less a a'" "slab_inv a' m' rs' fl' [(p, 64)]"
      "taken 64 m rs [] p m' rs' fl'"
    using slab_allocate_correct [of a "idle_machine m" rs "[]" "[]" no_kalloc] by auto
  then have "p \<noteq> 0" by (simp add: taken_def)
  have "block_size a' = 64" using p(1) \<open>block_size a = 64\<close> by (simp add: one_less_def)
  then show ?thesis
    using slab_free_allocate_roundtrip [of a' "idle_machine m'" rs' fl' p "[]" no_kalloc] p \<open>p \<noteq> 0\<close>
    by (intro exI [of _ a'] exI [of _ p] exI [of _ m']) (auto simp: idle_machine_def split: sum.splits)
qed

theorem slab_grow_keeps_arena_witness:
  "case slab_grow (slab_init 64) 0x10000 0x1000 (\<lambda>_. 0) of Inl h \<Rightarrow> False
   | Inr (a', m') \<Rightarrow> (\<exists>rs'. slab_inv a' m' rs' [] []) \<and> unat (free_blocks a') = 63"
proof -
  have i: "slab_inv (slab_init 64) (\<lambda>_. 0) [] [] []"
    by (rule slab_inv_init) (simp_all add: slab_init_def SLAB_BLOCK_SIZE_def)
  show ?thesis
    using slab_grow_keeps_arena [OF i, of "0x10000" "0x1000"]
    by (cases "slab_grow (slab_init 64) 0x10000 0x1000 (\<lambda>_. 0)") (simp_all add: slab_init_def SLAB_BLOCK_SIZE_def slab_ranges_def slab_last_def slab_first_def
        sizeof_slab_region_def ALIGN_UP_def ALIGN_DOWN_def split: prod.splits)
qed

theorem slab_run_apart_witness:
  "\<exists>a m ps a' s'. slab_grow (slab_init 64) 0x10000 0x1000 (\<lambda>_. 0) = Inr (a, m) \<and>
     alloc_run (slab_request no_kalloc) [()] (a, idle_machine m) = Inr (ps, a', s') \<and>
     all_apart (blocks (\<lambda>_. 64) [()] ps)"
proof -
  obtain a m rs where a: "slab_grow (slab_init 64) 0x10000 0x1000 (\<lambda>_. 0) = Inr (a, m)" "slab_inv a m rs [] []"
    "block_size a = 64" "free_blocks a \<noteq> 0" "\<not> auto_refill a" by (rule page_arena)
  obtain p a' s' where "slab_allocate no_kalloc a (idle_machine m) = Inr (p, a', s')"
    using slab_allocate_correct [of a "idle_machine m" rs "[]" "[]" no_kalloc] a by auto
  then have run: "alloc_run (slab_request no_kalloc) [()] (a, idle_machine m) = Inr ([p], a', s')"
    by (simp add: slab_request_def)
  show ?thesis
    using slab_run_apart [OF _ _ run, of rs "[]" "[]"] a run by fastforce
qed

text \<open>24-byte blocks, as \<^verbatim>\<open>struct device_tree_phandle_map\<close> has: 169 of them leave 8 bytes of the page.\<close>

definition tail_region :: mem where
  "tail_region = store64 (store64 (\<lambda>_. 0) 0x10000 0x10FF8) 0x10008 0x11000"

theorem slab_refill_overruns_region_witness:
  "\<exists>a' s'. slab_allocate (\<lambda>_ _ s. Inr (\<lparr>alloc_buffer = 0x20000, alloc_size = PAGE_SIZE\<rparr>, s))
     (slab_autorefill_init 24\<lparr>current_region := 0x10000, total_blocks := 169\<rparr>) (idle_machine tail_region) =
       Inr (0x10FF8, a', s') \<and> 0x11000 \<in> extent (0x10FF8 :: addr) 24"
proof -
  have f: "sr_offset tail_region 0x10000 = 0x10FF8" "sr_end tail_region 0x10000 = 0x11000"
    "sr_next tail_region 0x10000 = 0"
    by (simp_all add: tail_region_def sr_offset_def sr_end_def sr_next_def load64_store64_other load64_zero)
  show ?thesis
    using slab_refill_overruns_region [of "slab_autorefill_init 24\<lparr>current_region := 0x10000, total_blocks := 169\<rparr>"
        "0x10000" "idle_machine tail_region"
        "\<lambda>_ _ s. Inr (\<lparr>alloc_buffer = 0x20000, alloc_size = PAGE_SIZE\<rparr>, s)" "0x20000" "idle_machine tail_region"] f
    by (simp add: slab_autorefill_init_def SLAB_BLOCK_SIZE_def SLAB_REGION_SIZE_def sizeof_slab_region_def
        ALIGN_UP_def extent_disjoint_iff)
qed

end
