(* ===== verification/Pmm.thy ===== *)
theory Pmm
  imports Slab
begin

text \<open>
  The physical memory manager of \<^verbatim>\<open>pmm.c\<close>.  Its global variables are fields of the kernel's state;
  the free blocks of a region are 24-byte structures from its own slab allocator, with
  \<^verbatim>\<open>block_base\<close>, \<^verbatim>\<open>block_size\<close> and \<^verbatim>\<open>next\<close> at byte offsets 0, 8 and 16.  Free memory is described by
  physical addresses and reached through the higher-half direct map, at \<open>hhdm_offset\<close>.
\<close>

datatype pmm_policy = PMM_POLICY_FIRST_FIT | PMM_POLICY_BEST_FIT | PMM_POLICY_WORST_FIT | PMM_POLICY_NEXT_FIT

record pmm_memory_region =
  region_base :: u64
  region_size :: u64
  region_free_bytes :: u64
  region_free_blocks :: addr

record kernel = machine +
  hhdm_offset :: u64
  policy :: pmm_policy
  total_bytes :: u64
  free_bytes :: u64
  region_count :: u64
  regions :: "pmm_memory_region list"
  block_arena :: slab_alloc
  initial_buf :: addr

definition REGION_COUNT :: nat where
  "REGION_COUNT = 32"

definition sizeof_pmm_memory_block :: u64 where
  "sizeof_pmm_memory_block = 24"

definition pb_base :: "mem \<Rightarrow> addr \<Rightarrow> u64" where
  "pb_base m b = load64 m b"

definition pb_size :: "mem \<Rightarrow> addr \<Rightarrow> u64" where
  "pb_size m b = load64 m (b + 8)"

definition pb_next :: "mem \<Rightarrow> addr \<Rightarrow> addr" where
  "pb_next m b = load64 m (b + 16)"

definition INITIAL_BUF_SIZE :: u64 where
  "INITIAL_BUF_SIZE = SLAB_REGION_SIZE sizeof_pmm_memory_block 100"

text \<open>\<^verbatim>\<open>kernel_hhdm_phys_to_virt\<close> and its inverse, of \<^verbatim>\<open>kvspace.c\<close>.\<close>

definition kernel_hhdm_phys_to_virt :: "u64 \<Rightarrow> 'a kernel_scheme \<Rightarrow> addr" where
  "kernel_hhdm_phys_to_virt phys_addr s = hhdm_offset s + phys_addr"

definition kernel_hhdm_virt_to_phys :: "addr \<Rightarrow> 'a kernel_scheme \<Rightarrow> u64" where
  "kernel_hhdm_virt_to_phys ptr s = ptr - hhdm_offset s"

section \<open>Initialisation and regions\<close>

definition pmm_initialize :: "pmm_policy \<Rightarrow> 'a kernel_scheme \<Rightarrow> halt + 'a kernel_scheme" where
  "pmm_initialize pol s =
     and_then (with_mem (s\<lparr>policy := pol\<rparr>)
         (slab_grow (slab_init sizeof_pmm_memory_block) (initial_buf s) INITIAL_BUF_SIZE))
       (\<lambda>(arena, s). Inr (s\<lparr>block_arena := arena\<rparr>))"

text \<open>
  \<^verbatim>\<open>slab_allocate(&block_arena)\<close>: \<^verbatim>\<open>pmm_initialize\<close> switches refilling off, so \<^verbatim>\<open>kalloc\<close>, which would
  lead back here, is never called; the model halts if it were.
\<close>

definition block_allocate :: "'a kernel_scheme \<Rightarrow> halt + addr \<times> 'a kernel_scheme" where
  "block_allocate s =
     and_then (slab_allocate (\<lambda>_ _ _. Inl Unreachable) (block_arena s) s)
       (\<lambda>(p, arena, s). Inr (p, s\<lparr>block_arena := arena\<rparr>))"

definition block_free :: "addr \<Rightarrow> 'a kernel_scheme \<Rightarrow> halt + u64 \<times> 'a kernel_scheme" where
  "block_free b s =
     and_then (slab_free (block_arena s) b (kmem s))
       (\<lambda>(err, arena, m). Inr (err, s\<lparr>kmem := m, block_arena := arena\<rparr>))"

definition region_overlaps :: "u64 \<Rightarrow> pmm_memory_region \<Rightarrow> bool" where
  "region_overlaps aligned_base r \<longleftrightarrow>
     region_base r \<le> aligned_base \<and> aligned_base \<le> region_base r + region_size r"

definition pmm_add_region :: "u64 \<Rightarrow> u64 \<Rightarrow> 'a kernel_scheme \<Rightarrow> halt + u64 \<times> 'a kernel_scheme" where
  "pmm_add_region base sz s =
     (if unat (region_count s) \<ge> REGION_COUNT then Inr (ec EC_PMM_REGION_LIST_FULL, s)
      else
        let aligned_base = ALIGN_UP base PAGE_SIZE;
            aligned_size = ALIGN_DOWN (sz - (aligned_base - base)) PAGE_SIZE
        in if \<not> aligned_base + aligned_size \<le> base + sz \<or> \<not> aligned_size \<ge> PAGE_SIZE
           then Inr (ec EC_PMM_REGION_TOO_SMALL, s)
           else if list_ex (region_overlaps aligned_base) (take (unat (region_count s)) (regions s))
           then Inr (ec EC_PMM_REGION_ALREADY_MANAGED, s)
           else and_then (block_allocate s) (\<lambda>(free_block, s).
             kassert (free_block \<noteq> 0)
              (let r = \<lparr>region_base = aligned_base, region_size = aligned_size,
                        region_free_bytes = aligned_size, region_free_blocks = free_block\<rparr>;
                   m = store64 (kmem s) free_block aligned_base;
                   m = store64 m (free_block + 8) aligned_size;
                   m = store64 m (free_block + 16) 0
               in Inr (ec EC_SUCCESS,
                    s\<lparr>kmem := m, regions := (regions s)[unat (region_count s) := r],
                      region_count := region_count s + 1,
                      total_bytes := total_bytes s + aligned_size,
                      free_bytes := free_bytes s + aligned_size\<rparr>))))"

section \<open>Allocation\<close>

text \<open>The scan of one region's free blocks: the block before the first one that fits, and that one.\<close>

definition pb_fits :: "mem \<Rightarrow> u64 \<Rightarrow> u64 \<Rightarrow> addr \<Rightarrow> bool" where
  "pb_fits m aligned_size alignment b \<longleftrightarrow>
     \<not> pb_base m b + pb_size m b < ALIGN_UP (pb_base m b) alignment + aligned_size"

partial_function (option) pmm_walk :: "mem \<Rightarrow> u64 \<Rightarrow> u64 \<Rightarrow> addr \<Rightarrow> addr \<Rightarrow> (addr \<times> addr) option" where
  "pmm_walk m aligned_size alignment prev cur =
     (if cur = 0 then Some (prev, 0)
      else if \<not> pb_fits m aligned_size alignment cur
        then pmm_walk m aligned_size alignment cur (pb_next m cur)
      else Some (prev, cur))"

text \<open>Cutting the range out of block \<open>cur\<close>; the block list of region \<open>i\<close> is updated.\<close>

definition pmm_split ::
    "nat \<Rightarrow> addr \<Rightarrow> addr \<Rightarrow> u64 \<Rightarrow> u64 \<Rightarrow> 'a kernel_scheme \<Rightarrow> halt + 'a kernel_scheme" where
  "pmm_split i prev cur aligned_base aligned_size s =
     (let m = kmem s; curr_base = pb_base m cur; curr_size = pb_size m cur;
          offset = aligned_base - curr_base;
          preceeding = curr_base \<noteq> aligned_base;
          postceeding = curr_base + curr_size > aligned_base + aligned_size
      in if preceeding \<and> postceeding then
           let s = s\<lparr>kmem := store64 m (cur + 8) offset\<rparr> in
           and_then (block_allocate s) (\<lambda>(extra, s).
             kassert (extra \<noteq> 0)
               (let m = store64 (kmem s) extra (aligned_base + aligned_size);
                    m = store64 m (extra + 8) (curr_base + curr_size - (aligned_base + aligned_size));
                    m = store64 m (extra + 16) (pb_next m cur)
                in Inr (s\<lparr>kmem := m\<rparr>)))
         else if preceeding then Inr (s\<lparr>kmem := store64 m (cur + 8) offset\<rparr>)
         else if postceeding then
           let m = store64 m cur (aligned_base + aligned_size);
               m = store64 m (cur + 8) (curr_base + pb_size m cur - (aligned_base + aligned_size))
           in Inr (s\<lparr>kmem := m\<rparr>)
         else if prev = 0 then
           let s = s\<lparr>regions := (regions s)[i := (regions s ! i)\<lparr>region_free_blocks := pb_next m cur\<rparr>]\<rparr>
           in and_then (block_free cur s) (\<lambda>(err, s). kassert (error_is_ok err) (Inr s))
         else
           let s = s\<lparr>kmem := store64 m (prev + 16) (pb_next m cur)\<rparr>
           in and_then (block_free cur s) (\<lambda>(err, s). kassert (error_is_ok err) (Inr s)))"

definition pmm_take :: "nat \<Rightarrow> addr \<Rightarrow> addr \<Rightarrow> u64 \<Rightarrow> u64 \<Rightarrow> 'a kernel_scheme \<Rightarrow>
    halt + u64 \<times> 'a kernel_scheme" where
  "pmm_take i prev cur aligned_size alignment s =
     (let aligned_base = ALIGN_UP (pb_base (kmem s) cur) alignment in
      and_then (pmm_split i prev cur aligned_base aligned_size s) (\<lambda>s.
        let r = regions s ! i;
            s = s\<lparr>regions := (regions s)[i := r\<lparr>region_free_bytes := region_free_bytes r - aligned_size\<rparr>],
                  free_bytes := free_bytes s - aligned_size\<rparr>;
            s = s\<lparr>kmem := memzero (kmem s) (kernel_hhdm_phys_to_virt aligned_base s) aligned_size\<rparr>
        in Inr (aligned_base, s)))"

text \<open>The loop over the regions, from region \<open>i\<close> on; \<open>None\<close> when no block fits.\<close>

function pmm_try_regions :: "nat \<Rightarrow> u64 \<Rightarrow> u64 \<Rightarrow> 'a kernel_scheme \<Rightarrow>
    halt + u64 option \<times> 'a kernel_scheme" where
  "pmm_try_regions i aligned_size alignment s =
     (if i < unat (region_count s) then
        if i \<ge> REGION_COUNT then Inl Out_of_bounds
        else if region_free_bytes (regions s ! i) < aligned_size
          then pmm_try_regions (i + 1) aligned_size alignment s
        else case pmm_walk (kmem s) aligned_size alignment 0 (region_free_blocks (regions s ! i)) of
            None \<Rightarrow> Inl Hang
          | Some (prev, cur) \<Rightarrow>
              if cur = 0 then pmm_try_regions (i + 1) aligned_size alignment s
              else and_then (pmm_take i prev cur aligned_size alignment s) (\<lambda>(p, s). Inr (Some p, s))
      else Inr (None, s))"
  by pat_completeness auto
termination
  by (relation "measure (\<lambda>(i, aligned_size, alignment, s). unat (region_count s) - i)") simp_all

declare pmm_try_regions.simps [simp del]

text \<open>
  The out-parameter \<^verbatim>\<open>region\<close>: \<open>None\<close> when the pointer is null, otherwise the value it points to,
  before the call and after.
\<close>

definition pmm_alloc_aligned :: "u64 \<Rightarrow> u64 \<Rightarrow> u64 option \<Rightarrow> 'a kernel_scheme \<Rightarrow>
    halt + (u64 \<times> u64 option) \<times> 'a kernel_scheme" where
  "pmm_alloc_aligned sz alignment region s =
     (let aligned_size = ALIGN_UP sz PAGE_SIZE in
      if region = None then Inr ((ec EC_NULL_ARGUMENT, region), s)
      else if alignment < PAGE_SIZE \<or> alignment AND (alignment - 1) \<noteq> 0
        then Inr ((ec EC_PMM_BAD_ALIGNMENT, Some 0), s)
      else if free_bytes s < aligned_size then Inr ((ec EC_PMM_OUT_OF_MEMORY, Some 0), s)
      else if free_blocks (block_arena s) < 16 then Inl Todo_reached
      else if policy s \<noteq> PMM_POLICY_FIRST_FIT then Inl Todo_reached
      else and_then (pmm_try_regions 0 aligned_size alignment s) (\<lambda>(found, s).
        case found of
          Some p \<Rightarrow> Inr ((ec EC_SUCCESS, Some p), s)
        | None \<Rightarrow> Inr ((ec EC_PMM_OUT_OF_MEMORY, Some 0), s)))"

definition pmm_alloc_aligned_noerr :: "u64 \<Rightarrow> u64 \<Rightarrow> 'a kernel_scheme \<Rightarrow> halt + u64 \<times> 'a kernel_scheme" where
  "pmm_alloc_aligned_noerr sz alignment s =
     and_then (pmm_alloc_aligned sz alignment (Some 0) s) (\<lambda>((err, region), s).
       if err \<noteq> ec EC_SUCCESS then Inr (0, s) else Inr (the region, s))"

definition pmm_alloc :: "u64 \<Rightarrow> u64 option \<Rightarrow> 'a kernel_scheme \<Rightarrow>
    halt + (u64 \<times> u64 option) \<times> 'a kernel_scheme" where
  "pmm_alloc sz region s = pmm_alloc_aligned sz PAGE_SIZE region s"

definition pmm_alloc_noerr :: "u64 \<Rightarrow> 'a kernel_scheme \<Rightarrow> halt + u64 \<times> 'a kernel_scheme" where
  "pmm_alloc_noerr sz s = pmm_alloc_aligned_noerr sz PAGE_SIZE s"

definition pmm_free :: "u64 \<Rightarrow> 'a kernel_scheme \<Rightarrow> u64" where
  "pmm_free region s = ec EC_NOT_IMPLEMENTED"

definition pmm_free_memory :: "'a kernel_scheme \<Rightarrow> u64" where
  "pmm_free_memory s = free_bytes s"

definition pmm_total_memory :: "'a kernel_scheme \<Rightarrow> u64" where
  "pmm_total_memory s = total_bytes s"

section \<open>The invariant\<close>

text \<open>
  A free block's structure, and the virtual range through which the memory it describes is reached.
\<close>

definition pb_struct :: "addr \<Rightarrow> addr \<times> nat" where
  "pb_struct b = (b, 24)"

definition pb_image :: "u64 \<Rightarrow> mem \<Rightarrow> addr \<Rightarrow> addr \<times> nat" where
  "pb_image hh m b = (hh + pb_base m b, unat (pb_size m b))"

definition pb_ok :: "u64 \<Rightarrow> mem \<Rightarrow> addr \<Rightarrow> bool" where
  "pb_ok hh m b \<longleftrightarrow> 2 ^ 12 dvd unat (pb_base m b) \<and> 2 ^ 12 dvd unat (pb_size m b) \<and> 0 < unat (pb_size m b) \<and>
     unat hh + unat (pb_base m b) + unat (pb_size m b) < 2 ^ 64"

definition pb_sizes :: "mem \<Rightarrow> addr list \<Rightarrow> nat" where
  "pb_sizes m bs = sum_list (map (\<lambda>b. unat (pb_size m b)) bs)"

definition pmm_owned :: "u64 \<Rightarrow> mem \<Rightarrow> addr list \<Rightarrow> (addr \<times> nat) list" where
  "pmm_owned hh m bs = map pb_struct bs @ map (pb_image hh m) bs"

text \<open>
  \<open>bss\<close> are the free blocks of each region.  The block structures are live blocks of the arena; the
  arena, the structures, the free memory and the live blocks do not overlap; every free block is a
  non-empty whole number of pages; the counters are exact sums, and no region lists more free
  memory than it counts.
\<close>

definition pmm_regions_ok :: "pmm_memory_region list \<Rightarrow> mem \<Rightarrow> addr list list \<Rightarrow> bool" where
  "pmm_regions_ok rs m bss \<longleftrightarrow>
     (\<forall>i < length bss. chain 16 m (region_free_blocks (rs ! i)) (bss ! i) \<and>
        pb_sizes m (bss ! i) \<le> unat (region_free_bytes (rs ! i)))"

definition pmm_arena_ok :: "slab_alloc \<Rightarrow> u64 \<Rightarrow> mem \<Rightarrow> addr list \<Rightarrow> (addr \<times> nat) list \<Rightarrow> bool" where
  "pmm_arena_ok a hh m bs live \<longleftrightarrow> block_size a = 24 \<and> \<not> auto_refill a \<and>
     (\<exists>srs sfl. slab_inv a m srs sfl (pmm_owned hh m bs @ live)) \<and> (\<forall>b \<in> set bs. pb_ok hh m b)"

definition pmm_inv :: "'a kernel_scheme \<Rightarrow> addr list list \<Rightarrow> (addr \<times> nat) list \<Rightarrow> bool" where
  "pmm_inv s bss live \<longleftrightarrow>
     hhdm_offset s \<noteq> 0 \<and> length (regions s) = REGION_COUNT \<and> length bss \<le> REGION_COUNT \<and>
     unat (region_count s) = length bss \<and>
     pmm_arena_ok (block_arena s) (hhdm_offset s) (kmem s) (concat bss) live \<and>
     pmm_regions_ok (regions s) (kmem s) bss \<and>
     unat (free_bytes s) = (\<Sum>i < length bss. unat (region_free_bytes (regions s ! i)))"

lemma pmm_owned_apart:
  assumes "pmm_arena_ok a hh m bs live"
  shows "all_apart (pmm_owned hh m bs @ live)" and "all_apart (map pb_struct bs)"
  using assms by (auto simp: pmm_arena_ok_def slab_inv_def pmm_owned_def all_apart_append)

lemma structs_apart:
  "all_apart (map pb_struct bs) \<Longrightarrow> b \<in> set bs \<Longrightarrow> c \<in> set bs \<Longrightarrow> b = c \<or> extent b 24 \<inter> extent c 24 = {}"
  by (induction bs) (auto simp: pb_struct_def apart_pair)

lemma structs_distinct: "all_apart (map pb_struct bs) \<Longrightarrow> distinct bs"
proof (induction bs)
  case (Cons b bs)
  have "extent b 24 \<noteq> {}" by (metis empty_iff extent_self zero_less_numeral)
  then have "b \<notin> set bs" using Cons.prems by (auto simp: pb_struct_def apart_pair)
  then show ?case using Cons by simp
qed simp

section \<open>Which block fits\<close>

text \<open>
  A request for \<open>asz\<close> bytes at alignment \<open>2 ^ k\<close> does not wrap around when both are small against
  the higher-half offset.
\<close>

definition pmm_request_ok :: "u64 \<Rightarrow> nat \<Rightarrow> u64 \<Rightarrow> bool" where
  "pmm_request_ok hh k asz \<longleftrightarrow> 12 \<le> k \<and> k < 64 \<and> 2 ^ k + unat asz \<le> unat hh \<and> 2 ^ 12 dvd unat asz"

lemma pb_fits_nat:
  assumes "pb_ok hh m b" and "pmm_request_ok hh k asz"
  defines "p \<equiv> ALIGN_UP (pb_base m b) (2 ^ k)"
  shows "unat (pb_base m b) \<le> unat p" and "2 ^ k dvd unat p" and "unat (p + asz) = unat p + unat asz"
    and "unat (pb_base m b + pb_size m b) = unat (pb_base m b) + unat (pb_size m b)"
    and "pb_fits m asz (2 ^ k) b \<longleftrightarrow> unat p + unat asz \<le> unat (pb_base m b) + unat (pb_size m b)"
proof -
  have h: "unat hh + unat (pb_base m b) + unat (pb_size m b) < 2 ^ 64" using assms(1) by (simp add: pb_ok_def)
  have k: "k < 64" "2 ^ k + unat asz \<le> unat hh" using assms(2) by (simp_all add: pmm_request_ok_def)
  have nw: "unat (pb_base m b) + (2 ^ k - 1) < 2 ^ 64" using h k(2) by linarith
  show lo: "unat (pb_base m b) \<le> unat p" unfolding p_def by (rule ALIGN_UP_pow2_bounds(1) [OF k(1) nw])
  have hi: "unat p < unat (pb_base m b) + 2 ^ k" unfolding p_def by (rule ALIGN_UP_pow2_bounds(2) [OF k(1) nw])
  show "2 ^ k dvd unat p" unfolding p_def by (rule ALIGN_UP_pow2_dvd)
  show s: "unat (p + asz) = unat p + unat asz" using hi h k(2) by (intro unat_add_eq) linarith
  show e: "unat (pb_base m b + pb_size m b) = unat (pb_base m b) + unat (pb_size m b)"
    using h by (intro unat_add_eq) linarith
  show "pb_fits m asz (2 ^ k) b \<longleftrightarrow> unat p + unat asz \<le> unat (pb_base m b) + unat (pb_size m b)"
    using s e by (simp add: pb_fits_def word_less_nat_alt not_less flip: p_def)
qed

lemma pmm_walk_correct:
  "chain 16 m cur bs \<Longrightarrow>
   (if \<exists>b \<in> set bs. pb_fits m asz al b
    then \<exists>xs c ys. bs = xs @ c # ys \<and> pb_fits m asz al c \<and> (\<forall>x \<in> set xs. \<not> pb_fits m asz al x) \<and>
      pmm_walk m asz al prev cur = Some (last (prev # xs), c)
    else \<exists>prev'. pmm_walk m asz al prev cur = Some (prev', 0))"
proof (induction bs arbitrary: cur prev)
  case Nil
  then show ?case by (simp add: pmm_walk.simps)
next
  case (Cons b bs)
  then have b: "cur = b" "b \<noteq> 0" and tl: "chain 16 m (pb_next m b) bs"
    by (auto simp: chain_Cons pb_next_def)
  show ?case
  proof (cases "pb_fits m asz al b")
    case True
    then have "pmm_walk m asz al prev cur = Some (prev, b)" using b by (simp add: pmm_walk.simps)
    then have "\<exists>xs c ys. b # bs = xs @ c # ys \<and> pb_fits m asz al c \<and> (\<forall>x \<in> set xs. \<not> pb_fits m asz al x) \<and>
        pmm_walk m asz al prev cur = Some (last (prev # xs), c)"
      using True by - (rule exI [of _ "[]"], rule exI [of _ b], rule exI [of _ bs], simp)
    then show ?thesis using True by simp
  next
    case False
    then have e: "pmm_walk m asz al prev cur = pmm_walk m asz al b (pb_next m b)"
      using b by (subst pmm_walk.simps) simp
    show ?thesis
    proof (cases "\<exists>x \<in> set bs. pb_fits m asz al x")
      case True
      then obtain xs c ys where "bs = xs @ c # ys" "pb_fits m asz al c" "\<forall>x \<in> set xs. \<not> pb_fits m asz al x"
        "pmm_walk m asz al b (pb_next m b) = Some (last (b # xs), c)"
        using Cons.IH [OF tl, of b] by auto
      then have "\<exists>xs c ys. b # bs = xs @ c # ys \<and> pb_fits m asz al c \<and> (\<forall>x \<in> set xs. \<not> pb_fits m asz al x) \<and>
          pmm_walk m asz al prev cur = Some (last (prev # xs), c)"
        using False e by - (rule exI [of _ "b # xs"], rule exI [of _ c], rule exI [of _ ys], simp)
      then show ?thesis using True by simp
    next
      case none: False
      then show ?thesis using Cons.IH [OF tl, of b] False e by auto
    qed
  qed
qed

section \<open>Writes to one block structure\<close>

lemma pb_fields_agree:
  assumes "agree_on A m' m" and "extent b 24 \<subseteq> A"
  shows "pb_base m' b = pb_base m b" and "pb_size m' b = pb_size m b" and "pb_next m' b = pb_next m b"
    and "pb_image hh m' b = pb_image hh m b" and "pb_ok hh m' b = pb_ok hh m b"
proof -
  have "extent b 8 \<subseteq> A" "extent (b + 8) 8 \<subseteq> A" "extent (b + 16) 8 \<subseteq> A"
    using assms(2) extent_mono [of 8 24 b] extent_field [of 8 8 24 b] extent_field [of 16 8 24 b] by auto
  then have "load64 m' b = load64 m b" "load64 m' (b + 8) = load64 m (b + 8)"
      "load64 m' (b + 16) = load64 m (b + 16)"
    using load64_agree [OF assms(1)] by blast+
  then show "pb_base m' b = pb_base m b" "pb_size m' b = pb_size m b" "pb_next m' b = pb_next m b"
      "pb_image hh m' b = pb_image hh m b" "pb_ok hh m' b = pb_ok hh m b"
    by (simp_all add: pb_base_def pb_size_def pb_next_def pb_image_def pb_ok_def)
qed

lemma owned_agree:
  assumes "agree_on A m' m" and "\<forall>b \<in> set bs. extent b 24 \<subseteq> A"
  shows "pmm_owned hh m' bs = pmm_owned hh m bs" and "pb_sizes m' bs = pb_sizes m bs"
    and "chain 16 m' p bs = chain 16 m p bs" and "(\<forall>b \<in> set bs. pb_ok hh m' b) = (\<forall>b \<in> set bs. pb_ok hh m b)"
proof -
  have same: "pb_size m' b = pb_size m b" "pb_next m' b = pb_next m b" "pb_image hh m' b = pb_image hh m b"
      "pb_ok hh m' b = pb_ok hh m b" if "b \<in> set bs" for b
    using pb_fields_agree [OF assms(1)] assms(2) that by blast+
  show "pmm_owned hh m' bs = pmm_owned hh m bs" "pb_sizes m' bs = pb_sizes m bs"
    using same by (simp_all add: pmm_owned_def pb_sizes_def cong: map_cong)
  show "chain 16 m' p bs = chain 16 m p bs"
    using same(2) by (intro chain_cong) (simp add: pb_next_def)
  show "(\<forall>b \<in> set bs. pb_ok hh m' b) = (\<forall>b \<in> set bs. pb_ok hh m b)" using same by simp
qed

lemma block_store_agree: "unat i + 8 \<le> 24 \<Longrightarrow> agree_on (- extent b 24) (store64 m (b + i) v) m"
  using extent_field [of i 8 24 b] by (intro store64_agree) auto

lemma block_other_agree:
  assumes "extent b 24 \<inter> extent c 24 = {}" and "agree_on (- extent c 24) m' m"
  shows "agree_on (extent b 24) m' m"
  using assms by (auto intro: agree_on_mono)

lemma slab_inv_live: "slab_inv a m rs fl live \<Longrightarrow>
    all_apart (slab_ranges (block_size a) m rs fl @ live') \<Longrightarrow> slab_inv a m rs fl live'"
  by (simp add: slab_inv_def)

lemma slab_inv_Cons:
  assumes "slab_inv a m rs fl (x # live)"
  shows "extent (fst x) (snd x) \<inter> covered (slab_ranges (block_size a) m rs fl @ live) = {}"
    and "slab_inv a m rs fl live"
proof -
  have "all_apart (x # slab_ranges (block_size a) m rs fl @ live)"
    by (rule all_apart_perm [of "slab_ranges (block_size a) m rs fl @ x # live"])
      (use assms in \<open>simp_all add: slab_inv_def\<close>)
  then show "extent (fst x) (snd x) \<inter> covered (slab_ranges (block_size a) m rs fl @ live) = {}"
      "slab_inv a m rs fl live"
    by (simp_all only: all_apart_Cons_covered slab_inv_live [OF assms])
qed

lemma slab_inv_block_write:
  assumes inv: "slab_inv a m rs fl ((c, n) # live)" and ag: "agree_on (- extent c n) m' m"
  shows "slab_inv a m' rs fl ((c, n) # live)" and "slab_ranges (block_size a) m' rs fl = slab_ranges (block_size a) m rs fl"
    and "agree_on (covered live) m' m"
proof -
  note sep = slab_inv_Cons(1) [OF inv, unfolded fst_conv snd_conv]
  have "agree_on (covered (slab_ranges (block_size a) m rs fl)) m' m"
    using sep by (intro agree_on_mono [OF ag]) auto
  from slab_inv_agree [OF inv this]
  show "slab_inv a m' rs fl ((c, n) # live)" "slab_ranges (block_size a) m' rs fl = slab_ranges (block_size a) m rs fl"
    by blast+
  show "agree_on (covered live) m' m" using sep by (intro agree_on_mono [OF ag]) auto
qed

lemma owned_perm: "mset bs = mset bs' \<Longrightarrow> mset (pmm_owned hh m bs) = mset (pmm_owned hh m bs')"
  by (simp add: pmm_owned_def)

lemma owned_Cons: "mset (pmm_owned hh m (b # bs)) = mset (pb_struct b # pb_image hh m b # pmm_owned hh m bs)"
  by (simp add: pmm_owned_def)

text \<open>Rewriting a block so that it describes a part of its range, which gives up another part.\<close>

lemma pmm_resize:
  assumes ok: "pmm_arena_ok a hh m (c # bs) live" and ag: "agree_on (- extent c 24) m' m"
    and new: "pb_ok hh m' c"
    and sub: "extent (fst (pb_image hh m' c)) (snd (pb_image hh m' c)) \<subseteq> extent (fst (pb_image hh m c)) (snd (pb_image hh m c))"
      "extent q n \<subseteq> extent (fst (pb_image hh m c)) (snd (pb_image hh m c))"
      "extent (fst (pb_image hh m' c)) (snd (pb_image hh m' c)) \<inter> extent q n = {}"
  shows "pmm_arena_ok a hh m' (c # bs) ((q, n) # live)" and "agree_on (covered live) m' m"
    and "\<forall>b \<in> set bs. extent b 24 \<subseteq> - extent c 24"
proof -
  obtain srs sfl where inv: "slab_inv a m srs sfl (pmm_owned hh m (c # bs) @ live)"
    and a: "block_size a = 24" "\<not> auto_refill a" and pok: "\<forall>b \<in> set bs. pb_ok hh m b"
    using ok by (auto simp: pmm_arena_ok_def)
  have inv': "slab_inv a m srs sfl ((c, 24) # pb_image hh m c # pmm_owned hh m bs @ live)"
    by (rule slab_inv_perm [OF inv]) (simp add: pmm_owned_def pb_struct_def)
  note w = slab_inv_block_write [OF inv' ag]
  have "all_apart (map pb_struct (c # bs))" by (rule pmm_owned_apart(2) [OF ok])
  then show out: "\<forall>b \<in> set bs. extent b 24 \<subseteq> - extent c 24"
    by (fastforce simp: pb_struct_def apart_pair)
  note same = owned_agree [OF ag out]
  show "agree_on (covered live) m' m" using w(3) by (rule agree_on_mono) auto
  let ?R = "slab_ranges (block_size a) m' srs sfl"
  have "all_apart (?R @ (c, 24) # pb_image hh m c # pmm_owned hh m bs @ live)"
    using w(1) by (simp add: slab_inv_def)
  then have "all_apart ((fst (pb_image hh m c), snd (pb_image hh m c)) # ?R @ (c, 24) # pmm_owned hh m bs @ live)"
    by (rule all_apart_perm) simp
  from all_apart_carve [OF this sub(1,2,3)]
  have "all_apart (?R @ pmm_owned hh m' (c # bs) @ (q, n) # live)"
    by (rule all_apart_perm) (simp add: owned_Cons same(1) pb_struct_def)
  then have "slab_inv a m' srs sfl (pmm_owned hh m' (c # bs) @ (q, n) # live)"
    by (rule slab_inv_live [OF w(1)])
  then show "pmm_arena_ok a hh m' (c # bs) ((q, n) # live)"
    using a pok new same(4) by (auto simp: pmm_arena_ok_def)
qed

lemma pmm_arena_perm:
  assumes "pmm_arena_ok a hh m bs live" and "mset bs = mset bs'" and "mset live = mset live'"
  shows "pmm_arena_ok a hh m bs' live'"
proof -
  obtain srs sfl where "slab_inv a m srs sfl (pmm_owned hh m bs @ live)"
    using assms(1) by (auto simp: pmm_arena_ok_def)
  then have "slab_inv a m srs sfl (pmm_owned hh m bs' @ live')"
    by (rule slab_inv_perm) (simp add: owned_perm [OF assms(2)] assms(3))
  then show ?thesis using assms(1) mset_eq_setD [OF assms(2)] by (auto simp: pmm_arena_ok_def)
qed

lemma pmm_arena_drop:
  assumes "pmm_arena_ok a hh m bs (x # live)"
  shows "pmm_arena_ok a hh m bs live"
proof -
  obtain srs sfl where inv: "slab_inv a m srs sfl (pmm_owned hh m bs @ x # live)"
    using assms by (auto simp: pmm_arena_ok_def)
  have "slab_inv a m srs sfl (x # pmm_owned hh m bs @ live)" by (rule slab_inv_perm [OF inv]) simp
  then have "slab_inv a m srs sfl (pmm_owned hh m bs @ live)" by (rule slab_inv_Cons)
  then show ?thesis using assms by (auto simp: pmm_arena_ok_def)
qed

section \<open>The block structures' allocator\<close>

text \<open>
  A new structure \<open>e\<close>, and any memory that differs from the one left by the allocator only in it.
\<close>

lemma block_allocate_correct:
  assumes ok: "pmm_arena_ok (block_arena s) hh (kmem s) bs live" and free: "free_blocks (block_arena s) \<noteq> 0"
  shows "\<exists>e a m. block_allocate s = Inr (e, s\<lparr>kmem := m, block_arena := a\<rparr>) \<and> e \<noteq> 0 \<and>
    free_blocks a = free_blocks (block_arena s) - 1 \<and> extent e 24 \<inter> covered (map pb_struct bs) = {} \<and>
    agree_on (covered (pmm_owned hh (kmem s) bs @ live)) m (kmem s) \<and>
    (\<forall>m'. agree_on (- extent e 24) m' m \<longrightarrow>
      agree_on (covered (pmm_owned hh (kmem s) bs @ live)) m' (kmem s) \<and>
      pmm_owned hh m' bs = pmm_owned hh (kmem s) bs \<and>
      pmm_arena_ok a hh m' bs ((e, 24) # live))"
proof -
  let ?a = "block_arena s" and ?L = "pmm_owned hh (kmem s) bs @ live"
  obtain srs sfl where inv: "slab_inv ?a (kmem s) srs sfl ?L" and a: "block_size ?a = 24" "\<not> auto_refill ?a"
    and pok: "\<forall>b \<in> set bs. pb_ok hh (kmem s) b"
    using ok by (auto simp: pmm_arena_ok_def)
  obtain e a' m srs' sfl' where al: "slab_allocate (\<lambda>_ _ _. Inl Unreachable) ?a s = Inr (e, a', s\<lparr>kmem := m\<rparr>)"
    and l: "one_less ?a a'" and inv1: "slab_inv a' m srs' sfl' ((e, 24) # ?L)"
    and t: "taken (block_size ?a) (kmem s) srs sfl e m srs' sfl'"
    using slab_allocate_correct [OF inv, of "\<lambda>_ _ _. Inl Unreachable"] free a by auto
  have ag: "agree_on (covered ?L) m (kmem s)"
    using slab_live_agree [OF inv] t by (simp add: taken_def)
  have sep: "extent e 24 \<inter> covered ?L = {}"
    using slab_inv_Cons(1) [OF inv1] by auto
  have str: "\<forall>b \<in> set bs. extent b 24 \<subseteq> covered ?L"
    using extent_subset_covered [of _ 24 ?L] by (auto simp: pmm_owned_def pb_struct_def)
  have later: "agree_on (covered ?L) m' (kmem s) \<and> pmm_owned hh m' bs = pmm_owned hh (kmem s) bs \<and>
      pmm_arena_ok a' hh m' bs ((e, 24) # live)" if m': "agree_on (- extent e 24) m' m" for m'
  proof (intro conjI)
    note w = slab_inv_block_write [OF inv1 m']
    show ag': "agree_on (covered ?L) m' (kmem s)" by (rule agree_on_trans [OF w(3) ag])
    note same = owned_agree [OF ag' str]
    show own: "pmm_owned hh m' bs = pmm_owned hh (kmem s) bs" by (rule same(1))
    have "slab_inv a' m' srs' sfl' (pmm_owned hh m' bs @ (e, 24) # live)"
      by (rule slab_inv_perm [OF w(1)]) (simp add: own)
    then show "pmm_arena_ok a' hh m' bs ((e, 24) # live)"
      using same(4) pok l a by (auto simp: pmm_arena_ok_def one_less_def)
  qed
  have "extent e 24 \<inter> covered (map pb_struct bs) = {}" using sep by (auto simp: pmm_owned_def)
  moreover have "block_allocate s = Inr (e, s\<lparr>kmem := m, block_arena := a'\<rparr>)"
    using al by (simp add: block_allocate_def)
  moreover have "e \<noteq> 0" "free_blocks a' = free_blocks ?a - 1" using t l by (simp_all add: taken_def one_less_def)
  ultimately show ?thesis using later ag by blast
qed

lemma block_free_correct:
  assumes ok: "pmm_arena_ok (block_arena s) hh (kmem s) (c # bs) live" and c: "c \<noteq> 0"
  shows "\<exists>a m. block_free c s = Inr (0, s\<lparr>kmem := m, block_arena := a\<rparr>) \<and>
    agree_on (- extent c 24) m (kmem s) \<and> agree_on (covered live) m (kmem s) \<and>
    pmm_arena_ok a hh m bs (pb_image hh (kmem s) c # live) \<and> free_blocks (block_arena s) \<le> free_blocks a"
proof -
  let ?a = "block_arena s"
  obtain srs sfl where inv: "slab_inv ?a (kmem s) srs sfl (pmm_owned hh (kmem s) (c # bs) @ live)"
    and a: "block_size ?a = 24" "\<not> auto_refill ?a" and pok: "\<forall>b \<in> set bs. pb_ok hh (kmem s) b"
    using ok by (auto simp: pmm_arena_ok_def)
  define m where "m = store64 (kmem s) c (block_list ?a)"
  define a' where "a' = ?a\<lparr>block_list := c, free_blocks := free_blocks ?a + 1\<rparr>"
  let ?I = "pb_image hh (kmem s) c"
  have inv1: "slab_inv ?a (kmem s) srs sfl ((c, unat (block_size ?a)) # ?I # pmm_owned hh (kmem s) bs @ live)"
    by (rule slab_inv_perm [OF inv]) (simp add: owned_Cons pb_struct_def a pmm_owned_def)
  note f = slab_free_inv [OF inv1 c, folded m_def a'_def]
  have ag: "agree_on (- extent c 24) m (kmem s)" using f(3) a by simp
  have "all_apart (map pb_struct (c # bs))" by (rule pmm_owned_apart(2) [OF ok])
  then have out: "\<forall>b \<in> set bs. extent b 24 \<subseteq> - extent c 24" by (fastforce simp: pb_struct_def apart_pair)
  note same = owned_agree [OF ag out]
  have "slab_inv a' m srs (c # sfl) (pmm_owned hh m bs @ ?I # live)"
    by (rule slab_inv_perm [OF f(2)]) (simp add: same(1))
  then have "pmm_arena_ok a' hh m bs (?I # live)"
    using pok same(4) a by (auto simp: pmm_arena_ok_def a'_def)
  moreover have "block_free c s = Inr (0, s\<lparr>kmem := m, block_arena := a'\<rparr>)"
    by (simp add: block_free_def f(1))
  moreover have "agree_on (covered live) m (kmem s)"
    by (rule agree_on_mono [OF slab_inv_block_write(3) [OF inv1 f(3)]]) auto
  moreover have "free_blocks ?a \<le> free_blocks a'"
  proof -
    have "0 < unat (free_blocks ?a + 1)" using f(2) by (simp add: slab_inv_def a'_def)
    then have "1 + free_blocks ?a \<noteq> 0" by (auto simp: add.commute)
    then have "unat (free_blocks ?a + 1) = unat (free_blocks ?a) + 1" using unatSuc [of "free_blocks ?a"] by (simp add: add.commute)
    then show ?thesis by (simp add: a'_def word_le_nat_alt)
  qed
  ultimately show ?thesis using ag by blast
qed

section \<open>The lists of free blocks\<close>

lemma concat_nth_set: "j < length bss \<Longrightarrow> set (bss ! j) \<subseteq> set (concat bss)"
  by (auto intro: nth_mem)

lemma concat_split:
  assumes "i < length bss" and "bss ! i = xs @ c # ys"
  shows "mset (concat bss) = mset (c # concat (bss[i := xs @ ys]))"
proof -
  have "bss = take i bss @ (xs @ c # ys) # drop (Suc i) bss"
    using id_take_nth_drop [OF assms(1)] assms(2) by simp
  then have "mset (concat bss) = mset (concat (take i bss @ (xs @ c # ys) # drop (Suc i) bss))" by simp
  then show ?thesis using assms(1) by (simp add: upd_conv_take_nth_drop)
qed

lemma distinct_concat_nth:
  assumes "distinct (concat bss)" and "i < length bss" and "j < length bss" and "i \<noteq> j"
  shows "set (bss ! i) \<inter> set (bss ! j) = {}"
  using assms
proof (induction bss arbitrary: i j)
  case (Cons bs bss)
  then show ?case
  proof (cases i; cases j)
    fix j' assume "i = 0" "j = Suc j'"
    then show ?case using Cons.prems concat_nth_set [of j' bss] by auto
  next
    fix i' assume "i = Suc i'" "j = 0"
    then show ?case using Cons.prems concat_nth_set [of i' bss] by auto
  qed auto
qed simp

lemma lists_resized:
  assumes dist: "distinct (concat bss)" and i: "i < length bss" "bss ! i = xs @ c # ys"
    and same: "\<forall>b \<in> set (concat bss). pb_next m' b = pb_next m b \<and> (b \<noteq> c \<longrightarrow> pb_size m' b = pb_size m b)"
    and sz: "unat (pb_size m' c) + n \<le> unat (pb_size m c)" and j: "j < length bss"
  shows "chain 16 m' q (bss ! j) = chain 16 m q (bss ! j)"
    and "pb_sizes m' (bss ! j) + (if j = i then n else 0) \<le> pb_sizes m (bss ! j)"
    and "unat (pb_size m' c) + n = unat (pb_size m c) \<Longrightarrow> pb_sizes m' (bss ! j) + (if j = i then n else 0) = pb_sizes m (bss ! j)"
proof -
  have sub: "set (bss ! j) \<subseteq> set (concat bss)" by (rule concat_nth_set [OF j])
  then show "chain 16 m' q (bss ! j) = chain 16 m q (bss ! j)"
    using same by (intro chain_cong) (auto simp: pb_next_def)
  have sz': "unat (pb_size m' b) = unat (pb_size m b)" if "b \<in> set (bss ! j)" "b \<noteq> c" for b
    using bspec [OF same subsetD [OF sub that(1)]] that(2) by simp
  have "pb_sizes m' (bss ! j) + (if j = i then n else 0) \<le> pb_sizes m (bss ! j) \<and>
    (unat (pb_size m' c) + n = unat (pb_size m c) \<longrightarrow> pb_sizes m' (bss ! j) + (if j = i then n else 0) = pb_sizes m (bss ! j))"
  proof (cases "j = i")
    case False
    then have "c \<notin> set (bss ! j)" using distinct_concat_nth [OF dist i(1) j] i(2) by auto
    then have "pb_sizes m' (bss ! j) = pb_sizes m (bss ! j)"
      using sz' unfolding pb_sizes_def by (intro arg_cong [of _ _ sum_list] map_cong) auto
    then show ?thesis using False by simp
  next
    case True
    have "distinct (bss ! i)" using dist i(1) by (simp add: distinct_concat_iff)
    then have "c \<notin> set xs" "c \<notin> set ys" by (simp_all add: i(2))
    then have "pb_sizes m' xs = pb_sizes m xs" "pb_sizes m' ys = pb_sizes m ys"
      using sz' True unfolding pb_sizes_def by (intro arg_cong [of _ _ sum_list] map_cong; auto simp: i(2))+
    then show ?thesis using sz True by (simp add: i(2) pb_sizes_def)
  qed
  then show "pb_sizes m' (bss ! j) + (if j = i then n else 0) \<le> pb_sizes m (bss ! j)"
    "unat (pb_size m' c) + n = unat (pb_size m c) \<Longrightarrow> pb_sizes m' (bss ! j) + (if j = i then n else 0) = pb_sizes m (bss ! j)"
    by simp_all
qed

text \<open>Unlinking a block from its list.\<close>

lemma chain_unlink:
  assumes "chain 16 m p (xs @ c # ys)" and "xs \<noteq> []"
    and "\<forall>b \<in> set (xs @ c # ys). b = last xs \<or> extent (last xs) 24 \<inter> extent b 24 = {}"
    and "distinct (xs @ c # ys)"
  shows "chain 16 (store64 m (last xs + 16) (pb_next m c)) p (xs @ ys)"
proof -
  obtain zs d where xs: "xs = zs @ [d]" using assms(2) by (metis append_butlast_last_id)
  let ?m = "store64 m (d + 16) (pb_next m c)"
  have nx: "load64 ?m (b + 16) = load64 m (b + 16)" if "b \<in> set (zs @ ys)" for b
  proof (rule load64_store64_fields [of d 24 b 24])
    have "b \<noteq> d" using that assms(4) by (auto simp: xs)
    then show "extent d 24 \<inter> extent b 24 = {}" using assms(3) that by (auto simp: xs)
  qed simp_all
  obtain r where r: "segment 16 m p zs r" "chain 16 m r (d # c # ys)"
    using assms(1) by (auto simp: xs chain_append)
  have "chain 16 m (pb_next m c) ys" "d \<noteq> 0" "r = d" using r(2) by (auto simp: chain_Cons pb_next_def)
  moreover have "chain 16 ?m (pb_next m c) ys = chain 16 m (pb_next m c) ys"
    using nx by (intro chain_cong) simp
  moreover have "segment 16 ?m p zs r = segment 16 m p zs r" using nx by (intro segment_cong) simp
  ultimately have "segment 16 ?m p zs d" "chain 16 ?m d (d # ys)"
    using r(1) by (simp_all add: chain_Cons)
  then have "chain 16 ?m p (zs @ d # ys)" by (auto simp: chain_append)
  then show ?thesis by (simp add: xs)
qed

lemma pmm_next_write:
  assumes ok: "pmm_arena_ok a hh m bs live" and d: "d \<in> set bs"
  shows "pmm_arena_ok a hh (store64 m (d + 16) v) bs live"
    and "agree_on (covered live) (store64 m (d + 16) v) m"
    and "\<forall>b \<in> set bs. pb_size (store64 m (d + 16) v) b = pb_size m b \<and> pb_base (store64 m (d + 16) v) b = pb_base m b \<and>
      (b \<noteq> d \<longrightarrow> pb_next (store64 m (d + 16) v) b = pb_next m b)"
proof -
  let ?m = "store64 m (d + 16) v"
  obtain bs0 where bs: "mset bs = mset (d # bs0)"
    using d by (metis ex_mset insert_DiffM mset.simps(2) set_mset_mset)
  have ag: "agree_on (- extent d 24) ?m m" by (rule block_store_agree) simp
  have d2: "pb_base ?m d = pb_base m d" "pb_size ?m d = pb_size m d"
    by (simp_all add: pb_base_def pb_size_def load64_store64_other)
  have ok': "pmm_arena_ok a hh m (d # bs0) live" by (rule pmm_arena_perm [OF ok bs refl])
  have "pb_ok hh m d" using ok d by (simp add: pmm_arena_ok_def)
  then have new: "pb_ok hh ?m d" using d2 by (simp add: pb_ok_def)
  have im: "pb_image hh ?m d = pb_image hh m d" by (simp add: pb_image_def d2)
  note r = pmm_resize [OF ok' ag new, of 0 0, unfolded im, simplified]
  show "pmm_arena_ok a hh ?m bs live"
    by (rule pmm_arena_perm [OF pmm_arena_drop [OF r(1)]]) (simp_all add: bs)
  show "agree_on (covered live) ?m m" by (rule r(2))
  have "b = d \<or> extent b 24 \<subseteq> - extent d 24" if "b \<in> set bs" for b
    using that r(3) mset_eq_setD [OF bs] by auto
  then show "\<forall>b \<in> set bs. pb_size ?m b = pb_size m b \<and> pb_base ?m b = pb_base m b \<and>
      (b \<noteq> d \<longrightarrow> pb_next ?m b = pb_next m b)"
    using pb_fields_agree [OF ag] d2 by metis
qed

section \<open>Cutting a range out of a block\<close>

lemma image_parts:
  fixes hh B S p n :: u64
  assumes "unat hh + unat B + unat S < 2 ^ 64" and "unat B \<le> unat p" and "unat p + unat n \<le> unat B + unat S"
  shows "extent (hh + p) (unat n) \<subseteq> extent (hh + B) (unat S)"
    and "extent (hh + B) (unat (p - B)) \<subseteq> extent (hh + B) (unat S)"
    and "extent (hh + B) (unat (p - B)) \<inter> extent (hh + p) (unat n) = {}"
    and "extent (hh + (p + n)) (unat (B + S - (p + n))) \<subseteq> extent (hh + B) (unat S)"
    and "extent (hh + (p + n)) (unat (B + S - (p + n))) \<inter> extent (hh + p) (unat n) = {}"
    and "unat (p - B) = unat p - unat B" and "unat (p + n) = unat p + unat n"
    and "unat (B + S - (p + n)) = unat B + unat S - (unat p + unat n)"
proof -
  show pB: "unat (p - B) = unat p - unat B"
    using assms(2) by (intro unat_sub_eq) (simp add: word_le_nat_alt)
  show pn: "unat (p + n) = unat p + unat n" using assms by (intro unat_add_eq) linarith
  have BS: "unat (B + S) = unat B + unat S" using assms by (intro unat_add_eq) linarith
  show r: "unat (B + S - (p + n)) = unat B + unat S - (unat p + unat n)"
    using assms(3) pn BS by (subst unat_sub_eq) (simp_all add: word_le_nat_alt)
  have u: "unat (hh + B) = unat hh + unat B" "unat (hh + p) = unat hh + unat p"
    "unat (hh + (p + n)) = unat hh + unat p + unat n"
    using assms pn by (simp_all add: unat_add_eq)
  have "unat (hh + B) + unat S \<le> 2 ^ 64" unfolding u using assms(1) by linarith
  note a = extent_nowrap [OF this, unfolded u]
  have "unat (hh + p) + unat n \<le> 2 ^ 64" unfolding u using assms by linarith
  note b = extent_nowrap [OF this, unfolded u]
  have "unat (hh + B) + unat (p - B) \<le> 2 ^ 64" unfolding u pB using assms by linarith
  note c = extent_nowrap [OF this, unfolded u pB]
  have "unat (hh + (p + n)) + unat (B + S - (p + n)) \<le> 2 ^ 64" unfolding u r using assms by linarith
  note d = extent_nowrap [OF this, unfolded u r]
  show "extent (hh + p) (unat n) \<subseteq> extent (hh + B) (unat S)" using a b assms by auto
  show "extent (hh + B) (unat (p - B)) \<subseteq> extent (hh + B) (unat S)" unfolding pB using a c assms by auto
  show "extent (hh + B) (unat (p - B)) \<inter> extent (hh + p) (unat n) = {}" unfolding pB using b c by auto
  show "extent (hh + (p + n)) (unat (B + S - (p + n))) \<subseteq> extent (hh + B) (unat S)" unfolding r using a d assms by auto
  show "extent (hh + (p + n)) (unat (B + S - (p + n))) \<inter> extent (hh + p) (unat n) = {}" unfolding r using b d by auto
qed

text \<open>What the five cases of the split have in common.\<close>

definition pmm_cut_out ::
    "'a kernel_scheme \<Rightarrow> addr list list \<Rightarrow> (addr \<times> nat) list \<Rightarrow> nat \<Rightarrow> u64 \<Rightarrow> u64 \<Rightarrow> 'a kernel_scheme \<Rightarrow> addr list list \<Rightarrow> bool" where
  "pmm_cut_out s bss live i p n s' bss' \<longleftrightarrow>
     s' = s\<lparr>kmem := kmem s', block_arena := block_arena s', regions := regions s'\<rparr> \<and>
     length bss' = length bss \<and> length (regions s') = length (regions s) \<and>
     pmm_arena_ok (block_arena s') (hhdm_offset s) (kmem s') (concat bss')
       ((hhdm_offset s + p, unat n) # live) \<and>
     agree_on (covered live) (kmem s') (kmem s) \<and>
     (\<forall>j < length bss. chain 16 (kmem s') (region_free_blocks (regions s' ! j)) (bss' ! j) \<and>
        region_free_bytes (regions s' ! j) = region_free_bytes (regions s ! j) \<and>
        pb_sizes (kmem s') (bss' ! j) + (if j = i then unat n else 0) \<le> pb_sizes (kmem s) (bss ! j))"

text \<open>A range that starts where its block does is cut out without a loss and without a new descriptor.\<close>

definition pages_cut ::
    "'a kernel_scheme \<Rightarrow> addr list list \<Rightarrow> nat \<Rightarrow> nat \<Rightarrow> 'a kernel_scheme \<Rightarrow> addr list list \<Rightarrow> bool" where
  "pages_cut s bss i n s' bss' \<longleftrightarrow> free_blocks (block_arena s) \<le> free_blocks (block_arena s') \<and>
     (\<forall>j < length bss. length (bss' ! j) \<le> length (bss ! j) \<and>
        pb_sizes (kmem s') (bss' ! j) + (if j = i then n else 0) = pb_sizes (kmem s) (bss ! j))"

lemma pmm_cut_resized:
  assumes ok: "pmm_arena_ok (block_arena s) (hhdm_offset s) (kmem s) (concat bss) live"
    and ro: "pmm_regions_ok (regions s) (kmem s) bss" and i: "i < length bss" "bss ! i = xs @ c # ys"
    and ag: "agree_on (- extent c 24) m' (kmem s)" and nx: "pb_next m' c = pb_next (kmem s) c"
    and new: "pb_ok (hhdm_offset s) m' c" and sz: "unat (pb_size m' c) + unat n \<le> unat (pb_size (kmem s) c)"
    and sub: "extent (hhdm_offset s + pb_base m' c) (unat (pb_size m' c)) \<subseteq>
        extent (hhdm_offset s + pb_base (kmem s) c) (unat (pb_size (kmem s) c))"
      "extent (hhdm_offset s + p) (unat n) \<subseteq>
        extent (hhdm_offset s + pb_base (kmem s) c) (unat (pb_size (kmem s) c))"
      "extent (hhdm_offset s + pb_base m' c) (unat (pb_size m' c)) \<inter> extent (hhdm_offset s + p) (unat n) = {}"
  shows "pmm_cut_out s bss live i p n (s\<lparr>kmem := m'\<rparr>) bss"
    and "unat (pb_size m' c) + unat n = unat (pb_size (kmem s) c) \<Longrightarrow> pages_cut s bss i (unat n) (s\<lparr>kmem := m'\<rparr>) bss"
proof -
  let ?B = "concat bss" and ?rest = "concat (bss[i := xs @ ys])"
  have mB: "mset ?B = mset (c # ?rest)" by (rule concat_split [OF i])
  have ok': "pmm_arena_ok (block_arena s) (hhdm_offset s) (kmem s) (c # ?rest) live"
    by (rule pmm_arena_perm [OF ok mB refl])
  note r = pmm_resize [OF ok' ag new, of "hhdm_offset s + p" "unat n", unfolded pb_image_def fst_conv snd_conv, OF sub]
  have "pmm_arena_ok (block_arena s) (hhdm_offset s) m' ?B ((hhdm_offset s + p, unat n) # live)"
    by (rule pmm_arena_perm [OF r(1)]) (simp_all only: mB)
  moreover have "b = c \<or> extent b 24 \<subseteq> - extent c 24" if "b \<in> set ?B" for b
    using r(3) mset_eq_setD [OF mB] that by (metis insert_iff list.simps(15))
  then have "\<forall>b \<in> set ?B. pb_next m' b = pb_next (kmem s) b \<and> (b \<noteq> c \<longrightarrow> pb_size m' b = pb_size (kmem s) b)"
    using pb_fields_agree [OF ag] nx by metis
  note l = lists_resized [OF structs_distinct [OF pmm_owned_apart(2) [OF ok]] i this sz]
  ultimately show "pmm_cut_out s bss live i p n (s\<lparr>kmem := m'\<rparr>) bss"
    using r(2) l ro by (simp add: pmm_cut_out_def pmm_regions_ok_def)
  show "pages_cut s bss i (unat n) (s\<lparr>kmem := m'\<rparr>) bss" if "unat (pb_size m' c) + unat n = unat (pb_size (kmem s) c)"
    using l(3) that by (simp add: pages_cut_def)
qed

lemma pmm_cut_out_agree:
  assumes cut: "pmm_cut_out s bss live i p n s1 bss1"
    and ok: "pmm_arena_ok a (hhdm_offset s) m (concat bss1) ((hhdm_offset s + p, unat n) # live)"
    and ag: "agree_on (covered (pmm_owned (hhdm_offset s) (kmem s1) (concat bss1) @ (hhdm_offset s + p, unat n) # live)) m (kmem s1)"
  shows "pmm_cut_out s bss live i p n (s1\<lparr>kmem := m, block_arena := a\<rparr>) bss1"
proof -
  have s1: "s1 = s\<lparr>kmem := kmem s1, block_arena := block_arena s1, regions := regions s1\<rparr>"
    using cut by (simp add: pmm_cut_out_def)
  have len: "length bss1 = length bss" using cut by (simp add: pmm_cut_out_def)
  have st: "\<forall>b \<in> set (bss1 ! j). extent b 24 \<subseteq>
      covered (pmm_owned (hhdm_offset s) (kmem s1) (concat bss1) @ (hhdm_offset s + p, unat n) # live)"
    if "j < length bss" for j
    using concat_nth_set [of j bss1] that len
    by (intro ballI extent_subset_covered) (auto simp: pmm_owned_def pb_struct_def)
  have "agree_on (covered live) m (kmem s1)" by (rule agree_on_mono [OF ag]) auto
  then have "agree_on (covered live) m (kmem s)"
    using cut by (auto simp: pmm_cut_out_def intro: agree_on_trans)
  moreover have "chain 16 m q (bss1 ! j) = chain 16 (kmem s1) q (bss1 ! j)"
      "pb_sizes m (bss1 ! j) = pb_sizes (kmem s1) (bss1 ! j)" if "j < length bss" for j q
    using owned_agree [OF ag st [OF that]] by blast+
  moreover have "s1\<lparr>kmem := m, block_arena := a\<rparr> = s\<lparr>kmem := m, block_arena := a, regions := regions s1\<rparr>"
    by (subst s1) simp
  ultimately show ?thesis using cut ok by (simp add: pmm_cut_out_def)
qed

lemma pmm_cut_removed:
  assumes ok: "pmm_arena_ok (block_arena s) (hhdm_offset s) m1 (c # concat (bss[i := xs @ ys])) live"
    and i: "i < length bss" "bss ! i = xs @ c # ys" and dist: "distinct (concat bss)" and c: "c \<noteq> 0"
    and ag: "agree_on (covered live) m1 (kmem s)" and len: "length rs1 = length (regions s)"
    and ch: "\<forall>j < length bss. chain 16 m1 (region_free_blocks (rs1 ! j)) (bss[i := xs @ ys] ! j) \<and>
      region_free_bytes (rs1 ! j) = region_free_bytes (regions s ! j)"
    and sz: "\<forall>b \<in> set (concat bss). pb_size m1 b = pb_size (kmem s) b"
    and im: "pb_image (hhdm_offset s) m1 c = (hhdm_offset s + p, unat n)"
  shows "\<exists>s'. and_then (block_free c (s\<lparr>kmem := m1, regions := rs1\<rparr>))
      (\<lambda>(err, s). kassert (error_is_ok err) (Inr s)) = Inr s' \<and>
    pmm_cut_out s bss live i p n s' (bss[i := xs @ ys]) \<and> pages_cut s bss i (unat n) s' (bss[i := xs @ ys])"
proof -
  let ?bss = "bss[i := xs @ ys]"
  obtain a m where f: "block_free c (s\<lparr>kmem := m1, regions := rs1\<rparr>) =
      Inr (0, s\<lparr>kmem := m1, regions := rs1\<rparr>\<lparr>kmem := m, block_arena := a\<rparr>)"
    and ag1: "agree_on (- extent c 24) m m1" and ag2: "agree_on (covered live) m m1"
    and ok2: "pmm_arena_ok a (hhdm_offset s) m (concat ?bss) ((hhdm_offset s + p, unat n) # live)"
    and fb: "free_blocks (block_arena s) \<le> free_blocks a"
    using block_free_correct [of "s\<lparr>kmem := m1, regions := rs1\<rparr>" "hhdm_offset s" c "concat ?bss" live] ok c im
    by auto
  have "all_apart (map pb_struct (c # concat ?bss))" by (rule pmm_owned_apart(2) [OF ok])
  then have out: "\<forall>b \<in> set (concat ?bss). extent b 24 \<subseteq> - extent c 24"
    by (fastforce simp: pb_struct_def apart_pair simp del: set_concat)
  have outj: "\<forall>b \<in> set (?bss ! j). extent b 24 \<subseteq> - extent c 24" if "j < length bss" for j
    using out subsetD [OF concat_nth_set [of j ?bss]] that by (simp del: set_concat)
  have szs: "chain 16 m q (?bss ! j) = chain 16 m1 q (?bss ! j)" "pb_sizes m (?bss ! j) = pb_sizes m1 (?bss ! j)"
    if "j < length bss" for j q
    using owned_agree [OF ag1 outj [OF that]] by blast+
  moreover have sz': "pb_sizes m1 bs = pb_sizes (kmem s) bs" if "set bs \<subseteq> set (concat bss)" for bs
    unfolding pb_sizes_def using subsetD [OF that] sz
    by (intro arg_cong [of _ _ sum_list] map_cong refl) (simp del: set_concat)
  have exact: "pb_sizes m1 (?bss ! j) + (if j = i then unat n else 0) = pb_sizes (kmem s) (bss ! j)"
    if j: "j < length bss" for j
  proof (cases "j = i")
    case True
    have sub: "set (bss ! i) \<subseteq> set (concat bss)" by (rule concat_nth_set [OF i(1)])
    have "pb_size m1 c = pb_size (kmem s) c" using sz sub i(2) by (simp del: set_concat)
    moreover have "pb_sizes m1 (xs @ ys) = pb_sizes (kmem s) (xs @ ys)"
      by (rule sz') (use sub i(2) in auto)
    ultimately show ?thesis using True i im by (simp add: pb_sizes_def pb_image_def)
  next
    case False
    then show ?thesis using sz' [OF concat_nth_set [OF j]] by simp
  qed
  ultimately have "pmm_cut_out s bss live i p n (s\<lparr>kmem := m1, regions := rs1\<rparr>\<lparr>kmem := m, block_arena := a\<rparr>) ?bss"
    using ok2 ch len agree_on_trans [OF ag2 ag] eq_imp_le [OF exact] by (simp add: pmm_cut_out_def)
  moreover have "length (?bss ! j) \<le> length (bss ! j)" if "j < length bss" for j
    using i that by (cases "j = i") simp_all
  then have "pages_cut s bss i (unat n) (s\<lparr>kmem := m1, regions := rs1\<rparr>\<lparr>kmem := m, block_arena := a\<rparr>) ?bss"
    using fb exact szs by (simp add: pages_cut_def)
  ultimately show ?thesis using f error_is_ok_ec [of EC_SUCCESS] by auto
qed

lemma pmm_split_correct:
  assumes ok: "pmm_arena_ok (block_arena s) (hhdm_offset s) (kmem s) (concat bss) live"
    and ro: "pmm_regions_ok (regions s) (kmem s) bss" and i: "i < length bss" "bss ! i = xs @ c # ys"
    and rl: "length bss \<le> length (regions s)"
    and free: "free_blocks (block_arena s) \<noteq> 0" and prev: "prev = last (0 # xs)"
    and le: "unat (pb_base (kmem s) c) \<le> unat p"
      "unat p + unat n \<le> unat (pb_base (kmem s) c) + unat (pb_size (kmem s) c)"
    and dvd: "2 ^ 12 dvd unat p" "2 ^ 12 dvd unat n"
  shows "\<exists>s' bss'. pmm_split i prev c p n s = Inr s' \<and> pmm_cut_out s bss live i p n s' bss' \<and>
    (pb_base (kmem s) c \<noteq> p \<longrightarrow> bss' = bss \<and> pb_size (kmem s') c = p - pb_base (kmem s) c) \<and>
    (pb_base (kmem s) c = p \<longrightarrow> pages_cut s bss i (unat n) s' bss')"
proof -
  let ?B = "pb_base (kmem s) c" and ?S = "pb_size (kmem s) c" and ?hh = "hhdm_offset s"
  have cin: "c \<in> set (concat bss)" using concat_nth_set [OF i(1)] i(2) by auto
  have chi: "chain 16 (kmem s) (region_free_blocks (regions s ! i)) (xs @ c # ys)"
    using ro i(1) unfolding pmm_regions_ok_def i(2) [symmetric] by blast
  have c0: "c \<noteq> 0" using chain_nonnull [OF chi] by auto
  have dist: "distinct (concat bss)" by (rule structs_distinct [OF pmm_owned_apart(2) [OF ok]])
  have pok: "pb_ok ?hh (kmem s) c" using ok cin by (simp add: pmm_arena_ok_def del: set_concat)
  then have h: "unat ?hh + unat ?B + unat ?S < 2 ^ 64" by (simp add: pb_ok_def)
  note im = image_parts [OF h le]
  have BS: "unat (?B + ?S) = unat ?B + unat ?S" using h by (intro unat_add_eq) linarith
  have post: "?B + ?S > p + n \<longleftrightarrow> unat p + unat n < unat ?B + unat ?S"
    using BS im(7) by (simp add: word_less_nat_alt)
  note sub8 = block_store_agree [of 8 c, simplified]
  have ag8: "agree_on (- extent c 24) (store64 (kmem s) (c + 8) v) (kmem s)" for v by (rule sub8)
  consider (pre) "?B \<noteq> p" | (post) "?B = p" "?B + ?S > p + n" | (exact) "?B = p" "\<not> ?B + ?S > p + n" by blast
  then show ?thesis
  proof cases
    case pre
    define m1 where "m1 = store64 (kmem s) (c + 8) (p - ?B)"
    have f1: "pb_base m1 c = ?B" "pb_size m1 c = p - ?B" "pb_next m1 c = pb_next (kmem s) c"
      by (simp_all add: m1_def pb_base_def pb_size_def pb_next_def load64_store64_other)
    have ag1: "agree_on (- extent c 24) m1 (kmem s)" unfolding m1_def by (rule ag8)
    have "unat ?B < unat p" using pre le(1) by (metis le_neq_implies_less word_unat_eq_iff)
    then have "pb_ok ?hh m1 c"
      using pok dvd le h by (auto simp: pb_ok_def f1 im(6) intro: dvd_diff_nat)
    then have cut1: "pmm_cut_out s bss live i p n (s\<lparr>kmem := m1\<rparr>) bss"
      using im(1-3,6) le by (intro pmm_cut_resized(1) [OF ok ro i ag1 f1(3)]) (simp_all add: f1)
    show ?thesis
    proof (cases "?B + ?S > p + n")
      case False
      then have "pmm_split i prev c p n s = Inr (s\<lparr>kmem := m1\<rparr>)"
        using pre by (simp add: pmm_split_def Let_def m1_def)
      then show ?thesis using cut1 f1(2) pre by auto
    next
      case True
      let ?L = "(?hh + p, unat n) # live"
      have ok1: "pmm_arena_ok (block_arena s) ?hh m1 (concat bss) ?L" using cut1 by (simp add: pmm_cut_out_def)
      obtain e a m where al: "block_allocate (s\<lparr>kmem := m1\<rparr>) = Inr (e, s\<lparr>kmem := m, block_arena := a\<rparr>)" "e \<noteq> 0"
        and later: "\<And>m'. agree_on (- extent e 24) m' m \<Longrightarrow>
          agree_on (covered (pmm_owned ?hh m1 (concat bss) @ ?L)) m' m1 \<and>
          pmm_arena_ok a ?hh m' (concat bss) ((e, 24) # ?L)"
        using block_allocate_correct [of "s\<lparr>kmem := m1\<rparr>" ?hh "concat bss" ?L] ok1 free by auto
      define m2 where "m2 = store64 m e (p + n)"
      define m3 where "m3 = store64 m2 (e + 8) (?B + ?S - (p + n))"
      define m4 where "m4 = store64 m3 (e + 16) (pb_next m3 c)"
      have "agree_on (- extent e 24) m4 m"
        unfolding m4_def m3_def m2_def using block_store_agree [of 0 e]
        by (intro agree_on_trans [OF block_store_agree agree_on_trans [OF block_store_agree]]) simp_all
      then have l: "agree_on (covered (pmm_owned ?hh m1 (concat bss) @ ?L)) m4 m1"
          "pmm_arena_ok a ?hh m4 (concat bss) ?L"
        using later [of m4] pmm_arena_drop by blast+
      have "pmm_split i prev c p n s = Inr (s\<lparr>kmem := m1\<rparr>\<lparr>kmem := m4, block_arena := a\<rparr>)"
        using pre True al by (simp add: pmm_split_def Let_def m4_def m3_def m2_def flip: m1_def)
      moreover have "pmm_cut_out s bss live i p n (s\<lparr>kmem := m1\<rparr>\<lparr>kmem := m4, block_arena := a\<rparr>) bss"
        using l by (intro pmm_cut_out_agree [OF cut1]) simp_all
      moreover have "extent c 24 \<subseteq> covered (pmm_owned ?hh m1 (concat bss) @ ?L)"
        using cin by (intro extent_subset_covered) (auto simp: pmm_owned_def pb_struct_def)
      then have "pb_size m4 c = p - ?B" using pb_fields_agree(2) [OF l(1)] f1(2) by simp
      ultimately show ?thesis using pre by auto
    qed
  next
    case post
    define m1 where "m1 = store64 (store64 (kmem s) c (p + n)) (c + 8) (?B + ?S - (p + n))"
    have f1: "pb_base m1 c = p + n" "pb_size m1 c = ?B + ?S - (p + n)" "pb_next m1 c = pb_next (kmem s) c"
      by (simp_all add: m1_def pb_base_def pb_size_def pb_next_def load64_store64_other)
    have ag: "agree_on (- extent c 24) m1 (kmem s)"
      unfolding m1_def using block_store_agree [of 0 c]
      by (intro agree_on_trans [OF block_store_agree]) simp_all
    have lt: "unat p + unat n < unat ?B + unat ?S" using post \<open>(?B + ?S > p + n) = _\<close> by simp
    then have "pb_ok ?hh m1 c"
      using pok dvd le h by (auto simp: pb_ok_def f1 im(7,8) intro!: dvd_diff_nat dvd_add)
    then have "pmm_cut_out s bss live i p n (s\<lparr>kmem := m1\<rparr>) bss"
      using im(1,4,5,8) le by (intro pmm_cut_resized(1) [OF ok ro i ag f1(3)]) (simp_all add: f1)
    moreover have "pages_cut s bss i (unat n) (s\<lparr>kmem := m1\<rparr>) bss"
      using im(1,4,5,8) le post(1) \<open>pb_ok ?hh m1 c\<close> by (intro pmm_cut_resized(2) [OF ok ro i ag f1(3)]) (simp_all add: f1)
    moreover have "pb_size (store64 (kmem s) c (p + n)) c = ?S" by (simp add: pb_size_def load64_store64_other)
    then have "pmm_split i prev c p n s = Inr (s\<lparr>kmem := m1\<rparr>)"
      using post by (simp add: pmm_split_def Let_def m1_def)
    ultimately show ?thesis using post(1) by blast
  next
    case exact
    then have S: "?S = n" using le \<open>(?B + ?S > p + n) = _\<close> by (simp add: word_unat_eq_iff)
    have mB: "mset (concat bss) = mset (c # concat (bss[i := xs @ ys]))" by (rule concat_split [OF i])
    show ?thesis
    proof (cases "xs = []")
      case True
      let ?rs = "(regions s)[i := (regions s ! i)\<lparr>region_free_blocks := pb_next (kmem s) c\<rparr>]"
      have "chain 16 (kmem s) (region_free_blocks (?rs ! j)) (bss[i := xs @ ys] ! j) \<and>
          region_free_bytes (?rs ! j) = region_free_bytes (regions s ! j)" if "j < length bss" for j
        using that ro chi i rl by (cases "j = i") (auto simp: pmm_regions_ok_def True chain_Cons pb_next_def)
      then have "\<exists>s'. and_then (block_free c (s\<lparr>kmem := kmem s, regions := ?rs\<rparr>))
          (\<lambda>(err, s). kassert (error_is_ok err) (Inr s)) = Inr s' \<and>
        pmm_cut_out s bss live i p n s' (bss[i := xs @ ys]) \<and> pages_cut s bss i (unat n) s' (bss[i := xs @ ys])"
        using exact S pmm_arena_perm [OF ok mB refl]
        by (intro pmm_cut_removed [OF _ i dist c0]) (simp_all add: pb_image_def del: set_concat)
      moreover have "pmm_split i prev c p n s = and_then (block_free c (s\<lparr>kmem := kmem s, regions := ?rs\<rparr>))
          (\<lambda>(err, s). kassert (error_is_ok err) (Inr s))"
        using exact prev True by (simp add: pmm_split_def Let_def)
      ultimately show ?thesis using exact(1) by auto
    next
      case False
      then have pv: "prev = last xs" "last xs \<in> set xs" using prev by simp_all
      have prin: "last xs \<in> set (concat bss)" using concat_nth_set [OF i(1)] i(2) pv(2) by auto
      have pv0: "prev \<noteq> 0" using chain_nonnull [OF chi] pv by auto
      define m1 where "m1 = store64 (kmem s) (last xs + 16) (pb_next (kmem s) c)"
      note w = pmm_next_write [OF ok prin, of "pb_next (kmem s) c", folded m1_def]
      have "chain 16 m1 (region_free_blocks (regions s ! j)) (bss[i := xs @ ys] ! j)" if j: "j < length bss" for j
      proof (cases "j = i")
        case True
        have di: "distinct (xs @ c # ys)" using dist i by (simp add: distinct_concat_iff flip: i(2))
        have "\<forall>b \<in> set (xs @ c # ys). b = last xs \<or> extent (last xs) 24 \<inter> extent b 24 = {}"
        proof
          fix b assume "b \<in> set (xs @ c # ys)"
          then have "b \<in> set (concat bss)" using subsetD [OF concat_nth_set [OF i(1)]] i(2) by simp
          from structs_apart [OF pmm_owned_apart(2) [OF ok] prin this]
          show "b = last xs \<or> extent (last xs) 24 \<inter> extent b 24 = {}" by blast
        qed
        then show ?thesis using chain_unlink [OF chi False _ di] True i by (simp add: m1_def)
      next
        case ne: False
        have "last xs \<notin> set (bss ! j)" using distinct_concat_nth [OF dist i(1) j] ne i(2) pv(2) by auto
        then have "chain 16 m1 (region_free_blocks (regions s ! j)) (bss ! j) =
            chain 16 (kmem s) (region_free_blocks (regions s ! j)) (bss ! j)"
          using w(3) subsetD [OF concat_nth_set [OF j]] by (intro chain_cong) (metis pb_next_def)
        then show ?thesis using ro j ne by (simp add: pmm_regions_ok_def)
      qed
      moreover have "pb_image ?hh m1 c = (?hh + p, unat n)"
        using w(3) cin exact(1) S by (simp add: pb_image_def del: set_concat)
      ultimately have "\<exists>s'. and_then (block_free c (s\<lparr>kmem := m1, regions := regions s\<rparr>))
          (\<lambda>(err, s). kassert (error_is_ok err) (Inr s)) = Inr s' \<and>
        pmm_cut_out s bss live i p n s' (bss[i := xs @ ys]) \<and> pages_cut s bss i (unat n) s' (bss[i := xs @ ys])"
        using w pmm_arena_perm [OF w(1) mB refl]
        by (intro pmm_cut_removed [OF _ i dist c0]) (simp_all del: set_concat)
      moreover have "pmm_split i prev c p n s = and_then (block_free c (s\<lparr>kmem := m1, regions := regions s\<rparr>))
          (\<lambda>(err, s). kassert (error_is_ok err) (Inr s))"
        using exact pv pv0 by (simp add: pmm_split_def Let_def m1_def)
      ultimately show ?thesis using exact(1) by auto
    qed
  qed
qed

section \<open>Taking a range\<close>

lemma pmm_arena_frame:
  assumes ok: "pmm_arena_ok a hh m bs live" and ag: "agree_on (- covered live) m' m"
  shows "pmm_arena_ok a hh m' bs live" and "agree_on (covered (pmm_owned hh m bs)) m' m"
    and "\<forall>b \<in> set bs. extent b 24 \<subseteq> - covered live"
proof -
  obtain srs sfl where inv: "slab_inv a m srs sfl (pmm_owned hh m bs @ live)"
    and a: "block_size a = 24" "\<not> auto_refill a" and pok: "\<forall>b \<in> set bs. pb_ok hh m b"
    using ok by (auto simp: pmm_arena_ok_def)
  have "covered (slab_ranges (block_size a) m srs sfl) \<inter> covered live = {}"
    "covered (pmm_owned hh m bs) \<inter> covered live = {}"
    using inv by (auto simp: slab_inv_def all_apart_append_covered)
  then have sub: "covered (slab_ranges (block_size a) m srs sfl) \<subseteq> - covered live"
    "covered (pmm_owned hh m bs) \<subseteq> - covered live" by auto
  show "agree_on (covered (pmm_owned hh m bs)) m' m" by (rule agree_on_mono [OF ag sub(2)])
  have st: "\<forall>b \<in> set bs. extent b 24 \<subseteq> covered (pmm_owned hh m bs)"
    by (intro ballI extent_subset_covered) (auto simp: pmm_owned_def pb_struct_def)
  then show out: "\<forall>b \<in> set bs. extent b 24 \<subseteq> - covered live" using sub(2) by blast
  note same = owned_agree [OF ag out]
  have "slab_inv a m' srs sfl (pmm_owned hh m' bs @ live)"
    unfolding same(1) by (rule slab_inv_agree(1) [OF inv agree_on_mono [OF ag sub(1)]])
  then show "pmm_arena_ok a hh m' bs live" using a pok same(4) by (auto simp: pmm_arena_ok_def)
qed

lemma pmm_regions_frame:
  assumes "pmm_regions_ok rs m bss" and "\<forall>b \<in> set (concat bss). extent b 24 \<subseteq> A" and "agree_on A m' m"
  shows "pmm_regions_ok rs m' bss"
proof -
  have "chain 16 m' q (bss ! j) = chain 16 m q (bss ! j)" "pb_sizes m' (bss ! j) = pb_sizes m (bss ! j)"
    if "j < length bss" for j q
    using owned_agree [OF assms(3), of "bss ! j"] subsetD [OF concat_nth_set [OF that]] assms(2) by blast+
  then show ?thesis using assms(1) by (simp add: pmm_regions_ok_def)
qed

lemma sum_update:
  fixes i n :: nat
  assumes "i < n" and "\<And>j. j < n \<Longrightarrow> j \<noteq> i \<Longrightarrow> g j = f j" and "g i + d = f i"
  shows "(\<Sum>j < n. g j) + d = (\<Sum>j < n. (f j :: nat))"
proof -
  have "i \<in> {..<n}" using assms(1) by simp
  then have "(\<Sum>j < n. g j) = g i + (\<Sum>j \<in> {..<n} - {i}. g j)"
    "(\<Sum>j < n. f j) = f i + (\<Sum>j \<in> {..<n} - {i}. f j)"
    using sum.remove [OF finite_lessThan, of i n] by blast+
  moreover have "(\<Sum>j \<in> {..<n} - {i}. g j) = (\<Sum>j \<in> {..<n} - {i}. f j)"
    using assms(2) by (intro sum.cong) auto
  ultimately show ?thesis using assms(3) by simp
qed

text \<open>
  A successful allocation of \<open>n\<close> bytes at physical address \<open>p\<close>: the range was free, is aligned,
  zeroed and now live, and nothing else that was live changed.
\<close>

definition pmm_granted ::
    "'a kernel_scheme \<Rightarrow> addr list list \<Rightarrow> (addr \<times> nat) list \<Rightarrow> nat \<Rightarrow> u64 \<Rightarrow> u64 \<Rightarrow> 'a kernel_scheme \<Rightarrow> addr list list \<Rightarrow> bool" where
  "pmm_granted s bss live k n p s' bss' \<longleftrightarrow>
     pmm_inv s' bss' ((hhdm_offset s + p, unat n) # live) \<and> 2 ^ k dvd unat p \<and>
     unat (free_bytes s') + unat n = unat (free_bytes s) \<and>
     kmem s' ` extent (hhdm_offset s + p) (unat n) \<subseteq> {0} \<and> agree_on (covered live) (kmem s') (kmem s) \<and>
     unat (hhdm_offset s) + unat p + unat n < 2 ^ 64 \<and>
     (\<exists>b \<in> set (concat bss). unat (pb_base (kmem s) b) \<le> unat p \<and>
        unat p + unat n \<le> unat (pb_base (kmem s) b) + unat (pb_size (kmem s) b)) \<and>
     (k = 12 \<longrightarrow> (\<exists>i < length bss. pages_cut s bss i (unat n) s' bss')) \<and>
     s' = s\<lparr>kmem := kmem s', block_arena := block_arena s', regions := regions s', free_bytes := free_bytes s'\<rparr>"

lemma pmm_take_correct:
  assumes inv: "pmm_inv s bss live" and req: "pmm_request_ok (hhdm_offset s) k n"
    and i: "i < length bss" "bss ! i = xs @ c # ys" and fit: "pb_fits (kmem s) n (2 ^ k) c"
    and free: "free_blocks (block_arena s) \<noteq> 0" and prev: "prev = last (0 # xs)"
  defines "p \<equiv> ALIGN_UP (pb_base (kmem s) c) (2 ^ k)"
  shows "\<exists>s' bss'. pmm_take i prev c n (2 ^ k) s = Inr (p, s') \<and> pmm_granted s bss live k n p s' bss' \<and>
    (pb_base (kmem s) c \<noteq> p \<longrightarrow> bss' = bss \<and> pb_size (kmem s') c = p - pb_base (kmem s) c)"
proof -
  let ?hh = "hhdm_offset s"
  have I: "?hh \<noteq> 0" "length (regions s) = REGION_COUNT" "length bss \<le> REGION_COUNT"
    "unat (region_count s) = length bss"
    "pmm_arena_ok (block_arena s) ?hh (kmem s) (concat bss) live" "pmm_regions_ok (regions s) (kmem s) bss"
    "unat (free_bytes s) = (\<Sum>i < length bss. unat (region_free_bytes (regions s ! i)))"
    using inv by (simp_all add: pmm_inv_def)
  have cin: "c \<in> set (concat bss)" using concat_nth_set [OF i(1)] i(2) by auto
  then have pok: "pb_ok ?hh (kmem s) c" using I(5) by (simp add: pmm_arena_ok_def del: set_concat)
  note f = pb_fits_nat [OF pok req, folded p_def]
  have "12 \<le> k" using req by (simp add: pmm_request_ok_def)
  then have "(2::nat) ^ 12 dvd 2 ^ k" by (rule le_imp_power_dvd)
  then have d: "2 ^ 12 dvd unat p" "2 ^ 12 dvd unat n"
    using f(2) req by (auto simp: pmm_request_ok_def intro: dvd_trans)
  have le: "unat p + unat n \<le> unat (pb_base (kmem s) c) + unat (pb_size (kmem s) c)" using fit f(5) by blast
  have rl: "length bss \<le> length (regions s)" using I(2,3) by simp
  obtain s1 bss1 where sp: "pmm_split i prev c p n s = Inr s1" and cut: "pmm_cut_out s bss live i p n s1 bss1"
    and mid: "pb_base (kmem s) c \<noteq> p \<longrightarrow> bss1 = bss \<and> pb_size (kmem s1) c = p - pb_base (kmem s) c"
    and page: "pb_base (kmem s) c = p \<longrightarrow> pages_cut s bss i (unat n) s1 bss1"
    using pmm_split_correct [OF I(5,6) i rl free prev f(1) le d] by blast
  have C: "s1 = s\<lparr>kmem := kmem s1, block_arena := block_arena s1, regions := regions s1\<rparr>"
    "length bss1 = length bss" "length (regions s1) = length (regions s)"
    "pmm_arena_ok (block_arena s1) ?hh (kmem s1) (concat bss1) ((?hh + p, unat n) # live)"
    "agree_on (covered live) (kmem s1) (kmem s)"
    using cut by (simp_all add: pmm_cut_out_def)
  have Cj: "chain 16 (kmem s1) (region_free_blocks (regions s1 ! j)) (bss1 ! j)"
    "region_free_bytes (regions s1 ! j) = region_free_bytes (regions s ! j)"
    "pb_sizes (kmem s1) (bss1 ! j) + (if j = i then unat n else 0) \<le> pb_sizes (kmem s) (bss ! j)"
    "pb_sizes (kmem s) (bss ! j) \<le> unat (region_free_bytes (regions s ! j))" if "j < length bss" for j
    using cut I(6) that by (simp_all add: pmm_cut_out_def pmm_regions_ok_def)
  define r where "r = regions s1 ! i"
  define rs where "rs = (regions s1)[i := r\<lparr>region_free_bytes := region_free_bytes r - n\<rparr>]"
  define m where "m = memzero (kmem s1) (?hh + p) n"
  define s' where "s' = s\<lparr>kmem := m, block_arena := block_arena s1, regions := rs, free_bytes := free_bytes s - n\<rparr>"
  have s1f: "free_bytes s1 = free_bytes s" "hhdm_offset s1 = ?hh" by (subst C(1); simp)+
  have "s1\<lparr>regions := rs, free_bytes := free_bytes s - n, kmem := m\<rparr> = s'"
    by (subst C(1)) (simp add: s'_def)
  then have tk: "pmm_take i prev c n (2 ^ k) s = Inr (p, s')"
    using sp s1f
    by (simp add: pmm_take_def p_def [symmetric] Let_def kernel_hhdm_phys_to_virt_def rs_def r_def m_def)
  have nr: "n \<le> region_free_bytes r"
    using Cj(2-4) [OF i(1)] by (simp add: r_def word_le_nat_alt)
  have rsj: "region_free_blocks (rs ! j) = region_free_blocks (regions s1 ! j)"
    "unat (region_free_bytes (rs ! j)) + (if j = i then unat n else 0) = unat (region_free_bytes (regions s ! j))"
    if j: "j < length bss" for j
  proof -
    show "region_free_blocks (rs ! j) = region_free_blocks (regions s1 ! j)"
      using j rl C(3) by (cases "j = i") (simp_all add: rs_def r_def)
    show "unat (region_free_bytes (rs ! j)) + (if j = i then unat n else 0) = unat (region_free_bytes (regions s ! j))"
      using j rl C(3) nr Cj(2) [OF j] by (cases "j = i") (auto simp: rs_def r_def unat_sub_eq word_le_nat_alt)
  qed
  have zag: "agree_on (- extent (?hh + p) (unat n)) m (kmem s1)" unfolding m_def by (rule memzero_agree) simp
  then have "agree_on (- covered ((?hh + p, unat n) # live)) m (kmem s1)" by (rule agree_on_mono) auto
  note fr = pmm_arena_frame [OF C(4) this]
  have ro1: "pmm_regions_ok rs (kmem s1) bss1"
    unfolding pmm_regions_ok_def C(2)
  proof (intro allI impI)
    fix j assume j: "j < length bss"
    show "chain 16 (kmem s1) (region_free_blocks (rs ! j)) (bss1 ! j) \<and>
        pb_sizes (kmem s1) (bss1 ! j) \<le> unat (region_free_bytes (rs ! j))"
      using Cj [OF j] rsj [OF j] by (cases "j = i") simp_all
  qed
  have ro: "pmm_regions_ok rs m bss1"
    using fr(3) \<open>agree_on (- covered ((?hh + p, unat n) # live)) m (kmem s1)\<close> by (rule pmm_regions_frame [OF ro1])
  have sum: "(\<Sum>j < length bss. unat (region_free_bytes (rs ! j))) + unat n = unat (free_bytes s)"
    unfolding I(7)
  proof (rule sum_update [OF i(1)])
    show "unat (region_free_bytes (rs ! j)) = unat (region_free_bytes (regions s ! j))" if "j < length bss" "j \<noteq> i" for j
      using rsj(2) [OF that(1)] that(2) by simp
    show "unat (region_free_bytes (rs ! i)) + unat n = unat (region_free_bytes (regions s ! i))"
      using rsj(2) [OF i(1)] by simp
  qed
  then have "n \<le> free_bytes s" by (simp add: word_le_nat_alt)
  then have fb: "unat (free_bytes s - n) = unat (free_bytes s) - unat n" by (rule unat_sub_eq)
  have "covered live \<inter> extent (?hh + p) (unat n) = {}"
    using pmm_owned_apart(1) [OF C(4)] by (auto simp: all_apart_append apart_covered)
  then have al: "agree_on (covered live) m (kmem s)"
    using agree_on_trans [OF agree_on_mono [OF zag] C(5)] by blast
  have "pmm_inv s' bss1 ((?hh + p, unat n) # live)"
    using I(1-4) C(2,3) fr(1) ro sum fb by (simp add: pmm_inv_def s'_def rs_def)
  moreover have "unat ?hh + unat p + unat n < 2 ^ 64" using pok le by (simp add: pb_ok_def)
  moreover have "m ` extent (?hh + p) (unat n) \<subseteq> {0}" by (auto simp: m_def memzero_inside)
  moreover have "pages_cut s bss i (unat n) s' bss1" if k: "k = 12"
  proof -
    have "2 ^ 12 dvd unat (pb_base (kmem s) c)" using pok by (simp add: pb_ok_def)
    then have "pb_base (kmem s) c = p" unfolding p_def k by (rule ALIGN_UP_fixed [symmetric, rotated]) simp
    moreover have "pb_sizes m (bss1 ! j) = pb_sizes (kmem s1) (bss1 ! j)" if "j < length bss" for j
    proof (rule owned_agree(2) [OF \<open>agree_on (- covered ((?hh + p, unat n) # live)) m (kmem s1)\<close>])
      have "j < length bss1" using that C(2) by simp
      then show "\<forall>b \<in> set (bss1 ! j). extent b 24 \<subseteq> - covered ((?hh + p, unat n) # live)"
        using fr(3) subsetD [OF concat_nth_set [of j bss1]] by blast
    qed
    ultimately show ?thesis using page by (simp add: pages_cut_def s'_def)
  qed
  then have "k = 12 \<longrightarrow> (\<exists>i < length bss. pages_cut s bss i (unat n) s' bss1)" using i(1) by blast
  ultimately have "pmm_granted s bss live k n p s' bss1"
    using al f(1,2) sum fb bexI [OF _ cin] le
    by (auto simp: pmm_granted_def s'_def simp del: set_concat)
  moreover have "bss1 = bss \<and> pb_size m c = p - pb_base (kmem s) c" if "pb_base (kmem s) c \<noteq> p"
    using mid that cin pb_fields_agree(2) [OF \<open>agree_on (- covered ((?hh + p, unat n) # live)) m (kmem s1)\<close>] fr(3)
    by (simp del: set_concat covered_Cons)
  ultimately show ?thesis using tk by (intro exI [of _ s'] exI [of _ bss1]) (simp add: s'_def)
qed

lemma pb_fits_free:
  assumes inv: "pmm_inv s bss live" and req: "pmm_request_ok (hhdm_offset s) k n"
    and j: "j < length bss" "b \<in> set (bss ! j)" and fit: "pb_fits (kmem s) n (2 ^ k) b"
  shows "n \<le> region_free_bytes (regions s ! j)" and "n \<le> free_bytes s"
proof -
  have bin: "b \<in> set (concat bss)" using subsetD [OF concat_nth_set [OF j(1)] j(2)] .
  have "pb_ok (hhdm_offset s) (kmem s) b"
    using inv bin by (simp add: pmm_inv_def pmm_arena_ok_def del: set_concat)
  note f = pb_fits_nat [OF this req]
  have "unat n \<le> unat (pb_size (kmem s) b)" using f(1,5) fit by linarith
  also have "\<dots> \<le> pb_sizes (kmem s) (bss ! j)"
    unfolding pb_sizes_def using j(2) by (intro member_le_sum_list) auto
  also have "\<dots> \<le> unat (region_free_bytes (regions s ! j))"
    using inv j(1) by (simp add: pmm_inv_def pmm_regions_ok_def)
  finally show n: "n \<le> region_free_bytes (regions s ! j)" by (simp add: word_le_nat_alt)
  have "unat (region_free_bytes (regions s ! j)) \<le> (\<Sum>i < length bss. unat (region_free_bytes (regions s ! i)))"
    using j(1) by (intro member_le_sum) auto
  then show "n \<le> free_bytes s" using n inv by (simp add: pmm_inv_def word_le_nat_alt)
qed

lemma pmm_try_regions_correct:
  assumes inv: "pmm_inv s bss live" and req: "pmm_request_ok (hhdm_offset s) k n"
    and free: "free_blocks (block_arena s) \<noteq> 0"
  shows "i \<le> length bss \<Longrightarrow>
    (if \<exists>j. i \<le> j \<and> j < length bss \<and> (\<exists>b \<in> set (bss ! j). pb_fits (kmem s) n (2 ^ k) b)
     then \<exists>p s' bss'. pmm_try_regions i n (2 ^ k) s = Inr (Some p, s') \<and> pmm_granted s bss live k n p s' bss'
     else pmm_try_regions i n (2 ^ k) s = Inr (None, s))"
proof (induction "length bss - i" arbitrary: i)
  case 0
  then have "pmm_try_regions i n (2 ^ k) s = Inr (None, s)"
    using inv by (simp add: pmm_try_regions.simps [of i] pmm_inv_def)
  then show ?case using 0 by simp
next
  case (Suc d)
  then have i: "i < length bss" by simp
  then have i': "i < unat (region_count s)" "\<not> REGION_COUNT \<le> i" using inv by (simp_all add: pmm_inv_def)
  have IH: "if \<exists>j. i + 1 \<le> j \<and> j < length bss \<and> (\<exists>b \<in> set (bss ! j). pb_fits (kmem s) n (2 ^ k) b)
     then \<exists>p s' bss'. pmm_try_regions (i + 1) n (2 ^ k) s = Inr (Some p, s') \<and> pmm_granted s bss live k n p s' bss'
     else pmm_try_regions (i + 1) n (2 ^ k) s = Inr (None, s)"
    using Suc.hyps(2) i by (intro Suc.hyps(1)) simp_all
  have ch: "chain 16 (kmem s) (region_free_blocks (regions s ! i)) (bss ! i)"
    using inv i by (simp add: pmm_inv_def pmm_regions_ok_def)
  note w = pmm_walk_correct [OF ch, of n "2 ^ k" 0]
  show ?case
  proof (cases "\<exists>b \<in> set (bss ! i). pb_fits (kmem s) n (2 ^ k) b")
    case True
    then obtain xs c ys where x: "bss ! i = xs @ c # ys" "pb_fits (kmem s) n (2 ^ k) c"
      "pmm_walk (kmem s) n (2 ^ k) 0 (region_free_blocks (regions s ! i)) = Some (last (0 # xs), c)"
      using w by auto
    have c0: "c \<noteq> 0" using chain_nonnull [OF ch] x(1) by auto
    have fr: "\<not> region_free_bytes (regions s ! i) < n"
      using pb_fits_free(1) [OF inv req i _ x(2)] x(1) by simp
    obtain p s' bss' where "pmm_take i (last (0 # xs)) c n (2 ^ k) s = Inr (p, s')"
      "pmm_granted s bss live k n p s' bss'"
      using pmm_take_correct [OF inv req i x(1,2) free refl] by blast
    then have "pmm_try_regions i n (2 ^ k) s = Inr (Some p, s') \<and> pmm_granted s bss live k n p s' bss'"
      using i' fr x(3) c0 by (simp add: pmm_try_regions.simps [of i])
    then show ?thesis using True i by (auto intro: exI [of _ i])
  next
    case False
    then obtain prev where "pmm_walk (kmem s) n (2 ^ k) 0 (region_free_blocks (regions s ! i)) = Some (prev, 0)"
      using w by auto
    then have "pmm_try_regions i n (2 ^ k) s = pmm_try_regions (i + 1) n (2 ^ k) s"
      using i' by (simp add: pmm_try_regions.simps [of i])
    moreover have "(i \<le> j \<and> j < length bss \<and> (\<exists>b \<in> set (bss ! j). pb_fits (kmem s) n (2 ^ k) b)) \<longleftrightarrow>
        (i + 1 \<le> j \<and> j < length bss \<and> (\<exists>b \<in> set (bss ! j). pb_fits (kmem s) n (2 ^ k) b))" for j
      using False by (cases "j = i") auto
    ultimately show ?thesis using IH by (simp only:)
  qed
qed

lemma pow2_and_pred: "k < 64 \<Longrightarrow> (2 :: u64) ^ k AND (2 ^ k - 1) = 0"
  unfolding pow2_minus_1 by (rule bit_word_eqI) (auto simp: bit_simps)

lemma pow2_ge_page: "12 \<le> k \<Longrightarrow> k < 64 \<Longrightarrow> PAGE_SIZE \<le> (2 :: u64) ^ k"
  using power_increasing [of 12 k "2 :: nat"] by (simp add: word_le_nat_alt)

lemma concat_nth_Union: "set (concat bss) = (\<Union>j < length bss. set (bss ! j))"
proof -
  have "set bss = (\<lambda>j. bss ! j) ` {..<length bss}" by (auto simp: set_conv_nth)
  then show ?thesis by simp
qed

lemma pmm_alloc_aligned_correct:
  assumes inv: "pmm_inv s bss live" and req: "pmm_request_ok (hhdm_offset s) k (ALIGN_UP sz PAGE_SIZE)"
    and arena: "16 \<le> free_blocks (block_arena s)" and pol: "policy s = PMM_POLICY_FIRST_FIT"
  defines "n \<equiv> ALIGN_UP sz PAGE_SIZE"
  shows "if \<exists>b \<in> set (concat bss). pb_fits (kmem s) n (2 ^ k) b
    then \<exists>p s' bss'. pmm_alloc_aligned sz (2 ^ k) (Some v) s = Inr ((ec EC_SUCCESS, Some p), s') \<and>
      pmm_granted s bss live k n p s' bss'
    else pmm_alloc_aligned sz (2 ^ k) (Some v) s = Inr ((ec EC_PMM_OUT_OF_MEMORY, Some 0), s)"
proof -
  have k: "12 \<le> k" "k < 64" using req by (simp_all add: pmm_request_ok_def)
  have al: "\<not> ((2 :: u64) ^ k < PAGE_SIZE \<or> 2 ^ k AND (2 ^ k - 1) \<noteq> (0 :: u64))"
    using pow2_and_pred [OF k(2)] pow2_ge_page [OF k] by (simp add: not_less)
  have ar: "\<not> free_blocks (block_arena s) < 16" "free_blocks (block_arena s) \<noteq> 0" using arena by auto
  have eq: "(\<exists>b \<in> set (concat bss). pb_fits (kmem s) n (2 ^ k) b) \<longleftrightarrow>
      (\<exists>j. 0 \<le> j \<and> j < length bss \<and> (\<exists>b \<in> set (bss ! j). pb_fits (kmem s) n (2 ^ k) b))"
    unfolding concat_nth_Union by auto
  note t = pmm_try_regions_correct [OF inv req [folded n_def] ar(2), of 0]
  show ?thesis
  proof (cases "\<exists>b \<in> set (concat bss). pb_fits (kmem s) n (2 ^ k) b")
    case True
    then obtain j b where "j < length bss" "b \<in> set (bss ! j)" "pb_fits (kmem s) n (2 ^ k) b" using eq by auto
    then have "\<not> free_bytes s < n" using pb_fits_free(2) [OF inv req [folded n_def]] by (simp add: not_less)
    moreover obtain p s' bss' where "pmm_try_regions 0 n (2 ^ k) s = Inr (Some p, s')" "pmm_granted s bss live k n p s' bss'"
      using t True eq by auto
    ultimately show ?thesis using True al ar pol
      by (simp add: pmm_alloc_aligned_def Let_def flip: n_def) blast
  next
    case False
    then have "pmm_try_regions 0 n (2 ^ k) s = Inr (None, s)" using t eq by auto
    then have "pmm_alloc_aligned sz (2 ^ k) (Some v) s = Inr ((ec EC_PMM_OUT_OF_MEMORY, Some 0), s)"
      using al ar pol by (simp add: pmm_alloc_aligned_def Let_def flip: n_def)
    then show ?thesis using False by (simp only: if_False)
  qed
qed

section \<open>Adding a region\<close>

lemma pmm_arena_add:
  assumes ok: "pmm_arena_ok a hh m bs ((e, 24) # (q, N) # live)" and new: "pb_ok hh m e"
    and sub: "extent (hh + pb_base m e) (unat (pb_size m e)) \<subseteq> extent q N"
  shows "pmm_arena_ok a hh m (bs @ [e]) live"
proof -
  obtain srs sfl where inv: "slab_inv a m srs sfl (pmm_owned hh m bs @ (e, 24) # (q, N) # live)"
    and a: "block_size a = 24" "\<not> auto_refill a" and pok: "\<forall>b \<in> set bs. pb_ok hh m b"
    using ok by (auto simp: pmm_arena_ok_def)
  let ?R = "slab_ranges (block_size a) m srs sfl"
  have "all_apart (?R @ pmm_owned hh m bs @ (e, 24) # (q, N) # live)" using inv by (simp add: slab_inv_def)
  then have "all_apart ((q, N) # ?R @ pmm_owned hh m bs @ (e, 24) # live)" by (rule all_apart_perm) simp
  from all_apart_shrink [OF this sub]
  have "all_apart (?R @ pmm_owned hh m (bs @ [e]) @ live)"
    by (rule all_apart_perm) (simp add: pmm_owned_def pb_struct_def pb_image_def)
  then have "slab_inv a m srs sfl (pmm_owned hh m (bs @ [e]) @ live)" by (rule slab_inv_live [OF inv])
  then show ?thesis using a pok new by (auto simp: pmm_arena_ok_def)
qed

lemma put_block_fields:
  defines "wr b x y z m \<equiv> store64 (store64 (store64 m b x) (b + 8) y) (b + 16) z"
  shows "pb_base (wr b x y z m) b = x" "pb_size (wr b x y z m) b = y" "pb_next (wr b x y z m) b = z"
    "agree_on (- extent b 24) (wr b x y z m) m"
proof -
  show "pb_base (wr b x y z m) b = x" "pb_size (wr b x y z m) b = y" "pb_next (wr b x y z m) b = z"
    by (simp_all add: wr_def pb_base_def pb_size_def pb_next_def load64_store64_other)
  show "agree_on (- extent b 24) (wr b x y z m) m"
    unfolding wr_def using block_store_agree [of 0 b]
    by (intro agree_on_trans [OF block_store_agree agree_on_trans [OF block_store_agree]]) simp_all
qed

text \<open>What a successful call leaves, whatever the region it was given.\<close>

lemma pmm_add_region_success:
  assumes ok: "pmm_arena_ok (block_arena s) hh (kmem s) bs live" and free: "free_blocks (block_arena s) \<noteq> 0"
  defines "ab base \<equiv> ALIGN_UP base PAGE_SIZE" and "asz base sz \<equiv> ALIGN_DOWN (sz - (ALIGN_UP base PAGE_SIZE - base)) PAGE_SIZE"
  assumes c: "unat (region_count s) < REGION_COUNT" "ab base + asz base sz \<le> base + sz" "PAGE_SIZE \<le> asz base sz"
    "\<not> list_ex (region_overlaps (ab base)) (take (unat (region_count s)) (regions s))"
  shows "\<exists>e a m. pmm_add_region base sz s = Inr (ec EC_SUCCESS,
      s\<lparr>block_arena := a, kmem := m,
        regions := (regions s)[unat (region_count s) := \<lparr>region_base = ab base, region_size = asz base sz,
          region_free_bytes = asz base sz, region_free_blocks = e\<rparr>],
        region_count := region_count s + 1, total_bytes := total_bytes s + asz base sz,
        free_bytes := free_bytes s + asz base sz\<rparr>) \<and>
    e \<noteq> 0 \<and> pb_base m e = ab base \<and> pb_size m e = asz base sz \<and> pb_next m e = 0 \<and>
    agree_on (covered (pmm_owned hh (kmem s) bs @ live)) m (kmem s) \<and>
    pmm_arena_ok a hh m bs ((e, 24) # live) \<and> free_blocks a = free_blocks (block_arena s) - 1"
proof -
  obtain e a m where al: "block_allocate s = Inr (e, s\<lparr>kmem := m, block_arena := a\<rparr>)" "e \<noteq> 0"
      "free_blocks a = free_blocks (block_arena s) - 1"
    and later: "\<And>m'. agree_on (- extent e 24) m' m \<Longrightarrow>
      agree_on (covered (pmm_owned hh (kmem s) bs @ live)) m' (kmem s) \<and>
      pmm_arena_ok a hh m' bs ((e, 24) # live)"
    using block_allocate_correct [OF ok free] by blast
  note p = put_block_fields [where b = e and x = "ab base" and y = "asz base sz" and z = 0 and m = m]
  show ?thesis
    using al c later [OF p(4)] p(1-3)
    by - (rule exI [of _ e], rule exI [of _ a], rule exI, auto simp: pmm_add_region_def Let_def ab_def asz_def not_le)
qed

lemma add_region_arith:
  fixes base sz :: u64
  assumes nw: "unat base + unat sz < 2 ^ 64" and sz: "PAGE_SIZE \<le> sz"
  defines "ab \<equiv> ALIGN_UP base PAGE_SIZE"
  defines "asz \<equiv> ALIGN_DOWN (sz - (ab - base)) PAGE_SIZE"
  shows "unat base \<le> unat ab" and "unat ab + unat asz \<le> unat base + unat sz" and "ab + asz \<le> base + sz"
    and "2 ^ 12 dvd unat ab" and "2 ^ 12 dvd unat asz" and "unat asz \<le> unat sz"
proof -
  have s: "4096 \<le> unat sz" using sz by (simp add: word_le_nat_alt)
  have p: "PAGE_SIZE = 2 ^ 12" by simp
  have b: "unat base + (2 ^ 12 - 1) < 2 ^ 64" using nw s by simp
  have ub: "unat base \<le> unat ab" "unat ab < unat base + 4096"
    using ALIGN_UP_pow2_bounds [of 12 base] b by (simp_all add: ab_def)
  show lo: "unat base \<le> unat ab" by (rule ub(1))
  have d: "unat (ab - base) = unat ab - unat base" using lo by (intro unat_sub_eq) (simp add: word_le_nat_alt)
  have e: "unat (sz - (ab - base)) = unat sz - (unat ab - unat base)"
    using s ub d by (subst unat_sub_eq) (simp_all add: word_le_nat_alt)
  have le: "unat asz \<le> unat sz - (unat ab - unat base)"
    using ALIGN_DOWN_bounds(1) [of "sz - (ab - base)" PAGE_SIZE] by (simp add: asz_def e)
  then show "unat ab + unat asz \<le> unat base + unat sz" "unat asz \<le> unat sz" using ub lo s by simp_all
  then show "ab + asz \<le> base + sz" using nw by (simp add: word_le_nat_alt unat_add_eq)
  show "2 ^ 12 dvd unat ab" unfolding ab_def p by (rule ALIGN_UP_pow2_dvd)
  show "2 ^ 12 dvd unat asz" unfolding asz_def p ALIGN_DOWN_pow2 by simp
qed

lemma pmm_add_region_correct:
  assumes inv: "pmm_inv s bss ((hhdm_offset s + base, unat sz) # live)"
    and nw: "unat (hhdm_offset s) + unat base + unat sz < 2 ^ 64" and sz: "PAGE_SIZE \<le> sz"
    and free: "free_blocks (block_arena s) \<noteq> 0" and tot: "unat (free_bytes s) + unat sz < 2 ^ 64"
  defines "ab \<equiv> ALIGN_UP base PAGE_SIZE"
  defines "asz \<equiv> ALIGN_DOWN (sz - (ab - base)) PAGE_SIZE"
  assumes c: "length bss < REGION_COUNT" "PAGE_SIZE \<le> asz"
    "\<not> list_ex (region_overlaps ab) (take (length bss) (regions s))"
  shows "\<exists>e s'. pmm_add_region base sz s = Inr (ec EC_SUCCESS, s') \<and> pmm_inv s' (bss @ [[e]]) live \<and>
    pb_base (kmem s') e = ab \<and> pb_size (kmem s') e = asz \<and> hhdm_offset s' = hhdm_offset s \<and> policy s' = policy s \<and>
    agree_on (covered live) (kmem s') (kmem s) \<and> free_bytes s' = free_bytes s + asz \<and>
    total_bytes s' = total_bytes s + asz \<and> free_blocks (block_arena s') = free_blocks (block_arena s) - 1 \<and>
    regions s' = (regions s)[length bss := \<lparr>region_base = ab, region_size = asz, region_free_bytes = asz, region_free_blocks = e\<rparr>] \<and>
    (\<forall>j < length bss. pb_sizes (kmem s') (bss ! j) = pb_sizes (kmem s) (bss ! j)) \<and>
    s' = s\<lparr>block_arena := block_arena s', kmem := kmem s', regions := regions s', region_count := region_count s',
      total_bytes := total_bytes s', free_bytes := free_bytes s'\<rparr>"
proof -
  let ?hh = "hhdm_offset s"
  have I: "?hh \<noteq> 0" "length (regions s) = REGION_COUNT" "unat (region_count s) = length bss"
    "pmm_arena_ok (block_arena s) ?hh (kmem s) (concat bss) ((?hh + base, unat sz) # live)"
    "pmm_regions_ok (regions s) (kmem s) bss"
    "unat (free_bytes s) = (\<Sum>i < length bss. unat (region_free_bytes (regions s ! i)))"
    using inv by (simp_all add: pmm_inv_def)
  have "unat base + unat sz < 2 ^ 64" using nw by simp
  note ar = add_region_arith [OF this sz, folded ab_def, folded asz_def]
  let ?r = "\<lparr>region_base = ab, region_size = asz, region_free_bytes = asz, region_free_blocks = e\<rparr>"
  obtain e a m where run: "pmm_add_region base sz s = Inr (ec EC_SUCCESS,
      s\<lparr>block_arena := a, kmem := m,
        regions := (regions s)[unat (region_count s) := \<lparr>region_base = ab, region_size = asz,
          region_free_bytes = asz, region_free_blocks = e\<rparr>],
        region_count := region_count s + 1, total_bytes := total_bytes s + asz,
        free_bytes := free_bytes s + asz\<rparr>)"
    and e: "e \<noteq> 0" "pb_base m e = ab" "pb_size m e = asz" "pb_next m e = 0"
    and ag: "agree_on (covered (pmm_owned ?hh (kmem s) (concat bss) @ (?hh + base, unat sz) # live)) m (kmem s)"
    and ok: "pmm_arena_ok a ?hh m (concat bss) ((e, 24) # (?hh + base, unat sz) # live)"
    and fbl: "free_blocks a = free_blocks (block_arena s) - 1"
    using pmm_add_region_success [OF I(4) free, of base sz, folded ab_def asz_def] c ar(3) I(3) by auto
  define rs where "rs = (regions s)[length bss := \<lparr>region_base = ab, region_size = asz,
      region_free_bytes = asz, region_free_blocks = e\<rparr>]"
  have "0 < unat asz" using c(2) by (simp add: word_le_nat_alt)
  then have new: "pb_ok ?hh m e" using ar(2,4,5) nw by (simp add: pb_ok_def e)
  have "extent (?hh + ab) (unat asz) \<subseteq> extent (?hh + base) (unat sz)" by (rule image_parts(1) [OF nw ar(1,2)])
  then have ok': "pmm_arena_ok a ?hh m (concat (bss @ [[e]])) live"
    using pmm_arena_add [OF ok new] e by simp
  have st: "\<forall>b \<in> set (concat bss). extent b 24 \<subseteq>
      covered (pmm_owned ?hh (kmem s) (concat bss) @ (?hh + base, unat sz) # live)"
    by (intro ballI extent_subset_covered) (auto simp: pmm_owned_def pb_struct_def)
  have szs: "pb_sizes m (bss ! j) = pb_sizes (kmem s) (bss ! j)" if "j < length bss" for j
    using owned_agree(2) [OF ag, of "bss ! j"] st subsetD [OF concat_nth_set [OF that]] by blast
  have "pmm_regions_ok (regions s) m bss" by (rule pmm_regions_frame [OF I(5) st ag])
  moreover have "chain 16 m e [e]" using e by (simp add: chain_Cons pb_next_def)
  ultimately have ro: "pmm_regions_ok rs m (bss @ [[e]])"
    using c(1) I(2) e by (auto simp: pmm_regions_ok_def rs_def nth_append nth_list_update less_Suc_eq pb_sizes_def)
  have rc: "unat (region_count s + 1) = length (bss @ [[e]])"
    using I(3) c(1) by (subst unat_add_eq) (simp_all add: REGION_COUNT_def)
  have fb: "unat (free_bytes s + asz) = unat (free_bytes s) + unat asz"
    using tot ar(6) by (intro unat_add_eq) simp
  have "(\<Sum>i < length bss. unat (region_free_bytes (rs ! i))) = unat (free_bytes s)"
    unfolding I(6) by (rule sum.cong) (auto simp: rs_def)
  then have sum: "(\<Sum>i < length (bss @ [[e]]). unat (region_free_bytes (rs ! i))) = unat (free_bytes s + asz)"
    using c(1) I(2) by (simp add: fb) (simp add: rs_def)
  have "agree_on (covered live) m (kmem s)" by (rule agree_on_mono [OF ag]) auto
  then show ?thesis
    using run I(1-3) ok' ro rc sum c(1) e fbl szs
    by (intro exI [of _ e]) (auto simp: pmm_inv_def rs_def)
qed

section \<open>Initialising\<close>

lemma pmm_initialize_correct:
  assumes boot: "region_count s = 0" "free_bytes s = 0" "length (regions s) = REGION_COUNT" "hhdm_offset s \<noteq> 0"
    and buf: "initial_buf s \<noteq> 0" "unat (initial_buf s) + 2432 < 2 ^ 64"
    and ap: "all_apart ((initial_buf s, 2432) # live)"
  shows "\<exists>s'. pmm_initialize pol s = Inr s' \<and> pmm_inv s' [] live \<and> 98 \<le> unat (free_blocks (block_arena s')) \<and>
    policy s' = pol \<and> agree_on (covered live) (kmem s') (kmem s) \<and>
    s' = s\<lparr>policy := pol, kmem := kmem s', block_arena := block_arena s'\<rparr>"
proof -
  let ?a = "slab_init sizeof_pmm_memory_block" and ?b = "initial_buf s"
  have a: "block_size ?a = 24" "free_blocks ?a = 0" "current_region ?a = 0" "block_list ?a = 0" "\<not> auto_refill ?a"
    by (simp_all add: slab_init_def SLAB_BLOCK_SIZE_def sizeof_pmm_memory_block_def)
  have sz: "INITIAL_BUF_SIZE = 2432"
    by (simp add: INITIAL_BUF_SIZE_def SLAB_REGION_SIZE_def SLAB_BLOCK_SIZE_def sizeof_slab_region_def
        sizeof_pmm_memory_block_def ALIGN_UP_def)
  have inv: "slab_inv ?a (kmem s) [] [] live" using a ap by (intro slab_inv_init) simp_all
  define nb where "nb = (slab_last ?b 2432 24 - slab_first ?b 24) div 24"
  have fresh: "extent ?b (unat (2432 :: u64)) \<inter> covered (slab_ranges (block_size ?a) (kmem s) [] [] @ live) = {}"
    using all_apart_covered_hd [OF ap] by (simp add: slab_ranges_def)
  obtain c m rs where g: "slab_grow ?a ?b 2432 (kmem s) = Inr (?a\<lparr>free_blocks := free_blocks ?a + nb,
        total_blocks := total_blocks ?a + nb, current_region := c\<rparr>, m)"
    and i: "slab_inv (?a\<lparr>free_blocks := free_blocks ?a + nb, total_blocks := total_blocks ?a + nb,
        current_region := c\<rparr>) m rs [] live"
    and ag: "agree_on (- (extent ?b 32 \<union> covered (map (\<lambda>r. (r, 32)) []))) m (kmem s)"
    using slab_grow_correct [OF inv buf(1) _ _ _ fresh] buf(2) a(1) by (auto simp: nb_def)
  have nw: "unat ?b + unat (2432 :: u64) < 2 ^ 64" using buf(2) by simp
  note b = slab_bounds [of 24 ?b 2432, OF _ nw, simplified]
  have d: "unat (slab_last ?b 2432 24 - slab_first ?b 24) = unat (slab_last ?b 2432 24) - unat (slab_first ?b 24)"
    using b by (intro unat_sub_eq) (simp add: word_le_nat_alt)
  have "98 * 24 \<le> unat (slab_last ?b 2432 24) - unat (slab_first ?b 24)" using b by linarith
  then have "98 \<le> unat nb" by (simp add: nb_def unat_div d less_eq_div_iff_mult_less_eq)
  moreover have "covered live \<subseteq> - extent ?b 32"
    using all_apart_covered_hd [OF ap] extent_mono [of 32 2432 ?b] by auto
  then have "agree_on (covered live) m (kmem s)" by (intro agree_on_mono [OF ag]) auto
  moreover have "pmm_inv (s\<lparr>policy := pol, kmem := m, block_arena := ?a\<lparr>free_blocks := free_blocks ?a + nb,
        total_blocks := total_blocks ?a + nb, current_region := c\<rparr>\<rparr>) [] live"
    using boot i a by (auto simp: pmm_inv_def pmm_arena_ok_def pmm_owned_def pmm_regions_ok_def REGION_COUNT_def)
  ultimately show ?thesis
    using g a by (simp add: pmm_initialize_def with_mem_def sz)
qed

lemma pmm_try_regions_none: "pmm_try_regions i n al s = Inr (None, s') \<Longrightarrow> s' = s"
proof (induction i n al s rule: pmm_try_regions.induct)
  case (1 i n al s)
  then show ?case
    by (subst (asm) (3) pmm_try_regions.simps) (auto simp: and_then_eq_Inr split: if_splits option.splits)
qed

section \<open>What the physical memory manager promises\<close>

text \<open>
  C19: \<^verbatim>\<open>pmm_initialize\<close>, called in the boot state with its static buffer overlapping nothing, always
  returns with an empty but usable manager: the invariant holds with no regions and its arena can
  give out at least 98 block structures, wherever the linker placed the buffer.
\<close>

theorem pmm_initialize_establishes:
  assumes "region_count s = 0" and "free_bytes s = 0" and "length (regions s) = REGION_COUNT" and "hhdm_offset s \<noteq> 0"
    and "initial_buf s \<noteq> 0" and "unat (initial_buf s) + 2432 < 2 ^ 64" and "all_apart ((initial_buf s, 2432) # live)"
  shows "case pmm_initialize pol s of Inl h \<Rightarrow> False
    | Inr s' \<Rightarrow> pmm_inv s' [] live \<and> 98 \<le> unat (free_blocks (block_arena s')) \<and> policy s' = pol \<and>
        agree_on (covered live) (kmem s') (kmem s)"
  using pmm_initialize_correct [where pol = pol, OF assms] by auto


text \<open>
  C8: \<^verbatim>\<open>pmm_alloc_aligned\<close> under the first-fit policy, with enough block structures left and a request
  that does not wrap around, always returns.  It succeeds exactly when some free block can hold the
  request at its alignment; the range it returns was free, is aligned and zeroed, touches nothing
  live and is live from then on, the free-memory counter drops by exactly its size, and the
  invariant is kept.  Otherwise it reports \<^verbatim>\<open>EC_PMM_OUT_OF_MEMORY\<close> and changes nothing.
\<close>

theorem pmm_alloc_aligned_safe:
  assumes "pmm_inv s bss live" and "pmm_request_ok (hhdm_offset s) k (ALIGN_UP sz PAGE_SIZE)"
    and "16 \<le> free_blocks (block_arena s)" and "policy s = PMM_POLICY_FIRST_FIT"
  shows "case pmm_alloc_aligned sz (2 ^ k) (Some v) s of Inl h \<Rightarrow> False
    | Inr ((err, region), s') \<Rightarrow>
        if \<exists>b \<in> set (concat bss). pb_fits (kmem s) (ALIGN_UP sz PAGE_SIZE) (2 ^ k) b
        then err = ec EC_SUCCESS \<and>
          (\<exists>p bss'. region = Some p \<and> pmm_granted s bss live k (ALIGN_UP sz PAGE_SIZE) p s' bss')
        else err = ec EC_PMM_OUT_OF_MEMORY \<and> region = Some 0 \<and> s' = s"
proof (cases "\<exists>b \<in> set (concat bss). pb_fits (kmem s) (ALIGN_UP sz PAGE_SIZE) (2 ^ k) b")
  case True
  then show ?thesis using pmm_alloc_aligned_correct [OF assms, of v] by (auto simp del: set_concat)
next
  case False
  then show ?thesis using pmm_alloc_aligned_correct [OF assms, of v] by (simp del: set_concat)
qed

text \<open>
  In every state, well-formed or not, an allocation that reports an error has changed nothing but
  the out-parameter, which is cleared; a null out-parameter and a bad alignment are reported as
  such whatever the state.
\<close>

theorem pmm_failed_alloc_changes_nothing:
  "case pmm_alloc_aligned sz al region s of Inl h \<Rightarrow> region \<noteq> None
   | Inr ((err, region'), s') \<Rightarrow>
       (if region = None then err = ec EC_NULL_ARGUMENT
        else if al < PAGE_SIZE \<or> al AND (al - 1) \<noteq> 0 then err = ec EC_PMM_BAD_ALIGNMENT
        else err \<in> {ec EC_SUCCESS, ec EC_PMM_OUT_OF_MEMORY}) \<and>
       (err = ec EC_SUCCESS \<or> s' = s \<and> region' = map_option (\<lambda>_. 0) region)"
  using pmm_try_regions_none [of 0 "ALIGN_UP sz PAGE_SIZE" al s]
  by (auto simp: pmm_alloc_aligned_def Let_def and_then_def split: sum.splits option.splits)

section \<open>What the physical memory manager does not do\<close>

lemma pmm_single_walk:
  assumes inv: "pmm_inv s [[c]] live" and fit: "pb_fits (kmem s) n al c" and fr: "n \<le> region_free_bytes (regions s ! 0)"
  shows "pmm_try_regions 0 n al s = and_then (pmm_take 0 0 c n al s) (\<lambda>(p, s). Inr (Some p, s))"
proof -
  have ch: "chain 16 (kmem s) (region_free_blocks (regions s ! 0)) [c]" and rc: "unat (region_count s) = 1"
    using inv by (simp_all add: pmm_inv_def pmm_regions_ok_def)
  then have "pmm_walk (kmem s) n al 0 (region_free_blocks (regions s ! 0)) = Some (0, c)" "c \<noteq> 0"
    using fit by (simp_all add: chain_Cons pmm_walk.simps)
  moreover have "\<not> region_free_bytes (regions s ! 0) < n" using fr by (simp add: not_less)
  ultimately show ?thesis using rc by (simp add: pmm_try_regions.simps [of 0] REGION_COUNT_def)
qed

text \<open>
  C27: when the aligned range lies strictly inside a free block, the memory behind it is lost: the
  block is cut down to what precedes the range, and the structure made for what follows is put on
  no list.  The free-memory counter drops by the size of the request alone, so the manager goes on
  counting memory that no later allocation can find.
\<close>

theorem pmm_alloc_leaks_tail:
  assumes "pmm_inv s [[c]] live" and "pmm_request_ok (hhdm_offset s) k (ALIGN_UP sz PAGE_SIZE)"
    and "16 \<le> free_blocks (block_arena s)" and "policy s = PMM_POLICY_FIRST_FIT"
    and "pb_fits (kmem s) (ALIGN_UP sz PAGE_SIZE) (2 ^ k) c"
    and "ALIGN_UP (pb_base (kmem s) c) (2 ^ k) \<noteq> pb_base (kmem s) c"
  defines "p \<equiv> ALIGN_UP (pb_base (kmem s) c) (2 ^ k)" and "n \<equiv> ALIGN_UP sz PAGE_SIZE"
  shows "case pmm_alloc_aligned sz (2 ^ k) (Some v) s of Inl h \<Rightarrow> False
    | Inr ((err, region), s') \<Rightarrow> err = ec EC_SUCCESS \<and> region = Some p \<and>
        pmm_inv s' [[c]] ((hhdm_offset s + p, unat n) # live) \<and>
        unat (free_bytes s') = unat (free_bytes s) - unat n \<and>
        pb_sizes (kmem s') [c] = pb_sizes (kmem s) [c] -
          (unat (pb_base (kmem s) c) + unat (pb_size (kmem s) c) - unat p)"
proof -
  have k: "12 \<le> k" "k < 64" using assms(2) by (simp_all add: pmm_request_ok_def)
  have al: "\<not> ((2 :: u64) ^ k < PAGE_SIZE \<or> 2 ^ k AND (2 ^ k - 1) \<noteq> (0 :: u64))"
    using pow2_and_pred [OF k(2)] pow2_ge_page [OF k] by (simp add: not_less)
  have ar: "\<not> free_blocks (block_arena s) < 16" "free_blocks (block_arena s) \<noteq> 0" using assms(3) by auto
  have nf: "n \<le> region_free_bytes (regions s ! 0)" "n \<le> free_bytes s"
    using pb_fits_free [OF assms(1,2), of 0 c] assms(5) by (simp_all add: n_def)
  obtain s' bss' where tk: "pmm_take 0 0 c n (2 ^ k) s = Inr (p, s')" and g: "pmm_granted s [[c]] live k n p s' bss'"
    and mid: "bss' = [[c]]" "pb_size (kmem s') c = p - pb_base (kmem s) c"
    using pmm_take_correct [OF assms(1,2) _ _ assms(5) ar(2), of 0 "[]" "[]" 0] assms(6) by (auto simp: n_def p_def)
  have pok: "pb_ok (hhdm_offset s) (kmem s) c" using assms(1) by (simp add: pmm_inv_def pmm_arena_ok_def)
  note f = pb_fits_nat [OF pok assms(2), folded p_def n_def]
  have "unat (p - pb_base (kmem s) c) = unat p - unat (pb_base (kmem s) c)"
    using f(1) by (intro unat_sub_eq) (simp add: word_le_nat_alt)
  moreover have "pmm_alloc_aligned sz (2 ^ k) (Some v) s = Inr ((ec EC_SUCCESS, Some p), s')"
    using al ar nf assms(4) pmm_single_walk [OF assms(1) _ nf(1)] assms(5) tk
    by (simp add: pmm_alloc_aligned_def Let_def not_less flip: n_def)
  moreover have "unat (free_bytes s') + unat n = unat (free_bytes s)" using g by (simp add: pmm_granted_def)
  then have "unat (free_bytes s') = unat (free_bytes s) - unat n" by linarith
  moreover have "pmm_inv s' [[c]] ((hhdm_offset s + p, unat n) # live)"
    "unat p + unat n \<le> unat (pb_base (kmem s) c) + unat (pb_size (kmem s) c)"
    using g mid by (simp_all add: pmm_granted_def)
  ultimately show ?thesis using mid f(1) by (simp add: pb_sizes_def)
qed

lemma align_up_page_wraps:
  assumes "2 ^ 64 - 4096 < unat sz"
  shows "ALIGN_UP sz PAGE_SIZE = 0"
proof -
  have "unat (sz + 4095) = unat sz + 4095 - 2 ^ 64"
    using assms unat_lt_2_64 [of sz] by (simp add: unat_word_ariths le_mod_geq)
  then have "unat (sz + 4095) < 4096" using unat_lt_2_64 [of sz] by simp
  then have "unat (ALIGN_DOWN (sz + 4095) (2 ^ 12)) = 0" by (simp only: ALIGN_DOWN_pow2) simp
  then show ?thesis by (simp add: ALIGN_UP_as_DOWN unat_eq_0)
qed

text \<open>
  A request within a page of \<open>2 ^ 64\<close> bytes is rounded up to zero, and \<^verbatim>\<open>pmm_alloc\<close> then reports
  success for it as long as a single free block is left, without taking any memory.
\<close>

theorem pmm_alloc_huge_request_succeeds:
  assumes "pmm_inv s bss live" and "concat bss \<noteq> []" and "2 ^ 12 \<le> unat (hhdm_offset s)"
    and "16 \<le> free_blocks (block_arena s)" and "policy s = PMM_POLICY_FIRST_FIT" and "2 ^ 64 - 4096 < unat sz"
  shows "case pmm_alloc sz (Some v) s of Inl h \<Rightarrow> False
    | Inr ((err, region), s') \<Rightarrow> err = ec EC_SUCCESS \<and> region \<noteq> None \<and> free_bytes s' = free_bytes s"
proof -
  have z: "ALIGN_UP sz PAGE_SIZE = 0" by (rule align_up_page_wraps [OF assms(6)])
  have req: "pmm_request_ok (hhdm_offset s) 12 (ALIGN_UP sz PAGE_SIZE)"
    using assms(3) by (simp add: pmm_request_ok_def z)
  obtain b where b: "b \<in> set (concat bss)" using assms(2) by (metis last_in_set)
  then have pok: "pb_ok (hhdm_offset s) (kmem s) b" using assms(1) by (simp add: pmm_inv_def pmm_arena_ok_def del: set_concat)
  note f = pb_fits_nat [OF pok req]
  have "ALIGN_UP (pb_base (kmem s) b) (2 ^ 12) = pb_base (kmem s) b"
    using pok by (intro ALIGN_UP_fixed) (simp_all add: pb_ok_def)
  then have "pb_fits (kmem s) (ALIGN_UP sz PAGE_SIZE) (2 ^ 12) b" using f(5) by (simp add: z)
  with b have ex: "\<exists>b \<in> set (concat bss). pb_fits (kmem s) (ALIGN_UP sz PAGE_SIZE) (2 ^ 12) b" by blast
  obtain p s' bss' where "pmm_alloc_aligned sz (2 ^ 12) (Some v) s = Inr ((ec EC_SUCCESS, Some p), s')"
    "pmm_granted s bss live 12 0 p s' bss'"
    using pmm_alloc_aligned_correct [OF assms(1) req assms(4,5), of v] ex unfolding z by (simp only: if_True) blast
  moreover from this(2) have "free_bytes s' = free_bytes s" by (simp add: pmm_granted_def flip: word_unat_eq_iff)
  ultimately show ?thesis by (simp add: pmm_alloc_def)
qed

text \<open>
  \<^verbatim>\<open>pmm_add_region\<close> computes the size that is left after aligning the base without asking whether
  anything is left: the one byte at \<open>0x1001\<close> is accepted as a region of \<open>2 ^ 64 - 4096\<close> bytes at
  \<open>0x2000\<close>, and the total shrinks by a page.
\<close>

theorem pmm_add_region_accepts_tiny:
  assumes "pmm_inv s bss live" and "length bss < REGION_COUNT" and "free_blocks (block_arena s) \<noteq> 0"
    and "\<not> list_ex (region_overlaps 0x2000) (take (length bss) (regions s))"
  shows "case pmm_add_region 0x1001 1 s of Inl h \<Rightarrow> False
    | Inr (err, s') \<Rightarrow> err = ec EC_SUCCESS \<and> total_bytes s' = total_bytes s - 0x1000 \<and>
        region_base (regions s' ! length bss) = 0x2000 \<and> unat (region_size (regions s' ! length bss)) = 2 ^ 64 - 4096"
proof -
  have ok: "pmm_arena_ok (block_arena s) (hhdm_offset s) (kmem s) (concat bss) live"
    and l: "unat (region_count s) = length bss" "length (regions s) = REGION_COUNT"
    using assms(1) by (simp_all add: pmm_inv_def)
  have ab: "ALIGN_UP 0x1001 PAGE_SIZE = 0x2000" by (simp add: ALIGN_UP_def)
  have asz: "ALIGN_DOWN (1 - (0x2000 - 0x1001)) PAGE_SIZE = - 0x1000" by (simp add: ALIGN_DOWN_def)
  show ?thesis
    using pmm_add_region_success [OF ok assms(3), of "0x1001" 1] assms(2,4) l
    unfolding ab asz by (auto simp: unat_uminus)
qed

text \<open>
  The overlap check only asks where a new region starts.  With \<open>[0x3000, 0x4000)\<close> managed, the
  region \<open>[0x1000, 0x5000)\<close> around it is accepted, and the adjacent \<open>[0x4000, 0x5000)\<close> is rejected.
\<close>

theorem pmm_add_region_overlap_check:
  assumes "pmm_inv s bss live" and "length bss = 1" and "free_blocks (block_arena s) \<noteq> 0"
    and "region_base (regions s ! 0) = 0x3000" and "region_size (regions s ! 0) = 0x1000"
  shows "pmm_add_region 0x4000 0x1000 s = Inr (ec EC_PMM_REGION_ALREADY_MANAGED, s) \<and>
    (case pmm_add_region 0x1000 0x4000 s of Inl h \<Rightarrow> False
     | Inr (err, s') \<Rightarrow> err = ec EC_SUCCESS \<and> region_base (regions s' ! 0) = 0x3000 \<and>
         region_base (regions s' ! 1) = 0x1000 \<and> region_size (regions s' ! 1) = 0x4000)"
proof (rule conjI)
  have ok: "pmm_arena_ok (block_arena s) (hhdm_offset s) (kmem s) (concat bss) live"
    and l: "unat (region_count s) = 1" "length (regions s) = REGION_COUNT"
    using assms(1,2) by (simp_all add: pmm_inv_def)
  have r: "take 1 (regions s) = [regions s ! 0]" using l(2) by (cases "regions s") (simp_all add: REGION_COUNT_def)
  show "pmm_add_region 0x4000 0x1000 s = Inr (ec EC_PMM_REGION_ALREADY_MANAGED, s)"
    using l r assms(4,5)
    by (simp add: pmm_add_region_def ALIGN_UP_def ALIGN_DOWN_def REGION_COUNT_def region_overlaps_def)
  have ab: "ALIGN_UP 0x1000 PAGE_SIZE = 0x1000" by (simp add: ALIGN_UP_def)
  have asz: "ALIGN_DOWN (0x4000 - (0x1000 - 0x1000)) PAGE_SIZE = 0x4000" by (simp add: ALIGN_DOWN_def)
  show "case pmm_add_region 0x1000 0x4000 s of Inl h \<Rightarrow> False
      | Inr (err, s') \<Rightarrow> err = ec EC_SUCCESS \<and> region_base (regions s' ! 0) = 0x3000 \<and>
          region_base (regions s' ! 1) = 0x1000 \<and> region_size (regions s' ! 1) = 0x4000"
    using pmm_add_region_success [OF ok assms(3), of "0x1000" "0x4000"] l r assms(4,5)
    unfolding ab asz by (auto simp: region_overlaps_def REGION_COUNT_def)
qed

section \<open>The theorems at concrete states\<close>

text \<open>The kernel before \<^verbatim>\<open>pmm_initialize\<close>, with the direct map at \<open>0xFFFFFFC000000000\<close>.\<close>

definition boot_kernel :: kernel where
  "boot_kernel = \<lparr>kmem = (\<lambda>_. 0), io_inputs = (\<lambda>_. 0), io_events = [], uart_base_address = 0, put = None,
     print_buf = [], hhdm_offset = 0xFFFFFFC000000000, policy = PMM_POLICY_FIRST_FIT, total_bytes = 0,
     free_bytes = 0, region_count = 0,
     regions = replicate 32 \<lparr>region_base = 0, region_size = 0, region_free_bytes = 0, region_free_blocks = 0\<rparr>,
     block_arena = slab_init 0, initial_buf = 0xFFFFFFFF80000000\<rparr>"

lemma boot_manager:
  assumes "all_apart ((0xFFFFFFFF80000000, 2432) # live)"
  obtains s :: kernel where "pmm_initialize PMM_POLICY_FIRST_FIT boot_kernel = Inr s" and "pmm_inv s [] live"
    and "98 \<le> unat (free_blocks (block_arena s))" and "policy s = PMM_POLICY_FIRST_FIT"
    and "hhdm_offset s = 0xFFFFFFC000000000" and "free_bytes s = 0" and "total_bytes s = 0"
proof -
  obtain s :: kernel where s: "pmm_initialize PMM_POLICY_FIRST_FIT boot_kernel = Inr s" "pmm_inv s [] live"
      "98 \<le> unat (free_blocks (block_arena s))" "policy s = PMM_POLICY_FIRST_FIT"
    and e: "s = boot_kernel\<lparr>policy := PMM_POLICY_FIRST_FIT, kmem := kmem s, block_arena := block_arena s\<rparr>"
    using pmm_initialize_correct [of boot_kernel live PMM_POLICY_FIRST_FIT] assms
    by (auto simp: boot_kernel_def REGION_COUNT_def)
  have "hhdm_offset s = 0xFFFFFFC000000000" "free_bytes s = 0" "total_bytes s = 0"
    by (subst e, simp add: boot_kernel_def)+
  with s that show thesis by blast
qed

lemma boot_with_region:
  assumes nw: "unat (0xFFFFFFC000000000 :: u64) + unat base + unat sz < 2 ^ 64" and sz: "PAGE_SIZE \<le> sz"
    and ap: "all_apart ((0xFFFFFFFF80000000, 2432) # (0xFFFFFFC000000000 + base, unat sz) # live)"
    and asz: "PAGE_SIZE \<le> ALIGN_DOWN (sz - (ALIGN_UP base PAGE_SIZE - base)) PAGE_SIZE"
  obtains s :: kernel and e where "pmm_inv s [[e]] live" and "hhdm_offset s = 0xFFFFFFC000000000" and "policy s = PMM_POLICY_FIRST_FIT"
    and "97 \<le> unat (free_blocks (block_arena s))" and "pb_base (kmem s) e = ALIGN_UP base PAGE_SIZE"
    and "pb_size (kmem s) e = ALIGN_DOWN (sz - (ALIGN_UP base PAGE_SIZE - base)) PAGE_SIZE" and "free_bytes s = pb_size (kmem s) e"
proof -
  obtain s :: kernel where s: "pmm_inv s [] ((0xFFFFFFC000000000 + base, unat sz) # live)" "98 \<le> unat (free_blocks (block_arena s))"
    "policy s = PMM_POLICY_FIRST_FIT" "hhdm_offset s = 0xFFFFFFC000000000" "free_bytes s = 0"
    by (rule boot_manager [OF ap]) blast
  have fb: "free_blocks (block_arena s) \<noteq> 0" using s(2) by auto
  obtain e and s' :: kernel where e: "pmm_inv s' [[e]] live" "pb_base (kmem s') e = ALIGN_UP base PAGE_SIZE"
    "pb_size (kmem s') e = ALIGN_DOWN (sz - (ALIGN_UP base PAGE_SIZE - base)) PAGE_SIZE"
    "hhdm_offset s' = hhdm_offset s" "policy s' = policy s"
    "free_blocks (block_arena s') = free_blocks (block_arena s) - 1" "free_bytes s' = pb_size (kmem s') e"
    using pmm_add_region_correct [of s "[]" base sz live] s fb nw sz asz unat_lt_2_64 [of sz]
    by (auto simp: REGION_COUNT_def)
  have "unat (free_blocks (block_arena s) - 1) = unat (free_blocks (block_arena s)) - 1"
    using s(2) by (subst unat_sub_eq) (simp_all add: word_le_nat_alt)
  then show thesis using that e s by simp
qed

text \<open>Four megabytes at \<open>0x80001000\<close>, beside blocks that are in use already.\<close>

lemma boot_beside_free:
  assumes "all_apart ((0xFFFFFFFF80000000, 2432) # (0xFFFFFFC080001000, 0x400000) # live)"
  obtains s :: kernel and e where "pmm_inv s [[e]] live" and "hhdm_offset s = 0xFFFFFFC000000000" and "policy s = PMM_POLICY_FIRST_FIT"
    and "97 \<le> unat (free_blocks (block_arena s))" and "pb_base (kmem s) e = 0x80001000"
    and "pb_size (kmem s) e = 0x400000" and "free_bytes s = 0x400000"
  by (rule boot_with_region [of "0x80001000" "0x400000" live, rotated 2])
    (use that assms in \<open>simp_all add: ALIGN_UP_def ALIGN_DOWN_def\<close>)

lemma boot_beside:
  assumes "all_apart ((0xFFFFFFFF80000000, 2432) # (0xFFFFFFC080001000, 0x400000) # live)"
  obtains s :: kernel and e where "pmm_inv s [[e]] live" and "hhdm_offset s = 0xFFFFFFC000000000" and "policy s = PMM_POLICY_FIRST_FIT"
    and "97 \<le> unat (free_blocks (block_arena s))" and "pb_base (kmem s) e = 0x80001000"
    and "pb_size (kmem s) e = 0x400000"
  using boot_beside_free [OF assms] that by metis

lemma boot_four_megabytes:
  obtains s :: kernel and e where "pmm_inv s [[e]] []" and "hhdm_offset s = 0xFFFFFFC000000000" and "policy s = PMM_POLICY_FIRST_FIT"
    and "97 \<le> unat (free_blocks (block_arena s))" and "pb_base (kmem s) e = 0x80001000"
    and "pb_size (kmem s) e = 0x400000"
  by (rule boot_beside [of "[]"]) (use that in \<open>simp_all add: apart_pair extent_disjoint_iff\<close>)

theorem pmm_initialize_establishes_witness:
  "case pmm_initialize PMM_POLICY_FIRST_FIT boot_kernel of Inl h \<Rightarrow> False
   | Inr s' \<Rightarrow> pmm_inv s' [] [] \<and> 98 \<le> unat (free_blocks (block_arena s'))"
  using pmm_initialize_establishes [of boot_kernel "[]" PMM_POLICY_FIRST_FIT]
  by (auto simp: boot_kernel_def REGION_COUNT_def split: sum.splits)


theorem pmm_failed_alloc_changes_nothing_witness:
  "\<exists>s'. pmm_alloc_aligned 100 0x1800 (Some 5) boot_kernel = Inr ((ec EC_PMM_BAD_ALIGNMENT, Some 0), s') \<and> s' = boot_kernel"
proof -
  have "(0x1800 :: u64) AND (0x1800 - 1) \<noteq> 0" by simp
  then have "\<exists>r. pmm_alloc_aligned 100 0x1800 (Some 5) boot_kernel = Inr r" by (simp add: pmm_alloc_aligned_def Let_def)
  then show ?thesis using pmm_failed_alloc_changes_nothing [where sz = 100 and al = "0x1800" and region = "Some 5" and s = boot_kernel]
    by auto
qed

theorem pmm_alloc_aligned_safe_witness:
  "\<exists>(s :: kernel) e. pmm_inv s [[e]] [] \<and> (case pmm_alloc_aligned 100 (2 ^ 12) (Some 0) s of Inl h \<Rightarrow> False
    | Inr ((err, region), s') \<Rightarrow> err = ec EC_SUCCESS \<and>
        (\<exists>p bss'. region = Some p \<and> pmm_granted s [[e]] [] 12 0x1000 p s' bss'))"
proof -
  obtain s :: kernel and e where s: "pmm_inv s [[e]] []" "hhdm_offset s = 0xFFFFFFC000000000" "policy s = PMM_POLICY_FIRST_FIT"
    "97 \<le> unat (free_blocks (block_arena s))" "pb_base (kmem s) e = 0x80001000" "pb_size (kmem s) e = 0x400000"
    by (rule boot_four_megabytes)
  have z: "ALIGN_UP 100 PAGE_SIZE = 0x1000" by (simp add: ALIGN_UP_def)
  have "16 \<le> free_blocks (block_arena s)" using s(4) by (simp add: word_le_nat_alt)
  moreover have "pb_fits (kmem s) 0x1000 (2 ^ 12) e" by (simp add: pb_fits_def s(5,6) ALIGN_UP_def)
  ultimately show ?thesis
    using pmm_alloc_aligned_safe [of s "[[e]]" "[]" 12 100 0] s
    by (intro exI [of _ s] exI [of _ e]) (auto simp: z pmm_request_ok_def split: sum.splits if_splits)
qed

theorem pmm_alloc_leaks_tail_witness:
  "\<exists>(s :: kernel) c. pmm_inv s [[c]] [] \<and> pb_sizes (kmem s) [c] = 0x400000 \<and>
    (case pmm_alloc_aligned 0x1000 (2 ^ 21) (Some 0) s of Inl h \<Rightarrow> False
     | Inr ((err, region), s') \<Rightarrow> err = ec EC_SUCCESS \<and> region = Some 0x80200000 \<and>
         unat (free_bytes s') = unat (free_bytes s) - 0x1000 \<and> pb_sizes (kmem s') [c] = 0x1FF000)"
proof -
  obtain s :: kernel and c where s: "pmm_inv s [[c]] []" "hhdm_offset s = 0xFFFFFFC000000000" "policy s = PMM_POLICY_FIRST_FIT"
    "97 \<le> unat (free_blocks (block_arena s))" "pb_base (kmem s) c = 0x80001000" "pb_size (kmem s) c = 0x400000"
    by (rule boot_four_megabytes)
  have z: "ALIGN_UP 0x1000 PAGE_SIZE = 0x1000" "ALIGN_UP 0x80001000 (2 ^ 21) = 0x80200000"
    by (simp_all add: ALIGN_UP_def)
  have "16 \<le> free_blocks (block_arena s)" using s(4) by (simp add: word_le_nat_alt)
  moreover have "pb_fits (kmem s) 0x1000 (2 ^ 21) c" by (simp add: pb_fits_def s(5,6) z(2) [simplified])
  ultimately show ?thesis
    using pmm_alloc_leaks_tail [of s c "[]" 21 "0x1000" 0] s z
    by (intro exI [of _ s] exI [of _ c]) (auto simp: pmm_request_ok_def pb_sizes_def split: sum.splits)
qed

theorem pmm_alloc_huge_request_succeeds_witness:
  "\<exists>s :: kernel. case pmm_alloc 0xFFFFFFFFFFFFFFFF (Some 0) s of Inl h \<Rightarrow> False
    | Inr ((err, region), s') \<Rightarrow> err = ec EC_SUCCESS \<and> free_bytes s' = free_bytes s"
proof -
  obtain s :: kernel and c where s: "pmm_inv s [[c]] []" "hhdm_offset s = 0xFFFFFFC000000000" "policy s = PMM_POLICY_FIRST_FIT"
    "97 \<le> unat (free_blocks (block_arena s))" "pb_base (kmem s) c = 0x80001000" "pb_size (kmem s) c = 0x400000"
    by (rule boot_four_megabytes)
  have "16 \<le> free_blocks (block_arena s)" using s(4) by (simp add: word_le_nat_alt)
  then show ?thesis
    using pmm_alloc_huge_request_succeeds [of s "[[c]]" "[]" "0xFFFFFFFFFFFFFFFF" 0] s
    by (intro exI [of _ s]) (auto split: sum.splits)
qed

theorem pmm_add_region_accepts_tiny_witness:
  "\<exists>s :: kernel. case pmm_add_region 0x1001 1 s of Inl h \<Rightarrow> False
    | Inr (err, s') \<Rightarrow> err = ec EC_SUCCESS \<and> total_bytes s' = total_bytes s - 0x1000"
proof -
  obtain s :: kernel where s: "pmm_inv s [] []" "98 \<le> unat (free_blocks (block_arena s))"
    by (rule boot_manager [of "[]"]) auto
  then have "free_blocks (block_arena s) \<noteq> 0" by auto
  then show ?thesis
    using pmm_add_region_accepts_tiny [OF s(1)]
    by (intro exI [of _ s]) (auto simp: REGION_COUNT_def split: sum.splits)
qed

theorem pmm_add_region_overlap_check_witness:
  "\<exists>s :: kernel. pmm_add_region 0x4000 0x1000 s = Inr (ec EC_PMM_REGION_ALREADY_MANAGED, s) \<and>
    (case pmm_add_region 0x1000 0x4000 s of Inl h \<Rightarrow> False | Inr (err, s') \<Rightarrow> err = ec EC_SUCCESS)"
proof -
  have ap: "all_apart [(0xFFFFFFFF80000000, 2432), (0xFFFFFFC000000000 + 0x3000, unat (0x1000 :: u64))]"
    by (simp add: apart_pair extent_disjoint_iff)
  obtain s0 :: kernel where s0: "pmm_inv s0 [] [(0xFFFFFFC000000000 + 0x3000, unat (0x1000 :: u64))]"
    "98 \<le> unat (free_blocks (block_arena s0))" "hhdm_offset s0 = 0xFFFFFFC000000000" "free_bytes s0 = 0"
    by (rule boot_manager [OF ap]) blast
  then have fb: "free_blocks (block_arena s0) \<noteq> 0" by auto
  have ok: "pmm_arena_ok (block_arena s0) (hhdm_offset s0) (kmem s0) (concat []) [(0xFFFFFFC000000000 + 0x3000, unat (0x1000 :: u64))]"
    and l: "unat (region_count s0) = 0" "length (regions s0) = REGION_COUNT"
    using s0(1) by (simp_all add: pmm_inv_def)
  obtain e and s :: kernel where s: "pmm_add_region 0x3000 0x1000 s0 = Inr (ec EC_SUCCESS, s)" "pmm_inv s [[e]] []"
    "free_blocks (block_arena s) = free_blocks (block_arena s0) - 1"
    using pmm_add_region_correct [of s0 "[]" "0x3000" "0x1000" "[]"] s0 fb
    by (auto simp: REGION_COUNT_def ALIGN_UP_def ALIGN_DOWN_def)
  have "region_base (regions s ! 0) = 0x3000" "region_size (regions s ! 0) = 0x1000"
    using pmm_add_region_success [OF ok fb, of "0x3000" "0x1000"] s(1) l
    by (auto simp: REGION_COUNT_def ALIGN_UP_def ALIGN_DOWN_def)
  moreover have "unat (free_blocks (block_arena s0) - 1) = unat (free_blocks (block_arena s0)) - 1"
    using s0(2) by (subst unat_sub_eq) (simp_all add: word_le_nat_alt)
  then have "free_blocks (block_arena s) \<noteq> 0" using s0(2) s(3) by auto
  ultimately show ?thesis
    using pmm_add_region_overlap_check [OF s(2)] by (intro exI [of _ s]) (auto split: sum.splits)
qed

end
