(* ===== verification/Kvspace.thy ===== *)
theory Kvspace
  imports Pmm
begin

text \<open>
  \<^verbatim>\<open>kvspace.c\<close>: the higher-half direct map and the kernel's own allocation of whole pages.  A failed
  allocation and every \<^verbatim>\<open>kfree\<close> panic.  The module is the page source that slab allocators refill
  themselves from, and a source of blocks like the other allocators.
\<close>

definition kalloc :: "u64 \<Rightarrow> u64 \<Rightarrow> 'a kernel_scheme \<Rightarrow> halt + allocation \<times> 'a kernel_scheme" where
  "kalloc sz alignment s =
     and_then (pmm_alloc_aligned sz alignment (Some 0) s) (\<lambda>((err, pa), s).
       if error_is_err err then Inl Panicked
       else Inr (\<lparr>alloc_buffer = kernel_hhdm_phys_to_virt (the pa) s, alloc_size = sz\<rparr>, s))"

definition kalloc_array :: "u64 \<Rightarrow> u64 \<Rightarrow> 'a kernel_scheme \<Rightarrow> halt + allocation \<times> 'a kernel_scheme" where
  "kalloc_array cnt sz s = kalloc (cnt * sz) sz s"

definition kfree :: "allocation \<Rightarrow> 'a kernel_scheme \<Rightarrow> halt + 'a kernel_scheme" where
  "kfree region s =
     (let pa = kernel_hhdm_virt_to_phys (alloc_buffer region) s;
          err = pmm_free pa s
      in if error_is_err err then Inl Panicked else Inr s)"

definition krealloc :: "allocation \<Rightarrow> u64 \<Rightarrow> u64 \<Rightarrow> 'a kernel_scheme \<Rightarrow> halt + allocation \<times> 'a kernel_scheme" where
  "krealloc old new_size alignment s =
     (if alloc_buffer old = 0 then kalloc new_size alignment s
      else if new_size = 0 then and_then (kfree old s) (\<lambda>s. Inr (\<lparr>alloc_buffer = 0, alloc_size = 0\<rparr>, s))
      else and_then (kalloc new_size alignment s) (\<lambda>(new_alloc, s).
        if alloc_buffer new_alloc = 0 then Inr (\<lparr>alloc_buffer = 0, alloc_size = 0\<rparr>, s)
        else
          let copy_size = if alloc_size old < new_size then alloc_size old else new_size;
              s = s\<lparr>kmem := memcopy (kmem s) (alloc_buffer new_alloc) (alloc_buffer old) copy_size\<rparr>
          in and_then (kfree old s) (\<lambda>s. Inr (new_alloc, s))))"

section \<open>The page allocator's invariant\<close>

definition kvspace_inv :: "'a kernel_scheme \<Rightarrow> (addr \<times> nat) list \<Rightarrow> bool" where
  "kvspace_inv s live \<longleftrightarrow> (\<exists>bss. pmm_inv s bss live) \<and> 2 ^ 13 \<le> unat (hhdm_offset s)"

lemma pmm_inv_apart: "pmm_inv s bss live \<Longrightarrow> all_apart live"
  using pmm_owned_apart(1) by (fastforce simp: pmm_inv_def all_apart_append)

lemma pmm_inv_perm: "pmm_inv s bss live \<Longrightarrow> mset live = mset live' \<Longrightarrow> pmm_inv s bss live'"
  using pmm_arena_perm [of "block_arena s" "hhdm_offset s" "kmem s" "concat bss" live "concat bss" live']
  by (simp add: pmm_inv_def)

lemma pmm_inv_frame:
  assumes "pmm_inv s bss live" and "agree_on (- covered live) m (kmem s)"
  shows "pmm_inv (s\<lparr>kmem := m\<rparr>) bss live"
proof -
  have ok: "pmm_arena_ok (block_arena s) (hhdm_offset s) (kmem s) (concat bss) live"
    and ro: "pmm_regions_ok (regions s) (kmem s) bss" using assms(1) by (simp_all add: pmm_inv_def)
  note f = pmm_arena_frame [OF ok assms(2)]
  have "pmm_regions_ok (regions s) m bss" by (rule pmm_regions_frame [OF ro f(3) assms(2)])
  then show ?thesis using f(1) assms(1) by (simp add: pmm_inv_def)
qed

text \<open>A call that reports success, whatever the arena's fill and the policy were.\<close>

lemma pmm_alloc_success:
  assumes inv: "pmm_inv s bss live" and req: "pmm_request_ok (hhdm_offset s) k (ALIGN_UP sz PAGE_SIZE)"
    and run: "pmm_alloc_aligned sz (2 ^ k) (Some v) s = Inr ((err, region), s')" and ok: "\<not> error_is_err err"
  shows "\<exists>p bss'. region = Some p \<and> pmm_granted s bss live k (ALIGN_UP sz PAGE_SIZE) p s' bss'"
proof -
  have "error_is_err 6" "error_is_err 7"
    using error_is_err_ec [of EC_PMM_BAD_ALIGNMENT] error_is_err_ec [of EC_PMM_OUT_OF_MEMORY] by simp_all
  then have "16 \<le> free_blocks (block_arena s)" "policy s = PMM_POLICY_FIRST_FIT"
    using run ok by (auto simp: pmm_alloc_aligned_def Let_def not_less split: if_splits)
  note c = pmm_alloc_aligned_correct [OF inv req this, of v]
  have e: "error_is_err (ec EC_PMM_OUT_OF_MEMORY)" by (simp only: error_is_err_ec) simp
  show ?thesis
  proof (cases "\<exists>b \<in> set (concat bss). pb_fits (kmem s) (ALIGN_UP sz PAGE_SIZE) (2 ^ k) b")
    case True
    then show ?thesis using c run by auto
  next
    case False
    then have "err = ec EC_PMM_OUT_OF_MEMORY" using c run by simp
    then show ?thesis using e ok by simp
  qed
qed

lemma pmm_granted_hhdm:
  assumes "pmm_granted s bss live k n p s' bss'"
  shows "hhdm_offset s' = hhdm_offset s"
proof -
  have "s' = s\<lparr>kmem := kmem s', block_arena := block_arena s', regions := regions s', free_bytes := free_bytes s'\<rparr>"
    using assms by (simp add: pmm_granted_def)
  then show ?thesis by (rule ssubst) simp
qed

lemma kalloc_success:
  assumes inv: "pmm_inv s bss live" and req: "pmm_request_ok (hhdm_offset s) k (ALIGN_UP sz PAGE_SIZE)"
    and run: "kalloc sz (2 ^ k) s = Inr (b, s')"
  shows "\<exists>p bss'. b = \<lparr>alloc_buffer = hhdm_offset s + p, alloc_size = sz\<rparr> \<and>
    pmm_granted s bss live k (ALIGN_UP sz PAGE_SIZE) p s' bss'"
proof -
  obtain err pa s1 where r: "pmm_alloc_aligned sz (2 ^ k) (Some 0) s = Inr ((err, pa), s1)" "\<not> error_is_err err"
    "s1 = s'" "b = \<lparr>alloc_buffer = kernel_hhdm_phys_to_virt (the pa) s', alloc_size = sz\<rparr>"
    using run by (auto simp: kalloc_def and_then_eq_Inr split: if_splits)
  obtain p bss' where p: "pa = Some p" "pmm_granted s bss live k (ALIGN_UP sz PAGE_SIZE) p s' bss'"
    using pmm_alloc_success [OF inv req r(1,2)] r(3) by blast
  have "hhdm_offset s' = hhdm_offset s" using p(2) by (metis pmm_granted_hhdm)
  then have "b = \<lparr>alloc_buffer = hhdm_offset s + p, alloc_size = sz\<rparr>"
    using p(1) r(4) by (simp add: kernel_hhdm_phys_to_virt_def)
  then show ?thesis using p(2) by blast
qed

text \<open>The exact result of \<^verbatim>\<open>kalloc\<close> while the manager's own arena is not nearly empty.\<close>

lemma kalloc_correct:
  assumes inv: "pmm_inv s bss live" and req: "pmm_request_ok (hhdm_offset s) k (ALIGN_UP sz PAGE_SIZE)"
    and arena: "16 \<le> free_blocks (block_arena s)" and pol: "policy s = PMM_POLICY_FIRST_FIT"
  shows "case kalloc sz (2 ^ k) s of
      Inl h \<Rightarrow> h = Panicked \<and> (\<forall>b \<in> set (concat bss). \<not> pb_fits (kmem s) (ALIGN_UP sz PAGE_SIZE) (2 ^ k) b)
    | Inr (b, s') \<Rightarrow> \<exists>p bss'. b = \<lparr>alloc_buffer = hhdm_offset s + p, alloc_size = sz\<rparr> \<and>
        pmm_granted s bss live k (ALIGN_UP sz PAGE_SIZE) p s' bss'"
proof (cases "kalloc sz (2 ^ k) s")
  case (Inr r)
  then obtain b s' where run: "kalloc sz (2 ^ k) s = Inr (b, s')" by (cases r) auto
  from kalloc_success [OF inv req run] run show ?thesis by simp
next
  case (Inl h)
  note c = pmm_alloc_aligned_correct [OF inv req arena pol, of 0]
  have e: "error_is_err (ec EC_PMM_OUT_OF_MEMORY)" by (simp only: error_is_err_ec) simp
  have e0: "\<not> error_is_err (ec EC_SUCCESS)" by (simp only: error_is_err_ec not_not)
  show ?thesis
  proof (cases "\<exists>b \<in> set (concat bss). pb_fits (kmem s) (ALIGN_UP sz PAGE_SIZE) (2 ^ k) b")
    case True
    then obtain p s' where "pmm_alloc_aligned sz (2 ^ k) (Some 0) s = Inr ((ec EC_SUCCESS, Some p), s')" using c by auto
    then show ?thesis using Inl e0 by (simp add: kalloc_def)
  next
    case False
    then have "pmm_alloc_aligned sz (2 ^ k) (Some 0) s = Inr ((ec EC_PMM_OUT_OF_MEMORY, Some 0), s)" using c by simp
    then have "kalloc sz (2 ^ k) s = Inl Panicked" using e by (simp add: kalloc_def)
    then show ?thesis using Inl False by auto
  qed
qed

lemma pmm_granted_buffer:
  assumes inv: "pmm_inv s bss live" and g: "pmm_granted s bss live k n p s' bss'"
  shows "unat (hhdm_offset s + p) = unat (hhdm_offset s) + unat p" and "hhdm_offset s + p \<noteq> 0"
    and "unat (hhdm_offset s + p) + unat n < 2 ^ 64"
proof -
  have nz: "hhdm_offset s \<noteq> 0" using inv by (simp add: pmm_inv_def)
  have b: "unat (hhdm_offset s) + unat p + unat n < 2 ^ 64" using g by (simp add: pmm_granted_def)
  then show u: "unat (hhdm_offset s + p) = unat (hhdm_offset s) + unat p"
    by (intro unat_add_eq) (simp add: add_lessD1)
  show "unat (hhdm_offset s + p) + unat n < 2 ^ 64" using u b by simp
  have "unat (hhdm_offset s) \<noteq> 0" using nz by (simp add: unat_eq_0)
  then have "unat (hhdm_offset s + p) \<noteq> 0" using u by simp
  then show "hhdm_offset s + p \<noteq> 0" by (metis unat_0)
qed

section \<open>The module as a source of pages and of blocks\<close>

lemma kvspace_kalloc:
  assumes "kvspace_inv s live" and req: "pmm_request_ok (hhdm_offset s) k (ALIGN_UP sz PAGE_SIZE)"
    and run: "kalloc sz (2 ^ k) s = Inr (b, s')"
  shows "kvspace_inv s' ((alloc_buffer b, unat (ALIGN_UP sz PAGE_SIZE)) # live)"
    and "alloc_size b = sz \<and> alloc_buffer b \<noteq> 0 \<and> unat (alloc_buffer b) + unat (ALIGN_UP sz PAGE_SIZE) < 2 ^ 64"
    and "agree_on (covered live) (kmem s') (kmem s)"
    and "kmem s' ` extent (alloc_buffer b) (unat (ALIGN_UP sz PAGE_SIZE)) \<subseteq> {0}"
    and "s' = s\<lparr>kmem := kmem s', block_arena := block_arena s', regions := regions s', free_bytes := free_bytes s'\<rparr>"
proof -
  let ?n = "ALIGN_UP sz PAGE_SIZE"
  obtain bss where inv: "pmm_inv s bss live" and hh: "2 ^ 13 \<le> unat (hhdm_offset s)"
    using assms(1) by (auto simp: kvspace_inv_def)
  obtain p bss' where b: "b = \<lparr>alloc_buffer = hhdm_offset s + p, alloc_size = sz\<rparr>"
    and g: "pmm_granted s bss live k ?n p s' bss'"
    using kalloc_success [OF inv req run] by auto
  have hs: "hhdm_offset s' = hhdm_offset s" by (rule pmm_granted_hhdm [OF g])
  show "kvspace_inv s' ((alloc_buffer b, unat ?n) # live)"
    using g hh hs by (auto simp: kvspace_inv_def pmm_granted_def b)
  show "alloc_size b = sz \<and> alloc_buffer b \<noteq> 0 \<and> unat (alloc_buffer b) + unat ?n < 2 ^ 64"
    using pmm_granted_buffer [OF inv g] by (simp add: b)
  show "agree_on (covered live) (kmem s') (kmem s)" using g by (simp add: pmm_granted_def)
  show "kmem s' ` extent (alloc_buffer b) (unat ?n) \<subseteq> {0}" using g by (simp add: b pmm_granted_def)
  show "s' = s\<lparr>kmem := kmem s', block_arena := block_arena s', regions := regions s', free_bytes := free_bytes s'\<rparr>"
    using g by (simp add: pmm_granted_def)
qed

lemma kvspace_page:
  assumes "kvspace_inv s live" and "kalloc PAGE_SIZE PAGE_SIZE s = Inr (b, s')"
  shows "kvspace_inv s' ((alloc_buffer b, unat PAGE_SIZE) # live)"
    and "alloc_size b = PAGE_SIZE \<and> alloc_buffer b \<noteq> 0 \<and> unat (alloc_buffer b) + unat PAGE_SIZE < 2 ^ 64"
    and "agree_on (covered live) (kmem s') (kmem s)"
    and "kmem s' ` extent (alloc_buffer b) (unat PAGE_SIZE) \<subseteq> {0}"
proof -
  have n: "ALIGN_UP PAGE_SIZE PAGE_SIZE = PAGE_SIZE" by (simp add: ALIGN_UP_def)
  have req: "pmm_request_ok (hhdm_offset s) 12 (ALIGN_UP PAGE_SIZE PAGE_SIZE)"
    using assms(1) by (auto simp: n pmm_request_ok_def kvspace_inv_def)
  have "(2 :: u64) ^ 12 = PAGE_SIZE" by simp
  with assms(2) have run: "kalloc PAGE_SIZE (2 ^ 12) s = Inr (b, s')" by metis
  note K = kvspace_kalloc [OF assms(1) req run, unfolded n]
  show "kvspace_inv s' ((alloc_buffer b, unat PAGE_SIZE) # live)" by (rule K(1))
  show "alloc_size b = PAGE_SIZE \<and> alloc_buffer b \<noteq> 0 \<and> unat (alloc_buffer b) + unat PAGE_SIZE < 2 ^ 64" by (rule K(2))
  show "agree_on (covered live) (kmem s') (kmem s)" by (rule K(3))
  show "kmem s' ` extent (alloc_buffer b) (unat PAGE_SIZE) \<subseteq> {0}" by (rule K(4))
qed

text \<open>What an allocation can change, whatever the state of the manager is.\<close>

definition allocator_only :: "'a kernel_scheme \<Rightarrow> 'a kernel_scheme \<Rightarrow> bool" where
  "allocator_only s s' \<longleftrightarrow> (\<exists>m ba rg fb. s' = s\<lparr>kmem := m, block_arena := ba, regions := rg, free_bytes := fb\<rparr>)"

lemma allocator_onlyI: "s' = s\<lparr>kmem := m, block_arena := ba, regions := rg, free_bytes := fb\<rparr> \<Longrightarrow> allocator_only s s'"
  by (auto simp: allocator_only_def)

lemma allocator_only_refl [simp]: "allocator_only s s"
  by (rule allocator_onlyI [where m = "kmem s" and ba = "block_arena s" and rg = "regions s" and fb = "free_bytes s"]) simp

lemma allocator_only_trans: "allocator_only s s' \<Longrightarrow> allocator_only s' s'' \<Longrightarrow> allocator_only s s''"
  by (auto simp: allocator_only_def [of s s'] allocator_only_def [of s' s''] intro: allocator_onlyI)

lemma allocator_only_steps:
  "allocator_only s (s\<lparr>kmem := m\<rparr>)" "allocator_only s (s\<lparr>regions := rg\<rparr>)"
  "allocator_only s (s\<lparr>kmem := m, block_arena := ba\<rparr>)" "allocator_only s (s\<lparr>regions := rg, free_bytes := fb, kmem := m\<rparr>)"
proof -
  show "allocator_only s (s\<lparr>kmem := m\<rparr>)"
    by (rule allocator_onlyI [where m = m and ba = "block_arena s" and rg = "regions s" and fb = "free_bytes s"]) simp
  show "allocator_only s (s\<lparr>regions := rg\<rparr>)"
    by (rule allocator_onlyI [where m = "kmem s" and ba = "block_arena s" and rg = rg and fb = "free_bytes s"]) simp
  show "allocator_only s (s\<lparr>kmem := m, block_arena := ba\<rparr>)"
    by (rule allocator_onlyI [where m = m and ba = ba and rg = "regions s" and fb = "free_bytes s"]) simp
  show "allocator_only s (s\<lparr>regions := rg, free_bytes := fb, kmem := m\<rparr>)"
    by (rule allocator_onlyI [where m = m and ba = "block_arena s" and rg = rg and fb = fb]) simp
qed

lemma slab_allocate_only:
  assumes kal: "\<And>b s s'. kal PAGE_SIZE PAGE_SIZE s = Inr (b, s') \<Longrightarrow> allocator_only s s'"
    and "slab_allocate kal a s = Inr (p, a', s')"
  shows "allocator_only s s'"
  using assms(2) allocator_only_steps(1)
  by (auto simp: slab_allocate_def slab_refill_def with_mem_def and_then_eq_Inr Let_def split: if_splits prod.splits
      dest!: kal intro: allocator_only_trans)

lemma block_allocate_only: "block_allocate s = Inr (p, s') \<Longrightarrow> allocator_only s s'"
proof -
  assume "block_allocate s = Inr (p, s')"
  then obtain a s1 where s1: "slab_allocate (\<lambda>_ _ _. Inl Unreachable) (block_arena s) s = Inr (p, a, s1)"
    and s': "s' = s1\<lparr>block_arena := a\<rparr>" by (auto simp: block_allocate_def and_then_eq_Inr)
  have "allocator_only s s1" by (rule slab_allocate_only [OF _ s1]) simp
  moreover have "allocator_only s1 s'" using allocator_only_steps(3) [where s = s1 and m = "kmem s1" and ba = a] by (simp add: s')
  ultimately show ?thesis by (rule allocator_only_trans)
qed

lemma block_free_only: "block_free b s = Inr (e, s') \<Longrightarrow> allocator_only s s'"
  by (auto simp: block_free_def and_then_eq_Inr allocator_only_steps)

lemma pmm_split_only: "pmm_split i prev cur base sz s = Inr s' \<Longrightarrow> allocator_only s s'"
  by (auto simp: pmm_split_def Let_def and_then_eq_Inr kassert_eq_Inr allocator_only_steps split: if_splits
      dest!: block_allocate_only block_free_only intro: allocator_only_trans [OF allocator_only_steps(1)]
        allocator_only_trans [OF allocator_only_steps(2)] allocator_only_trans [OF _ allocator_only_steps(1)]
        allocator_only_trans [OF allocator_only_steps(1) allocator_only_trans [OF _ allocator_only_steps(1)]])

lemma pmm_try_regions_only: "pmm_try_regions i n al s = Inr (r, s') \<Longrightarrow> allocator_only s s'"
proof (induction i n al s arbitrary: r s' rule: pmm_try_regions.induct)
  case (1 i n al s)
  have take: "allocator_only s t" if "pmm_take i prev cur n al s = Inr (p, t)" for prev cur p t
    using that
    by (auto simp: pmm_take_def and_then_eq_Inr Let_def dest!: pmm_split_only
        intro: allocator_only_trans [OF _ allocator_only_steps(4)])
  show ?case
    using 1 take by (subst (asm) pmm_try_regions.simps) (auto simp: and_then_eq_Inr split: if_splits option.splits)
qed

lemma kalloc_only: "kalloc sz al s = Inr (b, s') \<Longrightarrow> allocator_only s s'"
  by (auto simp: kalloc_def pmm_alloc_aligned_def and_then_eq_Inr Let_def split: if_splits option.splits
      dest!: pmm_try_regions_only)

text \<open>A manager in which a request is sure to be granted; what the live blocks hold does not matter.\<close>

definition kalloc_ready :: "u64 \<Rightarrow> nat \<Rightarrow> 'a kernel_scheme \<Rightarrow> (addr \<times> nat) list \<Rightarrow> bool" where
  "kalloc_ready sz k s live \<longleftrightarrow> pmm_request_ok (hhdm_offset s) k (ALIGN_UP sz PAGE_SIZE) \<and>
     16 \<le> free_blocks (block_arena s) \<and> policy s = PMM_POLICY_FIRST_FIT \<and>
     (\<exists>bss. pmm_inv s bss live \<and> (\<exists>b \<in> set (concat bss). pb_fits (kmem s) (ALIGN_UP sz PAGE_SIZE) (2 ^ k) b))"

lemma kalloc_ready_runs: "kalloc_ready sz k s live \<Longrightarrow> \<exists>r. kalloc sz (2 ^ k) s = Inr r"
  using kalloc_correct [of s _ live k sz] by (cases "kalloc sz (2 ^ k) s") (auto simp: kalloc_ready_def)

lemma kalloc_ready_frame:
  assumes "kalloc_ready sz k s live" and ag: "agree_on (- covered live) m (kmem s)"
  shows "kalloc_ready sz k (s\<lparr>kmem := m\<rparr>) live"
proof -
  obtain bss b where b: "pmm_inv s bss live" "b \<in> set (concat bss)" "pb_fits (kmem s) (ALIGN_UP sz PAGE_SIZE) (2 ^ k) b"
    using assms(1) by (auto simp: kalloc_ready_def)
  have "pmm_arena_ok (block_arena s) (hhdm_offset s) (kmem s) (concat bss) live" using b(1) by (simp add: pmm_inv_def)
  note f = pmm_arena_frame(3) [OF this ag]
  have "pb_base m b = pb_base (kmem s) b" "pb_size m b = pb_size (kmem s) b"
    using pb_fields_agree(1,2) [OF ag] f b(2) by blast+
  then have "pb_fits m (ALIGN_UP sz PAGE_SIZE) (2 ^ k) b" using b(3) by (simp add: pb_fits_def)
  then show ?thesis using assms(1) pmm_inv_frame [OF b(1) ag] b(2) by (auto simp: kalloc_ready_def)
qed

interpretation kpages: page_source kvspace_inv kalloc
proof unfold_locales
  fix s s' :: "'a kernel_scheme" and live and m :: mem and b
  show "kvspace_inv s live \<Longrightarrow> all_apart live" by (auto simp: kvspace_inv_def dest: pmm_inv_apart)
  show "kvspace_inv s live \<Longrightarrow> agree_on (- covered live) m (kmem s) \<Longrightarrow> kvspace_inv (s\<lparr>kmem := m\<rparr>) live"
    using pmm_inv_frame by (fastforce simp: kvspace_inv_def)
qed (fact kvspace_page)+

type_synonym page_request = "u64 \<times> nat"

definition kalloc_request :: "page_request \<Rightarrow> 'a kernel_scheme \<Rightarrow> halt + addr \<times> 'a kernel_scheme" where
  "kalloc_request r s = and_then (kalloc (fst r) (2 ^ snd r) s) (\<lambda>(b, s). Inr (alloc_buffer b, s))"

definition page_request_len :: "page_request \<Rightarrow> nat" where
  "page_request_len r = unat (ALIGN_UP (fst r) PAGE_SIZE)"

definition page_request_ok :: "page_request \<Rightarrow> 'a kernel_scheme \<Rightarrow> bool" where
  "page_request_ok r s \<longleftrightarrow> pmm_request_ok (hhdm_offset s) (snd r) (ALIGN_UP (fst r) PAGE_SIZE)"

lemma kalloc_request_correct:
  assumes "kvspace_inv s live" and "page_request_ok r s" and "kalloc_request r s = Inr (p, s')"
  shows "kvspace_inv s' (if p = 0 then live else (p, page_request_len r) # live)"
    and "agree_on (covered live) (kmem s') (kmem s)"
    and "page_request_ok r' s \<Longrightarrow> page_request_ok r' s'"
proof -
  obtain b where run: "kalloc (fst r) (2 ^ snd r) s = Inr (b, s')" and p: "p = alloc_buffer b"
    using assms(3) by (auto simp: kalloc_request_def and_then_eq_Inr)
  have req: "pmm_request_ok (hhdm_offset s) (snd r) (ALIGN_UP (fst r) PAGE_SIZE)"
    using assms(2) by (simp add: page_request_ok_def)
  note K = kvspace_kalloc [OF assms(1) req run]
  show "kvspace_inv s' (if p = 0 then live else (p, page_request_len r) # live)"
    using K(1,2) by (simp add: p page_request_len_def)
  show "agree_on (covered live) (kmem s') (kmem s)" by (rule K(3))
  have "hhdm_offset s' = hhdm_offset s" by (subst K(5)) simp
  then show "page_request_ok r' s \<Longrightarrow> page_request_ok r' s'" by (simp add: page_request_ok_def)
qed

interpretation kpage_blocks: block_source kvspace_inv page_request_ok kalloc_request page_request_len kmem
proof unfold_locales
  fix s s' :: "'a kernel_scheme" and live live' and p and r r' :: page_request
  show "kvspace_inv s live \<Longrightarrow> all_apart live" by (rule kpages.kinv_apart)
  show "kvspace_inv s live \<Longrightarrow> mset live = mset live' \<Longrightarrow> kvspace_inv s live'"
    unfolding kvspace_inv_def by (blast intro: pmm_inv_perm)
qed (fact kalloc_request_correct)+

section \<open>A manager with one block in each region\<close>

text \<open>
  A manager nothing was ever given back to: every region has at most one free block, and all that is
  counted as free lies in them.  Pages are taken from the fronts of the blocks, which keeps it so.
\<close>

definition one_each :: "'a kernel_scheme \<Rightarrow> (addr \<times> nat) list \<Rightarrow> bool" where
  "one_each s live \<longleftrightarrow> policy s = PMM_POLICY_FIRST_FIT \<and> 16 \<le> free_blocks (block_arena s) \<and>
     (\<exists>bss. pmm_inv s bss live \<and> (\<forall>j < length bss. length (bss ! j) \<le> 1) \<and>
        unat (free_bytes s) = (\<Sum>j < length bss. pb_sizes (kmem s) (bss ! j)))"

lemma one_each_kept:
  assumes one: "one_each s live" and req: "pmm_request_ok (hhdm_offset s) 12 (ALIGN_UP len PAGE_SIZE)"
    and run: "kalloc len PAGE_SIZE s = Inr (al, s')"
  shows "one_each s' ((alloc_buffer al, unat (ALIGN_UP len PAGE_SIZE)) # live)"
proof -
  let ?n = "ALIGN_UP len PAGE_SIZE"
  obtain bss where inv: "pmm_inv s bss live" and le: "\<forall>j < length bss. length (bss ! j) \<le> 1"
    and fb: "unat (free_bytes s) = (\<Sum>j < length bss. pb_sizes (kmem s) (bss ! j))"
    and pol: "policy s = PMM_POLICY_FIRST_FIT" and ar: "16 \<le> free_blocks (block_arena s)" using one by (auto simp: one_each_def)
  have "kalloc len (2 ^ 12) s = Inr (al, s')" using run by simp
  from kalloc_success [OF inv req this] obtain p bss' where b: "alloc_buffer al = hhdm_offset s + p" and g: "pmm_granted s bss live 12 ?n p s' bss'"
    by auto
  obtain i where i: "i < length bss" and cut: "pages_cut s bss i (unat ?n) s' bss'" using g by (auto simp: pmm_granted_def)
  have inv': "pmm_inv s' bss' ((alloc_buffer al, unat ?n) # live)" using g b by (simp add: pmm_granted_def)
  have eq: "s' = s\<lparr>kmem := kmem s', block_arena := block_arena s', regions := regions s', free_bytes := free_bytes s'\<rparr>"
    and fb': "unat (free_bytes s') + unat ?n = unat (free_bytes s)" using g by (simp_all add: pmm_granted_def)
  have "policy s' = policy s" "region_count s' = region_count s" by (subst eq; simp)+
  then have len: "length bss' = length bss" using inv inv' by (simp add: pmm_inv_def)
  have cj: "length (bss' ! j) \<le> length (bss ! j)"
    "pb_sizes (kmem s') (bss' ! j) + (if j = i then unat ?n else 0) = pb_sizes (kmem s) (bss ! j)" if "j < length bss" for j
    using cut that unfolding pages_cut_def by blast+
  have "(\<Sum>j < length bss. pb_sizes (kmem s') (bss' ! j)) + unat ?n = (\<Sum>j < length bss. pb_sizes (kmem s) (bss ! j))"
  proof (rule sum_update [OF i])
    show "pb_sizes (kmem s') (bss' ! j) = pb_sizes (kmem s) (bss ! j)" if "j < length bss" "j \<noteq> i" for j
      using cj(2) [OF that(1)] that(2) by simp
    show "pb_sizes (kmem s') (bss' ! i) + unat ?n = pb_sizes (kmem s) (bss ! i)" using cj(2) [OF i] by simp
  qed
  then have "unat (free_bytes s') = (\<Sum>j < length bss'. pb_sizes (kmem s') (bss' ! j))" using fb fb' len by simp
  moreover have "length (bss' ! j) \<le> 1" if "j < length bss'" for j
    using cj(1) le that order_trans unfolding len by blast
  moreover have "16 \<le> free_blocks (block_arena s')" using cut ar order_trans unfolding pages_cut_def by blast
  ultimately show ?thesis using inv' pol \<open>policy s' = policy s\<close> by (auto simp: one_each_def)
qed

text \<open>One of the regions has at least its share of the free memory.\<close>

lemma one_each_kalloc:
  assumes one: "one_each s live" and req: "pmm_request_ok (hhdm_offset s) 12 (ALIGN_UP len PAGE_SIZE)"
    and n: "0 < unat (ALIGN_UP len PAGE_SIZE)" "REGION_COUNT * unat (ALIGN_UP len PAGE_SIZE) \<le> unat (free_bytes s)"
  shows "\<exists>al s'. kalloc len PAGE_SIZE s = Inr (al, s')"
proof -
  let ?n = "ALIGN_UP len PAGE_SIZE"
  obtain bss where inv: "pmm_inv s bss live" and le: "\<forall>j < length bss. length (bss ! j) \<le> 1"
    and fb: "unat (free_bytes s) = (\<Sum>j < length bss. pb_sizes (kmem s) (bss ! j))"
    and pol: "policy s = PMM_POLICY_FIRST_FIT" and ar: "16 \<le> free_blocks (block_arena s)" using one by (auto simp: one_each_def)
  have len: "length bss \<le> REGION_COUNT" using inv by (simp add: pmm_inv_def)
  have "\<exists>j < length bss. unat ?n \<le> pb_sizes (kmem s) (bss ! j)"
  proof (rule ccontr)
    assume "\<not> ?thesis"
    then have lt: "pb_sizes (kmem s) (bss ! j) < unat ?n" if "j < length bss" for j using that by (auto simp: not_le)
    have "0 < length bss" using n fb by (cases bss) (auto simp: REGION_COUNT_def)
    then have "(\<Sum>j < length bss. pb_sizes (kmem s) (bss ! j)) < (\<Sum>j < length bss. unat ?n)"
      using lt by (intro sum_strict_mono) auto
    also have "\<dots> \<le> REGION_COUNT * unat ?n" using len by simp
    finally show False using fb n(2) by simp
  qed
  then obtain j where j: "j < length bss" "unat ?n \<le> pb_sizes (kmem s) (bss ! j)" by blast
  then obtain c where c: "bss ! j = [c]" using n(1) le by (cases "bss ! j") (auto simp: pb_sizes_def)
  then have cin: "c \<in> set (concat bss)" using subsetD [OF concat_nth_set [OF j(1)]] by simp
  have pok: "pb_ok (hhdm_offset s) (kmem s) c" using inv cin by (simp add: pmm_inv_def pmm_arena_ok_def del: set_concat)
  then have "ALIGN_UP (pb_base (kmem s) c) (2 ^ 12) = pb_base (kmem s) c"
    by (intro ALIGN_UP_fixed) (simp_all add: pb_ok_def)
  then have "pb_fits (kmem s) ?n (2 ^ 12) c" using pb_fits_nat(5) [OF pok req] j(2) c by (simp add: pb_sizes_def)
  then show ?thesis using kalloc_correct [OF inv req ar pol] cin by (auto split: sum.splits simp del: set_concat)
qed

text \<open>The same manager seen through its invariant, and what a change of live memory leaves of it.\<close>

lemma one_each_inv: "one_each s live \<Longrightarrow> 2 ^ 13 \<le> unat (hhdm_offset s) \<Longrightarrow> kvspace_inv s live"
  by (auto simp: one_each_def kvspace_inv_def)

lemma one_each_perm: "one_each s live \<Longrightarrow> mset live = mset live' \<Longrightarrow> one_each s live'"
  unfolding one_each_def using pmm_inv_perm by blast

lemma one_each_frame:
  assumes one: "one_each s live" and ag: "agree_on (- covered live) m (kmem s)"
  shows "one_each (s\<lparr>kmem := m\<rparr>) live"
proof -
  obtain bss where inv: "pmm_inv s bss live" and bss: "\<forall>j < length bss. length (bss ! j) \<le> 1"
    "unat (free_bytes s) = (\<Sum>j < length bss. pb_sizes (kmem s) (bss ! j))" using one by (auto simp: one_each_def)
  have "pmm_arena_ok (block_arena s) (hhdm_offset s) (kmem s) (concat bss) live" using inv by (simp add: pmm_inv_def)
  note f = pmm_arena_frame(3) [OF this ag]
  have "pb_sizes m (bss ! j) = pb_sizes (kmem s) (bss ! j)" if "j < length bss" for j
    using owned_agree(2) [OF ag, of "bss ! j"] f subsetD [OF concat_nth_set [OF that]] by blast
  then have "unat (free_bytes s) = (\<Sum>j < length bss. pb_sizes m (bss ! j))" using bss(2) by simp
  then show ?thesis using one pmm_inv_frame [OF inv ag] bss(1) by (auto simp: one_each_def)
qed

section \<open>Properties\<close>

text \<open>
  C17: while the manager's own arena has blocks to spare, \<^verbatim>\<open>kalloc\<close> panics exactly when no free
  block can hold the request at the alignment; otherwise it returns, through the higher-half
  mapping, an aligned, zeroed range of managed memory that touches nothing live.
\<close>

theorem kalloc_safe:
  assumes "pmm_inv s bss live" and "pmm_request_ok (hhdm_offset s) k (ALIGN_UP sz PAGE_SIZE)"
    and "16 \<le> free_blocks (block_arena s)" and "policy s = PMM_POLICY_FIRST_FIT"
  shows "case kalloc sz (2 ^ k) s of
      Inl h \<Rightarrow> h = Panicked \<and> (\<forall>b \<in> set (concat bss). \<not> pb_fits (kmem s) (ALIGN_UP sz PAGE_SIZE) (2 ^ k) b)
    | Inr (b, s') \<Rightarrow> \<exists>p bss'. b = \<lparr>alloc_buffer = kernel_hhdm_phys_to_virt p s, alloc_size = sz\<rparr> \<and>
        kernel_hhdm_virt_to_phys (alloc_buffer b) s' = p \<and>
        pmm_granted s bss live k (ALIGN_UP sz PAGE_SIZE) p s' bss'"
  using kalloc_correct [OF assms] pmm_granted_hhdm
  by (fastforce simp: kernel_hhdm_phys_to_virt_def kernel_hhdm_virt_to_phys_def split: sum.splits)

text \<open>A booted manager beside arbitrary blocks that are in use.\<close>

lemma ready_beside:
  assumes "all_apart ((0xFFFFFFFF80000000, 2432) # (0xFFFFFFC080001000, 0x400000) # live)"
    and "ALIGN_UP sz PAGE_SIZE \<le> 0x400000" and "2 ^ 12 dvd unat (ALIGN_UP sz PAGE_SIZE)"
  obtains s :: kernel where "kalloc_ready sz 12 s live" and "kvspace_inv s live" and "hhdm_offset s = 0xFFFFFFC000000000"
proof -
  obtain s :: kernel and e where s: "pmm_inv s [[e]] live" "hhdm_offset s = 0xFFFFFFC000000000" "policy s = PMM_POLICY_FIRST_FIT"
    "97 \<le> unat (free_blocks (block_arena s))" "pb_base (kmem s) e = 0x80001000" "pb_size (kmem s) e = 0x400000"
    by (rule boot_beside [OF assms(1)])
  have fb: "16 \<le> free_blocks (block_arena s)" using s(4) by (simp add: word_le_nat_alt)
  have "pb_fits (kmem s) (ALIGN_UP sz PAGE_SIZE) (2 ^ 12) e"
  proof -
    have "(0x80001000 :: u64) + ALIGN_UP sz PAGE_SIZE \<le> 0x80001000 + 0x400000"
      by (rule word_plus_mono_right [OF assms(2)]) simp
    moreover have "ALIGN_UP 0x80001000 (2 ^ 12) = (0x80001000 :: u64)" by (simp add: ALIGN_UP_def)
    ultimately show ?thesis by (simp add: pb_fits_def s(5,6) not_less)
  qed
  moreover have "pmm_request_ok (hhdm_offset s) 12 (ALIGN_UP sz PAGE_SIZE)"
    using assms(2,3) by (simp add: pmm_request_ok_def s(2) word_le_nat_alt)
  ultimately have "kalloc_ready sz 12 s live" using s fb by (auto simp: kalloc_ready_def)
  moreover have "kvspace_inv s live" using s(1,2) by (auto simp: kvspace_inv_def)
  ultimately show thesis using that s(2) by blast
qed

theorem kalloc_safe_witness:
  "\<exists>(s :: kernel) e b s'. pmm_inv s [[e]] [] \<and> kalloc 100 (2 ^ 12) s = Inr (b, s') \<and> alloc_size b = 100 \<and>
    (\<exists>p bss'. pmm_granted s [[e]] [] 12 0x1000 p s' bss')"
proof -
  obtain s :: kernel and e where s: "pmm_inv s [[e]] []" "hhdm_offset s = 0xFFFFFFC000000000" "policy s = PMM_POLICY_FIRST_FIT"
    "97 \<le> unat (free_blocks (block_arena s))" "pb_base (kmem s) e = 0x80001000" "pb_size (kmem s) e = 0x400000"
    by (rule boot_four_megabytes)
  have z: "ALIGN_UP 100 PAGE_SIZE = 0x1000" by (simp add: ALIGN_UP_def)
  have "16 \<le> free_blocks (block_arena s)" using s(4) by (simp add: word_le_nat_alt)
  moreover have "pb_fits (kmem s) 0x1000 (2 ^ 12) e" by (simp add: pb_fits_def s(5,6) ALIGN_UP_def)
  ultimately obtain b s' where "kalloc 100 (2 ^ 12) s = Inr (b, s')"
    "\<exists>p bss'. b = \<lparr>alloc_buffer = kernel_hhdm_phys_to_virt p s, alloc_size = 100\<rparr> \<and> pmm_granted s [[e]] [] 12 0x1000 p s' bss'"
    using kalloc_safe [of s "[[e]]" "[]" 12 100] s
    by (auto simp: z pmm_request_ok_def split: sum.splits)
  then show ?thesis using s(1) by (intro exI [of _ s] exI [of _ e] exI [of _ b] exI [of _ s']) auto
qed

text \<open>
  C29: memory never comes back.  \<^verbatim>\<open>kfree\<close> panics on every allocation, and a \<^verbatim>\<open>krealloc\<close> of a
  buffer that is not null never returns, whatever the new size is; of a null buffer it is
  \<^verbatim>\<open>kalloc\<close>.
\<close>

theorem krealloc_never_returns:
  assumes "pmm_inv s bss live" and "pmm_request_ok (hhdm_offset s) k (ALIGN_UP new_size PAGE_SIZE)"
  shows "kfree old s = Inl Panicked \<and>
    (if alloc_buffer old = 0 then krealloc old new_size (2 ^ k) s = kalloc new_size (2 ^ k) s
     else \<forall>r. krealloc old new_size (2 ^ k) s \<noteq> Inr r)"
proof -
  have free: "kfree a t = Inl Panicked" for a and t :: "'a kernel_scheme"
    using error_is_err_ec [of EC_NOT_IMPLEMENTED] by (simp add: kfree_def pmm_free_def Let_def)
  have "alloc_buffer b \<noteq> 0" if "kalloc new_size (2 ^ k) s = Inr (b, s')" for b s'
    using kalloc_success [OF assms that] pmm_granted_buffer(2) [OF assms(1)] by auto
  then show ?thesis by (auto simp: free krealloc_def and_then_eq_Inr Let_def split: if_splits)
qed

theorem krealloc_never_returns_witness:
  "\<exists>s :: kernel. \<forall>r. krealloc \<lparr>alloc_buffer = 0xFFFFFFC080001000, alloc_size = 100\<rparr> 200 (2 ^ 12) s \<noteq> Inr r"
proof -
  obtain s :: kernel and e where s: "pmm_inv s [[e]] []" "hhdm_offset s = 0xFFFFFFC000000000"
    by (rule boot_four_megabytes)
  have z: "ALIGN_UP 200 PAGE_SIZE = 0x1000" by (simp add: ALIGN_UP_def)
  show ?thesis
    using krealloc_never_returns [of s "[[e]]" "[]" 12 200 "\<lparr>alloc_buffer = 0xFFFFFFC080001000, alloc_size = 100\<rparr>"] s
    by (intro exI [of _ s]) (simp add: z pmm_request_ok_def)
qed

text \<open>
  C10: a slab allocator that refills itself from the kernel's pages.  For blocks of \<open>2 ^ k\<close> bytes,
  up to a kilobyte, an allocation either gives a zeroed block that was live nowhere and keeps both
  the arena and the physical memory manager well formed, or stops with the panic of the page
  allocation it had to make.
\<close>

theorem slab_refills_from_kvspace:
  assumes "arena_in kvspace_inv a s live others" and "3 \<le> k" and "k \<le> 10" and "block_size a = 2 ^ k"
  shows "case slab_allocate kalloc a s of
      Inl h \<Rightarrow> free_blocks a = 0 \<and> auto_refill a \<and> kalloc PAGE_SIZE PAGE_SIZE s = Inl h
    | Inr (p, a', s') \<Rightarrow>
        if p = 0 then free_blocks a = 0 \<and> \<not> auto_refill a \<and> a' = a \<and> s' = s
        else arena_in kvspace_inv a' s' ((p, 2 ^ k) # live) others \<and> kmem s' ` extent p (2 ^ k) \<subseteq> {0} \<and>
          agree_on (covered (live @ others)) (kmem s') (kmem s) \<and>
          block_size a' = block_size a \<and> auto_refill a' = auto_refill a"
  by (rule kpages.allocate_refilling [OF assms])

theorem slab_refills_from_kvspace_witness:
  "\<exists>s :: kernel. case slab_allocate kalloc (slab_autorefill_init 64) s of
      Inl h \<Rightarrow> False | Inr (p, a', s') \<Rightarrow> p \<noteq> 0 \<and> arena_in kvspace_inv a' s' [(p, 64)] []"
proof -
  obtain s :: kernel and e where s: "pmm_inv s [[e]] []" "hhdm_offset s = 0xFFFFFFC000000000" "policy s = PMM_POLICY_FIRST_FIT"
    "97 \<le> unat (free_blocks (block_arena s))" "pb_base (kmem s) e = 0x80001000" "pb_size (kmem s) e = 0x400000"
    by (rule boot_four_megabytes)
  let ?a = "slab_autorefill_init 64"
  have bs: "block_size ?a = 2 ^ 6" by (simp add: slab_autorefill_init_def SLAB_BLOCK_SIZE_def)
  have "kvspace_inv s []" using s(1,2) by (auto simp: kvspace_inv_def)
  moreover have "slab_inv ?a (kmem s) [] [] []"
    by (rule slab_inv_init) (simp_all add: slab_autorefill_init_def SLAB_BLOCK_SIZE_ge)
  ultimately have arena: "arena_in kvspace_inv ?a s [] []"
    unfolding arena_in_def by (intro exI [of _ "[]"]) (simp add: slab_ranges_def)
  have z: "ALIGN_UP PAGE_SIZE PAGE_SIZE = 0x1000" by (simp add: ALIGN_UP_def)
  have f: "16 \<le> free_blocks (block_arena s)" using s(4) by (simp add: word_le_nat_alt)
  have "pb_fits (kmem s) 0x1000 (2 ^ 12) e" by (simp add: pb_fits_def s(5,6) ALIGN_UP_def)
  then have "kalloc PAGE_SIZE PAGE_SIZE s \<noteq> Inl h" for h
    using kalloc_correct [OF s(1) _ f s(3), of 12 PAGE_SIZE] s(2) by (auto simp: z pmm_request_ok_def)
  then show ?thesis
    using slab_refills_from_kvspace [OF arena _ _ bs]
    by (intro exI [of _ s]) (auto simp: slab_autorefill_init_def split: sum.splits if_splits)
qed

text \<open>
  Any sequence of page allocations: the blocks it returns touch neither each other nor what
  was live before it, and what was live keeps its contents.
\<close>

theorem kalloc_run_apart:
  assumes "kvspace_inv s live" and "\<forall>r \<in> set rs. page_request_ok r s"
    and "alloc_run kalloc_request rs s = Inr (ps, s')"
  shows "all_apart (blocks page_request_len rs ps @ live) \<and> length ps = length rs \<and>
    agree_on (covered live) (kmem s') (kmem s)"
  using kpage_blocks.run_apart [OF assms] kpage_blocks.run_blocks [OF assms] by blast

theorem kalloc_run_apart_witness:
  "\<exists>(s :: kernel) p s'. alloc_run kalloc_request [(100, 12)] s = Inr ([p], s') \<and>
    all_apart (blocks page_request_len [(100, 12)] [p])"
proof -
  obtain s :: kernel and e where s: "pmm_inv s [[e]] []" "hhdm_offset s = 0xFFFFFFC000000000" "policy s = PMM_POLICY_FIRST_FIT"
    "97 \<le> unat (free_blocks (block_arena s))" "pb_base (kmem s) e = 0x80001000" "pb_size (kmem s) e = 0x400000"
    by (rule boot_four_megabytes)
  have z: "ALIGN_UP 100 PAGE_SIZE = 0x1000" by (simp add: ALIGN_UP_def)
  have f: "16 \<le> free_blocks (block_arena s)" using s(4) by (simp add: word_le_nat_alt)
  have "pb_fits (kmem s) 0x1000 (2 ^ 12) e" by (simp add: pb_fits_def s(5,6) ALIGN_UP_def)
  then obtain b s' where run: "kalloc 100 (2 ^ 12) s = Inr (b, s')"
    using kalloc_correct [OF s(1) _ f s(3), of 12 100] s(2) by (auto simp: z pmm_request_ok_def split: sum.splits)
  then have "alloc_run kalloc_request [(100, 12)] s = Inr ([alloc_buffer b], s')"
    by (simp add: kalloc_request_def)
  moreover have "kvspace_inv s []" using s(1,2) by (auto simp: kvspace_inv_def)
  ultimately show ?thesis
    using kalloc_run_apart [of s "[]" "[(100, 12)]" "[alloc_buffer b]" s'] s(2)
    by (intro exI [of _ s] exI [of _ "alloc_buffer b"] exI [of _ s']) (simp add: page_request_ok_def pmm_request_ok_def z)
qed

end
