(* ===== verification/Riscv_Sv39.thy ===== *)
theory Riscv_Sv39
  imports Kvspace
begin

text \<open>
  \<^verbatim>\<open>riscv.c\<close> and the page-table part of \<^verbatim>\<open>riscv.h\<close>: SV39 page tables kept in physical pages that
  the kernel reaches through the higher-half mapping.  The abstract side is the walk of a virtual
  page number through three levels; mapping and unmapping are shown to change the walk of exactly
  the pages they are about.
\<close>

abbreviation RISCV_SV39_PT_ENTRY_COUNT :: u64 where "RISCV_SV39_PT_ENTRY_COUNT \<equiv> 512"

abbreviation RISCV_SV39_PTFLAG_VALID :: u64 where "RISCV_SV39_PTFLAG_VALID \<equiv> 0x1"
abbreviation RISCV_SV39_PTFLAG_READ :: u64 where "RISCV_SV39_PTFLAG_READ \<equiv> 0x2"
abbreviation RISCV_SV39_PTFLAG_WRITE :: u64 where "RISCV_SV39_PTFLAG_WRITE \<equiv> 0x4"
abbreviation RISCV_SV39_PTFLAG_EXECUTE :: u64 where "RISCV_SV39_PTFLAG_EXECUTE \<equiv> 0x8"

definition riscv_sv39_create_pte :: "u64 \<Rightarrow> u64 \<Rightarrow> u64" where
  "riscv_sv39_create_pte pa flags = push_bit 10 (drop_bit 12 pa) OR flags"

definition riscv_sv39_pte_get_address :: "u64 \<Rightarrow> u64" where
  "riscv_sv39_pte_get_address pte = push_bit 12 (drop_bit 10 pte)"

definition riscv_sv39_pte_valid :: "u64 \<Rightarrow> bool" where
  "riscv_sv39_pte_valid pte \<longleftrightarrow> pte AND RISCV_SV39_PTFLAG_VALID \<noteq> 0"

definition riscv_sv39_pte_readable :: "u64 \<Rightarrow> bool" where
  "riscv_sv39_pte_readable pte \<longleftrightarrow> pte AND RISCV_SV39_PTFLAG_READ \<noteq> 0"

definition riscv_sv39_pte_writable :: "u64 \<Rightarrow> bool" where
  "riscv_sv39_pte_writable pte \<longleftrightarrow> pte AND RISCV_SV39_PTFLAG_WRITE \<noteq> 0"

definition riscv_sv39_pte_executable :: "u64 \<Rightarrow> bool" where
  "riscv_sv39_pte_executable pte \<longleftrightarrow> pte AND RISCV_SV39_PTFLAG_EXECUTE \<noteq> 0"

definition riscv_sv39_pte_leaf :: "u64 \<Rightarrow> bool" where
  "riscv_sv39_pte_leaf pte \<longleftrightarrow>
     pte AND (RISCV_SV39_PTFLAG_READ OR RISCV_SV39_PTFLAG_WRITE OR RISCV_SV39_PTFLAG_EXECUTE) \<noteq> 0"

text \<open>The index of a virtual address at level 0, 1 and 2, and the address of an entry of a table.\<close>

definition sv39_vpn :: "nat \<Rightarrow> u64 \<Rightarrow> u64" where
  "sv39_vpn level va = drop_bit (12 + 9 * level) va AND 0x1FF"

definition sv39_entry :: "addr \<Rightarrow> u64 \<Rightarrow> addr" where
  "sv39_entry pt i = pt + 8 * i"

text \<open>
  The block that \<^verbatim>\<open>riscv_sv39_map_small_page\<close> and \<^verbatim>\<open>riscv_sv39_map_megapage\<close> repeat per level:
  an entry that is not valid gets a fresh table page; when there is none the caller returns the
  given error.
\<close>

definition sv39_ensure_table :: "addr \<Rightarrow> 'a kernel_scheme \<Rightarrow> halt + u64 option \<times> 'a kernel_scheme" where
  "sv39_ensure_table entry s =
     (if \<not> riscv_sv39_pte_valid (load64 (kmem s) entry) then
        and_then (pmm_alloc PAGE_SIZE (Some 0) s) (\<lambda>((err, new_page), s).
          if error_is_err err then Inr (Some (error_push err EC_RISCV_SV39_ALLOC_FAILED), s)
          else Inr (None, s\<lparr>kmem := store64 (kmem s) entry
                 (riscv_sv39_create_pte (the new_page) RISCV_SV39_PTFLAG_VALID)\<rparr>))
      else Inr (None, s))"

definition sv39_next_table :: "addr \<Rightarrow> 'a kernel_scheme \<Rightarrow> addr" where
  "sv39_next_table entry s = kernel_hhdm_phys_to_virt (riscv_sv39_pte_get_address (load64 (kmem s) entry)) s"

definition riscv_sv39_map_small_page ::
    "addr \<Rightarrow> u64 \<Rightarrow> u64 \<Rightarrow> u64 \<Rightarrow> 'a kernel_scheme \<Rightarrow> halt + u64 \<times> 'a kernel_scheme" where
  "riscv_sv39_map_small_page root va pa flags s =
     (if \<not> IS_ALIGNED va PAGE_SIZE \<or> \<not> IS_ALIGNED pa PAGE_SIZE
      then Inr (ec EC_RISCV_SV39_UNALIGNED_ADDR, s)
      else deref root (
        let l2_entry = sv39_entry root (sv39_vpn 2 va) in
        and_then (sv39_ensure_table l2_entry s) (\<lambda>(failed, s).
        case failed of Some e \<Rightarrow> Inr (e, s) | None \<Rightarrow>
        let l1_pt = sv39_next_table l2_entry s in deref l1_pt (
        let l1_entry = sv39_entry l1_pt (sv39_vpn 1 va) in
        and_then (sv39_ensure_table l1_entry s) (\<lambda>(failed, s).
        case failed of Some e \<Rightarrow> Inr (e, s) | None \<Rightarrow>
        let l0_pt = sv39_next_table l1_entry s in deref l0_pt (
        let l0_entry = sv39_entry l0_pt (sv39_vpn 0 va) in
        if riscv_sv39_pte_valid (load64 (kmem s) l0_entry) then Inr (ec EC_RISCV_SV39_MAPPING_EXISTS, s)
        else Inr (ec EC_SUCCESS, s\<lparr>kmem := store64 (kmem s) l0_entry
               (riscv_sv39_create_pte pa (flags OR RISCV_SV39_PTFLAG_VALID))\<rparr>)))))))"

definition riscv_sv39_map_megapage ::
    "addr \<Rightarrow> u64 \<Rightarrow> u64 \<Rightarrow> u64 \<Rightarrow> 'a kernel_scheme \<Rightarrow> halt + u64 \<times> 'a kernel_scheme" where
  "riscv_sv39_map_megapage root va pa flags s =
     (if \<not> IS_ALIGNED va MEGAPAGE_SIZE \<or> \<not> IS_ALIGNED pa MEGAPAGE_SIZE
      then Inr (ec EC_RISCV_SV39_UNALIGNED_ADDR, s)
      else deref root (
        let l2_entry = sv39_entry root (sv39_vpn 2 va) in
        and_then (sv39_ensure_table l2_entry s) (\<lambda>(failed, s).
        case failed of Some e \<Rightarrow> Inr (e, s) | None \<Rightarrow>
        let l1_pt = sv39_next_table l2_entry s in deref l1_pt (
        let l1_entry = sv39_entry l1_pt (sv39_vpn 1 va) in
        if riscv_sv39_pte_valid (load64 (kmem s) l1_entry) then Inr (ec EC_RISCV_SV39_MAPPING_EXISTS, s)
        else Inr (ec EC_SUCCESS, s\<lparr>kmem := store64 (kmem s) l1_entry
               (riscv_sv39_create_pte pa (flags OR RISCV_SV39_PTFLAG_VALID))\<rparr>)))))"

definition riscv_sv39_map_gigapage ::
    "addr \<Rightarrow> u64 \<Rightarrow> u64 \<Rightarrow> u64 \<Rightarrow> 'a kernel_scheme \<Rightarrow> halt + u64 \<times> 'a kernel_scheme" where
  "riscv_sv39_map_gigapage root va pa flags s =
     (if \<not> IS_ALIGNED va GIGAPAGE_SIZE \<or> \<not> IS_ALIGNED pa GIGAPAGE_SIZE
      then Inr (ec EC_RISCV_SV39_UNALIGNED_ADDR, s)
      else deref root (
        let l2_entry = sv39_entry root (sv39_vpn 2 va) in
        if riscv_sv39_pte_valid (load64 (kmem s) l2_entry) then Inr (ec EC_RISCV_SV39_MAPPING_EXISTS, s)
        else Inr (ec EC_SUCCESS, s\<lparr>kmem := store64 (kmem s) l2_entry
               (riscv_sv39_create_pte pa (flags OR RISCV_SV39_PTFLAG_VALID))\<rparr>)))"

text \<open>The out-parameter may be null; then it stays so.\<close>

definition riscv_sv39_unmap_small_page ::
    "addr \<Rightarrow> u64 \<Rightarrow> u64 option \<Rightarrow> 'a kernel_scheme \<Rightarrow> halt + (u64 \<times> u64 option) \<times> 'a kernel_scheme" where
  "riscv_sv39_unmap_small_page root va pa s =
     (if \<not> IS_ALIGNED va PAGE_SIZE then Inr ((ec EC_RISCV_SV39_UNALIGNED_ADDR, pa), s)
      else deref root (
        let l2_entry = sv39_entry root (sv39_vpn 2 va) in
        if \<not> riscv_sv39_pte_valid (load64 (kmem s) l2_entry) then Inr ((ec EC_RISCV_SV39_NO_MAPPING, pa), s)
        else if riscv_sv39_pte_leaf (load64 (kmem s) l2_entry) then Inr ((ec EC_RISCV_SV39_MAPPING_EXISTS, pa), s)
        else let l1_pt = sv39_next_table l2_entry s in deref l1_pt (
        let l1_entry = sv39_entry l1_pt (sv39_vpn 1 va) in
        if \<not> riscv_sv39_pte_valid (load64 (kmem s) l1_entry) then Inr ((ec EC_RISCV_SV39_NO_MAPPING, pa), s)
        else if riscv_sv39_pte_leaf (load64 (kmem s) l1_entry) then Inr ((ec EC_RISCV_SV39_MAPPING_EXISTS, pa), s)
        else let l0_pt = sv39_next_table l1_entry s in deref l0_pt (
        let l0_entry = sv39_entry l0_pt (sv39_vpn 0 va) in
        if \<not> riscv_sv39_pte_valid (load64 (kmem s) l0_entry) then Inr ((ec EC_RISCV_SV39_NO_MAPPING, pa), s)
        else Inr ((ec EC_SUCCESS, map_option (\<lambda>_. riscv_sv39_pte_get_address (load64 (kmem s) l0_entry)) pa),
          s\<lparr>kmem := store64 (kmem s) l0_entry 0\<rparr>)))))"

definition riscv_sv39_virt_to_phys :: "addr \<Rightarrow> u64 \<Rightarrow> 'a kernel_scheme \<Rightarrow> halt + u64" where
  "riscv_sv39_virt_to_phys root va s =
     (let page_offset = va AND (PAGE_SIZE - 1) in deref root (
      let l2_entry = sv39_entry root (sv39_vpn 2 va); l2 = load64 (kmem s) l2_entry in
      if \<not> riscv_sv39_pte_valid l2 then Inr 0
      else if riscv_sv39_pte_leaf l2 then Inr (riscv_sv39_pte_get_address l2 + page_offset)
      else let l1_pt = sv39_next_table l2_entry s in deref l1_pt (
      let l1_entry = sv39_entry l1_pt (sv39_vpn 1 va); l1 = load64 (kmem s) l1_entry in
      if \<not> riscv_sv39_pte_valid l1 then Inr 0
      else if riscv_sv39_pte_leaf l1 then Inr (riscv_sv39_pte_get_address l1 + page_offset)
      else let l0_pt = sv39_next_table l1_entry s in deref l0_pt (
      let l0_entry = sv39_entry l0_pt (sv39_vpn 0 va); l0 = load64 (kmem s) l0_entry in
      if \<not> riscv_sv39_pte_valid l0 then Inr 0
      else if riscv_sv39_pte_leaf l0 then Inr (riscv_sv39_pte_get_address l0 + page_offset)
      else Inr 0))))"

section \<open>Page table entries\<close>

lemma pte_leaf_or: "riscv_sv39_pte_leaf (x OR y) \<longleftrightarrow> riscv_sv39_pte_leaf x \<or> riscv_sv39_pte_leaf y"
  by (simp add: riscv_sv39_pte_leaf_def bit.conj_disj_distrib2 or_eq_0_iff)

lemma and_mask_shifted: "j \<le> k \<Longrightarrow> push_bit k x AND mask j = (0 :: u64)"
  by (rule bit_word_eqI) (auto simp: bit_simps)

lemma frame_no_flags:
  "riscv_sv39_pte_valid (push_bit 10 x OR f) = riscv_sv39_pte_valid f"
  "riscv_sv39_pte_leaf (push_bit 10 x OR f) = riscv_sv39_pte_leaf f"
proof -
  have "push_bit 10 x AND y = 0" if "y AND mask 10 = y" for y :: u64
    by (subst that [symmetric]) (rule bit_word_eqI, auto simp: bit_simps)
  from this [of 1] this [of 14] show "riscv_sv39_pte_valid (push_bit 10 x OR f) = riscv_sv39_pte_valid f"
    "riscv_sv39_pte_leaf (push_bit 10 x OR f) = riscv_sv39_pte_leaf f"
    by (simp_all add: riscv_sv39_pte_valid_def riscv_sv39_pte_leaf_def bit.conj_disj_distrib2 mask_eq_exp_minus_1)
qed

lemma create_pte_address:
  assumes "f < 2 ^ 10" and "2 ^ 12 dvd unat pa"
  shows "riscv_sv39_pte_get_address (riscv_sv39_create_pte pa f) = pa"
proof -
  have "take_bit 10 f = f"
    using assms(1) by (intro unsigned_word_eqI [where ?'a = nat]) (simp add: unsigned_take_bit_eq word_less_nat_alt take_bit_nat_eq_self_iff)
  then have f: "\<not> bit f (n + 10)" for n using bit_take_bit_iff [of 10 f "n + 10"] by simp
  have "unat (take_bit 12 pa) = 0" using assms(2) by (simp only: unsigned_take_bit_eq) (simp add: take_bit_eq_mod dvd_eq_mod_eq_0)
  then have z: "take_bit 12 pa = 0" by (simp add: unat_eq_0)
  have p: "\<not> bit pa n" if "n < 12" for n using bit_take_bit_iff [of 12 pa n] that by (simp add: z)
  show ?thesis
  proof (rule bit_word_eqI)
    fix n assume "n < LENGTH(64)"
    then show "bit (riscv_sv39_pte_get_address (riscv_sv39_create_pte pa f)) n = bit pa n"
      using p [of n] f [of "n - 12"]
      by (cases "n < 12") (auto simp: riscv_sv39_create_pte_def riscv_sv39_pte_get_address_def bit_simps)
  qed
qed

section \<open>The tree of tables\<close>

text \<open>
  The table that the entry at an index points to, and the table at a path of indices, the last
  index first.  \<open>sv39_walk\<close> is the abstract translation: the level and the leaf entry that the walk
  along a list of indices ends at.
\<close>

definition pt_step :: "u64 \<Rightarrow> mem \<Rightarrow> addr \<Rightarrow> u64 \<Rightarrow> addr option" where
  "pt_step hh m pt i =
     (let e = load64 m (sv39_entry pt i)
      in if i < RISCV_SV39_PT_ENTRY_COUNT \<and> riscv_sv39_pte_valid e \<and> \<not> riscv_sv39_pte_leaf e
         then Some (hh + riscv_sv39_pte_get_address e) else None)"

primrec pt_at :: "u64 \<Rightarrow> mem \<Rightarrow> addr \<Rightarrow> u64 list \<Rightarrow> addr option" where
  "pt_at hh m root [] = Some root"
| "pt_at hh m root (i # ps) =
     (case pt_at hh m root ps of None \<Rightarrow> None | Some pt \<Rightarrow> pt_step hh m pt i)"

primrec sv39_walk :: "u64 \<Rightarrow> mem \<Rightarrow> addr \<Rightarrow> u64 list \<Rightarrow> (nat \<times> u64) option" where
  "sv39_walk hh m pt [] = None"
| "sv39_walk hh m pt (i # is) =
     (let e = load64 m (sv39_entry pt i)
      in if \<not> riscv_sv39_pte_valid e then None
         else if riscv_sv39_pte_leaf e then Some (length is, e)
         else sv39_walk hh m (hh + riscv_sv39_pte_get_address e) is)"

definition sv39_vpns :: "u64 \<Rightarrow> u64 list" where
  "sv39_vpns va = [sv39_vpn 2 va, sv39_vpn 1 va, sv39_vpn 0 va]"

definition sv39_space :: "u64 \<Rightarrow> mem \<Rightarrow> addr \<Rightarrow> u64 \<Rightarrow> (nat \<times> u64) option" where
  "sv39_space hh m root va = sv39_walk hh m root (sv39_vpns va)"

text \<open>Every table is one of the given pages, none of them null, and no table is reached twice.\<close>

definition sv39_inv :: "u64 \<Rightarrow> mem \<Rightarrow> addr \<Rightarrow> (addr \<times> nat) list \<Rightarrow> bool" where
  "sv39_inv hh m root pages \<longleftrightarrow>
     (\<forall>ps a. length ps \<le> 2 \<and> pt_at hh m root ps = Some a \<longrightarrow> a \<noteq> 0 \<and> (a, 4096) \<in> set pages) \<and>
     (\<forall>ps qs a. length ps \<le> 2 \<and> length qs \<le> 2 \<and> pt_at hh m root ps = Some a \<and> pt_at hh m root qs = Some a \<longrightarrow> ps = qs)"

lemma sv39_vpn_less: "sv39_vpn l va < RISCV_SV39_PT_ENTRY_COUNT"
proof -
  have "sv39_vpn l va = take_bit 9 (drop_bit (12 + 9 * l) va)"
    by (simp add: sv39_vpn_def take_bit_eq_mask mask_eq_exp_minus_1)
  then have "unat (sv39_vpn l va) < 2 ^ 9" by (simp only: unsigned_take_bit_eq take_bit_nat_less_exp)
  then show ?thesis by (simp add: word_less_nat_alt)
qed

lemma sv39_entry_nat: "i < RISCV_SV39_PT_ENTRY_COUNT \<Longrightarrow> unat (8 * i) = 8 * unat i \<and> 8 * unat i + 8 \<le> 4096"
proof -
  assume "i < 512"
  then have i: "unat i < 512" by (simp add: word_less_nat_alt)
  then have "unat (8 * i) = 8 * unat i" by (simp add: unat_mult_lem [THEN iffD1])
  then show ?thesis using i by simp
qed

lemma sv39_entry_within: "i < RISCV_SV39_PT_ENTRY_COUNT \<Longrightarrow> extent (sv39_entry pt i) 8 \<subseteq> extent pt 4096"
  unfolding sv39_entry_def by (rule extent_field) (simp_all add: sv39_entry_nat)

lemma sv39_entries_apart:
  assumes "i < RISCV_SV39_PT_ENTRY_COUNT" and "j < RISCV_SV39_PT_ENTRY_COUNT" and "i \<noteq> j"
  shows "extent (sv39_entry pt i) 8 \<inter> extent (sv39_entry pt j) 8 = {}"
proof -
  have n: "unat i \<noteq> unat j" using assms(3) unsigned_word_eqI [where ?'a = nat, of i j] by blast
  have d: "sv39_entry pt j - sv39_entry pt i = 8 * j - 8 * i" "sv39_entry pt i - sv39_entry pt j = 8 * i - 8 * j"
    by (simp_all add: sv39_entry_def)
  show ?thesis
    using n sv39_entry_nat [OF assms(1)] sv39_entry_nat [OF assms(2)]
      unat_diff_cases [of "8 * j" "8 * i"] unat_diff_cases [of "8 * i" "8 * j"]
    by (auto simp: extent_disjoint_iff d split: if_splits)
qed

lemma all_apart_ranges:
  assumes "all_apart xs" and "x \<in> set xs" and "y \<in> set xs" and "x \<noteq> y"
  shows "extent (fst x) (snd x) \<inter> extent (fst y) (snd y) = {}"
proof -
  have split: "\<exists>us vs. xs = us @ x # vs" using assms(2) by (rule split_list)
  then obtain us vs where xs: "xs = us @ x # vs" by blast
  have "mset xs = mset (x # us @ vs)" by (simp add: xs)
  then have "all_apart (x # us @ vs)" using assms(1) all_apart_perm by blast
  moreover have "extent (fst y) (snd y) \<subseteq> covered (us @ vs)"
    using assms(3,4) extent_subset_covered [of "fst y" "snd y" "us @ vs"] by (simp add: xs)
  ultimately show ?thesis using all_apart_covered_hd by blast
qed

section \<open>Memory that the tree does not depend on\<close>

lemma sv39_inv_table:
  assumes "sv39_inv hh m root pages" and "length ps \<le> 2" and "pt_at hh m root ps = Some a"
  shows "a \<noteq> 0" and "(a, 4096) \<in> set pages" and "extent a 4096 \<subseteq> covered pages"
proof -
  show "a \<noteq> 0" and p: "(a, 4096) \<in> set pages" using assms by (auto simp: sv39_inv_def)
  show "extent a 4096 \<subseteq> covered pages" by (rule extent_subset_covered [OF p])
qed

lemma sv39_inv_apart:
  assumes "sv39_inv hh m root pages" and "all_apart pages" and "length ps \<le> 2" and "length qs \<le> 2"
    and "pt_at hh m root ps = Some a" and "pt_at hh m root qs = Some b" and "ps \<noteq> qs"
  shows "extent a 4096 \<inter> extent b 4096 = {}"
proof -
  have "a \<noteq> b" using assms by (auto simp: sv39_inv_def)
  then show ?thesis
    using all_apart_ranges [OF assms(2) sv39_inv_table(2) [OF assms(1,3,5)] sv39_inv_table(2) [OF assms(1,4,6)]] by simp
qed

lemma pt_at_agree:
  assumes inv: "sv39_inv hh m root pages" and ag: "agree_on (covered pages) m' m"
  shows "length ps \<le> 3 \<Longrightarrow> pt_at hh m' root ps = pt_at hh m root ps"
proof (induction ps)
  case (Cons i ps)
  have "pt_step hh m' a i = pt_step hh m a i" if a: "pt_at hh m root ps = Some a" for a
  proof (cases "i < RISCV_SV39_PT_ENTRY_COUNT")
    case True
    have "extent (sv39_entry a i) 8 \<subseteq> covered pages"
      using sv39_inv_table(3) [OF inv _ a] Cons.prems sv39_entry_within [OF True, of a] by auto
    then have "load64 m' (sv39_entry a i) = load64 m (sv39_entry a i)" by (rule load64_agree [OF ag])
    then show ?thesis by (simp add: pt_step_def)
  qed (simp add: pt_step_def)
  then show ?case using Cons by (auto split: option.splits)
qed simp

lemma sv39_inv_agree:
  assumes "sv39_inv hh m root pages" and "agree_on (covered pages) m' m" and "set pages \<subseteq> set pages'"
  shows "sv39_inv hh m' root pages'"
  using assms(1,3) pt_at_agree [OF assms(1,2)] unfolding sv39_inv_def by (auto 0 3)

lemma sv39_walk_agree:
  assumes inv: "sv39_inv hh m root pages" and ag: "agree_on (covered pages) m' m"
  shows "pt_at hh m root ps = Some a \<Longrightarrow> length ps + length is \<le> 3 \<Longrightarrow> \<forall>i \<in> set is. i < RISCV_SV39_PT_ENTRY_COUNT \<Longrightarrow>
    sv39_walk hh m' a is = sv39_walk hh m a is"
proof (induction "is" arbitrary: ps a)
  case (Cons i "is")
  have i: "i < RISCV_SV39_PT_ENTRY_COUNT" using Cons.prems by simp
  have "extent (sv39_entry a i) 8 \<subseteq> covered pages"
    using sv39_inv_table(3) [OF inv _ Cons.prems(1)] Cons.prems(2) sv39_entry_within [OF i, of a] by auto
  then have e: "load64 m' (sv39_entry a i) = load64 m (sv39_entry a i)" by (rule load64_agree [OF ag])
  show ?case
  proof (cases "pt_step hh m a i")
    case None
    then show ?thesis using i by (auto simp: e pt_step_def Let_def)
  next
    case (Some b)
    then have b: "pt_at hh m root (i # ps) = Some b" using Cons.prems by simp
    have "sv39_walk hh m' b is = sv39_walk hh m b is" by (rule Cons.IH [OF b]) (use Cons.prems in auto)
    then show ?thesis using Some by (simp add: e pt_step_def Let_def split: if_splits)
  qed
qed simp

lemma sv39_vpns_bound: "\<forall>i \<in> set (sv39_vpns va). i < RISCV_SV39_PT_ENTRY_COUNT"
  by (simp add: sv39_vpns_def sv39_vpn_less)

lemma sv39_space_agree:
  assumes "sv39_inv hh m root pages" and "agree_on (covered pages) m' m"
  shows "sv39_space hh m' root va = sv39_space hh m root va"
  unfolding sv39_space_def
  by (rule sv39_walk_agree [OF assms, of "[]"]) (use sv39_vpns_bound in \<open>simp_all add: sv39_vpns_def\<close>)

section \<open>Writing one entry\<close>

text \<open>
  The entry written is number \<open>i\<close> of the table at path \<open>qs\<close>.  Tables and walks whose path does not
  pass through it are as before; the others go on from the new value.
\<close>

definition through :: "u64 list \<Rightarrow> u64 list \<Rightarrow> bool" where
  "through es ps \<longleftrightarrow> (\<exists>zs. ps = zs @ es)"

lemma through_simps [simp]:
  "\<not> through (i # qs) []" "through (i # qs) (j # ps) \<longleftrightarrow> j = i \<and> ps = qs \<or> through (i # qs) ps"
proof -
  show "\<not> through (i # qs) []" by (simp add: through_def)
  show "through (i # qs) (j # ps) \<longleftrightarrow> j = i \<and> ps = qs \<or> through (i # qs) ps"
    unfolding through_def by (auto simp: Cons_eq_append_conv)
qed

lemma entry_store_other:
  assumes inv: "sv39_inv hh m root pages" "all_apart pages" and t: "pt_at hh m root qs = Some t" "length qs \<le> 2"
    and a: "pt_at hh m root ps = Some a" "length ps \<le> 2" and ij: "i < RISCV_SV39_PT_ENTRY_COUNT" "j < RISCV_SV39_PT_ENTRY_COUNT"
    and ne: "\<not> (ps = qs \<and> j = i)"
  shows "load64 (store64 m (sv39_entry t i) v) (sv39_entry a j) = load64 m (sv39_entry a j)"
proof (rule load64_store64_apart)
  show "extent (sv39_entry t i) 8 \<inter> extent (sv39_entry a j) 8 = {}"
  proof (cases "ps = qs")
    case True
    then show ?thesis using sv39_entries_apart [OF ij] ne a t by auto
  next
    case False
    then have "extent t 4096 \<inter> extent a 4096 = {}"
      using sv39_inv_apart [OF inv t(2) a(2) t(1) a(1)] by auto
    then show ?thesis using sv39_entry_within [OF ij(1), of t] sv39_entry_within [OF ij(2), of a] by blast
  qed
qed

lemma pt_at_store_other:
  fixes m :: mem and v :: u64
  assumes inv: "sv39_inv hh m root pages" "all_apart pages" and t: "pt_at hh m root qs = Some t" "length qs \<le> 2"
    and i: "i < RISCV_SV39_PT_ENTRY_COUNT"
  defines "m' \<equiv> store64 m (sv39_entry t i) v"
  shows "\<not> through (i # qs) ps \<Longrightarrow> length ps \<le> 3 \<Longrightarrow> pt_at hh m' root ps = pt_at hh m root ps"
proof (induction ps)
  case (Cons j ps)
  have "pt_step hh m' a j = pt_step hh m a j" if a: "pt_at hh m root ps = Some a" for a
  proof (cases "j < RISCV_SV39_PT_ENTRY_COUNT")
    case True
    have "load64 m' (sv39_entry a j) = load64 m (sv39_entry a j)"
      unfolding m'_def by (rule entry_store_other [OF inv t a _ i True]) (use Cons.prems in auto)
    then show ?thesis by (simp add: pt_step_def)
  qed (simp add: pt_step_def)
  then show ?case using Cons by (auto split: option.splits)
qed simp

lemma sv39_walk_store_other:
  fixes m :: mem and v :: u64
  assumes inv: "sv39_inv hh m root pages" "all_apart pages" and t: "pt_at hh m root qs = Some t" "length qs \<le> 2"
    and i: "i < RISCV_SV39_PT_ENTRY_COUNT"
  defines "m' \<equiv> store64 m (sv39_entry t i) v"
  shows "pt_at hh m root ps = Some a \<Longrightarrow> length ps + length is \<le> 3 \<Longrightarrow> \<forall>i \<in> set is. i < RISCV_SV39_PT_ENTRY_COUNT \<Longrightarrow>
    \<not> through (i # qs) (rev is @ ps) \<Longrightarrow> sv39_walk hh m' a is = sv39_walk hh m a is"
proof (induction "is" arbitrary: ps a)
  case (Cons j "is")
  have j: "j < RISCV_SV39_PT_ENTRY_COUNT" using Cons.prems by simp
  have "ps = qs \<and> j = i \<Longrightarrow> through (i # qs) (rev (j # is) @ ps)" by (auto simp: through_def)
  then have e: "load64 m' (sv39_entry a j) = load64 m (sv39_entry a j)"
    unfolding m'_def using Cons.prems by (intro entry_store_other [OF inv t Cons.prems(1) _ i j]) auto
  show ?case
  proof (cases "pt_step hh m a j")
    case None
    then show ?thesis using j by (auto simp: e pt_step_def Let_def)
  next
    case (Some b)
    then have b: "pt_at hh m root (j # ps) = Some b" using Cons.prems by simp
    have "sv39_walk hh m' b is = sv39_walk hh m b is" by (rule Cons.IH [OF b]) (use Cons.prems in auto)
    then show ?thesis using Some by (simp add: e pt_step_def Let_def split: if_splits)
  qed
qed simp

lemma sv39_walk_descend:
  "pt_at hh m root ps = Some a \<Longrightarrow> sv39_walk hh m root (rev ps @ is) = sv39_walk hh m a is"
proof (induction ps arbitrary: a "is")
  case (Cons i ps)
  then obtain b where b: "pt_at hh m root ps = Some b" "pt_step hh m b i = Some a" by (auto split: option.splits)
  then show ?case using Cons.IH [OF b(1), of "i # is"] by (auto simp: pt_step_def Let_def split: if_splits)
qed simp

lemma through_vpns:
  "length qs \<le> 2 \<Longrightarrow> through (i # qs) (rev (sv39_vpns va)) \<longleftrightarrow> take (Suc (length qs)) (sv39_vpns va) = rev qs @ [i]"
  by (cases qs rule: list.exhaust [case_product list.exhaust [of "tl qs"]])
    (auto simp: sv39_vpns_def through_def append_eq_Cons_conv Cons_eq_append_conv)

lemma pt_at_through: "through (i # qs) ps \<Longrightarrow> pt_at hh m root (i # qs) = None \<Longrightarrow> pt_at hh m root ps = None"
  by (induction ps) (auto simp: pt_step_def Let_def split: option.splits)

lemma sv39_space_store:
  assumes inv: "sv39_inv hh m root pages" "all_apart pages" and t: "pt_at hh m root qs = Some t" "length qs \<le> 2"
    and i: "i < RISCV_SV39_PT_ENTRY_COUNT"
  shows "sv39_space hh (store64 m (sv39_entry t i) v) root va =
    (if take (Suc (length qs)) (sv39_vpns va) = rev qs @ [i]
     then sv39_walk hh (store64 m (sv39_entry t i) v) t (i # drop (Suc (length qs)) (sv39_vpns va))
     else sv39_space hh m root va)"
proof (cases "take (Suc (length qs)) (sv39_vpns va) = rev qs @ [i]")
  case True
  have "\<not> through (i # qs) qs" by (auto simp: through_def dest: arg_cong [of _ _ length])
  then have "pt_at hh (store64 m (sv39_entry t i) v) root qs = Some t"
    using pt_at_store_other [OF inv t i, of qs v] t by simp
  from sv39_walk_descend [OF this, of "i # drop (Suc (length qs)) (sv39_vpns va)"] show ?thesis
    using True append_take_drop_id [of "Suc (length qs)" "sv39_vpns va"] by (simp add: sv39_space_def)
next
  case False
  then show ?thesis
    using sv39_walk_store_other [OF inv t i, of "[]" root "sv39_vpns va" v] sv39_vpns_bound [of va] through_vpns [OF t(2)]
    by (simp add: sv39_space_def) (simp add: sv39_vpns_def)
qed

text \<open>A leaf or an invalid entry over an entry that points to no table.\<close>

lemma sv39_store_leaf:
  assumes inv: "sv39_inv hh m root pages" "all_apart pages" and t: "pt_at hh m root qs = Some t" "length qs \<le> 2"
    and i: "i < RISCV_SV39_PT_ENTRY_COUNT" and v: "\<not> riscv_sv39_pte_valid v \<or> riscv_sv39_pte_leaf v"
  defines "m' \<equiv> store64 m (sv39_entry t i) v"
  shows "sv39_inv hh m' root pages"
    and "sv39_space hh m' root va =
      (if take (Suc (length qs)) (sv39_vpns va) = rev qs @ [i]
       then if riscv_sv39_pte_valid v then Some (2 - length qs, v) else None
       else sv39_space hh m root va)"
proof -
  have "\<not> through (i # qs) qs" by (auto simp: through_def dest: arg_cong [of _ _ length])
  then have t': "pt_at hh m' root qs = Some t"
    using pt_at_store_other [OF inv t i, of qs v] t by (simp add: m'_def)
  then have "pt_at hh m' root (i # qs) = None" using v by (simp add: pt_step_def m'_def)
  then have "pt_at hh m' root ps = Some a \<Longrightarrow> length ps \<le> 2 \<Longrightarrow> pt_at hh m root ps = Some a" for ps a
    using pt_at_through [of i qs ps hh m' root] pt_at_store_other [OF inv t i, of ps v] by (cases "through (i # qs) ps") (auto simp: m'_def)
  then show "sv39_inv hh m' root pages" using inv(1) unfolding sv39_inv_def by blast
  show "sv39_space hh m' root va =
      (if take (Suc (length qs)) (sv39_vpns va) = rev qs @ [i]
       then if riscv_sv39_pte_valid v then Some (2 - length qs, v) else None
       else sv39_space hh m root va)"
    using v by (simp add: m'_def sv39_space_store [OF inv t i]) (auto simp: sv39_vpns_def)
qed

text \<open>A pointer to a fresh page over an invalid entry.\<close>

lemma zero_table_entry:
  assumes "m ` extent b 4096 \<subseteq> {0}" and "j < RISCV_SV39_PT_ENTRY_COUNT"
  shows "load64 m (sv39_entry b j) = 0"
  using assms(1) sv39_entry_within [OF assms(2), of b] by (intro load64_zero) auto

lemma sv39_store_pointer:
  assumes inv: "sv39_inv hh m root pages" "all_apart ((b, 4096) # pages)" and t: "pt_at hh m root qs = Some t" "length qs \<le> 1"
    and i: "i < RISCV_SV39_PT_ENTRY_COUNT" and v: "riscv_sv39_pte_valid v" "\<not> riscv_sv39_pte_leaf v"
    and b: "hh + riscv_sv39_pte_get_address v = b" "b \<noteq> 0" "m ` extent b 4096 \<subseteq> {0}"
    and old: "\<not> riscv_sv39_pte_valid (load64 m (sv39_entry t i))"
  defines "m' \<equiv> store64 m (sv39_entry t i) v"
  shows "sv39_inv hh m' root ((b, 4096) # pages)" and "sv39_space hh m' root va = sv39_space hh m root va"
    and "pt_at hh m' root (i # qs) = Some b"
proof -
  have ap: "all_apart pages" and fresh: "extent b 4096 \<inter> covered pages = {}"
    using inv(2) all_apart_covered_hd [OF inv(2)] by simp_all
  have len: "length qs \<le> 2" using t(2) by simp
  have "extent (sv39_entry t i) 8 \<subseteq> covered pages"
    using sv39_inv_table(3) [OF inv(1) len t(1)] sv39_entry_within [OF i, of t] by blast
  then have "agree_on (extent b 4096) m' m" unfolding m'_def using fresh by (intro store64_agree) blast
  then have z: "m' ` extent b 4096 \<subseteq> {0}" using b(3) by (auto simp: agree_on_def)
  have e: "load64 m' (sv39_entry b j) = 0" if "j < RISCV_SV39_PT_ENTRY_COUNT" for j
    by (rule zero_table_entry [OF z that])
  have inval: "\<not> riscv_sv39_pte_valid 0" by (simp add: riscv_sv39_pte_valid_def)
  have "\<not> through (i # qs) qs" by (auto simp: through_def dest: arg_cong [of _ _ length])
  then have t': "pt_at hh m' root qs = Some t"
    using pt_at_store_other [OF inv(1) ap t(1) len i, of qs v] t by (simp add: m'_def)
  then show at: "pt_at hh m' root (i # qs) = Some b" using v b(1) i by (simp add: pt_step_def m'_def)
  have none: "pt_at hh m' root (zs @ j # i # qs) = None" for zs j
    by (induction zs) (use at in \<open>auto simp: pt_step_def Let_def e inval\<close>)
  have paths: "ps = i # qs \<and> a = b \<or> pt_at hh m root ps = Some a \<and> ps \<noteq> i # qs"
    if "pt_at hh m' root ps = Some a" "length ps \<le> 2" for ps a
  proof (cases "through (i # qs) ps")
    case False
    then show ?thesis using that pt_at_store_other [OF inv(1) ap t(1) len i, of ps v] by (auto simp: m'_def through_def)
  next
    case True
    then obtain zs where ps: "ps = zs @ i # qs" by (auto simp: through_def)
    then show ?thesis using that(1) at none by (cases zs rule: rev_cases) auto
  qed
  have "b \<in> extent b 4096" by simp
  then have new: "a \<noteq> b" if "pt_at hh m root ps = Some a" "length ps \<le> 2" for ps a
    using sv39_inv_table(2) [OF inv(1) that(2,1)] fresh extent_subset_covered [of a 4096 pages] by blast
  show "sv39_inv hh m' root ((b, 4096) # pages)"
    unfolding sv39_inv_def
  proof (intro conjI allI impI; elim conjE)
    fix ps a assume p: "length ps \<le> 2" "pt_at hh m' root ps = Some a"
    show "a \<noteq> 0" "(a, 4096) \<in> set ((b, 4096) # pages)"
      using paths [OF p(2,1)] sv39_inv_table(1,2) [OF inv(1) p(1)] b(2) by auto
  next
    fix ps qs' a assume p: "length ps \<le> 2" "pt_at hh m' root ps = Some a"
      and q: "length qs' \<le> 2" "pt_at hh m' root qs' = Some a"
    have "pt_at hh m root ps = Some a \<Longrightarrow> pt_at hh m root qs' = Some a \<Longrightarrow> ps = qs'"
      using inv(1) p(1) q(1) unfolding sv39_inv_def by blast
    then show "ps = qs'" using paths [OF p(2,1)] paths [OF q(2,1)] new [OF _ p(1)] new [OF _ q(1)] by blast
  qed
  show "sv39_space hh m' root va = sv39_space hh m root va"
  proof (cases "take (Suc (length qs)) (sv39_vpns va) = rev qs @ [i]")
    case False
    then show ?thesis by (simp add: m'_def sv39_space_store [OF inv(1) ap t(1) len i])
  next
    case True
    let ?is = "drop (Suc (length qs)) (sv39_vpns va)"
    have "sv39_space hh m' root va = sv39_walk hh m' t (i # ?is)"
      using True by (simp add: m'_def sv39_space_store [OF inv(1) ap t(1) len i])
    also have "\<dots> = sv39_walk hh m' b ?is" using v b(1) by (simp add: m'_def)
    also have "\<dots> = None"
    proof -
      have "\<forall>j \<in> set ?is. j < RISCV_SV39_PT_ENTRY_COUNT" using sv39_vpns_bound [of va] by (auto dest: in_set_dropD)
      then show ?thesis by (cases ?is) (simp_all add: e inval)
    qed
    also have "\<dots> = sv39_walk hh m t (i # ?is)" using old by simp
    also have "\<dots> = sv39_space hh m root va"
      using True sv39_walk_descend [OF t(1), of "i # ?is"] append_take_drop_id [of "Suc (length qs)" "sv39_vpns va"]
      by (simp add: sv39_space_def)
    finally show ?thesis .
  qed
qed

section \<open>Tables on pages of the physical memory manager\<close>

text \<open>The tables' pages are live allocations of the manager; \<open>others\<close> is everything else that is live.\<close>

definition sv39_ok :: "'a kernel_scheme \<Rightarrow> addr \<Rightarrow> (addr \<times> nat) list \<Rightarrow> (addr \<times> nat) list \<Rightarrow> bool" where
  "sv39_ok s root pages others \<longleftrightarrow>
     kvspace_inv s (pages @ others) \<and> sv39_inv (hhdm_offset s) (kmem s) root pages"

abbreviation sv39_map :: "'a kernel_scheme \<Rightarrow> addr \<Rightarrow> u64 \<Rightarrow> (nat \<times> u64) option" where
  "sv39_map s root va \<equiv> sv39_space (hhdm_offset s) (kmem s) root va"

lemma pmm_alloc_page:
  assumes "kvspace_inv s live"
  shows "case pmm_alloc PAGE_SIZE (Some 0) s of Inl h \<Rightarrow> h = Todo_reached
   | Inr ((err, region), s') \<Rightarrow>
       if error_is_err err then err = ec EC_PMM_OUT_OF_MEMORY \<and> s' = s
       else \<exists>p. region = Some p \<and> 2 ^ 12 dvd unat p \<and> hhdm_offset s + p \<noteq> 0 \<and>
         kvspace_inv s' ((hhdm_offset s + p, 4096) # live) \<and> kmem s' ` extent (hhdm_offset s + p) 4096 \<subseteq> {0} \<and>
         agree_on (covered live) (kmem s') (kmem s) \<and> hhdm_offset s' = hhdm_offset s"
proof -
  obtain bss where inv: "pmm_inv s bss live" and hh: "2 ^ 13 \<le> unat (hhdm_offset s)"
    using assms by (auto simp: kvspace_inv_def)
  have n: "ALIGN_UP PAGE_SIZE PAGE_SIZE = PAGE_SIZE" by (simp add: ALIGN_UP_def)
  have req: "pmm_request_ok (hhdm_offset s) 12 (ALIGN_UP PAGE_SIZE PAGE_SIZE)"
    using hh by (simp add: n pmm_request_ok_def)
  have eq: "pmm_alloc PAGE_SIZE (Some 0) s = pmm_alloc_aligned PAGE_SIZE (2 ^ 12) (Some 0) s" by (simp add: pmm_alloc_def)
  have oom: "error_is_err (ec EC_PMM_OUT_OF_MEMORY)" by (simp only: error_is_err_ec) simp
  have succ: "\<not> error_is_err (ec EC_SUCCESS)" by (simp only: error_is_err_ec not_not)
  show ?thesis
  proof (cases "free_bytes s < PAGE_SIZE")
    case True
    then have "pmm_alloc PAGE_SIZE (Some 0) s = Inr ((ec EC_PMM_OUT_OF_MEMORY, Some 0), s)"
      by (simp add: pmm_alloc_def pmm_alloc_aligned_def n Let_def)
    then show ?thesis using oom by (simp del: ec.simps)
  next
    case fb: False
    show ?thesis
    proof (cases "16 \<le> free_blocks (block_arena s) \<and> policy s = PMM_POLICY_FIRST_FIT")
      case False
      then have "pmm_alloc PAGE_SIZE (Some 0) s = Inl Todo_reached"
        using fb by (auto simp: pmm_alloc_def pmm_alloc_aligned_def n Let_def not_le)
      then show ?thesis by simp
    next
      case True
      note c = pmm_alloc_aligned_correct [OF inv req conjunct1 [OF True] conjunct2 [OF True], of 0]
      show ?thesis
      proof (cases "\<exists>b \<in> set (concat bss). pb_fits (kmem s) (ALIGN_UP PAGE_SIZE PAGE_SIZE) (2 ^ 12) b")
        case False
        then have "pmm_alloc PAGE_SIZE (Some 0) s = Inr ((ec EC_PMM_OUT_OF_MEMORY, Some 0), s)"
          using c by (simp only: eq if_False)
        then show ?thesis using oom by (simp del: ec.simps)
      next
        case True
        then obtain p s' bss' where r: "pmm_alloc PAGE_SIZE (Some 0) s = Inr ((ec EC_SUCCESS, Some p), s')"
          and g: "pmm_granted s bss live 12 PAGE_SIZE p s' bss'"
          using c by (simp only: eq if_True n) blast
        have hs: "hhdm_offset s' = hhdm_offset s" by (rule pmm_granted_hhdm [OF g])
        have "kvspace_inv s' ((hhdm_offset s + p, 4096) # live)"
          using g hs hh by (auto simp: kvspace_inv_def pmm_granted_def)
        then show ?thesis using r succ g hs pmm_granted_buffer(2) [OF inv g] by (simp add: pmm_granted_def del: ec.simps)
      qed
    qed
  qed
qed

lemma sv39_ok_apart: "sv39_ok s root pages others \<Longrightarrow> all_apart pages"
  using kpages.kinv_apart by (fastforce simp: sv39_ok_def all_apart_append)

text \<open>A write into a table leaves the manager and everything else alone.\<close>

lemma sv39_ok_store:
  assumes ok: "sv39_ok s root pages others" and t: "pt_at (hhdm_offset s) (kmem s) root qs = Some t" "length qs \<le> 2"
    and i: "i < RISCV_SV39_PT_ENTRY_COUNT"
  shows "kvspace_inv (s\<lparr>kmem := store64 (kmem s) (sv39_entry t i) v\<rparr>) (pages @ others)"
    and "agree_on (covered others) (store64 (kmem s) (sv39_entry t i) v) (kmem s)"
proof -
  have inv: "sv39_inv (hhdm_offset s) (kmem s) root pages" and k: "kvspace_inv s (pages @ others)"
    using ok by (simp_all add: sv39_ok_def)
  have sub: "extent (sv39_entry t i) 8 \<subseteq> covered pages"
    using sv39_inv_table(3) [OF inv t(2,1)] sv39_entry_within [OF i, of t] by blast
  then show "kvspace_inv (s\<lparr>kmem := store64 (kmem s) (sv39_entry t i) v\<rparr>) (pages @ others)"
    by (intro kpages.kinv_frame [OF k] store64_agree) auto
  have "covered pages \<inter> covered others = {}" using kpages.kinv_apart [OF k] by (simp add: all_apart_append_covered)
  then show "agree_on (covered others) (store64 (kmem s) (sv39_entry t i) v) (kmem s)"
    using sub by (intro store64_agree) blast
qed

text \<open>What a routine on page tables may do to the rest of the system.\<close>

definition sv39_keeps :: "'a kernel_scheme \<Rightarrow> addr \<Rightarrow> (addr \<times> nat) list \<Rightarrow> (addr \<times> nat) list \<Rightarrow> 'a kernel_scheme \<Rightarrow> bool" where
  "sv39_keeps s root pages others s' \<longleftrightarrow>
     (\<exists>pages'. sv39_ok s' root pages' others \<and> set pages \<subseteq> set pages') \<and>
     agree_on (covered others) (kmem s') (kmem s) \<and> hhdm_offset s' = hhdm_offset s"

lemma sv39_ensure_table_correct:
  assumes ok: "sv39_ok s root pages others" and t: "pt_at (hhdm_offset s) (kmem s) root qs = Some t" "length qs \<le> 1"
    and i: "i < RISCV_SV39_PT_ENTRY_COUNT" and nl: "\<not> (riscv_sv39_pte_valid (load64 (kmem s) (sv39_entry t i)) \<and>
      riscv_sv39_pte_leaf (load64 (kmem s) (sv39_entry t i)))"
  shows "case sv39_ensure_table (sv39_entry t i) s of Inl h \<Rightarrow> h = Todo_reached
   | Inr (Some e, s') \<Rightarrow> e = error_push (ec EC_PMM_OUT_OF_MEMORY) EC_RISCV_SV39_ALLOC_FAILED \<and> s' = s
   | Inr (None, s') \<Rightarrow> \<exists>pages'. sv39_ok s' root pages' others \<and> set pages \<subseteq> set pages' \<and>
       agree_on (covered others) (kmem s') (kmem s) \<and> hhdm_offset s' = hhdm_offset s \<and>
       (\<forall>va. sv39_map s' root va = sv39_map s root va) \<and>
       pt_at (hhdm_offset s') (kmem s') root (i # qs) = Some (sv39_next_table (sv39_entry t i) s')"
proof (cases "riscv_sv39_pte_valid (load64 (kmem s) (sv39_entry t i))")
  case True
  then show ?thesis
    using ok t i nl by (auto simp: sv39_ensure_table_def pt_step_def sv39_next_table_def kernel_hhdm_phys_to_virt_def)
next
  case False
  have inv: "sv39_inv (hhdm_offset s) (kmem s) root pages" and k: "kvspace_inv s (pages @ others)"
    using ok by (simp_all add: sv39_ok_def)
  have len: "length qs \<le> 2" "length qs \<le> 3" using t by simp_all
  note a = pmm_alloc_page [OF k]
  show ?thesis
  proof (cases "pmm_alloc PAGE_SIZE (Some 0) s")
    case (Inl h)
    then show ?thesis using a False by (simp add: sv39_ensure_table_def)
  next
    case (Inr r)
    then obtain err region s1 where r: "pmm_alloc PAGE_SIZE (Some 0) s = Inr ((err, region), s1)" by (cases r) auto
    show ?thesis
    proof (cases "error_is_err err")
      case True
      then show ?thesis using a False r by (simp add: sv39_ensure_table_def)
    next
      case ne: False
      let ?hh = "hhdm_offset s"
      obtain p where p: "region = Some p" "2 ^ 12 dvd unat p" "?hh + p \<noteq> 0" "kvspace_inv s1 ((?hh + p, 4096) # pages @ others)"
        "kmem s1 ` extent (?hh + p) 4096 \<subseteq> {0}" "agree_on (covered (pages @ others)) (kmem s1) (kmem s)" "hhdm_offset s1 = ?hh"
        using a r ne by auto
      have ag: "agree_on (covered pages) (kmem s1) (kmem s)" "agree_on (covered others) (kmem s1) (kmem s)"
        using p(6) by (auto simp: agree_on_def)
      have ok1: "sv39_ok s1 root ((?hh + p, 4096) # pages) others"
        using p(4) sv39_inv_agree [OF inv ag(1), of "(?hh + p, 4096) # pages"] by (auto simp: sv39_ok_def p(7))
      have inv1: "sv39_inv ?hh (kmem s1) root pages" by (rule sv39_inv_agree [OF inv ag(1)]) simp
      have ap: "all_apart ((?hh + p, 4096) # pages)" by (rule sv39_ok_apart [OF ok1])
      have t1: "pt_at ?hh (kmem s1) root qs = Some t" using pt_at_agree [OF inv ag(1) len(2)] t by simp
      have "extent (sv39_entry t i) 8 \<subseteq> covered pages"
        using sv39_inv_table(3) [OF inv len(1) t(1)] sv39_entry_within [OF i, of t] by blast
      then have old: "\<not> riscv_sv39_pte_valid (load64 (kmem s1) (sv39_entry t i))"
        using load64_agree [OF ag(1)] False by simp
      let ?v = "riscv_sv39_create_pte p RISCV_SV39_PTFLAG_VALID"
      let ?s2 = "s1\<lparr>kmem := store64 (kmem s1) (sv39_entry t i) ?v\<rparr>"
      have v: "riscv_sv39_pte_valid ?v" "\<not> riscv_sv39_pte_leaf ?v"
        by (simp_all add: riscv_sv39_create_pte_def frame_no_flags) (simp_all add: riscv_sv39_pte_valid_def riscv_sv39_pte_leaf_def)
      have addr: "?hh + riscv_sv39_pte_get_address ?v = ?hh + p" using create_pte_address [of 1 p] p(2) by simp
      have S: "sv39_inv ?hh (store64 (kmem s1) (sv39_entry t i) ?v) root ((?hh + p, 4096) # pages)"
        "sv39_space ?hh (store64 (kmem s1) (sv39_entry t i) ?v) root va = sv39_space ?hh (kmem s1) root va"
        "pt_at ?hh (store64 (kmem s1) (sv39_entry t i) ?v) root (i # qs) = Some (?hh + p)" for va
        by (fact sv39_store_pointer [OF inv1 ap t1 t(2) i v addr p(3,5) old])+
      note st = sv39_ok_store [OF ok1, of qs t i ?v]
      have ok2: "sv39_ok ?s2 root ((?hh + p, 4096) # pages) others"
        using st(1) t1 len i S(1) by (simp add: sv39_ok_def p(7))
      have run: "sv39_ensure_table (sv39_entry t i) s = Inr (None, ?s2)"
        using False r ne by (simp add: sv39_ensure_table_def p(1))
      have "agree_on (covered others) (kmem ?s2) (kmem s1)" using st(2) t1 len i by (simp add: p(7))
      then have "agree_on (covered others) (kmem ?s2) (kmem s)" using ag(2) by (simp add: agree_on_def)
      moreover have "sv39_map ?s2 root va = sv39_map s root va" for va
        using S(2) sv39_space_agree [OF inv ag(1)] by (simp add: p(7))
      ultimately show ?thesis
        using ok2 S(3) addr unfolding run
        by (simp add: p(7) sv39_next_table_def kernel_hhdm_phys_to_virt_def del: pt_at.simps)
          (intro exI [of _ "(?hh + p, 4096) # pages"], auto)
    qed
  qed
qed

lemma sv39_keeps_refl: "sv39_ok s root pages others \<Longrightarrow> sv39_keeps s root pages others s"
  by (auto simp: sv39_keeps_def)

lemma sv39_keeps_trans:
  assumes "set pages \<subseteq> set pages1" and "agree_on (covered others) (kmem s1) (kmem s)" and "hhdm_offset s1 = hhdm_offset s"
    and "sv39_keeps s1 root pages1 others s2"
  shows "sv39_keeps s root pages others s2"
proof -
  obtain pages2 where p: "sv39_ok s2 root pages2 others" "set pages1 \<subseteq> set pages2"
    and a: "agree_on (covered others) (kmem s2) (kmem s1)" and h: "hhdm_offset s2 = hhdm_offset s1"
    using assms(4) by (auto simp: sv39_keeps_def)
  have "set pages \<subseteq> set pages2" using assms(1) p(2) by (rule subset_trans)
  moreover have "agree_on (covered others) (kmem s2) (kmem s)" by (rule agree_on_trans [OF a assms(2)])
  ultimately show ?thesis using p(1) h assms(3) by (auto simp: sv39_keeps_def)
qed

text \<open>Writing a leaf, or clearing an entry, at a path.\<close>

lemma sv39_write_leaf:
  fixes s :: "'a kernel_scheme" and v :: u64
  assumes ok: "sv39_ok s root pages others" and t: "pt_at (hhdm_offset s) (kmem s) root qs = Some t" "length qs \<le> 2"
    and i: "i < RISCV_SV39_PT_ENTRY_COUNT" and v: "\<not> riscv_sv39_pte_valid v \<or> riscv_sv39_pte_leaf v"
  defines "s' \<equiv> s\<lparr>kmem := store64 (kmem s) (sv39_entry t i) v\<rparr>"
  shows "sv39_keeps s root pages others s'"
    and "sv39_map s' root va =
      (if take (Suc (length qs)) (sv39_vpns va) = rev qs @ [i]
       then if riscv_sv39_pte_valid v then Some (2 - length qs, v) else None
       else sv39_map s root va)"
proof -
  have inv: "sv39_inv (hhdm_offset s) (kmem s) root pages" using ok by (simp add: sv39_ok_def)
  note S = sv39_store_leaf [OF inv sv39_ok_apart [OF ok] t i v]
  have "sv39_ok s' root pages others" using sv39_ok_store(1) [OF ok t i, of v] S(1) by (simp add: s'_def sv39_ok_def)
  then show "sv39_keeps s root pages others s'"
    using sv39_ok_store(2) [OF ok t i, of v] by (auto simp: sv39_keeps_def s'_def)
  show "sv39_map s' root va =
      (if take (Suc (length qs)) (sv39_vpns va) = rev qs @ [i]
       then if riscv_sv39_pte_valid v then Some (2 - length qs, v) else None
       else sv39_map s root va)"
    using S(2) by (simp add: s'_def)
qed

lemma leaf_pte:
  "riscv_sv39_pte_leaf flags \<Longrightarrow> riscv_sv39_pte_valid (riscv_sv39_create_pte pa (flags OR RISCV_SV39_PTFLAG_VALID)) \<and>
    riscv_sv39_pte_leaf (riscv_sv39_create_pte pa (flags OR RISCV_SV39_PTFLAG_VALID))"
  by (simp add: riscv_sv39_create_pte_def frame_no_flags pte_leaf_or)
    (simp add: riscv_sv39_pte_valid_def bit.conj_disj_distrib2 or_eq_0_iff)

text \<open>The entries on the way of an address, and what the walk says of them.\<close>

lemma sv39_map_entries:
  assumes "sv39_ok s root pages others"
  shows "root \<noteq> 0"
    and "sv39_map s root va = (let e2 = load64 (kmem s) (sv39_entry root (sv39_vpn 2 va)) in
      if \<not> riscv_sv39_pte_valid e2 then None else if riscv_sv39_pte_leaf e2 then Some (2, e2)
      else let e1 = load64 (kmem s) (sv39_entry (hhdm_offset s + riscv_sv39_pte_get_address e2) (sv39_vpn 1 va)) in
      if \<not> riscv_sv39_pte_valid e1 then None else if riscv_sv39_pte_leaf e1 then Some (1, e1)
      else let e0 = load64 (kmem s) (sv39_entry (hhdm_offset s + riscv_sv39_pte_get_address e1) (sv39_vpn 0 va)) in
      if \<not> riscv_sv39_pte_valid e0 then None else if riscv_sv39_pte_leaf e0 then Some (0, e0) else None)"
proof -
  have "sv39_inv (hhdm_offset s) (kmem s) root pages" using assms by (simp add: sv39_ok_def)
  from sv39_inv_table(1) [OF this, of "[]" root] show "root \<noteq> 0" by simp
qed (simp add: sv39_space_def sv39_vpns_def Let_def)

text \<open>The walk of an address, from the table at its path on.\<close>

lemma sv39_map_from:
  assumes "pt_at (hhdm_offset s) (kmem s) root qs = Some t" and "length qs \<le> 2" and "rev qs = take (length qs) (sv39_vpns va)"
  shows "sv39_map s root va = sv39_walk (hhdm_offset s) (kmem s) t (drop (length qs) (sv39_vpns va))"
  using sv39_walk_descend [OF assms(1), of "drop (length qs) (sv39_vpns va)"] assms(3)
  by (simp add: sv39_space_def)

lemma sv39_map_invalid_entry:
  assumes "pt_at (hhdm_offset s) (kmem s) root qs = Some t" and "length qs \<le> 2"
    and "take (Suc (length qs)) (sv39_vpns va) = rev qs @ [i]" and "\<not> riscv_sv39_pte_valid (load64 (kmem s) (sv39_entry t i))"
  shows "sv39_map s root va = None"
  using sv39_walk_descend [OF assms(1), of "i # drop (Suc (length qs)) (sv39_vpns va)"] assms(3,4)
    append_take_drop_id [of "Suc (length qs)" "sv39_vpns va"]
  by (simp add: sv39_space_def)

text \<open>The tail that the three map routines share: look at the entry, write it if it is free.\<close>

lemma sv39_map_tail:
  fixes s :: "'a kernel_scheme" and pa flags :: u64
  assumes ok: "sv39_ok s root pages others" and t: "pt_at (hhdm_offset s) (kmem s) root qs = Some t" "length qs \<le> 2"
    and q: "take (Suc (length qs)) (sv39_vpns va) = rev qs @ [i]" and f: "riscv_sv39_pte_leaf flags"
    and new: "\<not> riscv_sv39_pte_valid (load64 (kmem s) (sv39_entry t i))"
  defines "pte \<equiv> riscv_sv39_create_pte pa (flags OR RISCV_SV39_PTFLAG_VALID)"
  defines "s' \<equiv> s\<lparr>kmem := store64 (kmem s) (sv39_entry t i) pte\<rparr>"
  shows "sv39_keeps s root pages others s'"
    and "take (Suc (length qs)) (sv39_vpns va') = take (Suc (length qs)) (sv39_vpns va) \<Longrightarrow>
      sv39_map s root va' = None \<and> sv39_map s' root va' = Some (2 - length qs, pte)"
    and "take (Suc (length qs)) (sv39_vpns va') \<noteq> take (Suc (length qs)) (sv39_vpns va) \<Longrightarrow>
      sv39_map s' root va' = sv39_map s root va'"
proof -
  have "i \<in> set (take (Suc (length qs)) (sv39_vpns va))" by (simp add: q)
  then have i: "i < RISCV_SV39_PT_ENTRY_COUNT" using sv39_vpns_bound [of va] by (auto dest: in_set_takeD)
  have v: "riscv_sv39_pte_valid pte" "riscv_sv39_pte_leaf pte" using leaf_pte [OF f] by (simp_all add: pte_def)
  note w = sv39_write_leaf [OF ok t i disjI2 [OF v(2)], folded s'_def]
  show "sv39_keeps s root pages others s'" by (rule w(1))
  show "take (Suc (length qs)) (sv39_vpns va') = take (Suc (length qs)) (sv39_vpns va) \<Longrightarrow>
      sv39_map s root va' = None \<and> sv39_map s' root va' = Some (2 - length qs, pte)"
    using w(2) [of va'] v(1) q sv39_map_invalid_entry [OF t, of va' i] new by simp
  show "take (Suc (length qs)) (sv39_vpns va') \<noteq> take (Suc (length qs)) (sv39_vpns va) \<Longrightarrow>
      sv39_map s' root va' = sv39_map s root va'"
    using w(2) [of va'] q by simp
qed

text \<open>One level of the descent that creates missing tables, when no superpage is in the way.\<close>

lemma sv39_level_step:
  assumes ok: "sv39_ok s root pages others" and t: "pt_at (hhdm_offset s) (kmem s) root qs = Some t" "length qs \<le> 1"
    and q: "take (Suc (length qs)) (sv39_vpns va) = rev qs @ [i]"
    and ns: "\<forall>e. sv39_map s root va \<noteq> Some (2 - length qs, e)"
  shows "case sv39_ensure_table (sv39_entry t i) s of Inl h \<Rightarrow> h = Todo_reached
   | Inr (Some e, s') \<Rightarrow> e = error_push (ec EC_PMM_OUT_OF_MEMORY) EC_RISCV_SV39_ALLOC_FAILED \<and> s' = s
   | Inr (None, s') \<Rightarrow> \<exists>pages'. sv39_ok s' root pages' others \<and> set pages \<subseteq> set pages' \<and>
       agree_on (covered others) (kmem s') (kmem s) \<and> hhdm_offset s' = hhdm_offset s \<and>
       (\<forall>va. sv39_map s' root va = sv39_map s root va) \<and> sv39_next_table (sv39_entry t i) s' \<noteq> 0 \<and>
       pt_at (hhdm_offset s') (kmem s') root (i # qs) = Some (sv39_next_table (sv39_entry t i) s')"
proof -
  have "i \<in> set (take (Suc (length qs)) (sv39_vpns va))" by (simp add: q)
  then have i: "i < RISCV_SV39_PT_ENTRY_COUNT" using sv39_vpns_bound [of va] by (auto dest: in_set_takeD)
  have vp: "sv39_vpns va = rev qs @ i # drop (Suc (length qs)) (sv39_vpns va)"
    using append_take_drop_id [of "Suc (length qs)" "sv39_vpns va"] q by simp
  have l: "length (drop (Suc (length qs)) (sv39_vpns va)) = 2 - length qs" by (simp add: sv39_vpns_def)
  have "sv39_map s root va = sv39_walk (hhdm_offset s) (kmem s) t (i # drop (Suc (length qs)) (sv39_vpns va))"
    using sv39_walk_descend [OF t(1)] vp by (metis sv39_space_def)
  then have "\<not> (riscv_sv39_pte_valid (load64 (kmem s) (sv39_entry t i)) \<and> riscv_sv39_pte_leaf (load64 (kmem s) (sv39_entry t i)))"
    using ns l by auto
  note c = sv39_ensure_table_correct [OF ok t i this]
  have nz: "b \<noteq> 0" if "sv39_ok s' root pages' others" "pt_at (hhdm_offset s') (kmem s') root (i # qs) = Some b"
    for s' :: "'a kernel_scheme" and pages' b
    using that(1) sv39_inv_table(1) [OF _ _ that(2)] t(2) by (auto simp: sv39_ok_def simp del: pt_at.simps)
  show ?thesis
  proof (cases "sv39_ensure_table (sv39_entry t i) s")
    case (Inl h)
    then show ?thesis using c by simp
  next
    case (Inr r)
    then obtain f s' where r: "sv39_ensure_table (sv39_entry t i) s = Inr (f, s')" by (cases r) auto
    show ?thesis
    proof (cases f)
      case None
      then show ?thesis using c r nz by (simp del: pt_at.simps) blast
    qed (use c r in simp)
  qed
qed

text \<open>What a successful mapping of a page of a level does to the address space.\<close>

definition sv39_maps ::
    "nat \<Rightarrow> u64 \<Rightarrow> u64 \<Rightarrow> (u64 \<Rightarrow> (nat \<times> u64) option) \<Rightarrow> (u64 \<Rightarrow> (nat \<times> u64) option) \<Rightarrow> bool" where
  "sv39_maps level va pte F F' \<longleftrightarrow>
     (\<forall>va'. if take (3 - level) (sv39_vpns va') = take (3 - level) (sv39_vpns va)
        then F va' = None \<and> F' va' = Some (level, pte) else F' va' = F va')"

lemma riscv_sv39_map_gigapage_correct:
  assumes ok: "sv39_ok s root pages others" and f: "riscv_sv39_pte_leaf flags"
    and run: "riscv_sv39_map_gigapage root va pa flags s = Inr (err, s')"
  shows "sv39_keeps s root pages others s' \<and>
    (if err = ec EC_SUCCESS
     then sv39_maps 2 va (riscv_sv39_create_pte pa (flags OR RISCV_SV39_PTFLAG_VALID)) (sv39_map s root) (sv39_map s' root)
     else s' = s \<and> err = (if IS_ALIGNED va GIGAPAGE_SIZE \<and> IS_ALIGNED pa GIGAPAGE_SIZE
       then ec EC_RISCV_SV39_MAPPING_EXISTS else ec EC_RISCV_SV39_UNALIGNED_ADDR))"
proof -
  let ?e = "sv39_entry root (sv39_vpn 2 va)"
  have q: "take (Suc (length [])) (sv39_vpns va) = rev [] @ [sv39_vpn 2 va]" by (simp add: sv39_vpns_def)
  note w = sv39_map_tail [OF ok _ _ q f]
  show ?thesis
  proof (cases "IS_ALIGNED va GIGAPAGE_SIZE \<and> IS_ALIGNED pa GIGAPAGE_SIZE \<and> \<not> riscv_sv39_pte_valid (load64 (kmem s) ?e)")
    case True
    then have "err = ec EC_SUCCESS" "s' = s\<lparr>kmem := store64 (kmem s) ?e (riscv_sv39_create_pte pa (flags OR RISCV_SV39_PTFLAG_VALID))\<rparr>"
      using run sv39_map_entries(1) [OF ok] by (simp_all add: riscv_sv39_map_gigapage_def)
    then show ?thesis using True w [of root] by (auto simp: sv39_maps_def)
  next
    case False
    then show ?thesis using run sv39_map_entries(1) [OF ok] sv39_keeps_refl [OF ok]
      by (auto simp: riscv_sv39_map_gigapage_def split: if_splits)
  qed
qed

text \<open>
  The result of mapping a page of a level, whatever it is: the rest of the system is kept, and the
  address space changes exactly on success.
\<close>

definition sv39_map_result ::
    "nat \<Rightarrow> u64 \<Rightarrow> u64 \<Rightarrow> 'a kernel_scheme \<Rightarrow> addr \<Rightarrow> (addr \<times> nat) list \<Rightarrow> (addr \<times> nat) list \<Rightarrow> u64 \<Rightarrow> 'a kernel_scheme \<Rightarrow> bool" where
  "sv39_map_result level va pte s root pages others err s' \<longleftrightarrow>
     sv39_keeps s root pages others s' \<and>
     (if err = ec EC_SUCCESS then sv39_maps level va pte (sv39_map s root) (sv39_map s' root)
      else (\<forall>va'. sv39_map s' root va' = sv39_map s root va') \<and>
        err \<in> {ec EC_RISCV_SV39_MAPPING_EXISTS, error_push (ec EC_PMM_OUT_OF_MEMORY) EC_RISCV_SV39_ALLOC_FAILED})"

lemma sv39_map_result_unchanged:
  assumes "sv39_ok s root pages others"
    and "err \<in> {ec EC_RISCV_SV39_MAPPING_EXISTS, error_push (ec EC_PMM_OUT_OF_MEMORY) EC_RISCV_SV39_ALLOC_FAILED}"
  shows "sv39_map_result level va pte s root pages others err s"
  using assms sv39_keeps_refl [OF assms(1)] by (auto simp: sv39_map_result_def error_push_def sizeof_ErrorCode_def)

lemma sv39_map_result_step:
  assumes "set pages \<subseteq> set pages1" and "agree_on (covered others) (kmem s1) (kmem s)" and "hhdm_offset s1 = hhdm_offset s"
    and "\<forall>va. sv39_map s1 root va = sv39_map s root va"
    and "sv39_map_result level va pte s1 root pages1 others err s'"
  shows "sv39_map_result level va pte s root pages others err s'"
proof -
  have k: "sv39_keeps s1 root pages1 others s'" using assms(5) by (simp add: sv39_map_result_def)
  have e: "sv39_map s1 root = sv39_map s root" using assms(4) by blast
  show ?thesis using assms(5) sv39_keeps_trans [OF assms(1-3) k] unfolding sv39_map_result_def e
    by (cases "err = ec EC_SUCCESS") (simp_all del: ec.simps)
qed

lemma sv39_map_result_tail:
  fixes s :: "'a kernel_scheme"
  assumes ok: "sv39_ok s root pages others" and t: "pt_at (hhdm_offset s) (kmem s) root qs = Some t" "length qs \<le> 2"
    and q: "take (Suc (length qs)) (sv39_vpns va) = rev qs @ [i]" and f: "riscv_sv39_pte_leaf flags"
    and pte: "pte = riscv_sv39_create_pte pa (flags OR RISCV_SV39_PTFLAG_VALID)"
    and run: "(if riscv_sv39_pte_valid (load64 (kmem s) (sv39_entry t i)) then Inr (ec EC_RISCV_SV39_MAPPING_EXISTS, s)
      else Inr (ec EC_SUCCESS, s\<lparr>kmem := store64 (kmem s) (sv39_entry t i) pte\<rparr>)) = (Inr (err, s') :: halt + u64 \<times> 'a kernel_scheme)"
  shows "sv39_map_result (2 - length qs) va pte s root pages others err s'"
proof (cases "riscv_sv39_pte_valid (load64 (kmem s) (sv39_entry t i))")
  case True
  then have "s' = s" "err = ec EC_RISCV_SV39_MAPPING_EXISTS" using run by simp_all
  then show ?thesis using sv39_map_result_unchanged [OF ok] by blast
next
  case False
  then have "err = ec EC_SUCCESS" "s' = s\<lparr>kmem := store64 (kmem s) (sv39_entry t i) pte\<rparr>" using run by simp_all
  moreover have "3 - (2 - length qs) = Suc (length qs)" using t by simp
  ultimately show ?thesis
    using sv39_map_tail [OF ok t q f False, where pa = pa] by (auto simp: sv39_map_result_def sv39_maps_def pte)
qed

lemma riscv_sv39_map_megapage_correct:
  fixes s :: "'a kernel_scheme"
  assumes ok: "sv39_ok s root pages others" and f: "riscv_sv39_pte_leaf flags"
    and al: "IS_ALIGNED va MEGAPAGE_SIZE" "IS_ALIGNED pa MEGAPAGE_SIZE" and ns: "\<forall>e. sv39_map s root va \<noteq> Some (2, e)"
  shows "case riscv_sv39_map_megapage root va pa flags s of Inl h \<Rightarrow> h = Todo_reached
    | Inr (err, s') \<Rightarrow> sv39_map_result 1 va (riscv_sv39_create_pte pa (flags OR RISCV_SV39_PTFLAG_VALID)) s root pages others err s'"
proof -
  let ?e = "sv39_entry root (sv39_vpn 2 va)"
  let ?pte = "riscv_sv39_create_pte pa (flags OR RISCV_SV39_PTFLAG_VALID)"
  have nz: "root \<noteq> 0" by (rule sv39_map_entries(1) [OF ok])
  have q: "take (Suc (length [])) (sv39_vpns va) = rev [] @ [sv39_vpn 2 va]"
    "take (Suc (length [sv39_vpn 2 va])) (sv39_vpns va) = rev [sv39_vpn 2 va] @ [sv39_vpn 1 va]" by (simp_all add: sv39_vpns_def)
  note st = sv39_level_step [OF ok _ _ q(1), of root]
  show ?thesis
  proof (cases "sv39_ensure_table ?e s")
    case (Inl h)
    then show ?thesis using st ns nz al by (simp add: riscv_sv39_map_megapage_def)
  next
    case (Inr r)
    then obtain f1 s1 where r: "sv39_ensure_table ?e s = Inr (f1, s1)" by (cases r) auto
    show ?thesis
    proof (cases f1)
      case (Some e)
      then have "riscv_sv39_map_megapage root va pa flags s = Inr (e, s1)" "s1 = s"
        "e = error_push (ec EC_PMM_OUT_OF_MEMORY) EC_RISCV_SV39_ALLOC_FAILED"
        using st r ns nz al by (simp_all add: riscv_sv39_map_megapage_def)
      then show ?thesis using sv39_map_result_unchanged [OF ok] by simp
    next
      case None
      then obtain pages1 where p: "sv39_ok s1 root pages1 others" "set pages \<subseteq> set pages1"
        "agree_on (covered others) (kmem s1) (kmem s)" "hhdm_offset s1 = hhdm_offset s"
        "\<forall>va. sv39_map s1 root va = sv39_map s root va" "sv39_next_table ?e s1 \<noteq> 0"
        "pt_at (hhdm_offset s1) (kmem s1) root [sv39_vpn 2 va] = Some (sv39_next_table ?e s1)"
        using st r ns by (auto simp del: pt_at.simps(2))
      let ?l1 = "sv39_entry (sv39_next_table ?e s1) (sv39_vpn 1 va)"
      let ?tail = "(if riscv_sv39_pte_valid (load64 (kmem s1) ?l1) then Inr (ec EC_RISCV_SV39_MAPPING_EXISTS, s1)
          else Inr (ec EC_SUCCESS, s1\<lparr>kmem := store64 (kmem s1) ?l1 ?pte\<rparr>)) :: halt + u64 \<times> 'a kernel_scheme"
      have eq: "riscv_sv39_map_megapage root va pa flags s = ?tail"
        using None r nz al p(6) by (simp add: riscv_sv39_map_megapage_def Let_def)
      obtain err s' where tl: "?tail = Inr (err, s')" by (cases "riscv_sv39_pte_valid (load64 (kmem s1) ?l1)") simp_all
      have "sv39_map_result 1 va ?pte s1 root pages1 others err s'"
        using sv39_map_result_tail [OF p(1,7) _ q(2) f refl tl] by simp
      then show ?thesis using sv39_map_result_step [OF p(2-5)] trans [OF eq tl] by simp
    qed
  qed
qed

lemma riscv_sv39_map_small_page_correct:
  fixes s :: "'a kernel_scheme"
  assumes ok: "sv39_ok s root pages others" and f: "riscv_sv39_pte_leaf flags"
    and al: "IS_ALIGNED va PAGE_SIZE" "IS_ALIGNED pa PAGE_SIZE" and ns: "\<forall>l e. sv39_map s root va = Some (l, e) \<longrightarrow> l = 0"
  shows "case riscv_sv39_map_small_page root va pa flags s of Inl h \<Rightarrow> h = Todo_reached
    | Inr (err, s') \<Rightarrow> sv39_map_result 0 va (riscv_sv39_create_pte pa (flags OR RISCV_SV39_PTFLAG_VALID)) s root pages others err s'"
proof -
  let ?e2 = "sv39_entry root (sv39_vpn 2 va)"
  let ?pte = "riscv_sv39_create_pte pa (flags OR RISCV_SV39_PTFLAG_VALID)"
  have nz: "root \<noteq> 0" by (rule sv39_map_entries(1) [OF ok])
  have q: "take (Suc (length [])) (sv39_vpns va) = rev [] @ [sv39_vpn 2 va]"
    "take (Suc (length [sv39_vpn 2 va])) (sv39_vpns va) = rev [sv39_vpn 2 va] @ [sv39_vpn 1 va]"
    "take (Suc (length [sv39_vpn 1 va, sv39_vpn 2 va])) (sv39_vpns va) = rev [sv39_vpn 1 va, sv39_vpn 2 va] @ [sv39_vpn 0 va]"
    by (simp_all add: sv39_vpns_def)
  have n2: "\<forall>e. sv39_map s root va \<noteq> Some (2 - length [], e)" using ns by fastforce
  note st = sv39_level_step [OF ok _ _ q(1) n2, of root]
  show ?thesis
  proof (cases "sv39_ensure_table ?e2 s")
    case (Inl h)
    then show ?thesis using st nz al by (simp add: riscv_sv39_map_small_page_def)
  next
    case (Inr r)
    then obtain f1 s1 where r: "sv39_ensure_table ?e2 s = Inr (f1, s1)" by (cases r) auto
    show ?thesis
    proof (cases f1)
      case (Some e)
      then have "riscv_sv39_map_small_page root va pa flags s = Inr (e, s1)" "s1 = s"
        "e = error_push (ec EC_PMM_OUT_OF_MEMORY) EC_RISCV_SV39_ALLOC_FAILED"
        using st r nz al by (simp_all add: riscv_sv39_map_small_page_def)
      then show ?thesis using sv39_map_result_unchanged [OF ok] by simp
    next
      case n: None
      then obtain pages1 where p: "sv39_ok s1 root pages1 others" "set pages \<subseteq> set pages1"
        "agree_on (covered others) (kmem s1) (kmem s)" "hhdm_offset s1 = hhdm_offset s"
        "\<forall>va. sv39_map s1 root va = sv39_map s root va" "sv39_next_table ?e2 s1 \<noteq> 0"
        "pt_at (hhdm_offset s1) (kmem s1) root [sv39_vpn 2 va] = Some (sv39_next_table ?e2 s1)"
        using st r by (auto simp del: pt_at.simps(2))
      let ?e1 = "sv39_entry (sv39_next_table ?e2 s1) (sv39_vpn 1 va)"
      have n1: "\<forall>e. sv39_map s1 root va \<noteq> Some (2 - length [sv39_vpn 2 va], e)" using ns p(5) by fastforce
      note st1 = sv39_level_step [OF p(1,7) _ q(2) n1]
      note step1 = sv39_map_result_step [OF p(2-5)]
      show ?thesis
      proof (cases "sv39_ensure_table ?e1 s1")
        case (Inl h)
        then show ?thesis using st1 n r nz al p(6) by (simp add: riscv_sv39_map_small_page_def)
      next
        case (Inr r1)
        then obtain f2 s2 where r1: "sv39_ensure_table ?e1 s1 = Inr (f2, s2)" by (cases r1) auto
        show ?thesis
        proof (cases f2)
          case (Some e)
          then have "riscv_sv39_map_small_page root va pa flags s = Inr (e, s2)" "s2 = s1"
            "e = error_push (ec EC_PMM_OUT_OF_MEMORY) EC_RISCV_SV39_ALLOC_FAILED"
            using st1 n r r1 nz al p(6) by (simp_all add: riscv_sv39_map_small_page_def)
          then show ?thesis using step1 [OF sv39_map_result_unchanged [OF p(1)]] by simp
        next
          case None
          then obtain pages2 where p2: "sv39_ok s2 root pages2 others" "set pages1 \<subseteq> set pages2"
            "agree_on (covered others) (kmem s2) (kmem s1)" "hhdm_offset s2 = hhdm_offset s1"
            "\<forall>va. sv39_map s2 root va = sv39_map s1 root va" "sv39_next_table ?e1 s2 \<noteq> 0"
            "pt_at (hhdm_offset s2) (kmem s2) root [sv39_vpn 1 va, sv39_vpn 2 va] = Some (sv39_next_table ?e1 s2)"
            using st1 r1 by (auto simp del: pt_at.simps(2))
          let ?e0 = "sv39_entry (sv39_next_table ?e1 s2) (sv39_vpn 0 va)"
          let ?tail = "(if riscv_sv39_pte_valid (load64 (kmem s2) ?e0) then Inr (ec EC_RISCV_SV39_MAPPING_EXISTS, s2)
              else Inr (ec EC_SUCCESS, s2\<lparr>kmem := store64 (kmem s2) ?e0 ?pte\<rparr>)) :: halt + u64 \<times> 'a kernel_scheme"
          have eq: "riscv_sv39_map_small_page root va pa flags s = ?tail"
            using None n r r1 nz al p(6) p2(6) by (simp add: riscv_sv39_map_small_page_def Let_def)
          obtain err s' where tl: "?tail = Inr (err, s')" by (cases "riscv_sv39_pte_valid (load64 (kmem s2) ?e0)") simp_all
          have "sv39_map_result 0 va ?pte s2 root pages2 others err s'"
            using sv39_map_result_tail [OF p2(1,7) _ q(3) f refl tl] by simp
          then show ?thesis using step1 [OF sv39_map_result_step [OF p2(2-5)]] trans [OF eq tl] by simp
        qed
      qed
    qed
  qed
qed

section \<open>Unmapping and translation\<close>

lemma sv39_step_pt:
  assumes ok: "sv39_ok s root pages others" and t: "pt_at (hhdm_offset s) (kmem s) root qs = Some t" "length qs \<le> 1"
    and v: "riscv_sv39_pte_valid (load64 (kmem s) (sv39_entry t (sv39_vpn l va)))"
      "\<not> riscv_sv39_pte_leaf (load64 (kmem s) (sv39_entry t (sv39_vpn l va)))"
  shows "pt_at (hhdm_offset s) (kmem s) root (sv39_vpn l va # qs) = Some (sv39_next_table (sv39_entry t (sv39_vpn l va)) s)"
    and "sv39_next_table (sv39_entry t (sv39_vpn l va)) s \<noteq> 0"
proof -
  show p: "pt_at (hhdm_offset s) (kmem s) root (sv39_vpn l va # qs) = Some (sv39_next_table (sv39_entry t (sv39_vpn l va)) s)"
    using t v by (simp add: pt_step_def sv39_vpn_less sv39_next_table_def kernel_hhdm_phys_to_virt_def)
  have "sv39_inv (hhdm_offset s) (kmem s) root pages" using ok by (simp add: sv39_ok_def)
  from sv39_inv_table(1) [OF this _ p] show "sv39_next_table (sv39_entry t (sv39_vpn l va)) s \<noteq> 0" using t(2) by simp
qed

lemma sv39_next_table_addr:
  "sv39_next_table e s = hhdm_offset s + riscv_sv39_pte_get_address (load64 (kmem s) e)"
  by (simp add: sv39_next_table_def kernel_hhdm_phys_to_virt_def)

lemma riscv_sv39_virt_to_phys_correct:
  assumes ok: "sv39_ok s root pages others"
  shows "riscv_sv39_virt_to_phys root va s =
    Inr (case sv39_map s root va of None \<Rightarrow> 0 | Some (l, e) \<Rightarrow> riscv_sv39_pte_get_address e + (va AND 0xFFF))"
proof -
  note M = sv39_map_entries [OF ok]
  let ?e2 = "sv39_entry root (sv39_vpn 2 va)"
  let ?e1 = "sv39_entry (sv39_next_table ?e2 s) (sv39_vpn 1 va)"
  have a1: "sv39_next_table ?e2 s \<noteq> 0"
    if "riscv_sv39_pte_valid (load64 (kmem s) ?e2)" "\<not> riscv_sv39_pte_leaf (load64 (kmem s) ?e2)"
    using sv39_step_pt(2) [OF ok _ _ that, of "[]"] by simp
  have a0: "sv39_next_table ?e1 s \<noteq> 0"
    if "riscv_sv39_pte_valid (load64 (kmem s) ?e2)" "\<not> riscv_sv39_pte_leaf (load64 (kmem s) ?e2)"
      "riscv_sv39_pte_valid (load64 (kmem s) ?e1)" "\<not> riscv_sv39_pte_leaf (load64 (kmem s) ?e1)"
    using sv39_step_pt(2) [OF ok sv39_step_pt(1) [OF ok _ _ that(1,2), of "[]"] _ that(3,4)] by simp
  show ?thesis
    using a1 a0 M(1) unfolding M(2) [of va] riscv_sv39_virt_to_phys_def Let_def
    by (simp flip: sv39_next_table_addr)
qed

lemma riscv_sv39_unmap_small_page_correct:
  assumes ok: "sv39_ok s root pages others"
  shows "case riscv_sv39_unmap_small_page root va out s of Inl h \<Rightarrow> False
    | Inr ((err, out'), s') \<Rightarrow>
        sv39_keeps s root pages others s' \<and>
        (if err = ec EC_SUCCESS
         then IS_ALIGNED va PAGE_SIZE \<and>
           (\<forall>va'. sv39_map s' root va' = (if sv39_vpns va' = sv39_vpns va then None else sv39_map s root va')) \<and>
           (\<forall>l e. sv39_map s root va = Some (l, e) \<longrightarrow> l = 0 \<and> out' = map_option (\<lambda>_. riscv_sv39_pte_get_address e) out)
         else s' = s \<and> out' = out \<and>
           err = (if \<not> IS_ALIGNED va PAGE_SIZE then ec EC_RISCV_SV39_UNALIGNED_ADDR
             else if sv39_map s root va = None then ec EC_RISCV_SV39_NO_MAPPING else ec EC_RISCV_SV39_MAPPING_EXISTS) \<and>
           (\<forall>e. sv39_map s root va = Some (0, e) \<longrightarrow> \<not> IS_ALIGNED va PAGE_SIZE))"
proof -
  note M = sv39_map_entries [OF ok]
  let ?e2 = "sv39_entry root (sv39_vpn 2 va)"
  let ?e1 = "sv39_entry (sv39_next_table ?e2 s) (sv39_vpn 1 va)"
  let ?e0 = "sv39_entry (sv39_next_table ?e1 s) (sv39_vpn 0 va)"
  note k = sv39_keeps_refl [OF ok]
  note D = riscv_sv39_unmap_small_page_def
  note M2 = M(2) [of va, unfolded Let_def, folded sv39_next_table_addr]
  show ?thesis
  proof (cases "IS_ALIGNED va PAGE_SIZE")
    case False
    then show ?thesis using k by (simp add: D)
  next
    case al: True
    show ?thesis
    proof (cases "riscv_sv39_pte_valid (load64 (kmem s) ?e2) \<and> \<not> riscv_sv39_pte_leaf (load64 (kmem s) ?e2)")
      case False
      then show ?thesis using k al M(1) by (auto simp: D M2)
    next
      case v2: True
      note p1 = sv39_step_pt [OF ok _ _ conjunct1 [OF v2] conjunct2 [OF v2], of "[]", simplified]
      show ?thesis
      proof (cases "riscv_sv39_pte_valid (load64 (kmem s) ?e1) \<and> \<not> riscv_sv39_pte_leaf (load64 (kmem s) ?e1)")
        case False
        then show ?thesis using k al M(1) v2 p1(2) by (auto simp: D M2)
      next
        case v1: True
        have q1: "pt_at (hhdm_offset s) (kmem s) root [sv39_vpn 2 va] = Some (sv39_next_table ?e2 s)" using p1(1) by simp
        note p0 = sv39_step_pt [OF ok q1 _ conjunct1 [OF v1] conjunct2 [OF v1]]
        show ?thesis
        proof (cases "riscv_sv39_pte_valid (load64 (kmem s) ?e0)")
          case False
          then show ?thesis using k al M(1) v2 v1 p1(2) p0(2) by (simp add: D M2)
        next
          case v0: True
          have run: "riscv_sv39_unmap_small_page root va out s =
            Inr ((ec EC_SUCCESS, map_option (\<lambda>_. riscv_sv39_pte_get_address (load64 (kmem s) ?e0)) out), s\<lparr>kmem := store64 (kmem s) ?e0 0\<rparr>)"
            using al M(1) v2 v1 v0 p1(2) p0(2) by (simp add: D Let_def)
          have z: "\<not> riscv_sv39_pte_valid 0" by (simp add: riscv_sv39_pte_valid_def)
          have p: "pt_at (hhdm_offset s) (kmem s) root [sv39_vpn 1 va, sv39_vpn 2 va] = Some (sv39_next_table ?e1 s)"
            using p0(1) by simp
          note w = sv39_write_leaf [OF ok p _ sv39_vpn_less disjI1 [OF z]]
          have vp: "rev [sv39_vpn 1 va, sv39_vpn 2 va] @ [sv39_vpn 0 va] = sv39_vpns va"
            "take (Suc (length [sv39_vpn 1 va, sv39_vpn 2 va])) (sv39_vpns va') = sv39_vpns va'" for va'
            by (simp_all add: sv39_vpns_def)
          have "sv39_map (s\<lparr>kmem := store64 (kmem s) ?e0 0\<rparr>) root va' = (if sv39_vpns va' = sv39_vpns va then None else sv39_map s root va')" for va'
            using w(2) [of 0 va va'] z unfolding vp by simp
          then show ?thesis using run w(1) [of 0 va] al v2 v1 v0 by (auto simp: M2)
        qed
      qed
    qed
  qed
qed

section \<open>Properties\<close>

text \<open>
  A page table entry gives back the page-aligned frame it was made from, whatever the ten flag
  bits are, and its valid, leaf and permission bits are those of the flags.
\<close>

theorem sv39_pte_roundtrip:
  assumes "flags < 2 ^ 10" and "2 ^ 12 dvd unat pa"
  defines "pte \<equiv> riscv_sv39_create_pte pa flags"
  shows "riscv_sv39_pte_get_address pte = pa \<and>
    riscv_sv39_pte_valid pte = riscv_sv39_pte_valid flags \<and> riscv_sv39_pte_leaf pte = riscv_sv39_pte_leaf flags \<and>
    (riscv_sv39_pte_leaf pte \<longleftrightarrow>
       riscv_sv39_pte_readable flags \<or> riscv_sv39_pte_writable flags \<or> riscv_sv39_pte_executable flags)"
proof -
  have "(14 :: u64) = 2 OR 4 OR 8" by simp
  then have "riscv_sv39_pte_leaf flags \<longleftrightarrow>
      riscv_sv39_pte_readable flags \<or> riscv_sv39_pte_writable flags \<or> riscv_sv39_pte_executable flags"
    by (simp only: riscv_sv39_pte_leaf_def riscv_sv39_pte_readable_def riscv_sv39_pte_writable_def
        riscv_sv39_pte_executable_def bit.conj_disj_distrib or_eq_0_iff) blast
  then show ?thesis
    using create_pte_address [OF assms(1,2)] by (simp add: pte_def riscv_sv39_create_pte_def frame_no_flags)
qed

theorem sv39_pte_roundtrip_witness:
  "riscv_sv39_pte_get_address (riscv_sv39_create_pte 0x80201000 0xCF) = 0x80201000"
  using sv39_pte_roundtrip [of "0xCF" "0x80201000"] by simp

text \<open>
  C9: \<^verbatim>\<open>riscv_sv39_map_small_page\<close> refines the address space, as long as no superpage covers the
  address: a call that returns leaves the memory manager, every table and all other live memory
  well formed, success adds exactly the translation of the requested page, which had none, and
  every error leaves the address space as it was.
\<close>

theorem riscv_sv39_map_small_page_refines:
  assumes "sv39_ok s root pages others" and "riscv_sv39_pte_leaf flags"
    and "\<forall>l e. sv39_map s root va = Some (l, e) \<longrightarrow> l = 0"
  shows "case riscv_sv39_map_small_page root va pa flags s of Inl h \<Rightarrow> h = Todo_reached
    | Inr (err, s') \<Rightarrow>
        if IS_ALIGNED va PAGE_SIZE \<and> IS_ALIGNED pa PAGE_SIZE
        then sv39_map_result 0 va (riscv_sv39_create_pte pa (flags OR RISCV_SV39_PTFLAG_VALID)) s root pages others err s'
        else err = ec EC_RISCV_SV39_UNALIGNED_ADDR \<and> s' = s"
  using riscv_sv39_map_small_page_correct [OF assms(1,2) _ _ assms(3), of pa]
  by (cases "IS_ALIGNED va PAGE_SIZE \<and> IS_ALIGNED pa PAGE_SIZE") (auto simp: riscv_sv39_map_small_page_def split: sum.splits)

text \<open>
  The same for two-megabyte pages, as long as no gigabyte page covers the address: success maps
  all 512 small pages of the range at once, none of which was mapped before.
\<close>

theorem riscv_sv39_map_megapage_refines:
  assumes "sv39_ok s root pages others" and "riscv_sv39_pte_leaf flags" and "\<forall>e. sv39_map s root va \<noteq> Some (2, e)"
  shows "case riscv_sv39_map_megapage root va pa flags s of Inl h \<Rightarrow> h = Todo_reached
    | Inr (err, s') \<Rightarrow>
        if IS_ALIGNED va MEGAPAGE_SIZE \<and> IS_ALIGNED pa MEGAPAGE_SIZE
        then sv39_map_result 1 va (riscv_sv39_create_pte pa (flags OR RISCV_SV39_PTFLAG_VALID)) s root pages others err s'
        else err = ec EC_RISCV_SV39_UNALIGNED_ADDR \<and> s' = s"
  using riscv_sv39_map_megapage_correct [OF assms(1,2) _ _ assms(3), of pa]
  by (cases "IS_ALIGNED va MEGAPAGE_SIZE \<and> IS_ALIGNED pa MEGAPAGE_SIZE") (auto simp: riscv_sv39_map_megapage_def split: sum.splits)

text \<open>
  The same for gigabyte pages, which need no table: the routine always returns, and an error
  leaves the state as it was.
\<close>

theorem riscv_sv39_map_gigapage_refines:
  assumes "sv39_ok s root pages others" and "riscv_sv39_pte_leaf flags"
  shows "case riscv_sv39_map_gigapage root va pa flags s of Inl h \<Rightarrow> False
    | Inr (err, s') \<Rightarrow> sv39_keeps s root pages others s' \<and>
        (if err = ec EC_SUCCESS
         then IS_ALIGNED va GIGAPAGE_SIZE \<and> IS_ALIGNED pa GIGAPAGE_SIZE \<and>
           sv39_maps 2 va (riscv_sv39_create_pte pa (flags OR RISCV_SV39_PTFLAG_VALID)) (sv39_map s root) (sv39_map s' root)
         else s' = s \<and> err = (if IS_ALIGNED va GIGAPAGE_SIZE \<and> IS_ALIGNED pa GIGAPAGE_SIZE
           then ec EC_RISCV_SV39_MAPPING_EXISTS else ec EC_RISCV_SV39_UNALIGNED_ADDR))"
proof -
  have "\<exists>err s'. riscv_sv39_map_gigapage root va pa flags s = Inr (err, s')"
    using sv39_map_entries(1) [OF assms(1)] by (simp add: riscv_sv39_map_gigapage_def Let_def)
  then obtain err s' where run: "riscv_sv39_map_gigapage root va pa flags s = Inr (err, s')" by blast
  then have "err = ec EC_SUCCESS \<longrightarrow> IS_ALIGNED va GIGAPAGE_SIZE \<and> IS_ALIGNED pa GIGAPAGE_SIZE"
    by (auto simp: riscv_sv39_map_gigapage_def split: if_splits)
  then show ?thesis using riscv_sv39_map_gigapage_correct [OF assms run] run by auto
qed

text \<open>
  C20: \<^verbatim>\<open>riscv_sv39_unmap_small_page\<close> always returns; success removes the translation of exactly
  that page and hands back the frame it was mapped to, and errors, a superpage among them, change
  nothing.
\<close>

theorem riscv_sv39_unmap_small_page_refines:
  assumes "sv39_ok s root pages others"
  shows "case riscv_sv39_unmap_small_page root va out s of Inl h \<Rightarrow> False
    | Inr ((err, out'), s') \<Rightarrow>
        sv39_keeps s root pages others s' \<and>
        (if err = ec EC_SUCCESS
         then IS_ALIGNED va PAGE_SIZE \<and>
           (\<forall>va'. sv39_map s' root va' = (if sv39_vpns va' = sv39_vpns va then None else sv39_map s root va')) \<and>
           (\<forall>l e. sv39_map s root va = Some (l, e) \<longrightarrow> l = 0 \<and> out' = map_option (\<lambda>_. riscv_sv39_pte_get_address e) out)
         else s' = s \<and> out' = out \<and>
           err = (if \<not> IS_ALIGNED va PAGE_SIZE then ec EC_RISCV_SV39_UNALIGNED_ADDR
             else if sv39_map s root va = None then ec EC_RISCV_SV39_NO_MAPPING else ec EC_RISCV_SV39_MAPPING_EXISTS) \<and>
           (\<forall>e. sv39_map s root va = Some (0, e) \<longrightarrow> \<not> IS_ALIGNED va PAGE_SIZE))"
  by (rule riscv_sv39_unmap_small_page_correct [OF assms])

text \<open>The translation the hardware makes: the offset has as many bits as the level's page.\<close>

definition sv39_translation :: "'a kernel_scheme \<Rightarrow> addr \<Rightarrow> u64 \<Rightarrow> u64 option" where
  "sv39_translation s root va =
     map_option (\<lambda>(l, e). riscv_sv39_pte_get_address e + (va AND mask (12 + 9 * l))) (sv39_map s root va)"

text \<open>
  C21: \<^verbatim>\<open>riscv_sv39_virt_to_phys\<close> always returns, zero exactly when the walk ends nowhere, and the
  hardware's translation for an address in a small page.  It keeps only twelve bits of offset at
  every level, so inside a superpage it is right exactly for addresses whose remaining offset bits
  are zero.
\<close>

theorem riscv_sv39_virt_to_phys_exact:
  assumes "sv39_ok s root pages others"
  shows "case sv39_map s root va of
      None \<Rightarrow> riscv_sv39_virt_to_phys root va s = Inr 0 \<and> sv39_translation s root va = None
    | Some (l, e) \<Rightarrow>
        riscv_sv39_virt_to_phys root va s = Inr (riscv_sv39_pte_get_address e + (va AND 0xFFF)) \<and>
        (riscv_sv39_virt_to_phys root va s = Inr (the (sv39_translation s root va)) \<longleftrightarrow>
         va AND mask (12 + 9 * l) = va AND mask 12)"
  using riscv_sv39_virt_to_phys_correct [OF assms, of va]
  by (auto simp: sv39_translation_def mask_eq_exp_minus_1 split: option.splits)

section \<open>Concrete address spaces\<close>

lemma sv39_inv_zero_root:
  assumes "m ` extent root 4096 \<subseteq> {0}" and "root \<noteq> 0"
  shows "sv39_inv hh m root [(root, 4096)]" and "sv39_space hh m root va = None"
proof -
  have e: "load64 m (sv39_entry root j) = 0" if "j < RISCV_SV39_PT_ENTRY_COUNT" for j
    by (rule zero_table_entry [OF assms(1) that])
  have z: "\<not> riscv_sv39_pte_valid 0" by (simp add: riscv_sv39_pte_valid_def)
  have "pt_at hh m root (zs @ [j]) = None" for zs j
    by (induction zs) (auto simp: pt_step_def Let_def e z)
  then have only: "ps = [] \<and> a = root" if "pt_at hh m root ps = Some a" for ps a using that by (cases ps rule: rev_cases) auto
  show "sv39_inv hh m root [(root, 4096)]" unfolding sv39_inv_def using assms(2) by (auto dest: only)
  show "sv39_space hh m root va = None" by (simp add: sv39_space_def sv39_vpns_def e z sv39_vpn_less)
qed

text \<open>When the tables of an address are there, mapping a small page needs no memory.\<close>

lemma riscv_sv39_map_small_page_ready:
  assumes ok: "sv39_ok s root pages others" and t: "pt_at (hhdm_offset s) (kmem s) root [sv39_vpn 1 va, sv39_vpn 2 va] = Some t"
    and al: "IS_ALIGNED va PAGE_SIZE" "IS_ALIGNED pa PAGE_SIZE"
  shows "riscv_sv39_map_small_page root va pa flags s =
    (if riscv_sv39_pte_valid (load64 (kmem s) (sv39_entry t (sv39_vpn 0 va))) then Inr (ec EC_RISCV_SV39_MAPPING_EXISTS, s)
     else Inr (ec EC_SUCCESS, s\<lparr>kmem := store64 (kmem s) (sv39_entry t (sv39_vpn 0 va))
       (riscv_sv39_create_pte pa (flags OR RISCV_SV39_PTFLAG_VALID))\<rparr>))"
proof -
  let ?e2 = "sv39_entry root (sv39_vpn 2 va)"
  have inv: "sv39_inv (hhdm_offset s) (kmem s) root pages" using ok by (simp add: sv39_ok_def)
  obtain t1 where t1: "pt_at (hhdm_offset s) (kmem s) root [sv39_vpn 2 va] = Some t1"
    "pt_step (hhdm_offset s) (kmem s) t1 (sv39_vpn 1 va) = Some t"
    using t by (auto split: option.splits)
  have e2: "riscv_sv39_pte_valid (load64 (kmem s) ?e2)" "sv39_next_table ?e2 s = t1"
    using t1(1) by (auto simp: pt_step_def Let_def sv39_next_table_addr split: if_splits)
  have e1: "riscv_sv39_pte_valid (load64 (kmem s) (sv39_entry t1 (sv39_vpn 1 va)))"
    "sv39_next_table (sv39_entry t1 (sv39_vpn 1 va)) s = t"
    using t1(2) by (auto simp: pt_step_def Let_def sv39_next_table_addr split: if_splits)
  have nz: "t1 \<noteq> 0" "t \<noteq> 0" using sv39_inv_table(1) [OF inv _ t1(1)] sv39_inv_table(1) [OF inv _ t] by simp_all
  show ?thesis
    using e2 e1 nz al sv39_map_entries(1) [OF ok]
    by (simp add: riscv_sv39_map_small_page_def sv39_ensure_table_def Let_def)
qed

text \<open>
  An address space of three tables in a page each, no translation yet, in a kernel that has just
  set up its memory manager.
\<close>

abbreviation demo_root :: addr where "demo_root \<equiv> 0xFFFFFFC080000000"
abbreviation demo_l1 :: addr where "demo_l1 \<equiv> 0xFFFFFFC080001000"
abbreviation demo_l0 :: addr where "demo_l0 \<equiv> 0xFFFFFFC080002000"

lemma demo_space:
  obtains s :: kernel where "hhdm_offset s = 0xFFFFFFC000000000" and "policy s = PMM_POLICY_FIRST_FIT"
    and "free_bytes s = 0"
    and "sv39_ok s demo_root [(demo_l0, 4096), (demo_l1, 4096), (demo_root, 4096)] []"
    and "pt_at (hhdm_offset s) (kmem s) demo_root [0, 0] = Some demo_l0"
    and "kmem s ` extent demo_l0 4096 \<subseteq> {0}" and "\<And>va. sv39_map s demo_root va = None"
    and "load64 (kmem s) (sv39_entry demo_root 1) = 0" and "load64 (kmem s) (sv39_entry demo_l1 1) = 0"
    and "pt_at (hhdm_offset s) (kmem s) demo_root [0] = Some demo_l1"
proof -
  let ?p = "[(demo_l0, 4096), (demo_l1, 4096), (demo_root, 4096)]" and ?hh = "0xFFFFFFC000000000 :: u64"
  have ap: "all_apart ((0xFFFFFFFF80000000, 2432) # ?p)"
    by (simp add: apart_pair extent_disjoint_iff)
  have dj: "extent demo_l0 4096 \<inter> extent demo_l1 4096 = {}"
    "extent demo_l0 4096 \<inter> extent demo_root 4096 = {}"
    "extent demo_l1 4096 \<inter> extent demo_root 4096 = {}"
    by (simp_all add: extent_disjoint_iff)
  obtain s0 :: kernel where s0: "pmm_inv s0 [] ?p" "hhdm_offset s0 = ?hh" "policy s0 = PMM_POLICY_FIRST_FIT" "free_bytes s0 = 0"
    by (rule boot_manager [OF ap]) blast
  then have k0: "kvspace_inv s0 ?p" by (auto simp: kvspace_inv_def)
  define m0 :: mem where "m0 = (\<lambda>x. if x \<in> covered ?p then 0 else kmem s0 x)"
  define v1 where "v1 = riscv_sv39_create_pte 0x80001000 RISCV_SV39_PTFLAG_VALID"
  define v2 where "v2 = riscv_sv39_create_pte 0x80002000 RISCV_SV39_PTFLAG_VALID"
  define m1 where "m1 = store64 m0 (sv39_entry demo_root 0) v1"
  define m2 where "m2 = store64 m1 (sv39_entry demo_l1 0) v2"
  have v: "riscv_sv39_pte_valid v1" "\<not> riscv_sv39_pte_leaf v1" "?hh + riscv_sv39_pte_get_address v1 = demo_l1"
    "riscv_sv39_pte_valid v2" "\<not> riscv_sv39_pte_leaf v2" "?hh + riscv_sv39_pte_get_address v2 = demo_l0"
    by (simp_all add: v1_def v2_def riscv_sv39_create_pte_def riscv_sv39_pte_valid_def riscv_sv39_pte_leaf_def
        riscv_sv39_pte_get_address_def)
  have z0: "m0 ` extent demo_root 4096 \<subseteq> {0}" "m0 ` extent demo_l1 4096 \<subseteq> {0}"
    "m0 ` extent demo_l0 4096 \<subseteq> {0}" by (auto simp: m0_def)
  have inval: "\<not> riscv_sv39_pte_valid 0" by (simp add: riscv_sv39_pte_valid_def)
  have i0: "sv39_inv ?hh m0 demo_root [(demo_root, 4096)]" "sv39_space ?hh m0 demo_root va = None" for va
    by (rule sv39_inv_zero_root [OF z0(1)], simp)+
  have ap1: "all_apart [(demo_l1, 4096), (demo_root, 4096)]" "all_apart ?p" using ap by simp_all
  have o0: "\<not> riscv_sv39_pte_valid (load64 m0 (sv39_entry demo_root 0))"
    using zero_table_entry [OF z0(1), of 0] inval by simp
  note S1 = sv39_store_pointer [OF i0(1) ap1(1) _ _ _ v(1-3) _ z0(2) o0, of "[]", simplified, folded m1_def]
  have ag1: "agree_on (extent demo_l1 4096 \<union> extent demo_l0 4096) m1 m0"
    unfolding m1_def using sv39_entry_within [of 0 "demo_root"] dj by (intro store64_agree) auto
  then have z1: "m1 ` extent demo_l1 4096 \<subseteq> {0}" "m1 ` extent demo_l0 4096 \<subseteq> {0}"
    using z0 by (auto simp: agree_on_def)
  have o1: "\<not> riscv_sv39_pte_valid (load64 m1 (sv39_entry demo_l1 0))"
    using zero_table_entry [OF z1(1), of 0] inval by simp
  have p1: "pt_at ?hh m1 demo_root [0] = Some demo_l1" using S1(3) by simp
  note S2 = sv39_store_pointer [OF S1(1) ap1(2) p1 _ _ v(4-6) _ z1(2) o1, simplified, folded m2_def]
  have ag2: "agree_on (extent demo_l0 4096) m2 m1"
    unfolding m2_def using sv39_entry_within [of 0 "demo_l1"] dj by (intro store64_agree) auto
  have z2: "m2 ` extent demo_l0 4096 \<subseteq> {0}" using z1(2) ag2 by (auto simp: agree_on_def)
  have "agree_on (- covered ?p) m0 (kmem s0)" by (auto simp: m0_def agree_on_def)
  moreover have "agree_on (- covered ?p) m1 m0" "agree_on (- covered ?p) m2 m1"
    unfolding m1_def m2_def using sv39_entry_within [of 0 "demo_root"] sv39_entry_within [of 0 "demo_l1"]
    by (intro store64_agree; auto)+
  ultimately have "agree_on (- covered ?p) m2 (kmem s0)" by (simp add: agree_on_def)
  from kpages.kinv_frame [OF k0 this] have k: "kvspace_inv (s0\<lparr>kmem := m2\<rparr>) ?p" .
  show thesis
  proof (rule that [of "s0\<lparr>kmem := m2\<rparr>"])
    show "sv39_ok (s0\<lparr>kmem := m2\<rparr>) demo_root ?p []"
      using k S2(1) by (simp add: sv39_ok_def s0(2))
    show "pt_at (hhdm_offset (s0\<lparr>kmem := m2\<rparr>)) (kmem (s0\<lparr>kmem := m2\<rparr>)) demo_root [0, 0] = Some demo_l0"
      using S2(3) by (simp add: s0(2))
    show "kmem (s0\<lparr>kmem := m2\<rparr>) ` extent demo_l0 4096 \<subseteq> {0}" using z2 by simp
    show "sv39_map (s0\<lparr>kmem := m2\<rparr>) demo_root va = None" for va
      using S2(2) S1(2) i0(2) by (simp add: s0(2))
    show "load64 (kmem (s0\<lparr>kmem := m2\<rparr>)) (sv39_entry demo_root 1) = 0"
      "load64 (kmem (s0\<lparr>kmem := m2\<rparr>)) (sv39_entry demo_l1 1) = 0"
      using zero_table_entry [OF z0(1), of 1] zero_table_entry [OF z1(1), of 1]
      by (simp_all add: m2_def m1_def load64_store64_other sv39_entry_def)
    show "pt_at (hhdm_offset (s0\<lparr>kmem := m2\<rparr>)) (kmem (s0\<lparr>kmem := m2\<rparr>)) demo_root [0] = Some demo_l1"
      using v by (simp add: m2_def m1_def load64_store64_other sv39_entry_def pt_step_def s0(2))
  qed (simp_all add: s0)
qed

lemma demo_vpns: "sv39_vpns 0x3000 = [0, 0, 3]" "sv39_vpns 0x200000 = [0, 1, 0]" "sv39_vpns 0x40000000 = [1, 0, 0]"
  by (simp_all add: sv39_vpns_def sv39_vpn_def)

lemma demo_map:
  obtains s s' :: kernel where "sv39_ok s demo_root [(demo_l0, 4096), (demo_l1, 4096), (demo_root, 4096)] []"
    and "\<And>va. sv39_map s demo_root va = None" and "riscv_sv39_map_small_page demo_root 0x3000 0x80005000 0xCE s = Inr (ec EC_SUCCESS, s')"
proof -
  obtain s :: kernel where s: "sv39_ok s demo_root [(demo_l0, 4096), (demo_l1, 4096), (demo_root, 4096)] []"
    "pt_at (hhdm_offset s) (kmem s) demo_root [0, 0] = Some demo_l0" "kmem s ` extent demo_l0 4096 \<subseteq> {0}"
    "\<And>va. sv39_map s demo_root va = None"
    by (rule demo_space) blast
  have i: "sv39_vpn 1 0x3000 = 0" "sv39_vpn 2 0x3000 = 0" "sv39_vpn 0 0x3000 = 3" by (simp_all add: sv39_vpn_def)
  have al: "IS_ALIGNED 0x3000 PAGE_SIZE" "IS_ALIGNED 0x80005000 PAGE_SIZE" by (simp_all add: IS_ALIGNED_def)
  have "\<not> riscv_sv39_pte_valid (load64 (kmem s) (sv39_entry demo_l0 3))"
    using zero_table_entry [OF s(3), of 3] by (simp add: riscv_sv39_pte_valid_def)
  then show thesis
    using riscv_sv39_map_small_page_ready [OF s(1) _ al, of demo_l0 "0xCE"] s(2) that [OF s(1,4)] unfolding i by simp
qed

theorem riscv_sv39_map_small_page_refines_witness:
  "\<exists>s s' :: kernel. riscv_sv39_map_small_page demo_root 0x3000 0x80005000 0xCE s = Inr (ec EC_SUCCESS, s') \<and>
    sv39_map s demo_root 0x3000 = None \<and> sv39_map s' demo_root 0x3000 = Some (0, 0x200014CF)"
proof -
  obtain s s' :: kernel where s: "sv39_ok s demo_root [(demo_l0, 4096), (demo_l1, 4096), (demo_root, 4096)] []"
    "\<And>va. sv39_map s demo_root va = None" "riscv_sv39_map_small_page demo_root 0x3000 0x80005000 0xCE s = Inr (ec EC_SUCCESS, s')"
    by (rule demo_map) blast
  have al: "IS_ALIGNED 0x3000 PAGE_SIZE \<and> IS_ALIGNED 0x80005000 PAGE_SIZE" by (simp add: IS_ALIGNED_def)
  have "sv39_map_result 0 0x3000 (riscv_sv39_create_pte 0x80005000 (0xCE OR 1)) s demo_root
      [(demo_l0, 4096), (demo_l1, 4096), (demo_root, 4096)] [] (ec EC_SUCCESS) s'"
    using riscv_sv39_map_small_page_refines [OF s(1), of "0xCE" "0x3000" "0x80005000"] s(2,3) al
    by (simp add: riscv_sv39_pte_leaf_def)
  then show ?thesis
    using s(2,3) by (intro exI [of _ s] exI [of _ s']) (simp add: sv39_map_result_def sv39_maps_def riscv_sv39_create_pte_def)
qed

theorem riscv_sv39_map_megapage_refines_witness:
  "\<exists>s s' :: kernel. riscv_sv39_map_megapage demo_root 0x200000 0x80200000 0xCE s = Inr (ec EC_SUCCESS, s') \<and>
    sv39_map s' demo_root 0x2FF123 = Some (1, 0x200800CF)"
proof -
  obtain s :: kernel where s: "sv39_ok s demo_root [(demo_l0, 4096), (demo_l1, 4096), (demo_root, 4096)] []"
    "pt_at (hhdm_offset s) (kmem s) demo_root [0, 0] = Some demo_l0" "\<And>va. sv39_map s demo_root va = None"
    "load64 (kmem s) (sv39_entry demo_l1 1) = 0" "hhdm_offset s = 0xFFFFFFC000000000"
    "pt_at (hhdm_offset s) (kmem s) demo_root [0] = Some demo_l1"
    by (rule demo_space) blast
  have i: "sv39_vpn (Suc 0) 0x200000 = 1" "sv39_vpn 2 0x200000 = 0" by (simp_all add: sv39_vpn_def)
  have e2: "riscv_sv39_pte_valid (load64 (kmem s) (sv39_entry demo_root 0))" "sv39_next_table (sv39_entry demo_root 0) s = demo_l1"
    using s(6) by (auto simp: pt_step_def Let_def sv39_next_table_addr split: if_splits)
  have "\<exists>s'. riscv_sv39_map_megapage demo_root 0x200000 0x80200000 0xCE s = Inr (ec EC_SUCCESS, s')"
    using e2 s(4) by (simp add: riscv_sv39_map_megapage_def IS_ALIGNED_def i sv39_ensure_table_def Let_def)
      (simp add: riscv_sv39_pte_valid_def)
  then obtain s' where run: "riscv_sv39_map_megapage demo_root 0x200000 0x80200000 0xCE s = Inr (ec EC_SUCCESS, s')" by blast
  have al: "IS_ALIGNED 0x200000 MEGAPAGE_SIZE \<and> IS_ALIGNED 0x80200000 MEGAPAGE_SIZE" by (simp add: IS_ALIGNED_def)
  have "sv39_map_result 1 0x200000 (riscv_sv39_create_pte 0x80200000 (0xCE OR 1)) s demo_root
      [(demo_l0, 4096), (demo_l1, 4096), (demo_root, 4096)] [] (ec EC_SUCCESS) s'"
    using riscv_sv39_map_megapage_refines [OF s(1), of "0xCE" "0x200000" "0x80200000"] s(3) run al
    by (simp add: riscv_sv39_pte_leaf_def)
  moreover have "take 2 (sv39_vpns 0x2FF123) = take 2 (sv39_vpns 0x200000)" by (simp add: sv39_vpns_def sv39_vpn_def)
  ultimately show ?thesis
    using run by (intro exI [of _ s] exI [of _ s']) (simp add: sv39_map_result_def sv39_maps_def riscv_sv39_create_pte_def)
qed

theorem riscv_sv39_map_gigapage_refines_witness:
  "\<exists>s s' :: kernel. riscv_sv39_map_gigapage demo_root 0x40000000 0x80000000 0xCE s = Inr (ec EC_SUCCESS, s') \<and>
    sv39_map s' demo_root 0x40201234 = Some (2, 0x200000CF)"
proof -
  obtain s :: kernel where s: "sv39_ok s demo_root [(demo_l0, 4096), (demo_l1, 4096), (demo_root, 4096)] []"
    "load64 (kmem s) (sv39_entry demo_root 1) = 0"
    by (rule demo_space) blast
  have i: "sv39_vpn 2 0x40000000 = 1" by (simp add: sv39_vpn_def)
  have run: "\<exists>s'. riscv_sv39_map_gigapage demo_root 0x40000000 0x80000000 0xCE s = Inr (ec EC_SUCCESS, s')"
    using s(2) by (simp add: riscv_sv39_map_gigapage_def IS_ALIGNED_def i Let_def) (simp add: riscv_sv39_pte_valid_def)
  then obtain s' where run: "riscv_sv39_map_gigapage demo_root 0x40000000 0x80000000 0xCE s = Inr (ec EC_SUCCESS, s')" by blast
  have "sv39_maps 2 0x40000000 (riscv_sv39_create_pte 0x80000000 (0xCE OR 1)) (sv39_map s demo_root) (sv39_map s' demo_root)"
    using riscv_sv39_map_gigapage_refines [OF s(1), of "0xCE" "0x40000000" "0x80000000"] run
    by (simp add: riscv_sv39_pte_leaf_def)
  moreover have "take 1 (sv39_vpns 0x40201234) = take 1 (sv39_vpns 0x40000000)" by (simp add: sv39_vpns_def sv39_vpn_def)
  ultimately show ?thesis
    using run by (intro exI [of _ s] exI [of _ s']) (simp add: sv39_maps_def riscv_sv39_create_pte_def)
qed

text \<open>
  C12: mapping and unmapping are inverse, seen through \<^verbatim>\<open>riscv_sv39_virt_to_phys\<close>: after a
  successful mapping every address of the page translates into the frame and every other address
  as before; unmapping then succeeds, returns the frame, and restores every translation.
\<close>

theorem sv39_map_unmap_roundtrip:
  assumes "sv39_ok s root pages others" and "riscv_sv39_pte_leaf flags" and "flags < 2 ^ 10"
    and "\<forall>l e. sv39_map s root va = Some (l, e) \<longrightarrow> l = 0"
    and "riscv_sv39_map_small_page root va pa flags s = Inr (ec EC_SUCCESS, s')"
  shows "(\<forall>va'. riscv_sv39_virt_to_phys root va' s' =
      (if sv39_vpns va' = sv39_vpns va then Inr (pa + (va' AND 0xFFF)) else riscv_sv39_virt_to_phys root va' s)) \<and>
    (\<exists>s''. riscv_sv39_unmap_small_page root va (Some x) s' = Inr ((ec EC_SUCCESS, Some pa), s'') \<and>
       (\<forall>va'. riscv_sv39_virt_to_phys root va' s'' = riscv_sv39_virt_to_phys root va' s))"
proof -
  let ?pte = "riscv_sv39_create_pte pa (flags OR RISCV_SV39_PTFLAG_VALID)"
  have al: "IS_ALIGNED va PAGE_SIZE \<and> IS_ALIGNED pa PAGE_SIZE"
    using assms(5) by (auto simp: riscv_sv39_map_small_page_def split: if_splits)
  have R: "sv39_map_result 0 va ?pte s root pages others (ec EC_SUCCESS) s'"
    using riscv_sv39_map_small_page_correct [OF assms(1,2) _ _ assms(4), of pa] al assms(5) by simp
  then obtain pages' where ok': "sv39_ok s' root pages' others" by (auto simp: sv39_map_result_def sv39_keeps_def)
  have all: "take 3 (sv39_vpns u) = sv39_vpns u" for u by (simp add: sv39_vpns_def)
  have M: "sv39_map s' root va' = (if sv39_vpns va' = sv39_vpns va then Some (0, ?pte) else sv39_map s root va')"
    "sv39_vpns va' = sv39_vpns va \<Longrightarrow> sv39_map s root va' = None" for va'
    using R by (auto simp: sv39_map_result_def sv39_maps_def all)
  have "flags OR RISCV_SV39_PTFLAG_VALID < 2 ^ 10"
  proof -
    have "take_bit 10 flags = flags"
      using assms(3) by (intro unsigned_word_eqI [where ?'a = nat]) (simp add: unsigned_take_bit_eq word_less_nat_alt take_bit_nat_eq_self_iff)
    then have "take_bit 10 (flags OR 1) = flags OR 1" by (simp add: take_bit_or)
    then have "unat (flags OR 1) < 2 ^ 10" by (metis take_bit_nat_less_exp unsigned_take_bit_eq)
    then show ?thesis by (simp add: word_less_nat_alt)
  qed
  moreover have "2 ^ 12 dvd unat pa" using al IS_ALIGNED_pow2 [of 12 pa] by simp
  ultimately have fr: "riscv_sv39_pte_get_address ?pte = pa" by (rule create_pte_address)
  have v: "riscv_sv39_virt_to_phys root va' s' =
      (if sv39_vpns va' = sv39_vpns va then Inr (pa + (va' AND 0xFFF)) else riscv_sv39_virt_to_phys root va' s)" for va'
    by (simp add: riscv_sv39_virt_to_phys_correct [OF ok'] riscv_sv39_virt_to_phys_correct [OF assms(1)] M(1) fr)
  have mva: "sv39_map s' root va = Some (0, ?pte)" by (simp add: M(1))
  obtain err out s'' where un: "riscv_sv39_unmap_small_page root va (Some x) s' = Inr ((err, out), s'')"
    using riscv_sv39_unmap_small_page_correct [OF ok', of va "Some x"] by (auto split: sum.splits)
  note U = riscv_sv39_unmap_small_page_correct [OF ok', of va "Some x", unfolded un, simplified]
  have err: "err = ec EC_SUCCESS" using U mva al by (auto split: if_splits)
  then have out: "out = Some pa" and k: "sv39_keeps s' root pages' others s''"
    and M'': "sv39_map s'' root va' = (if sv39_vpns va' = sv39_vpns va then None else sv39_map s' root va')" for va'
    using U mva fr by auto
  obtain pages'' where ok'': "sv39_ok s'' root pages'' others" using k by (auto simp: sv39_keeps_def)
  have "sv39_map s'' root va' = sv39_map s root va'" for va' using M'' M by auto
  then have "riscv_sv39_virt_to_phys root va' s'' = riscv_sv39_virt_to_phys root va' s" for va'
    by (simp add: riscv_sv39_virt_to_phys_correct [OF ok''] riscv_sv39_virt_to_phys_correct [OF assms(1)])
  then show ?thesis using v un err out by blast
qed

theorem sv39_map_unmap_roundtrip_witness:
  "\<exists>s s' :: kernel. riscv_sv39_map_small_page demo_root 0x3000 0x80005000 0xCE s = Inr (ec EC_SUCCESS, s') \<and>
    riscv_sv39_virt_to_phys demo_root 0x3ABC s' = Inr 0x80005ABC"
proof -
  obtain s s' :: kernel where s: "sv39_ok s demo_root [(demo_l0, 4096), (demo_l1, 4096), (demo_root, 4096)] []"
    "\<And>va. sv39_map s demo_root va = None" "riscv_sv39_map_small_page demo_root 0x3000 0x80005000 0xCE s = Inr (ec EC_SUCCESS, s')"
    by (rule demo_map) blast
  have "sv39_vpns 0x3ABC = sv39_vpns 0x3000" by (simp add: sv39_vpns_def sv39_vpn_def)
  then show ?thesis
    using sv39_map_unmap_roundtrip [OF s(1) _ _ _ s(3), THEN conjunct1, THEN spec, of "0x3ABC"] s(2,3)
    by (intro exI [of _ s] exI [of _ s']) (simp add: riscv_sv39_pte_leaf_def)
qed

theorem riscv_sv39_unmap_small_page_refines_witness:
  "\<exists>s s' :: kernel. riscv_sv39_unmap_small_page demo_root 0x3000 (Some 0) s = Inr ((ec EC_SUCCESS, Some 0x80005000), s') \<and>
    sv39_map s' demo_root 0x3000 = None"
proof -
  let ?p = "[(demo_l0, 4096), (demo_l1, 4096), (demo_root, 4096)]"
  obtain s0 s :: kernel where s: "sv39_ok s0 demo_root ?p []" "\<And>va. sv39_map s0 demo_root va = None"
    "riscv_sv39_map_small_page demo_root 0x3000 0x80005000 0xCE s0 = Inr (ec EC_SUCCESS, s)"
    by (rule demo_map) blast
  have al: "IS_ALIGNED 0x3000 PAGE_SIZE" "IS_ALIGNED 0x80005000 PAGE_SIZE" by (simp_all add: IS_ALIGNED_def)
  have R: "sv39_map_result 0 0x3000 (riscv_sv39_create_pte 0x80005000 (0xCE OR 1)) s0 demo_root ?p [] (ec EC_SUCCESS) s"
    using riscv_sv39_map_small_page_correct [OF s(1) _ al, of "0xCE"] s(2,3) by (simp add: riscv_sv39_pte_leaf_def)
  then obtain p' where ok: "sv39_ok s demo_root p' []" by (auto simp: sv39_map_result_def sv39_keeps_def)
  have m: "sv39_map s demo_root 0x3000 = Some (0, 0x200014CF)"
    using R by (simp add: sv39_map_result_def sv39_maps_def riscv_sv39_create_pte_def)
  note U = riscv_sv39_unmap_small_page_refines [OF ok, of "0x3000" "Some 0"]
  obtain err out s' where un: "riscv_sv39_unmap_small_page demo_root 0x3000 (Some 0) s = Inr ((err, out), s')"
    using U by (auto split: sum.splits)
  have "err = ec EC_SUCCESS" using U m al(1) by (auto simp: un split: if_splits)
  then have "out = Some 0x80005000" "sv39_map s' demo_root 0x3000 = None"
    using U m by (simp_all add: un) (simp add: riscv_sv39_pte_get_address_def)
  then show ?thesis using un \<open>err = ec EC_SUCCESS\<close> by (intro exI [of _ s] exI [of _ s']) simp
qed

theorem riscv_sv39_virt_to_phys_exact_witness:
  "\<exists>s :: kernel. riscv_sv39_virt_to_phys demo_root 0x3ABC s = Inr 0 \<and> sv39_translation s demo_root 0x3ABC = None"
proof -
  obtain s :: kernel where s: "sv39_ok s demo_root [(demo_l0, 4096), (demo_l1, 4096), (demo_root, 4096)] []"
    "\<And>va. sv39_map s demo_root va = None"
    by (rule demo_space) blast
  show ?thesis using riscv_sv39_virt_to_phys_exact [OF s(1), of "0x3ABC"] s(2) by (intro exI [of _ s]) simp
qed

text \<open>
  When the memory manager has no page for a missing table, nothing is mapped and the error
  returned is not a code: its top byte mixes two codes, so looking up its message, as every caller
  that reports an error does, is out of bounds of the message table.
\<close>

theorem sv39_alloc_failure_has_no_message:
  assumes "root \<noteq> 0" and "IS_ALIGNED va PAGE_SIZE" and "IS_ALIGNED pa PAGE_SIZE"
    and "\<not> riscv_sv39_pte_valid (load64 (kmem s) (sv39_entry root (sv39_vpn 2 va)))" and "free_bytes s < PAGE_SIZE"
  shows "\<exists>err. riscv_sv39_map_small_page root va pa flags s = Inr (err, s) \<and> error_is_err err \<and>
    error_string err = Inl Out_of_bounds"
proof -
  have oom: "error_is_err (ec EC_PMM_OUT_OF_MEMORY)" by (simp only: error_is_err_ec) simp
  have "pmm_alloc PAGE_SIZE (Some 0) s = Inr ((ec EC_PMM_OUT_OF_MEMORY, Some 0), s)"
    using assms(5) by (simp add: pmm_alloc_def pmm_alloc_aligned_def Let_def ALIGN_UP_def)
  then have "riscv_sv39_map_small_page root va pa flags s =
      Inr (error_push (ec EC_PMM_OUT_OF_MEMORY) EC_RISCV_SV39_ALLOC_FAILED, s)"
    using assms oom by (simp add: riscv_sv39_map_small_page_def sv39_ensure_table_def Let_def del: ec.simps)
  moreover have e: "error_push (ec EC_PMM_OUT_OF_MEMORY) EC_RISCV_SV39_ALLOC_FAILED = 0x79"
    by (simp add: error_push_def sizeof_ErrorCode_def)
  moreover have "error_is_err 0x79" by (simp add: error_is_err_def error_is_ok_def error_top_def)
  moreover have "error_string 0x79 = Inl Out_of_bounds"
    by (simp add: error_string_def error_top_def length_error_strings EC_COUNT_def Let_def)
  ultimately show ?thesis by metis
qed

theorem sv39_alloc_failure_has_no_message_witness:
  "\<exists>err. riscv_sv39_map_small_page 0x1000 0x3000 0x5000 0xCE boot_kernel = Inr (err, boot_kernel) \<and>
    error_string err = Inl Out_of_bounds"
  using sv39_alloc_failure_has_no_message [of "0x1000" "0x3000" "0x5000" boot_kernel "0xCE"]
  by (auto simp: IS_ALIGNED_def boot_kernel_def load64_zero riscv_sv39_pte_valid_def)

text \<open>
  C26: mapping a small page below a gigabyte page.  The map routines do not look whether an entry is
  a leaf, so the frame of the gigabyte page is taken for a table: the call reports success, a word
  of mapped memory is overwritten, and the address still translates to the gigabyte page.
\<close>

theorem sv39_small_page_below_gigapage:
  fixes s :: "'a kernel_scheme"
  assumes "root \<noteq> 0" and "IS_ALIGNED va PAGE_SIZE" and "IS_ALIGNED pa PAGE_SIZE"
  defines "e2 \<equiv> load64 (kmem s) (sv39_entry root (sv39_vpn 2 va))"
  defines "t1 \<equiv> hhdm_offset s + riscv_sv39_pte_get_address e2"
  defines "e1 \<equiv> load64 (kmem s) (sv39_entry t1 (sv39_vpn 1 va))"
  defines "t0 \<equiv> hhdm_offset s + riscv_sv39_pte_get_address e1"
  assumes "riscv_sv39_pte_valid e2" and "riscv_sv39_pte_leaf e2" and "t1 \<noteq> 0"
    and "riscv_sv39_pte_valid e1" and "t0 \<noteq> 0" and "\<not> riscv_sv39_pte_valid (load64 (kmem s) (sv39_entry t0 (sv39_vpn 0 va)))"
    and "extent (sv39_entry t0 (sv39_vpn 0 va)) 8 \<inter> extent (sv39_entry root (sv39_vpn 2 va)) 8 = {}"
  shows "\<exists>s'. riscv_sv39_map_small_page root va pa flags s = Inr (ec EC_SUCCESS, s') \<and>
    load64 (kmem s') (sv39_entry t0 (sv39_vpn 0 va)) = riscv_sv39_create_pte pa (flags OR RISCV_SV39_PTFLAG_VALID) \<and>
    sv39_map s root va = Some (2, e2) \<and> sv39_map s' root va = Some (2, e2)"
proof -
  let ?s = "s\<lparr>kmem := store64 (kmem s) (sv39_entry t0 (sv39_vpn 0 va)) (riscv_sv39_create_pte pa (flags OR RISCV_SV39_PTFLAG_VALID))\<rparr>"
  have nt: "sv39_next_table (sv39_entry root (sv39_vpn 2 va)) s = t1" "sv39_next_table (sv39_entry t1 (sv39_vpn 1 va)) s = t0"
    by (simp_all add: sv39_next_table_addr t1_def t0_def e1_def e2_def)
  have "riscv_sv39_map_small_page root va pa flags s = Inr (ec EC_SUCCESS, ?s)"
    using assms(1-3,8,10-13) by (simp add: riscv_sv39_map_small_page_def sv39_ensure_table_def Let_def nt del: One_nat_def flip: e1_def e2_def)
  moreover have "load64 (kmem ?s) (sv39_entry root (sv39_vpn 2 va)) = e2"
    using load64_store64_apart [OF assms(14)] by (simp add: e2_def)
  ultimately show ?thesis
    using assms(8,9) by (intro exI [of _ ?s]) (simp add: sv39_space_def sv39_vpns_def flip: e2_def)
qed

theorem sv39_small_page_below_gigapage_witness:
  "\<exists>(s :: kernel) s'. riscv_sv39_map_small_page 0x1000 0x3000 0x80005000 0xCE s = Inr (ec EC_SUCCESS, s') \<and>
    sv39_map s' 0x1000 0x3000 = Some (2, 0x100CF)"
proof -
  let ?m = "store64 (store64 (\<lambda>_. 0) 0x1000 0x100CF) 0xFFFFFFC000040000 0x20001"
  let ?s = "boot_kernel\<lparr>kmem := ?m\<rparr>"
  have z: "load64 (\<lambda>_. 0) x = 0" for x by (rule load64_zero) simp
  have "\<exists>s'. riscv_sv39_map_small_page 0x1000 0x3000 0x80005000 0xCE ?s = Inr (ec EC_SUCCESS, s') \<and>
      sv39_map s' 0x1000 0x3000 = Some (2, 0x100CF)"
    using sv39_small_page_below_gigapage [of "0x1000" "0x3000" "0x80005000" ?s "0xCE"]
    by (auto simp: IS_ALIGNED_def sv39_vpn_def sv39_entry_def boot_kernel_def load64_store64_other z
        riscv_sv39_pte_get_address_def riscv_sv39_pte_valid_def riscv_sv39_pte_leaf_def extent_disjoint_iff)
  then show ?thesis by blast
qed

end
