(* ===== verification/Riscv_Csr.thy ===== *)
theory Riscv_Csr
  imports Machine
begin

text \<open>
  The accessors of control and status registers of \<^verbatim>\<open>riscv.h\<close>, one per inline function.  Each is a
  single \<^verbatim>\<open>csrr\<close> or \<^verbatim>\<open>csrw\<close>: an access of the trace, whose read value the environment decides.
\<close>

definition riscv_time :: "'a machine_scheme \<Rightarrow> u64 \<times> 'a machine_scheme" where
  "riscv_time s = csr_read Time s"

definition riscv_mstatus_write :: "u64 \<Rightarrow> 'a machine_scheme \<Rightarrow> 'a machine_scheme" where
  "riscv_mstatus_write v s = csr_write Mstatus v s"

definition riscv_mstatus_read :: "'a machine_scheme \<Rightarrow> u64 \<times> 'a machine_scheme" where
  "riscv_mstatus_read s = csr_read Mstatus s"

definition riscv_mtvec_write :: "u64 \<Rightarrow> 'a machine_scheme \<Rightarrow> 'a machine_scheme" where
  "riscv_mtvec_write v s = csr_write Mtvec v s"

definition riscv_mtvec_read :: "'a machine_scheme \<Rightarrow> u64 \<times> 'a machine_scheme" where
  "riscv_mtvec_read s = csr_read Mtvec s"

definition riscv_medeleg_write :: "u64 \<Rightarrow> 'a machine_scheme \<Rightarrow> 'a machine_scheme" where
  "riscv_medeleg_write v s = csr_write Medeleg v s"

definition riscv_medeleg_read :: "'a machine_scheme \<Rightarrow> u64 \<times> 'a machine_scheme" where
  "riscv_medeleg_read s = csr_read Medeleg s"

definition riscv_mideleg_write :: "u64 \<Rightarrow> 'a machine_scheme \<Rightarrow> 'a machine_scheme" where
  "riscv_mideleg_write v s = csr_write Mideleg v s"

definition riscv_mideleg_read :: "'a machine_scheme \<Rightarrow> u64 \<times> 'a machine_scheme" where
  "riscv_mideleg_read s = csr_read Mideleg s"

definition riscv_mie_write :: "u64 \<Rightarrow> 'a machine_scheme \<Rightarrow> 'a machine_scheme" where
  "riscv_mie_write v s = csr_write Mie v s"

definition riscv_mie_read :: "'a machine_scheme \<Rightarrow> u64 \<times> 'a machine_scheme" where
  "riscv_mie_read s = csr_read Mie s"

definition riscv_mip_write :: "u64 \<Rightarrow> 'a machine_scheme \<Rightarrow> 'a machine_scheme" where
  "riscv_mip_write v s = csr_write Mip v s"

definition riscv_mip_read :: "'a machine_scheme \<Rightarrow> u64 \<times> 'a machine_scheme" where
  "riscv_mip_read s = csr_read Mip s"

definition riscv_mcounteren_write :: "u64 \<Rightarrow> 'a machine_scheme \<Rightarrow> 'a machine_scheme" where
  "riscv_mcounteren_write v s = csr_write Mcounteren v s"

definition riscv_mcounteren_read :: "'a machine_scheme \<Rightarrow> u64 \<times> 'a machine_scheme" where
  "riscv_mcounteren_read s = csr_read Mcounteren s"

definition riscv_mhartid_read :: "'a machine_scheme \<Rightarrow> u64 \<times> 'a machine_scheme" where
  "riscv_mhartid_read s = csr_read Mhartid s"

definition riscv_pmpaddr0_write :: "u64 \<Rightarrow> 'a machine_scheme \<Rightarrow> 'a machine_scheme" where
  "riscv_pmpaddr0_write v s = csr_write Pmpaddr0 v s"

definition riscv_pmpaddr0_read :: "'a machine_scheme \<Rightarrow> u64 \<times> 'a machine_scheme" where
  "riscv_pmpaddr0_read s = csr_read Pmpaddr0 s"

definition riscv_pmpcfg0_write :: "u64 \<Rightarrow> 'a machine_scheme \<Rightarrow> 'a machine_scheme" where
  "riscv_pmpcfg0_write v s = csr_write Pmpcfg0 v s"

definition riscv_pmpcfg0_read :: "'a machine_scheme \<Rightarrow> u64 \<times> 'a machine_scheme" where
  "riscv_pmpcfg0_read s = csr_read Pmpcfg0 s"

definition riscv_sstatus_write :: "u64 \<Rightarrow> 'a machine_scheme \<Rightarrow> 'a machine_scheme" where
  "riscv_sstatus_write v s = csr_write Sstatus v s"

definition riscv_sstatus_read :: "'a machine_scheme \<Rightarrow> u64 \<times> 'a machine_scheme" where
  "riscv_sstatus_read s = csr_read Sstatus s"

definition riscv_stvec_write :: "u64 \<Rightarrow> 'a machine_scheme \<Rightarrow> 'a machine_scheme" where
  "riscv_stvec_write v s = csr_write Stvec v s"

definition riscv_stvec_read :: "'a machine_scheme \<Rightarrow> u64 \<times> 'a machine_scheme" where
  "riscv_stvec_read s = csr_read Stvec s"

definition riscv_sie_write :: "u64 \<Rightarrow> 'a machine_scheme \<Rightarrow> 'a machine_scheme" where
  "riscv_sie_write v s = csr_write Sie v s"

definition riscv_sie_read :: "'a machine_scheme \<Rightarrow> u64 \<times> 'a machine_scheme" where
  "riscv_sie_read s = csr_read Sie s"

definition riscv_sip_write :: "u64 \<Rightarrow> 'a machine_scheme \<Rightarrow> 'a machine_scheme" where
  "riscv_sip_write v s = csr_write Sip v s"

definition riscv_sip_read :: "'a machine_scheme \<Rightarrow> u64 \<times> 'a machine_scheme" where
  "riscv_sip_read s = csr_read Sip s"

definition riscv_scounteren_write :: "u64 \<Rightarrow> 'a machine_scheme \<Rightarrow> 'a machine_scheme" where
  "riscv_scounteren_write v s = csr_write Scounteren v s"

definition riscv_scounteren_read :: "'a machine_scheme \<Rightarrow> u64 \<times> 'a machine_scheme" where
  "riscv_scounteren_read s = csr_read Scounteren s"

definition riscv_sscratch_write :: "u64 \<Rightarrow> 'a machine_scheme \<Rightarrow> 'a machine_scheme" where
  "riscv_sscratch_write v s = csr_write Sscratch v s"

definition riscv_sscratch_read :: "'a machine_scheme \<Rightarrow> u64 \<times> 'a machine_scheme" where
  "riscv_sscratch_read s = csr_read Sscratch s"

definition riscv_sepc_write :: "u64 \<Rightarrow> 'a machine_scheme \<Rightarrow> 'a machine_scheme" where
  "riscv_sepc_write v s = csr_write Sepc v s"

definition riscv_sepc_read :: "'a machine_scheme \<Rightarrow> u64 \<times> 'a machine_scheme" where
  "riscv_sepc_read s = csr_read Sepc s"

definition riscv_scause_write :: "u64 \<Rightarrow> 'a machine_scheme \<Rightarrow> 'a machine_scheme" where
  "riscv_scause_write v s = csr_write Scause v s"

definition riscv_scause_read :: "'a machine_scheme \<Rightarrow> u64 \<times> 'a machine_scheme" where
  "riscv_scause_read s = csr_read Scause s"

definition riscv_stval_write :: "u64 \<Rightarrow> 'a machine_scheme \<Rightarrow> 'a machine_scheme" where
  "riscv_stval_write v s = csr_write Stval v s"

definition riscv_stval_read :: "'a machine_scheme \<Rightarrow> u64 \<times> 'a machine_scheme" where
  "riscv_stval_read s = csr_read Stval s"

definition riscv_senvcfg_write :: "u64 \<Rightarrow> 'a machine_scheme \<Rightarrow> 'a machine_scheme" where
  "riscv_senvcfg_write v s = csr_write Senvcfg v s"

definition riscv_senvcfg_read :: "'a machine_scheme \<Rightarrow> u64 \<times> 'a machine_scheme" where
  "riscv_senvcfg_read s = csr_read Senvcfg s"

definition riscv_satp_write :: "u64 \<Rightarrow> 'a machine_scheme \<Rightarrow> 'a machine_scheme" where
  "riscv_satp_write v s = csr_write Satp v s"

definition riscv_satp_read :: "'a machine_scheme \<Rightarrow> u64 \<times> 'a machine_scheme" where
  "riscv_satp_read s = csr_read Satp s"

definition riscv_stimecmp_write :: "u64 \<Rightarrow> 'a machine_scheme \<Rightarrow> 'a machine_scheme" where
  "riscv_stimecmp_write v s = csr_write Stimecmp v s"

definition riscv_stimecmp_read :: "'a machine_scheme \<Rightarrow> u64 \<times> 'a machine_scheme" where
  "riscv_stimecmp_read s = csr_read Stimecmp s"

lemmas csr_defs =
  riscv_time_def riscv_mstatus_write_def riscv_mstatus_read_def riscv_mtvec_write_def
  riscv_mtvec_read_def riscv_medeleg_write_def riscv_medeleg_read_def riscv_mideleg_write_def
  riscv_mideleg_read_def riscv_mie_write_def riscv_mie_read_def riscv_mip_write_def
  riscv_mip_read_def riscv_mcounteren_write_def riscv_mcounteren_read_def riscv_mhartid_read_def
  riscv_pmpaddr0_write_def riscv_pmpaddr0_read_def riscv_pmpcfg0_write_def riscv_pmpcfg0_read_def
  riscv_sstatus_write_def riscv_sstatus_read_def riscv_stvec_write_def riscv_stvec_read_def
  riscv_sie_write_def riscv_sie_read_def riscv_sip_write_def riscv_sip_read_def
  riscv_scounteren_write_def riscv_scounteren_read_def riscv_sscratch_write_def riscv_sscratch_read_def
  riscv_sepc_write_def riscv_sepc_read_def riscv_scause_write_def riscv_scause_read_def
  riscv_stval_write_def riscv_stval_read_def riscv_senvcfg_write_def riscv_senvcfg_read_def
  riscv_satp_write_def riscv_satp_read_def riscv_stimecmp_write_def riscv_stimecmp_read_def

end
