(* ===== verification/System.thy ===== *)
theory System
  imports Kvspace Bump_Alloc Riscv_Csr Print
begin

text \<open>
  The globals of the kernel above its memory management: the boot information of
  \<^verbatim>\<open>limine/platform_info.c\<close>, the device registry of \<^verbatim>\<open>devices/device.c\<close> and the boot-time objects
  of \<^verbatim>\<open>kernel_entry.c\<close>.  What the linker and the boot loader decide, the addresses of functions
  and static objects and the pointers in the boot loader's answers, are fields too: nothing is
  assumed about them.
\<close>

section \<open>State\<close>

text \<open>\<^verbatim>\<open>struct device_tree\<close>: its allocators are descriptors, its lists live in memory.\<close>

record device_tree =
  reserved_arena :: slab_alloc
  node_arena :: slab_alloc
  property_arena :: slab_alloc
  phandlemap_arena :: slab_alloc
  dt_bump :: bump_alloc
  root_node :: addr
  reserved_memory :: addr
  phandle_map :: addr

text \<open>The \<^verbatim>\<open>response\<close> pointers of the requests, as the boot loader left them.\<close>

record boot_requests =
  req_framebuffer :: addr
  req_paging_mode :: addr
  req_memmap :: addr
  req_dtb :: addr
  req_hhdm :: addr
  req_bsp_hartid :: addr

text \<open>\<^verbatim>\<open>struct platform_info\<close>, apart from \<^verbatim>\<open>hhdm_offset\<close>, which the kernel's state has already.\<close>

record platform_info =
  framebuffer_response :: addr
  paging_mode_response :: addr
  memmap_response :: addr
  dtb_response :: addr
  hhdm_response :: addr
  bsp_hartid_response :: addr
  bsp_hartid :: u64

record system = kernel +
  boot_reqs :: boot_requests
  pinfo :: platform_info
  hart_plic_map :: addr
  map_capacity :: u64
  map_alloc_size :: u64
  drivers :: addr
  driver_count :: u64
  driver_node_arena :: slab_alloc
  dt :: device_tree
  kernel_page_table :: addr
  kernel_trap_frame :: addr
  fn_uart_handle_interrupt :: addr
  fn_asm_trap_handler :: addr
  lit_addr :: "string \<Rightarrow> addr"

section \<open>Fields of structures in memory\<close>

definition get64 :: "addr \<Rightarrow> 'a machine_scheme \<Rightarrow> u64" where
  "get64 a s = load64 (kmem s) a"

definition get32 :: "addr \<Rightarrow> 'a machine_scheme \<Rightarrow> u32" where
  "get32 a s = load32 (kmem s) a"

definition set64 :: "addr \<Rightarrow> u64 \<Rightarrow> 'a machine_scheme \<Rightarrow> 'a machine_scheme" where
  "set64 a v s = s\<lparr>kmem := store64 (kmem s) a v\<rparr>"

definition set32 :: "addr \<Rightarrow> u32 \<Rightarrow> 'a machine_scheme \<Rightarrow> 'a machine_scheme" where
  "set32 a v s = s\<lparr>kmem := store32 (kmem s) a v\<rparr>"

lemma set_fields [simp]:
  "kmem (set64 a v s) = store64 (kmem s) a v" "kmem (set32 a w s) = store32 (kmem s) a w"
  "io_events (set64 a v s) = io_events s" "io_events (set32 a w s) = io_events s"
  "io_inputs (set64 a v s) = io_inputs s" "io_inputs (set32 a w s) = io_inputs s"
  by (simp_all add: set64_def set32_def)

lemma get_io [simp]:
  "get64 a (record_io e s) = get64 a s" "get32 a (record_io e s) = get32 a s"
  by (simp_all add: get64_def get32_def)

text \<open>A view in memory compared with a literal: \<^verbatim>\<open>sv_compare(v, SV("...")) == 0\<close>.\<close>

definition sv_is :: "mem \<Rightarrow> str_view \<Rightarrow> string \<Rightarrow> bool" where
  "sv_is m v lit \<longleftrightarrow> sv_bytes m v = SV lit"

text \<open>Wherever the literal's bytes are in memory, the comparison of the code is this test.\<close>

lemma sv_is_compare:
  assumes "sv_bytes m w = SV lit"
  shows "sv_is m v lit \<longleftrightarrow> sv_compare m v w = 0"
  by (simp add: sv_is_def sv_compare_def sv_compare_loop_zero sv_bytes_eq_iff flip: assms)

definition sv_at :: "mem \<Rightarrow> addr \<Rightarrow> str_view" where
  "sv_at m a = \<lparr>sv_data = load64 m a, sv_size = load64 m (a + 8)\<rparr>"

definition set_sv :: "addr \<Rightarrow> str_view \<Rightarrow> 'a machine_scheme \<Rightarrow> 'a machine_scheme" where
  "set_sv a v s = set64 (a + 8) (sv_size v) (set64 a (sv_data v) s)"

text \<open>Sequencing of the memory accesses of one routine.\<close>

lemmas field_defs = get64_def get32_def set64_def set32_def sv_at_def set_sv_def

lemma store_in_struct:
  assumes "agree_on (- extent a n) m m0" and "unat k + 8 \<le> n" and "n \<le> 2 ^ 64"
  shows "agree_on (- extent a n) (store64 m (a + k) v) m0"
  using agree_on_trans [OF store64_agree assms(1)] extent_field [OF assms(2,3), of a] by blast

section \<open>PANIC\<close>

text \<open>\<^verbatim>\<open>PANIC(format, ...)\<close> prints and loops forever; the message needs a console too.\<close>

definition panic :: "u8 list \<Rightarrow> u64 list \<Rightarrow> 'a machine_scheme \<Rightarrow> halt + 'b" where
  "panic format args s =
     and_then (kprintln_string (SV ''[Kernel Panic]:'') s) (\<lambda>s.
     and_then (kprintln format args s) (\<lambda>s. Inl Panicked))"

lemma panic_never_returns [simp]: "panic format args s \<noteq> Inr r"
  by (simp add: panic_def and_then_eq_Inr)

section \<open>Boot information\<close>

definition populate_platform_info :: "'a system_scheme \<Rightarrow> halt + 'a system_scheme" where
  "populate_platform_info s =
     (let r = boot_reqs s;
          p = (pinfo s)\<lparr>framebuffer_response := req_framebuffer r, paging_mode_response := req_paging_mode r,
                memmap_response := req_memmap r, dtb_response := req_dtb r, hhdm_response := req_hhdm r\<rparr>
      in deref (hhdm_response p) (
           let s = s\<lparr>hhdm_offset := load64 (kmem s) (hhdm_response p + 8)\<rparr>;
               p = p\<lparr>bsp_hartid_response := req_bsp_hartid r\<rparr>
           in deref (bsp_hartid_response p) (
             Inr (s\<lparr>pinfo := p\<lparr>bsp_hartid := load64 (kmem s) (bsp_hartid_response p + 8)\<rparr>\<rparr>))))"

section \<open>A concrete system around a kernel state\<close>

definition idle_system :: "kernel \<Rightarrow> system" where
  "idle_system k = kernel.extend k \<lparr>
     boot_reqs = \<lparr>req_framebuffer = 0, req_paging_mode = 0, req_memmap = 0, req_dtb = 0, req_hhdm = 0, req_bsp_hartid = 0\<rparr>,
     pinfo = \<lparr>framebuffer_response = 0, paging_mode_response = 0, memmap_response = 0, dtb_response = 0, hhdm_response = 0,
       bsp_hartid_response = 0, bsp_hartid = 0\<rparr>,
     hart_plic_map = 0, map_capacity = 0, map_alloc_size = 0, drivers = 0, driver_count = 0, driver_node_arena = slab_init 64,
     dt = \<lparr>reserved_arena = slab_init 24, node_arena = slab_init 72, property_arena = slab_init 56, phandlemap_arena = slab_init 24,
       dt_bump = \<lparr>current = 0, used_list = 0\<rparr>, root_node = 0, reserved_memory = 0, phandle_map = 0\<rparr>,
     kernel_page_table = 0, kernel_trap_frame = 0xFFFFFFFF80010000, fn_uart_handle_interrupt = 0xFFFFFFFF80020000,
     fn_asm_trap_handler = 0xFFFFFFFF80030000, lit_addr = (\<lambda>_. 0xFFFFFFFF80040000)\<rparr>"

lemma idle_system_fields [simp]:
  "kmem (idle_system k) = kmem k" "hhdm_offset (idle_system k) = hhdm_offset k" "policy (idle_system k) = policy k"
  "free_bytes (idle_system k) = free_bytes k" "regions (idle_system k) = regions k" "region_count (idle_system k) = region_count k"
  "block_arena (idle_system k) = block_arena k" "io_events (idle_system k) = io_events k" "io_inputs (idle_system k) = io_inputs k"
  "put (idle_system k) = put k" "print_buf (idle_system k) = print_buf k"
  "fn_uart_handle_interrupt (idle_system k) = 0xFFFFFFFF80020000"
  by (simp_all add: idle_system_def kernel.extend_def)

lemma idle_system_inv [simp]: "pmm_inv (idle_system k) bss live = pmm_inv k bss live"
  "kvspace_inv (idle_system k) live = kvspace_inv k live"
  by (simp_all add: pmm_inv_def kvspace_inv_def)

end
