(* ===== verification/Uart_Driver.thy ===== *)
theory Uart_Driver
  imports System
begin

text \<open>
  The interrupt-driven UART driver of \<^verbatim>\<open>devices/uart.c\<close>.  A driver is a structure in memory: the
  register base at offset 0 and the handler's address at offset 8.
\<close>

definition uart_base :: "addr \<Rightarrow> 'a machine_scheme \<Rightarrow> addr" where
  "uart_base driver s = get64 driver s"

definition uart_handler :: "addr \<Rightarrow> 'a machine_scheme \<Rightarrow> addr" where
  "uart_handler driver s = get64 (driver + 8) s"

definition uart_driver_init :: "addr \<Rightarrow> addr \<Rightarrow> 'a system_scheme \<Rightarrow> halt + 'a system_scheme" where
  "uart_driver_init driver base s =
     deref driver (
       let s = set64 driver base s;
           s = set64 (driver + 8) (fn_uart_handle_interrupt s) s
       in Inr (mmio_write8 (uart_base driver s + 1) 0x01 s))"

text \<open>The character read, when there is one.\<close>

definition uart_driver_getchar :: "addr \<Rightarrow> 'a machine_scheme \<Rightarrow> (u64 \<times> u8 option) \<times> 'a machine_scheme" where
  "uart_driver_getchar driver s =
     (let (lsr, s) = mmio_read8 (uart_base driver s + 5) s
      in if lsr AND 0x01 = 0 then ((ec EC_UART_DRIVER_NO_DATA, None), s)
         else let (c, s) = mmio_read8 (uart_base driver s) s in ((ec EC_SUCCESS, Some c), s))"

definition uart_driver_putchar :: "addr \<Rightarrow> u8 \<Rightarrow> 'a machine_scheme \<Rightarrow> 'a machine_scheme" where
  "uart_driver_putchar driver c s = mmio_write8 (uart_base driver s) c s"

definition uart_driver_handle_interrupt :: "addr \<Rightarrow> 'a machine_scheme \<Rightarrow> 'a machine_scheme" where
  "uart_driver_handle_interrupt driver s =
     (let ((err, c), s) = uart_driver_getchar driver s in
      if error_is_ok err then
        (if the c = 8 then
           uart_driver_putchar driver 8 (uart_driver_putchar driver 0x20 (uart_driver_putchar driver 8 s))
         else if the c = 10 \<or> the c = 13 then uart_driver_putchar driver 10 s
         else uart_driver_putchar driver (the c) s)
      else s)"

section \<open>What the handler does to the device\<close>

text \<open>The bytes a typed character is answered with.\<close>

definition echo :: "u8 \<Rightarrow> u8 list" where
  "echo c = (if c = 8 then [8, 0x20, 8] else if c = 10 \<or> c = 13 then [10] else [c])"

text \<open>The accesses of one interrupt: the status, and when it shows data, the data and its echo.\<close>

definition uart_interrupt_trace :: "addr \<Rightarrow> u8 \<Rightarrow> u8 \<Rightarrow> io_event list" where
  "uart_interrupt_trace base lsr c =
     Read8 (base + 5) lsr # (if lsr AND 1 = 0 then [] else Read8 base c # map (Write8 base) (echo c))"

definition appends :: "io_event list \<Rightarrow> 'a machine_scheme \<Rightarrow> 'a machine_scheme \<Rightarrow> bool" where
  "appends es s s' \<longleftrightarrow> s' = s\<lparr>io_events := io_events s @ es\<rparr>"

lemma appends_Nil [simp]: "appends [] s s' \<longleftrightarrow> s' = s"
  by (simp add: appends_def)

lemma appends_record: "appends [e] s (record_io e s)"
  by (simp add: appends_def record_io_def)

lemma appends_trans: "appends es s s' \<Longrightarrow> appends fs s' s'' \<Longrightarrow> appends (es @ fs) s s''"
  by (simp add: appends_def)

lemma appends_io: "appends es s s' \<Longrightarrow> io_events s' = io_events s @ es \<and> kmem s' = kmem s"
  by (simp add: appends_def)

definition input :: "nat \<Rightarrow> 'a machine_scheme \<Rightarrow> 'b::len word" where
  "input k s = ucast (io_inputs s (length (io_events s) + k))"

lemma uart_driver_handle_interrupt_correct:
  "appends (uart_interrupt_trace (uart_base driver s) (input 0 s) (input 1 s)) s (uart_driver_handle_interrupt driver s)"
proof -
  have e: "error_is_ok (ec EC_SUCCESS)" "\<not> error_is_ok (ec EC_UART_DRIVER_NO_DATA)"
    by (simp_all only: error_is_ok_ec) simp_all
  show ?thesis
    using e
    by (simp add: uart_driver_handle_interrupt_def uart_driver_getchar_def uart_driver_putchar_def io_defs next_input_def
        uart_base_def input_def uart_interrupt_trace_def echo_def appends_def record_io_def get64_def del: ec.simps)
qed

text \<open>
  An interrupt of the UART reads the line status, and only when it shows data reads one
  character and echoes it: backspace erases, both line ends become a newline, everything else comes
  back as it is.  Nothing but the device is touched.
\<close>

theorem uart_interrupt_echoes:
  "io_events (uart_driver_handle_interrupt driver s) =
     io_events s @ uart_interrupt_trace (uart_base driver s) (input 0 s) (input 1 s) \<and>
   kmem (uart_driver_handle_interrupt driver s) = kmem s"
  using appends_io [OF uart_driver_handle_interrupt_correct] by blast

end
