(* ===== verification/Plic.thy ===== *)
theory Plic
  imports Uart_Driver
begin

text \<open>
  The platform-level interrupt controller of \<^verbatim>\<open>devices/plic.c\<close> and the driver structures of
  \<^verbatim>\<open>devices/device.h\<close> it dispatches to.  A \<^verbatim>\<open>struct driver\<close> has its type at offset 0 and the
  union of the driver structures at offset 8; a \<^verbatim>\<open>struct plic_driver\<close> has the hart at offset 0,
  the register pointers at 8, 16, 24 and 32 and the map from interrupts to drivers at 40.
\<close>

datatype device_type = DEVICE_TYPE_VIRTIO_MMIO | DEVICE_TYPE_PLIC | DEVICE_TYPE_UART

fun device_type_value :: "device_type \<Rightarrow> u32" where
  "device_type_value DEVICE_TYPE_VIRTIO_MMIO = 0"
| "device_type_value DEVICE_TYPE_PLIC = 1"
| "device_type_value DEVICE_TYPE_UART = 2"

definition driver_type :: "addr \<Rightarrow> 'a machine_scheme \<Rightarrow> u32" where
  "driver_type drv s = get32 drv s"

definition driver_d :: "addr \<Rightarrow> addr" where
  "driver_d drv = drv + 8"

definition plic_threshold :: "addr \<Rightarrow> 'a machine_scheme \<Rightarrow> addr" where
  "plic_threshold plic s = get64 (plic + 8) s"

definition plic_claim :: "addr \<Rightarrow> 'a machine_scheme \<Rightarrow> addr" where
  "plic_claim plic s = get64 (plic + 16) s"

definition plic_enable :: "addr \<Rightarrow> 'a machine_scheme \<Rightarrow> addr" where
  "plic_enable plic s = get64 (plic + 24) s"

definition plic_priority :: "addr \<Rightarrow> 'a machine_scheme \<Rightarrow> addr" where
  "plic_priority plic s = get64 (plic + 32) s"

definition plic_driver_map :: "addr \<Rightarrow> 'a machine_scheme \<Rightarrow> addr" where
  "plic_driver_map plic s = get64 (plic + 40) s"

lemmas plic_fields = driver_type_def driver_d_def plic_threshold_def plic_claim_def plic_enable_def
  plic_priority_def plic_driver_map_def

definition CONTEXT :: "u32 \<Rightarrow> u32" where
  "CONTEXT hart = hart * 2 + 1"

abbreviation PLIC_PRIORITY :: addr where "PLIC_PRIORITY \<equiv> 0"
abbreviation PLIC_INTERRUPT_ENABLE :: addr where "PLIC_INTERRUPT_ENABLE \<equiv> 0x2000"
abbreviation PLIC_THRESHOLD :: addr where "PLIC_THRESHOLD \<equiv> 0x200000"

definition plic_driver_init :: "addr \<Rightarrow> addr \<Rightarrow> u32 \<Rightarrow> 'a system_scheme \<Rightarrow> halt + 'a system_scheme" where
  "plic_driver_init driver base hartid s =
     deref driver (
       let s = set32 driver hartid s;
           s = set64 (driver + 8) (base + PLIC_THRESHOLD + ucast (CONTEXT hartid * 0x1000)) s;
           s = set64 (driver + 16) (plic_threshold driver s + 4) s;
           s = set64 (driver + 24) (base + PLIC_INTERRUPT_ENABLE + ucast (CONTEXT hartid * 0x80)) s;
           s = set64 (driver + 32) (base + PLIC_PRIORITY) s
       in and_then (kalloc (8 * 1024) PAGE_SIZE s) (\<lambda>(al, s).
         let s = set64 (driver + 40) (alloc_buffer al) s;
             s = s\<lparr>kmem := memzero (kmem s) (plic_driver_map driver s) (8 * 1024)\<rparr>
         in Inr (mmio_write32 (plic_threshold driver s) 0 s)))"

text \<open>The call through the function pointer that \<^verbatim>\<open>uart_driver_init\<close> stores.\<close>

definition call_uart_handler :: "addr \<Rightarrow> addr \<Rightarrow> 'a system_scheme \<Rightarrow> halt + 'a system_scheme" where
  "call_uart_handler fn drv s =
     (if fn = 0 then Inl Null_call
      else if fn = fn_uart_handle_interrupt s then Inr (uart_driver_handle_interrupt drv s)
      else Inl Bad_call)"

definition plic_driver_handle_interrupt :: "addr \<Rightarrow> 'a system_scheme \<Rightarrow> halt + u64 \<times> 'a system_scheme" where
  "plic_driver_handle_interrupt plic s =
     deref plic (
       let (claim, s) = mmio_read32 (plic_claim plic s) s in
       if claim = 0 then Inr (ec EC_PLIC_NO_INTERRUPT, s)
       else kassert (claim < 1024) (
         let dev = get64 (plic_driver_map plic s + 8 * ucast claim) s in
         if dev \<noteq> 0 then
           (if driver_type dev s = device_type_value DEVICE_TYPE_UART then
              and_then (call_uart_handler (uart_handler (driver_d dev) s) (driver_d dev) s) (\<lambda>s.
                Inr (ec EC_SUCCESS, mmio_write32 (plic_claim plic s) claim s))
            else Inr (ec EC_PLIC_UNREGISTERED_DRIVER, s))
         else Inr (ec EC_PLIC_UNREGISTERED_INTERRUPT, mmio_write32 (plic_claim plic s) claim s)))"

definition plic_driver_set_thresh :: "addr \<Rightarrow> u32 \<Rightarrow> 'a machine_scheme \<Rightarrow> halt + 'a machine_scheme" where
  "plic_driver_set_thresh driver threshold s =
     deref driver (Inr (mmio_write32 (plic_threshold driver s) threshold s))"

definition plic_driver_enable_int :: "addr \<Rightarrow> u32 \<Rightarrow> u8 \<Rightarrow> addr \<Rightarrow> 'a machine_scheme \<Rightarrow> halt + 'a machine_scheme" where
  "plic_driver_enable_int plic interrupt priority drv s =
     kassert (interrupt < 32) (deref plic (
       let priority = priority AND 0x7;
           s = set64 (plic_driver_map plic s + 8 * ucast interrupt) drv s;
           (enabled, s) = mmio_read32 (plic_enable plic s) s;
           s = mmio_write32 (plic_enable plic s) (enabled OR push_bit (unat interrupt) 1) s
       in Inr (mmio_write32 (plic_priority plic s + 4 * ucast interrupt) (ucast priority) s)))"

definition plic_interrupt_set_priority :: "addr \<Rightarrow> u32 \<Rightarrow> u8 \<Rightarrow> 'a machine_scheme \<Rightarrow> halt + 'a machine_scheme" where
  "plic_interrupt_set_priority plic interrupt priority s =
     kassert (interrupt < 32) (deref plic (
       let priority = priority AND 0x7
       in Inr (mmio_write32 (plic_priority plic s + 4 * ucast interrupt) (ucast priority) s)))"

text \<open>The controller of a hart, from \<^verbatim>\<open>devices/device.c\<close>.\<close>

definition devices_get_plic_driver :: "u32 \<Rightarrow> 'a system_scheme \<Rightarrow> addr" where
  "devices_get_plic_driver hartid s =
     (if map_capacity s \<le> ucast hartid then 0 else get64 (hart_plic_map s + 8 * ucast hartid) s)"

section \<open>Claims and completions\<close>

text \<open>The registered driver of an interrupt, as \<^verbatim>\<open>plic_driver_handle_interrupt\<close> looks it up.\<close>

definition plic_driver_of :: "addr \<Rightarrow> u32 \<Rightarrow> 'a machine_scheme \<Rightarrow> addr" where
  "plic_driver_of plic irq s = get64 (plic_driver_map plic s + 8 * ucast irq) s"

text \<open>A driver that is a UART with the handler \<^verbatim>\<open>uart_driver_init\<close> installed.\<close>

definition uart_ready :: "addr \<Rightarrow> 'a system_scheme \<Rightarrow> bool" where
  "uart_ready drv s \<longleftrightarrow> drv \<noteq> 0 \<and> driver_type drv s = device_type_value DEVICE_TYPE_UART \<and>
     uart_handler (driver_d drv) s = fn_uart_handle_interrupt s \<and> fn_uart_handle_interrupt s \<noteq> 0"

text \<open>Every access of one external interrupt, for the claimed number and its driver.\<close>

definition plic_interrupt_trace :: "addr \<Rightarrow> 'a system_scheme \<Rightarrow> io_event list" where
  "plic_interrupt_trace plic s =
     (let cl = plic_claim plic s; irq = input 0 s; drv = plic_driver_of plic irq s in
      Read32 cl irq #
      (if irq = 0 then []
       else if drv = 0 then [Write32 cl irq]
       else if driver_type drv s = device_type_value DEVICE_TYPE_UART
         then uart_interrupt_trace (uart_base (driver_d drv) s) (input 1 s) (input 2 s) @ [Write32 cl irq]
       else []))"

definition plic_interrupt_code :: "addr \<Rightarrow> 'a system_scheme \<Rightarrow> ErrorCode" where
  "plic_interrupt_code plic s =
     (let irq = input 0 s; drv = plic_driver_of plic irq s in
      if irq = 0 then EC_PLIC_NO_INTERRUPT
      else if drv = 0 then EC_PLIC_UNREGISTERED_INTERRUPT
      else if driver_type drv s = device_type_value DEVICE_TYPE_UART then EC_SUCCESS
      else EC_PLIC_UNREGISTERED_DRIVER)"

lemma input_record: "input k (record_io e s) = input (Suc k) s"
  by (simp add: input_def)

lemma input_fields [simp]: "fn_uart_handle_interrupt (record_io e s) = fn_uart_handle_interrupt s"
  by (simp add: record_io_def)

lemma appends_fields:
  assumes "appends es s s'"
  shows "kmem s' = kmem s" and "get64 a s' = get64 a s" and "get32 a s' = get32 a s"
    and "io_inputs s' = io_inputs s" and "io_events s' = io_events s @ es"
  using assms by (simp_all add: appends_def get64_def get32_def)

lemma plic_driver_handle_interrupt_correct:
  fixes s :: "'a system_scheme"
  assumes "plic \<noteq> 0" and "(input 0 s :: u32) < 1024"
    and "plic_driver_of plic (input 0 s) s \<noteq> 0 \<Longrightarrow>
      driver_type (plic_driver_of plic (input 0 s) s) s = device_type_value DEVICE_TYPE_UART \<Longrightarrow> uart_ready (plic_driver_of plic (input 0 s) s) s"
  shows "\<exists>s'. plic_driver_handle_interrupt plic s = Inr (ec (plic_interrupt_code plic s), s') \<and>
    appends (plic_interrupt_trace plic s) s s'"
proof -
  define irq :: u32 where "irq = input 0 s"
  define s1 where "s1 = record_io (Read32 (plic_claim plic s) irq) s"
  define drv where "drv = plic_driver_of plic irq s"
  have rd: "mmio_read32 (plic_claim plic s) s = (irq, s1)"
    by (simp add: io_defs next_input_def irq_def input_def s1_def)
  have a1: "appends [Read32 (plic_claim plic s) irq] s s1" unfolding s1_def by (rule appends_record)
  have f1: "plic_claim plic s1 = plic_claim plic s" "get64 (plic_driver_map plic s1 + 8 * ucast irq) s1 = drv"
    "driver_type drv s1 = driver_type drv s" "uart_handler (driver_d drv) s1 = uart_handler (driver_d drv) s"
    "fn_uart_handle_interrupt s1 = fn_uart_handle_interrupt s"
    by (simp_all add: s1_def plic_fields drv_def plic_driver_of_def uart_handler_def)
  note D = plic_driver_handle_interrupt_def
  show ?thesis
  proof (cases "irq = 0 \<or> drv = 0 \<or> driver_type drv s \<noteq> device_type_value DEVICE_TYPE_UART")
    case True
    let ?c = "Write32 (plic_claim plic s) irq"
    have a2: "appends ([Read32 (plic_claim plic s) irq] @ [?c]) s (record_io ?c s1)"
      by (rule appends_trans [OF a1 appends_record])
    from True consider "irq = 0" | "irq \<noteq> 0" "drv = 0" | "irq \<noteq> 0" "drv \<noteq> 0" "driver_type drv s \<noteq> device_type_value DEVICE_TYPE_UART"
      by blast
    then show ?thesis
    proof cases
      case 1
      then show ?thesis using assms(1,2) rd a1
        by (intro exI [of _ s1]) (simp add: D plic_interrupt_code_def plic_interrupt_trace_def Let_def flip: irq_def)
    next
      case 2
      then show ?thesis using assms(1,2) rd a2 f1
        by (intro exI [of _ "record_io ?c s1"])
          (simp add: D plic_interrupt_code_def plic_interrupt_trace_def Let_def mmio_write32_def flip: irq_def drv_def)
    next
      case 3
      then show ?thesis using assms(1,2) rd a1 f1
        by (intro exI [of _ s1]) (simp add: D plic_interrupt_code_def plic_interrupt_trace_def Let_def flip: irq_def drv_def)
    qed
  next
    case False
    then have rdy: "uart_ready drv s" using assms(3) by (simp add: irq_def drv_def)
    let ?s2 = "uart_driver_handle_interrupt (driver_d drv) s1"
    let ?c = "Write32 (plic_claim plic s) irq"
    have "uart_base (driver_d drv) s1 = uart_base (driver_d drv) s" by (simp add: uart_base_def s1_def)
    moreover have "input 0 s1 = (input 1 s :: u8)" "input 1 s1 = (input 2 s :: u8)"
      by (simp_all add: s1_def input_record numeral_2_eq_2)
    ultimately have a2: "appends (uart_interrupt_trace (uart_base (driver_d drv) s) (input 1 s) (input 2 s)) s1 ?s2"
      using uart_driver_handle_interrupt_correct [of "driver_d drv" s1] by simp
    have cl: "plic_claim plic ?s2 = plic_claim plic s"
      using appends_fields(2) [OF a2] f1(1) by (simp add: plic_claim_def)
    have a3: "appends (([Read32 (plic_claim plic s) irq] @ uart_interrupt_trace (uart_base (driver_d drv) s) (input 1 s) (input 2 s)) @ [?c])
        s (record_io ?c ?s2)"
      by (rule appends_trans [OF appends_trans [OF a1 a2] appends_record])
    show ?thesis using False assms(1,2) rd a3 f1 cl rdy
      by (intro exI [of _ "record_io ?c ?s2"])
        (simp add: D plic_interrupt_code_def plic_interrupt_trace_def Let_def mmio_write32_def call_uart_handler_def
          uart_ready_def flip: irq_def drv_def)
  qed
qed

section \<open>Registration\<close>

text \<open>The 1024 slots of the driver map, apart from the structure of the controller's driver itself.\<close>

definition plic_layout :: "addr \<Rightarrow> 'a machine_scheme \<Rightarrow> bool" where
  "plic_layout plic s \<longleftrightarrow> plic \<noteq> 0 \<and> extent plic 48 \<inter> extent (plic_driver_map plic s) 8192 = {}"

lemma ucast_irq_nat: "irq < 1024 \<Longrightarrow> unat (8 * ucast (irq :: u32) :: u64) = 8 * unat irq \<and> 8 * unat irq + 8 \<le> 8192"
proof -
  assume "irq < 1024"
  then have i: "unat irq < 1024" by (simp add: word_less_nat_alt)
  have u: "unat (ucast irq :: u64) = unat irq" by (simp add: unsigned_ucast_eq take_bit_nat_eq_self_iff less_trans [OF i])
  then show ?thesis using i by (simp add: unat_mult_lem [THEN iffD1])
qed

lemma plic_slot_store:
  fixes s :: "'a machine_scheme" and drv :: addr and irq :: u32
  assumes lay: "plic_layout plic s" and i: "irq < 1024"
  defines "s' \<equiv> set64 (plic_driver_map plic s + 8 * ucast irq) drv s"
  shows "plic_driver_map plic s' = plic_driver_map plic s" and "plic_claim plic s' = plic_claim plic s"
    and "plic_enable plic s' = plic_enable plic s" and "plic_priority plic s' = plic_priority plic s"
    and "plic_threshold plic s' = plic_threshold plic s"
    and "j < 1024 \<Longrightarrow> plic_driver_of plic j s' = (if j = irq then drv else plic_driver_of plic j s)"
proof -
  have f: "get64 (plic + k) s' = get64 (plic + k) s" if "unat k + 8 \<le> 48" for k
    unfolding s'_def get64_def set_fields
    by (rule load64_store64_fields [where n = 8192 and k = 48]) (use lay ucast_irq_nat [OF i] that in \<open>auto simp: plic_layout_def\<close>)
  show m: "plic_driver_map plic s' = plic_driver_map plic s" "plic_claim plic s' = plic_claim plic s"
    "plic_enable plic s' = plic_enable plic s" "plic_priority plic s' = plic_priority plic s"
    "plic_threshold plic s' = plic_threshold plic s"
    using f by (simp_all add: plic_fields)
  show "plic_driver_of plic j s' = (if j = irq then drv else plic_driver_of plic j s)" if j: "j < 1024"
  proof (cases "j = irq")
    case True
    then show ?thesis by (simp add: plic_driver_of_def m(1)) (simp add: s'_def get64_def)
  next
    case False
    have ne: "unat j \<noteq> unat irq" using False unsigned_word_eqI [where ?'a = nat, of j irq] by blast
    let ?m = "plic_driver_map plic s"
    have "unat (8 * ucast j - 8 * ucast irq :: u64) \<ge> 8 \<and> unat (8 * ucast irq - 8 * ucast j :: u64) \<ge> 8"
      using ne ucast_irq_nat [OF i] ucast_irq_nat [OF j] unat_diff_cases [of "8 * ucast j" "8 * ucast irq"]
        unat_diff_cases [of "8 * ucast irq" "8 * ucast j"] by (auto split: if_splits)
    then have "load64 (store64 (kmem s) (?m + 8 * ucast irq) drv) (?m + 8 * ucast j) = load64 (kmem s) (?m + 8 * ucast j)"
      by (intro load64_store64_other) simp_all
    then show ?thesis using False by (simp add: plic_driver_of_def m(1)) (simp add: s'_def get64_def)
  qed
qed

lemma plic_driver_enable_int_correct:
  fixes s :: "'a machine_scheme"
  assumes lay: "plic_layout plic s" and i: "irq < 32"
  shows "\<exists>s'. plic_driver_enable_int plic irq prio drv s = Inr s' \<and>
    s' = (set64 (plic_driver_map plic s + 8 * ucast irq) drv s)\<lparr>io_events := io_events s @
      [Read32 (plic_enable plic s) (input 0 s), Write32 (plic_enable plic s) (input 0 s OR push_bit (unat irq) 1),
       Write32 (plic_priority plic s + 4 * ucast irq) (ucast (prio AND 7))]\<rparr>"
proof -
  have i2: "irq < 1024" using i by (rule less_trans) simp
  define s1 where "s1 = set64 (plic_driver_map plic s + 8 * ucast irq) drv s"
  have f: "plic_enable plic s1 = plic_enable plic s" "plic_priority plic s1 = plic_priority plic s"
    "io_events s1 = io_events s" "io_inputs s1 = io_inputs s"
    using plic_slot_store(3,4) [OF lay i2, of drv] by (simp_all add: s1_def)
  have g: "plic_enable plic (record_io e t) = plic_enable plic t" "plic_priority plic (record_io e t) = plic_priority plic t"
    for e and t :: "'a machine_scheme" by (simp_all add: plic_fields)
  show ?thesis using lay i
    by (simp add: plic_driver_enable_int_def plic_layout_def io_defs next_input_def input_def f g flip: s1_def)
      (simp add: record_io_def f)
qed

text \<open>
  Enabling an interrupt makes exactly its entry of the driver map the given driver, sets
  exactly its bit in the enable register, keeping the others, and writes its priority cut to three
  bits; interrupts from 32 on are refused by the assertion.
\<close>

theorem plic_enable_int_registers:
  assumes "plic_layout plic s" and "irq < 1024"
  shows "case plic_driver_enable_int plic irq prio drv s of Inl h \<Rightarrow> 32 \<le> irq \<and> h = Assert_failed
    | Inr s' \<Rightarrow> irq < 32 \<and>
        {j. j < 1024 \<and> plic_driver_of plic j s' \<noteq> (if j = irq then drv else plic_driver_of plic j s)} = {} \<and>
        io_events s' = io_events s @ [Read32 (plic_enable plic s) (input 0 s),
          Write32 (plic_enable plic s) (set_bit (unat irq) (input 0 s)),
          Write32 (plic_priority plic s + 4 * ucast irq) (ucast (prio AND 7))]"
proof (cases "irq < 32")
  case True
  then obtain s' where s': "plic_driver_enable_int plic irq prio drv s = Inr s'"
    "s' = (set64 (plic_driver_map plic s + 8 * ucast irq) drv s)\<lparr>io_events := io_events s @
      [Read32 (plic_enable plic s) (input 0 s), Write32 (plic_enable plic s) (input 0 s OR push_bit (unat irq) 1),
       Write32 (plic_priority plic s + 4 * ucast irq) (ucast (prio AND 7))]\<rparr>"
    using plic_driver_enable_int_correct [OF assms(1)] by blast
  have "plic_driver_of plic j s' = plic_driver_of plic j (set64 (plic_driver_map plic s + 8 * ucast irq) drv s)" for j
    by (simp add: s'(2) plic_driver_of_def plic_driver_map_def get64_def)
  then show ?thesis
    using s' True plic_slot_store(6) [OF assms] by (simp add: set_bit_eq_or)
next
  case False
  then have "plic_driver_enable_int plic irq prio drv s = Inl Assert_failed" by (simp add: plic_driver_enable_int_def)
  then show ?thesis using False by (simp add: not_less)
qed

text \<open>
  An external interrupt that the controller claims below 1024 is handled in a fixed sequence of
  device accesses: the claim is read once; no claim ends it; an unregistered interrupt is completed;
  a UART is served and the same claim completed after it; for any other driver the claim is left
  open, so the controller will not raise that interrupt again.
\<close>

theorem plic_interrupt_claims_and_completes:
  assumes "plic \<noteq> 0" and "(input 0 s :: u32) < 1024"
    and "plic_driver_of plic (input 0 s) s \<noteq> 0 \<Longrightarrow>
      driver_type (plic_driver_of plic (input 0 s) s) s = device_type_value DEVICE_TYPE_UART \<Longrightarrow> uart_ready (plic_driver_of plic (input 0 s) s) s"
  shows "\<exists>s'. plic_driver_handle_interrupt plic s = Inr (ec (plic_interrupt_code plic s), s') \<and>
    io_events s' = io_events s @ plic_interrupt_trace plic s \<and> kmem s' = kmem s"
  using plic_driver_handle_interrupt_correct [OF assms] appends_io by blast

text \<open>
  C30: registering a UART and then taking its interrupt: after \<^verbatim>\<open>plic_driver_enable_int\<close> the claim
  of that number reaches the registered driver, is reported as a success, and is completed after
  the echo.
\<close>

theorem plic_registered_uart_is_served:
  assumes "plic_layout plic s" and "0 < irq" and "irq < 32"
    and "plic_driver_enable_int plic irq prio drv s = Inr s1"
    and "uart_ready drv s1" and "input 0 s1 = irq"
  shows "\<exists>s'. plic_driver_handle_interrupt plic s1 = Inr (ec EC_SUCCESS, s') \<and>
    io_events s' = io_events s1 @ Read32 (plic_claim plic s) irq #
      uart_interrupt_trace (uart_base (driver_d drv) s1) (input 1 s1) (input 2 s1) @ [Write32 (plic_claim plic s) irq]"
proof -
  have i2: "irq < 1024" using assms(3) by (rule less_trans) simp
  have s1: "s1 = (set64 (plic_driver_map plic s + 8 * ucast irq) drv s)\<lparr>io_events := io_events s1\<rparr>"
    using plic_driver_enable_int_correct [OF assms(1,3), where prio = prio and drv = drv] assms(4) by auto
  have c: "plic_claim plic s1 = plic_claim plic s" and d: "plic_driver_of plic irq s1 = drv"
    using plic_slot_store(2,6) [OF assms(1) i2, where drv = drv] i2
    by (subst s1, simp add: plic_fields plic_driver_of_def get64_def)+
  have nz: "drv \<noteq> 0" "driver_type drv s1 = device_type_value DEVICE_TYPE_UART" using assms(5) by (simp_all add: uart_ready_def)
  have p: "plic \<noteq> 0" using assms(1) by (simp add: plic_layout_def)
  obtain s' where "plic_driver_handle_interrupt plic s1 = Inr (ec (plic_interrupt_code plic s1), s')"
    "appends (plic_interrupt_trace plic s1) s1 s'"
    using plic_driver_handle_interrupt_correct [OF p, of s1] assms(5,6) i2 d by auto
  then show ?thesis
    using assms(2,6) nz d c appends_io [of _ s1 s']
    by (intro exI [of _ s']) (auto simp: plic_interrupt_code_def plic_interrupt_trace_def Let_def)
qed

section \<open>Initialization\<close>

lemma plic_struct_write:
  assumes "kvspace_inv s live" and "extent drv 48 \<subseteq> covered live" and "agree_on (- extent drv 48) m (kmem s)"
  shows "kvspace_inv (s\<lparr>kmem := m\<rparr>) live"
  using assms by (intro kpages.kinv_frame [OF assms(1)]) (auto simp: agree_on_def)

lemma plic_driver_init_runs:
  fixes s :: "'a system_scheme"
  assumes "kalloc_ready (8 * 1024) 12 s live" and "drv \<noteq> 0" and "extent drv 48 \<subseteq> covered live"
  shows "\<exists>s'. plic_driver_init drv base hartid s = Inr s'"
proof -
  define m1 where "m1 = store64 (store64 (store64 (store64 (store32 (kmem s) drv hartid) (drv + 8)
     (base + PLIC_THRESHOLD + ucast (CONTEXT hartid * 0x1000))) (drv + 16) (base + PLIC_THRESHOLD + ucast (CONTEXT hartid * 0x1000) + 4))
    (drv + 24) (base + PLIC_INTERRUPT_ENABLE + ucast (CONTEXT hartid * 0x80))) (drv + 32) base"
  have "agree_on (- extent drv 48) (store32 (kmem s) drv hartid) (kmem s)"
    using extent_mono [of 4 48 drv] by (intro store32_agree) auto
  then have "agree_on (- extent drv 48) m1 (kmem s)" unfolding m1_def by (intro store_in_struct) simp_all
  then have "agree_on (- covered live) m1 (kmem s)" using assms(3) by (auto intro: agree_on_mono)
  from kalloc_ready_runs [OF kalloc_ready_frame [OF assms(1) this]]
  obtain al s2 where "kalloc (8 * 1024) PAGE_SIZE (s\<lparr>kmem := m1\<rparr>) = Inr (al, s2)" by auto
  then show ?thesis using assms(2) unfolding plic_driver_init_def m1_def
    by (simp add: Let_def set64_def set32_def get64_def plic_threshold_def)
qed

lemma plic_driver_init_correct:
  fixes s :: "'a system_scheme"
  assumes inv: "kvspace_inv s live" and drv: "drv \<noteq> 0" "extent drv 48 \<subseteq> covered live" and hh: "2 ^ 14 \<le> unat (hhdm_offset s)"
    and run: "plic_driver_init drv base hartid s = Inr s'"
  shows "kvspace_inv s' ((plic_driver_map drv s', 8192) # live)" and "plic_layout drv s'"
    and "agree_on (covered live - extent drv 48) (kmem s') (kmem s)"
    and "plic_threshold drv s' = base + 0x200000 + ucast (CONTEXT hartid * 0x1000)"
    and "plic_claim drv s' = base + 0x200000 + ucast (CONTEXT hartid * 0x1000) + 4"
    and "plic_enable drv s' = base + 0x2000 + ucast (CONTEXT hartid * 0x80)" and "plic_priority drv s' = base"
    and "irq < 1024 \<Longrightarrow> plic_driver_of drv irq s' = 0"
    and "io_events s' = io_events s @ [Write32 (plic_threshold drv s') 0]"
proof -
  let ?t = "base + 0x200000 + ucast (CONTEXT hartid * 0x1000)"
  define m1 where "m1 = store64 (store64 (store64 (store64 (store32 (kmem s) drv hartid) (drv + 8) ?t) (drv + 16) (?t + 4))
    (drv + 24) (base + 0x2000 + ucast (CONTEXT hartid * 0x80))) (drv + 32) base"
  obtain al s2 where k: "kalloc (8 * 1024) PAGE_SIZE (s\<lparr>kmem := m1\<rparr>) = Inr (al, s2)"
    and s': "s' = (let s = set64 (drv + 40) (alloc_buffer al) s2;
             s = s\<lparr>kmem := memzero (kmem s) (plic_driver_map drv s) (8 * 1024)\<rparr>
         in mmio_write32 (plic_threshold drv s) 0 s)"
    using run drv(1) unfolding plic_driver_init_def m1_def
    by (auto simp: and_then_eq_Inr Let_def set64_def set32_def get64_def plic_threshold_def)
  have "agree_on (- extent drv 48) (store32 (kmem s) drv hartid) (kmem s)"
    using extent_mono [of 4 48 drv] by (intro store32_agree) auto
  then have ag1: "agree_on (- extent drv 48) m1 (kmem s)" unfolding m1_def
    by (intro store_in_struct) simp_all
  have inv1: "kvspace_inv (s\<lparr>kmem := m1\<rparr>) live" by (rule plic_struct_write [OF inv drv(2) ag1])
  have n: "ALIGN_UP (8 * 1024) PAGE_SIZE = 8192" by (simp add: ALIGN_UP_def)
  have req: "pmm_request_ok (hhdm_offset (s\<lparr>kmem := m1\<rparr>)) 12 (ALIGN_UP (8 * 1024) PAGE_SIZE)"
    unfolding n using hh by (simp add: pmm_request_ok_def)
  have k12: "kalloc (8 * 1024) (2 ^ 12) (s\<lparr>kmem := m1\<rparr>) = Inr (al, s2)" using k by simp
  note K = kvspace_kalloc [OF inv1 req k12, unfolded n]
  let ?b = "alloc_buffer al"
  define m3 where "m3 = store64 (kmem s2) (drv + 40) ?b"
  have inv2: "kvspace_inv s2 ((?b, 8192) # live)" using K(1) by simp
  have ap: "extent ?b 8192 \<inter> covered live = {}" using all_apart_covered_hd [OF kpages.kinv_apart [OF inv2]] by simp
  have dj: "extent drv 48 \<inter> extent ?b 8192 = {}" using ap drv(2) by blast
  have ag2: "agree_on (covered live) (kmem s2) m1" using K(3) by simp
  have f40: "extent (drv + 40) 8 \<subseteq> extent drv 48" by (rule extent_field) simp_all
  have fld: "load64 m3 (drv + j) = load64 m1 (drv + j)" if "unat j + 8 \<le> 40" for j
  proof -
    have "extent (drv + j) 8 \<subseteq> covered live" using extent_field [of j 8 48 drv] that drv(2) by auto
    then have "load64 (kmem s2) (drv + j) = load64 m1 (drv + j)" by (rule load64_agree [OF ag2])
    moreover have "load64 m3 (drv + j) = load64 (kmem s2) (drv + j)"
      unfolding m3_def
    proof (rule load64_store64_other)
      show "8 \<le> unat (drv + j - (drv + 40))" "8 \<le> unat (drv + 40 - (drv + j))"
        using that unat_diff_cases [of j 40] unat_diff_cases [of 40 j] by (auto split: if_splits)
    qed
    ultimately show ?thesis by simp
  qed
  have m40: "load64 m3 (drv + 40) = ?b" by (simp add: m3_def)
  define m4 where "m4 = memzero m3 ?b (8 * 1024)"
  have ag4: "agree_on (- extent ?b 8192) m4 m3" unfolding m4_def by (intro memzero_agree) auto
  have fld4: "load64 m4 (drv + j) = load64 m3 (drv + j)" if "unat j + 8 \<le> 48" for j
    using extent_field [of j 8 48 drv] that dj by (intro load64_agree [OF ag4]) auto
  have s'2: "s' = s2\<lparr>kmem := m4, io_events := io_events s2 @ [Write32 (load64 m4 (drv + 8)) 0]\<rparr>"
    unfolding s' by (simp add: Let_def set64_def get64_def plic_fields m40 mmio_write32_def record_io_def flip: m3_def)
      (simp add: m4_def)
  have km: "kmem s' = m4" by (simp add: s'2)
  have F: "load64 m4 (drv + 8) = ?t" "load64 m4 (drv + 16) = ?t + 4"
    "load64 m4 (drv + 24) = base + 0x2000 + ucast (CONTEXT hartid * 0x80)" "load64 m4 (drv + 32) = base" "load64 m4 (drv + 40) = ?b"
    by (simp_all add: fld4 fld m40) (simp_all add: m1_def mem_simps)
  show "plic_threshold drv s' = ?t" "plic_claim drv s' = ?t + 4"
    "plic_enable drv s' = base + 0x2000 + ucast (CONTEXT hartid * 0x80)" "plic_priority drv s' = base"
    using F by (simp_all add: plic_fields get64_def km)
  have map: "plic_driver_map drv s' = ?b" using F(5) by (simp add: plic_fields get64_def km)
  show "plic_layout drv s'" using drv(1) dj by (simp add: plic_layout_def map)
  have ag24: "agree_on (- covered ((?b, 8192) # live)) m4 (kmem s2)"
  proof -
    have "agree_on (- extent drv 48) m3 (kmem s2)" unfolding m3_def using f40 by (intro store64_agree) auto
    then show ?thesis using ag4 drv(2) by (auto simp: agree_on_def)
  qed
  have "kvspace_inv (s2\<lparr>kmem := m4\<rparr>) ((?b, 8192) # live)" by (rule kpages.kinv_frame [OF inv2 ag24])
  then show "kvspace_inv s' ((plic_driver_map drv s', 8192) # live)"
    unfolding map by (simp add: s'2 kvspace_inv_def pmm_inv_def)
  show "agree_on (covered live - extent drv 48) (kmem s') (kmem s)"
  proof -
    have "agree_on (- extent drv 48) m3 (kmem s2)" unfolding m3_def using f40 by (intro store64_agree) auto
    moreover have "agree_on (covered live - extent drv 48) m4 m3" using ap by (intro agree_on_mono [OF ag4]) blast
    ultimately show ?thesis using ag2 ag1 unfolding km by (simp add: agree_on_def)
  qed
  show "plic_driver_of drv irq s' = 0" if "irq < 1024"
  proof -
    have "extent (?b + 8 * ucast irq) 8 \<subseteq> extent ?b 8192"
      by (rule extent_field) (use ucast_irq_nat [OF that] in simp_all)
    moreover have "m4 x = 0" if "x \<in> extent ?b 8192" for x using that by (simp add: m4_def memzero_inside)
    ultimately have "load64 m4 (?b + 8 * ucast irq) = 0" by (intro load64_zero) blast
    then show ?thesis by (simp add: plic_driver_of_def map get64_def km)
  qed
  have "io_events s2 = io_events s" by (subst K(5)) simp
  then show "io_events s' = io_events s @ [Write32 (plic_threshold drv s') 0]"
    using F(1) by (simp add: s'2 plic_fields get64_def)
qed

text \<open>
  Initialising the controller's driver makes every interrupt unregistered, sets the threshold of
  the hart's context to zero, the only device access, and leaves the memory manager's invariant
  with the fresh driver map in use, every other block as it was.
\<close>

theorem plic_driver_init_unregisters:
  fixes s :: "'a system_scheme"
  assumes "kvspace_inv s live" and "drv \<noteq> 0" and "extent drv 48 \<subseteq> covered live" and "2 ^ 14 \<le> unat (hhdm_offset s)"
    and "plic_driver_init drv base hartid s = Inr s'"
  shows "kvspace_inv s' ((plic_driver_map drv s', 8192) # live) \<and> plic_layout drv s' \<and>
    (\<lambda>irq. plic_driver_of drv irq s') ` {irq. irq < 1024} \<subseteq> {0} \<and>
    agree_on (covered live - extent drv 48) (kmem s') (kmem s) \<and>
    io_events s' = io_events s @ [Write32 (base + PLIC_THRESHOLD + ucast (CONTEXT hartid * 0x1000)) 0]"
  using plic_driver_init_correct(1,2,3,8,9) [OF assms] plic_driver_init_correct(4) [OF assms] by auto

section \<open>A concrete controller\<close>

text \<open>A controller at \<open>0x1000\<close> with an empty driver map at \<open>0x10000\<close> and a UART at \<open>0x30000\<close>.\<close>

definition plic_memory :: mem where
  "plic_memory = store64 (store64 (store32 (store64 (store64 (store64 (\<lambda>_. 0) 0x1028 0x10000) 0x1010 0xC201004) 0x1018 0xC002080)
     0x30000 2) 0x30008 0x10000000) 0x30010 0xFFFFFFFF80020000"

definition plic_system :: "(nat \<Rightarrow> u64) \<Rightarrow> system" where
  "plic_system inp = idle_system (boot_kernel\<lparr>kmem := plic_memory, io_inputs := inp\<rparr>)"

lemma plic_system_fields [simp]:
  "kmem (plic_system inp) = plic_memory" "io_inputs (plic_system inp) = inp" "io_events (plic_system inp) = []"
  "fn_uart_handle_interrupt (plic_system inp) = 0xFFFFFFFF80020000"
  "plic_driver_map 0x1000 (plic_system inp) = 0x10000" "plic_claim 0x1000 (plic_system inp) = 0xC201004"
  "plic_enable 0x1000 (plic_system inp) = 0xC002080" "plic_priority 0x1000 (plic_system inp) = 0"
  by (simp_all add: plic_system_def plic_fields get64_def plic_memory_def mem_simps boot_kernel_def)

lemma plic_system_layout: "plic_layout 0x1000 (plic_system inp)"
  by (simp add: plic_layout_def extent_disjoint_iff)

theorem plic_enable_int_registers_witness:
  "case plic_driver_enable_int 0x1000 10 0xFF 0x30000 (plic_system (\<lambda>_. 1)) of Inl h \<Rightarrow> False
   | Inr s' \<Rightarrow> io_events s' = [Read32 0xC002080 1, Write32 0xC002080 0x401, Write32 40 7]"
  using plic_enable_int_registers [OF plic_system_layout [of "\<lambda>_. 1"], where irq = 10 and prio = "0xFF" and drv = "0x30000"]
  by (simp add: input_def set_bit_eq_or split: sum.splits)

theorem plic_interrupt_claims_and_completes_witness:
  "\<exists>s'. plic_driver_handle_interrupt 0x1000 (plic_system (\<lambda>_. 5)) = Inr (ec EC_PLIC_UNREGISTERED_INTERRUPT, s') \<and>
     io_events s' = [Read32 0xC201004 5, Write32 0xC201004 5]"
proof -
  have i: "input 0 (plic_system (\<lambda>_. 5)) = (5 :: u32)" by (simp add: input_def)
  have d: "plic_driver_of 0x1000 5 (plic_system (\<lambda>_. 5)) = 0"
    by (simp add: plic_driver_of_def get64_def plic_memory_def mem_simps)
  show ?thesis
    using plic_interrupt_claims_and_completes [of "0x1000" "plic_system (\<lambda>_. 5)"]
    by (auto simp: i d plic_interrupt_code_def plic_interrupt_trace_def Let_def)
qed

theorem plic_registered_uart_is_served_witness:
  "\<exists>s1 s'. plic_driver_enable_int 0x1000 10 1 0x30000 (plic_system (\<lambda>n. [0, 0, 0, 10, 1, 0x41] ! n)) = Inr s1 \<and>
    plic_driver_handle_interrupt 0x1000 s1 = Inr (ec EC_SUCCESS, s') \<and>
    io_events s' = io_events s1 @ [Read32 0xC201004 10, Read8 0x10000005 1, Read8 0x10000000 0x41, Write8 0x10000000 0x41,
      Write32 0xC201004 10]"
proof -
  let ?s = "plic_system (\<lambda>n. [0, 0, 0, 10, 1, 0x41] ! n)"
  obtain s1 where s1: "plic_driver_enable_int 0x1000 10 1 0x30000 ?s = Inr s1"
    "s1 = (set64 (plic_driver_map 0x1000 ?s + 8 * ucast (10 :: u32)) 0x30000 ?s)\<lparr>io_events := io_events ?s @
      [Read32 (plic_enable 0x1000 ?s) (input 0 ?s), Write32 (plic_enable 0x1000 ?s) (input 0 ?s OR push_bit (unat (10 :: u32)) 1),
       Write32 (plic_priority 0x1000 ?s + 4 * ucast (10 :: u32)) (ucast ((1 :: u8) AND 7))]\<rparr>"
    using plic_driver_enable_int_correct [OF plic_system_layout, of 10] by auto
  have f: "fn_uart_handle_interrupt (set64 a v t) = fn_uart_handle_interrupt t" for a v and t :: system by (simp add: set64_def)
  have k: "kmem s1 = store64 plic_memory 0x10050 0x30000" "io_inputs s1 = (\<lambda>n. [0, 0, 0, 10, 1, 0x41] ! n)" "length (io_events s1) = 3"
    "fn_uart_handle_interrupt s1 = 0xFFFFFFFF80020000"
    by (simp_all add: s1(2) f)
  have i: "input 0 s1 = (10 :: u32)" "input 1 s1 = (1 :: u8)" "input 2 s1 = (0x41 :: u8)"
    by (simp_all add: input_def k)
  have r: "uart_ready 0x30000 s1"
    by (simp add: uart_ready_def uart_handler_def plic_fields get32_def get64_def k plic_memory_def mem_simps)
  have b: "uart_base (driver_d 0x30000) s1 = 0x10000000"
    by (simp add: uart_base_def driver_d_def get64_def k plic_memory_def mem_simps)
  show ?thesis
    using plic_registered_uart_is_served [OF plic_system_layout _ _ s1(1) r i(1)] s1(1)
    by (auto simp: i b uart_interrupt_trace_def echo_def simp del: One_nat_def)
qed

theorem plic_driver_init_unregisters_witness:
  "\<exists>s s' :: system. plic_driver_init 0xFFFFFFC090000000 0xC000000 0 s = Inr s' \<and>
     plic_driver_of 0xFFFFFFC090000000 10 s' = 0 \<and> io_events s' = io_events s @ [Write32 0xC201000 0]"
proof -
  let ?d = "0xFFFFFFC090000000 :: addr"
  obtain k :: kernel where k: "kalloc_ready (8 * 1024) 12 k [(?d, 48)]" "kvspace_inv k [(?d, 48)]" "hhdm_offset k = 0xFFFFFFC000000000"
    by (rule ready_beside [of "[(?d, 48)]" "8 * 1024"]) (simp_all add: apart_pair extent_disjoint_iff ALIGN_UP_def)
  let ?s = "idle_system k"
  have inv: "kvspace_inv ?s [(?d, 48)]" using k(2) by simp
  have "\<exists>s'. plic_driver_init ?d 0xC000000 0 ?s = Inr s'"
    by (rule plic_driver_init_runs [of _ "[(?d, 48)]"]) (use k(1) in \<open>simp_all add: kalloc_ready_def\<close>)
  then obtain s' where s': "plic_driver_init ?d 0xC000000 0 ?s = Inr s'" ..
  show ?thesis
    using plic_driver_init_unregisters [OF inv _ _ _ s'] s' k(3)
    by (intro exI [of _ ?s] exI [of _ s']) (auto simp: CONTEXT_def image_subset_iff)
qed

end
