(* ===== verification/Trap.thy ===== *)
theory Trap
  imports Plic
begin

text \<open>
  The trap handlers of \<^verbatim>\<open>trap.c\<close>.  A \<^verbatim>\<open>struct trap_frame\<close> holds the integer registers at offset 0,
  the floating-point registers at 256, \<^verbatim>\<open>satp\<close> at 512, the trap stack at 520, the hart at 528 and
  the stack's allocation at 536.
\<close>

datatype interrupt_type = IPT_TYPE_SOFTWARE | IPT_TYPE_TIMER | IPT_TYPE_EXTERNAL | IPT_TYPE_OVERFLOW

fun ipt :: "interrupt_type \<Rightarrow> u64" where
  "ipt IPT_TYPE_SOFTWARE = 1"
| "ipt IPT_TYPE_TIMER = 5"
| "ipt IPT_TYPE_EXTERNAL = 9"
| "ipt IPT_TYPE_OVERFLOW = 13"

datatype exception_type =
    EXC_TYPE_INSTRUCTION_ADDRESS_MISALIGNED | EXC_TYPE_INSTRUCTION_ACCESS_FAULT | EXC_TYPE_ILLEGAL_INSTRUCTION
  | EXC_TYPE_BREAKPOINT | EXC_TYPE_LOAD_ADDRESS_MISALIGNED | EXC_TYPE_LOAD_ACCESS_FAULT
  | EXC_TYPE_STORE_AMO_ADDRESS_MISALIGNED | EXC_TYPE_STORE_AMO_ACCESS_FAULT | EXC_TYPE_ENV_CALL_FROM_U_MODE
  | EXC_TYPE_ENV_CALL_FROM_S_MODE | EXC_TYPE_INSTRUCTION_PAGE_FAULT | EXC_TYPE_LOAD_PAGE_FAULT
  | EXC_TYPE_STORE_AMO_PAGE_FAULT | EXC_TYPE_SOFTWARE_CHECK | EXC_TYPE_HARDWARE_ERROR

fun exc :: "exception_type \<Rightarrow> u64" where
  "exc EXC_TYPE_INSTRUCTION_ADDRESS_MISALIGNED = 0"
| "exc EXC_TYPE_INSTRUCTION_ACCESS_FAULT = 1"
| "exc EXC_TYPE_ILLEGAL_INSTRUCTION = 2"
| "exc EXC_TYPE_BREAKPOINT = 3"
| "exc EXC_TYPE_LOAD_ADDRESS_MISALIGNED = 4"
| "exc EXC_TYPE_LOAD_ACCESS_FAULT = 5"
| "exc EXC_TYPE_STORE_AMO_ADDRESS_MISALIGNED = 6"
| "exc EXC_TYPE_STORE_AMO_ACCESS_FAULT = 7"
| "exc EXC_TYPE_ENV_CALL_FROM_U_MODE = 8"
| "exc EXC_TYPE_ENV_CALL_FROM_S_MODE = 9"
| "exc EXC_TYPE_INSTRUCTION_PAGE_FAULT = 12"
| "exc EXC_TYPE_LOAD_PAGE_FAULT = 13"
| "exc EXC_TYPE_STORE_AMO_PAGE_FAULT = 15"
| "exc EXC_TYPE_SOFTWARE_CHECK = 18"
| "exc EXC_TYPE_HARDWARE_ERROR = 19"

definition frame_hartid :: "addr \<Rightarrow> 'a machine_scheme \<Rightarrow> u64" where
  "frame_hartid frame s = get64 (frame + 528) s"

definition kernel_c_interrupt_handler ::
    "u64 \<Rightarrow> u64 \<Rightarrow> u64 \<Rightarrow> u64 \<Rightarrow> addr \<Rightarrow> 'a system_scheme \<Rightarrow> halt + u64 \<times> 'a system_scheme" where
  "kernel_c_interrupt_handler sepc stval scause sstatus frame s =
     (let cause_code = scause AND 0xFFF; next_pc = sepc in
      if cause_code = ipt IPT_TYPE_SOFTWARE then
        deref frame (panic (SV ''Supervisor software interrupt on CPU:{X}'') [frame_hartid frame s] s)
      else if cause_code = ipt IPT_TYPE_TIMER then
        let (t, s) = riscv_time s in Inr (next_pc, riscv_stimecmp_write (t + 10000000) s)
      else if cause_code = ipt IPT_TYPE_EXTERNAL then
        deref frame (
        and_then (plic_driver_handle_interrupt (devices_get_plic_driver (ucast (frame_hartid frame s)) s) s) (\<lambda>(err, s).
          if error_top err = ec EC_SUCCESS \<or> error_top err = ec EC_PLIC_NO_INTERRUPT then Inr (next_pc, s)
          else if error_top err = ec EC_PLIC_UNREGISTERED_DRIVER then
            and_then (kprintln (SV ''PLIC interrupt for unregistered driver on CPU:{X}'') [frame_hartid frame s] s) (\<lambda>s.
              Inr (next_pc, s))
          else if error_top err = ec EC_PLIC_UNREGISTERED_INTERRUPT then
            and_then (kprintln (SV ''PLIC interrupt for unregistered interrupt on CPU:{X}'') [frame_hartid frame s] s) (\<lambda>s.
              Inr (next_pc, s))
          else Inl Unreachable))
      else if cause_code = ipt IPT_TYPE_OVERFLOW then
        deref frame (panic (SV ''Supervisor overflow interrupt on CPU:{X}'') [frame_hartid frame s] s)
      else deref frame (panic (SV ''Unknown interrupt type {X} on CPU:{X}'') [cause_code, frame_hartid frame s] s))"

definition kernel_c_exception_handler ::
    "u64 \<Rightarrow> u64 \<Rightarrow> u64 \<Rightarrow> u64 \<Rightarrow> addr \<Rightarrow> 'a system_scheme \<Rightarrow> halt + u64 \<times> 'a system_scheme" where
  "kernel_c_exception_handler sepc stval scause sstatus frame s =
     and_then (kprintln (SV ''In exception handler! sepc: {X}, stval: {X}, scause: {X}, sstatus: {X}'')
       [sepc, stval, scause, sstatus] s) (\<lambda>s.
     let cause_code = scause AND 0xFFF in
     if cause_code = exc EXC_TYPE_ILLEGAL_INSTRUCTION then
       deref frame (panic (SV ''Illegal instruction on CPU:{X} -> pc: {X}, tval: {X}'') [frame_hartid frame s, sepc, stval] s)
     else if cause_code = exc EXC_TYPE_ENV_CALL_FROM_U_MODE then
       deref frame (and_then (panic (SV ''E-call from U-mode on CPU:{X} -> pc: {X}'') [frame_hartid frame s, sepc] s)
         (\<lambda>s. Inr (sepc + 4, s)))
     else if cause_code = exc EXC_TYPE_ENV_CALL_FROM_S_MODE then
       deref frame (and_then (panic (SV ''E-call from S-mode on CPU:{X} -> pc: {X}'') [frame_hartid frame s, sepc] s)
         (\<lambda>s. Inr (sepc + 4, s)))
     else if cause_code = exc EXC_TYPE_INSTRUCTION_PAGE_FAULT then
       deref frame (panic (SV ''Instruction page fault on CPU:{X} -> pc: {X}, tval: {X}'') [frame_hartid frame s, sepc, stval] s)
     else if cause_code = exc EXC_TYPE_LOAD_PAGE_FAULT then
       deref frame (panic (SV ''Load page fault on CPU:{X} -> pc: {X}, tval: {X}'') [frame_hartid frame s, sepc, stval] s)
     else if cause_code = exc EXC_TYPE_STORE_AMO_PAGE_FAULT then
       deref frame (panic (SV ''Store/AMO page fault on CPU:{X} -> pc: {X}, tval: {X}'') [frame_hartid frame s, sepc, stval] s)
     else deref frame (panic (SV ''Exception type {X} on CPU:{X} -> pc: {X}, tval: {X}'')
       [cause_code, frame_hartid frame s, sepc, stval] s))"

definition kernel_c_trap_handler ::
    "u64 \<Rightarrow> u64 \<Rightarrow> u64 \<Rightarrow> u64 \<Rightarrow> addr \<Rightarrow> 'a system_scheme \<Rightarrow> halt + u64 \<times> 'a system_scheme" where
  "kernel_c_trap_handler sepc stval scause sstatus frame s =
     (if drop_bit 63 scause AND 1 = 1 then kernel_c_interrupt_handler sepc stval scause sstatus frame s
      else kernel_c_exception_handler sepc stval scause sstatus frame s)"

section \<open>What returns, and what it did\<close>

lemma exceptions_never_return: "kernel_c_exception_handler sepc stval scause sstatus frame s \<noteq> Inr r"
  by (simp add: kernel_c_exception_handler_def Let_def and_then_eq_Inr deref_eq_Inr split: if_splits)

lemma plic_driver_handle_interrupt_codes:
  assumes "plic_driver_handle_interrupt plic s = Inr (err, s')"
  shows "err \<in> ec ` {EC_SUCCESS, EC_PLIC_NO_INTERRUPT, EC_PLIC_UNREGISTERED_DRIVER, EC_PLIC_UNREGISTERED_INTERRUPT}"
  using assms
  by (auto simp: plic_driver_handle_interrupt_def run_eq_Inr Let_def split: prod.splits if_splits simp del: ec.simps)

text \<open>
  C34: the trap handler returns only for timer and external interrupts, always to the interrupted
  instruction; every exception and every other interrupt ends in the handler.
\<close>

theorem trap_returns_only_from_interrupts:
  assumes "kernel_c_trap_handler sepc stval scause sstatus frame s = Inr (pc, s')"
  shows "pc = sepc \<and> bit scause 63 \<and> scause AND 0xFFF \<in> {ipt IPT_TYPE_TIMER, ipt IPT_TYPE_EXTERNAL}"
proof -
  have b: "drop_bit 63 scause AND 1 = 1" and i: "kernel_c_interrupt_handler sepc stval scause sstatus frame s = Inr (pc, s')"
    using assms by (auto simp: kernel_c_trap_handler_def exceptions_never_return split: if_splits)
  have "bit scause 63" using b by (metis and_one_eq bit_iff_odd_drop_bit odd_iff_mod_2_eq_one)
  then show ?thesis using i
    by (auto simp: kernel_c_interrupt_handler_def Let_def run_eq_Inr split: if_splits prod.splits simp del: ec.simps)
qed

lemma timer_interrupt_correct:
  assumes "bit scause 63" and "scause AND 0xFFF = ipt IPT_TYPE_TIMER"
  shows "kernel_c_trap_handler sepc stval scause sstatus frame s =
    Inr (sepc, s\<lparr>io_events := io_events s @ [Csr_read Time (input 0 s), Csr_write Stimecmp (input 0 s + 10000000)]\<rparr>)"
proof -
  have "drop_bit 63 scause AND 1 = 1" using assms(1) by (simp add: and_one_eq bit_iff_odd_drop_bit odd_iff_mod_2_eq_one)
  then show ?thesis using assms(2)
    by (simp add: kernel_c_trap_handler_def kernel_c_interrupt_handler_def csr_defs io_defs next_input_def input_def record_io_def)
qed

text \<open>
  A timer interrupt reads the time once and rearms the comparator ten million ticks later;
  nothing else changes.
\<close>

theorem trap_timer_rearms:
  assumes "bit scause 63" and "scause AND 0xFFF = ipt IPT_TYPE_TIMER"
  shows "kernel_c_trap_handler sepc stval scause sstatus frame s =
    Inr (sepc, s\<lparr>io_events := io_events s @ [Csr_read Time (input 0 s), Csr_write Stimecmp (input 0 s + 10000000)]\<rparr>)"
  using assms by (rule timer_interrupt_correct)

theorem trap_returns_only_from_interrupts_witness:
  "\<exists>s'. kernel_c_trap_handler 0x80200000 0 0x8000000000000005 0 0 (plic_system (\<lambda>_. 7)) = Inr (0x80200000, s') \<and>
    (0x80200000 :: u64) = 0x80200000 \<and> (0x8000000000000005 :: u64) AND 0xFFF \<in> {ipt IPT_TYPE_TIMER, ipt IPT_TYPE_EXTERNAL}"
proof -
  obtain s' where s': "kernel_c_trap_handler 0x80200000 0 0x8000000000000005 0 0 (plic_system (\<lambda>_. 7)) = Inr (0x80200000, s')"
    by (simp add: kernel_c_trap_handler_def kernel_c_interrupt_handler_def csr_defs io_defs)
  from trap_returns_only_from_interrupts [OF s'] s' show ?thesis by blast
qed

theorem trap_timer_rearms_witness:
  "\<exists>s'. kernel_c_trap_handler 0x80200000 0 0x8000000000000005 0 0 (plic_system (\<lambda>_. 7)) = Inr (0x80200000, s') \<and>
    io_events s' = [Csr_read Time 7, Csr_write Stimecmp 10000007]"
  using trap_timer_rearms [of "0x8000000000000005" "0x80200000" 0 0 0 "plic_system (\<lambda>_. 7)"]
  by (simp add: input_def bit_numeral_rec bit_iff_odd)

text \<open>The console's part of an external interrupt.\<close>

fun external_message :: "ErrorCode \<Rightarrow> u64 \<Rightarrow> u8 list" where
  "external_message EC_PLIC_UNREGISTERED_DRIVER h =
     SV ''PLIC interrupt for unregistered driver on CPU:0x'' @ int_digits 16 h @ [10]"
| "external_message EC_PLIC_UNREGISTERED_INTERRUPT h =
     SV ''PLIC interrupt for unregistered interrupt on CPU:0x'' @ int_digits 16 h @ [10]"
| "external_message _ h = []"

lemma external_interrupt_correct:
  assumes "bit scause 63" and "scause AND 0xFFF = ipt IPT_TYPE_EXTERNAL" and "frame \<noteq> 0"
    and "devices_get_plic_driver (ucast (frame_hartid frame s)) s = plic" and "plic \<noteq> 0" and "(input 0 s :: u32) < 1024"
    and "plic_driver_of plic (input 0 s) s \<noteq> 0 \<Longrightarrow>
      driver_type (plic_driver_of plic (input 0 s) s) s = device_type_value DEVICE_TYPE_UART \<Longrightarrow> uart_ready (plic_driver_of plic (input 0 s) s) s"
    and "put s = Some f" and "print_buf_ok s"
  shows "\<exists>s'. kernel_c_trap_handler sepc stval scause sstatus frame s = Inr (sepc, s') \<and> kmem s' = kmem s \<and>
    io_events s' = io_events s @ plic_interrupt_trace plic s @
      map (Write8 (uart_base_address s)) (external_message (plic_interrupt_code plic s) (frame_hartid frame s))"
proof -
  define code where "code = plic_interrupt_code plic s"
  obtain s1 where s1: "plic_driver_handle_interrupt plic s = Inr (ec code, s1)" "appends (plic_interrupt_trace plic s) s s1"
    using plic_driver_handle_interrupt_correct [OF assms(5-7)] by (auto simp: code_def)
  have f: "kmem s1 = kmem s" "io_events s1 = io_events s @ plic_interrupt_trace plic s" "put s1 = Some f" "print_buf_ok s1"
    "uart_base_address s1 = uart_base_address s" "frame_hartid frame s1 = frame_hartid frame s"
    using s1(2) assms(8,9) by (simp_all add: appends_def print_buf_ok_def frame_hartid_def get64_def)
  have b: "drop_bit 63 scause AND 1 = 1" using assms(1) by (simp add: and_one_eq bit_iff_odd_drop_bit odd_iff_mod_2_eq_one)
  let ?h = "frame_hartid frame s"
  have k: "\<exists>s'. kprintln (SV ''PLIC interrupt for unregistered driver on CPU:{X}'') [?h] s1 = Inr s' \<and>
      sends (external_message EC_PLIC_UNREGISTERED_DRIVER ?h) s1 s'"
    "\<exists>s'. kprintln (SV ''PLIC interrupt for unregistered interrupt on CPU:{X}'') [?h] s1 = Inr s' \<and>
      sends (external_message EC_PLIC_UNREGISTERED_INTERRUPT ?h) s1 s'"
    using kprintln_sends [OF f(3,4), of "SV ''PLIC interrupt for unregistered driver on CPU:{X}''" "[?h]"]
      kprintln_sends [OF f(3,4), of "SV ''PLIC interrupt for unregistered interrupt on CPU:{X}''" "[?h]"]
    by (simp_all add: SV_def directive_def int_prefix_def)
  have s: "sends t s1 s' \<Longrightarrow> kmem s' = kmem s \<and> io_events s' = io_events s @ plic_interrupt_trace plic s @
      map (Write8 (uart_base_address s)) t" for t s'
    using f by (auto simp: sends_def emit_def)
  have c: "code \<in> {EC_SUCCESS, EC_PLIC_NO_INTERRUPT, EC_PLIC_UNREGISTERED_DRIVER, EC_PLIC_UNREGISTERED_INTERRUPT}"
    by (simp add: code_def plic_interrupt_code_def Let_def)
  have n: "scause AND 0xFFF = 9" using assms(2) by simp
  have "kernel_c_trap_handler sepc stval scause sstatus frame s =
    (if code = EC_SUCCESS \<or> code = EC_PLIC_NO_INTERRUPT then Inr (sepc, s1)
     else if code = EC_PLIC_UNREGISTERED_DRIVER then
       and_then (kprintln (SV ''PLIC interrupt for unregistered driver on CPU:{X}'') [?h] s1) (\<lambda>s. Inr (sepc, s))
     else and_then (kprintln (SV ''PLIC interrupt for unregistered interrupt on CPU:{X}'') [?h] s1) (\<lambda>s. Inr (sepc, s)))"
    using assms(3) c
    by (auto simp: kernel_c_trap_handler_def kernel_c_interrupt_handler_def b n assms(4) s1(1) f(6) error_top_single ec_inject
        simp del: ec.simps)
  then show ?thesis using c k s f(1,2) unfolding code_def [symmetric] by (auto simp del: external_message.simps(1,2))
qed

text \<open>
  C31: an external interrupt on a hart that has a controller, with a console: the controller's
  interrupt is handled as its driver does, what the driver could not route is reported with the
  hart's number, and execution resumes where it was; memory is left alone.
\<close>

theorem trap_external_interrupt:
  assumes "bit scause 63" and "scause AND 0xFFF = ipt IPT_TYPE_EXTERNAL" and "frame \<noteq> 0"
    and "devices_get_plic_driver (ucast (frame_hartid frame s)) s = plic" and "plic \<noteq> 0" and "(input 0 s :: u32) < 1024"
    and "plic_driver_of plic (input 0 s) s \<noteq> 0 \<Longrightarrow>
      driver_type (plic_driver_of plic (input 0 s) s) s = device_type_value DEVICE_TYPE_UART \<Longrightarrow> uart_ready (plic_driver_of plic (input 0 s) s) s"
    and "put s = Some f" and "print_buf_ok s"
  shows "\<exists>s'. kernel_c_trap_handler sepc stval scause sstatus frame s = Inr (sepc, s') \<and> kmem s' = kmem s \<and>
    io_events s' = io_events s @ plic_interrupt_trace plic s @
      map (Write8 (uart_base_address s)) (external_message (plic_interrupt_code plic s) (frame_hartid frame s))"
  by (rule external_interrupt_correct [OF assms])

text \<open>The controller of \<open>plic_system\<close> as hart 0's, with a console.\<close>

definition trap_system :: "(nat \<Rightarrow> u64) \<Rightarrow> system" where
  "trap_system inp = (plic_system inp)\<lparr>kmem := store64 plic_memory 0x50000 0x1000, hart_plic_map := 0x50000,
     map_capacity := 512, put := Some Uart_put_char, print_buf := replicate 67 0\<rparr>"

lemma trap_system_fields [simp]:
  "frame_hartid 0x60000 (trap_system inp) = 0" "devices_get_plic_driver 0 (trap_system inp) = 0x1000"
  "plic_claim 0x1000 (trap_system inp) = 0xC201004" "plic_driver_map 0x1000 (trap_system inp) = 0x10000"
  "io_events (trap_system inp) = []" "io_inputs (trap_system inp) = inp" "put (trap_system inp) = Some Uart_put_char"
  "print_buf_ok (trap_system inp)"
  by (simp_all add: trap_system_def plic_system_def frame_hartid_def devices_get_plic_driver_def plic_fields get64_def
      plic_memory_def mem_simps print_buf_ok_def idle_system_def kernel.extend_def boot_kernel_def)

theorem trap_external_interrupt_witness:
  "\<exists>s'. kernel_c_trap_handler 0x80200000 0 0x8000000000000009 0 0x60000 (trap_system (\<lambda>_. 5)) = Inr (0x80200000, s') \<and>
    take 3 (io_events s') = [Read32 0xC201004 5, Write32 0xC201004 5, Write8 (uart_base_address (trap_system (\<lambda>_. 5))) 0x50]"
proof -
  let ?s = "trap_system (\<lambda>_. 5)"
  have i: "input 0 ?s = (5 :: u32)" by (simp add: input_def)
  have d: "plic_driver_of 0x1000 5 ?s = 0"
    by (simp add: plic_driver_of_def) (simp add: trap_system_def get64_def plic_memory_def mem_simps)
  have "\<exists>s'. kernel_c_trap_handler 0x80200000 0 0x8000000000000009 0 0x60000 ?s = Inr (0x80200000, s') \<and> kmem s' = kmem ?s \<and>
    io_events s' = io_events ?s @ plic_interrupt_trace 0x1000 ?s @
      map (Write8 (uart_base_address ?s)) (external_message (plic_interrupt_code 0x1000 ?s) (frame_hartid 0x60000 ?s))"
    by (rule trap_external_interrupt) (simp_all add: i d bit_iff_odd)
  then show ?thesis
    by (auto simp: i d plic_interrupt_trace_def plic_interrupt_code_def Let_def SV_def)
qed

end
