(* ===== verification/Trap_Entry.thy ===== *)
theory Trap_Entry
  imports Trap
begin

text \<open>
  The assembly entry of a trap, \<^verbatim>\<open>asm/trap.s\<close>, on the state it works with: the integer registers,
  the control registers and the memory.  The C handler it calls is any function of that state; what
  the entry code relies on is that the C code keeps the saved registers of the frame and
  \<^verbatim>\<open>sscratch\<close>.
\<close>

record cpu =
  xregs :: "nat \<Rightarrow> u64"
  csrs :: "csr \<Rightarrow> u64"
  cmem :: mem
  pc :: u64

definition xget :: "nat \<Rightarrow> cpu \<Rightarrow> u64" where
  "xget r c = (if r = 0 then 0 else xregs c r)"

definition xset :: "nat \<Rightarrow> u64 \<Rightarrow> cpu \<Rightarrow> cpu" where
  "xset r v c = (if r = 0 then c else c\<lparr>xregs := (xregs c)(r := v)\<rparr>)"

datatype instr =
    Sd nat u64 nat
  | Ld nat u64 nat
  | Csrrw nat csr nat
  | Csrr nat csr
  | Csrw csr nat
  | Mv nat nat
  | Call
  | Sret

fun exec :: "(cpu \<Rightarrow> cpu) \<Rightarrow> instr \<Rightarrow> cpu \<Rightarrow> cpu" where
  "exec f (Sd rs off rb) c = c\<lparr>cmem := store64 (cmem c) (xget rb c + off) (xget rs c)\<rparr>"
| "exec f (Ld rd off rb) c = xset rd (load64 (cmem c) (xget rb c + off)) c"
| "exec f (Csrrw rd r rs) c = xset rd (csrs c r) (c\<lparr>csrs := (csrs c)(r := xget rs c)\<rparr>)"
| "exec f (Csrr rd r) c = xset rd (csrs c r) c"
| "exec f (Csrw r rs) c = c\<lparr>csrs := (csrs c)(r := xget rs c)\<rparr>"
| "exec f (Mv rd rs) c = xset rd (xget rs c) c"
| "exec f Call c = f c"
| "exec f Sret c = c\<lparr>pc := csrs c Sepc\<rparr>"

fun exec_all :: "(cpu \<Rightarrow> cpu) \<Rightarrow> instr list \<Rightarrow> cpu \<Rightarrow> cpu" where
  "exec_all f [] c = c"
| "exec_all f (i # is) c = exec_all f is (exec f i c)"

lemma exec_all_append: "exec_all f (is @ js) c = exec_all f js (exec_all f is c)"
  by (induction "is" arbitrary: c) simp_all

section \<open>The code\<close>

text \<open>\<^verbatim>\<open>t5\<close> and \<^verbatim>\<open>t6\<close> are \<open>x30\<close> and \<open>x31\<close>, \<^verbatim>\<open>a0\<close> to \<^verbatim>\<open>a4\<close> are \<open>x10\<close> to \<open>x14\<close>, \<^verbatim>\<open>sp\<close> is \<open>x2\<close>.\<close>

definition save_registers :: "instr list" where
  "save_registers = map (\<lambda>i. Sd i (8 * of_nat i) 31) [1..<31]"

definition load_registers :: "instr list" where
  "load_registers = map (\<lambda>i. Ld i (8 * of_nat i) 31) [1..<32]"

definition trap_enter :: "instr list" where
  "trap_enter = Csrrw 31 Sscratch 31 # save_registers @
     [Mv 30 31, Csrr 31 Sscratch, Sd 31 248 30, Csrw Sscratch 30,
      Csrr 10 Sepc, Csrr 11 Stval, Csrr 12 Scause, Csrr 13 Sstatus, Mv 14 30, Ld 2 520 14]"

definition trap_leave :: "instr list" where
  "trap_leave = [Csrw Sepc 10, Csrr 31 Sscratch] @ load_registers @ [Sret]"

definition kernel_asm_trap_handler :: "instr list" where
  "kernel_asm_trap_handler = trap_enter @ [Call] @ trap_leave"

section \<open>Saving and restoring\<close>

lemma slot_apart:
  fixes b :: addr
  assumes "i < 32" and "j < 32" and "i \<noteq> j"
  shows "load64 (store64 m (b + 8 * of_nat i) v) (b + 8 * of_nat j) = load64 m (b + 8 * of_nat j)"
proof (rule load64_store64_other)
  have u: "unat (8 * of_nat i :: u64) = 8 * i" "unat (8 * of_nat j :: u64) = 8 * j"
    using assms(1,2) by (simp_all add: unat_word_ariths unsigned_of_nat take_bit_nat_eq_self)
  show "8 \<le> unat (b + 8 * of_nat j - (b + 8 * of_nat i))" "8 \<le> unat (b + 8 * of_nat i - (b + 8 * of_nat j))"
    using assms u unat_diff_cases [of "8 * of_nat j" "8 * of_nat i"] unat_diff_cases [of "8 * of_nat i" "8 * of_nat j"]
    by (auto split: if_splits)
qed

definition saved :: "mem \<Rightarrow> addr \<Rightarrow> nat \<Rightarrow> u64" where
  "saved m frame i = load64 m (frame + 8 * of_nat i)"

lemma exec_saves:
  assumes "set is \<subseteq> {1..<31}" and "distinct is" and "c' = exec_all f (map (\<lambda>i. Sd i (8 * of_nat i) 31) is) c"
  shows "xregs c' = xregs c \<and> csrs c' = csrs c \<and> pc c' = pc c \<and>
    agree_on (- extent (xregs c 31) 248) (cmem c') (cmem c) \<and>
    (\<forall>i < 32. saved (cmem c') (xregs c 31) i = (if i \<in> set is then xregs c i else saved (cmem c) (xregs c 31) i))"
  using assms
proof (induction "is" arbitrary: c)
  case Nil
  then show ?case by simp
next
  case (Cons k ks)
  let ?c = "c\<lparr>cmem := store64 (cmem c) (xregs c 31 + 8 * of_nat k) (xregs c k)\<rparr>"
  have k: "1 \<le> k" "k < 31" "k \<notin> set ks" using Cons.prems by auto
  have "c' = exec_all f (map (\<lambda>i. Sd i (8 * of_nat i) 31) ks) ?c" using Cons.prems(3) k by (simp add: xget_def)
  then have IH: "xregs c' = xregs c \<and> csrs c' = csrs c \<and> pc c' = pc c \<and>
    agree_on (- extent (xregs c 31) 248) (cmem c') (cmem ?c) \<and>
    (\<forall>i < 32. saved (cmem c') (xregs c 31) i = (if i \<in> set ks then xregs c i else saved (cmem ?c) (xregs c 31) i))"
    using Cons.IH [of ?c] Cons.prems by simp
  have u: "unat (8 * of_nat k :: u64) = 8 * k" using k by (simp add: unat_word_ariths unsigned_of_nat take_bit_nat_eq_self)
  have "extent (xregs c 31 + 8 * of_nat k) 8 \<subseteq> extent (xregs c 31) 248" by (rule extent_field) (use u k in simp_all)
  then have "agree_on (- extent (xregs c 31) 248) (cmem ?c) (cmem c)" by (auto intro!: store64_agree)
  moreover have "saved (cmem ?c) (xregs c 31) i = (if i = k then xregs c k else saved (cmem c) (xregs c 31) i)" if "i < 32" for i
    using slot_apart [of k i] that k by (simp add: saved_def)
  ultimately show ?case using IH k(3) by (auto intro: agree_on_trans)
qed

lemma exec_loads:
  assumes "set is \<subseteq> {1..<31}" and "c' = exec_all f (map (\<lambda>i. Ld i (8 * of_nat i) 31) is) c"
  shows "csrs c' = csrs c \<and> pc c' = pc c \<and> cmem c' = cmem c \<and>
    (\<forall>i. xregs c' i = (if i \<in> set is then saved (cmem c) (xregs c 31) i else xregs c i))"
  using assms
proof (induction "is" arbitrary: c)
  case Nil
  then show ?case by simp
next
  case (Cons k ks)
  let ?c = "c\<lparr>xregs := (xregs c)(k := saved (cmem c) (xregs c 31) k)\<rparr>"
  have k: "1 \<le> k" "k < 31" using Cons.prems by auto
  have "c' = exec_all f (map (\<lambda>i. Ld i (8 * of_nat i) 31) ks) ?c"
    using Cons.prems(2) k by (simp add: xget_def xset_def saved_def)
  then show ?case using Cons.IH [of ?c] Cons.prems(1) k by auto
qed

text \<open>The state in which the C handler is called.\<close>

definition at_call :: "cpu \<Rightarrow> cpu" where
  "at_call c = exec_all (\<lambda>c. c) trap_enter c"

lemma trap_enter_correct:
  fixes f :: "cpu \<Rightarrow> cpu"
  assumes "frame = csrs c Sscratch"
  defines "c1 \<equiv> exec_all f trap_enter c"
  shows "c1 = at_call c" and "csrs c1 Sscratch = frame"
    and "agree_on (- extent frame 256) (cmem c1) (cmem c)"
    and "\<And>i. 1 \<le> i \<Longrightarrow> i < 32 \<Longrightarrow> saved (cmem c1) frame i = xregs c i"
    and "xget 10 c1 = csrs c Sepc" "xget 11 c1 = csrs c Stval" "xget 12 c1 = csrs c Scause" "xget 13 c1 = csrs c Sstatus"
    and "xget 14 c1 = frame" and "xget 2 c1 = load64 (cmem c) (frame + 520)"
proof -
  let ?c0 = "c\<lparr>csrs := (csrs c)(Sscratch := xregs c 31), xregs := (xregs c)(31 := frame)\<rparr>"
  define saves where "saves g = exec_all g save_registers ?c0" for g
  have S: "xregs (saves g) = xregs ?c0 \<and> csrs (saves g) = csrs ?c0 \<and> pc (saves g) = pc ?c0 \<and>
    agree_on (- extent (xregs ?c0 31) 248) (cmem (saves g)) (cmem ?c0) \<and>
    (\<forall>i < 32. saved (cmem (saves g)) (xregs ?c0 31) i = (if i \<in> set [1..<31] then xregs ?c0 i else saved (cmem ?c0) (xregs ?c0 31) i))" for g
    by (rule exec_saves [where f = g]) (auto simp: saves_def save_registers_def)
  have same: "exec_all g (map (\<lambda>i. Sd i (8 * of_nat i) 31) is) d = exec_all h (map (\<lambda>i. Sd i (8 * of_nat i) 31) is) d" for g h "is" d
    by (induction "is" arbitrary: d) simp_all
  define c2 where "c2 = saves f"
  have c2i: "saves (\<lambda>c. c) = c2" by (simp add: c2_def saves_def save_registers_def same [where g = "\<lambda>c. c" and h = f])
  define m where "m = store64 (cmem c2) (frame + 248) (xregs c 31)"
  define c3 where "c3 = c2\<lparr>cmem := m, csrs := (csrs c)(Sscratch := frame),
     xregs := (xregs c2)(30 := frame, 31 := xregs c 31, 10 := csrs c Sepc, 11 := csrs c Stval, 12 := csrs c Scause,
       13 := csrs c Sstatus, 14 := frame, 2 := load64 m (frame + 520))\<rparr>"
  have S2: "xregs c2 = xregs ?c0" "csrs c2 = csrs ?c0" "agree_on (- extent frame 248) (cmem c2) (cmem c)"
    "\<And>i. 1 \<le> i \<Longrightarrow> i < 31 \<Longrightarrow> saved (cmem c2) frame i = xregs c i"
    using S [of f] by (auto simp: c2_def)
  have run: "exec_all g trap_enter c = c3" if "saves g = c2" for g
  proof -
    have "exec_all g trap_enter c = exec_all g [Mv 30 31, Csrr 31 Sscratch, Sd 31 248 30, Csrw Sscratch 30,
      Csrr 10 Sepc, Csrr 11 Stval, Csrr 12 Scause, Csrr 13 Sstatus, Mv 14 30, Ld 2 520 14] c2"
      unfolding trap_enter_def that [symmetric] saves_def by (simp add: exec_all_append xset_def xget_def assms(1))
    also have "\<dots> = c3" by (simp add: xset_def xget_def c3_def m_def S2(1,2) fun_upd_twist)
    finally show ?thesis .
  qed
  have c1: "c1 = c3" using run [of f] by (simp add: c1_def c2_def)
  show "c1 = at_call c" using c1 run [OF c2i] by (simp add: at_call_def)
  have "extent (frame + 248) 8 \<subseteq> extent frame 256" by (rule extent_field) simp_all
  then have ag: "agree_on (- extent frame 256) m (cmem c2)" unfolding m_def by (intro store64_agree) auto
  moreover have "agree_on (- extent frame 256) (cmem c2) (cmem c)"
    using S2(3) extent_mono [of 248 256 frame] by (auto intro: agree_on_mono)
  ultimately have ag2: "agree_on (- extent frame 256) m (cmem c)" by (rule agree_on_trans)
  then show "agree_on (- extent frame 256) (cmem c1) (cmem c)" by (simp add: c1 c3_def)
  show "csrs c1 Sscratch = frame" "xget 10 c1 = csrs c Sepc" "xget 11 c1 = csrs c Stval" "xget 12 c1 = csrs c Scause"
    "xget 13 c1 = csrs c Sstatus" "xget 14 c1 = frame"
    by (simp_all add: c1 c3_def xget_def)
  have "load64 m (frame + 520) = load64 (cmem c) (frame + 520)"
  proof (rule load64_agree [OF ag2])
    have "extent frame 256 \<inter> extent (frame + 520) 8 = {}" by (simp add: extent_disjoint_iff)
    then show "extent (frame + 520) 8 \<subseteq> - extent frame 256" by blast
  qed
  then show "xget 2 c1 = load64 (cmem c) (frame + 520)" by (simp add: c1 c3_def xget_def)
  show "saved (cmem c1) frame i = xregs c i" if "1 \<le> i" "i < 32" for i
  proof (cases "i = 31")
    case True
    then show ?thesis by (simp add: c1 c3_def m_def saved_def)
  next
    case False
    then have "saved m frame i = saved (cmem c2) frame i"
      using slot_apart [of 31 i "cmem c2" frame "xregs c 31"] that(2) by (simp add: saved_def m_def)
    then show ?thesis using S2(4) [of i] that False by (simp add: c1 c3_def)
  qed
qed

lemma trap_leave_correct:
  fixes f :: "cpu \<Rightarrow> cpu"
  assumes "csrs c2 Sscratch = frame"
  defines "c3 \<equiv> exec_all f trap_leave c2"
  shows "pc c3 = xget 10 c2" and "csrs c3 = (csrs c2)(Sepc := xget 10 c2)" and "cmem c3 = cmem c2"
    and "\<And>i. 1 \<le> i \<Longrightarrow> i < 32 \<Longrightarrow> xregs c3 i = saved (cmem c2) frame i"
proof -
  let ?d = "c2\<lparr>csrs := (csrs c2)(Sepc := xget 10 c2), xregs := (xregs c2)(31 := frame)\<rparr>"
  define d where "d = exec_all f (map (\<lambda>i. Ld i (8 * of_nat i) 31) [1..<31]) ?d"
  have D: "csrs d = csrs ?d \<and> pc d = pc ?d \<and> cmem d = cmem ?d \<and>
    (\<forall>i. xregs d i = (if i \<in> set [1..<31] then saved (cmem ?d) (xregs ?d 31) i else xregs ?d i))"
    by (rule exec_loads [where f = f]) (auto simp: d_def)
  have l: "load_registers = map (\<lambda>i. Ld i (8 * of_nat i) 31) [1..<31] @ [Ld 31 248 31]"
    by (simp add: load_registers_def numeral_eq_Suc)
  have "exec_all f [Csrw Sepc 10, Csrr 31 Sscratch] c2 = ?d" using assms(1) by (simp add: xset_def xget_def)
  then have "c3 = exec_all f [Ld 31 248 31, Sret] d"
    unfolding c3_def trap_leave_def l d_def by (simp only: exec_all_append append_Cons append_Nil flip: append_assoc)
      (simp only: exec_all_append exec_all.simps)
  moreover have "cmem d = cmem c2" "xregs d 31 = frame" "csrs d Sepc = xget 10 c2" using D by simp_all
  ultimately have c3: "c3 = d\<lparr>xregs := (xregs d)(31 := saved (cmem c2) frame 31), pc := xget 10 c2\<rparr>"
    by (simp add: xset_def xget_def saved_def)
  show "pc c3 = xget 10 c2" "csrs c3 = (csrs c2)(Sepc := xget 10 c2)" "cmem c3 = cmem c2" using D by (simp_all add: c3)
  show "xregs c3 i = saved (cmem c2) frame i" if "1 \<le> i" "i < 32" for i
    using D that by (auto simp: c3)
qed

section \<open>The interrupted program's registers\<close>

text \<open>What the C code keeps for the entry code: \<^verbatim>\<open>sscratch\<close> and the saved registers.\<close>

definition keeps_frame :: "(cpu \<Rightarrow> cpu) \<Rightarrow> addr \<Rightarrow> cpu \<Rightarrow> bool" where
  "keeps_frame f frame c1 \<longleftrightarrow> csrs (f c1) Sscratch = csrs c1 Sscratch \<and> agree_on (extent frame 256) (cmem (f c1)) (cmem c1)"

lemma kernel_asm_trap_handler_correct:
  fixes f :: "cpu \<Rightarrow> cpu"
  assumes fr: "frame = csrs c Sscratch" and keep: "keeps_frame f frame (at_call c)"
  shows "pc (exec_all f kernel_asm_trap_handler c) = xget 10 (f (at_call c))"
    and "i < 32 \<Longrightarrow> xget i (exec_all f kernel_asm_trap_handler c) = xget i c"
    and "csrs (exec_all f kernel_asm_trap_handler c) Sscratch = frame"
    and "cmem (exec_all f kernel_asm_trap_handler c) = cmem (f (at_call c))"
proof -
  let ?c2 = "f (at_call c)"
  note E = trap_enter_correct [OF fr, where f = f]
  have s2: "csrs ?c2 Sscratch = frame" using keep E(1,2) by (simp add: keeps_frame_def)
  note L = trap_leave_correct [OF s2, where f = f]
  have run: "exec_all f kernel_asm_trap_handler c = exec_all f trap_leave ?c2"
    by (simp add: kernel_asm_trap_handler_def exec_all_append E(1))
  show "pc (exec_all f kernel_asm_trap_handler c) = xget 10 ?c2"
    "csrs (exec_all f kernel_asm_trap_handler c) Sscratch = frame"
    "cmem (exec_all f kernel_asm_trap_handler c) = cmem ?c2"
    using L s2 by (simp_all add: run)
  show "xget i (exec_all f kernel_asm_trap_handler c) = xget i c" if "i < 32"
  proof (cases "i = 0")
    case False
    have "extent (frame + 8 * of_nat i) 8 \<subseteq> extent frame 256"
      by (rule extent_field) (use that in \<open>simp_all add: unat_word_ariths unsigned_of_nat take_bit_nat_eq_self\<close>)
    then have "saved (cmem ?c2) frame i = saved (cmem (at_call c)) frame i"
      unfolding saved_def using keep by (intro load64_agree [where A = "extent frame 256"]) (simp_all add: keeps_frame_def)
    then show ?thesis using False that L(4) [of i] E(4) [of i] by (simp add: run xget_def flip: E(1))
  qed (simp add: xget_def)
qed

text \<open>
  C32: the entry code calls the C handler with the trap's registers, the trap frame and the trap
  stack, whatever the C handler is; when that keeps the frame, all thirty-one integer registers of
  the interrupted program come back and execution resumes at the address the handler returned.
\<close>

theorem trap_entry_preserves_registers:
  assumes "keeps_frame f (csrs c Sscratch) (at_call c)"
  shows "map (\<lambda>i. xget i (at_call c)) [10, 11, 12, 13, 14, 2] =
      [csrs c Sepc, csrs c Stval, csrs c Scause, csrs c Sstatus, csrs c Sscratch, load64 (cmem c) (csrs c Sscratch + 520)] \<and>
    map (\<lambda>i. xget i (exec_all f kernel_asm_trap_handler c)) [0..<32] = map (\<lambda>i. xget i c) [0..<32] \<and>
    pc (exec_all f kernel_asm_trap_handler c) = xget 10 (f (at_call c)) \<and>
    csrs (exec_all f kernel_asm_trap_handler c) Sscratch = csrs c Sscratch"
proof -
  have "map (\<lambda>i. xget i (exec_all f kernel_asm_trap_handler c)) [0..<32] = map (\<lambda>i. xget i c) [0..<32]"
    using kernel_asm_trap_handler_correct(2) [OF refl assms] by simp
  then show ?thesis
    using trap_enter_correct(5-10) [OF refl, where f = f and c = c, unfolded trap_enter_correct(1) [OF refl]]
      kernel_asm_trap_handler_correct(1,3) [OF refl assms] by simp
qed

text \<open>
  The compiled C handler as the entry code sees it: its memory is the kernel's except for the stack
  it runs on, its result is in \<^verbatim>\<open>a0\<close>; nothing is known of the other registers.
\<close>

definition compiled_trap_handler :: "(cpu \<Rightarrow> cpu) \<Rightarrow> addr set \<Rightarrow> 'a system_scheme \<Rightarrow> cpu \<Rightarrow> bool" where
  "compiled_trap_handler f stack s c \<longleftrightarrow>
     (case kernel_c_trap_handler (xget 10 c) (xget 11 c) (xget 12 c) (xget 13 c) (xget 14 c) (s\<lparr>kmem := cmem c\<rparr>) of
        Inl h \<Rightarrow> False
      | Inr (r, s') \<Rightarrow> xget 10 (f c) = r \<and> agree_on (- stack) (cmem (f c)) (kmem s') \<and> csrs (f c) Sscratch = csrs c Sscratch)"

text \<open>
  C33: a timer interrupt is invisible to the code it interrupts: with a compiled handler that writes
  only its stack, every integer register and all memory but the trap frame's register area and
  that stack are as they were, and execution resumes at the interrupted instruction.
\<close>

theorem timer_interrupt_transparent:
  assumes "bit (csrs c Scause) 63" and "csrs c Scause AND 0xFFF = ipt IPT_TYPE_TIMER"
    and "compiled_trap_handler f stack s (at_call c)" and "stack \<inter> extent (csrs c Sscratch) 256 = {}"
  shows "map (\<lambda>i. xget i (exec_all f kernel_asm_trap_handler c)) [0..<32] = map (\<lambda>i. xget i c) [0..<32] \<and>
    pc (exec_all f kernel_asm_trap_handler c) = csrs c Sepc \<and>
    agree_on (- (stack \<union> extent (csrs c Sscratch) 256)) (cmem (exec_all f kernel_asm_trap_handler c)) (cmem c)"
proof -
  let ?frame = "csrs c Sscratch" and ?c1 = "at_call c"
  note E = trap_enter_correct [OF refl, where f = f and c = c, unfolded trap_enter_correct(1) [OF refl]]
  have "kernel_c_trap_handler (csrs c Sepc) (csrs c Stval) (csrs c Scause) (csrs c Sstatus) ?frame (s\<lparr>kmem := cmem ?c1\<rparr>) =
      Inr (csrs c Sepc, (s\<lparr>kmem := cmem ?c1\<rparr>)\<lparr>io_events := io_events s @
        [Csr_read Time (input 0 (s\<lparr>kmem := cmem ?c1\<rparr>)), Csr_write Stimecmp (input 0 (s\<lparr>kmem := cmem ?c1\<rparr>) + 10000000)]\<rparr>)"
    using timer_interrupt_correct [OF assms(1,2), where s = "s\<lparr>kmem := cmem ?c1\<rparr>"] by simp
  then have f: "xget 10 (f ?c1) = csrs c Sepc" "agree_on (- stack) (cmem (f ?c1)) (cmem ?c1)"
    "csrs (f ?c1) Sscratch = csrs ?c1 Sscratch"
    using assms(3) by (simp_all add: compiled_trap_handler_def E(5-9))
  have keep: "keeps_frame f ?frame ?c1"
    using f(2,3) assms(4) by (auto simp: keeps_frame_def intro: agree_on_mono)
  note H = kernel_asm_trap_handler_correct [OF refl keep]
  have "agree_on (- (stack \<union> extent ?frame 256)) (cmem (f ?c1)) (cmem c)"
    by (rule agree_on_trans [OF agree_on_mono [OF f(2)] agree_on_mono [OF E(3)]]) auto
  then show ?thesis using H(1,2,4) f(1) by simp
qed

section \<open>A concrete interrupt\<close>

definition demo_cpu :: cpu where
  "demo_cpu = \<lparr>xregs = (\<lambda>i. 100 + of_nat i),
     csrs = (\<lambda>r. case r of Sscratch \<Rightarrow> 0x60000 | Sepc \<Rightarrow> 0x80200000 | Scause \<Rightarrow> 0x8000000000000005 | _ \<Rightarrow> 0),
     cmem = (\<lambda>_. 0), pc = 0\<rparr>"

text \<open>A handler that returns the interrupted address and leaves arbitrary values elsewhere.\<close>

definition demo_handler :: "cpu \<Rightarrow> cpu" where
  "demo_handler c = c\<lparr>xregs := (\<lambda>_. 0xDEAD)(10 := xregs c 10)\<rparr>"

theorem trap_entry_preserves_registers_witness:
  "map (\<lambda>i. xget i (exec_all demo_handler kernel_asm_trap_handler demo_cpu)) [0..<32] = map (\<lambda>i. xget i demo_cpu) [0..<32] \<and>
   csrs (exec_all demo_handler kernel_asm_trap_handler demo_cpu) Sscratch = 0x60000"
  using trap_entry_preserves_registers [of demo_handler demo_cpu]
  by (simp add: keeps_frame_def demo_handler_def) (simp add: demo_cpu_def)

theorem timer_interrupt_transparent_witness:
  "map (\<lambda>i. xget i (exec_all demo_handler kernel_asm_trap_handler demo_cpu)) [0..<32] = map (\<lambda>i. xget i demo_cpu) [0..<32] \<and>
   pc (exec_all demo_handler kernel_asm_trap_handler demo_cpu) = 0x80200000"
proof -
  have r: "csrs demo_cpu Sscratch = 0x60000" "csrs demo_cpu Sepc = 0x80200000" "csrs demo_cpu Scause = 0x8000000000000005"
    "csrs demo_cpu Stval = 0" "csrs demo_cpu Sstatus = 0" by (simp_all add: demo_cpu_def)
  have b: "bit (csrs demo_cpu Scause) 63" "csrs demo_cpu Scause AND 0xFFF = ipt IPT_TYPE_TIMER" by (simp_all add: r bit_iff_odd)
  note E = trap_enter_correct [OF refl, where f = "\<lambda>c. c" and c = demo_cpu, unfolded trap_enter_correct(1) [OF refl]]
  have "xget 10 (demo_handler (at_call demo_cpu)) = xget 10 (at_call demo_cpu)" by (simp add: demo_handler_def xget_def)
  then have "compiled_trap_handler demo_handler {} (plic_system (\<lambda>_. 7)) (at_call demo_cpu)"
    using timer_interrupt_correct [OF b, where s = "(plic_system (\<lambda>_. 7))\<lparr>kmem := cmem (at_call demo_cpu)\<rparr>"]
    by (simp add: compiled_trap_handler_def E(5-9)) (simp add: demo_handler_def)
  from timer_interrupt_transparent [OF b this] show ?thesis by (simp add: r)
qed

end
