(* ===== verification/Virtio.thy ===== *)
theory Virtio
  imports Plic
begin

text \<open>
  The Virtio drivers of \<^verbatim>\<open>devices/virtio/mmio.c\<close> and \<^verbatim>\<open>devices/virtio/blk.c\<close>.  A
  \<^verbatim>\<open>struct virtio_driver\<close> has its status at offset 0, its type at 4, \<^verbatim>\<open>is_legacy\<close> at 8 and the
  address of the device's registers at 16.  Every access of a register is an event of the trace.
\<close>

section \<open>Registers and codes\<close>

text \<open>Byte offsets of the members of \<^verbatim>\<open>struct virtio_mmio_legacy_registers\<close>.\<close>

datatype legacy_register =
    magic_value | version | device_id | vendor_id | device_features | device_features_sel
  | driver_features | driver_features_sel | queue_sel | queue_num_max | queue_num | queue_align
  | queue_pfn | queue_notify | interrupt_status | interrupt_ack | status

fun legacy_offset :: "legacy_register \<Rightarrow> u64" where
  "legacy_offset magic_value = 0x000"
| "legacy_offset version = 0x004"
| "legacy_offset device_id = 0x008"
| "legacy_offset vendor_id = 0x00C"
| "legacy_offset device_features = 0x010"
| "legacy_offset device_features_sel = 0x014"
| "legacy_offset driver_features = 0x020"
| "legacy_offset driver_features_sel = 0x024"
| "legacy_offset queue_sel = 0x030"
| "legacy_offset queue_num_max = 0x034"
| "legacy_offset queue_num = 0x038"
| "legacy_offset queue_align = 0x03C"
| "legacy_offset queue_pfn = 0x040"
| "legacy_offset queue_notify = 0x050"
| "legacy_offset interrupt_status = 0x060"
| "legacy_offset interrupt_ack = 0x064"
| "legacy_offset status = 0x070"

text \<open>The first two members of \<^verbatim>\<open>struct virtio_mmio_v2_registers\<close>, all the code reads of it.\<close>

abbreviation v2_magic_value :: u64 where "v2_magic_value \<equiv> 0"
abbreviation v2_version :: u64 where "v2_version \<equiv> 4"

datatype virtio_device_status =
    VIRTIO_DEVICE_STATUS_RESET | VIRTIO_DEVICE_STATUS_ACKNOWLEDGE | VIRTIO_DEVICE_STATUS_DRIVER
  | VIRTIO_DEVICE_STATUS_DRIVER_OK | VIRTIO_DEVICE_STATUS_FEATURES_OK | VIRTIO_DEVICE_STATUS_FAILED

fun status_value :: "virtio_device_status \<Rightarrow> u32" where
  "status_value VIRTIO_DEVICE_STATUS_RESET = 0x0"
| "status_value VIRTIO_DEVICE_STATUS_ACKNOWLEDGE = 0x1"
| "status_value VIRTIO_DEVICE_STATUS_DRIVER = 0x2"
| "status_value VIRTIO_DEVICE_STATUS_DRIVER_OK = 0x4"
| "status_value VIRTIO_DEVICE_STATUS_FEATURES_OK = 0x8"
| "status_value VIRTIO_DEVICE_STATUS_FAILED = 0x80"

datatype virtio_device_type =
    VIRTIO_DEVICE_TYPE_RESERVED | VIRTIO_DEVICE_TYPE_NETWORK | VIRTIO_DEVICE_TYPE_BLOCK_DEVICE
  | VIRTIO_DEVICE_TYPE_CONSOLE | VIRTIO_DEVICE_TYPE_ENTROPY_SOURCE | VIRTIO_DEVICE_TYPE_MEMORY_BALLOON_TRAD
  | VIRTIO_DEVICE_TYPE_IOMEMORY | VIRTIO_DEVICE_TYPE_RPMSG | VIRTIO_DEVICE_TYPE_SCSI_HOST
  | VIRTIO_DEVICE_TYPE_9P_TRANSPORT | VIRTIO_DEVICE_TYPE_MAC80211_WLAN | VIRTIO_DEVICE_TYPE_RPROC_SERIAL
  | VIRTIO_DEVICE_TYPE_CAIF | VIRTIO_DEVICE_TYPE_MEMORY_BALLOON | VIRTIO_DEVICE_TYPE_GPU
  | VIRTIO_DEVICE_TYPE_TIMER | VIRTIO_DEVICE_TYPE_INPUT | VIRTIO_DEVICE_TYPE_SOCKET
  | VIRTIO_DEVICE_TYPE_CRYPTO | VIRTIO_DEVICE_TYPE_SIGNAL_DIST | VIRTIO_DEVICE_TYPE_PSTORE
  | VIRTIO_DEVICE_TYPE_IOMMU | VIRTIO_DEVICE_TYPE_MEMORY | VIRTIO_DEVICE_TYPE_UNSUPPORTED

fun type_value :: "virtio_device_type \<Rightarrow> u32" where
  "type_value VIRTIO_DEVICE_TYPE_RESERVED = 0x0"
| "type_value VIRTIO_DEVICE_TYPE_NETWORK = 0x1"
| "type_value VIRTIO_DEVICE_TYPE_BLOCK_DEVICE = 0x2"
| "type_value VIRTIO_DEVICE_TYPE_CONSOLE = 0x3"
| "type_value VIRTIO_DEVICE_TYPE_ENTROPY_SOURCE = 0x4"
| "type_value VIRTIO_DEVICE_TYPE_MEMORY_BALLOON_TRAD = 0x5"
| "type_value VIRTIO_DEVICE_TYPE_IOMEMORY = 0x6"
| "type_value VIRTIO_DEVICE_TYPE_RPMSG = 0x7"
| "type_value VIRTIO_DEVICE_TYPE_SCSI_HOST = 0x8"
| "type_value VIRTIO_DEVICE_TYPE_9P_TRANSPORT = 0x9"
| "type_value VIRTIO_DEVICE_TYPE_MAC80211_WLAN = 0xA"
| "type_value VIRTIO_DEVICE_TYPE_RPROC_SERIAL = 0xB"
| "type_value VIRTIO_DEVICE_TYPE_CAIF = 0xC"
| "type_value VIRTIO_DEVICE_TYPE_MEMORY_BALLOON = 0xD"
| "type_value VIRTIO_DEVICE_TYPE_GPU = 0x10"
| "type_value VIRTIO_DEVICE_TYPE_TIMER = 0x11"
| "type_value VIRTIO_DEVICE_TYPE_INPUT = 0x12"
| "type_value VIRTIO_DEVICE_TYPE_SOCKET = 0x13"
| "type_value VIRTIO_DEVICE_TYPE_CRYPTO = 0x14"
| "type_value VIRTIO_DEVICE_TYPE_SIGNAL_DIST = 0x15"
| "type_value VIRTIO_DEVICE_TYPE_PSTORE = 0x16"
| "type_value VIRTIO_DEVICE_TYPE_IOMMU = 0x17"
| "type_value VIRTIO_DEVICE_TYPE_MEMORY = 0x18"
| "type_value VIRTIO_DEVICE_TYPE_UNSUPPORTED = 0x100"

abbreviation VIRTIO_MMIO_MAGIC_VALUE :: u32 where "VIRTIO_MMIO_MAGIC_VALUE \<equiv> 0x74726976"
abbreviation VIRTIO_DEVICE_VERSION_LEGACY :: u32 where "VIRTIO_DEVICE_VERSION_LEGACY \<equiv> 1"
abbreviation VIRTIO_DEVICE_VERSION_NEW :: u32 where "VIRTIO_DEVICE_VERSION_NEW \<equiv> 2"
abbreviation VIRTIO_BLK_F_RO :: nat where "VIRTIO_BLK_F_RO \<equiv> 5"

definition legacy_read :: "addr \<Rightarrow> legacy_register \<Rightarrow> 'a machine_scheme \<Rightarrow> u32 \<times> 'a machine_scheme" where
  "legacy_read driver r s = mmio_read32 (get64 (driver + 16) s + legacy_offset r) s"

definition legacy_write :: "addr \<Rightarrow> legacy_register \<Rightarrow> u32 \<Rightarrow> 'a machine_scheme \<Rightarrow> 'a machine_scheme" where
  "legacy_write driver r v s = mmio_write32 (get64 (driver + 16) s + legacy_offset r) v s"

definition set8 :: "addr \<Rightarrow> u8 \<Rightarrow> 'a machine_scheme \<Rightarrow> 'a machine_scheme" where
  "set8 a v s = s\<lparr>kmem := (kmem s)(a := v)\<rparr>"

section \<open>The drivers\<close>

text \<open>The logical negation of a non-zero constant is 0, a \<^verbatim>\<open>u32\<close> again under \<^verbatim>\<open>&\<close>.\<close>

definition logical_not :: "u32 \<Rightarrow> u32" where
  "logical_not v = (if v = 0 then 1 else 0)"

definition block_driver_init :: "addr \<Rightarrow> addr \<Rightarrow> 'a machine_scheme \<Rightarrow> halt + 'a machine_scheme" where
  "block_driver_init driver base s =
     deref driver (
       let s = set8 (driver + 8) 1 s;
           s = set64 (driver + 16) base s;
           s = legacy_write driver status (status_value VIRTIO_DEVICE_STATUS_RESET) s;
           s = legacy_write driver status (status_value VIRTIO_DEVICE_STATUS_ACKNOWLEDGE) s;
           (st, s) = legacy_read driver status s;
           s = legacy_write driver status (st OR status_value VIRTIO_DEVICE_STATUS_DRIVER_OK) s;
           (features, s) = legacy_read driver device_features s
       in and_then (kprintln (SV ''Device Features: {B}'') [scast features] s) (\<lambda>s.
         let s = legacy_write driver driver_features (features AND logical_not (push_bit VIRTIO_BLK_F_RO 1)) s;
             (st, s) = legacy_read driver status s;
             s = legacy_write driver status (st OR status_value VIRTIO_DEVICE_STATUS_FEATURES_OK) s;
             (st, s) = legacy_read driver status s
         in if st AND status_value VIRTIO_DEVICE_STATUS_FEATURES_OK \<noteq> 0 then
              and_then (kprintln (SV ''Device did not accept our features! Status: {X}'') [scast st] s) (\<lambda>s.
                Inr (legacy_write driver status (status_value VIRTIO_DEVICE_STATUS_FAILED) s))
            else and_then (kprintln_string (SV ''[Kernel Panic]:'') s) (\<lambda>s. Inl Panicked)))"

definition virtio_mmio_device_legacy_initialize ::
    "addr \<Rightarrow> addr \<Rightarrow> 'a machine_scheme \<Rightarrow> halt + u64 \<times> 'a machine_scheme" where
  "virtio_mmio_device_legacy_initialize driver base s =
     deref driver (
       let s = set8 (driver + 8) 1 s;
           s = set64 (driver + 16) base s;
           (did, s) = legacy_read driver device_id s
       in and_then (kprintln (SV ''Device Type: {X}'') [scast did] s) (\<lambda>s.
         let (did, s) = legacy_read driver device_id s
         in if did = type_value VIRTIO_DEVICE_TYPE_RESERVED then
              Inr (ec EC_VIRTIO_INVALID_DEVICE, set32 (driver + 4) (type_value VIRTIO_DEVICE_TYPE_RESERVED) s)
            else if did = type_value VIRTIO_DEVICE_TYPE_BLOCK_DEVICE then
              and_then (block_driver_init driver base (set32 (driver + 4) (type_value VIRTIO_DEVICE_TYPE_BLOCK_DEVICE) s))
                (\<lambda>s. Inl Todo_reached)
            else
              let (did, s) = legacy_read driver device_id s
              in and_then (kprintln (SV ''Unsupported Virtio MMIO device type {X}'') [scast did] s) (\<lambda>s.
                Inr (ec EC_VIRTIO_UNSUPPORTED_DEVICE, set32 (driver + 4) (type_value VIRTIO_DEVICE_TYPE_UNSUPPORTED) s))))"

definition virtio_mmio_device_regular_initialize ::
    "addr \<Rightarrow> addr \<Rightarrow> 'a machine_scheme \<Rightarrow> halt + u64 \<times> 'a machine_scheme" where
  "virtio_mmio_device_regular_initialize driver base s = Inl Todo_reached"

definition virtio_mmio_driver_init ::
    "addr \<Rightarrow> addr \<Rightarrow> u64 \<Rightarrow> 'a machine_scheme \<Rightarrow> halt + u64 \<times> 'a machine_scheme" where
  "virtio_mmio_driver_init driver device_base device_size s =
     (let (magic, s) = mmio_read32 (device_base + v2_magic_value) s in
      if magic \<noteq> VIRTIO_MMIO_MAGIC_VALUE then Inr (ec EC_VIRTIO_INVALID_MAGIC, s)
      else let (ver, s) = mmio_read32 (device_base + v2_version) s in
        if ver = VIRTIO_DEVICE_VERSION_LEGACY then virtio_mmio_device_legacy_initialize driver device_base s
        else let (ver, s) = mmio_read32 (device_base + v2_version) s in
          if ver = VIRTIO_DEVICE_VERSION_NEW then virtio_mmio_device_regular_initialize driver device_base s
          else Inr (ec EC_VIRTIO_UNSUPPORTED_VERSION, s))"

section \<open>The memory a driver writes\<close>

lemma set8_fields [simp]:
  "kmem (set8 a v s) = (kmem s)(a := v)" "io_events (set8 a v s) = io_events s" "io_inputs (set8 a v s) = io_inputs s"
  "put (set8 a v s) = put s" "uart_base_address (set8 a v s) = uart_base_address s" "print_buf (set8 a v s) = print_buf s"
  by (simp_all add: set8_def)

lemma set_console [simp]:
  "put (set64 a v s) = put s" "uart_base_address (set64 a v s) = uart_base_address s" "print_buf (set64 a v s) = print_buf s"
  "put (set32 a w s) = put s" "uart_base_address (set32 a w s) = uart_base_address s" "print_buf (set32 a w s) = print_buf s"
  by (simp_all add: set64_def set32_def)

lemma virtio_header_frame:
  "agree_on (- extent driver 24) (store64 (m(driver + 8 := v)) (driver + 16) base) m"
proof -
  have "driver + 8 \<in> extent driver 24" by (simp add: mem_extent)
  then have "agree_on (- extent driver 24) (m(driver + 8 := v)) m" by (auto simp: agree_on_def)
  moreover have "extent (driver + 16) 8 \<subseteq> extent driver 24" by (rule extent_field) simp_all
  then have "agree_on (- extent driver 24) (store64 (m(driver + 8 := v)) (driver + 16) base) (m(driver + 8 := v))"
    by (intro store64_agree) auto
  ultimately show ?thesis by (blast intro: agree_on_trans)
qed

lemma virtio_type_frame: "agree_on (- extent driver 24) (store32 m (driver + 4) v) m"
  using extent_field [of 4 4 24 driver] by (intro store32_agree) auto

lemma block_driver_init_trace:
  fixes s :: "'a machine_scheme"
  assumes run: "block_driver_init driver base s = Inr s'"
  shows "\<exists>a features b st bs1 bs2. io_events s' = io_events s @
      [Write32 (base + 0x70) 0, Write32 (base + 0x70) 1, Read32 (base + 0x70) a, Write32 (base + 0x70) (a OR 4),
       Read32 (base + 0x10) features] @ map (Write8 (uart_base_address s)) bs1 @
      [Write32 (base + 0x20) 0, Read32 (base + 0x70) b, Write32 (base + 0x70) (b OR 8), Read32 (base + 0x70) st] @
      map (Write8 (uart_base_address s)) bs2 @ [Write32 (base + 0x70) 0x80] \<and> st AND 8 \<noteq> 0"
    and "agree_on (- extent driver 24) (kmem s') (kmem s)"
proof -
  define m where "m = store64 ((kmem s)(driver + 8 := 1)) (driver + 16) base"
  define s0 where "s0 = set64 (driver + 16) base (set8 (driver + 8) 1 s)"
  have k0: "kmem s0 = m" "io_events s0 = io_events s" "uart_base_address s0 = uart_base_address s"
    by (simp_all add: s0_def m_def)
  have b: "load64 m (driver + 16) = base" by (simp add: m_def)
  have w: "legacy_write driver r v t = record_io (Write32 (base + legacy_offset r) v) t"
    and r: "\<exists>v. legacy_read driver r t = (v, record_io (Read32 (base + legacy_offset r) v) t)"
    if "kmem t = m" for r v and t :: "'a machine_scheme"
    using that b by (auto simp: legacy_write_def legacy_read_def io_defs get64_def)
  let ?e1 = "[Write32 (base + 0x70) 0, Write32 (base + 0x70) 1]"
  define s1 where "s1 = record_io (Write32 (base + 0x70) 1) (record_io (Write32 (base + 0x70) 0) s0)"
  obtain a where a: "legacy_read driver status s1 = (a, record_io (Read32 (base + 0x70) a) s1)"
    using r [of s1 status] by (auto simp: s1_def k0)
  define s2 where "s2 = record_io (Write32 (base + 0x70) (a OR 4)) (record_io (Read32 (base + 0x70) a) s1)"
  obtain features where fe: "legacy_read driver device_features s2 = (features, record_io (Read32 (base + 0x10) features) s2)"
    using r [of s2 device_features] by (auto simp: s2_def s1_def k0)
  define s3 where "s3 = record_io (Read32 (base + 0x10) features) s2"
  have d: "driver \<noteq> 0" using run by (cases "driver = 0") (simp_all add: block_driver_init_def)
  obtain s4 where p1: "kprintln (SV ''Device Features: {B}'') [scast features] s3 = Inr s4"
    and run2: "(let s = legacy_write driver driver_features (features AND logical_not (push_bit VIRTIO_BLK_F_RO 1)) s4;
             (st, s) = legacy_read driver status s;
             s = legacy_write driver status (st OR status_value VIRTIO_DEVICE_STATUS_FEATURES_OK) s;
             (st, s) = legacy_read driver status s
         in if st AND status_value VIRTIO_DEVICE_STATUS_FEATURES_OK \<noteq> 0 then
              and_then (kprintln (SV ''Device did not accept our features! Status: {X}'') [scast st] s) (\<lambda>s.
                Inr (legacy_write driver status (status_value VIRTIO_DEVICE_STATUS_FAILED) s))
            else and_then (kprintln_string (SV ''[Kernel Panic]:'') s) (\<lambda>s. Inl Panicked)) = Inr s'"
  proof -
    have "legacy_write driver status 1 (legacy_write driver status 0 s0) = s1" by (simp add: w k0 s1_def)
    moreover have "legacy_write driver status (a OR 4) (record_io (Read32 (base + 0x70) a) s1) = s2"
      by (simp add: w k0 s1_def s2_def)
    ultimately show thesis
      using that run d a fe
      by (auto simp: block_driver_init_def Let_def and_then_eq_Inr simp flip: s0_def s3_def)
  qed
  obtain bs1 where bs1: "io_events s4 = io_events s3 @ map (Write8 (uart_base_address s)) bs1"
    and k4: "kmem s4 = m" "uart_base_address s4 = uart_base_address s"
    using prints_fields [OF kprintln_prints [OF p1]] by (auto simp: s3_def s2_def s1_def k0)
  have nf: "features AND logical_not 32 = 0" by (simp add: logical_not_def)
  define s5 where "s5 = record_io (Write32 (base + 0x20) 0) s4"
  obtain c where c: "legacy_read driver status s5 = (c, record_io (Read32 (base + 0x70) c) s5)"
    using r [of s5 status] by (auto simp: s5_def k4)
  define s6 where "s6 = record_io (Write32 (base + 0x70) (c OR 8)) (record_io (Read32 (base + 0x70) c) s5)"
  obtain st where st: "legacy_read driver status s6 = (st, record_io (Read32 (base + 0x70) st) s6)"
    using r [of s6 status] by (auto simp: s6_def s5_def k4)
  have ok: "st AND 8 \<noteq> 0"
    and run3: "and_then (kprintln (SV ''Device did not accept our features! Status: {X}'') [scast st] (record_io (Read32 (base + 0x70) st) s6))
       (\<lambda>s. Inr (legacy_write driver status (status_value VIRTIO_DEVICE_STATUS_FAILED) s)) = Inr s'"
  proof -
    have "legacy_write driver driver_features 0 s4 = s5" by (simp add: w k4 s5_def)
    moreover have "legacy_write driver status (c OR 8) (record_io (Read32 (base + 0x70) c) s5) = s6"
      by (simp add: w k4 s5_def s6_def)
    ultimately show "st AND 8 \<noteq> 0"
      and "and_then (kprintln (SV ''Device did not accept our features! Status: {X}'') [scast st] (record_io (Read32 (base + 0x70) st) s6))
        (\<lambda>s. Inr (legacy_write driver status (status_value VIRTIO_DEVICE_STATUS_FAILED) s)) = Inr s'"
      using run2 c st by (auto simp: Let_def nf and_then_eq_Inr split: if_splits)
  qed
  obtain s7 where p2: "kprintln (SV ''Device did not accept our features! Status: {X}'') [scast st] (record_io (Read32 (base + 0x70) st) s6) = Inr s7"
    and s': "s' = legacy_write driver status (status_value VIRTIO_DEVICE_STATUS_FAILED) s7"
    using run3 by (auto simp: and_then_eq_Inr)
  obtain bs2 where bs2: "io_events s7 = io_events (record_io (Read32 (base + 0x70) st) s6) @ map (Write8 (uart_base_address s)) bs2"
    and k7: "kmem s7 = m"
    using prints_fields [OF kprintln_prints [OF p2]] by (auto simp: s6_def s5_def k4)
  show "\<exists>a features b st bs1 bs2. io_events s' = io_events s @
      [Write32 (base + 0x70) 0, Write32 (base + 0x70) 1, Read32 (base + 0x70) a, Write32 (base + 0x70) (a OR 4),
       Read32 (base + 0x10) features] @ map (Write8 (uart_base_address s)) bs1 @
      [Write32 (base + 0x20) 0, Read32 (base + 0x70) b, Write32 (base + 0x70) (b OR 8), Read32 (base + 0x70) st] @
      map (Write8 (uart_base_address s)) bs2 @ [Write32 (base + 0x70) 0x80] \<and> st AND 8 \<noteq> 0"
    using ok unfolding s' w [OF k7]
    by (intro exI [of _ a] exI [of _ features] exI [of _ c] exI [of _ st] exI [of _ bs1] exI [of _ bs2])
      (simp add: bs2 bs1 s6_def s5_def s3_def s2_def s1_def k0)
  show "agree_on (- extent driver 24) (kmem s') (kmem s)"
    using virtio_header_frame [of driver "kmem s" 1 base] by (simp add: s' w [OF k7] k7 m_def)
qed

text \<open>A routine that changes memory, devices and the digit buffer, but no other state of the kernel.\<close>

definition machine_only :: "'a machine_scheme \<Rightarrow> 'a machine_scheme \<Rightarrow> bool" where
  "machine_only s s' \<longleftrightarrow> (\<exists>m es buf. s' = s\<lparr>kmem := m, io_events := es, print_buf := buf\<rparr>)"

lemma machine_onlyI: "machine_only s (s\<lparr>kmem := m, io_events := es, print_buf := buf\<rparr>)"
  by (auto simp: machine_only_def)

lemma machine_only_refl [simp]: "machine_only s s"
  using machine_onlyI [where s = s and m = "kmem s" and es = "io_events s" and buf = "print_buf s"] by simp

lemma machine_only_trans: "machine_only s s' \<Longrightarrow> machine_only s' s'' \<Longrightarrow> machine_only s s''"
  using machine_onlyI by (fastforce simp: machine_only_def [of s s'] machine_only_def [of s' s''])

lemma machine_only_fields:
  assumes "machine_only s s'"
  shows "put s' = put s" and "uart_base_address s' = uart_base_address s" and "io_inputs s' = io_inputs s"
  using assms by (auto simp: machine_only_def)

lemma prints_machine_only:
  assumes "prints s s'"
  shows "machine_only s s'"
proof -
  obtain bs buf where "s' = emit bs (s\<lparr>print_buf := buf\<rparr>)" using assms unfolding prints_def by blast
  then have "s' = s\<lparr>kmem := kmem s, io_events := io_events s @ map (Write8 (uart_base_address s)) bs, print_buf := buf\<rparr>"
    by (simp add: emit_def)
  then show ?thesis using machine_onlyI by metis
qed

lemma steps_machine_only [simp]:
  "machine_only s (record_io e s)" "machine_only s (set64 a v s)" "machine_only s (set32 a w s)" "machine_only s (set8 a b s)"
  "machine_only s (mmio_write32 a w s)" "machine_only s (legacy_write driver r w s)"
  using machine_onlyI [where s = s and m = "kmem s" and buf = "print_buf s"]
    machine_onlyI [where s = s and es = "io_events s" and buf = "print_buf s"]
  by (simp_all add: record_io_def set64_def set32_def set8_def legacy_write_def io_defs)

lemma legacy_read_event: "legacy_read driver r s = (v, s') \<Longrightarrow> s' = record_io (Read32 (get64 (driver + 16) s + legacy_offset r) v) s"
  by (auto simp: legacy_read_def io_defs)

lemma virtio_legacy_correct:
  assumes run: "virtio_mmio_device_legacy_initialize driver base s = Inr (err, s')"
  shows "err = ec (if get32 (driver + 4) s' = 0 then EC_VIRTIO_INVALID_DEVICE else EC_VIRTIO_UNSUPPORTED_DEVICE)"
    and "agree_on (- extent driver 24) (kmem s') (kmem s)" and "machine_only s s'"
proof -
  define s0 where "s0 = set64 (driver + 16) base (set8 (driver + 8) 1 s)"
  have d: "driver \<noteq> 0" using run by (cases "driver = 0") (simp_all add: virtio_mmio_device_legacy_initialize_def)
  obtain did s1 where r1: "legacy_read driver device_id s0 = (did, s1)" by fastforce
  obtain s2 where p1: "kprintln (SV ''Device Type: {X}'') [scast did] s1 = Inr s2"
    using run d r1 by (auto simp: virtio_mmio_device_legacy_initialize_def Let_def and_then_eq_Inr simp flip: s0_def)
  obtain did2 s3 where r2: "legacy_read driver device_id s2 = (did2, s3)" by fastforce
  have m0: "agree_on (- extent driver 24) (kmem s0) (kmem s)" "machine_only s s0"
    using virtio_header_frame by (auto simp: s0_def intro: machine_only_trans [OF steps_machine_only(4) steps_machine_only(2)])
  have m3: "kmem s3 = kmem s0" "machine_only s0 s3"
    using prints_fields(1) [OF kprintln_prints [OF p1]] prints_machine_only [OF kprintln_prints [OF p1]]
    by (auto simp: legacy_read_event [OF r1] legacy_read_event [OF r2] intro: machine_only_trans [OF steps_machine_only(1)] machine_only_trans [OF _ steps_machine_only(1)])
  have fin: "agree_on (- extent driver 24) (kmem (set32 (driver + 4) v t)) (kmem s) \<and> machine_only s (set32 (driver + 4) v t)"
    if "kmem t = kmem s0" "machine_only s3 t" for v t
  proof
    show "agree_on (- extent driver 24) (kmem (set32 (driver + 4) v t)) (kmem s)"
      using virtio_type_frame [of driver "kmem s0" v] m0(1) that(1) by (auto intro: agree_on_trans)
    show "machine_only s (set32 (driver + 4) v t)"
      using m0(2) m3(2) that(2) steps_machine_only(3) by (blast intro: machine_only_trans)
  qed
  have run2: "(if did2 = type_value VIRTIO_DEVICE_TYPE_RESERVED then
              Inr (ec EC_VIRTIO_INVALID_DEVICE, set32 (driver + 4) (type_value VIRTIO_DEVICE_TYPE_RESERVED) s3)
            else if did2 = type_value VIRTIO_DEVICE_TYPE_BLOCK_DEVICE then
              and_then (block_driver_init driver base (set32 (driver + 4) (type_value VIRTIO_DEVICE_TYPE_BLOCK_DEVICE) s3))
                (\<lambda>s. Inl Todo_reached)
            else
              let (did, s) = legacy_read driver device_id s3
              in and_then (kprintln (SV ''Unsupported Virtio MMIO device type {X}'') [scast did] s) (\<lambda>s.
                Inr (ec EC_VIRTIO_UNSUPPORTED_DEVICE, set32 (driver + 4) (type_value VIRTIO_DEVICE_TYPE_UNSUPPORTED) s))) = Inr (err, s')"
    using run d r1 p1 r2 by (simp add: virtio_mmio_device_legacy_initialize_def Let_def flip: s0_def)
  have "err = ec (if get32 (driver + 4) s' = 0 then EC_VIRTIO_INVALID_DEVICE else EC_VIRTIO_UNSUPPORTED_DEVICE) \<and>
    agree_on (- extent driver 24) (kmem s') (kmem s) \<and> machine_only s s'"
  proof (cases "did2 = 0")
    case True
    then show ?thesis using run2 fin [of s3 0] m3 by (auto simp: get32_def)
  next
    case False
    obtain did3 s4 where r3: "legacy_read driver device_id s3 = (did3, s4)" by fastforce
    obtain s5 where p2: "kprintln (SV ''Unsupported Virtio MMIO device type {X}'') [scast did3] s4 = Inr s5"
      and s': "s' = set32 (driver + 4) 0x100 s5" "err = ec EC_VIRTIO_UNSUPPORTED_DEVICE"
      using run2 r3 False by (auto simp: and_then_eq_Inr split: if_splits)
    have "kmem s5 = kmem s0" "machine_only s3 s5"
      using prints_fields(1) [OF kprintln_prints [OF p2]] prints_machine_only [OF kprintln_prints [OF p2]] m3
      by (auto simp: legacy_read_event [OF r3] intro: machine_only_trans [OF steps_machine_only(1)])
    then show ?thesis using fin [of s5 "0x100"] s' by (simp add: get32_def)
  qed
  then show "err = ec (if get32 (driver + 4) s' = 0 then EC_VIRTIO_INVALID_DEVICE else EC_VIRTIO_UNSUPPORTED_DEVICE)"
    "agree_on (- extent driver 24) (kmem s') (kmem s)" "machine_only s s'" by blast+
qed

lemma virtio_mmio_driver_init_correct:
  assumes run: "virtio_mmio_driver_init driver base sz s = Inr (err, s')"
  shows "err = ec (if input 0 s \<noteq> VIRTIO_MMIO_MAGIC_VALUE then EC_VIRTIO_INVALID_MAGIC
      else if input 1 s \<noteq> VIRTIO_DEVICE_VERSION_LEGACY then EC_VIRTIO_UNSUPPORTED_VERSION
      else if get32 (driver + 4) s' = 0 then EC_VIRTIO_INVALID_DEVICE else EC_VIRTIO_UNSUPPORTED_DEVICE)"
    and "agree_on (- extent driver 24) (kmem s') (kmem s)" and "machine_only s s'"
proof -
  let ?s1 = "record_io (Read32 base (input 0 s)) s"
  let ?s2 = "record_io (Read32 (base + 4) (input 1 s)) ?s1"
  let ?s3 = "record_io (Read32 (base + 4) (input 2 s)) ?s2"
  have i: "input 0 ?s1 = (input 1 s :: u32)" "input 0 ?s2 = (input 2 s :: u32)"
    by (simp_all add: input_record numeral_2_eq_2)
  have rd: "mmio_read32 a t = (input 0 t, record_io (Read32 a (input 0 t)) t)" for a t
    by (simp add: io_defs next_input_def input_def)
  have m: "machine_only s ?s1" "machine_only s ?s2" "machine_only s ?s3"
    by (blast intro: machine_only_trans steps_machine_only)+
  note D = virtio_mmio_driver_init_def Let_def rd input_record
  consider "input 0 s \<noteq> VIRTIO_MMIO_MAGIC_VALUE" | "input 0 s = VIRTIO_MMIO_MAGIC_VALUE" "input 1 s = VIRTIO_DEVICE_VERSION_LEGACY"
    | "input 0 s = VIRTIO_MMIO_MAGIC_VALUE" "input 1 s \<noteq> VIRTIO_DEVICE_VERSION_LEGACY" by blast
  then have "err = ec (if input 0 s \<noteq> VIRTIO_MMIO_MAGIC_VALUE then EC_VIRTIO_INVALID_MAGIC
      else if input 1 s \<noteq> VIRTIO_DEVICE_VERSION_LEGACY then EC_VIRTIO_UNSUPPORTED_VERSION
      else if get32 (driver + 4) s' = 0 then EC_VIRTIO_INVALID_DEVICE else EC_VIRTIO_UNSUPPORTED_DEVICE) \<and>
    agree_on (- extent driver 24) (kmem s') (kmem s) \<and> machine_only s s'"
  proof cases
    case 1
    then show ?thesis using run m(1) by (auto simp: D)
  next
    case 2
    then have "virtio_mmio_device_legacy_initialize driver base ?s2 = Inr (err, s')" using run by (simp add: D)
    from virtio_legacy_correct [OF this] 2 m show ?thesis by (auto intro: machine_only_trans)
  next
    case 3
    then show ?thesis using run m by (auto simp: D numeral_2_eq_2 virtio_mmio_device_regular_initialize_def split: if_splits)
  qed
  then show "err = ec (if input 0 s \<noteq> VIRTIO_MMIO_MAGIC_VALUE then EC_VIRTIO_INVALID_MAGIC
      else if input 1 s \<noteq> VIRTIO_DEVICE_VERSION_LEGACY then EC_VIRTIO_UNSUPPORTED_VERSION
      else if get32 (driver + 4) s' = 0 then EC_VIRTIO_INVALID_DEVICE else EC_VIRTIO_UNSUPPORTED_DEVICE)"
    "agree_on (- extent driver 24) (kmem s') (kmem s)" "machine_only s s'" by blast+
qed

text \<open>
  Initialising a Virtio device never succeeds.  When it returns at all, it returns the error
  of the first check that fails: the magic number, the version, and for a legacy device whether its
  type is reserved or unsupported; it has written nothing but the driver's own 24 bytes.
\<close>

theorem virtio_init_never_succeeds:
  assumes "virtio_mmio_driver_init driver base sz s = Inr (err, s')"
  shows "error_is_err err \<and> agree_on (- extent driver 24) (kmem s') (kmem s) \<and>
    err = ec (if input 0 s \<noteq> VIRTIO_MMIO_MAGIC_VALUE then EC_VIRTIO_INVALID_MAGIC
      else if input 1 s \<noteq> VIRTIO_DEVICE_VERSION_LEGACY then EC_VIRTIO_UNSUPPORTED_VERSION
      else if get32 (driver + 4) s' = 0 then EC_VIRTIO_INVALID_DEVICE else EC_VIRTIO_UNSUPPORTED_DEVICE)"
  using virtio_mmio_driver_init_correct [OF assms] by (simp del: ec.simps)

text \<open>
  C40: the block driver's negotiation, whenever it returns: the device is reset, acknowledged and
  set \<^verbatim>\<open>DRIVER_OK\<close>; whatever features it offers, the driver writes back none; it then sets
  \<^verbatim>\<open>FEATURES_OK\<close>, finds it set in the status, and declares the device failed.  So the driver gives
  up exactly on a device that accepted the features.
\<close>

theorem virtio_block_negotiation:
  assumes "block_driver_init driver base s = Inr s'"
  shows "\<exists>a features b st bs1 bs2. io_events s' = io_events s @
      [Write32 (base + 0x70) 0, Write32 (base + 0x70) 1, Read32 (base + 0x70) a, Write32 (base + 0x70) (a OR 4),
       Read32 (base + 0x10) features] @ map (Write8 (uart_base_address s)) bs1 @
      [Write32 (base + 0x20) 0, Read32 (base + 0x70) b, Write32 (base + 0x70) (b OR 8), Read32 (base + 0x70) st] @
      map (Write8 (uart_base_address s)) bs2 @ [Write32 (base + 0x70) 0x80] \<and> st AND 8 \<noteq> 0"
  using assms by (rule block_driver_init_trace)

section \<open>Concrete devices\<close>

lemma kprintln_runs:
  assumes "put s = Some f" and "print_buf_ok s" and "render (kmem s) (tokens None format) args = Some t"
  shows "\<exists>s'. kprintln format args s = Inr s' \<and> put s' = Some f \<and> print_buf_ok s' \<and> kmem s' = kmem s \<and> io_inputs s' = io_inputs s"
  using kprintln_sends [OF assms] assms(1) by (auto simp: sends_def print_buf_ok_def)

theorem virtio_init_never_succeeds_witness:
  "\<exists>s' :: machine. virtio_mmio_driver_init 0x1000 0x10001000 0x200 (console_state\<lparr>io_inputs := (\<lambda>n. if n = 0 then 0x74726976 else 1)\<rparr>) =
     Inr (ec EC_VIRTIO_UNSUPPORTED_DEVICE, s') \<and> agree_on (- extent 0x1000 24) (kmem s') (\<lambda>_. 0)"
proof -
  let ?s = "console_state\<lparr>io_inputs := (\<lambda>n. if n = 0 then 0x74726976 else 1)\<rparr>"
  have i: "input 0 ?s = (0x74726976 :: u32)" "input 1 ?s = (1 :: u32)" by (simp_all add: input_def console_state_def)
  have rd: "legacy_read 0x1000 device_id t = (1, record_io (Read32 (get64 0x1010 t + 8) 1) t)"
    if "io_inputs t = io_inputs ?s" "io_events t \<noteq> []" for t using that by (simp add: legacy_read_def io_defs next_input_def)
  let ?t = "set64 0x1010 0x10001000 (set8 0x1008 1 (record_io (Read32 0x10001004 1) (record_io (Read32 0x10001000 0x74726976) ?s)))"
  let ?u = "record_io (Read32 (get64 0x1010 ?t + 8) 1) ?t"
  obtain s2 where s2: "kprintln (SV ''Device Type: {X}'') [1] ?u = Inr s2" "put s2 = Some Uart_put_char" "print_buf_ok s2" "io_inputs s2 = io_inputs ?s"
    using kprintln_runs [of ?u Uart_put_char "SV ''Device Type: {X}''" "[1]"]
    by (auto simp: SV_def directive_def console_state_def print_buf_ok_def)
  have e2: "io_events s2 \<noteq> []" using prints_fields(5) [OF kprintln_prints [OF s2(1)]] by auto
  let ?u2 = "record_io (Read32 (get64 0x1010 s2 + 8) 1) s2"
  let ?u3 = "record_io (Read32 (get64 0x1010 ?u2 + 8) 1) ?u2"
  obtain s3 where s3: "kprintln (SV ''Unsupported Virtio MMIO device type {X}'') [1] ?u3 = Inr s3"
    using kprintln_runs [of ?u3 Uart_put_char "SV ''Unsupported Virtio MMIO device type {X}''" "[1]"] s2
    by (auto simp: SV_def directive_def print_buf_ok_def)
  have "\<exists>s'. virtio_mmio_driver_init 0x1000 0x10001000 0x200 ?s = Inr (ec EC_VIRTIO_UNSUPPORTED_DEVICE, s')"
    using s3 by (simp add: virtio_mmio_driver_init_def virtio_mmio_device_legacy_initialize_def io_defs next_input_def rd s2 e2)
      (simp add: console_state_def)
  then obtain s' where s': "virtio_mmio_driver_init 0x1000 0x10001000 0x200 ?s = Inr (ec EC_VIRTIO_UNSUPPORTED_DEVICE, s')" ..
  then show ?thesis using virtio_init_never_succeeds [OF s'] by (auto simp: console_state_def)
qed

theorem virtio_block_negotiation_witness:
  "\<exists>s' :: machine. block_driver_init 0x1000 0x10001000 (console_state\<lparr>io_inputs := (\<lambda>_. 8)\<rparr>) = Inr s' \<and>
     Write32 0x10001020 0 \<in> set (io_events s') \<and> last (io_events s') = Write32 0x10001070 0x80"
proof -
  let ?s = "console_state\<lparr>io_inputs := (\<lambda>_. 8)\<rparr>"
  have rd: "legacy_read 0x1000 r t = (8, record_io (Read32 (get64 0x1010 t + legacy_offset r) 8) t)"
    if "io_inputs t = (\<lambda>_. 8)" for r t using that by (simp add: legacy_read_def io_defs next_input_def)
  have wf: "io_inputs (legacy_write 0x1000 r v t) = io_inputs t" "put (legacy_write 0x1000 r v t) = put t"
    "print_buf (legacy_write 0x1000 r v t) = print_buf t" for r v t by (simp_all add: legacy_write_def io_defs)
  have p: "\<exists>s'. kprintln (SV ''Device Features: {B}'') [8] t = Inr s' \<and> io_inputs s' = (\<lambda>_. 8) \<and> put s' = Some Uart_put_char \<and> print_buf_ok s'"
    "\<exists>s'. kprintln (SV ''Device did not accept our features! Status: {X}'') [8] t = Inr s'"
    if "put t = Some Uart_put_char" "print_buf_ok t" "io_inputs t = (\<lambda>_. 8)" for t :: machine
    using kprintln_runs [OF that(1,2), of "SV ''Device Features: {B}''" "[8]"]
      kprintln_runs [OF that(1,2), of "SV ''Device did not accept our features! Status: {X}''" "[8]"] that(3)
    by (auto simp: SV_def directive_def)
  let ?Y = "legacy_write 0x1000 status 1 (legacy_write 0x1000 status 0 (set64 0x1010 0x10001000 (set8 0x1008 1 ?s)))"
  let ?Z = "legacy_write 0x1000 status (8 OR 4) (record_io (Read32 (get64 0x1010 ?Y + 0x70) 8) ?Y)"
  let ?X = "record_io (Read32 (get64 0x1010 ?Z + 0x10) 8) ?Z"
  have ok: "put ?X = Some Uart_put_char" "print_buf_ok ?X" "io_inputs ?X = (\<lambda>_. 8)"
    using console_state_ok by (simp_all add: wf print_buf_ok_def)
  obtain s4 where s4: "kprintln (SV ''Device Features: {B}'') [8] ?X = Inr s4" "io_inputs s4 = (\<lambda>_. 8)" "put s4 = Some Uart_put_char" "print_buf_ok s4"
    using p(1) [OF ok] by blast
  let ?A = "legacy_write 0x1000 driver_features (8 AND logical_not 32) s4"
  let ?B = "legacy_write 0x1000 status (8 OR 8) (record_io (Read32 (get64 0x1010 ?A + 0x70) 8) ?A)"
  let ?C = "record_io (Read32 (get64 0x1010 ?B + 0x70) 8) ?B"
  obtain s5 where s5: "kprintln (SV ''Device did not accept our features! Status: {X}'') [8] ?C = Inr s5"
    using p(2) [of ?C] s4 by (auto simp: wf print_buf_ok_def)
  have "\<exists>s'. block_driver_init 0x1000 0x10001000 ?s = Inr s'"
    using s4(1) s5 by (simp add: block_driver_init_def Let_def rd wf s4(2))
  then obtain s' where s': "block_driver_init 0x1000 0x10001000 ?s = Inr s'" ..
  then show ?thesis using virtio_block_negotiation [OF s'] by (auto simp: console_state_def)
qed

end
