(* ===== verification/Device_Tree.thy ===== *)
theory Device_Tree
  imports System
begin

text \<open>
  The flattened device tree of \<^verbatim>\<open>devices/device_tree/blob.c\<close>.  Nodes, properties, reserved regions
  and handle entries are structures in memory.  A \<^verbatim>\<open>struct device_tree_property\<close> has its name at
  offset 0, its type at 16, its value at 24 and the next property at 48; a
  \<^verbatim>\<open>struct device_tree_node\<close> has its name at 0, its cell counts at 16 and 20, its compatible strings
  at 24 with their number at 32, and its properties, parent, children and sibling at 40, 48, 56 and
  64.  The only tree the kernel builds is the global one, \<open>dt\<close> of the state.
\<close>

section \<open>Byte order\<close>

definition ENDIANNESS_FLIP_U16 :: "u16 \<Rightarrow> u16" where
  "ENDIANNESS_FLIP_U16 x = (drop_bit 8 x OR push_bit 8 x)"

definition ENDIANNESS_FLIP_U32 :: "u32 \<Rightarrow> u32" where
  "ENDIANNESS_FLIP_U32 x =
     ((drop_bit 24 x AND 0x000000FF) OR (drop_bit 8 x AND 0x0000FF00) OR (push_bit 8 x AND 0x00FF0000) OR
      (push_bit 24 x AND 0xFF000000))"

definition ENDIANNESS_FLIP_U64 :: "u64 \<Rightarrow> u64" where
  "ENDIANNESS_FLIP_U64 x =
     ((drop_bit 56 x AND 0x00000000000000FF) OR (drop_bit 40 x AND 0x000000000000FF00) OR
      (drop_bit 24 x AND 0x0000000000FF0000) OR (drop_bit 8 x AND 0x00000000FF000000) OR
      (push_bit 8 x AND 0x000000FF00000000) OR (push_bit 24 x AND 0x0000FF0000000000) OR
      (push_bit 40 x AND 0x00FF000000000000) OR (push_bit 56 x AND 0xFF00000000000000))"

text \<open>A \<^verbatim>\<open>u128\<close> as the sixteen bytes of its union.\<close>

definition endianness_flip_u128 :: "u8 list \<Rightarrow> u8 list" where
  "endianness_flip_u128 src = map (\<lambda>i. src ! (15 - i)) [0..<16]"

definition READ_BIG_ENDIAN_U32 :: "mem \<Rightarrow> addr \<Rightarrow> u32" where
  "READ_BIG_ENDIAN_U32 m x = ENDIANNESS_FLIP_U32 (load32 m x)"

definition READ_BIG_ENDIAN_U64 :: "mem \<Rightarrow> addr \<Rightarrow> u64" where
  "READ_BIG_ENDIAN_U64 m x = ENDIANNESS_FLIP_U64 (load64 m x)"

definition READ_BIG_ENDIAN_U128 :: "mem \<Rightarrow> addr \<Rightarrow> u8 list" where
  "READ_BIG_ENDIAN_U128 m x = endianness_flip_u128 (load_bytes m x 16)"

abbreviation DEVICE_TREE_BLOB_MAGIC :: u32 where "DEVICE_TREE_BLOB_MAGIC \<equiv> 0x0D00DFEED"
abbreviation DEFAULT_ADDRESS_CELLS :: u32 where "DEFAULT_ADDRESS_CELLS \<equiv> 2"
abbreviation DEFAULT_SIZE_CELLS :: u32 where "DEFAULT_SIZE_CELLS \<equiv> 1"

section \<open>Structures\<close>

text \<open>Byte offsets of \<^verbatim>\<open>struct blob_header\<close>.\<close>

datatype blob_header =
    magic | total_size | offset_structs | offset_strings | offset_rsvmap | version | compat_version
  | boot_cpuid_phys | size_strings | size_struct

fun header_offset :: "blob_header \<Rightarrow> u64" where
  "header_offset magic = 0"
| "header_offset total_size = 4"
| "header_offset offset_structs = 8"
| "header_offset offset_strings = 12"
| "header_offset offset_rsvmap = 16"
| "header_offset version = 20"
| "header_offset compat_version = 24"
| "header_offset boot_cpuid_phys = 28"
| "header_offset size_strings = 32"
| "header_offset size_struct = 36"

datatype structure_token =
    STRUCTURE_TOKEN_NODE_START | STRUCTURE_TOKEN_NODE_END | STRUCTURE_TOKEN_PROPERTY | STRUCTURE_TOKEN_NOP
  | STRUCTURE_TOKEN_END

fun token_value :: "structure_token \<Rightarrow> u32" where
  "token_value STRUCTURE_TOKEN_NODE_START = 0x1"
| "token_value STRUCTURE_TOKEN_NODE_END = 0x2"
| "token_value STRUCTURE_TOKEN_PROPERTY = 0x3"
| "token_value STRUCTURE_TOKEN_NOP = 0x4"
| "token_value STRUCTURE_TOKEN_END = 0x9"

datatype device_tree_property_type =
    DT_PROPERTY_RAW | DT_PROPERTY_PHANDLE | DT_PROPERTY_COMPATIBLE | DT_PROPERTY_ADDRESS_CELLS
  | DT_PROPERTY_SIZE_CELLS | DT_PROPERTY_REG

fun property_type_value :: "device_tree_property_type \<Rightarrow> u32" where
  "property_type_value DT_PROPERTY_RAW = 0"
| "property_type_value DT_PROPERTY_PHANDLE = 1"
| "property_type_value DT_PROPERTY_COMPATIBLE = 2"
| "property_type_value DT_PROPERTY_ADDRESS_CELLS = 3"
| "property_type_value DT_PROPERTY_SIZE_CELLS = 4"
| "property_type_value DT_PROPERTY_REG = 5"

text \<open>Members of properties.\<close>

definition prop_name :: "mem \<Rightarrow> addr \<Rightarrow> str_view" where
  "prop_name m p = sv_at m p"

definition prop_type :: "mem \<Rightarrow> addr \<Rightarrow> u32" where
  "prop_type m p = load32 m (p + 16)"

definition raw_data :: "mem \<Rightarrow> addr \<Rightarrow> addr" where
  "raw_data m p = load64 m (p + 24)"

definition raw_size :: "mem \<Rightarrow> addr \<Rightarrow> u64" where
  "raw_size m p = load64 m (p + 32)"

definition reg_n_pairs :: "mem \<Rightarrow> addr \<Rightarrow> u64" where
  "reg_n_pairs m p = load64 m (p + 24)"

definition reg_addresses :: "mem \<Rightarrow> addr \<Rightarrow> addr" where
  "reg_addresses m p = load64 m (p + 32)"

definition reg_sizes :: "mem \<Rightarrow> addr \<Rightarrow> addr" where
  "reg_sizes m p = load64 m (p + 40)"

definition next_prop :: "mem \<Rightarrow> addr \<Rightarrow> addr" where
  "next_prop m p = load64 m (p + 48)"

text \<open>Members of nodes.\<close>

definition node_name :: "mem \<Rightarrow> addr \<Rightarrow> str_view" where
  "node_name m n = sv_at m n"

definition address_cells :: "mem \<Rightarrow> addr \<Rightarrow> u32" where
  "address_cells m n = load32 m (n + 16)"

definition size_cells :: "mem \<Rightarrow> addr \<Rightarrow> u32" where
  "size_cells m n = load32 m (n + 20)"

definition compatible :: "mem \<Rightarrow> addr \<Rightarrow> addr" where
  "compatible m n = load64 m (n + 24)"

definition compatible_count :: "mem \<Rightarrow> addr \<Rightarrow> u64" where
  "compatible_count m n = load64 m (n + 32)"

definition properties :: "mem \<Rightarrow> addr \<Rightarrow> addr" where
  "properties m n = load64 m (n + 40)"

definition parent :: "mem \<Rightarrow> addr \<Rightarrow> addr" where
  "parent m n = load64 m (n + 48)"

definition children :: "mem \<Rightarrow> addr \<Rightarrow> addr" where
  "children m n = load64 m (n + 56)"

definition sibling :: "mem \<Rightarrow> addr \<Rightarrow> addr" where
  "sibling m n = load64 m (n + 64)"

lemmas dt_fields = prop_name_def prop_type_def raw_data_def raw_size_def reg_n_pairs_def reg_addresses_def
  reg_sizes_def next_prop_def node_name_def address_cells_def size_cells_def compatible_def
  compatible_count_def properties_def parent_def children_def sibling_def

section \<open>The tree's allocators\<close>

definition dt_node_alloc :: "'a system_scheme \<Rightarrow> halt + addr \<times> 'a system_scheme" where
  "dt_node_alloc s =
     and_then (slab_allocate kalloc (node_arena (dt s)) s) (\<lambda>(p, a, s). Inr (p, s\<lparr>dt := (dt s)\<lparr>node_arena := a\<rparr>\<rparr>))"

definition dt_property_alloc :: "'a system_scheme \<Rightarrow> halt + addr \<times> 'a system_scheme" where
  "dt_property_alloc s =
     and_then (slab_allocate kalloc (property_arena (dt s)) s) (\<lambda>(p, a, s). Inr (p, s\<lparr>dt := (dt s)\<lparr>property_arena := a\<rparr>\<rparr>))"

definition dt_reserved_alloc :: "'a system_scheme \<Rightarrow> halt + addr \<times> 'a system_scheme" where
  "dt_reserved_alloc s =
     and_then (slab_allocate kalloc (reserved_arena (dt s)) s) (\<lambda>(p, a, s). Inr (p, s\<lparr>dt := (dt s)\<lparr>reserved_arena := a\<rparr>\<rparr>))"

definition dt_phandlemap_alloc :: "'a system_scheme \<Rightarrow> halt + addr \<times> 'a system_scheme" where
  "dt_phandlemap_alloc s =
     and_then (slab_allocate kalloc (phandlemap_arena (dt s)) s) (\<lambda>(p, a, s). Inr (p, s\<lparr>dt := (dt s)\<lparr>phandlemap_arena := a\<rparr>\<rparr>))"

definition dt_bump_alloc :: "u64 \<Rightarrow> u64 \<Rightarrow> 'a system_scheme \<Rightarrow> halt + addr \<times> 'a system_scheme" where
  "dt_bump_alloc sz al s =
     and_then (bump_allocate_aligned (dt_bump (dt s)) sz al (kmem s)) (\<lambda>(p, b, m).
       Inr (p, s\<lparr>kmem := m, dt := (dt s)\<lparr>dt_bump := b\<rparr>\<rparr>))"

text \<open>\<^verbatim>\<open>sv_from_null_term\<close> as a step of a routine.\<close>

definition null_term :: "addr \<Rightarrow> 'a system_scheme \<Rightarrow> halt + str_view" where
  "null_term p s = (case sv_from_null_term (kmem s) p of None \<Rightarrow> Inl Hang | Some sv \<Rightarrow> Inr sv)"

section \<open>First pass: nodes and properties\<close>

definition device_tree_parse_node :: "addr \<Rightarrow> addr \<Rightarrow> u64 \<Rightarrow> 'a system_scheme \<Rightarrow> halt + u64 \<times> addr \<times> 'a system_scheme" where
  "device_tree_parse_node cur structs offset s =
     and_then (dt_node_alloc s) (\<lambda>(new_node, s).
     deref new_node (
     and_then (null_term (structs + offset) s) (\<lambda>name.
     let s = set_sv new_node name s;
         s = set64 (new_node + 48) cur s;
         s = set64 (new_node + 64) 0 s;
         s = set64 (new_node + 56) 0 s;
         s = set64 (new_node + 40) 0 s;
         s = set64 (new_node + 24) 0 s;
         s = set64 (new_node + 32) 0 s;
         s = (if cur \<noteq> 0
              then set64 (cur + 56) new_node (set64 (new_node + 64) (children (kmem s) cur) s)
              else s)
     in Inr (offset + ALIGN_UP (sv_size (node_name (kmem s) new_node) + 1) 4, new_node, s))))"

definition device_tree_first_pass_property ::
    "addr \<Rightarrow> addr \<Rightarrow> addr \<Rightarrow> u64 \<Rightarrow> 'a system_scheme \<Rightarrow> halt + u64 \<times> 'a system_scheme" where
  "device_tree_first_pass_property cur structs strings offset s =
     (let property_length = READ_BIG_ENDIAN_U32 (kmem s) (structs + offset);
          offset = offset + 4;
          name_offset = READ_BIG_ENDIAN_U32 (kmem s) (structs + offset);
          offset = offset + 4
      in and_then (dt_property_alloc s) (\<lambda>(new_prop, s).
         deref new_prop (
         and_then (null_term (strings + ucast name_offset) s) (\<lambda>name.
         deref cur (
         let s = set_sv new_prop name s;
             s = set32 (new_prop + 16) (property_type_value DT_PROPERTY_RAW) s;
             s = set64 (new_prop + 48) (properties (kmem s) cur) s;
             s = set64 (new_prop + 24) (structs + offset) s;
             s = set64 (new_prop + 32) (ucast property_length) s;
             s = set64 (cur + 40) new_prop s
         in Inr (offset + ALIGN_UP (ucast property_length) 4, s))))))"

text \<open>One turn of the loop over the structure block: whether to go on, and the local variables.\<close>

definition parse_token :: "addr \<Rightarrow> addr \<Rightarrow> u64 \<Rightarrow> u64 \<Rightarrow> addr \<Rightarrow> 'a system_scheme \<Rightarrow>
    halt + bool \<times> u64 \<times> u64 \<times> addr \<times> 'a system_scheme" where
  "parse_token structs strings offset depth cur s =
     kassert (offset mod 4 = 0) (
     let token = READ_BIG_ENDIAN_U32 (kmem s) (structs + offset);
         offset = offset + 4
     in if token = token_value STRUCTURE_TOKEN_NODE_START then
          and_then (device_tree_parse_node cur structs offset s) (\<lambda>(offset, cur, s).
            if depth = 0 \<and> sv_size (node_name (kmem s) cur) = 0
            then Inr (True, offset, depth + 1, cur,
                   set_sv cur \<lparr>sv_data = lit_addr s ''/'', sv_size = 1\<rparr> (s\<lparr>dt := (dt s)\<lparr>root_node := cur\<rparr>\<rparr>))
            else Inr (True, offset, depth + 1, cur, s))
        else if token = token_value STRUCTURE_TOKEN_NODE_END then
          deref cur (Inr (True, offset, depth - 1, parent (kmem s) cur, s))
        else if token = token_value STRUCTURE_TOKEN_PROPERTY then
          and_then (device_tree_first_pass_property cur structs strings offset s) (\<lambda>(offset, s).
            Inr (True, offset, depth, cur, s))
        else if token = token_value STRUCTURE_TOKEN_NOP then Inr (True, offset, depth, cur, s)
        else if token = token_value STRUCTURE_TOKEN_END then
          (if cur \<noteq> 0
           then panic (SV ''STRUCTURE_TOKEN_END token found while parsing device tree blob, while not in the root node. Current depth: {X}'') [depth] s
           else Inr (False, offset, depth, cur, s))
        else panic (SV ''Unknown structure type ({X}) encountered while parsing device tree blob.'') [scast token] s)"

partial_function (option) parse_structs ::
    "addr \<Rightarrow> addr \<Rightarrow> u64 \<Rightarrow> u64 \<Rightarrow> addr \<Rightarrow> 'a system_scheme \<Rightarrow> (halt + 'a system_scheme) option" where
  "parse_structs structs strings offset depth cur s =
     (case parse_token structs strings offset depth cur s of
        Inl h \<Rightarrow> Some (Inl h)
      | Inr (going, offset, depth, cur, s) \<Rightarrow>
          if going then parse_structs structs strings offset depth cur s else Some (Inr s))"

section \<open>Second pass: typed properties\<close>

definition store128 :: "mem \<Rightarrow> addr \<Rightarrow> u8 list \<Rightarrow> mem" where
  "store128 m a bs = store_bytes m a bs"

text \<open>The two switches of one turn, and the loop over the remaining pairs.\<close>

definition rewrite_address :: "u32 \<Rightarrow> addr \<Rightarrow> u64 \<Rightarrow> addr \<Rightarrow> mem \<Rightarrow> halt + mem" where
  "rewrite_address cells addresses i p m =
     (if cells = 0 then Inr m
      else if cells = 1 then Inr (store32 m (addresses + 4 * i) (READ_BIG_ENDIAN_U32 m p))
      else if cells = 2 then Inr (store64 m (addresses + 8 * i) (READ_BIG_ENDIAN_U64 m p))
      else if cells = 3 then Inr (store128 m (addresses + 16 * i) (READ_BIG_ENDIAN_U128 m p))
      else Inl Unreachable)"

definition rewrite_size :: "u32 \<Rightarrow> addr \<Rightarrow> u64 \<Rightarrow> addr \<Rightarrow> mem \<Rightarrow> halt + mem" where
  "rewrite_size cells sizes i p m =
     (if cells = 0 then Inr m
      else if cells = 1 then Inr (store32 m (sizes + 4 * i) (READ_BIG_ENDIAN_U32 m p))
      else if cells = 2 then Inr (store64 m (sizes + 8 * i) (READ_BIG_ENDIAN_U64 m p))
      else Inl Unreachable)"

fun rewrite_pairs :: "nat \<Rightarrow> addr \<Rightarrow> addr \<Rightarrow> addr \<Rightarrow> addr \<Rightarrow> u64 \<Rightarrow> u64 \<Rightarrow> mem \<Rightarrow> halt + mem" where
  "rewrite_pairs 0 node data addresses sizes i j m = Inr m"
| "rewrite_pairs (Suc k) node data addresses sizes i j m =
     (let asz = 4 * ucast (address_cells m node); ssz = 4 * ucast (size_cells m node) in
      and_then (rewrite_address (address_cells m node) addresses i (data + j) m) (\<lambda>m.
      let j = j + asz in
      and_then (rewrite_size (size_cells m node) sizes i (data + j) m) (\<lambda>m.
      rewrite_pairs k node data addresses sizes (i + 1) (j + ssz) m)))"

definition rewrite_reg_property :: "addr \<Rightarrow> addr \<Rightarrow> 'a system_scheme \<Rightarrow> halt + 'a system_scheme" where
  "rewrite_reg_property node prop s =
     (let data = raw_data (kmem s) prop; len = raw_size (kmem s) prop;
          address_size = 4 * ucast (address_cells (kmem s) node);
          size_size = 4 * ucast (size_cells (kmem s) node)
      in if address_size + size_size = 0 then Inl Div_by_zero
         else
           let n_pairs = len div (address_size + size_size) in
           kassert (0 < n_pairs) (kassert (len mod (address_size + size_size) = 0)
           (kassert (address_cells (kmem s) node \<le> 3) (kassert (size_cells (kmem s) node \<le> 2)
           (and_then (dt_bump_alloc (address_size * n_pairs) address_size s) (\<lambda>(addresses, s).
            and_then (dt_bump_alloc (size_size * n_pairs) size_size s) (\<lambda>(sizes, s).
            kassert (if address_size = 0 then addresses = 0 else addresses \<noteq> 0)
            (kassert (if size_size = 0 then sizes = 0 else sizes \<noteq> 0)
            (and_then (rewrite_pairs (unat n_pairs) node data addresses sizes 0 0 (kmem s)) (\<lambda>m.
             let s = s\<lparr>kmem := m\<rparr>;
                 s = set32 (prop + 16) (property_type_value DT_PROPERTY_REG) s;
                 s = set64 (prop + 24) n_pairs s;
                 s = set64 (prop + 32) addresses s;
                 s = set64 (prop + 40) sizes s
             in Inr s))))))))))"

text \<open>The loop that fills the array of compatible strings; \<open>k\<close> entries are left.\<close>

fun fill_compatible :: "nat \<Rightarrow> addr \<Rightarrow> addr \<Rightarrow> u64 \<Rightarrow> u64 \<Rightarrow> u64 \<Rightarrow> 'a system_scheme \<Rightarrow> halt + 'a system_scheme" where
  "fill_compatible 0 node data len i j s = Inr s"
| "fill_compatible (Suc k) node data len i j s =
     (if j < len then
        and_then (null_term (data + j) s) (\<lambda>sv.
        let s = set_sv (compatible (kmem s) node + 16 * i) sv s in
        fill_compatible k node data len (i + 1)
          (j + (sv_size (sv_at (kmem s) (compatible (kmem s) node + 16 * i)) + 1)) s)
      else Inr s)"

definition count_nuls :: "mem \<Rightarrow> addr \<Rightarrow> u64 \<Rightarrow> u64" where
  "count_nuls m data len = of_nat (length (filter (\<lambda>c. c = 0) (load_bytes m data (unat len))))"

text \<open>
  One property in the first loop of \<^verbatim>\<open>device_tree_second_pass_properties\<close>: an error code, and the
  cell counts for the children.
\<close>

definition second_pass_property ::
    "addr \<Rightarrow> addr \<Rightarrow> u32 \<Rightarrow> u32 \<Rightarrow> 'a system_scheme \<Rightarrow> halt + u64 \<times> u32 \<times> u32 \<times> 'a system_scheme" where
  "second_pass_property cur prop next_address_cells next_size_cells s =
     (let name = prop_name (kmem s) prop in
      if sv_is (kmem s) name ''compatible'' then
        let data = raw_data (kmem s) prop; len = raw_size (kmem s) prop;
            num_strings = count_nuls (kmem s) data len;
            s = set64 (cur + 32) num_strings s
        in and_then (dt_bump_alloc (16 * num_strings) 16 s) (\<lambda>(arr, s).
           let s = set64 (cur + 24) arr s in
           kassert (compatible (kmem s) cur \<noteq> 0)
           (and_then (fill_compatible (unat num_strings) cur data len 0 0 s) (\<lambda>s.
            Inr (ec EC_SUCCESS, next_address_cells, next_size_cells,
              set32 (prop + 16) (property_type_value DT_PROPERTY_COMPATIBLE) s))))
      else if sv_is (kmem s) name ''#address-cells'' then
        let cells = READ_BIG_ENDIAN_U32 (kmem s) (raw_data (kmem s) prop);
            s = set32 (prop + 24) cells s
        in if 3 < cells then Inr (ec EC_DT_ADDRESS_CELLS_TOO_LARGE, next_address_cells, next_size_cells, s)
           else Inr (ec EC_SUCCESS, cells, next_size_cells, set32 (prop + 16) (property_type_value DT_PROPERTY_ADDRESS_CELLS) s)
      else if sv_is (kmem s) name ''#size-cells'' then
        let cells = READ_BIG_ENDIAN_U32 (kmem s) (raw_data (kmem s) prop);
            s = set32 (prop + 24) cells s
        in if 2 < cells then Inr (ec EC_DT_SIZE_CELLS_TOO_LARGE, next_address_cells, next_size_cells, s)
           else Inr (ec EC_SUCCESS, next_address_cells, cells, set32 (prop + 16) (property_type_value DT_PROPERTY_SIZE_CELLS) s)
      else if sv_is (kmem s) name ''phandle'' then
        let handle = READ_BIG_ENDIAN_U32 (kmem s) (raw_data (kmem s) prop);
            s = set32 (prop + 24) handle s;
            s = set32 (prop + 16) (property_type_value DT_PROPERTY_PHANDLE) s
        in and_then (dt_phandlemap_alloc s) (\<lambda>(map_entry, s).
           deref map_entry (
           let s = set32 map_entry (load32 (kmem s) (prop + 24)) s;
               s = set64 (map_entry + 8) cur s;
               s = set64 (map_entry + 16) (phandle_map (dt s)) s
           in Inr (ec EC_SUCCESS, next_address_cells, next_size_cells, s\<lparr>dt := (dt s)\<lparr>phandle_map := map_entry\<rparr>\<rparr>)))
      else if sv_is (kmem s) name ''reg'' then Inr (ec EC_SUCCESS, next_address_cells, next_size_cells, s)
      else and_then (kprintln (SV ''Unhandled Device Tree Property: {V}'') [sv_data name, sv_size name] s) (\<lambda>s.
        Inr (ec EC_SUCCESS, next_address_cells, next_size_cells, s)))"

partial_function (option) second_pass_loop ::
    "addr \<Rightarrow> addr \<Rightarrow> u32 \<Rightarrow> u32 \<Rightarrow> 'a system_scheme \<Rightarrow> (halt + u64 \<times> u32 \<times> u32 \<times> 'a system_scheme) option" where
  "second_pass_loop cur prop na ns s =
     (if prop = 0 then Some (Inr (ec EC_SUCCESS, na, ns, s))
      else case second_pass_property cur prop na ns s of
        Inl h \<Rightarrow> Some (Inl h)
      | Inr (err, na, ns, s) \<Rightarrow>
          if error_is_err err then Some (Inr (err, na, ns, s))
          else second_pass_loop cur (next_prop (kmem s) prop) na ns s)"

partial_function (option) rewrite_pass_loop :: "addr \<Rightarrow> addr \<Rightarrow> 'a system_scheme \<Rightarrow> (halt + 'a system_scheme) option" where
  "rewrite_pass_loop cur prop s =
     (if prop = 0 then Some (Inr s)
      else case (if sv_is (kmem s) (prop_name (kmem s) prop) ''reg'' then rewrite_reg_property cur prop s else Inr s) of
        Inl h \<Rightarrow> Some (Inl h)
      | Inr s \<Rightarrow> rewrite_pass_loop cur (next_prop (kmem s) prop) s)"

text \<open>Both loops over one node's properties.\<close>

definition second_pass_node :: "addr \<Rightarrow> 'a system_scheme \<Rightarrow> (halt + u64 \<times> u32 \<times> u32 \<times> 'a system_scheme) option" where
  "second_pass_node cur s =
     (case second_pass_loop cur (properties (kmem s) cur) (address_cells (kmem s) cur) (size_cells (kmem s) cur) s of
        None \<Rightarrow> None
      | Some (Inl h) \<Rightarrow> Some (Inl h)
      | Some (Inr (err, na, ns, s)) \<Rightarrow>
          if error_is_err err then Some (Inr (err, na, ns, s))
          else (case rewrite_pass_loop cur (properties (kmem s) cur) s of
                  None \<Rightarrow> None
                | Some (Inl h) \<Rightarrow> Some (Inl h)
                | Some (Inr s) \<Rightarrow> Some (Inr (err, na, ns, s))))"

text \<open>The loop over a node's children with the recursive call in its body.\<close>

partial_function (option) second_pass_children ::
    "addr \<Rightarrow> u32 \<Rightarrow> u32 \<Rightarrow> 'a system_scheme \<Rightarrow> (halt + u64 \<times> 'a system_scheme) option" where
  "second_pass_children child na ns s =
     (if child = 0 then Some (Inr (ec EC_SUCCESS, s))
      else
        let s = set32 (child + 16) na s; s = set32 (child + 20) ns s in
        case second_pass_node child s of
          None \<Rightarrow> None
        | Some (Inl h) \<Rightarrow> Some (Inl h)
        | Some (Inr (err, na', ns', s)) \<Rightarrow>
            if error_is_err err then Some (Inr (err, s))
            else Option.bind (second_pass_children (children (kmem s) child) na' ns' s) (\<lambda>r. case r of
                Inl h \<Rightarrow> Some (Inl h)
              | Inr (err, s) \<Rightarrow>
                  if error_is_err err then Some (Inr (err, s))
                  else second_pass_children (sibling (kmem s) child) na ns s))"

definition device_tree_second_pass_properties :: "addr \<Rightarrow> 'a system_scheme \<Rightarrow> (halt + u64 \<times> 'a system_scheme) option" where
  "device_tree_second_pass_properties cur s =
     (case second_pass_node cur s of
        None \<Rightarrow> None
      | Some (Inl h) \<Rightarrow> Some (Inl h)
      | Some (Inr (err, na, ns, s)) \<Rightarrow>
          if error_is_err err then Some (Inr (err, s)) else second_pass_children (children (kmem s) cur) na ns s)"

section \<open>The whole blob\<close>

text \<open>The pointer to the map is not advanced in the loop, as in the code.\<close>

partial_function (option) rsvmap_loop :: "addr \<Rightarrow> 'a system_scheme \<Rightarrow> (halt + 'a system_scheme) option" where
  "rsvmap_loop buffer_rsvmap s =
     (if get64 buffer_rsvmap s \<noteq> 0 \<and> get64 (buffer_rsvmap + 8) s \<noteq> 0 then
        case and_then (dt_reserved_alloc s) (\<lambda>(rr, s). deref rr (
             let s = set64 rr (ENDIANNESS_FLIP_U64 (get64 buffer_rsvmap s)) s;
                 s = set64 (rr + 8) (ENDIANNESS_FLIP_U64 (get64 (buffer_rsvmap + 8) s)) s;
                 s = set64 (rr + 16) (reserved_memory (dt s)) s
             in Inr (s\<lparr>dt := (dt s)\<lparr>reserved_memory := rr\<rparr>\<rparr>))) of
          Inl h \<Rightarrow> Some (Inl h)
        | Inr s \<Rightarrow> rsvmap_loop buffer_rsvmap s
      else Some (Inr s))"

definition no_hang :: "(halt + 'b) option \<Rightarrow> halt + 'b" where
  "no_hang r = (case r of None \<Rightarrow> Inl Hang | Some x \<Rightarrow> x)"

definition device_tree_parse_blob :: "addr \<Rightarrow> 'a system_scheme \<Rightarrow> halt + u64 \<times> 'a system_scheme" where
  "device_tree_parse_blob blob s =
     deref blob (
     if DEVICE_TREE_BLOB_MAGIC \<noteq> ENDIANNESS_FLIP_U32 (get32 (blob + header_offset magic) s)
     then Inr (ec EC_DT_BLOB_INVALID_MAGIC, s)
     else
       let s = s\<lparr>dt := (dt s)\<lparr>node_arena := slab_autorefill_init 72, property_arena := slab_autorefill_init 56,
                  reserved_arena := slab_autorefill_init 24, phandlemap_arena := slab_autorefill_init 24,
                  dt_bump := bump_initialize\<rparr>\<rparr>
       in and_then (kalloc (2 * PAGE_SIZE) PAGE_SIZE s) (\<lambda>(bump_mem, s).
          and_then (bump_grow (dt_bump (dt s)) (alloc_buffer bump_mem) (alloc_size bump_mem) (kmem s)) (\<lambda>(b, m).
          let s = s\<lparr>kmem := m, dt := (dt s)\<lparr>dt_bump := b, reserved_memory := 0\<rparr>\<rparr>
          in and_then (no_hang (rsvmap_loop (blob + ucast (ENDIANNESS_FLIP_U32 (get32 (blob + header_offset offset_rsvmap) s))) s)) (\<lambda>s.
          let structs = blob + ucast (ENDIANNESS_FLIP_U32 (get32 (blob + header_offset offset_structs) s));
              strings = blob + ucast (ENDIANNESS_FLIP_U32 (get32 (blob + header_offset offset_strings) s));
              s = s\<lparr>dt := (dt s)\<lparr>root_node := 0\<rparr>\<rparr>
          in and_then (no_hang (parse_structs structs strings 0 0 0 s)) (\<lambda>s.
             if root_node (dt s) = 0 then Inr (ec EC_DT_BLOB_EMPTY_TREE, s)
             else
               let s = set32 (root_node (dt s) + 16) DEFAULT_ADDRESS_CELLS s;
                   s = set32 (root_node (dt s) + 20) DEFAULT_SIZE_CELLS s
               in and_then (no_hang (device_tree_second_pass_properties (root_node (dt s)) s)) (\<lambda>(err, s).
                  if error_is_err err then Inr (error_push err EC_DT_BLOB_REWRITE_FAILED, s)
                  else Inr (ec EC_SUCCESS, s)))))))"

section \<open>Lookups\<close>

partial_function (option) get_property_loop :: "mem \<Rightarrow> string \<Rightarrow> addr \<Rightarrow> addr option" where
  "get_property_loop m name prop =
     (if prop = 0 then Some 0
      else if sv_is m (prop_name m prop) name then Some prop
      else get_property_loop m name (next_prop m prop))"

definition device_tree_get_property :: "mem \<Rightarrow> addr \<Rightarrow> string \<Rightarrow> halt + addr" where
  "device_tree_get_property m node name =
     deref node (case get_property_loop m name (properties m node) of None \<Rightarrow> Inl Hang | Some p \<Rightarrow> Inr p)"

text \<open>A node's compatible strings.\<close>

definition compatibles :: "mem \<Rightarrow> addr \<Rightarrow> str_view list" where
  "compatibles m node = map (\<lambda>i. sv_at m (compatible m node + 16 * of_nat i)) [0..<unat (compatible_count m node)]"

partial_function (option) dt_node_from_compatible_recursive :: "mem \<Rightarrow> string \<Rightarrow> addr \<Rightarrow> addr option" where
  "dt_node_from_compatible_recursive m name node =
     (if node = 0 then Some 0
      else if list_ex (\<lambda>c. sv_is m c name) (compatibles m node) then Some node
      else Option.bind (dt_node_from_compatible_recursive m name (children m node)) (\<lambda>found.
        if found \<noteq> 0 then Some found else dt_node_from_compatible_recursive m name (sibling m node)))"

definition dt_node_from_compatible :: "string \<Rightarrow> 'a system_scheme \<Rightarrow> halt + addr" where
  "dt_node_from_compatible name s =
     (if root_node (dt s) = 0 then Inr 0
      else case dt_node_from_compatible_recursive (kmem s) name (root_node (dt s)) of None \<Rightarrow> Inl Hang | Some n \<Rightarrow> Inr n)"

end
