(* ===== verification/Device_Tree_Laws.thy ===== *)
theory Device_Tree_Laws
  imports Device_Tree
begin

text \<open>
  What the device tree's routines promise: byte order, the lookups as searches of the abstract
  lists and trees that the structures in memory represent, the steps of the first pass, the
  decoding of \<^verbatim>\<open>reg\<close> properties and the cell counts of the second pass.
\<close>

section \<open>Byte order\<close>

text \<open>One byte of a shifted and masked word.\<close>

lemma byte_term:
  assumes "r < 8" and "LENGTH('a::len) = 8 * length bs" and "j < length bs" and "q < length bs"
  shows "e + j < length bs \<Longrightarrow> bit (drop_bit (8 * e) (word_of_bytes bs :: 'a word) AND push_bit (8 * j) (mask 8)) (8 * q + r) \<longleftrightarrow>
      q = j \<and> bit (bs ! (e + j)) r"
    and "e \<le> j \<Longrightarrow> bit (push_bit (8 * e) (word_of_bytes bs :: 'a word) AND push_bit (8 * j) (mask 8)) (8 * q + r) \<longleftrightarrow>
      q = j \<and> bit (bs ! (j - e)) r"
proof -
  have lt: "8 * q + r < LENGTH('a)" using assms(1,2,4) by linarith
  have m: "bit (push_bit (8 * j) (mask 8) :: 'a word) (8 * q + r) \<longleftrightarrow> q = j"
    using lt assms(1) by (auto simp: bit_push_bit_iff bit_mask_iff)
  have w: "bit (word_of_bytes bs :: 'a word) (8 * k + r) \<longleftrightarrow> bit (bs ! k) r" if "k < length bs" for k
    using assms(1,2) that by (auto simp: bit_word_of_bytes)
  show "bit (drop_bit (8 * e) (word_of_bytes bs :: 'a word) AND push_bit (8 * j) (mask 8)) (8 * q + r) \<longleftrightarrow>
      q = j \<and> bit (bs ! (e + j)) r" if "e + j < length bs"
    using m w [of "e + q"] that by (auto simp: bit_and_iff bit_drop_bit_eq algebra_simps)
  show "bit (push_bit (8 * e) (word_of_bytes bs :: 'a word) AND push_bit (8 * j) (mask 8)) (8 * q + r) \<longleftrightarrow>
      q = j \<and> bit (bs ! (j - e)) r" if "e \<le> j"
  proof -
    have "8 * q + r - 8 * e = 8 * (q - e) + r" if "q = j" using that \<open>e \<le> j\<close> by (simp add: algebra_simps)
    then show ?thesis using m w [of "j - e"] that lt assms(3) by (auto simp: bit_and_iff bit_push_bit_iff)
  qed
qed

lemma rev_bytes_bit:
  "bit (word_of_bytes (rev bs) :: 'a::len word) (8 * q + r) \<longleftrightarrow> 8 * q + r < LENGTH('a) \<and> q < length bs \<and> bit (bs ! (length bs - Suc q)) r"
  if "r < 8"
  using that by (auto simp: bit_word_of_bytes rev_nth)

lemma ENDIANNESS_FLIP_U32_bytes:
  assumes l: "length bs = 4"
  shows "ENDIANNESS_FLIP_U32 (word_of_bytes bs) = word_of_bytes (rev bs)"
proof (rule bit_word_eqI)
  let ?w = "word_of_bytes bs :: u32"
  fix n assume n: "n < LENGTH(32)"
  define q r where "q = n div 8" and "r = n mod 8"
  have qr: "n = 8 * q + r" "r < 8" "q < 4" using n by (auto simp: q_def r_def)
  have e: "ENDIANNESS_FLIP_U32 x =
    (drop_bit 24 x AND mask 8) OR
    (drop_bit 8 x AND push_bit 8 (mask 8)) OR
    (push_bit 8 x AND push_bit 16 (mask 8)) OR
    (push_bit 24 x AND push_bit 24 (mask 8))" for x
    by (simp add: ENDIANNESS_FLIP_U32_def mask_eq_exp_minus_1)
  note b = byte_term [OF qr(2), where bs = bs and q = q and 'a = 32]
  have t0: "bit (drop_bit 24 ?w AND mask 8) (8 * q + r) \<longleftrightarrow> q = 0 \<and> bit (bs ! 3) r"
    using l qr(3) b(1) [of 0 3] by (simp del: One_nat_def)
  have t1: "bit (drop_bit 8 ?w AND push_bit 8 (mask 8)) (8 * q + r) \<longleftrightarrow> q = 1 \<and> bit (bs ! 2) r"
    using l qr(3) b(1) [of 1 1] by (simp del: One_nat_def)
  have t2: "bit (push_bit 8 ?w AND push_bit 16 (mask 8)) (8 * q + r) \<longleftrightarrow> q = 2 \<and> bit (bs ! Suc 0) r"
    using l qr(3) b(2) [of 2 1] by (simp del: One_nat_def)
  have t3: "bit (push_bit 24 ?w AND push_bit 24 (mask 8)) (8 * q + r) \<longleftrightarrow> q = 3 \<and> bit (bs ! 0) r"
    using l qr(3) b(2) [of 3 3] by (simp del: One_nat_def)
  have "q \<in> {0, 1, 2, 3}" using qr(3) by auto
  then show "bit (ENDIANNESS_FLIP_U32 ?w) n = bit (word_of_bytes (rev bs) :: u32) n"
    unfolding qr(1) rev_bytes_bit [OF qr(2)] e bit_or_iff t0 t1 t2 t3
    using qr(2) l by (elim insertE emptyE) simp_all
qed

lemma ENDIANNESS_FLIP_U64_bytes:
  assumes l: "length bs = 8"
  shows "ENDIANNESS_FLIP_U64 (word_of_bytes bs) = word_of_bytes (rev bs)"
proof (rule bit_word_eqI)
  let ?w = "word_of_bytes bs :: u64"
  fix n assume n: "n < LENGTH(64)"
  define q r where "q = n div 8" and "r = n mod 8"
  have qr: "n = 8 * q + r" "r < 8" "q < 8" using n by (auto simp: q_def r_def)
  have e: "ENDIANNESS_FLIP_U64 x =
    (drop_bit 56 x AND mask 8) OR
    (drop_bit 40 x AND push_bit 8 (mask 8)) OR
    (drop_bit 24 x AND push_bit 16 (mask 8)) OR
    (drop_bit 8 x AND push_bit 24 (mask 8)) OR
    (push_bit 8 x AND push_bit 32 (mask 8)) OR
    (push_bit 24 x AND push_bit 40 (mask 8)) OR
    (push_bit 40 x AND push_bit 48 (mask 8)) OR
    (push_bit 56 x AND push_bit 56 (mask 8))" for x
    by (simp add: ENDIANNESS_FLIP_U64_def mask_eq_exp_minus_1)
  note b = byte_term [OF qr(2), where bs = bs and q = q and 'a = 64]
  have t0: "bit (drop_bit 56 ?w AND mask 8) (8 * q + r) \<longleftrightarrow> q = 0 \<and> bit (bs ! 7) r"
    using l qr(3) b(1) [of 0 7] by (simp del: One_nat_def)
  have t1: "bit (drop_bit 40 ?w AND push_bit 8 (mask 8)) (8 * q + r) \<longleftrightarrow> q = 1 \<and> bit (bs ! 6) r"
    using l qr(3) b(1) [of 1 5] by (simp del: One_nat_def)
  have t2: "bit (drop_bit 24 ?w AND push_bit 16 (mask 8)) (8 * q + r) \<longleftrightarrow> q = 2 \<and> bit (bs ! 5) r"
    using l qr(3) b(1) [of 2 3] by (simp del: One_nat_def)
  have t3: "bit (drop_bit 8 ?w AND push_bit 24 (mask 8)) (8 * q + r) \<longleftrightarrow> q = 3 \<and> bit (bs ! 4) r"
    using l qr(3) b(1) [of 3 1] by (simp del: One_nat_def)
  have t4: "bit (push_bit 8 ?w AND push_bit 32 (mask 8)) (8 * q + r) \<longleftrightarrow> q = 4 \<and> bit (bs ! 3) r"
    using l qr(3) b(2) [of 4 1] by (simp del: One_nat_def)
  have t5: "bit (push_bit 24 ?w AND push_bit 40 (mask 8)) (8 * q + r) \<longleftrightarrow> q = 5 \<and> bit (bs ! 2) r"
    using l qr(3) b(2) [of 5 3] by (simp del: One_nat_def)
  have t6: "bit (push_bit 40 ?w AND push_bit 48 (mask 8)) (8 * q + r) \<longleftrightarrow> q = 6 \<and> bit (bs ! Suc 0) r"
    using l qr(3) b(2) [of 6 5] by (simp del: One_nat_def)
  have t7: "bit (push_bit 56 ?w AND push_bit 56 (mask 8)) (8 * q + r) \<longleftrightarrow> q = 7 \<and> bit (bs ! 0) r"
    using l qr(3) b(2) [of 7 7] by (simp del: One_nat_def)
  have "q \<in> {0, 1, 2, 3, 4, 5, 6, 7}" using qr(3) by auto
  then show "bit (ENDIANNESS_FLIP_U64 ?w) n = bit (word_of_bytes (rev bs) :: u64) n"
    unfolding qr(1) rev_bytes_bit [OF qr(2)] e bit_or_iff t0 t1 t2 t3 t4 t5 t6 t7
    using qr(2) l by (elim insertE emptyE) simp_all
qed

lemma endianness_flip_u128_rev: "length bs = 16 \<Longrightarrow> endianness_flip_u128 bs = rev bs"
  by (simp add: endianness_flip_u128_def list_eq_iff_nth_eq rev_nth)

lemma flip_flip: "ENDIANNESS_FLIP_U32 (ENDIANNESS_FLIP_U32 x) = x" "ENDIANNESS_FLIP_U64 (ENDIANNESS_FLIP_U64 y) = y"
  using ENDIANNESS_FLIP_U32_bytes [of "bytes_of_word 4 x"] ENDIANNESS_FLIP_U32_bytes [of "rev (bytes_of_word 4 x)"]
    ENDIANNESS_FLIP_U64_bytes [of "bytes_of_word 8 y"] ENDIANNESS_FLIP_U64_bytes [of "rev (bytes_of_word 8 y)"]
  by (simp_all add: word_of_bytes_of_word)

text \<open>
  The masks and shifts of the byte-order macros reverse the bytes: a big-endian read of 4, 8 or
  16 bytes is the little-endian value of the reversed bytes, and flipping twice is the identity.
\<close>

theorem big_endian_reads:
  "READ_BIG_ENDIAN_U32 m p = word_of_bytes (rev (load_bytes m p 4)) \<and>
   READ_BIG_ENDIAN_U64 m p = word_of_bytes (rev (load_bytes m p 8)) \<and>
   READ_BIG_ENDIAN_U128 m p = rev (load_bytes m p 16) \<and>
   ENDIANNESS_FLIP_U32 (ENDIANNESS_FLIP_U32 x) = x \<and> ENDIANNESS_FLIP_U64 (ENDIANNESS_FLIP_U64 y) = y"
  by (simp add: READ_BIG_ENDIAN_U32_def READ_BIG_ENDIAN_U64_def READ_BIG_ENDIAN_U128_def load32_def load64_def
      ENDIANNESS_FLIP_U32_bytes ENDIANNESS_FLIP_U64_bytes endianness_flip_u128_rev flip_flip)

section \<open>Lookups\<close>

text \<open>The first element of a list with a property, as an address, or the null pointer.\<close>

definition first_or_null :: "(addr \<Rightarrow> bool) \<Rightarrow> addr list \<Rightarrow> addr" where
  "first_or_null P ps = (case find P ps of None \<Rightarrow> 0 | Some p \<Rightarrow> p)"

lemma first_or_null_simps [simp]:
  "first_or_null P [] = 0" "first_or_null P (p # ps) = (if P p then p else first_or_null P ps)"
  by (simp_all add: first_or_null_def)

lemma first_or_null_zero: "0 \<notin> set ps \<Longrightarrow> first_or_null P ps = 0 \<longleftrightarrow> (\<forall>p \<in> set ps. \<not> P p)"
  by (induction ps) auto

lemma first_or_null_append:
  "0 \<notin> set ps \<Longrightarrow> first_or_null P (ps @ qs) = (if first_or_null P ps \<noteq> 0 then first_or_null P ps else first_or_null P qs)"
  by (induction ps) auto

lemma get_property_loop_correct:
  "chain 48 m p ps \<Longrightarrow> get_property_loop m name p = Some (first_or_null (\<lambda>q. sv_is m (prop_name m q) name) ps)"
  by (induction ps arbitrary: p) (simp_all add: get_property_loop.simps chain_Cons next_prop_def)

text \<open>
  The tree below a first child or root as the code links it: a node, the forest of its children and
  the forest of its next siblings.
\<close>

datatype forest = Nil_forest | Node addr (node_children: forest) (node_siblings: forest)

fun forest_at :: "mem \<Rightarrow> addr \<Rightarrow> forest \<Rightarrow> bool" where
  "forest_at m p Nil_forest \<longleftrightarrow> p = 0"
| "forest_at m p (Node n cs ss) \<longleftrightarrow> p = n \<and> n \<noteq> 0 \<and> forest_at m (children m n) cs \<and> forest_at m (sibling m n) ss"

text \<open>The nodes in document order: a node, its children, its siblings.\<close>

fun preorder :: "forest \<Rightarrow> addr list" where
  "preorder Nil_forest = []"
| "preorder (Node n cs ss) = n # preorder cs @ preorder ss"

lemma preorder_nonzero: "forest_at m p f \<Longrightarrow> 0 \<notin> set (preorder f)"
  by (induction f arbitrary: p) auto

lemma dt_node_from_compatible_recursive_correct:
  "forest_at m p f \<Longrightarrow> dt_node_from_compatible_recursive m name p =
     Some (first_or_null (\<lambda>n. list_ex (\<lambda>c. sv_is m c name) (compatibles m n)) (preorder f))"
proof (induction f arbitrary: p)
  case Nil_forest
  then show ?case by (simp add: dt_node_from_compatible_recursive.simps)
next
  case (Node n cs ss)
  have nz: "0 \<notin> set (preorder cs)" using Node.prems preorder_nonzero [of m "children m n" cs] by simp
  show ?case
    by (subst dt_node_from_compatible_recursive.simps) (use Node nz in \<open>simp add: first_or_null_append\<close>)
qed

text \<open>
  Looking up a property by name returns the first property of the node's list with that name,
  or null when there is none.
\<close>

theorem device_tree_get_property_first:
  assumes "node \<noteq> 0" and "chain 48 m (properties m node) ps"
  shows "device_tree_get_property m node name = Inr (first_or_null (\<lambda>q. sv_is m (prop_name m q) name) ps)"
  using assms by (simp add: device_tree_get_property_def get_property_loop_correct)

text \<open>
  C35: looking up a node by a compatible string returns the first node of the tree, in document
  order, with that string among its compatible strings, or null when no node has it.
\<close>

theorem dt_node_from_compatible_first:
  assumes "forest_at (kmem s) (root_node (dt s)) f"
  shows "dt_node_from_compatible name s =
    Inr (first_or_null (\<lambda>n. list_ex (\<lambda>c. sv_is (kmem s) c name) (compatibles (kmem s) n)) (preorder f))"
  using dt_node_from_compatible_recursive_correct [OF assms, of name] assms
  by (cases f) (auto simp: dt_node_from_compatible_def)

section \<open>The reserved memory map\<close>

lemma rsvmap_loop_returns:
  assumes "rsvmap_loop b s = Some r"
  shows "\<forall>s'. r = Inr s' \<longrightarrow> (get64 b s' = 0 \<or> get64 (b + 8) s' = 0) \<and>
    (s' = s \<or> get64 b s \<noteq> 0 \<and> get64 (b + 8) s \<noteq> 0)"
  by (rule rsvmap_loop.raw_induct [OF _ assms]) (auto split: if_splits sum.splits)

text \<open>
  C39: the loop over the reserved memory map reads the same entry on every turn: it returns, and then
  has recorded nothing, only when the first entry is the terminator; a map with an entry is never
  left unless the entry itself has been overwritten meanwhile.
\<close>

theorem rsvmap_never_advances:
  assumes "rsvmap_loop b s = Some (Inr s')" and "agree_on (extent b 8 \<union> extent (b + 8) 8) (kmem s') (kmem s)"
  shows "s' = s \<and> (get64 b s = 0 \<or> get64 (b + 8) s = 0)"
proof -
  have "get64 b s' = get64 b s" "get64 (b + 8) s' = get64 (b + 8) s"
    unfolding get64_def by (rule load64_agree [OF assms(2)]; blast)+
  then show ?thesis using rsvmap_loop_returns [OF assms(1)] by auto
qed

section \<open>The first pass\<close>

lemma mod_4_dvd: "(x :: u64) mod 4 = 0 \<longleftrightarrow> 4 dvd unat x"
  by (simp add: word_unat_eq_iff unat_mod dvd_eq_mod_eq_0)

lemma dvd_unat_add: "4 dvd unat x \<Longrightarrow> 4 dvd unat y \<Longrightarrow> 4 dvd unat (x + y :: u64)"
  by (simp add: unat_word_ariths dvd_mod_iff)

lemma ALIGN_UP_4: "4 dvd unat (ALIGN_UP x 4)"
  using ALIGN_UP_pow2_dvd [of 2 x] by simp

text \<open>The states the loop over the structure block passes through.\<close>

inductive parse_states :: "addr \<Rightarrow> addr \<Rightarrow> 'a system_scheme \<Rightarrow> u64 \<Rightarrow> u64 \<Rightarrow> addr \<Rightarrow> 'a system_scheme \<Rightarrow> bool"
  for structs strings s0 where
  start: "parse_states structs strings s0 0 0 0 s0"
| token: "parse_states structs strings s0 offset depth cur s \<Longrightarrow>
    parse_token structs strings offset depth cur s = Inr (True, offset', depth', cur', s') \<Longrightarrow>
    parse_states structs strings s0 offset' depth' cur' s'"

lemma parse_token_aligned:
  assumes run: "parse_token structs strings offset depth cur s = Inr (going, offset', depth', cur', s')"
  shows "4 dvd unat offset'"
proof -
  have o: "4 dvd unat offset" using run by (simp add: parse_token_def kassert_eq_Inr mod_4_dvd)
  have "4 dvd unat (4 :: u64)" by simp
  then have o4: "4 dvd unat (offset + 4)" "4 dvd unat (offset + 4 + 4 + 4)" using o by (blast intro: dvd_unat_add)+
  show ?thesis using run o4 ALIGN_UP_4 dvd_unat_add
    by (auto simp: parse_token_def kassert_eq_Inr deref_eq_Inr and_then_eq_Inr Let_def device_tree_parse_node_def
        device_tree_first_pass_property_def split: if_splits)
qed

text \<open>
  C37: in every state the loop over the structure block reaches, the offset is a multiple of four:
  names and values are padded to the next token, and the assertion at the head of the loop never
  fails.
\<close>

theorem parse_offsets_aligned:
  assumes "parse_states structs strings s0 offset depth cur s"
  shows "offset mod 4 = 0"
  unfolding mod_4_dvd using assms by induction (auto dest: parse_token_aligned)

text \<open>The structures that a tree in memory consists of, and what keeps it.\<close>

lemma forest_agree:
  assumes "forest_at m p f" and "agree_on (\<Union>q \<in> set (preorder f). extent q 72) m' m"
  shows "forest_at m' p f"
  using assms
proof (induction f arbitrary: p)
  case (Node n cs ss)
  have "agree_on (extent n 72) m' m" using Node.prems(2) by (auto intro: agree_on_mono)
  then have "load64 m' (n + 56) = load64 m (n + 56)" "load64 m' (n + 64) = load64 m (n + 64)"
    using extent_field [of 56 8 72 n] extent_field [of 64 8 72 n] by (auto intro: load64_agree)
  moreover have "agree_on (\<Union>q \<in> set (preorder cs). extent q 72) m' m" "agree_on (\<Union>q \<in> set (preorder ss). extent q 72) m' m"
    using Node.prems(2) by (auto intro: agree_on_mono)
  ultimately show ?case using Node by (simp add: children_def sibling_def)
qed simp

lemma null_term_eq: "null_term p s = Inr sv \<longleftrightarrow> sv_from_null_term (kmem s) p = Some sv"
  by (simp add: null_term_def split: option.split)

lemma device_tree_parse_node_correct:
  fixes s s1 :: "'a system_scheme"
  assumes al: "dt_node_alloc s = Inr (n, s1)" and n: "n \<noteq> 0"
    and name: "sv_from_null_term (kmem s1) (structs + offset) = Some name"
    and ap: "cur \<noteq> 0 \<Longrightarrow> extent n 72 \<inter> extent cur 72 = {}"
  shows "\<exists>m'. device_tree_parse_node cur structs offset s = Inr (offset + ALIGN_UP (sv_size name + 1) 4, n, s1\<lparr>kmem := m'\<rparr>) \<and>
    node_name m' n = name \<and> parent m' n = cur \<and> children m' n = 0 \<and> properties m' n = 0 \<and> compatible_count m' n = 0 \<and>
    sibling m' n = (if cur = 0 then 0 else children (kmem s1) cur) \<and> (cur \<noteq> 0 \<longrightarrow> children m' cur = n) \<and>
    agree_on (- (extent n 72 \<union> (if cur = 0 then {} else extent (cur + 56) 8))) m' (kmem s1)"
proof -
  define m1 where "m1 = store64 (store64 (store64 (store64 (store64 (store64 (store64 (store64 (kmem s1) n (sv_data name))
    (n + 8) (sv_size name)) (n + 48) cur) (n + 64) 0) (n + 56) 0) (n + 40) 0) (n + 24) 0) (n + 32) 0"
  have ag1: "agree_on (- extent n 72) m1 (kmem s1)"
  proof -
    have "agree_on (- extent n 72) (store64 (kmem s1) n (sv_data name)) (kmem s1)"
      using store_in_struct [of n 72 "kmem s1" "kmem s1" 0] by simp
    then show ?thesis unfolding m1_def by (intro store_in_struct) simp_all
  qed
  have f1: "load64 m1 n = sv_data name" "load64 m1 (n + 8) = sv_size name" "load64 m1 (n + 48) = cur" "load64 m1 (n + 56) = 0"
    "load64 m1 (n + 40) = 0" "load64 m1 (n + 32) = 0" "load64 m1 (n + 64) = 0"
    by (simp_all add: m1_def mem_simps)
  define m' where "m' = (if cur = 0 then m1 else store64 (store64 m1 (n + 64) (children m1 cur)) (cur + 56) n)"
  have c1: "children m1 cur = children (kmem s1) cur" if "cur \<noteq> 0"
    unfolding children_def using ap [OF that] extent_field [of 56 8 72 cur] by (intro load64_agree [OF ag1]) auto
  have keep: "load64 (store64 m (cur + 56) v) (n + j) = load64 m (n + j)" if "cur \<noteq> 0" "unat j + 8 \<le> 72" for m v j
    using load64_store64_fields [of cur 72 n 72 56 j m v] ap [OF that(1)] that(2) by auto
  have f2: "load64 m' (n + j) = load64 m1 (n + j)" if "unat j + 8 \<le> 64" for j
  proof -
    have "load64 (store64 m1 (n + 64) v) (n + j) = load64 m1 (n + j)" for v
      using that unat_diff_cases [of j 64] unat_diff_cases [of 64 j]
      by (intro load64_store64_other) (auto split: if_splits)
    then show ?thesis using that keep [of j] by (simp add: m'_def)
  qed
  have s': "load64 m' (n + 64) = (if cur = 0 then 0 else children (kmem s1) cur)"
    using f1(7) keep [of 64] c1 by (simp add: m'_def)
  have nm: "node_name m' n = name" using f2 [of 0] f2 [of 8] f1 by (simp add: node_name_def sv_at_def)
  have run: "device_tree_parse_node cur structs offset s = Inr (offset + ALIGN_UP (sv_size (node_name m' n) + 1) 4, n, s1\<lparr>kmem := m'\<rparr>)"
  proof -
    have nt: "null_term (structs + offset) s1 = Inr name" using name by (simp add: null_term_eq)
    note D = device_tree_parse_node_def al nt set_sv_def set64_def m'_def
    show ?thesis
    proof (cases "cur = 0")
      case True
      then show ?thesis using n by (simp add: D m1_def)
    next
      case False
      then show ?thesis using n by (simp add: D flip: m1_def)
    qed
  qed
  have ag: "agree_on (- (extent n 72 \<union> (if cur = 0 then {} else extent (cur + 56) 8))) m' (kmem s1)"
  proof (cases "cur = 0")
    case True
    then show ?thesis using ag1 by (simp add: m'_def)
  next
    case False
    let ?B = "- (extent n 72 \<union> extent (cur + 56) 8)"
    let ?m2 = "store64 m1 (n + 64) (children m1 cur)"
    have "agree_on (- extent n 72) ?m2 (kmem s1)" by (rule store_in_struct [OF ag1]) simp_all
    then have "agree_on ?B ?m2 (kmem s1)" by (rule agree_on_mono) blast
    moreover have "agree_on ?B (store64 ?m2 (cur + 56) n) ?m2" by (rule store64_agree) blast
    ultimately have "agree_on ?B m' (kmem s1)" unfolding m'_def using False by (simp add: agree_on_trans)
    then show ?thesis using False by simp
  qed
  have "load64 m' (cur + 56) = n" if "cur \<noteq> 0" using that by (simp add: m'_def)
  then show ?thesis using run nm f2 [of 48] f2 [of 56] f2 [of 40] f2 [of 32] f1 s' ag
    by (intro exI [of _ m']) (simp add: parent_def children_def properties_def compatible_count_def sibling_def)
qed

text \<open>Fresh memory: a block that touches none of the given ones, which the allocation left alone.\<close>

definition fresh_block :: "addr \<Rightarrow> nat \<Rightarrow> addr set \<Rightarrow> 'a machine_scheme \<Rightarrow> 'a machine_scheme \<Rightarrow> bool" where
  "fresh_block n k A s s1 \<longleftrightarrow> n \<noteq> 0 \<and> extent n k \<inter> A = {} \<and> agree_on A (kmem s1) (kmem s)"

text \<open>
  With fresh memory for the node, the start of a node below an open node \<open>cur\<close> pushes a leaf on
  the front of \<open>cur\<close>'s children: the forest below \<open>cur\<close> is the new node, without children or
  properties and with \<open>cur\<close> as its parent, followed by the forest there was; the offset moves past
  the padded name, and the new node becomes the open one.
\<close>

theorem parse_node_pushes_child:
  fixes s s1 :: "'a system_scheme"
  assumes "dt_node_alloc s = Inr (n, s1)" and "sv_from_null_term (kmem s1) (structs + offset) = Some name" and "cur \<noteq> 0"
    and "forest_at (kmem s) (children (kmem s) cur) f"
    and "fresh_block n 72 (extent cur 72 \<union> (\<Union>q \<in> set (preorder f). extent q 72)) s s1"
    and "extent cur 72 \<inter> (\<Union>q \<in> set (preorder f). extent q 72) = {}"
  shows "\<exists>s'. device_tree_parse_node cur structs offset s = Inr (offset + ALIGN_UP (sv_size name + 1) 4, n, s') \<and>
    forest_at (kmem s') (children (kmem s') cur) (Node n Nil_forest f) \<and>
    node_name (kmem s') n = name \<and> parent (kmem s') n = cur \<and> properties (kmem s') n = 0"
proof -
  let ?F = "\<Union>q \<in> set (preorder f). extent q 72"
  have n: "n \<noteq> 0" "extent n 72 \<inter> extent cur 72 = {}" "extent n 72 \<inter> ?F = {}" "agree_on (extent cur 72) (kmem s1) (kmem s)"
    "agree_on ?F (kmem s1) (kmem s)"
    using assms(5) by (auto simp: fresh_block_def intro: agree_on_mono)
  obtain m' where m': "device_tree_parse_node cur structs offset s = Inr (offset + ALIGN_UP (sv_size name + 1) 4, n, s1\<lparr>kmem := m'\<rparr>)"
    "node_name m' n = name" "parent m' n = cur" "children m' n = 0" "properties m' n = 0"
    "sibling m' n = children (kmem s1) cur" "children m' cur = n"
    "agree_on (- (extent n 72 \<union> extent (cur + 56) 8)) m' (kmem s1)"
    using device_tree_parse_node_correct [OF assms(1) n(1) assms(2), of cur] n(2) assms(3) by auto
  have c56: "extent (cur + 56) 8 \<subseteq> extent cur 72" by (rule extent_field) simp_all
  have "agree_on ?F m' (kmem s1)" using n(3) assms(6) c56 by (intro agree_on_mono [OF m'(8)]) blast
  then have "agree_on ?F m' (kmem s)" using n(5) by (blast intro: agree_on_trans)
  then have "forest_at m' (children (kmem s) cur) f" by (rule forest_agree [OF assms(4)])
  moreover have "children (kmem s1) cur = children (kmem s) cur"
    unfolding children_def by (rule load64_agree [OF n(4) c56])
  ultimately show ?thesis using m' n(1) by (intro exI [of _ "s1\<lparr>kmem := m'\<rparr>"]) simp
qed

lemma first_pass_property_correct:
  fixes s s1 :: "'a system_scheme"
  assumes al: "dt_property_alloc s = Inr (p, s1)" and p: "p \<noteq> 0" and c: "cur \<noteq> 0"
    and name: "sv_from_null_term (kmem s1) (strings + ucast (READ_BIG_ENDIAN_U32 (kmem s) (structs + offset + 4))) = Some name"
    and ap: "extent p 56 \<inter> extent cur 72 = {}"
  defines "len \<equiv> ucast (READ_BIG_ENDIAN_U32 (kmem s) (structs + offset)) :: u64"
  shows "\<exists>m'. device_tree_first_pass_property cur structs strings offset s = Inr (offset + 8 + ALIGN_UP len 4, s1\<lparr>kmem := m'\<rparr>) \<and>
    prop_name m' p = name \<and> prop_type m' p = property_type_value DT_PROPERTY_RAW \<and> raw_data m' p = structs + (offset + 8) \<and>
    raw_size m' p = len \<and> next_prop m' p = properties (kmem s1) cur \<and> properties m' cur = p \<and>
    agree_on (- (extent p 56 \<union> extent (cur + 40) 8)) m' (kmem s1)"
proof -
  define q where "q = properties (kmem s1) cur"
  define m0 where "m0 = store32 (store64 (store64 (kmem s1) p (sv_data name)) (p + 8) (sv_size name)) (p + 16) 0"
  define m1 where "m1 = store64 (store64 (store64 m0 (p + 48) q) (p + 24) (structs + (offset + 8))) (p + 32) len"
  define m' where "m' = store64 m1 (cur + 40) p"
  have ag0: "agree_on (- extent p 56) m0 (kmem s1)"
  proof -
    have "agree_on (- extent p 56) (store64 (kmem s1) p (sv_data name)) (kmem s1)"
      using store_in_struct [of p 56 "kmem s1" "kmem s1" 0] by simp
    then have "agree_on (- extent p 56) (store64 (store64 (kmem s1) p (sv_data name)) (p + 8) (sv_size name)) (kmem s1)"
      by (rule store_in_struct) simp_all
    moreover have "agree_on (- extent p 56) (store32 m (p + 16) v) m" for m v
      using extent_field [of 16 4 56 p] by (intro store32_agree) auto
    ultimately show ?thesis unfolding m0_def by (blast intro: agree_on_trans)
  qed
  then have ag1: "agree_on (- extent p 56) m1 (kmem s1)" unfolding m1_def by (intro store_in_struct) simp_all
  have c40: "extent (cur + 40) 8 \<subseteq> extent cur 72" by (rule extent_field) simp_all
  have q0: "load64 m0 (cur + 40) = q"
    using ap c40 by (simp add: q_def properties_def) (intro load64_agree [OF ag0], blast)
  have keep: "load64 m' (p + j) = load64 m1 (p + j)" if "unat j + 8 \<le> 56" for j
    unfolding m'_def using load64_store64_fields [of cur 72 p 56 40 j m1 p] ap that by auto
  have keep32: "load32 m' (p + 16) = load32 m1 (p + 16)"
  proof -
    have "extent (p + 16) 4 \<subseteq> extent p 56" by (rule extent_field) simp_all
    then have "agree_on (extent (p + 16) 4) m' m1" unfolding m'_def using ap c40 by (intro store64_agree) blast
    then show ?thesis by (rule load32_agree) simp
  qed
  have f: "load64 m1 p = sv_data name" "load64 m1 (p + 8) = sv_size name" "load32 m1 (p + 16) = 0" "load64 m1 (p + 48) = q"
    "load64 m1 (p + 24) = structs + (offset + 8)" "load64 m1 (p + 32) = len"
    by (simp_all add: m1_def m0_def mem_simps)
  have run: "device_tree_first_pass_property cur structs strings offset s = Inr (offset + 8 + ALIGN_UP len 4, s1\<lparr>kmem := m'\<rparr>)"
  proof -
    have a: "structs + (offset + 4) = structs + offset + 4" "offset + 4 + 4 = offset + 8" by simp_all
    have nt: "null_term (strings + ucast (READ_BIG_ENDIAN_U32 (kmem s) (structs + offset + 4))) s1 = Inr name"
      using name by (simp add: null_term_eq)
    show ?thesis unfolding device_tree_first_pass_property_def Let_def a
      using p c q0 by (simp add: al nt set_sv_def set64_def set32_def properties_def flip: len_def m0_def) (simp add: m'_def m1_def)
  qed
  have ag: "agree_on (- (extent p 56 \<union> extent (cur + 40) 8)) m' (kmem s1)"
  proof -
    have "agree_on (- (extent p 56 \<union> extent (cur + 40) 8)) m' m1" unfolding m'_def by (rule store64_agree) blast
    moreover have "agree_on (- (extent p 56 \<union> extent (cur + 40) 8)) m1 (kmem s1)" by (rule agree_on_mono [OF ag1]) blast
    ultimately show ?thesis by (rule agree_on_trans)
  qed
  show ?thesis
    using run ag keep [of 0] keep [of 8] keep [of 48] keep [of 24] keep [of 32] keep32 f
    by (intro exI [of _ m']) (simp add: prop_name_def sv_at_def prop_type_def raw_data_def raw_size_def next_prop_def
        properties_def q_def m'_def)
qed

section \<open>The reg property\<close>

text \<open>A big-endian value of some cells in the blob, and an entry of the array it is decoded to.\<close>

definition be_cells :: "u32 \<Rightarrow> mem \<Rightarrow> addr \<Rightarrow> u64" where
  "be_cells c m p = (if c = 0 then 0 else if c = 1 then ucast (READ_BIG_ENDIAN_U32 m p) else READ_BIG_ENDIAN_U64 m p)"

definition cells_at :: "u32 \<Rightarrow> mem \<Rightarrow> addr \<Rightarrow> nat \<Rightarrow> u64" where
  "cells_at c m base i =
     (if c = 0 then 0 else if c = 1 then ucast (load32 m (base + of_nat (4 * i))) else load64 m (base + of_nat (8 * i)))"

lemma two_cells: "c \<le> 2 \<Longrightarrow> c = 0 \<or> c = 1 \<or> c = (2 :: u32)"
proof -
  assume "c \<le> 2"
  then have "unat c \<le> 2" by (simp add: word_le_nat_alt)
  then have "unat c = unat (0 :: u32) \<or> unat c = unat (1 :: u32) \<or> unat c = unat (2 :: u32)" by auto
  then show ?thesis by (simp add: word_unat_eq_iff)
qed

lemma cells_at_agree:
  assumes "c \<le> 2" and "agree_on (extent (base + of_nat (4 * unat c * i)) (4 * unat c)) m' m"
  shows "cells_at c m' base i = cells_at c m base i"
proof -
  have "c = 1 \<Longrightarrow> load32 m' (base + of_nat (4 * i)) = load32 m (base + of_nat (4 * i))"
    "c = 2 \<Longrightarrow> load64 m' (base + of_nat (8 * i)) = load64 m (base + of_nat (8 * i))"
    using assms(2) by (auto intro!: load32_agree [OF assms(2)] load64_agree [OF assms(2)])
  then show ?thesis using two_cells [OF assms(1)] by (auto simp: cells_at_def)
qed

lemma be_cells_agree:
  assumes "c \<le> 2" and "agree_on (extent p (4 * unat c)) m' m"
  shows "be_cells c m' p = be_cells c m p"
proof -
  have "c = 1 \<Longrightarrow> load32 m' p = load32 m p" "c = 2 \<Longrightarrow> load64 m' p = load64 m p"
    by (auto intro!: load32_agree [OF assms(2)] load64_agree [OF assms(2)])
  then show ?thesis using two_cells [OF assms(1)]
    by (auto simp: be_cells_def READ_BIG_ENDIAN_U32_def READ_BIG_ENDIAN_U64_def)
qed

lemma rewrite_address_correct:
  assumes "c \<le> 2"
  shows "\<exists>m'. rewrite_address c base (of_nat i) p m = Inr m' \<and> cells_at c m' base i = be_cells c m p \<and>
    agree_on (- extent (base + of_nat (4 * unat c * i)) (4 * unat c)) m' m"
  using two_cells [OF assms]
  by (auto simp: rewrite_address_def cells_at_def be_cells_def intro!: store32_agree store64_agree)

lemma rewrite_size_correct:
  assumes "c \<le> 2"
  shows "\<exists>m'. rewrite_size c base (of_nat i) p m = Inr m' \<and> cells_at c m' base i = be_cells c m p \<and>
    agree_on (- extent (base + of_nat (4 * unat c * i)) (4 * unat c)) m' m"
  using two_cells [OF assms]
  by (auto simp: rewrite_size_def cells_at_def be_cells_def intro!: store32_agree store64_agree)

text \<open>One array of the decoded property: \<open>N\<close> entries of \<open>c\<close> cells, entry by entry.\<close>

lemma entry_within: "i < N \<Longrightarrow> 4 * unat (c :: u32) * N \<le> 2 ^ 64 \<Longrightarrow>
    extent (base + of_nat (4 * unat c * i)) (4 * unat c) \<subseteq> extent base (4 * unat c * N)"
proof (rule extent_offset)
  assume "i < N"
  then have "4 * unat c * Suc i \<le> 4 * unat c * N" by (intro mult_le_mono2) simp
  then show "4 * unat c * i + 4 * unat c \<le> 4 * unat c * N" by simp
qed simp

lemma entries_apart:
  fixes c :: u32 and base :: addr
  assumes "n + k \<le> N" and "4 * unat c * N \<le> 2 ^ 64" and "0 < k"
  shows "extent (base + of_nat (4 * unat c * n)) (4 * unat c) \<inter> extent (base + of_nat (4 * unat c * Suc n)) (4 * unat c * (k - 1)) = {}"
proof -
  let ?b = "base + of_nat (4 * unat c * n)"
  have "4 * unat c * k \<le> 4 * unat c * N" using assms(1) by (intro mult_le_mono2) simp
  moreover have "4 * unat c + 4 * unat c * (k - 1) = 4 * unat c * k" using assms(3) by (cases k) simp_all
  ultimately have "4 * unat c + 4 * unat c * (k - 1) \<le> 2 ^ 64" using assms(2) by linarith
  from extent_split_disjoint [OF this, of ?b] show ?thesis by (simp add: algebra_simps)
qed

lemma entries_within:
  fixes c :: u32 and base :: addr
  assumes "n + k \<le> N" and "4 * unat c * N \<le> 2 ^ 64"
  shows "extent (base + of_nat (4 * unat c * n)) (4 * unat c * k) \<subseteq> extent base (4 * unat c * N)"
proof (rule extent_offset [OF _ assms(2)])
  have "4 * unat c * (n + k) \<le> 4 * unat c * N" using assms(1) by (intro mult_le_mono2) simp
  then show "4 * unat c * n + 4 * unat c * k \<le> 4 * unat c * N" by (simp add: algebra_simps)
qed

lemma entries_parts:
  fixes c :: u32 and base :: addr
  assumes "n + Suc k \<le> N" and "4 * unat c * N \<le> 2 ^ 64"
  shows "extent (base + of_nat (4 * unat c * n)) (4 * unat c) \<subseteq> extent (base + of_nat (4 * unat c * n)) (4 * unat c * Suc k)"
    and "extent (base + of_nat (4 * unat c * Suc n)) (4 * unat c * k) \<subseteq> extent (base + of_nat (4 * unat c * n)) (4 * unat c * Suc k)"
proof -
  show "extent (base + of_nat (4 * unat c * n)) (4 * unat c) \<subseteq> extent (base + of_nat (4 * unat c * n)) (4 * unat c * Suc k)"
    by (rule extent_mono) simp
  have "4 * unat c * Suc k \<le> 4 * unat c * N" using assms(1) by (intro mult_le_mono2) simp
  then have "4 * unat c * Suc k \<le> 2 ^ 64" using assms(2) by linarith
  then have "extent (base + of_nat (4 * unat c * n) + of_nat (4 * unat c)) (4 * unat c * k) \<subseteq>
      extent (base + of_nat (4 * unat c * n)) (4 * unat c * Suc k)"
    by (intro extent_offset) simp_all
  then show "extent (base + of_nat (4 * unat c * Suc n)) (4 * unat c * k) \<subseteq> extent (base + of_nat (4 * unat c * n)) (4 * unat c * Suc k)"
    by (simp add: algebra_simps)
qed

text \<open>Where the arrays, the raw value and the node lie.\<close>

definition reg_apart :: "u32 \<Rightarrow> u32 \<Rightarrow> nat \<Rightarrow> addr \<Rightarrow> addr \<Rightarrow> addr \<Rightarrow> addr \<Rightarrow> bool" where
  "reg_apart a b N node data ad sz \<longleftrightarrow>
     (let D = extent data (4 * (unat a + unat b) * N) \<union> extent node 72;
          A = extent ad (4 * unat a * N); S = extent sz (4 * unat b * N)
      in a \<le> 2 \<and> b \<le> 2 \<and> 4 * (unat a + unat b) * N \<le> 2 ^ 64 \<and> D \<inter> A = {} \<and> D \<inter> S = {} \<and> A \<inter> S = {})"

lemma rewrite_pairs_correct:
  fixes a b :: u32 and m m0 :: mem
  assumes ap: "reg_apart a b N node data ad sz"
    and node: "address_cells m0 node = a" "size_cells m0 node = b"
  shows "n + k \<le> N \<Longrightarrow> agree_on (extent data (4 * (unat a + unat b) * N) \<union> extent node 72) m m0 \<Longrightarrow>
    \<exists>m'. rewrite_pairs k node data ad sz (of_nat n) (of_nat (4 * (unat a + unat b) * n)) m = Inr m' \<and>
      agree_on (- (extent (ad + of_nat (4 * unat a * n)) (4 * unat a * k) \<union> extent (sz + of_nat (4 * unat b * n)) (4 * unat b * k))) m' m \<and>
      (\<forall>i. n \<le> i \<and> i < n + k \<longrightarrow> cells_at a m' ad i = be_cells a m0 (data + of_nat (4 * (unat a + unat b) * i)) \<and>
         cells_at b m' sz i = be_cells b m0 (data + of_nat (4 * (unat a + unat b) * i + 4 * unat a)))"
proof (induction k arbitrary: n m)
  case 0
  show ?case by (intro exI [of _ m]) auto
next
  case (Suc k)
  let ?w = "4 * (unat a + unat b)"
  let ?D = "extent data (?w * N) \<union> extent node 72"
  let ?A = "\<lambda>n k. extent (ad + of_nat (4 * unat a * n)) (4 * unat a * k)"
  let ?S = "\<lambda>n k. extent (sz + of_nat (4 * unat b * n)) (4 * unat b * k)"
  have c: "a \<le> 2" "b \<le> 2" and dA: "?D \<inter> extent ad (4 * unat a * N) = {}" and dS: "?D \<inter> extent sz (4 * unat b * N) = {}"
    and dAS: "extent ad (4 * unat a * N) \<inter> extent sz (4 * unat b * N) = {}" and lim: "?w * N \<le> 2 ^ 64"
    using ap by (simp_all add: reg_apart_def Let_def)
  have limA: "4 * unat a * N \<le> 2 ^ 64" and limS: "4 * unat b * N \<le> 2 ^ 64"
    using lim by (auto simp: algebra_simps)
  have n: "n < N" "Suc n + k \<le> N" using Suc.prems(1) by simp_all
  have within: "?A i 1 \<subseteq> extent ad (4 * unat a * N)" "?S i 1 \<subseteq> extent sz (4 * unat b * N)"
    "extent (data + of_nat (?w * i)) (4 * unat a) \<subseteq> ?D" "extent (data + of_nat (?w * i + 4 * unat a)) (4 * unat b) \<subseteq> ?D"
    if "i < N" for i
  proof -
    show "?A i 1 \<subseteq> extent ad (4 * unat a * N)" "?S i 1 \<subseteq> extent sz (4 * unat b * N)"
      using entry_within [OF that limA] entry_within [OF that limS] by simp_all
    have "?w * Suc i \<le> ?w * N" using that by (intro mult_le_mono2) simp
    then have "?w * i + 4 * unat a \<le> ?w * N" "(?w * i + 4 * unat a) + 4 * unat b \<le> ?w * N" by (simp_all add: algebra_simps)
    from extent_offset [OF this(1) lim, of data] extent_offset [OF this(2) lim, of data]
    show "extent (data + of_nat (?w * i)) (4 * unat a) \<subseteq> ?D" "extent (data + of_nat (?w * i + 4 * unat a)) (4 * unat b) \<subseteq> ?D"
      by blast+
  qed
  have cells: "address_cells m2 node = a" "size_cells m2 node = b" if "agree_on ?D m2 m0" for m2
  proof -
    have "agree_on (extent node 72) m2 m0" using that by (rule agree_on_mono) blast
    then show "address_cells m2 node = a" "size_cells m2 node = b"
      using node extent_field [of 16 4 72 node] extent_field [of 20 4 72 node]
      by (auto simp: address_cells_def size_cells_def dest: load32_agree)
  qed
  let ?p = "data + of_nat (?w * n)" and ?q = "data + of_nat (?w * n + 4 * unat a)"
  obtain m1 where m1: "rewrite_address a ad (of_nat n) ?p m = Inr m1" "cells_at a m1 ad n = be_cells a m ?p" "agree_on (- ?A n 1) m1 m"
    using rewrite_address_correct [OF c(1), of ad n ?p m] by auto
  have D1: "agree_on ?D m1 m0"
    using agree_on_mono [OF m1(3), of ?D] within(1) [OF n(1)] dA Suc.prems(2) by (blast intro: agree_on_trans)
  obtain m2 where m2: "rewrite_size b sz (of_nat n) ?q m1 = Inr m2" "cells_at b m2 sz n = be_cells b m1 ?q" "agree_on (- ?S n 1) m2 m1"
    using rewrite_size_correct [OF c(2), of sz n ?q m1] by auto
  have D2: "agree_on ?D m2 m0"
    using agree_on_mono [OF m2(3), of ?D] within(2) [OF n(1)] dS D1 by (blast intro: agree_on_trans)
  obtain m' where m': "rewrite_pairs k node data ad sz (of_nat (Suc n)) (of_nat (?w * Suc n)) m2 = Inr m'"
    "agree_on (- (?A (Suc n) k \<union> ?S (Suc n) k)) m' m2"
    "\<forall>i. Suc n \<le> i \<and> i < Suc n + k \<longrightarrow> cells_at a m' ad i = be_cells a m0 (data + of_nat (?w * i)) \<and>
         cells_at b m' sz i = be_cells b m0 (data + of_nat (?w * i + 4 * unat a))"
    using Suc.IH [OF n(2) D2] by blast
  have run: "rewrite_pairs (Suc k) node data ad sz (of_nat n) (of_nat (?w * n)) m = Inr m'"
  proof -
    have e: "(of_nat (?w * n) :: u64) + 4 * ucast a = of_nat (?w * n + 4 * unat a)"
      "(of_nat (?w * n + 4 * unat a) :: u64) + 4 * ucast b = of_nat (?w * Suc n)" "(of_nat n :: u64) + 1 = of_nat (Suc n)"
      by (simp_all add: algebra_simps)
    show ?thesis
      by (simp only: rewrite_pairs.simps Let_def cells [OF Suc.prems(2)] cells [OF D1] m1(1) m2(1) m'(1) e and_then_Inr)
  qed
  have subA: "?A n 1 \<subseteq> extent ad (4 * unat a * N)" "?A (Suc n) k \<subseteq> extent ad (4 * unat a * N)"
    "?S n 1 \<subseteq> extent sz (4 * unat b * N)" "?S (Suc n) k \<subseteq> extent sz (4 * unat b * N)"
    using within(1,2) [OF n(1)] entries_within [OF n(2) limA] entries_within [OF n(2) limS] by blast+
  have inA: "?A n 1 \<subseteq> ?A n (Suc k)" "?A (Suc n) k \<subseteq> ?A n (Suc k)" "?S n 1 \<subseteq> ?S n (Suc k)" "?S (Suc n) k \<subseteq> ?S n (Suc k)"
    using entries_parts [OF Suc.prems(1) limA] entries_parts [OF Suc.prems(1) limS] by simp_all
  have frame: "agree_on (- (?A n (Suc k) \<union> ?S n (Suc k))) m' m"
    by (rule agree_on_trans [OF agree_on_mono [OF m'(2)] agree_on_trans [OF agree_on_mono [OF m2(3)] agree_on_mono [OF m1(3)]]])
      (use inA in blast)+
  have apA: "?A n 1 \<inter> ?A (Suc n) k = {}" and apS: "?S n 1 \<inter> ?S (Suc n) k = {}"
    using entries_apart [OF Suc.prems(1) limA] entries_apart [OF Suc.prems(1) limS] by simp_all
  have "cells_at a m' ad n = cells_at a m2 ad n"
    by (rule cells_at_agree [OF c(1) agree_on_mono [OF m'(2)]]) (use apA subA dAS in auto)
  also have "\<dots> = cells_at a m1 ad n"
    by (rule cells_at_agree [OF c(1) agree_on_mono [OF m2(3)]]) (use subA dAS in auto)
  also have "\<dots> = be_cells a m0 ?p"
    unfolding m1(2) by (rule be_cells_agree [OF c(1) agree_on_mono [OF Suc.prems(2)]]) (rule within(3) [OF n(1)])
  finally have ea: "cells_at a m' ad n = be_cells a m0 ?p" .
  have "cells_at b m' sz n = cells_at b m2 sz n"
    by (rule cells_at_agree [OF c(2) agree_on_mono [OF m'(2)]]) (use apS subA dAS in auto)
  also have "\<dots> = be_cells b m0 ?q"
    unfolding m2(2) by (rule be_cells_agree [OF c(2) agree_on_mono [OF D1]]) (rule within(4) [OF n(1)])
  finally have eb: "cells_at b m' sz n = be_cells b m0 ?q" .
  have "n \<le> i \<and> i < n + Suc k \<longleftrightarrow> i = n \<or> Suc n \<le> i \<and> i < Suc n + k" for i by auto
  then show ?case using run frame m'(3) ea eb by (intro exI [of _ m']) auto
qed

text \<open>
  C36: the loop that decodes a \<^verbatim>\<open>reg\<close> value of up to two cells per address and per size: with the two
  arrays apart from each other, from the value and from the node, it ends with every entry of both
  arrays the big-endian value at its place in the blob, and nothing but the arrays is written.
\<close>

theorem rewrite_pairs_decodes:
  assumes "reg_apart (address_cells m node) (size_cells m node) N node data ad sz"
  shows "\<exists>m' a b w. a = address_cells m node \<and> b = size_cells m node \<and> w = 4 * (unat a + unat b) \<and>
    rewrite_pairs N node data ad sz 0 0 m = Inr m' \<and>
    map (cells_at a m' ad) [0..<N] = map (\<lambda>i. be_cells a m (data + of_nat (w * i))) [0..<N] \<and>
    map (cells_at b m' sz) [0..<N] = map (\<lambda>i. be_cells b m (data + of_nat (w * i + 4 * unat a))) [0..<N] \<and>
    agree_on (- (extent ad (4 * unat a * N) \<union> extent sz (4 * unat b * N))) m' m"
  using rewrite_pairs_correct [OF assms refl refl, of 0 N m] by auto

text \<open>
  An address of three cells is read and stored as sixteen bytes: the array entry of twelve bytes
  gets the first twelve of the reversed sixteen, which starts with the cell after the address, and
  the four bytes behind the array are overwritten with the address's own first cell.
\<close>

theorem rewrite_three_cells_overruns:
  "\<exists>m'. rewrite_address 3 ad 0 p m = Inr m' \<and>
    load_bytes m' ad 12 = rev (load_bytes m (p + 4) 12) \<and> load_bytes m' (ad + 12) 4 = rev (load_bytes m p 4)"
proof -
  define bs where "bs = rev (load_bytes m p 16)"
  have l: "length bs = 16" by (simp add: bs_def load_bytes_def)
  have r: "rewrite_address 3 ad 0 p m = Inr (store_bytes m ad bs)"
    by (simp add: rewrite_address_def store128_def READ_BIG_ENDIAN_U128_def endianness_flip_u128_rev load_bytes_def bs_def)
  have at: "store_bytes m ad bs (ad + of_nat i) = bs ! i" if "i < 16" for i
    using that l by (simp add: store_bytes_def unat_of_nat_eq)
  have b: "bs ! i = m (p + of_nat (15 - i))" if "i < 16" for i
  proof -
    have "[0..<16] ! (15 - i) = 15 - i" by (subst nth_upt) auto
    then show ?thesis using that by (simp add: bs_def rev_nth load_bytes_def)
  qed
  have "load_bytes (store_bytes m ad bs) ad 12 = rev (load_bytes m (p + 4) 12)"
    by (rule nth_equalityI) (auto simp: load_bytes_def rev_nth at b algebra_simps)
  moreover have "load_bytes (store_bytes m ad bs) (ad + 12) 4 = rev (load_bytes m p 4)"
  proof (rule nth_equalityI)
    fix i assume "i < length (load_bytes (store_bytes m ad bs) (ad + 12) 4)"
    then have i: "i < 4" by (simp add: load_bytes_def)
    have "ad + 12 + of_nat i = ad + of_nat (12 + i)" by simp
    then show "load_bytes (store_bytes m ad bs) (ad + 12) 4 ! i = rev (load_bytes m p 4) ! i"
      using i at [of "12 + i"] b [of "12 + i"] by (simp add: load_bytes_def rev_nth add.assoc)
  qed (simp add: load_bytes_def)
  ultimately show ?thesis using r by blast
qed

section \<open>The second pass\<close>

definition pass_codes :: "u64 set" where
  "pass_codes = ec ` {EC_SUCCESS, EC_DT_ADDRESS_CELLS_TOO_LARGE, EC_DT_SIZE_CELLS_TOO_LARGE}"

lemma second_pass_property_range:
  assumes "second_pass_property cur prop na ns s = Inr (err, na', ns', s')"
  shows "err \<in> pass_codes" and "na \<le> 3 \<and> ns \<le> 2 \<Longrightarrow> na' \<le> 3 \<and> ns' \<le> 2"
  using assms
  by (auto simp: second_pass_property_def Let_def and_then_eq_Inr kassert_eq_Inr deref_eq_Inr pass_codes_def not_less
      split: if_splits simp del: ec.simps)

lemma second_pass_loop_range:
  assumes "second_pass_loop cur prop na ns s = Some r"
  shows "\<forall>err na' ns' s'. r = Inr (err, na', ns', s') \<longrightarrow> err \<in> pass_codes \<and> (na \<le> 3 \<and> ns \<le> 2 \<longrightarrow> na' \<le> 3 \<and> ns' \<le> 2)"
proof (rule second_pass_loop.raw_induct [OF _ assms], goal_cases)
  case (1 f c p a b t x)
  have "ec EC_SUCCESS \<in> pass_codes" by (simp add: pass_codes_def del: ec.simps)
  then show ?case using 1 second_pass_property_range [of c p a b t]
    by (fastforce split: if_splits sum.splits prod.splits simp del: ec.simps)
qed

lemma second_pass_node_range:
  assumes "second_pass_node cur s = Some (Inr (err, na, ns, s'))"
  shows "err \<in> pass_codes" and "address_cells (kmem s) cur \<le> 3 \<and> size_cells (kmem s) cur \<le> 2 \<Longrightarrow> na \<le> 3 \<and> ns \<le> 2"
  using assms second_pass_loop_range
  by (fastforce simp: second_pass_node_def split: option.splits sum.splits prod.splits if_splits)+

lemma second_pass_children_range:
  assumes "second_pass_children child na ns s = Some r"
  shows "\<forall>err s'. r = Inr (err, s') \<longrightarrow> err \<in> pass_codes"
proof (rule second_pass_children.raw_induct [OF _ assms], goal_cases)
  case (1 f c a b t x)
  have "ec EC_SUCCESS \<in> pass_codes" by (simp add: pass_codes_def del: ec.simps)
  then show ?case using 1 second_pass_node_range(1)
    by (fastforce simp: Let_def split: if_splits sum.splits prod.splits option.splits bind_splits simp del: ec.simps)
qed

text \<open>The second pass started on a node: what code it can end with.\<close>

lemma second_pass_codes:
  assumes "device_tree_second_pass_properties cur s = Some (Inr (err, s'))"
  shows "err \<in> pass_codes"
  using assms second_pass_node_range(1) second_pass_children_range
  by (fastforce simp: device_tree_second_pass_properties_def split: option.splits sum.splits prod.splits if_splits)

text \<open>
  The properties the first loop turns to, each with the memory it finds, up to the one that stops it.
\<close>

inductive passes_over :: "addr \<Rightarrow> addr \<Rightarrow> u32 \<Rightarrow> u32 \<Rightarrow> 'a system_scheme \<Rightarrow> (addr \<times> mem) list \<Rightarrow> bool" for cur where
  finish: "passes_over cur 0 na ns s []"
| stop: "p \<noteq> 0 \<Longrightarrow> second_pass_property cur p na ns s = Inr (err, na', ns', s') \<Longrightarrow> error_is_err err \<Longrightarrow>
    passes_over cur p na ns s [(p, kmem s)]"
| turn: "p \<noteq> 0 \<Longrightarrow> second_pass_property cur p na ns s = Inr (err, na', ns', s') \<Longrightarrow> \<not> error_is_err err \<Longrightarrow>
    passes_over cur (next_prop (kmem s') p) na' ns' s' vs \<Longrightarrow> passes_over cur p na ns s ((p, kmem s) # vs)"

text \<open>The error for a property that asks for too many cells, and the counts one that does not leaves behind.\<close>

fun cells_excess :: "addr \<times> mem \<Rightarrow> ErrorCode option" where
  "cells_excess (p, m) =
     (let n = READ_BIG_ENDIAN_U32 m (raw_data m p) in
      if sv_is m (prop_name m p) ''#address-cells'' \<and> 3 < n then Some EC_DT_ADDRESS_CELLS_TOO_LARGE
      else if sv_is m (prop_name m p) ''#size-cells'' \<and> 2 < n then Some EC_DT_SIZE_CELLS_TOO_LARGE
      else None)"

fun cells_left :: "addr \<times> mem \<Rightarrow> u32 \<times> u32 \<Rightarrow> u32 \<times> u32" where
  "cells_left (p, m) (na, ns) =
     (let n = READ_BIG_ENDIAN_U32 m (raw_data m p) in
      if sv_is m (prop_name m p) ''#address-cells'' then (n, ns)
      else if sv_is m (prop_name m p) ''#size-cells'' then (na, n)
      else (na, ns))"

lemma second_pass_property_cells:
  assumes "second_pass_property cur p na ns s = Inr (err, na', ns', s')"
  shows "case cells_excess (p, kmem s) of
      None \<Rightarrow> err = ec EC_SUCCESS \<and> (na', ns') = cells_left (p, kmem s) (na, ns)
    | Some c \<Rightarrow> err = ec c \<and> (na', ns') = (na, ns)"
proof -
  have d: "SV ''compatible'' \<noteq> SV ''#address-cells''" "SV ''compatible'' \<noteq> SV ''#size-cells''" "SV ''#address-cells'' \<noteq> SV ''#size-cells''"
    by (simp_all add: SV_def)
  show ?thesis using assms d
    by (auto simp: second_pass_property_def Let_def and_then_eq_Inr kassert_eq_Inr deref_eq_Inr sv_is_def split: if_splits
        simp del: ec.simps SV_def)
qed

text \<open>What the first loop returns: the counts of all properties, or the error of the first one in excess.\<close>

definition cells_result :: "(addr \<times> mem) list \<Rightarrow> u32 \<times> u32 \<Rightarrow> u64 \<Rightarrow> u32 \<times> u32 \<Rightarrow> bool" where
  "cells_result vs x err y \<longleftrightarrow>
     (\<forall>v \<in> set vs. cells_excess v = None) \<and> err = ec EC_SUCCESS \<and> y = fold cells_left vs x \<or>
     (\<exists>us v c. vs = us @ [v] \<and> (\<forall>u \<in> set us. cells_excess u = None) \<and> cells_excess v = Some c \<and> err = ec c \<and> y = fold cells_left us x)"

lemma cells_result_Cons:
  assumes "cells_excess v = None" and "cells_result vs (cells_left v x) err y"
  shows "cells_result (v # vs) x err y"
  using assms(2) unfolding cells_result_def
proof (elim disjE exE conjE)
  fix us w c
  assume "vs = us @ [w]" "\<forall>u \<in> set us. cells_excess u = None" "cells_excess w = Some c" "err = ec c" "y = fold cells_left us (cells_left v x)"
  then show "(\<forall>v \<in> set (v # vs). cells_excess v = None) \<and> err = ec EC_SUCCESS \<and> y = fold cells_left (v # vs) x \<or>
     (\<exists>us w c. v # vs = us @ [w] \<and> (\<forall>u \<in> set us. cells_excess u = None) \<and> cells_excess w = Some c \<and> err = ec c \<and> y = fold cells_left us x)"
    using assms(1) by (intro disjI2 exI [of _ "v # us"] exI [of _ w] exI [of _ c]) simp
qed (use assms(1) in simp)

lemma excess_is_err: "cells_excess v = Some c \<Longrightarrow> error_is_err (ec c)"
  by (cases v) (auto simp: Let_def error_is_err_ec split: if_splits simp del: ec.simps)

lemma second_pass_loop_cells:
  assumes "second_pass_loop cur p na ns s = Some r"
  shows "\<forall>err na' ns' s'. r = Inr (err, na', ns', s') \<longrightarrow>
    (\<exists>vs. passes_over cur p na ns s vs \<and> cells_result vs (na, ns) err (na', ns'))"
proof (rule second_pass_loop.raw_induct [OF _ assms], goal_cases)
  case (1 f c p a b t x)
  show ?case
  proof (cases "p = 0")
    case True
    then show ?thesis using 1(2) passes_over.finish [of c a b t]
      by (auto simp: cells_result_def simp del: ec.simps intro!: exI [of _ "[]"])
  next
    case False
    show ?thesis
    proof (cases "second_pass_property c p a b t")
      case (Inl h)
      then show ?thesis using 1(2) False by auto
    next
      case (Inr q)
      obtain err a' b' t' where q: "q = (err, a', b', t')" by (cases q)
      note run = Inr [unfolded q]
      note C = second_pass_property_cells [OF run]
      show ?thesis
      proof (cases "error_is_err err")
        case True
        have x: "x = Inr (err, a', b', t')" using 1(2) False run True by simp
        obtain e where e: "cells_excess (p, kmem t) = Some e" "err = ec e" "(a', b') = (a, b)"
          using C True error_is_err_ec by (auto split: option.splits simp del: ec.simps cells_excess.simps)
        have "cells_result [(p, kmem t)] (a, b) err (a', b')"
          unfolding cells_result_def using e by (intro disjI2 exI [of _ "[]"]) (simp del: ec.simps cells_excess.simps)
        then show ?thesis using passes_over.stop [OF False run True] x by blast
      next
        case ok: False
        then have n: "cells_excess (p, kmem t) = None" "(a', b') = cells_left (p, kmem t) (a, b)"
          using C excess_is_err by (auto split: option.splits simp del: ec.simps cells_excess.simps cells_left.simps)
        have f: "f c (next_prop (kmem t') p) a' b' t' = Some x" using 1(2) False run ok by simp
        have "cells_result ((p, kmem t) # vs) (a, b) e y" if "cells_result vs (a', b') e y" for vs e y
          using cells_result_Cons [OF n(1)] that by (simp only: n(2))
        then show ?thesis using 1(1) [OF f] passes_over.turn [OF False run ok] by blast
      qed
    qed
  qed
qed


text \<open>
  C38: the first loop over the properties of a node ends with an error exactly if one of them asks for
  too many cells: then it stops at the first such property, with the error for address cells if it asks
  for more than three of them and the one for size cells if it asks for more than two; otherwise it
  turns to every property and succeeds.  The counts it hands on to the children are those of the last
  properties before that say them, or the node's own, and never exceed three and two, the bounds the
  decoding of \<^verbatim>\<open>reg\<close> asserts.
\<close>

theorem second_pass_cells_in_range:
  assumes "second_pass_node cur s = Some (Inr (err, na, ns, s'))"
    and "address_cells (kmem s) cur \<le> 3" and "size_cells (kmem s) cur \<le> 2"
  shows "na \<le> 3 \<and> ns \<le> 2 \<and>
    (\<exists>vs. passes_over cur (properties (kmem s) cur) (address_cells (kmem s) cur) (size_cells (kmem s) cur) s vs \<and>
      cells_result vs (address_cells (kmem s) cur, size_cells (kmem s) cur) err (na, ns))"
proof -
  obtain t where "second_pass_loop cur (properties (kmem s) cur) (address_cells (kmem s) cur) (size_cells (kmem s) cur) s = Some (Inr (err, na, ns, t))"
    using assms(1) by (auto simp: second_pass_node_def split: option.splits sum.splits if_splits prod.splits simp del: ec.simps)
  from second_pass_loop_cells [OF this] show ?thesis using second_pass_node_range(2) [OF assms(1)] assms(2,3) by blast
qed

text \<open>
  What parsing a blob can return: success, the two errors of the first checks, or one of the two
  second-pass errors pushed under \<^verbatim>\<open>EC_DT_BLOB_REWRITE_FAILED\<close>; both of these have no message,
  because the table of messages is read past its end for them.
\<close>

theorem parse_blob_results:
  assumes "device_tree_parse_blob blob s = Inr (err, s')"
  shows "err \<in> ec ` {EC_SUCCESS, EC_DT_BLOB_INVALID_MAGIC, EC_DT_BLOB_EMPTY_TREE} \<or>
    err \<in> (\<lambda>c. error_push (ec c) EC_DT_BLOB_REWRITE_FAILED) ` {EC_DT_ADDRESS_CELLS_TOO_LARGE, EC_DT_SIZE_CELLS_TOO_LARGE} \<and>
    error_string err = Inl Out_of_bounds"
proof -
  have b: "error_string (error_push (ec c) EC_DT_BLOB_REWRITE_FAILED) = Inl Out_of_bounds"
    if "c \<in> {EC_DT_ADDRESS_CELLS_TOO_LARGE, EC_DT_SIZE_CELLS_TOO_LARGE}" for c
    using that by (auto simp: error_string_def error_top_push Let_def length_error_strings EC_COUNT_def)
  show ?thesis using assms second_pass_codes b
    by (fastforce simp: device_tree_parse_blob_def deref_eq_Inr and_then_eq_Inr Let_def no_hang_def pass_codes_def
        split: if_splits option.splits simp del: ec.simps)
qed

section \<open>Concrete trees\<close>

text \<open>A node at \<open>0x1000\<close> with one property at \<open>0x2000\<close> and one compatible string, both named \<open>reg\<close>.\<close>

definition dt_memory :: mem where
  "dt_memory = store64 (store64 (store64 (store64 (store64 (store64 (store64 (store_bytes (\<lambda>_. 0) 0x3000 (SV ''reg''))
     0x1018 0x4000) 0x1020 1) 0x1028 0x2000) 0x2000 0x3000) 0x2008 3) 0x4000 0x3000) 0x4008 3"

definition dt_system :: "mem \<Rightarrow> system" where
  "dt_system m = (idle_system (boot_kernel\<lparr>kmem := m\<rparr>))\<lparr>dt := (dt (idle_system boot_kernel))\<lparr>root_node := 0x1000\<rparr>\<rparr>"

lemma dt_system_fields [simp]: "kmem (dt_system m) = m" "root_node (dt (dt_system m)) = 0x1000"
  by (simp_all add: dt_system_def idle_system_def kernel.extend_def boot_kernel_def)

lemma dt_memory_blank: "8 \<le> unat (0x3000 - a) \<Longrightarrow> 3 \<le> unat (a - 0x3000) \<Longrightarrow> load64 (store_bytes (\<lambda>_. 0) 0x3000 (SV ''reg'')) a = 0"
proof (rule load64_zero, rule ballI)
  fix x assume a: "8 \<le> unat (0x3000 - a)" "3 \<le> unat (a - 0x3000)" and x: "x \<in> extent a 8"
  have "extent a 8 \<inter> extent 0x3000 3 = {}" using a by (simp add: extent_disjoint_iff)
  then have "x \<notin> extent 0x3000 3" using x by blast
  then show "store_bytes (\<lambda>_. 0) 0x3000 (SV ''reg'') x = 0" by (simp add: store_bytes_def mem_extent SV_def)
qed

lemma dt_memory_fields:
  "properties dt_memory 0x1000 = 0x2000" "next_prop dt_memory 0x2000 = 0" "children dt_memory 0x1000 = 0" "sibling dt_memory 0x1000 = 0"
  "compatibles dt_memory 0x1000 = [\<lparr>sv_data = 0x3000, sv_size = 3\<rparr>]" "prop_name dt_memory 0x2000 = \<lparr>sv_data = 0x3000, sv_size = 3\<rparr>"
  by (simp_all add: dt_memory_def dt_fields compatibles_def sv_at_def mem_simps dt_memory_blank)

lemma dt_memory_reg: "sv_is dt_memory \<lparr>sv_data = 0x3000, sv_size = 3\<rparr> ''reg''"
  by (simp add: sv_is_def sv_bytes_def load_bytes_def upt_rec dt_memory_def mem_simps store_bytes_def SV_def)

theorem device_tree_get_property_first_witness:
  "device_tree_get_property dt_memory 0x1000 ''reg'' = Inr 0x2000"
  by (subst device_tree_get_property_first [where ps = "[0x2000]"])
    (use dt_memory_fields(2) in \<open>simp_all add: chain_Cons dt_memory_fields dt_memory_reg next_prop_def\<close>)

theorem dt_node_from_compatible_first_witness:
  "dt_node_from_compatible ''reg'' (dt_system dt_memory) = Inr 0x1000"
  by (subst dt_node_from_compatible_first [where f = "Node 0x1000 Nil_forest Nil_forest"])
    (simp_all add: dt_memory_fields dt_memory_reg)

theorem rsvmap_never_advances_witness:
  "rsvmap_loop 0x5000 (dt_system dt_memory) = Some (Inr (dt_system dt_memory)) \<and> get64 0x5000 (dt_system dt_memory) = 0"
proof -
  have z: "get64 0x5000 (dt_system dt_memory) = 0"
    by (simp add: get64_def dt_memory_def mem_simps dt_memory_blank)
  then have r: "rsvmap_loop 0x5000 (dt_system dt_memory) = Some (Inr (dt_system dt_memory))"
    by (simp add: rsvmap_loop.simps)
  then show ?thesis using rsvmap_never_advances [OF r] z by simp
qed

theorem parse_offsets_aligned_witness:
  "parse_states 0x5000 0x5000 (dt_system (store32 (\<lambda>_. 0) 0x5000 0x04000000)) 4 0 0 (dt_system (store32 (\<lambda>_. 0) 0x5000 0x04000000)) \<and>
   (4 :: u64) mod 4 = 0"
proof -
  let ?s = "dt_system (store32 (\<lambda>_. 0) 0x5000 0x04000000)"
  have "parse_token 0x5000 0x5000 0 0 0 ?s = Inr (True, 4, 0, 0, ?s)"
    by (simp add: parse_token_def READ_BIG_ENDIAN_U32_def ENDIANNESS_FLIP_U32_def)
  then have r: "parse_states 0x5000 0x5000 ?s 4 0 0 ?s" by (rule parse_states.token [OF parse_states.start])
  then show ?thesis using parse_offsets_aligned [OF r] by blast
qed

text \<open>Blank memory, one free block for a node and one for a property.\<close>

definition dt_blank :: system where
  "dt_blank = (dt_system (\<lambda>_. 0))\<lparr>dt := (dt (dt_system (\<lambda>_. 0)))\<lparr>node_arena := (slab_init 72)\<lparr>block_list := 0x6000, free_blocks := 1\<rparr>,
     property_arena := (slab_init 56)\<lparr>block_list := 0x6100, free_blocks := 1\<rparr>\<rparr>\<rparr>"

lemma dt_blank_alloc:
  "kmem dt_blank = (\<lambda>_. 0)"
  "\<exists>s1. dt_node_alloc dt_blank = Inr (0x6000, s1) \<and> kmem s1 = (\<lambda>_. 0)"
  "\<exists>s1. dt_property_alloc dt_blank = Inr (0x6100, s1) \<and> kmem s1 = (\<lambda>_. 0)"
proof -
  have z: "memzero (\<lambda>_. 0) p n = (\<lambda>_. 0)" for p n
  proof
    fix x show "memzero (\<lambda>_. 0) p n x = 0"
      using memzero_inside [of x p n "\<lambda>_. 0"] memzero_agree [of "- extent p (unat n)" p n "\<lambda>_. 0"]
      by (cases "x \<in> extent p (unat n)") (auto simp: agree_on_def)
  qed
  show "kmem dt_blank = (\<lambda>_. 0)" by (simp add: dt_blank_def)
  show "\<exists>s1. dt_node_alloc dt_blank = Inr (0x6000, s1) \<and> kmem s1 = (\<lambda>_. 0)"
    "\<exists>s1. dt_property_alloc dt_blank = Inr (0x6100, s1) \<and> kmem s1 = (\<lambda>_. 0)"
    by (simp_all add: dt_node_alloc_def dt_property_alloc_def slab_allocate_def slab_pop_def dt_blank_def z Let_def)
qed

lemma null_term_blank: "sv_from_null_term (\<lambda>_. 0) p = Some \<lparr>sv_data = p, sv_size = 0\<rparr>"
  by (simp add: sv_from_null_term_def sv_null_loop.simps)

theorem parse_node_pushes_child_witness:
  "\<exists>s'. device_tree_parse_node 0x1000 0x7000 0 dt_blank = Inr (4, 0x6000, s') \<and>
    forest_at (kmem s') (children (kmem s') 0x1000) (Node 0x6000 Nil_forest Nil_forest)"
proof -
  obtain s1 where s1: "dt_node_alloc dt_blank = Inr (0x6000, s1)" "kmem s1 = (\<lambda>_. 0)" using dt_blank_alloc(2) by blast
  have "fresh_block 0x6000 72 (extent 0x1000 72 \<union> (\<Union>q \<in> set (preorder Nil_forest). extent q 72)) dt_blank s1"
    by (simp add: fresh_block_def s1 dt_blank_alloc(1) extent_disjoint_iff)
  then show ?thesis
    using parse_node_pushes_child [of dt_blank "0x6000" s1 "0x7000" 0 "\<lparr>sv_data = 0x7000, sv_size = 0\<rparr>" "0x1000" Nil_forest] s1
    by (auto simp: null_term_blank dt_blank_alloc(1) children_def ALIGN_UP_def)
qed

definition reg_memory :: mem where
  "reg_memory = store32 (store32 (store32 (store32 (\<lambda>_. 0) 0x1010 1) 0x1014 1) 0x2000 0x78563412) 0x2004 0x00100000"

theorem rewrite_pairs_decodes_witness:
  "\<exists>m'. rewrite_pairs 1 0x1000 0x2000 0x3000 0x3100 0 0 reg_memory = Inr m' \<and>
    cells_at 1 m' 0x3000 0 = 0x12345678 \<and> cells_at 1 m' 0x3100 0 = 0x1000"
proof -
  have c: "address_cells reg_memory 0x1000 = 1" "size_cells reg_memory 0x1000 = 1"
    by (simp_all add: reg_memory_def address_cells_def size_cells_def mem_simps)
  have "reg_apart (address_cells reg_memory 0x1000) (size_cells reg_memory 0x1000) 1 0x1000 0x2000 0x3000 0x3100"
    by (simp add: c reg_apart_def Let_def Int_Un_distrib2 extent_disjoint_iff)
  moreover have "be_cells 1 reg_memory 0x2000 = 0x12345678" "be_cells 1 reg_memory 0x2004 = 0x1000"
    by (simp_all add: be_cells_def READ_BIG_ENDIAN_U32_def reg_memory_def mem_simps ENDIANNESS_FLIP_U32_def)
  ultimately show ?thesis
    using rewrite_pairs_decodes [of reg_memory "0x1000" 1 "0x2000" "0x3000" "0x3100"] by (auto simp: c)
qed

definition cells_memory :: mem where
  "cells_memory = store32 (store64 (store64 (store64 (store64 (store_bytes (\<lambda>_. 0) 0x3000 (SV ''#size-cells''))
     0x1028 0x2000) 0x2000 0x3000) 0x2008 11) 0x2018 0x4000) 0x4000 0x03000000"

lemma cells_memory_fields:
  "properties cells_memory 0x1000 = 0x2000" "prop_name cells_memory 0x2000 = \<lparr>sv_data = 0x3000, sv_size = 11\<rparr>"
  "raw_data cells_memory 0x2000 = 0x4000" "READ_BIG_ENDIAN_U32 cells_memory 0x4000 = 3"
  "address_cells cells_memory 0x1000 = 0" "size_cells cells_memory 0x1000 = 0"
proof -
  let ?b = "store_bytes (\<lambda>_. 0) 0x3000 (SV ''#size-cells'')"
  have z: "load64 ?b a = 0" "load32 ?b a = 0" if "8 \<le> unat (0x3000 - a)" "11 \<le> unat (a - 0x3000)" for a
  proof -
    have l: "length (SV ''#size-cells'') = 11" by (simp add: SV_def)
    have "extent a 8 \<inter> extent 0x3000 11 = {}" using that by (simp add: extent_disjoint_iff)
    then have "agree_on (extent a 8) ?b (\<lambda>_. 0)" by (intro store_bytes_agree) (simp only: l)
    then show "load64 ?b a = 0" "load32 ?b a = 0"
      using load64_agree [of "extent a 8" ?b "\<lambda>_. 0" a] load32_agree [of "extent a 8" ?b "\<lambda>_. 0" a] extent_mono [of 4 8 a]
      by (simp_all add: load64_def load32_def load_bytes_def upt_rec)
  qed
  show "properties cells_memory 0x1000 = 0x2000" "prop_name cells_memory 0x2000 = \<lparr>sv_data = 0x3000, sv_size = 11\<rparr>"
    "raw_data cells_memory 0x2000 = 0x4000" "READ_BIG_ENDIAN_U32 cells_memory 0x4000 = 3"
    "address_cells cells_memory 0x1000 = 0" "size_cells cells_memory 0x1000 = 0"
    by (simp_all add: cells_memory_def dt_fields sv_at_def mem_simps z READ_BIG_ENDIAN_U32_def ENDIANNESS_FLIP_U32_def)
qed

theorem second_pass_cells_in_range_witness:
  "\<exists>na ns s'. second_pass_node 0x1000 (dt_system cells_memory) = Some (Inr (ec EC_DT_SIZE_CELLS_TOO_LARGE, na, ns, s')) \<and>
    (\<exists>vs. passes_over 0x1000 0x2000 0 0 (dt_system cells_memory) vs \<and> cells_result vs (0, 0) (ec EC_DT_SIZE_CELLS_TOO_LARGE) (na, ns))"
proof -
  let ?s = "dt_system cells_memory"
  have "agree_on (extent 0x3000 11) cells_memory (store_bytes (\<lambda>_. 0) 0x3000 (SV ''#size-cells''))"
    unfolding cells_memory_def
    by (intro agree_on_trans [OF store32_agree] agree_on_trans [OF store64_agree] store64_agree agree_on_refl) (simp_all add: extent_disjoint_iff)
  then have "load_bytes cells_memory 0x3000 11 = SV ''#size-cells''"
    using load_bytes_agree [of "0x3000" 11] load_store_bytes_same [of 11 "SV ''#size-cells''"] by (simp add: SV_def)
  then have n: "sv_bytes cells_memory \<lparr>sv_data = 0x3000, sv_size = 11\<rparr> = SV ''#size-cells''" by (simp add: sv_bytes_def)
  then have i: "sv_is cells_memory \<lparr>sv_data = 0x3000, sv_size = 11\<rparr> ''#size-cells''"
    "\<not> sv_is cells_memory \<lparr>sv_data = 0x3000, sv_size = 11\<rparr> ''compatible''" "\<not> sv_is cells_memory \<lparr>sv_data = 0x3000, sv_size = 11\<rparr> ''#address-cells''"
    by (simp_all add: sv_is_def SV_def)
  have e: "error_is_err (ec EC_DT_SIZE_CELLS_TOO_LARGE)" by (simp add: error_is_err_ec del: ec.simps)
  have "second_pass_property 0x1000 0x2000 0 0 ?s = Inr (ec EC_DT_SIZE_CELLS_TOO_LARGE, 0, 0, set32 0x2018 3 ?s)"
    using i by (simp add: second_pass_property_def Let_def cells_memory_fields del: ec.simps)
  then have r: "second_pass_node 0x1000 ?s = Some (Inr (ec EC_DT_SIZE_CELLS_TOO_LARGE, 0, 0, set32 0x2018 3 ?s))"
    using e by (simp add: second_pass_node_def second_pass_loop.simps [of "0x1000" "0x2000"] cells_memory_fields del: ec.simps)
  have "address_cells (kmem ?s) 0x1000 \<le> 3" "size_cells (kmem ?s) 0x1000 \<le> 2" by (simp_all add: cells_memory_fields)
  from second_pass_cells_in_range [OF r this] show ?thesis unfolding dt_system_fields cells_memory_fields using r by blast
qed

theorem parse_blob_results_witness:
  "device_tree_parse_blob 0x8000 (dt_system (\<lambda>_. 0)) = Inr (ec EC_DT_BLOB_INVALID_MAGIC, dt_system (\<lambda>_. 0)) \<and>
   ec EC_DT_BLOB_INVALID_MAGIC \<in> ec ` {EC_SUCCESS, EC_DT_BLOB_INVALID_MAGIC, EC_DT_BLOB_EMPTY_TREE}"
proof -
  have "load32 (\<lambda>_. 0) 0x8000 = 0" by (simp add: load32_def load_bytes_def upt_rec)
  then have r: "device_tree_parse_blob 0x8000 (dt_system (\<lambda>_. 0)) = Inr (ec EC_DT_BLOB_INVALID_MAGIC, dt_system (\<lambda>_. 0))"
    by (simp add: device_tree_parse_blob_def get32_def ENDIANNESS_FLIP_U32_def)
  then show ?thesis using parse_blob_results [OF r] by blast
qed

end
