(* ===== verification/Devices.thy ===== *)
theory Devices
  imports Virtio Device_Tree_Laws
begin

text \<open>
  The device registry of \<^verbatim>\<open>devices/device.c\<close>: the walk over the device tree that initialises a
  driver for every device it knows.  A \<^verbatim>\<open>struct driver_node\<close> has its link at offset 0 and its
  \<^verbatim>\<open>struct driver\<close> at 8, so the driver structures proper are at offset 16.
\<close>

definition sizeof_driver_node :: u64 where
  "sizeof_driver_node = 64"

definition driver_node_alloc :: "'a system_scheme \<Rightarrow> halt + addr \<times> 'a system_scheme" where
  "driver_node_alloc s =
     and_then (slab_allocate kalloc (driver_node_arena s) s) (\<lambda>(p, a, s). Inr (p, s\<lparr>driver_node_arena := a\<rparr>))"

definition driver_node_free :: "addr \<Rightarrow> 'a system_scheme \<Rightarrow> halt + 'a system_scheme" where
  "driver_node_free p s =
     and_then (slab_free (driver_node_arena s) p (kmem s)) (\<lambda>(err, a, m). Inr (s\<lparr>driver_node_arena := a, kmem := m\<rparr>))"

text \<open>\<^verbatim>\<open>node->driver.type = ...; node->next = drivers; drivers = node; driver_count++\<close>.\<close>

definition register_driver :: "addr \<Rightarrow> device_type \<Rightarrow> 'a system_scheme \<Rightarrow> 'a system_scheme" where
  "register_driver node ty s =
     (let s = set32 (node + 8) (device_type_value ty) s;
          s = set64 node (drivers s) s
      in s\<lparr>drivers := node, driver_count := driver_count s + 1\<rparr>)"

text \<open>The check of a \<^verbatim>\<open>reg\<close> property that all three callers make.\<close>

definition usable_reg :: "mem \<Rightarrow> addr \<Rightarrow> addr \<Rightarrow> bool" where
  "usable_reg m node reg \<longleftrightarrow>
     \<not> (reg = 0 \<or> prop_type m reg \<noteq> property_type_value DT_PROPERTY_REG \<or> reg_n_pairs m reg \<noteq> 1 \<or>
        address_cells m node \<noteq> 2 \<or> size_cells m node \<noteq> 2)"

definition init_uart_node :: "addr \<Rightarrow> addr \<Rightarrow> addr \<Rightarrow> 'a system_scheme \<Rightarrow> halt + 'a system_scheme" where
  "init_uart_node node plic reg s =
     (let phys_addr = get64 (reg_addresses (kmem s) reg) s;
          virt_addr = kernel_hhdm_phys_to_virt phys_addr s
      in and_then (driver_node_alloc s) (\<lambda>(uart_node, s).
         deref uart_node (
         and_then (uart_driver_init (uart_node + 16) virt_addr s) (\<lambda>s.
         and_then (plic_driver_enable_int plic 10 1 (uart_node + 8) s) (\<lambda>s.
         kprintln (SV ''Initialized a UART device at {X}'') [phys_addr] (register_driver uart_node DEVICE_TYPE_UART s))))))"

definition init_virtio_node :: "addr \<Rightarrow> addr \<Rightarrow> 'a system_scheme \<Rightarrow> halt + 'a system_scheme" where
  "init_virtio_node node reg s =
     (let phys_addr = get64 (reg_addresses (kmem s) reg) s;
          phys_size = get64 (reg_sizes (kmem s) reg) s;
          virt_addr = kernel_hhdm_phys_to_virt phys_addr s
      in and_then (driver_node_alloc s) (\<lambda>(virtio_node, s).
         deref virtio_node (
         and_then (virtio_mmio_driver_init (virtio_node + 16) virt_addr phys_size s) (\<lambda>(err, s).
         if error_is_err err then
           and_then (error_string err) (\<lambda>msg.
           and_then (kprintln (SV ''Failed to initialize the VirtIO MMIO device at {X}: {V}'')
             [phys_addr, lit_addr s msg, of_nat (length msg)] s) (\<lambda>s.
           driver_node_free virtio_node s))
         else kprintln (SV ''Initialized a VirtIO MMIO device at {X}'') [phys_addr]
                (register_driver virtio_node DEVICE_TYPE_VIRTIO_MMIO s)))))"

text \<open>One turn of the loop over a node's compatible strings.\<close>

definition init_compatible :: "addr \<Rightarrow> addr \<Rightarrow> str_view \<Rightarrow> 'a system_scheme \<Rightarrow> halt + 'a system_scheme" where
  "init_compatible node plic str s =
     (if sv_is (kmem s) str ''ns16550a'' then
        and_then (device_tree_get_property (kmem s) node ''reg'') (\<lambda>reg.
          if \<not> usable_reg (kmem s) node reg then
            kprintln (SV ''Failed to initialize the {V} device'')
              [sv_data (node_name (kmem s) node), sv_size (node_name (kmem s) node)] s
          else init_uart_node node plic reg s)
      else if sv_is (kmem s) str ''virtio,mmio'' then
        and_then (device_tree_get_property (kmem s) node ''reg'') (\<lambda>reg.
          if \<not> usable_reg (kmem s) node reg then
            kprintln (SV ''The {V} device's device tree node is malformed.'')
              [sv_data (node_name (kmem s) node), sv_size (node_name (kmem s) node)] s
          else init_virtio_node node reg s)
      else Inr s)"

partial_function (option) init_compatibles :: "addr \<Rightarrow> addr \<Rightarrow> u64 \<Rightarrow> 'a system_scheme \<Rightarrow> (halt + 'a system_scheme) option" where
  "init_compatibles node plic i s =
     (if i < compatible_count (kmem s) node then
        case init_compatible node plic (sv_at (kmem s) (compatible (kmem s) node + 16 * i)) s of
          Inl h \<Rightarrow> Some (Inl h)
        | Inr s \<Rightarrow> init_compatibles node plic (i + 1) s
      else Some (Inr s))"

text \<open>A node without its children; the node's name is the format that is printed.\<close>

definition init_node :: "addr \<Rightarrow> addr \<Rightarrow> 'a system_scheme \<Rightarrow> halt + 'a system_scheme" where
  "init_node plic node s =
     deref node (
     and_then (kprintln (sv_bytes (kmem s) (node_name (kmem s) node)) [] s) (\<lambda>s.
     no_hang (init_compatibles node plic 0 s)))"

text \<open>The loop over the children, with the recursive call in its body.\<close>

partial_function (option) init_children :: "addr \<Rightarrow> addr \<Rightarrow> 'a system_scheme \<Rightarrow> (halt + 'a system_scheme) option" where
  "init_children plic child s =
     (if child = 0 then Some (Inr s)
      else case init_node plic child s of
        Inl h \<Rightarrow> Some (Inl h)
      | Inr s \<Rightarrow> Option.bind (init_children plic (children (kmem s) child) s) (\<lambda>r. case r of
            Inl h \<Rightarrow> Some (Inl h)
          | Inr s \<Rightarrow> init_children plic (sibling (kmem s) child) s))"

definition devices_recursive_initialize :: "addr \<Rightarrow> addr \<Rightarrow> 'a system_scheme \<Rightarrow> halt + 'a system_scheme" where
  "devices_recursive_initialize node plic s =
     and_then (init_node plic node s) (\<lambda>s. no_hang (init_children plic (children (kmem s) node) s))"

text \<open>The registry before any device, with the page of the map from harts to controllers.\<close>

definition devices_init_map :: "'a system_scheme \<Rightarrow> halt + 'a system_scheme" where
  "devices_init_map s =
     (let s = s\<lparr>drivers := 0, driver_count := 0, driver_node_arena := slab_autorefill_init sizeof_driver_node\<rparr>
      in and_then (kalloc PAGE_SIZE PAGE_SIZE s) (\<lambda>(al, s).
         Inr (s\<lparr>map_alloc_size := PAGE_SIZE, map_capacity := PAGE_SIZE div 8, hart_plic_map := alloc_buffer al,
                kmem := memzero (kmem s) (alloc_buffer al) PAGE_SIZE\<rparr>)))"

text \<open>
  The controller's own node.  The store into the map of controllers is not checked against its
  capacity, as in the code.
\<close>

definition register_controller :: "addr \<Rightarrow> u32 \<Rightarrow> 'a system_scheme \<Rightarrow> halt + 'a system_scheme" where
  "register_controller virt_addr bsp_hart s =
     and_then (driver_node_alloc s) (\<lambda>(node, s).
     deref node (
     let s = set32 (node + 8) (device_type_value DEVICE_TYPE_PLIC) s
     in and_then (plic_driver_init (node + 16) virt_addr bsp_hart s) (\<lambda>s.
        let s = set64 node (drivers s) s;
            s = s\<lparr>drivers := node, driver_count := driver_count s + 1\<rparr>
        in Inr (set64 (hart_plic_map s + 8 * ucast bsp_hart) (node + 16) s))))"

definition devices_init :: "u32 \<Rightarrow> 'a system_scheme \<Rightarrow> halt + 'a system_scheme" where
  "devices_init bsp_hart s =
     and_then (devices_init_map s) (\<lambda>s.
     and_then (dt_node_from_compatible ''riscv,plic0'' s) (\<lambda>plic_node.
     if plic_node = 0 then panic (SV ''No PLIC found in device tree.'') [] s
     else and_then (device_tree_get_property (kmem s) plic_node ''reg'') (\<lambda>reg.
     if \<not> usable_reg (kmem s) plic_node reg
     then panic (SV ''Problem with `riscv,plic0` device's `reg` property.'') [] s
     else
       let phys_addr = get64 (reg_addresses (kmem s) reg) s
       in and_then (kprintln (SV ''Found PLIC at physical address {X}'') [phys_addr] s) (\<lambda>s.
          and_then (register_controller (kernel_hhdm_phys_to_virt phys_addr s) bsp_hart s) (\<lambda>s.
          devices_recursive_initialize (root_node (dt s)) (get64 (hart_plic_map s + 8 * ucast bsp_hart) s) s)))))"

section \<open>What the drivers' initialisation keeps\<close>

text \<open>The registry: the controllers of the harts, the device tree and the loader's addresses stay.\<close>

definition keeps_boot :: "'a system_scheme \<Rightarrow> 'a system_scheme \<Rightarrow> bool" where
  "keeps_boot s s' \<longleftrightarrow> pinfo s' = pinfo s \<and> kernel_trap_frame s' = kernel_trap_frame s \<and> kernel_page_table s' = kernel_page_table s \<and>
     fn_asm_trap_handler s' = fn_asm_trap_handler s \<and> hhdm_offset s' = hhdm_offset s \<and> put s' = put s"

definition keeps_maps :: "'a system_scheme \<Rightarrow> 'a system_scheme \<Rightarrow> bool" where
  "keeps_maps s s' \<longleftrightarrow> keeps_boot s s' \<and> hart_plic_map s' = hart_plic_map s \<and> map_capacity s' = map_capacity s \<and> dt s' = dt s \<and>
     fn_uart_handle_interrupt s' = fn_uart_handle_interrupt s \<and> lit_addr s' = lit_addr s"

definition keeps_drivers :: "'a system_scheme \<Rightarrow> 'a system_scheme \<Rightarrow> bool" where
  "keeps_drivers s s' \<longleftrightarrow> keeps_maps s s' \<and> drivers s' = drivers s \<and> driver_count s' = driver_count s"

lemmas keeps_defs = keeps_drivers_def keeps_maps_def keeps_boot_def

lemma keeps_boot_refl [simp]: "keeps_boot s s"
  by (simp add: keeps_boot_def)

lemma keeps_boot_trans: "keeps_boot s s' \<Longrightarrow> keeps_boot s' s'' \<Longrightarrow> keeps_boot s s''"
  by (simp add: keeps_boot_def)

lemma keeps_maps_refl [simp]: "keeps_maps s s"
  by (simp add: keeps_maps_def)

lemma keeps_maps_trans: "keeps_maps s s' \<Longrightarrow> keeps_maps s' s'' \<Longrightarrow> keeps_maps s s''"
  by (auto simp: keeps_maps_def intro: keeps_boot_trans)

lemma keeps_drivers_trans: "keeps_drivers s s' \<Longrightarrow> keeps_drivers s' s'' \<Longrightarrow> keeps_drivers s s''"
  by (auto simp: keeps_drivers_def intro: keeps_maps_trans)

lemma keeps_drivers_maps: "keeps_drivers s s' \<Longrightarrow> keeps_maps s s'"
  by (simp add: keeps_drivers_def)

lemma machine_only_keeps: "machine_only s s' \<Longrightarrow> keeps_drivers s s'"
  by (auto simp: machine_only_def keeps_defs)

lemma allocator_only_keeps: "allocator_only s s' \<Longrightarrow> keeps_drivers s s'"
  by (auto simp: allocator_only_def keeps_defs)

lemma kprintln_keeps: "kprintln format args s = Inr s' \<Longrightarrow> keeps_drivers s s'"
  by (intro machine_only_keeps prints_machine_only kprintln_prints)

lemma driver_node_alloc_keeps: "driver_node_alloc s = Inr (p, s') \<Longrightarrow> keeps_drivers s s'"
proof -
  assume "driver_node_alloc s = Inr (p, s')"
  then obtain a s1 where s1: "slab_allocate kalloc (driver_node_arena s) s = Inr (p, a, s1)" "s' = s1\<lparr>driver_node_arena := a\<rparr>"
    by (auto simp: driver_node_alloc_def and_then_eq_Inr)
  have "keeps_drivers s s1" by (intro allocator_only_keeps slab_allocate_only [OF kalloc_only s1(1)])
  then show ?thesis by (simp add: s1(2) keeps_defs)
qed

lemma driver_node_free_keeps: "driver_node_free p s = Inr s' \<Longrightarrow> keeps_drivers s s'"
  by (auto simp: driver_node_free_def and_then_eq_Inr keeps_defs)

lemma uart_driver_init_keeps: "uart_driver_init d base s = Inr s' \<Longrightarrow> keeps_drivers s s'"
  by (auto simp: uart_driver_init_def deref_eq_Inr Let_def set64_def io_defs record_io_def keeps_defs)

lemma plic_driver_enable_int_keeps: "plic_driver_enable_int plic irq prio d s = Inr s' \<Longrightarrow> keeps_drivers s s'"
  by (auto simp: plic_driver_enable_int_def kassert_eq_Inr deref_eq_Inr Let_def set64_def io_defs record_io_def
      keeps_defs)

lemma init_virtio_node_keeps:
  assumes "init_virtio_node node reg s = Inr s'"
  shows "keeps_drivers s s'"
proof -
  let ?pa = "get64 (reg_addresses (kmem s) reg) s" and ?sz = "get64 (reg_sizes (kmem s) reg) s"
  obtain n s1 where a: "driver_node_alloc s = Inr (n, s1)" and n: "n \<noteq> 0"
    using assms by (auto simp: init_virtio_node_def Let_def and_then_eq_Inr deref_eq_Inr)
  obtain err s2 where v: "virtio_mmio_driver_init (n + 16) (kernel_hhdm_phys_to_virt ?pa s) ?sz s1 = Inr (err, s2)"
    using assms a n by (auto simp: init_virtio_node_def Let_def and_then_eq_Inr deref_eq_Inr)
  have e: "error_is_err err" using virtio_mmio_driver_init_correct(1) [OF v] by (simp del: ec.simps)
  obtain msg s3 where p: "kprintln (SV ''Failed to initialize the VirtIO MMIO device at {X}: {V}'')
             [?pa, lit_addr s2 msg, of_nat (length msg)] s2 = Inr s3" and f: "driver_node_free n s3 = Inr s'"
    using assms a n v e by (auto simp: init_virtio_node_def Let_def and_then_eq_Inr)
  show ?thesis
    by (rule keeps_drivers_trans [OF driver_node_alloc_keeps [OF a] keeps_drivers_trans [OF
      machine_only_keeps [OF virtio_mmio_driver_init_correct(3) [OF v]] keeps_drivers_trans [OF kprintln_keeps [OF p] driver_node_free_keeps [OF f]]]])
qed

lemma init_uart_node_keeps:
  assumes "init_uart_node node plic reg s = Inr s'"
  shows "keeps_maps s s'" and "driver_count s' = driver_count s + 1"
proof -
  let ?pa = "get64 (reg_addresses (kmem s) reg) s"
  obtain n s1 s2 s3 where a: "driver_node_alloc s = Inr (n, s1)"
    and u: "uart_driver_init (n + 16) (kernel_hhdm_phys_to_virt ?pa s) s1 = Inr s2"
    and e: "plic_driver_enable_int plic 10 1 (n + 8) s2 = Inr s3"
    and p: "kprintln (SV ''Initialized a UART device at {X}'') [?pa] (register_driver n DEVICE_TYPE_UART s3) = Inr s'"
    using assms by (auto simp: init_uart_node_def Let_def and_then_eq_Inr deref_eq_Inr)
  have k: "keeps_drivers s s3"
    by (rule keeps_drivers_trans [OF driver_node_alloc_keeps [OF a] keeps_drivers_trans [OF
      uart_driver_init_keeps [OF u] plic_driver_enable_int_keeps [OF e]]])
  have r: "keeps_maps s3 (register_driver n DEVICE_TYPE_UART s3)" "driver_count (register_driver n DEVICE_TYPE_UART s3) = driver_count s3 + 1"
    by (simp_all add: register_driver_def Let_def set64_def set32_def keeps_maps_def keeps_boot_def)
  show "keeps_maps s s'" "driver_count s' = driver_count s + 1"
    using k r kprintln_keeps [OF p] by (auto simp: keeps_drivers_def intro: keeps_maps_trans)
qed

lemma init_compatible_keeps: "init_compatible node plic c s = Inr s' \<Longrightarrow> keeps_maps s s'"
  by (auto simp: init_compatible_def and_then_eq_Inr split: if_splits
      intro: keeps_drivers_maps init_virtio_node_keeps init_uart_node_keeps(1) kprintln_keeps)

lemma init_compatibles_keeps:
  assumes "init_compatibles node plic i s = Some r"
  shows "\<forall>s'. r = Inr s' \<longrightarrow> keeps_maps s s'"
  by (rule init_compatibles.raw_induct [OF _ assms])
    (auto split: if_splits sum.splits dest: init_compatible_keeps intro: keeps_maps_trans)

lemma init_node_keeps:
  assumes "init_node plic node s = Inr s'"
  shows "keeps_maps s s'"
proof -
  obtain s1 where p: "kprintln (sv_bytes (kmem s) (node_name (kmem s) node)) [] s = Inr s1"
    and c: "init_compatibles node plic 0 s1 = Some (Inr s')"
    using assms by (auto simp: init_node_def deref_eq_Inr and_then_eq_Inr no_hang_def split: option.splits)
  show ?thesis
    using keeps_maps_trans [OF keeps_drivers_maps [OF kprintln_keeps [OF p]]] init_compatibles_keeps [OF c] by simp
qed

lemma init_children_keeps:
  assumes "init_children plic p s = Some r"
  shows "\<forall>s'. r = Inr s' \<longrightarrow> keeps_maps s s'"
proof (rule init_children.raw_induct [OF _ assms], goal_cases)
  case (1 f plic p s r)
  show ?case
  proof (intro allI impI)
    fix s' assume r: "r = Inr s'"
    show "keeps_maps s s'"
    proof (cases "p = 0")
      case True
      then show ?thesis using 1(2) r by auto
    next
      case False
      then obtain s1 s2 where n: "init_node plic p s = Inr s1" and c: "f plic (children (kmem s1) p) s1 = Some (Inr s2)"
        and q: "f plic (sibling (kmem s2) p) s2 = Some (Inr s')"
        using 1(2) r by (auto split: sum.splits bind_splits)
      show ?thesis
        using keeps_maps_trans [OF init_node_keeps [OF n] keeps_maps_trans [of s1 s2 s']] 1(1) [OF c] 1(1) [OF q] by simp
    qed
  qed
qed

lemma devices_recursive_initialize_keeps:
  assumes "devices_recursive_initialize node plic s = Inr s'"
  shows "keeps_maps s s'"
proof -
  obtain s1 where n: "init_node plic node s = Inr s1" and c: "init_children plic (children (kmem s1) node) s1 = Some (Inr s')"
    using assms by (auto simp: devices_recursive_initialize_def and_then_eq_Inr no_hang_def split: option.splits)
  show ?thesis using keeps_maps_trans [OF init_node_keeps [OF n]] init_children_keeps [OF c] by simp
qed

text \<open>
  No Virtio device is ever registered: whatever the device is, a turn for the compatible string
  \<^verbatim>\<open>virtio,mmio\<close> that comes to its end leaves the list of drivers and their number as they were.
\<close>

theorem virtio_devices_never_registered:
  assumes "init_virtio_node node reg s = Inr s'"
  shows "drivers s' = drivers s \<and> driver_count s' = driver_count s"
  using init_virtio_node_keeps [OF assms] by (simp add: keeps_drivers_def)

end
