(* ===== verification/Room.thy ===== *)
theory Room
  imports System
begin

text \<open>
  Requests that are sure to be granted: while every region has one free block at most, a request for
  a few pages succeeds as long as the free memory exceeds a reserve, and leaves such a manager
  behind.  The slab arenas that refill themselves take at most one page for a block.
\<close>

lemma covered_mset: "mset xs = mset ys \<Longrightarrow> covered xs = covered ys"
  by (auto simp: covered_def dest: mset_eq_setD)

lemma zero_not_extent: "a \<noteq> 0 \<Longrightarrow> unat a + n < 2 ^ 64 \<Longrightarrow> 0 \<notin> extent a n"
  using unat_sub_if_size [of 0 a] by (simp add: mem_extent unat_eq_zero word_size)

definition roomy :: "'a kernel_scheme \<Rightarrow> (addr \<times> nat) list \<Rightarrow> bool" where
  "roomy s live \<longleftrightarrow> kvspace_inv s live \<and> 0 \<notin> covered live \<and> one_each s live"

text \<open>
  What is free beyond a reserve of four pages for each region: a request for up to four pages that is
  covered by it finds a region with enough of them.
\<close>

definition spare :: "'a kernel_scheme \<Rightarrow> nat" where
  "spare s = unat (free_bytes s) - REGION_COUNT * 16384"

lemma spare_same: "free_bytes s' = free_bytes s \<Longrightarrow> spare s' = spare s"
  by (simp add: spare_def)

lemma spare_updates [simp]:
  "spare (s\<lparr>kmem := m\<rparr>) = spare s" "spare (s\<lparr>io_events := es\<rparr>) = spare s" "spare (s\<lparr>print_buf := buf\<rparr>) = spare s" "spare (s\<lparr>put := f\<rparr>) = spare s"
  "spare (t\<lparr>driver_node_arena := a\<rparr>) = spare t" "spare (t\<lparr>drivers := d\<rparr>) = spare t" "spare (t\<lparr>driver_count := n\<rparr>) = spare t"
  "spare (t\<lparr>map_alloc_size := n\<rparr>) = spare t" "spare (t\<lparr>map_capacity := n\<rparr>) = spare t" "spare (t\<lparr>hart_plic_map := x\<rparr>) = spare t"
  by (simp_all add: spare_def)

lemma roomy_kvspace: "roomy s live \<Longrightarrow> kvspace_inv s live"
  by (simp add: roomy_def)

lemma roomy_perm: "roomy s live \<Longrightarrow> mset live = mset live' \<Longrightarrow> roomy s live'"
  using covered_mset kpage_blocks.inv_perm one_each_perm unfolding roomy_def by metis

lemma pmm_inv_drop: "pmm_inv s bss (x # live) \<Longrightarrow> pmm_inv s bss live"
  unfolding pmm_inv_def using pmm_arena_drop by blast

lemma roomy_drop: "roomy s (x # live) \<Longrightarrow> roomy s live"
  unfolding roomy_def kvspace_inv_def one_each_def covered_Cons using pmm_inv_drop by blast

lemma kvspace_free_bytes:
  assumes "kvspace_inv s live" and req: "pmm_request_ok (hhdm_offset s) 12 (ALIGN_UP len PAGE_SIZE)"
    and run: "kalloc len PAGE_SIZE s = Inr (al, s')"
  shows "unat (free_bytes s') + unat (ALIGN_UP len PAGE_SIZE) = unat (free_bytes s)" and "hhdm_offset s' = hhdm_offset s"
proof -
  obtain bss where inv: "pmm_inv s bss live" using assms(1) by (auto simp: kvspace_inv_def)
  have "(2 :: u64) ^ 12 = PAGE_SIZE" by simp
  with run have "kalloc len (2 ^ 12) s = Inr (al, s')" by metis
  then obtain p bss' where g: "pmm_granted s bss live 12 (ALIGN_UP len PAGE_SIZE) p s' bss'"
    using kalloc_success [OF inv req] by blast
  show "unat (free_bytes s') + unat (ALIGN_UP len PAGE_SIZE) = unat (free_bytes s)" using g by (simp add: pmm_granted_def)
  show "hhdm_offset s' = hhdm_offset s" by (rule pmm_granted_hhdm [OF g])
qed

lemma roomy_kalloc_kept:
  assumes room: "roomy s live" and req: "pmm_request_ok (hhdm_offset s) 12 (ALIGN_UP len PAGE_SIZE)"
    and run: "kalloc len PAGE_SIZE s = Inr (al, s')"
  shows "roomy s' ((alloc_buffer al, unat (ALIGN_UP len PAGE_SIZE)) # live)"
proof -
  let ?n = "unat (ALIGN_UP len PAGE_SIZE)"
  have inv: "kvspace_inv s live" using room by (rule roomy_kvspace)
  have "(2 :: u64) ^ 12 = PAGE_SIZE" by simp
  with run have r12: "kalloc len (2 ^ 12) s = Inr (al, s')" by metis
  have "0 \<notin> extent (alloc_buffer al) ?n"
    using kvspace_kalloc(2) [OF inv req r12] by (simp add: zero_not_extent)
  then show ?thesis using kvspace_kalloc(1) [OF inv req r12] one_each_kept [OF _ req run] room by (simp add: roomy_def)
qed

lemma spare_kalloc:
  assumes "kvspace_inv s live" and "pmm_request_ok (hhdm_offset s) 12 (ALIGN_UP len PAGE_SIZE)"
    and "kalloc len PAGE_SIZE s = Inr (al, s')"
  shows "spare s \<le> spare s' + unat (ALIGN_UP len PAGE_SIZE)"
  using kvspace_free_bytes(1) [OF assms] by (simp add: spare_def)

lemma roomy_kalloc:
  assumes room: "roomy s live" and req: "pmm_request_ok (hhdm_offset s) 12 (ALIGN_UP len PAGE_SIZE)"
    and n: "0 < unat (ALIGN_UP len PAGE_SIZE)" "unat (ALIGN_UP len PAGE_SIZE) \<le> 16384" "0 < spare s"
  shows "\<exists>al s'. kalloc len PAGE_SIZE s = Inr (al, s')"
proof -
  have "REGION_COUNT * unat (ALIGN_UP len PAGE_SIZE) \<le> REGION_COUNT * 16384" using n(2) by (rule mult_le_mono2)
  also have "\<dots> \<le> unat (free_bytes s)" using n(3) by (simp add: spare_def)
  finally show ?thesis using one_each_kalloc [OF _ req n(1)] room unfolding roomy_def by blast
qed

lemma page_request:
  "roomy s live \<Longrightarrow> pmm_request_ok (hhdm_offset s) 12 (ALIGN_UP PAGE_SIZE PAGE_SIZE)"
  by (simp add: roomy_def kvspace_inv_def pmm_request_ok_def ALIGN_UP_def)

interpretation rpages: page_source roomy kalloc
proof unfold_locales
  fix s s' :: "'a kernel_scheme" and live and m :: mem and b
  show "roomy s live \<Longrightarrow> all_apart live" by (auto simp: roomy_def intro: kpages.kinv_apart)
  show "agree_on (- covered live) m (kmem s) \<Longrightarrow> roomy s live \<Longrightarrow> roomy (s\<lparr>kmem := m\<rparr>) live"
    using kpages.kinv_frame [of s live m] one_each_frame [of s live m] by (simp add: roomy_def)
  show "roomy s live \<Longrightarrow> kalloc PAGE_SIZE PAGE_SIZE s = Inr (b, s') \<Longrightarrow> roomy s' ((alloc_buffer b, unat PAGE_SIZE) # live)"
    using roomy_kalloc_kept [where len = PAGE_SIZE, OF _ page_request] by (fastforce simp: ALIGN_UP_def)
qed (auto simp: roomy_def dest: kpages.page_shape kpages.page_frame)

text \<open>An arena of such a manager is an arena of the page allocator.\<close>

lemma arena_roomy: "arena_in roomy a s live others \<Longrightarrow> arena_in kvspace_inv a s live others"
  unfolding arena_in_def using roomy_kvspace by blast

text \<open>One allocation asks the page allocator at most once.\<close>

lemma slab_allocate_via:
  assumes "slab_allocate kal a s = Inr (p, a', s')"
  shows "(\<exists>m. s' = s\<lparr>kmem := m\<rparr>) \<or> (\<exists>b t m. kal PAGE_SIZE PAGE_SIZE s = Inr (b, t) \<and> s' = t\<lparr>kmem := m\<rparr>)"
  using assms exI [of "\<lambda>m. s = s\<lparr>kmem := m\<rparr>" "kmem s"]
  by (auto simp: slab_allocate_def slab_refill_def with_mem_def and_then_eq_Inr Let_def split: if_splits prod.splits)

lemma arena_allocates:
  assumes arena: "arena_in roomy a s live others" and bs: "block_size a = 2 ^ k" "3 \<le> k" "k \<le> 10" "auto_refill a"
    and room: "4096 < spare s"
  shows "\<exists>p a' s'. slab_allocate kalloc a s = Inr (p, a', s') \<and> p \<noteq> 0 \<and> arena_in roomy a' s' ((p, 2 ^ k) # live) others \<and>
    block_size a' = block_size a \<and> auto_refill a' \<and> agree_on (covered (live @ others)) (kmem s') (kmem s) \<and>
    spare s \<le> spare s' + 4096 \<and> hhdm_offset s' = hhdm_offset s"
proof -
  obtain pages where pg: "roomy s (pages @ others)" using arena by (auto simp: arena_in_def)
  have n: "unat (ALIGN_UP PAGE_SIZE PAGE_SIZE) = 4096" by (simp add: ALIGN_UP_def)
  obtain b t where k: "kalloc PAGE_SIZE PAGE_SIZE s = Inr (b, t)"
    using roomy_kalloc [OF pg page_request [OF pg]] room by (auto simp: n)
  note F = spare_kalloc [OF roomy_kvspace [OF pg] page_request [OF pg] k] kvspace_free_bytes(2) [OF roomy_kvspace [OF pg] page_request [OF pg] k]
  note R = rpages.allocate_refilling [OF arena bs(2,3,1)]
  obtain p a' s' where al: "slab_allocate kalloc a s = Inr (p, a', s')"
    using R k by (cases "slab_allocate kalloc a s") (auto split: prod.splits)
  have "spare s \<le> spare s' + 4096 \<and> hhdm_offset s' = hhdm_offset s"
    using slab_allocate_via [OF al] k F by (auto simp: n)
  then show ?thesis using R bs(4) by (simp add: al split: if_splits)
qed

text \<open>A booted manager of four megabytes.\<close>

lemma roomy_boot:
  assumes "all_apart ((0xFFFFFFFF80000000, 2432) # (0xFFFFFFC080001000, 0x400000) # live)" and "0 \<notin> covered live"
  obtains s :: kernel where "roomy s live" and "hhdm_offset s = 0xFFFFFFC000000000" and "spare s = 0x380000"
proof -
  obtain s :: kernel and e where s: "pmm_inv s [[e]] live" "hhdm_offset s = 0xFFFFFFC000000000" "policy s = PMM_POLICY_FIRST_FIT"
    "97 \<le> unat (free_blocks (block_arena s))" "pb_size (kmem s) e = 0x400000" "free_bytes s = 0x400000"
    by (rule boot_beside_free [OF assms(1)]) blast
  have "16 \<le> free_blocks (block_arena s)" using s(4) by (simp add: word_le_nat_alt)
  then have "one_each s live"
    using s unfolding one_each_def by (auto intro!: exI [of _ "[[e]]"] simp: pb_sizes_def)
  moreover have "kvspace_inv s live" using s(1,2) by (auto simp: kvspace_inv_def)
  ultimately show thesis using that s(2,6) assms(2) by (auto simp: roomy_def spare_def REGION_COUNT_def)
qed

end
