(* ===== verification/Registry.thy ===== *)
theory Registry
  imports Devices Trap Room
begin

text \<open>
  The registry of the drivers: the list of driver nodes, the arena they are allocated from and the
  controller's map from interrupts to drivers, with their invariant and what every step of the
  initialisation keeps of it.
\<close>

section \<open>The invariant of the registry\<close>

text \<open>The blocks of the driver nodes.\<close>

definition nodes :: "addr list \<Rightarrow> (addr \<times> nat) list" where
  "nodes ns = map (\<lambda>n. (n, 64)) ns"

lemma nodes_simps [simp]: "nodes [] = []" "nodes (n # ns) = (n, 64) # nodes ns"
  by (simp_all add: nodes_def)

lemma node_extent: "n \<in> set ns \<Longrightarrow> extent n 64 \<subseteq> covered (nodes ns)"
  by (intro extent_subset_covered) (auto simp: nodes_def)

text \<open>The arena of the nodes, beside the map from interrupts to drivers and whatever else must be kept.\<close>

definition registry_arena ::
    "('a system_scheme \<Rightarrow> (addr \<times> nat) list \<Rightarrow> bool) \<Rightarrow> addr \<Rightarrow> 'a system_scheme \<Rightarrow> (addr \<times> nat) list \<Rightarrow> (addr \<times> nat) list \<Rightarrow> bool" where
  "registry_arena kinv plic s bl kept \<longleftrightarrow>
     arena_in kinv (driver_node_arena s) s bl ((plic_driver_map plic s, 8192) # kept) \<and>
     block_size (driver_node_arena s) = 64 \<and> auto_refill (driver_node_arena s)"

text \<open>
  The list of drivers and the map: the controller's structure is in one of the nodes, and an
  interrupt that has a driver has one in a node, which is a UART with its handler installed.
\<close>

definition slots_ok :: "addr \<Rightarrow> 'a system_scheme \<Rightarrow> addr list \<Rightarrow> bool" where
  "slots_ok plic s ns \<longleftrightarrow> (\<forall>irq < 1024. plic_driver_of plic irq s \<noteq> 0 \<longrightarrow>
     plic_driver_of plic irq s - 8 \<in> set ns \<and> uart_ready (plic_driver_of plic irq s) s)"

definition registry_data :: "addr \<Rightarrow> 'a system_scheme \<Rightarrow> addr list \<Rightarrow> bool" where
  "registry_data plic s ns \<longleftrightarrow>
     chain 0 (kmem s) (drivers s) ns \<and> driver_count s = of_nat (length ns) \<and>
     plic \<noteq> 0 \<and> plic - 16 \<in> set ns \<and> fn_uart_handle_interrupt s \<noteq> 0 \<and> slots_ok plic s ns"

definition registry_inv ::
    "('a system_scheme \<Rightarrow> (addr \<times> nat) list \<Rightarrow> bool) \<Rightarrow> addr \<Rightarrow> 'a system_scheme \<Rightarrow> addr list \<Rightarrow> (addr \<times> nat) list \<Rightarrow> bool" where
  "registry_inv kinv plic s ns kept \<longleftrightarrow> registry_arena kinv plic s (nodes ns) kept \<and> registry_data plic s ns"

text \<open>States that the memory manager, and also the arena of the nodes, do not tell apart.\<close>

definition manager_same :: "'a system_scheme \<Rightarrow> 'a system_scheme \<Rightarrow> bool" where
  "manager_same s s' \<longleftrightarrow> hhdm_offset s' = hhdm_offset s \<and> block_arena s' = block_arena s \<and> regions s' = regions s \<and>
     region_count s' = region_count s \<and> free_bytes s' = free_bytes s \<and> policy s' = policy s"

definition kernel_same :: "'a system_scheme \<Rightarrow> 'a system_scheme \<Rightarrow> bool" where
  "kernel_same s s' \<longleftrightarrow> manager_same s s' \<and> driver_node_arena s' = driver_node_arena s"

lemmas same_defs = kernel_same_def manager_same_def

lemma kvspace_inv_same: "manager_same s s' \<Longrightarrow> kmem s' = kmem s \<Longrightarrow> kvspace_inv s' live = kvspace_inv s live"
  by (simp add: kvspace_inv_def pmm_inv_def manager_same_def)

lemma machine_only_same: "machine_only s s' \<Longrightarrow> kernel_same s s'"
  by (auto simp: machine_only_def same_defs)

lemma kernel_same_trans: "kernel_same s s' \<Longrightarrow> kernel_same s' s'' \<Longrightarrow> kernel_same s s''"
  by (simp add: same_defs)

lemma roomy_same: "manager_same s s' \<Longrightarrow> kmem s' = kmem s \<Longrightarrow> roomy s' live = roomy s live"
  using kvspace_inv_same [of s s' live] by (simp add: roomy_def one_each_def pmm_inv_def manager_same_def)

section \<open>What the registry asks of the memory manager\<close>

text \<open>
  The lemmas about the registry are proved for any invariant of the memory manager that is a source
  of pages, that larger requests keep too and that only depends on the manager's own fields: the
  page allocator's invariant and the one of a manager that is sure to grant are both.
\<close>

locale page_manager = page_source kinv kalloc
  for kinv :: "'a system_scheme \<Rightarrow> (addr \<times> nat) list \<Rightarrow> bool" +
  assumes kinv_same: "manager_same s s' \<Longrightarrow> kmem s' = kmem s \<Longrightarrow> kinv s' live = kinv s live"
    and kinv_perm: "kinv s live \<Longrightarrow> mset live = mset live' \<Longrightarrow> kinv s live'"
    and kinv_kvspace: "kinv s live \<Longrightarrow> kvspace_inv s live"
    and kinv_kalloc: "kinv s live \<Longrightarrow> pmm_request_ok (hhdm_offset s) 12 (ALIGN_UP len PAGE_SIZE) \<Longrightarrow>
      0 < unat (ALIGN_UP len PAGE_SIZE) \<Longrightarrow> kalloc len PAGE_SIZE s = Inr (al, s') \<Longrightarrow>
      kinv s' ((alloc_buffer al, unat (ALIGN_UP len PAGE_SIZE)) # live)"
begin

lemma arena_same:
  assumes "kernel_same s s'" and "arena_in kinv a s live others"
    and "agree_on (- covered (live @ others)) (kmem s') (kmem s)"
  shows "arena_in kinv a s' live others"
proof -
  have "manager_same (s\<lparr>kmem := kmem s'\<rparr>) s'" using assms(1) by (simp add: same_defs)
  then have "kinv s' = kinv (s\<lparr>kmem := kmem s'\<rparr>)" by (intro ext kinv_same) simp_all
  then show ?thesis using arena_frame [OF assms(2,3)] by (simp add: arena_in_def)
qed

lemma registry_arena_frame:
  assumes "registry_arena kinv plic s bl kept" and "kernel_same s s'" and "plic_driver_map plic s' = plic_driver_map plic s"
    and "agree_on (- covered (bl @ (plic_driver_map plic s, 8192) # kept)) (kmem s') (kmem s)"
  shows "registry_arena kinv plic s' bl kept"
proof -
  have "driver_node_arena s' = driver_node_arena s" using assms(2) by (simp add: same_defs)
  then show ?thesis using assms(1,3) arena_same [OF assms(2) _ assms(4)] by (simp add: registry_arena_def)
qed

lemma registry_plic:
  assumes "registry_arena kinv plic s (nodes ns) kept" and "registry_data plic s ns"
  shows "plic_layout plic s" and "extent plic 48 \<subseteq> covered (nodes ns)"
proof -
  have p: "plic \<noteq> 0" "plic - 16 \<in> set ns" using assms(2) by (simp_all add: registry_data_def)
  have "extent (plic - 16 + 16) 48 \<subseteq> extent (plic - 16) 64" by (rule extent_field) simp_all
  then show e: "extent plic 48 \<subseteq> covered (nodes ns)" using node_extent [OF p(2)] by auto
  have "all_apart (nodes ns @ (plic_driver_map plic s, 8192) # kept)"
    using assms(1) unfolding registry_arena_def by (blast dest: arena_apart)
  then have "covered (nodes ns) \<inter> extent (plic_driver_map plic s) 8192 = {}" by (auto simp: all_apart_append_covered)
  then show "plic_layout plic s" using p e by (auto simp: plic_layout_def)
qed

end

section \<open>What depends on the nodes and the map\<close>

lemma nodes_frame:
  assumes ag: "agree_on (covered (nodes ns)) (kmem s') (kmem s)"
  shows "chain 0 (kmem s') q ns = chain 0 (kmem s) q ns"
    and "extent plic 48 \<subseteq> covered (nodes ns) \<Longrightarrow> plic_driver_map plic s' = plic_driver_map plic s"
    and "d - 8 \<in> set ns \<Longrightarrow> fn_uart_handle_interrupt s' = fn_uart_handle_interrupt s \<Longrightarrow> uart_ready d s' = uart_ready d s"
proof -
  have in_node: "extent (n + i) k \<subseteq> covered (nodes ns)" if "n \<in> set ns" "unat i + k \<le> 64" for n i k
    using node_extent [OF that(1)] extent_field [of i k 64 n] that(2) by auto
  show "chain 0 (kmem s') q ns = chain 0 (kmem s) q ns"
    by (rule chain_agree [OF ag]) (use in_node [of _ 0 8] in auto)
  show "extent plic 48 \<subseteq> covered (nodes ns) \<Longrightarrow> plic_driver_map plic s' = plic_driver_map plic s"
    using extent_field [of 40 8 48 plic] unfolding plic_driver_map_def get64_def
    by (intro load64_agree [OF ag]) auto
  show "uart_ready d s' = uart_ready d s" if d: "d - 8 \<in> set ns" and fn: "fn_uart_handle_interrupt s' = fn_uart_handle_interrupt s"
  proof -
    have "extent (d - 8 + 24) 8 \<subseteq> covered (nodes ns)" by (rule in_node [OF d]) simp
    moreover have "d - 8 + 24 = d + 8 + 8" by simp
    ultimately have h: "extent (d + 8 + 8) 8 \<subseteq> covered (nodes ns)" by metis
    have "driver_type d s' = driver_type d s" unfolding driver_type_def get32_def
      by (rule load32_agree [OF ag]) (use in_node [OF d, of 8 4] in simp)
    moreover have "uart_handler (driver_d d) s' = uart_handler (driver_d d) s" unfolding uart_handler_def driver_d_def get64_def
      by (rule load64_agree [OF ag h])
    ultimately show ?thesis by (simp add: uart_ready_def fn)
  qed
qed

lemma slot_extent: "irq < 1024 \<Longrightarrow> extent (b + 8 * ucast (irq :: u32)) 8 \<subseteq> extent b 8192"
  using ucast_irq_nat [of irq] by (intro extent_field) simp_all

lemma slot_frame:
  assumes "plic_driver_map plic s' = plic_driver_map plic s"
    and "agree_on (extent (plic_driver_map plic s) 8192) (kmem s') (kmem s)" and "irq < 1024"
  shows "plic_driver_of plic irq s' = plic_driver_of plic irq s"
  using load64_agree [OF assms(2) slot_extent [OF assms(3)]] by (simp add: plic_driver_of_def get64_def assms(1))

lemma registry_data_frame:
  assumes data: "registry_data plic s ns" and pl: "extent plic 48 \<subseteq> covered (nodes ns)"
    and ag: "agree_on (covered (nodes ns @ [(plic_driver_map plic s, 8192)])) (kmem s') (kmem s)"
    and same: "drivers s' = drivers s" "driver_count s' = driver_count s" "fn_uart_handle_interrupt s' = fn_uart_handle_interrupt s"
  shows "plic_driver_map plic s' = plic_driver_map plic s" and "registry_data plic s' ns"
proof -
  have a: "agree_on (covered (nodes ns)) (kmem s') (kmem s)" by (rule agree_on_mono [OF ag]) auto
  note F = nodes_frame [OF a]
  show m: "plic_driver_map plic s' = plic_driver_map plic s" by (rule F(2) [OF pl])
  have "agree_on (extent (plic_driver_map plic s) 8192) (kmem s') (kmem s)" by (rule agree_on_mono [OF ag]) auto
  note S = slot_frame [OF m this]
  have "slots_ok plic s' ns" using data F(3) same(3) by (auto simp: registry_data_def slots_ok_def S)
  then show "registry_data plic s' ns" using data F(1) by (auto simp: registry_data_def same)
qed

lemma all_apart_middle:
  assumes "all_apart (xs @ y # zs)"
  shows "extent (fst y) (snd y) \<inter> covered (xs @ zs) = {}"
  by (rule all_apart_covered_hd [OF all_apart_perm [OF assms]]) simp

lemma plic_mem:
  "kmem s = kmem t \<Longrightarrow> plic_driver_map plic s = plic_driver_map plic t"
  "kmem s = kmem t \<Longrightarrow> plic_driver_of plic irq s = plic_driver_of plic irq t"
  by (simp_all add: plic_driver_map_def plic_driver_of_def get64_def)

lemma uart_driver_init_eq:
  assumes "uart_driver_init d base s = Inr s'"
  shows "kmem s' = store64 (store64 (kmem s) d base) (d + 8) (fn_uart_handle_interrupt s)" and "machine_only s s'" and "d \<noteq> 0"
proof -
  have d: "d \<noteq> 0" and s': "s' = mmio_write8 (get64 d (set64 (d + 8) (fn_uart_handle_interrupt (set64 d base s)) (set64 d base s)) + 1) 1
      (set64 (d + 8) (fn_uart_handle_interrupt (set64 d base s)) (set64 d base s))"
    using assms by (auto simp: uart_driver_init_def deref_eq_Inr Let_def uart_base_def)
  show "kmem s' = store64 (store64 (kmem s) d base) (d + 8) (fn_uart_handle_interrupt s)" "machine_only s s'" "d \<noteq> 0"
    using d by (simp_all add: s' io_defs set64_def)
      (simp add: record_io_def machine_onlyI [where buf = "print_buf s" and s = s, simplified])
qed

text \<open>What a fresh node, the driver's structure in it and the map hold afterwards.\<close>

definition uart_registered :: "addr \<Rightarrow> addr \<Rightarrow> addr \<Rightarrow> 'a system_scheme \<Rightarrow> 'a system_scheme \<Rightarrow> bool" where
  "uart_registered plic n base s s' \<longleftrightarrow> kernel_same s s' \<and>
     agree_on (- (extent n 64 \<union> extent (plic_driver_map plic s) 8192)) (kmem s') (kmem s) \<and>
     plic_driver_map plic s' = plic_driver_map plic s \<and>
     (\<forall>irq < 1024. plic_driver_of plic irq s' = (if irq = 10 then n + 8 else plic_driver_of plic irq s)) \<and>
     load64 (kmem s') n = drivers s \<and> load32 (kmem s') (n + 8) = 2 \<and> load64 (kmem s') (n + 16) = base \<and>
     load64 (kmem s') (n + 24) = fn_uart_handle_interrupt s \<and>
     drivers s' = n \<and> driver_count s' = driver_count s + 1 \<and> fn_uart_handle_interrupt s' = fn_uart_handle_interrupt s"

lemma uart_node_written:
  assumes u: "uart_driver_init (n + 16) base s1 = Inr s2" and e: "plic_driver_enable_int plic 10 1 (n + 8) s2 = Inr s3"
    and pr: "kprintln fmt args (register_driver n DEVICE_TYPE_UART s3) = Inr s'"
    and dj: "extent n 64 \<inter> extent (plic_driver_map plic s1) 8192 = {}" and lay: "plic_layout plic s1"
    and pl: "extent plic 48 \<inter> extent n 64 = {}"
  shows "uart_registered plic n base s1 s'"
proof -
  let ?map = "plic_driver_map plic s1"
  note U = uart_driver_init_eq [OF u]
  have e: "n + 16 + 8 = n + 24" "n + 16 - (n + 24) = - 8" by simp_all
  have f1: "agree_on (- extent n 64) (kmem s2) (kmem s1)"
    unfolding U(1) e(1) by (intro store_in_struct) simp_all
  have u2: "load64 (kmem s2) (n + 24) = fn_uart_handle_interrupt s1" "load64 (kmem s2) (n + 16) = base"
    unfolding U(1) e(1) by simp (subst load64_store64_other, simp_all add: e(2))
  have "extent (plic + 40) 8 \<subseteq> - extent n 64" using extent_field [of 40 8 48 plic] pl by auto
  then have m2: "plic_driver_map plic s2 = ?map" unfolding plic_driver_map_def get64_def by (rule load64_agree [OF f1])
  have lay2: "plic_layout plic s2" using lay by (simp add: plic_layout_def m2)
  let ?t = "set64 (?map + 8 * ucast (10 :: u32)) (n + 8) s2"
  have s3: "s3 = s2\<lparr>kmem := kmem ?t, io_events := io_events s3\<rparr>" and kt: "kmem s3 = kmem ?t"
    using plic_driver_enable_int_correct [OF lay2, of 10 1 "n + 8"] assms(2) by (auto simp: m2 set64_def)
  have m3: "plic_driver_map plic s3 = ?map"
    using plic_slot_store(1) [OF lay2, where irq = 10 and drv = "n + 8"] by (simp add: plic_mem [OF kt] m2)
  have slot3: "plic_driver_of plic j s3 = (if j = 10 then n + 8 else plic_driver_of plic j s2)" if "j < 1024" for j
    using plic_slot_store(6) [OF lay2, where irq = 10 and j = j and drv = "n + 8"] that by (simp add: plic_mem [OF kt] m2)
  have f3: "agree_on (- extent ?map 8192) (kmem s3) (kmem s2)"
    unfolding kt using slot_extent [of 10 ?map] by (simp, intro store64_agree) auto
  have s': "kmem s' = store64 (store32 (kmem s3) (n + 8) 2) n (drivers s3)" "drivers s' = n" "driver_count s' = driver_count s3 + 1"
    "fn_uart_handle_interrupt s' = fn_uart_handle_interrupt s3" "kernel_same s3 s'"
    using prints_fields [OF kprintln_prints [OF pr]] machine_only_same [OF prints_machine_only [OF kprintln_prints [OF pr]]] kprintln_keeps [OF pr]
    by (simp_all add: register_driver_def Let_def set64_def set32_def keeps_defs same_defs)
  have "agree_on (- extent n 64) (store32 (kmem s3) (n + 8) 2) (kmem s3)"
    using extent_field [of 8 4 64 n] by (intro store32_agree) auto
  then have f4: "agree_on (- extent n 64) (kmem s') (kmem s3)"
    unfolding s'(1) using store_in_struct [of n 64 _ _ 0] by simp
  have m': "plic_driver_map plic s' = ?map"
    using load64_agree [OF f4, of "plic + 40"] extent_field [of 40 8 48 plic] pl m3 by (auto simp: plic_driver_map_def get64_def)
  have slots: "plic_driver_of plic j s' = (if j = 10 then n + 8 else plic_driver_of plic j s1)" if j: "j < 1024" for j
  proof -
    have "agree_on (extent ?map 8192) (kmem s') (kmem s3)" "agree_on (extent ?map 8192) (kmem s2) (kmem s1)"
      using dj by (auto intro: agree_on_mono [OF f4] agree_on_mono [OF f1])
    then have "plic_driver_of plic j s' = plic_driver_of plic j s3" "plic_driver_of plic j s2 = plic_driver_of plic j s1"
      using j by (auto intro!: slot_frame simp: m' m3 m2)
    then show ?thesis using slot3 [OF j] by simp
  qed
  have k: "drivers s3 = drivers s1" "driver_count s3 = driver_count s1" "fn_uart_handle_interrupt s3 = fn_uart_handle_interrupt s1"
    using keeps_drivers_trans [OF uart_driver_init_keeps [OF u] plic_driver_enable_int_keeps [OF assms(2)]]
    by (simp_all add: keeps_defs)
  have "extent (n + 16) 8 \<subseteq> extent n 64" "extent (n + 24) 8 \<subseteq> extent n 64" by (rule extent_field; simp)+
  then have "extent (n + 16) 8 \<subseteq> - extent ?map 8192" "extent (n + 24) 8 \<subseteq> - extent ?map 8192" using dj by auto
  note g = load64_agree [OF f3 this(1)] load64_agree [OF f3 this(2)]
  let ?A = "- (extent n 64 \<union> extent ?map 8192)"
  have "agree_on ?A (kmem s') (kmem s3)" "agree_on ?A (kmem s3) (kmem s2)" "agree_on ?A (kmem s2) (kmem s1)"
    by (auto intro: agree_on_mono [OF f4] agree_on_mono [OF f3] agree_on_mono [OF f1])
  then have "agree_on ?A (kmem s') (kmem s1)" by (blast intro: agree_on_trans)
  moreover have "kernel_same s2 s3" by (subst s3) (simp add: same_defs)
  then have "kernel_same s1 s'" using machine_only_same [OF U(2)] s'(5) by (blast intro: kernel_same_trans)
  ultimately show ?thesis
    using m' slots k s'(2-4) g u2 by (simp add: uart_registered_def) (simp add: s'(1) mem_simps k(1))
qed

text \<open>A step that keeps the registry well formed, and every block that must be kept.\<close>

definition grows ::
    "('a system_scheme \<Rightarrow> (addr \<times> nat) list \<Rightarrow> bool) \<Rightarrow> addr \<Rightarrow> 'a system_scheme \<Rightarrow> 'a system_scheme \<Rightarrow> bool" where
  "grows kinv plic s s' \<longleftrightarrow> (\<forall>ns kept. registry_inv kinv plic s ns kept \<longrightarrow>
     agree_on (covered kept) (kmem s') (kmem s) \<and> (\<exists>new. registry_inv kinv plic s' (new @ ns) kept))"

lemma grows_refl [simp]: "grows kinv plic s s"
  unfolding grows_def by (metis agree_on_refl append_Nil)

lemma grows_trans: "grows kinv plic s s' \<Longrightarrow> grows kinv plic s' s'' \<Longrightarrow> grows kinv plic s s''"
  unfolding grows_def by (metis agree_on_trans append_assoc)

section \<open>A fresh node\<close>

context page_manager begin

lemma registry_alloc:
  assumes inv: "registry_inv kinv plic s ns kept" and run: "driver_node_alloc s = Inr (p, s1)"
  shows "p \<noteq> 0" and "registry_arena kinv plic s1 ((p, 64) # nodes ns) kept" and "registry_data plic s1 ns"
    and "plic_driver_map plic s1 = plic_driver_map plic s" and "agree_on (covered kept) (kmem s1) (kmem s)"
    and "extent plic 48 \<subseteq> covered (nodes ns)" and "irq < 1024 \<Longrightarrow> plic_driver_of plic irq s1 = plic_driver_of plic irq s"
    and "agree_on (covered (nodes ns)) (kmem s1) (kmem s)"
proof -
  let ?a = "driver_node_arena s"
  have ar: "registry_arena kinv plic s (nodes ns) kept" and data: "registry_data plic s ns" using inv by (simp_all add: registry_inv_def)
  have bs: "block_size ?a = 2 ^ 6" "auto_refill ?a"
    and arena: "arena_in kinv ?a s (nodes ns) ((plic_driver_map plic s, 8192) # kept)"
    using ar by (simp_all add: registry_arena_def)
  obtain a t where al: "slab_allocate kalloc ?a s = Inr (p, a, t)" and s1: "s1 = t\<lparr>driver_node_arena := a\<rparr>"
    using run by (auto simp: driver_node_alloc_def and_then_eq_Inr)
  note R = allocate_refilling [OF arena _ _ bs(1), unfolded al, simplified]
  show p: "p \<noteq> 0" using R bs(2) by (auto split: if_splits)
  have t: "arena_in kinv a t ((p, 64) # nodes ns) ((plic_driver_map plic s, 8192) # kept)"
    and ag: "agree_on (covered (nodes ns @ (plic_driver_map plic s, 8192) # kept)) (kmem t) (kmem s)"
    and a: "block_size a = 64" "auto_refill a"
    using R p bs by (auto split: if_splits)
  show pl: "extent plic 48 \<subseteq> covered (nodes ns)" by (rule registry_plic [OF ar data])
  have k: "keeps_drivers s s1" by (rule driver_node_alloc_keeps [OF run])
  have "agree_on (covered (nodes ns @ [(plic_driver_map plic s, 8192)])) (kmem s1) (kmem s)"
    by (simp add: s1, rule agree_on_mono [OF ag]) auto
  note D = registry_data_frame [OF data pl this]
  show m: "plic_driver_map plic s1 = plic_driver_map plic s" "registry_data plic s1 ns"
    using D k by (simp_all add: keeps_defs)
  have "kinv s1 = kinv t" by (intro ext kinv_same) (simp_all add: s1 manager_same_def)
  then show "registry_arena kinv plic s1 ((p, 64) # nodes ns) kept"
    using t a by (simp add: registry_arena_def m(1)) (simp add: arena_in_def s1)
  show "agree_on (covered kept) (kmem s1) (kmem s)" "agree_on (covered (nodes ns)) (kmem s1) (kmem s)"
    by (simp add: s1, rule agree_on_mono [OF ag], auto)+
  have "agree_on (extent (plic_driver_map plic s) 8192) (kmem s1) (kmem s)" by (simp add: s1, rule agree_on_mono [OF ag]) auto
  then show "irq < 1024 \<Longrightarrow> plic_driver_of plic irq s1 = plic_driver_of plic irq s" by (rule slot_frame [OF m(1)])
qed

text \<open>Registering a UART.\<close>

lemma registry_registers:
  assumes ar: "registry_arena kinv plic s ((n, 64) # nodes ns) kept" and data: "registry_data plic s ns" and n: "n \<noteq> 0"
    and pl: "extent plic 48 \<subseteq> covered (nodes ns)" and reg: "uart_registered plic n base s s'"
  shows "registry_inv kinv plic s' (n # ns) kept" and "agree_on (covered kept) (kmem s') (kmem s)"
proof -
  let ?map = "plic_driver_map plic s"
  have ap: "all_apart (((n, 64) # nodes ns) @ (?map, 8192) # kept)"
    using ar unfolding registry_arena_def by (auto dest: arena_apart)
  have dj: "extent n 64 \<inter> covered (nodes ns) = {}" "extent n 64 \<inter> covered kept = {}"
    "extent ?map 8192 \<inter> covered (nodes ns) = {}" "extent ?map 8192 \<inter> covered kept = {}"
    using all_apart_covered_hd [OF ap [simplified append_Cons]] all_apart_middle [OF ap] by auto
  have R: "kernel_same s s'" "agree_on (- (extent n 64 \<union> extent ?map 8192)) (kmem s') (kmem s)" "plic_driver_map plic s' = ?map"
    "fn_uart_handle_interrupt s' = fn_uart_handle_interrupt s"
    and slots: "\<And>j. j < 1024 \<Longrightarrow> plic_driver_of plic j s' = (if j = 10 then n + 8 else plic_driver_of plic j s)"
    using reg by (auto simp: uart_registered_def)
  show "agree_on (covered kept) (kmem s') (kmem s)" using dj by (intro agree_on_mono [OF R(2)]) auto
  have "agree_on (covered (nodes ns)) (kmem s') (kmem s)" using dj by (intro agree_on_mono [OF R(2)]) auto
  note N = nodes_frame [OF this]
  have "chain 0 (kmem s') n (n # ns)"
    using N(1) data reg n by (simp add: chain_Cons registry_data_def uart_registered_def)
  moreover have "uart_ready (n + 8) s'" if "n + 8 \<noteq> 0"
    using that reg data by (simp add: uart_ready_def driver_type_def uart_handler_def driver_d_def get32_def get64_def ac_simps
        registry_data_def uart_registered_def)
  then have "slots_ok plic s' (n # ns)"
    using data N(3) [OF _ R(4)] by (auto simp: slots_ok_def slots registry_data_def)
  ultimately have "registry_data plic s' (n # ns)"
    using data reg by (simp add: registry_data_def uart_registered_def add.commute)
  moreover have "registry_arena kinv plic s' ((n, 64) # nodes ns) kept"
    by (rule registry_arena_frame [OF ar R(1,3)]) (rule agree_on_mono [OF R(2)], auto)
  ultimately show "registry_inv kinv plic s' (n # ns) kept" by (simp add: registry_inv_def)
qed

lemma init_uart_node_correct:
  assumes inv: "registry_inv kinv plic s ns kept" and run: "init_uart_node node plic reg s = Inr s'"
  shows "\<exists>n s1. driver_node_alloc s = Inr (n, s1) \<and> registry_inv kinv plic s' (n # ns) kept \<and> agree_on (covered kept) (kmem s') (kmem s) \<and>
    uart_registered plic n (kernel_hhdm_phys_to_virt (get64 (reg_addresses (kmem s) reg) s) s) s1 s'"
proof -
  let ?pa = "get64 (reg_addresses (kmem s) reg) s"
  obtain n s1 s2 s3 where al: "driver_node_alloc s = Inr (n, s1)"
    and u: "uart_driver_init (n + 16) (kernel_hhdm_phys_to_virt ?pa s) s1 = Inr s2"
    and e: "plic_driver_enable_int plic 10 1 (n + 8) s2 = Inr s3"
    and pr: "kprintln (SV ''Initialized a UART device at {X}'') [?pa] (register_driver n DEVICE_TYPE_UART s3) = Inr s'"
    using run by (auto simp: init_uart_node_def Let_def and_then_eq_Inr deref_eq_Inr)
  note A = registry_alloc [OF inv al]
  have ap: "all_apart (((n, 64) # nodes ns) @ (plic_driver_map plic s1, 8192) # kept)"
    using A(2) unfolding registry_arena_def by (auto dest: arena_apart)
  have dj: "extent n 64 \<inter> extent (plic_driver_map plic s1) 8192 = {}" "extent n 64 \<inter> covered (nodes ns) = {}"
    "covered (nodes ns) \<inter> extent (plic_driver_map plic s1) 8192 = {}"
    using all_apart_covered_hd [OF ap [simplified append_Cons]] all_apart_middle [OF ap] by auto
  then have "plic_layout plic s1" using A(3,6) by (auto simp: plic_layout_def registry_data_def)
  moreover have "extent plic 48 \<inter> extent n 64 = {}" using dj(2) A(6) by auto
  ultimately have R: "uart_registered plic n (kernel_hhdm_phys_to_virt ?pa s) s1 s'" by (rule uart_node_written [OF u e pr dj(1)])
  show ?thesis
    using al R registry_registers [OF A(2,3,1,6) R] agree_on_trans [OF _ A(5)] by blast
qed

text \<open>The other steps.\<close>

text \<open>A change of what must be kept, and of nothing else, leaves the registry alone.\<close>

lemma registry_kept:
  assumes inv: "registry_inv kinv plic s ns kept" and only: "machine_only s s'" and ag: "agree_on (- covered kept) (kmem s') (kmem s)"
  shows "registry_inv kinv plic s' ns kept"
proof -
  have ar: "registry_arena kinv plic s (nodes ns) kept" and data: "registry_data plic s ns" using inv by (simp_all add: registry_inv_def)
  have "all_apart ((nodes ns @ [(plic_driver_map plic s, 8192)]) @ kept)"
    using ar unfolding registry_arena_def by (auto dest: arena_apart)
  then have "covered (nodes ns @ [(plic_driver_map plic s, 8192)]) \<inter> covered kept = {}" by (simp only: all_apart_append_covered)
  then have ag': "agree_on (covered (nodes ns @ [(plic_driver_map plic s, 8192)])) (kmem s') (kmem s)"
    by (intro agree_on_mono [OF ag]) auto
  have k: "drivers s' = drivers s" "driver_count s' = driver_count s" "fn_uart_handle_interrupt s' = fn_uart_handle_interrupt s"
    using machine_only_keeps [OF only] by (simp_all add: keeps_defs)
  note D = registry_data_frame [OF data registry_plic(2) [OF ar data] ag' k]
  from registry_arena_frame [OF ar machine_only_same [OF only] D(1)] have "registry_arena kinv plic s' (nodes ns) kept"
    using ag by (auto intro: agree_on_mono)
  then show ?thesis using D(2) by (simp add: registry_inv_def)
qed

lemma registry_same:
  assumes "registry_inv kinv plic s ns kept" and "machine_only s s'" and "kmem s' = kmem s"
  shows "registry_inv kinv plic s' ns kept"
  by (rule registry_kept [OF assms(1,2)]) (simp add: assms(3))

lemma registry_perm:
  assumes inv: "registry_inv kinv plic s ns kept" and m: "mset kept = mset kept'"
  shows "registry_inv kinv plic s ns kept'"
proof -
  have "kinv s (pages @ (plic_driver_map plic s, 8192) # kept) \<Longrightarrow> kinv s (pages @ (plic_driver_map plic s, 8192) # kept')" for pages
    by (erule kinv_perm) (simp add: m)
  then show ?thesis using inv unfolding registry_inv_def registry_arena_def arena_in_def by blast
qed

text \<open>A larger request beside the registry.\<close>

lemma registry_kalloc:
  assumes inv: "registry_inv kinv plic s ns kept" and req: "pmm_request_ok (hhdm_offset s) 12 (ALIGN_UP len PAGE_SIZE)"
    and n: "0 < unat (ALIGN_UP len PAGE_SIZE)" and run: "kalloc len PAGE_SIZE s = Inr (al, s')"
  shows "registry_inv kinv plic s' ns ((alloc_buffer al, unat (ALIGN_UP len PAGE_SIZE)) # kept)"
    and "agree_on (covered kept) (kmem s') (kmem s)"
proof -
  let ?o = "(plic_driver_map plic s, 8192) # kept" and ?b = "(alloc_buffer al, unat (ALIGN_UP len PAGE_SIZE))"
  have ar: "registry_arena kinv plic s (nodes ns) kept" and data: "registry_data plic s ns" using inv by (simp_all add: registry_inv_def)
  have arena: "arena_in kinv (driver_node_arena s) s (nodes ns) ?o"
    and bs: "block_size (driver_node_arena s) = 64" "auto_refill (driver_node_arena s)" using ar by (simp_all add: registry_arena_def)
  have "(2 :: u64) ^ 12 = PAGE_SIZE" by simp
  with run have r12: "kalloc len (2 ^ 12) s = Inr (al, s')" by metis
  have step: "kinv s' (pages @ (plic_driver_map plic s, 8192) # ?b # kept) \<and> agree_on (covered (pages @ ?o)) (kmem s') (kmem s)"
    if "kinv s (pages @ ?o)" for pages
    using kinv_kalloc [OF that req n run] kvspace_kalloc(3) [OF kinv_kvspace [OF that] req r12] by (auto intro: kinv_perm)
  have a': "arena_in kinv (driver_node_arena s) s' (nodes ns) ((plic_driver_map plic s, 8192) # ?b # kept)"
    by (rule arena_step [OF arena]) (use step in \<open>fastforce intro: agree_on_mono\<close>)
  obtain pages where pg: "kinv s (pages @ ?o)" "covered (nodes ns) \<subseteq> covered pages" using arena by (auto simp: arena_in_def)
  then have ag: "agree_on (covered (nodes ns @ ?o)) (kmem s') (kmem s)" using step by (fastforce intro: agree_on_mono)
  then show "agree_on (covered kept) (kmem s') (kmem s)" by (rule agree_on_mono) auto
  have al: "allocator_only s s'" by (rule kalloc_only [OF run])
  then have k: "drivers s' = drivers s" "driver_count s' = driver_count s" "fn_uart_handle_interrupt s' = fn_uart_handle_interrupt s"
    using allocator_only_keeps [OF al] by (simp_all add: keeps_defs)
  have "agree_on (covered (nodes ns @ [(plic_driver_map plic s, 8192)])) (kmem s') (kmem s)" by (rule agree_on_mono [OF ag]) auto
  note D = registry_data_frame [OF data registry_plic(2) [OF ar data] this k]
  have "driver_node_arena s' = driver_node_arena s" using al by (auto simp: allocator_only_def)
  then show "registry_inv kinv plic s' ns (?b # kept)" using a' bs D by (simp add: registry_inv_def registry_arena_def)
qed

lemma grows_same: "machine_only s s' \<Longrightarrow> kmem s' = kmem s \<Longrightarrow> grows kinv plic s s'"
  unfolding grows_def by (metis agree_on_refl append_Nil registry_same)

lemma kprintln_grows: "kprintln fmt args s = Inr s' \<Longrightarrow> grows kinv plic s s'"
  using prints_fields [OF kprintln_prints] by (intro grows_same prints_machine_only kprintln_prints) auto

lemma init_uart_node_grows: "init_uart_node node plic reg s = Inr s' \<Longrightarrow> grows kinv plic s s'"
  unfolding grows_def by (metis append_Cons append_Nil init_uart_node_correct)

lemma init_virtio_node_grows:
  assumes run: "init_virtio_node node reg s = Inr s'"
  shows "grows kinv plic s s'"
  unfolding grows_def
proof (intro allI impI)
  fix ns kept assume inv: "registry_inv kinv plic s ns kept"
  let ?pa = "get64 (reg_addresses (kmem s) reg) s" and ?sz = "get64 (reg_sizes (kmem s) reg) s"
  obtain n s1 where al: "driver_node_alloc s = Inr (n, s1)" and n: "n \<noteq> 0"
    using run by (auto simp: init_virtio_node_def Let_def and_then_eq_Inr deref_eq_Inr)
  obtain err s2 where v: "virtio_mmio_driver_init (n + 16) (kernel_hhdm_phys_to_virt ?pa s) ?sz s1 = Inr (err, s2)"
    using run al n by (auto simp: init_virtio_node_def Let_def and_then_eq_Inr deref_eq_Inr)
  have e: "error_is_err err" using virtio_mmio_driver_init_correct(1) [OF v] by (simp del: ec.simps)
  obtain msg s3 where pr: "kprintln (SV ''Failed to initialize the VirtIO MMIO device at {X}: {V}'')
             [?pa, lit_addr s2 msg, of_nat (length msg)] s2 = Inr s3" and f: "driver_node_free n s3 = Inr s'"
    using run al n v e by (auto simp: init_virtio_node_def Let_def and_then_eq_Inr)
  note A = registry_alloc [OF inv al]
  let ?map = "plic_driver_map plic s"
  have ap: "all_apart (((n, 64) # nodes ns) @ (?map, 8192) # kept)"
    using A(2) unfolding registry_arena_def A(4) by (auto dest: arena_apart)
  then have dj: "extent n 64 \<inter> covered (nodes ns @ (?map, 8192) # kept) = {}"
    using all_apart_covered_hd [OF ap [simplified append_Cons]] by simp
  have m3: "kmem s3 = kmem s2" "machine_only s1 s3"
    using prints_fields [OF kprintln_prints [OF pr]] machine_only_trans [OF virtio_mmio_driver_init_correct(3) [OF v]
      prints_machine_only [OF kprintln_prints [OF pr]]] by simp_all
  have "extent (n + 16) 24 \<subseteq> extent n 64" by (rule extent_field) simp_all
  then have f1: "agree_on (- extent n 64) (kmem s3) (kmem s1)"
    unfolding m3(1) by (intro agree_on_mono [OF virtio_mmio_driver_init_correct(2) [OF v]]) auto
  have k3: "drivers s3 = drivers s1" "driver_count s3 = driver_count s1" "fn_uart_handle_interrupt s3 = fn_uart_handle_interrupt s1"
    using machine_only_keeps [OF m3(2)] by (simp_all add: keeps_defs)
  have ag: "agree_on (covered (nodes ns @ [(plic_driver_map plic s1, 8192)])) (kmem s3) (kmem s1)"
    using dj by (intro agree_on_mono [OF f1]) (auto simp: A(4))
  note D3 = registry_data_frame [OF A(3,6) ag k3]
  have ar3: "registry_arena kinv plic s3 ((n, 64) # nodes ns) kept"
    by (rule registry_arena_frame [OF A(2) machine_only_same [OF m3(2)] D3(1)]) (rule agree_on_mono [OF f1], auto)
  have a3: "arena_in kinv (driver_node_arena s3) s3 ((n, unat (block_size (driver_node_arena s3))) # nodes ns) ((?map, 8192) # kept)"
    "block_size (driver_node_arena s3) = 64" "auto_refill (driver_node_arena s3)"
    using ar3 by (simp_all add: registry_arena_def D3(1) A(4))
  obtain a' m' where fr: "slab_free (driver_node_arena s3) n (kmem s3) = Inr (0, a', m')"
    and ar': "arena_in kinv a' (s3\<lparr>kmem := m'\<rparr>) (nodes ns) ((?map, 8192) # kept)"
    and bs: "block_size a' = 64" "auto_refill a'" and ag': "agree_on (covered (nodes ns @ (?map, 8192) # kept)) m' (kmem s3)"
    using arena_free [OF a3(1) n] a3(2,3) by auto
  have s': "s' = s3\<lparr>driver_node_arena := a', kmem := m'\<rparr>" using f fr by (auto simp: driver_node_free_def and_then_eq_Inr)
  have "agree_on (covered (nodes ns @ [(plic_driver_map plic s3, 8192)])) (kmem s') (kmem s3)"
    by (simp add: s' D3(1) A(4), rule agree_on_mono [OF ag']) auto
  note D' = registry_data_frame [OF D3(2) A(6) this]
  have m': "plic_driver_map plic s' = ?map" "registry_data plic s' ns" using D' by (simp_all add: s' D3(1) A(4))
  have "kinv s' = kinv (s3\<lparr>kmem := m'\<rparr>)" by (intro ext kinv_same) (simp_all add: s' manager_same_def)
  then have "registry_arena kinv plic s' (nodes ns) kept"
    using ar' bs by (simp add: registry_arena_def m'(1)) (simp add: arena_in_def s')
  moreover have "agree_on (covered kept) (kmem s') (kmem s)"
  proof -
    have "agree_on (covered kept) (kmem s') (kmem s3)" by (simp add: s', rule agree_on_mono [OF ag']) auto
    moreover have "agree_on (covered kept) (kmem s3) (kmem s1)" using dj by (intro agree_on_mono [OF f1]) auto
    ultimately show ?thesis using A(5) by (blast intro: agree_on_trans)
  qed
  ultimately show "agree_on (covered kept) (kmem s') (kmem s) \<and> (\<exists>new. registry_inv kinv plic s' (new @ ns) kept)"
    using m'(2) by (auto simp: registry_inv_def intro!: exI [of _ "[]"])
qed

lemma init_compatible_grows: "init_compatible node plic c s = Inr s' \<Longrightarrow> grows kinv plic s s'"
  by (auto simp: init_compatible_def and_then_eq_Inr split: if_splits
      intro: init_virtio_node_grows init_uart_node_grows kprintln_grows)

lemma init_compatibles_grows:
  assumes "init_compatibles node plic i s = Some r"
  shows "\<forall>s'. r = Inr s' \<longrightarrow> grows kinv plic s s'"
  by (rule init_compatibles.raw_induct [OF _ assms])
    (auto split: if_splits sum.splits dest: init_compatible_grows intro: grows_trans)

lemma init_node_grows:
  assumes "init_node plic node s = Inr s'"
  shows "grows kinv plic s s'"
proof -
  obtain s1 where p: "kprintln (sv_bytes (kmem s) (node_name (kmem s) node)) [] s = Inr s1"
    and c: "init_compatibles node plic 0 s1 = Some (Inr s')"
    using assms by (auto simp: init_node_def deref_eq_Inr and_then_eq_Inr no_hang_def split: option.splits)
  show ?thesis using grows_trans [OF kprintln_grows [OF p]] init_compatibles_grows [OF c] by simp
qed

lemma init_children_grows:
  assumes "init_children plic p s = Some r"
  shows "\<forall>s'. r = Inr s' \<longrightarrow> grows kinv plic s s'"
proof (rule init_children.raw_induct [OF _ assms], goal_cases)
  case (1 f plic p s r)
  show ?case
  proof (intro allI impI)
    fix s' assume r: "r = Inr s'"
    show "grows kinv plic s s'"
    proof (cases "p = 0")
      case True
      then show ?thesis using 1(2) r by auto
    next
      case False
      then obtain s1 s2 where n: "init_node plic p s = Inr s1" and c: "f plic (children (kmem s1) p) s1 = Some (Inr s2)"
        and q: "f plic (sibling (kmem s2) p) s2 = Some (Inr s')"
        using 1(2) r by (auto split: sum.splits bind_splits)
      show ?thesis
        using grows_trans [OF init_node_grows [OF n] grows_trans [of kinv plic s1 s2 s']] 1(1) [OF c] 1(1) [OF q] by simp
    qed
  qed
qed

lemma devices_recursive_initialize_grows:
  assumes "devices_recursive_initialize node plic s = Inr s'"
  shows "grows kinv plic s s'"
proof -
  obtain s1 where n: "init_node plic node s = Inr s1" and c: "init_children plic (children (kmem s1) node) s1 = Some (Inr s')"
    using assms by (auto simp: devices_recursive_initialize_def and_then_eq_Inr no_hang_def split: option.splits)
  show ?thesis using grows_trans [OF init_node_grows [OF n]] init_children_grows [OF c] by simp
qed

end

section \<open>The two managers\<close>

interpretation kmanager: page_manager kvspace_inv
  by unfold_locales (auto intro: kpage_blocks.inv_perm simp: kvspace_inv_same dest: kvspace_kalloc(1))

interpretation rmanager: page_manager roomy
  by unfold_locales (auto intro: roomy_perm roomy_kvspace simp: roomy_same dest: roomy_kalloc_kept)

end
