(* ===== verification/Device_Init.thy ===== *)
theory Device_Init
  imports Registry
begin

text \<open>
  The initialisation of the devices: the walk over the device tree is a fold over its nodes in
  document order, and \<^verbatim>\<open>devices_init\<close> establishes the registry's invariant.
\<close>

section \<open>The walk as a fold\<close>

primrec run_all :: "('x \<Rightarrow> 's \<Rightarrow> halt + 's) \<Rightarrow> 'x list \<Rightarrow> 's \<Rightarrow> halt + 's" where
  "run_all f [] s = Inr s"
| "run_all f (x # xs) s = and_then (f x s) (run_all f xs)"

lemma run_all_append: "run_all f (xs @ ys) s = and_then (run_all f xs s) (run_all f ys)"
  by (induction xs arbitrary: s) (auto simp: and_then_def split: sum.splits)

text \<open>A node whose structure and list of compatible strings lie in blocks that are kept.\<close>

definition node_kept :: "mem \<Rightarrow> (addr \<times> nat) list \<Rightarrow> addr \<Rightarrow> bool" where
  "node_kept m kept n \<longleftrightarrow> n \<noteq> 0 \<and> extent n 72 \<subseteq> covered kept \<and>
     16 * unat (compatible_count m n) < 2 ^ 64 \<and> extent (compatible m n) (16 * unat (compatible_count m n)) \<subseteq> covered kept"

text \<open>One node, without its children: its name, then each of its compatible strings in order.\<close>

definition init_device :: "addr \<Rightarrow> addr \<Rightarrow> 'a system_scheme \<Rightarrow> halt + 'a system_scheme" where
  "init_device plic n s =
     and_then (kprintln (sv_bytes (kmem s) (node_name (kmem s) n)) [] s)
       (\<lambda>s. run_all (init_compatible n plic) (compatibles (kmem s) n) s)"

lemma node_kept_agree:
  assumes "node_kept m kept n" and ag: "agree_on (covered kept) m' m"
  shows "node_kept m' kept n" and "compatibles m' n = compatibles m n" and "children m' n = children m n"
    and "sibling m' n = sibling m n" and "compatible_count m' n = compatible_count m n" and "compatible m' n = compatible m n"
proof -
  have f: "load64 m' (n + k) = load64 m (n + k)" if "unat k + 8 \<le> 72" for k
  proof (rule load64_agree [OF ag])
    have "extent (n + k) 8 \<subseteq> extent n 72" using that by (intro extent_field) simp_all
    then show "extent (n + k) 8 \<subseteq> covered kept" using assms(1) by (auto simp: node_kept_def)
  qed
  show same: "children m' n = children m n" "sibling m' n = sibling m n" "compatible_count m' n = compatible_count m n"
    "compatible m' n = compatible m n"
    using f by (simp_all add: children_def sibling_def compatible_count_def compatible_def)
  show "node_kept m' kept n" using assms(1) by (simp add: node_kept_def same)
  have "sv_at m' (compatible m n + 16 * of_nat i) = sv_at m (compatible m n + 16 * of_nat i)"
    if i: "i < unat (compatible_count m n)" for i
  proof -
    let ?N = "16 * unat (compatible_count m n)"
    have K: "?N < 2 ^ 64" "extent (compatible m n) ?N \<subseteq> covered kept" using assms(1) by (simp_all add: node_kept_def)
    have u: "unat (16 * of_nat i :: u64) = 16 * i" "unat (16 * of_nat i + 8 :: u64) = 16 * i + 8"
      using K(1) i by (simp_all add: unat_word_ariths unat_of_nat)
    have "extent (compatible m n + 16 * of_nat i) 8 \<subseteq> extent (compatible m n) ?N"
      "extent (compatible m n + (16 * of_nat i + 8)) 8 \<subseteq> extent (compatible m n) ?N"
      using K(1) i u by (simp_all only: extent_field less_imp_le)
    then show ?thesis using K(2) by (auto simp: sv_at_def ac_simps intro!: load64_agree [OF ag])
  qed
  then show "compatibles m' n = compatibles m n" by (simp add: compatibles_def same)
qed

context page_manager begin

lemma init_compatibles_fold:
  assumes "registry_inv kinv plic s ns kept" and "node_kept (kmem s) kept n" and "i \<le> unat (compatible_count (kmem s) n)"
  shows "init_compatibles n plic (of_nat i) s = Some (run_all (init_compatible n plic) (drop i (compatibles (kmem s) n)) s)"
  using assms
proof (induction "unat (compatible_count (kmem s) n) - i" arbitrary: i s ns)
  case 0
  then have "i = unat (compatible_count (kmem s) n)" by simp
  then show ?case by (simp add: init_compatibles.simps compatibles_def)
next
  case (Suc k)
  let ?c = "compatible_count (kmem s) n" and ?cs = "compatibles (kmem s) n"
  have i: "i < unat ?c" using Suc.hyps(2) by simp
  then have lt: "of_nat i < ?c" using unat_lt_2_64 [of ?c] by (simp add: word_less_nat_alt unat_of_nat)
  have d: "drop i ?cs = sv_at (kmem s) (compatible (kmem s) n + 16 * of_nat i) # drop (Suc i) ?cs"
    using i by (simp add: compatibles_def Cons_nth_drop_Suc [symmetric])
  show ?case
  proof (cases "init_compatible n plic (sv_at (kmem s) (compatible (kmem s) n + 16 * of_nat i)) s")
    case (Inl h)
    then show ?thesis using lt by (subst init_compatibles.simps) (simp add: d)
  next
    case (Inr s1)
    have "grows kinv plic s s1" by (rule init_compatible_grows [OF Inr])
    then obtain new where g: "registry_inv kinv plic s1 (new @ ns) kept" "agree_on (covered kept) (kmem s1) (kmem s)"
      using Suc.prems(1) unfolding grows_def by blast
    note K = node_kept_agree [OF Suc.prems(2) g(2)]
    have "init_compatibles n plic (of_nat (Suc i)) s1 = Some (run_all (init_compatible n plic) (drop (Suc i) (compatibles (kmem s1) n)) s1)"
      by (rule Suc.hyps(1) [OF _ g(1) K(1)]) (use Suc.hyps(2) i in \<open>simp_all add: K(5)\<close>)
    then show ?thesis using lt Inr K(2) by (subst init_compatibles.simps) (simp add: d add.commute)
  qed
qed

lemma init_node_fold:
  assumes "registry_inv kinv plic s ns kept" and "node_kept (kmem s) kept n"
  shows "init_node plic n s = init_device plic n s"
proof (cases "kprintln (sv_bytes (kmem s) (node_name (kmem s) n)) [] s")
  case (Inl h)
  then show ?thesis using assms(2) by (simp add: init_node_def init_device_def node_kept_def)
next
  case (Inr s1)
  obtain new where g: "registry_inv kinv plic s1 (new @ ns) kept" "agree_on (covered kept) (kmem s1) (kmem s)"
    using kprintln_grows [OF Inr] assms(1) unfolding grows_def by blast
  note K = node_kept_agree [OF assms(2) g(2)]
  show ?thesis using init_compatibles_fold [OF g(1) K(1), of 0] assms(2) Inr
    by (simp add: init_node_def init_device_def node_kept_def no_hang_def)
qed

lemma init_children_fold:
  assumes "registry_inv kinv plic s ns kept" and "forest_at (kmem s) p f" and "\<And>n. n \<in> set (preorder f) \<Longrightarrow> node_kept (kmem s) kept n"
  shows "init_children plic p s = Some (run_all (init_device plic) (preorder f) s)"
  using assms
proof (induction f arbitrary: p s ns)
  case Nil_forest
  then show ?case by (simp add: init_children.simps)
next
  case (Node n cs ss)
  have nk: "node_kept (kmem s) kept n" using Node.prems(3) by simp
  have p: "p = n" "n \<noteq> 0" and f: "forest_at (kmem s) (children (kmem s) n) cs" "forest_at (kmem s) (sibling (kmem s) n) ss"
    using Node.prems(2) by simp_all
  have step: "forest_at (kmem t) q g \<and> (\<forall>x \<in> set (preorder g). node_kept (kmem t) kept x)"
    if "agree_on (covered kept) (kmem t) (kmem s)" "forest_at (kmem s) q g" "set (preorder g) \<subseteq> set (preorder (Node n cs ss))"
    for t :: "'a system_scheme" and q g
  proof -
    have "(\<Union>x \<in> set (preorder g). extent x 72) \<subseteq> covered kept"
      using Node.prems(3) that(3) by (fastforce simp: node_kept_def)
    then show ?thesis
      using forest_agree [OF that(2) agree_on_mono [OF that(1)]] node_kept_agree(1) [OF Node.prems(3) that(1)] that(3) by blast
  qed
  show ?case
  proof (cases "init_device plic n s")
    case (Inl h)
    then show ?thesis using init_node_fold [OF Node.prems(1) nk] p by (subst init_children.simps) simp
  next
    case (Inr s1)
    then have i1: "init_node plic n s = Inr s1" by (simp add: init_node_fold [OF Node.prems(1) nk])
    obtain new where g: "registry_inv kinv plic s1 (new @ ns) kept" "agree_on (covered kept) (kmem s1) (kmem s)"
      using init_node_grows [OF i1] Node.prems(1) unfolding grows_def by blast
    note K1 = node_kept_agree [OF nk g(2)]
    have c: "init_children plic (children (kmem s1) n) s1 = Some (run_all (init_device plic) (preorder cs) s1)"
      using step [OF g(2) f(1)] by (intro Node.IH(1) [OF g(1)]) (auto simp: K1)
    show ?thesis
    proof (cases "run_all (init_device plic) (preorder cs) s1")
      case (Inl h)
      then show ?thesis using i1 c p \<open>init_device plic n s = Inr s1\<close> by (subst init_children.simps) (simp add: run_all_append)
    next
      case (Inr s2)
      obtain new2 where g2: "registry_inv kinv plic s2 (new2 @ new @ ns) kept" "agree_on (covered kept) (kmem s2) (kmem s1)"
        using init_children_grows [OF c] Inr g(1) unfolding grows_def by blast
      have ag: "agree_on (covered kept) (kmem s2) (kmem s)" by (rule agree_on_trans [OF g2(2) g(2)])
      have "init_children plic (sibling (kmem s2) n) s2 = Some (run_all (init_device plic) (preorder ss) s2)"
        using step [OF ag f(2)] by (intro Node.IH(2) [OF g2(1)]) (auto simp: node_kept_agree [OF nk ag])
      then show ?thesis using i1 c p Inr \<open>init_device plic n s = Inr s1\<close> by (subst init_children.simps) (simp add: run_all_append)
    qed
  qed
qed

lemma devices_walk:
  assumes inv: "registry_inv kinv plic s ns kept" and nk: "node_kept (kmem s) kept root"
    and f: "forest_at (kmem s) (children (kmem s) root) cs" and cs: "\<And>n. n \<in> set (preorder cs) \<Longrightarrow> node_kept (kmem s) kept n"
  shows "devices_recursive_initialize root plic s = run_all (init_device plic) (root # preorder cs) s"
proof (cases "init_device plic root s")
  case (Inl h)
  then show ?thesis by (simp add: devices_recursive_initialize_def init_node_fold [OF inv nk])
next
  case (Inr s1)
  then have i1: "init_node plic root s = Inr s1" by (simp add: init_node_fold [OF inv nk])
  obtain new where g: "registry_inv kinv plic s1 (new @ ns) kept" "agree_on (covered kept) (kmem s1) (kmem s)"
    using init_node_grows [OF i1] inv unfolding grows_def by blast
  note K = node_kept_agree [OF nk g(2)]
  have "(\<Union>x \<in> set (preorder cs). extent x 72) \<subseteq> covered kept" using cs by (fastforce simp: node_kept_def)
  then have "forest_at (kmem s1) (children (kmem s1) root) cs"
    using forest_agree [OF f agree_on_mono [OF g(2)]] by (simp add: K)
  then have "init_children plic (children (kmem s1) root) s1 = Some (run_all (init_device plic) (preorder cs) s1)"
    using cs node_kept_agree(1) [OF cs g(2)] by (intro init_children_fold [OF g(1)]) auto
  then show ?thesis using i1 Inr by (simp add: devices_recursive_initialize_def no_hang_def)
qed

end

section \<open>The controller's own node\<close>

lemma plic_driver_init_steps:
  assumes run: "plic_driver_init drv base hartid s = Inr s'"
  obtains m1 al s2 es where "agree_on (- extent drv 48) m1 (kmem s)" and "kalloc (8 * 1024) PAGE_SIZE (s\<lparr>kmem := m1\<rparr>) = Inr (al, s2)"
    and "s' = s2\<lparr>kmem := memzero (store64 (kmem s2) (drv + 40) (alloc_buffer al)) (alloc_buffer al) 8192, io_events := es\<rparr>"
proof -
  let ?t = "base + 0x200000 + ucast (CONTEXT hartid * 0x1000)"
  define m1 where "m1 = store64 (store64 (store64 (store64 (store32 (kmem s) drv hartid) (drv + 8) ?t) (drv + 16) (?t + 4))
    (drv + 24) (base + 0x2000 + ucast (CONTEXT hartid * 0x80))) (drv + 32) base"
  have "agree_on (- extent drv 48) (store32 (kmem s) drv hartid) (kmem s)"
    using extent_mono [of 4 48 drv] by (intro store32_agree) auto
  then have "agree_on (- extent drv 48) m1 (kmem s)" unfolding m1_def by (intro store_in_struct) simp_all
  moreover obtain al s2 where k: "kalloc (8 * 1024) PAGE_SIZE (s\<lparr>kmem := m1\<rparr>) = Inr (al, s2)"
    and s': "s' = (let s = set64 (drv + 40) (alloc_buffer al) s2;
             s = s\<lparr>kmem := memzero (kmem s) (plic_driver_map drv s) (8 * 1024)\<rparr>
         in mmio_write32 (plic_threshold drv s) 0 s)"
    using run unfolding plic_driver_init_def m1_def
    by (auto simp: deref_eq_Inr and_then_eq_Inr Let_def set64_def set32_def get64_def plic_threshold_def)
  moreover have "plic_driver_map drv (set64 (drv + 40) v s2) = v" for v by (simp add: plic_driver_map_def get64_def)
  then have "s' = s2\<lparr>kmem := memzero (store64 (kmem s2) (drv + 40) (alloc_buffer al)) (alloc_buffer al) 8192, io_events := io_events s'\<rparr>"
    unfolding s' Let_def by (simp add: set64_def mmio_write32_def record_io_def)
  ultimately show thesis using that by blast
qed

lemma plic_driver_init_same:
  assumes "plic_driver_init d base hart s = Inr s'"
  shows "keeps_drivers s s'" and "driver_node_arena s' = driver_node_arena s" and "d \<noteq> 0"
proof -
  obtain t al u where k: "kalloc (8 * 1024) PAGE_SIZE t = Inr (al, u)" and t: "t = s\<lparr>kmem := kmem t\<rparr>"
    and s': "s' = u\<lparr>kmem := kmem s', io_events := io_events s'\<rparr>" and "d \<noteq> 0"
    using assms by (auto simp: plic_driver_init_def deref_eq_Inr and_then_eq_Inr Let_def set64_def set32_def io_defs record_io_def)
  then show "d \<noteq> 0" by simp
  have a: "allocator_only t u" by (rule kalloc_only [OF k])
  have "keeps_drivers s t" "driver_node_arena t = driver_node_arena s" by (subst t, simp add: keeps_defs)+
  moreover have "keeps_drivers t u" "driver_node_arena u = driver_node_arena t"
    using allocator_only_keeps [OF a] a by (auto simp: allocator_only_def)
  moreover have "keeps_drivers u s'" "driver_node_arena s' = driver_node_arena u" by (subst s', simp add: keeps_defs)+
  ultimately show "keeps_drivers s s'" "driver_node_arena s' = driver_node_arena s" by (auto intro: keeps_drivers_trans)
qed

lemma hart_slot: "extent (a + 8 * ucast h) 8 \<subseteq> extent a 4096" if h: "h < 512" for h :: u32
proof -
  have "unat (8 * ucast h :: u64) = 8 * unat h" using ucast_irq_nat [of h] h less_trans [OF h, of 1024] by simp
  then show ?thesis using h by (intro extent_field) (simp_all add: word_less_nat_alt)
qed

context page_manager begin

lemma plic_driver_init_kinv:
  assumes inv: "kinv s live" and drv: "drv \<noteq> 0" "extent drv 48 \<subseteq> covered live" and hh: "2 ^ 14 \<le> unat (hhdm_offset s)"
    and run: "plic_driver_init drv base hartid s = Inr s'"
  shows "kinv s' ((plic_driver_map drv s', 8192) # live)"
proof -
  obtain m1 al s2 es where m1: "agree_on (- extent drv 48) m1 (kmem s)"
    and k: "kalloc (8 * 1024) PAGE_SIZE (s\<lparr>kmem := m1\<rparr>) = Inr (al, s2)"
    and s': "s' = s2\<lparr>kmem := memzero (store64 (kmem s2) (drv + 40) (alloc_buffer al)) (alloc_buffer al) 8192, io_events := es\<rparr>"
    by (rule plic_driver_init_steps [OF run])
  let ?b = "alloc_buffer al"
  have "kinv (s\<lparr>kmem := m1\<rparr>) live" using drv(2) by (intro kinv_frame [OF inv] agree_on_mono [OF m1]) auto
  moreover have "ALIGN_UP (8 * 1024) PAGE_SIZE = 8192" by (simp add: ALIGN_UP_def)
  ultimately have inv2: "kinv s2 ((?b, 8192) # live)"
    using kinv_kalloc [OF _ _ _ k] hh by (simp add: pmm_request_ok_def)
  have f40: "extent (drv + 40) 8 \<subseteq> extent drv 48" by (rule extent_field) simp_all
  have dj: "extent ?b 8192 \<inter> extent drv 48 = {}"
    using all_apart_covered_hd [OF kinv_apart [OF inv2]] drv(2) by auto
  have "agree_on (- (extent drv 48 \<union> extent ?b 8192)) (store64 (kmem s2) (drv + 40) ?b) (kmem s2)"
    using f40 by (intro store64_agree) auto
  moreover have z: "agree_on (- extent ?b 8192) (kmem s') (store64 (kmem s2) (drv + 40) ?b)"
    by (simp add: s', rule memzero_agree) simp
  ultimately have "agree_on (- covered ((?b, 8192) # live)) (kmem s') (kmem s2)"
    using drv(2) by (auto simp: agree_on_def)
  then have "kinv (s2\<lparr>kmem := kmem s'\<rparr>) ((?b, 8192) # live)" by (rule kinv_frame [OF inv2])
  moreover have "manager_same (s2\<lparr>kmem := kmem s'\<rparr>) s'" by (simp add: manager_same_def s')
  ultimately have "kinv s' ((?b, 8192) # live)" using kinv_same [of "s2\<lparr>kmem := kmem s'\<rparr>" s' "(?b, 8192) # live"] by simp
  moreover have "plic_driver_map drv s' = ?b"
    using load64_agree [OF z, of "drv + 40"] f40 dj by (auto simp: plic_driver_map_def get64_def)
  ultimately show ?thesis by simp
qed

lemma first_node_alloc:
  assumes arena: "arena_in kinv (driver_node_arena s) s [] kept"
    and bs: "block_size (driver_node_arena s) = 64" "auto_refill (driver_node_arena s)"
    and run: "driver_node_alloc s = Inr (n, s1)"
  shows "n \<noteq> 0" and "arena_in kinv (driver_node_arena s1) s1 [(n, 64)] kept"
    and "block_size (driver_node_arena s1) = 64" and "auto_refill (driver_node_arena s1)"
    and "agree_on (covered kept) (kmem s1) (kmem s)" and "hhdm_offset s1 = hhdm_offset s"
proof -
  have b6: "block_size (driver_node_arena s) = 2 ^ 6" using bs by simp
  obtain a t where al: "slab_allocate kalloc (driver_node_arena s) s = Inr (n, a, t)" and s1: "s1 = t\<lparr>driver_node_arena := a\<rparr>"
    using run by (auto simp: driver_node_alloc_def and_then_eq_Inr)
  note R = allocate_refilling [OF arena _ _ b6, unfolded al, simplified]
  have n: "n \<noteq> 0" and t: "arena_in kinv a t [(n, 64)] kept"
    and a: "block_size a = 64" "auto_refill a" "agree_on (covered kept) (kmem t) (kmem s)"
    using R bs by (auto split: if_splits)
  have "kinv s1 = kinv t" by (intro ext kinv_same) (simp_all add: s1 manager_same_def)
  then have "arena_in kinv a s1 [(n, 64)] kept" using t by (simp only: arena_in_def) (simp add: s1)
  then show "n \<noteq> 0" "arena_in kinv (driver_node_arena s1) s1 [(n, 64)] kept" "block_size (driver_node_arena s1) = 64"
    "auto_refill (driver_node_arena s1)" "agree_on (covered kept) (kmem s1) (kmem s)"
    using n a by (simp_all add: s1)
  have "allocator_only s t" by (intro slab_allocate_only [OF kalloc_only al])
  then show "hhdm_offset s1 = hhdm_offset s" by (auto simp: s1 allocator_only_def)
qed

lemma controller_registered:
  assumes arena: "arena_in kinv (driver_node_arena s) s [] kept"
    and bs: "block_size (driver_node_arena s) = 64" "auto_refill (driver_node_arena s)"
    and hh: "2 ^ 14 \<le> unat (hhdm_offset s)" and none: "drivers s = 0" "driver_count s = 0" "fn_uart_handle_interrupt s \<noteq> 0"
    and al: "driver_node_alloc s = Inr (n, s1)" and pi: "plic_driver_init (n + 16) base hart (set32 (n + 8) ty s1) = Inr s2"
    and s3: "s3 = (set64 n (drivers s2) s2)\<lparr>drivers := n, driver_count := driver_count s2 + 1\<rparr>"
  shows "registry_inv kinv (n + 16) s3 [n] kept" and "agree_on (covered kept) (kmem s3) (kmem s)" and "keeps_maps s s3"
proof -
  note A = first_node_alloc [OF arena bs al]
  let ?t = "set32 (n + 8) ty s1" and ?pl = "n + 16"
  note P = plic_driver_init_same [OF pi]
  have e48: "extent ?pl 48 \<subseteq> extent n 64" by (rule extent_field) simp_all
  have hht: "2 ^ 14 \<le> unat (hhdm_offset ?t)" using hh A(6) by (simp add: set32_def)
  have "extent (n + 8) 4 \<subseteq> extent n 64" by (rule extent_field) simp_all
  then have f1: "agree_on (- extent n 64) (kmem ?t) (kmem s1)" by (simp, intro store32_agree) auto
  have same1: "kernel_same s1 ?t" by (simp add: same_defs set32_def)
  have at: "arena_in kinv (driver_node_arena ?t) ?t [(n, 64)] kept"
    using arena_same [OF same1 A(2)] f1 by (simp add: set32_def) (auto intro: agree_on_mono)
  let ?map = "plic_driver_map ?pl s2"
  have a2: "arena_in kinv (driver_node_arena ?t) s2 [(n, 64)] ((?map, 8192) # kept)"
  proof (rule arena_step [OF at], intro conjI)
    fix pages assume ok: "kinv ?t (pages @ kept)" and sub: "covered [(n, 64)] \<subseteq> covered pages"
    have e: "extent ?pl 48 \<subseteq> covered (pages @ kept)" using sub e48 by auto
    note C = plic_driver_init_correct [OF kinv_kvspace [OF ok] P(3) e hht pi]
    show "kinv s2 (pages @ (?map, 8192) # kept)"
      by (rule kinv_perm [OF plic_driver_init_kinv [OF ok P(3) e hht pi]]) simp
    show "agree_on (covered pages - covered [(n, 64)]) (kmem s2) (kmem ?t)"
      using e48 by (intro agree_on_mono [OF C(3)]) auto
  qed
  obtain pages where ok: "kinv ?t (pages @ kept)" and sub: "extent n 64 \<subseteq> covered pages"
    using at by (auto simp: arena_in_def)
  have dk: "covered pages \<inter> covered kept = {}" using kinv_apart [OF ok] by (simp only: all_apart_append_covered)
  have e: "extent ?pl 48 \<subseteq> covered (pages @ kept)" using sub e48 by auto
  note C = plic_driver_init_correct [OF kinv_kvspace [OF ok] P(3) e hht pi]
  have ap: "all_apart ([(n, 64)] @ (?map, 8192) # kept)" using arena_apart [OF a2] by simp
  have dj: "extent n 64 \<inter> extent ?map 8192 = {}" "extent n 64 \<inter> covered kept = {}"
    using all_apart_covered_hd [OF ap [simplified append_Cons]] by auto
  have f3: "agree_on (- extent n 8) (kmem s3) (kmem s2)" by (simp add: s3, intro store64_agree) auto
  have e8: "extent n 8 \<subseteq> extent n 64" by (rule extent_mono) simp
  have "extent (56 + n) 8 \<inter> extent n 8 = {}" by (simp add: extent_disjoint_iff diff_add_eq_diff_diff_swap)
  then have m3: "plic_driver_map ?pl s3 = ?map"
    using load64_agree [OF f3, of "56 + n"] by (auto simp: plic_driver_map_def get64_def)
  have k: "drivers s2 = 0" "driver_count s2 = 0" "fn_uart_handle_interrupt s2 \<noteq> 0" "keeps_maps s s2"
    using keeps_drivers_trans [OF driver_node_alloc_keeps [OF al] keeps_drivers_trans [OF _ P(1)]] none
    by (auto simp: keeps_defs set32_def)
  then show "keeps_maps s s3" by (simp add: s3 keeps_maps_def keeps_boot_def set64_def)
  have "plic_driver_of ?pl irq s3 = 0" if "irq < 1024" for irq
    using slot_frame [OF m3 _ that] C(8) [OF that] dj(1) e8 by (auto intro: agree_on_mono [OF f3])
  then have "registry_data ?pl s3 [n]"
    using A(1) P(3) k by (simp add: registry_data_def slots_ok_def s3 chain_Cons set64_def)
  moreover have "registry_arena kinv ?pl s3 (nodes [n]) kept"
  proof -
    have "driver_node_arena s3 = driver_node_arena s1" using P(2) by (simp add: s3 set64_def set32_def)
    moreover have "kernel_same s2 s3" by (simp add: same_defs s3 set64_def)
    then have "arena_in kinv (driver_node_arena ?t) s3 [(n, 64)] ((?map, 8192) # kept)"
      using e8 by (intro arena_same [OF _ a2] agree_on_mono [OF f3]) auto
    ultimately show ?thesis using A(3,4) by (simp add: registry_arena_def m3 set32_def)
  qed
  ultimately show "registry_inv kinv ?pl s3 [n] kept" by (simp add: registry_inv_def)
  have "agree_on (covered kept) (kmem s3) (kmem s2)" using dj(2) e8 by (intro agree_on_mono [OF f3]) auto
  moreover have "agree_on (covered kept) (kmem s2) (kmem ?t)" using dj(2) e48 by (intro agree_on_mono [OF C(3)]) auto
  moreover have "agree_on (covered kept) (kmem ?t) (kmem s1)" using dj(2) by (intro agree_on_mono [OF f1]) auto
  ultimately show "agree_on (covered kept) (kmem s3) (kmem s)" using A(5) by (blast intro: agree_on_trans)
qed

text \<open>The whole initialisation.\<close>

lemma registry_store_kept:
  assumes "registry_inv kinv plic s ns kept" and "extent a 8 \<subseteq> covered kept"
  shows "registry_inv kinv plic (set64 a v s) ns kept"
  using assms(2) by (intro registry_kept [OF assms(1)]) (auto intro: store64_agree)

text \<open>The page of the map of controllers; the arena of the nodes is empty.\<close>

lemma devices_init_map_correct:
  assumes inv: "kinv s kept" and run: "devices_init_map s = Inr s'"
  shows "arena_in kinv (driver_node_arena s') s' [] ((hart_plic_map s', 4096) # kept)"
    and "driver_node_arena s' = slab_autorefill_init sizeof_driver_node" and "drivers s' = 0" and "driver_count s' = 0"
    and "agree_on (covered kept) (kmem s') (kmem s)" and "kmem s' ` extent (hart_plic_map s') 4096 \<subseteq> {0}" and "map_capacity s' = 512"
    and "hhdm_offset s' = hhdm_offset s" and "fn_uart_handle_interrupt s' = fn_uart_handle_interrupt s" and "dt s' = dt s"
proof -
  let ?s0 = "s\<lparr>drivers := 0, driver_count := 0, driver_node_arena := slab_autorefill_init sizeof_driver_node\<rparr>"
  obtain al u where k: "kalloc PAGE_SIZE PAGE_SIZE ?s0 = Inr (al, u)"
    and s': "s' = u\<lparr>map_alloc_size := PAGE_SIZE, map_capacity := PAGE_SIZE div 8, hart_plic_map := alloc_buffer al,
                   kmem := memzero (kmem u) (alloc_buffer al) PAGE_SIZE\<rparr>"
    using run by (auto simp: devices_init_map_def Let_def and_then_eq_Inr)
  have inv0: "kinv ?s0 kept" using inv kinv_same [of s ?s0 kept] by (simp add: manager_same_def)
  note K = page_inv [OF inv0 k] page_shape [OF inv0 k] page_frame [OF inv0 k]
  let ?kept = "(alloc_buffer al, 4096) # kept"
  have f: "agree_on (- extent (alloc_buffer al) 4096) (kmem s') (kmem u)"
    by (simp add: s', rule memzero_agree) simp
  have "kinv (u\<lparr>kmem := kmem s'\<rparr>) ?kept" using K(1) by (intro kinv_frame agree_on_mono [OF f]) auto
  then have k1: "kinv s' ?kept" using kinv_same [of "u\<lparr>kmem := kmem s'\<rparr>" s' ?kept] by (simp add: s' manager_same_def)
  have u: "allocator_only ?s0 u" by (rule kalloc_only [OF k])
  show a: "driver_node_arena s' = slab_autorefill_init sizeof_driver_node" and "drivers s' = 0" "driver_count s' = 0" "map_capacity s' = 512"
    "hhdm_offset s' = hhdm_offset s" "fn_uart_handle_interrupt s' = fn_uart_handle_interrupt s" "dt s' = dt s"
    using u by (auto simp: s' allocator_only_def)
  have "slab_inv (slab_autorefill_init sizeof_driver_node) (kmem s') [] [] []"
    by (rule slab_inv_init) (simp_all add: slab_autorefill_init_def SLAB_BLOCK_SIZE_ge)
  then show "arena_in kinv (driver_node_arena s') s' [] ((hart_plic_map s', 4096) # kept)"
    unfolding arena_in_def a using k1 by (intro exI [of _ "[]"]) (simp add: slab_ranges_def, simp add: s')
  have "extent (alloc_buffer al) 4096 \<inter> covered kept = {}"
    using all_apart_covered_hd [OF kinv_apart [OF k1]] by simp
  then have "agree_on (covered kept) (kmem s') (kmem u)" by (intro agree_on_mono [OF f]) auto
  then show "agree_on (covered kept) (kmem s') (kmem s)" using K(3) by (auto intro: agree_on_trans)
  show "kmem s' ` extent (hart_plic_map s') 4096 \<subseteq> {0}" by (auto simp: s' memzero_inside)
qed

lemma register_controller_correct:
  assumes arena: "arena_in kinv (driver_node_arena s) s [] kept"
    and bs: "block_size (driver_node_arena s) = 64" "auto_refill (driver_node_arena s)"
    and hh: "2 ^ 14 \<le> unat (hhdm_offset s)" and none: "drivers s = 0" "driver_count s = 0" "fn_uart_handle_interrupt s \<noteq> 0"
    and slot: "extent (hart_plic_map s + 8 * ucast hart) 8 \<subseteq> covered kept"
    and run: "register_controller base hart s = Inr s'"
  obtains n where "registry_inv kinv (n + 16) s' [n] kept" and "agree_on (covered kept - extent (hart_plic_map s + 8 * ucast hart) 8) (kmem s') (kmem s)"
    and "get64 (hart_plic_map s + 8 * ucast hart) s' = n + 16" and "keeps_maps s s'"
proof -
  obtain n s1 s2 where al: "driver_node_alloc s = Inr (n, s1)"
    and pi: "plic_driver_init (n + 16) base hart (set32 (n + 8) 1 s1) = Inr s2"
    and s': "s' = (let t = (set64 n (drivers s2) s2)\<lparr>drivers := n, driver_count := driver_count s2 + 1\<rparr>
       in set64 (hart_plic_map t + 8 * ucast hart) (n + 16) t)"
    using run by (auto simp: register_controller_def and_then_eq_Inr deref_eq_Inr Let_def set64_def)
  define t where "t = (set64 n (drivers s2) s2)\<lparr>drivers := n, driver_count := driver_count s2 + 1\<rparr>"
  note C = controller_registered [OF arena bs hh none al pi t_def]
  let ?a = "hart_plic_map s + 8 * ucast hart"
  have m: "hart_plic_map t = hart_plic_map s" using C(3) by (simp add: keeps_maps_def)
  have e: "s' = set64 ?a (n + 16) t" by (simp add: s' m flip: t_def)
  have "agree_on (covered kept - extent ?a 8) (kmem s') (kmem t)" by (simp add: e, rule store64_agree) auto
  then have "agree_on (covered kept - extent ?a 8) (kmem s') (kmem s)" using C(2) by (blast intro: agree_on_trans agree_on_mono)
  moreover have "keeps_maps s s'" using C(3) by (simp add: e keeps_maps_def keeps_boot_def set64_def)
  moreover have "registry_inv kinv (n + 16) s' [n] kept" unfolding e by (rule registry_store_kept [OF C(1) slot])
  moreover have "get64 ?a s' = n + 16" by (simp add: e get64_def)
  ultimately show thesis using that by blast
qed

lemma devices_init_correct:
  assumes inv: "kinv s kept" and hh: "2 ^ 14 \<le> unat (hhdm_offset s)" and hart: "hart < 512"
    and fn: "fn_uart_handle_interrupt s \<noteq> 0" and run: "devices_init hart s = Inr s'"
  obtains ns where "registry_inv kinv (devices_get_plic_driver hart s') s' ns ((hart_plic_map s', 4096) # kept)"
    and "agree_on (covered kept) (kmem s') (kmem s)" and "map_capacity s' = 512"
    and "\<And>h. h < 512 \<Longrightarrow> h \<noteq> hart \<Longrightarrow> devices_get_plic_driver h s' = 0"
    and "fn_uart_handle_interrupt s' = fn_uart_handle_interrupt s"
proof -
  obtain s1 n1 p reg s2 s3 where m: "devices_init_map s = Inr s1"
    and pr: "kprintln (SV ''Found PLIC at physical address {X}'') [p] s1 = Inr s2"
    and r: "register_controller (kernel_hhdm_phys_to_virt p s2) hart s2 = Inr s3"
    and w: "devices_recursive_initialize n1 (get64 (hart_plic_map s3 + 8 * ucast hart) s3) s3 = Inr s'"
    using run by (auto simp: devices_init_def and_then_eq_Inr Let_def split: if_splits)
  note M = devices_init_map_correct [OF inv m]
  let ?map = "hart_plic_map s1" and ?kept = "(hart_plic_map s1, 4096) # kept"
  have p: "machine_only s1 s2" "kmem s2 = kmem s1" "keeps_drivers s1 s2"
    using prints_machine_only [OF kprintln_prints [OF pr]] prints_fields [OF kprintln_prints [OF pr]] kprintln_keeps [OF pr] by auto
  have ks: "kernel_same s1 s2" by (rule machine_only_same [OF p(1)])
  have a2: "driver_node_arena s2 = slab_autorefill_init sizeof_driver_node" using ks M(2) by (simp add: same_defs)
  have arena: "arena_in kinv (driver_node_arena s2) s2 [] ?kept"
    unfolding a2 M(2) [symmetric] by (rule arena_same [OF ks M(1)]) (simp add: p(2))
  have bs: "block_size (driver_node_arena s2) = 64" "auto_refill (driver_node_arena s2)"
    by (simp_all add: a2 slab_autorefill_init_def SLAB_BLOCK_SIZE_def sizeof_driver_node_def)
  have k2: "drivers s2 = 0" "driver_count s2 = 0" "fn_uart_handle_interrupt s2 \<noteq> 0" "hart_plic_map s2 = ?map" "map_capacity s2 = 512"
    "2 ^ 14 \<le> unat (hhdm_offset s2)"
    using p(3) M(3,4,7-9) fn hh ks by (simp_all add: keeps_defs same_defs)
  have slot: "extent (hart_plic_map s2 + 8 * ucast hart) 8 \<subseteq> covered ?kept" using hart_slot [OF hart] by (auto simp: k2(4))
  obtain n where R: "registry_inv kinv (n + 16) s3 [n] ?kept"
    "agree_on (covered ?kept - extent (?map + 8 * ucast hart) 8) (kmem s3) (kmem s2)"
    "get64 (?map + 8 * ucast hart) s3 = n + 16" "keeps_maps s2 s3"
    using register_controller_correct [OF arena bs k2(6,1-3) slot r] by (auto simp: k2(4))
  have m3: "hart_plic_map s3 = ?map" "map_capacity s3 = 512" using R(4) k2 by (simp_all add: keeps_maps_def)
  have g: "grows kinv (n + 16) s3 s'" by (rule devices_recursive_initialize_grows [OF w [unfolded m3 R(3)]])
  then obtain new where G: "agree_on (covered ?kept) (kmem s') (kmem s3)" "registry_inv kinv (n + 16) s' (new @ [n]) ?kept"
    using R(1) unfolding grows_def by blast
  have k': "hart_plic_map s' = ?map" "map_capacity s' = 512" "fn_uart_handle_interrupt s' = fn_uart_handle_interrupt s"
    using devices_recursive_initialize_keeps [OF w] m3 R(4) p(3) M(9) by (simp_all add: keeps_defs)
  have get: "devices_get_plic_driver h s' = get64 (?map + 8 * ucast h) s3" if "h < 512" for h
  proof -
    have "unat h < 512" using that by (simp add: word_less_nat_alt)
    then have "take_bit 64 (unat h) < 512" using take_bit_nat_less_eq_self [of 64 "unat h"] by linarith
    then have "ucast h < (512 :: u64)" by (simp add: word_less_nat_alt unsigned_ucast_eq)
    moreover have "extent (?map + 8 * ucast h) 8 \<subseteq> covered ?kept" using hart_slot [OF that] by auto
    ultimately show ?thesis using load64_agree [OF G(1)] by (auto simp: devices_get_plic_driver_def k' get64_def not_le [symmetric])
  qed
  have ap: "extent ?map 4096 \<inter> covered kept = {}"
    using arena_apart [OF arena] all_apart_covered_hd [of "(?map, 4096)" kept] by simp
  show thesis
  proof (rule that)
    show "registry_inv kinv (devices_get_plic_driver hart s') s' (new @ [n]) ((hart_plic_map s', 4096) # kept)"
      using G(2) by (simp add: get [OF hart] R(3) k')
    have "agree_on (covered kept) (kmem s3) (kmem s2)" using ap hart_slot [OF hart] by (intro agree_on_mono [OF R(2)]) auto
    then show "agree_on (covered kept) (kmem s') (kmem s)"
      using agree_on_mono [OF G(1), of "covered kept"] M(5) by (auto simp: p(2) intro: agree_on_trans)
    show "devices_get_plic_driver h s' = 0" if h: "h < 512" "h \<noteq> hart" for h
    proof -
      have "unat h \<noteq> unat hart" using h(2) unsigned_word_eqI [where ?'a = nat, of h hart] by blast
      moreover have "h < 1024" "hart < 1024" using h(1) hart less_trans by force+
      note ucast_irq_nat [OF this(1)] ucast_irq_nat [OF this(2)]
      ultimately have "extent (?map + 8 * ucast h) 8 \<inter> extent (?map + 8 * ucast hart) 8 = {}"
        using unat_diff_cases [of "8 * ucast h" "8 * ucast hart"] unat_diff_cases [of "8 * ucast hart" "8 * ucast h"]
        by (auto simp: extent_disjoint_iff split: if_splits)
      then have "get64 (?map + 8 * ucast h) s3 = load64 (kmem s1) (?map + 8 * ucast h)"
        using hart_slot [OF h(1)] unfolding get64_def p(2) [symmetric] by (intro load64_agree [OF R(2)]) auto
      also have "\<dots> = 0" using hart_slot [OF h(1)] M(6) by (intro load64_zero) auto
      finally show ?thesis by (simp add: get [OF h(1)])
    qed
    show "map_capacity s' = 512" "fn_uart_handle_interrupt s' = fn_uart_handle_interrupt s" by (rule k')+
  qed
qed

end

section \<open>What the initialisation leaves of the boot\<close>

lemma keeps_drivers_boot: "keeps_drivers s s' \<Longrightarrow> keeps_boot s s'"
  by (simp add: keeps_drivers_def keeps_maps_def)

lemma keeps_maps_boot: "keeps_maps s s' \<Longrightarrow> keeps_boot s s'"
  by (simp add: keeps_maps_def)

lemma devices_init_map_keeps: "devices_init_map s = Inr s' \<Longrightarrow> keeps_boot s s'"
proof -
  assume "devices_init_map s = Inr s'"
  then obtain al u where k: "kalloc PAGE_SIZE PAGE_SIZE (s\<lparr>drivers := 0, driver_count := 0,
      driver_node_arena := slab_autorefill_init sizeof_driver_node\<rparr>) = Inr (al, u)" and s': "s' = u\<lparr>map_alloc_size := PAGE_SIZE,
      map_capacity := PAGE_SIZE div 8, hart_plic_map := alloc_buffer al, kmem := memzero (kmem u) (alloc_buffer al) PAGE_SIZE\<rparr>"
    by (auto simp: devices_init_map_def Let_def and_then_eq_Inr)
  show ?thesis using kalloc_only [OF k] by (auto simp: s' allocator_only_def keeps_boot_def)
qed

lemma register_controller_keeps: "register_controller base hart s = Inr s' \<Longrightarrow> keeps_boot s s'"
proof -
  assume "register_controller base hart s = Inr s'"
  then obtain n s1 s2 where a: "driver_node_alloc s = Inr (n, s1)"
    and p: "plic_driver_init (n + 16) base hart (set32 (n + 8) (device_type_value DEVICE_TYPE_PLIC) s1) = Inr s2"
    and s': "s' = (let t = (set64 n (drivers s2) s2)\<lparr>drivers := n, driver_count := driver_count s2 + 1\<rparr>
       in set64 (hart_plic_map t + 8 * ucast hart) (n + 16) t)"
    by (auto simp: register_controller_def and_then_eq_Inr deref_eq_Inr Let_def set64_def)
  have "keeps_boot s1 s2" using keeps_drivers_boot [OF plic_driver_init_same(1) [OF p]] by (simp add: keeps_boot_def set32_def)
  moreover have "keeps_boot s2 s'" by (simp add: s' Let_def keeps_boot_def set64_def)
  ultimately show ?thesis using keeps_drivers_boot [OF driver_node_alloc_keeps [OF a]] by (blast intro: keeps_boot_trans)
qed

lemma devices_init_keeps: "devices_init hart s = Inr s' \<Longrightarrow> keeps_boot s s'"
proof -
  assume "devices_init hart s = Inr s'"
  then obtain s1 n1 n2 p base s2 s3 where "devices_init_map s = Inr s1" "kprintln (SV ''Found PLIC at physical address {X}'') [p] s1 = Inr s2"
    "register_controller base hart s2 = Inr s3" "devices_recursive_initialize n1 n2 s3 = Inr s'"
    by (auto simp: devices_init_def and_then_eq_Inr Let_def split: if_splits)
  then have "keeps_boot s s1" "keeps_boot s1 s2" "keeps_boot s2 s3" "keeps_boot s3 s'"
    using devices_init_map_keeps keeps_drivers_boot [OF kprintln_keeps] register_controller_keeps
      keeps_maps_boot [OF devices_recursive_initialize_keeps] by blast+
  then show ?thesis by (blast intro: keeps_boot_trans)
qed

end
