(* ===== verification/Device_Runs.thy ===== *)
theory Device_Runs
  imports Device_Init
begin

text \<open>
  That the initialisation of the devices comes to an end: with a console and enough free memory
  every step returns, or stops in a panic or an unfinished part of the driver for Virtio devices.
\<close>

section \<open>Steps that return or stop\<close>

text \<open>
  A result that satisfies \<open>P\<close>; if \<open>V\<close> holds it may also be a stop, a panic or a place the code
  marks as not yet written.  No other halt is a result: no null pointer, no access out of bounds, no
  endless loop.
\<close>

definition safely :: "bool \<Rightarrow> halt + 'b \<Rightarrow> ('b \<Rightarrow> bool) \<Rightarrow> bool" where
  "safely V r P \<longleftrightarrow> (case r of Inl h \<Rightarrow> V \<and> h \<in> {Panicked, Todo_reached} | Inr x \<Rightarrow> P x)"

lemma safely_simps [simp]:
  "safely V (Inr x) P \<longleftrightarrow> P x" "safely V (Inl h) P \<longleftrightarrow> V \<and> h \<in> {Panicked, Todo_reached}"
  by (simp_all add: safely_def)

lemma safely_and_then: "safely V r P \<Longrightarrow> (\<And>x. r = Inr x \<Longrightarrow> P x \<Longrightarrow> safely V (f x) Q) \<Longrightarrow> safely V (and_then r f) Q"
  by (auto simp: safely_def and_then_def split: sum.splits)

lemma safely_mono: "safely V r P \<Longrightarrow> (\<And>x. r = Inr x \<Longrightarrow> P x \<Longrightarrow> Q x) \<Longrightarrow> safely V r Q"
  by (auto simp: safely_def split: sum.splits)

lemma safely_run_all:
  assumes "\<And>x k s. x \<in> set xs \<Longrightarrow> J (k + w x) s \<Longrightarrow> safely V (f x s) (J k)"
  shows "J (k + sum_list (map w xs)) s \<Longrightarrow> safely V (run_all f xs s) (J (k :: nat))"
  using assms
proof (induction xs arbitrary: s)
  case Nil
  then show ?case by simp
next
  case (Cons x xs)
  have "safely V (f x s) (J (k + sum_list (map w xs)))"
    by (rule Cons.prems(2)) (use Cons.prems(1) in \<open>simp_all add: ac_simps\<close>)
  then show ?case using Cons.IH Cons.prems(2) by (auto intro!: safely_and_then)
qed

section \<open>The console\<close>

definition console :: "'a machine_scheme \<Rightarrow> bool" where
  "console s \<longleftrightarrow> put s \<noteq> None \<and> print_buf_ok s"

lemma console_same: "console s \<Longrightarrow> put s' = put s \<Longrightarrow> print_buf s' = print_buf s \<Longrightarrow> console s'"
  by (simp add: console_def print_buf_ok_def)

text \<open>A format whose directives are all known and find their arguments.\<close>

definition printable :: "mem \<Rightarrow> u8 list \<Rightarrow> u64 list \<Rightarrow> bool" where
  "printable m fmt args \<longleftrightarrow> render m (tokens None fmt) args \<noteq> None"

lemma console_println:
  assumes "console s" and "printable (kmem s) fmt args"
  shows "\<exists>s'. kprintln fmt args s = Inr s' \<and> console s' \<and> machine_only s s' \<and> kmem s' = kmem s"
proof -
  obtain f t where f: "put s = Some f" "print_buf_ok s" "render (kmem s) (tokens None fmt) args = Some t"
    using assms by (auto simp: console_def printable_def)
  obtain s' where s': "kprintln fmt args s = Inr s'" "sends (t @ [chr CHR 0x0A]) s s'" using kprintln_sends [OF f] by blast
  show ?thesis
    using s' sends_fields [OF s'(2)] f prints_machine_only [OF kprintln_prints [OF s'(1)]] by (auto simp: console_def)
qed

text \<open>A format without a directive.\<close>

lemma tokens_plain: "chr CHR ''{'' \<notin> set fmt \<Longrightarrow> tokens None fmt = map Lit fmt"
  by (induction fmt) auto

lemma render_lits: "render m (map Lit fmt) args = Some fmt"
  by (induction fmt) auto

lemma printable_plain: "chr CHR ''{'' \<notin> set fmt \<Longrightarrow> printable m fmt args"
  by (simp add: printable_def tokens_plain render_lits)

section \<open>The walk's state\<close>

text \<open>
  The registry is well formed, what must be kept has the contents \<open>m0\<close> has, the console is usable
  and more than \<open>k\<close> bytes are free.
\<close>

definition walking :: "addr \<Rightarrow> (addr \<times> nat) list \<Rightarrow> mem \<Rightarrow> nat \<Rightarrow> 'a system_scheme \<Rightarrow> bool" where
  "walking plic kept m0 k s \<longleftrightarrow> (\<exists>ns. registry_inv roomy plic s ns kept) \<and> agree_on (covered kept) (kmem s) m0 \<and> console s \<and>
     k < spare s"

lemma walking_grows:
  assumes "walking plic kept m0 k s" and "grows roomy plic s s'" and "console s'" and "k' < spare s'"
  shows "walking plic kept m0 k' s'"
  using assms unfolding walking_def grows_def by (blast intro: agree_on_trans)

lemma walking_println:
  assumes w: "walking plic kept m0 k s" and "printable (kmem s) fmt args"
  shows "safely V (kprintln fmt args s) (walking plic kept m0 k)"
proof -
  obtain s' where s': "kprintln fmt args s = Inr s'" "console s'" "machine_only s s'"
    using console_println [of s fmt args] assms by (auto simp: walking_def)
  have "spare s' = spare s" using machine_only_same [OF s'(3)] by (simp add: same_defs spare_def)
  then show ?thesis
    using walking_grows [OF w rmanager.kprintln_grows [OF s'(1)] s'(2), of k] w s'(1) by (simp add: walking_def)
qed

lemma walking_alloc:
  assumes w: "walking plic kept m0 (k + 4096) s"
  shows "\<exists>n s1. driver_node_alloc s = Inr (n, s1) \<and> n \<noteq> 0 \<and> n + 16 \<noteq> 0 \<and> plic \<noteq> 0 \<and> console s1 \<and> k < spare s1"
proof -
  obtain ns where inv: "registry_inv roomy plic s ns kept" and con: "console s" and fr: "k + 4096 < spare s"
    using w by (auto simp: walking_def)
  let ?a = "driver_node_arena s" and ?o = "(plic_driver_map plic s, 8192) # kept"
  have arena: "arena_in roomy ?a s (nodes ns) ?o" and bs: "block_size ?a = 2 ^ 6" "auto_refill ?a"
    using inv by (simp_all add: registry_inv_def registry_arena_def)
  have f4: "4096 < spare s" using fr by linarith
  obtain n a t where al: "slab_allocate kalloc ?a s = Inr (n, a, t)" and n: "n \<noteq> 0"
    and t: "arena_in roomy a t ((n, 2 ^ 6) # nodes ns) ?o" "spare s \<le> spare t + 4096"
    using arena_allocates [OF arena bs(1) _ _ bs(2) f4] by auto
  obtain pages where "roomy t (pages @ ?o)" "extent n 64 \<subseteq> covered pages" using t(1) by (auto simp: arena_in_def)
  then have z: "0 \<notin> extent n 64" by (auto simp: roomy_def)
  have "n + 16 \<noteq> 0"
  proof
    assume "n + 16 = 0"
    then have "0 - n = 16" by (metis add_diff_cancel_left')
    then show False using z by (simp add: mem_extent)
  qed
  have "allocator_only s t" by (rule slab_allocate_only [OF kalloc_only al])
  then have "console t" using con by (auto simp: allocator_only_def console_def print_buf_ok_def)
  then have "console (t\<lparr>driver_node_arena := a\<rparr>)" by (simp add: console_def print_buf_ok_def)
  moreover have "driver_node_alloc s = Inr (n, t\<lparr>driver_node_arena := a\<rparr>)" by (simp add: driver_node_alloc_def al)
  moreover have "plic \<noteq> 0" using inv by (simp add: registry_inv_def registry_data_def)
  ultimately show ?thesis using n t(2) fr \<open>n + 16 \<noteq> 0\<close> by (intro exI [of _ n] exI [of _ "t\<lparr>driver_node_arena := a\<rparr>"]) auto
qed

lemma machine_only_room:
  fixes s s' :: "'a system_scheme"
  assumes "machine_only s s'"
  shows "put s' = put s" and "spare s' = spare s"
  using machine_only_same [OF assms] machine_only_fields(1) [OF assms] by (simp_all add: same_defs spare_def)

lemma plic_enable_runs:
  assumes "plic \<noteq> 0"
  shows "\<exists>s'. plic_driver_enable_int plic 10 1 d s = Inr s' \<and> machine_only s s' \<and> print_buf s' = print_buf s"
proof -
  obtain s' where s': "plic_driver_enable_int plic 10 1 d s = Inr s'" "s' = s\<lparr>kmem := kmem s', io_events := io_events s', print_buf := print_buf s\<rparr>"
    using assms by (simp add: plic_driver_enable_int_def Let_def io_defs set64_def record_io_def)
  have "machine_only s s'" by (subst s'(2), rule machine_onlyI)
  moreover have "print_buf s' = print_buf s" by (subst s'(2), simp)
  ultimately show ?thesis using s'(1) by blast
qed

lemma walking_uart:
  assumes w: "walking plic kept m0 (k + 4096) s"
  shows "safely V (init_uart_node node plic reg s) (walking plic kept m0 k)"
proof -
  let ?pa = "get64 (reg_addresses (kmem s) reg) s"
  obtain n s1 where al: "driver_node_alloc s = Inr (n, s1)" and n: "n \<noteq> 0" "n + 16 \<noteq> 0" "plic \<noteq> 0" "console s1" "k < spare s1"
    using walking_alloc [OF w] by blast
  obtain s2 where u: "uart_driver_init (n + 16) (kernel_hhdm_phys_to_virt ?pa s) s1 = Inr s2" "print_buf s2 = print_buf s1"
    using n(2) by (simp add: uart_driver_init_def Let_def io_defs set64_def record_io_def)
  have m2: "machine_only s1 s2" by (rule uart_driver_init_eq(2) [OF u(1)])
  obtain s3 where e: "plic_driver_enable_int plic 10 1 (n + 8) s2 = Inr s3" "machine_only s2 s3" "print_buf s3 = print_buf s2"
    using plic_enable_runs [OF n(3)] by blast
  let ?t = "register_driver n DEVICE_TYPE_UART s3"
  have t: "put ?t = put s3" "print_buf ?t = print_buf s3" "spare ?t = spare s3"
    by (simp_all add: register_driver_def Let_def set64_def set32_def spare_def)
  note M = machine_only_room [OF m2] machine_only_room [OF e(2)]
  have "console ?t" using console_same [OF n(4), of ?t] M t u(2) e(3) by simp
  then obtain s' where p: "kprintln (SV ''Initialized a UART device at {X}'') [?pa] ?t = Inr s'" "console s'" "machine_only ?t s'"
    using console_println [of ?t "SV ''Initialized a UART device at {X}''" "[?pa]"] by (auto simp: printable_def SV_def directive_def)
  have run: "init_uart_node node plic reg s = Inr s'"
    using al n u(1) e(1) p(1) by (simp add: init_uart_node_def Let_def)
  have "spare s' = spare s1" using machine_only_room(2) [OF p(3)] M t(3) by simp
  then show ?thesis using walking_grows [OF w rmanager.init_uart_node_grows [OF run] p(2), of k] n(5) run by simp
qed

section \<open>The Virtio driver\<close>

lemma safely_println:
  assumes "console s" and "printable (kmem s) fmt args" and "\<And>s'. console s' \<Longrightarrow> safely V (f s') Q"
  shows "safely V (and_then (kprintln fmt args s) f) Q"
  using console_println [OF assms(1,2)] assms(3) by auto

lemma console_steps [simp]:
  "console (record_io e s) = console s" "console (set8 a b s) = console s" "console (set64 a v s) = console s"
  "console (set32 a w s) = console s" "console (legacy_write d r w s) = console s"
  by (simp_all add: console_def print_buf_ok_def record_io_def set8_def set64_def set32_def legacy_write_def mmio_write32_def)

lemma console_reads: "legacy_read d r s = (v, s') \<Longrightarrow> console s' = console s" "mmio_read32 a s = (v, s') \<Longrightarrow> console s' = console s"
  by (auto simp: legacy_read_def mmio_read32_def next_input_def Let_def)

lemma console_string: "console s \<Longrightarrow> \<exists>s'. kprintln_string t s = Inr s' \<and> console s'"
  by (auto simp: console_def kprintln_string_def put_bytes_emit put_char_emit emit_def print_buf_ok_def)

lemma formats [simp]:
  "printable m (SV ''Device Features: {B}'') [v]"
  "printable m (SV ''Device did not accept our features! Status: {X}'') [v]"
  "printable m (SV ''Device Type: {X}'') [v]"
  "printable m (SV ''Unsupported Virtio MMIO device type {X}'') [v]"
  "printable m (SV ''Failed to initialize the VirtIO MMIO device at {X}: {V}'') [v, a, n]"
  "printable m (SV ''Failed to initialize the {V} device'') [a, n]"
  "printable m (SV ''The {V} device's device tree node is malformed.'') [a, n]"
  "printable m (SV ''Found PLIC at physical address {X}'') [v]"
  by (simp_all add: printable_def SV_def directive_def)

lemma block_driver_outcome:
  assumes "driver \<noteq> 0" and "console s"
  shows "safely True (block_driver_init driver base s) (\<lambda>_. True)"
proof -
  have panic: "safely True (and_then (kprintln_string (SV ''[Kernel Panic]:'') t) (\<lambda>s. Inl Panicked :: halt + 'a machine_scheme)) (\<lambda>_. True)"
    if "console t" for t :: "'a machine_scheme" using console_string [OF that, of "SV ''[Kernel Panic]:''"] by (auto simp del: SV_def)
  show ?thesis using assms unfolding block_driver_init_def
    by (auto simp: Let_def simp del: SV_def split: prod.split dest!: console_reads intro!: safely_println panic)
qed

lemma virtio_outcome:
  assumes "driver \<noteq> 0" and "console s"
  shows "safely True (virtio_mmio_driver_init driver base sz s) (\<lambda>(err, s'). console s')"
proof -
  have block: "safely True (and_then (block_driver_init driver base t) (\<lambda>s. Inl Todo_reached)) P" if "console t" for t P
    by (rule safely_and_then [OF block_driver_outcome [OF assms(1) that]]) simp
  have legacy: "safely True (virtio_mmio_device_legacy_initialize driver base t) (\<lambda>(err, s'). console s')" if "console t" for t
    using that assms(1) unfolding virtio_mmio_device_legacy_initialize_def
    by (auto simp: Let_def split: prod.split dest!: console_reads intro!: safely_println block)
  show ?thesis using assms unfolding virtio_mmio_driver_init_def virtio_mmio_device_regular_initialize_def
    by (auto simp: Let_def split: prod.split dest!: console_reads intro!: legacy)
qed

lemma walking_virtio:
  assumes w: "walking plic kept m0 (k + 4096) s"
  shows "safely True (init_virtio_node node reg s) (walking plic kept m0 k)"
proof -
  let ?pa = "get64 (reg_addresses (kmem s) reg) s" and ?sz = "get64 (reg_sizes (kmem s) reg) s"
  obtain n s1 where al: "driver_node_alloc s = Inr (n, s1)" and n: "n \<noteq> 0" "n + 16 \<noteq> 0" "console s1" "k < spare s1"
    using walking_alloc [OF w] by blast
  let ?init = "virtio_mmio_driver_init (n + 16) (kernel_hhdm_phys_to_virt ?pa s) ?sz s1"
  have fin: "\<exists>s'. init_virtio_node node reg s = Inr s' \<and> console s' \<and> spare s' = spare s1"
    if i: "?init = Inr (err, s2)" and c: "console s2" for err s2
  proof -
    note D = virtio_mmio_driver_init_correct [OF i]
    obtain c where err: "err = ec c" using D(1) by blast
    have e: "error_is_err err" using D(1) by (simp del: ec.simps)
    obtain msg where msg: "error_string err = Inr msg" by (simp only: err error_string_single)
    obtain s3 where p: "kprintln (SV ''Failed to initialize the VirtIO MMIO device at {X}: {V}'')
        [?pa, lit_addr s2 msg, of_nat (length msg)] s2 = Inr s3" "console s3" "machine_only s2 s3"
      using console_println [OF c formats(5)] by blast
    obtain a m where f: "driver_node_free n s3 = Inr (s3\<lparr>driver_node_arena := a, kmem := m\<rparr>)"
      using n(1) by (simp add: driver_node_free_def slab_free_def Let_def)
    have "init_virtio_node node reg s = Inr (s3\<lparr>driver_node_arena := a, kmem := m\<rparr>)"
      using al n(1) i e msg p(1) f by (simp add: init_virtio_node_def Let_def)
    moreover have "spare s3 = spare s1" using machine_only_room(2) [OF D(3)] machine_only_room(2) [OF p(3)] by simp
    ultimately show ?thesis using p(2) by (simp add: console_def print_buf_ok_def)
  qed
  have "safely True ?init (\<lambda>(err, s2). console s2)" by (rule virtio_outcome [OF n(2,3)])
  then consider h where "?init = Inl h" "h \<in> {Panicked, Todo_reached}" | err s2 where "?init = Inr (err, s2)" "console s2"
    by (cases ?init) auto
  then show ?thesis
  proof cases
    case 1
    then have "init_virtio_node node reg s = Inl h" using al n(1) by (simp add: init_virtio_node_def Let_def)
    then show ?thesis using 1(2) by simp
  next
    case 2
    then obtain s' where s': "init_virtio_node node reg s = Inr s'" "console s'" "spare s' = spare s1" using fin by blast
    then show ?thesis using walking_grows [OF w rmanager.init_virtio_node_grows [OF s'(1)] s'(2), of k] n(4) by simp
  qed
qed

section \<open>One node\<close>

text \<open>A view whose bytes are in blocks that are kept.\<close>

definition view_kept :: "(addr \<times> nat) list \<Rightarrow> str_view \<Rightarrow> bool" where
  "view_kept kept v \<longleftrightarrow> extent (sv_data v) (unat (sv_size v)) \<subseteq> covered kept"

lemma view_agree:
  assumes "view_kept kept v" and "agree_on (covered kept) m' m"
  shows "sv_bytes m' v = sv_bytes m v" and "sv_is m' v lit = sv_is m v lit"
proof -
  show "sv_bytes m' v = sv_bytes m v" unfolding sv_bytes_def
    using assms(1) unat_lt_2_64 [of "sv_size v"] by (intro load_bytes_agree agree_on_mono [OF assms(2)]) (auto simp: view_kept_def)
  then show "sv_is m' v lit = sv_is m v lit" by (simp add: sv_is_def)
qed

text \<open>
  A node of the parsed tree: its structure, name, compatible strings and list of properties are
  kept, the list ends, and the name, which the code uses as a format, has no directive.
\<close>

definition device_ok :: "mem \<Rightarrow> (addr \<times> nat) list \<Rightarrow> addr \<Rightarrow> bool" where
  "device_ok m kept n \<longleftrightarrow> node_kept m kept n \<and> view_kept kept (node_name m n) \<and> (\<forall>c \<in> set (compatibles m n). view_kept kept c) \<and>
     chr CHR ''{'' \<notin> set (sv_bytes m (node_name m n)) \<and>
     (\<exists>ps. chain 48 m (properties m n) ps \<and> (\<forall>p \<in> set ps. extent p 56 \<subseteq> covered kept \<and> view_kept kept (prop_name m p)))"

definition is_virtio :: "mem \<Rightarrow> addr \<Rightarrow> bool" where
  "is_virtio m n \<longleftrightarrow> (\<exists>c \<in> set (compatibles m n). sv_is m c ''virtio,mmio'')"

lemma first_or_null_cong: "(\<And>x. x \<in> set xs \<Longrightarrow> P x = Q x) \<Longrightarrow> first_or_null P xs = first_or_null Q xs"
  by (induction xs) auto

lemma first_or_null_in: "first_or_null P xs = 0 \<or> first_or_null P xs \<in> set xs"
  by (induction xs) auto

lemma prop_agree:
  assumes "agree_on (covered kept) m' m" and "extent p 56 \<subseteq> covered kept"
  shows "prop_name m' p = prop_name m p" and "prop_type m' p = prop_type m p" and "reg_n_pairs m' p = reg_n_pairs m p"
    and "reg_addresses m' p = reg_addresses m p"
proof -
  have e: "unat i + k \<le> 56 \<Longrightarrow> extent (p + i) k \<subseteq> covered kept" for i k using extent_field [of i k 56 p] assms(2) by auto
  show "prop_name m' p = prop_name m p" "prop_type m' p = prop_type m p" "reg_n_pairs m' p = reg_n_pairs m p" "reg_addresses m' p = reg_addresses m p"
    using load64_agree [OF assms(1) e, of 0] load64_agree [OF assms(1) e, of 8] load32_agree [OF assms(1) e, of 16]
      load64_agree [OF assms(1) e, of 24] load64_agree [OF assms(1) e, of 32]
    by (simp_all add: dt_fields sv_at_def)
qed

lemma device_ok_agree:
  assumes ok: "device_ok m kept n" and ag: "agree_on (covered kept) m' m"
  shows "node_name m' n = node_name m n" and "device_tree_get_property m' n name = device_tree_get_property m n name"
    and "\<exists>p. device_tree_get_property m n name = Inr p \<and> usable_reg m' n p = usable_reg m n p"
    and "device_ok m' kept n"
proof -
  have nk: "node_kept m kept n" using ok by (simp add: device_ok_def)
  note K = node_kept_agree [OF nk ag]
  have e: "unat i + k \<le> 72 \<Longrightarrow> extent (n + i) k \<subseteq> covered kept" for i k
    using extent_field [of i k 72 n] nk by (auto simp: node_kept_def)
  show nm: "node_name m' n = node_name m n"
    using load64_agree [OF ag e, of 0] load64_agree [OF ag e, of 8] by (simp add: node_name_def sv_at_def)
  obtain ps where ps: "chain 48 m (properties m n) ps" "\<And>p. p \<in> set ps \<Longrightarrow> extent p 56 \<subseteq> covered kept"
    "\<And>p. p \<in> set ps \<Longrightarrow> view_kept kept (prop_name m p)"
    using ok by (auto simp: device_ok_def)
  have "properties m' n = properties m n" using load64_agree [OF ag e, of 40] by (simp add: properties_def)
  moreover have "chain 48 m' q ps = chain 48 m q ps" for q
  proof (rule chain_agree [OF ag], rule ballI)
    fix p assume "p \<in> set ps"
    have "extent (p + 48) 8 \<subseteq> extent p 56" by (rule extent_field) simp_all
    then show "extent (p + 48) 8 \<subseteq> covered kept" using ps(2) [OF \<open>p \<in> set ps\<close>] by blast
  qed
  ultimately have ch: "chain 48 m' (properties m' n) ps" using ps(1) by simp
  have same: "sv_is m' (prop_name m' p) name = sv_is m (prop_name m p) name" if "p \<in> set ps" for p
    using prop_agree(1) [OF ag ps(2) [OF that]] view_agree(2) [OF ps(3) [OF that] ag] by simp
  have first: "first_or_null (\<lambda>q. sv_is m' (prop_name m' q) name) ps = first_or_null (\<lambda>q. sv_is m (prop_name m q) name) ps"
    by (rule first_or_null_cong [OF same])
  show "device_tree_get_property m' n name = device_tree_get_property m n name"
    using get_property_loop_correct [OF ch] get_property_loop_correct [OF ps(1)] nk first
    by (simp add: device_tree_get_property_def node_kept_def)
  let ?p = "first_or_null (\<lambda>q. sv_is m (prop_name m q) name) ps"
  have "?p = 0 \<or> ?p \<in> set ps" by (rule first_or_null_in)
  moreover have "address_cells m' n = address_cells m n" "size_cells m' n = size_cells m n"
    using load32_agree [OF ag e, of 16] load32_agree [OF ag e, of 20] by (simp_all add: address_cells_def size_cells_def)
  ultimately have "usable_reg m' n ?p = usable_reg m n ?p"
    using prop_agree [OF ag ps(2), of ?p] by (auto simp: usable_reg_def)
  then show "\<exists>p. device_tree_get_property m n name = Inr p \<and> usable_reg m' n p = usable_reg m n p"
    using get_property_loop_correct [OF ps(1)] nk by (simp add: device_tree_get_property_def node_kept_def)
  have "view_kept kept (node_name m n)" using ok by (simp add: device_ok_def)
  then have nb: "sv_bytes m' (node_name m n) = sv_bytes m (node_name m n)" by (rule view_agree(1) [OF _ ag])
  have "\<forall>p \<in> set ps. extent p 56 \<subseteq> covered kept \<and> view_kept kept (prop_name m' p)"
    using ps(2,3) prop_agree(1) [OF ag ps(2)] by simp
  then show "device_ok m' kept n" using ok K(1,2) ch by (auto simp: device_ok_def nm nb)
qed

lemma walking_compatible:
  assumes w: "walking plic kept m0 (k + 4096) s" and ok: "device_ok m0 kept n" and c: "c \<in> set (compatibles m0 n)"
    and V: "is_virtio m0 n \<Longrightarrow> V"
  shows "safely V (init_compatible n plic c s) (walking plic kept m0 k)"
proof -
  have ag: "agree_on (covered kept) (kmem s) m0" using w by (simp add: walking_def)
  have vk: "view_kept kept c" using ok c by (simp add: device_ok_def)
  have w': "walking plic kept m0 k s" using w by (simp add: walking_def)
  obtain reg where reg: "device_tree_get_property (kmem s) n ''reg'' = Inr reg"
    using device_ok_agree(2,3) [OF ok ag, of "''reg''"] by auto
  note P = walking_println [OF w', of "SV ''Failed to initialize the {V} device''" _ V]
    walking_println [OF w', of "SV ''The {V} device's device tree node is malformed.''" _ V]
  have virtio: "safely V (init_virtio_node n reg s) (walking plic kept m0 k)" if "sv_is (kmem s) c ''virtio,mmio''"
  proof -
    have "is_virtio m0 n" using that c view_agree(2) [OF vk ag] by (auto simp: is_virtio_def)
    then show ?thesis using V walking_virtio [OF w, of n reg] by (simp add: safely_def split: sum.splits)
  qed
  show ?thesis
    using walking_uart [OF w, of V n reg] virtio w' P by (simp add: init_compatible_def reg del: SV_def)
qed

lemma walking_device:
  assumes w: "walking plic kept m0 (k + 4096 * length (compatibles m0 n)) s" and ok: "device_ok m0 kept n" and V: "is_virtio m0 n \<Longrightarrow> V"
  shows "safely V (init_device plic n s) (walking plic kept m0 k)"
proof -
  have ag: "agree_on (covered kept) (kmem s) m0" using w by (simp add: walking_def)
  let ?k = "k + 4096 * length (compatibles m0 n)" and ?name = "sv_bytes (kmem s) (node_name (kmem s) n)"
  have "?name = sv_bytes m0 (node_name m0 n)"
    using view_agree(1) [OF _ ag] device_ok_agree(1) [OF ok ag] ok by (simp add: device_ok_def)
  then have p: "printable (kmem s) ?name []" using ok by (intro printable_plain) (simp add: device_ok_def)
  show ?thesis unfolding init_device_def
  proof (rule safely_and_then [OF walking_println [OF w p]])
    fix t assume t: "walking plic kept m0 ?k t"
    then have "agree_on (covered kept) (kmem t) m0" by (simp add: walking_def)
    then have c: "compatibles (kmem t) n = compatibles m0 n" using node_kept_agree(2) [of m0 kept n "kmem t"] ok by (simp add: device_ok_def)
    have "sum_list (map (\<lambda>_. 4096) xs) = 4096 * length xs" for xs :: "str_view list" by (induction xs) simp_all
    then show "safely V (run_all (init_compatible n plic) (compatibles (kmem t) n) t) (walking plic kept m0 k)"
      unfolding c using t walking_compatible [OF _ ok _ V] by (intro safely_run_all [where w = "\<lambda>_. 4096"]) auto
  qed
qed

definition walk_cost :: "mem \<Rightarrow> addr list \<Rightarrow> nat" where
  "walk_cost m ns = 4096 * sum_list (map (\<lambda>n. length (compatibles m n)) ns)"

lemma walking_devices:
  assumes w: "walking plic kept m0 (k + walk_cost m0 ds) s" and ok: "\<And>n. n \<in> set ds \<Longrightarrow> device_ok m0 kept n"
    and V: "\<And>n. n \<in> set ds \<Longrightarrow> is_virtio m0 n \<Longrightarrow> V"
  shows "safely V (run_all (init_device plic) ds s) (walking plic kept m0 k)"
proof (rule safely_run_all [where w = "\<lambda>n. 4096 * length (compatibles m0 n)"])
  have "sum_list (map (\<lambda>n. 4096 * length (compatibles m0 n)) ds) = walk_cost m0 ds" by (simp add: walk_cost_def sum_list_const_mult)
  then show "walking plic kept m0 (k + sum_list (map (\<lambda>n. 4096 * length (compatibles m0 n)) ds)) s" using w by simp
qed (use walking_device ok V in blast)

section \<open>The controller\<close>

lemma plic_driver_init_roomy:
  fixes s :: "'a system_scheme"
  assumes room: "roomy s live" and drv: "drv \<noteq> 0" "extent drv 48 \<subseteq> covered live" and hh: "2 ^ 14 \<le> unat (hhdm_offset s)"
    and fr: "8192 < spare s" and con: "console s"
  shows "\<exists>s'. plic_driver_init drv base hartid s = Inr s' \<and> console s' \<and> spare s \<le> spare s' + 8192"
proof -
  define m1 where "m1 = store64 (store64 (store64 (store64 (store32 (kmem s) drv hartid) (drv + 8)
     (base + PLIC_THRESHOLD + ucast (CONTEXT hartid * 0x1000))) (drv + 16) (base + PLIC_THRESHOLD + ucast (CONTEXT hartid * 0x1000) + 4))
    (drv + 24) (base + PLIC_INTERRUPT_ENABLE + ucast (CONTEXT hartid * 0x80))) (drv + 32) base"
  have "agree_on (- extent drv 48) (store32 (kmem s) drv hartid) (kmem s)"
    using extent_mono [of 4 48 drv] by (intro store32_agree) auto
  then have m1: "agree_on (- extent drv 48) m1 (kmem s)" unfolding m1_def by (intro store_in_struct) simp_all
  have r1: "roomy (s\<lparr>kmem := m1\<rparr>) live" using drv(2) by (intro rpages.kinv_frame [OF room] agree_on_mono [OF m1]) auto
  have n: "ALIGN_UP (8 * 1024 :: u64) PAGE_SIZE = 8192" by (simp add: ALIGN_UP_def)
  have req: "pmm_request_ok (hhdm_offset (s\<lparr>kmem := m1\<rparr>)) 12 (ALIGN_UP (8 * 1024) PAGE_SIZE)"
    unfolding n using hh by (simp add: pmm_request_ok_def)
  obtain al s2 where k: "kalloc (8 * 1024) PAGE_SIZE (s\<lparr>kmem := m1\<rparr>) = Inr (al, s2)"
    using roomy_kalloc [OF r1 req] fr unfolding n by auto
  have "allocator_only (s\<lparr>kmem := m1\<rparr>) s2" by (rule kalloc_only [OF k])
  then have "console s2" using con by (auto simp: allocator_only_def console_def print_buf_ok_def)
  moreover have "spare s \<le> spare s2 + 8192"
    using spare_kalloc [OF roomy_kvspace [OF r1] req k] unfolding n by simp
  ultimately show ?thesis using drv(1) k unfolding plic_driver_init_def m1_def
    by (auto simp: Let_def set64_def set32_def get64_def plic_threshold_def mmio_write32_def record_io_def console_def print_buf_ok_def)
qed

lemma register_controller_runs:
  assumes arena: "arena_in roomy (driver_node_arena s) s [] kept"
    and bs: "block_size (driver_node_arena s) = 64" "auto_refill (driver_node_arena s)"
    and hh: "2 ^ 14 \<le> unat (hhdm_offset s)" and con: "console s" and fr: "k + 12288 < spare s"
  shows "\<exists>s'. register_controller base hart s = Inr s' \<and> console s' \<and> k < spare s'"
proof -
  have b6: "block_size (driver_node_arena s) = 2 ^ 6" using bs by simp
  have f4: "4096 < spare s" using fr by linarith
  obtain n a t where al: "slab_allocate kalloc (driver_node_arena s) s = Inr (n, a, t)" and n: "n \<noteq> 0"
    and t: "arena_in roomy a t [(n, 64)] kept" "spare s \<le> spare t + 4096" "hhdm_offset t = hhdm_offset s"
    using arena_allocates [OF arena b6 _ _ bs(2) f4] by auto
  have ac: "allocator_only s t" by (rule slab_allocate_only [OF kalloc_only al])
  obtain pages where pg: "roomy t (pages @ kept)" and sub: "extent n 64 \<subseteq> covered pages" using t(1) by (auto simp: arena_in_def)
  then have z: "0 \<notin> extent n 64" by (auto simp: roomy_def)
  have nz: "n + 16 \<noteq> 0"
  proof
    assume "n + 16 = 0"
    then have "0 - n = 16" by (metis add_diff_cancel_left')
    then show False using z by (simp add: mem_extent)
  qed
  let ?t = "set32 (n + 8) (device_type_value DEVICE_TYPE_PLIC) (t\<lparr>driver_node_arena := a\<rparr>)"
  have ft: "agree_on (- extent n 64) (kmem ?t) (kmem t)" using extent_field [of 8 4 64 n] by (simp, intro store32_agree) auto
  have "roomy (t\<lparr>kmem := kmem ?t\<rparr>) (pages @ kept)" using sub by (intro rpages.kinv_frame [OF pg] agree_on_mono [OF ft]) auto
  then have r: "roomy ?t (pages @ kept)" using roomy_same [of "t\<lparr>kmem := kmem ?t\<rparr>" ?t "pages @ kept"] by (simp add: manager_same_def set32_def)
  have e: "extent (n + 16) 48 \<subseteq> covered (pages @ kept)" using sub extent_field [of 16 48 64 n] by auto
  have h: "2 ^ 14 \<le> unat (hhdm_offset ?t)" "8192 < spare ?t" "console ?t"
    using hh t(2,3) fr con ac by (auto simp: set32_def allocator_only_def console_def print_buf_ok_def)
  obtain s2 where "plic_driver_init (n + 16) base hart ?t = Inr s2" "console s2" "spare ?t \<le> spare s2 + 8192"
    using plic_driver_init_roomy [OF r nz e h] by blast
  moreover have "spare ?t = spare t" by (simp add: set32_def)
  ultimately show ?thesis using al n t(2) fr
    by (auto simp: register_controller_def driver_node_alloc_def Let_def set64_def console_def print_buf_ok_def)
qed

lemma devices_init_map_runs:
  assumes room: "roomy s kept" and con: "console s" and fr: "k + 4096 < spare s"
  shows "\<exists>s'. devices_init_map s = Inr s' \<and> console s' \<and> k < spare s'"
proof -
  let ?s0 = "s\<lparr>drivers := 0, driver_count := 0, driver_node_arena := slab_autorefill_init sizeof_driver_node\<rparr>"
  have r0: "roomy ?s0 kept" using roomy_same [of s ?s0 kept] room by (simp add: manager_same_def)
  have n: "unat (ALIGN_UP PAGE_SIZE PAGE_SIZE) = 4096" by (simp add: ALIGN_UP_def)
  obtain al u where k: "kalloc PAGE_SIZE PAGE_SIZE ?s0 = Inr (al, u)"
    using roomy_kalloc [OF r0 page_request [OF r0]] fr by (auto simp: n)
  have "allocator_only ?s0 u" by (rule kalloc_only [OF k])
  moreover have "spare s \<le> spare u + 4096"
    using spare_kalloc [OF roomy_kvspace [OF r0] page_request [OF r0] k] by (simp add: n)
  ultimately show ?thesis using k con fr by (auto simp: devices_init_map_def Let_def allocator_only_def console_def print_buf_ok_def)
qed

lemma device_ok_mono: "device_ok m kept n \<Longrightarrow> covered kept \<subseteq> covered kept' \<Longrightarrow> device_ok m kept' n"
  unfolding device_ok_def node_kept_def view_kept_def by blast

lemma is_virtio_agree: "device_ok m kept n \<Longrightarrow> agree_on (covered kept) m' m \<Longrightarrow> is_virtio m' n = is_virtio m n"
  using node_kept_agree(2) [of m kept n m'] view_agree(2) [of kept _ m' m] by (auto simp: is_virtio_def device_ok_def)

section \<open>The whole initialisation\<close>

text \<open>The tree the parser leaves: its root at \<open>root\<close>, every node well formed in blocks that are kept.\<close>

definition device_tree_ok :: "(addr \<times> nat) list \<Rightarrow> forest \<Rightarrow> 'a system_scheme \<Rightarrow> bool" where
  "device_tree_ok kept f s \<longleftrightarrow> (\<exists>root cs. f = Node root cs Nil_forest) \<and> forest_at (kmem s) (root_node (dt s)) f \<and>
     (\<forall>n \<in> set (preorder f). device_ok (kmem s) kept n)"

definition plic_node :: "mem \<Rightarrow> forest \<Rightarrow> addr" where
  "plic_node m f = first_or_null (\<lambda>n. list_ex (\<lambda>c. sv_is m c ''riscv,plic0'') (compatibles m n)) (preorder f)"

text \<open>The controller's node is in the tree and has a \<^verbatim>\<open>reg\<close> property of the shape the code accepts.\<close>

definition plic_usable :: "mem \<Rightarrow> forest \<Rightarrow> bool" where
  "plic_usable m f \<longleftrightarrow> plic_node m f \<noteq> 0 \<and>
     (case device_tree_get_property m (plic_node m f) ''reg'' of Inl h \<Rightarrow> False | Inr reg \<Rightarrow> usable_reg m (plic_node m f) reg)"

lemma device_tree_agree:
  assumes ok: "device_tree_ok kept f s" and ag: "agree_on (covered kept) (kmem t) (kmem s)" and d: "dt t = dt s"
    and sub: "covered kept \<subseteq> covered kept'"
  shows "device_tree_ok kept' f t" and "plic_usable (kmem t) f = plic_usable (kmem s) f" and "walk_cost (kmem t) (preorder f) = walk_cost (kmem s) (preorder f)"
    and "n \<in> set (preorder f) \<Longrightarrow> is_virtio (kmem t) n = is_virtio (kmem s) n"
proof -
  have n: "device_ok (kmem s) kept n" if "n \<in> set (preorder f)" for n using ok that by (simp add: device_tree_ok_def)
  have nk: "node_kept (kmem s) kept n" if "n \<in> set (preorder f)" for n using n [OF that] by (simp add: device_ok_def)
  have c: "compatibles (kmem t) n = compatibles (kmem s) n" if "n \<in> set (preorder f)" for n by (rule node_kept_agree(2) [OF nk [OF that] ag])
  have "(\<Union>q \<in> set (preorder f). extent q 72) \<subseteq> covered kept" using nk by (fastforce simp: node_kept_def)
  then have fo: "forest_at (kmem t) (root_node (dt t)) f"
    using ok forest_agree [OF _ agree_on_mono [OF ag]] by (auto simp: device_tree_ok_def d)
  then show "device_tree_ok kept' f t"
    using ok device_ok_agree(4) [OF n ag] device_ok_mono [OF _ sub] by (auto simp: device_tree_ok_def)
  show "walk_cost (kmem t) (preorder f) = walk_cost (kmem s) (preorder f)"
    unfolding walk_cost_def using c by (metis (mono_tags, lifting) map_cong)
  show "n \<in> set (preorder f) \<Longrightarrow> is_virtio (kmem t) n = is_virtio (kmem s) n" using is_virtio_agree [OF n ag] by blast
  have "list_ex (\<lambda>c. sv_is (kmem t) c l) (compatibles (kmem t) n) = list_ex (\<lambda>c. sv_is (kmem s) c l) (compatibles (kmem s) n)"
    if "n \<in> set (preorder f)" for n l
  proof -
    have "sv_is (kmem t) x l = sv_is (kmem s) x l" if "x \<in> set (compatibles (kmem s) n)" for x
      using n [OF \<open>n \<in> set (preorder f)\<close>] that by (intro view_agree(2) [OF _ ag]) (simp add: device_ok_def)
    then show ?thesis by (simp add: c [OF that] list_ex_iff)
  qed
  then have p: "plic_node (kmem t) f = plic_node (kmem s) f"
    unfolding plic_node_def by (intro first_or_null_cong) simp
  have "plic_node (kmem s) f = 0 \<or> plic_node (kmem s) f \<in> set (preorder f)"
    unfolding plic_node_def by (rule first_or_null_in)
  then show "plic_usable (kmem t) f = plic_usable (kmem s) f"
    using device_ok_agree(2,3) [OF n ag, of "plic_node (kmem s) f" "''reg''"] by (auto simp: plic_usable_def p)
qed

lemma plic_node_found:
  assumes "device_tree_ok kept f s"
  shows "dt_node_from_compatible ''riscv,plic0'' s = Inr (plic_node (kmem s) f)"
  using assms dt_node_from_compatible_recursive_correct [of "kmem s" "root_node (dt s)" f "''riscv,plic0''"]
  by (auto simp: dt_node_from_compatible_def device_tree_ok_def plic_node_def)

lemma plain_formats [simp]:
  "123 \<notin> set (SV ''No PLIC found in device tree.'')"
  "123 \<notin> set (SV ''Problem with `riscv,plic0` device's `reg` property.'')"
  by (simp_all add: SV_def)

lemma panic_safely: "console s \<Longrightarrow> chr CHR ''{'' \<notin> set fmt \<Longrightarrow> V \<Longrightarrow> safely V (panic fmt args s) P"
  unfolding panic_def using console_string [of s "SV ''[Kernel Panic]:''"]
  by (auto simp del: SV_def intro!: safely_println printable_plain)

text \<open>A usable console and free memory left.\<close>

definition ready :: "nat \<Rightarrow> 'a kernel_scheme \<Rightarrow> bool" where
  "ready k s \<longleftrightarrow> console s \<and> k < spare s"

lemma walk_safely:
  assumes w: "walking plic kept m0 (k + walk_cost m0 (preorder f)) s" and tree: "device_tree_ok kept f s" and m0: "m0 = kmem s"
  shows "safely (\<exists>n \<in> set (preorder f). is_virtio m0 n) (devices_recursive_initialize (root_node (dt s)) plic s) (ready k)"
proof -
  obtain root cs where f: "f = Node root cs Nil_forest" using tree by (auto simp: device_tree_ok_def)
  have ok: "device_ok (kmem s) kept n" if "n \<in> set (preorder f)" for n using tree that by (simp add: device_tree_ok_def)
  have at: "root_node (dt s) = root" "forest_at (kmem s) (children (kmem s) root) cs" using tree by (simp_all add: device_tree_ok_def f)
  obtain ns where inv: "registry_inv roomy plic s ns kept" using w by (auto simp: walking_def)
  have nk: "node_kept (kmem s) kept n" if "n \<in> set (preorder f)" for n using ok [OF that] by (simp add: device_ok_def)
  have e: "devices_recursive_initialize root plic s = run_all (init_device plic) (preorder f) s"
    using rmanager.devices_walk [OF inv nk [of root] at(2) nk] by (simp add: f)
  show ?thesis unfolding at(1) e
    by (rule safely_mono [OF walking_devices [OF w]]) (use ok m0 in \<open>auto simp: walking_def ready_def\<close>)
qed

lemma devices_init_safely:
  assumes room: "roomy s kept" and con: "console s" and hh: "2 ^ 14 \<le> unat (hhdm_offset s)" and hart: "hart < 512"
    and fn: "fn_uart_handle_interrupt s \<noteq> 0" and tree: "device_tree_ok kept f s"
    and fr: "16384 + walk_cost (kmem s) (preorder f) + k < spare s"
  shows "safely (\<not> plic_usable (kmem s) f \<or> (\<exists>n \<in> set (preorder f). is_virtio (kmem s) n)) (devices_init hart s) (ready k)"
    (is "safely ?V _ _")
proof -
  let ?cost = "k + walk_cost (kmem s) (preorder f)"
  have fr0: "(12288 + ?cost) + 4096 < spare s" using fr by simp
  obtain s1 where m: "devices_init_map s = Inr s1" and c1: "console s1" "12288 + ?cost < spare s1"
    using devices_init_map_runs [OF room con fr0] by blast
  note M = rmanager.devices_init_map_correct [OF room m]
  let ?map = "hart_plic_map s1" and ?kept = "(hart_plic_map s1, 4096) # kept"
  note T1 = device_tree_agree [OF tree M(5,10), of ?kept]
  have t1: "device_tree_ok ?kept f s1" using T1(1) by auto
  let ?p = "plic_node (kmem s1) f"
  note found = plic_node_found [OF t1]
  show ?thesis
  proof (cases "?p = 0")
    case True
    then have "\<not> plic_usable (kmem s) f" using T1(2) by (auto simp: plic_usable_def)
    then show ?thesis using panic_safely [OF c1(1), of "SV ''No PLIC found in device tree.''" ?V]
      by (simp add: devices_init_def m found True)
  next
    case False
    then have "?p \<in> set (preorder f)" using first_or_null_in unfolding plic_node_def by metis
    then have "device_ok (kmem s1) ?kept ?p" using t1 by (simp add: device_tree_ok_def)
    from device_ok_agree(3) [OF this agree_on_refl] obtain reg where reg: "device_tree_get_property (kmem s1) ?p ''reg'' = Inr reg" by blast
    then have u: "plic_usable (kmem s) f = usable_reg (kmem s1) ?p reg" using T1(2) False by (auto simp: plic_usable_def)
    show ?thesis
    proof (cases "usable_reg (kmem s1) ?p reg")
      case False
      then show ?thesis using panic_safely [OF c1(1), of "SV ''Problem with `riscv,plic0` device's `reg` property.''" ?V] u \<open>?p \<noteq> 0\<close>
        by (simp add: devices_init_def m found reg)
    next
      case True
      let ?pa = "get64 (reg_addresses (kmem s1) reg) s1"
      obtain s2 where p: "kprintln (SV ''Found PLIC at physical address {X}'') [?pa] s1 = Inr s2" "console s2" "machine_only s1 s2" "kmem s2 = kmem s1"
        using console_println [OF c1(1) formats(8)] by blast
      have ks: "kernel_same s1 s2" "keeps_drivers s1 s2" by (rule machine_only_same [OF p(3)], rule machine_only_keeps [OF p(3)])
      have a2: "driver_node_arena s2 = slab_autorefill_init sizeof_driver_node" using ks(1) M(2) by (simp add: same_defs)
      have arena: "arena_in roomy (driver_node_arena s2) s2 [] ?kept"
        unfolding a2 M(2) [symmetric] by (rule rmanager.arena_same [OF ks(1) M(1)]) (simp add: p(4))
      have bs: "block_size (driver_node_arena s2) = 64" "auto_refill (driver_node_arena s2)"
        by (simp_all add: a2 slab_autorefill_init_def SLAB_BLOCK_SIZE_def sizeof_driver_node_def)
      have k2: "drivers s2 = 0" "driver_count s2 = 0" "fn_uart_handle_interrupt s2 \<noteq> 0" "hart_plic_map s2 = ?map"
        "2 ^ 14 \<le> unat (hhdm_offset s2)" "?cost + 12288 < spare s2" "dt s2 = dt s"
        using ks M(3,4,8-10) fn hh c1(2) machine_only_room(2) [OF p(3)] by (simp_all add: keeps_defs same_defs)
      let ?slot = "extent (?map + 8 * ucast hart) 8"
      have sl: "?slot \<subseteq> extent ?map 4096" by (rule hart_slot [OF hart])
      then have slot: "extent (hart_plic_map s2 + 8 * ucast hart) 8 \<subseteq> covered ?kept" by (auto simp: k2(4))
      obtain s3 where r: "register_controller (kernel_hhdm_phys_to_virt ?pa s2) hart s2 = Inr s3" "console s3" "?cost < spare s3"
        using register_controller_runs [OF arena bs k2(5) p(2) k2(6)] by blast
      obtain n where R: "registry_inv roomy (n + 16) s3 [n] ?kept"
        "agree_on (covered ?kept - ?slot) (kmem s3) (kmem s2)" "get64 (?map + 8 * ucast hart) s3 = n + 16" "keeps_maps s2 s3"
        using rmanager.register_controller_correct [OF arena bs k2(5,1-3) slot r(1)] by (auto simp: k2(4))
      have "extent ?map 4096 \<inter> covered kept = {}"
        using rpages.arena_apart [OF arena] all_apart_covered_hd [of "(?map, 4096)" kept] by simp
      then have ag3: "agree_on (covered kept) (kmem s3) (kmem s)"
        using sl agree_on_trans [OF agree_on_mono [OF R(2)] M(5) [folded p(4)]] by auto
      have d3: "dt s3 = dt s" "hart_plic_map s3 = ?map" using R(4) k2(4,7) by (simp_all add: keeps_maps_def)
      note T3 = device_tree_agree [OF tree ag3 d3(1), of ?kept]
      have t3: "device_tree_ok ?kept f s3" using T3(1) by auto
      have "walking (n + 16) ?kept (kmem s3) (k + walk_cost (kmem s3) (preorder f)) s3"
        using R(1) r(2,3) T3(3) by (auto simp: walking_def)
      from walk_safely [OF this t3 refl] have "safely ?V (devices_recursive_initialize (root_node (dt s3)) (n + 16) s3) (ready k)"
        using T3(4) by (auto simp: safely_def split: sum.splits)
      then show ?thesis using True \<open>?p \<noteq> 0\<close> p(1) r(1) R(3) d3
        by (simp add: devices_init_def m found reg)
    qed
  qed
qed

end
