(* ===== verification/Booted.thy ===== *)
theory Booted
  imports Device_Runs
begin

text \<open>
  What holds of the device registry once \<^verbatim>\<open>devices_init\<close> has returned, with a concrete device tree
  for which it does.
\<close>

section \<open>A concrete device tree\<close>

text \<open>
  A root that is the interrupt controller, and one child, a UART; both have the same \<^verbatim>\<open>reg\<close> property,
  one pair of two cells each.
\<close>

definition tree_text :: mem where
  "tree_text = store_bytes (\<lambda>_. 0) 0x20700 (SV ''riscv,plic0ns16550areg'')"

definition tree_memory :: mem where
  "tree_memory =
     (let m = tree_text;
          m = store64 (store64 (store64 (store64 m 0x20600 0x20700) 0x20608 11) 0x20610 0x2070B) 0x20618 8;
          m = store64 (store64 m 0x20200 0x20713) 0x20208 3;
          m = store64 (store64 (store64 (store32 m 0x20210 5) 0x20218 1) 0x20220 0x20300) 0x20228 0x20308;
          m = store64 (store64 m 0x20300 0x0C000000) 0x20308 0x1000;
          m = store32 (store32 (store64 m 0x20000 0x20400) 0x20010 2) 0x20014 2;
          m = store64 (store64 (store64 (store64 m 0x20018 0x20600) 0x20020 1) 0x20028 0x20200) 0x20038 0x20080;
          m = store32 (store32 (store64 m 0x20080 0x20400) 0x20090 2) 0x20094 2
      in store64 (store64 (store64 m 0x20098 0x20610) 0x200A0 1) 0x200A8 0x20200)"

lemma tree_text_blank: "22 \<le> unat (a - 0x20700) \<Longrightarrow> 8 \<le> unat (0x20700 - a) \<Longrightarrow> load64 tree_text a = 0"
proof (rule load64_zero, rule ballI)
  fix x assume a: "22 \<le> unat (a - 0x20700)" "8 \<le> unat (0x20700 - a)" and x: "x \<in> extent a 8"
  have "extent a 8 \<inter> extent 0x20700 22 = {}" using a by (simp add: extent_disjoint_iff)
  then have "x \<notin> extent 0x20700 22" using x by blast
  then show "tree_text x = 0" by (simp add: tree_text_def store_bytes_def SV_def mem_extent)
qed

definition demo_tree :: forest where
  "demo_tree = Node 0x20000 (Node 0x20080 Nil_forest Nil_forest) Nil_forest"

lemma tree_fields:
  "children tree_memory 0x20000 = 0x20080" "sibling tree_memory 0x20000 = 0" "children tree_memory 0x20080 = 0" "sibling tree_memory 0x20080 = 0"
  "compatible tree_memory 0x20000 = 0x20600" "compatible_count tree_memory 0x20000 = 1"
  "compatible tree_memory 0x20080 = 0x20610" "compatible_count tree_memory 0x20080 = 1"
  "properties tree_memory 0x20000 = 0x20200" "properties tree_memory 0x20080 = 0x20200" "next_prop tree_memory 0x20200 = 0"
  "node_name tree_memory 0x20000 = \<lparr>sv_data = 0x20400, sv_size = 0\<rparr>" "node_name tree_memory 0x20080 = \<lparr>sv_data = 0x20400, sv_size = 0\<rparr>"
  "prop_name tree_memory 0x20200 = \<lparr>sv_data = 0x20713, sv_size = 3\<rparr>"
  by (simp_all add: tree_memory_def Let_def dt_fields sv_at_def mem_simps tree_text_blank)

lemma tree_reg:
  "prop_type tree_memory 0x20200 = 5" "reg_n_pairs tree_memory 0x20200 = 1" "reg_addresses tree_memory 0x20200 = 0x20300"
  "load64 tree_memory 0x20300 = 0x0C000000"
  "address_cells tree_memory 0x20000 = 2" "size_cells tree_memory 0x20000 = 2" "address_cells tree_memory 0x20080 = 2" "size_cells tree_memory 0x20080 = 2"
  by (simp_all add: tree_memory_def Let_def dt_fields mem_simps)

lemma tree_compatibles:
  "compatibles tree_memory 0x20000 = [\<lparr>sv_data = 0x20700, sv_size = 11\<rparr>]"
  "compatibles tree_memory 0x20080 = [\<lparr>sv_data = 0x2070B, sv_size = 8\<rparr>]"
  by (simp_all add: compatibles_def tree_fields) (simp_all add: tree_memory_def Let_def sv_at_def mem_simps)

lemma agree_stores:
  "agree_on A m m0 \<Longrightarrow> A \<inter> extent a 8 = {} \<Longrightarrow> agree_on A (store64 m a v) m0"
  "agree_on A m m0 \<Longrightarrow> A \<inter> extent a 4 = {} \<Longrightarrow> agree_on A (store32 m a w) m0"
  by (blast intro: agree_on_trans store64_agree, blast intro: agree_on_trans store32_agree)

lemma tree_bytes:
  "sv_bytes tree_memory \<lparr>sv_data = 0x20700, sv_size = 11\<rparr> = SV ''riscv,plic0''"
  "sv_bytes tree_memory \<lparr>sv_data = 0x2070B, sv_size = 8\<rparr> = SV ''ns16550a''"
  "sv_bytes tree_memory \<lparr>sv_data = 0x20713, sv_size = 3\<rparr> = SV ''reg''"
proof -
  have ag: "agree_on (extent 0x20700 22) tree_memory tree_text"
    unfolding tree_memory_def Let_def by (intro agree_stores agree_on_refl) (simp_all add: extent_disjoint_iff)
  have load: "load_bytes tree_memory (0x20700 + k) n = load_bytes tree_text (0x20700 + k) n" if "unat k + n \<le> 22" for k n
    using that by (intro load_bytes_agree agree_on_mono [OF ag] extent_field) simp_all
  have t: "load_bytes tree_text 0x20700 11 = SV ''riscv,plic0''" "load_bytes tree_text 0x2070B 8 = SV ''ns16550a''"
    "load_bytes tree_text 0x20713 3 = SV ''reg''"
    by (simp_all add: load_bytes_def upt_rec tree_text_def store_bytes_def SV_def)
  show "sv_bytes tree_memory \<lparr>sv_data = 0x20700, sv_size = 11\<rparr> = SV ''riscv,plic0''"
    "sv_bytes tree_memory \<lparr>sv_data = 0x2070B, sv_size = 8\<rparr> = SV ''ns16550a''"
    "sv_bytes tree_memory \<lparr>sv_data = 0x20713, sv_size = 3\<rparr> = SV ''reg''"
    using load [of 0 11] load [of 11 8] load [of 19 3] by (simp_all add: sv_bytes_def t del: SV_def)
qed

text \<open>The page that holds the tree, in a state whose tree it is.\<close>

lemma demo_tree_ok:
  assumes "kmem s = tree_memory" and "root_node (dt s) = 0x20000"
  shows "device_tree_ok [(0x20000, 0x1000)] demo_tree s" and "plic_usable (kmem s) demo_tree"
    and "walk_cost (kmem s) (preorder demo_tree) = 8192" and "n \<in> set (preorder demo_tree) \<Longrightarrow> \<not> is_virtio (kmem s) n"
proof -
  let ?kept = "[(0x20000, 0x1000)] :: (addr \<times> nat) list"
  have e: "extent (0x20000 + k) n \<subseteq> covered ?kept" if "unat k + n \<le> 0x1000" for k n
    using extent_field [of k n "0x1000" "0x20000"] that by simp
  have "chain 48 tree_memory 0x20200 [0x20200]" using tree_fields(11) by (simp add: chain_Cons next_prop_def)
  moreover have "extent 0x20200 56 \<subseteq> covered ?kept" using e [where k = "0x200" and n = 56] by simp
  moreover have "view_kept ?kept \<lparr>sv_data = 0x20713, sv_size = 3\<rparr>" using e [where k = "0x713" and n = 3] by (simp add: view_kept_def)
  ultimately have ps: "\<exists>ps. chain 48 tree_memory 0x20200 ps \<and> (\<forall>p \<in> set ps. extent p 56 \<subseteq> covered ?kept \<and> view_kept ?kept (prop_name tree_memory p))"
    by (intro exI [of _ "[0x20200]"]) (simp add: tree_fields)
  have v: "view_kept ?kept \<lparr>sv_data = 0x20400, sv_size = 0\<rparr>" "view_kept ?kept \<lparr>sv_data = 0x20700, sv_size = 11\<rparr>"
    "view_kept ?kept \<lparr>sv_data = 0x2070B, sv_size = 8\<rparr>"
    using e [where k = "0x400" and n = 0] e [where k = "0x700" and n = 11] e [where k = "0x70B" and n = 8] by (simp_all add: view_kept_def)
  have "device_ok tree_memory ?kept 0x20000"
    using e [where k = 0 and n = 72] e [where k = "0x600" and n = 16] v ps by (simp add: device_ok_def node_kept_def tree_fields tree_compatibles sv_bytes_def load_bytes_def)
  moreover have "device_ok tree_memory ?kept 0x20080"
    using e [where k = "0x80" and n = 72] e [where k = "0x610" and n = 16] v ps by (simp add: device_ok_def node_kept_def tree_fields tree_compatibles sv_bytes_def load_bytes_def)
  ultimately show "device_tree_ok ?kept demo_tree s"
    by (simp add: device_tree_ok_def demo_tree_def assms tree_fields)
  show "walk_cost (kmem s) (preorder demo_tree) = 8192" by (simp add: walk_cost_def demo_tree_def assms tree_compatibles)
  show "n \<in> set (preorder demo_tree) \<Longrightarrow> \<not> is_virtio (kmem s) n"
    by (auto simp: is_virtio_def demo_tree_def assms tree_compatibles sv_is_def tree_bytes) (simp_all add: SV_def)
  have "plic_node tree_memory demo_tree = 0x20000" by (simp add: plic_node_def demo_tree_def tree_compatibles sv_is_def tree_bytes)
  moreover have "device_tree_get_property tree_memory 0x20000 ''reg'' = Inr 0x20200"
    using get_property_loop_correct [of tree_memory "0x20200" "[0x20200]" "''reg''"] tree_fields(11)
    by (simp add: device_tree_get_property_def chain_Cons next_prop_def tree_fields sv_is_def tree_bytes)
  ultimately show "plic_usable (kmem s) demo_tree" by (simp add: plic_usable_def assms usable_reg_def tree_reg)
qed

abbreviation demo_page :: "(addr \<times> nat) list" where "demo_page \<equiv> [(0x20000, 0x1000)]"

text \<open>The system of that tree, with an empty root page table and its trap frame in the tree's page.\<close>

abbreviation demo_tables :: "(addr \<times> nat) list" where "demo_tables \<equiv> [(0x30000, 4096)]"

definition demo_system :: "kernel \<Rightarrow> system" where
  "demo_system k = (idle_system k)\<lparr>
     kmem := (\<lambda>x. if x \<in> extent 0x20000 0x1000 then tree_memory x else if x \<in> extent 0x30000 4096 then 0 else kmem k x),
     put := Some Uart_put_char, print_buf := replicate 67 0, dt := (dt (idle_system k))\<lparr>root_node := 0x20000\<rparr>,
     kernel_trap_frame := 0x20800, kernel_page_table := 0x30000\<rparr>"

lemma demo_system_fields:
  "root_node (dt (demo_system k)) = 0x20000" "put (demo_system k) = Some Uart_put_char" "kernel_trap_frame (demo_system k) = 0x20800"
  "kernel_page_table (demo_system k) = 0x30000" "bsp_hartid (pinfo (demo_system k)) = 0" "fn_uart_handle_interrupt (demo_system k) \<noteq> 0"
  "hhdm_offset (demo_system k) = hhdm_offset k" "spare (demo_system k) = spare k" "console (demo_system k)"
  by (simp_all add: demo_system_def spare_def console_def print_buf_ok_def) (simp add: idle_system_def kernel.extend_def)

lemma roomy_idle: "roomy (idle_system k) live = roomy k live"
  by (simp add: roomy_def one_each_def kvspace_inv_def pmm_inv_def)

lemma demo_booted:
  obtains s :: system where "roomy s (demo_tables @ demo_page)" and "console s" and "hhdm_offset s = 0xFFFFFFC000000000"
    and "fn_uart_handle_interrupt s \<noteq> 0" and "device_tree_ok demo_page demo_tree s" and "plic_usable (kmem s) demo_tree"
    and "walk_cost (kmem s) (preorder demo_tree) = 8192" and "\<forall>n \<in> set (preorder demo_tree). \<not> is_virtio (kmem s) n" and "spare s = 0x380000"
    and "agree_on (covered demo_page) (kmem s) tree_memory" and "kmem s ` extent 0x30000 4096 \<subseteq> {0}"
    and "kernel_trap_frame s = 0x20800" and "kernel_page_table s = 0x30000" and "bsp_hartid (pinfo s) = 0"
proof -
  obtain k :: kernel where k: "roomy k (demo_tables @ demo_page)" "hhdm_offset k = 0xFFFFFFC000000000" "spare k = 0x380000"
    by (rule roomy_boot [of "demo_tables @ demo_page"]) (simp_all add: apart_pair extent_disjoint_iff mem_extent)
  let ?s = "demo_system k"
  let ?k = "k\<lparr>kmem := kmem ?s\<rparr>"
  have ag: "agree_on (covered demo_page) (kmem ?s) tree_memory" by (simp add: demo_system_def agree_on_def)
  have "extent 0x20000 0x1000 \<inter> extent 0x30000 4096 = {}" by (simp add: extent_disjoint_iff)
  then have z: "kmem ?s ` extent 0x30000 4096 \<subseteq> {0}" by (auto simp: demo_system_def)
  have "roomy ?k (demo_tables @ demo_page)" by (rule rpages.kinv_frame [OF k(1)]) (simp add: agree_on_def demo_system_def)
  then have r: "roomy (idle_system ?k) (demo_tables @ demo_page)" by (simp only: roomy_idle)
  have same: "manager_same (idle_system ?k) ?s" "kmem ?s = kmem (idle_system ?k)" by (simp_all add: manager_same_def demo_system_def)
  have room: "roomy ?s (demo_tables @ demo_page)" using r unfolding roomy_same [OF same] .
  let ?t = "?s\<lparr>kmem := tree_memory\<rparr>"
  have t: "kmem ?t = tree_memory" "root_node (dt ?t) = 0x20000" by (simp_all add: demo_system_fields)
  note T = demo_tree_ok [OF t]
  note A = device_tree_agree [OF T(1), of ?s demo_page]
  have "device_tree_ok demo_page demo_tree ?s" "plic_usable (kmem ?s) demo_tree" "walk_cost (kmem ?s) (preorder demo_tree) = 8192"
    "\<forall>n \<in> set (preorder demo_tree). \<not> is_virtio (kmem ?s) n" using ag A T by simp_all
  then show thesis using that [of ?s] room ag z k(2,3) by (simp add: demo_system_fields)
qed

lemma demo_runs:
  obtains s s' :: system where "roomy s demo_page" and "device_tree_ok demo_page demo_tree s" and "2 ^ 14 \<le> unat (hhdm_offset s)"
    and "fn_uart_handle_interrupt s \<noteq> 0" and "devices_init 0 s = Inr s'" and "ready 0x100000 s'" and "agree_on (covered demo_page) (kmem s) tree_memory"
proof -
  obtain s :: system where s: "roomy s (demo_tables @ demo_page)" "console s" "hhdm_offset s = 0xFFFFFFC000000000" "fn_uart_handle_interrupt s \<noteq> 0"
    "device_tree_ok demo_page demo_tree s" "plic_usable (kmem s) demo_tree" "walk_cost (kmem s) (preorder demo_tree) = 8192"
    "\<forall>n \<in> set (preorder demo_tree). \<not> is_virtio (kmem s) n" "spare s = 0x380000" "agree_on (covered demo_page) (kmem s) tree_memory"
    by (rule demo_booted)
  have r: "roomy s demo_page" using roomy_drop s(1) by simp
  have hh: "2 ^ 14 \<le> unat (hhdm_offset s)" by (simp add: s(3))
  have fr: "16384 + walk_cost (kmem s) (preorder demo_tree) + 0x100000 < spare s" by (simp add: s(7,9))
  have "(0 :: u32) < 512" by simp
  from devices_init_safely [OF r s(2) hh this s(4,5) fr] obtain s' where "devices_init 0 s = Inr s'" "ready 0x100000 s'"
    using s(6,8) by (auto simp: safely_def split: sum.splits)
  then show thesis using that s r hh by blast
qed

section \<open>The accesses that set up a UART\<close>

text \<open>The accesses that set up a UART: its interrupts are switched on, and number 10 is enabled, at priority 1.\<close>

definition uart_setup_trace :: "addr \<Rightarrow> addr \<Rightarrow> 'a system_scheme \<Rightarrow> io_event list" where
  "uart_setup_trace plic base s =
     [Write8 (base + 1) 0x01, Read32 (plic_enable plic s) (input 1 s), Write32 (plic_enable plic s) (input 1 s OR push_bit 10 1),
      Write32 (plic_priority plic s + 40) 1]"

definition uart_report :: "u64 \<Rightarrow> u8 list" where
  "uart_report pa = SV ''Initialized a UART device at '' @ int_prefix 16 @ int_digits 16 pa @ [10]"

lemma uart_node_accesses:
  fixes s1 :: "'a system_scheme"
  assumes u: "uart_driver_init (n + 16) base s1 = Inr s2" and e: "plic_driver_enable_int plic 10 1 (n + 8) s2 = Inr s3"
    and pr: "kprintln (SV ''Initialized a UART device at {X}'') [pa] (register_driver n DEVICE_TYPE_UART s3) = Inr s'"
    and lay: "plic_layout plic s1" and pl: "extent plic 48 \<inter> extent n 64 = {}" and con: "console s1"
  shows "io_events s' = io_events s1 @ uart_setup_trace plic base s1 @ map (Write8 (uart_base_address s1)) (uart_report pa)"
proof -
  note U = uart_driver_init_eq [OF u]
  have s2: "s2 = s1\<lparr>kmem := kmem s2, io_events := io_events s1 @ [Write8 (base + 1) 1]\<rparr>"
  proof -
    have "uart_base (n + 16) (set64 (n + 16 + 8) (fn_uart_handle_interrupt (set64 (n + 16) base s1)) (set64 (n + 16) base s1)) = base"
      by (simp add: uart_base_def get64_def, subst load64_store64_other; simp)
    then show ?thesis using u by (auto simp: uart_driver_init_def deref_eq_Inr Let_def io_defs record_io_def set64_def)
  qed
  have "n + 16 + 8 = n + 24" by simp
  then have "agree_on (- extent n 64) (kmem s2) (kmem s1)" using U(1) by (simp only:) (intro store_in_struct; simp)
  then have ag: "agree_on (extent plic 48) (kmem s2) (kmem s1)" using pl by (auto intro: agree_on_mono)
  have f: "get64 (plic + k) s2 = get64 (plic + k) s1" if "unat k + 8 \<le> 48" for k
    unfolding get64_def using extent_field [OF that, of plic] by (intro load64_agree [OF ag]) simp
  have p: "plic_enable plic s2 = plic_enable plic s1" "plic_priority plic s2 = plic_priority plic s1" "plic_driver_map plic s2 = plic_driver_map plic s1"
    using f by (simp_all add: plic_fields)
  have lay2: "plic_layout plic s2" using lay by (simp add: plic_layout_def p)
  have i: "input 0 s2 = (input 1 s1 :: u32)" by (subst s2) (simp add: input_def)
  have io2: "io_events s2 = io_events s1 @ [Write8 (base + 1) 1]" by (subst s2) simp
  have s3: "s3 = (set64 (plic_driver_map plic s1 + 8 * ucast (10 :: u32)) (n + 8) s2)\<lparr>io_events := io_events s1 @ uart_setup_trace plic base s1\<rparr>"
    using plic_driver_enable_int_correct [OF lay2, of 10 1 "n + 8"] e by (simp add: p i io2 uart_setup_trace_def)
  let ?t = "register_driver n DEVICE_TYPE_UART s3"
  have t: "put ?t = put s1" "print_buf ?t = print_buf s1" "uart_base_address ?t = uart_base_address s1" "io_events ?t = io_events s1 @ uart_setup_trace plic base s1"
    by (simp_all add: register_driver_def Let_def set64_def set32_def s3) (subst s2, simp)+
  obtain g where "put ?t = Some g" "print_buf_ok ?t" using con by (auto simp: t console_def print_buf_ok_def)
  moreover have "render (kmem ?t) (tokens None (SV ''Initialized a UART device at {X}'')) [pa] =
      Some (SV ''Initialized a UART device at '' @ int_prefix 16 @ int_digits 16 pa)"
    by (simp add: SV_def directive_def int_prefix_def)
  ultimately have "sends (uart_report pa) ?t s'"
    using kprintln_sends [of ?t g "SV ''Initialized a UART device at {X}''" "[pa]"] pr by (simp add: uart_report_def)
  then show ?thesis by (auto simp: sends_def emit_def t)
qed


lemma driver_node_alloc_io:
  assumes "driver_node_alloc s = Inr (n, s1)"
  shows "io_events s1 = io_events s" and "io_inputs s1 = io_inputs s" and "uart_base_address s1 = uart_base_address s"
    and "console s \<Longrightarrow> console s1"
proof -
  obtain a t where al: "slab_allocate kalloc (driver_node_arena s) s = Inr (n, a, t)" and s1: "s1 = t\<lparr>driver_node_arena := a\<rparr>"
    using assms by (auto simp: driver_node_alloc_def and_then_eq_Inr)
  have "allocator_only s t" by (rule slab_allocate_only [OF kalloc_only al])
  then show "io_events s1 = io_events s" "io_inputs s1 = io_inputs s" "uart_base_address s1 = uart_base_address s"
    "console s \<Longrightarrow> console s1" by (auto simp: allocator_only_def s1 console_def print_buf_ok_def)
qed

context page_manager begin

lemma uart_node_trace:
  assumes inv: "registry_inv kinv plic s ns kept" and con: "console s" and run: "init_uart_node node plic reg s = Inr s'"
  defines "pa \<equiv> get64 (reg_addresses (kmem s) reg) s"
  shows "io_events s' = io_events s @ uart_setup_trace plic (kernel_hhdm_phys_to_virt pa s) s @ map (Write8 (uart_base_address s)) (uart_report pa)"
proof -
  obtain n s1 s2 s3 where al: "driver_node_alloc s = Inr (n, s1)"
    and u: "uart_driver_init (n + 16) (kernel_hhdm_phys_to_virt pa s) s1 = Inr s2"
    and e: "plic_driver_enable_int plic 10 1 (n + 8) s2 = Inr s3"
    and pr: "kprintln (SV ''Initialized a UART device at {X}'') [pa] (register_driver n DEVICE_TYPE_UART s3) = Inr s'"
    using run by (auto simp: init_uart_node_def Let_def and_then_eq_Inr deref_eq_Inr pa_def)
  note A = registry_alloc [OF inv al]
  have "all_apart (((n, 64) # nodes ns) @ (plic_driver_map plic s1, 8192) # kept)"
    using A(2) unfolding registry_arena_def by (auto dest: arena_apart)
  from all_apart_covered_hd [OF this [simplified append_Cons]] all_apart_middle [OF this]
  have dj: "extent n 64 \<inter> covered (nodes ns) = {}" "covered (nodes ns) \<inter> extent (plic_driver_map plic s1) 8192 = {}" by auto
  have lay: "plic_layout plic s1" using dj(2) A(3,6) by (auto simp: plic_layout_def registry_data_def)
  have ag: "agree_on (extent plic 48) (kmem s1) (kmem s)" by (rule agree_on_mono [OF A(8) A(6)])
  have f: "get64 (plic + k) s1 = get64 (plic + k) s" if "unat k + 8 \<le> 48" for k
    unfolding get64_def by (rule load64_agree [OF ag extent_field [OF that]]) simp
  note io = driver_node_alloc_io [OF al]
  have "uart_setup_trace plic b s1 = uart_setup_trace plic b s" for b
    using f by (simp add: uart_setup_trace_def plic_fields input_def io(1,2))
  moreover have "extent plic 48 \<inter> extent n 64 = {}" using dj(1) A(6) by auto
  ultimately show ?thesis using uart_node_accesses [OF u e pr lay _ io(4) [OF con]] by (simp add: io)
qed

end

section \<open>Properties\<close>

text \<open>
  C6: with a console, memory to spare and a well-formed device tree, the initialisation of the devices
  returns with the registry's invariant, the controller of the boot hart being the one it was given;
  otherwise it stops in a panic or an unfinished place, and the tree has no usable
  \<^verbatim>\<open>riscv,plic0\<close> node or has a Virtio node.  It never hangs and never follows a null pointer or leaves an array.
\<close>

theorem devices_init_returns:
  assumes "roomy s kept" and "console s" and "2 ^ 14 \<le> unat (hhdm_offset s)" and "hart < 512" and "fn_uart_handle_interrupt s \<noteq> 0"
    and "device_tree_ok kept f s" and "16384 + walk_cost (kmem s) (preorder f) < spare s"
  shows "safely (\<not> plic_usable (kmem s) f \<or> (\<exists>n \<in> set (preorder f). is_virtio (kmem s) n)) (devices_init hart s)
    (\<lambda>s'. \<exists>ns. registry_inv kvspace_inv (devices_get_plic_driver hart s') s' ns ((hart_plic_map s', 4096) # kept))"
proof (rule safely_mono)
  show "safely (\<not> plic_usable (kmem s) f \<or> (\<exists>n \<in> set (preorder f). is_virtio (kmem s) n)) (devices_init hart s) (ready 0)"
    by (rule devices_init_safely [OF assms(1-6)]) (use assms(7) in simp)
next
  fix s' assume "devices_init hart s = Inr s'"
  from kmanager.devices_init_correct [OF roomy_kvspace [OF assms(1)] assms(3-5) this]
  show "\<exists>ns. registry_inv kvspace_inv (devices_get_plic_driver hart s') s' ns ((hart_plic_map s', 4096) # kept)" by metis
qed

theorem devices_init_returns_witness:
  "\<exists>(s :: system) s' ns. devices_init 0 s = Inr s' \<and>
    registry_inv kvspace_inv (devices_get_plic_driver 0 s') s' ns ((hart_plic_map s', 4096) # demo_page)"
proof -
  obtain s :: system where s: "roomy s (demo_tables @ demo_page)" "console s" "hhdm_offset s = 0xFFFFFFC000000000" "fn_uart_handle_interrupt s \<noteq> 0"
    "device_tree_ok demo_page demo_tree s" "plic_usable (kmem s) demo_tree" "walk_cost (kmem s) (preorder demo_tree) = 8192"
    "\<forall>n \<in> set (preorder demo_tree). \<not> is_virtio (kmem s) n" "spare s = 0x380000"
    by (rule demo_booted)
  have r: "roomy s demo_page" using roomy_drop s(1) by simp
  have "safely (\<not> plic_usable (kmem s) demo_tree \<or> (\<exists>n \<in> set (preorder demo_tree). is_virtio (kmem s) n)) (devices_init 0 s)
    (\<lambda>s'. \<exists>ns. registry_inv kvspace_inv (devices_get_plic_driver 0 s') s' ns ((hart_plic_map s', 4096) # demo_page))"
    by (rule devices_init_returns [OF r s(2) _ _ s(4,5)]) (simp_all add: s(3,7,9))
  then show ?thesis using s(6,8) by (cases "devices_init 0 s") auto
qed

text \<open>
  C7: whatever the tree is, when the initialisation of the devices returns the registry is well formed:
  the list of drivers, its count, the controller and every interrupt's driver lie in nodes of the
  arena, which keeps clear of everything that was live; what was live has its contents, and no
  other hart has a controller.
\<close>

theorem devices_init_establishes_registry:
  assumes "kvspace_inv s kept" and "2 ^ 14 \<le> unat (hhdm_offset s)" and "hart < 512" and "fn_uart_handle_interrupt s \<noteq> 0"
    and "devices_init hart s = Inr s'"
  shows "(\<exists>ns. registry_inv kvspace_inv (devices_get_plic_driver hart s') s' ns ((hart_plic_map s', 4096) # kept)) \<and>
    agree_on (covered kept) (kmem s') (kmem s) \<and> (\<forall>h. h < 512 \<longrightarrow> h \<noteq> hart \<longrightarrow> devices_get_plic_driver h s' = 0)"
  using kmanager.devices_init_correct [OF assms] by metis

theorem devices_init_establishes_registry_witness:
  "\<exists>(s :: system) s'. devices_init 0 s = Inr s' \<and> devices_get_plic_driver 0 s' \<noteq> 0 \<and> devices_get_plic_driver 1 s' = 0"
proof -
  obtain s s' :: system where s: "roomy s demo_page" "2 ^ 14 \<le> unat (hhdm_offset s)" "fn_uart_handle_interrupt s \<noteq> 0" "devices_init 0 s = Inr s'"
    by (rule demo_runs) blast
  have "(0 :: u32) < 512" by simp
  from devices_init_establishes_registry [OF roomy_kvspace [OF s(1)] s(2) this s(3,4)] show ?thesis
    using s(4) by (intro exI [of _ s] exI [of _ s']) (auto simp: registry_inv_def registry_data_def)
qed

text \<open>
  C14: the recursive walk over the device tree, through pointers that its own allocations could
  overwrite, is the same as initialising the nodes one after the other in document order.
\<close>

theorem devices_walk_in_preorder:
  assumes "registry_inv kvspace_inv plic s ns kept" and "forest_at (kmem s) root (Node root cs Nil_forest)"
    and "\<forall>n \<in> set (root # preorder cs). node_kept (kmem s) kept n"
  shows "devices_recursive_initialize root plic s = run_all (init_device plic) (root # preorder cs) s"
  using assms(2,3) by (intro kmanager.devices_walk [OF assms(1)]) auto

theorem devices_walk_in_preorder_witness:
  "\<exists>(s :: system) plic. plic \<noteq> 0 \<and> devices_recursive_initialize 0x20000 plic s = run_all (init_device plic) [0x20000, 0x20080] s"
proof -
  obtain s s' :: system where s: "roomy s demo_page" "2 ^ 14 \<le> unat (hhdm_offset s)" "fn_uart_handle_interrupt s \<noteq> 0" "devices_init 0 s = Inr s'"
    "device_tree_ok demo_page demo_tree s"
    by (rule demo_runs) blast
  have h: "(0 :: u32) < 512" by simp
  obtain ns where r: "registry_inv kvspace_inv (devices_get_plic_driver 0 s') s' ns ((hart_plic_map s', 4096) # demo_page)"
    and ag: "agree_on (covered demo_page) (kmem s') (kmem s)"
    using kmanager.devices_init_correct [OF roomy_kvspace [OF s(1)] s(2) h s(3,4)] by metis
  have ok: "\<forall>n \<in> set (preorder demo_tree). device_ok (kmem s') ((hart_plic_map s', 4096) # demo_page) n"
    using s(5) device_ok_mono [OF device_ok_agree(4) [OF _ ag]] by (auto simp: device_tree_ok_def)
  have "(\<Union>q \<in> set (preorder demo_tree). extent q 72) \<subseteq> covered demo_page"
    using s(5) by (fastforce simp: device_tree_ok_def device_ok_def node_kept_def)
  from agree_on_mono [OF ag this] have "forest_at (kmem s') (root_node (dt s)) demo_tree"
    by (rule forest_agree [rotated]) (use s(5) in \<open>simp add: device_tree_ok_def\<close>)
  then have "forest_at (kmem s') 0x20000 demo_tree" by (simp add: demo_tree_def)
  then have "devices_recursive_initialize 0x20000 (devices_get_plic_driver 0 s') s' =
      run_all (init_device (devices_get_plic_driver 0 s')) (0x20000 # preorder (Node 0x20080 Nil_forest Nil_forest)) s'"
    using ok by (intro devices_walk_in_preorder [OF r]) (simp_all add: demo_tree_def device_ok_def)
  moreover have "devices_get_plic_driver 0 s' \<noteq> 0" using r by (simp add: registry_inv_def registry_data_def)
  ultimately show ?thesis by auto
qed

text \<open>
  C15: a node with the compatible string of a UART and a \<^verbatim>\<open>reg\<close> property of the expected shape gives a
  driver: a fresh node of type UART at the head of the list, with the device's registers behind the
  direct map, in the slot of interrupt 10 alone.  The accesses are exactly these, in order: the
  device's interrupts are switched on, bit 10 is set in the controller's enable register with its
  other bits as they were read, the priority of interrupt 10 is 1, and the driver is reported on the
  console.  The registry stays well formed, and what must be kept is unchanged.
\<close>

theorem uart_node_registered:
  assumes "registry_inv kvspace_inv plic s ns kept" and "console s" and "sv_is (kmem s) str ''ns16550a''"
    and "device_tree_get_property (kmem s) node ''reg'' = Inr reg" and "usable_reg (kmem s) node reg"
    and "init_compatible node plic str s = Inr s'"
  shows "\<exists>n. registry_inv kvspace_inv plic s' (n # ns) kept \<and> drivers s' = n \<and> driver_count s' = driver_count s + 1 \<and>
    driver_type (n + 8) s' = device_type_value DEVICE_TYPE_UART \<and>
    uart_base (n + 16) s' = kernel_hhdm_phys_to_virt (get64 (reg_addresses (kmem s) reg) s) s \<and>
    (\<forall>irq < 1024. plic_driver_of plic irq s' = (if irq = 10 then n + 8 else plic_driver_of plic irq s)) \<and>
    io_events s' = io_events s @ uart_setup_trace plic (kernel_hhdm_phys_to_virt (get64 (reg_addresses (kmem s) reg) s) s) s @
      map (Write8 (uart_base_address s)) (uart_report (get64 (reg_addresses (kmem s) reg) s)) \<and>
    agree_on (covered kept) (kmem s') (kmem s)"
proof -
  have run: "init_uart_node node plic reg s = Inr s'" using assms(3-6) by (simp add: init_compatible_def)
  obtain n s1 where al: "driver_node_alloc s = Inr (n, s1)" and inv: "registry_inv kvspace_inv plic s' (n # ns) kept"
    and ag: "agree_on (covered kept) (kmem s') (kmem s)"
    and reg: "uart_registered plic n (kernel_hhdm_phys_to_virt (get64 (reg_addresses (kmem s) reg) s) s) s1 s'"
    using kmanager.init_uart_node_correct [OF assms(1) run] by blast
  have "driver_count s1 = driver_count s" using driver_node_alloc_keeps [OF al] by (simp add: keeps_drivers_def)
  moreover have "irq < 1024 \<Longrightarrow> plic_driver_of plic irq s1 = plic_driver_of plic irq s" for irq
    by (rule kmanager.registry_alloc(7) [OF assms(1) al])
  ultimately show ?thesis using inv ag reg kmanager.uart_node_trace [OF assms(1,2) run]
    by (intro exI [of _ n]) (simp add: uart_registered_def uart_base_def driver_type_def get64_def get32_def)
qed

theorem uart_node_registered_witness:
  "\<exists>(s :: system) plic str n s'. init_compatible 0x20080 plic str s = Inr s' \<and> drivers s' = n \<and> plic_driver_of plic 10 s' = n + 8 \<and>
    (\<exists>es. io_events s' = io_events s @ es \<and> Write32 (plic_priority plic s + 40) 1 \<in> set es)"
proof -
  obtain s0 s :: system where s: "roomy s0 demo_page" "2 ^ 14 \<le> unat (hhdm_offset s0)" "fn_uart_handle_interrupt s0 \<noteq> 0" "devices_init 0 s0 = Inr s"
    "ready 0x100000 s" "agree_on (covered demo_page) (kmem s0) tree_memory"
    by (rule demo_runs) blast
  have h: "(0 :: u32) < 512" by simp
  let ?plic = "devices_get_plic_driver 0 s" and ?kept = "(hart_plic_map s, 4096) # demo_page" and ?str = "\<lparr>sv_data = 0x2070B, sv_size = 8\<rparr>"
  obtain ns where r: "registry_inv kvspace_inv ?plic s ns ?kept" and ag0: "agree_on (covered demo_page) (kmem s) (kmem s0)"
    using kmanager.devices_init_correct [OF roomy_kvspace [OF s(1)] s(2) h s(3,4)] by metis
  obtain ns' where "registry_inv roomy ?plic s ns' ?kept"
    using rmanager.devices_init_correct [OF s(1,2) h s(3,4)] by metis
  then have w: "walking ?plic ?kept (kmem s) (0 + 4096) s" using s(5) by (auto simp: walking_def ready_def)
  have con: "console s" using s(5) by (simp add: ready_def)
  have ag: "agree_on (covered demo_page) (kmem s) tree_memory" by (rule agree_on_trans [OF ag0 s(6)])
  let ?t = "(idle_system boot_kernel)\<lparr>kmem := tree_memory, dt := (dt (idle_system boot_kernel))\<lparr>root_node := 0x20000\<rparr>\<rparr>"
  have "device_tree_ok demo_page demo_tree ?t" by (rule demo_tree_ok) simp_all
  then have ok: "device_ok tree_memory demo_page 0x20080" by (simp add: device_tree_ok_def demo_tree_def)
  have "view_kept demo_page ?str" using ok by (simp add: device_ok_def tree_compatibles)
  then have n: "sv_is (kmem s) ?str ''ns16550a''" using view_agree(2) [OF _ ag] by (simp add: sv_is_def tree_bytes)
  have "device_tree_get_property tree_memory 0x20080 ''reg'' = Inr 0x20200"
    using get_property_loop_correct [of tree_memory "0x20200" "[0x20200]" "''reg''"] tree_fields(11)
    by (simp add: device_tree_get_property_def chain_Cons next_prop_def tree_fields sv_is_def tree_bytes)
  then have g: "device_tree_get_property (kmem s) 0x20080 ''reg'' = Inr 0x20200" "usable_reg (kmem s) 0x20080 0x20200"
    using device_ok_agree(2,3) [OF ok ag, of "''reg''"] by (simp_all add: usable_reg_def tree_reg)
  from walking_uart [OF w, of False "0x20080" "0x20200"] obtain s' where "init_uart_node 0x20080 ?plic 0x20200 s = Inr s'"
    by (cases "init_uart_node 0x20080 ?plic 0x20200 s") auto
  then have s': "init_compatible 0x20080 ?plic ?str s = Inr s'" using n g by (simp add: init_compatible_def)
  from uart_node_registered [OF r con n g s'] obtain n where "drivers s' = n"
    "\<forall>irq < 1024. plic_driver_of ?plic irq s' = (if irq = 10 then n + 8 else plic_driver_of ?plic irq s)"
    "io_events s' = io_events s @ uart_setup_trace ?plic (kernel_hhdm_phys_to_virt (get64 (reg_addresses (kmem s) 0x20200) s) s) s @
      map (Write8 (uart_base_address s)) (uart_report (get64 (reg_addresses (kmem s) 0x20200) s))" by blast
  moreover from this(2) have "plic_driver_of ?plic 10 s' = n + 8" by simp
  ultimately show ?thesis using s' by (fastforce simp: uart_setup_trace_def)
qed

end
