(* ===== verification/Serving.thy ===== *)
theory Serving
  imports Booted
begin

text \<open>
  The running kernel: after the boot the processor only waits, and everything that happens are
  traps.  A history is any sequence of traps whose handler returned, with any cause and any values
  of the trap registers; the devices answer through the inputs of the state.
\<close>

inductive interrupts :: "addr \<Rightarrow> 'a system_scheme \<Rightarrow> 'a system_scheme \<Rightarrow> bool" for frame where
  waiting: "interrupts frame s s"
| trapped: "interrupts frame s t \<Longrightarrow> kernel_c_trap_handler sepc stval scause sstatus frame t = Inr (pc, u) \<Longrightarrow>
    interrupts frame s u"

section \<open>One trap\<close>

text \<open>What a handler that returns leaves alone, given a console.\<close>

definition serves :: "'a machine_scheme \<Rightarrow> 'a machine_scheme \<Rightarrow> bool" where
  "serves s s' \<longleftrightarrow> machine_only s s' \<and> kmem s' = kmem s \<and> print_buf_ok s'"

lemma serves_put: "serves s s' \<Longrightarrow> put s' = put s"
  by (simp add: serves_def machine_only_fields(1))

lemma serves_refl: "print_buf_ok s \<Longrightarrow> serves s s"
  by (simp add: serves_def)

lemma serves_trans: "serves s s' \<Longrightarrow> serves s' s'' \<Longrightarrow> serves s s''"
  by (auto simp: serves_def intro: machine_only_trans)

lemma appends_serves: "appends es s s' \<Longrightarrow> print_buf_ok s \<Longrightarrow> serves s s'"
  using machine_onlyI [where s = s and m = "kmem s" and es = "io_events s @ es" and buf = "print_buf s"]
  by (simp add: serves_def appends_def print_buf_ok_def)

lemma sends_serves: "sends t s s' \<Longrightarrow> serves s s'"
proof -
  assume "sends t s s'"
  then obtain buf where s': "s' = emit t (s\<lparr>print_buf := buf\<rparr>)" "length buf = 67" "buf ! 66 = 0" by (auto simp: sends_def)
  then have "machine_only s s'" by (simp add: prints_machine_only prints_emit(1))
  then show ?thesis using s' by (simp add: serves_def print_buf_ok_def emit_def)
qed

lemma uart_handler_serves: "print_buf_ok s \<Longrightarrow> serves s (uart_driver_handle_interrupt d s)"
  by (rule appends_serves [OF uart_driver_handle_interrupt_correct])

lemma record_serves: "print_buf_ok s \<Longrightarrow> serves s (record_io e s)"
  by (rule appends_serves [OF appends_record])

lemma plic_interrupt_serves:
  assumes "plic_driver_handle_interrupt plic s = Inr (err, s')" and "print_buf_ok s"
  shows "serves s s'"
proof -
  obtain claim where rd: "mmio_read32 (plic_claim plic s) s = (claim, record_io (Read32 (plic_claim plic s) claim) s)"
    by (simp add: io_defs)
  let ?t = "record_io (Read32 (plic_claim plic s) claim) s"
  have t: "serves s ?t" by (rule record_serves [OF assms(2)])
  then have ok: "print_buf_ok ?t" by (simp add: serves_def)
  consider "s' = ?t" | a v where "s' = record_io (Write32 a v) ?t"
    | d a v where "s' = record_io (Write32 a v) (uart_driver_handle_interrupt d ?t)"
    using assms(1) rd
    by (auto simp: plic_driver_handle_interrupt_def run_eq_Inr Let_def call_uart_handler_def mmio_write32_def split: if_splits)
  then show ?thesis
  proof cases
    case 1
    then show ?thesis using t by simp
  next
    case 2
    then show ?thesis using serves_trans [OF t record_serves [OF ok]] by simp
  next
    case 3
    have u: "serves ?t (uart_driver_handle_interrupt d ?t)" by (rule uart_handler_serves [OF ok])
    then have "print_buf_ok (uart_driver_handle_interrupt d ?t)" by (simp add: serves_def)
    then show ?thesis using serves_trans [OF t serves_trans [OF u record_serves]] 3 by simp
  qed
qed

lemma hex_message_serves:
  assumes "put s = Some f" and "print_buf_ok s" and "kprintln (SV ''PLIC interrupt for unregistered driver on CPU:{X}'') [h] s = Inr s' \<or>
    kprintln (SV ''PLIC interrupt for unregistered interrupt on CPU:{X}'') [h] s = Inr s'"
  shows "serves s s'"
proof -
  have "\<exists>u. kprintln (SV ''PLIC interrupt for unregistered driver on CPU:{X}'') [h] s = Inr u \<and> serves s u"
    "\<exists>u. kprintln (SV ''PLIC interrupt for unregistered interrupt on CPU:{X}'') [h] s = Inr u \<and> serves s u"
    using kprintln_sends [OF assms(1,2), of "SV ''PLIC interrupt for unregistered driver on CPU:{X}''" "[h]"]
      kprintln_sends [OF assms(1,2), of "SV ''PLIC interrupt for unregistered interrupt on CPU:{X}''" "[h]"]
    by (auto simp: SV_def directive_def int_prefix_def dest!: sends_serves)
  then show ?thesis using assms(3) by auto
qed

lemma trap_serves:
  assumes run: "kernel_c_trap_handler sepc stval scause sstatus frame s = Inr (pc, s')" and "put s = Some f" and "print_buf_ok s"
  shows "serves s s'"
proof -
  have i: "kernel_c_interrupt_handler sepc stval scause sstatus frame s = Inr (pc, s')"
    using run by (auto simp: kernel_c_trap_handler_def exceptions_never_return split: if_splits)
  consider (timer) t u where "s' = record_io (Csr_write Stimecmp u) (record_io (Csr_read Time t) s)"
    | (external) plic err t where "plic_driver_handle_interrupt plic s = Inr (err, t)" "s' = t \<or>
        kprintln (SV ''PLIC interrupt for unregistered driver on CPU:{X}'') [frame_hartid frame t] t = Inr s' \<or>
        kprintln (SV ''PLIC interrupt for unregistered interrupt on CPU:{X}'') [frame_hartid frame t] t = Inr s'"
    using i by (auto simp: kernel_c_interrupt_handler_def Let_def run_eq_Inr csr_defs io_defs split: if_splits prod.splits simp del: ec.simps)
  then show ?thesis
  proof cases
    case timer
    then show ?thesis
      using serves_trans [OF record_serves [OF assms(3)] record_serves] record_serves [OF assms(3)] by (auto simp: serves_def)
  next
    case external
    have t: "serves s t" by (rule plic_interrupt_serves [OF external(1) assms(3)])
    then have "put t = Some f" "print_buf_ok t" using assms(2) serves_put [OF t] by (simp_all add: serves_def)
    then show ?thesis using external(2) t serves_trans [OF t hex_message_serves] by blast
  qed
qed

lemma interrupts_serve: "interrupts frame s t \<Longrightarrow> put s = Some f \<Longrightarrow> print_buf_ok s \<Longrightarrow> serves s t"
proof (induction rule: interrupts.induct)
  case (waiting s)
  then show ?case by (simp add: serves_refl)
next
  case (trapped s t sepc stval scause sstatus pc u)
  then have t: "serves s t" by simp
  then have "put t = Some f" "print_buf_ok t" using trapped.prems(1) serves_put [OF t] by (simp_all add: serves_def)
  then show ?case using serves_trans [OF t trap_serves [OF trapped.hyps(2)]] by blast
qed

section \<open>Every interrupt is served\<close>

lemma serves_registry: "serves s t \<Longrightarrow> registry_inv kvspace_inv plic s ns kept \<Longrightarrow> registry_inv kvspace_inv plic t ns kept"
  by (auto simp: serves_def intro: kmanager.registry_same)

lemma serves_controller:
  assumes "serves s t"
  shows "frame_hartid frame t = frame_hartid frame s" and "devices_get_plic_driver h t = devices_get_plic_driver h s"
  using assms machine_only_keeps [of s t]
  by (simp_all add: serves_def frame_hartid_def get64_def devices_get_plic_driver_def keeps_defs)

lemma registry_serves_external:
  assumes inv: "registry_inv kvspace_inv plic s ns kept" and hart: "devices_get_plic_driver (ucast (frame_hartid frame s)) s = plic"
    and frame: "frame \<noteq> 0" and console: "put s = Some f" "print_buf_ok s"
    and irq: "bit scause 63" "scause AND 0xFFF = ipt IPT_TYPE_EXTERNAL" "(input 0 s :: u32) < 1024"
  shows "\<exists>s'. kernel_c_trap_handler sepc stval scause sstatus frame s = Inr (sepc, s')"
proof -
  have data: "registry_data plic s ns" using inv by (simp add: registry_inv_def)
  then have p: "plic \<noteq> 0" by (simp add: registry_data_def)
  have "uart_ready (plic_driver_of plic (input 0 s) s) s" if "plic_driver_of plic (input 0 s) s \<noteq> 0"
    using data irq(3) that by (simp add: registry_data_def slots_ok_def)
  then show ?thesis using external_interrupt_correct [OF irq(1,2) frame hart p irq(3) _ console] by blast
qed

lemma always_served:
  assumes "registry_inv kvspace_inv plic s ns kept" and "devices_get_plic_driver (ucast (frame_hartid frame s)) s = plic"
    and "frame \<noteq> 0" and "put s = Some f" and "print_buf_ok s" and "interrupts frame s t"
    and "bit scause 63" and "scause AND 0xFFF \<in> {ipt IPT_TYPE_TIMER, ipt IPT_TYPE_EXTERNAL}" and "(input 0 t :: u32) < 1024"
  shows "\<exists>u. kernel_c_trap_handler sepc stval scause sstatus frame t = Inr (sepc, u) \<and> interrupts frame s u \<and>
    registry_inv kvspace_inv plic u ns kept"
proof -
  have t: "serves s t" by (rule interrupts_serve [OF assms(6,4,5)])
  note S = serves_controller [OF t]
  have r: "registry_inv kvspace_inv plic t ns kept" "put t = Some f" "print_buf_ok t"
    using serves_registry [OF t assms(1)] serves_put [OF t] assms(4) t by (simp_all add: serves_def)
  have hart: "devices_get_plic_driver (ucast (frame_hartid frame t)) t = plic" using assms(2) by (simp add: S)
  have "\<exists>u. kernel_c_trap_handler sepc stval scause sstatus frame t = Inr (sepc, u)"
  proof (cases "scause AND 0xFFF = ipt IPT_TYPE_TIMER")
    case True
    then show ?thesis using timer_interrupt_correct [OF assms(7)] by blast
  next
    case False
    then show ?thesis using registry_serves_external [OF r(1) hart assms(3) r(2,3) assms(7) _ assms(9)] assms(8) by blast
  qed
  then obtain u where u: "kernel_c_trap_handler sepc stval scause sstatus frame t = Inr (sepc, u)" by blast
  have "interrupts frame s u" by (rule interrupts.trapped [OF assms(6) u])
  moreover have "registry_inv kvspace_inv plic u ns kept" by (rule serves_registry [OF trap_serves [OF u r(2,3)] r(1)])
  ultimately show ?thesis using u by blast
qed

text \<open>
  C4: once the registry is set up, the kernel keeps serving: after any history of traps whose handlers
  returned, the handler returns from the next timer or external interrupt too, to the interrupted
  instruction, whatever the controller claims (an interrupt number below its 1024), and the registry
  is as it was.
\<close>

theorem interrupts_always_served:
  assumes "registry_inv kvspace_inv plic s ns kept" and "devices_get_plic_driver (ucast (frame_hartid frame s)) s = plic"
    and "frame \<noteq> 0" and "put s = Some f" and "print_buf_ok s" and "interrupts frame s t"
    and "bit scause 63" and "scause AND 0xFFF \<in> {ipt IPT_TYPE_TIMER, ipt IPT_TYPE_EXTERNAL}" and "(input 0 t :: u32) < 1024"
  shows "\<exists>u. kernel_c_trap_handler sepc stval scause sstatus frame t = Inr (sepc, u) \<and> interrupts frame s u \<and>
    registry_inv kvspace_inv plic u ns kept"
  by (rule always_served [OF assms])

lemma registry_inputs:
  assumes "registry_inv kvspace_inv plic s ns kept"
  shows "registry_inv kvspace_inv plic (s\<lparr>io_inputs := f\<rparr>) ns kept"
proof -
  have "kvspace_inv (s\<lparr>io_inputs := f\<rparr>) = kvspace_inv s"
    by (intro ext kvspace_inv_same) (simp_all add: manager_same_def)
  then have "arena_in kvspace_inv a (s\<lparr>io_inputs := f\<rparr>) bl others = arena_in kvspace_inv a s bl others" for a bl others
    by (simp add: arena_in_def)
  then show ?thesis using assms
    by (simp add: registry_inv_def registry_arena_def registry_data_def slots_ok_def plic_driver_map_def plic_driver_of_def
        uart_ready_def driver_type_def uart_handler_def get64_def get32_def)
qed

theorem interrupts_always_served_witness:
  "\<exists>(s :: system) u v. interrupts 0x20800 s u \<and> kernel_c_trap_handler 0x80200000 0 0x8000000000000009 0 0x20800 u = Inr (0x80200000, v) \<and>
    interrupts 0x20800 s v \<and> u \<noteq> s"
proof -
  obtain s0 s1 :: system where s: "roomy s0 demo_page" "2 ^ 14 \<le> unat (hhdm_offset s0)" "fn_uart_handle_interrupt s0 \<noteq> 0" "devices_init 0 s0 = Inr s1"
    "ready 0x100000 s1" "agree_on (covered demo_page) (kmem s0) tree_memory"
    by (rule demo_runs) blast
  have h: "(0 :: u32) < 512" by simp
  obtain ns where r: "registry_inv kvspace_inv (devices_get_plic_driver 0 s1) s1 ns ((hart_plic_map s1, 4096) # demo_page)"
    and ag: "agree_on (covered demo_page) (kmem s1) (kmem s0)"
    using kmanager.devices_init_correct [OF roomy_kvspace [OF s(1)] s(2) h s(3,4)] by metis
  let ?s = "s1\<lparr>io_inputs := (\<lambda>_. 10)\<rparr>"
  have "extent 0x20A10 8 \<subseteq> covered demo_page" using extent_field [of "0xA10" 8 "0x1000" "0x20000"] by simp
  then have "load64 (kmem s1) 0x20A10 = load64 tree_memory 0x20A10"
    by (rule load64_agree [OF agree_on_trans [OF ag s(6)]])
  also have "\<dots> = 0" by (simp add: tree_memory_def Let_def mem_simps tree_text_blank)
  finally have hart: "frame_hartid 0x20800 ?s = 0" by (simp add: frame_hartid_def get64_def)
  have plic: "devices_get_plic_driver (ucast (frame_hartid 0x20800 ?s)) ?s = devices_get_plic_driver 0 s1"
    by (simp add: hart) (simp add: devices_get_plic_driver_def get64_def)
  obtain f where con: "put ?s = Some f" "print_buf_ok ?s" using s(5) by (auto simp: ready_def console_def print_buf_ok_def)
  note always = interrupts_always_served [OF registry_inputs [OF r] plic _ con]
  have i: "(input 0 t :: u32) < 1024" if "interrupts 0x20800 ?s t" for t
  proof -
    have "machine_only ?s t" using interrupts_serve [OF that con] by (simp add: serves_def)
    then show ?thesis by (auto simp: machine_only_def input_def)
  qed
  have w: "interrupts 0x20800 ?s ?s" by (rule interrupts.waiting)
  obtain u where u: "kernel_c_trap_handler 0x80200000 0 0x8000000000000005 0 0x20800 ?s = Inr (0x80200000, u)" "interrupts 0x20800 ?s u"
    using always [OF _ w _ _ i [OF w], of "0x8000000000000005" "0x80200000" 0 0] by (auto simp: bit_iff_odd)
  obtain v where v: "kernel_c_trap_handler 0x80200000 0 0x8000000000000009 0 0x20800 u = Inr (0x80200000, v)" "interrupts 0x20800 ?s v"
    using always [OF _ u(2) _ _ i [OF u(2)], of "0x8000000000000009" "0x80200000" 0 0] by (auto simp: bit_iff_odd)
  have "io_events u \<noteq> io_events ?s" using u(1) timer_interrupt_correct [of "0x8000000000000005" "0x80200000" 0 0 "0x20800" ?s]
    by (auto simp: bit_iff_odd)
  then show ?thesis using u v by blast
qed

end
