(* ===== verification/Kernel_Entry.thy ===== *)
theory Kernel_Entry
  imports Devices Riscv_Sv39
begin

text \<open>
  The boot sequence of \<^verbatim>\<open>kernel_entry.c\<close>, in the order of \<^verbatim>\<open>kernel_c_entry\<close>: the console, physical
  memory from the boot loader's map, the device tree and its drivers, and the interrupt system.
  The boot loader's answers lie in memory: a memory map response has its number of entries at
  offset 8 and its list at 16, an entry its base at 0, its length at 8 and its type at 16.  The
  last statement of \<^verbatim>\<open>kernel_c_entry\<close> is an endless loop, so that it has no result but \<open>Hang\<close>; what
  the boot leaves behind is the state \<open>kernel_boot\<close> returns.
\<close>

abbreviation LIMINE_MEMMAP_USABLE :: u64 where "LIMINE_MEMMAP_USABLE \<equiv> 0"

definition entry_count :: "'a system_scheme \<Rightarrow> u64" where
  "entry_count s = get64 (memmap_response (pinfo s) + 8) s"

text \<open>\<^verbatim>\<open>*pinfo.memmap_response->entries\<close>, and the address of the element the code indexes.\<close>

definition memmap_entries :: "'a system_scheme \<Rightarrow> addr" where
  "memmap_entries s = get64 (get64 (memmap_response (pinfo s) + 16) s) s"

definition memmap_entry :: "u64 \<Rightarrow> 'a system_scheme \<Rightarrow> addr" where
  "memmap_entry i s = memmap_entries s + 24 * i"

definition memmap_turn :: "u64 \<Rightarrow> 'a system_scheme \<Rightarrow> halt + 'a system_scheme" where
  "memmap_turn i s =
     deref (get64 (memmap_response (pinfo s) + 16) s) (
     deref (memmap_entries s) (
     if get64 (memmap_entry i s + 16) s = LIMINE_MEMMAP_USABLE then
       and_then (pmm_add_region (get64 (memmap_entry i s) s) (get64 (memmap_entry i s + 8) s) s) (\<lambda>(err, s).
         if error_is_err err then and_then (error_string err) (\<lambda>msg. panic (SV msg) [] s) else Inr s)
     else Inr s))"

partial_function (option) memmap_loop :: "u64 \<Rightarrow> 'a system_scheme \<Rightarrow> (halt + 'a system_scheme) option" where
  "memmap_loop i s =
     (if memmap_response (pinfo s) = 0 then Some (Inl Null_deref)
      else if i < entry_count s then
        case memmap_turn i s of Inl h \<Rightarrow> Some (Inl h) | Inr s \<Rightarrow> memmap_loop (i + 1) s
      else Some (Inr s))"

definition kernel_boot_console :: "'a system_scheme \<Rightarrow> halt + 'a system_scheme" where
  "kernel_boot_console s =
     and_then (populate_platform_info s) (\<lambda>s.
     let s = uart_initialize (kernel_hhdm_phys_to_virt 0x10000000 s) s;
         (_, s) = kprint_initialize (Some Uart_put_char) s
     in and_then (kprintln (SV ''Hello, World!'') [] s) (\<lambda>s.
        let (satp, s) = riscv_satp_read s
        in Inr (s\<lparr>kernel_page_table := kernel_hhdm_phys_to_virt (push_bit 12 satp) s\<rparr>)))"

definition kernel_boot_memory :: "'a system_scheme \<Rightarrow> halt + 'a system_scheme" where
  "kernel_boot_memory s =
     and_then (pmm_initialize PMM_POLICY_FIRST_FIT s) (\<lambda>s.
     and_then (no_hang (memmap_loop 0 s)) (\<lambda>s.
     kprintln (SV ''PMM initialized with {X} bytes of free memory.'') [pmm_free_memory s] s))"

definition kernel_boot_tree :: "'a system_scheme \<Rightarrow> halt + 'a system_scheme" where
  "kernel_boot_tree s =
     deref (dtb_response (pinfo s)) (
     and_then (device_tree_parse_blob (get64 (dtb_response (pinfo s) + 8) s) s) (\<lambda>(err, s).
     if error_is_err err then and_then (error_string err) (\<lambda>msg. panic (SV msg) [] s)
     else kprintln (SV ''Device tree blob parsed.'') [] s))"

definition kernel_boot_devices :: "'a system_scheme \<Rightarrow> halt + 'a system_scheme" where
  "kernel_boot_devices s =
     and_then (devices_init (ucast (bsp_hartid (pinfo s))) s) (\<lambda>s.
     kprintln (SV ''Device driver initialization complete.'') [] s)"

text \<open>
  The stores into the trap frame, whose address is a constant of the linker.  The trap entry reads the
  frame as soon as interrupts are enabled, so each store is recorded in the trace with the accesses to
  the control registers, which shows their order.
\<close>

definition frame_store :: "addr \<Rightarrow> u64 \<Rightarrow> 'a machine_scheme \<Rightarrow> 'a machine_scheme" where
  "frame_store a v s = record_io (Store64 a v) (set64 a v s)"

definition kernel_set_trap_frame :: "allocation \<Rightarrow> 'a system_scheme \<Rightarrow> 'a system_scheme" where
  "kernel_set_trap_frame al s =
     (let f = kernel_trap_frame s;
          s = frame_store (f + 520) (alloc_buffer al + alloc_size al) s;
          s = frame_store (f + 536) (alloc_buffer al) s;
          s = frame_store (f + 544) (alloc_size al) s;
          (satp, s) = riscv_satp_read s;
          s = frame_store (f + 512) satp s
      in frame_store (f + 528) (bsp_hartid (pinfo s)) s)"

definition kernel_boot_interrupts :: "'a system_scheme \<Rightarrow> halt + 'a system_scheme" where
  "kernel_boot_interrupts s =
     and_then (kalloc (4 * PAGE_SIZE) PAGE_SIZE s) (\<lambda>(tf_stack_alloc, s).
     let s = kernel_set_trap_frame tf_stack_alloc s;
         s = riscv_sscratch_write (kernel_trap_frame s) s
     in and_then (riscv_sv39_virt_to_phys (kernel_page_table s) (fn_asm_trap_handler s) s) (\<lambda>trap_vector_pa.
        let s = riscv_stvec_write trap_vector_pa s;
            (time, s) = riscv_time s;
            s = riscv_stimecmp_write (time + 10000000) s;
            s = riscv_sie_write (push_bit 1 1 OR push_bit 5 1 OR push_bit 9 1) s;
            (sstatus, s) = riscv_sstatus_read s;
            s = riscv_sstatus_write (sstatus OR push_bit 1 1) s
        in kprintln (SV ''Core local interrupt system initialized.'') [] s))"

text \<open>What is left of the boot once the device tree is parsed.\<close>

definition kernel_start :: "'a system_scheme \<Rightarrow> halt + 'a system_scheme" where
  "kernel_start s =
     and_then (kernel_boot_devices s) (\<lambda>s.
     and_then (kernel_boot_interrupts s) (\<lambda>s.
     kprintln (SV ''Entering wait loop.'') [] s))"

definition kernel_boot :: "'a system_scheme \<Rightarrow> halt + 'a system_scheme" where
  "kernel_boot s =
     and_then (kernel_boot_console s) (\<lambda>s.
     and_then (kernel_boot_memory s) (\<lambda>s.
     and_then (kernel_boot_tree s) kernel_start))"

definition kernel_c_entry :: "'a system_scheme \<Rightarrow> halt + 'b" where
  "kernel_c_entry s = and_then (kernel_boot s) (\<lambda>s. Inl Hang)"

end
