(* ===== verification/Kernel_Boot.thy ===== *)
theory Kernel_Boot
  imports Kernel_Entry Serving
begin

text \<open>
  The end of the boot sequence: the interrupt system is set up after the devices, and from the wait
  loop on the kernel serves its interrupts.
\<close>

section \<open>The trap frame\<close>

text \<open>The static object \<^verbatim>\<open>kernel_trap_frame\<close> in memory that is kept.\<close>

definition trap_frame_ok :: "'a system_scheme \<Rightarrow> (addr \<times> nat) list \<Rightarrow> bool" where
  "trap_frame_ok s kept \<longleftrightarrow> kernel_trap_frame s \<noteq> 0 \<and> extent (kernel_trap_frame s) 552 \<subseteq> covered kept"

lemma trap_frame_field:
  "trap_frame_ok s kept \<Longrightarrow> unat k + 8 \<le> 552 \<Longrightarrow> extent (kernel_trap_frame s + k) 8 \<subseteq> covered kept"
  using extent_field [of k 8 552 "kernel_trap_frame s"] by (auto simp: trap_frame_ok_def)

text \<open>What the frame holds after \<^verbatim>\<open>kernel_c_entry\<close> has filled it in, and the stores that do.\<close>

definition frame_trace :: "allocation \<Rightarrow> 'a system_scheme \<Rightarrow> io_event list" where
  "frame_trace al s =
     (let f = kernel_trap_frame s in
      [Store64 (f + 520) (alloc_buffer al + alloc_size al), Store64 (f + 536) (alloc_buffer al), Store64 (f + 544) (alloc_size al),
       Csr_read Satp (input 3 s), Store64 (f + 512) (input 3 s), Store64 (f + 528) (bsp_hartid (pinfo s))])"

lemma kernel_set_trap_frame_correct:
  fixes s :: "'a system_scheme"
  assumes s': "s' = kernel_set_trap_frame al s"
  defines "f \<equiv> kernel_trap_frame s"
  shows "get64 (f + 520) s' = alloc_buffer al + alloc_size al" and "get64 (f + 536) s' = alloc_buffer al" and "get64 (f + 544) s' = alloc_size al"
    and "get64 (f + 512) s' = input 3 s" and "frame_hartid f s' = bsp_hartid (pinfo s)"
    and "agree_on (- extent f 552) (kmem s') (kmem s)" and "io_events s' = io_events s @ frame_trace al s"
    and "s' = s\<lparr>kmem := kmem s', io_events := io_events s'\<rparr>"
proof -
  have e: "s' = (s\<lparr>kmem := store64 (store64 (store64 (store64 (store64 (kmem s) (f + 520) (alloc_buffer al + alloc_size al))
      (f + 536) (alloc_buffer al)) (f + 544) (alloc_size al)) (f + 512) (input 3 s)) (f + 528) (bsp_hartid (pinfo s)),
      io_events := io_events s @ frame_trace al s\<rparr>)"
    by (simp add: s' f_def kernel_set_trap_frame_def frame_store_def frame_trace_def Let_def set64_def csr_defs io_defs record_io_def
        next_input_def input_def eval_nat_numeral)
  show "get64 (f + 520) s' = alloc_buffer al + alloc_size al" "get64 (f + 536) s' = alloc_buffer al" "get64 (f + 544) s' = alloc_size al"
    "get64 (f + 512) s' = input 3 s" "frame_hartid f s' = bsp_hartid (pinfo s)"
    by (simp_all add: e get64_def frame_hartid_def mem_simps)
  show "agree_on (- extent f 552) (kmem s') (kmem s)"
    by (simp add: e) (intro store_in_struct agree_on_refl; simp)
  show "io_events s' = io_events s @ frame_trace al s" by (simp add: e)
  show "s' = s\<lparr>kmem := kmem s', io_events := io_events s'\<rparr>" by (simp add: e)
qed

section \<open>The interrupt system\<close>

text \<open>
  Every store into the trap frame and every access to a control and status register, in order: the
  frame, the vector and the comparator are set before the interrupts are enabled one by one, and the
  last write enables them all.
\<close>

definition interrupt_init_trace :: "allocation \<Rightarrow> u64 \<Rightarrow> 'a system_scheme \<Rightarrow> io_event list" where
  "interrupt_init_trace al pa s = frame_trace al s @
     [Csr_write Sscratch (kernel_trap_frame s), Csr_write Stvec pa, Csr_read Time (input 8 s), Csr_write Stimecmp (input 8 s + 10000000),
      Csr_write Sie 0x222, Csr_read Sstatus (input 11 s), Csr_write Sstatus (input 11 s OR 2)]"

lemma allocator_only_input: "allocator_only s s' \<Longrightarrow> input k s' = input k s"
  by (auto simp: allocator_only_def input_def)

lemma input_append: "io_inputs t = io_inputs s \<Longrightarrow> io_events t = io_events s @ es \<Longrightarrow> input k t = input (length es + k) s"
  by (simp add: input_def add.assoc)

lemma boot_interrupts_eq:
  assumes k: "kalloc (4 * PAGE_SIZE) PAGE_SIZE s = Inr (al, s1)" and s2: "s2 = kernel_set_trap_frame al s1"
  shows "kernel_boot_interrupts s =
    and_then (riscv_sv39_virt_to_phys (kernel_page_table s) (fn_asm_trap_handler s) s2) (\<lambda>pa.
      kprintln (SV ''Core local interrupt system initialized.'') [] (s2\<lparr>io_events := io_events s @ interrupt_init_trace al pa s\<rparr>))"
proof -
  note F = kernel_set_trap_frame_correct [OF s2]
  have ao: "allocator_only s s1" by (rule kalloc_only [OF k])
  have eq: "kernel_trap_frame s2 = kernel_trap_frame s" "kernel_page_table s2 = kernel_page_table s"
    "fn_asm_trap_handler s2 = fn_asm_trap_handler s" "io_inputs s2 = io_inputs s"
    using ao by (subst F(8); auto simp: allocator_only_def)+
  have ev: "io_events s2 = io_events s @ frame_trace al s"
  proof -
    have "kernel_trap_frame s1 = kernel_trap_frame s" "pinfo s1 = pinfo s" "io_events s1 = io_events s" using ao by (auto simp: allocator_only_def)
    then show ?thesis using F(7) by (simp add: frame_trace_def allocator_only_input [OF ao])
  qed
  have len: "length (frame_trace al s) = 6" by (simp add: frame_trace_def Let_def)
  have pre: "riscv_sv39_virt_to_phys r va (riscv_sscratch_write v x) = riscv_sv39_virt_to_phys r va x" for r va v and x :: "'a system_scheme"
    by (simp add: csr_defs io_defs record_io_def riscv_sv39_virt_to_phys_def sv39_next_table_def kernel_hhdm_phys_to_virt_def Let_def)
  have cs: "kernel_page_table (riscv_sscratch_write v x) = kernel_page_table x" "fn_asm_trap_handler (riscv_sscratch_write v x) = fn_asm_trap_handler x"
    for v and x :: "'a system_scheme" by (simp_all add: csr_defs io_defs record_io_def)
  show ?thesis
  proof (cases "riscv_sv39_virt_to_phys (kernel_page_table s) (fn_asm_trap_handler s) s2")
    case (Inl h)
    then show ?thesis using k by (simp add: kernel_boot_interrupts_def Let_def pre cs eq flip: s2)
  next
    case (Inr pa)
    then show ?thesis using k by (simp add: kernel_boot_interrupts_def Let_def pre cs eq flip: s2)
      (simp add: csr_defs io_defs record_io_def next_input_def interrupt_init_trace_def input_def eq ev len add.commute eval_nat_numeral)
  qed
qed

lemma set_trap_frame_only:
  fixes s :: "'a system_scheme"
  shows "machine_only s (kernel_set_trap_frame al s)" and "print_buf (kernel_set_trap_frame al s) = print_buf s"
proof -
  note F = kernel_set_trap_frame_correct(8) [OF refl, of al s]
  show "print_buf (kernel_set_trap_frame al s) = print_buf s" by (subst F) simp
  have "kernel_set_trap_frame al s = s\<lparr>kmem := kmem (kernel_set_trap_frame al s), io_events := io_events (kernel_set_trap_frame al s),
      print_buf := print_buf s\<rparr>" by (subst F) simp
  then show "machine_only s (kernel_set_trap_frame al s)" using machine_onlyI by metis
qed

lemma tables_walk:
  assumes inv: "kvspace_inv s (pages @ live)" and sub: "mset live = mset (tables @ others)"
    and sv: "sv39_inv (hhdm_offset s) (kmem s) root tables"
  shows "\<exists>pa. riscv_sv39_virt_to_phys root va s = Inr pa"
proof -
  have "mset (pages @ live) = mset (tables @ pages @ others)" using sub by simp
  from kpage_blocks.inv_perm [OF inv this] sv have "sv39_ok s root tables (pages @ others)" by (simp add: sv39_ok_def)
  from riscv_sv39_virt_to_phys_correct [OF this] show ?thesis by blast
qed

text \<open>The set-up of the interrupts returns, beside a registry and tables that it leaves alone.\<close>

lemma boot_interrupts_run:
  fixes s :: "'a system_scheme"
  assumes inv: "registry_inv roomy plic s ns (tables @ kept)" and rd: "ready (k + 16384) s" and hh: "2 ^ 15 \<le> unat (hhdm_offset s)"
    and frame: "trap_frame_ok s kept" and sv: "sv39_inv (hhdm_offset s) (kmem s) (kernel_page_table s) tables"
  shows "\<exists>s' b. kernel_boot_interrupts s = Inr s' \<and> registry_inv roomy plic s' ns ((b, 16384) # tables @ kept) \<and>
    ready k s' \<and> frame_hartid (kernel_trap_frame s) s' = bsp_hartid (pinfo s) \<and> keeps_drivers s s' \<and>
    agree_on (covered (tables @ kept) - extent (kernel_trap_frame s) 552) (kmem s') (kmem s)"
proof -
  let ?f = "kernel_trap_frame s" and ?kept = "tables @ kept"
  have con: "console s" and fr: "k + 16384 < spare s" using rd by (simp_all add: ready_def)
  have arena: "arena_in roomy (driver_node_arena s) s (nodes ns) ((plic_driver_map plic s, 8192) # ?kept)"
    using inv by (simp add: registry_inv_def registry_arena_def)
  then obtain pages where pg: "roomy s (pages @ (plic_driver_map plic s, 8192) # ?kept)" by (auto simp: arena_in_def)
  have n: "ALIGN_UP (4 * PAGE_SIZE :: u64) PAGE_SIZE = 16384" by (simp add: ALIGN_UP_def)
  have req: "pmm_request_ok (hhdm_offset s) 12 (ALIGN_UP (4 * PAGE_SIZE) PAGE_SIZE)"
    unfolding n using hh by (simp add: pmm_request_ok_def)
  have n0: "0 < unat (ALIGN_UP (4 * PAGE_SIZE) PAGE_SIZE)" unfolding n by simp
  obtain al s1 where kal: "kalloc (4 * PAGE_SIZE) PAGE_SIZE s = Inr (al, s1)"
    using roomy_kalloc [OF pg req n0] fr unfolding n by auto
  let ?kept1 = "(alloc_buffer al, 16384) # ?kept"
  have r1: "registry_inv roomy plic s1 ns ?kept1" "agree_on (covered ?kept) (kmem s1) (kmem s)"
    using rmanager.registry_kalloc [OF inv req n0 kal] unfolding n by simp_all
  have ao: "allocator_only s s1" by (rule kalloc_only [OF kal])
  have f1: "spare s \<le> spare s1 + 16384"
    using spare_kalloc [OF roomy_kvspace [OF pg] req kal] unfolding n by simp
  define s2 where "s2 = kernel_set_trap_frame al s1"
  note F = kernel_set_trap_frame_correct [OF s2_def] and only = set_trap_frame_only [where al = al and s = s1, folded s2_def]
  have eq: "kernel_trap_frame s1 = ?f" "pinfo s1 = pinfo s" using ao by (auto simp: allocator_only_def)
  have sub: "extent ?f 552 \<subseteq> covered kept" using frame by (simp add: trap_frame_ok_def)
  have ag2: "agree_on (- covered ?kept1) (kmem s2) (kmem s1)" using sub F(6) by (auto simp: eq intro: agree_on_mono)
  have r2: "registry_inv roomy plic s2 ns ?kept1" by (rule rmanager.registry_kept [OF r1(1) only(1) ag2])
  have c2: "console s2" using con ao only(2) machine_only_fields(1) [OF only(1)] by (auto simp: console_def print_buf_ok_def allocator_only_def)
  obtain pages2 where "roomy s2 (pages2 @ (plic_driver_map plic s2, 8192) # ?kept1)"
    using r2 by (auto simp: registry_inv_def registry_arena_def arena_in_def)
  note k2 = roomy_kvspace [OF this]
  have "all_apart ?kept" using kpages.kinv_apart [OF k2] by (auto simp: all_apart_append)
  then have dj: "covered tables \<inter> covered kept = {}" by (simp only: all_apart_append_covered)
  have ag: "agree_on (covered ?kept - extent ?f 552) (kmem s2) (kmem s)"
    using agree_on_trans [OF agree_on_mono [OF F(6)] agree_on_mono [OF r1(2)]] by (auto simp: eq)
  have "agree_on (covered tables) (kmem s2) (kmem s)" using sub dj by (intro agree_on_mono [OF ag]) auto
  then have "sv39_inv (hhdm_offset s) (kmem s2) (kernel_page_table s) tables" using sv39_inv_agree [OF sv] by blast
  moreover have "hhdm_offset s2 = hhdm_offset s" using ao by (subst F(8)) (auto simp: allocator_only_def)
  ultimately obtain pa where pa: "riscv_sv39_virt_to_phys (kernel_page_table s) (fn_asm_trap_handler s) s2 = Inr pa"
    using tables_walk [OF k2, of tables "(plic_driver_map plic s2, 8192) # (alloc_buffer al, 16384) # kept"] by auto
  let ?t = "s2\<lparr>io_events := io_events s @ interrupt_init_trace al pa s\<rparr>"
  have "console ?t" using c2 by (simp add: console_def print_buf_ok_def)
  moreover have "printable (kmem ?t) (SV ''Core local interrupt system initialized.'') []" by (rule printable_plain) (simp add: SV_def)
  ultimately obtain s' where p: "kprintln (SV ''Core local interrupt system initialized.'') [] ?t = Inr s'" "console s'" "machine_only ?t s'" "kmem s' = kmem ?t"
    using console_println by blast
  have run: "kernel_boot_interrupts s = Inr s'" by (simp add: boot_interrupts_eq [OF kal s2_def] pa p(1))
  have t: "machine_only s2 ?t" using machine_onlyI [where s = s2 and m = "kmem s2" and buf = "print_buf s2"] by simp
  then have m: "machine_only s2 s'" by (rule machine_only_trans [OF _ p(3)])
  have km: "kmem s' = kmem s2" by (simp add: p(4))
  have "registry_inv roomy plic s' ns ?kept1" by (rule rmanager.registry_same [OF r2 m km])
  moreover have "spare s2 = spare s1" by (rule machine_only_room(2) [OF only(1)])
  then have "ready k s'" using p(2) machine_only_room(2) [OF m] f1 fr by (simp add: ready_def)
  moreover have "frame_hartid ?f s' = bsp_hartid (pinfo s)" using F(5) by (simp add: frame_hartid_def get64_def km eq)
  moreover have "keeps_drivers s s'"
    using keeps_drivers_trans [OF allocator_only_keeps [OF ao] keeps_drivers_trans [OF machine_only_keeps [OF only(1)] machine_only_keeps [OF m]]] .
  moreover have "agree_on (covered ?kept - extent ?f 552) (kmem s') (kmem s)" using ag by (simp add: km)
  ultimately show ?thesis using run by (intro exI [of _ s'] exI [of _ "alloc_buffer al"]) simp
qed

section \<open>The wait loop\<close>

text \<open>A state from which every timer and external interrupt is served, however many came before.\<close>

definition serving :: "addr \<Rightarrow> 'a system_scheme \<Rightarrow> bool" where
  "serving frame s \<longleftrightarrow> (\<forall>t sepc stval scause sstatus. interrupts frame s t \<longrightarrow> bit scause 63 \<longrightarrow>
     scause AND 0xFFF \<in> {ipt IPT_TYPE_TIMER, ipt IPT_TYPE_EXTERNAL} \<longrightarrow> (input 0 t :: u32) < 1024 \<longrightarrow>
     (\<exists>u. kernel_c_trap_handler sepc stval scause sstatus frame t = Inr (sepc, u) \<and> interrupts frame s u))"

lemma registry_serving:
  assumes "registry_inv kvspace_inv plic s ns kept" and "devices_get_plic_driver (ucast (frame_hartid frame s)) s = plic"
    and "frame \<noteq> 0" and "put s \<noteq> None" and "print_buf_ok s"
  shows "serving frame s"
  unfolding serving_def using always_served [OF assms(1-3) _ assms(5)] assms(4) by blast

text \<open>What the end of the boot relies on: the state once the device tree is parsed.\<close>

definition start_ok :: "(addr \<times> nat) list \<Rightarrow> (addr \<times> nat) list \<Rightarrow> forest \<Rightarrow> 'a system_scheme \<Rightarrow> bool" where
  "start_ok tables kept f s \<longleftrightarrow> roomy s (tables @ kept) \<and> sv39_inv (hhdm_offset s) (kmem s) (kernel_page_table s) tables \<and>
     trap_frame_ok s kept \<and> console s \<and> 2 ^ 15 \<le> unat (hhdm_offset s) \<and> bsp_hartid (pinfo s) < 512 \<and>
     fn_uart_handle_interrupt s \<noteq> 0 \<and> device_tree_ok kept f s \<and> 32768 + walk_cost (kmem s) (preorder f) < spare s"

lemma registry_roomy: "registry_inv roomy plic s ns kept \<Longrightarrow> registry_inv kvspace_inv plic s ns kept"
  by (auto simp: registry_inv_def registry_arena_def intro: arena_roomy)

text \<open>The devices are set up beside the tables and the trap frame.\<close>

lemma boot_devices_run:
  fixes s :: "'a system_scheme"
  assumes ok: "start_ok tables kept f s" and usable: "plic_usable (kmem s) f" and virtio: "\<forall>n \<in> set (preorder f). \<not> is_virtio (kmem s) n"
  obtains s' ns where "kernel_boot_devices s = Inr s'" and "keeps_boot s s'" and "map_capacity s' = 512" and "ready (0 + 16384) s'"
    and "registry_inv roomy (devices_get_plic_driver (ucast (bsp_hartid (pinfo s))) s') s' ns (tables @ (hart_plic_map s', 4096) # kept)"
    and "agree_on (covered (tables @ kept)) (kmem s') (kmem s)"
proof -
  let ?hart = "ucast (bsp_hartid (pinfo s)) :: u32" and ?kept = "tables @ kept"
  have ok: "roomy s ?kept" "console s" "fn_uart_handle_interrupt s \<noteq> 0" "2 ^ 14 \<le> unat (hhdm_offset s)" "bsp_hartid (pinfo s) < 512"
    and tree0: "device_tree_ok kept f s"
    and fr: "16384 + walk_cost (kmem s) (preorder f) + 16384 < spare s" using ok by (simp_all add: start_ok_def)
  have hart: "?hart < 512" using ok(5) by (simp add: word_less_nat_alt unsigned_ucast_eq take_bit_nat_eq_self)
  have tree: "device_tree_ok ?kept f s" using device_tree_agree(1) [OF tree0 agree_on_refl refl, of ?kept] by simp
  obtain s1 where d: "devices_init ?hart s = Inr s1" "ready 16384 s1"
    using devices_init_safely [OF ok(1,2,4) hart ok(3) tree fr] usable virtio by (auto simp: safely_def split: sum.splits)
  note D = rmanager.devices_init_correct [OF ok(1,4) hart ok(3) d(1)]
  let ?plic = "devices_get_plic_driver ?hart s1" and ?map = "hart_plic_map s1"
  obtain ns where R: "registry_inv roomy ?plic s1 ns ((?map, 4096) # ?kept)" "agree_on (covered ?kept) (kmem s1) (kmem s)"
    using D by metis
  have pr: "printable (kmem s1) (SV ''Device driver initialization complete.'') []" by (rule printable_plain) (simp add: SV_def)
  have "console s1" using d(2) by (simp add: ready_def)
  from console_println [OF this pr] obtain s' where
    p: "kprintln (SV ''Device driver initialization complete.'') [] s1 = Inr s'" "console s'" "machine_only s1 s'" "kmem s' = kmem s1"
    by blast
  have kd: "keeps_drivers s1 s'" by (rule machine_only_keeps [OF p(3)])
  have kb: "keeps_boot s s'" using devices_init_keeps [OF d(1)] kd by (auto simp: keeps_defs)
  have map: "hart_plic_map s' = ?map" "map_capacity s' = 512" using kd D by (simp_all add: keeps_defs)
  have "devices_get_plic_driver ?hart s' = ?plic" using kd by (simp add: devices_get_plic_driver_def get64_def p(4) keeps_defs)
  moreover have "registry_inv roomy ?plic s' ns ((?map, 4096) # ?kept)" by (rule rmanager.registry_same [OF R(1) p(3,4)])
  then have "registry_inv roomy ?plic s' ns (tables @ (?map, 4096) # kept)" by (rule rmanager.registry_perm) simp
  moreover have "kernel_boot_devices s = Inr s'" by (simp add: kernel_boot_devices_def d(1) p(1))
  moreover have "ready (0 + 16384) s'" using p(2) d(2) machine_only_room(2) [OF p(3)] by (simp add: ready_def)
  moreover have "agree_on (covered ?kept) (kmem s') (kmem s)" using R(2) by (simp add: p(4))
  ultimately show thesis using that kb map by simp
qed

text \<open>The map of the controllers keeps its contents while the trap frame is filled in.\<close>

lemma frame_beside_map:
  assumes inv: "registry_inv roomy plic s ns (tables @ (hpm, 4096) # kept)" and frame: "extent f 552 \<subseteq> covered kept"
    and ag: "agree_on (covered (tables @ (hpm, 4096) # kept) - extent f 552) m (kmem s)" and h: "h < 512"
  shows "load64 m (hpm + 8 * ucast (h :: u32)) = load64 (kmem s) (hpm + 8 * ucast h)"
proof -
  obtain pages where "roomy s (pages @ (plic_driver_map plic s, 8192) # tables @ (hpm, 4096) # kept)"
    using inv by (auto simp: registry_inv_def registry_arena_def arena_in_def)
  from kpages.kinv_apart [OF roomy_kvspace [OF this]] have "all_apart ([(hpm, 4096)] @ kept)"
    by (simp add: all_apart_append)
  then have "covered [(hpm, 4096)] \<inter> covered kept = {}" by (simp only: all_apart_append_covered)
  then have "extent hpm 4096 \<inter> extent f 552 = {}" using frame by auto
  then show ?thesis using hart_slot [OF h, of hpm] by (intro load64_agree [OF ag]) auto
qed

lemma boot_interrupts_start:
  fixes s :: "'a system_scheme"
  assumes inv: "registry_inv roomy (devices_get_plic_driver (ucast (bsp_hartid (pinfo s))) s) s ns (tables @ (hart_plic_map s, 4096) # kept)"
    and cap: "map_capacity s = 512" and hart: "bsp_hartid (pinfo s) < 512" and rd: "ready (0 + 16384) s"
    and hh: "2 ^ 15 \<le> unat (hhdm_offset s)" and frame: "trap_frame_ok s kept"
    and sv: "sv39_inv (hhdm_offset s) (kmem s) (kernel_page_table s) tables"
  shows "\<exists>s' s''. kernel_boot_interrupts s = Inr s' \<and> kprintln (SV ''Entering wait loop.'') [] s' = Inr s'' \<and> serving (kernel_trap_frame s) s''"
proof -
  let ?f = "kernel_trap_frame s" and ?map = "hart_plic_map s" and ?hart = "ucast (bsp_hartid (pinfo s)) :: u32"
  let ?plic = "devices_get_plic_driver ?hart s"
  have fo: "trap_frame_ok s ((?map, 4096) # kept)" using frame by (auto simp: trap_frame_ok_def)
  obtain s' b where I: "kernel_boot_interrupts s = Inr s'" "registry_inv roomy ?plic s' ns ((b, 16384) # tables @ (?map, 4096) # kept)"
    "ready 0 s'" "frame_hartid ?f s' = bsp_hartid (pinfo s)" "keeps_drivers s s'"
    "agree_on (covered (tables @ (?map, 4096) # kept) - extent ?f 552) (kmem s') (kmem s)"
    using boot_interrupts_run [OF inv rd hh fo sv] by blast
  have "printable (kmem s') (SV ''Entering wait loop.'') []" by (rule printable_plain) (simp add: SV_def)
  moreover have "console s'" using I(3) by (simp add: ready_def)
  ultimately obtain s'' where
    q: "kprintln (SV ''Entering wait loop.'') [] s' = Inr s''" "console s''" "machine_only s' s''" "kmem s'' = kmem s'"
    using console_println by blast
  have R: "registry_inv kvspace_inv ?plic s'' ns ((b, 16384) # tables @ (?map, 4096) # kept)"
    by (rule registry_roomy [OF rmanager.registry_same [OF I(2) q(3,4)]])
  have k: "hart_plic_map s'' = ?map" "map_capacity s'' = 512" using I(5) machine_only_keeps [OF q(3)] cap by (simp_all add: keeps_defs)
  have h: "?hart < 512" using hart by (simp add: word_less_nat_alt unsigned_ucast_eq take_bit_nat_eq_self)
  have "devices_get_plic_driver ?hart s'' = ?plic"
    using frame_beside_map [OF inv _ I(6) h] frame k cap by (simp add: devices_get_plic_driver_def get64_def q(4) trap_frame_ok_def)
  moreover have "frame_hartid ?f s'' = bsp_hartid (pinfo s)" using I(4) by (simp add: frame_hartid_def get64_def q(4))
  ultimately have "serving ?f s''" using registry_serving [OF R] frame q(2) by (simp add: trap_frame_ok_def console_def)
  then show ?thesis using I(1) q(1) by blast
qed

lemma kernel_start_runs:
  fixes s :: "'a system_scheme"
  assumes ok: "start_ok tables kept f s" and "plic_usable (kmem s) f" and "\<forall>n \<in> set (preorder f). \<not> is_virtio (kmem s) n"
  shows "\<exists>t s' s''. kernel_boot_devices s = Inr t \<and> console t \<and> kernel_boot_interrupts t = Inr s' \<and>
    kprintln (SV ''Entering wait loop.'') [] s' = Inr s'' \<and> serving (kernel_trap_frame s) s''"
proof -
  obtain t ns where D: "kernel_boot_devices s = Inr t" "keeps_boot s t" "map_capacity t = 512" "ready (0 + 16384) t"
    "registry_inv roomy (devices_get_plic_driver (ucast (bsp_hartid (pinfo s))) t) t ns (tables @ (hart_plic_map t, 4096) # kept)"
    "agree_on (covered (tables @ kept)) (kmem t) (kmem s)"
    by (rule boot_devices_run [OF assms])
  have k: "pinfo t = pinfo s" "kernel_trap_frame t = kernel_trap_frame s" "kernel_page_table t = kernel_page_table s"
    "hhdm_offset t = hhdm_offset s" using D(2) by (simp_all add: keeps_defs)
  have ok: "bsp_hartid (pinfo t) < 512" "2 ^ 15 \<le> unat (hhdm_offset t)" "trap_frame_ok t kept"
    and sv: "sv39_inv (hhdm_offset s) (kmem s) (kernel_page_table s) tables"
    using ok by (simp_all add: start_ok_def k trap_frame_ok_def)
  have "sv39_inv (hhdm_offset t) (kmem t) (kernel_page_table t) tables"
    unfolding k using sv39_inv_agree [OF sv agree_on_mono [OF D(6)]] by auto
  from boot_interrupts_start [OF D(5) [folded k(1)] D(3) ok(1) D(4) ok(2,3) this] D(1,4)
  show ?thesis by (simp add: k ready_def)
qed

section \<open>A concrete boot\<close>

lemma demo_starts:
  obtains s :: system where "start_ok demo_tables demo_page demo_tree s" and "plic_usable (kmem s) demo_tree"
    and "\<forall>n \<in> set (preorder demo_tree). \<not> is_virtio (kmem s) n" and "kernel_trap_frame s = 0x20800"
proof -
  obtain s :: system where s: "roomy s (demo_tables @ demo_page)" "console s" "hhdm_offset s = 0xFFFFFFC000000000"
    "fn_uart_handle_interrupt s \<noteq> 0" "device_tree_ok demo_page demo_tree s" "walk_cost (kmem s) (preorder demo_tree) = 8192" "spare s = 0x380000"
    "kernel_trap_frame s = 0x20800" "bsp_hartid (pinfo s) = 0" "kernel_page_table s = 0x30000" "kmem s ` extent 0x30000 4096 \<subseteq> {0}"
    and t: "plic_usable (kmem s) demo_tree" "\<forall>n \<in> set (preorder demo_tree). \<not> is_virtio (kmem s) n"
    by (rule demo_booted)
  have sv: "sv39_inv (hhdm_offset s) (kmem s) (kernel_page_table s) demo_tables"
    using sv39_inv_zero_root(1) [OF s(11)] by (simp add: s(10))
  have frame: "trap_frame_ok s demo_page"
    using extent_field [of "0x800" 552 "0x1000" "0x20000"] by (simp add: trap_frame_ok_def s(8))
  have "start_ok demo_tables demo_page demo_tree s" unfolding start_ok_def using s sv frame by simp
  then show thesis using that t s(8) by blast
qed

section \<open>Properties\<close>

text \<open>
  C16: the interrupts are set up in an order that is safe: the trace of the stores into the trap frame
  and of the accesses to the control registers is exactly this one.  The stack, its allocation, the
  page table and the hart's number are stored into the frame first, then the scratch register, the
  vector and the comparator are written, only then are the causes enabled in \<^verbatim>\<open>sie\<close>, and the last
  write, to \<^verbatim>\<open>sstatus\<close>, enables the interrupts as a whole.  The vector is the translation of the trap
  entry's address, the frame holds what was stored, and the message on the console comes after all of it.
\<close>

theorem interrupt_init_order:
  assumes "put s = Some f" and "print_buf_ok s" and "kernel_boot_interrupts s = Inr s'"
  shows "\<exists>al s1 s2 pa. kalloc (4 * PAGE_SIZE) PAGE_SIZE s = Inr (al, s1) \<and>
    get64 (kernel_trap_frame s + 512) s2 = input 3 s \<and> get64 (kernel_trap_frame s + 520) s2 = alloc_buffer al + alloc_size al \<and>
    get64 (kernel_trap_frame s + 536) s2 = alloc_buffer al \<and> get64 (kernel_trap_frame s + 544) s2 = alloc_size al \<and> frame_hartid (kernel_trap_frame s) s2 = bsp_hartid (pinfo s) \<and>
    riscv_sv39_virt_to_phys (kernel_page_table s) (fn_asm_trap_handler s) s2 = Inr pa \<and>
    io_events s2 = io_events s @ interrupt_init_trace al pa s \<and>
    sends (SV ''Core local interrupt system initialized.'' @ [10]) s2 s'"
proof -
  obtain al s1 where k: "kalloc (4 * PAGE_SIZE) PAGE_SIZE s = Inr (al, s1)"
    using assms(3) by (auto simp: kernel_boot_interrupts_def run_eq_Inr)
  have ao: "allocator_only s s1" by (rule kalloc_only [OF k])
  define s2 where "s2 = kernel_set_trap_frame al s1"
  note F = kernel_set_trap_frame_correct [OF s2_def]
  let ?msg = "SV ''Core local interrupt system initialized.''"
  obtain pa where pa: "riscv_sv39_virt_to_phys (kernel_page_table s) (fn_asm_trap_handler s) s2 = Inr pa"
    and p: "kprintln ?msg [] (s2\<lparr>io_events := io_events s @ interrupt_init_trace al pa s\<rparr>) = Inr s'"
    using assms(3) by (auto simp: boot_interrupts_eq [OF k s2_def] run_eq_Inr)
  let ?t = "s2\<lparr>io_events := io_events s @ interrupt_init_trace al pa s\<rparr>"
  have eq: "kernel_trap_frame s1 = kernel_trap_frame s" "pinfo s1 = pinfo s" using ao by (auto simp: allocator_only_def)
  have "put ?t = Some f" "print_buf_ok ?t"
    using assms(1,2) ao machine_only_fields(1) [OF set_trap_frame_only(1) [where al = al and s = s1]] set_trap_frame_only(2) [where al = al and s = s1]
    by (auto simp: print_buf_ok_def allocator_only_def simp flip: s2_def)
  from kprintln_sends [OF this, of ?msg "[]"] p have "sends (?msg @ [10]) ?t s'" by (simp add: SV_def)
  moreover have "riscv_sv39_virt_to_phys (kernel_page_table s) (fn_asm_trap_handler s) ?t = Inr pa"
    unfolding pa [symmetric] by (simp add: riscv_sv39_virt_to_phys_def sv39_next_table_def kernel_hhdm_phys_to_virt_def Let_def)
  ultimately show ?thesis
    using k F(1-5) allocator_only_input [OF ao, of 3] by (intro exI [of _ al] exI [of _ s1] exI [of _ ?t] exI [of _ pa]) (simp add: eq get64_def frame_hartid_def)
qed

theorem interrupt_init_order_witness:
  "\<exists>(s :: system) (s' :: system) al pa. kernel_boot_interrupts s = Inr s' \<and>
    (\<exists>ts. io_events s' = io_events s @ interrupt_init_trace al pa s @ ts)"
proof -
  obtain s :: system where s: "start_ok demo_tables demo_page demo_tree s" "plic_usable (kmem s) demo_tree"
    "\<forall>n \<in> set (preorder demo_tree). \<not> is_virtio (kmem s) n" "kernel_trap_frame s = 0x20800" by (rule demo_starts)
  obtain t s' :: system where d: "console t" "kernel_boot_interrupts t = Inr s'" using kernel_start_runs [OF s(1-3)] by blast
  obtain f where "put t = Some f" "print_buf_ok t" using d(1) by (auto simp: console_def)
  from interrupt_init_order [OF this d(2)] obtain al pa and s2 :: system where "io_events s2 = io_events t @ interrupt_init_trace al pa t"
    "sends (SV ''Core local interrupt system initialized.'' @ [10]) s2 s'" by blast
  then have "\<exists>ts. io_events s' = io_events t @ interrupt_init_trace al pa t @ ts" by (auto simp: sends_def emit_def)
  then show ?thesis using d(2) by blast
qed

end
