(* ===== verification/Memmap.thy ===== *)
theory Memmap
  imports Kernel_Entry Device_Runs
begin

text \<open>
  Physical memory at boot: the manager is initialised and given the usable entries of the boot
  loader's memory map, one by one.  Which regions it ends up with is said by a fold over the list of
  the entries alone; the loop over the map in memory computes it, and panics where the fold stops.
\<close>

section \<open>Which entries are accepted\<close>

text \<open>The whole pages of a region, and whether the manager takes them beside those it has.\<close>

definition whole_pages :: "u64 \<times> u64 \<Rightarrow> u64 \<times> u64" where
  "whole_pages r = (let ab = ALIGN_UP (fst r) PAGE_SIZE in (ab, ALIGN_DOWN (snd r - (ab - fst r)) PAGE_SIZE))"

definition accepts :: "(u64 \<times> u64) list \<Rightarrow> u64 \<times> u64 \<Rightarrow> bool" where
  "accepts rs r \<longleftrightarrow> length rs < REGION_COUNT \<and> PAGE_SIZE \<le> snd (whole_pages r) \<and>
     \<not> list_ex (\<lambda>(b, z). b \<le> fst (whole_pages r) \<and> fst (whole_pages r) \<le> b + z) rs"

fun accept_all :: "(u64 \<times> u64) list \<Rightarrow> (u64 \<times> u64) list \<Rightarrow> (u64 \<times> u64) list option" where
  "accept_all rs [] = Some rs"
| "accept_all rs (r # us) = (if accepts rs r then accept_all (rs @ [whole_pages r]) us else None)"

text \<open>The entries of the map, of which the usable ones are handed over.\<close>

definition usable :: "(u64 \<times> u64 \<times> u64) list \<Rightarrow> (u64 \<times> u64) list" where
  "usable es = map (\<lambda>(b, l, t). (b, l)) (filter (\<lambda>(b, l, t). t = LIMINE_MEMMAP_USABLE) es)"

lemma usable_simps [simp]:
  "usable [] = []" "usable ((b, l, t) # es) = (if t = LIMINE_MEMMAP_USABLE then (b, l) # usable es else usable es)"
  by (simp_all add: usable_def)

section \<open>The manager while it is filled\<close>

definition managed :: "'a kernel_scheme \<Rightarrow> (u64 \<times> u64) list" where
  "managed s = map (\<lambda>r. (region_base r, region_size r)) (take (unat (region_count s)) (regions s))"

definition managing :: "'a kernel_scheme \<Rightarrow> (addr \<times> nat) list \<Rightarrow> bool" where
  "managing s live \<longleftrightarrow> policy s = PMM_POLICY_FIRST_FIT \<and> unat (free_bytes s) = sum_list (map (\<lambda>(b, z). unat z) (managed s)) \<and>
     (\<exists>bss. pmm_inv s bss live \<and> (\<forall>j < length bss. length (bss ! j) \<le> 1) \<and> 98 \<le> unat (free_blocks (block_arena s)) + length bss \<and>
        unat (free_bytes s) = (\<Sum>j < length bss. pb_sizes (kmem s) (bss ! j)))"

lemma managing_one_each: "managing s live \<Longrightarrow> one_each s live"
proof -
  assume m: "managing s live"
  then obtain bss where inv: "pmm_inv s bss live" and b: "\<forall>j < length bss. length (bss ! j) \<le> 1" "98 \<le> unat (free_blocks (block_arena s)) + length bss"
    "unat (free_bytes s) = (\<Sum>j < length bss. pb_sizes (kmem s) (bss ! j))" by (auto simp: managing_def)
  have "length bss \<le> 32" using inv by (simp add: pmm_inv_def REGION_COUNT_def)
  then have "16 \<le> free_blocks (block_arena s)" using b(2) by (simp add: word_le_nat_alt)
  then show ?thesis using m inv b by (auto simp: one_each_def managing_def)
qed

text \<open>What the manager changes of the system.\<close>

definition manager_only :: "'a kernel_scheme \<Rightarrow> 'a kernel_scheme \<Rightarrow> bool" where
  "manager_only s s' \<longleftrightarrow> s' = s\<lparr>block_arena := block_arena s', kmem := kmem s', regions := regions s', region_count := region_count s',
      total_bytes := total_bytes s', free_bytes := free_bytes s'\<rparr>"

lemma list_ex_overlaps:
  "list_ex (region_overlaps a) rs \<longleftrightarrow> list_ex (\<lambda>(b, z). b \<le> a \<and> a \<le> b + z) (map (\<lambda>r. (region_base r, region_size r)) rs)"
  by (induction rs) (simp_all add: region_overlaps_def)

lemma add_region_managing:
  fixes s :: "'a kernel_scheme"
  assumes m: "managing s ((hhdm_offset s + b, unat l) # live)" and nw: "unat (hhdm_offset s) + unat b + unat l < 2 ^ 64"
    and sz: "PAGE_SIZE \<le> l" and tot: "unat (free_bytes s) + unat l < 2 ^ 64"
  shows "if accepts (managed s) (b, l)
    then \<exists>s'. pmm_add_region b l s = Inr (ec EC_SUCCESS, s') \<and> managing s' live \<and> managed s' = managed s @ [whole_pages (b, l)] \<and>
      agree_on (covered live) (kmem s') (kmem s) \<and> unat (free_bytes s') \<le> unat (free_bytes s) + unat l \<and> manager_only s s'
    else \<exists>err \<in> {EC_PMM_REGION_LIST_FULL, EC_PMM_REGION_TOO_SMALL, EC_PMM_REGION_ALREADY_MANAGED}. pmm_add_region b l s = Inr (ec err, s)"
proof -
  let ?ab = "ALIGN_UP b PAGE_SIZE" let ?asz = "ALIGN_DOWN (l - (?ab - b)) PAGE_SIZE"
  have wp: "whole_pages (b, l) = (?ab, ?asz)" by (simp add: whole_pages_def Let_def)
  obtain bss where inv: "pmm_inv s bss ((hhdm_offset s + b, unat l) # live)"
    and bs: "\<forall>j < length bss. length (bss ! j) \<le> 1" "98 \<le> unat (free_blocks (block_arena s)) + length bss"
      "unat (free_bytes s) = (\<Sum>j < length bss. pb_sizes (kmem s) (bss ! j))" using m by (auto simp: managing_def)
  have len: "unat (region_count s) = length bss" "length bss \<le> REGION_COUNT" "length (regions s) = REGION_COUNT" using inv by (simp_all add: pmm_inv_def)
  have man: "length (managed s) = length bss" "list_ex (\<lambda>(b, z). b \<le> a \<and> a \<le> b + z) (managed s) = list_ex (region_overlaps a) (take (length bss) (regions s))" for a
    using len by (simp_all add: managed_def list_ex_overlaps)
  have fb: "free_blocks (block_arena s) \<noteq> 0" using bs(2) len(2) by (auto simp: REGION_COUNT_def)
  have "unat b + unat l < 2 ^ 64" using nw by simp
  note ar = add_region_arith [OF this sz]
  show ?thesis
  proof (cases "accepts (managed s) (b, l)")
    case False
    consider (full) "length bss = REGION_COUNT" | (small) "length bss < REGION_COUNT" "\<not> PAGE_SIZE \<le> ?asz"
      | (over) "length bss < REGION_COUNT" "PAGE_SIZE \<le> ?asz" "list_ex (region_overlaps ?ab) (take (length bss) (regions s))"
      using False len(2) by (fastforce simp: accepts_def wp man)
    then show ?thesis
    proof cases
      case full
      then show ?thesis using False len by (simp add: pmm_add_region_def)
    next
      case small
      then show ?thesis using False len by (simp add: pmm_add_region_def Let_def)
    next
      case over
      then show ?thesis using False len ar(3) by (simp add: pmm_add_region_def Let_def)
    qed
  next
    case True
    then have c: "length bss < REGION_COUNT" "PAGE_SIZE \<le> ?asz" "\<not> list_ex (region_overlaps ?ab) (take (length bss) (regions s))"
      by (simp_all add: accepts_def wp man)
    obtain e s' where run: "pmm_add_region b l s = Inr (ec EC_SUCCESS, s')" and inv': "pmm_inv s' (bss @ [[e]]) live"
      and e: "pb_size (kmem s') e = ?asz" and f: "policy s' = policy s" "agree_on (covered live) (kmem s') (kmem s)"
        "free_bytes s' = free_bytes s + ?asz" "free_blocks (block_arena s') = free_blocks (block_arena s) - 1"
      and rs: "regions s' = (regions s)[length bss := \<lparr>region_base = ?ab, region_size = ?asz, region_free_bytes = ?asz, region_free_blocks = e\<rparr>]"
      and szs: "\<forall>j < length bss. pb_sizes (kmem s') (bss ! j) = pb_sizes (kmem s) (bss ! j)"
      and only: "s' = s\<lparr>block_arena := block_arena s', kmem := kmem s', regions := regions s', region_count := region_count s',
        total_bytes := total_bytes s', free_bytes := free_bytes s'\<rparr>"
      using pmm_add_region_correct [OF inv nw sz fb tot c] by blast
    have rc: "unat (region_count s') = length bss + 1" using inv' by (simp add: pmm_inv_def)
    have man': "managed s' = managed s @ [whole_pages (b, l)]"
      using rs rc len c(1) by (simp add: managed_def wp take_Suc_conv_app_nth)
    have sum: "unat (free_bytes s') = unat (free_bytes s) + unat ?asz"
      using tot ar(6) unfolding f(3) by (intro unat_add_eq) simp
    have fbs: "unat (free_blocks (block_arena s')) = unat (free_blocks (block_arena s)) - 1"
      using bs(2) len(2) unfolding f(4) by (subst unat_sub_eq) (auto simp: word_le_nat_alt REGION_COUNT_def)
    have "managing s' live"
      unfolding managing_def
    proof (intro conjI exI)
      show "policy s' = PMM_POLICY_FIRST_FIT" using m f(1) by (simp add: managing_def)
      show "unat (free_bytes s') = sum_list (map (\<lambda>(b, z). unat z) (managed s'))" using m by (simp add: sum man' wp managing_def)
      show "pmm_inv s' (bss @ [[e]]) live" by (rule inv')
      show "\<forall>j < length (bss @ [[e]]). length ((bss @ [[e]]) ! j) \<le> 1" using bs(1) by (simp add: nth_append)
      show "98 \<le> unat (free_blocks (block_arena s')) + length (bss @ [[e]])" using bs(2) fbs by simp
      show "unat (free_bytes s') = (\<Sum>j < length (bss @ [[e]]). pb_sizes (kmem s') ((bss @ [[e]]) ! j))"
        using szs bs(3) e by (simp add: sum nth_append) (simp add: pb_sizes_def)
    qed
    moreover have "manager_only s s'" unfolding manager_only_def by (rule only)
    moreover have "unat (free_bytes s') \<le> unat (free_bytes s) + unat l" using sum ar(6) by simp
    ultimately show ?thesis using True run man' f(2) by auto
  qed
qed

section \<open>The loop over the map\<close>

text \<open>A memory map in memory that is kept: the response, the list's first pointer and the entries behind it.\<close>

definition memmap_at :: "'a system_scheme \<Rightarrow> (addr \<times> nat) list \<Rightarrow> (u64 \<times> u64 \<times> u64) list \<Rightarrow> bool" where
  "memmap_at s kept es \<longleftrightarrow> (let r = memmap_response (pinfo s); l = get64 (r + 16) s in
     r \<noteq> 0 \<and> extent (r + 8) 16 \<subseteq> covered kept \<and> entry_count s = of_nat (length es) \<and> length es < 2 ^ 32 \<and>
     l \<noteq> 0 \<and> extent l 8 \<subseteq> covered kept \<and> memmap_entries s \<noteq> 0 \<and>
     (\<forall>i < length es. extent (memmap_entry (of_nat i) s) 24 \<subseteq> covered kept \<and>
        es ! i = (get64 (memmap_entry (of_nat i) s) s, get64 (memmap_entry (of_nat i) s + 8) s, get64 (memmap_entry (of_nat i) s + 16) s)))"

lemma memmap_at_agree:
  assumes at: "memmap_at s kept es" and ag: "agree_on (covered kept) (kmem s') (kmem s)" 
    and p: "memmap_response (pinfo s') = memmap_response (pinfo s)"
  shows "memmap_at s' kept es"
proof -
  let ?r = "memmap_response (pinfo s)" let ?l = "get64 (?r + 16) s"
  have A: "extent (?r + 8) 16 \<subseteq> covered kept" "extent ?l 8 \<subseteq> covered kept"
    "\<And>i. i < length es \<Longrightarrow> extent (memmap_entry (of_nat i) s) 24 \<subseteq> covered kept" using at by (simp_all add: memmap_at_def Let_def)
  have g: "get64 a s' = get64 a s" if "extent a 8 \<subseteq> covered kept" for a unfolding get64_def by (rule load64_agree [OF ag that])
  have "extent (?r + 8) 8 \<subseteq> covered kept" "extent (?r + 16) 8 \<subseteq> covered kept"
    using A(1) extent_field [of 0 8 16 "?r + 8"] extent_field [of 8 8 16 "?r + 8"] by (auto simp: add.assoc)
  then have c: "entry_count s' = entry_count s" "get64 (?r + 16) s' = ?l" using g by (simp_all add: entry_count_def p)
  then have m: "memmap_entries s' = memmap_entries s" using g [OF A(2)] by (simp add: memmap_entries_def p)
  then have e: "memmap_entry i s' = memmap_entry i s" for i by (simp add: memmap_entry_def)
  have f: "get64 (memmap_entry (of_nat i) s + k) s' = get64 (memmap_entry (of_nat i) s + k) s" if "i < length es" "unat k + 8 \<le> 24" for i k
    using extent_field [OF that(2), of "memmap_entry (of_nat i) s"] A(3) [OF that(1)] by (intro g) auto
  show ?thesis using at f [of _ 0] f [of _ 8] f [of _ 16] by (simp add: memmap_at_def Let_def p c m e)
qed

text \<open>Where the usable entries lie behind the direct map, and what is assumed of each.\<close>

definition images :: "u64 \<Rightarrow> (u64 \<times> u64) list \<Rightarrow> (addr \<times> nat) list" where
  "images hh us = map (\<lambda>(b, l). (hh + b, unat l)) us"

definition region_fits :: "u64 \<Rightarrow> u64 \<times> u64 \<Rightarrow> bool" where
  "region_fits hh r \<longleftrightarrow> PAGE_SIZE \<le> snd r \<and> unat hh + unat (fst r) + unat (snd r) < 2 ^ 64"

definition total_length :: "(u64 \<times> u64) list \<Rightarrow> nat" where
  "total_length us = sum_list (map (\<lambda>(b, l). unat l) us)"

lemma rejection_panics:
  assumes "err \<in> {EC_PMM_REGION_LIST_FULL, EC_PMM_REGION_TOO_SMALL, EC_PMM_REGION_ALREADY_MANAGED}" and "console s"
  shows "error_is_err (ec err)" and "safely True (and_then (error_string (ec err)) (\<lambda>msg. panic (SV msg) [] s)) P"
proof -
  show "error_is_err (ec err)" using assms(1) by (simp only: error_is_err_ec) auto
  obtain msg where "error_string (ec err) = Inr msg" "chr CHR ''{'' \<notin> set (SV msg)"
    using assms(1) by (auto simp: error_string_def error_top_def error_strings_def SV_def)
  then show "safely True (and_then (error_string (ec err)) (\<lambda>msg. panic (SV msg) [] s)) P"
    using panic_safely [OF assms(2)] by simp
qed

lemma manager_only_refl: "manager_only s s"
  by (simp add: manager_only_def)

lemma manager_only_trans:
  assumes "manager_only s t" and "manager_only t u"
  shows "manager_only s u"
proof -
  obtain a m rs rc tb fb where t: "t = s\<lparr>block_arena := a, kmem := m, regions := rs, region_count := rc, total_bytes := tb, free_bytes := fb\<rparr>"
    using assms(1) unfolding manager_only_def by blast
  show ?thesis using assms(2) unfolding manager_only_def t by simp
qed

lemma manager_only_fields:
  assumes "manager_only s s'"
  shows "put s' = put s" and "print_buf s' = print_buf s" and "hhdm_offset s' = hhdm_offset s"
  by (subst assms [unfolded manager_only_def], simp)+

lemma manager_only_pinfo: "manager_only s s' \<Longrightarrow> pinfo s' = pinfo s"
  by (subst (asm) manager_only_def, erule ssubst) simp

lemma memmap_loop_runs:
  fixes s :: "'a system_scheme"
  assumes "i \<le> length es" and "memmap_at s kept es" and "console s"
    and "managing s (images (hhdm_offset s) (usable (drop i es)) @ kept)"
    and "\<forall>r \<in> set (usable es). region_fits (hhdm_offset s) r" and "unat (free_bytes s) + total_length (usable (drop i es)) < 2 ^ 64"
  shows "\<exists>r. memmap_loop (of_nat i) s = Some r \<and> safely (accept_all (managed s) (usable (drop i es)) = None) r
    (\<lambda>s'. accept_all (managed s) (usable (drop i es)) = Some (managed s') \<and> managing s' kept \<and> manager_only s s' \<and>
      agree_on (covered kept) (kmem s') (kmem s))"
  using assms
proof (induction "length es - i" arbitrary: i s)
  case 0
  then have i: "i = length es" by simp
  have r: "memmap_response (pinfo s) \<noteq> 0" "entry_count s = of_nat (length es)" using "0.prems"(2) by (simp_all add: memmap_at_def Let_def)
  have "memmap_loop (of_nat i) s = Some (Inr s)" using r by (subst memmap_loop.simps) (simp add: i)
  then show ?case using "0.prems"(4) i manager_only_refl by (auto simp: images_def)
next
  case (Suc d)
  then have i: "i < length es" by simp
  note at = Suc.prems(2)
  obtain b l t where e: "es ! i = (b, l, t)" by (cases "es ! i") auto
  have dr: "drop i es = (b, l, t) # drop (Suc i) es" using Cons_nth_drop_Suc [OF i] e by simp
  have M: "memmap_response (pinfo s) \<noteq> 0" "get64 (memmap_response (pinfo s) + 16) s \<noteq> 0" "memmap_entries s \<noteq> 0"
    "entry_count s = of_nat (length es)" "length es < 2 ^ 32"
    "get64 (memmap_entry (of_nat i) s) s = b" "get64 (memmap_entry (of_nat i) s + 8) s = l" "get64 (memmap_entry (of_nat i) s + 16) s = t"
    using at i e by (simp_all add: memmap_at_def Let_def)
  have lt: "(of_nat i :: u64) < entry_count s" unfolding M(4) using i M(5) by (simp add: word_less_nat_alt unat_of_nat)
  have d: "d = length es - Suc i" using Suc.hyps(2) by simp
  have step: "memmap_loop (of_nat i) s = (case memmap_turn (of_nat i) s of Inl h \<Rightarrow> Some (Inl h) | Inr s \<Rightarrow> memmap_loop (of_nat (Suc i)) s)"
    using M(1) lt by (subst memmap_loop.simps) (simp add: of_nat_Suc add.commute split: sum.splits)
  show ?case
  proof (cases "t = LIMINE_MEMMAP_USABLE")
    case False
    then have "memmap_turn (of_nat i) s = Inr s" using M by (simp add: memmap_turn_def)
    then show ?thesis using Suc.hyps(1) [OF d _ at Suc.prems(3)] Suc.prems(4-6) i False by (simp add: step dr)
  next
    case True
    let ?us = "usable (drop (Suc i) es)" and ?live = "images (hhdm_offset s) (usable (drop (Suc i) es)) @ kept"
    have us: "usable (drop i es) = (b, l) # ?us" using True by (simp add: dr)
    have "(b, l) \<in> set (usable es)" using e i True nth_mem [OF i] by (force simp: usable_def)
    then have fit: "unat (hhdm_offset s) + unat b + unat l < 2 ^ 64" "PAGE_SIZE \<le> l" using Suc.prems(5) by (auto simp: region_fits_def)
    have tot: "unat (free_bytes s) + unat l < 2 ^ 64" using Suc.prems(6) by (simp add: us total_length_def)
    have m: "managing s ((hhdm_offset s + b, unat l) # ?live)" using Suc.prems(4) by (simp add: us images_def)
    note A = add_region_managing [OF m fit tot]
    have turn: "memmap_turn (of_nat i) s = and_then (pmm_add_region b l s) (\<lambda>(err, s).
        if error_is_err err then and_then (error_string err) (\<lambda>msg. panic (SV msg) [] s) else Inr s)"
      using M True by (simp add: memmap_turn_def)
    show ?thesis
    proof (cases "accepts (managed s) (b, l)")
      case False
      then obtain err where "err \<in> {EC_PMM_REGION_LIST_FULL, EC_PMM_REGION_TOO_SMALL, EC_PMM_REGION_ALREADY_MANAGED}"
        "pmm_add_region b l s = Inr (ec err, s)" using A by (simp only: if_False) blast
      then have "safely True (memmap_turn (of_nat i) s) (\<lambda>_. False)" using rejection_panics [OF _ Suc.prems(3)] by (simp add: turn)
      then show ?thesis using False by (cases "memmap_turn (of_nat i) s") (auto simp: step us)
    next
      case acc: True
      then obtain s1 where s1: "pmm_add_region b l s = Inr (ec EC_SUCCESS, s1)" "managing s1 ?live" "managed s1 = managed s @ [whole_pages (b, l)]"
        "agree_on (covered ?live) (kmem s1) (kmem s)" "unat (free_bytes s1) \<le> unat (free_bytes s) + unat l" "manager_only s s1"
        using A by auto
      have "\<not> error_is_err (ec EC_SUCCESS)" by (simp only: error_is_err_ec simp_thms)
      then have t1: "memmap_turn (of_nat i) s = Inr s1" by (simp add: turn s1(1) del: ec.simps)
      note F = manager_only_fields [OF s1(6)]
      have ag: "agree_on (covered kept) (kmem s1) (kmem s)" by (rule agree_on_mono [OF s1(4)]) auto
      have at1: "memmap_at s1 kept es" by (rule memmap_at_agree [OF at ag]) (simp add: manager_only_pinfo [OF s1(6)])
      have c1: "console s1" by (rule console_same [OF Suc.prems(3) F(1,2)])
      have "unat (free_bytes s1) + total_length ?us < 2 ^ 64" using Suc.prems(6) s1(5) by (simp add: us total_length_def)
      then obtain r where r: "memmap_loop (of_nat (Suc i)) s1 = Some r" "safely (accept_all (managed s1) ?us = None) r
        (\<lambda>s'. accept_all (managed s1) ?us = Some (managed s') \<and> managing s' kept \<and> manager_only s1 s' \<and> agree_on (covered kept) (kmem s') (kmem s1))"
        using Suc.hyps(1) [OF d _ at1 c1] s1(2) Suc.prems(5) i by (auto simp: F(3))
      have "safely (accept_all (managed s) (usable (drop i es)) = None) r
        (\<lambda>s'. accept_all (managed s) (usable (drop i es)) = Some (managed s') \<and> managing s' kept \<and> manager_only s s' \<and> agree_on (covered kept) (kmem s') (kmem s))"
        using r(2) acc s1(3) by (auto simp: us safely_def split: sum.splits intro: manager_only_trans [OF s1(6)] agree_on_trans [OF _ ag])
      then show ?thesis using r(1) by (simp add: step t1)
    qed
  qed
qed

section \<open>Physical memory at boot\<close>

text \<open>The state the manager starts from, with its static buffer, the usable memory and what is kept all apart.\<close>

definition memory_ok :: "'a system_scheme \<Rightarrow> (addr \<times> nat) list \<Rightarrow> (u64 \<times> u64 \<times> u64) list \<Rightarrow> bool" where
  "memory_ok s kept es \<longleftrightarrow> region_count s = 0 \<and> free_bytes s = 0 \<and> length (regions s) = REGION_COUNT \<and> 2 ^ 13 \<le> unat (hhdm_offset s) \<and>
     initial_buf s \<noteq> 0 \<and> unat (initial_buf s) + 2432 < 2 ^ 64 \<and> 0 \<notin> covered kept \<and>
     all_apart ((initial_buf s, 2432) # images (hhdm_offset s) (usable es) @ kept) \<and> memmap_at s kept es \<and>
     (\<forall>r \<in> set (usable es). region_fits (hhdm_offset s) r) \<and> total_length (usable es) < 2 ^ 64"

lemma managing_roomy:
  assumes "managing s live" and "0 \<notin> covered live" and "2 ^ 13 \<le> unat (hhdm_offset s)"
  shows "roomy s live"
  using assms managing_one_each [OF assms(1)] one_each_inv by (auto simp: roomy_def)

lemma manager_only_keeps: "manager_only s s' \<Longrightarrow> keeps_maps s s'"
  by (subst (asm) manager_only_def, erule ssubst) (simp add: keeps_defs)

lemma boot_memory_runs:
  fixes s :: "'a system_scheme"
  assumes ok: "memory_ok s kept es" and con: "console s"
  shows "safely (accept_all [] (usable es) = None) (kernel_boot_memory s)
    (\<lambda>s'. accept_all [] (usable es) = Some (managed s') \<and> roomy s' kept \<and> console s' \<and>
      unat (free_bytes s') = sum_list (map (\<lambda>(b, z). unat z) (managed s')) \<and> agree_on (covered kept) (kmem s') (kmem s) \<and> keeps_maps s s')"
proof -
  have b: "region_count s = 0" "free_bytes s = 0" "length (regions s) = REGION_COUNT" "hhdm_offset s \<noteq> 0"
    "initial_buf s \<noteq> 0" "unat (initial_buf s) + 2432 < 2 ^ 64" "all_apart ((initial_buf s, 2432) # images (hhdm_offset s) (usable es) @ kept)"
    and hh: "2 ^ 13 \<le> unat (hhdm_offset s)" and z: "0 \<notin> covered kept" using ok by (auto simp: memory_ok_def)
  obtain s1 where s1: "pmm_initialize PMM_POLICY_FIRST_FIT s = Inr s1" "pmm_inv s1 [] (images (hhdm_offset s) (usable es) @ kept)"
    "98 \<le> unat (free_blocks (block_arena s1))" "policy s1 = PMM_POLICY_FIRST_FIT"
    "agree_on (covered (images (hhdm_offset s) (usable es) @ kept)) (kmem s1) (kmem s)"
    and eq: "s1 = s\<lparr>policy := PMM_POLICY_FIRST_FIT, kmem := kmem s1, block_arena := block_arena s1\<rparr>"
    using pmm_initialize_correct [where pol = PMM_POLICY_FIRST_FIT, OF b] by blast
  have f: "hhdm_offset s1 = hhdm_offset s" "free_bytes s1 = 0" "region_count s1 = 0" "pinfo s1 = pinfo s" "put s1 = put s" "print_buf s1 = print_buf s"
    using b by (subst eq; simp)+
  have ag: "agree_on (covered kept) (kmem s1) (kmem s)" by (rule agree_on_mono [OF s1(5)]) auto
  have at: "memmap_at s1 kept es" using ok f by (intro memmap_at_agree [OF _ ag]) (simp_all add: memory_ok_def)
  have c1: "console s1" by (rule console_same [OF con f(5,6)])
  have man: "managed s1 = []" by (simp add: managed_def f(3))
  have m: "managing s1 (images (hhdm_offset s1) (usable (drop 0 es)) @ kept)"
    unfolding managing_def using s1(2-4) by (auto simp: f man)
  obtain r where r: "memmap_loop 0 s1 = Some r" "safely (accept_all [] (usable es) = None) r
    (\<lambda>s'. accept_all [] (usable es) = Some (managed s') \<and> managing s' kept \<and> manager_only s1 s' \<and> agree_on (covered kept) (kmem s') (kmem s1))"
    using memmap_loop_runs [OF _ at c1 m] ok by (auto simp: f man memory_ok_def)
  have run: "kernel_boot_memory s = and_then r (\<lambda>s. kprintln (SV ''PMM initialized with {X} bytes of free memory.'') [pmm_free_memory s] s)"
    by (simp add: kernel_boot_memory_def s1(1) no_hang_def r(1) del: SV_def)
  show ?thesis
    unfolding run
  proof (rule safely_and_then [OF r(2)], elim conjE)
    fix s2 assume s2: "accept_all [] (usable es) = Some (managed s2)" "managing s2 kept" "manager_only s1 s2" "agree_on (covered kept) (kmem s2) (kmem s1)"
    note F = manager_only_fields [OF s2(3)]
    have c2: "console s2" by (rule console_same [OF c1 F(1,2)])
    have "printable (kmem s2) (SV ''PMM initialized with {X} bytes of free memory.'') [pmm_free_memory s2]"
      by (simp add: printable_def SV_def directive_def)
    from console_println [OF c2 this] obtain s' where
      p: "kprintln (SV ''PMM initialized with {X} bytes of free memory.'') [pmm_free_memory s2] s2 = Inr s'" "console s'" "machine_only s2 s'" "kmem s' = kmem s2"
      by blast
    have same: "manager_same s2 s'" using machine_only_same [OF p(3)] by (simp add: kernel_same_def)
    have "roomy s2 kept" using managing_roomy [OF s2(2) z] hh by (simp add: F(3) f(1))
    then have "roomy s' kept" by (simp only: roomy_same [OF same p(4)])
    moreover have "managed s' = managed s2" "free_bytes s' = free_bytes s2" using same by (simp_all add: managed_def manager_same_def)
    moreover have "unat (free_bytes s2) = sum_list (map (\<lambda>(b, z). unat z) (managed s2))" using s2(2) by (simp add: managing_def)
    moreover have "agree_on (covered kept) (kmem s') (kmem s)" unfolding p(4) by (rule agree_on_trans [OF s2(4) ag])
    moreover have "keeps_maps s s1" by (subst eq) (simp add: keeps_defs)
    then have "keeps_maps s s'"
      using manager_only_keeps [OF s2(3)] machine_only_keeps [OF p(3)] by (auto simp: keeps_drivers_def intro: keeps_maps_trans)
    ultimately show "safely (accept_all [] (usable es) = None)
      (kprintln (SV ''PMM initialized with {X} bytes of free memory.'') [pmm_free_memory s2] s2)
      (\<lambda>s'. accept_all [] (usable es) = Some (managed s') \<and> roomy s' kept \<and> console s' \<and>
        unat (free_bytes s') = sum_list (map (\<lambda>(b, z). unat z) (managed s')) \<and> agree_on (covered kept) (kmem s') (kmem s) \<and> keeps_maps s s')"
      using p(1,2) s2(1) by simp
  qed
qed

section \<open>A concrete map\<close>

text \<open>A reserved entry, and two usable ones with a hole between them, in the page at \<open>0x40000\<close>.\<close>

definition demo_map :: "(u64 \<times> u64 \<times> u64) list" where
  "demo_map = [(0x80000000, 0x1000, 1), (0x80001000, 0x400000, 0), (0x80800000, 0x200000, 0)]"

definition map_memory :: mem where
  "map_memory =
     (let m = store64 (store64 (store64 (\<lambda>_. 0) 0x40008 3) 0x40010 0x40100) 0x40100 0x40200;
          m = store64 (store64 (store64 m 0x40200 0x80000000) 0x40208 0x1000) 0x40210 1;
          m = store64 (store64 (store64 m 0x40218 0x80001000) 0x40220 0x400000) 0x40228 0
      in store64 (store64 (store64 m 0x40230 0x80800000) 0x40238 0x200000) 0x40240 0)"

definition map_system :: system where
  "map_system = (idle_system boot_kernel)\<lparr>kmem := map_memory, put := Some Uart_put_char, print_buf := replicate 67 0,
     pinfo := (pinfo (idle_system boot_kernel))\<lparr>memmap_response := 0x40000\<rparr>\<rparr>"

abbreviation map_page :: "(addr \<times> nat) list" where "map_page \<equiv> [(0x40000, 0x1000)]"

lemma map_memory_ok: "memory_ok map_system map_page demo_map" "console map_system"
proof -
  have e: "extent (0x40000 + k) n \<subseteq> covered map_page" if "unat k + n \<le> 0x1000" for k n
    using extent_field [of k n "0x1000" "0x40000"] that by simp
  have f: "memmap_response (pinfo map_system) = 0x40000" "kmem map_system = map_memory" by (simp_all add: map_system_def)
  have l: "load64 map_memory 0x40008 = 3" "load64 map_memory 0x40010 = 0x40100" "load64 map_memory 0x40100 = 0x40200"
    "load64 map_memory 0x40200 = 0x80000000" "load64 map_memory 0x40208 = 0x1000" "load64 map_memory 0x40210 = 1"
    "load64 map_memory 0x40218 = 0x80001000" "load64 map_memory 0x40220 = 0x400000" "load64 map_memory 0x40228 = 0"
    "load64 map_memory 0x40230 = 0x80800000" "load64 map_memory 0x40238 = 0x200000" "load64 map_memory 0x40240 = 0"
    by (simp_all add: map_memory_def Let_def mem_simps)
  have m: "memmap_entries map_system = 0x40200" "entry_count map_system = 3" by (simp_all add: memmap_entries_def entry_count_def f get64_def l)
  have at: "memmap_at map_system map_page demo_map"
    unfolding memmap_at_def Let_def
    using e [where k = "0x8" and n = 16] e [where k = "0x100" and n = 8] e [where k = "0x200" and n = 24] e [where k = "0x218" and n = 24]
      e [where k = "0x230" and n = 24]
    by (simp add: f m l get64_def memmap_entry_def demo_map_def All_less_Suc)
  have u: "usable demo_map = [(0x80001000, 0x400000), (0x80800000, 0x200000)]" by (simp add: demo_map_def)
  have b: "region_count map_system = 0" "free_bytes map_system = 0" "length (regions map_system) = REGION_COUNT"
    "hhdm_offset map_system = 0xFFFFFFC000000000" "initial_buf map_system = 0xFFFFFFFF80000000"
    by (simp_all add: map_system_def boot_kernel_def idle_system_def kernel.extend_def REGION_COUNT_def)
  show "memory_ok map_system map_page demo_map"
    using at unfolding memory_ok_def by (auto simp: u b images_def region_fits_def total_length_def apart_pair extent_disjoint_iff mem_extent)
  show "console map_system" by (simp add: console_def print_buf_ok_def map_system_def)
qed

section \<open>Properties\<close>

text \<open>
  C3: the kernel ends up managing exactly the usable memory of the boot loader's map: with a map in
  memory that is kept, usable entries of at least a page that are apart, and a console, the boot
  accepts the entries in order and stops in a panic exactly if one of them is rejected (a full
  table, no whole page, or a start in or right after memory that is managed already); otherwise the
  regions are the whole pages of the usable entries, all of it is free, one block for each region,
  so that later requests are granted, and the map is still there.
\<close>

theorem boot_memory_manages_map:
  assumes "memory_ok s kept es" and "console s"
  shows "safely (accept_all [] (usable es) = None) (kernel_boot_memory s)
    (\<lambda>s'. accept_all [] (usable es) = Some (managed s') \<and> roomy s' kept \<and>
      unat (free_bytes s') = sum_list (map (\<lambda>(b, z). unat z) (managed s')) \<and> agree_on (covered kept) (kmem s') (kmem s))"
  by (rule safely_mono [OF boot_memory_runs [OF assms]]) simp

theorem boot_memory_manages_map_witness:
  "\<exists>s'. kernel_boot_memory map_system = Inr s' \<and> managed s' = [(0x80001000, 0x400000), (0x80800000, 0x200000)] \<and>
    unat (free_bytes s') = 0x600000 \<and> roomy s' map_page"
proof -
  have acc: "accept_all [] (usable demo_map) = Some [(0x80001000, 0x400000), (0x80800000, 0x200000)]"
    by (simp add: demo_map_def accepts_def whole_pages_def ALIGN_UP_def ALIGN_DOWN_def REGION_COUNT_def)
  obtain s' where s': "kernel_boot_memory map_system = Inr s'"
    and m: "accept_all [] (usable demo_map) = Some (managed s')" "roomy s' map_page" "unat (free_bytes s') = sum_list (map (\<lambda>(b, z). unat z) (managed s'))"
    using boot_memory_manages_map [OF map_memory_ok] acc by (cases "kernel_boot_memory map_system") auto
  have "managed s' = [(0x80001000, 0x400000), (0x80800000, 0x200000)]" using m(1) acc by simp
  then show ?thesis using s' m(2,3) by simp
qed

end
