(* ===== verification/One_Page.thy ===== *)
theory One_Page
  imports Room
begin

text \<open>
  Arenas whose blocks are not a power of two bytes long, as the device tree's are.  Such an arena
  works as long as its first page has blocks left; only its second page goes wrong, because the
  region that is full does not end where its last block does.
\<close>

section \<open>An arena that needs one page at most\<close>

text \<open>How many blocks fit into a page for sure, wherever it lies.\<close>

definition page_blocks :: "u64 \<Rightarrow> nat" where
  "page_blocks bs = (4064 - 2 * (unat bs - 1)) div unat bs"

text \<open>
  The arena is either as it was initialised, and a page has \<open>k\<close> blocks, or \<open>k\<close> blocks are left; what
  it has and what it gave out lie in \<open>pages\<close>.
\<close>

definition untouched :: "slab_alloc \<Rightarrow> bool" where
  "untouched a \<longleftrightarrow> free_blocks a = 0 \<and> block_list a = 0 \<and> current_region a = 0"

definition filled :: "nat \<Rightarrow> slab_alloc \<Rightarrow> mem \<Rightarrow> (addr \<times> nat) list \<Rightarrow> (addr \<times> nat) list \<Rightarrow> bool" where
  "filled k a m live pages \<longleftrightarrow> (\<exists>rs fl. slab_inv a m rs fl live \<and> k \<le> unat (free_blocks a) \<and>
     covered (slab_ranges (block_size a) m rs fl @ live) \<subseteq> covered pages)"

definition paged :: "nat \<Rightarrow> slab_alloc \<Rightarrow> mem \<Rightarrow> (addr \<times> nat) list \<Rightarrow> (addr \<times> nat) list \<Rightarrow> bool" where
  "paged k a m live pages \<longleftrightarrow> auto_refill a \<and> 8 \<le> unat (block_size a) \<and> unat (block_size a) \<le> 1024 \<and>
     (untouched a \<and> live = [] \<and> pages = [] \<and> k \<le> page_blocks (block_size a) \<or> filled k a m live pages)"

lemma paged_init:
  assumes "8 \<le> unat n" and "unat n \<le> 1024" and "k \<le> page_blocks n"
  shows "paged k (slab_autorefill_init n) m [] []" and "block_size (slab_autorefill_init n) = n"
proof -
  have "SLAB_BLOCK_SIZE n = n" using assms(1) by (simp add: SLAB_BLOCK_SIZE_def word_less_nat_alt word_unat_eq_iff)
  then show "paged k (slab_autorefill_init n) m [] []" "block_size (slab_autorefill_init n) = n"
    using assms by (simp_all add: paged_def untouched_def slab_autorefill_init_def)
qed

lemma filled_agree:
  assumes f: "filled k a m live pages" and ag: "agree_on (covered pages - covered live) m' m"
  shows "filled k a m' live pages"
proof -
  obtain rs fl where inv: "slab_inv a m rs fl live" and k: "k \<le> unat (free_blocks a)"
    and sub: "covered (slab_ranges (block_size a) m rs fl @ live) \<subseteq> covered pages" using f by (auto simp: filled_def)
  have "covered (slab_ranges (block_size a) m rs fl) \<inter> covered live = {}"
    using inv by (auto simp: slab_inv_def all_apart_append_covered)
  then have "agree_on (covered (slab_ranges (block_size a) m rs fl)) m' m" using sub by (intro agree_on_mono [OF ag]) auto
  note i = slab_inv_agree [OF inv this]
  show ?thesis using i(1) k sub unfolding filled_def i(2) [symmetric] by blast
qed

lemma paged_agree: "paged k a m live pages \<Longrightarrow> agree_on (covered pages - covered live) m' m \<Longrightarrow> paged k a m' live pages"
  unfolding paged_def using filled_agree by blast

lemma paged_live:
  assumes "paged k a m live pages"
  shows "covered live \<subseteq> covered pages" and "all_apart live"
  using assms by (auto simp: paged_def filled_def slab_inv_def all_apart_append)

context page_source begin

lemma filled_take:
  assumes f: "filled (Suc k) a (kmem s) live pages" and ok: "kinv s (pages @ others)"
  shows "\<exists>p a' m'. slab_allocate kal a s = Inr (p, a', s\<lparr>kmem := m'\<rparr>) \<and> p \<noteq> 0 \<and> filled k a' m' ((p, unat (block_size a)) # live) pages \<and>
    kinv (s\<lparr>kmem := m'\<rparr>) (pages @ others) \<and> agree_on (covered (live @ others)) m' (kmem s) \<and>
    block_size a' = block_size a \<and> auto_refill a' = auto_refill a"
proof -
  obtain rs fl where inv: "slab_inv a (kmem s) rs fl live" and k: "Suc k \<le> unat (free_blocks a)"
    and sub: "covered (slab_ranges (block_size a) (kmem s) rs fl @ live) \<subseteq> covered pages" using f by (auto simp: filled_def)
  have fb: "free_blocks a \<noteq> 0" using k by auto
  obtain p a' m' rs' fl' where al: "slab_allocate kal a s = Inr (p, a', s\<lparr>kmem := m'\<rparr>)" "one_less a a'"
    and r: "slab_inv a' m' rs' fl' ((p, unat (block_size a)) # live)" "taken (block_size a) (kmem s) rs fl p m' rs' fl'"
    using slab_allocate_correct [OF inv, of kal] fb by auto
  have ag: "agree_on (- covered (slab_ranges (block_size a) (kmem s) rs fl)) m' (kmem s)" using r(2) by (simp add: taken_def)
  have dis: "covered pages \<inter> covered others = {}" using kinv_apart [OF ok] by (simp add: all_apart_append_covered)
  have "agree_on (covered live) m' (kmem s)" by (rule slab_live_agree [OF inv ag])
  moreover have "agree_on (covered others) m' (kmem s)" using sub dis by (intro agree_on_mono [OF ag]) auto
  ultimately have "agree_on (covered (live @ others)) m' (kmem s)" by (auto simp: agree_on_def)
  moreover have "kinv (s\<lparr>kmem := m'\<rparr>) (pages @ others)" using sub by (intro kinv_frame [OF ok] agree_on_mono [OF ag]) auto
  moreover have "filled k a' m' ((p, unat (block_size a)) # live) pages"
  proof -
    have "1 \<le> free_blocks a" using k by (simp add: word_le_nat_alt)
    then have "unat (free_blocks a') = unat (free_blocks a) - 1" using al(2) by (simp add: one_less_def unat_sub_eq)
    then have "k \<le> unat (free_blocks a')" using k by simp
    moreover have "covered (slab_ranges (block_size a) m' rs' fl' @ (p, unat (block_size a)) # live) \<subseteq> covered pages"
      using r(2) sub by (auto simp: taken_def)
    ultimately show ?thesis using al(2) r(1) unfolding filled_def one_less_def by auto
  qed
  ultimately show ?thesis using al r(2) by (auto simp: taken_def one_less_def)
qed

lemma untouched_fills:
  assumes u: "untouched a" "auto_refill a" and bs: "8 \<le> unat (block_size a)" "unat (block_size a) \<le> 1024"
    and ok: "kinv s others" and kal: "kal PAGE_SIZE PAGE_SIZE s = Inr (b, s1)" and k: "Suc k \<le> page_blocks (block_size a)"
  shows "\<exists>a1 m. slab_allocate kal a s = slab_allocate kal a1 (s1\<lparr>kmem := m\<rparr>) \<and> filled (Suc k) a1 m [] [(alloc_buffer b, 4096)] \<and>
    kinv (s1\<lparr>kmem := m\<rparr>) ([(alloc_buffer b, 4096)] @ others) \<and> agree_on (covered others) m (kmem s) \<and>
    block_size a1 = block_size a \<and> auto_refill a1"
proof -
  let ?q = "alloc_buffer b" and ?bs = "block_size a"
  note sh = page_shape [OF ok kal]
  have ok1: "kinv s1 ((?q, unat PAGE_SIZE) # others)" by (rule page_inv [OF ok kal])
  have b8: "8 \<le> ?bs" using bs(1) by (simp add: word_le_nat_alt)
  have inv0: "slab_inv a (kmem s1) [] [] []" using u b8 by (intro slab_inv_init) (simp_all add: untouched_def)
  have nw: "unat ?q + unat PAGE_SIZE < 2 ^ 64" using sh by simp
  have sz: "32 + 3 * unat ?bs \<le> unat PAGE_SIZE" using bs(2) by simp
  define nb where "nb = (slab_last ?q PAGE_SIZE ?bs - slab_first ?q ?bs) div ?bs"
  obtain c m rs where g: "slab_grow a ?q PAGE_SIZE (kmem s1) =
      Inr (a\<lparr>free_blocks := free_blocks a + nb, total_blocks := total_blocks a + nb, current_region := c\<rparr>, m)"
    and i: "slab_inv (a\<lparr>free_blocks := free_blocks a + nb, total_blocks := total_blocks a + nb, current_region := c\<rparr>) m rs [] []"
    and ag: "agree_on (- (extent ?q 32)) m (kmem s1)"
    and sub: "covered (slab_ranges ?bs m rs []) \<subseteq> extent ?q (unat PAGE_SIZE)"
    using slab_grow_correct [OF inv0 _ nw sz, folded nb_def] sh by (auto simp: slab_ranges_def)
  let ?a1 = "a\<lparr>free_blocks := free_blocks a + nb, total_blocks := total_blocks a + nb, current_region := c\<rparr>"
  have f0: "free_blocks a = 0" "block_list a = 0" using u(1) by (simp_all add: untouched_def)
  note sb = slab_bounds [OF b8 nw sz]
  have d: "unat (slab_last ?q PAGE_SIZE ?bs - slab_first ?q ?bs) = unat (slab_last ?q PAGE_SIZE ?bs) - unat (slab_first ?q ?bs)"
    using sb sz bs by (intro unat_sub_eq) (simp add: word_le_nat_alt)
  have "4064 - 2 * (unat ?bs - 1) \<le> unat (slab_last ?q PAGE_SIZE ?bs) - unat (slab_first ?q ?bs)" using sb bs by simp
  then have "page_blocks ?bs \<le> unat nb" unfolding nb_def unat_div d page_blocks_def by (rule div_le_mono)
  then have kn: "Suc k \<le> unat nb" using k by simp
  have q32: "extent ?q 32 \<subseteq> extent ?q 4096" by (rule extent_mono) simp
  have q: "extent ?q 4096 \<inter> covered others = {}" using kinv_apart [OF ok1] by (simp only: all_apart_Cons_covered fst_conv snd_conv) simp
  have "agree_on (covered others) m (kmem s1)" using q q32 by (intro agree_on_mono [OF ag]) auto
  then have "agree_on (covered others) m (kmem s)" using page_frame [OF ok kal] by (rule agree_on_trans)
  moreover have "kinv (s1\<lparr>kmem := m\<rparr>) ((?q, unat PAGE_SIZE) # others)" using q32 by (intro kinv_frame [OF ok1] agree_on_mono [OF ag]) auto
  moreover have "filled (Suc k) ?a1 m [] [(?q, 4096)]" unfolding filled_def using i kn sub f0 by (intro exI [of _ rs] exI [of _ "[]"]) simp
  moreover have "slab_allocate kal a s = slab_allocate kal ?a1 (s1\<lparr>kmem := m\<rparr>)"
  proof -
    have nz: "nb \<noteq> 0" using kn by auto
    have "slab_refill kal a s = Inr (?a1, s1\<lparr>kmem := m\<rparr>)" using kal sh g by (simp add: slab_refill_def with_mem_def)
    then show ?thesis using f0 u(2) nz by (simp add: slab_allocate_def)
  qed
  ultimately show ?thesis using u(2) by (intro exI [of _ ?a1] exI [of _ m]) simp
qed

lemma paged_allocate:
  assumes p: "paged (Suc k) a (kmem s) live pages" and ok: "kinv s (pages @ others)"
    and kal: "kal PAGE_SIZE PAGE_SIZE s = Inr (b, t)"
  shows "\<exists>p a' s' pages'. slab_allocate kal a s = Inr (p, a', s') \<and> p \<noteq> 0 \<and> paged k a' (kmem s') ((p, unat (block_size a)) # live) pages' \<and>
    kinv s' (pages' @ others) \<and> agree_on (covered (live @ others)) (kmem s') (kmem s) \<and> block_size a' = block_size a \<and>
    (\<exists>m. s' = s\<lparr>kmem := m\<rparr> \<and> pages' = pages \<or> s' = t\<lparr>kmem := m\<rparr> \<and> pages = [] \<and> pages' \<noteq> [])"
proof (cases "filled (Suc k) a (kmem s) live pages")
  case True
  from filled_take [OF this ok] obtain p a' m' where
    P: "slab_allocate kal a s = Inr (p, a', s\<lparr>kmem := m'\<rparr>)" "p \<noteq> 0" "filled k a' m' ((p, unat (block_size a)) # live) pages"
      "kinv (s\<lparr>kmem := m'\<rparr>) (pages @ others)" "agree_on (covered (live @ others)) m' (kmem s)"
      "block_size a' = block_size a" "auto_refill a' = auto_refill a" by blast
  show ?thesis using P p by (intro exI [of _ p] exI [of _ a'] exI [of _ "s\<lparr>kmem := m'\<rparr>"] exI [of _ pages]) (auto simp: paged_def)
next
  case False
  then have u: "untouched a" "auto_refill a" "live = []" "pages = []" "Suc k \<le> page_blocks (block_size a)"
    and bs: "8 \<le> unat (block_size a)" "unat (block_size a) \<le> 1024" using p by (auto simp: paged_def)
  have ok0: "kinv s others" using ok u(4) by simp
  from untouched_fills [OF u(1,2) bs ok0 kal u(5)] obtain a1 m where
    A: "slab_allocate kal a s = slab_allocate kal a1 (t\<lparr>kmem := m\<rparr>)" "filled (Suc k) a1 m [] [(alloc_buffer b, 4096)]"
      "kinv (t\<lparr>kmem := m\<rparr>) ([(alloc_buffer b, 4096)] @ others)" "agree_on (covered others) m (kmem s)"
      "block_size a1 = block_size a" "auto_refill a1" by blast
  let ?t = "t\<lparr>kmem := m\<rparr>"
  have f: "filled (Suc k) a1 (kmem ?t) [] [(alloc_buffer b, 4096)]" using A(2) by simp
  from filled_take [OF f A(3)] obtain p a' m' where
    P: "slab_allocate kal a1 ?t = Inr (p, a', ?t\<lparr>kmem := m'\<rparr>)" "p \<noteq> 0" "filled k a' m' [(p, unat (block_size a1))] [(alloc_buffer b, 4096)]"
      "kinv (?t\<lparr>kmem := m'\<rparr>) ([(alloc_buffer b, 4096)] @ others)" "agree_on (covered ([] @ others)) m' m"
      "block_size a' = block_size a1" "auto_refill a' = auto_refill a1" by auto
  have "agree_on (covered others) m' (kmem s)" using agree_on_trans [OF P(5) [simplified] A(4)] .
  then show ?thesis using A P bs u(3,4)
    by (intro exI [of _ p] exI [of _ a'] exI [of _ "t\<lparr>kmem := m'\<rparr>"] exI [of _ "[(alloc_buffer b, 4096)]"]) (auto simp: paged_def)
qed

end

text \<open>
  On pages from \<^verbatim>\<open>kalloc\<close>, an arena that has no page yet needs the memory of one, and otherwise none.
\<close>

definition page_need :: "(addr \<times> nat) list \<Rightarrow> nat" where
  "page_need pages = (if pages = [] then 4096 else 0)"

lemma paged_kalloc:
  fixes s :: "'a kernel_scheme"
  assumes p: "paged (Suc k) a (kmem s) live pages" and ok: "roomy s (pages @ others)" and need: "page_need pages + r < spare s"
  shows "\<exists>p a' s' pages'. slab_allocate kalloc a s = Inr (p, a', s') \<and> p \<noteq> 0 \<and>
    paged k a' (kmem s') ((p, unat (block_size a)) # live) pages' \<and> roomy s' (pages' @ others) \<and> page_need pages' + r < spare s' \<and>
    agree_on (covered (live @ others)) (kmem s') (kmem s) \<and> block_size a' = block_size a \<and> allocator_only s s'"
proof -
  have n: "unat (ALIGN_UP PAGE_SIZE PAGE_SIZE) = 4096" by (simp add: ALIGN_UP_def)
  obtain b t where k: "kalloc PAGE_SIZE PAGE_SIZE s = Inr (b, t)"
    using roomy_kalloc [OF ok page_request [OF ok]] need by (auto simp: n)
  from rpages.paged_allocate [OF p ok k] obtain q a' s' pages' m where
    P: "slab_allocate kalloc a s = Inr (q, a', s')" "q \<noteq> 0" "paged k a' (kmem s') ((q, unat (block_size a)) # live) pages'"
      "roomy s' (pages' @ others)" "agree_on (covered (live @ others)) (kmem s') (kmem s)" "block_size a' = block_size a"
      "s' = s\<lparr>kmem := m\<rparr> \<and> pages' = pages \<or> s' = t\<lparr>kmem := m\<rparr> \<and> pages = [] \<and> pages' \<noteq> []" by blast
  have "spare s \<le> spare t + 4096" using spare_kalloc [OF roomy_kvspace [OF ok] page_request [OF ok] k] by (simp add: n)
  then have "page_need pages' + r < spare s'" using P(7) need by (auto simp: page_need_def)
  moreover have "allocator_only s s'" by (rule slab_allocate_only [OF kalloc_only P(1)])
  ultimately show ?thesis using P by blast
qed

end
