(* ===== verification/Blob.thy ===== *)
theory Blob
  imports Device_Tree_Laws
begin

text \<open>
  The structure block of a device tree blob as the binary form of an abstract tree: tokens are
  big-endian words, names are null-terminated, and names and values are padded to the next word.
  Property names are offsets into the strings block.  The format is the one \<^verbatim>\<open>blob.c\<close> reads; here it
  is written, so that reading it back can be stated.
\<close>

section \<open>The format\<close>

datatype dtree =
  DNode (tree_name: "u8 list") (tree_props: "(u8 list \<times> u8 list) list") (tree_kids: "dtree list")

fun tree_nodes :: "dtree \<Rightarrow> nat" where
  "tree_nodes (DNode n ps ks) = Suc (sum_list (map tree_nodes ks))"

fun tree_properties :: "dtree \<Rightarrow> nat" where
  "tree_properties (DNode n ps ks) = length ps + sum_list (map tree_properties ks)"

definition be32 :: "u32 \<Rightarrow> u8 list" where
  "be32 w = rev (bytes_of_word 4 w)"

definition padded :: "u8 list \<Rightarrow> u8 list" where
  "padded bs = bs @ replicate ((4 - length bs mod 4) mod 4) 0"

fun encode_property :: "(u8 list \<Rightarrow> u32) \<Rightarrow> u8 list \<times> u8 list \<Rightarrow> u8 list" where
  "encode_property strs (n, d) =
     be32 (token_value STRUCTURE_TOKEN_PROPERTY) @ be32 (of_nat (length d)) @ be32 (strs n) @ padded d"

fun encode_tree :: "(u8 list \<Rightarrow> u32) \<Rightarrow> dtree \<Rightarrow> u8 list" where
  "encode_tree strs (DNode n ps ks) =
     be32 (token_value STRUCTURE_TOKEN_NODE_START) @ padded (n @ [0]) @ concat (map (encode_property strs) ps) @
     concat (map (encode_tree strs) ks) @ be32 (token_value STRUCTURE_TOKEN_NODE_END)"

definition encode_blob :: "(u8 list \<Rightarrow> u32) \<Rightarrow> dtree \<Rightarrow> u8 list" where
  "encode_blob strs t = encode_tree strs t @ be32 (token_value STRUCTURE_TOKEN_END)"

text \<open>What the format can express: names without null bytes, values whose length fits its field.\<close>

fun tree_ok :: "(u8 list \<Rightarrow> bool) \<Rightarrow> dtree \<Rightarrow> bool" where
  "tree_ok P (DNode n ps ks) \<longleftrightarrow> 0 \<notin> set n \<and> (\<forall>(n, d) \<in> set ps. P n \<and> length d < 2 ^ 32) \<and> (\<forall>k \<in> set ks. tree_ok P k)"

lemma tree_ok_mono: "tree_ok P t \<Longrightarrow> (\<And>n. P n \<Longrightarrow> Q n) \<Longrightarrow> tree_ok Q t"
  by (induction t) fastforce

lemma length_be32 [simp]: "length (be32 w) = 4"
  by (simp add: be32_def)

lemma length_padded: "length (padded bs) = (length bs + 3) div 4 * 4"
proof -
  define q r where "q = length bs div 4" and "r = length bs mod 4"
  have l: "length bs = 4 * q + r" "r < 4" by (simp_all add: q_def r_def)
  have "r \<in> {0, 1, 2, 3}" using l(2) by auto
  then show ?thesis unfolding padded_def length_append length_replicate l(1) by auto
qed

lemma four_dvd_padded: "4 dvd length (padded bs)"
  by (simp add: length_padded)

lemma four_dvd_encode_tree: "4 dvd length (encode_tree strs t)"
proof (induction t)
  case (DNode n ps ks)
  have p: "4 dvd length (concat (map (encode_property strs) ps))"
    by (induction ps) (auto simp: four_dvd_padded)
  have "4 dvd length (concat (map (encode_tree strs) ks))" using DNode by (induction ks) auto
  then show ?case using p by (simp add: four_dvd_padded)
qed

text \<open>The number of bytes the parser skips for a name or a value.\<close>

lemma ALIGN_UP_padded:
  assumes "length bs < 2 ^ 63"
  shows "ALIGN_UP (of_nat (length bs)) 4 = of_nat (length (padded bs))"
proof -
  have l: "unat (of_nat (length bs) :: u64) = length bs" using assms by (intro unat_of_nat_eq) simp
  have four: "(2 :: u64) ^ 2 = 4" by simp
  have "unat (ALIGN_UP (of_nat (length bs)) (2 ^ 2)) = length (padded bs)"
    using ALIGN_UP_pow2 [of 2 "of_nat (length bs)"] assms by (simp add: l length_padded)
  then have "(of_nat (unat (ALIGN_UP (of_nat (length bs)) 4)) :: u64) = of_nat (length (padded bs))" unfolding four by simp
  then show ?thesis by simp
qed

section \<open>Text in memory\<close>

definition text_at :: "mem \<Rightarrow> (addr \<times> nat) list \<Rightarrow> addr \<Rightarrow> u8 list \<Rightarrow> bool" where
  "text_at m kept a bs \<longleftrightarrow> length bs < 2 ^ 63 \<and> load_bytes m a (length bs) = bs \<and> extent a (length bs) \<subseteq> covered kept"

lemma load_bytes_append: "load_bytes m a (n + k) = load_bytes m a n @ load_bytes m (a + of_nat n) k"
proof -
  have "[0..<n + k] = [0..<n] @ map (\<lambda>i. i + n) [0..<k]" 
    using upt_add_eq_append [of 0 n k] map_add_upt [of n k] by (simp add: add.commute)
  then show ?thesis by (simp add: load_bytes_def add.assoc add.commute [of "of_nat n"])
qed

lemma text_at_append:
  "text_at m kept a (xs @ ys) \<Longrightarrow> text_at m kept a xs \<and> text_at m kept (a + of_nat (length xs)) ys"
  using extent_split [of "length xs" "length ys" a] by (auto simp: text_at_def load_bytes_append)

lemma text_at_agree:
  assumes t: "text_at m kept a bs" and ag: "agree_on (covered kept) m' m"
  shows "text_at m' kept a bs"
proof -
  have "agree_on (extent a (length bs)) m' m" using t by (auto simp: text_at_def intro: agree_on_mono [OF ag])
  then show ?thesis using t load_bytes_agree [of a "length bs" m' m] by (simp add: text_at_def)
qed

lemma text_at_be32:
  assumes "text_at m kept a (be32 w)"
  shows "READ_BIG_ENDIAN_U32 m a = w"
proof -
  have "load_bytes m a 4 = rev (bytes_of_word 4 w)" using assms by (simp add: text_at_def) (simp add: be32_def)
  then show ?thesis
    by (simp add: READ_BIG_ENDIAN_U32_def load32_def ENDIANNESS_FLIP_U32_bytes word_of_bytes_of_word)
qed

text \<open>A view of given bytes.\<close>

definition view_is :: "mem \<Rightarrow> (addr \<times> nat) list \<Rightarrow> str_view \<Rightarrow> u8 list \<Rightarrow> bool" where
  "view_is m kept v bs \<longleftrightarrow> sv_size v = of_nat (length bs) \<and> text_at m kept (sv_data v) bs"

lemma view_is_bytes: "view_is m kept v bs \<Longrightarrow> sv_bytes m v = bs"
  by (simp add: view_is_def text_at_def sv_bytes_def unat_of_nat_eq)

lemma text_at_null_term:
  assumes t: "text_at m kept a (n @ [0])" and n: "0 \<notin> set n"
  shows "sv_from_null_term m a = Some \<lparr>sv_data = a, sv_size = of_nat (length n)\<rparr>"
    and "view_is m kept \<lparr>sv_data = a, sv_size = of_nat (length n)\<rparr> n"
proof -
  have T: "text_at m kept a n" "text_at m kept (a + of_nat (length n)) [0]" using text_at_append [OF t] by simp_all
  have "\<forall>k < length n. m (a + of_nat k) \<noteq> 0"
  proof (intro allI impI)
    fix k assume k: "k < length n"
    have "load_bytes m a (length n) ! k = n ! k" using T(1) by (simp add: text_at_def)
    then have "m (a + of_nat k) = n ! k" using k by (simp add: load_bytes_def)
    then show "m (a + of_nat k) \<noteq> 0" using n nth_mem [OF k] by auto
  qed
  moreover have "m (a + of_nat (length n)) = 0" using T(2) by (simp add: text_at_def load_bytes_def)
  ultimately have "sv_null_loop m a 0 = Some (0 + of_nat (length n))" by (rule sv_null_loop_run)
  then show "sv_from_null_term m a = Some \<lparr>sv_data = a, sv_size = of_nat (length n)\<rparr>" by (simp add: sv_from_null_term_def)
  show "view_is m kept \<lparr>sv_data = a, sv_size = of_nat (length n)\<rparr> n" using T(1) by (simp add: view_is_def)
qed

text \<open>A property name that the strings block has at its offset.\<close>

definition string_known :: "mem \<Rightarrow> (addr \<times> nat) list \<Rightarrow> addr \<Rightarrow> (u8 list \<Rightarrow> u32) \<Rightarrow> u8 list \<Rightarrow> bool" where
  "string_known m kept strings strs n \<longleftrightarrow> 0 \<notin> set n \<and> text_at m kept (strings + ucast (strs n)) (n @ [0])"

end
