(* ===== verification/First_Pass.thy ===== *)
theory First_Pass
  imports Blob One_Page Registry
begin

text \<open>
  The first pass over the structure block, end to end: on the binary form of a tree the loop over the
  tokens returns, and what it leaves in memory is that tree, children and properties in reverse
  order, as each is pushed on the front of its list.
\<close>

section \<open>The parser's memory\<close>

text \<open>
  The arenas of the nodes \<open>ns\<close> and the properties \<open>ps\<close> built so far, each with its node, with memory for \<open>i\<close> more nodes, \<open>j\<close>
  more properties and a reserve \<open>r\<close>; everything else that is kept is \<open>kept\<close>.
\<close>

definition spans :: "nat \<Rightarrow> addr list \<Rightarrow> (addr \<times> nat) list" where
  "spans n as = map (\<lambda>a. (a, n)) as"

lemma spans_simps [simp]: "spans n [] = []" "spans n (a # as) = (a, n) # spans n as" "spans n (as @ bs) = spans n as @ spans n bs"
  by (simp_all add: spans_def)

lemma covered_spans: "covered (spans n as) = (\<Union>a \<in> set as. extent a n)"
  by (auto simp: covered_def spans_def)

lemma mem_spans: "a \<in> set as \<Longrightarrow> extent a n \<subseteq> covered (spans n as)"
  by (auto simp: covered_spans)

definition built :: "addr list \<Rightarrow> (addr \<times> addr) list \<Rightarrow> (addr \<times> nat) list" where
  "built ns ps = spans 72 ns @ spans 56 (map fst ps)"

definition parse_ok :: "nat \<Rightarrow> nat \<Rightarrow> nat \<Rightarrow> 'a system_scheme \<Rightarrow> addr list \<Rightarrow> (addr \<times> addr) list \<Rightarrow> (addr \<times> nat) list \<Rightarrow> bool" where
  "parse_ok r i j s ns ps kept \<longleftrightarrow> (\<exists>pn pp. roomy s (pn @ pp @ kept) \<and> page_need pn + page_need pp + r < spare s \<and>
     block_size (node_arena (dt s)) = 72 \<and> paged i (node_arena (dt s)) (kmem s) (spans 72 ns) pn \<and>
     block_size (property_arena (dt s)) = 56 \<and> paged j (property_arena (dt s)) (kmem s) (spans 56 (map fst ps)) pp)"

lemma parse_ok_apart:
  assumes "parse_ok r i j s ns ps kept"
  shows "all_apart (built ns ps @ kept)"
proof -
  obtain pn pp where r: "roomy s (pn @ pp @ kept)" and n: "paged i (node_arena (dt s)) (kmem s) (spans 72 ns) pn"
    and p: "paged j (property_arena (dt s)) (kmem s) (spans 56 (map fst ps)) pp" using assms by (auto simp: parse_ok_def)
  have "all_apart (pn @ pp @ kept)" by (rule rpages.kinv_apart [OF r])
  then show ?thesis using paged_live [OF n] paged_live [OF p] by (auto simp: built_def all_apart_append_covered)
qed

text \<open>What the first pass can change of the state.\<close>

definition parser_only :: "'a system_scheme \<Rightarrow> 'a system_scheme \<Rightarrow> bool" where
  "parser_only s s' \<longleftrightarrow> s' = s\<lparr>kmem := kmem s', block_arena := block_arena s', regions := regions s', free_bytes := free_bytes s',
     dt := (dt s)\<lparr>node_arena := node_arena (dt s'), property_arena := property_arena (dt s')\<rparr>\<rparr>"

lemma parser_onlyE:
  assumes "parser_only s s'"
  obtains m ba rg fb na pa where "s' = s\<lparr>kmem := m, block_arena := ba, regions := rg, free_bytes := fb,
     dt := (dt s)\<lparr>node_arena := na, property_arena := pa\<rparr>\<rparr>"
  using assms unfolding parser_only_def by blast

lemma parser_only_refl: "parser_only s s"
  by (simp add: parser_only_def)

lemma parser_only_trans:
  assumes "parser_only s t" and "parser_only t u"
  shows "parser_only s u"
proof -
  obtain m ba rg fb na pa where t: "t = s\<lparr>kmem := m, block_arena := ba, regions := rg, free_bytes := fb,
     dt := (dt s)\<lparr>node_arena := na, property_arena := pa\<rparr>\<rparr>" using assms(1) by (rule parser_onlyE)
  show ?thesis using assms(2) unfolding parser_only_def t by simp
qed

lemma parser_only_mem: "parser_only s (s\<lparr>kmem := m\<rparr>)"
  by (simp add: parser_only_def)

lemma parser_only_alloc:
  assumes "allocator_only s t"
  shows "parser_only s (t\<lparr>dt := (dt s)\<lparr>node_arena := a\<rparr>\<rparr>)" and "parser_only s (t\<lparr>dt := (dt s)\<lparr>property_arena := a\<rparr>\<rparr>)"
    and "dt t = dt s"
  using assms by (auto simp: allocator_only_def parser_only_def)

lemma parser_only_fields:
  assumes "parser_only s s'"
  shows "root_node (dt s') = root_node (dt s)" and "lit_addr s' = lit_addr s" and "put s' = put s" and "print_buf s' = print_buf s"
    and "hhdm_offset s' = hhdm_offset s" and "pinfo s' = pinfo s"
  by (rule parser_onlyE [OF assms], simp)+

text \<open>The two allocations.\<close>

lemma node_alloc_ok:
  fixes s :: "'a system_scheme"
  assumes ok: "parse_ok r (Suc i) j s ns ps kept"
  shows "\<exists>n s'. dt_node_alloc s = Inr (n, s') \<and> n \<noteq> 0 \<and> parse_ok r i j s' (n # ns) ps kept \<and>
    agree_on (covered (built ns ps @ kept)) (kmem s') (kmem s) \<and> parser_only s s'"
proof -
  obtain pn pp where R: "roomy s (pn @ pp @ kept)" "page_need pn + (page_need pp + r) < spare s"
    and N: "block_size (node_arena (dt s)) = 72" "paged (Suc i) (node_arena (dt s)) (kmem s) (spans 72 ns) pn"
    and P: "block_size (property_arena (dt s)) = 56" "paged j (property_arena (dt s)) (kmem s) (spans 56 (map fst ps)) pp"
    using ok by (auto simp: parse_ok_def add.assoc)
  have u: "unat (72 :: u64) = 72" by simp
  from paged_kalloc [OF N(2) R, unfolded N(1) u] obtain n a t pn' where
    A: "slab_allocate kalloc (node_arena (dt s)) s = Inr (n, a, t)" "n \<noteq> 0" "paged i a (kmem t) ((n, 72) # spans 72 ns) pn'"
      "roomy t (pn' @ pp @ kept)" "page_need pn' + (page_need pp + r) < spare t"
      "agree_on (covered (spans 72 ns @ pp @ kept)) (kmem t) (kmem s)" "block_size a = 72" "allocator_only s t" by blast
  let ?s' = "t\<lparr>dt := (dt t)\<lparr>node_arena := a\<rparr>\<rparr>"
  note d = parser_only_alloc(3) [OF A(8)]
  have "roomy ?s' (pn' @ pp @ kept)" using A(4) roomy_same [of t ?s'] by (simp add: manager_same_def)
  moreover have "spare ?s' = spare t" by (simp add: spare_def)
  moreover have "paged j (property_arena (dt s)) (kmem t) (spans 56 (map fst ps)) pp"
    by (rule paged_agree [OF P(2)]) (rule agree_on_mono [OF A(6)], auto)
  ultimately have "parse_ok r i j ?s' (n # ns) ps kept"
    unfolding parse_ok_def using A(3,5,7) P(1) by (intro exI [of _ pn'] exI [of _ pp]) (simp add: d add.assoc)
  moreover have "agree_on (covered (built ns ps @ kept)) (kmem ?s') (kmem s)"
    using paged_live(1) [OF P(2)] by (auto simp: built_def intro!: agree_on_mono [OF A(6)])
  moreover have "parser_only s ?s'"
    unfolding d by (rule parser_only_alloc(1) [OF A(8)])
  ultimately show ?thesis using A(1,2) by (simp add: dt_node_alloc_def)
qed

lemma property_alloc_ok:
  fixes s :: "'a system_scheme"
  assumes ok: "parse_ok r i (Suc j) s ns ps kept"
  shows "\<exists>p s'. dt_property_alloc s = Inr (p, s') \<and> p \<noteq> 0 \<and> parse_ok r i j s' ns ((p, c) # ps) kept \<and>
    agree_on (covered (built ns ps @ kept)) (kmem s') (kmem s) \<and> parser_only s s'"
proof -
  obtain pn pp where R: "roomy s (pn @ pp @ kept)" "page_need pp + (page_need pn + r) < spare s"
    and N: "block_size (node_arena (dt s)) = 72" "paged i (node_arena (dt s)) (kmem s) (spans 72 ns) pn"
    and P: "block_size (property_arena (dt s)) = 56" "paged (Suc j) (property_arena (dt s)) (kmem s) (spans 56 (map fst ps)) pp"
    using ok by (auto simp: parse_ok_def add.assoc add.left_commute)
  have R': "roomy s (pp @ pn @ kept)" by (rule roomy_perm [OF R(1)]) simp
  have u: "unat (56 :: u64) = 56" by simp
  from paged_kalloc [OF P(2) R' R(2), unfolded P(1) u] obtain p a t pp' where
    A: "slab_allocate kalloc (property_arena (dt s)) s = Inr (p, a, t)" "p \<noteq> 0" "paged j a (kmem t) ((p, 56) # spans 56 (map fst ps)) pp'"
      "roomy t (pp' @ pn @ kept)" "page_need pp' + (page_need pn + r) < spare t"
      "agree_on (covered (spans 56 (map fst ps) @ pn @ kept)) (kmem t) (kmem s)" "block_size a = 56" "allocator_only s t" by blast
  let ?s' = "t\<lparr>dt := (dt t)\<lparr>property_arena := a\<rparr>\<rparr>"
  note d = parser_only_alloc(3) [OF A(8)]
  have "roomy t (pn @ pp' @ kept)" by (rule roomy_perm [OF A(4)]) simp
  then have "roomy ?s' (pn @ pp' @ kept)" using roomy_same [of t ?s'] by (simp add: manager_same_def)
  moreover have "spare ?s' = spare t" by (simp add: spare_def)
  moreover have "paged i (node_arena (dt s)) (kmem t) (spans 72 ns) pn"
    by (rule paged_agree [OF N(2)]) (rule agree_on_mono [OF A(6)], auto)
  ultimately have "parse_ok r i j ?s' ns ((p, c) # ps) kept"
    unfolding parse_ok_def using A(3,5,7) N(1) by (intro exI [of _ pn] exI [of _ pp']) (simp add: d)
  moreover have "agree_on (covered (built ns ps @ kept)) (kmem ?s') (kmem s)"
    using paged_live(1) [OF N(2)] by (auto simp: built_def intro!: agree_on_mono [OF A(6)])
  moreover have "parser_only s ?s'"
    unfolding d by (rule parser_only_alloc(2) [OF A(8)])
  ultimately show ?thesis using A(1,2) by (simp add: dt_property_alloc_def)
qed

text \<open>Writing into the structures.\<close>

lemma parse_ok_write:
  assumes ok: "parse_ok r i j s ns ps kept" and ag: "agree_on (- covered (built ns ps)) m (kmem s)"
  shows "parse_ok r i j (s\<lparr>kmem := m\<rparr>) ns ps kept"
proof -
  obtain pn pp where R: "roomy s (pn @ pp @ kept)" "page_need pn + page_need pp + r < spare s"
    and N: "block_size (node_arena (dt s)) = 72" "paged i (node_arena (dt s)) (kmem s) (spans 72 ns) pn"
    and P: "block_size (property_arena (dt s)) = 56" "paged j (property_arena (dt s)) (kmem s) (spans 56 (map fst ps)) pp"
    using ok by (auto simp: parse_ok_def)
  note L = paged_live(1) [OF N(2)] paged_live(1) [OF P(2)]
  have ap: "covered pn \<inter> covered pp = {}" using rpages.kinv_apart [OF R(1)] by (auto simp: all_apart_append_covered)
  have "roomy (s\<lparr>kmem := m\<rparr>) (pn @ pp @ kept)"
    using L by (intro rpages.kinv_frame [OF R(1)] agree_on_mono [OF ag]) (auto simp: built_def)
  moreover have "paged i (node_arena (dt s)) m (spans 72 ns) pn"
    using L ap by (intro paged_agree [OF N(2)] agree_on_mono [OF ag]) (auto simp: built_def)
  moreover have "paged j (property_arena (dt s)) m (spans 56 (map fst ps)) pp"
    using L ap by (intro paged_agree [OF P(2)] agree_on_mono [OF ag]) (auto simp: built_def)
  ultimately show ?thesis unfolding parse_ok_def using R(2) N(1) P(1) by (intro exI [of _ pn] exI [of _ pp]) simp
qed

text \<open>Blocks that are built are not null and do not touch each other.\<close>

lemma parse_ok_nonzero: "parse_ok r i j s ns ps kept \<Longrightarrow> 0 \<notin> set ns"
proof
  assume ok: "parse_ok r i j s ns ps kept" and z: "0 \<in> set ns"
  obtain pn pp where R: "roomy s (pn @ pp @ kept)" and N: "paged i (node_arena (dt s)) (kmem s) (spans 72 ns) pn"
    using ok by (auto simp: parse_ok_def)
  have "(0 :: addr) \<in> covered (spans 72 ns)" using mem_spans [OF z, of 72] by auto
  then show False using paged_live(1) [OF N] R by (auto simp: roomy_def)
qed

lemma spans_apart:
  assumes "all_apart (spans k as)" and "a \<in> set as" and "b \<in> set as" and "a \<noteq> b"
  shows "extent a k \<inter> extent b k = {}"
proof -
  have "apart (a, k) (b, k)" using assms by (induction as) (auto simp: spans_def apart_sym)
  then show ?thesis by (simp add: apart_pair)
qed

lemma built_apart:
  assumes ap: "all_apart (built ns ps @ kept)" and a: "a \<in> set ns"
  shows "b \<in> set ns \<Longrightarrow> a \<noteq> b \<Longrightarrow> extent a 72 \<inter> extent b 72 = {}" and "q \<in> fst ` set ps \<Longrightarrow> extent a 72 \<inter> extent q 56 = {}"
    and "extent a 72 \<inter> covered kept = {}" and "extent a 72 \<subseteq> covered (built ns ps)"
proof -
  have A: "all_apart (spans 72 ns)" "covered (spans 72 ns) \<inter> (covered (spans 56 (map fst ps)) \<union> covered kept) = {}"
    using ap by (auto simp: built_def all_apart_append_covered)
  have e: "extent a 72 \<subseteq> covered (spans 72 ns)" by (rule mem_spans [OF a])
  show "b \<in> set ns \<Longrightarrow> a \<noteq> b \<Longrightarrow> extent a 72 \<inter> extent b 72 = {}" by (rule spans_apart [OF A(1) a])
  show "q \<in> fst ` set ps \<Longrightarrow> extent a 72 \<inter> extent q 56 = {}" using A(2) e mem_spans [of q "map fst ps" 56] by auto
  show "extent a 72 \<inter> covered kept = {}" using A(2) e by blast
  show "extent a 72 \<subseteq> covered (built ns ps)" using e by (auto simp: built_def)
qed

text \<open>New nodes are not among the old ones.\<close>

lemma built_new:
  assumes "all_apart (built (ns' @ ns) ps @ kept)"
  shows "set ns' \<inter> set ns = {}"
proof -
  have "covered (spans 72 ns') \<inter> covered (spans 72 ns) = {}" using assms by (auto simp: built_def all_apart_append_covered)
  moreover have "n \<in> covered (spans 72 as)" if "n \<in> set as" for n as using mem_spans [OF that, of 72] by auto
  ultimately show ?thesis by blast
qed

section \<open>Trees in memory\<close>

text \<open>A raw property, the properties of a node, and a forest that represents a list of trees.\<close>

definition prop_is :: "mem \<Rightarrow> (addr \<times> nat) list \<Rightarrow> addr \<Rightarrow> u8 list \<times> u8 list \<Rightarrow> bool" where
  "prop_is m kept p nd \<longleftrightarrow> view_is m kept (prop_name m p) (fst nd) \<and> prop_type m p = property_type_value DT_PROPERTY_RAW \<and>
     raw_size m p = of_nat (length (snd nd)) \<and> text_at m kept (raw_data m p) (snd nd)"

definition props_are :: "mem \<Rightarrow> (addr \<times> nat) list \<Rightarrow> (addr \<times> addr) set \<Rightarrow> addr \<Rightarrow> (u8 list \<times> u8 list) list \<Rightarrow> bool" where
  "props_are m kept Q n pl \<longleftrightarrow> (\<exists>qs. chain 48 m (properties m n) qs \<and> (\<forall>q \<in> set qs. (q, n) \<in> Q) \<and> list_all2 (prop_is m kept) qs pl)"

definition node_is :: "mem \<Rightarrow> (addr \<times> nat) list \<Rightarrow> (addr \<times> addr) set \<Rightarrow> addr \<Rightarrow> addr \<Rightarrow> u8 list \<Rightarrow> (u8 list \<times> u8 list) list \<Rightarrow> bool" where
  "node_is m kept Q par n name pl \<longleftrightarrow> view_is m kept (node_name m n) name \<and> parent m n = par \<and> compatible_count m n = 0 \<and>
     props_are m kept Q n pl"

text \<open>Properties and children are in reverse order in memory.\<close>

fun forest_is :: "mem \<Rightarrow> (addr \<times> nat) list \<Rightarrow> (addr \<times> addr) set \<Rightarrow> addr \<Rightarrow> forest \<Rightarrow> dtree list \<Rightarrow> bool" where
  "forest_is m kept Q par Nil_forest ts \<longleftrightarrow> ts = []"
| "forest_is m kept Q par (Node n cs ss) ts \<longleftrightarrow> (case ts of [] \<Rightarrow> False | t # ts' \<Rightarrow>
     node_is m kept Q par n (tree_name t) (rev (tree_props t)) \<and> forest_is m kept Q n cs (rev (tree_kids t)) \<and>
     forest_is m kept Q par ss ts')"

lemma view_is_agree: "view_is m kept v bs \<Longrightarrow> agree_on (covered kept) m' m \<Longrightarrow> view_is m' kept v bs"
  unfolding view_is_def using text_at_agree by blast

lemma prop_is_agree:
  assumes p: "prop_is m kept p nd" and ag: "agree_on (extent p 56 \<union> covered kept) m' m"
  shows "prop_is m' kept p nd" and "next_prop m' p = next_prop m p"
proof -
  have f: "load64 m' (p + k) = load64 m (p + k)" if "unat k + 8 \<le> 56" for k
    using extent_field [OF that, of p] by (intro load64_agree [OF ag]) auto
  have "extent (p + 16) 4 \<subseteq> extent p 56" by (rule extent_field) simp_all
  then have t: "load32 m' (p + 16) = load32 m (p + 16)" by (intro load32_agree [OF ag]) blast
  have K: "agree_on (covered kept) m' m" by (rule agree_on_mono [OF ag]) simp
  show "prop_is m' kept p nd" using p view_is_agree [OF _ K] text_at_agree [OF _ K] f [of 0] f [of 8] f [of 24] f [of 32]
    by (simp add: prop_is_def prop_name_def sv_at_def prop_type_def raw_size_def raw_data_def t)
  show "next_prop m' p = next_prop m p" using f [of 48] by (simp add: next_prop_def)
qed

lemma props_are_agree:
  assumes p: "props_are m kept Q n pl" and c: "properties m' n = properties m n" and Q: "Q \<subseteq> Q'"
    and ag: "agree_on ((\<Union>q \<in> fst ` Q. extent q 56) \<union> covered kept) m' m"
  shows "props_are m' kept Q' n pl"
proof -
  obtain qs where qs: "chain 48 m (properties m n) qs" "\<forall>q \<in> set qs. (q, n) \<in> Q" "list_all2 (prop_is m kept) qs pl" using p by (auto simp: props_are_def)
  have a: "agree_on (extent q 56 \<union> covered kept) m' m" if "q \<in> set qs" for q using that qs(2) by (intro agree_on_mono [OF ag]) force
  have "load64 m' (q + 48) = load64 m (q + 48)" if "q \<in> set qs" for q
    using extent_field [of 48 8 56 q] by (intro load64_agree [OF a [OF that]]) auto
  then have "chain 48 m' (properties m' n) qs" using qs(1) unfolding c by (simp cong: chain_cong)
  moreover have "list_all2 (prop_is m' kept) qs pl"
    using qs(3) prop_is_agree(1) [OF _ a] by (auto simp: list_all2_conv_all_nth)
  ultimately show ?thesis using qs(2) Q by (auto simp: props_are_def)
qed

lemma forest_is_agree:
  assumes "forest_is m kept Q par f ts" and "Q \<subseteq> Q'"
    and "agree_on ((\<Union>q \<in> set (preorder f). extent q 72) \<union> (\<Union>q \<in> fst ` Q. extent q 56) \<union> covered kept) m' m"
  shows "forest_is m' kept Q' par f ts"
  using assms
proof (induction f arbitrary: par ts)
  case (Node n cs ss)
  note ag = Node.prems(3)
  obtain t ts' where ts: "ts = t # ts'" and N: "node_is m kept Q par n (tree_name t) (rev (tree_props t))"
    and F: "forest_is m kept Q n cs (rev (tree_kids t))" "forest_is m kept Q par ss ts'" using Node.prems(1) by (auto split: list.splits)
  have f: "load64 m' (n + k) = load64 m (n + k)" if "unat k + 8 \<le> 72" for k
    using extent_field [OF that, of n] by (intro load64_agree [OF ag]) auto
  have p: "props_are m kept Q n (rev (tree_props t))" "view_is m kept (node_name m n) (tree_name t)" using N by (simp_all add: node_is_def)
  have "properties m' n = properties m n" using f [of 40] by (simp add: properties_def)
  then have "props_are m' kept Q' n (rev (tree_props t))"
    by (rule props_are_agree [OF p(1) _ Node.prems(2)]) (rule agree_on_mono [OF ag], blast)
  moreover have "node_name m' n = node_name m n" using f [of 0] f [of 8] by (simp add: node_name_def sv_at_def)
  then have "view_is m' kept (node_name m' n) (tree_name t)"
    using view_is_agree [OF p(2)] agree_on_mono [OF ag, of "covered kept"] by simp
  ultimately have "node_is m' kept Q' par n (tree_name t) (rev (tree_props t))" using N f [of 48] f [of 32]
    by (simp add: node_is_def parent_def compatible_count_def)
  moreover have "forest_is m' kept Q' n cs (rev (tree_kids t))" by (rule Node.IH(1) [OF F(1) Node.prems(2)]) (rule agree_on_mono [OF ag], auto)
  moreover have "forest_is m' kept Q' par ss ts'" by (rule Node.IH(2) [OF F(2) Node.prems(2)]) (rule agree_on_mono [OF ag], auto)
  ultimately show ?case by (simp add: ts)
qed simp

text \<open>The children of an open node so far; the nodes lie beside it.\<close>

definition opened :: "mem \<Rightarrow> (addr \<times> nat) list \<Rightarrow> addr list \<Rightarrow> (addr \<times> addr) list \<Rightarrow> addr \<Rightarrow> forest \<Rightarrow> dtree list \<Rightarrow> bool" where
  "opened m kept ns ps cur f ts \<longleftrightarrow> forest_at m (children m cur) f \<and> forest_is m kept (set ps) cur f ts \<and>
     set (preorder f) \<subseteq> set ns \<and> cur \<notin> set (preorder f) \<and> distinct (preorder f)"

lemma opened_agree:
  assumes op: "opened m kept ns ps cur f ts" and ap: "all_apart (built ns ps @ kept)" and cur: "cur \<in> set ns"
    and sub: "set ps \<subseteq> set ps'"
    and ag: "agree_on (covered (built ns ps @ kept) - extent cur 72) m' m"
  shows "forest_at m' (children m cur) f" and "forest_is m' kept (set ps') cur f ts"
proof -
  note B = built_apart [OF ap cur]
  have F: "set (preorder f) \<subseteq> set ns" "cur \<notin> set (preorder f)" using op by (auto simp: opened_def)
  have "(\<Union>q \<in> set (preorder f). extent q 72) \<subseteq> covered (spans 72 ns) - extent cur 72"
    using F B(1) mem_spans [where as = ns and n = 72] by (fastforce simp: covered_spans)
  moreover have "(\<Union>q \<in> fst ` set ps. extent q 56) \<subseteq> covered (spans 56 (map fst ps)) - extent cur 72"
    using B(2) by (auto simp: covered_spans)
  moreover have "covered kept \<inter> extent cur 72 = {}" using B(3) by blast
  ultimately have A: "agree_on ((\<Union>q \<in> set (preorder f). extent q 72) \<union> (\<Union>q \<in> fst ` set ps. extent q 56) \<union> covered kept) m' m"
    by (intro agree_on_mono [OF ag]) (auto simp: built_def)
  have O: "forest_at m (children m cur) f" "forest_is m kept (set ps) cur f ts" using op by (simp_all add: opened_def)
  show "forest_at m' (children m cur) f" by (rule forest_agree [OF O(1)]) (rule agree_on_mono [OF A], blast)
  show "forest_is m' kept (set ps') cur f ts" by (rule forest_is_agree [OF O(2) sub A])
qed

section \<open>One token\<close>

lemma mod_4_advance: "o' mod 4 = 0 \<Longrightarrow> 4 dvd k \<Longrightarrow> (o' + of_nat k :: u64) mod 4 = 0"
  unfolding mod_4_dvd by (rule dvd_unat_add) (simp_all add: unat_of_nat dvd_mod_iff)

text \<open>Text survives writing into a node.\<close>

lemma kept_agree:
  assumes ap: "all_apart (built ns ps @ kept)" and cur: "cur \<in> set ns" and i: "unat i + 8 \<le> 72"
    and ag: "agree_on (covered (built ns ps @ kept) - extent (cur + i) 8) m' m"
  shows "agree_on (covered kept) m' m"
  using built_apart(3) [OF ap cur] extent_field [OF i, of cur] by (intro agree_on_mono [OF ag]) auto

lemma node_parsed:
  fixes s :: "'a system_scheme"
  assumes ok: "parse_ok r (Suc i) j s ns ps kept" and cur: "cur = 0 \<or> cur \<in> set ns"
    and t: "text_at (kmem s) kept (structs + o') (padded (nm @ [0]))" and nm: "0 \<notin> set nm"
  shows "\<exists>n s'. device_tree_parse_node cur structs o' s = Inr (o' + of_nat (length (padded (nm @ [0]))), n, s') \<and>
    parse_ok r i j s' (n # ns) ps kept \<and> node_is (kmem s') kept (set ps) cur n nm [] \<and> opened (kmem s') kept (n # ns) ps n Nil_forest [] \<and>
    sibling (kmem s') n = (if cur = 0 then 0 else children (kmem s) cur) \<and> (cur \<noteq> 0 \<longrightarrow> children (kmem s') cur = n) \<and>
    agree_on (covered (built ns ps @ kept) - (if cur = 0 then {} else extent (cur + 56) 8)) (kmem s') (kmem s) \<and> parser_only s s'"
proof -
  let ?W = "if cur = 0 then {} else extent (cur + 56) 8"
  obtain n s1 where A: "dt_node_alloc s = Inr (n, s1)" "n \<noteq> 0" "parse_ok r i j s1 (n # ns) ps kept"
    "agree_on (covered (built ns ps @ kept)) (kmem s1) (kmem s)" "parser_only s s1" using node_alloc_ok [OF ok] by blast
  have ap: "all_apart (built (n # ns) ps @ kept)" by (rule parse_ok_apart [OF A(3)])
  have n_new: "extent n 72 \<inter> covered (built ns ps @ kept) = {}" "n \<notin> set ns"
  proof -
    have "all_apart ((n, 72) # built ns ps @ kept)" using ap by (simp only: built_def spans_simps append_Cons append_assoc)
    from all_apart_covered_hd [OF this] show "extent n 72 \<inter> covered (built ns ps @ kept) = {}" by simp
    then have "extent n 72 \<inter> covered (spans 72 ns) = {}" by (auto simp: built_def)
    moreover have "n \<in> extent n 72" by simp
    ultimately show "n \<notin> set ns" using mem_spans [of n ns 72] by blast
  qed
  have t': "text_at (kmem s1) kept (structs + o') (nm @ [0])"
  proof -
    have "text_at (kmem s) kept (structs + o') (nm @ [0])" using text_at_append t unfolding padded_def by blast
    moreover have "agree_on (covered kept) (kmem s1) (kmem s)" by (rule agree_on_mono [OF A(4)]) simp
    ultimately show ?thesis by (rule text_at_agree)
  qed
  have c72: "cur \<noteq> 0 \<Longrightarrow> extent cur 72 \<subseteq> covered (built ns ps)" using cur mem_spans [of cur ns 72] by (auto simp: built_def)
  then have disj: "cur \<noteq> 0 \<Longrightarrow> extent n 72 \<inter> extent cur 72 = {}" using n_new(1) by auto
  from device_tree_parse_node_correct [OF A(1,2) text_at_null_term(1) [OF t' nm] disj] obtain m' where
    M: "device_tree_parse_node cur structs o' s = Inr (o' + ALIGN_UP (of_nat (length nm) + 1) 4, n, s1\<lparr>kmem := m'\<rparr>)"
      "node_name m' n = \<lparr>sv_data = structs + o', sv_size = of_nat (length nm)\<rparr>" "parent m' n = cur" "children m' n = 0" "properties m' n = 0" "compatible_count m' n = 0"
      "sibling m' n = (if cur = 0 then 0 else children (kmem s1) cur)" "cur \<noteq> 0 \<longrightarrow> children m' cur = n"
      "agree_on (- (extent n 72 \<union> ?W)) m' (kmem s1)" by auto
  have W: "?W \<subseteq> covered (built ns ps)" using c72 extent_field [of 56 8 72 cur] by auto
  have o2: "ALIGN_UP (of_nat (length nm) + 1) 4 = of_nat (length (padded (nm @ [0])))"
    using ALIGN_UP_padded [of "nm @ [0]"] t' by (simp add: text_at_def add.commute)
  have ok': "parse_ok r i j (s1\<lparr>kmem := m'\<rparr>) (n # ns) ps kept"
    using W by (intro parse_ok_write [OF A(3)] agree_on_mono [OF M(9)]) (auto simp: built_def)
  have ag: "agree_on (covered (built ns ps @ kept) - ?W) m' (kmem s)"
  proof -
    have "agree_on (covered (built ns ps @ kept) - ?W) m' (kmem s1)" using n_new(1) by (intro agree_on_mono [OF M(9)]) blast
    moreover have "agree_on (covered (built ns ps @ kept) - ?W) (kmem s1) (kmem s)" by (rule agree_on_mono [OF A(4)]) blast
    ultimately show ?thesis by (rule agree_on_trans)
  qed
  have "agree_on (covered kept) m' (kmem s1)"
    using W n_new(1) ap by (intro agree_on_mono [OF M(9)]) (auto simp: built_def all_apart_append_covered)
  then have "view_is m' kept (node_name m' n) nm" unfolding M(2) by (rule view_is_agree [OF text_at_null_term(2) [OF t' nm]])
  then have "node_is m' kept (set ps) cur n nm []" using M(3,5,6) by (auto simp: node_is_def props_are_def intro!: exI [of _ "[]"])
  moreover have "children (kmem s1) cur = children (kmem s) cur" if "cur \<noteq> 0"
    unfolding children_def using c72 [OF that] extent_field [of 56 8 72 cur] by (intro load64_agree [OF A(4)]) auto
  moreover have "opened m' kept (n # ns) ps n Nil_forest []" using M(4) by (simp add: opened_def)
  moreover have "parser_only s (s1\<lparr>kmem := m'\<rparr>)" by (rule parser_only_trans [OF A(5) parser_only_mem])
  ultimately show ?thesis using M ok' ag unfolding o2 by (intro exI [of _ n] exI [of _ "s1\<lparr>kmem := m'\<rparr>"]) simp
qed

lemma property_parsed:
  fixes s :: "'a system_scheme"
  assumes ok: "parse_ok r i (Suc j) s ns ps kept" and cur: "cur \<in> set ns" and pl: "props_are (kmem s) kept (set ps) cur pl"
    and t: "text_at (kmem s) kept (structs + o') (be32 (of_nat (length d)) @ be32 (strs nm) @ padded d)"
    and str: "string_known (kmem s) kept strings strs nm" and d: "length d < 2 ^ 32"
  shows "\<exists>p s'. device_tree_first_pass_property cur structs strings o' s = Inr (o' + 8 + of_nat (length (padded d)), s') \<and>
    parse_ok r i j s' ns ((p, cur) # ps) kept \<and> props_are (kmem s') kept (set ((p, cur) # ps)) cur ((nm, d) # pl) \<and>
    agree_on (covered (built ns ps @ kept) - extent (cur + 40) 8) (kmem s') (kmem s) \<and> parser_only s s'"
proof -
  obtain p s1 where A: "dt_property_alloc s = Inr (p, s1)" "p \<noteq> 0" "parse_ok r i j s1 ns ((p, cur) # ps) kept"
    "agree_on (covered (built ns ps @ kept)) (kmem s1) (kmem s)" "parser_only s s1" using property_alloc_ok [OF ok, of cur] by blast
  have ap: "all_apart (built ns ((p, cur) # ps) @ kept)" by (rule parse_ok_apart [OF A(3)])
  note C = built_apart [OF ap cur]
  have c0: "cur \<noteq> 0" using cur parse_ok_nonzero [OF ok] by auto
  have c40: "extent (cur + 40) 8 \<subseteq> extent cur 72" by (rule extent_field) simp_all
  have cS: "extent cur 72 \<subseteq> covered (spans 72 ns)" by (rule mem_spans [OF cur])
  have p_new: "extent p 56 \<inter> covered (spans 72 ns) = {}" "extent p 56 \<inter> covered (spans 56 (map fst ps)) = {}" "extent p 56 \<inter> covered kept = {}"
    using ap by (auto simp: built_def all_apart_append_covered all_apart_Cons_covered simp del: all_apart.simps)
  have K1: "agree_on (covered kept) (kmem s1) (kmem s)" by (rule agree_on_mono [OF A(4)]) simp
  have T: "text_at (kmem s) kept (structs + o') (be32 (of_nat (length d)))" "text_at (kmem s) kept (structs + o' + 4) (be32 (strs nm))"
    "text_at (kmem s) kept (structs + o' + 4 + 4) (padded d)"
    using text_at_append [OF t] text_at_append [of "kmem s" kept "structs + o' + 4" "be32 (strs nm)" "padded d"] by simp_all
  have R: "READ_BIG_ENDIAN_U32 (kmem s) (structs + o') = of_nat (length d)" "READ_BIG_ENDIAN_U32 (kmem s) (structs + o' + 4) = strs nm"
    using T(1,2) by (blast intro: text_at_be32)+
  have len: "(ucast (of_nat (length d) :: u32) :: u64) = of_nat (length d)" using d
    by (simp add: word_unat_eq_iff unat_of_nat unsigned_ucast_eq take_bit_eq_mod)
  have td: "text_at (kmem s) kept (structs + (o' + 8)) d"
    using text_at_append [OF T(3) [unfolded padded_def]] by (simp add: add.assoc)
  have st: "text_at (kmem s1) kept (strings + ucast (strs nm)) (nm @ [0])" "0 \<notin> set nm"
    using str text_at_agree [OF _ K1] by (auto simp: string_known_def)
  have nmv: "sv_from_null_term (kmem s1) (strings + ucast (READ_BIG_ENDIAN_U32 (kmem s) (structs + o' + 4))) =
      Some \<lparr>sv_data = strings + ucast (strs nm), sv_size = of_nat (length nm)\<rparr>"
    unfolding R(2) by (rule text_at_null_term(1) [OF st])
  have pc: "extent p 56 \<inter> extent cur 72 = {}" using p_new(1) cS by blast
  from first_pass_property_correct [OF A(1,2) c0 nmv pc, unfolded R(1) len] obtain m' where
    M: "device_tree_first_pass_property cur structs strings o' s = Inr (o' + 8 + ALIGN_UP (of_nat (length d)) 4, s1\<lparr>kmem := m'\<rparr>)"
      "prop_name m' p = \<lparr>sv_data = strings + ucast (strs nm), sv_size = of_nat (length nm)\<rparr>" "prop_type m' p = property_type_value DT_PROPERTY_RAW"
      "raw_data m' p = structs + (o' + 8)" "raw_size m' p = of_nat (length d)" "next_prop m' p = properties (kmem s1) cur" "properties m' cur = p"
      "agree_on (- (extent p 56 \<union> extent (cur + 40) 8)) m' (kmem s1)" by blast
  have W: "extent p 56 \<union> extent (cur + 40) 8 \<subseteq> covered (built ns ((p, cur) # ps))" using c40 cS by (auto simp: built_def)
  have K: "agree_on (covered kept) m' (kmem s)"
    using p_new(3) C(3) c40 by (intro agree_on_trans [OF _ K1] agree_on_mono [OF M(8)]) blast
  have ag: "agree_on (covered (built ns ps @ kept) - extent (cur + 40) 8) m' (kmem s)"
  proof (rule agree_on_trans)
    show "agree_on (covered (built ns ps @ kept) - extent (cur + 40) 8) m' (kmem s1)"
      using p_new by (intro agree_on_mono [OF M(8)]) (auto simp: built_def)
    show "agree_on (covered (built ns ps @ kept) - extent (cur + 40) 8) (kmem s1) (kmem s)" by (rule agree_on_mono [OF A(4)]) blast
  qed
  have new: "prop_is m' kept p (nm, d)"
  proof -
    have "view_is (kmem s1) kept (prop_name m' p) nm" unfolding M(2) by (rule text_at_null_term(2) [OF st])
    moreover have "agree_on (covered kept) m' (kmem s1)" using p_new(3) C(3) c40 by (intro agree_on_mono [OF M(8)]) blast
    ultimately show ?thesis using M(3-5) text_at_agree [OF td K] by (simp add: prop_is_def view_is_agree)
  qed
  have "props_are m' kept (set ((p, cur) # ps)) cur ((nm, d) # pl)"
  proof -
    obtain qs where qs: "chain 48 (kmem s) (properties (kmem s) cur) qs" "\<forall>q \<in> set qs. (q, cur) \<in> set ps" "list_all2 (prop_is (kmem s) kept) qs pl"
      using pl by (auto simp: props_are_def)
    have "extent q 56 \<inter> extent (cur + 40) 8 = {}" if "q \<in> fst ` set ps" for q using C(2) [of q] that c40 by auto
    then have a: "agree_on (extent q 56 \<union> covered kept) m' (kmem s)" if "q \<in> set qs" for q
      using that qs(2) C(3) c40 mem_spans [of q "map fst ps" 56] by (intro agree_on_mono [OF ag]) (force simp: built_def)
    have "properties (kmem s1) cur = properties (kmem s) cur"
      unfolding properties_def using cS c40 by (intro load64_agree [OF A(4)]) (auto simp: built_def)
    moreover have "load64 m' (q + 48) = load64 (kmem s) (q + 48)" if "q \<in> set qs" for q
      using extent_field [of 48 8 56 q] by (intro load64_agree [OF a [OF that]]) auto
    then have "chain 48 m' (properties (kmem s) cur) qs" using qs(1) by (simp cong: chain_cong)
    ultimately have "chain 48 m' (properties m' cur) (p # qs)"
      using A(2) M(6) by (simp add: M(7) chain_Cons next_prop_def)
    moreover have "list_all2 (prop_is m' kept) qs pl" using qs(3) prop_is_agree(1) [OF _ a] by (auto simp: list_all2_conv_all_nth)
    ultimately show ?thesis using qs(2) new unfolding props_are_def by (intro exI [of _ "p # qs"]) auto
  qed
  moreover have "parse_ok r i j (s1\<lparr>kmem := m'\<rparr>) ns ((p, cur) # ps) kept"
    using W by (intro parse_ok_write [OF A(3)] agree_on_mono [OF M(8)]) blast
  moreover have "parser_only s (s1\<lparr>kmem := m'\<rparr>)" by (rule parser_only_trans [OF A(5) parser_only_mem])
  moreover have "ALIGN_UP (of_nat (length d)) 4 = of_nat (length (padded d))" using td by (intro ALIGN_UP_padded) (simp add: text_at_def)
  ultimately show ?thesis using M(1) ag by (intro exI [of _ p] exI [of _ "s1\<lparr>kmem := m'\<rparr>"]) simp
qed

section \<open>The loop\<close>

lemma parse_structs_step:
  "parse_token structs strings o1 d1 cur1 s1 = Inr (True, o2, d2, cur2, s2) \<Longrightarrow>
   parse_structs structs strings o1 d1 cur1 s1 = parse_structs structs strings o2 d2 cur2 s2"
  by (subst parse_structs.simps) simp

lemma string_known_agree:
  "string_known m kept strings strs nm \<Longrightarrow> agree_on (covered kept) m' m \<Longrightarrow> string_known m' kept strings strs nm"
  unfolding string_known_def using text_at_agree by blast

lemma props_parsed:
  fixes s :: "'a system_scheme"
  assumes "parse_ok r i (length pl + j) s ns ps kept" and "cur \<in> set ns" and "props_are (kmem s) kept (set ps) cur ql"
    and "text_at (kmem s) kept (structs + o1) (concat (map (encode_property strs) pl))" and "o1 mod 4 = 0"
    and "\<forall>(n, d) \<in> set pl. string_known (kmem s) kept strings strs n \<and> length d < 2 ^ 32"
  shows "\<exists>s' ps'. parse_structs structs strings o1 d cur s =
      parse_structs structs strings (o1 + of_nat (length (concat (map (encode_property strs) pl)))) d cur s' \<and>
    parse_ok r i j s' ns (ps' @ ps) kept \<and> props_are (kmem s') kept (set (ps' @ ps)) cur (rev pl @ ql) \<and>
    agree_on (covered (built ns ps @ kept) - extent (cur + 40) 8) (kmem s') (kmem s) \<and> parser_only s s'"
  using assms
proof (induction pl arbitrary: s ps ql o1)
  case Nil
  then show ?case using parser_only_refl by (intro exI [of _ s] exI [of _ "[]"]) simp
next
  case (Cons nd pl)
  obtain nm v where nd: "nd = (nm, v)" by (cases nd)
  let ?rest = "concat (map (encode_property strs) pl)"
  have ok: "parse_ok r i (Suc (length pl + j)) s ns ps kept" using Cons.prems(1) by simp
  have t: "text_at (kmem s) kept (structs + o1) (be32 (token_value STRUCTURE_TOKEN_PROPERTY) @
      (be32 (of_nat (length v)) @ be32 (strs nm) @ padded v) @ ?rest)" using Cons.prems(4) by (simp add: nd)
  note T1 = text_at_append [OF t]
  have T2: "text_at (kmem s) kept (structs + (o1 + 4)) ((be32 (of_nat (length v)) @ be32 (strs nm) @ padded v) @ ?rest)"
    using T1 by (simp add: add.assoc)
  note T3 = text_at_append [OF T2]
  have str: "string_known (kmem s) kept strings strs nm" "length v < 2 ^ 32" using Cons.prems(6) by (auto simp: nd)
  from property_parsed [OF ok Cons.prems(2,3) _ str] T3 obtain p s1 where
    P: "device_tree_first_pass_property cur structs strings (o1 + 4) s = Inr (o1 + 4 + 8 + of_nat (length (padded v)), s1)"
      "parse_ok r i (length pl + j) s1 ns ((p, cur) # ps) kept" "props_are (kmem s1) kept (set ((p, cur) # ps)) cur ((nm, v) # ql)"
      "agree_on (covered (built ns ps @ kept) - extent (cur + 40) 8) (kmem s1) (kmem s)" "parser_only s s1" by blast
  let ?o2 = "o1 + of_nat (length (encode_property strs nd))"
  have o2: "o1 + 4 + 8 + of_nat (length (padded v)) = ?o2" by (simp add: nd)
  have tok: "READ_BIG_ENDIAN_U32 (kmem s) (structs + o1) = token_value STRUCTURE_TOKEN_PROPERTY" using T1 text_at_be32 by blast
  have "parse_token structs strings o1 d cur s = Inr (True, ?o2, d, cur, s1)"
    using P(1) Cons.prems(5) tok unfolding o2 by (simp add: parse_token_def)
  note step = parse_structs_step [OF this]
  have K: "agree_on (covered kept) (kmem s1) (kmem s)"
    by (rule kept_agree [OF parse_ok_apart [OF Cons.prems(1)] Cons.prems(2) _ P(4)]) simp
  have "4 dvd length (encode_property strs nd)" by (simp add: nd four_dvd_padded)
  then have m2: "?o2 mod 4 = 0" using Cons.prems(5) by (intro mod_4_advance)
  have "text_at (kmem s) kept (structs + ?o2) ?rest" using T3 by (simp add: nd algebra_simps)
  then have t2: "text_at (kmem s1) kept (structs + ?o2) ?rest" by (rule text_at_agree [OF _ K])
  have st2: "\<forall>(n, d) \<in> set pl. string_known (kmem s1) kept strings strs n \<and> length d < 2 ^ 32"
    using Cons.prems(6) string_known_agree [OF _ K] by auto
  from Cons.IH [OF P(2) Cons.prems(2) P(3) t2 m2 st2] obtain s' ps' where
    S: "parse_structs structs strings ?o2 d cur s1 = parse_structs structs strings (?o2 + of_nat (length ?rest)) d cur s'"
      "parse_ok r i j s' ns (ps' @ (p, cur) # ps) kept" "props_are (kmem s') kept (set (ps' @ (p, cur) # ps)) cur (rev pl @ (nm, v) # ql)"
      "agree_on (covered (built ns ((p, cur) # ps) @ kept) - extent (cur + 40) 8) (kmem s') (kmem s1)" "parser_only s1 s'" by blast
  have "agree_on (covered (built ns ps @ kept) - extent (cur + 40) 8) (kmem s') (kmem s1)"
    by (rule agree_on_mono [OF S(4)]) (auto simp: built_def)
  then have "agree_on (covered (built ns ps @ kept) - extent (cur + 40) 8) (kmem s') (kmem s)" using P(4) by (rule agree_on_trans)
  moreover have "parser_only s s'" by (rule parser_only_trans [OF P(5) S(5)])
  moreover have "parse_structs structs strings o1 d cur s =
      parse_structs structs strings (o1 + of_nat (length (concat (map (encode_property strs) (nd # pl))))) d cur s'"
    unfolding step S(1) by (simp add: add.assoc)
  ultimately show ?case using S(2,3) by (intro exI [of _ s'] exI [of _ "ps' @ [(p, cur)]"]) (simp add: nd)
qed

text \<open>The state in which the children of an open node are read, and what reading some of them does.\<close>

definition begun :: "nat \<Rightarrow> nat \<Rightarrow> nat \<Rightarrow> u64 \<Rightarrow> addr \<Rightarrow> 'a system_scheme \<Rightarrow> addr list \<Rightarrow> (addr \<times> addr) list \<Rightarrow> (addr \<times> nat) list \<Rightarrow>
    forest \<Rightarrow> dtree list \<Rightarrow> bool" where
  "begun r i j d cur s ns ps kept f ts \<longleftrightarrow> parse_ok r i j s ns ps kept \<and> opened (kmem s) kept ns ps cur f ts \<and> cur \<in> set ns \<and>
     0 < d \<and> unat d + i < 2 ^ 64"

definition frame :: "addr \<Rightarrow> addr list \<Rightarrow> (addr \<times> addr) list \<Rightarrow> (addr \<times> nat) list \<Rightarrow> 'a system_scheme \<Rightarrow> 'a system_scheme \<Rightarrow> bool" where
  "frame a ns ps kept s s' \<longleftrightarrow> agree_on (covered (built ns ps @ kept) - extent a 8) (kmem s') (kmem s) \<and> parser_only s s'"

definition pushed :: "addr \<Rightarrow> addr \<Rightarrow> nat \<Rightarrow> nat \<Rightarrow> nat \<Rightarrow> u64 \<Rightarrow> u64 \<Rightarrow> addr \<Rightarrow> 'a system_scheme \<Rightarrow> addr list \<Rightarrow> (addr \<times> addr) list \<Rightarrow> (addr \<times> nat) list \<Rightarrow>
    forest \<Rightarrow> dtree list \<Rightarrow> u64 \<Rightarrow> bool" where
  "pushed structs strings r i j o1 d cur s ns ps kept f ts o2 \<longleftrightarrow> (\<exists>s' ns' ps' f'.
     parse_structs structs strings o1 d cur s = parse_structs structs strings o2 d cur s' \<and>
     begun r i j d cur s' (ns' @ ns) (ps' @ ps) kept f' ts \<and> set (preorder f') \<subseteq> set ns' \<union> set (preorder f) \<and>
     frame (cur + 56) ns ps kept s s')"

lemma frame_trans:
  assumes "frame a ns ps kept s s'" and "frame a (ns' @ ns) (ps' @ ps) kept s' s''"
  shows "frame a ns ps kept s s''"
proof -
  have "agree_on (covered (built ns ps @ kept) - extent a 8) (kmem s'') (kmem s')"
    using assms(2) unfolding frame_def by (elim conjE agree_on_mono) (auto simp: built_def)
  then show ?thesis using assms parser_only_trans unfolding frame_def by (blast intro: agree_on_trans)
qed

lemma begun_kept:
  assumes "begun r i j d cur s ns ps kept f ts" and "frame (cur + 56) ns ps kept s s'"
  shows "agree_on (covered kept) (kmem s') (kmem s)"
proof (rule kept_agree [of ns ps kept cur 56])
  show "all_apart (built ns ps @ kept)" using assms(1) parse_ok_apart by (auto simp: begun_def)
qed (use assms in \<open>auto simp: begun_def frame_def\<close>)

lemma kids_parsed:
  fixes s :: "'a system_scheme"
  assumes IH: "\<And>k i j d cur (s :: 'a system_scheme) ns ps f ts o1. k \<in> set ks \<Longrightarrow>
      begun r (tree_nodes k + i) (tree_properties k + j) d cur s ns ps kept f ts \<Longrightarrow>
      text_at (kmem s) kept (structs + o1) (encode_tree strs k) \<Longrightarrow> tree_ok (string_known (kmem s) kept strings strs) k \<Longrightarrow>
      o1 mod 4 = 0 \<Longrightarrow> pushed structs strings r i j o1 d cur s ns ps kept f (k # ts) (o1 + of_nat (length (encode_tree strs k)))"
    and "begun r (sum_list (map tree_nodes ks) + i) (sum_list (map tree_properties ks) + j) d cur s ns ps kept f ts"
    and "text_at (kmem s) kept (structs + o1) (concat (map (encode_tree strs) ks))"
    and "\<forall>k \<in> set ks. tree_ok (string_known (kmem s) kept strings strs) k" and "o1 mod 4 = 0"
  shows "pushed structs strings r i j o1 d cur s ns ps kept f (rev ks @ ts) (o1 + of_nat (length (concat (map (encode_tree strs) ks))))"
  using assms
proof (induction ks arbitrary: s ns ps f ts o1)
  case Nil
  have "frame (cur + 56) ns ps kept s s" using parser_only_refl by (simp add: frame_def)
  then show ?case using Nil.prems(2) unfolding pushed_def by (intro exI [of _ s] exI [of _ "[]"] exI [of _ f]) simp
next
  case (Cons k ks)
  let ?rest = "concat (map (encode_tree strs) ks)" and ?o2 = "o1 + of_nat (length (encode_tree strs k))"
  have t: "text_at (kmem s) kept (structs + o1) (encode_tree strs k @ ?rest)" using Cons.prems(3) by simp
  note T = text_at_append [OF t]
  have B: "begun r (tree_nodes k + (sum_list (map tree_nodes ks) + i)) (tree_properties k + (sum_list (map tree_properties ks) + j))
      d cur s ns ps kept f ts" using Cons.prems(2) by (simp add: add.assoc)
  have "pushed structs strings r (sum_list (map tree_nodes ks) + i) (sum_list (map tree_properties ks) + j) o1 d cur s ns ps kept f (k # ts) ?o2"
    using T Cons.prems(4,5) by (intro Cons.prems(1) [OF _ B]) simp_all
  then obtain s1 ns1 ps1 f1 where
    S: "parse_structs structs strings o1 d cur s = parse_structs structs strings ?o2 d cur s1"
      "begun r (sum_list (map tree_nodes ks) + i) (sum_list (map tree_properties ks) + j) d cur s1 (ns1 @ ns) (ps1 @ ps) kept f1 (k # ts)"
      "frame (cur + 56) ns ps kept s s1" "set (preorder f1) \<subseteq> set ns1 \<union> set (preorder f)" unfolding pushed_def by blast
  note K = begun_kept [OF B S(3)]
  have "text_at (kmem s) kept (structs + ?o2) ?rest" using T by (simp add: add.assoc)
  then have t2: "text_at (kmem s1) kept (structs + ?o2) ?rest" by (rule text_at_agree [OF _ K])
  have ok2: "\<forall>k \<in> set ks. tree_ok (string_known (kmem s1) kept strings strs) k"
    using Cons.prems(4) tree_ok_mono string_known_agree [OF _ K] by (metis list.set_intros(2))
  have m2: "?o2 mod 4 = 0" using Cons.prems(5) four_dvd_encode_tree by (rule mod_4_advance)
  have "pushed structs strings r i j ?o2 d cur s1 (ns1 @ ns) (ps1 @ ps) kept f1 (rev ks @ k # ts) (?o2 + of_nat (length ?rest))"
    by (rule Cons.IH [OF Cons.prems(1) S(2) t2 ok2 m2]) simp_all
  then obtain s2 ns2 ps2 f2 where
    R: "parse_structs structs strings ?o2 d cur s1 = parse_structs structs strings (?o2 + of_nat (length ?rest)) d cur s2"
      "begun r i j d cur s2 (ns2 @ ns1 @ ns) (ps2 @ ps1 @ ps) kept f2 (rev ks @ k # ts)"
      "frame (cur + 56) (ns1 @ ns) (ps1 @ ps) kept s1 s2" "set (preorder f2) \<subseteq> set ns2 \<union> set (preorder f1)" unfolding pushed_def by blast
  have "frame (cur + 56) ns ps kept s s2" by (rule frame_trans [OF S(3) R(3)])
  moreover have "?o2 + of_nat (length ?rest) = o1 + of_nat (length (concat (map (encode_tree strs) (k # ks))))" by simp
  moreover have "set (preorder f2) \<subseteq> set (ns2 @ ns1) \<union> set (preorder f)" using S(4) R(4) by auto
  ultimately show ?case using S(1) R(1,2) unfolding pushed_def
    by (intro exI [of _ s2] exI [of _ "ns2 @ ns1"] exI [of _ "ps2 @ ps1"] exI [of _ f2]) (simp only: rev.simps append_assoc append.simps)
qed

section \<open>One node\<close>

lemma frame_field:
  assumes ap: "all_apart (built ns ps @ kept)" and n: "n \<in> set ns" "a \<in> set ns" and fr: "frame (a + i) ns ps kept s s'"
    and i: "unat i + 8 \<le> 72" and k: "unat k + 8 \<le> 72" and d: "a \<noteq> n \<or> 8 \<le> unat (k - i) \<and> 8 \<le> unat (i - k)"
  shows "load64 (kmem s') (n + k) = load64 (kmem s) (n + k)"
proof -
  have e: "extent (n + k) 8 \<subseteq> extent n 72" "extent (a + i) 8 \<subseteq> extent a 72" using i k by (simp_all add: extent_field)
  have "extent (n + k) 8 \<inter> extent (a + i) 8 = {}"
  proof (cases "a = n")
    case True
    then show ?thesis using d by (simp add: extent_disjoint_iff)
  next
    case False
    then show ?thesis using built_apart(1) [OF ap n(2,1)] e by blast
  qed
  then have "extent (n + k) 8 \<subseteq> covered (built ns ps @ kept) - extent (a + i) 8"
    using e(1) built_apart(4) [OF ap n(1)] by auto
  moreover have "agree_on (covered (built ns ps @ kept) - extent (a + i) 8) (kmem s') (kmem s)" using fr by (simp add: frame_def)
  ultimately show ?thesis by (blast intro: load64_agree)
qed

lemma node_is_frame:
  assumes ap: "all_apart (built ns ps @ kept)" and n: "n \<in> set ns" and fr: "frame (n + 56) ns ps kept s s'"
    and nd: "node_is (kmem s) kept (set ps) par n nm pl" and Q: "set ps \<subseteq> Q"
  shows "node_is (kmem s') kept Q par n nm pl"
proof -
  note f = frame_field [OF ap n n fr]
  have N: "props_are (kmem s) kept (set ps) n pl" "view_is (kmem s) kept (node_name (kmem s) n) nm" "parent (kmem s) n = par"
    "compatible_count (kmem s) n = 0"
    using nd by (simp_all add: node_is_def)
  have e: "extent (n + 56) 8 \<subseteq> extent n 72" by (rule extent_field) simp_all
  have ag: "agree_on (covered (built ns ps @ kept) - extent (n + 56) 8) (kmem s') (kmem s)" using fr by (simp add: frame_def)
  have K: "agree_on (covered kept) (kmem s') (kmem s)" by (rule kept_agree [OF ap n _ ag]) simp
  have "properties (kmem s') n = properties (kmem s) n" using f [of 40] by (simp add: properties_def)
  moreover have "agree_on ((\<Union>q \<in> fst ` set ps. extent q 56) \<union> covered kept) (kmem s') (kmem s)"
  proof (rule agree_on_mono [OF ag], rule Un_least)
    have "(\<Union>q \<in> fst ` set ps. extent q 56) = covered (spans 56 (map fst ps))" by (simp add: covered_spans)
    then show "(\<Union>q \<in> fst ` set ps. extent q 56) \<subseteq> covered (built ns ps @ kept) - extent (n + 56) 8"
      using built_apart(2) [OF ap n] e by (auto simp: built_def)
    show "covered kept \<subseteq> covered (built ns ps @ kept) - extent (n + 56) 8" using built_apart(3) [OF ap n] e by auto
  qed
  ultimately have "props_are (kmem s') kept Q n pl" using props_are_agree [OF N(1) _ Q] by blast
  moreover have "node_name (kmem s') n = node_name (kmem s) n" using f [of 0] f [of 8] by (simp add: node_name_def sv_at_def)
  ultimately show ?thesis using view_is_agree [OF N(2) K] N(3,4) f [of 48] f [of 32] by (simp add: node_is_def parent_def compatible_count_def)
qed

text \<open>What is done to a node that is new is nothing to the others.\<close>

lemma frame_fresh:
  assumes ap: "all_apart (built (n # ns) ps @ kept)" and i: "unat i + 8 \<le> 72" and fr: "frame (n + i) (n # ns) (ps' @ ps) kept s s'"
  shows "frame a ns ps kept s s'"
proof -
  have "all_apart ((n, 72) # built ns ps @ kept)" using ap by (simp only: built_def spans_simps append_Cons append_assoc)
  from all_apart_covered_hd [OF this] have "extent n 72 \<inter> covered (built ns ps @ kept) = {}" by simp
  moreover have "extent (n + i) 8 \<subseteq> extent n 72" using i by (rule extent_field) simp
  ultimately have "covered (built ns ps @ kept) - extent a 8 \<subseteq> covered (built (n # ns) (ps' @ ps) @ kept) - extent (n + i) 8"
    by (auto simp: built_def)
  then show ?thesis using fr by (auto simp: frame_def intro: agree_on_mono)
qed

text \<open>The properties of a node that was just begun.\<close>

lemma node_filled:
  fixes s :: "'a system_scheme"
  assumes ok: "parse_ok r i (length pl + j) s ns ps kept" and n: "n \<in> set ns" and nd: "node_is (kmem s) kept (set ps) par n nm []"
    and op: "opened (kmem s) kept ns ps n Nil_forest []" and d: "0 < d" "unat d + i < 2 ^ 64"
    and t: "text_at (kmem s) kept (structs + o1) (concat (map (encode_property strs) pl))" and o1: "o1 mod 4 = 0"
    and st: "\<forall>(n, d) \<in> set pl. string_known (kmem s) kept strings strs n \<and> length d < 2 ^ 32"
  shows "\<exists>s' ps'. parse_structs structs strings o1 d n s =
      parse_structs structs strings (o1 + of_nat (length (concat (map (encode_property strs) pl)))) d n s' \<and>
    begun r i j d n s' ns (ps' @ ps) kept Nil_forest [] \<and> node_is (kmem s') kept (set (ps' @ ps)) par n nm (rev pl) \<and>
    frame (n + 40) ns ps kept s s'"
proof -
  have N: "props_are (kmem s) kept (set ps) n []" "view_is (kmem s) kept (node_name (kmem s) n) nm" "parent (kmem s) n = par"
    "compatible_count (kmem s) n = 0"
    using nd by (simp_all add: node_is_def)
  from props_parsed [OF ok n N(1) t o1 st] obtain s' ps' where
    P: "parse_structs structs strings o1 d n s =
        parse_structs structs strings (o1 + of_nat (length (concat (map (encode_property strs) pl)))) d n s'"
      "parse_ok r i j s' ns (ps' @ ps) kept" "props_are (kmem s') kept (set (ps' @ ps)) n (rev pl @ [])"
      "agree_on (covered (built ns ps @ kept) - extent (n + 40) 8) (kmem s') (kmem s)" "parser_only s s'" by blast
  have ap: "all_apart (built ns ps @ kept)" by (rule parse_ok_apart [OF ok])
  have fr: "frame (n + 40) ns ps kept s s'" using P(4,5) by (simp add: frame_def)
  note f = frame_field [OF ap n n fr]
  have K: "agree_on (covered kept) (kmem s') (kmem s)" by (rule kept_agree [OF ap n _ P(4)]) simp
  have "children (kmem s') n = children (kmem s) n" using f [of 56] by (simp add: children_def)
  then have "opened (kmem s') kept ns (ps' @ ps) n Nil_forest []" using op by (simp add: opened_def)
  moreover have "node_name (kmem s') n = node_name (kmem s) n" using f [of 0] f [of 8] by (simp add: node_name_def sv_at_def)
  moreover have "parent (kmem s') n = par" "compatible_count (kmem s') n = 0"
    using N(3,4) f [of 48] f [of 32] by (simp_all add: parent_def compatible_count_def)
  ultimately show ?thesis using P(1-3) fr view_is_agree [OF N(2) K] n d
    by (intro exI [of _ s'] exI [of _ ps']) (simp add: begun_def node_is_def)
qed

text \<open>The end of a node whose children were read.\<close>

lemma node_closed:
  fixes s :: "'a system_scheme"
  assumes pu: "pushed structs strings r i j o1 d n s ns ps kept Nil_forest (rev ks) o2" and be: "begun r i' j' d n s ns ps kept f ts"
    and nd: "node_is (kmem s) kept (set ps) par n nm pl"
    and t: "text_at (kmem s) kept (structs + o2) (be32 (token_value STRUCTURE_TOKEN_NODE_END))" and o2: "o2 mod 4 = 0"
  shows "\<exists>s' ns' ps' f'. parse_structs structs strings o1 d n s = parse_structs structs strings (o2 + 4) (d - 1) par s' \<and>
    parse_ok r i j s' (ns' @ ns) (ps' @ ps) kept \<and> node_is (kmem s') kept (set (ps' @ ps)) par n nm pl \<and>
    opened (kmem s') kept (ns' @ ns) (ps' @ ps) n f' (rev ks) \<and> set (preorder f') \<subseteq> set ns' \<and> frame (n + 56) ns ps kept s s'"
proof -
  obtain s' ns' ps' f' where P: "parse_structs structs strings o1 d n s = parse_structs structs strings o2 d n s'"
      "begun r i j d n s' (ns' @ ns) (ps' @ ps) kept f' (rev ks)" "frame (n + 56) ns ps kept s s'" "set (preorder f') \<subseteq> set ns'"
    using pu unfolding pushed_def by auto
  have ap: "all_apart (built ns ps @ kept)" and n: "n \<in> set ns" using be parse_ok_apart by (auto simp: begun_def)
  have nd': "node_is (kmem s') kept (set (ps' @ ps)) par n nm pl" by (rule node_is_frame [OF ap n P(3) nd]) simp
  have ok: "parse_ok r i j s' (ns' @ ns) (ps' @ ps) kept" using P(2) by (simp add: begun_def)
  have n0: "n \<noteq> 0" using parse_ok_nonzero [OF ok] n by auto
  have "READ_BIG_ENDIAN_U32 (kmem s') (structs + o2) = token_value STRUCTURE_TOKEN_NODE_END"
    by (rule text_at_be32 [OF text_at_agree [OF t begun_kept [OF be P(3)]]])
  then have "parse_token structs strings o2 d n s' = Inr (True, o2 + 4, d - 1, par, s')"
    using o2 n0 nd' by (simp add: parse_token_def node_is_def)
  then show ?thesis using P nd' ok parse_structs_step [of structs strings o2 d n s'] by (auto simp: begun_def)
qed

text \<open>The parts of a node's text.\<close>

lemma text_at_node:
  assumes "text_at m kept a (encode_tree strs (DNode nm pl ks))"
  defines "a1 \<equiv> a + 4" and "a2 \<equiv> a + 4 + of_nat (length (padded (nm @ [0])))"
  defines "a3 \<equiv> a2 + of_nat (length (concat (map (encode_property strs) pl)))"
  shows "text_at m kept a (be32 (token_value STRUCTURE_TOKEN_NODE_START))" and "text_at m kept a1 (padded (nm @ [0]))"
    and "text_at m kept a2 (concat (map (encode_property strs) pl))" and "text_at m kept a3 (concat (map (encode_tree strs) ks))"
    and "text_at m kept (a3 + of_nat (length (concat (map (encode_tree strs) ks)))) (be32 (token_value STRUCTURE_TOKEN_NODE_END))"
proof -
  let ?p = "concat (map (encode_property strs) pl)" and ?k = "concat (map (encode_tree strs) ks)"
  let ?e = "be32 (token_value STRUCTURE_TOKEN_NODE_END)"
  have t: "text_at m kept a (be32 (token_value STRUCTURE_TOKEN_NODE_START) @ padded (nm @ [0]) @ ?p @ ?k @ ?e)" using assms(1) by simp
  note T1 = text_at_append [OF t]
  have t1: "text_at m kept a1 (padded (nm @ [0]) @ ?p @ ?k @ ?e)" using T1 by (simp add: a1_def)
  note T2 = text_at_append [OF t1]
  have t2: "text_at m kept a2 (?p @ ?k @ ?e)" using T2 by (simp add: a1_def a2_def)
  note T3 = text_at_append [OF t2]
  have t3: "text_at m kept a3 (?k @ ?e)" using T3 by (simp add: a3_def)
  note T4 = text_at_append [OF t3]
  show "text_at m kept a (be32 (token_value STRUCTURE_TOKEN_NODE_START))" "text_at m kept a1 (padded (nm @ [0]))"
    "text_at m kept a2 ?p" "text_at m kept a3 ?k" "text_at m kept (a3 + of_nat (length ?k)) ?e" using T1 T2 T3 T4 by blast+
qed

lemma properties_dvd: "4 dvd length (concat (map (encode_property strs) pl))"
proof (induction pl)
  case (Cons p pl)
  then show ?case by (cases p) (simp add: four_dvd_padded)
qed simp

lemma kids_dvd: "4 dvd length (concat (map (encode_tree strs) ks))"
  by (induction ks) (simp_all add: four_dvd_encode_tree)

text \<open>A subtree that is new beside what there was: the nodes it consists of, and where it is.\<close>

lemma tree_parsed:
  fixes s :: "'a system_scheme"
  assumes "begun r (tree_nodes t + i) (tree_properties t + j) d cur s ns ps kept f ts"
    and "text_at (kmem s) kept (structs + o1) (encode_tree strs t)" and "tree_ok (string_known (kmem s) kept strings strs) t"
    and "o1 mod 4 = 0"
  shows "pushed structs strings r i j o1 d cur s ns ps kept f (t # ts) (o1 + of_nat (length (encode_tree strs t)))"
  using assms
proof (induction t arbitrary: i j d cur s ns ps f ts o1)
  case (DNode nm pl ks)
  let ?p = "concat (map (encode_property strs) pl)" and ?k = "concat (map (encode_tree strs) ks)"
  let ?i = "sum_list (map tree_nodes ks) + i" and ?j = "sum_list (map tree_properties ks) + j"
  let ?o2 = "o1 + 4 + of_nat (length (padded (nm @ [0])))" let ?o3 = "?o2 + of_nat (length ?p)" let ?o4 = "?o3 + of_nat (length ?k)"
  note B = DNode.prems(1)
  have ok: "parse_ok r (Suc ?i) (length pl + ?j) s ns ps kept" and op: "opened (kmem s) kept ns ps cur f ts" and cur: "cur \<in> set ns"
    and d: "0 < d" "unat d + Suc ?i < 2 ^ 64" using B by (simp_all add: begun_def add.assoc)
  note ap = parse_ok_apart [OF ok]
  have c0: "cur \<noteq> 0" using cur parse_ok_nonzero [OF ok] by auto
  note T = text_at_node [OF DNode.prems(2)]
  have nm: "0 \<notin> set nm" and st: "\<forall>(n, d) \<in> set pl. string_known (kmem s) kept strings strs n \<and> length d < 2 ^ 32"
    and kt: "\<forall>k \<in> set ks. tree_ok (string_known (kmem s) kept strings strs) k" using DNode.prems(3) by simp_all
  have m4: "o1 mod 4 = 0" by (rule DNode.prems(4))
  have "(o1 + of_nat 4) mod 4 = 0" by (rule mod_4_advance [OF m4]) simp
  then have m2: "?o2 mod 4 = 0" using mod_4_advance [OF _ four_dvd_padded, of "o1 + 4" "nm @ [0]"] by simp
  have m3: "?o3 mod 4 = 0" by (rule mod_4_advance [OF m2 properties_dvd])
  have m4': "?o4 mod 4 = 0" by (rule mod_4_advance [OF m3 kids_dvd])
  \<comment> \<open>the start of the node\<close>
  have t1: "text_at (kmem s) kept (structs + (o1 + 4)) (padded (nm @ [0]))" using T(2) by (simp add: add.assoc)
  from node_parsed [OF ok disjI2 [OF cur] t1 nm] c0 obtain n s1 where
    N: "device_tree_parse_node cur structs (o1 + 4) s = Inr (?o2, n, s1)" "parse_ok r ?i (length pl + ?j) s1 (n # ns) ps kept"
      "node_is (kmem s1) kept (set ps) cur n nm []" "opened (kmem s1) kept (n # ns) ps n Nil_forest []"
      "sibling (kmem s1) n = children (kmem s) cur" "children (kmem s1) cur = n" "frame (cur + 56) ns ps kept s s1"
    by (auto simp: frame_def)
  have tok: "READ_BIG_ENDIAN_U32 (kmem s) (structs + o1) = token_value STRUCTURE_TOKEN_NODE_START" by (rule text_at_be32 [OF T(1)])
  have d1: "unat (d + 1) = unat d + 1" "0 < d + 1" "unat (d + 1) + ?i < 2 ^ 64"
  proof -
    show u: "unat (d + 1) = unat d + 1" using d(2) unat_add_eq [of d 1] by simp
    then show "0 < d + 1" "unat (d + 1) + ?i < 2 ^ 64" using d(2) by (simp_all add: word_less_nat_alt)
  qed
  have "parse_token structs strings o1 d cur s = Inr (True, ?o2, d + 1, n, s1)"
    using N(1) tok m4 d(1) by (simp add: parse_token_def word_gt_0)
  note run1 = parse_structs_step [OF this]
  note ap1 = parse_ok_apart [OF N(2)]
  have K1: "agree_on (covered kept) (kmem s1) (kmem s)" by (rule begun_kept [OF B N(7)])
  have n_new: "n \<notin> set ns" using built_new [of "[n]"] ap1 by simp
  \<comment> \<open>its properties\<close>
  have t2: "text_at (kmem s1) kept (structs + ?o2) ?p" using text_at_agree [OF T(3) K1] by (simp add: add.assoc)
  have st1: "\<forall>(n, d) \<in> set pl. string_known (kmem s1) kept strings strs n \<and> length d < 2 ^ 32"
    using st string_known_agree [OF _ K1] by auto
  from node_filled [OF N(2) _ N(3,4) d1(2,3) t2 m2 st1] obtain s2 ps2 where
    P: "parse_structs structs strings ?o2 (d + 1) n s1 = parse_structs structs strings ?o3 (d + 1) n s2"
      "begun r ?i ?j (d + 1) n s2 (n # ns) (ps2 @ ps) kept Nil_forest []" "node_is (kmem s2) kept (set (ps2 @ ps)) cur n nm (rev pl)"
      "frame (n + 40) (n # ns) ps kept s1 s2" by auto
  have K2: "agree_on (covered kept) (kmem s2) (kmem s1)"
    by (rule kept_agree [OF ap1, of n 40]) (use P(4) in \<open>simp_all add: frame_def\<close>)
  have K12: "agree_on (covered kept) (kmem s2) (kmem s)" by (rule agree_on_trans [OF K2 K1])
  \<comment> \<open>its children\<close>
  have t3: "text_at (kmem s2) kept (structs + ?o3) ?k" using text_at_agree [OF T(4) K12] by (simp add: add.assoc)
  have kt2: "\<forall>k \<in> set ks. tree_ok (string_known (kmem s2) kept strings strs) k"
    using kt tree_ok_mono string_known_agree [OF _ K12] by metis
  have "pushed structs strings r i j ?o3 (d + 1) n s2 (n # ns) (ps2 @ ps) kept Nil_forest (rev ks @ []) ?o4"
    by (rule kids_parsed [OF DNode.IH P(2) t3 kt2 m3])
  then have pu: "pushed structs strings r i j ?o3 (d + 1) n s2 (n # ns) (ps2 @ ps) kept Nil_forest (rev ks) ?o4" by simp
  \<comment> \<open>its end\<close>
  have t4: "text_at (kmem s2) kept (structs + ?o4) (be32 (token_value STRUCTURE_TOKEN_NODE_END))"
    using text_at_agree [OF T(5) K12] by (simp add: add.assoc)
  from node_closed [OF pu P(2,3) t4 m4'] obtain s3 ns3 ps3 f3 where
    C: "parse_structs structs strings ?o3 (d + 1) n s2 = parse_structs structs strings (?o4 + 4) d cur s3"
      "parse_ok r i j s3 (ns3 @ n # ns) (ps3 @ ps2 @ ps) kept" "node_is (kmem s3) kept (set (ps3 @ ps2 @ ps)) cur n nm (rev pl)"
      "opened (kmem s3) kept (ns3 @ n # ns) (ps3 @ ps2 @ ps) n f3 (rev ks)" "set (preorder f3) \<subseteq> set ns3" "frame (n + 56) (n # ns) (ps2 @ ps) kept s2 s3" by auto
  note ap3 = parse_ok_apart [OF C(2)]
  have F3: "frame (cur + 56) ns ps kept s s3"
  proof -
    have "frame (cur + 56) ns ps kept s1 s2" using frame_fresh [OF ap1, of 40 "[]"] P(4) by simp
    moreover have "frame (cur + 56) ns ps kept s2 s3" by (rule frame_fresh [OF ap1 _ C(6)]) simp
    ultimately show ?thesis using frame_trans [of _ ns ps kept _ _ "[]" "[]"] N(7) by simp blast
  qed
  have e: "extent (cur + 56) 8 \<subseteq> extent cur 72" by (rule extent_field) simp_all
  have ag: "agree_on (covered (built ns ps @ kept) - extent cur 72) (kmem s3) (kmem s)"
    using F3 e by (auto simp: frame_def intro: agree_on_mono)
  have "set ps \<subseteq> set (ps3 @ ps2 @ ps)" by auto
  note old = opened_agree [OF op ap cur this ag]
  have apP: "all_apart (built (n # ns) (ps2 @ ps) @ kept)" using P(2) parse_ok_apart by (auto simp: begun_def)
  have cur': "cur \<in> set (n # ns)" "cur \<noteq> n" using cur n_new by auto
  have ch: "children (kmem s3) cur = n"
    using N(6) frame_field [OF ap1 cur'(1) _ P(4), of 56] frame_field [OF apP cur'(1) _ C(6), of 56] cur'(2) by (simp add: children_def)
  have si: "sibling (kmem s3) n = children (kmem s) cur"
    using N(5) frame_field [OF ap1 _ _ P(4), of n 64] frame_field [OF apP _ _ C(6), of n 64] by (simp add: sibling_def)
  have n0: "n \<noteq> 0" using parse_ok_nonzero [OF N(2)] by auto
  have "cur \<notin> set ns3" "set ns3 \<inter> set ns = {}" using built_new [OF ap3] cur by auto
  then have "opened (kmem s3) kept (ns3 @ n # ns) (ps3 @ ps2 @ ps) cur (Node n f3 f) (DNode nm pl ks # ts)"
    using old C(3-5) op cur'(2) n0 n_new unfolding opened_def by (auto simp: ch si)
  then have "begun r i j d cur s3 ((ns3 @ [n]) @ ns) ((ps3 @ ps2) @ ps) kept (Node n f3 f) (DNode nm pl ks # ts)"
    using C(2) cur d by (simp add: begun_def)
  moreover have "set (preorder (Node n f3 f)) \<subseteq> set (ns3 @ [n]) \<union> set (preorder f)" using C(5) by auto
  moreover have "parse_structs structs strings o1 d cur s =
      parse_structs structs strings (o1 + of_nat (length (encode_tree strs (DNode nm pl ks)))) d cur s3"
    unfolding run1 P(1) C(1) by (simp add: algebra_simps)
  ultimately show ?case unfolding pushed_def using F3 by blast
qed

section \<open>The root, and the whole block\<close>

text \<open>The root's name is empty in the blob, and a slash in memory.\<close>

fun rooted :: "dtree \<Rightarrow> dtree" where
  "rooted (DNode nm pl ks) = DNode (if nm = [] then SV ''/'' else nm) pl ks"

lemma parse_ok_root: "parse_ok r i j s ns ps kept \<Longrightarrow> parse_ok r i j (s\<lparr>dt := (dt s)\<lparr>root_node := x\<rparr>\<rparr>) ns ps kept"
proof -
  assume ok: "parse_ok r i j s ns ps kept"
  let ?s' = "s\<lparr>dt := (dt s)\<lparr>root_node := x\<rparr>\<rparr>"
  have "roomy ?s' live = roomy s live" for live by (rule roomy_same) (simp_all add: manager_same_def)
  moreover have "spare ?s' = spare s" by (simp add: spare_def)
  ultimately show ?thesis using ok by (simp add: parse_ok_def)
qed

text \<open>The state apart from which node is the root.\<close>

definition parser_root :: "'a system_scheme \<Rightarrow> 'a system_scheme \<Rightarrow> bool" where
  "parser_root s s' \<longleftrightarrow> (\<exists>x. parser_only (s\<lparr>dt := (dt s)\<lparr>root_node := x\<rparr>\<rparr>) s')"

lemma root_begun:
  fixes s :: "'a system_scheme"
  assumes ok: "parse_ok r (Suc i) j s [] [] kept" and lit: "text_at (kmem s) kept (lit_addr s ''/'') (SV ''/'')"
    and t: "text_at (kmem s) kept structs (be32 (token_value STRUCTURE_TOKEN_NODE_START))"
    and t1: "text_at (kmem s) kept (structs + 4) (padded (nm @ [0]))" and nm: "0 \<notin> set nm"
  shows "\<exists>n s'. parse_structs structs strings 0 0 0 s = parse_structs structs strings (4 + of_nat (length (padded (nm @ [0])))) 1 n s' \<and>
    parse_ok r i j s' [n] [] kept \<and> node_is (kmem s') kept {} 0 n (if nm = [] then SV ''/'' else nm) [] \<and>
    opened (kmem s') kept [n] [] n Nil_forest [] \<and> sibling (kmem s') n = 0 \<and> n \<noteq> 0 \<and>
    root_node (dt s') = (if nm = [] then n else root_node (dt s)) \<and>
    agree_on (covered kept) (kmem s') (kmem s) \<and> parser_root s s'"
proof -
  from node_parsed [OF ok disjI1 [OF refl] t1 nm] obtain n s1 where
    N: "device_tree_parse_node 0 structs 4 s = Inr (4 + of_nat (length (padded (nm @ [0]))), n, s1)" "parse_ok r i j s1 [n] [] kept"
      "node_is (kmem s1) kept {} 0 n nm []" "opened (kmem s1) kept [n] [] n Nil_forest []"
      "sibling (kmem s1) n = 0" "agree_on (covered kept) (kmem s1) (kmem s)" "parser_only s s1"
    by (auto simp: built_def)
  let ?o2 = "4 + of_nat (length (padded (nm @ [0])))"
  have n0: "n \<noteq> 0" using parse_ok_nonzero [OF N(2)] by auto
  have ap: "all_apart (built [n] [] @ kept)" by (rule parse_ok_apart [OF N(2)])
  have tok: "READ_BIG_ENDIAN_U32 (kmem s) structs = token_value STRUCTURE_TOKEN_NODE_START" by (rule text_at_be32 [OF t])
  have size: "sv_size (node_name (kmem s1) n) = 0 \<longleftrightarrow> nm = []"
  proof -
    have "sv_size (node_name (kmem s1) n) = of_nat (length nm)" "length nm < 2 ^ 63" using N(3) by (auto simp: node_is_def view_is_def text_at_def)
    then show ?thesis by (simp add: word_unat_eq_iff unat_of_nat)
  qed
  show ?thesis
  proof (cases "nm = []")
    case False
    have "parse_token structs strings 0 0 0 s = Inr (True, ?o2, 1, n, s1)" using N(1) tok size False by (simp add: parse_token_def)
    note run = parse_structs_step [OF this]
    have "s\<lparr>dt := (dt s)\<lparr>root_node := root_node (dt s)\<rparr>\<rparr> = s" by simp
    then have "parser_root s s1" using N(7) unfolding parser_root_def by (metis (no_types))
    then show ?thesis using run N n0 False parser_only_fields(1) [OF N(7)] by (intro exI [of _ n] exI [of _ s1]) simp
  next
    case True
    let ?t = "s1\<lparr>dt := (dt s1)\<lparr>root_node := n\<rparr>\<rparr>"
    let ?m = "store64 (store64 (kmem s1) n (lit_addr s1 ''/'')) (n + 8) 1"
    let ?s' = "?t\<lparr>kmem := ?m\<rparr>"
    have "parse_token structs strings 0 0 0 s = Inr (True, ?o2, 1, n, ?s')"
      using N(1) tok size True by (simp add: parse_token_def set_sv_def set64_def)
    note run = parse_structs_step [OF this]
    have ag: "agree_on (- extent n 16) ?m (kmem s1)"
      using store_in_struct [of n 16 "kmem s1" "kmem s1" 0] by (intro store_in_struct) simp_all
    have e: "extent n 16 \<subseteq> extent n 72" by (rule extent_mono) simp
    have "agree_on (- covered (built [n] [])) ?m (kmem ?t)" using agree_on_mono [OF ag] e by (simp add: built_def)
    then have ok': "parse_ok r i j ?s' [n] [] kept" by (rule parse_ok_write [OF parse_ok_root [OF N(2)]])
    have K1: "agree_on (covered kept) ?m (kmem s1)" using built_apart(3) [OF ap] e by (intro agree_on_mono [OF ag]) auto
    have K: "agree_on (covered kept) ?m (kmem s)" by (rule agree_on_trans [OF K1 N(6)])
    have f: "load64 ?m (n + k) = load64 (kmem s1) (n + k)" if "16 \<le> unat k" "unat k + 8 \<le> 72" for k
    proof -
      have "k \<noteq> 0" using that(1) by auto
      then have "unat (- k) = 2 ^ 64 - unat k" by (rule unat_uminus)
      then have "extent (n + k) 8 \<inter> extent n 16 = {}" using that by (simp add: extent_disjoint_iff)
      then show ?thesis by (intro load64_agree [OF ag]) blast
    qed
    have "lit_addr s1 = lit_addr s" by (rule parser_only_fields(2) [OF N(7)])
    then have "view_is ?m kept (node_name ?m n) (SV ''/'')"
      using text_at_agree [OF lit K] by (simp add: view_is_def node_name_def sv_at_def mem_simps SV_def)
    then have nd: "node_is ?m kept {} 0 n (SV ''/'') []"
      using N(3) f [of 40] f [of 48] f [of 32]
      by (simp add: node_is_def props_are_def properties_def parent_def compatible_count_def)
    have op: "opened ?m kept [n] [] n Nil_forest []" using N(4) f [of 56] by (simp add: opened_def children_def)
    have si: "sibling ?m n = 0" using N(5) f [of 64] by (simp add: sibling_def)
    have "parser_only (s\<lparr>dt := (dt s)\<lparr>root_node := n\<rparr>\<rparr>) ?s'" by (rule parser_onlyE [OF N(7)]) (simp add: parser_only_def)
    then have "parser_root s ?s'" unfolding parser_root_def by blast
    then show ?thesis using run ok' nd op si n0 K True by (intro exI [of _ n] exI [of _ ?s']) simp
  qed
qed

text \<open>What the first pass leaves behind: the tree is at \<open>n\<close>, in memory that is kept from now on.\<close>

definition tree_built :: "nat \<Rightarrow> nat \<Rightarrow> nat \<Rightarrow> 'a system_scheme \<Rightarrow> addr list \<Rightarrow> (addr \<times> addr) list \<Rightarrow> (addr \<times> nat) list \<Rightarrow> forest \<Rightarrow> dtree \<Rightarrow> bool" where
  "tree_built r i j s ns ps kept f t \<longleftrightarrow> (\<exists>n cs. f = Node n cs Nil_forest \<and> forest_at (kmem s) n f \<and>
     forest_is (kmem s) kept (set ps) 0 f [rooted t] \<and> set (preorder f) \<subseteq> set ns \<and> distinct (preorder f) \<and>
     parse_ok r i j s ns ps kept)"

lemma parse_structs_reads:
  fixes s :: "'a system_scheme"
  assumes ok: "parse_ok r (tree_nodes t + i) (tree_properties t + j) s [] [] kept" and few: "tree_nodes t + i < 2 ^ 63"
    and t: "text_at (kmem s) kept structs (encode_blob strs t)" and st: "tree_ok (string_known (kmem s) kept strings strs) t"
    and lit: "text_at (kmem s) kept (lit_addr s ''/'') (SV ''/'')"
  shows "\<exists>s' ns ps n cs. parse_structs structs strings 0 0 0 s = Some (Inr s') \<and>
    tree_built r i j s' ns ps kept (Node n cs Nil_forest) t \<and>
    root_node (dt s') = (if tree_name t = [] then n else root_node (dt s)) \<and>
    agree_on (covered kept) (kmem s') (kmem s) \<and> parser_root s s'"
proof -
  obtain nm pl ks where td: "t = DNode nm pl ks" by (cases t)
  let ?p = "concat (map (encode_property strs) pl)" and ?k = "concat (map (encode_tree strs) ks)"
  let ?i = "sum_list (map tree_nodes ks) + i" and ?j = "sum_list (map tree_properties ks) + j"
  let ?o2 = "4 + of_nat (length (padded (nm @ [0]))) :: u64" let ?o3 = "?o2 + of_nat (length ?p)" let ?o4 = "?o3 + of_nat (length ?k)"
  let ?nm = "if nm = [] then SV ''/'' else nm"
  note TE = text_at_append [OF t [unfolded encode_blob_def]]
  note T = text_at_node [OF TE [THEN conjunct1, unfolded td]]
  have nm: "0 \<notin> set nm" and st0: "\<forall>(n, d) \<in> set pl. string_known (kmem s) kept strings strs n \<and> length d < 2 ^ 32"
    and kt: "\<forall>k \<in> set ks. tree_ok (string_known (kmem s) kept strings strs) k" using st by (simp_all add: td)
  have ok0: "parse_ok r (Suc ?i) (length pl + ?j) s [] [] kept" using ok by (simp add: td add.assoc)
  have i: "unat (1 :: u64) + ?i < 2 ^ 64" using few by (simp add: td)
  have "((0 :: u64) + of_nat 4) mod 4 = 0" by simp
  then have m2: "?o2 mod 4 = 0" using mod_4_advance [OF _ four_dvd_padded, of 4 "nm @ [0]"] by simp
  have m3: "?o3 mod 4 = 0" by (rule mod_4_advance [OF m2 properties_dvd])
  have m4: "?o4 mod 4 = 0" by (rule mod_4_advance [OF m3 kids_dvd])
  from root_begun [OF ok0 lit T(1,2) nm] obtain n s1 where
    R: "parse_structs structs strings 0 0 0 s = parse_structs structs strings ?o2 1 n s1" "parse_ok r ?i (length pl + ?j) s1 [n] [] kept"
      "node_is (kmem s1) kept {} 0 n ?nm []" "opened (kmem s1) kept [n] [] n Nil_forest []" "sibling (kmem s1) n = 0" "n \<noteq> 0"
      "root_node (dt s1) = (if nm = [] then n else root_node (dt s))" "agree_on (covered kept) (kmem s1) (kmem s)" "parser_root s s1" by blast
  have ap1: "all_apart (built [n] [] @ kept)" by (rule parse_ok_apart [OF R(2)])
  \<comment> \<open>its properties\<close>
  have t2: "text_at (kmem s1) kept (structs + ?o2) ?p" using text_at_agree [OF T(3) R(8)] by (simp add: add.assoc)
  have st1: "\<forall>(n, d) \<in> set pl. string_known (kmem s1) kept strings strs n \<and> length d < 2 ^ 32"
    using st0 string_known_agree [OF _ R(8)] by auto
  have "node_is (kmem s1) kept (set []) 0 n ?nm []" using R(3) by simp
  from node_filled [OF R(2) _ this R(4) _ i t2 m2 st1] obtain s2 ps2 where
    P: "parse_structs structs strings ?o2 1 n s1 = parse_structs structs strings ?o3 1 n s2"
      "begun r ?i ?j 1 n s2 [n] ps2 kept Nil_forest []" "node_is (kmem s2) kept (set ps2) 0 n ?nm (rev pl)"
      "frame (n + 40) [n] [] kept s1 s2" by auto
  have ap2: "all_apart (built [n] ps2 @ kept)" using P(2) parse_ok_apart by (auto simp: begun_def)
  have K2: "agree_on (covered kept) (kmem s2) (kmem s)"
    by (rule agree_on_trans [OF kept_agree [OF ap1, of n 40] R(8)]) (use P(4) in \<open>simp_all add: frame_def\<close>)
  \<comment> \<open>its children\<close>
  have t3: "text_at (kmem s2) kept (structs + ?o3) ?k" using text_at_agree [OF T(4) K2] by (simp add: add.assoc)
  have kt2: "\<forall>k \<in> set ks. tree_ok (string_known (kmem s2) kept strings strs) k"
    using kt tree_ok_mono string_known_agree [OF _ K2] by metis
  have "pushed structs strings r i j ?o3 1 n s2 [n] ps2 kept Nil_forest (rev ks @ []) ?o4"
    by (rule kids_parsed [OF tree_parsed P(2) t3 kt2 m3])
  then have pu: "pushed structs strings r i j ?o3 1 n s2 [n] ps2 kept Nil_forest (rev ks) ?o4" by simp
  \<comment> \<open>its end, and the end of the block\<close>
  have t4: "text_at (kmem s2) kept (structs + ?o4) (be32 (token_value STRUCTURE_TOKEN_NODE_END))"
    using text_at_agree [OF T(5) K2] by (simp add: add.assoc)
  from node_closed [OF pu P(2,3) t4 m4] obtain s3 ns3 ps3 f3 where
    C: "parse_structs structs strings ?o3 1 n s2 = parse_structs structs strings (?o4 + 4) 0 0 s3"
      "parse_ok r i j s3 (ns3 @ [n]) (ps3 @ ps2) kept" "node_is (kmem s3) kept (set (ps3 @ ps2)) 0 n ?nm (rev pl)"
      "opened (kmem s3) kept (ns3 @ [n]) (ps3 @ ps2) n f3 (rev ks)" "set (preorder f3) \<subseteq> set ns3" "frame (n + 56) [n] ps2 kept s2 s3" by auto
  have K3: "agree_on (covered kept) (kmem s3) (kmem s)" by (rule agree_on_trans [OF begun_kept [OF P(2) C(6)] K2])
  have e: "of_nat (length (encode_tree strs t)) = ?o4 + 4" by (simp add: td algebra_simps)
  have "text_at (kmem s3) kept (structs + (?o4 + 4)) (be32 (token_value STRUCTURE_TOKEN_END))"
    using text_at_agree [OF TE [THEN conjunct2] K3] unfolding e .
  then have tok: "READ_BIG_ENDIAN_U32 (kmem s3) (structs + (?o4 + 4)) = token_value STRUCTURE_TOKEN_END" by (rule text_at_be32)
  have "(?o4 + 4) mod 4 = 0" using mod_4_advance [OF m4, of 4] by simp
  then have "parse_structs structs strings (?o4 + 4) 0 0 s3 = Some (Inr s3)"
    using tok by (subst parse_structs.simps) (simp add: parse_token_def)
  then have run: "parse_structs structs strings 0 0 0 s = Some (Inr s3)" using R(1) P(1) C(1) by simp
  have "sibling (kmem s3) n = 0"
    using R(5) frame_field [OF ap1 _ _ P(4), of n 64] frame_field [OF ap2 _ _ C(6), of n 64] by (simp add: sibling_def)
  then have "tree_built r i j s3 (ns3 @ [n]) (ps3 @ ps2) kept (Node n f3 Nil_forest) t"
    using C R(6) by (auto simp: tree_built_def opened_def td)
  moreover have "parser_only s1 s3" using P(4) C(6) parser_only_trans by (auto simp: frame_def)
  moreover have "root_node (dt s3) = root_node (dt s1)" by (rule parser_only_fields(1)) fact
  moreover have "parser_root s s3" using R(9) calculation(2) parser_only_trans unfolding parser_root_def by blast
  ultimately show ?thesis using run R(7) K3 by (metis td dtree.sel(1))
qed

section \<open>A concrete blob\<close>

text \<open>A root with a property and a child with one; the blob, the strings and a literal in one page.\<close>

definition small_tree :: dtree where
  "small_tree = DNode [] [(SV ''model'', SV ''qemu'')] [DNode (SV ''uart@10000000'') [(SV ''reg'', replicate 16 0)] []]"

definition small_strings :: "u8 list \<Rightarrow> u32" where
  "small_strings n = (if n = SV ''reg'' then 6 else 0)"

abbreviation small_page :: "(addr \<times> nat) list" where "small_page \<equiv> [(0x20000, 0x1000)]"

definition small_memory :: "mem \<Rightarrow> mem" where
  "small_memory m = store_bytes (store_bytes (store_bytes m 0x20000 (encode_blob small_strings small_tree))
     0x20400 (SV ''model'' @ [0] @ SV ''reg'' @ [0])) 0x20800 (SV ''/'')"

definition small_system :: "kernel \<Rightarrow> system" where
  "small_system k = (idle_system k)\<lparr>kmem := small_memory (kmem k), lit_addr := (\<lambda>_. 0x20800),
     dt := (dt (idle_system k))\<lparr>node_arena := slab_autorefill_init 72, property_arena := slab_autorefill_init 56\<rparr>\<rparr>"

lemma small_system_fields [simp]:
  "kmem (small_system k) = small_memory (kmem k)" "lit_addr (small_system k) = (\<lambda>_. 0x20800)" "spare (small_system k) = spare k"
  "node_arena (dt (small_system k)) = slab_autorefill_init 72" "property_arena (dt (small_system k)) = slab_autorefill_init 56"
  by (simp_all add: small_system_def spare_def)

lemma small_lengths:
  "length (encode_blob small_strings small_tree) = 84" "length (SV ''model'' @ [0] @ SV ''reg'' @ [0]) = 10" "length (SV ''/'') = 1"
  by (simp_all add: encode_blob_def small_tree_def SV_def length_padded)

lemma small_text:
  "text_at (small_memory m) small_page 0x20000 (encode_blob small_strings small_tree)"
  "text_at (small_memory m) small_page 0x20400 (SV ''model'' @ [0] @ SV ''reg'' @ [0])"
  "text_at (small_memory m) small_page 0x20800 (SV ''/'')"
proof -
  let ?b = "encode_blob small_strings small_tree"
  note l = small_lengths(1) and ls = small_lengths(2) and l1 = small_lengths(3)
  have e: "extent (0x20000 + i) n \<subseteq> covered small_page" if "unat i + n \<le> 0x1000" for i n
    using extent_field [OF that, of "0x20000"] by simp
  have d: "extent 0x20000 84 \<inter> extent 0x20400 10 = {}" "extent 0x20000 84 \<inter> extent 0x20800 1 = {}" "extent 0x20400 10 \<inter> extent 0x20800 1 = {}"
    by (simp_all add: extent_disjoint_iff)
  let ?s = "SV ''model'' @ [0] @ SV ''reg'' @ [0]"
  have "agree_on (extent 0x20000 84) (small_memory m) (store_bytes m 0x20000 ?b)"
    unfolding small_memory_def using d by (intro agree_on_trans [OF store_bytes_agree store_bytes_agree]) (simp_all only: ls l1)
  then have "load_bytes (small_memory m) 0x20000 84 = ?b"
    using load_bytes_agree load_store_bytes_same [of 84 ?b] by (simp add: l)
  then show "text_at (small_memory m) small_page 0x20000 ?b" using e [of 0 84] by (simp add: text_at_def l)
  have "agree_on (extent 0x20400 10) (small_memory m) (store_bytes (store_bytes m 0x20000 ?b) 0x20400 ?s)"
    unfolding small_memory_def by (rule store_bytes_agree) (simp only: d l1)
  then have "load_bytes (small_memory m) 0x20400 10 = ?s"
    using load_bytes_agree load_store_bytes_same [of 10 ?s] by (simp only: ls) simp
  then show "text_at (small_memory m) small_page 0x20400 ?s" using e [of "0x400" 10] unfolding text_at_def ls by simp
  have "load_bytes (small_memory m) 0x20800 1 = SV ''/''" unfolding small_memory_def by (rule load_store_bytes_same) (simp_all add: l1)
  then show "text_at (small_memory m) small_page 0x20800 (SV ''/'')" using e [of "0x800" 1] by (simp add: text_at_def l1)
qed

lemma small_tree_ok: "tree_ok (string_known (small_memory m) small_page 0x20400 small_strings) small_tree"
proof -
  have "text_at (small_memory m) small_page 0x20400 ((SV ''model'' @ [0]) @ (SV ''reg'' @ [0]))" using small_text(2) by simp
  note T = text_at_append [OF this]
  have "string_known (small_memory m) small_page 0x20400 small_strings (SV ''model'')"
    using T by (simp add: string_known_def small_strings_def) (simp add: SV_def)
  moreover have "string_known (small_memory m) small_page 0x20400 small_strings (SV ''reg'')"
    using T by (simp add: string_known_def small_strings_def) (simp add: SV_def)
  ultimately show ?thesis by (simp add: small_tree_def) (simp add: SV_def)
qed

lemma small_roomy:
  obtains k :: kernel where "roomy (small_system k) small_page" and "spare k = 0x380000"
proof -
  obtain k :: kernel where k: "roomy k small_page" "spare k = 0x380000"
    by (rule roomy_boot [of small_page]) (simp_all add: apart_pair extent_disjoint_iff mem_extent)
  let ?k = "k\<lparr>kmem := small_memory (kmem k)\<rparr>"
  have "agree_on (- extent 0x20000 0x1000) (small_memory (kmem k)) (kmem k)"
  proof -
    have e: "- extent 0x20000 0x1000 \<inter> extent (0x20000 + i) n = {}" if "unat i + n \<le> 0x1000" for i n
      using extent_field [OF that, of "0x20000"] by auto
    show ?thesis unfolding small_memory_def
      using e [of 0 84] e [of "0x400" 10] e [of "0x800" 1]
      by (intro agree_on_trans [OF store_bytes_agree agree_on_trans [OF store_bytes_agree store_bytes_agree]]) (simp_all only: small_lengths, simp_all)
  qed
  then have "roomy ?k small_page" by (intro rpages.kinv_frame [OF k(1)]) simp
  then have "roomy (idle_system ?k) small_page" by (simp add: roomy_def one_each_def kvspace_inv_def pmm_inv_def)
  moreover have "manager_same (idle_system ?k) (small_system k)" by (simp add: manager_same_def small_system_def)
  moreover have "kmem (small_system k) = kmem (idle_system ?k)" by simp
  ultimately have "roomy (small_system k) small_page" using roomy_same by blast
  then show thesis using that k(2) by blast
qed

section \<open>Properties\<close>

lemma fresh_parse_ok:
  assumes "roomy s kept" and "node_arena (dt s) = slab_autorefill_init 72" and "property_arena (dt s) = slab_autorefill_init 56"
    and "8192 + r < spare s"
  shows "parse_ok r 54 70 s [] [] kept"
proof -
  have p: "54 \<le> page_blocks 72" "70 \<le> page_blocks 56" by (simp_all add: page_blocks_def)
  have "paged 54 (slab_autorefill_init 72) (kmem s) [] []" "block_size (slab_autorefill_init 72) = 72"
    using paged_init [of 72 54] p by simp_all
  moreover have "paged 70 (slab_autorefill_init 56) (kmem s) [] []" "block_size (slab_autorefill_init 56) = 56"
    using paged_init [of 56 70] p by simp_all
  ultimately show ?thesis using assms unfolding parse_ok_def by (intro exI [of _ "[]"]) (simp add: page_need_def)
qed

text \<open>
  C5: reading the structure block of a blob gives the tree it encodes back: on the binary form of a
  tree of up to 54 nodes and 70 properties in memory that is kept, with fresh arenas, the loop over
  the tokens returns; then there is a forest of one node in memory, with no node twice, that represents
  that tree, names, parents, values and all, each property owned by its node, with children and properties in reverse order; it is the root exactly if
  the name of the tree's root is empty, as it should be, and its name is a slash then; and the text
  of the blob is unchanged.
\<close>

theorem first_pass_reads_tree:
  fixes s :: "'a system_scheme"
  assumes "roomy s kept" and "node_arena (dt s) = slab_autorefill_init 72" and "property_arena (dt s) = slab_autorefill_init 56"
    and "8192 + r < spare s" and "tree_nodes t \<le> 54" and "tree_properties t \<le> 70"
    and "text_at (kmem s) kept structs (encode_blob strs t)" and "tree_ok (string_known (kmem s) kept strings strs) t"
    and "text_at (kmem s) kept (lit_addr s ''/'') (SV ''/'')"
  shows "\<exists>s' ns ps n cs. parse_structs structs strings 0 0 0 s = Some (Inr s') \<and> forest_at (kmem s') n (Node n cs Nil_forest) \<and>
    distinct (preorder (Node n cs Nil_forest)) \<and> forest_is (kmem s') kept (set ps) 0 (Node n cs Nil_forest) [rooted t] \<and>
    root_node (dt s') = (if tree_name t = [] then n else root_node (dt s)) \<and>
    parse_ok r (54 - tree_nodes t) (70 - tree_properties t) s' ns ps kept \<and> agree_on (covered kept) (kmem s') (kmem s)"
proof -
  have "parse_ok r (tree_nodes t + (54 - tree_nodes t)) (tree_properties t + (70 - tree_properties t)) s [] [] kept"
    using fresh_parse_ok [OF assms(1-4)] assms(5,6) by simp
  from parse_structs_reads [OF this _ assms(7-9)] obtain s' ns ps n cs where
    P: "parse_structs structs strings 0 0 0 s = Some (Inr s')"
      "tree_built r (54 - tree_nodes t) (70 - tree_properties t) s' ns ps kept (Node n cs Nil_forest) t"
      "root_node (dt s') = (if tree_name t = [] then n else root_node (dt s))" "agree_on (covered kept) (kmem s') (kmem s)"
    using assms(5) by auto
  then show ?thesis by (intro exI [of _ s'] exI [of _ ns] exI [of _ ps] exI [of _ n] exI [of _ cs]) (simp add: tree_built_def)
qed

theorem first_pass_reads_tree_witness:
  "\<exists>(s :: system) s' n cs Q. parse_structs 0x20000 0x20400 0 0 0 s = Some (Inr s') \<and> root_node (dt s') = n \<and>
    forest_is (kmem s') small_page Q 0 (Node n cs Nil_forest) [rooted small_tree]"
proof -
  obtain k :: kernel where k: "roomy (small_system k) small_page" "spare k = 0x380000" by (rule small_roomy)
  have "8192 + 0 < spare (small_system k)" by (simp add: k(2))
  note R = first_pass_reads_tree [OF k(1) _ _ this, of small_tree "0x20000" small_strings "0x20400"]
  show ?thesis using R small_text(1,3) small_tree_ok by (simp add: small_tree_def) blast
qed

end
