(* ===== verification/Typing.thy ===== *)
theory Typing
  imports First_Pass Device_Runs
begin

text \<open>
  The second pass: on a tree whose properties have the form the specification of device trees gives
  them, it returns without an error, and then every property of a kind it knows is decoded in place.
  The arrays it decodes into come from the bump allocator, whose two pages are enough for a stated
  amount of data.
\<close>

section \<open>What the values mean\<close>

definition be_value :: "u8 list \<Rightarrow> 'a::len word" where
  "be_value bs = word_of_bytes (rev bs)"

text \<open>The null-terminated strings of a value.\<close>

fun strings_of :: "u8 list \<Rightarrow> u8 list list" where
  "strings_of [] = []"
| "strings_of (b # bs) = (if b = 0 then [] # strings_of bs else case strings_of bs of [] \<Rightarrow> [[b]] | s # ss \<Rightarrow> (b # s) # ss)"

definition joined :: "u8 list list \<Rightarrow> u8 list" where
  "joined ss = concat (map (\<lambda>s. s @ [0]) ss)"

lemma joined_simps [simp]: "joined [] = []" "joined (s # ss) = s @ 0 # joined ss"
  by (simp_all add: joined_def)

lemma strings_of_joined: "d = [] \<or> last d = 0 \<Longrightarrow> joined (strings_of d) = d"
proof (induction d)
  case (Cons b bs)
  show ?case
  proof (cases "b = 0")
    case True
    then show ?thesis using Cons by (cases "bs = []") simp_all
  next
    case False
    then have "bs \<noteq> []" using Cons.prems by auto
    then have "joined (strings_of bs) = bs" using Cons by simp
    then show ?thesis using False \<open>bs \<noteq> []\<close> by (cases "strings_of bs") simp_all
  qed
qed simp

lemma strings_of_plain: "s \<in> set (strings_of d) \<Longrightarrow> 0 \<notin> set s"
  by (induction d arbitrary: s) (auto split: list.splits if_splits)

lemma count_joined: "(\<forall>s \<in> set ss. 0 \<notin> set s) \<Longrightarrow> length (filter (\<lambda>c. c = 0) (joined ss)) = length ss"
proof (induction ss)
  case (Cons s ss)
  then have "filter (\<lambda>c. c = 0) s = []" by (auto simp: filter_empty_conv)
  then show ?case using Cons by simp
qed simp

lemma length_joined: "length ss \<le> length (joined ss)"
  by (induction ss) simp_all

text \<open>What a property contributes to the cell counts of the children, and to a node's compatible strings.\<close>

fun cells_step :: "u8 list \<times> u8 list \<Rightarrow> u32 \<times> u32 \<Rightarrow> u32 \<times> u32" where
  "cells_step (nm, d) (a, b) =
     (if nm = SV ''#address-cells'' then (be_value d, b) else if nm = SV ''#size-cells'' then (a, be_value d) else (a, b))"

fun strings_step :: "u8 list \<times> u8 list \<Rightarrow> u8 list list \<Rightarrow> u8 list list" where
  "strings_step (nm, d) ss = (if nm = SV ''compatible'' then strings_of d else ss)"

text \<open>The form of a property of a node with given cell counts.\<close>

fun property_ok :: "u32 \<Rightarrow> u32 \<Rightarrow> u8 list \<times> u8 list \<Rightarrow> bool" where
  "property_ok a b (nm, d) \<longleftrightarrow>
     (if nm = SV ''compatible'' then d \<noteq> [] \<and> last d = 0
      else if nm = SV ''#address-cells'' \<or> nm = SV ''#size-cells'' then length d = 4 \<and> be_value d \<le> (2 :: u32)
      else if nm = SV ''phandle'' then length d = 4
      else if nm = SV ''reg'' then d \<noteq> [] \<and> 0 < unat a + unat b \<and> 4 * (unat a + unat b) dvd length d
      else True)"

text \<open>How much it takes of the bump allocator in the two loops, with the padding, and of the handle map.\<close>

fun string_cost :: "u8 list \<times> u8 list \<Rightarrow> nat" where
  "string_cost (nm, d) = (if nm = SV ''compatible'' then 16 * length (strings_of d) + 16 else 0)"

fun reg_cost :: "u8 list \<times> u8 list \<Rightarrow> nat" where
  "reg_cost (nm, d) = (if nm = SV ''reg'' then length d + 16 else 0)"

fun handle_count :: "u8 list \<times> u8 list \<Rightarrow> nat" where
  "handle_count (nm, d) = (if nm = SV ''phandle'' then 1 else 0)"

fun tree_typed :: "u32 \<Rightarrow> u32 \<Rightarrow> dtree \<Rightarrow> bool" where
  "tree_typed a b (DNode nm pl ks) \<longleftrightarrow> (\<forall>p \<in> set pl. property_ok a b p) \<and>
     (case fold cells_step (rev pl) (a, b) of (a', b') \<Rightarrow> \<forall>k \<in> set ks. tree_typed a' b' k)"

fun tree_cost :: "dtree \<Rightarrow> nat" where
  "tree_cost (DNode nm pl ks) = sum_list (map string_cost pl) + sum_list (map reg_cost pl) + sum_list (map tree_cost ks)"

fun tree_handles :: "dtree \<Rightarrow> nat" where
  "tree_handles (DNode nm pl ks) = sum_list (map handle_count pl) + sum_list (map tree_handles ks)"

text \<open>Big-endian values in memory.\<close>

lemma be_value_u32: "text_at m kept p d \<Longrightarrow> length d = 4 \<Longrightarrow> READ_BIG_ENDIAN_U32 m p = be_value d"
  by (simp add: text_at_def READ_BIG_ENDIAN_U32_def load32_def ENDIANNESS_FLIP_U32_bytes be_value_def)

lemma be_value_cells:
  assumes t: "text_at m kept p d" and l: "length d = 4 * unat c" and c: "c \<le> 2"
  shows "be_cells c m p = be_value d"
proof -
  have "ucast (word_of_bytes (rev d) :: u32) = (word_of_bytes (rev d) :: u64)" if "length d = 4"
    by (rule bit_word_eqI) (use that in \<open>auto simp: bit_ucast_iff bit_word_of_bytes\<close>)
  then have "c = 1 \<Longrightarrow> ?thesis" using be_value_u32 [OF t] l by (simp add: be_cells_def be_value_def)
  moreover have "c = 0 \<Longrightarrow> ?thesis" using l by (simp add: be_cells_def be_value_def)
  moreover have "c = 2 \<Longrightarrow> ?thesis" using t l
    by (simp add: be_cells_def be_value_def READ_BIG_ENDIAN_U64_def load64_def ENDIANNESS_FLIP_U64_bytes text_at_def)
  ultimately show ?thesis using two_cells [OF c] by blast
qed

lemma text_at_part: "text_at m kept a d \<Longrightarrow> i + n \<le> length d \<Longrightarrow> text_at m kept (a + of_nat i) (take n (drop i d))"
proof -
  assume t: "text_at m kept a d" and l: "i + n \<le> length d"
  have "text_at m kept a (take i d @ drop i d)" using t by simp
  then have "text_at m kept (a + of_nat i) (drop i d)" using text_at_append [of m kept a "take i d" "drop i d"] l by simp
  then have "text_at m kept (a + of_nat i) (take n (drop i d) @ drop n (drop i d))" by (simp only: append_take_drop_id)
  then show ?thesis using text_at_append by blast
qed

section \<open>The state of the second pass\<close>

text \<open>
  The bump allocator has one region, the two pages at \<open>buf\<close>, with \<open>c\<close> bytes left; the arena of the
  handle map has \<open>j\<close> entries left; everything else that matters lies in \<open>others\<close>.
\<close>

definition bump_ok :: "nat \<Rightarrow> 'a system_scheme \<Rightarrow> addr \<Rightarrow> bool" where
  "bump_ok c s buf \<longleftrightarrow> dt_bump (dt s) = \<lparr>current = buf, used_list = 0\<rparr> \<and> buf \<noteq> 0 \<and> unat buf + 8192 < 2 ^ 64 \<and>
     br_end (kmem s) buf = buf + 8192 \<and> unat buf + 24 \<le> unat (br_offset (kmem s) buf) \<and>
     unat (br_offset (kmem s) buf) + c \<le> unat buf + 8192"

definition typing_ok :: "nat \<Rightarrow> nat \<Rightarrow> nat \<Rightarrow> 'a system_scheme \<Rightarrow> addr \<Rightarrow> (addr \<times> nat) list \<Rightarrow> bool" where
  "typing_ok r c j s buf others \<longleftrightarrow> bump_ok c s buf \<and> extent buf 8192 \<subseteq> covered others \<and> console s \<and>
     (\<exists>es pages. roomy s (pages @ others) \<and> page_need pages + r < spare s \<and> block_size (phandlemap_arena (dt s)) = 24 \<and>
        paged j (phandlemap_arena (dt s)) (kmem s) (spans 24 es) pages)"

text \<open>The part of the two pages that is handed out, and the part that is not.\<close>

definition settled :: "'a machine_scheme \<Rightarrow> addr \<Rightarrow> addr set" where
  "settled s buf = {x. unat buf + 24 \<le> unat x \<and> unat x < unat (br_offset (kmem s) buf)}"

definition unused :: "'a machine_scheme \<Rightarrow> addr \<Rightarrow> addr set" where
  "unused s buf = {x. unat (br_offset (kmem s) buf) \<le> unat x \<and> unat x < unat buf + 8192}"

text \<open>What the second pass changes: given fields, the allocator's region, and nothing else of what is kept.\<close>

definition typing_only :: "'a system_scheme \<Rightarrow> 'a system_scheme \<Rightarrow> bool" where
  "typing_only s s' \<longleftrightarrow> s' = s\<lparr>kmem := kmem s', io_events := io_events s', print_buf := print_buf s', block_arena := block_arena s',
     regions := regions s', free_bytes := free_bytes s',
     dt := (dt s)\<lparr>phandlemap_arena := phandlemap_arena (dt s'), dt_bump := dt_bump (dt s'), phandle_map := phandle_map (dt s')\<rparr>\<rparr>"

definition changes :: "addr \<Rightarrow> (addr \<times> nat) list \<Rightarrow> addr set \<Rightarrow> 'a system_scheme \<Rightarrow> 'a system_scheme \<Rightarrow> bool" where
  "changes buf others W s s' \<longleftrightarrow> agree_on (covered others - W - extent buf 24 - unused s buf) (kmem s') (kmem s) \<and>
     unat (br_offset (kmem s) buf) \<le> unat (br_offset (kmem s') buf) \<and> typing_only s s'"

lemma typing_only_refl: "typing_only s s"
  by (simp add: typing_only_def)

lemma typing_onlyE:
  assumes "typing_only s s'"
  obtains m ev pb ba rg fb pa db pm where "s' = s\<lparr>kmem := m, io_events := ev, print_buf := pb, block_arena := ba, regions := rg,
    free_bytes := fb, dt := (dt s)\<lparr>phandlemap_arena := pa, dt_bump := db, phandle_map := pm\<rparr>\<rparr>"
  using assms unfolding typing_only_def by blast

lemma typing_only_trans:
  assumes "typing_only s t" and "typing_only t u"
  shows "typing_only s u"
proof -
  obtain m ev pb ba rg fb pa db pm where t: "t = s\<lparr>kmem := m, io_events := ev, print_buf := pb, block_arena := ba, regions := rg,
    free_bytes := fb, dt := (dt s)\<lparr>phandlemap_arena := pa, dt_bump := db, phandle_map := pm\<rparr>\<rparr>"
    using assms(1) by (rule typing_onlyE)
  show ?thesis using assms(2) unfolding typing_only_def t by simp
qed

lemma typing_only_fields:
  assumes "typing_only s s'"
  shows "root_node (dt s') = root_node (dt s)" and "lit_addr s' = lit_addr s" and "put s' = put s"
    and "hhdm_offset s' = hhdm_offset s" and "pinfo s' = pinfo s"
  by (rule typing_onlyE [OF assms], simp)+

lemma changes_refl: "changes buf others W s s"
  by (simp add: changes_def typing_only_refl)

lemma changes_trans:
  assumes "changes buf others W s t" and "changes buf others W t u"
  shows "changes buf others W s u"
proof -
  have "unused t buf \<subseteq> unused s buf" using assms(1) by (auto simp: changes_def unused_def)
  then have "agree_on (covered others - W - extent buf 24 - unused s buf) (kmem u) (kmem t)"
    using assms(2) by (auto simp: changes_def intro: agree_on_mono)
  then show ?thesis using assms typing_only_trans unfolding changes_def by (blast intro: agree_on_trans order_trans)
qed

lemma changes_mono: "changes buf others W s t \<Longrightarrow> W \<subseteq> W' \<Longrightarrow> changes buf others W' s t"
  unfolding changes_def by (elim conjE, intro conjI, erule agree_on_mono) auto

text \<open>Writing into what is kept, outside the allocator's region.\<close>

lemma bump_fields_write:
  assumes "agree_on (- W) m (kmem s)" and "extent buf 24 \<inter> W = {}"
  shows "br_offset m buf = br_offset (kmem s) buf" and "br_end m buf = br_end (kmem s) buf"
  using assms extent_mono [of 8 24 buf] extent_field [of 8 8 24 buf]
  by (auto simp: br_offset_def br_end_def intro!: load64_agree [OF assms(1)])

lemma typing_write:
  fixes s :: "'a system_scheme"
  assumes ok: "typing_ok r c j s buf others" and ag: "agree_on (- W) m (kmem s)" and W: "W \<subseteq> covered others" "extent buf 24 \<inter> W = {}"
  shows "typing_ok r c j (s\<lparr>kmem := m\<rparr>) buf others" and "changes buf others W s (s\<lparr>kmem := m\<rparr>)"
proof -
  note B = bump_fields_write [OF ag W(2)]
  obtain es pages where R: "roomy s (pages @ others)" "page_need pages + r < spare s" "block_size (phandlemap_arena (dt s)) = 24"
    and P: "paged j (phandlemap_arena (dt s)) (kmem s) (spans 24 es) pages" using ok by (auto simp: typing_ok_def)
  have d: "covered pages \<inter> covered others = {}" using rpages.kinv_apart [OF R(1)] by (simp add: all_apart_append_covered)
  have "roomy (s\<lparr>kmem := m\<rparr>) (pages @ others)" using W(1) by (intro rpages.kinv_frame [OF R(1)] agree_on_mono [OF ag]) auto
  moreover have "paged j (phandlemap_arena (dt s)) m (spans 24 es) pages"
    using W(1) d by (intro paged_agree [OF P] agree_on_mono [OF ag]) auto
  moreover have "console (s\<lparr>kmem := m\<rparr>)" by (rule console_same [of s]) (use ok in \<open>simp_all add: typing_ok_def\<close>)
  ultimately show "typing_ok r c j (s\<lparr>kmem := m\<rparr>) buf others"
    using ok R(2,3) unfolding typing_ok_def by (fastforce simp: bump_ok_def B)
  have "agree_on (covered others - W - extent buf 24 - unused s buf) m (kmem s)" by (rule agree_on_mono [OF ag]) auto
  then show "changes buf others W s (s\<lparr>kmem := m\<rparr>)" by (simp add: changes_def typing_only_def B(1))
qed

text \<open>A request to the bump allocator.\<close>

lemma bump_granted:
  fixes s :: "'a system_scheme"
  assumes ok: "typing_ok r (unat sz + 2 ^ k + c) j s buf others" and sz: "sz \<noteq> 0" and k: "k \<le> 4"
  shows "\<exists>p s'. dt_bump_alloc sz (2 ^ k) s = Inr (p, s') \<and> p \<noteq> 0 \<and> typing_ok r c j s' buf others \<and> changes buf others {} s s' \<and>
    agree_on (- extent buf 8) (kmem s') (kmem s) \<and> extent p (unat sz) \<subseteq> unused s buf \<and> extent p (unat sz) \<subseteq> settled s' buf"
proof -
  let ?o = "br_offset (kmem s) buf" let ?p = "ALIGN_UP ?o (2 ^ k)" let ?m = "store64 (kmem s) buf (?p + sz)" let ?s' = "s\<lparr>kmem := ?m\<rparr>"
  have B: "dt_bump (dt s) = \<lparr>current = buf, used_list = 0\<rparr>" "buf \<noteq> 0" "unat buf + 8192 < 2 ^ 64"
    "br_end (kmem s) buf = buf + 8192" "unat buf + 24 \<le> unat ?o" "unat ?o + (unat sz + 2 ^ k + c) \<le> unat buf + 8192"
    using ok by (simp_all add: typing_ok_def bump_ok_def)
  have "unat (buf + 8192) = unat buf + unat (8192 :: u64)" using B(3) by (intro unat_add_eq) simp
  then have e: "unat (buf + 8192) = unat buf + 8192" by simp
  have "unat ?o + (2 ^ k - 1) < 2 ^ 64" using B(3,6) by linarith
  from ALIGN_UP_pow2_bounds [OF _ this] k have p: "unat ?o \<le> unat ?p" "unat ?p < unat ?o + 2 ^ k" by simp_all
  have ps: "unat (?p + sz) = unat ?p + unat sz" using p B(3,6) by (intro unat_add_eq) linarith
  have fits: "bump_fits (kmem s) buf sz (2 ^ k)" using p B(6) by (simp add: bump_fits_def word_le_nat_alt ps B(4) e)
  have "(dt s)\<lparr>dt_bump := \<lparr>current = buf, used_list = 0\<rparr>\<rparr> = dt s" using B(1) by (cases "dt s") simp
  then have run: "dt_bump_alloc sz (2 ^ k) s = Inr (?p, ?s')"
    using B(1,2) sz fits by (simp add: dt_bump_alloc_def bump_allocate_aligned_def bump_take_def Let_def)
  have f: "br_offset ?m buf = ?p + sz" "br_end ?m buf = br_end (kmem s) buf" by (simp_all add: store_offset_same)
  have ag: "agree_on (- extent buf 8) ?m (kmem s)" by (rule store64_agree) simp
  have e8: "extent buf 8 \<subseteq> extent buf 24" "extent buf 24 \<subseteq> extent buf 8192" by (simp_all add: extent_mono)
  have "typing_ok r c j ?s' buf others"
  proof -
    obtain es pages where R: "roomy s (pages @ others)" "page_need pages + r < spare s" "block_size (phandlemap_arena (dt s)) = 24"
      "paged j (phandlemap_arena (dt s)) (kmem s) (spans 24 es) pages" "extent buf 8192 \<subseteq> covered others"
      using ok by (auto simp: typing_ok_def)
    have d: "covered pages \<inter> covered others = {}" using rpages.kinv_apart [OF R(1)] by (simp add: all_apart_append_covered)
    have "roomy ?s' (pages @ others)" using R(5) e8 by (intro rpages.kinv_frame [OF R(1)] agree_on_mono [OF ag]) auto
    moreover have "paged j (phandlemap_arena (dt s)) ?m (spans 24 es) pages"
      using R(5) d e8 by (intro paged_agree [OF R(4)] agree_on_mono [OF ag]) auto
    moreover have "console ?s'" by (rule console_same [of s]) (use ok in \<open>simp_all add: typing_ok_def\<close>)
    moreover have "bump_ok c ?s' buf" using B p by (simp add: bump_ok_def f ps)
    ultimately show ?thesis using R(2,3,5) unfolding typing_ok_def by fastforce
  qed
  moreover have "changes buf others {} s ?s'"
    using agree_on_mono [OF ag, of "covered others - {} - extent buf 24 - unused s buf"] e8(1) p
    by (auto simp: changes_def typing_only_def f ps)
  moreover have "extent ?p (unat sz) \<subseteq> unused s buf" "extent ?p (unat sz) \<subseteq> settled ?s' buf"
  proof -
    have "unat ?p + unat sz \<le> 2 ^ 64" using p B(3,6) by linarith
    then show "extent ?p (unat sz) \<subseteq> unused s buf" "extent ?p (unat sz) \<subseteq> settled ?s' buf"
      using p B(5,6) by (auto simp: extent_nowrap unused_def settled_def f ps)
  qed
  moreover have "?p \<noteq> 0"
  proof
    assume "?p = 0"
    then have "unat ?p = 0" by simp
    then show False using p(1) B(5) by simp
  qed
  ultimately show ?thesis using run ag by (intro exI [of _ ?p] exI [of _ ?s']) simp
qed

section \<open>The array of compatible strings\<close>

lemma fill_compatible_correct:
  fixes s :: "'a system_scheme"
  assumes "\<forall>st \<in> set ss. 0 \<notin> set st" and "text_at (kmem s) kept (data + of_nat j) (joined ss)" and "j + length (joined ss) < 2 ^ 40"
    and "compatible (kmem s) node = arr" and "extent (arr + 16 * i) (16 * length ss) \<inter> (extent node 72 \<union> covered kept) = {}"
  shows "\<exists>m'. fill_compatible (length ss) node data (of_nat (j + length (joined ss))) i (of_nat j) s = Inr (s\<lparr>kmem := m'\<rparr>) \<and>
    agree_on (- extent (arr + 16 * i) (16 * length ss)) m' (kmem s) \<and>
    (\<forall>n < length ss. view_is m' kept (sv_at m' (arr + 16 * (i + of_nat n))) (ss ! n))"
  using assms
proof (induction ss arbitrary: i j s)
  case Nil
  show ?case by (intro exI [of _ "kmem s"]) simp
next
  case (Cons st ss)
  let ?a = "arr + 16 * i" and ?L = "length (joined (st # ss))"
  let ?sv = "\<lparr>sv_data = data + of_nat j, sv_size = of_nat (length st)\<rparr>"
  let ?m1 = "store64 (store64 (kmem s) ?a (data + of_nat j)) (?a + 8) (of_nat (length st))"
  let ?s1 = "s\<lparr>kmem := ?m1\<rparr>" and ?j1 = "j + (length st + 1)"
  have lim: "16 * length (st # ss) < 2 ^ 64" using length_joined [of "st # ss"] Cons.prems(3) by simp
  have t: "text_at (kmem s) kept (data + of_nat j) ((st @ [0]) @ joined ss)" using Cons.prems(2) by simp
  note T = text_at_append [OF t]
  have st: "0 \<notin> set st" using Cons.prems(1) by simp
  note V = text_at_null_term [OF conjunct1 [OF T] st]
  have u: "unat (of_nat j :: u64) = j" "unat (of_nat (j + ?L) :: u64) = j + ?L" by (rule unat_of_nat_eq; use Cons.prems(3) in simp)+
  have less: "(of_nat j :: u64) < of_nat (j + ?L)" unfolding word_less_nat_alt u by simp
  have e16: "extent ?a 16 \<subseteq> extent ?a (16 * length (st # ss))" by (rule extent_mono) simp
  have ag1: "agree_on (- extent ?a 16) ?m1 (kmem s)"
    using store_in_struct [of ?a 16 "kmem s" "kmem s" 0] by (intro store_in_struct) simp_all
  have c1: "compatible ?m1 node = arr"
  proof -
    have "extent (node + 24) 8 \<subseteq> extent node 72" by (rule extent_field) simp_all
    then have "extent (node + 24) 8 \<subseteq> - extent ?a 16" using Cons.prems(5) e16 by auto
    then show ?thesis using Cons.prems(4) load64_agree [OF ag1] by (simp add: compatible_def)
  qed
  have sv1: "sv_at ?m1 ?a = ?sv" by (simp add: sv_at_def load64_store64_other)
  have K1: "agree_on (covered kept) ?m1 (kmem s)" using Cons.prems(5) e16 by (intro agree_on_mono [OF ag1]) auto
  have "16 + 16 * length ss \<le> 2 ^ 64" using lim by simp
  note sp = extent_split [OF this, of ?a] extent_split_disjoint [OF this, of ?a]
  have a1: "?a + of_nat 16 = arr + 16 * (i + 1)" by (simp add: algebra_simps)
  note sp = sp [unfolded a1]
  have whole: "extent ?a (16 * length (st # ss)) = extent ?a 16 \<union> extent (arr + 16 * (i + 1)) (16 * length ss)" using sp(1) by simp
  have t1: "text_at (kmem ?s1) kept (data + of_nat ?j1) (joined ss)"
    using text_at_agree [OF conjunct2 [OF T] K1] by (simp add: algebra_simps)
  have "\<exists>m'. fill_compatible (length ss) node data (of_nat (?j1 + length (joined ss))) (i + 1) (of_nat ?j1) ?s1 = Inr (?s1\<lparr>kmem := m'\<rparr>) \<and>
    agree_on (- extent (arr + 16 * (i + 1)) (16 * length ss)) m' (kmem ?s1) \<and>
    (\<forall>n < length ss. view_is m' kept (sv_at m' (arr + 16 * ((i + 1) + of_nat n))) (ss ! n))"
  proof (rule Cons.IH [OF _ t1])
    show "\<forall>st \<in> set ss. 0 \<notin> set st" using Cons.prems(1) by simp
    show "?j1 + length (joined ss) < 2 ^ 40" using Cons.prems(3) by simp
    show "compatible (kmem ?s1) node = arr" using c1 by simp
    show "extent (arr + 16 * (i + 1)) (16 * length ss) \<inter> (extent node 72 \<union> covered kept) = {}" using Cons.prems(5) whole by blast
  qed
  then obtain m' where I: "fill_compatible (length ss) node data (of_nat (?j1 + length (joined ss))) (i + 1) (of_nat ?j1) ?s1 = Inr (s\<lparr>kmem := m'\<rparr>)"
    "agree_on (- extent (arr + 16 * (i + 1)) (16 * length ss)) m' ?m1"
    "\<forall>n < length ss. view_is m' kept (sv_at m' (arr + 16 * ((i + 1) + of_nat n))) (ss ! n)" by auto
  have nt: "null_term (data + of_nat j) s = Inr ?sv" using V(1) by (simp add: null_term_eq)
  have len: "j + ?L = ?j1 + length (joined ss)" by simp
  have jj: "(of_nat j :: u64) + (of_nat (length st) + 1) = of_nat ?j1" by simp
  have run: "fill_compatible (length (st # ss)) node data (of_nat (j + ?L)) i (of_nat j) s = Inr (s\<lparr>kmem := m'\<rparr>)"
  proof -
    have set: "set_sv ?a ?sv s = ?s1" "kmem ?s1 = ?m1" by (simp_all add: set_sv_def set64_def)
    have size: "length (st # ss) = Suc (length ss)" "sv_size ?sv = of_nat (length st)" by simp_all
    show ?thesis unfolding size(1) fill_compatible.simps
      using nt less I(1) by (simp only: len if_True and_then_Inr Let_def Cons.prems(4) set c1 sv1 size(2) jj)
  qed
  have view0: "view_is m' kept (sv_at m' ?a) st"
  proof -
    have ag2: "agree_on (extent ?a 16) m' ?m1" using sp(2) by (intro agree_on_mono [OF I(2)]) blast
    have "extent (?a + 8) 8 \<subseteq> extent ?a 16" "extent ?a 8 \<subseteq> extent ?a 16" by (simp_all add: extent_field extent_mono)
    then have "sv_at m' ?a = sv_at ?m1 ?a" using load64_agree [OF ag2] by (simp add: sv_at_def)
    moreover have "agree_on (covered kept) m' ?m1" using Cons.prems(5) whole by (intro agree_on_mono [OF I(2)]) blast
    then have "agree_on (covered kept) m' (kmem s)" using K1 by (rule agree_on_trans)
    ultimately show ?thesis using view_is_agree [OF V(2)] sv1 by simp
  qed
  have "\<forall>n < length (st # ss). view_is m' kept (sv_at m' (arr + 16 * (i + of_nat n))) ((st # ss) ! n)"
  proof (intro allI impI)
    fix n assume "n < length (st # ss)"
    then show "view_is m' kept (sv_at m' (arr + 16 * (i + of_nat n))) ((st # ss) ! n)"
      using view0 I(3) by (cases n) (auto simp: algebra_simps)
  qed
  moreover have "agree_on (- extent ?a (16 * length (st # ss))) m' (kmem s)"
    unfolding whole by (rule agree_on_trans [OF agree_on_mono [OF I(2)] agree_on_mono [OF ag1]]) blast+
  ultimately show ?case using run by blast
qed

section \<open>Where everything lies\<close>

definition laid :: "addr list \<Rightarrow> (addr \<times> addr) list \<Rightarrow> (addr \<times> nat) list \<Rightarrow> addr \<Rightarrow> (addr \<times> nat) list \<Rightarrow> bool" where
  "laid ns ps kept buf others \<longleftrightarrow> all_apart (built ns ps @ (buf, 8192) # kept) \<and> covered (built ns ps @ (buf, 8192) # kept) \<subseteq> covered others"

lemma laid_blocks:
  assumes L: "laid ns ps kept buf others"
  shows "n \<in> set ns \<Longrightarrow> extent n 72 \<subseteq> covered others" and "q \<in> fst ` set ps \<Longrightarrow> extent q 56 \<subseteq> covered others"
    and "extent buf 8192 \<subseteq> covered others" and "covered kept \<subseteq> covered others" and "extent buf 8192 \<inter> covered kept = {}"
    and "n \<in> set ns \<Longrightarrow> extent n 72 \<inter> (extent buf 8192 \<union> covered kept) = {}"
    and "q \<in> fst ` set ps \<Longrightarrow> extent q 56 \<inter> (extent buf 8192 \<union> covered kept) = {}"
    and "n \<in> set ns \<Longrightarrow> q \<in> fst ` set ps \<Longrightarrow> extent n 72 \<inter> extent q 56 = {}"
    and "n \<in> set ns \<Longrightarrow> n' \<in> set ns \<Longrightarrow> n \<noteq> n' \<Longrightarrow> extent n 72 \<inter> extent n' 72 = {}"
    and "q \<in> fst ` set ps \<Longrightarrow> q' \<in> fst ` set ps \<Longrightarrow> q \<noteq> q' \<Longrightarrow> extent q 56 \<inter> extent q' 56 = {}"
proof -
  have A: "all_apart (spans 72 ns)" "all_apart (spans 56 (map fst ps))"
    "covered (spans 72 ns) \<inter> (covered (spans 56 (map fst ps)) \<union> (extent buf 8192 \<union> covered kept)) = {}"
    "covered (spans 56 (map fst ps)) \<inter> (extent buf 8192 \<union> covered kept) = {}" "extent buf 8192 \<inter> covered kept = {}"
    using L by (auto simp: laid_def built_def all_apart_append_covered all_apart_Cons_covered simp del: all_apart.simps)
  have S: "covered (spans 72 ns) \<subseteq> covered others" "covered (spans 56 (map fst ps)) \<subseteq> covered others" "extent buf 8192 \<subseteq> covered others"
    "covered kept \<subseteq> covered others" using L by (auto simp: laid_def built_def)
  have N: "extent n 72 \<subseteq> covered (spans 72 ns)" if "n \<in> set ns" for n by (rule mem_spans [OF that])
  have P: "extent q 56 \<subseteq> covered (spans 56 (map fst ps))" if "q \<in> fst ` set ps" for q using that by (intro mem_spans) simp
  show "n \<in> set ns \<Longrightarrow> extent n 72 \<subseteq> covered others" using N [of n] S(1) by blast
  show "q \<in> fst ` set ps \<Longrightarrow> extent q 56 \<subseteq> covered others" using P [of q] S(2) by blast
  show "extent buf 8192 \<subseteq> covered others" "covered kept \<subseteq> covered others" "extent buf 8192 \<inter> covered kept = {}" by fact+
  show "n \<in> set ns \<Longrightarrow> extent n 72 \<inter> (extent buf 8192 \<union> covered kept) = {}" using N [of n] A(3) by blast
  show "q \<in> fst ` set ps \<Longrightarrow> extent q 56 \<inter> (extent buf 8192 \<union> covered kept) = {}" using P [of q] A(4) by blast
  show "n \<in> set ns \<Longrightarrow> q \<in> fst ` set ps \<Longrightarrow> extent n 72 \<inter> extent q 56 = {}" using N [of n] P [of q] A(3) by blast
  show "n \<in> set ns \<Longrightarrow> n' \<in> set ns \<Longrightarrow> n \<noteq> n' \<Longrightarrow> extent n 72 \<inter> extent n' 72 = {}" by (rule spans_apart [OF A(1)])
  show "q \<in> fst ` set ps \<Longrightarrow> q' \<in> fst ` set ps \<Longrightarrow> q \<noteq> q' \<Longrightarrow> extent q 56 \<inter> extent q' 56 = {}"
    using spans_apart [OF A(2), of q q'] by simp
qed

text \<open>A property has one owner.\<close>

lemma laid_owner:
  assumes L: "laid ns ps kept buf others" and "(q, n) \<in> set ps" and "(q, n') \<in> set ps"
  shows "n = n'"
proof -
  have "all_apart (spans 56 (map fst ps))" using L by (auto simp: laid_def built_def all_apart_append)
  then have "distinct (map fst ps)"
  proof (induction ps)
    case (Cons p ps)
    have "fst p \<notin> fst ` set ps"
    proof
      assume "fst p \<in> fst ` set ps"
      then have "extent (fst p) 56 \<subseteq> covered (spans 56 (map fst ps))" by (intro mem_spans) simp
      moreover have "extent (fst p) 56 \<inter> covered (spans 56 (map fst ps)) = {}"
        using all_apart_covered_hd [of "(fst p, 56)" "spans 56 (map fst ps)"] Cons.prems by simp
      moreover have "fst p \<in> extent (fst p) 56" by simp
      ultimately show False by blast
    qed
    then show ?case using Cons by simp
  qed simp
  then show ?thesis using assms(2,3) by (metis eq_key_imp_eq_value)
qed

text \<open>What the allocator has handed out stays, as do the blob and its strings.\<close>

lemma bump_areas:
  assumes "typing_ok r c j s buf others"
  shows "settled s buf \<union> unused s buf \<union> extent buf 24 \<subseteq> extent buf 8192" and "settled s buf \<inter> (unused s buf \<union> extent buf 24) = {}"
    and "extent buf 8192 \<subseteq> covered others"
proof -
  have b: "unat buf + 8192 \<le> 2 ^ 64" "unat buf + 24 \<le> 2 ^ 64" "unat buf + 24 \<le> unat (br_offset (kmem s) buf)"
    "unat (br_offset (kmem s) buf) \<le> unat buf + 8192"
    using assms by (simp_all add: typing_ok_def bump_ok_def)
  show "settled s buf \<union> unused s buf \<union> extent buf 24 \<subseteq> extent buf 8192" "settled s buf \<inter> (unused s buf \<union> extent buf 24) = {}"
    using b(3,4) by (auto simp: settled_def unused_def extent_nowrap [OF b(1)] extent_nowrap [OF b(2)])
  show "extent buf 8192 \<subseteq> covered others" using assms by (simp add: typing_ok_def)
qed

lemma changes_keep:
  assumes L: "laid ns ps kept buf others" and ok: "typing_ok r c j s buf others" and ch: "changes buf others W s s'"
    and W: "W \<inter> (extent buf 8192 \<union> covered kept) = {}"
  shows "agree_on (settled s buf \<union> covered kept) (kmem s') (kmem s)" and "settled s buf \<subseteq> settled s' buf"
    and "X \<subseteq> covered others \<Longrightarrow> X \<inter> (W \<union> extent buf 8192) = {} \<Longrightarrow> agree_on X (kmem s') (kmem s)"
proof -
  note b = bump_areas [OF ok] and l = laid_blocks(4,5) [OF L]
  have ag: "agree_on (covered others - W - extent buf 24 - unused s buf) (kmem s') (kmem s)" using ch by (simp add: changes_def)
  show "agree_on (settled s buf \<union> covered kept) (kmem s') (kmem s)" using b l W by (intro agree_on_mono [OF ag]) blast
  show "X \<subseteq> covered others \<Longrightarrow> X \<inter> (W \<union> extent buf 8192) = {} \<Longrightarrow> agree_on X (kmem s') (kmem s)"
    using b by (intro agree_on_mono [OF ag]) blast
  show "settled s buf \<subseteq> settled s' buf" using ch by (auto simp: changes_def settled_def)
qed

section \<open>Typed properties in memory\<close>

text \<open>A node's compatible strings: an array of views of text that is kept.\<close>

definition node_compat :: "mem \<Rightarrow> (addr \<times> nat) list \<Rightarrow> addr set \<Rightarrow> addr \<Rightarrow> u8 list list \<Rightarrow> bool" where
  "node_compat m kept S n ss \<longleftrightarrow> compatible_count m n = of_nat (length ss) \<and> length ss < 2 ^ 40 \<and>
     extent (compatible m n) (16 * length ss) \<subseteq> S \<and> (\<forall>i < length ss. view_is m kept (sv_at m (compatible m n + 16 * of_nat i)) (ss ! i))"

text \<open>A property after the first loop over its node's properties, which leaves \<^verbatim>\<open>reg\<close> raw.\<close>

fun prop_half :: "mem \<Rightarrow> (addr \<times> nat) list \<Rightarrow> addr \<Rightarrow> u8 list \<times> u8 list \<Rightarrow> bool" where
  "prop_half m kept q (nm, d) \<longleftrightarrow> view_is m kept (prop_name m q) nm \<and>
     (if nm = SV ''compatible'' then prop_type m q = property_type_value DT_PROPERTY_COMPATIBLE
      else if nm = SV ''#address-cells'' then prop_type m q = property_type_value DT_PROPERTY_ADDRESS_CELLS \<and> load32 m (q + 24) = be_value d
      else if nm = SV ''#size-cells'' then prop_type m q = property_type_value DT_PROPERTY_SIZE_CELLS \<and> load32 m (q + 24) = be_value d
      else if nm = SV ''phandle'' then prop_type m q = property_type_value DT_PROPERTY_PHANDLE \<and> load32 m (q + 24) = be_value d
      else prop_is m kept q (nm, d))"

text \<open>A decoded \<^verbatim>\<open>reg\<close>: two arrays whose entries are the values at their places in the text.\<close>

definition reg_typed :: "mem \<Rightarrow> addr set \<Rightarrow> u32 \<Rightarrow> u32 \<Rightarrow> addr \<Rightarrow> u8 list \<Rightarrow> bool" where
  "reg_typed m S a b q d \<longleftrightarrow> (let w = 4 * (unat a + unat b); N = length d div w; A = reg_addresses m q; Z = reg_sizes m q in
     prop_type m q = property_type_value DT_PROPERTY_REG \<and> reg_n_pairs m q = of_nat N \<and>
     extent A (4 * unat a * N) \<subseteq> S \<and> extent Z (4 * unat b * N) \<subseteq> S \<and>
     (\<forall>i < N. cells_at a m A i = be_value (take (4 * unat a) (drop (w * i) d)) \<and>
        cells_at b m Z i = be_value (take (4 * unat b) (drop (w * i + 4 * unat a) d))))"

fun prop_typed :: "mem \<Rightarrow> (addr \<times> nat) list \<Rightarrow> addr set \<Rightarrow> u32 \<Rightarrow> u32 \<Rightarrow> addr \<Rightarrow> u8 list \<times> u8 list \<Rightarrow> bool" where
  "prop_typed m kept S a b q (nm, d) \<longleftrightarrow> view_is m kept (prop_name m q) nm \<and>
     (if nm = SV ''reg'' then reg_typed m S a b q d else prop_half m kept q (nm, d))"

lemma node_compat_agree:
  assumes nc: "node_compat m kept S n ss" and S: "S \<subseteq> S'" and ag: "agree_on (S \<union> covered kept) m' m" and f: "agree_on (extent (n + 24) 16) m' m"
  shows "node_compat m' kept S' n ss"
proof -
  have e: "n + 24 + 8 = n + 32" by (simp add: add.assoc)
  have "extent (n + 24 + 8) 8 \<subseteq> extent (n + 24) 16" by (rule extent_field) simp_all
  then have "extent (n + 24) 8 \<subseteq> extent (n + 24) 16" "extent (n + 32) 8 \<subseteq> extent (n + 24) 16"
    unfolding e by (simp_all add: extent_mono)
  then have c: "compatible m' n = compatible m n" "compatible_count m' n = compatible_count m n"
    using load64_agree [OF f] by (simp_all add: compatible_def compatible_count_def)
  have "sv_at m' (compatible m n + 16 * of_nat i) = sv_at m (compatible m n + 16 * of_nat i)" if "i < length ss" for i
  proof -
    have l: "16 * length ss \<le> 2 ^ 64" using nc by (simp add: node_compat_def)
    have "16 * i + 16 \<le> 16 * length ss" using that by simp
    from extent_offset [OF this l, of "compatible m n"] have "extent (compatible m n + 16 * of_nat i) 16 \<subseteq> S"
      using nc by (auto simp: node_compat_def)
    moreover have "extent x 8 \<subseteq> extent x 16" "extent (x + 8) 8 \<subseteq> extent x 16" for x by (simp_all add: extent_mono extent_field)
    ultimately have "extent (compatible m n + 16 * of_nat i) 8 \<subseteq> S \<union> covered kept" "extent (compatible m n + 16 * of_nat i + 8) 8 \<subseteq> S \<union> covered kept"
      by blast+
    then show ?thesis using load64_agree [OF ag] by (simp add: sv_at_def)
  qed
  moreover have K: "agree_on (covered kept) m' m" by (rule agree_on_mono [OF ag]) simp
  ultimately show ?thesis using nc S view_is_agree [OF _ K] unfolding node_compat_def c by simp blast
qed

section \<open>One property in the first loop\<close>

lemma sv_is_view: "view_is m kept v nm \<Longrightarrow> sv_is m v lit \<longleftrightarrow> nm = SV lit"
  by (simp add: sv_is_def view_is_bytes)

lemma prop_links:
  assumes ag: "agree_on (- extent (q + 16) 32) m' m"
  shows "prop_name m' q = prop_name m q" and "next_prop m' q = next_prop m q"
proof -
  have "extent q 8 \<subseteq> - extent (q + 16) 32" "extent (q + 8) 8 \<subseteq> - extent (q + 16) 32" "extent (q + 48) 8 \<subseteq> - extent (q + 16) 32"
    by (simp_all add: disjoint_eq_subset_Compl [symmetric] extent_disjoint_iff)
  then show "prop_name m' q = prop_name m q" "next_prop m' q = next_prop m q"
    using load64_agree [OF ag] by (simp_all add: prop_name_def sv_at_def next_prop_def)
qed

lemma laid_prop:
  assumes L: "laid ns ps kept buf others" and q: "q \<in> fst ` set ps"
  shows "extent (q + 16) 32 \<subseteq> extent q 56" and "extent (q + 16) 32 \<subseteq> covered others"
    and "extent (q + 16) 32 \<inter> (extent buf 8192 \<union> covered kept) = {}" and "extent buf 24 \<inter> extent (q + 16) 32 = {}"
proof -
  show e: "extent (q + 16) 32 \<subseteq> extent q 56" by (rule extent_field) simp_all
  show "extent (q + 16) 32 \<subseteq> covered others" "extent (q + 16) 32 \<inter> (extent buf 8192 \<union> covered kept) = {}"
    using e laid_blocks(2) [OF L q] laid_blocks(7) [OF L q] by auto
  then show "extent buf 24 \<inter> extent (q + 16) 32 = {}" using extent_mono [of 24 8192 buf] by auto
qed

lemma laid_node:
  assumes L: "laid ns ps kept buf others" and n: "n \<in> set ns"
  shows "extent (n + 16) 24 \<subseteq> extent n 72" and "extent (n + 24) 16 \<subseteq> extent (n + 16) 24" and "extent (n + 16) 24 \<subseteq> covered others"
    and "extent (n + 16) 24 \<inter> (extent buf 8192 \<union> covered kept) = {}" and "extent buf 24 \<inter> extent (n + 16) 24 = {}"
proof -
  show e: "extent (n + 16) 24 \<subseteq> extent n 72" by (rule extent_field) simp_all
  have e24: "n + 16 + 8 = n + 24" by (simp add: add.assoc)
  have "extent (n + 16 + 8) 16 \<subseteq> extent (n + 16) 24" by (rule extent_field) simp_all
  then show "extent (n + 24) 16 \<subseteq> extent (n + 16) 24" unfolding e24 .
  show "extent (n + 16) 24 \<subseteq> covered others" "extent (n + 16) 24 \<inter> (extent buf 8192 \<union> covered kept) = {}"
    using e laid_blocks(1) [OF L n] laid_blocks(6) [OF L n] by auto
  then show "extent buf 24 \<inter> extent (n + 16) 24 = {}" using extent_mono [of 24 8192 buf] by auto
qed

lemma value_written:
  fixes s :: "'a system_scheme" and q :: addr and x ty :: u32
  assumes L: "laid ns ps kept buf others" and q: "q \<in> fst ` set ps" and ok: "typing_ok r c j s buf others"
    and v: "view_is (kmem s) kept (prop_name (kmem s) q) nm"
  defines "m' \<equiv> store32 (store32 (kmem s) (q + 24) x) (q + 16) ty"
  shows "typing_ok r c j (s\<lparr>kmem := m'\<rparr>) buf others" and "changes buf others (extent (q + 16) 32) s (s\<lparr>kmem := m'\<rparr>)"
    and "view_is m' kept (prop_name m' q) nm" and "load32 m' (q + 24) = x" and "prop_type m' q = ty"
    and "agree_on (- extent (q + 16) 32) m' (kmem s)"
proof -
  note P = laid_prop [OF L q]
  have e24: "q + 16 + 8 = q + 24" by (simp add: add.assoc)
  have "extent (q + 16 + 8) 4 \<subseteq> extent (q + 16) 32" by (rule extent_field) simp_all
  then have e: "extent (q + 24) 4 \<subseteq> extent (q + 16) 32" "extent (q + 16) 4 \<subseteq> extent (q + 16) 32"
    unfolding e24 by (simp_all add: extent_mono)
  show ag: "agree_on (- extent (q + 16) 32) m' (kmem s)"
    unfolding m'_def by (rule agree_on_trans [OF store32_agree store32_agree]) (use e in blast)+
  show "typing_ok r c j (s\<lparr>kmem := m'\<rparr>) buf others" "changes buf others (extent (q + 16) 32) s (s\<lparr>kmem := m'\<rparr>)"
    by (rule typing_write [OF ok ag P(2,4)])+
  have "agree_on (covered kept) m' (kmem s)" using P(3) by (intro agree_on_mono [OF ag]) blast
  then show "view_is m' kept (prop_name m' q) nm" using view_is_agree [OF v] prop_links(1) [OF ag] by simp
  show "load32 m' (q + 24) = x" "prop_type m' q = ty"
    by (simp_all add: m'_def prop_type_def load32_store32_other)
qed

lemma node_compat_changes:
  assumes L: "laid ns ps kept buf others" and ok: "typing_ok r c j s buf others" and n: "n \<in> set ns"
    and ch: "changes buf others W s s'" and W: "W \<inter> (extent buf 8192 \<union> covered kept) = {}" "W \<inter> extent (n + 24) 16 = {}"
    and nc: "node_compat (kmem s) kept (settled s buf) n ss"
  shows "node_compat (kmem s') kept (settled s' buf) n ss"
proof -
  note K = changes_keep [OF L ok ch W(1)] and N = laid_node [OF L n]
  have "agree_on (extent (n + 24) 16) (kmem s') (kmem s)" using N W(2) by (intro K(3)) blast+
  then show ?thesis by (rule node_compat_agree [OF nc K(2) K(1)])
qed

text \<open>A handle goes into the map, which lies in pages of its own.\<close>

lemma handle_added:
  fixes s :: "'a system_scheme"
  assumes ok: "typing_ok r c (Suc j) s buf others"
  shows "\<exists>e t. dt_phandlemap_alloc s = Inr (e, t) \<and> e \<noteq> 0 \<and> agree_on (covered others) (kmem t) (kmem s) \<and>
    (\<forall>m x. agree_on (- extent e 24) m (kmem t) \<longrightarrow> typing_ok r c j (t\<lparr>kmem := m, dt := (dt t)\<lparr>phandle_map := x\<rparr>\<rparr>) buf others \<and>
       changes buf others {} s (t\<lparr>kmem := m, dt := (dt t)\<lparr>phandle_map := x\<rparr>\<rparr>) \<and> agree_on (covered others) m (kmem s))"
proof -
  obtain es pages where R: "roomy s (pages @ others)" "page_need pages + r < spare s" "block_size (phandlemap_arena (dt s)) = 24"
    and P: "paged (Suc j) (phandlemap_arena (dt s)) (kmem s) (spans 24 es) pages" using ok by (auto simp: typing_ok_def)
  have u: "unat (24 :: u64) = 24" by simp
  from paged_kalloc [OF P R(1,2), unfolded R(3) u] obtain e a t pages' where
    A: "slab_allocate kalloc (phandlemap_arena (dt s)) s = Inr (e, a, t)" "e \<noteq> 0" "paged j a (kmem t) ((e, 24) # spans 24 es) pages'"
      "roomy t (pages' @ others)" "page_need pages' + r < spare t" "agree_on (covered (spans 24 es @ others)) (kmem t) (kmem s)"
      "block_size a = 24" "allocator_only s t" by blast
  let ?t = "t\<lparr>dt := (dt t)\<lparr>phandlemap_arena := a\<rparr>\<rparr>"
  have d: "dt t = dt s" "put t = put s" "print_buf t = print_buf s" using A(8) by (auto simp: allocator_only_def)
  have run: "dt_phandlemap_alloc s = Inr (e, ?t)" by (simp add: dt_phandlemap_alloc_def A(1))
  have o: "agree_on (covered others) (kmem t) (kmem s)" by (rule agree_on_mono [OF A(6)]) simp
  have ep: "extent e 24 \<subseteq> covered pages'" using paged_live(1) [OF A(3)] by simp
  have disj: "covered pages' \<inter> covered others = {}" using rpages.kinv_apart [OF A(4)] by (simp add: all_apart_append_covered)
  have "typing_ok r c j (?t\<lparr>kmem := m, dt := (dt ?t)\<lparr>phandle_map := x\<rparr>\<rparr>) buf others \<and>
      changes buf others {} s (?t\<lparr>kmem := m, dt := (dt ?t)\<lparr>phandle_map := x\<rparr>\<rparr>) \<and> agree_on (covered others) m (kmem s)"
    if ag: "agree_on (- extent e 24) m (kmem t)" for m x
  proof -
    let ?s' = "?t\<lparr>kmem := m, dt := (dt ?t)\<lparr>phandle_map := x\<rparr>\<rparr>"
    have "agree_on (covered others) m (kmem t)" using ep disj by (intro agree_on_mono [OF ag]) blast
    then have o': "agree_on (covered others) m (kmem s)" using o by (rule agree_on_trans)
    have b: "extent buf 24 \<subseteq> covered others" using ok extent_mono [of 24 8192 buf] by (auto simp: typing_ok_def)
    note B = bump_fields_agree [OF o' b]
    have "roomy (t\<lparr>kmem := m\<rparr>) (pages' @ others)" using ep by (intro rpages.kinv_frame [OF A(4)] agree_on_mono [OF ag]) auto
    then have S1: "roomy ?s' (pages' @ others)" using roomy_same [of "t\<lparr>kmem := m\<rparr>" ?s'] by (simp add: manager_same_def)
    have S2: "spare ?s' = spare t" "phandlemap_arena (dt ?s') = a" "kmem ?s' = m" by (simp_all add: spare_def)
    have "paged j a m ((e, 24) # spans 24 es) pages'" by (rule paged_agree [OF A(3)]) (rule agree_on_mono [OF ag], auto)
    then have S3: "paged j a m (spans 24 (e # es)) pages'" by simp
    have S4: "console ?s'" using ok d(2,3) by (simp add: typing_ok_def console_def print_buf_ok_def)
    have S5: "bump_ok c ?s' buf" using ok by (simp add: typing_ok_def bump_ok_def d(1) B)
    have S6: "extent buf 8192 \<subseteq> covered others" using ok by (simp add: typing_ok_def)
    have ok': "typing_ok r c j ?s' buf others"
      unfolding typing_ok_def S2 using A(5,7) S1 S3 S4 S5 S6
      by (intro conjI exI [of _ "e # es"] exI [of _ pages']) assumption+
    moreover have "typing_only s ?s'" using A(8) by (auto simp: allocator_only_def typing_only_def)
    moreover have "agree_on (covered others - {} - extent buf 24 - unused s buf) m (kmem s)" by (rule agree_on_mono [OF o']) auto
    ultimately have "changes buf others {} s ?s'" by (simp add: changes_def B(1))
    then show ?thesis using o' ok' by blast
  qed
  then show ?thesis using run A(2) o by (intro exI [of _ e] exI [of _ ?t]) simp
qed

text \<open>What is written into memory that was just handed out is no change.\<close>

lemma changes_absorb:
  assumes "changes buf others W s t" and "changes buf others (W \<union> V) t u" and "V \<subseteq> unused s buf"
  shows "changes buf others W s u"
proof -
  have "unused t buf \<subseteq> unused s buf" using assms(1) by (auto simp: changes_def unused_def)
  then have "agree_on (covered others - W - extent buf 24 - unused s buf) (kmem u) (kmem t)"
    using assms(2,3) unfolding changes_def by (elim conjE agree_on_mono) blast
  then show ?thesis using assms(1,2) typing_only_trans unfolding changes_def by (blast intro: agree_on_trans order_trans)
qed

lemma typing_printed:
  fixes s :: "'a system_scheme"
  assumes ok: "typing_ok r c j s buf others" and m: "machine_only s s'" "kmem s' = kmem s" and con: "console s'"
  shows "typing_ok r c j s' buf others" and "changes buf others W s s'"
proof -
  obtain m0 es pb where s': "s' = s\<lparr>kmem := m0, io_events := es, print_buf := pb\<rparr>" using m(1) by (auto simp: machine_only_def)
  have "roomy s' k \<longleftrightarrow> roomy s k" for k by (rule roomy_same) (simp_all add: manager_same_def s' m(2) [unfolded s'])
  moreover have "spare s' = spare s" "dt s' = dt s" by (simp_all add: s' spare_def)
  ultimately show "typing_ok r c j s' buf others" using ok con by (simp add: typing_ok_def bump_ok_def m(2))
  show "changes buf others W s s'" using m(2) by (simp add: changes_def typing_only_def s')
qed

lemma chain_unique: "chain off m p as \<Longrightarrow> chain off m p bs \<Longrightarrow> as = bs"
proof (induction as arbitrary: p bs)
  case (Cons a as)
  then show ?case by (cases bs) (auto simp: chain_Cons)
qed simp

lemma chain_distinct: "chain off m p as \<Longrightarrow> distinct as"
proof (induction as arbitrary: p)
  case (Cons a as)
  have "a \<notin> set as"
  proof
    assume "a \<in> set as"
    then obtain xs ys where "as = xs @ a # ys" by (meson split_list)
    then have "chain off m a (a # xs @ a # ys)" "chain off m a (a # ys)"
      using Cons.prems by (auto simp: chain_Cons chain_append)
    then have "a # xs @ a # ys = a # ys" using chain_unique by blast
    then show False by simp
  qed
  then show ?case using Cons by (auto simp: chain_Cons)
qed simp

lemma kinds_distinct [simp]:
  "SV ''compatible'' \<noteq> SV ''#address-cells''" "SV ''compatible'' \<noteq> SV ''#size-cells''" "SV ''compatible'' \<noteq> SV ''phandle''"
  "SV ''compatible'' \<noteq> SV ''reg''" "SV ''#address-cells'' \<noteq> SV ''compatible''" "SV ''#address-cells'' \<noteq> SV ''#size-cells''"
  "SV ''#address-cells'' \<noteq> SV ''phandle''" "SV ''#address-cells'' \<noteq> SV ''reg''" "SV ''#size-cells'' \<noteq> SV ''compatible''"
  "SV ''#size-cells'' \<noteq> SV ''#address-cells''" "SV ''#size-cells'' \<noteq> SV ''phandle''" "SV ''#size-cells'' \<noteq> SV ''reg''"
  "SV ''phandle'' \<noteq> SV ''compatible''" "SV ''phandle'' \<noteq> SV ''#address-cells''" "SV ''phandle'' \<noteq> SV ''#size-cells''"
  "SV ''phandle'' \<noteq> SV ''reg''" "SV ''reg'' \<noteq> SV ''compatible''" "SV ''reg'' \<noteq> SV ''#address-cells''"
  "SV ''reg'' \<noteq> SV ''#size-cells''" "SV ''reg'' \<noteq> SV ''phandle''"
  by (simp_all add: SV_def)

end
