(* ===== verification/Second_Pass.thy ===== *)
theory Second_Pass
  imports Typing
begin

text \<open>
  The two loops of the second pass over the properties of a node, and the recursion over the tree: on
  a tree of typed properties the pass returns without an error, and every property of a kind it knows
  is decoded in place, with the cell counts of the node's parent.
\<close>

section \<open>The first loop, property by property\<close>

definition half_done :: "nat \<Rightarrow> nat \<Rightarrow> nat \<Rightarrow> (addr \<times> nat) list \<Rightarrow> addr \<Rightarrow> (addr \<times> nat) list \<Rightarrow> addr \<Rightarrow> addr \<Rightarrow> u8 list \<times> u8 list \<Rightarrow>
    u8 list list \<Rightarrow> 'a system_scheme \<Rightarrow> 'a system_scheme \<Rightarrow> bool" where
  "half_done r c j kept buf others n q p ss s s' \<longleftrightarrow> typing_ok r c j s' buf others \<and>
     changes buf others (extent (n + 24) 16 \<union> extent (q + 16) 32) s s' \<and> prop_half (kmem s') kept q p \<and>
     node_compat (kmem s') kept (settled s' buf) n (strings_step p ss)"

lemma prop_fields_agree:
  assumes ag: "agree_on (extent q 56) m' m"
  shows "prop_name m' q = prop_name m q" and "prop_type m' q = prop_type m q" and "next_prop m' q = next_prop m q"
    and "load32 m' (q + 24) = load32 m (q + 24)" and "raw_data m' q = raw_data m q" and "raw_size m' q = raw_size m q"
    and "reg_sizes m' q = reg_sizes m q"
proof -
  have f: "load64 m' (q + k) = load64 m (q + k)" if "unat k + 8 \<le> 56" for k
    using extent_field [OF that, of q] by (intro load64_agree [OF ag]) auto
  have g: "load32 m' (q + k) = load32 m (q + k)" if "unat k + 4 \<le> 56" for k
    using extent_field [OF that, of q] by (intro load32_agree [OF ag]) auto
  show "prop_name m' q = prop_name m q" using f [of 0] f [of 8] by (simp add: prop_name_def sv_at_def)
  show "prop_type m' q = prop_type m q" "next_prop m' q = next_prop m q" "load32 m' (q + 24) = load32 m (q + 24)"
    "raw_data m' q = raw_data m q" "raw_size m' q = raw_size m q" "reg_sizes m' q = reg_sizes m q"
    by (simp_all add: prop_type_def next_prop_def raw_data_def raw_size_def reg_sizes_def f g)
qed

text \<open>Where the node, its property and the arrays lie.\<close>

lemma step_areas:
  assumes L: "laid ns ps kept buf others" and n: "n \<in> set ns" and q: "q \<in> fst ` set ps"
  shows "extent (q + 16) 32 \<inter> extent (n + 24) 16 = {}" and "extent (n + 24) 16 \<inter> extent q 56 = {}"
    and "(extent (n + 24) 16 \<union> extent (q + 16) 32) \<inter> (extent buf 8192 \<union> covered kept) = {}"
    and "extent (n + 24) 16 \<subseteq> covered others" and "extent buf 24 \<inter> extent (n + 24) 16 = {}"
proof -
  note P = laid_prop [OF L q] and N = laid_node [OF L n] and NP = laid_blocks(8) [OF L n q]
  show "extent (q + 16) 32 \<inter> extent (n + 24) 16 = {}" using P(1) N(1,2) NP by blast
  show "extent (n + 24) 16 \<inter> extent q 56 = {}" using N(1,2) NP by blast
  show "(extent (n + 24) 16 \<union> extent (q + 16) 32) \<inter> (extent buf 8192 \<union> covered kept) = {}" using P(3) N(2,4) by blast
  show "extent (n + 24) 16 \<subseteq> covered others" using N(2,3) by blast
  show "extent buf 24 \<inter> extent (n + 24) 16 = {}" using N(2,5) by blast
qed

lemma value_step:
  fixes s :: "'a system_scheme" and x ty :: u32
  assumes L: "laid ns ps kept buf others" and n: "n \<in> set ns" and q: "q \<in> fst ` set ps" and ok: "typing_ok r c j s buf others"
    and p: "prop_is (kmem s) kept q (nm, d)" and nc: "node_compat (kmem s) kept (settled s buf) n ss"
    and kind: "nm = SV ''#address-cells'' \<and> ty = property_type_value DT_PROPERTY_ADDRESS_CELLS \<or>
      nm = SV ''#size-cells'' \<and> ty = property_type_value DT_PROPERTY_SIZE_CELLS \<or> nm = SV ''phandle'' \<and> ty = property_type_value DT_PROPERTY_PHANDLE"
    and x: "x = be_value d"
  shows "half_done r c j kept buf others n q (nm, d) ss s (set32 (q + 16) ty (set32 (q + 24) x s))"
proof -
  have v: "view_is (kmem s) kept (prop_name (kmem s) q) nm" using p by (simp add: prop_is_def)
  let ?s = "set32 (q + 16) ty (set32 (q + 24) x s)"
  have e: "?s = s\<lparr>kmem := store32 (store32 (kmem s) (q + 24) x) (q + 16) ty\<rparr>" by (simp add: set32_def)
  note V = value_written [OF L q ok v, where x = x and ty = ty, folded e]
  have km: "kmem ?s = store32 (store32 (kmem s) (q + 24) x) (q + 16) ty" by (simp add: e)
  note A = step_areas [OF L n q]
  have "changes buf others (extent (n + 24) 16 \<union> extent (q + 16) 32) s ?s" by (rule changes_mono [OF V(2)]) simp
  moreover have "node_compat (kmem ?s) kept (settled ?s buf) n ss"
    using A by (intro node_compat_changes [OF L ok n V(2) _ _ nc]) blast+
  moreover have "strings_step (nm, d) ss = ss" using kind by auto
  moreover have "prop_half (kmem ?s) kept q (nm, d)" using V(3-5) kind by (auto simp: km x)
  ultimately show ?thesis using V(1) by (simp add: half_done_def)
qed

lemma phandle_step:
  fixes s :: "'a system_scheme"
  assumes L: "laid ns ps kept buf others" and n: "n \<in> set ns" and q: "q \<in> fst ` set ps" and ok: "typing_ok r c (Suc j) s buf others"
    and p: "prop_is (kmem s) kept q (SV ''phandle'', d)" and nc: "node_compat (kmem s) kept (settled s buf) n ss" and d: "length d = 4"
  shows "\<exists>s'. second_pass_property n q na sz s = Inr (ec EC_SUCCESS, na, sz, s') \<and>
    half_done r c j kept buf others n q (SV ''phandle'', d) ss s s'"
proof -
  have x: "READ_BIG_ENDIAN_U32 (kmem s) (raw_data (kmem s) q) = be_value d" and v: "view_is (kmem s) kept (prop_name (kmem s) q) (SV ''phandle'')"
    using p d be_value_u32 by (auto simp: prop_is_def)
  define s1 where "s1 = set32 (q + 16) (property_type_value DT_PROPERTY_PHANDLE) (set32 (q + 24) (be_value d) s)"
  have H: "half_done r c (Suc j) kept buf others n q (SV ''phandle'', d) ss s s1"
    unfolding s1_def by (rule value_step [OF L n q ok p nc]) simp_all
  then have ok1: "typing_ok r c (Suc j) s1 buf others" by (simp add: half_done_def)
  from handle_added [OF ok1] obtain e t where
    E: "dt_phandlemap_alloc s1 = Inr (e, t)" "e \<noteq> 0"
    and T: "\<And>m x. agree_on (- extent e 24) m (kmem t) \<Longrightarrow> typing_ok r c j (t\<lparr>kmem := m, dt := (dt t)\<lparr>phandle_map := x\<rparr>\<rparr>) buf others \<and>
       changes buf others {} s1 (t\<lparr>kmem := m, dt := (dt t)\<lparr>phandle_map := x\<rparr>\<rparr>) \<and> agree_on (covered others) m (kmem s1)" by blast
  define m where "m = store64 (store64 (store32 (kmem t) e (load32 (kmem t) (q + 24))) (e + 8) n) (e + 16) (phandle_map (dt t))"
  have "agree_on (- extent e 24) (store32 (kmem t) e (load32 (kmem t) (q + 24))) (kmem t)"
    using extent_mono [of 4 24 e] by (intro store32_agree) auto
  then have ag: "agree_on (- extent e 24) m (kmem t)" unfolding m_def by (intro store_in_struct) simp_all
  let ?s' = "t\<lparr>kmem := m, dt := (dt t)\<lparr>phandle_map := e\<rparr>\<rparr>"
  have C: "typing_ok r c j ?s' buf others" "changes buf others {} s1 ?s'" "agree_on (covered others) m (kmem s1)"
    using T [OF ag, of e] by simp_all
  have run: "second_pass_property n q na sz s = Inr (ec EC_SUCCESS, na, sz, ?s')"
    using E unfolding s1_def by (simp add: second_pass_property_def Let_def sv_is_view [OF v] x m_def set32_def set64_def)
  have "changes buf others (extent (n + 24) 16 \<union> extent (q + 16) 32) s ?s'"
    using H changes_mono [OF C(2)] by (auto simp: half_done_def intro: changes_trans)
  moreover have "node_compat (kmem ?s') kept (settled ?s' buf) n (strings_step (SV ''phandle'', d) ss)"
    using H by (intro node_compat_changes [OF L ok1 n C(2)]) (simp_all add: half_done_def)
  moreover have "prop_half m kept q (SV ''phandle'', d)"
  proof -
    have k: "agree_on (covered kept) m (kmem s1)" using laid_blocks(4) [OF L] by (rule agree_on_mono [OF C(3)])
    have "agree_on (extent q 56) m (kmem s1)" using laid_blocks(2) [OF L q] by (rule agree_on_mono [OF C(3)])
    note f = prop_fields_agree [OF this]
    show ?thesis using H view_is_agree [OF _ k] by (simp add: half_done_def f)
  qed
  ultimately show ?thesis using run C(1) by (intro exI [of _ ?s']) (simp add: half_done_def)
qed

lemma strings_of_length: "length (strings_of d) \<le> length d"
  by (induction d) (auto split: list.splits)

lemma strings_of_nonempty: "d \<noteq> [] \<Longrightarrow> strings_of d \<noteq> []"
  by (cases d) (auto split: list.splits)

lemma node_written:
  fixes s :: "'a system_scheme" and x :: u64
  assumes L: "laid ns ps kept buf others" and n: "n \<in> set ns" and ok: "typing_ok r c j s buf others" and a: "a = n + 24 \<or> a = n + 32"
  shows "typing_ok r c j (set64 a x s) buf others" and "changes buf others (extent (n + 24) 16) s (set64 a x s)"
proof -
  have e32: "n + 24 + 8 = n + 32" by (simp add: add.assoc)
  have "extent (n + 24 + 8) 8 \<subseteq> extent (n + 24) 16" by (rule extent_field) simp_all
  then have "extent a 8 \<subseteq> extent (n + 24) 16" using a extent_mono [of 8 16 "n + 24"] unfolding e32 by auto
  then have ag: "agree_on (- extent (n + 24) 16) (store64 (kmem s) a x) (kmem s)" by (intro store64_agree) blast
  note N = laid_node [OF L n]
  have w: "extent (n + 24) 16 \<subseteq> covered others" "extent buf 24 \<inter> extent (n + 24) 16 = {}" using N by blast+
  note T = typing_write [OF ok ag w]
  show "typing_ok r c j (set64 a x s) buf others" "changes buf others (extent (n + 24) 16) s (set64 a x s)"
    using T by (simp_all add: set64_def)
qed

lemma compatible_step:
  fixes s :: "'a system_scheme"
  assumes L: "laid ns ps kept buf others" and n: "n \<in> set ns" and q: "q \<in> fst ` set ps"
    and ok: "typing_ok r (16 * length (strings_of d) + 16 + c) j s buf others"
    and p: "prop_is (kmem s) kept q (SV ''compatible'', d)" and d: "d \<noteq> []" "last d = 0" "length d < 2 ^ 32"
  shows "\<exists>s'. second_pass_property n q na sz s = Inr (ec EC_SUCCESS, na, sz, s') \<and>
    half_done r c j kept buf others n q (SV ''compatible'', d) ss s s'"
proof -
  let ?ss = "strings_of d" and ?D = "raw_data (kmem s) q"
  let ?l = "length ?ss" and ?N = "extent (n + 24) 16"
  define M :: u64 where "M = of_nat ?l"
  have v: "view_is (kmem s) kept (prop_name (kmem s) q) (SV ''compatible'')" and raw: "raw_size (kmem s) q = of_nat (length d)"
    and t: "text_at (kmem s) kept ?D d" using p by (simp_all add: prop_is_def)
  have J: "joined ?ss = d" using d by (intro strings_of_joined) simp
  have l: "?l \<noteq> 0" "?l < 2 ^ 32" using strings_of_nonempty [OF d(1)] strings_of_length [of d] d(3) by simp_all
  have um: "unat M = ?l" unfolding M_def using l(2) by (intro unat_of_nat_eq) simp
  have usz: "unat (16 * M) = 16 * ?l"
  proof -
    have "unat (of_nat (16 * ?l) :: u64) = 16 * ?l" using l(2) by (intro unat_of_nat_eq) simp
    then show ?thesis by (simp add: M_def)
  qed
  have sz0: "16 * M \<noteq> 0"
  proof
    assume "16 * M = 0"
    then have "unat (16 * M) = 0" by simp
    then show False using usz l(1) by simp
  qed
  have cnt: "count_nuls (kmem s) ?D (raw_size (kmem s) q) = M"
  proof -
    have u: "unat (of_nat (length d) :: u64) = length d" using d(3) by (intro unat_of_nat_eq) simp
    have "load_bytes (kmem s) ?D (length d) = d" using t by (simp add: text_at_def)
    then show ?thesis using count_joined [of ?ss] strings_of_plain [of _ d] by (simp add: count_nuls_def raw u J M_def)
  qed
  note A = step_areas [OF L n q]
  \<comment> \<open>the number of strings\<close>
  define s1 where "s1 = set64 (n + 32) M s"
  have S1: "typing_ok r (16 * ?l + 16 + c) j s1 buf others" "changes buf others ?N s s1"
    unfolding s1_def by (rule node_written [OF L n ok], simp)+
  \<comment> \<open>the array\<close>
  have "typing_ok r (unat (16 * M) + 2 ^ 4 + c) j s1 buf others" using S1(1) by (simp add: usz)
  from bump_granted [OF this sz0] obtain a s2 where B: "dt_bump_alloc (16 * M) 16 s1 = Inr (a, s2)" "a \<noteq> 0" "typing_ok r c j s2 buf others"
    "changes buf others {} s1 s2" "agree_on (- extent buf 8) (kmem s2) (kmem s1)" "extent a (16 * ?l) \<subseteq> unused s1 buf"
    "extent a (16 * ?l) \<subseteq> settled s2 buf" unfolding usz by auto
  define s3 where "s3 = set64 (n + 24) a s2"
  have S3: "typing_ok r c j s3 buf others" "changes buf others ?N s2 s3"
    unfolding s3_def by (rule node_written [OF L n B(3)], simp)+
  have C3: "changes buf others ?N s s3"
    using S1(2) B(4) S3(2) by (blast intro: changes_trans changes_mono)
  have un: "unused s1 buf \<subseteq> unused s buf" using S1(2) by (auto simp: changes_def unused_def)
  have aB: "extent a (16 * ?l) \<subseteq> extent buf 8192" using B(6) bump_areas(1) [OF S1(1)] by blast
  have aN: "extent a (16 * ?l) \<inter> (extent n 72 \<union> covered kept) = {}" using aB laid_blocks(5,6) [OF L] n by blast
  have W0: "?N \<inter> (extent buf 8192 \<union> covered kept) = {}" using A(3) by blast
  note K3 = changes_keep [OF L ok C3 W0]
  have k3: "agree_on (covered kept) (kmem s3) (kmem s)" by (rule agree_on_mono [OF K3(1)]) simp
  have t3: "text_at (kmem s3) kept (?D + of_nat 0) (joined ?ss)" using text_at_agree [OF t k3] by (simp add: J)
  have c3: "compatible (kmem s3) n = a" by (simp add: s3_def compatible_def set64_def)
  from fill_compatible_correct [OF _ t3 _ c3, of 0] strings_of_plain [of _ d] aN J d(3) obtain m where
    F: "fill_compatible ?l n ?D (of_nat (length d)) 0 0 s3 = Inr (s3\<lparr>kmem := m\<rparr>)" "agree_on (- extent a (16 * ?l)) m (kmem s3)"
      "\<forall>i < ?l. view_is m kept (sv_at m (a + 16 * of_nat i)) (?ss ! i)" by auto
  let ?s4 = "s3\<lparr>kmem := m\<rparr>"
  have b4: "extent buf 24 \<inter> extent a (16 * ?l) = {}" using B(7) bump_areas(2) [OF B(3)] by blast
  have o4: "extent a (16 * ?l) \<subseteq> covered others" using aB bump_areas(3) [OF ok] by blast
  note S4 = typing_write [OF S3(1) F(2) o4 b4]
  have "changes buf others (?N \<union> extent a (16 * ?l)) s3 ?s4" using S4(2) by (rule changes_mono) simp
  then have C4: "changes buf others ?N s ?s4" using C3 B(6) un by (intro changes_absorb [OF C3]) blast+
  \<comment> \<open>the node\<close>
  have nc: "node_compat m kept (settled ?s4 buf) n ?ss"
  proof -
    have e32: "n + 24 + 8 = n + 32" by (simp add: add.assoc)
    have n72: "extent (n + 24) 8 \<subseteq> extent n 72" "extent (n + 32) 8 \<subseteq> extent n 72" by (simp_all add: extent_field)
    have "load64 m (n + k) = load64 (kmem s3) (n + k)" if "extent (n + k) 8 \<subseteq> extent n 72" for k
      using that aN by (intro load64_agree [OF F(2)]) blast
    then have c4: "compatible m n = a" "load64 m (n + 32) = load64 (kmem s3) (n + 32)" using c3 n72 by (simp_all add: compatible_def)
    have "load64 (kmem s3) (n + 32) = load64 (kmem s2) (n + 32)" by (simp add: s3_def set64_def mem_simps)
    moreover have "load64 (kmem s2) (n + 32) = load64 (kmem s1) (n + 32)"
      using n72(2) laid_blocks(6) [OF L n] extent_mono [of 8 8192 buf] by (intro load64_agree [OF B(5)]) auto
    ultimately have "compatible_count m n = M" using c4(2) by (simp add: compatible_count_def s1_def set64_def)
    moreover have "settled s2 buf \<subseteq> settled ?s4 buf" using S3(2) S4(2) by (auto simp: changes_def settled_def)
    ultimately show ?thesis unfolding node_compat_def c4(1) using F(3) B(7) l(2) by (auto simp: M_def)
  qed
  \<comment> \<open>the type\<close>
  have q4: "agree_on (extent q 56) m (kmem s)"
    using changes_keep(3) [OF L ok C4 W0, of "extent q 56"] laid_blocks(2,7) [OF L q] A(2) by auto
  note f4 = prop_fields_agree [OF q4]
  define s5 where "s5 = set32 (q + 16) (property_type_value DT_PROPERTY_COMPATIBLE) ?s4"
  note P = laid_prop [OF L q]
  have "extent (q + 16) 4 \<subseteq> extent (q + 16) 32" by (rule extent_mono) simp
  then have ag5: "agree_on (- extent (q + 16) 32) (kmem s5) (kmem ?s4)" unfolding s5_def set32_def by (auto intro: store32_agree)
  have e5: "s5 = ?s4\<lparr>kmem := kmem s5\<rparr>" by (simp add: s5_def set32_def)
  have S5: "typing_ok r c j s5 buf others" "changes buf others (extent (q + 16) 32) ?s4 s5"
    by (subst e5, rule typing_write [OF S4(1) ag5 P(2,4)])+
  have C5: "changes buf others (?N \<union> extent (q + 16) 32) s s5" using C4 S5(2) by (blast intro: changes_trans changes_mono)
  have "node_compat (kmem s5) kept (settled s5 buf) n ?ss"
    using P(3) A(1) nc by (intro node_compat_changes [OF L S4(1) n S5(2)]) simp_all
  moreover have "prop_half (kmem s5) kept q (SV ''compatible'', d)"
  proof -
    have k5: "agree_on (covered kept) (kmem s5) (kmem s)" using changes_keep(1) [OF L ok C5 A(3)] by (rule agree_on_mono) simp
    have "prop_name (kmem s5) q = prop_name (kmem s) q" using prop_links(1) [OF ag5] f4(1) by simp
    moreover have "prop_type (kmem s5) q = property_type_value DT_PROPERTY_COMPATIBLE" by (simp add: s5_def set32_def prop_type_def)
    ultimately show ?thesis using view_is_agree [OF v k5] by simp
  qed
  moreover have "second_pass_property n q na sz s = Inr (ec EC_SUCCESS, na, sz, s5)"
  proof -
    have "compatible (store64 (kmem s2) (n + 24) a) n = a" by (simp add: compatible_def)
    then show ?thesis using B(1,2) F(1) um
      by (simp add: second_pass_property_def Let_def sv_is_view [OF v] cnt [unfolded raw] raw s1_def [symmetric] s3_def [symmetric] s5_def)
  qed
  ultimately show ?thesis using S5(1) C5 by (intro exI [of _ s5]) (simp add: half_done_def)
qed

lemma unhandled_printable [simp]: "printable m (SV ''Unhandled Device Tree Property: {V}'') [x, y]"
  by (simp add: printable_def SV_def directive_def)

lemma half_done_unchanged:
  assumes L: "laid ns ps kept buf others" and n: "n \<in> set ns" and ok: "typing_ok r c j s buf others"
    and ok': "typing_ok r c j s' buf others" and ch: "changes buf others {} s s'" and m: "kmem s' = kmem s"
    and p: "prop_is (kmem s) kept q (nm, d)" and nc: "node_compat (kmem s) kept (settled s buf) n ss"
    and nm: "nm \<noteq> SV ''compatible''" "nm \<noteq> SV ''#address-cells''" "nm \<noteq> SV ''#size-cells''" "nm \<noteq> SV ''phandle''"
  shows "half_done r c j kept buf others n q (nm, d) ss s s'"
proof -
  have "node_compat (kmem s') kept (settled s' buf) n ss" by (rule node_compat_changes [OF L ok n ch _ _ nc]) simp_all
  moreover have "changes buf others (extent (n + 24) 16 \<union> extent (q + 16) 32) s s'" by (rule changes_mono [OF ch]) simp
  ultimately show ?thesis using ok' p nm by (simp add: half_done_def m prop_is_def)
qed

lemma property_step:
  fixes s :: "'a system_scheme"
  assumes L: "laid ns ps kept buf others" and n: "n \<in> set ns" and q: "q \<in> fst ` set ps"
    and ok: "typing_ok r (string_cost p + c) (handle_count p + j) s buf others"
    and p: "prop_is (kmem s) kept q p" and nc: "node_compat (kmem s) kept (settled s buf) n ss"
    and pok: "property_ok a b p" and len: "length (snd p) < 2 ^ 32"
  shows "\<exists>s'. second_pass_property n q (fst x) (snd x) s = Inr (ec EC_SUCCESS, fst (cells_step p x), snd (cells_step p x), s') \<and>
    half_done r c j kept buf others n q p ss s s'"
proof -
  obtain nm d where pd: "p = (nm, d)" by (cases p)
  obtain na sz where xd: "x = (na, sz)" by (cases x)
  have v: "view_is (kmem s) kept (prop_name (kmem s) q) nm" and t: "text_at (kmem s) kept (raw_data (kmem s) q) d"
    using p by (simp_all add: pd prop_is_def)
  note V = sv_is_view [OF v]
  consider "nm = SV ''compatible''" | "nm = SV ''#address-cells''" | "nm = SV ''#size-cells''" | "nm = SV ''phandle''" | "nm = SV ''reg''" |
    (other) "nm \<noteq> SV ''compatible''" "nm \<noteq> SV ''#address-cells''" "nm \<noteq> SV ''#size-cells''" "nm \<noteq> SV ''phandle''" "nm \<noteq> SV ''reg''" by blast
  then show ?thesis
  proof cases
    case 1
    have "typing_ok r (16 * length (strings_of d) + 16 + c) j s buf others" using ok by (simp add: pd 1)
    from compatible_step [OF L n q this p [unfolded pd 1]] pok len show ?thesis by (simp add: pd 1 xd)
  next
    case 2
    have ok': "typing_ok r c j s buf others" using ok by (simp add: pd 2)
    have c: "READ_BIG_ENDIAN_U32 (kmem s) (raw_data (kmem s) q) = be_value d" "\<not> (3 :: u32) < be_value d"
      using pok be_value_u32 [OF t] by (simp_all add: pd 2 word_less_nat_alt word_le_nat_alt)
    have "half_done r c j kept buf others n q (nm, d) ss s (set32 (q + 16) (property_type_value DT_PROPERTY_ADDRESS_CELLS) (set32 (q + 24) (be_value d) s))"
      by (rule value_step [OF L n q ok' p [unfolded pd] nc]) (simp_all add: 2)
    then show ?thesis using c by (simp add: second_pass_property_def Let_def V pd xd 2)
  next
    case 3
    have ok': "typing_ok r c j s buf others" using ok by (simp add: pd 3)
    have c: "READ_BIG_ENDIAN_U32 (kmem s) (raw_data (kmem s) q) = be_value d" "\<not> (2 :: u32) < be_value d"
      using pok be_value_u32 [OF t] by (simp_all add: pd 3 word_less_nat_alt word_le_nat_alt)
    have "half_done r c j kept buf others n q (nm, d) ss s (set32 (q + 16) (property_type_value DT_PROPERTY_SIZE_CELLS) (set32 (q + 24) (be_value d) s))"
      by (rule value_step [OF L n q ok' p [unfolded pd] nc]) (simp_all add: 3)
    then show ?thesis using c by (simp add: second_pass_property_def Let_def V pd xd 3)
  next
    case 4
    have ok': "typing_ok r c (Suc j) s buf others" and d: "length d = 4" using ok pok by (simp_all add: pd 4)
    from phandle_step [OF L n q ok' p [unfolded pd 4] nc d] show ?thesis by (simp add: pd 4 xd)
  next
    case 5
    have ok': "typing_ok r c j s buf others" using ok by (simp add: pd 5)
    have "half_done r c j kept buf others n q (nm, d) ss s s"
      by (rule half_done_unchanged [OF L n ok' ok' changes_refl refl p [unfolded pd] nc]) (simp_all add: 5)
    then show ?thesis by (simp add: second_pass_property_def Let_def V pd xd 5)
  next
    case other
    have ok': "typing_ok r c j s buf others" using ok other by (simp add: pd)
    then have con: "console s" by (simp add: typing_ok_def)
    let ?v = "prop_name (kmem s) q"
    obtain s' where k: "kprintln (SV ''Unhandled Device Tree Property: {V}'') [sv_data ?v, sv_size ?v] s = Inr s'" "console s'"
      "machine_only s s'" "kmem s' = kmem s" using console_println [OF con] by force
    note T = typing_printed [OF ok' k(3,4,2)]
    have "half_done r c j kept buf others n q (nm, d) ss s s'"
      by (rule half_done_unchanged [OF L n ok' T(1) T(2) k(4) p [unfolded pd] nc]) (fact other)+
    then show ?thesis using k(1) other by (simp add: second_pass_property_def Let_def V pd xd)
  qed
qed

section \<open>The first loop\<close>

lemma success_no_err [simp]: "\<not> error_is_err 0"
  using error_is_ok_ec [of EC_SUCCESS] by (simp add: error_is_err_def del: error_is_ok_ec)

definition props_area :: "addr \<Rightarrow> addr list \<Rightarrow> addr set" where
  "props_area n qs = extent (n + 24) 16 \<union> (\<Union>q \<in> set qs. extent (q + 16) 32)"

lemma props_area_apart:
  assumes L: "laid ns ps kept buf others" and n: "n \<in> set ns" and qs: "set qs \<subseteq> fst ` set ps"
  shows "props_area n qs \<inter> (extent buf 8192 \<union> covered kept) = {}"
    and "q \<in> fst ` set ps \<Longrightarrow> q \<notin> set qs \<Longrightarrow> props_area n qs \<inter> extent q 56 = {}"
    and "props_area n qs \<inter> (extent n 24 \<union> extent (n + 40) 32) = {}"
    and "n' \<in> set ns \<Longrightarrow> n' \<noteq> n \<Longrightarrow> props_area n qs \<inter> extent n' 72 = {}"
    and "q \<in> fst ` set ps \<Longrightarrow> props_area n qs \<inter> (extent q 16 \<union> extent (q + 48) 8) = {}"
proof -
  have e: "extent (x + 16) 32 \<subseteq> extent x 56" "extent (y + 24) 16 \<subseteq> extent y 72" "extent y 24 \<subseteq> extent y 72" "extent (y + 40) 32 \<subseteq> extent y 72"
    "extent x 16 \<subseteq> extent x 56" "extent (x + 48) 8 \<subseteq> extent x 56"
    for x y by (simp_all add: extent_field extent_mono)
  have d: "extent (y + 24) 16 \<inter> (extent y 24 \<union> extent (y + 40) 32) = {}" "extent (x + 16) 32 \<inter> (extent x 16 \<union> extent (x + 48) 8) = {}" for x y
    by (simp_all add: Int_Un_distrib extent_disjoint_iff)
  have N: "extent (n + 24) 16 \<inter> (extent buf 8192 \<union> covered kept) = {}" using e(2) laid_blocks(6) [OF L n] by blast
  have Q: "extent (q + 16) 32 \<inter> (extent buf 8192 \<union> covered kept) = {}" if "q \<in> set qs" for q
    using laid_prop(3) [OF L] qs that by blast
  show "props_area n qs \<inter> (extent buf 8192 \<union> covered kept) = {}" unfolding props_area_def using N Q by blast
  have qn: "extent (q + 16) 32 \<inter> extent n' 72 = {}" if "q \<in> set qs" "n' \<in> set ns" for q n'
    using e(1) laid_blocks(8) [OF L that(2), of q] that(1) qs by blast
  show "props_area n qs \<inter> extent q 56 = {}" if q: "q \<in> fst ` set ps" "q \<notin> set qs"
  proof -
    have "extent (n + 24) 16 \<inter> extent q 56 = {}" using e(2) laid_blocks(8) [OF L n q(1)] by blast
    moreover have "extent (q' + 16) 32 \<inter> extent q 56 = {}" if "q' \<in> set qs" for q'
      using e(1) laid_blocks(10) [OF L _ q(1), of q'] that qs q(2) by blast
    ultimately show ?thesis unfolding props_area_def by blast
  qed
  show "props_area n qs \<inter> (extent n 24 \<union> extent (n + 40) 32) = {}"
    unfolding props_area_def using d(1) [of n] qn [OF _ n] e(3,4) by blast
  show "props_area n qs \<inter> extent n' 72 = {}" if n': "n' \<in> set ns" "n' \<noteq> n"
    unfolding props_area_def using qn [OF _ n'(1)] e(2) laid_blocks(9) [OF L n n'(1)] n'(2) by blast
  show "props_area n qs \<inter> (extent q 16 \<union> extent (q + 48) 8) = {}" if q: "q \<in> fst ` set ps"
  proof -
    have "extent (n + 24) 16 \<inter> extent q 56 = {}" using e(2) laid_blocks(8) [OF L n q] by blast
    moreover have "extent (q' + 16) 32 \<inter> (extent q 16 \<union> extent (q + 48) 8) = {}" if "q' \<in> set qs" for q'
    proof (cases "q' = q")
      case False
      then have "extent q' 56 \<inter> extent q 56 = {}" using laid_blocks(10) [OF L _ q, of q'] that qs by blast
      then show ?thesis using e(1,5,6) by blast
    qed (simp only: d)
    ultimately show ?thesis unfolding props_area_def using e(5,6) by blast
  qed
qed

lemma chain_kept: "chain 48 m p qs \<Longrightarrow> agree_on (\<Union>q \<in> set qs. extent q 56) m' m \<Longrightarrow> chain 48 m' p qs"
proof -
  assume c: "chain 48 m p qs" and ag: "agree_on (\<Union>q \<in> set qs. extent q 56) m' m"
  have "load64 m' (q + 48) = load64 m (q + 48)" if "q \<in> set qs" for q
    using extent_field [of 48 8 56 q] that by (intro load64_agree [OF ag]) auto
  then show "chain 48 m' p qs" using c by (simp cong: chain_cong)
qed

lemma prop_half_agree:
  assumes p: "prop_half m kept q p" and ag: "agree_on (extent q 56 \<union> covered kept) m' m"
  shows "prop_half m' kept q p"
proof -
  obtain nm d where pd: "p = (nm, d)" by (cases p)
  have f: "agree_on (extent q 56) m' m" and k: "agree_on (covered kept) m' m" by (rule agree_on_mono [OF ag], simp)+
  note F = prop_fields_agree [OF f]
  have "prop_is m kept q (nm, d) \<Longrightarrow> prop_is m' kept q (nm, d)" by (rule prop_is_agree(1) [OF _ ag])
  then show ?thesis using p view_is_agree [OF _ k] by (auto simp: pd F(1,2,4) split: if_splits)
qed

text \<open>What a step on the property \<open>q\<close> leaves of the others, and the link to the next.\<close>

lemma step_kept:
  assumes L: "laid ns ps kept buf others" and n: "n \<in> set ns" and q: "q \<in> fst ` set ps" "q \<notin> set qs" and qs: "set qs \<subseteq> fst ` set ps"
    and ok: "typing_ok r c j s buf others" and ch: "changes buf others (props_area n [q]) s s'"
  shows "agree_on ((\<Union>q \<in> set qs. extent q 56) \<union> covered kept) (kmem s') (kmem s)" and "next_prop (kmem s') q = next_prop (kmem s) q"
    and "agree_on (extent n 24) (kmem s') (kmem s)"
proof -
  have q1: "set [q] \<subseteq> fst ` set ps" using q(1) by simp
  note A = props_area_apart [OF L n q1]
  note K = changes_keep [OF L ok ch A(1)]
  show "agree_on ((\<Union>q \<in> set qs. extent q 56) \<union> covered kept) (kmem s') (kmem s)"
  proof (rule K(3))
    show "(\<Union>q \<in> set qs. extent q 56) \<union> covered kept \<subseteq> covered others" using laid_blocks(2,4) [OF L] qs by blast
    have "extent x 56 \<inter> (props_area n [q] \<union> extent buf 8192) = {}" if "x \<in> set qs" for x
      using A(2) [of x] laid_blocks(7) [OF L, of x] that qs q(2) by auto
    then show "((\<Union>q \<in> set qs. extent q 56) \<union> covered kept) \<inter> (props_area n [q] \<union> extent buf 8192) = {}"
      using A(1) laid_blocks(5) [OF L] by blast
  qed
  have "extent (q + 48) 8 \<subseteq> extent q 56" by (rule extent_field) simp_all
  then have "agree_on (extent (q + 48) 8) (kmem s') (kmem s)"
    using laid_blocks(2,7) [OF L q(1)] A(5) [OF q(1)] by (intro K(3)) blast+
  then show "next_prop (kmem s') q = next_prop (kmem s) q" using load64_agree by (simp add: next_prop_def)
  have "extent n 24 \<subseteq> extent n 72" by (rule extent_mono) simp
  then show "agree_on (extent n 24) (kmem s') (kmem s)"
    using laid_blocks(1,6) [OF L n] A(3) by (intro K(3)) blast+
qed

text \<open>What the steps on the other properties leave of the property \<open>q\<close>.\<close>

lemma steps_keep:
  assumes L: "laid ns ps kept buf others" and n: "n \<in> set ns" and q: "q \<in> fst ` set ps" "q \<notin> set qs" and qs: "set qs \<subseteq> fst ` set ps"
    and ok: "typing_ok r c j s buf others" and ch: "changes buf others (props_area n qs) s s'"
  shows "agree_on (extent q 56 \<union> settled s buf \<union> covered kept) (kmem s') (kmem s)" and "settled s buf \<subseteq> settled s' buf"
proof -
  note A = props_area_apart [OF L n qs]
  note K = changes_keep [OF L ok ch A(1)]
  have "agree_on (extent q 56) (kmem s') (kmem s)" using laid_blocks(2,7) [OF L q(1)] A(2) [OF q] by (intro K(3)) blast+
  then show "agree_on (extent q 56 \<union> settled s buf \<union> covered kept) (kmem s') (kmem s)" using K(1) by (auto simp: agree_on_def)
  show "settled s buf \<subseteq> settled s' buf" by (rule K(2))
qed

lemma first_loop:
  fixes s :: "'a system_scheme"
  assumes L: "laid ns ps kept buf others" and n: "n \<in> set ns"
  shows "chain 48 (kmem s) q0 qs \<Longrightarrow> set qs \<subseteq> fst ` set ps \<Longrightarrow> list_all2 (prop_is (kmem s) kept) qs pl \<Longrightarrow>
    \<forall>p \<in> set pl. property_ok a b p \<and> length (snd p) < 2 ^ 32 \<Longrightarrow>
    typing_ok r (sum_list (map string_cost pl) + c) (sum_list (map handle_count pl) + j) s buf others \<Longrightarrow>
    node_compat (kmem s) kept (settled s buf) n ss \<Longrightarrow>
    \<exists>s'. second_pass_loop n q0 (fst x) (snd x) s = Some (Inr (ec EC_SUCCESS, fst (fold cells_step pl x), snd (fold cells_step pl x), s')) \<and>
      typing_ok r c j s' buf others \<and> changes buf others (props_area n qs) s s' \<and> list_all2 (prop_half (kmem s') kept) qs pl \<and>
      node_compat (kmem s') kept (settled s' buf) n (fold strings_step pl ss)"
proof (induction qs arbitrary: q0 pl s ss x)
  case Nil
  have "second_pass_loop n 0 (fst x) (snd x) s = Some (Inr (ec EC_SUCCESS, fst x, snd x, s))" by (subst second_pass_loop.simps) simp
  then show ?case using Nil changes_refl by (intro exI [of _ s]) simp
next
  case (Cons q qs)
  obtain p pl' where pl: "pl = p # pl'" and p: "prop_is (kmem s) kept q p" and rest: "list_all2 (prop_is (kmem s) kept) qs pl'"
    using Cons.prems(3) by (auto simp: list_all2_Cons1)
  have q: "q0 = q" "q \<noteq> 0" "q \<in> fst ` set ps" "q \<notin> set qs" "chain 48 (kmem s) (next_prop (kmem s) q) qs"
    and qs: "set qs \<subseteq> fst ` set ps"
    using Cons.prems(1,2) chain_distinct [OF Cons.prems(1)] by (auto simp: chain_Cons next_prop_def)
  have ok: "typing_ok r (string_cost p + (sum_list (map string_cost pl') + c)) (handle_count p + (sum_list (map handle_count pl') + j)) s buf others"
    using Cons.prems(5) by (simp add: pl add.assoc)
  from property_step [OF L n q(3) ok p Cons.prems(6), of a b x] Cons.prems(4) obtain s1 where
    R: "second_pass_property n q (fst x) (snd x) s = Inr (ec EC_SUCCESS, fst (cells_step p x), snd (cells_step p x), s1)"
    and H: "half_done r (sum_list (map string_cost pl') + c) (sum_list (map handle_count pl') + j) kept buf others n q p ss s s1" by (auto simp: pl)
  have ok1: "typing_ok r (sum_list (map string_cost pl') + c) (sum_list (map handle_count pl') + j) s1 buf others"
    and C1: "changes buf others (props_area n [q]) s s1" and p1: "prop_half (kmem s1) kept q p"
    and nc1: "node_compat (kmem s1) kept (settled s1 buf) n (strings_step p ss)" using H by (simp_all add: half_done_def props_area_def)
  note K1 = step_kept [OF L n q(3,4) qs ok C1]
  have ch: "chain 48 (kmem s1) (next_prop (kmem s1) q) qs"
    unfolding K1(2) by (rule chain_kept [OF q(5) agree_on_mono [OF K1(1)]]) simp
  have pr: "list_all2 (prop_is (kmem s1) kept) qs pl'"
    by (rule list.rel_mono_strong [OF rest prop_is_agree(1)]) (assumption, rule agree_on_mono [OF K1(1)], blast)
  from Cons.IH [OF ch qs pr _ ok1 nc1, of "cells_step p x"] Cons.prems(4) obtain s' where
    S: "second_pass_loop n (next_prop (kmem s1) q) (fst (cells_step p x)) (snd (cells_step p x)) s1 =
        Some (Inr (ec EC_SUCCESS, fst (fold cells_step pl' (cells_step p x)), snd (fold cells_step pl' (cells_step p x)), s'))"
      "typing_ok r c j s' buf others" "changes buf others (props_area n qs) s1 s'" "list_all2 (prop_half (kmem s') kept) qs pl'"
      "node_compat (kmem s') kept (settled s' buf) n (fold strings_step pl' (strings_step p ss))" by (auto simp: pl)
  have "prop_half (kmem s') kept q p"
    by (rule prop_half_agree [OF p1 agree_on_mono [OF steps_keep(1) [OF L n q(3,4) qs ok1 S(3)]]]) blast
  moreover have "changes buf others (props_area n (q # qs)) s s'"
    by (rule changes_trans [OF changes_mono [OF C1] changes_mono [OF S(3)]]) (simp_all add: props_area_def, blast+)
  moreover have "second_pass_loop n q0 (fst x) (snd x) s =
      second_pass_loop n (next_prop (kmem s1) q) (fst (cells_step p x)) (snd (cells_step p x)) s1"
    using q(1,2) R by (subst second_pass_loop.simps) simp
  ultimately show ?case using S by (intro exI [of _ s']) (simp add: pl)
qed

section \<open>The second loop\<close>

text \<open>An array of the bump allocator, or none.\<close>

lemma cells_granted:
  fixes s :: "'a system_scheme" and c :: u32
  assumes ok: "typing_ok r (4 * unat c * N + 4 * unat c + k) j s buf others" and c: "c \<le> 2" and N: "0 < N" "8 * N < 2 ^ 64"
  shows "\<exists>p s'. dt_bump_alloc (4 * ucast c * of_nat N) (4 * ucast c) s = Inr (p, s') \<and> (p = 0 \<longleftrightarrow> c = 0) \<and> typing_ok r k j s' buf others \<and>
    changes buf others {} s s' \<and> extent p (4 * unat c * N) \<subseteq> unused s buf \<and> extent p (4 * unat c * N) \<subseteq> settled s' buf"
proof (cases "c = 0")
  case True
  have "dt_bump (dt s) = \<lparr>current = buf, used_list = 0\<rparr>" using ok by (simp add: typing_ok_def bump_ok_def)
  then have "(dt s)\<lparr>dt_bump := \<lparr>current = buf, used_list = 0\<rparr>\<rparr> = dt s" by (cases "dt s") simp
  moreover have "dt_bump (dt s) = \<lparr>current = buf, used_list = 0\<rparr>" by fact
  ultimately have "dt_bump_alloc 0 0 s = Inr (0, s)" by (simp add: dt_bump_alloc_def bump_allocate_aligned_def)
  then show ?thesis using True ok changes_refl by (intro exI [of _ 0] exI [of _ s]) simp
next
  case False
  let ?al = "4 * ucast c :: u64" let ?sz = "?al * of_nat N"
  have two: "c = 1 \<or> c = 2" using two_cells [OF c] False by blast
  have al: "\<exists>e \<le> 4. ?al = 2 ^ e \<and> (2 :: nat) ^ e = 4 * unat c"
  proof (cases "c = 1")
    case True
    then show ?thesis by (intro exI [of _ 2]) simp
  next
    case False
    then show ?thesis using two by (intro exI [of _ 3]) simp
  qed
  then obtain e where e: "e \<le> 4" "?al = 2 ^ e" "(2 :: nat) ^ e = 4 * unat c" by blast
  have "4 * unat c * N \<le> 8 * N" using two by auto
  then have "4 * unat c * N < 2 ^ 64" using N(2) by (rule le_less_trans)
  then have "unat (of_nat (4 * unat c * N) :: u64) = 4 * unat c * N" by (rule unat_of_nat_eq)
  moreover have "(of_nat (4 * unat c * N) :: u64) = ?sz" by simp
  ultimately have usz: "unat ?sz = 4 * unat c * N" by simp
  have sz0: "?sz \<noteq> 0"
  proof
    assume "?sz = 0"
    then have "unat ?sz = 0" by simp
    then show False unfolding usz using N(1) two by auto
  qed
  have "typing_ok r (unat ?sz + 2 ^ e + k) j s buf others" using ok by (simp only: usz e(3))
  from bump_granted [OF this sz0 e(1)] obtain p s' where
    "dt_bump_alloc ?sz ?al s = Inr (p, s')" "p \<noteq> 0" "typing_ok r k j s' buf others" "changes buf others {} s s'"
    "extent p (4 * unat c * N) \<subseteq> unused s buf" "extent p (4 * unat c * N) \<subseteq> settled s' buf" unfolding usz unfolding e(2) by blast
  then show ?thesis using False by blast
qed

lemma typing_ok_mono: "typing_ok r c j s buf others \<Longrightarrow> c' \<le> c \<Longrightarrow> typing_ok r c' j s buf others"
  by (auto simp: typing_ok_def bump_ok_def)

text \<open>The sizes the code computes from the cell counts and the length of the value.\<close>

lemma reg_sizes_computed:
  fixes a b :: u32
  assumes a: "a \<le> 2" and b: "b \<le> 2" and pos: "0 < unat a + unat b" and len: "l = 4 * (unat a + unat b) * N" "l < 2 ^ 32"
  shows "(4 * ucast a + 4 * ucast b :: u64) \<noteq> 0" and "(of_nat l :: u64) div (4 * ucast a + 4 * ucast b) = of_nat N"
    and "(of_nat l :: u64) mod (4 * ucast a + 4 * ucast b) = 0"
proof -
  let ?w = "4 * ucast a + 4 * ucast b :: u64"
  have two: "unat a \<le> 2" "unat b \<le> 2" using a b by (simp_all add: word_le_nat_alt)
  have "unat (of_nat (4 * (unat a + unat b)) :: u64) = 4 * (unat a + unat b)" using two by (intro unat_of_nat_eq) simp
  moreover have "(of_nat (4 * (unat a + unat b)) :: u64) = ?w" by (simp add: distrib_left)
  ultimately have w: "unat ?w = 4 * (unat a + unat b)" by simp
  have l: "unat (of_nat l :: u64) = l" using len(2) by (intro unat_of_nat_eq) simp
  show "?w \<noteq> 0"
  proof
    assume "?w = 0"
    then have "unat ?w = 0" by simp
    then show False unfolding w using pos by simp
  qed
  have N: "N < 2 ^ 64"
  proof -
    have "1 * N \<le> 4 * (unat a + unat b) * N" by (intro mult_le_mono1) (use pos in arith)
    then have "N \<le> l" unfolding len(1) by simp
    then show ?thesis using len(2) by simp
  qed
  have "unat ((of_nat l :: u64) div ?w) = N" unfolding unat_div w l using pos by (simp add: len(1))
  then have "(of_nat (unat ((of_nat l :: u64) div ?w)) :: u64) = of_nat N" by simp
  then show "(of_nat l :: u64) div ?w = of_nat N" by simp
  have "unat ((of_nat l :: u64) mod ?w) = 0" unfolding unat_mod w l by (simp add: len(1))
  then show "(of_nat l :: u64) mod ?w = 0" by (simp add: unat_eq_0)
qed

lemma reg_step:
  fixes s :: "'a system_scheme"
  assumes L: "laid ns ps kept buf others" and n: "n \<in> set ns" and q: "q \<in> fst ` set ps"
    and ok: "typing_ok r (length d + 16 + k) j s buf others" and p: "prop_is (kmem s) kept q (SV ''reg'', d)"
    and cells: "address_cells (kmem s) n = a" "size_cells (kmem s) n = b" and c: "a \<le> 2" "b \<le> 2"
    and pok: "property_ok a b (SV ''reg'', d)" and len: "length d < 2 ^ 32"
  shows "\<exists>s'. rewrite_reg_property n q s = Inr s' \<and> typing_ok r k j s' buf others \<and> changes buf others (extent (q + 16) 32) s s' \<and>
    prop_typed (kmem s') kept (settled s' buf) a b q (SV ''reg'', d)"
proof -
  let ?w = "4 * (unat a + unat b)" and ?D = "raw_data (kmem s) q"
  define N where "N = length d div ?w"
  have v: "view_is (kmem s) kept (prop_name (kmem s) q) (SV ''reg'')" and raw: "raw_size (kmem s) q = of_nat (length d)"
    and t: "text_at (kmem s) kept ?D d" using p by (simp_all add: prop_is_def)
  have pos: "0 < unat a + unat b" and l: "length d = ?w * N" and d0: "d \<noteq> []" using pok by (simp_all add: N_def)
  have N: "0 < N" "8 * N < 2 ^ 64"
  proof -
    show "0 < N" using l d0 by (cases "N = 0") simp_all
    have "1 * N \<le> ?w * N" by (intro mult_le_mono1) (use pos in arith)
    then have "N \<le> length d" unfolding l by simp
    then show "8 * N < 2 ^ 64" using len by simp
  qed
  have two: "unat a \<le> 2" "unat b \<le> 2" using c by (simp_all add: word_le_nat_alt)
  note W = reg_sizes_computed [OF c pos l len]
  have un: "unat (of_nat N :: u64) = N" using N(2) by (intro unat_of_nat_eq) simp
  have nz: "(0 :: u64) < of_nat N" using N(1) by (simp add: word_less_nat_alt un)
  \<comment> \<open>the two arrays\<close>
  have "4 * unat a * N + 4 * unat a + (4 * unat b * N + 4 * unat b + k) \<le> length d + 16 + k" unfolding l using two by (simp add: algebra_simps)
  from cells_granted [OF typing_ok_mono [OF ok this] c(1) N] obtain A s1 where
    A: "dt_bump_alloc (4 * ucast a * of_nat N) (4 * ucast a) s = Inr (A, s1)" "A = 0 \<longleftrightarrow> a = 0"
      "typing_ok r (4 * unat b * N + 4 * unat b + k) j s1 buf others" "changes buf others {} s s1" "extent A (4 * unat a * N) \<subseteq> unused s buf"
      "extent A (4 * unat a * N) \<subseteq> settled s1 buf" by blast
  from cells_granted [OF A(3) c(2) N] obtain Z s2 where
    Z: "dt_bump_alloc (4 * ucast b * of_nat N) (4 * ucast b) s1 = Inr (Z, s2)" "Z = 0 \<longleftrightarrow> b = 0" "typing_ok r k j s2 buf others"
      "changes buf others {} s1 s2" "extent Z (4 * unat b * N) \<subseteq> unused s1 buf" "extent Z (4 * unat b * N) \<subseteq> settled s2 buf" by blast
  let ?X = "extent A (4 * unat a * N)" and ?Y = "extent Z (4 * unat b * N)"
  have C2: "changes buf others {} s s2" by (rule changes_trans [OF A(4) Z(4)])
  have buf: "?X \<subseteq> extent buf 8192" "?Y \<subseteq> extent buf 8192" using A(5) Z(5) bump_areas(1) [OF ok] bump_areas(1) [OF A(3)] by blast+
  have XY: "?X \<inter> ?Y = {}" using A(6) Z(5) bump_areas(2) [OF A(3)] by blast
  note K2 = changes_keep [OF L ok C2 Int_empty_left]
  have k2: "agree_on (covered kept) (kmem s2) (kmem s)" by (rule agree_on_mono [OF K2(1)]) simp
  have n2: "agree_on (extent n 72) (kmem s2) (kmem s)" using laid_blocks(1,6) [OF L n] by (intro K2(3)) blast+
  have "extent (n + 16) 4 \<subseteq> extent n 72" "extent (n + 20) 4 \<subseteq> extent n 72" by (simp_all add: extent_field)
  then have cells2: "address_cells (kmem s2) n = a" "size_cells (kmem s2) n = b"
    using cells load32_agree [OF n2] by (simp_all add: address_cells_def size_cells_def)
  have t2: "text_at (kmem s2) kept ?D d" by (rule text_at_agree [OF t k2])
  have "extent ?D (?w * N) \<subseteq> covered kept" using t l by (simp add: text_at_def)
  then have "(extent ?D (?w * N) \<union> extent n 72) \<inter> extent buf 8192 = {}" using laid_blocks(5) [OF L] laid_blocks(6) [OF L n] by blast
  then have "(extent ?D (?w * N) \<union> extent n 72) \<inter> ?X = {}" "(extent ?D (?w * N) \<union> extent n 72) \<inter> ?Y = {}" using buf by blast+
  moreover have "?w * N \<le> 2 ^ 64" using len unfolding l by (rule order_trans [OF less_imp_le]) simp
  ultimately have ap: "reg_apart a b N n ?D A Z" using c XY unfolding reg_apart_def Let_def by (intro conjI)
  \<comment> \<open>the values\<close>
  from rewrite_pairs_correct [OF ap cells2, of 0 N "kmem s2"] obtain m where
    R: "rewrite_pairs N n ?D A Z 0 0 (kmem s2) = Inr m" "agree_on (- (?X \<union> ?Y)) m (kmem s2)"
      "\<forall>i < N. cells_at a m A i = be_cells a (kmem s2) (?D + of_nat (?w * i)) \<and>
         cells_at b m Z i = be_cells b (kmem s2) (?D + of_nat (?w * i + 4 * unat a))" by auto
  have val: "be_cells a (kmem s2) (?D + of_nat (?w * i)) = be_value (take (4 * unat a) (drop (?w * i) d))"
    "be_cells b (kmem s2) (?D + of_nat (?w * i + 4 * unat a)) = be_value (take (4 * unat b) (drop (?w * i + 4 * unat a) d))" if "i < N" for i
  proof -
    have "?w * Suc i \<le> ?w * N" using that by (intro mult_le_mono2) simp
    then have f: "?w * i + 4 * unat a \<le> length d" "(?w * i + 4 * unat a) + 4 * unat b \<le> length d" unfolding l by (simp_all add: algebra_simps)
    show "be_cells a (kmem s2) (?D + of_nat (?w * i)) = be_value (take (4 * unat a) (drop (?w * i) d))"
      using f(1) by (intro be_value_cells [OF text_at_part [OF t2 f(1)] _ c(1)]) simp
    show "be_cells b (kmem s2) (?D + of_nat (?w * i + 4 * unat a)) = be_value (take (4 * unat b) (drop (?w * i + 4 * unat a) d))"
      using f(2) by (intro be_value_cells [OF text_at_part [OF t2 f(2)] _ c(2)]) simp
  qed
  let ?s3 = "s2\<lparr>kmem := m\<rparr>"
  have wr: "?X \<union> ?Y \<subseteq> covered others" "extent buf 24 \<inter> (?X \<union> ?Y) = {}"
  proof -
    show "?X \<union> ?Y \<subseteq> covered others" using buf bump_areas(3) [OF ok] by blast
    have "settled s1 buf \<subseteq> settled s2 buf" using Z(4) by (auto simp: changes_def settled_def)
    then show "extent buf 24 \<inter> (?X \<union> ?Y) = {}" using A(6) Z(6) bump_areas(2) [OF Z(3)] by blast
  qed
  note S3 = typing_write [OF Z(3) R(2) wr]
  have "unused s1 buf \<subseteq> unused s buf" using A(4) by (auto simp: changes_def unused_def)
  then have "?X \<union> ?Y \<subseteq> unused s buf" using A(5) Z(5) by blast
  then have C3: "changes buf others {} s ?s3" using S3(2) by (intro changes_absorb [OF C2, of "?X \<union> ?Y"]) simp_all
  \<comment> \<open>the property\<close>
  define m' where "m' = store64 (store64 (store64 (store32 m (q + 16) (property_type_value DT_PROPERTY_REG)) (q + 24) (of_nat N)) (q + 32) A) (q + 40) Z"
  let ?s' = "?s3\<lparr>kmem := m'\<rparr>"
  note P = laid_prop [OF L q]
  have e: "extent (q + 24) 8 \<subseteq> extent (q + 16) 32" "extent (q + 32) 8 \<subseteq> extent (q + 16) 32" "extent (q + 40) 8 \<subseteq> extent (q + 16) 32"
    "extent (q + 16) 4 \<subseteq> extent (q + 16) 32"
  proof -
    have "extent (q + 16 + i) 8 \<subseteq> extent (q + 16) 32" if "unat i + 8 \<le> 32" for i using that by (rule extent_field) simp
    from this [of 8] this [of 16] this [of 24]
    show "extent (q + 24) 8 \<subseteq> extent (q + 16) 32" "extent (q + 32) 8 \<subseteq> extent (q + 16) 32" "extent (q + 40) 8 \<subseteq> extent (q + 16) 32"
      by (simp_all only: add.assoc) simp_all
    show "extent (q + 16) 4 \<subseteq> extent (q + 16) 32" by (rule extent_mono) simp
  qed
  have "agree_on (- extent (q + 16) 32) (store32 m (q + 16) (property_type_value DT_PROPERTY_REG)) m" by (rule store32_agree) (use e(4) in blast)
  then have ag': "agree_on (- extent (q + 16) 32) m' (kmem ?s3)" unfolding m'_def
    by (intro agree_on_trans [OF store64_agree agree_on_trans [OF store64_agree agree_on_trans [OF store64_agree]]])
      (use e(1-3) in simp_all, blast+)
  note S4 = typing_write [OF S3(1) ag' P(2,4)]
  have C4: "changes buf others (extent (q + 16) 32) s ?s'" by (rule changes_trans [OF changes_mono [OF C3] S4(2)]) simp
  have "rewrite_reg_property n q s = Inr ?s'"
  proof -
    have "a \<le> 3" using two(1) by (simp add: word_le_nat_alt)
    moreover have "(4 * ucast a :: u64) = 0 \<longleftrightarrow> a = 0" "(4 * ucast b :: u64) = 0 \<longleftrightarrow> b = 0"
      using two_cells [OF c(1)] two_cells [OF c(2)] by auto
    ultimately show ?thesis using A(1,2) Z(1,2) R(1) W nz un c(2)
      by (simp add: rewrite_reg_property_def Let_def cells raw m'_def set64_def set32_def)
  qed
  moreover have "prop_typed (kmem ?s') kept (settled ?s' buf) a b q (SV ''reg'', d)"
  proof -
    have q2: "agree_on (extent q 56) (kmem s2) (kmem s)" using laid_blocks(2,7) [OF L q] by (intro K2(3)) blast+
    have "extent q 56 \<subseteq> - (?X \<union> ?Y)" using buf laid_blocks(7) [OF L q] by blast
    then have "agree_on (extent q 56) m (kmem s)" using q2 by (intro agree_on_trans [OF agree_on_mono [OF R(2)]])
    then have name: "prop_name m' q = prop_name (kmem s) q" using prop_links(1) [OF ag'] prop_fields_agree(1) by simp
    have "agree_on (settled s buf \<union> covered kept) m' (kmem s)" using changes_keep(1) [OF L ok C4 P(3)] by simp
    then have "agree_on (covered kept) m' (kmem s)" by (rule agree_on_mono) simp
    then have nm: "view_is m' kept (prop_name m' q) (SV ''reg'')" unfolding name by (rule view_is_agree [OF v])
    have F: "reg_addresses m' q = A" "reg_sizes m' q = Z" "prop_type m' q = property_type_value DT_PROPERTY_REG" "reg_n_pairs m' q = of_nat N"
      by (simp_all add: m'_def reg_addresses_def reg_sizes_def prop_type_def reg_n_pairs_def mem_simps)
    have XYs: "?X \<subseteq> settled ?s' buf" "?Y \<subseteq> settled ?s' buf"
      using A(6) Z(4,6) S3(2) S4(2) by (auto simp: changes_def settled_def)
    have "cells_at a m' A i = cells_at a m A i" "cells_at b m' Z i = cells_at b m Z i" if "i < N" for i
    proof -
      have lim: "4 * unat a * N \<le> 2 ^ 64" "4 * unat b * N \<le> 2 ^ 64" using l len by (simp_all add: algebra_simps)
      show "cells_at a m' A i = cells_at a m A i"
        using entry_within [OF that lim(1), of A] buf(1) P(3) by (intro cells_at_agree [OF c(1) agree_on_mono [OF ag', simplified]]) blast
      show "cells_at b m' Z i = cells_at b m Z i"
        using entry_within [OF that lim(2), of Z] buf(2) P(3) by (intro cells_at_agree [OF c(2) agree_on_mono [OF ag', simplified]]) blast
    qed
    then have "\<forall>i < N. cells_at a m' A i = be_value (take (4 * unat a) (drop (?w * i) d)) \<and>
        cells_at b m' Z i = be_value (take (4 * unat b) (drop (?w * i + 4 * unat a) d))" using R(3) val by simp
    then have "reg_typed m' (settled ?s' buf) a b q d"
      unfolding reg_typed_def Let_def N_def [symmetric] F using XYs by (intro conjI refl)
    then show ?thesis using nm by simp
  qed
  ultimately show ?thesis using S4(1) C4 by (intro exI [of _ ?s']) blast
qed

lemma reg_typed_agree:
  assumes t: "reg_typed m S a b q d" and c: "a \<le> 2" "b \<le> 2" and len: "length d < 2 ^ 32" and S: "S \<subseteq> S'"
    and ag: "agree_on (extent q 56 \<union> S) m' m"
  shows "reg_typed m' S' a b q d"
proof -
  let ?w = "4 * (unat a + unat b)" let ?N = "length d div ?w"
  have f: "load64 m' (q + k) = load64 m (q + k)" if "unat k + 8 \<le> 56" for k
    using extent_field [OF that, of q] by (intro load64_agree [OF ag]) auto
  have "agree_on (extent q 56) m' m" by (rule agree_on_mono [OF ag]) simp
  note F = prop_fields_agree(2,7) [OF this]
  have G: "reg_addresses m' q = reg_addresses m q" "reg_n_pairs m' q = reg_n_pairs m q"
    by (simp_all add: reg_addresses_def reg_n_pairs_def f)
  have T: "extent (reg_addresses m q) (4 * unat a * ?N) \<subseteq> S" "extent (reg_sizes m q) (4 * unat b * ?N) \<subseteq> S"
    using t unfolding reg_typed_def Let_def by blast+
  have "?w * ?N < 2 ^ 32" using len times_div_less_eq_dividend [of ?w "length d"] by (rule le_less_trans [rotated])
  then have lim: "4 * unat a * ?N \<le> 2 ^ 64" "4 * unat b * ?N \<le> 2 ^ 64" by (simp_all add: algebra_simps)
  have "cells_at a m' (reg_addresses m q) i = cells_at a m (reg_addresses m q) i" "cells_at b m' (reg_sizes m q) i = cells_at b m (reg_sizes m q) i"
    if "i < ?N" for i
    using entry_within [OF that lim(1)] entry_within [OF that lim(2)] T
    by (intro cells_at_agree c agree_on_mono [OF ag]; blast)+
  then show ?thesis using t S unfolding reg_typed_def Let_def F G by (simp only: subset_trans [OF _ S]) blast
qed

lemma prop_typed_agree:
  assumes p: "prop_typed m kept S a b q p" and c: "a \<le> 2" "b \<le> 2" and len: "length (snd p) < 2 ^ 32" and S: "S \<subseteq> S'"
    and ag: "agree_on (extent q 56 \<union> S \<union> covered kept) m' m"
  shows "prop_typed m' kept S' a b q p"
proof -
  obtain nm d where pd: "p = (nm, d)" by (cases p)
  have f: "agree_on (extent q 56) m' m" and k: "agree_on (covered kept) m' m" and g: "agree_on (extent q 56 \<union> S) m' m"
    and h: "agree_on (extent q 56 \<union> covered kept) m' m" by (rule agree_on_mono [OF ag], blast)+
  show ?thesis
  proof (cases "nm = SV ''reg''")
    case True
    then show ?thesis using p view_is_agree [OF _ k] reg_typed_agree [OF _ c _ S g] len by (simp add: pd prop_fields_agree(1) [OF f])
  next
    case False
    then have "prop_half m kept q p" using p by (simp add: pd)
    from prop_half_agree [OF this h] show ?thesis using False by (simp add: pd)
  qed
qed

lemma rewrite_step:
  fixes s :: "'a system_scheme"
  assumes L: "laid ns ps kept buf others" and n: "n \<in> set ns" and q: "q \<in> fst ` set ps"
    and ok: "typing_ok r (reg_cost p + k) j s buf others" and p: "prop_half (kmem s) kept q p"
    and cells: "address_cells (kmem s) n = a" "size_cells (kmem s) n = b" and c: "a \<le> 2" "b \<le> 2"
    and pok: "property_ok a b p" and len: "length (snd p) < 2 ^ 32"
  shows "\<exists>s'. (if sv_is (kmem s) (prop_name (kmem s) q) ''reg'' then rewrite_reg_property n q s else Inr s) = Inr s' \<and>
    typing_ok r k j s' buf others \<and> changes buf others (extent (q + 16) 32) s s' \<and> prop_typed (kmem s') kept (settled s' buf) a b q p"
proof -
  obtain nm d where pd: "p = (nm, d)" by (cases p)
  have v: "view_is (kmem s) kept (prop_name (kmem s) q) nm" using p by (simp add: pd)
  show ?thesis
  proof (cases "nm = SV ''reg''")
    case True
    have ok': "typing_ok r (length d + 16 + k) j s buf others" using ok by (simp add: pd True)
    have pi: "prop_is (kmem s) kept q (SV ''reg'', d)" using p by (simp add: pd True)
    have po: "property_ok a b (SV ''reg'', d)" and le: "length d < 2 ^ 32" using pok len by (simp_all only: pd True snd_conv)
    from reg_step [OF L n q ok' pi cells c po le] obtain s' where
      S: "rewrite_reg_property n q s = Inr s'" "typing_ok r k j s' buf others" "changes buf others (extent (q + 16) 32) s s'"
        "prop_typed (kmem s') kept (settled s' buf) a b q p" by (auto simp only: pd True)
    then show ?thesis using S sv_is_view [OF v] True by (intro exI [of _ s']) (simp del: prop_typed.simps)
  next
    case False
    then have "typing_ok r k j s buf others" "prop_typed (kmem s) kept (settled s buf) a b q p" using ok p v
      by (simp_all add: pd del: prop_half.simps)
    then show ?thesis using sv_is_view [OF v] False changes_refl by (intro exI [of _ s]) (simp del: prop_typed.simps)
  qed
qed

lemma second_loop:
  fixes s :: "'a system_scheme"
  assumes L: "laid ns ps kept buf others" and n: "n \<in> set ns" and c: "a \<le> 2" "b \<le> 2"
  shows "chain 48 (kmem s) q0 qs \<Longrightarrow> set qs \<subseteq> fst ` set ps \<Longrightarrow> list_all2 (prop_half (kmem s) kept) qs pl \<Longrightarrow>
    \<forall>p \<in> set pl. property_ok a b p \<and> length (snd p) < 2 ^ 32 \<Longrightarrow> address_cells (kmem s) n = a \<Longrightarrow> size_cells (kmem s) n = b \<Longrightarrow>
    typing_ok r (sum_list (map reg_cost pl) + k) j s buf others \<Longrightarrow>
    \<exists>s'. rewrite_pass_loop n q0 s = Some (Inr s') \<and> typing_ok r k j s' buf others \<and> changes buf others (\<Union>q \<in> set qs. extent (q + 16) 32) s s' \<and>
      list_all2 (prop_typed (kmem s') kept (settled s' buf) a b) qs pl"
proof (induction qs arbitrary: q0 pl s)
  case Nil
  have "rewrite_pass_loop n 0 s = Some (Inr s)" by (subst rewrite_pass_loop.simps) simp
  then show ?case using Nil changes_refl by (intro exI [of _ s]) simp
next
  case (Cons q qs)
  obtain p pl' where pl: "pl = p # pl'" and p: "prop_half (kmem s) kept q p" and rest: "list_all2 (prop_half (kmem s) kept) qs pl'"
    using Cons.prems(3) by (auto simp: list_all2_Cons1)
  have q: "q0 = q" "q \<noteq> 0" "q \<in> fst ` set ps" "q \<notin> set qs" "chain 48 (kmem s) (next_prop (kmem s) q) qs"
    and qs: "set qs \<subseteq> fst ` set ps"
    using Cons.prems(1,2) chain_distinct [OF Cons.prems(1)] by (auto simp: chain_Cons next_prop_def)
  have pok: "property_ok a b p" "length (snd p) < 2 ^ 32" using Cons.prems(4) by (simp_all add: pl)
  have ok: "typing_ok r (reg_cost p + (sum_list (map reg_cost pl') + k)) j s buf others" using Cons.prems(7) by (simp add: pl add.assoc)
  from rewrite_step [OF L n q(3) ok p Cons.prems(5,6) c pok] obtain s1 where
    R: "(if sv_is (kmem s) (prop_name (kmem s) q) ''reg'' then rewrite_reg_property n q s else Inr s) = Inr s1"
      "typing_ok r (sum_list (map reg_cost pl') + k) j s1 buf others" "changes buf others (extent (q + 16) 32) s s1"
      "prop_typed (kmem s1) kept (settled s1 buf) a b q p" by blast
  have "changes buf others (props_area n [q]) s s1" by (rule changes_mono [OF R(3)]) (simp add: props_area_def)
  note K1 = step_kept [OF L n q(3,4) qs ok this]
  have ch: "chain 48 (kmem s1) (next_prop (kmem s1) q) qs"
    unfolding K1(2) by (rule chain_kept [OF q(5) agree_on_mono [OF K1(1)]]) simp
  have pr: "list_all2 (prop_half (kmem s1) kept) qs pl'"
    by (rule list.rel_mono_strong [OF rest prop_half_agree]) (assumption, rule agree_on_mono [OF K1(1)], blast)
  have "extent (n + 16) 4 \<subseteq> extent n 24" "extent (n + 20) 4 \<subseteq> extent n 24" by (simp_all add: extent_field)
  then have cl: "address_cells (kmem s1) n = a" "size_cells (kmem s1) n = b"
    using Cons.prems(5,6) load32_agree [OF K1(3)] by (simp_all add: address_cells_def size_cells_def)
  from Cons.IH [OF ch qs pr _ cl R(2)] Cons.prems(4) obtain s' where
    S: "rewrite_pass_loop n (next_prop (kmem s1) q) s1 = Some (Inr s')" "typing_ok r k j s' buf others"
      "changes buf others (\<Union>q \<in> set qs. extent (q + 16) 32) s1 s'" "list_all2 (prop_typed (kmem s') kept (settled s' buf) a b) qs pl'" by (auto simp: pl)
  have "changes buf others (props_area n qs) s1 s'" by (rule changes_mono [OF S(3)]) (simp add: props_area_def)
  note K2 = steps_keep [OF L n q(3,4) qs R(2) this]
  have "prop_typed (kmem s') kept (settled s' buf) a b q p" by (rule prop_typed_agree [OF R(4) c pok(2) K2(2,1)])
  moreover have "changes buf others (\<Union>q \<in> set (q # qs). extent (q + 16) 32) s s'"
    by (rule changes_trans [OF changes_mono [OF R(3)] changes_mono [OF S(3)]]) auto
  moreover have "rewrite_pass_loop n q0 s = rewrite_pass_loop n (next_prop (kmem s1) q) s1"
    by (subst rewrite_pass_loop.simps) (simp only: q(1,2) R(1) if_False sum.case)
  ultimately show ?case using S by (intro exI [of _ s']) (simp add: pl)
qed

end
