(* ===== verification/Tree_Pass.thy ===== *)
theory Tree_Pass
  imports Second_Pass
begin

text \<open>
  The second pass over the whole tree: from the tree the first pass leaves in memory to the typed
  tree, with every node's cell counts taken from its parent's properties.
\<close>

section \<open>Typed trees in memory\<close>

definition node_typed :: "mem \<Rightarrow> (addr \<times> nat) list \<Rightarrow> addr set \<Rightarrow> (addr \<times> addr) set \<Rightarrow> addr \<Rightarrow> u32 \<Rightarrow> u32 \<Rightarrow> addr \<Rightarrow> u8 list \<Rightarrow>
    (u8 list \<times> u8 list) list \<Rightarrow> bool" where
  "node_typed m kept S Q par a b n name pl \<longleftrightarrow> view_is m kept (node_name m n) name \<and> parent m n = par \<and>
     address_cells m n = a \<and> size_cells m n = b \<and> node_compat m kept S n (fold strings_step pl []) \<and>
     (\<exists>qs. chain 48 m (properties m n) qs \<and> (\<forall>q \<in> set qs. (q, n) \<in> Q) \<and> list_all2 (prop_typed m kept S a b) qs pl)"

text \<open>The cell counts for the children of a node come from its properties, in the order of the list in memory.\<close>

fun forest_typed :: "mem \<Rightarrow> (addr \<times> nat) list \<Rightarrow> addr set \<Rightarrow> (addr \<times> addr) set \<Rightarrow> addr \<Rightarrow> u32 \<Rightarrow> u32 \<Rightarrow> forest \<Rightarrow> dtree list \<Rightarrow> bool" where
  "forest_typed m kept S Q par a b Nil_forest ts \<longleftrightarrow> ts = []"
| "forest_typed m kept S Q par a b (Node n cs ss) ts \<longleftrightarrow> (case ts of [] \<Rightarrow> False | t # ts' \<Rightarrow>
     node_typed m kept S Q par a b n (tree_name t) (rev (tree_props t)) \<and>
     (case fold cells_step (rev (tree_props t)) (a, b) of (a', b') \<Rightarrow> forest_typed m kept S Q n a' b' cs (rev (tree_kids t))) \<and>
     forest_typed m kept S Q par a b ss ts')"

section \<open>What belongs to a set of nodes\<close>

definition owned :: "(addr \<times> addr) set \<Rightarrow> addr set \<Rightarrow> addr set" where
  "owned Q N = {q. \<exists>n \<in> N. (q, n) \<in> Q}"

definition region :: "(addr \<times> addr) set \<Rightarrow> addr set \<Rightarrow> addr set" where
  "region Q N = (\<Union>n \<in> N. extent n 72) \<union> (\<Union>q \<in> owned Q N. extent q 56)"

definition touched :: "(addr \<times> addr) set \<Rightarrow> addr set \<Rightarrow> addr set" where
  "touched Q N = (\<Union>n \<in> N. extent (n + 16) 24) \<union> (\<Union>q \<in> owned Q N. extent (q + 16) 32)"

lemma owned_Un: "owned Q (N \<union> N') = owned Q N \<union> owned Q N'"
  by (auto simp: owned_def)

lemma region_Un: "region Q (N \<union> N') = region Q N \<union> region Q N'"
  unfolding region_def owned_Un UN_Un by (simp only: ac_simps)

lemma touched_Un: "touched Q (N \<union> N') = touched Q N \<union> touched Q N'"
  unfolding touched_def owned_Un UN_Un by (simp only: ac_simps)

lemma region_mono: "N \<subseteq> N' \<Longrightarrow> region Q N \<subseteq> region Q N'"
  by (metis region_Un le_iff_sup Un_upper1)

lemma touched_mono: "N \<subseteq> N' \<Longrightarrow> touched Q N \<subseteq> touched Q N'"
  by (metis touched_Un le_iff_sup Un_upper1)

lemma region_node: "n \<in> N \<Longrightarrow> extent n 72 \<subseteq> region Q N"
  unfolding region_def by blast

lemma region_prop: "(q, n) \<in> Q \<Longrightarrow> n \<in> N \<Longrightarrow> extent q 56 \<subseteq> region Q N"
  unfolding region_def owned_def by blast

lemma touched_region: "touched Q N \<subseteq> region Q N"
proof -
  have "extent (n + 16) 24 \<subseteq> extent n 72" "extent (n + 16) 32 \<subseteq> extent n 56" for n by (simp_all add: extent_field)
  then show ?thesis unfolding touched_def region_def by (intro Un_mono UN_mono subset_refl)
qed

lemma laid_region:
  assumes L: "laid ns ps kept buf others" and N: "N \<subseteq> set ns"
  shows "region (set ps) N \<subseteq> covered others" and "region (set ps) N \<inter> (extent buf 8192 \<union> covered kept) = {}"
    and "N' \<subseteq> set ns \<Longrightarrow> N \<inter> N' = {} \<Longrightarrow> region (set ps) N \<inter> region (set ps) N' = {}"
proof -
  have q: "q \<in> fst ` set ps" if "q \<in> owned (set ps) N" for q N using that by (force simp: owned_def)
  have n: "n \<in> set ns" if "n \<in> N" for n using N that by blast
  show "region (set ps) N \<subseteq> covered others"
    unfolding region_def using laid_blocks(1) [OF L n] laid_blocks(2) [OF L q] by (intro Un_least UN_least)
  have "region (set ps) N \<subseteq> - (extent buf 8192 \<union> covered kept)"
    unfolding region_def using laid_blocks(6) [OF L n] laid_blocks(7) [OF L q] by (intro Un_least UN_least) (simp_all only: disjoint_eq_subset_Compl)
  then show "region (set ps) N \<inter> (extent buf 8192 \<union> covered kept) = {}" by (simp only: disjoint_eq_subset_Compl)
  show "region (set ps) N \<inter> region (set ps) N' = {}" if N': "N' \<subseteq> set ns" "N \<inter> N' = {}"
  proof -
    have n': "n \<in> set ns" if "n \<in> N'" for n using N' that by blast
    have 1: "extent n 72 \<inter> extent n' 72 = {}" if "n \<in> N" "n' \<in> N'" for n n'
      using that N'(2) by (intro laid_blocks(9) [OF L n n']) blast+
    have 2: "extent x 56 \<inter> extent x' 56 = {}" if o: "x \<in> owned (set ps) N" "x' \<in> owned (set ps) N'" for x x'
    proof -
      obtain m m' where "(x, m) \<in> set ps" "m \<in> N" "(x', m') \<in> set ps" "m' \<in> N'" using o unfolding owned_def by blast
      then have "x \<noteq> x'" using laid_owner [OF L, of x m m'] N'(2) by blast
      then show ?thesis by (rule laid_blocks(10) [OF L q [OF o(1)] q [OF o(2)]])
    qed
    have 3: "extent n 72 \<inter> extent x 56 = {}" if "n \<in> N" "x \<in> owned (set ps) N'" for n x by (rule laid_blocks(8) [OF L n [OF that(1)] q [OF that(2)]])
    have 4: "extent x 56 \<inter> extent n 72 = {}" if "n \<in> N'" "x \<in> owned (set ps) N" for n x
      using laid_blocks(8) [OF L n' [OF that(1)] q [OF that(2)]] by (simp only: Int_commute)
    show ?thesis unfolding region_def Int_Un_distrib Int_Un_distrib2 Int_UN_distrib2 using 1 2 3 4 by simp
  qed
qed

text \<open>Changes to some nodes leave the others, the text and what the allocator has given out.\<close>

lemma touched_keeps:
  assumes L: "laid ns ps kept buf others" and N: "N \<subseteq> set ns" and M: "M \<subseteq> set ns" "N \<inter> M = {}"
    and ok: "typing_ok r c j s buf others" and ch: "changes buf others (touched (set ps) N) s s'"
  shows "agree_on (region (set ps) M \<union> settled s buf \<union> covered kept) (kmem s') (kmem s)" and "settled s buf \<subseteq> settled s' buf"
proof -
  note R = laid_region [OF L N] and R' = laid_region [OF L M(1)] and t = touched_region [of "set ps" N]
  have W: "touched (set ps) N \<inter> (extent buf 8192 \<union> covered kept) = {}" using t R(2) by blast
  note K = changes_keep [OF L ok ch W]
  have "agree_on (region (set ps) M) (kmem s') (kmem s)" using R'(1,2) R(3) [OF M] t by (intro K(3)) blast+
  then show "agree_on (region (set ps) M \<union> settled s buf \<union> covered kept) (kmem s') (kmem s)" using K(1) by (auto simp: agree_on_def)
  show "settled s buf \<subseteq> settled s' buf" by (rule K(2))
qed

lemma node_fields_agree:
  assumes ag: "agree_on (extent n 72) m' m"
  shows "node_name m' n = node_name m n" and "parent m' n = parent m n" and "address_cells m' n = address_cells m n"
    and "size_cells m' n = size_cells m n" and "properties m' n = properties m n" and "children m' n = children m n"
    and "sibling m' n = sibling m n" and "compatible m' n = compatible m n" and "compatible_count m' n = compatible_count m n"
proof -
  have f: "load64 m' (n + k) = load64 m (n + k)" if "unat k + 8 \<le> 72" for k
    using extent_field [OF that, of n] by (intro load64_agree [OF ag]) auto
  have g: "load32 m' (n + k) = load32 m (n + k)" if "unat k + 4 \<le> 72" for k
    using extent_field [OF that, of n] by (intro load32_agree [OF ag]) auto
  show "node_name m' n = node_name m n" using f [of 0] f [of 8] by (simp add: node_name_def sv_at_def)
  show "parent m' n = parent m n" "address_cells m' n = address_cells m n" "size_cells m' n = size_cells m n"
    "properties m' n = properties m n" "children m' n = children m n" "sibling m' n = sibling m n"
    "compatible m' n = compatible m n" "compatible_count m' n = compatible_count m n"
    by (simp_all add: parent_def address_cells_def size_cells_def properties_def children_def sibling_def compatible_def compatible_count_def f g)
qed

text \<open>What the pass keeps of a node it works on: everything but cell counts and compatible strings.\<close>

lemma node_links_agree:
  assumes ag: "agree_on (extent n 16 \<union> extent (n + 40) 32) m' m"
  shows "node_name m' n = node_name m n" and "parent m' n = parent m n" and "properties m' n = properties m n"
    and "children m' n = children m n" and "sibling m' n = sibling m n"
proof -
  have f: "load64 m' (n + 40 + k) = load64 m (n + 40 + k)" if "unat k + 8 \<le> 32" for k
    using extent_field [OF that, of "n + 40"] by (intro load64_agree [OF ag]) auto
  have "extent n 8 \<subseteq> extent n 16" "extent (n + 8) 8 \<subseteq> extent n 16" by (simp_all add: extent_mono extent_field)
  then show "node_name m' n = node_name m n" using load64_agree [OF ag, of n] load64_agree [OF ag, of "n + 8"]
    by (simp add: node_name_def sv_at_def) blast
  have e: "n + 40 + 0 = n + 40" "n + 40 + 8 = n + 48" "n + 40 + 16 = n + 56" "n + 40 + 24 = n + 64" by (simp_all add: add.assoc)
  note g = f [of 0, unfolded e] f [of 8, unfolded e] f [of 16, unfolded e] f [of 24, unfolded e]
  show "parent m' n = parent m n" "properties m' n = properties m n" "children m' n = children m n" "sibling m' n = sibling m n"
    using g by (simp_all add: parent_def properties_def children_def sibling_def)
qed

lemma node_typed_agree:
  assumes t: "node_typed m kept S Q par a b n name pl" and c: "a \<le> 2" "b \<le> 2" and len: "\<forall>p \<in> set pl. length (snd p) < 2 ^ 32" and S: "S \<subseteq> S'"
    and ag: "agree_on (region Q {n} \<union> S \<union> covered kept) m' m"
  shows "node_typed m' kept S' Q par a b n name pl"
proof -
  have "agree_on (extent n 72) m' m" using region_node [of n "{n}" Q] by (intro agree_on_mono [OF ag]) blast
  note F = node_fields_agree [OF this]
  have K: "agree_on (covered kept) m' m" by (rule agree_on_mono [OF ag]) simp
  obtain qs where qs: "chain 48 m (properties m n) qs" "\<forall>q \<in> set qs. (q, n) \<in> Q" "list_all2 (prop_typed m kept S a b) qs pl"
    using t by (auto simp: node_typed_def)
  have r: "extent q 56 \<subseteq> region Q {n}" if "q \<in> set qs" for q using qs(2) that by (intro region_prop) auto
  have "chain 48 m' (properties m' n) qs" unfolding F(5) using r by (intro chain_kept [OF qs(1)] agree_on_mono [OF ag]) blast
  moreover have "list_all2 (prop_typed m' kept S' a b) qs pl"
  proof (rule list.rel_mono_strong [OF qs(3)])
    fix q p assume q: "q \<in> set qs" and p: "p \<in> set pl" and t: "prop_typed m kept S a b q p"
    have l: "length (snd p) < 2 ^ 32" using len p by blast
    have "agree_on (extent q 56 \<union> S \<union> covered kept) m' m" using r [OF q] by (intro agree_on_mono [OF ag]) blast
    then show "prop_typed m' kept S' a b q p" by (rule prop_typed_agree [OF t c l S])
  qed
  moreover have "node_compat m' kept S' n (fold strings_step pl [])"
  proof (rule node_compat_agree [OF _ S])
    show "node_compat m kept S n (fold strings_step pl [])" using t by (simp add: node_typed_def)
    show "agree_on (S \<union> covered kept) m' m" by (rule agree_on_mono [OF ag]) blast
    have "extent (n + 24) 16 \<subseteq> extent n 72" by (rule extent_field) simp_all
    then show "agree_on (extent (n + 24) 16) m' m" using region_node [of n "{n}" Q] by (intro agree_on_mono [OF ag]) blast
  qed
  ultimately show ?thesis using t view_is_agree [OF _ K] qs(2) unfolding node_typed_def F by blast
qed

text \<open>Trees whose values are not too long, with the cell counts they hand down.\<close>

fun tree_sized :: "dtree \<Rightarrow> bool" where
  "tree_sized (DNode nm pl ks) \<longleftrightarrow> (\<forall>p \<in> set pl. length (snd p) < 2 ^ 32) \<and> (\<forall>k \<in> set ks. tree_sized k)"

lemma tree_ok_sized: "tree_ok P t \<Longrightarrow> tree_sized t"
  by (induction t) auto

lemma fold_cells_le:
  "\<forall>p \<in> set pl. property_ok a b p \<Longrightarrow> fst x \<le> 2 \<Longrightarrow> snd x \<le> 2 \<Longrightarrow> fst (fold cells_step pl x) \<le> 2 \<and> snd (fold cells_step pl x) \<le> 2"
proof (induction pl arbitrary: x)
  case (Cons p pl)
  have "fst (cells_step p x) \<le> 2" "snd (cells_step p x) \<le> 2" using Cons.prems by (cases p; cases x; auto split: if_splits)+
  then show ?case using Cons by simp
qed simp

lemma forest_typed_agree:
  assumes "forest_typed m kept S Q par a b f ts" and "a \<le> 2" "b \<le> 2" and "\<forall>t \<in> set ts. tree_typed a b t \<and> tree_sized t" and "S \<subseteq> S'"
    and "agree_on (region Q (set (preorder f)) \<union> S \<union> covered kept) m' m"
  shows "forest_typed m' kept S' Q par a b f ts"
  using assms
proof (induction f arbitrary: par a b ts)
  case (Node n cs ss)
  note ag = Node.prems(6)
  obtain t ts' where ts: "ts = t # ts'" using Node.prems(1) by (cases ts) auto
  obtain nm pl ks where t: "t = DNode nm pl ks" by (cases t)
  obtain a' b' where f: "fold cells_step (rev pl) (a, b) = (a', b')" by (cases "fold cells_step (rev pl) (a, b)")
  have T: "node_typed m kept S Q par a b n nm (rev pl)" "forest_typed m kept S Q n a' b' cs (rev ks)" "forest_typed m kept S Q par a b ss ts'"
    using Node.prems(1) by (simp_all add: ts t f)
  have ok: "\<forall>p \<in> set pl. property_ok a b p" "\<forall>p \<in> set pl. length (snd p) < 2 ^ 32" "\<forall>k \<in> set (rev ks). tree_typed a' b' k \<and> tree_sized k"
    using Node.prems(4) by (auto simp: ts t f)
  have c: "a' \<le> 2" "b' \<le> 2" using fold_cells_le [of "rev pl" a b "(a, b)"] ok(1) Node.prems(2,3) f by auto
  have r: "region Q {n} \<subseteq> region Q (set (preorder (Node n cs ss)))" "region Q (set (preorder cs)) \<subseteq> region Q (set (preorder (Node n cs ss)))"
    "region Q (set (preorder ss)) \<subseteq> region Q (set (preorder (Node n cs ss)))" by (auto intro: region_mono [THEN subsetD])
  have "node_typed m' kept S' Q par a b n nm (rev pl)"
    by (rule node_typed_agree [OF T(1) Node.prems(2,3) _ Node.prems(5) agree_on_mono [OF ag]]) (use ok(2) r in auto)
  moreover have "forest_typed m' kept S' Q n a' b' cs (rev ks)"
    by (rule Node.IH(1) [OF T(2) c ok(3) Node.prems(5) agree_on_mono [OF ag]]) (use r in blast)
  moreover have "forest_typed m' kept S' Q par a b ss ts'"
    by (rule Node.IH(2) [OF T(3) Node.prems(2,3) _ Node.prems(5) agree_on_mono [OF ag]]) (use Node.prems(4) r in \<open>auto simp: ts\<close>)
  ultimately show ?case by (simp add: ts t f)
qed simp

section \<open>One node\<close>

lemma node_pass:
  fixes s :: "'a system_scheme"
  assumes L: "laid ns ps kept buf others" and n: "n \<in> set ns" and nd: "node_is (kmem s) kept (set ps) par n nm pl"
    and cells: "address_cells (kmem s) n = a" "size_cells (kmem s) n = b" and c: "a \<le> 2" "b \<le> 2"
    and pok: "\<forall>p \<in> set pl. property_ok a b p \<and> length (snd p) < 2 ^ 32"
    and ok: "typing_ok r (sum_list (map string_cost pl) + (sum_list (map reg_cost pl) + k)) (sum_list (map handle_count pl) + j) s buf others"
  shows "\<exists>s'. second_pass_node n s = Some (Inr (ec EC_SUCCESS, fst (fold cells_step pl (a, b)), snd (fold cells_step pl (a, b)), s')) \<and>
    typing_ok r k j s' buf others \<and> changes buf others (touched (set ps) {n}) s s' \<and> agree_on (extent n 16 \<union> extent (n + 40) 32) (kmem s') (kmem s) \<and>
    node_typed (kmem s') kept (settled s' buf) (set ps) par a b n nm pl"
proof -
  obtain qs where qs: "chain 48 (kmem s) (properties (kmem s) n) qs" "\<forall>q \<in> set qs. (q, n) \<in> set ps" "list_all2 (prop_is (kmem s) kept) qs pl"
    using nd by (auto simp: node_is_def props_are_def)
  have nd': "view_is (kmem s) kept (node_name (kmem s) n) nm" "parent (kmem s) n = par" "compatible_count (kmem s) n = 0"
    using nd by (simp_all add: node_is_def)
  have sub: "set qs \<subseteq> fst ` set ps" using qs(2) by force
  have nc: "node_compat (kmem s) kept (settled s buf) n []" using nd'(3) by (simp add: node_compat_def)
  from first_loop [OF L n qs(1) sub qs(3) pok ok nc, of "(a, b)"] obtain s1 where
    A: "second_pass_loop n (properties (kmem s) n) a b s =
        Some (Inr (ec EC_SUCCESS, fst (fold cells_step pl (a, b)), snd (fold cells_step pl (a, b)), s1))"
      "typing_ok r (sum_list (map reg_cost pl) + k) j s1 buf others" "changes buf others (props_area n qs) s s1"
      "list_all2 (prop_half (kmem s1) kept) qs pl" "node_compat (kmem s1) kept (settled s1 buf) n (fold strings_step pl [])" by auto
  note P = props_area_apart [OF L n sub]
  have n72: "extent n 24 \<subseteq> extent n 72" "extent (n + 40) 32 \<subseteq> extent n 72" by (simp_all add: extent_mono extent_field)
  have links: "agree_on (extent n 24 \<union> extent (n + 40) 32) (kmem s') (kmem t)"
    if "typing_ok r c i t buf others" "changes buf others (props_area n qs) t s'" for t s' :: "'a system_scheme" and c i
    using laid_blocks(1,6) [OF L n] P(3) n72 by (intro changes_keep(3) [OF L that P(1)]) blast+
  have nexts: "chain 48 (kmem s') p qs"
    if t: "typing_ok r c i t buf others" "changes buf others (props_area n qs) t s'" "chain 48 (kmem t) p qs" for t s' :: "'a system_scheme" and c i p
  proof -
    have "load64 (kmem s') (q + 48) = load64 (kmem t) (q + 48)" if q: "q \<in> set qs" for q
    proof -
      have "extent (q + 48) 8 \<subseteq> extent q 56" by (rule extent_field) simp_all
      then have "agree_on (extent (q + 48) 8) (kmem s') (kmem t)"
        using laid_blocks(2,7) [OF L, of q] P(5) [of q] q sub by (intro changes_keep(3) [OF L t(1,2) P(1)]) blast+
      then show ?thesis using load64_agree by blast
    qed
    then show ?thesis using t(3) by (simp cong: chain_cong)
  qed
  have e: "extent n 16 \<subseteq> extent n 24" "extent (n + 16) 4 \<subseteq> extent n 24" "extent (n + 20) 4 \<subseteq> extent n 24" by (simp_all add: extent_mono extent_field)
  have keeps: "address_cells (kmem s') n = address_cells (kmem t) n" "size_cells (kmem s') n = size_cells (kmem t) n"
      "agree_on (extent n 16 \<union> extent (n + 40) 32) (kmem s') (kmem t)"
    if "typing_ok r c i t buf others" "changes buf others (props_area n qs) t s'" for t s' :: "'a system_scheme" and c i
  proof -
    note l = links [OF that]
    show "agree_on (extent n 16 \<union> extent (n + 40) 32) (kmem s') (kmem t)" using e(1) by (intro agree_on_mono [OF l]) blast
    have "agree_on (extent (n + 16) 4) (kmem s') (kmem t)" "agree_on (extent (n + 20) 4) (kmem s') (kmem t)"
      using e by (intro agree_on_mono [OF l]; blast)+
    then show "address_cells (kmem s') n = address_cells (kmem t) n" "size_cells (kmem s') n = size_cells (kmem t) n"
      using load32_agree by (simp_all add: address_cells_def size_cells_def)
  qed
  note k1 = keeps [OF ok A(3)]
  note N1 = node_links_agree [OF k1(3)]
  have ch1: "chain 48 (kmem s1) (properties (kmem s1) n) qs" unfolding N1(3) by (rule nexts [OF ok A(3) qs(1)])
  from second_loop [OF L n c ch1 sub A(4) pok k1(1,2) [unfolded cells] A(2)] obtain s2 where
    B: "rewrite_pass_loop n (properties (kmem s1) n) s1 = Some (Inr s2)" "typing_ok r k j s2 buf others"
      "changes buf others (\<Union>q \<in> set qs. extent (q + 16) 32) s1 s2" "list_all2 (prop_typed (kmem s2) kept (settled s2 buf) a b) qs pl" by blast
  have B': "changes buf others (props_area n qs) s1 s2" by (rule changes_mono [OF B(3)]) (simp add: props_area_def)
  note k2 = keeps [OF A(2) B']
  note N2 = node_links_agree [OF k2(3)]
  have W: "(\<Union>q \<in> set qs. extent (q + 16) 32) \<inter> (extent buf 8192 \<union> covered kept) = {}" using P(1) unfolding props_area_def by blast
  have "(\<Union>q \<in> set qs. extent (q + 16) 32) \<inter> extent (n + 24) 16 = {}" using step_areas(1) [OF L n] sub by blast
  then have "node_compat (kmem s2) kept (settled s2 buf) n (fold strings_step pl [])" by (rule node_compat_changes [OF L A(2) n B(3) W _ A(5)])
  moreover have "view_is (kmem s2) kept (node_name (kmem s2) n) nm"
  proof -
    have "agree_on (covered kept) (kmem s2) (kmem s1)" "agree_on (covered kept) (kmem s1) (kmem s)"
      using changes_keep(1) [OF L A(2) B' P(1)] changes_keep(1) [OF L ok A(3) P(1)] by (auto intro: agree_on_mono)
    then have "agree_on (covered kept) (kmem s2) (kmem s)" by (rule agree_on_trans)
    then show ?thesis unfolding N2(1) N1(1) by (rule view_is_agree [OF nd'(1)])
  qed
  moreover have "chain 48 (kmem s2) (properties (kmem s2) n) qs" unfolding N2(3) by (rule nexts [OF A(2) B' ch1])
  ultimately have "node_typed (kmem s2) kept (settled s2 buf) (set ps) par a b n nm pl"
    unfolding node_typed_def using nd'(2) qs(2) B(4) k1(1,2) k2(1,2) cells N1(2) N2(2) by (intro conjI exI [of _ qs]) simp_all
  moreover have "changes buf others (touched (set ps) {n}) s s2"
  proof -
    have "set qs \<subseteq> owned (set ps) {n}" using qs(2) by (auto simp: owned_def)
    then have "props_area n qs \<subseteq> touched (set ps) {n}" unfolding props_area_def touched_def using laid_node(2) [OF L n] by blast
    then show ?thesis using changes_trans [OF A(3) B'] by (rule changes_mono [rotated])
  qed
  moreover have "second_pass_node n s = Some (Inr (ec EC_SUCCESS, fst (fold cells_step pl (a, b)), snd (fold cells_step pl (a, b)), s2))"
    by (simp add: second_pass_node_def cells A(1) B(1))
  ultimately show ?thesis using B(2) agree_on_trans [OF k2(3) k1(3)] by blast
qed

lemma cells_set:
  fixes s :: "'a system_scheme" and a b :: u32
  assumes L: "laid ns ps kept buf others" and n: "n \<in> set ns" and ok: "typing_ok r c j s buf others"
    and nd: "node_is (kmem s) kept (set ps) par n nm pl"
  defines "s' \<equiv> set32 (n + 20) b (set32 (n + 16) a s)"
  shows "typing_ok r c j s' buf others" and "changes buf others (touched (set ps) {n}) s s'"
    and "agree_on (extent n 16 \<union> extent (n + 40) 32) (kmem s') (kmem s)" and "node_is (kmem s') kept (set ps) par n nm pl"
    and "address_cells (kmem s') n = a" and "size_cells (kmem s') n = b"
proof -
  define m where "m = store32 (store32 (kmem s) (n + 16) a) (n + 20) b"
  have s': "s' = s\<lparr>kmem := m\<rparr>" by (simp add: s'_def m_def set32_def)
  note N = laid_node [OF L n]
  have e20: "n + 16 + 4 = n + 20" by (simp add: add.assoc)
  have "extent (n + 16 + 4) 4 \<subseteq> extent (n + 16) 8" by (rule extent_field) simp_all
  then have e: "extent (n + 20) 4 \<subseteq> extent (n + 16) 8" "extent (n + 16) 4 \<subseteq> extent (n + 16) 8" "extent (n + 16) 8 \<subseteq> extent (n + 16) 24"
    unfolding e20 by (simp_all add: extent_mono)
  have ag: "agree_on (- extent (n + 16) 8) m (kmem s)"
    unfolding m_def by (rule agree_on_trans [OF store32_agree store32_agree]) (use e in blast)+
  have w: "extent (n + 16) 8 \<subseteq> covered others" "extent buf 24 \<inter> extent (n + 16) 8 = {}" using e(3) N(3,5) by blast+
  note T = typing_write [OF ok ag w, folded s']
  show "typing_ok r c j s' buf others" by (rule T(1))
  show "changes buf others (touched (set ps) {n}) s s'" by (rule changes_mono [OF T(2)]) (use e(3) in \<open>auto simp: touched_def\<close>)
  have d: "extent n 16 \<inter> extent (n + 16) 8 = {}" "extent (n + 40) 32 \<inter> extent (n + 16) 8 = {}" "extent (n + 32) 8 \<inter> extent (n + 16) 8 = {}"
    by (simp_all add: extent_disjoint_iff)
  show l: "agree_on (extent n 16 \<union> extent (n + 40) 32) (kmem s') (kmem s)" using d unfolding s' by (auto intro!: agree_on_mono [OF ag])
  note F = node_links_agree [OF l]
  have cc: "compatible_count (kmem s') n = compatible_count (kmem s) n"
    unfolding s' compatible_count_def using d(3) by (auto intro!: load64_agree [OF ag])
  have K: "agree_on (covered kept) (kmem s') (kmem s)" using e(3) N(4) unfolding s' by (auto intro!: agree_on_mono [OF ag])
  have "agree_on ((\<Union>q \<in> fst ` set ps. extent q 56) \<union> covered kept) (kmem s') (kmem s)"
  proof -
    have "extent q 56 \<inter> extent (n + 16) 8 = {}" if "q \<in> fst ` set ps" for q using laid_blocks(8) [OF L n that] e(3) N(1) by blast
    moreover have "covered kept \<inter> extent (n + 16) 8 = {}" using e(3) N(4) by blast
    ultimately have "agree_on ((\<Union>q \<in> fst ` set ps. extent q 56) \<union> covered kept) m (kmem s)" by (intro agree_on_mono [OF ag]) blast
    then show ?thesis by (simp add: s')
  qed
  then have "props_are (kmem s') kept (set ps) n pl" using nd by (intro props_are_agree [OF _ F(3) subset_refl]) (simp_all add: node_is_def)
  then show "node_is (kmem s') kept (set ps) par n nm pl" using nd view_is_agree [OF _ K] by (simp add: node_is_def F cc)
  show "address_cells (kmem s') n = a" "size_cells (kmem s') n = b" by (simp_all add: s' m_def address_cells_def size_cells_def mem_simps)
qed

section \<open>The whole tree\<close>

lemma node_is_region:
  assumes nd: "node_is m kept Q par n nm pl" and ag: "agree_on (region Q {n} \<union> covered kept) m' m"
  shows "node_is m' kept Q par n nm pl"
proof -
  have "agree_on (extent n 72) m' m" using region_node [of n "{n}" Q] by (intro agree_on_mono [OF ag]) blast
  note F = node_fields_agree [OF this]
  have K: "agree_on (covered kept) m' m" by (rule agree_on_mono [OF ag]) simp
  obtain qs where qs: "chain 48 m (properties m n) qs" "\<forall>q \<in> set qs. (q, n) \<in> Q" "list_all2 (prop_is m kept) qs pl"
    using nd by (auto simp: node_is_def props_are_def)
  have r: "extent q 56 \<subseteq> region Q {n}" if "q \<in> set qs" for q using qs(2) that by (intro region_prop) auto
  have "chain 48 m' (properties m' n) qs" unfolding F(5) using r by (intro chain_kept [OF qs(1)] agree_on_mono [OF ag]) blast
  moreover have "list_all2 (prop_is m' kept) qs pl"
  proof (rule list.rel_mono_strong [OF qs(3)])
    fix q p assume q: "q \<in> set qs" and t: "prop_is m kept q p"
    have "agree_on (extent q 56 \<union> covered kept) m' m" using r [OF q] by (intro agree_on_mono [OF ag]) blast
    then show "prop_is m' kept q p" by (rule prop_is_agree(1) [OF t])
  qed
  ultimately show ?thesis using nd view_is_agree [OF _ K] qs(2) unfolding node_is_def props_are_def F by blast
qed

lemma region_parts:
  "region Q {n} \<subseteq> region Q (set (preorder (Node n cs ss)))" "region Q (set (preorder cs)) \<subseteq> region Q (set (preorder (Node n cs ss)))"
  "region Q (set (preorder ss)) \<subseteq> region Q (set (preorder (Node n cs ss)))"
  by (rule region_mono, force)+

lemma forest_is_region:
  "forest_is m kept Q par f ts \<Longrightarrow> agree_on (region Q (set (preorder f)) \<union> covered kept) m' m \<Longrightarrow> forest_is m' kept Q par f ts"
proof (induction f arbitrary: par ts)
  case (Node n cs ss)
  note r = region_parts [where Q = Q and n = n and cs = cs and ss = ss]
  obtain t ts' where ts: "ts = t # ts'" using Node.prems(1) by (cases ts) auto
  have "node_is m' kept Q par n (tree_name t) (rev (tree_props t))"
    using Node.prems(1) r by (intro node_is_region [OF _ agree_on_mono [OF Node.prems(2)]]) (simp add: ts, blast)
  moreover have "forest_is m' kept Q n cs (rev (tree_kids t))"
    using Node.prems(1) r by (intro Node.IH(1) [OF _ agree_on_mono [OF Node.prems(2)]]) (simp add: ts, blast)
  moreover have "forest_is m' kept Q par ss ts'"
    using Node.prems(1) r by (intro Node.IH(2) [OF _ agree_on_mono [OF Node.prems(2)]]) (simp add: ts, blast)
  ultimately show ?case by (simp add: ts)
qed simp

lemma forest_at_region: "forest_at m p f \<Longrightarrow> agree_on (region Q (set (preorder f)) \<union> S) m' m \<Longrightarrow> forest_at m' p f"
  by (erule forest_agree, erule agree_on_mono) (auto simp: region_def)

lemma rev_sum_list: "sum_list (map f (rev xs)) = (sum_list (map f xs) :: nat)"
  by (simp add: rev_map [symmetric])

text \<open>A node and its children, given what the recursive call does on the children.\<close>

lemma subtree_pass:
  fixes s :: "'a system_scheme"
  assumes L: "laid ns ps kept buf others"
    and IH: "\<And>p par ts a b (s :: 'a system_scheme) k j. forest_at (kmem s) p cs \<Longrightarrow> forest_is (kmem s) kept (set ps) par cs ts \<Longrightarrow>
      distinct (preorder cs) \<Longrightarrow> set (preorder cs) \<subseteq> set ns \<Longrightarrow> a \<le> 2 \<Longrightarrow> b \<le> 2 \<Longrightarrow> \<forall>t \<in> set ts. tree_typed a b t \<and> tree_sized t \<Longrightarrow>
      typing_ok r (sum_list (map tree_cost ts) + k) (sum_list (map tree_handles ts) + j) s buf others \<Longrightarrow>
      \<exists>s'. second_pass_children p a b s = Some (Inr (ec EC_SUCCESS, s')) \<and> typing_ok r k j s' buf others \<and>
        changes buf others (touched (set ps) (set (preorder cs))) s s' \<and> forest_at (kmem s') p cs \<and>
        forest_typed (kmem s') kept (settled s' buf) (set ps) par a b cs ts"
    and at: "forest_at (kmem s) (children (kmem s) n) cs" and tree: "forest_is (kmem s) kept (set ps) par (Node n cs Nil_forest) [t]"
    and dist: "distinct (n # preorder cs)" and sub: "n \<in> set ns" "set (preorder cs) \<subseteq> set ns"
    and c: "a \<le> 2" "b \<le> 2" and ty: "tree_typed a b t" "tree_sized t"
    and ok: "typing_ok r (tree_cost t + k) (tree_handles t + j) s buf others"
  shows "\<exists>s1 a' b' s'. second_pass_node n (set32 (n + 20) b (set32 (n + 16) a s)) = Some (Inr (ec EC_SUCCESS, a', b', s1)) \<and>
    second_pass_children (children (kmem s1) n) a' b' s1 = Some (Inr (ec EC_SUCCESS, s')) \<and> typing_ok r k j s' buf others \<and>
    changes buf others (touched (set ps) (insert n (set (preorder cs)))) s s' \<and> forest_at (kmem s') (children (kmem s') n) cs \<and>
    sibling (kmem s') n = sibling (kmem s) n \<and> forest_typed (kmem s') kept (settled s' buf) (set ps) par a b (Node n cs Nil_forest) [t]"
proof -
  let ?Q = "set ps" and ?cs = "set (preorder cs)"
  obtain nm pl ks where t: "t = DNode nm pl ks" by (cases t)
  have reps: "node_is (kmem s) kept ?Q par n nm (rev pl)" "forest_is (kmem s) kept ?Q n cs (rev ks)" using tree by (simp_all add: t)
  have n: "{n} \<subseteq> set ns" and disj: "{n} \<inter> ?cs = {}" "?cs \<inter> {n} = {}" and dist': "distinct (preorder cs)" using dist sub by auto
  obtain a' b' where f: "fold cells_step (rev pl) (a, b) = (a', b')" by (cases "fold cells_step (rev pl) (a, b)")
  have pok: "\<forall>p \<in> set (rev pl). property_ok a b p \<and> length (snd p) < 2 ^ 32" "\<forall>t \<in> set (rev ks). tree_typed a' b' t \<and> tree_sized t"
    using ty by (auto simp: t f)
  have c': "a' \<le> 2" "b' \<le> 2" using fold_cells_le [of "rev pl" a b "(a, b)"] pok(1) c f by auto
  let ?kC = "sum_list (map tree_cost (rev ks)) + k" and ?jC = "sum_list (map tree_handles (rev ks)) + j"
  have ok: "typing_ok r (sum_list (map string_cost (rev pl)) + (sum_list (map reg_cost (rev pl)) + ?kC)) (sum_list (map handle_count (rev pl)) + ?jC) s buf others"
    using ok by (simp add: t rev_sum_list ac_simps)
  \<comment> \<open>the node\<close>
  define s0 where "s0 = set32 (n + 20) b (set32 (n + 16) a s)"
  note Z = cells_set [OF L sub(1) ok reps(1), of b a, folded s0_def]
  from node_pass [OF L sub(1) Z(4-6) c pok(1) Z(1)] obtain s1 where
    A: "second_pass_node n s0 = Some (Inr (ec EC_SUCCESS, a', b', s1))" "typing_ok r ?kC ?jC s1 buf others"
      "changes buf others (touched ?Q {n}) s0 s1" "agree_on (extent n 16 \<union> extent (n + 40) 32) (kmem s1) (kmem s0)"
      "node_typed (kmem s1) kept (settled s1 buf) ?Q par a b n nm (rev pl)" by (auto simp: f)
  have C1: "changes buf others (touched ?Q {n}) s s1" by (rule changes_trans [OF Z(2) A(3)])
  note l1 = node_links_agree [OF agree_on_trans [OF A(4) Z(3)]]
  note Kc = touched_keeps(1) [OF L n sub(2) disj(1) ok C1]
  \<comment> \<open>its children\<close>
  have cs1: "forest_at (kmem s1) (children (kmem s1) n) cs" "forest_is (kmem s1) kept ?Q n cs (rev ks)"
    unfolding l1 using Kc by (intro forest_at_region [OF at] forest_is_region [OF reps(2)]; auto intro: agree_on_mono)+
  from IH [OF cs1 dist' sub(2) c' pok(2) A(2)] obtain s2 where
    B: "second_pass_children (children (kmem s1) n) a' b' s1 = Some (Inr (ec EC_SUCCESS, s2))" "typing_ok r k j s2 buf others"
      "changes buf others (touched ?Q ?cs) s1 s2" "forest_at (kmem s2) (children (kmem s1) n) cs"
      "forest_typed (kmem s2) kept (settled s2 buf) ?Q n a' b' cs (rev ks)" by blast
  note Kn = touched_keeps [OF L sub(2) n disj(2) A(2) B(3)]
  have e72: "agree_on (extent n 72) (kmem s2) (kmem s1)" using region_node [of n "{n}" ?Q] by (intro agree_on_mono [OF Kn(1)]) blast
  note l2 = node_fields_agree(6,7) [OF e72]
  have "\<forall>p \<in> set (rev pl). length (snd p) < 2 ^ 32" using pok(1) by blast
  from node_typed_agree [OF A(5) c this Kn(2,1)]
  have "forest_typed (kmem s2) kept (settled s2 buf) ?Q par a b (Node n cs Nil_forest) [t]" using B(5) by (simp add: t f)
  moreover have "changes buf others (touched ?Q (insert n ?cs)) s s2"
  proof -
    have "touched ?Q (insert n ?cs) = touched ?Q {n} \<union> touched ?Q ?cs" by (simp add: touched_Un [symmetric])
    then show ?thesis by (intro changes_trans [OF changes_mono [OF C1] changes_mono [OF B(3)]]) blast+
  qed
  moreover have "forest_at (kmem s2) (children (kmem s2) n) cs" "sibling (kmem s2) n = sibling (kmem s) n"
    using B(4) by (simp_all add: l2 l1)
  ultimately show ?thesis using A(1) B(1,2) unfolding s0_def by blast
qed

text \<open>The recursion over the nodes beside each other.\<close>

lemma forest_pass:
  fixes s :: "'a system_scheme"
  assumes L: "laid ns ps kept buf others"
  shows "forest_at (kmem s) p f \<Longrightarrow> forest_is (kmem s) kept (set ps) par f ts \<Longrightarrow> distinct (preorder f) \<Longrightarrow> set (preorder f) \<subseteq> set ns \<Longrightarrow>
    a \<le> 2 \<Longrightarrow> b \<le> 2 \<Longrightarrow> \<forall>t \<in> set ts. tree_typed a b t \<and> tree_sized t \<Longrightarrow>
    typing_ok r (sum_list (map tree_cost ts) + k) (sum_list (map tree_handles ts) + j) s buf others \<Longrightarrow>
    \<exists>s'. second_pass_children p a b s = Some (Inr (ec EC_SUCCESS, s')) \<and> typing_ok r k j s' buf others \<and>
      changes buf others (touched (set ps) (set (preorder f))) s s' \<and> forest_at (kmem s') p f \<and>
      forest_typed (kmem s') kept (settled s' buf) (set ps) par a b f ts"
proof (induction f arbitrary: p par ts a b s k j)
  case Nil_forest
  have "second_pass_children 0 a b s = Some (Inr (ec EC_SUCCESS, s))" by (subst second_pass_children.simps) simp
  then show ?case using Nil_forest changes_refl by (intro exI [of _ s]) simp
next
  case (Node n cs ss)
  let ?Q = "set ps" and ?ss = "set (preorder ss)" and ?nc = "insert n (set (preorder cs))"
  obtain t ts' where ts: "ts = t # ts'" using Node.prems(2) by (cases ts) auto
  have at: "p = n" "n \<noteq> 0" "forest_at (kmem s) (children (kmem s) n) cs" "forest_at (kmem s) (sibling (kmem s) n) ss"
    using Node.prems(1) by simp_all
  have reps: "forest_is (kmem s) kept ?Q par (Node n cs Nil_forest) [t]" "forest_is (kmem s) kept ?Q par ss ts'"
    using Node.prems(2) by (simp_all add: ts)
  have sub: "n \<in> set ns" "set (preorder cs) \<subseteq> set ns" "?nc \<subseteq> set ns" "?ss \<subseteq> set ns" and disj: "?nc \<inter> ?ss = {}" "?ss \<inter> ?nc = {}"
    and dist: "distinct (n # preorder cs)" "distinct (preorder ss)" using Node.prems(3,4) by auto
  have ty: "tree_typed a b t" "tree_sized t" "\<forall>t \<in> set ts'. tree_typed a b t \<and> tree_sized t" using Node.prems(7) by (simp_all add: ts)
  have ok: "typing_ok r (tree_cost t + (sum_list (map tree_cost ts') + k)) (tree_handles t + (sum_list (map tree_handles ts') + j)) s buf others"
    using Node.prems(8) by (simp add: ts add.assoc)
  from subtree_pass [OF L Node.IH(1) at(3) reps(1) dist(1) sub(1,2) Node.prems(5,6) ty(1,2) ok] obtain s1 a' b' s2 where
    A: "second_pass_node n (set32 (n + 20) b (set32 (n + 16) a s)) = Some (Inr (ec EC_SUCCESS, a', b', s1))"
      "second_pass_children (children (kmem s1) n) a' b' s1 = Some (Inr (ec EC_SUCCESS, s2))"
      "typing_ok r (sum_list (map tree_cost ts') + k) (sum_list (map tree_handles ts') + j) s2 buf others"
      "changes buf others (touched ?Q ?nc) s s2" "forest_at (kmem s2) (children (kmem s2) n) cs" "sibling (kmem s2) n = sibling (kmem s) n"
      "forest_typed (kmem s2) kept (settled s2 buf) ?Q par a b (Node n cs Nil_forest) [t]" by blast
  have Ks: "agree_on (region ?Q ?ss \<union> covered kept) (kmem s2) (kmem s)"
    by (rule agree_on_mono [OF touched_keeps(1) [OF L sub(3,4) disj(1) ok A(4)]]) blast
  have ss2: "forest_at (kmem s2) (sibling (kmem s2) n) ss" "forest_is (kmem s2) kept ?Q par ss ts'"
    unfolding A(6) by (rule forest_at_region [OF at(4) Ks], rule forest_is_region [OF reps(2) Ks])
  from Node.IH(2) [OF ss2 dist(2) sub(4) Node.prems(5,6) ty(3) A(3)] obtain s3 where
    D: "second_pass_children (sibling (kmem s2) n) a b s2 = Some (Inr (ec EC_SUCCESS, s3))" "typing_ok r k j s3 buf others"
      "changes buf others (touched ?Q ?ss) s2 s3" "forest_at (kmem s3) (sibling (kmem s2) n) ss"
      "forest_typed (kmem s3) kept (settled s3 buf) ?Q par a b ss ts'" by blast
  note K = touched_keeps [OF L sub(4,3) disj(2) A(3) D(3)]
  have run: "second_pass_children p a b s = Some (Inr (ec EC_SUCCESS, s3))"
    using at(1,2) A(1,2) D(1) by (subst second_pass_children.simps) simp
  have ch: "changes buf others (touched ?Q (set (preorder (Node n cs ss)))) s s3"
  proof -
    have "touched ?Q (set (preorder (Node n cs ss))) = touched ?Q ?nc \<union> touched ?Q ?ss"
      by (simp add: touched_Un [symmetric])
    then show ?thesis by (intro changes_trans [OF changes_mono [OF A(4)] changes_mono [OF D(3)]]) blast+
  qed
  have "forest_typed (kmem s3) kept (settled s3 buf) ?Q par a b (Node n cs Nil_forest) [t]"
    by (rule forest_typed_agree [OF A(7) Node.prems(5,6) _ K(2)]) (use ty K(1) in simp_all)
  moreover have "forest_at (kmem s3) p (Node n cs ss)"
  proof -
    have "agree_on (extent n 72) (kmem s3) (kmem s2)" using region_node [of n ?nc ?Q] by (intro agree_on_mono [OF K(1)]) blast
    note l3 = node_fields_agree(6,7) [OF this]
    have "agree_on (region ?Q (set (preorder cs)) \<union> {}) (kmem s3) (kmem s2)"
      using region_mono [of "set (preorder cs)" ?nc ?Q] by (intro agree_on_mono [OF K(1)]) blast
    then have "forest_at (kmem s3) (children (kmem s2) n) cs" by (rule forest_at_region [OF A(5)])
    then show ?thesis using at(1,2) D(4) by (simp add: l3)
  qed
  ultimately show ?case using run D(2,5) ch by (intro exI [of _ s3]) (simp add: ts)
qed

text \<open>The pass over a whole tree, started as the parser starts it.\<close>

lemma root_pass:
  fixes s :: "'a system_scheme"
  assumes L: "laid ns ps kept buf others" and ok: "typing_ok r (tree_cost t + k) (tree_handles t + j) s buf others"
    and at: "forest_at (kmem s) n (Node n cs Nil_forest)" and tree: "forest_is (kmem s) kept (set ps) 0 (Node n cs Nil_forest) [t]"
    and dist: "distinct (preorder (Node n cs Nil_forest))" and sub: "set (preorder (Node n cs Nil_forest)) \<subseteq> set ns"
    and c: "a \<le> 2" "b \<le> 2" and ty: "tree_typed a b t" "tree_sized t"
  shows "\<exists>s'. device_tree_second_pass_properties n (set32 (n + 20) b (set32 (n + 16) a s)) = Some (Inr (ec EC_SUCCESS, s')) \<and>
    typing_ok r k j s' buf others \<and> changes buf others (touched (set ps) (set (preorder (Node n cs Nil_forest)))) s s' \<and>
    forest_at (kmem s') n (Node n cs Nil_forest) \<and> forest_typed (kmem s') kept (settled s' buf) (set ps) 0 a b (Node n cs Nil_forest) [t]"
proof -
  have A: "n \<noteq> 0" "forest_at (kmem s) (children (kmem s) n) cs" "sibling (kmem s) n = 0" "distinct (n # preorder cs)" "n \<in> set ns"
    "set (preorder cs) \<subseteq> set ns" using at dist sub by simp_all
  from subtree_pass [OF L forest_pass [OF L] A(2) tree A(4-6) c ty ok] obtain s1 a' b' s' where
    B: "second_pass_node n (set32 (n + 20) b (set32 (n + 16) a s)) = Some (Inr (ec EC_SUCCESS, a', b', s1))"
      "second_pass_children (children (kmem s1) n) a' b' s1 = Some (Inr (ec EC_SUCCESS, s'))" "typing_ok r k j s' buf others"
      "changes buf others (touched (set ps) (insert n (set (preorder cs)))) s s'" "forest_at (kmem s') (children (kmem s') n) cs"
      "sibling (kmem s') n = sibling (kmem s) n" "forest_typed (kmem s') kept (settled s' buf) (set ps) 0 a b (Node n cs Nil_forest) [t]" by blast
  then show ?thesis using A(1,3) by (intro exI [of _ s']) (simp add: device_tree_second_pass_properties_def)
qed

end
