(* ===== verification/Parse_Blob.thy ===== *)
theory Parse_Blob
  imports Tree_Pass
begin

text \<open>
  \<^verbatim>\<open>device_tree_parse_blob\<close> as a whole: on a blob that encodes a tree of typed properties it returns
  without an error, and the tree it leaves in memory is that tree, decoded.
\<close>

section \<open>The first pass beside the bump allocator's pages\<close>

text \<open>Who owns the properties and where their text lies are facts about the same lists.\<close>

lemma forest_is_merge:
  "forest_is m kept Q par f ts \<Longrightarrow> forest_is m kept' Q' par f ts \<Longrightarrow> forest_is m kept Q' par f ts"
proof (induction f arbitrary: par ts)
  case (Node n cs ss)
  obtain t ts' where ts: "ts = t # ts'" using Node.prems(1) by (cases ts) auto
  have A: "node_is m kept Q par n (tree_name t) (rev (tree_props t))" "node_is m kept' Q' par n (tree_name t) (rev (tree_props t))"
    using Node.prems by (simp_all add: ts)
  obtain qs where qs: "chain 48 m (properties m n) qs" "list_all2 (prop_is m kept) qs (rev (tree_props t))"
    using A(1) by (auto simp: node_is_def props_are_def)
  obtain qs' where qs': "chain 48 m (properties m n) qs'" "\<forall>q \<in> set qs'. (q, n) \<in> Q'" using A(2) by (auto simp: node_is_def props_are_def)
  have "qs' = qs" by (rule chain_unique [OF qs'(1) qs(1)])
  then have "props_are m kept Q' n (rev (tree_props t))" using qs qs'(2) by (auto simp: props_are_def)
  then have "node_is m kept Q' par n (tree_name t) (rev (tree_props t))" using A(1) by (simp add: node_is_def)
  moreover have "forest_is m kept Q' n cs (rev (tree_kids t))" "forest_is m kept Q' par ss ts'"
    using Node.IH Node.prems by (simp_all add: ts)
  ultimately show ?case by (simp add: ts)
qed simp

lemma forest_at_unique: "forest_at m p f \<Longrightarrow> forest_at m p g \<Longrightarrow> f = g"
proof (induction f arbitrary: p g)
  case Nil_forest
  then show ?case by (cases g) auto
next
  case (Node n cs ss)
  then show ?case by (cases g) auto
qed

lemma text_at_mono: "text_at m kept a d \<Longrightarrow> covered kept \<subseteq> covered kept' \<Longrightarrow> text_at m kept' a d"
  by (auto simp: text_at_def)

lemma string_known_mono: "string_known m kept strings strs n \<Longrightarrow> covered kept \<subseteq> covered kept' \<Longrightarrow> string_known m kept' strings strs n"
  using text_at_mono by (auto simp: string_known_def)

lemma roomy_append: "roomy s (xs @ kept) \<Longrightarrow> roomy s kept"
  by (induction xs) (auto dest: roomy_drop)

text \<open>The blob and the literal in \<open>kept\<close>, other memory in use in \<open>others\<close>.\<close>

lemma first_pass_beside:
  fixes s :: "'a system_scheme"
  assumes room: "roomy s (others @ kept)" and fresh: "node_arena (dt s) = slab_autorefill_init 72" "property_arena (dt s) = slab_autorefill_init 56"
    and free: "8192 + r < spare s" and few: "tree_nodes t \<le> 54" "tree_properties t \<le> 70" and root: "tree_name t = []"
    and t: "text_at (kmem s) kept structs (encode_blob strs t)" and st: "tree_ok (string_known (kmem s) kept strings strs) t"
    and lit: "text_at (kmem s) kept (lit_addr s ''/'') (SV ''/'')"
  shows "\<exists>s' ns ps cs. parse_structs structs strings 0 0 0 s = Some (Inr s') \<and>
    tree_built r (54 - tree_nodes t) (70 - tree_properties t) s' ns ps (others @ kept) (Node (root_node (dt s')) cs Nil_forest) t \<and>
    forest_is (kmem s') kept (set ps) 0 (Node (root_node (dt s')) cs Nil_forest) [rooted t] \<and>
    agree_on (covered (others @ kept)) (kmem s') (kmem s) \<and> parser_root s s'"
proof -
  have ok: "parse_ok r (tree_nodes t + (54 - tree_nodes t)) (tree_properties t + (70 - tree_properties t)) s [] [] (others @ kept)"
    "parse_ok r (tree_nodes t + (54 - tree_nodes t)) (tree_properties t + (70 - tree_properties t)) s [] [] kept"
    using fresh_parse_ok [OF room fresh free] fresh_parse_ok [OF roomy_append [OF room] fresh free] few by simp_all
  have sub: "covered kept \<subseteq> covered (others @ kept)" by simp
  have st': "tree_ok (string_known (kmem s) (others @ kept) strings strs) t" by (rule tree_ok_mono [OF st string_known_mono [OF _ sub]])
  have i: "tree_nodes t + (54 - tree_nodes t) < 2 ^ 63" using few by simp
  from parse_structs_reads [OF ok(1) i text_at_mono [OF t sub] st' text_at_mono [OF lit sub]] obtain s' ns ps n cs where
    A: "parse_structs structs strings 0 0 0 s = Some (Inr s')"
      "tree_built r (54 - tree_nodes t) (70 - tree_properties t) s' ns ps (others @ kept) (Node n cs Nil_forest) t"
      "root_node (dt s') = n" "agree_on (covered (others @ kept)) (kmem s') (kmem s)" "parser_root s s'" unfolding root by auto
  from parse_structs_reads [OF ok(2) i t st lit] obtain ps2 cs2 where
    B: "forest_at (kmem s') n (Node n cs2 Nil_forest)" "forest_is (kmem s') kept (set ps2) 0 (Node n cs2 Nil_forest) [rooted t]"
    using A(1,3) unfolding root tree_built_def by auto
  have C: "forest_at (kmem s') n (Node n cs Nil_forest)" "forest_is (kmem s') (others @ kept) (set ps) 0 (Node n cs Nil_forest) [rooted t]"
    using A(2) by (simp_all add: tree_built_def)
  have "Node n cs2 Nil_forest = Node n cs Nil_forest" by (rule forest_at_unique [OF B(1) C(1)])
  then have "forest_is (kmem s') kept (set ps) 0 (Node n cs Nil_forest) [rooted t]" using forest_is_merge [OF B(2)] C(2) by simp
  then show ?thesis using A by blast
qed

section \<open>The state between the passes\<close>

lemma between_passes:
  fixes s :: "'a system_scheme"
  assumes built: "tree_built (4096 + r) i j s ns ps (((buf, 8192) # aside) @ kept) f t" and con: "console s" and buf: "buf \<noteq> 0" "unat buf + 8192 < 2 ^ 64"
    and bump: "dt_bump (dt s) = \<lparr>current = buf, used_list = 0\<rparr>" "br_end (kmem s) buf = buf + 8192" "br_offset (kmem s) buf = buf + 24"
    and arena: "phandlemap_arena (dt s) = slab_autorefill_init 24"
  shows "\<exists>pages. covered (built ns ps) \<subseteq> covered pages \<and> typing_ok r 8168 (page_blocks 24) s buf (pages @ (buf, 8192) # aside @ kept) \<and>
    laid ns ps (aside @ kept) buf (pages @ (buf, 8192) # aside @ kept) \<and> laid ns ps kept buf (pages @ (buf, 8192) # aside @ kept)"
proof -
  obtain pn pp where R: "roomy s (pn @ pp @ (buf, 8192) # aside @ kept)" "page_need pn + page_need pp + (4096 + r) < spare s"
    and N: "paged i (node_arena (dt s)) (kmem s) (spans 72 ns) pn" and P: "paged j (property_arena (dt s)) (kmem s) (spans 56 (map fst ps)) pp"
    and ap: "all_apart (built ns ps @ (buf, 8192) # aside @ kept)"
    using built parse_ok_apart by (fastforce simp: tree_built_def parse_ok_def)
  let ?others = "(pn @ pp) @ (buf, 8192) # aside @ kept"
  have "unat (buf + 24) = unat buf + 24" using buf(2) unat_add_eq [of buf 24] by simp
  then have "bump_ok 8168 s buf" using bump buf by (simp add: bump_ok_def)
  moreover have "paged (page_blocks 24) (slab_autorefill_init 24) (kmem s) (spans 24 []) []" "block_size (slab_autorefill_init 24) = 24"
    using paged_init [of 24 "page_blocks 24"] by simp_all
  ultimately have "typing_ok r 8168 (page_blocks 24) s buf ?others"
    using con R unfolding typing_ok_def arena by (intro conjI exI [of _ "[]"]) (simp_all add: page_need_def, blast)
  moreover have L: "laid ns ps (aside @ kept) buf ?others"
    using ap paged_live(1) [OF N] paged_live(1) [OF P] by (auto simp: laid_def built_def simp del: all_apart.simps)
  moreover have "laid ns ps kept buf ?others"
  proof -
    have "all_apart (built ns ps @ (buf, 8192) # kept)" using ap
      by (auto simp: all_apart_append_covered all_apart_Cons_covered simp del: all_apart.simps)
    then show ?thesis using L by (auto simp: laid_def)
  qed
  moreover have "covered (built ns ps) \<subseteq> covered (pn @ pp)" using paged_live(1) [OF N] paged_live(1) [OF P] by (auto simp: built_def)
  ultimately show ?thesis by (intro exI [of _ "pn @ pp"]) blast
qed

section \<open>What the driver initialisation needs of the tree\<close>

text \<open>Names without a brace, as the kernel uses the names of nodes as formats.\<close>

fun tree_plain :: "dtree \<Rightarrow> bool" where
  "tree_plain (DNode nm pl ks) \<longleftrightarrow> chr CHR ''{'' \<notin> set nm \<and> (\<forall>k \<in> set ks. tree_plain k)"

lemma view_is_kept: "view_is m kept v bs \<Longrightarrow> covered kept \<subseteq> covered kept' \<Longrightarrow> view_kept kept' v"
  by (auto simp: view_is_def view_kept_def text_at_def unat_of_nat_eq)

lemma node_typed_device_ok:
  assumes t: "node_typed m kept S Q par a b n nm pl" and n: "n \<noteq> 0" "extent n 72 \<subseteq> covered kept'"
    and S: "S \<subseteq> covered kept'" and K: "covered kept \<subseteq> covered kept'" and Q: "\<forall>q \<in> fst ` Q. extent q 56 \<subseteq> covered kept'"
    and nm: "chr CHR ''{'' \<notin> set nm"
  shows "device_ok m kept' n"
proof -
  let ?ss = "fold strings_step pl []"
  have v: "view_is m kept (node_name m n) nm" and c: "node_compat m kept S n ?ss" using t by (simp_all add: node_typed_def)
  obtain qs where qs: "chain 48 m (properties m n) qs" "\<forall>q \<in> set qs. (q, n) \<in> Q" "list_all2 (prop_typed m kept S a b) qs pl"
    using t by (auto simp: node_typed_def)
  have cnt: "unat (compatible_count m n) = length ?ss" using c by (simp add: node_compat_def unat_of_nat_eq)
  have l: "length ?ss < 2 ^ 40" "extent (compatible m n) (16 * length ?ss) \<subseteq> S"
    "\<forall>i < length ?ss. view_is m kept (sv_at m (compatible m n + 16 * of_nat i)) (?ss ! i)" using c by (simp_all add: node_compat_def)
  have "node_kept m kept' n" unfolding node_kept_def cnt using n l(1,2) S by simp
  moreover have "\<forall>x \<in> set (compatibles m n). view_kept kept' x"
    using l(3) view_is_kept [OF _ K] by (auto simp: compatibles_def cnt)
  moreover have "view_kept kept' (prop_name m q)" if q: "q \<in> set qs" for q
  proof -
    obtain i where i: "i < length qs" "q = qs ! i" using q by (metis in_set_conv_nth)
    have "prop_typed m kept S a b q (pl ! i)" using list_all2_nthD [OF qs(3) i(1)] i(2) by simp
    then have "view_is m kept (prop_name m q) (fst (pl ! i))" by (cases "pl ! i") simp
    then show ?thesis by (rule view_is_kept [OF _ K])
  qed
  moreover have "extent q 56 \<subseteq> covered kept'" if "q \<in> set qs" for q using qs(2) Q that by force
  ultimately show ?thesis unfolding device_ok_def view_is_bytes [OF v]
    using nm qs(1) view_is_kept [OF v K] by (intro conjI exI [of _ qs]) simp_all
qed

lemma forest_typed_device_ok:
  assumes "forest_typed m kept S Q par a b f ts" and "\<forall>n \<in> set (preorder f). n \<noteq> 0 \<and> extent n 72 \<subseteq> covered kept'"
    and "S \<subseteq> covered kept'" and "covered kept \<subseteq> covered kept'" and "\<forall>q \<in> fst ` Q. extent q 56 \<subseteq> covered kept'"
    and "\<forall>t \<in> set ts. tree_plain t"
  shows "\<forall>n \<in> set (preorder f). device_ok m kept' n"
  using assms
proof (induction f arbitrary: par a b ts)
  case (Node n cs ss)
  obtain t ts' where ts: "ts = t # ts'" using Node.prems(1) by (cases ts) auto
  obtain nm pl ks where t: "t = DNode nm pl ks" by (cases t)
  obtain a' b' where f: "fold cells_step (rev pl) (a, b) = (a', b')" by (cases "fold cells_step (rev pl) (a, b)")
  have T: "node_typed m kept S Q par a b n nm (rev pl)" "forest_typed m kept S Q n a' b' cs (rev ks)" "forest_typed m kept S Q par a b ss ts'"
    using Node.prems(1) by (simp_all add: ts t f)
  have p: "chr CHR ''{'' \<notin> set nm" "\<forall>k \<in> set (rev ks). tree_plain k" "\<forall>t \<in> set ts'. tree_plain t"
    using Node.prems(6) by (simp_all add: ts t)
  have "device_ok m kept' n" using Node.prems(2) by (intro node_typed_device_ok [OF T(1) _ _ Node.prems(3-5) p(1)]) simp_all
  moreover have "\<forall>n \<in> set (preorder cs). device_ok m kept' n"
    using Node.prems(2) by (intro Node.IH(1) [OF T(2) _ Node.prems(3-5) p(2)]) simp
  moreover have "\<forall>n \<in> set (preorder ss). device_ok m kept' n"
    using Node.prems(2) by (intro Node.IH(2) [OF T(3) _ Node.prems(3-5) p(3)]) simp
  ultimately show ?case by auto
qed simp

section \<open>The parser\<close>

text \<open>
  A blob in memory: its header, a reservation map that ends at once, the structure block that encodes
  \<open>t\<close>, and the strings block.
\<close>

definition blob_in :: "mem \<Rightarrow> (addr \<times> nat) list \<Rightarrow> addr \<Rightarrow> (u8 list \<Rightarrow> u32) \<Rightarrow> dtree \<Rightarrow> bool" where
  "blob_in m kept blob strs t \<longleftrightarrow> blob \<noteq> 0 \<and> extent blob 40 \<subseteq> covered kept \<and> READ_BIG_ENDIAN_U32 m blob = DEVICE_TREE_BLOB_MAGIC \<and>
     (let rsvmap = blob + ucast (READ_BIG_ENDIAN_U32 m (blob + 16)); structs = blob + ucast (READ_BIG_ENDIAN_U32 m (blob + 8));
          strings = blob + ucast (READ_BIG_ENDIAN_U32 m (blob + 12))
      in extent rsvmap 16 \<subseteq> covered kept \<and> (load64 m rsvmap = 0 \<or> load64 m (rsvmap + 8) = 0) \<and>
        text_at m kept structs (encode_blob strs t) \<and> tree_ok (string_known m kept strings strs) t)"

text \<open>What fits: the root is nameless, the values have the form of their kinds, and the arenas' pages are enough.\<close>

definition tree_fits :: "dtree \<Rightarrow> bool" where
  "tree_fits t \<longleftrightarrow> tree_name t = [] \<and> tree_nodes t \<le> 54 \<and> tree_properties t \<le> 70 \<and> tree_cost t \<le> 8168 \<and>
     tree_handles t \<le> page_blocks 24 \<and> tree_typed DEFAULT_ADDRESS_CELLS DEFAULT_SIZE_CELLS t"

lemma blob_in_agree:
  assumes b: "blob_in m kept blob strs t" and ag: "agree_on (covered kept) m' m"
  shows "blob_in m' kept blob strs t" and "READ_BIG_ENDIAN_U32 m' blob = READ_BIG_ENDIAN_U32 m blob"
    and "READ_BIG_ENDIAN_U32 m' (blob + 8) = READ_BIG_ENDIAN_U32 m (blob + 8)"
    and "READ_BIG_ENDIAN_U32 m' (blob + 12) = READ_BIG_ENDIAN_U32 m (blob + 12)"
    and "READ_BIG_ENDIAN_U32 m' (blob + 16) = READ_BIG_ENDIAN_U32 m (blob + 16)"
proof -
  have h: "extent blob 40 \<subseteq> covered kept" using b by (simp add: blob_in_def)
  have r: "READ_BIG_ENDIAN_U32 m' (blob + k) = READ_BIG_ENDIAN_U32 m (blob + k)" if "unat k + 4 \<le> 40" for k
    using extent_field [OF that, of blob] h load32_agree [OF ag, of "blob + k"] by (auto simp: READ_BIG_ENDIAN_U32_def)
  show R: "READ_BIG_ENDIAN_U32 m' blob = READ_BIG_ENDIAN_U32 m blob" "READ_BIG_ENDIAN_U32 m' (blob + 8) = READ_BIG_ENDIAN_U32 m (blob + 8)"
    "READ_BIG_ENDIAN_U32 m' (blob + 12) = READ_BIG_ENDIAN_U32 m (blob + 12)" "READ_BIG_ENDIAN_U32 m' (blob + 16) = READ_BIG_ENDIAN_U32 m (blob + 16)"
    using r [of 0] by (simp_all add: r)
  define rsv where "rsv = blob + ucast (READ_BIG_ENDIAN_U32 m (blob + 16))"
  have "extent rsv 16 \<subseteq> covered kept" using b by (simp add: blob_in_def Let_def rsv_def)
  moreover have "extent rsv 8 \<subseteq> extent rsv 16" "extent (rsv + 8) 8 \<subseteq> extent rsv 16" by (simp_all add: extent_mono extent_field)
  ultimately have "load64 m' rsv = load64 m rsv" "load64 m' (rsv + 8) = load64 m (rsv + 8)" by (blast intro: load64_agree [OF ag])+
  moreover have "tree_ok (string_known m kept x strs) t \<Longrightarrow> tree_ok (string_known m' kept x strs) t" for x
    by (erule tree_ok_mono) (erule string_known_agree [OF _ ag])
  ultimately show "blob_in m' kept blob strs t" using b text_at_agree [OF _ ag] unfolding blob_in_def Let_def R rsv_def by simp
qed

text \<open>The state the passes start in, with two pages for the bump allocator.\<close>

lemma parse_blob_begun:
  fixes s :: "'a system_scheme"
  assumes room: "roomy s kept" and hh: "2 ^ 14 \<le> unat (hhdm_offset s)" and free: "8192 + r < spare s"
  defines "s0 \<equiv> s\<lparr>dt := (dt s)\<lparr>node_arena := slab_autorefill_init 72, property_arena := slab_autorefill_init 56,
                  reserved_arena := slab_autorefill_init 24, phandlemap_arena := slab_autorefill_init 24,
                  dt_bump := bump_initialize\<rparr>\<rparr>"
  shows "\<exists>b s1 m. kalloc (2 * PAGE_SIZE) PAGE_SIZE s0 = Inr (b, s1) \<and> alloc_buffer b \<noteq> 0 \<and> unat (alloc_buffer b) + 8192 < 2 ^ 64 \<and>
    bump_grow (dt_bump (dt s1)) (alloc_buffer b) (alloc_size b) (kmem s1) = Inr (\<lparr>current = alloc_buffer b, used_list = 0\<rparr>, m) \<and>
    roomy (s1\<lparr>kmem := m\<rparr>) ((alloc_buffer b, 8192) # kept) \<and> agree_on (covered kept) m (kmem s) \<and> r < spare s1 \<and>
    br_offset m (alloc_buffer b) = alloc_buffer b + 24 \<and> br_end m (alloc_buffer b) = alloc_buffer b + 8192 \<and> allocator_only s0 s1"
proof -
  have r0: "roomy s0 kept" using room roomy_same [of s s0] by (simp add: s0_def manager_same_def)
  have n: "ALIGN_UP (2 * PAGE_SIZE) PAGE_SIZE = 8192" "(2 :: u64) ^ 12 = PAGE_SIZE" by (simp_all add: ALIGN_UP_def)
  have req: "pmm_request_ok (hhdm_offset s0) 12 (ALIGN_UP (2 * PAGE_SIZE) PAGE_SIZE)"
    unfolding n using hh by (simp add: pmm_request_ok_def s0_def)
  have "0 < spare s0" using free by (simp add: s0_def spare_def)
  then obtain b s1 where k: "kalloc (2 * PAGE_SIZE) PAGE_SIZE s0 = Inr (b, s1)" using roomy_kalloc [OF r0 req] unfolding n by auto
  let ?q = "alloc_buffer b"
  have k': "kalloc (2 * PAGE_SIZE) (2 ^ 12) s0 = Inr (b, s1)" using k unfolding n .
  note K = kvspace_kalloc [OF roomy_kvspace [OF r0] req k', unfolded n]
  have q: "?q \<noteq> 0" "unat ?q + 8192 < 2 ^ 64" "alloc_size b = 8192" using K(2) by simp_all
  have r1: "roomy s1 ((?q, 8192) # kept)" using roomy_kalloc_kept [OF r0 req k] unfolding n by simp
  define m where "m = store64 (store64 (store64 (kmem s1) ?q (?q + 24)) (?q + 8) (?q + 24 + (8192 - 24))) (?q + 16) 0"
  have nw: "unat ?q + unat (8192 :: u64) < 2 ^ 64" using q(2) by simp
  note H = bump_grow_header [OF q(1) _ nw, of "kmem s1", folded m_def]
  have ao: "allocator_only s0 s1" by (rule kalloc_only [OF k])
  then have "dt_bump (dt s1) = bump_initialize" by (auto simp: allocator_only_def s0_def)
  then have g: "bump_grow (dt_bump (dt s1)) ?q (alloc_size b) (kmem s1) = Inr (\<lparr>current = ?q, used_list = 0\<rparr>, m)"
    using q(1) by (simp add: q(3) bump_grow_def bump_initialize_def insert_into_sorted_list_def sizeof_bump_region_def Let_def m_def)
  have e: "extent ?q 24 \<subseteq> extent ?q 8192" by (rule extent_mono) simp
  have "roomy (s1\<lparr>kmem := m\<rparr>) ((?q, 8192) # kept)" using e by (intro rpages.kinv_frame [OF r1] agree_on_mono [OF H(3)]) auto
  moreover have "agree_on (covered kept) m (kmem s)"
  proof -
    have "extent ?q 8192 \<inter> covered kept = {}" using rpages.kinv_apart [OF r1] by (simp only: all_apart_Cons_covered fst_conv snd_conv)
    then have "agree_on (covered kept) m (kmem s1)" using e by (intro agree_on_mono [OF H(3)]) auto
    moreover have "agree_on (covered kept) (kmem s1) (kmem s)" using K(3) by (simp add: s0_def)
    ultimately show ?thesis by (rule agree_on_trans)
  qed
  moreover have "r < spare s1"
  proof -
    have "spare s0 \<le> spare s1 + unat (ALIGN_UP (2 * PAGE_SIZE) PAGE_SIZE)" by (rule spare_kalloc [OF roomy_kvspace [OF r0] req k])
    moreover have "spare s0 = spare s" by (simp add: s0_def spare_def)
    ultimately show ?thesis using free unfolding n by simp
  qed
  ultimately show ?thesis using k q g H(1,2) ao by (intro exI [of _ b] exI [of _ s1] exI [of _ m]) simp
qed

lemma parser_rootE:
  assumes "parser_root s s'"
  obtains m ba rg fb na pa x where "s' = s\<lparr>kmem := m, block_arena := ba, regions := rg, free_bytes := fb,
     dt := (dt s)\<lparr>node_arena := na, property_arena := pa, root_node := x\<rparr>\<rparr>"
proof -
  obtain x where "parser_only (s\<lparr>dt := (dt s)\<lparr>root_node := x\<rparr>\<rparr>) s'" using assms by (auto simp: parser_root_def)
  then obtain m ba rg fb na pa where "s' = (s\<lparr>dt := (dt s)\<lparr>root_node := x\<rparr>\<rparr>)\<lparr>kmem := m, block_arena := ba, regions := rg, free_bytes := fb,
     dt := (dt (s\<lparr>dt := (dt s)\<lparr>root_node := x\<rparr>\<rparr>))\<lparr>node_arena := na, property_arena := pa\<rparr>\<rparr>" by (rule parser_onlyE)
  then have "s' = s\<lparr>kmem := m, block_arena := ba, regions := rg, free_bytes := fb,
     dt := (dt s)\<lparr>node_arena := na, property_arena := pa, root_node := x\<rparr>\<rparr>" by simp
  then show thesis by (rule that)
qed

lemma tree_typed_rooted [simp]: "tree_typed a b (rooted t) = tree_typed a b t" "tree_sized (rooted t) = tree_sized t"
  "tree_cost (rooted t) = tree_cost t" "tree_handles (rooted t) = tree_handles t"
  by (cases t, simp)+

text \<open>What the parser can change of the state.\<close>

definition parsed_only :: "'a system_scheme \<Rightarrow> 'a system_scheme \<Rightarrow> bool" where
  "parsed_only s s' \<longleftrightarrow> s' = s\<lparr>kmem := kmem s', io_events := io_events s', print_buf := print_buf s', block_arena := block_arena s',
     regions := regions s', free_bytes := free_bytes s', dt := dt s'\<rparr>"

definition blob_parsed :: "nat \<Rightarrow> (addr \<times> nat) list \<Rightarrow> (addr \<times> nat) list \<Rightarrow> dtree \<Rightarrow> forest \<Rightarrow> 'a system_scheme \<Rightarrow> 'a system_scheme \<Rightarrow> bool" where
  "blob_parsed r aside kept t f s s' \<longleftrightarrow> (\<exists>n cs pages S Q. f = Node n cs Nil_forest \<and> root_node (dt s') = n \<and> forest_at (kmem s') n f \<and>
     distinct (preorder f) \<and> forest_typed (kmem s') kept S Q 0 DEFAULT_ADDRESS_CELLS DEFAULT_SIZE_CELLS f [rooted t] \<and>
     roomy s' (aside @ pages @ kept) \<and> S \<union> (\<Union>n \<in> set (preorder f). extent n 72) \<union> (\<Union>q \<in> fst ` Q. extent q 56) \<subseteq> covered pages \<and>
     r < spare s' \<and> console s' \<and> agree_on (covered (aside @ kept)) (kmem s') (kmem s) \<and> parsed_only s s')"

lemma parse_blob_runs:
  fixes s :: "'a system_scheme"
  assumes room: "roomy s (aside @ kept)" and con: "console s" and hh: "2 ^ 14 \<le> unat (hhdm_offset s)" and free: "20480 + r < spare s"
    and blob: "blob_in (kmem s) kept blob strs t" and fits: "tree_fits t" and lit: "text_at (kmem s) kept (lit_addr s ''/'') (SV ''/'')"
  shows "\<exists>s' f. device_tree_parse_blob blob s = Inr (ec EC_SUCCESS, s') \<and> blob_parsed r aside kept t f s s'"
proof -
  define s0 where "s0 = s\<lparr>dt := (dt s)\<lparr>node_arena := slab_autorefill_init 72, property_arena := slab_autorefill_init 56,
                  reserved_arena := slab_autorefill_init 24, phandlemap_arena := slab_autorefill_init 24,
                  dt_bump := bump_initialize\<rparr>\<rparr>"
  have "8192 + (8192 + (4096 + r)) < spare s" using free by simp
  from parse_blob_begun [OF room hh this, folded s0_def] obtain b s1 m where
    B: "kalloc (2 * PAGE_SIZE) PAGE_SIZE s0 = Inr (b, s1)" "alloc_buffer b \<noteq> 0" "unat (alloc_buffer b) + 8192 < 2 ^ 64"
      "bump_grow (dt_bump (dt s1)) (alloc_buffer b) (alloc_size b) (kmem s1) = Inr (\<lparr>current = alloc_buffer b, used_list = 0\<rparr>, m)"
      "roomy (s1\<lparr>kmem := m\<rparr>) ((alloc_buffer b, 8192) # aside @ kept)" "agree_on (covered (aside @ kept)) m (kmem s)" "8192 + (4096 + r) < spare s1"
      "br_offset m (alloc_buffer b) = alloc_buffer b + 24" "br_end m (alloc_buffer b) = alloc_buffer b + 8192" "allocator_only s0 s1" by blast
  let ?q = "alloc_buffer b"
  define s2 where "s2 = s1\<lparr>kmem := m, dt := (dt s1)\<lparr>dt_bump := \<lparr>current = ?q, used_list = 0\<rparr>, reserved_memory := 0, root_node := 0\<rparr>\<rparr>"
  have d1: "dt s1 = dt s0" "put s1 = put s" "print_buf s1 = print_buf s" "lit_addr s1 = lit_addr s" using B(10) by (auto simp: allocator_only_def s0_def)
  have r2: "roomy s2 (((?q, 8192) # aside) @ kept)"
    using B(5) roomy_same [of "s1\<lparr>kmem := m\<rparr>" s2] by (simp add: s2_def manager_same_def)
  have f2: "node_arena (dt s2) = slab_autorefill_init 72" "property_arena (dt s2) = slab_autorefill_init 56"
    "phandlemap_arena (dt s2) = slab_autorefill_init 24" "dt_bump (dt s2) = \<lparr>current = ?q, used_list = 0\<rparr>" "kmem s2 = m"
    by (simp_all add: s2_def d1 s0_def)
  have sp2: "8192 + (4096 + r) < spare s2" using B(7) by (simp add: s2_def spare_def)
  have con2: "console s2" using con d1 by (simp add: s2_def console_def print_buf_ok_def)
  have ag2: "agree_on (covered kept) m (kmem s)" by (rule agree_on_mono [OF B(6)]) simp
  have blob2: "blob_in m kept blob strs t" by (rule blob_in_agree(1) [OF blob ag2])
  have lit2: "text_at (kmem s2) kept (lit_addr s2 ''/'') (SV ''/'')" using text_at_agree [OF lit ag2] by (simp add: s2_def d1)
  note T = tree_fits_def [THEN iffD1, OF fits]
  define structs and strings where "structs = blob + ucast (READ_BIG_ENDIAN_U32 m (blob + 8))" and "strings = blob + ucast (READ_BIG_ENDIAN_U32 m (blob + 12))"
  have tx: "text_at (kmem s2) kept structs (encode_blob strs t)" "tree_ok (string_known (kmem s2) kept strings strs) t"
    using blob2 by (simp_all add: blob_in_def Let_def structs_def strings_def f2)
  from first_pass_beside [OF r2 f2(1,2) sp2 _ _ _ tx lit2] T obtain s3 ns ps cs where
    P: "parse_structs structs strings 0 0 0 s2 = Some (Inr s3)"
      "tree_built (4096 + r) (54 - tree_nodes t) (70 - tree_properties t) s3 ns ps (((?q, 8192) # aside) @ kept) (Node (root_node (dt s3)) cs Nil_forest) t"
      "forest_is (kmem s3) kept (set ps) 0 (Node (root_node (dt s3)) cs Nil_forest) [rooted t]"
      "agree_on (covered (((?q, 8192) # aside) @ kept)) (kmem s3) (kmem s2)" "parser_root s2 s3" by blast
  let ?f = "Node (root_node (dt s3)) cs Nil_forest"
  have at: "forest_at (kmem s3) (root_node (dt s3)) ?f" and dist: "distinct (preorder ?f)" and sub: "set (preorder ?f) \<subseteq> set ns"
    using P(2) by (simp_all add: tree_built_def)
  obtain m3 ba rg fb na pa x where e3: "s3 = s2\<lparr>kmem := m3, block_arena := ba, regions := rg, free_bytes := fb,
     dt := (dt s2)\<lparr>node_arena := na, property_arena := pa, root_node := x\<rparr>\<rparr>" by (rule parser_rootE [OF P(5)])
  have d3: "phandlemap_arena (dt s3) = slab_autorefill_init 24" "dt_bump (dt s3) = \<lparr>current = ?q, used_list = 0\<rparr>" "console s3"
    using f2(3,4) con2 by (simp_all add: e3 console_def print_buf_ok_def)
  have "extent ?q 24 \<subseteq> covered (((?q, 8192) # aside) @ kept)" using extent_mono [of 24 8192 ?q] by auto
  note bf = bump_fields_agree [OF P(4) this]
  from between_passes [OF P(2) d3(3) B(2,3) d3(2) _ _ d3(1)] obtain pages where
    L: "covered (built ns ps) \<subseteq> covered pages" "typing_ok r 8168 (page_blocks 24) s3 ?q (pages @ (?q, 8192) # aside @ kept)"
      "laid ns ps (aside @ kept) ?q (pages @ (?q, 8192) # aside @ kept)" "laid ns ps kept ?q (pages @ (?q, 8192) # aside @ kept)"
    using B(8,9) f2(5) by (auto simp: bf)
  let ?others = "pages @ (?q, 8192) # aside @ kept" and ?n = "root_node (dt s3)"
  have sized: "tree_sized t" by (rule tree_ok_sized [OF tx(2)])
  have "typing_ok r (tree_cost (rooted t) + (8168 - tree_cost t)) (tree_handles (rooted t) + (page_blocks 24 - tree_handles t)) s3 ?q ?others"
    using L(2) T by simp
  from root_pass [OF L(4) this at P(3) dist sub, of DEFAULT_ADDRESS_CELLS DEFAULT_SIZE_CELLS] T sized obtain s5 where
    R: "device_tree_second_pass_properties ?n (set32 (?n + 20) DEFAULT_SIZE_CELLS (set32 (?n + 16) DEFAULT_ADDRESS_CELLS s3)) = Some (Inr (ec EC_SUCCESS, s5))"
      "typing_ok r (8168 - tree_cost t) (page_blocks 24 - tree_handles t) s5 ?q ?others"
      "changes ?q ?others (touched (set ps) (set (preorder ?f))) s3 s5" "forest_at (kmem s5) ?n ?f"
      "forest_typed (kmem s5) kept (settled s5 ?q) (set ps) 0 DEFAULT_ADDRESS_CELLS DEFAULT_SIZE_CELLS ?f [rooted t]" by (auto simp: word_le_nat_alt)
  have to: "typing_only s3 s5" using R(3) by (simp add: changes_def)
  have run: "device_tree_parse_blob blob s = Inr (ec EC_SUCCESS, s5)"
  proof -
    have nz: "blob \<noteq> 0" "?n \<noteq> 0" using blob at by (simp_all add: blob_in_def)
    have mg: "ENDIANNESS_FLIP_U32 (load32 (kmem s) blob) = DEVICE_TREE_BLOB_MAGIC" using blob by (simp add: blob_in_def READ_BIG_ENDIAN_U32_def)
    let ?s = "s1\<lparr>kmem := m, dt := (dt s1)\<lparr>dt_bump := \<lparr>current = ?q, used_list = 0\<rparr>, reserved_memory := 0\<rparr>\<rparr>"
    have rs: "rsvmap_loop (blob + ucast (ENDIANNESS_FLIP_U32 (load32 m (blob + 16)))) ?s = Some (Inr ?s)"
      using blob2 by (subst rsvmap_loop.simps) (simp add: blob_in_def Let_def READ_BIG_ENDIAN_U32_def get64_def, blast)
    have ps: "parse_structs (blob + ucast (ENDIANNESS_FLIP_U32 (load32 m (blob + 8)))) (blob + ucast (ENDIANNESS_FLIP_U32 (load32 m (blob + 12)))) 0 0 0
        (?s\<lparr>dt := (dt ?s)\<lparr>root_node := 0\<rparr>\<rparr>) = Some (Inr s3)"
      using P(1) by (simp add: structs_def strings_def READ_BIG_ENDIAN_U32_def s2_def)
    have dts: "dt (set32 a v u) = dt u" for a v and u :: "'a system_scheme" by (simp add: set32_def)
    show ?thesis using B(1,4) rs ps R(1) nz mg unfolding s0_def
      by (simp add: device_tree_parse_blob_def Let_def get32_def no_hang_def dts)
  qed
  obtain es pg where E: "roomy s5 (pg @ ?others)" "page_need pg + r < spare s5" "console s5" using R(2) by (auto simp: typing_ok_def)
  let ?pages = "pg @ pages @ [(?q, 8192)]"
  have "roomy s5 (aside @ ?pages @ kept)" by (rule roomy_perm [OF E(1)]) simp
  moreover have "settled s5 ?q \<union> (\<Union>n \<in> set (preorder ?f). extent n 72) \<union> (\<Union>q \<in> fst ` set ps. extent q 56) \<subseteq> covered ?pages"
  proof -
    have "settled s5 ?q \<subseteq> extent ?q 8192" using bump_areas(1) [OF R(2)] by blast
    moreover have "(\<Union>n \<in> set (preorder ?f). extent n 72) \<union> (\<Union>q \<in> fst ` set ps. extent q 56) \<subseteq> covered (built ns ps)"
      using sub by (auto simp: built_def covered_spans)
    ultimately show ?thesis using L(1) by auto
  qed
  moreover have "agree_on (covered (aside @ kept)) (kmem s5) (kmem s)"
  proof -
    have "touched (set ps) (set (preorder ?f)) \<inter> (extent ?q 8192 \<union> covered (aside @ kept)) = {}"
      using laid_region(2) [OF L(3) sub] touched_region [of "set ps" "set (preorder ?f)"] by blast
    from changes_keep(1) [OF L(3,2) R(3) this] have "agree_on (covered (aside @ kept)) (kmem s5) (kmem s3)" by (rule agree_on_mono) simp
    moreover have "agree_on (covered (aside @ kept)) (kmem s3) m" using P(4) unfolding f2(5) by (rule agree_on_mono) auto
    ultimately show ?thesis using B(6) by (blast intro: agree_on_trans)
  qed
  moreover have "parsed_only s s5"
  proof -
    obtain m1 ba1 rg1 fb1 where e1: "s1 = s0\<lparr>kmem := m1, block_arena := ba1, regions := rg1, free_bytes := fb1\<rparr>"
      using B(10) by (auto simp: allocator_only_def)
    obtain m5 ev pb ba5 rg5 fb5 pa5 db pm where e5: "s5 = s3\<lparr>kmem := m5, io_events := ev, print_buf := pb, block_arena := ba5, regions := rg5,
      free_bytes := fb5, dt := (dt s3)\<lparr>phandlemap_arena := pa5, dt_bump := db, phandle_map := pm\<rparr>\<rparr>" by (rule typing_onlyE [OF to])
    show ?thesis unfolding parsed_only_def e5 e3 s2_def e1 s0_def by simp
  qed
  moreover have "root_node (dt s5) = ?n" by (rule typing_only_fields(1) [OF to])
  moreover have "r < spare s5" using E(2) by simp
  ultimately show ?thesis using run R(4,5) dist E(3) unfolding blob_parsed_def
    by (intro exI [of _ s5] exI [of _ ?f] conjI exI [of _ ?n] exI [of _ cs] exI [of _ ?pages] exI [of _ "settled s5 ?q"] exI [of _ "set ps"]) simp_all
qed

end
