(* ===== verification/Boot_Tree.thy ===== *)
theory Boot_Tree
  imports Parse_Blob Kernel_Boot Memmap
begin

text \<open>
  The boot from the device tree blob on: what the blob says about the devices, read off the abstract
  tree, is what the drivers' initialisation finds in memory, so that the kernel comes up on every
  machine whose tree has an interrupt controller of the expected shape.
\<close>

section \<open>The nodes of a tree, in the order the kernel visits them\<close>

text \<open>The cell counts of a node and its properties in the order of the list in memory.\<close>

type_synonym listed = "u32 \<times> u32 \<times> (u8 list \<times> u8 list) list"

fun listing :: "u32 \<Rightarrow> u32 \<Rightarrow> dtree \<Rightarrow> listed list" where
  "listing a b (DNode nm pl ks) =
     (a, b, rev pl) # (case fold cells_step (rev pl) (a, b) of (a', b') \<Rightarrow> concat (rev (map (listing a' b') ks)))"

definition strings :: "listed \<Rightarrow> u8 list list" where
  "strings x = fold strings_step (snd (snd x)) []"

text \<open>The first node that is compatible with the controller's name, and its first \<^verbatim>\<open>reg\<close> property: one pair of two cells each.\<close>

definition plic_listed :: "listed list \<Rightarrow> bool" where
  "plic_listed xs \<longleftrightarrow> (case find (\<lambda>x. SV ''riscv,plic0'' \<in> set (strings x)) xs of None \<Rightarrow> False
     | Some (a, b, pl) \<Rightarrow> a = 2 \<and> b = 2 \<and> (case find (\<lambda>p. fst p = SV ''reg'') pl of None \<Rightarrow> False | Some p \<Rightarrow> length (snd p) = 16))"

definition tree_list :: "dtree \<Rightarrow> listed list" where
  "tree_list t = listing DEFAULT_ADDRESS_CELLS DEFAULT_SIZE_CELLS t"

definition tree_devices :: "dtree \<Rightarrow> bool" where
  "tree_devices t \<longleftrightarrow> tree_plain t \<and> plic_listed (tree_list t) \<and> (\<forall>x \<in> set (tree_list t). SV ''virtio,mmio'' \<notin> set (strings x))"

definition tree_drivers :: "dtree \<Rightarrow> nat" where
  "tree_drivers t = sum_list (map (\<lambda>x. length (strings x)) (tree_list t))"

text \<open>A node in memory and its entry in the list.\<close>

definition listed_at :: "mem \<Rightarrow> (addr \<times> nat) list \<Rightarrow> addr set \<Rightarrow> (addr \<times> addr) set \<Rightarrow> addr \<Rightarrow> listed \<Rightarrow> bool" where
  "listed_at m kept S Q n x \<longleftrightarrow> (\<exists>par nm. node_typed m kept S Q par (fst x) (fst (snd x)) n nm (snd (snd x)))"

lemma forest_listed:
  "forest_typed m kept S Q par a b f ts \<Longrightarrow> list_all2 (listed_at m kept S Q) (preorder f) (concat (map (listing a b) ts))"
proof (induction f arbitrary: par a b ts)
  case (Node n cs ss)
  obtain t ts' where ts: "ts = t # ts'" using Node.prems by (cases ts) auto
  obtain nm pl ks where t: "t = DNode nm pl ks" by (cases t)
  obtain a' b' where f: "fold cells_step (rev pl) (a, b) = (a', b')" by (cases "fold cells_step (rev pl) (a, b)")
  have T: "node_typed m kept S Q par a b n nm (rev pl)" "forest_typed m kept S Q n a' b' cs (rev ks)" "forest_typed m kept S Q par a b ss ts'"
    using Node.prems by (simp_all add: ts t f)
  have "listed_at m kept S Q n (a, b, rev pl)" using T(1) by (auto simp: listed_at_def)
  moreover have "list_all2 (listed_at m kept S Q) (preorder cs) (concat (rev (map (listing a' b') ks)))"
    using Node.IH(1) [OF T(2)] by (simp add: rev_map)
  moreover have "list_all2 (listed_at m kept S Q) (preorder ss) (concat (map (listing a b) ts'))" by (rule Node.IH(2) [OF T(3)])
  ultimately show ?case by (simp add: ts t f list_all2_appendI)
qed simp

lemma listing_rooted [simp]: "listing a b (rooted t) = listing a b t"
  by (cases t) simp

lemma plain_rooted: "tree_plain t \<Longrightarrow> tree_plain (rooted t)"
  by (cases t) (simp add: SV_def)

section \<open>What is found in memory\<close>

lemma listed_strings:
  assumes "listed_at m kept S Q n x"
  shows "map (sv_bytes m) (compatibles m n) = strings x"
proof -
  have c: "node_compat m kept S n (strings x)" using assms by (auto simp: listed_at_def node_typed_def strings_def)
  have cnt: "unat (compatible_count m n) = length (strings x)" using c by (simp add: node_compat_def unat_of_nat_eq)
  have "sv_bytes m (sv_at m (compatible m n + 16 * of_nat i)) = strings x ! i" if "i < length (strings x)" for i
    using c that view_is_bytes by (auto simp: node_compat_def)
  then show ?thesis by (intro nth_equalityI) (simp_all add: compatibles_def cnt)
qed

lemma listed_compatible:
  assumes "listed_at m kept S Q n x"
  shows "list_ex (\<lambda>c. sv_is m c name) (compatibles m n) \<longleftrightarrow> SV name \<in> set (strings x)"
proof -
  have "set (strings x) = sv_bytes m ` set (compatibles m n)" using listed_strings [OF assms] by (metis set_map)
  then show ?thesis by (simp add: list_ex_iff sv_is_def image_iff eq_commute [of "SV name"])
qed

text \<open>A search in memory is a search in the list.\<close>

lemma found_listed:
  assumes "list_all2 R ns xs" and "\<And>n x. R n x \<Longrightarrow> P n \<longleftrightarrow> P' x" and "find P' xs = Some x"
  shows "\<exists>n \<in> set ns. first_or_null P ns = n \<and> R n x"
  using assms
proof (induction ns xs rule: list_all2_induct)
  case (Cons n ns y ys)
  then show ?case by (cases "P n") (auto split: if_splits)
qed simp

lemma walk_cost_listed:
  assumes "list_all2 (listed_at m kept S Q) ns xs"
  shows "walk_cost m ns = 4096 * sum_list (map (\<lambda>x. length (strings x)) xs)"
proof -
  have "map (\<lambda>n. length (compatibles m n)) ns = map (\<lambda>x. length (strings x)) xs"
    using assms by (induction rule: list_all2_induct) (auto dest!: listed_strings [THEN arg_cong [where f = length]])
  then show ?thesis by (simp add: walk_cost_def)
qed

lemma no_virtio_listed:
  assumes "list_all2 (listed_at m kept S Q) ns xs" and "\<forall>x \<in> set xs. SV ''virtio,mmio'' \<notin> set (strings x)"
  shows "\<forall>n \<in> set ns. \<not> is_virtio m n"
  using assms
proof (induction rule: list_all2_induct)
  case (Cons n ns x xs)
  then show ?case using listed_compatible [of m kept S Q n x "''virtio,mmio''"] by (auto simp: is_virtio_def list_ex_iff)
qed simp

lemma plic_usable_listed:
  assumes at: "list_all2 (listed_at m kept S Q) (preorder f) xs" and plic: "plic_listed xs" and nz: "0 \<notin> set (preorder f)"
  shows "plic_usable m f"
proof -
  obtain pl p where x: "find (\<lambda>x. SV ''riscv,plic0'' \<in> set (strings x)) xs = Some (2, 2, pl)"
    and p: "find (\<lambda>p. fst p = SV ''reg'') pl = Some p" "length (snd p) = 16"
    using plic by (auto simp: plic_listed_def split: option.splits)
  have cm: "list_ex (\<lambda>c. sv_is m c ''riscv,plic0'') (compatibles m n) \<longleftrightarrow> SV ''riscv,plic0'' \<in> set (strings y)" if "listed_at m kept S Q n y" for n y
    by (rule listed_compatible [OF that])
  from found_listed [where P = "\<lambda>n. list_ex (\<lambda>c. sv_is m c ''riscv,plic0'') (compatibles m n)", OF at cm x] obtain n where
    n: "n \<in> set (preorder f)" "plic_node m f = n" "listed_at m kept S Q n (2, 2, pl)" by (auto simp: plic_node_def)
  obtain qs where c: "address_cells m n = 2" "size_cells m n = 2" "chain 48 m (properties m n) qs" "list_all2 (prop_typed m kept S 2 2) qs pl"
    using n(3) by (auto simp: listed_at_def node_typed_def)
  have name: "sv_is m (prop_name m q) ''reg'' \<longleftrightarrow> fst y = SV ''reg''" if "prop_typed m kept S 2 2 q y" for q y
    using that sv_is_view [of m kept "prop_name m q" "fst y" "''reg''"] by (cases y) simp
  from found_listed [where P = "\<lambda>p. sv_is m (prop_name m p) ''reg''", OF c(4) name p(1)] obtain q where
    q: "q \<in> set qs" "first_or_null (\<lambda>p. sv_is m (prop_name m p) ''reg'') qs = q" "prop_typed m kept S 2 2 q p" by auto
  have "fst p = SV ''reg''" using p(1) by (auto simp: find_Some_iff)
  then have "reg_typed m S 2 2 q (snd p)" using q(3) by (cases p) simp
  then have r: "prop_type m q = property_type_value DT_PROPERTY_REG" "reg_n_pairs m q = 1" using p(2) by (simp_all add: reg_typed_def Let_def)
  have "n \<noteq> 0" "q \<noteq> 0" using n(1) nz q(1) chain_nonnull [OF c(3)] by auto
  moreover have "device_tree_get_property m n ''reg'' = Inr q"
    using get_property_loop_correct [OF c(3), of "''reg''"] q(2) \<open>n \<noteq> 0\<close> by (simp add: device_tree_get_property_def)
  ultimately show ?thesis using n(2) r c(1,2) by (simp add: plic_usable_def usable_reg_def)
qed

section \<open>The tree is parsed and the kernel starts\<close>

text \<open>The state in which the device tree is parsed: page tables, trap frame, blob and literal are kept, memory is to spare.\<close>

definition tree_boot_ok :: "(addr \<times> nat) list \<Rightarrow> (addr \<times> nat) list \<Rightarrow> (u8 list \<Rightarrow> u32) \<Rightarrow> dtree \<Rightarrow> 'a system_scheme \<Rightarrow> bool" where
  "tree_boot_ok tables kept strs t s \<longleftrightarrow> roomy s (tables @ kept) \<and> sv39_inv (hhdm_offset s) (kmem s) (kernel_page_table s) tables \<and>
     trap_frame_ok s kept \<and> console s \<and> 2 ^ 15 \<le> unat (hhdm_offset s) \<and> bsp_hartid (pinfo s) < 512 \<and> fn_uart_handle_interrupt s \<noteq> 0 \<and>
     dtb_response (pinfo s) \<noteq> 0 \<and> blob_in (kmem s) kept (get64 (dtb_response (pinfo s) + 8) s) strs t \<and>
     text_at (kmem s) kept (lit_addr s ''/'') (SV ''/'') \<and> tree_fits t \<and> tree_devices t \<and> 53248 + 4096 * tree_drivers t < spare s"

lemma parsed_only_keeps:
  "parsed_only s s' \<Longrightarrow> keeps_boot s s' \<and> fn_uart_handle_interrupt s' = fn_uart_handle_interrupt s"
  by (subst (asm) parsed_only_def, erule ssubst) (simp add: keeps_defs)

lemma device_names_printable: "printable m (SV ''Device tree blob parsed.'') []"
  by (rule printable_plain) (simp add: SV_def)

lemma blob_parsed_devices:
  assumes p: "blob_parsed r tables kept t f s s'" and dev: "tree_devices t"
  obtains pages where "roomy s' (tables @ pages @ kept)" and "device_tree_ok (pages @ kept) f s'" and "plic_usable (kmem s') f"
    and "walk_cost (kmem s') (preorder f) = 4096 * tree_drivers t" and "\<forall>n \<in> set (preorder f). \<not> is_virtio (kmem s') n"
proof -
  obtain n cs pages S Q where f: "f = Node n cs Nil_forest" "root_node (dt s') = n" "forest_at (kmem s') n f"
    and ty: "forest_typed (kmem s') kept S Q 0 DEFAULT_ADDRESS_CELLS DEFAULT_SIZE_CELLS f [rooted t]" and room: "roomy s' (tables @ pages @ kept)"
    and sub: "S \<union> (\<Union>n \<in> set (preorder f). extent n 72) \<union> (\<Union>q \<in> fst ` Q. extent q 56) \<subseteq> covered pages"
    using p unfolding blob_parsed_def by (elim exE conjE) (rule that)
  have nz: "0 \<notin> set (preorder f)" by (rule preorder_nonzero [OF f(3)])
  have at: "list_all2 (listed_at (kmem s') kept S Q) (preorder f) (tree_list t)" using forest_listed [OF ty] by (simp add: tree_list_def)
  have "\<forall>n \<in> set (preorder f). device_ok (kmem s') (pages @ kept) n"
  proof (rule forest_typed_device_ok [OF ty])
    show "\<forall>n \<in> set (preorder f). n \<noteq> 0 \<and> extent n 72 \<subseteq> covered (pages @ kept)" using nz sub by auto
    show "S \<subseteq> covered (pages @ kept)" "covered kept \<subseteq> covered (pages @ kept)" "\<forall>q \<in> fst ` Q. extent q 56 \<subseteq> covered (pages @ kept)"
      using sub by auto
    show "\<forall>t \<in> set [rooted t]. tree_plain t" using dev plain_rooted by (simp add: tree_devices_def)
  qed
  then have "device_tree_ok (pages @ kept) f s'" using f by (simp add: device_tree_ok_def)
  then show thesis
    using that room plic_usable_listed [OF at _ nz] walk_cost_listed [OF at] no_virtio_listed [OF at] dev
    by (simp add: tree_devices_def tree_drivers_def)
qed

lemma tree_boot_runs:
  fixes s :: "'a system_scheme"
  assumes ok: "tree_boot_ok tables kept strs t s"
  shows "\<exists>s' f pages. kernel_boot_tree s = Inr s' \<and> start_ok tables (pages @ kept) f s' \<and> plic_usable (kmem s') f \<and>
    (\<forall>n \<in> set (preorder f). \<not> is_virtio (kmem s') n) \<and> kernel_trap_frame s' = kernel_trap_frame s"
proof -
  let ?blob = "get64 (dtb_response (pinfo s) + 8) s" and ?r = "32768 + 4096 * tree_drivers t"
  note O = tree_boot_ok_def [THEN iffD1, OF ok]
  have hh: "2 ^ 14 \<le> unat (hhdm_offset s)" using O by simp
  have "20480 + ?r < spare s" using O by simp
  from parse_blob_runs [OF _ _ hh this, of tables kept ?blob strs t] O obtain s1 f where
    P: "device_tree_parse_blob ?blob s = Inr (ec EC_SUCCESS, s1)" "blob_parsed ?r tables kept t f s s1" by auto
  have B: "?r < spare s1" "console s1" "agree_on (covered (tables @ kept)) (kmem s1) (kmem s)" "parsed_only s s1"
    using P(2) by (auto simp: blob_parsed_def)
  have "tree_devices t" using O by simp
  from blob_parsed_devices [OF P(2) this] obtain pages where D: "roomy s1 (tables @ pages @ kept)" "device_tree_ok (pages @ kept) f s1"
    "plic_usable (kmem s1) f" "walk_cost (kmem s1) (preorder f) = 4096 * tree_drivers t" "\<forall>n \<in> set (preorder f). \<not> is_virtio (kmem s1) n" by blast
  from console_println [OF B(2) device_names_printable] obtain s2 where
    N: "kprintln (SV ''Device tree blob parsed.'') [] s1 = Inr s2" "console s2" "machine_only s1 s2" "kmem s2 = kmem s1" by blast
  have ks: "keeps_boot s s1" "fn_uart_handle_interrupt s1 = fn_uart_handle_interrupt s" using parsed_only_keeps [OF B(4)] by simp_all
  have k2: "keeps_drivers s1 s2" by (rule machine_only_keeps [OF N(3)])
  have k: "kernel_trap_frame s2 = kernel_trap_frame s" "kernel_page_table s2 = kernel_page_table s" "hhdm_offset s2 = hhdm_offset s"
    "pinfo s2 = pinfo s" "fn_uart_handle_interrupt s2 = fn_uart_handle_interrupt s" "dt s2 = dt s1"
    using ks k2 by (simp_all add: keeps_defs)
  have same: "manager_same s1 s2" using machine_only_same [OF N(3)] by (simp add: kernel_same_def)
  have "roomy s2 (tables @ pages @ kept)" using D(1) by (simp only: roomy_same [OF same N(4)])
  moreover have "sv39_inv (hhdm_offset s) (kmem s2) (kernel_page_table s) tables"
  proof (rule sv39_inv_agree [OF _ _ subset_refl])
    show "sv39_inv (hhdm_offset s) (kmem s) (kernel_page_table s) tables" using O by simp
    show "agree_on (covered tables) (kmem s2) (kmem s)" unfolding N(4) by (rule agree_on_mono [OF B(3)]) simp
  qed
  moreover have "trap_frame_ok s2 (pages @ kept)" using O by (auto simp: trap_frame_ok_def k)
  moreover have "device_tree_ok (pages @ kept) f s2" using D(2) by (simp add: device_tree_ok_def N(4) k(6))
  moreover have "spare s2 = spare s1" by (rule machine_only_room(2) [OF N(3)])
  ultimately have "start_ok tables (pages @ kept) f s2" using O N(2) B(1) D(4) unfolding start_ok_def k N(4) by simp
  moreover have "kernel_boot_tree s = Inr s2" using O P(1) N(1) by (simp add: kernel_boot_tree_def)
  ultimately show ?thesis using D(3,5) k(1) N(4) by (intro exI [of _ s2] exI [of _ f] exI [of _ pages]) simp
qed

lemma tree_boot_serves:
  assumes "tree_boot_ok tables kept strs t s"
  shows "\<exists>s'. and_then (kernel_boot_tree s) kernel_start = Inr s' \<and> serving (kernel_trap_frame s) s'"
proof -
  obtain s1 f pages where T: "kernel_boot_tree s = Inr s1" "start_ok tables (pages @ kept) f s1" "plic_usable (kmem s1) f"
    "\<forall>n \<in> set (preorder f). \<not> is_virtio (kmem s1) n" "kernel_trap_frame s1 = kernel_trap_frame s" using tree_boot_runs [OF assms] by blast
  from kernel_start_runs [OF T(2-4)] show ?thesis using T(1,5) by (auto simp: kernel_start_def)
qed

end
