(* ===== verification/Full_Boot.thy ===== *)
theory Full_Boot
  imports Boot_Tree
begin

text \<open>
  The whole of \<^verbatim>\<open>kernel_c_entry\<close> up to its wait loop: from the state the boot loader hands over, with
  its responses, its page tables, its memory map and the device tree blob in memory, to a kernel that
  serves every interrupt.
\<close>

section \<open>The console phase\<close>

text \<open>What the boot loader's responses make of the platform information.\<close>

definition informed :: "'a system_scheme \<Rightarrow> 'a system_scheme" where
  "informed s = (let r = boot_reqs s in s\<lparr>hhdm_offset := load64 (kmem s) (req_hhdm r + 8),
     pinfo := \<lparr>framebuffer_response = req_framebuffer r, paging_mode_response = req_paging_mode r, memmap_response = req_memmap r,
       dtb_response = req_dtb r, hhdm_response = req_hhdm r, bsp_hartid_response = req_bsp_hartid r,
       bsp_hartid = load64 (kmem s) (req_bsp_hartid r + 8)\<rparr>\<rparr>)"

text \<open>The root of the page tables that \<^verbatim>\<open>satp\<close> shows after the fourteen bytes of the greeting.\<close>

definition loader_page_table :: "'a system_scheme \<Rightarrow> addr" where
  "loader_page_table s = push_bit 12 (io_inputs s (length (io_events s) + 14)) + hhdm_offset (informed s)"

lemma informed_fields [simp]:
  "kmem (informed s) = kmem s" "kernel_trap_frame (informed s) = kernel_trap_frame s" "lit_addr (informed s) = lit_addr s"
  "fn_uart_handle_interrupt (informed s) = fn_uart_handle_interrupt s" "io_events (informed s) = io_events s" "io_inputs (informed s) = io_inputs s"
  "print_buf (informed s) = print_buf s" "dtb_response (pinfo (informed s)) = req_dtb (boot_reqs s)"
  "memmap_response (pinfo (informed s)) = req_memmap (boot_reqs s)"
  "bsp_hartid (pinfo (informed s)) = load64 (kmem s) (req_bsp_hartid (boot_reqs s) + 8)"
  "hhdm_offset (informed s) = load64 (kmem s) (req_hhdm (boot_reqs s) + 8)"
  "region_count (informed s) = region_count s" "free_bytes (informed s) = free_bytes s" "regions (informed s) = regions s"
  "initial_buf (informed s) = initial_buf s"
  by (simp_all add: informed_def Let_def)

lemma populate_platform_info_correct:
  assumes "req_hhdm (boot_reqs s) \<noteq> 0" and "req_bsp_hartid (boot_reqs s) \<noteq> 0"
  shows "populate_platform_info s = Inr (informed s)"
  using assms by (simp add: populate_platform_info_def informed_def Let_def deref_def)

text \<open>The console phase changes the console's state, the trace and the root of the page tables only.\<close>

lemma boot_console_runs:
  fixes s :: "'a system_scheme"
  assumes "req_hhdm (boot_reqs s) \<noteq> 0" and "req_bsp_hartid (boot_reqs s) \<noteq> 0" and "print_buf_ok s"
  obtains ev buf where "kernel_boot_console s = Inr ((informed s)\<lparr>uart_base_address := kernel_hhdm_phys_to_virt 0x10000000 (informed s),
      put := Some Uart_put_char, io_events := ev, print_buf := buf, kernel_page_table := loader_page_table s\<rparr>)"
    and "length buf = 67" and "buf ! 66 = 0"
proof -
  let ?i = "(informed s)\<lparr>uart_base_address := kernel_hhdm_phys_to_virt 0x10000000 (informed s), put := Some Uart_put_char\<rparr>"
  have "print_buf_ok ?i" using assms(3) by (simp add: print_buf_ok_def)
  moreover have "render (kmem ?i) (tokens None (SV ''Hello, World!'')) [] = Some (SV ''Hello, World!'')"
    by (subst tokens_plain) (simp_all add: SV_def render_lits)
  ultimately obtain s1 where s1: "kprintln (SV ''Hello, World!'') [] ?i = Inr s1" "sends (SV ''Hello, World!'' @ [chr CHR 0x0A]) ?i s1"
    using kprintln_sends [of ?i Uart_put_char "SV ''Hello, World!''" "[]" "SV ''Hello, World!''"] by (simp del: SV_def) blast
  obtain buf where b: "s1 = emit (SV ''Hello, World!'' @ [chr CHR 0x0A]) (?i\<lparr>print_buf := buf\<rparr>)" "length buf = 67" "buf ! 66 = 0"
    using s1(2) by (auto simp: sends_def)
  have len: "length (SV ''Hello, World!'') = 13" by (simp add: SV_def)
  have "snd (riscv_satp_read s1) = s1\<lparr>io_events := io_events s1 @ [Csr_read Satp (fst (riscv_satp_read s1))]\<rparr>"
    by (simp add: riscv_satp_read_def csr_read_def Let_def record_io_def)
  moreover have "fst (riscv_satp_read s1) = io_inputs s (length (io_events s) + 14)"
    by (simp add: riscv_satp_read_def csr_read_def Let_def next_input_def b(1) emit_def len)
  ultimately have "kernel_boot_console s = Inr (s1\<lparr>io_events := io_events s1 @ [Csr_read Satp (fst (riscv_satp_read s1))],
      kernel_page_table := loader_page_table s\<rparr>)"
    using assms s1(1)
    by (simp add: kernel_boot_console_def populate_platform_info_correct uart_initialize_def kprint_initialize_def split_beta Let_def
        kernel_hhdm_phys_to_virt_def loader_page_table_def b(1) emit_def)
  then show thesis
    by (intro that [where buf = buf and ev = "io_events s1 @ [Csr_read Satp (fst (riscv_satp_read s1))]"] b(2,3)) (simp add: b(1) emit_def)
qed

section \<open>The boot\<close>

text \<open>
  What the boot loader hands over: its responses, well-formed page tables in \<open>tables\<close>, a memory map
  \<open>es\<close>, the blob of the tree \<open>t\<close>, with the trap frame, the literal and the blob in \<open>kept\<close>.
\<close>

definition handed_over :: "(addr \<times> nat) list \<Rightarrow> (addr \<times> nat) list \<Rightarrow> (u64 \<times> u64 \<times> u64) list \<Rightarrow> (u8 list \<Rightarrow> u32) \<Rightarrow> dtree \<Rightarrow>
    'a system_scheme \<Rightarrow> bool" where
  "handed_over tables kept es strs t s \<longleftrightarrow> (let r = boot_reqs s; i = informed s in
     req_hhdm r \<noteq> 0 \<and> req_bsp_hartid r \<noteq> 0 \<and> req_dtb r \<noteq> 0 \<and> print_buf_ok s \<and> memory_ok i (tables @ kept) es \<and>
     sv39_inv (hhdm_offset i) (kmem s) (loader_page_table s) tables \<and> trap_frame_ok s kept \<and> 2 ^ 15 \<le> unat (hhdm_offset i) \<and>
     bsp_hartid (pinfo i) < 512 \<and> fn_uart_handle_interrupt s \<noteq> 0 \<and> extent (req_dtb r + 8) 8 \<subseteq> covered kept \<and>
     blob_in (kmem s) kept (load64 (kmem s) (req_dtb r + 8)) strs t \<and> text_at (kmem s) kept (lit_addr s ''/'') (SV ''/'') \<and>
     tree_fits t \<and> tree_devices t)"

text \<open>The memory the boot needs at most: a reserve for every region, and the requests it makes.\<close>

definition boot_cost :: "dtree \<Rightarrow> nat" where
  "boot_cost t = REGION_COUNT * 16384 + 53248 + 4096 * tree_drivers t"

text \<open>The console and the memory are set up, and the blob is still there.\<close>

lemma boot_reaches_tree:
  fixes s :: "'a system_scheme"
  assumes h: "handed_over tables kept es strs t s" and acc: "accept_all [] (usable es) = Some rs"
    and room: "boot_cost t < sum_list (map (\<lambda>(b, z). unat z) rs)"
  shows "\<exists>s0 s1. kernel_boot_console s = Inr s0 \<and> kernel_boot_memory s0 = Inr s1 \<and> tree_boot_ok tables kept strs t s1 \<and>
    kernel_trap_frame s1 = kernel_trap_frame s \<and> dtb_response (pinfo s1) = req_dtb (boot_reqs s) \<and>
    get64 (req_dtb (boot_reqs s) + 8) s1 = get64 (req_dtb (boot_reqs s) + 8) s"
proof -
  note H = handed_over_def [THEN iffD1, OF h, unfolded Let_def]
  obtain ev buf where C: "kernel_boot_console s = Inr ((informed s)\<lparr>uart_base_address := kernel_hhdm_phys_to_virt 0x10000000 (informed s),
      put := Some Uart_put_char, io_events := ev, print_buf := buf, kernel_page_table := loader_page_table s\<rparr>)" (is "_ = Inr ?c")
    and buf: "length buf = 67" "buf ! 66 = 0" using boot_console_runs [of s] H by blast
  have "console ?c" using buf by (simp add: console_def print_buf_ok_def)
  moreover have "memory_ok ?c (tables @ kept) es"
    using H by (simp add: memory_ok_def memmap_at_def Let_def get64_def entry_count_def memmap_entries_def memmap_entry_def)
  ultimately obtain s1 where M: "kernel_boot_memory ?c = Inr s1" "managed s1 = rs" "roomy s1 (tables @ kept)" "console s1"
    "unat (free_bytes s1) = sum_list (map (\<lambda>(b, z). unat z) rs)" "agree_on (covered (tables @ kept)) (kmem s1) (kmem s)" "keeps_maps ?c s1"
    using boot_memory_runs [of ?c "tables @ kept" es] acc by (cases "kernel_boot_memory ?c") auto
  have k: "hhdm_offset s1 = hhdm_offset (informed s)" "pinfo s1 = pinfo (informed s)" "kernel_trap_frame s1 = kernel_trap_frame s"
    "kernel_page_table s1 = loader_page_table s" "lit_addr s1 = lit_addr s" "fn_uart_handle_interrupt s1 = fn_uart_handle_interrupt s"
    using M(7) by (simp_all add: keeps_maps_def keeps_boot_def)
  have ag: "agree_on (covered kept) (kmem s1) (kmem s)" "agree_on (covered tables) (kmem s1) (kmem s)"
    by (rule agree_on_mono [OF M(6)], simp)+
  have dtb: "get64 (req_dtb (boot_reqs s) + 8) s1 = load64 (kmem s) (req_dtb (boot_reqs s) + 8)"
    using H by (simp add: get64_def load64_agree [OF ag(1)])
  have "sv39_inv (hhdm_offset (informed s)) (kmem s1) (loader_page_table s) tables" using H by (intro sv39_inv_agree [OF _ ag(2)]) auto
  moreover have "blob_in (kmem s1) kept (load64 (kmem s) (req_dtb (boot_reqs s) + 8)) strs t" using H by (intro blob_in_agree(1) [OF _ ag(1)]) simp
  moreover have "text_at (kmem s1) kept (lit_addr s ''/'') (SV ''/'')" using H by (intro text_at_agree [OF _ ag(1)]) simp
  moreover have "trap_frame_ok s1 kept" using H by (simp add: trap_frame_ok_def k)
  moreover have "53248 + 4096 * tree_drivers t < spare s1" using room by (simp add: spare_def boot_cost_def M(5))
  ultimately have "tree_boot_ok tables kept strs t s1"
    using H M(3,4) by (simp add: tree_boot_ok_def k dtb del: informed_fields(11))
  then show ?thesis using C M(1) k dtb by (intro exI [of _ ?c] exI [of _ s1]) (simp add: get64_def)
qed

lemma boot_runs:
  fixes s :: "'a system_scheme"
  assumes "handed_over tables kept es strs t s" and "accept_all [] (usable es) = Some rs"
    and "boot_cost t < sum_list (map (\<lambda>(b, z). unat z) rs)"
  shows "\<exists>s'. kernel_boot s = Inr s' \<and> serving (kernel_trap_frame s) s'"
proof -
  obtain s0 s1 where B: "kernel_boot_console s = Inr s0" "kernel_boot_memory s0 = Inr s1" "tree_boot_ok tables kept strs t s1"
    "kernel_trap_frame s1 = kernel_trap_frame s" using boot_reaches_tree [OF assms] by blast
  from tree_boot_serves [OF B(3)] show ?thesis by (simp add: kernel_boot_def B)
qed

section \<open>A concrete machine\<close>

lemma load64_zeros: "load_bytes m a 8 = replicate 8 0 \<Longrightarrow> load64 m a = 0"
proof -
  have "word_of_bytes (replicate n 0) = (0 :: u64)" for n by (induction n) (simp_all add: word_of_bytes_def)
  then show "load_bytes m a 8 = replicate 8 0 \<Longrightarrow> load64 m a = 0" by (simp add: load64_def)
qed

text \<open>Pieces of text placed in memory.\<close>

definition placed :: "(addr \<times> u8 list) list \<Rightarrow> mem \<Rightarrow> mem" where
  "placed = fold (\<lambda>(a, bs) m. store_bytes m a bs)"

abbreviation spans :: "(addr \<times> u8 list) list \<Rightarrow> (addr \<times> nat) list" where
  "spans \<equiv> map (\<lambda>(a, bs). (a, length bs))"

lemma placed_outside: "A \<inter> covered (spans xs) = {} \<Longrightarrow> agree_on A (placed xs m) m"
proof (induction xs arbitrary: m)
  case (Cons x xs)
  obtain a bs where x: "x = (a, bs)" by (cases x)
  have "A \<inter> extent a (length bs) = {}" "A \<inter> covered (spans xs) = {}" using Cons.prems by (auto simp: x)
  then show ?case using agree_on_trans [OF Cons.IH store_bytes_agree] by (simp add: placed_def x)
qed (simp add: placed_def)

lemma placed_text:
  assumes "all_apart (spans xs)" and "(a, bs) \<in> set xs" and "length bs < 2 ^ 63"
  shows "load_bytes (placed xs m) a (length bs) = bs"
  using assms(1,2)
proof (induction xs arbitrary: m)
  case (Cons x xs)
  show ?case
  proof (cases "(a, bs) \<in> set xs")
    case True
    then show ?thesis using Cons.IH Cons.prems by (cases x) (simp add: placed_def)
  next
    case False
    then have x: "x = (a, bs)" using Cons.prems by simp
    have "extent a (length bs) \<inter> covered (spans xs) = {}" using Cons.prems(1) by (fastforce simp: x covered_def apart_def)
    then have "agree_on (extent a (length bs)) (placed (x # xs) m) (store_bytes m a bs)"
      using placed_outside [of "extent a (length bs)" xs "store_bytes m a bs"] by (simp add: placed_def x)
    then have "load_bytes (placed (x # xs) m) a (length bs) = load_bytes (store_bytes m a bs) a (length bs)"
      using assms(3) by (intro load_bytes_agree) simp_all
    then show ?thesis using assms(3) by (simp add: load_store_bytes_same)
  qed
qed simp

text \<open>A tree with an interrupt controller, its blob, and the responses of the boot loader, in one page.\<close>

definition boot_tree :: dtree where
  "boot_tree = DNode [] [(SV ''#address-cells'', [0, 0, 0, 2]), (SV ''#size-cells'', [0, 0, 0, 2])]
     [DNode (SV ''plic@c000000'') [(SV ''reg'', [0, 0, 0, 0, 0x0C, 0, 0, 0, 0, 0, 0, 0, 0, 0x60, 0, 0]), (SV ''compatible'', SV ''riscv,plic0'' @ [0])] []]"

definition boot_strings :: "u8 list \<Rightarrow> u32" where
  "boot_strings n = (if n = SV ''#size-cells'' then 15 else if n = SV ''reg'' then 27 else if n = SV ''compatible'' then 31 else 0)"

definition boot_header :: "u8 list" where
  "boot_header = be32 DEVICE_TREE_BLOB_MAGIC @ be32 0x500 @ be32 0x200 @ be32 0x400 @ be32 0x28 @ replicate 36 0"

definition boot_names :: "u8 list" where
  "boot_names = SV ''#address-cells'' @ [0] @ SV ''#size-cells'' @ [0] @ SV ''reg'' @ [0] @ SV ''compatible'' @ [0]"

definition boot_text :: "(addr \<times> u8 list) list" where
  "boot_text = [(0x20000, boot_header), (0x20200, encode_blob boot_strings boot_tree), (0x20400, boot_names), (0x20900, SV ''/''),
     (0x20A08, bytes_of_word 8 (0xFFFFFFC000000000 :: u64)), (0x20A48, bytes_of_word 8 (0x20000 :: u64))]"

definition boot_memory :: mem where
  "boot_memory = (\<lambda>x. if x \<in> extent 0x40000 0x1000 then map_memory x else placed boot_text (\<lambda>_. 0) x)"

definition boot_system :: system where
  "boot_system = map_system\<lparr>kmem := boot_memory, io_inputs := (\<lambda>_. 0x30), lit_addr := (\<lambda>_. 0x20900), kernel_trap_frame := 0x20B00,
     boot_reqs := \<lparr>req_framebuffer = 0, req_paging_mode = 0, req_memmap = 0x40000, req_dtb = 0x20A40, req_hhdm = 0x20A00, req_bsp_hartid = 0x20E00\<rparr>\<rparr>"

abbreviation boot_kept :: "(addr \<times> nat) list" where "boot_kept \<equiv> [(0x20000, 0x1000), (0x40000, 0x1000)]"

abbreviation boot_tables :: "(addr \<times> nat) list" where "boot_tables \<equiv> [(0xFFFFFFC000030000, 4096)]"

lemma boot_lengths:
  "length boot_header = 56" "length (encode_blob boot_strings boot_tree) = 124" "length boot_names = 42" "length (SV ''/'') = 1"
  by (simp_all add: boot_header_def encode_blob_def boot_tree_def boot_names_def SV_def length_padded)

lemma boot_spans: "spans boot_text = [(0x20000, 56), (0x20200, 124), (0x20400, 42), (0x20900, 1), (0x20A08, 8), (0x20A48, 8)]"
  by (simp add: boot_text_def boot_lengths)

lemma boot_page_text:
  assumes "(0x20000 + k, bs) \<in> set boot_text" and "unat k + length bs \<le> 0x1000"
  shows "text_at boot_memory boot_kept (0x20000 + k) bs"
proof -
  have e: "extent (0x20000 + k) (length bs) \<subseteq> extent 0x20000 0x1000" by (rule extent_field [OF assms(2)]) simp
  have "extent 0x20000 0x1000 \<inter> extent 0x40000 0x1000 = {}" by (simp add: extent_disjoint_iff)
  then have "agree_on (extent (0x20000 + k) (length bs)) boot_memory (placed boot_text (\<lambda>_. 0))"
    using e by (auto simp: agree_on_def boot_memory_def)
  moreover have "all_apart (spans boot_text)" by (simp add: boot_spans apart_pair extent_disjoint_iff)
  ultimately have "load_bytes boot_memory (0x20000 + k) (length bs) = bs"
    using placed_text [OF _ assms(1)] load_bytes_agree [of "0x20000 + k" "length bs" boot_memory] assms(2) by simp
  then show ?thesis using e assms(2) by (auto simp: text_at_def)
qed

lemma boot_texts:
  "text_at boot_memory boot_kept 0x20000 boot_header" "text_at boot_memory boot_kept 0x20200 (encode_blob boot_strings boot_tree)"
  "text_at boot_memory boot_kept 0x20400 boot_names" "text_at boot_memory boot_kept 0x20900 (SV ''/'')"
  using boot_page_text [of 0 boot_header] boot_page_text [of "0x200" "encode_blob boot_strings boot_tree"]
    boot_page_text [of "0x400" boot_names] boot_page_text [of "0x900" "SV ''/''"]
  by (simp_all add: boot_text_def boot_lengths)

lemma boot_words: "load64 boot_memory 0x20A08 = 0xFFFFFFC000000000" "load64 boot_memory 0x20A48 = 0x20000"
proof -
  have w: "load64 boot_memory (0x20000 + k) = v" if "(0x20000 + k, bytes_of_word 8 v) \<in> set boot_text" "unat k + 8 \<le> 0x1000" for k and v :: u64
    using boot_page_text [OF that(1)] that(2) by (simp add: text_at_def load64_def word_of_bytes_of_word)
  show "load64 boot_memory 0x20A08 = 0xFFFFFFC000000000" "load64 boot_memory 0x20A48 = 0x20000"
    using w [of "0xA08" "0xFFFFFFC000000000"] w [of "0xA48" "0x20000"] by (simp_all add: boot_text_def)
qed

lemma boot_blank:
  assumes "A \<inter> extent 0x40000 0x1000 = {}" and "A \<inter> covered (spans boot_text) = {}"
  shows "boot_memory ` A \<subseteq> {0}"
  using placed_outside [OF assms(2), of "\<lambda>_. 0"] assms(1) by (auto simp: agree_on_def boot_memory_def)

lemma boot_tree_fits: "tree_fits boot_tree" "tree_devices boot_tree" "tree_drivers boot_tree = 1"
proof -
  have two: "be_value [0, 0, 0, 2] = (2 :: u32)" by (simp add: be_value_def)
  have names: "strings_of (SV ''riscv,plic0'' @ [0]) = [SV ''riscv,plic0'']" by (simp add: SV_def)
  have l: "tree_list boot_tree = [(2, 1, [(SV ''#size-cells'', [0, 0, 0, 2]), (SV ''#address-cells'', [0, 0, 0, 2])]),
      (2, 2, [(SV ''compatible'', SV ''riscv,plic0'' @ [0]), (SV ''reg'', [0, 0, 0, 0, 0x0C, 0, 0, 0, 0, 0, 0, 0, 0, 0x60, 0, 0])])]"
    by (simp add: tree_list_def boot_tree_def two)
  show "tree_fits boot_tree" by (simp add: tree_fits_def boot_tree_def two names) (simp add: eval_nat_numeral)
  have s: "strings (a, b, [(SV ''#size-cells'', d), (SV ''#address-cells'', e)]) = []"
    "strings (a, b, [(SV ''compatible'', SV ''riscv,plic0'' @ [0]), (SV ''reg'', d)]) = [SV ''riscv,plic0'']" for a b d e
    by (simp_all add: strings_def names)
  have "plic_listed (tree_list boot_tree)" by (simp add: l plic_listed_def s)
  moreover have "tree_plain boot_tree" by (simp add: boot_tree_def) (simp add: SV_def)
  ultimately show "tree_devices boot_tree" by (simp add: tree_devices_def l s) (simp add: SV_def)
  show "tree_drivers boot_tree = 1" by (simp add: tree_drivers_def l s)
qed

lemma boot_names_known: "tree_ok (string_known boot_memory boot_kept 0x20400 boot_strings) boot_tree"
proof -
  have T: "text_at boot_memory boot_kept 0x20400 ((SV ''#address-cells'' @ [0]) @ (SV ''#size-cells'' @ [0]) @ (SV ''reg'' @ [0]) @ SV ''compatible'' @ [0])"
    using boot_texts(3) by (simp only: boot_names_def append_assoc)
  note T1 = text_at_append [OF T]
  note T2 = text_at_append [OF T1 [THEN conjunct2]]
  note T3 = text_at_append [OF T2 [THEN conjunct2]]
  have "string_known boot_memory boot_kept 0x20400 boot_strings (SV ''#address-cells'')" using T1
    by (simp add: string_known_def boot_strings_def) (simp add: SV_def)
  moreover have "string_known boot_memory boot_kept 0x20400 boot_strings (SV ''#size-cells'')" using T2
    by (simp add: string_known_def boot_strings_def) (simp add: SV_def)
  moreover have "string_known boot_memory boot_kept 0x20400 boot_strings (SV ''reg'')" using T3
    by (simp add: string_known_def boot_strings_def) (simp add: SV_def)
  moreover have "string_known boot_memory boot_kept 0x20400 boot_strings (SV ''compatible'')" using T3
    by (simp add: string_known_def boot_strings_def) (simp add: SV_def)
  ultimately show ?thesis by (simp add: boot_tree_def) (simp add: SV_def)
qed

lemma boot_blob_in: "blob_in boot_memory boot_kept 0x20000 boot_strings boot_tree"
proof -
  note T0 = boot_texts(1) [unfolded boot_header_def]
  note T1 = text_at_append [OF T0]
  note T2 = text_at_append [OF T1 [THEN conjunct2]]
  note T3 = text_at_append [OF T2 [THEN conjunct2]]
  note T4 = text_at_append [OF T3 [THEN conjunct2]]
  note T5 = text_at_append [OF T4 [THEN conjunct2]]
  have r: "READ_BIG_ENDIAN_U32 boot_memory 0x20000 = DEVICE_TREE_BLOB_MAGIC" "READ_BIG_ENDIAN_U32 boot_memory 0x20008 = 0x200"
    "READ_BIG_ENDIAN_U32 boot_memory 0x2000C = 0x400" "READ_BIG_ENDIAN_U32 boot_memory 0x20010 = 0x28"
    using T1 T3 T4 T5 text_at_be32 by auto
  have e: "extent (0x20000 + k) n \<subseteq> covered boot_kept" if "unat k + n \<le> 0x1000" for k n using extent_field [OF that, of "0x20000"] by auto
  have "load_bytes boot_memory 0x20014 36 = replicate 36 0" using T5 by (simp add: text_at_def)
  then have "load_bytes boot_memory 0x20014 (20 + 16) = replicate 20 0 @ replicate 16 0" by (simp flip: replicate_add)
  then have "load_bytes boot_memory 0x20028 16 = replicate 16 0" unfolding load_bytes_append by simp
  then have "load_bytes boot_memory 0x20028 (8 + 8) = replicate 8 0 @ replicate 8 0" by (simp flip: replicate_add)
  then have "load_bytes boot_memory 0x20028 8 = replicate 8 0" unfolding load_bytes_append by simp
  then have "load64 boot_memory 0x20028 = 0" by (rule load64_zeros)
  then show ?thesis using e [of 0 40] e [of "0x28" 16] boot_texts(2) boot_names_known by (simp add: blob_in_def Let_def r)
qed

lemma boot_system_fields:
  "kmem boot_system = boot_memory" "boot_reqs boot_system = \<lparr>req_framebuffer = 0, req_paging_mode = 0, req_memmap = 0x40000, req_dtb = 0x20A40,
     req_hhdm = 0x20A00, req_bsp_hartid = 0x20E00\<rparr>" "kernel_trap_frame boot_system = 0x20B00" "lit_addr boot_system = (\<lambda>_. 0x20900)"
  "print_buf boot_system = replicate 67 0" "region_count boot_system = 0" "free_bytes boot_system = 0" "length (regions boot_system) = REGION_COUNT"
  "initial_buf boot_system = 0xFFFFFFFF80000000" "fn_uart_handle_interrupt boot_system \<noteq> 0" "io_inputs boot_system = (\<lambda>_. 0x30)"
  by (simp_all add: boot_system_def map_system_def boot_kernel_def idle_system_def kernel.extend_def REGION_COUNT_def)

lemma boot_memory_ok: "memory_ok (informed boot_system) (boot_tables @ boot_kept) demo_map"
proof -
  have "memmap_at map_system map_page demo_map" using map_memory_ok(1) by (simp add: memory_ok_def)
  moreover have "agree_on (covered map_page) (kmem (informed boot_system)) (kmem map_system)"
    by (simp add: agree_on_def boot_memory_def map_system_def boot_system_fields)
  ultimately have "memmap_at (informed boot_system) map_page demo_map"
    by (rule memmap_at_agree [of map_system]) (simp_all add: boot_system_fields map_system_def)
  then have "memmap_at (informed boot_system) (boot_tables @ boot_kept) demo_map" by (auto simp: memmap_at_def Let_def)
  moreover have "hhdm_offset (informed boot_system) = 0xFFFFFFC000000000" by (simp add: boot_system_fields boot_words)
  moreover have "usable demo_map = [(0x80001000, 0x400000), (0x80800000, 0x200000)]" by (simp add: demo_map_def)
  ultimately show ?thesis
    unfolding memory_ok_def
    by (auto simp: boot_system_fields images_def region_fits_def total_length_def apart_pair extent_disjoint_iff mem_extent)
qed

lemma boot_handed_over: "handed_over boot_tables boot_kept demo_map boot_strings boot_tree boot_system"
proof -
  have e: "extent (0x20000 + k) n \<subseteq> covered boot_kept" if "unat k + n \<le> 0x1000" for k n using extent_field [OF that, of "0x20000"] by auto
  have z: "boot_memory ` extent 0xFFFFFFC000030000 4096 \<subseteq> {0}" "boot_memory ` extent 0x20E08 8 \<subseteq> {0}"
    by (rule boot_blank; simp add: boot_spans extent_disjoint_iff Int_Un_distrib)+
  have h: "hhdm_offset (informed boot_system) = 0xFFFFFFC000000000" by (simp add: boot_system_fields boot_words)
  have p: "loader_page_table boot_system = 0xFFFFFFC000030000" by (simp add: loader_page_table_def boot_words boot_system_fields)
  have "boot_memory (0x20E08 + of_nat i) = 0" if "i < 8" for i
    using z(2) that mem_extent [of "0x20E08 + of_nat i" "0x20E08" 8] by (auto simp: unat_of_nat_eq image_subset_iff)
  then have "load_bytes boot_memory 0x20E08 8 = replicate 8 0" by (auto simp: load_bytes_def intro!: nth_equalityI)
  then have b: "load64 boot_memory 0x20E08 = 0" by (rule load64_zeros)
  have "trap_frame_ok boot_system boot_kept" using e [of "0xB00" 552] by (simp add: trap_frame_ok_def boot_system_fields)
  moreover have "sv39_inv 0xFFFFFFC000000000 boot_memory 0xFFFFFFC000030000 boot_tables" by (rule sv39_inv_zero_root(1) [OF z(1)]) simp
  moreover have "print_buf_ok boot_system" by (simp add: print_buf_ok_def boot_system_fields)
  ultimately show ?thesis
    using boot_memory_ok boot_blob_in boot_texts(4) boot_tree_fits(1,2) e [of "0xA48" 8]
    by (simp add: handed_over_def Let_def p h boot_system_fields boot_words b del: informed_fields(11))
qed

lemma boot_accepts: "accept_all [] (usable demo_map) = Some [(0x80001000, 0x400000), (0x80800000, 0x200000)]"
  by (simp add: demo_map_def accepts_def whole_pages_def ALIGN_UP_def ALIGN_DOWN_def REGION_COUNT_def)

lemma boot_affordable: "boot_cost boot_tree < sum_list (map (\<lambda>(b, z). unat z) [(0x80001000 :: u64, 0x400000 :: u64), (0x80800000, 0x200000)])"
  by (simp add: boot_cost_def boot_tree_fits(3) REGION_COUNT_def)


section \<open>Properties\<close>

text \<open>
  C1: the kernel boots.  Whenever the boot loader hands over its responses, well-formed page tables, a
  memory map whose entries the manager accepts and whose regions hold enough memory for the boot, and
  the blob of a device tree whose properties have the form the specification of device trees gives
  them, of at most 54 nodes and 70 properties, with up to two cells for addresses and sizes, an
  interrupt controller and no Virtio device, the boot runs from its first line to its
  wait loop (console, physical memory, device tree, drivers, interrupts, without a panic, an assertion
  that fails or a loop that does not end), and from there on every timer and external interrupt is
  served, the handler returning to the interrupted instruction, however many came before it.
\<close>

theorem kernel_boots_and_serves:
  fixes s :: "'a system_scheme"
  assumes "handed_over tables kept es strs t s" and "accept_all [] (usable es) = Some rs"
    and "boot_cost t < sum_list (map (\<lambda>(b, z). unat z) rs)"
  shows "\<exists>s'. kernel_boot s = Inr s' \<and> serving (kernel_trap_frame s) s'"
  by (rule boot_runs [OF assms])

theorem kernel_boots_and_serves_witness: "\<exists>s'. kernel_boot boot_system = Inr s' \<and> serving 0x20B00 s'"
  using kernel_boots_and_serves [OF boot_handed_over boot_accepts boot_affordable] by (simp add: boot_system_fields)

text \<open>
  C2: parsing the device tree blob gives a tree in memory in which every property has the type its name
  stands for.  With a console and five pages to spare beyond what is wanted afterwards, on a blob that
  encodes a tree of at most 54 nodes and 70 properties of the specified form, \<^verbatim>\<open>device_tree_parse_blob\<close> reports
  success; the root it sets heads a forest without repetition that represents the tree, node
  for node and property for property: lists of compatible strings as views of each string, cell counts
  and handles as numbers, \<^verbatim>\<open>reg\<close> as pairs read with the cell counts of their node, everything else as
  raw bytes.  All of it lies in pages that are live now, beside what was live before, whose contents
  are unchanged.
\<close>

theorem parse_blob_types_properties:
  fixes s :: "'a system_scheme"
  assumes "roomy s (aside @ kept)" and "console s" and "2 ^ 14 \<le> unat (hhdm_offset s)" and "20480 + r < spare s"
    and "blob_in (kmem s) kept blob strs t" and "tree_fits t" and "text_at (kmem s) kept (lit_addr s ''/'') (SV ''/'')"
  shows "\<exists>s' n cs pages S Q. device_tree_parse_blob blob s = Inr (ec EC_SUCCESS, s') \<and> root_node (dt s') = n \<and>
    forest_at (kmem s') n (Node n cs Nil_forest) \<and> distinct (preorder (Node n cs Nil_forest)) \<and>
    forest_typed (kmem s') kept S Q 0 DEFAULT_ADDRESS_CELLS DEFAULT_SIZE_CELLS (Node n cs Nil_forest) [rooted t] \<and>
    roomy s' (aside @ pages @ kept) \<and>
    S \<union> (\<Union>n \<in> set (preorder (Node n cs Nil_forest)). extent n 72) \<union> (\<Union>q \<in> fst ` Q. extent q 56) \<subseteq> covered pages \<and>
    r < spare s' \<and> agree_on (covered (aside @ kept)) (kmem s') (kmem s)"
proof -
  obtain s' f where P: "device_tree_parse_blob blob s = Inr (ec EC_SUCCESS, s')" "blob_parsed r aside kept t f s s'"
    using parse_blob_runs [of s aside kept r blob strs t] assms by auto
  from P(2) obtain n cs pages S Q where "f = Node n cs Nil_forest" "root_node (dt s') = n" "forest_at (kmem s') n f" "distinct (preorder f)"
    "forest_typed (kmem s') kept S Q 0 DEFAULT_ADDRESS_CELLS DEFAULT_SIZE_CELLS f [rooted t]" "roomy s' (aside @ pages @ kept)"
    "S \<union> (\<Union>n \<in> set (preorder f). extent n 72) \<union> (\<Union>q \<in> fst ` Q. extent q 56) \<subseteq> covered pages" "r < spare s'"
    "agree_on (covered (aside @ kept)) (kmem s') (kmem s)" unfolding blob_parsed_def by (elim exE conjE) (rule that)
  then show ?thesis using P(1)
    by (intro exI [of _ s'] exI [of _ n] exI [of _ cs] exI [of _ pages] exI [of _ S] exI [of _ Q]) (simp only: simp_thms)
qed

text \<open>The concrete machine parses its blob.\<close>

theorem parse_blob_types_properties_witness:
  "\<exists>s s' n cs S Q. and_then (kernel_boot_console boot_system) kernel_boot_memory = Inr s \<and>
    device_tree_parse_blob 0x20000 s = Inr (ec EC_SUCCESS, s') \<and> root_node (dt s') = n \<and>
    forest_typed (kmem s') boot_kept S Q 0 DEFAULT_ADDRESS_CELLS DEFAULT_SIZE_CELLS (Node n cs Nil_forest) [rooted boot_tree]"
proof -
  obtain s0 s1 where B: "kernel_boot_console boot_system = Inr s0" "kernel_boot_memory s0 = Inr s1"
      "tree_boot_ok boot_tables boot_kept boot_strings boot_tree s1" "dtb_response (pinfo s1) = req_dtb (boot_reqs boot_system)"
      "get64 (req_dtb (boot_reqs boot_system) + 8) s1 = get64 (req_dtb (boot_reqs boot_system) + 8) boot_system"
    using boot_reaches_tree [OF boot_handed_over boot_accepts boot_affordable] by blast
  note O = tree_boot_ok_def [THEN iffD1, OF B(3)]
  have b: "get64 (dtb_response (pinfo s1) + 8) s1 = 0x20000" using B(4,5) by (simp add: get64_def boot_system_fields boot_words)
  have g: "roomy s1 (boot_tables @ boot_kept)" "console s1" "2 ^ 14 \<le> unat (hhdm_offset s1)" "20480 + 0 < spare s1"
    "blob_in (kmem s1) boot_kept 0x20000 boot_strings boot_tree" "text_at (kmem s1) boot_kept (lit_addr s1 ''/'') (SV ''/'')"
    using O by (simp_all add: b)
  have "and_then (kernel_boot_console boot_system) kernel_boot_memory = Inr s1" by (simp only: B(1,2) and_then_Inr)
  with parse_blob_types_properties [OF g(1-5) boot_tree_fits(1) g(6)] show ?thesis
    by (elim exE conjE) (intro exI conjI, assumption+)
qed

end
