(* ===== verification/Bump_Debug.thy ===== *)
theory Bump_Debug
  imports Bump_Alloc Print
begin

text \<open>
  \<^verbatim>\<open>debug_print_region_list\<close> of \<^verbatim>\<open>types/bump_alloc.c\<close>: a line for the current region and one for each
  used region.  The counter is an \<^verbatim>\<open>int\<close>, which the variable arguments extend with its sign.
\<close>

definition region_free_space :: "mem \<Rightarrow> addr \<Rightarrow> u64" where
  "region_free_space m r = br_end m r - br_offset m r"

partial_function (option) debug_print_used :: "addr \<Rightarrow> u32 \<Rightarrow> 'a machine_scheme \<Rightarrow> (halt + 'a machine_scheme) option" where
  "debug_print_used cur index s =
     (if cur \<noteq> 0 then
        case kprintln (SV ''Used Region {D}: Free Space = {D} bytes'') [scast index, region_free_space (kmem s) cur] s of
          Inl h \<Rightarrow> Some (Inl h)
        | Inr s \<Rightarrow> debug_print_used (br_next (kmem s) cur) (index + 1) s
      else Some (Inr s))"

definition debug_print_region_list :: "bump_alloc \<Rightarrow> 'a machine_scheme \<Rightarrow> (halt + 'a machine_scheme) option" where
  "debug_print_region_list bump s =
     (if current bump = 0 then Some (Inl Null_deref)
      else case kprintln (SV ''Current Region: Free Space = {D} bytes'') [region_free_space (kmem s) (current bump)] s of
          Inl h \<Rightarrow> Some (Inl h)
        | Inr s \<Rightarrow> debug_print_used (used_list bump) 0 s)"

section \<open>The text\<close>

definition current_line :: "u64 \<Rightarrow> u8 list" where
  "current_line v = SV ''Current Region: Free Space = '' @ int_digits 10 v @ SV '' bytes'' @ [0x0A]"

definition used_line :: "u64 \<Rightarrow> u64 \<Rightarrow> u8 list" where
  "used_line i v = SV ''Used Region '' @ int_digits 10 i @ SV '': Free Space = '' @ int_digits 10 v @ SV '' bytes'' @ [0x0A]"

fun used_lines :: "mem \<Rightarrow> u32 \<Rightarrow> addr list \<Rightarrow> u8 list" where
  "used_lines m i [] = []"
| "used_lines m i (r # rs) = used_line (scast i) (region_free_space m r) @ used_lines m (i + 1) rs"

lemma println_current:
  assumes "put s = Some f" and "print_buf_ok s"
  shows "\<exists>s'. kprintln (SV ''Current Region: Free Space = {D} bytes'') [v] s = Inr s' \<and> sends (current_line v) s s'"
proof -
  have "render (kmem s) (tokens None (SV ''Current Region: Free Space = {D} bytes'')) [v] =
      Some (SV ''Current Region: Free Space = '' @ int_digits 10 v @ SV '' bytes'')" by (simp add: SV_def int_prefix_def directive_def)
  from kprintln_sends [OF assms this] show ?thesis by (simp add: current_line_def)
qed

lemma println_used:
  assumes "put s = Some f" and "print_buf_ok s"
  shows "\<exists>s'. kprintln (SV ''Used Region {D}: Free Space = {D} bytes'') [i, v] s = Inr s' \<and> sends (used_line i v) s s'"
proof -
  have "render (kmem s) (tokens None (SV ''Used Region {D}: Free Space = {D} bytes'')) [i, v] =
      Some (SV ''Used Region '' @ int_digits 10 i @ SV '': Free Space = '' @ int_digits 10 v @ SV '' bytes'')"
    by (simp add: SV_def int_prefix_def directive_def)
  from kprintln_sends [OF assms this] show ?thesis by (simp add: used_line_def)
qed

lemma debug_print_used_sends:
  assumes "put s = Some f" and "print_buf_ok s" and "chain 16 (kmem s) p us"
  shows "\<exists>s'. debug_print_used p i s = Some (Inr s') \<and> sends (used_lines (kmem s) i us) s s'"
  using assms
proof (induction us arbitrary: p i s)
  case Nil
  then show ?case using sends_emit [of s "[]"] by (subst debug_print_used.simps) (simp add: chain_def)
next
  case (Cons r rs)
  have p: "p = r" "r \<noteq> 0" "chain 16 (kmem s) (br_next (kmem s) r) rs" using Cons.prems(3) by (simp_all add: chain_Cons br_next_def)
  obtain s1 where s1: "kprintln (SV ''Used Region {D}: Free Space = {D} bytes'') [scast i, region_free_space (kmem s) r] s = Inr s1"
    "sends (used_line (scast i) (region_free_space (kmem s) r)) s s1" using println_used [OF Cons.prems(1,2)] by blast
  have f: "put s1 = put s" "kmem s1 = kmem s" "print_buf_ok s1" using sends_fields [OF s1(2)] by simp_all
  obtain s' where s': "debug_print_used (br_next (kmem s) r) (i + 1) s1 = Some (Inr s')" "sends (used_lines (kmem s) (i + 1) rs) s1 s'"
    using Cons.IH [of s1 "br_next (kmem s) r" "i + 1"] p(3) Cons.prems(1) f by auto
  have "debug_print_used p i s = Some (Inr s')" using p(2) s1(1) s'(1) by (subst debug_print_used.simps) (simp add: p(1) f(2))
  then show ?case using sends_trans [OF s1(2) s'(2)] by simp
qed

text \<open>On an allocator whose regions form a list it returns, and sends the free space of every region in order.\<close>

lemma debug_print_region_list_sends:
  assumes c: "put s = Some f" "print_buf_ok s" and inv: "bump_inv b (kmem s) us live" and nz: "current b \<noteq> 0"
  shows "\<exists>s'. debug_print_region_list b s = Some (Inr s') \<and>
    sends (current_line (region_free_space (kmem s) (current b)) @ used_lines (kmem s) 0 us) s s'"
proof -
  have ch: "chain 16 (kmem s) (used_list b) us" using inv by (simp add: bump_inv_def Let_def)
  obtain s1 where s1: "kprintln (SV ''Current Region: Free Space = {D} bytes'') [region_free_space (kmem s) (current b)] s = Inr s1"
    "sends (current_line (region_free_space (kmem s) (current b))) s s1" using println_current [OF c] by blast
  have f: "put s1 = put s" "kmem s1 = kmem s" "print_buf_ok s1" using sends_fields [OF s1(2)] by simp_all
  obtain s' where s': "debug_print_used (used_list b) 0 s1 = Some (Inr s')" "sends (used_lines (kmem s) 0 us) s1 s'"
    using debug_print_used_sends [of s1 f "used_list b" us 0] ch c(1) f by auto
  then show ?thesis using sends_trans [OF s1(2) s'(2)] s1(1) nz by (simp add: debug_print_region_list_def)
qed

end
