(* ===== verification/Spec2Isabelle.thy ===== *)
theory Spec2Isabelle
  imports Prelude Numbers Memory Str_View Errors Machine Print Allocators Bump_Alloc Slab Pmm Kvspace Riscv_Sv39 Riscv_Csr
    System Uart_Driver Plic Trap Trap_Entry Virtio Device_Tree Device_Tree_Laws Devices Registry Room Device_Init Device_Runs Booted Serving
    Kernel_Entry Kernel_Boot Memmap One_Page Blob First_Pass Typing Second_Pass Tree_Pass Parse_Blob Boot_Tree Full_Boot Bump_Debug
begin

text \<open>
  Verification of the MirrodOS kernel, a 64-bit RISC-V kernel in C under \<^verbatim>\<open>src/Kernel\<close>.

  \<^bold>\<open>The program.\<close>  The boot loader hands over memory, a memory map and a device tree in a binary
  format.  \<^verbatim>\<open>kernel_c_entry\<close> (\<^verbatim>\<open>kernel_entry.c\<close>) sets up the console (\<^verbatim>\<open>uart.c\<close>, \<^verbatim>\<open>fmt/print.c\<close>), gives the
  usable memory to the physical memory manager (\<^verbatim>\<open>pmm.c\<close>), parses the device tree
  (\<^verbatim>\<open>devices/device_tree/blob.c\<close>), initialises a driver for each device it knows (\<^verbatim>\<open>devices/device.c\<close>,
  \<^verbatim>\<open>devices/plic.c\<close>, \<^verbatim>\<open>devices/uart.c\<close>, \<^verbatim>\<open>devices/virtio\<close>), enables the interrupts and waits; from then
  on \<^verbatim>\<open>trap.s\<close> and \<^verbatim>\<open>trap.c\<close> serve them.  Every structure is allocated by slab allocators
  (\<^verbatim>\<open>types/slab.c\<close>) that refill themselves with whole pages from \<^verbatim>\<open>kvspace.c\<close>, which takes them from
  the manager, which keeps its own descriptors in a slab allocator that must not refill itself.

  \<^bold>\<open>The model.\<close>  Memory is a total map from 64-bit addresses to bytes; structures and lists of the C
  code are byte ranges in it, read and written at their offsets (\<open>Memory\<close>).  The state is a record
  that grows with the layers: \<open>machine\<close> (memory, trace of device and control register accesses,
  \<open>Machine\<close>), \<open>kernel\<close> (globals of \<^verbatim>\<open>pmm.c\<close> and \<^verbatim>\<open>kvspace.c\<close>, \<open>Pmm\<close>) and \<open>system\<close> (all other globals,
  \<open>System\<close>).  A value a device or a control register returns is an input, so that the theorems hold
  for all devices.  Integers keep their width and wrap.  A function that can stop has a sum as its
  result; the left values say why: a failed assertion, a panic, a place marked as unfinished, an
  access out of bounds, a null pointer, a loop that does not end.  What the linker or the boot
  loader decides (addresses of functions and static objects, the answers) are fields of the state.

  \<^bold>\<open>Theories and code.\<close>
    \<^item> \<open>Prelude\<close>: sequencing of results that may stop, and facts on words and lists.
    \<^item> \<open>Numbers\<close>, \<open>Memory\<close>, \<open>Str_View\<close>, \<open>Errors\<close>: \<^verbatim>\<open>types/number.h\<close>, \<^verbatim>\<open>memory.c\<close>, \<^verbatim>\<open>types/str_view.c\<close>,
      \<^verbatim>\<open>types/error.c\<close>.  Rounding, copying, comparison and scanning against their abstract meaning on
      lists of bytes; the error stack as it is, with the shift that is half the width it is read at.
    \<^item> \<open>Machine\<close>, \<open>Print\<close>: \<^verbatim>\<open>uart.c\<close>, \<^verbatim>\<open>assert.h\<close>, \<^verbatim>\<open>fmt/print.c\<close>.  Formatting is the rendering of the
      tokens of the format string; printing sends exactly that text.
    \<^item> \<open>Allocators\<close>: the contract of an allocator as a locale, with what holds of any run of
      requests; \<open>Bump_Alloc\<close>, \<open>Slab\<close>, \<open>Pmm\<close> and \<open>Kvspace\<close> (\<^verbatim>\<open>types/bump_alloc.c\<close>, \<^verbatim>\<open>types/slab.c\<close>,
      \<^verbatim>\<open>pmm.c\<close>, \<^verbatim>\<open>kvspace.c\<close>) each prove their invariant and interpret it; \<open>Bump_Debug\<close> is the
      debugging output of the bump allocator.  \<open>Slab\<close> states what it needs of
      \<^verbatim>\<open>kalloc\<close> as the locale \<open>page_source\<close>, which \<open>Kvspace\<close> interprets.
    \<^item> \<open>Riscv_Sv39\<close>, \<open>Riscv_Csr\<close>: \<^verbatim>\<open>riscv.c\<close>, \<^verbatim>\<open>riscv.h\<close>.  The abstract address space is the hardware's
      walk; mapping and unmapping are exact updates of it.
    \<^item> \<open>System\<close>, \<open>Uart_Driver\<close>, \<open>Plic\<close>, \<open>Virtio\<close>: the globals, \<^verbatim>\<open>limine/platform_info.c\<close> and the drivers.
    \<^item> \<open>Trap\<close>, \<open>Trap_Entry\<close>: \<^verbatim>\<open>trap.c\<close> and \<^verbatim>\<open>asm/trap.s\<close>, the latter as instructions on registers.
    \<^item> \<open>Device_Tree\<close>, \<open>Device_Tree_Laws\<close>: \<^verbatim>\<open>blob.c\<close>; the step of each token, the decoding of \<^verbatim>\<open>reg\<close>, the
      lookups as searches in the abstract tree.
    \<^item> \<open>Blob\<close> and \<open>First_Pass\<close>: the binary form of an abstract tree, and that the first pass over it
      builds that tree in memory. \<open>One_Page\<close> holds what the tree's allocators need for it: their
      block sizes are no powers of two, so that they are correct only on their first page, which is
      54 nodes and 70 properties.
    \<^item> \<open>Typing\<close>, \<open>Second_Pass\<close>, \<open>Tree_Pass\<close>, \<open>Parse_Blob\<close>: the second pass. \<open>Typing\<close> says what a value of each
      kind means and what a decoded property looks like in memory; \<open>Second_Pass\<close> decodes the properties
      of a node, in the two loops of the code; \<open>Tree_Pass\<close> does so for every node with the cell counts
      of its parent; \<open>Parse_Blob\<close> puts the passes together: on a blob that encodes a tree of the specified form,
      within the bounds above and 8168 bytes of decoded arrays, parsing succeeds and gives that tree, typed.
      \<open>forest_typed\<close> relates the nodes in memory to the abstract tree.
    \<^item> \<open>Devices\<close>, \<open>Registry\<close>, \<open>Device_Init\<close>, \<open>Booted\<close>: \<^verbatim>\<open>device.c\<close>; the registry of drivers, its invariant,
      the walk as a fold over the nodes in preorder, and that the invariant is established.
    \<^item> \<open>Room\<close>, \<open>Device_Runs\<close>: that requests for pages are granted while enough memory is in reserve,
      and with it that the initialisation of the devices comes to an end.
    \<^item> \<open>Serving\<close>: any history of traps keeps the registry, and the next interrupt is served.
    \<^item> \<open>Kernel_Entry\<close>, \<open>Memmap\<close>, \<open>Kernel_Boot\<close>: \<^verbatim>\<open>kernel_entry.c\<close>; the loop over the memory map against a
      fold over the list of its entries, the order in which the interrupts are enabled, and the boot
      from the parsed device tree to the wait loop.
    \<^item> \<open>Boot_Tree\<close>, \<open>Full_Boot\<close>: what the blob says about the devices is what their initialisation finds, so
      that the whole of \<^verbatim>\<open>kernel_c_entry\<close> runs, from what the boot loader hands over (\<open>handed_over\<close>) to a
      kernel that serves every interrupt (\<open>serving\<close>); and a concrete machine on which it does.

  \<^bold>\<open>Fuel and bounds.\<close>  No definition takes fuel.  The loops that may run forever, the scan for a
  terminator, the polling of the console's input and the walks along lists and trees in memory, are
  partial functions whose value is \<open>None\<close> then, which their callers turn into the halt \<open>Hang\<close>; that
  they return is part of the theorems, which relate what is walked to an abstract list or tree.
  Theorems that need memory ask for \<open>spare\<close>: the free bytes less four pages for each region, because aligning a request can
  lose the tail of the block it is cut from.

  \<^bold>\<open>Not modelled.\<close>  \<^verbatim>\<open>limine.h\<close> is the boot loader's header and has declarations only; \<^verbatim>\<open>vmm.c\<close> is
  empty; the placement of objects in linker sections is data for the boot loader.  The texts that
  \<^verbatim>\<open>ASSERT\<close> and \<^verbatim>\<open>TODO\<close> print are left out.  One hart
  runs, and a trap is handled to its end before the next: the code takes no locks, and enables the
  interrupts as the last step of the boot.
\<close>

end
